(* ===== verification/Prelude.thy ===== *)
theory Prelude
  imports Main "HOL-Library.Word" "HOL-Library.Multiset"
begin

text \<open>
  Vocabulary shared by every component.  A Rust \<open>Vec<T>\<close> is a list whose last element
  is the top of the stack (\<open>push\<close> appends, \<open>pop\<close> takes the last); a \<open>usize\<close> is a
  natural number, with the saturating and wrapping operations of 64-bit arithmetic written
  out where the source calls them; a fallible call returns \<open>err + 'a\<close>; a panic (an index
  out of range, a failed \<open>debug_assert!\<close>, a failed \<open>unwrap\<close>) is \<open>None\<close> or the
  error \<open>Panic\<close>.
\<close>

section \<open>Machine types and errors\<close>

type_synonym u8 = "8 word"
type_synonym u16 = "16 word"
type_synonym u32 = "32 word"
type_synonym u64 = "64 word"

text \<open>
  The errors of the candle \<open>Result\<close>s: the pool's own exhaustion message, which carries the
  ceiling, a failure of the tensor library, and a panic on a path that also returns errors.
\<close>

datatype err = Exhausted nat | Tensor_failed | Cache_empty | Panic

section \<open>64-bit arithmetic on natural numbers\<close>

definition usize_max :: nat where
  "usize_max = 2 ^ 64 - 1"

text \<open>\<open>usize::saturating_add\<close>; \<open>saturating_sub\<close> is subtraction on \<open>nat\<close>.\<close>

definition sat_add :: "nat \<Rightarrow> nat \<Rightarrow> nat" where
  "sat_add a b = min (a + b) usize_max"

text \<open>Wrapping subtraction, as \<open>AtomicUsize::fetch_sub\<close> computes it.\<close>

definition wrap_sub :: "nat \<Rightarrow> nat \<Rightarrow> nat" where
  "wrap_sub a b = (if b \<le> a then a - b else a + 2 ^ 64 - b)"

text \<open>Wrapping addition, as \<open>AtomicUsize::fetch_add\<close> computes it.\<close>

definition wrap_add :: "nat \<Rightarrow> nat \<Rightarrow> nat" where
  "wrap_add a b = (a + b) mod 2 ^ 64"

text \<open>\<open>usize::div_ceil\<close>.\<close>

definition div_ceil :: "nat \<Rightarrow> nat \<Rightarrow> nat" where
  "div_ceil a b = (if a mod b = 0 then a div b else Suc (a div b))"

section \<open>Vec operations\<close>

text \<open>\<open>Vec::swap_remove(i)\<close>: the element at \<open>i\<close> goes, the last one takes its slot.\<close>

definition swap_remove :: "'a list \<Rightarrow> nat \<Rightarrow> 'a list" where
  "swap_remove xs i = (if Suc i = length xs then butlast xs else (butlast xs)[i := last xs])"

text \<open>\<open>Iterator::position\<close>: the first index whose element satisfies the predicate.\<close>

fun position :: "('a \<Rightarrow> bool) \<Rightarrow> 'a list \<Rightarrow> nat option" where
  "position p [] = None"
| "position p (x # xs) = (if p x then Some 0 else map_option Suc (position p xs))"

text \<open>\<open>Vec::remove(i)\<close>: everything after \<open>i\<close> moves one place down.\<close>

definition remove_at :: "'a list \<Rightarrow> nat \<Rightarrow> 'a list" where
  "remove_at xs i = take i xs @ drop (Suc i) xs"

text \<open>\<open>Vec::insert(i, x)\<close>.\<close>

definition insert_at :: "'a list \<Rightarrow> nat \<Rightarrow> 'a \<Rightarrow> 'a list" where
  "insert_at xs i x = take i xs @ x # drop i xs"

text \<open>
  \<open>slice::partition_point(p)\<close> on a slice whose elements satisfying \<open>p\<close> come first: the
  number of those elements.
\<close>

text \<open>\<open>slice::get\<close>, and \<open>str::strip_prefix\<close> over the bytes or characters of a string.\<close>

definition nth_opt :: "'a list \<Rightarrow> nat \<Rightarrow> 'a option" where
  "nth_opt xs i = (if i < length xs then Some (xs ! i) else None)"

fun strip_prefix :: "'a list \<Rightarrow> 'a list \<Rightarrow> 'a list option" where
  "strip_prefix [] ys = Some ys"
| "strip_prefix (x # xs) (y # ys) = (if x = y then strip_prefix xs ys else None)"
| "strip_prefix (x # xs) [] = None"

definition partition_point :: "('a \<Rightarrow> bool) \<Rightarrow> 'a list \<Rightarrow> nat" where
  "partition_point p xs = length (takeWhile p xs)"

section \<open>Lemmas on these operations\<close>

named_theorems vec_simps

lemma wrap_sub_le [simp]: "b \<le> a \<Longrightarrow> wrap_sub a b = a - b"
  by (simp add: wrap_sub_def)

lemma position_Some:
  "position p xs = Some i \<Longrightarrow> i < length xs \<and> p (xs ! i) \<and> (\<forall>j < i. \<not> p (xs ! j))"
proof (induction xs arbitrary: i)
  case Nil
  then show ?case by simp
next
  case (Cons x xs)
  then show ?case
    by (auto split: if_splits simp: nth_Cons less_Suc_eq_0_disj)
qed

lemma position_None: "position p xs = None \<longleftrightarrow> (\<forall>x \<in> set xs. \<not> p x)"
  by (induction xs) auto

lemma mset_remove_at [vec_simps]:
  "i < length xs \<Longrightarrow> mset xs = add_mset (xs ! i) (mset (remove_at xs i))"
proof -
  assume "i < length xs"
  then have "mset xs = mset (take i xs @ xs ! i # drop (Suc i) xs)"
    by (simp add: id_take_nth_drop [symmetric])
  then show ?thesis by (simp add: remove_at_def)
qed

lemma length_remove_at [simp]: "i < length xs \<Longrightarrow> length (remove_at xs i) = length xs - 1"
  by (simp add: remove_at_def)

lemma remove_at_simps [simp]:
  "remove_at [] i = []"
  "remove_at (x # xs) 0 = xs"
  "remove_at (x # xs) (Suc i) = x # remove_at xs i"
  by (simp_all add: remove_at_def)

lemma set_remove_at: "set (remove_at xs i) \<subseteq> set xs"
  by (auto simp: remove_at_def dest: in_set_takeD in_set_dropD)

lemma sorted_remove_at: "sorted (map f xs) \<Longrightarrow> sorted (map f (remove_at xs i))"
proof (induction xs arbitrary: i)
  case Nil
  then show ?case by simp
next
  case (Cons x xs)
  then show ?case by (cases i) (auto dest: set_remove_at [THEN subsetD])
qed

lemma mset_insert_at [vec_simps]: "mset (insert_at xs i x) = add_mset x (mset xs)"
proof -
  have "mset (take i xs) + mset (drop i xs) = mset xs"
    by (simp only: mset_append [symmetric] append_take_drop_id)
  then show ?thesis unfolding insert_at_def by simp
qed

lemma length_insert_at [simp]: "length (insert_at xs i x) = Suc (length xs)"
  by (simp add: insert_at_def)

lemma mset_butlast_last [vec_simps]:
  "xs \<noteq> [] \<Longrightarrow> mset xs = add_mset (last xs) (mset (butlast xs))"
  by (subst append_butlast_last_id [symmetric]) (simp_all del: append_butlast_last_id)

lemma length_swap_remove [simp]: "i < length xs \<Longrightarrow> length (swap_remove xs i) = length xs - 1"
  by (auto simp: swap_remove_def)

lemma mset_swap_remove [vec_simps]:
  "i < length xs \<Longrightarrow> mset xs = add_mset (xs ! i) (mset (swap_remove xs i))"
proof -
  assume i: "i < length xs"
  then have ne: "xs \<noteq> []" by auto
  show ?thesis
  proof (cases "Suc i = length xs")
    case True
    then have "xs ! i = last xs" using ne by (simp add: last_conv_nth flip: True)
    with True ne show ?thesis by (simp add: swap_remove_def mset_butlast_last)
  next
    case False
    with i have i': "i < length (butlast xs)" by simp
    then have "mset ((butlast xs)[i := last xs]) =
        add_mset (last xs) (mset (butlast xs) - {#butlast xs ! i#})"
      by (simp add: mset_update)
    moreover have "butlast xs ! i = xs ! i" using i' by (simp add: nth_butlast)
    moreover have "xs ! i \<in># mset (butlast xs)" using i' by (metis nth_butlast nth_mem set_mset_mset)
    ultimately show ?thesis using False ne by (simp add: swap_remove_def mset_butlast_last)
  qed
qed

lemma nth_swap_remove:
  assumes "i < length xs" and "j < length xs - 1"
  shows "swap_remove xs i ! j = (if j = i then last xs else xs ! j)"
  using assms by (auto simp: swap_remove_def nth_butlast nth_list_update)

lemma sorted_insert_at_partition_point:
  assumes "sorted (map f xs)"
  shows "sorted (map f (insert_at xs (partition_point (\<lambda>y. f y < f x) xs) x))"
  using assms
proof (induction xs)
  case Nil
  then show ?case by (simp add: insert_at_def)
next
  case (Cons y ys)
  let ?pp = "partition_point (\<lambda>y. f y < f x) ys"
  show ?case
  proof (cases "f y < f x")
    case True
    have e: "insert_at (y # ys) (partition_point (\<lambda>y. f y < f x) (y # ys)) x = y # insert_at ys ?pp x"
      using True by (simp add: insert_at_def partition_point_def)
    have "set (insert_at ys ?pp x) = insert x (set ys)"
      using arg_cong [OF mset_insert_at [of ys ?pp x], of set_mset] by simp
    with True Cons show ?thesis by (auto simp: e)
  next
    case False
    with Cons.prems show ?thesis
      by (auto simp: insert_at_def partition_point_def)
  qed
qed

lemma div_ceil_bounds:
  assumes "0 < b"
  shows "a \<le> div_ceil a b * b" and "div_ceil a b * b < a + b"
proof -
  obtain q r where a: "a = q * b + r" and r: "r < b"
    using assms by (metis div_mult_mod_eq mod_less_divisor)
  have dm: "a div b = q" "a mod b = r" using r assms by (simp_all add: a)
  show "a \<le> div_ceil a b * b" using r by (simp add: div_ceil_def dm) (simp add: a)
  show "div_ceil a b * b < a + b" using r assms by (simp add: div_ceil_def dm) (simp add: a)
qed

end
