(* ===== verification/Lru.thy ===== *)
theory Lru
  imports Prelude
begin

text \<open>
  The third-party \<open>lru::LruCache\<close>, which \<open>src/common/prefix_cache.rs\<close> builds on, as an
  interface: its operations are fields of a record that the models take as an argument, and
  its documented behaviour is the locale \<open>lru_cache\<close>.  \<open>items\<close> lists the entries from
  the most to the least recently used.
\<close>

record ('c, 'k, 'e) lru_ops =
  lru_new :: "nat \<Rightarrow> 'c"
  lru_peek :: "'c \<Rightarrow> 'k \<Rightarrow> 'e option"
  lru_get :: "'c \<Rightarrow> 'k \<Rightarrow> 'c \<times> 'e option"
  lru_contains :: "'c \<Rightarrow> 'k \<Rightarrow> bool"
  lru_push :: "'c \<Rightarrow> 'k \<Rightarrow> 'e \<Rightarrow> 'c \<times> ('k \<times> 'e) option"
  lru_pop :: "'c \<Rightarrow> 'c \<times> ('k \<times> 'e) option"

definition without :: "'k \<Rightarrow> ('k \<times> 'e) list \<Rightarrow> ('k \<times> 'e) list" where
  "without k xs = filter (\<lambda>(k', e). k' \<noteq> k) xs"

locale lru_cache =
  fixes ops :: "('c, 'k, 'e) lru_ops"
    and items :: "'c \<Rightarrow> ('k \<times> 'e) list"
    and cap :: "'c \<Rightarrow> nat"
  assumes items_new: "items (lru_new ops n) = []"
    and cap_new: "cap (lru_new ops n) = n"
    and distinct_items: "distinct (map fst (items c))"
    and items_le_cap: "length (items c) \<le> cap c"
    and peek: "lru_peek ops c k = map_of (items c) k"
    and contains: "lru_contains ops c k \<longleftrightarrow> k \<in> fst ` set (items c)"
    and get_result: "snd (lru_get ops c k) = map_of (items c) k"
    and get_items: "items (fst (lru_get ops c k)) =
      (case map_of (items c) k of None \<Rightarrow> items c | Some e \<Rightarrow> (k, e) # without k (items c))"
    and get_cap: "cap (fst (lru_get ops c k)) = cap c"
    and push_new: "k \<notin> fst ` set (items c) \<Longrightarrow> length (items c) < cap c \<Longrightarrow>
      items (fst (lru_push ops c k e)) = (k, e) # items c \<and> snd (lru_push ops c k e) = None"
    and push_full: "k \<notin> fst ` set (items c) \<Longrightarrow> length (items c) = cap c \<Longrightarrow> 0 < cap c \<Longrightarrow>
      items (fst (lru_push ops c k e)) = (k, e) # butlast (items c)
      \<and> snd (lru_push ops c k e) = Some (last (items c))"
    and push_cap: "cap (fst (lru_push ops c k e)) = cap c"
    and pop_empty: "items c = [] \<Longrightarrow> items (fst (lru_pop ops c)) = [] \<and> snd (lru_pop ops c) = None"
    and pop_last: "items c \<noteq> [] \<Longrightarrow>
      items (fst (lru_pop ops c)) = butlast (items c) \<and> snd (lru_pop ops c) = Some (last (items c))"
    and pop_cap: "cap (fst (lru_pop ops c)) = cap c"
begin

lemma mset_get: "mset (items (fst (lru_get ops c k))) = mset (items c)"
proof (cases "map_of (items c) k")
  case None
  then show ?thesis by (simp add: get_items)
next
  case (Some e)
  then have "(k, e) \<in> set (items c)" by (rule map_of_SomeD)
  then obtain xs ys where s: "items c = xs @ (k, e) # ys" by (metis split_list)
  then have "k \<notin> fst ` set xs" "k \<notin> fst ` set ys" using distinct_items [of c] by auto
  then have "without k (items c) = xs @ ys"
    unfolding without_def s by (simp, subst (1 2) filter_True) (auto simp: image_iff)
  then show ?thesis using Some s by (simp add: get_items)
qed

lemma map_of_get: "map_of (items (fst (lru_get ops c k))) = map_of (items c)"
  using mset_get [of c k] distinct_items by (metis map_of_inject_set set_mset_mset)

lemma push_split:
  assumes "k \<notin> fst ` set (items c)" and "0 < cap c" and "lru_push ops c k e = (c', ev)"
  shows "(ev = None \<and> mset (items c') = add_mset (k, e) (mset (items c)))
    \<or> (\<exists>x. ev = Some x \<and> add_mset x (mset (items c')) = add_mset (k, e) (mset (items c)))"
proof (cases "length (items c) < cap c")
  case True
  then show ?thesis using push_new [OF assms(1) True, of e] assms(3) by simp
next
  case False
  then have l: "length (items c) = cap c" using items_le_cap [of c] by simp
  then have "items c \<noteq> []" using assms(2) by auto
  then have "mset (items c) = add_mset (last (items c)) (mset (butlast (items c)))"
    by (rule mset_butlast_last)
  then show ?thesis using push_full [OF assms(1) l assms(2), of e] assms(3) by simp
qed

lemma pop_split:
  assumes "lru_pop ops c = (c', r)"
  shows "(r = None \<and> items c = [] \<and> items c' = [])
    \<or> (\<exists>x. r = Some x \<and> mset (items c) = add_mset x (mset (items c'))
        \<and> length (items c) = Suc (length (items c')))"
proof (cases "items c = []")
  case True
  then show ?thesis using pop_empty [OF True] assms by simp
next
  case False
  then show ?thesis using pop_last [OF False] assms mset_butlast_last [OF False] by simp
qed

end

section \<open>A list implementation\<close>

text \<open>
  The interface realised by the list of entries itself, bounded by its capacity: it shows
  that the laws hold together and gives the closed examples an LRU to run on.
\<close>

definition list_get :: "('k \<times> 'e) list \<Rightarrow> 'k \<Rightarrow> ('k \<times> 'e) list" where
  "list_get xs k = (case map_of xs k of None \<Rightarrow> xs | Some e \<Rightarrow> (k, e) # without k xs)"

definition list_push :: "nat \<Rightarrow> ('k \<times> 'e) list \<Rightarrow> 'k \<Rightarrow> 'e \<Rightarrow> ('k \<times> 'e) list" where
  "list_push n xs k e =
     (if n = 0 then xs
      else if k \<in> fst ` set xs then (k, e) # without k xs
      else if length xs < n then (k, e) # xs else (k, e) # butlast xs)"

definition list_ok :: "nat \<times> ('k \<times> 'e) list \<Rightarrow> bool" where
  "list_ok p \<longleftrightarrow> distinct (map fst (snd p)) \<and> length (snd p) \<le> fst p"

lemma length_without: "(k, e) \<in> set xs \<Longrightarrow> length (without k xs) < length xs"
  unfolding without_def by (rule length_filter_less) auto

lemma without_ok:
  "k \<notin> fst ` set (without k xs)" "distinct (map fst xs) \<Longrightarrow> distinct (map fst (without k xs))"
  by (auto simp: without_def distinct_map_filter)

lemma without_cons_ok:
  assumes "list_ok (n, xs)" and "k \<in> fst ` set xs"
  shows "list_ok (n, (k, e) # without k xs)"
proof -
  have "length (without k xs) < length xs" using assms(2) length_without by fastforce
  moreover have "distinct (map fst ((k, e) # without k xs))"
    using assms(1) without_ok(1) [of k xs] without_ok(2) [of xs k] by (simp add: list_ok_def)
  ultimately show ?thesis using assms(1) by (simp add: list_ok_def)
qed

lemma list_get_ok: "list_ok (n, xs) \<Longrightarrow> list_ok (n, list_get xs k)"
  using without_cons_ok [of n xs k] map_of_eq_None_iff [of xs k]
  by (auto simp: list_get_def split: option.splits)

lemma list_push_ok: "list_ok (n, xs) \<Longrightarrow> list_ok (n, list_push n xs k e)"
proof -
  assume ok: "list_ok (n, xs)"
  then have d: "distinct (map fst xs)" and l: "length xs \<le> n" by (simp_all add: list_ok_def)
  consider "n = 0" | (old) "n \<noteq> 0" "k \<in> fst ` set xs" | (room) "n \<noteq> 0" "k \<notin> fst ` set xs" "length xs < n"
    | (full) "n \<noteq> 0" "k \<notin> fst ` set xs" "\<not> length xs < n" by blast
  then show ?thesis
  proof cases
    case old
    then show ?thesis using without_cons_ok [OF ok old(2)] by (simp add: list_push_def)
  next
    case full
    have "distinct (map fst (butlast xs))" using d by (simp add: map_butlast distinct_butlast)
    moreover have "k \<notin> fst ` set (butlast xs)" using full(2) by (auto dest: in_set_butlastD)
    ultimately show ?thesis using full l by (auto simp: list_ok_def list_push_def)
  qed (use ok d in \<open>auto simp: list_ok_def list_push_def\<close>)
qed

typedef ('k, 'e) lru_list = "{p :: nat \<times> ('k \<times> 'e) list. list_ok p}"
  by (intro exI [of _ "(0, [])"]) (simp add: list_ok_def)

setup_lifting type_definition_lru_list

lift_definition ll_cap :: "('k, 'e) lru_list \<Rightarrow> nat" is fst .

lift_definition ll_items :: "('k, 'e) lru_list \<Rightarrow> ('k \<times> 'e) list" is snd .

lift_definition ll_new :: "nat \<Rightarrow> ('k, 'e) lru_list" is "\<lambda>n. (n, [])"
  by (simp add: list_ok_def)

lift_definition ll_get :: "('k, 'e) lru_list \<Rightarrow> 'k \<Rightarrow> ('k, 'e) lru_list" is
  "\<lambda>p k. (fst p, list_get (snd p) k)"
  by (simp add: list_get_ok)

lift_definition ll_push :: "('k, 'e) lru_list \<Rightarrow> 'k \<Rightarrow> 'e \<Rightarrow> ('k, 'e) lru_list" is
  "\<lambda>p k e. (fst p, list_push (fst p) (snd p) k e)"
  by (simp add: list_push_ok)

lift_definition ll_pop :: "('k, 'e) lru_list \<Rightarrow> ('k, 'e) lru_list" is "\<lambda>p. (fst p, butlast (snd p))"
  by (auto simp: list_ok_def map_butlast distinct_butlast)

lemma ll_simps [simp]:
  "ll_cap (ll_new n) = n" "ll_items (ll_new n) = []"
  "ll_cap (ll_get c k) = ll_cap c" "ll_items (ll_get c k) = list_get (ll_items c) k"
  "ll_cap (ll_push c k e) = ll_cap c" "ll_items (ll_push c k e) = list_push (ll_cap c) (ll_items c) k e"
  "ll_cap (ll_pop c) = ll_cap c" "ll_items (ll_pop c) = butlast (ll_items c)"
  by (transfer, simp)+

lemma ll_ok: "distinct (map fst (ll_items c))" "length (ll_items c) \<le> ll_cap c"
  by (transfer, simp add: list_ok_def)+

definition ll_ops :: "(('k, 'e) lru_list, 'k, 'e) lru_ops" where
  "ll_ops =
     \<lparr>lru_new = ll_new,
      lru_peek = (\<lambda>c k. map_of (ll_items c) k),
      lru_get = (\<lambda>c k. (ll_get c k, map_of (ll_items c) k)),
      lru_contains = (\<lambda>c k. k \<in> fst ` set (ll_items c)),
      lru_push = (\<lambda>c k e.
        (ll_push c k e,
         if ll_cap c = 0 then Some (k, e)
         else case map_of (ll_items c) k of
           Some old \<Rightarrow> Some (k, old)
         | None \<Rightarrow> if length (ll_items c) < ll_cap c then None else Some (last (ll_items c)))),
      lru_pop = (\<lambda>c. (ll_pop c, if ll_items c = [] then None else Some (last (ll_items c))))\<rparr>"

lemma map_of_notin: "k \<notin> fst ` set xs \<Longrightarrow> map_of xs k = None"
  by (simp add: map_of_eq_None_iff)

interpretation ll: lru_cache "ll_ops :: (('k, 'e) lru_list, 'k, 'e) lru_ops" ll_items ll_cap
  by unfold_locales
    (simp_all add: ll_ops_def ll_ok list_get_def list_push_def map_of_notin)

end
