(* ===== verification/Contig_Pool.thy ===== *)
theory Contig_Pool
  imports Prelude
begin

text \<open>
  The retired contiguous buffers of one layer (\<open>ContigBufferPool\<close>) and the byte budget the
  layers of a model share (\<open>ContigBudget\<close>), from \<open>src/common/paged.rs\<close>.  The
  \<open>Arc<ContigBudget>\<close> is shared and mutated in place, so budgets live in an explicit store,
  a function from addresses, and a pool holds the address of its budget.
\<close>

section \<open>The shared byte budget\<close>

record contig_budget =
  bg_limit :: nat
  bg_held :: nat

definition contig_budget_new :: "nat \<Rightarrow> contig_budget" where
  "contig_budget_new limit = \<lparr>bg_limit = limit, bg_held = 0\<rparr>"

text \<open>
  \<open>ContigBudget::try_add\<close>: \<open>None\<close> is the answer \<open>false\<close>.  The compare-exchange
  loop is one atomic step of the counter.
\<close>

definition budget_try_add :: "contig_budget \<Rightarrow> nat \<Rightarrow> contig_budget option" where
  "budget_try_add b bytes =
     (if bg_limit b < sat_add (bg_held b) bytes then None
      else Some (b\<lparr>bg_held := wrap_add (bg_held b) bytes\<rparr>))"

definition budget_sub :: "contig_budget \<Rightarrow> nat \<Rightarrow> contig_budget" where
  "budget_sub b bytes = b\<lparr>bg_held := wrap_sub (bg_held b) bytes\<rparr>"

type_synonym budgets = "nat \<Rightarrow> contig_budget"

section \<open>The buffers of one layer\<close>

record 't contig_buffer =
  buf_k :: 't
  buf_v :: 't
  buf_cap :: nat

record 't contig_pool =
  buffers :: "'t contig_buffer list"
  max_buffers :: nat
  bytes_per_token :: nat
  pool_budget :: nat

definition max_pool_buffers :: nat where
  "max_pool_buffers = 4"

text \<open>
  \<open>ContigBufferPool::new\<close>: the pool starts under a budget of its own, unbounded; \<open>addr\<close>
  is the address that fresh \<open>Arc\<close> gets.
\<close>

definition contig_pool_new ::
    "budgets \<Rightarrow> nat \<Rightarrow> nat \<Rightarrow> nat \<Rightarrow> budgets \<times> 't contig_pool" where
  "contig_pool_new B addr maxb bpt =
     (B(addr := contig_budget_new usize_max),
      \<lparr>buffers = [], max_buffers = maxb, bytes_per_token = bpt, pool_budget = addr\<rparr>)"

definition buffer_bytes :: "'t contig_pool \<Rightarrow> 't contig_buffer \<Rightarrow> nat" where
  "buffer_bytes p b = buf_cap b * bytes_per_token p"

definition contig_take ::
    "budgets \<Rightarrow> 't contig_pool \<Rightarrow> nat \<Rightarrow> budgets \<times> 't contig_pool \<times> 't contig_buffer option" where
  "contig_take B p needed =
     (case position (\<lambda>b. needed \<le> buf_cap b) (buffers p) of
        None \<Rightarrow> (B, p, None)
      | Some idx \<Rightarrow>
          let buf = buffers p ! idx
          in (B(pool_budget p := budget_sub (B (pool_budget p)) (buf_cap buf * bytes_per_token p)),
              p\<lparr>buffers := remove_at (buffers p) idx\<rparr>, Some buf))"

text \<open>
  The loop of \<open>put\<close>: while the bytes do not fit, the largest buffer goes; an empty pool
  that still cannot reserve them gives up (\<open>False\<close>).
\<close>

fun put_room ::
    "contig_budget \<Rightarrow> nat \<Rightarrow> nat \<Rightarrow> 't contig_buffer list \<Rightarrow>
     bool \<times> contig_budget \<times> 't contig_buffer list" where
  "put_room bg bytes bpt bufs =
     (case budget_try_add bg bytes of
        Some bg' \<Rightarrow> (True, bg', bufs)
      | None \<Rightarrow>
          if bufs = [] then (False, bg, [])
          else put_room (budget_sub bg (buf_cap (last bufs) * bpt)) bytes bpt (butlast bufs))"

declare put_room.simps [simp del]

definition contig_put ::
    "budgets \<Rightarrow> 't contig_pool \<Rightarrow> 't contig_buffer \<Rightarrow> budgets \<times> 't contig_pool" where
  "contig_put B p buf =
     (if max_buffers p = 0 then (B, p)
      else
        let bytes = buf_cap buf * bytes_per_token p;
            (fits, bg, bufs) = put_room (B (pool_budget p)) bytes (bytes_per_token p) (buffers p)
        in if \<not> fits then (B(pool_budget p := bg), p\<lparr>buffers := bufs\<rparr>)
           else
             let pos = partition_point (\<lambda>b. buf_cap b < buf_cap buf) bufs;
                 bufs' = insert_at bufs pos buf
             in if max_buffers p < length bufs'
                then (B(pool_budget p := budget_sub bg (buf_cap (bufs' ! 0) * bytes_per_token p)),
                      p\<lparr>buffers := remove_at bufs' 0\<rparr>)
                else (B(pool_budget p := bg), p\<lparr>buffers := bufs'\<rparr>))"

text \<open>\<open>set_budget\<close>: the pool, and what it holds, moves under the budget at \<open>addr\<close>.\<close>

definition contig_set_budget ::
    "budgets \<Rightarrow> 't contig_pool \<Rightarrow> nat \<Rightarrow> budgets \<times> 't contig_pool" where
  "contig_set_budget B p addr =
     (let held = sum_list (map (\<lambda>b. buf_cap b * bytes_per_token p) (buffers p));
          B1 = B(pool_budget p := budget_sub (B (pool_budget p)) held);
          B2 = B1(addr := (B1 addr)\<lparr>bg_held := wrap_add (bg_held (B1 addr)) held\<rparr>)
      in (B2, p\<lparr>pool_budget := addr\<rparr>))"

section \<open>What a pool holds, and the invariant\<close>

definition pool_held :: "'t contig_pool \<Rightarrow> nat" where
  "pool_held p = sum_list (map (\<lambda>b. buf_cap b * bytes_per_token p) (buffers p))"

text \<open>The pool's own shape: ascending capacities, no more buffers than it may keep.\<close>

definition contig_ok :: "'t contig_pool \<Rightarrow> bool" where
  "contig_ok p \<longleftrightarrow> sorted (map buf_cap (buffers p)) \<and> length (buffers p) \<le> max_buffers p"

text \<open>
  The budget invariant over the pools that share one: what the budget counts is what the
  pools under it hold (\<open>others\<close> is what every other pool under the same budget holds),
  and it stays under the limit.  The limit is a real one: the private budget a fresh pool
  starts with counts up to \<open>usize::MAX\<close>, where the saturating guard can refuse nothing.
\<close>

definition budget_ok :: "contig_budget \<Rightarrow> nat \<Rightarrow> bool" where
  "budget_ok b tot \<longleftrightarrow> bg_held b = tot \<and> tot \<le> bg_limit b \<and> bg_limit b < usize_max"

definition held_of :: "nat \<Rightarrow> 't contig_buffer list \<Rightarrow> nat" where
  "held_of bpt bufs = sum_list (map (\<lambda>b. buf_cap b * bpt) bufs)"

lemma pool_held_of: "pool_held p = held_of (bytes_per_token p) (buffers p)"
  by (simp add: pool_held_def held_of_def)

lemma held_of_sum_mset: "held_of bpt xs = sum_mset (image_mset (\<lambda>b. buf_cap b * bpt) (mset xs))"
  by (simp only: held_of_def sum_mset_sum_list mset_map [symmetric])

lemma held_of_add: "mset xs = add_mset y (mset ys) \<Longrightarrow> held_of bpt xs = buf_cap y * bpt + held_of bpt ys"
  by (simp add: held_of_sum_mset)

lemma held_of_Nil [simp]: "held_of bpt [] = 0"
  by (simp add: held_of_def)

lemma budget_try_add_ok:
  assumes ok: "budget_ok b n" and add: "budget_try_add b bytes = Some b'"
  shows "budget_ok b' (n + bytes)" and "bg_limit b' = bg_limit b"
proof -
  have b': "b' = b\<lparr>bg_held := wrap_add (bg_held b) bytes\<rparr>"
    and le: "sat_add (bg_held b) bytes \<le> bg_limit b"
    using add by (auto simp: budget_try_add_def split: if_splits)
  have lim: "bg_limit b < usize_max" and n: "bg_held b = n" using ok by (auto simp: budget_ok_def)
  from le lim have fit: "n + bytes \<le> bg_limit b" by (simp add: sat_add_def n min_def split: if_splits)
  then have "wrap_add n bytes = n + bytes" using lim by (simp add: wrap_add_def usize_max_def)
  with fit lim show "budget_ok b' (n + bytes)" by (simp add: b' n budget_ok_def)
  show "bg_limit b' = bg_limit b" by (simp add: b')
qed

lemma budget_sub_ok:
  "budget_ok b (bytes + n) \<Longrightarrow> budget_ok (budget_sub b bytes) n"
  by (simp add: budget_ok_def budget_sub_def)

lemma bg_limit_budget_sub [simp]: "bg_limit (budget_sub b n) = bg_limit b"
  by (simp add: budget_sub_def)

lemma put_room_spec:
  assumes "budget_ok bg (held_of bpt bufs + others)"
    and "put_room bg bytes bpt bufs = (fits, bg', bufs')"
  shows "(\<exists>n. bufs' = take n bufs)
    \<and> bg_limit bg' = bg_limit bg
    \<and> (if fits then budget_ok bg' (bytes + held_of bpt bufs' + others)
       else bufs' = [] \<and> budget_ok bg' others \<and> bg_limit bg < bytes + others)"
  using assms
proof (induction bg bytes bpt bufs rule: put_room.induct)
  case (1 bg bytes bpt bufs)
  note eq = "1.prems"(2) [unfolded put_room.simps [of bg bytes bpt bufs]]
  show ?case
  proof (cases "budget_try_add bg bytes")
    case (Some bg1)
    with eq have r: "fits" "bg' = bg1" "bufs' = bufs" by auto
    have "budget_ok bg1 (held_of bpt bufs + others + bytes)" and "bg_limit bg1 = bg_limit bg"
      using budget_try_add_ok [OF "1.prems"(1) Some] by auto
    with r show ?thesis by (auto simp: algebra_simps intro: exI [of _ "length bufs"])
  next
    case None
    show ?thesis
    proof (cases "bufs = []")
      case True
      with eq None have "\<not> fits" "bg' = bg" "bufs' = []" by auto
      moreover have "bg_limit bg < bytes + others"
        using None "1.prems"(1) True
        by (simp add: budget_try_add_def budget_ok_def sat_add_def split: if_splits)
      ultimately show ?thesis using "1.prems"(1) True by auto
    next
      case False
      let ?bg1 = "budget_sub bg (buf_cap (last bufs) * bpt)"
      have h: "held_of bpt bufs = buf_cap (last bufs) * bpt + held_of bpt (butlast bufs)"
        using False by (intro held_of_add mset_butlast_last)
      have ok: "budget_ok ?bg1 (held_of bpt (butlast bufs) + others)"
        using "1.prems"(1) by (intro budget_sub_ok) (simp add: h algebra_simps)
      have rec: "put_room ?bg1 bytes bpt (butlast bufs) = (fits, bg', bufs')"
        using eq None False by simp
      show ?thesis
        using "1.IH" [OF None False ok rec] by (auto simp: butlast_conv_take intro: exI)
    qed
  qed
qed

section \<open>Properties of the operations\<close>

lemma contig_take_None: "contig_take B p needed = (B', p', None) \<Longrightarrow>
    B' = B \<and> p' = p \<and> (\<forall>b \<in> set (buffers p). buf_cap b < needed)"
  by (auto simp: contig_take_def Let_def position_None not_le split: option.splits)

lemma contig_take_Some:
  assumes "contig_ok p" and "budget_ok (B (pool_budget p)) (pool_held p + others)"
    and "contig_take B p needed = (B', p', Some b)"
  shows "contig_ok p'" and "budget_ok (B' (pool_budget p)) (pool_held p' + others)"
    and "pool_budget p' = pool_budget p" and "\<forall>a. a \<noteq> pool_budget p \<longrightarrow> B' a = B a"
    and "b \<in> set (buffers p)" and "needed \<le> buf_cap b"
    and "\<forall>c \<in> set (buffers p). needed \<le> buf_cap c \<longrightarrow> buf_cap b \<le> buf_cap c"
    and "mset (buffers p) = add_mset b (mset (buffers p'))"
proof -
  obtain i where i: "position (\<lambda>b. needed \<le> buf_cap b) (buffers p) = Some i"
    and b: "b = buffers p ! i" and p': "p' = p\<lparr>buffers := remove_at (buffers p) i\<rparr>"
    and B': "B' = B(pool_budget p := budget_sub (B (pool_budget p)) (buf_cap b * bytes_per_token p))"
    using assms(3) by (auto simp: contig_take_def Let_def split: option.splits)
  note pos = position_Some [OF i]
  have m: "mset (buffers p) = add_mset b (mset (buffers p'))"
    using pos by (simp add: b p' mset_remove_at)
  then show "mset (buffers p) = add_mset b (mset (buffers p'))" .
  show "pool_budget p' = pool_budget p" by (simp add: p')
  show "\<forall>a. a \<noteq> pool_budget p \<longrightarrow> B' a = B a" by (simp add: B')
  show "b \<in> set (buffers p)" "needed \<le> buf_cap b" using pos by (auto simp: b)
  have "sorted (map buf_cap (buffers p))" using assms(1) by (simp add: contig_ok_def)
  then show "contig_ok p'"
    using assms(1) pos by (auto simp: contig_ok_def p' sorted_remove_at)
  have "pool_held p = buf_cap b * bytes_per_token p + pool_held p'"
    using held_of_add [OF m, of "bytes_per_token p"] by (simp add: pool_held_of p')
  then show "budget_ok (B' (pool_budget p)) (pool_held p' + others)"
    using assms(2) by (simp add: B' budget_sub_ok add.assoc)
  show "\<forall>c \<in> set (buffers p). needed \<le> buf_cap c \<longrightarrow> buf_cap b \<le> buf_cap c"
  proof (intro ballI impI)
    fix c assume c: "c \<in> set (buffers p)" "needed \<le> buf_cap c"
    then obtain j where j: "j < length (buffers p)" "c = buffers p ! j" by (metis in_set_conv_nth)
    with c pos have "i \<le> j" by (meson not_le)
    then show "buf_cap b \<le> buf_cap c"
      using \<open>sorted (map buf_cap (buffers p))\<close> j pos
      by (auto simp: b sorted_iff_nth_mono)
  qed
qed

text \<open>What \<open>put\<close> does, in the three ways it can end.\<close>

lemma contig_put_cases:
  assumes "contig_put B p buf = (B', p')" and "max_buffers p \<noteq> 0"
    and "put_room (B (pool_budget p)) (buf_cap buf * bytes_per_token p) (bytes_per_token p) (buffers p)
      = (fits, bg, bufs)"
  defines "ins \<equiv> insert_at bufs (partition_point (\<lambda>b. buf_cap b < buf_cap buf) bufs) buf"
  shows "\<not> fits \<Longrightarrow> B' = B(pool_budget p := bg) \<and> p' = p\<lparr>buffers := bufs\<rparr>"
    and "fits \<Longrightarrow> max_buffers p < length ins \<Longrightarrow>
      B' = B(pool_budget p := budget_sub bg (buf_cap (ins ! 0) * bytes_per_token p)) \<and>
      p' = p\<lparr>buffers := remove_at ins 0\<rparr>"
    and "fits \<Longrightarrow> \<not> max_buffers p < length ins \<Longrightarrow>
      B' = B(pool_budget p := bg) \<and> p' = p\<lparr>buffers := ins\<rparr>"
  using assms(1,2,3) unfolding ins_def by (auto simp: contig_put_def Let_def)

lemma contig_put_spec:
  assumes ok: "contig_ok p" and bud: "budget_ok (B (pool_budget p)) (pool_held p + others)"
    and put: "contig_put B p buf = (B', p')"
  shows "contig_ok p' \<and> budget_ok (B' (pool_budget p)) (pool_held p' + others)
    \<and> pool_budget p' = pool_budget p \<and> (\<forall>a. a \<noteq> pool_budget p \<longrightarrow> B' a = B a)
    \<and> set (buffers p') \<subseteq> insert buf (set (buffers p))"
proof (cases "max_buffers p = 0")
  case True
  then show ?thesis using assms by (auto simp: contig_put_def)
next
  case ne: False
  let ?bpt = "bytes_per_token p"
  obtain fits bg bufs where room:
    "put_room (B (pool_budget p)) (buf_cap buf * ?bpt) ?bpt (buffers p) = (fits, bg, bufs)"
    by (metis prod_cases3)
  define ins where "ins = insert_at bufs (partition_point (\<lambda>b. buf_cap b < buf_cap buf) bufs) buf"
  note cases = contig_put_cases [OF put ne room, folded ins_def]
  note spec = put_room_spec [OF bud [unfolded pool_held_of] room]
  from spec obtain n where n: "bufs = take n (buffers p)" by blast
  have srt: "sorted (map buf_cap bufs)" and len: "length bufs \<le> max_buffers p"
    using ok by (auto simp: contig_ok_def n sorted_wrt_take simp flip: take_map)
  have sub: "set bufs \<subseteq> set (buffers p)" by (auto simp: n dest: in_set_takeD)
  have m: "mset ins = add_mset buf (mset bufs)" by (simp add: ins_def mset_insert_at)
  then have set_ins: "set ins = insert buf (set bufs)" by (metis set_mset_add_mset_insert set_mset_mset)
  have srti: "sorted (map buf_cap ins)"
    unfolding ins_def by (rule sorted_insert_at_partition_point [OF srt])
  have heldi: "held_of ?bpt ins = buf_cap buf * ?bpt + held_of ?bpt bufs" using m by (rule held_of_add)
  consider (no) "\<not> fits" | (full) "fits" "max_buffers p < length ins"
    | (fit) "fits" "\<not> max_buffers p < length ins" by blast
  then show ?thesis
  proof cases
    case no
    then show ?thesis
      using cases(1) spec srt len sub by (auto simp: contig_ok_def pool_held_of)
  next
    case full
    have i0: "0 < length ins" by (simp add: ins_def)
    have "mset ins = add_mset (ins ! 0) (mset (remove_at ins 0))" by (rule mset_remove_at [OF i0])
    then have h0: "held_of ?bpt ins = buf_cap (ins ! 0) * ?bpt + held_of ?bpt (remove_at ins 0)"
      by (rule held_of_add)
    have "budget_ok bg (buf_cap buf * ?bpt + held_of ?bpt bufs + others)" using spec full by simp
    then have "budget_ok (budget_sub bg (buf_cap (ins ! 0) * ?bpt))
        (held_of ?bpt (remove_at ins 0) + others)"
      by (intro budget_sub_ok) (simp add: h0 flip: heldi add.assoc)
    moreover have "set (remove_at ins 0) \<subseteq> insert buf (set (buffers p))"
      using set_remove_at sub set_ins by fastforce
    moreover have "length (remove_at ins 0) \<le> max_buffers p" using len i0 by (simp add: ins_def)
    ultimately show ?thesis
      using cases(2) [OF full] sorted_remove_at [OF srti] by (simp add: contig_ok_def pool_held_of)
  next
    case fit
    have "budget_ok bg (buf_cap buf * ?bpt + held_of ?bpt bufs + others)" using spec fit by simp
    moreover have "set ins \<subseteq> insert buf (set (buffers p))" using sub set_ins by auto
    ultimately show ?thesis
      using cases(3) [OF fit] srti fit by (simp add: contig_ok_def pool_held_of heldi)
  qed
qed

text \<open>\<open>set_budget\<close> moves what the pool holds from one counter to the other.\<close>

lemma contig_set_budget_spec:
  assumes "budget_ok (B (pool_budget p)) (pool_held p + others)"
    and "addr \<noteq> pool_budget p" and "budget_ok (B addr) n" and "pool_held p + n \<le> bg_limit (B addr)"
    and "contig_set_budget B p addr = (B', p')"
  shows "budget_ok (B' (pool_budget p)) others" and "budget_ok (B' addr) (pool_held p' + n)"
    and "pool_budget p' = addr" and "buffers p' = buffers p"
proof -
  let ?h = "pool_held p"
  have p': "p' = p\<lparr>pool_budget := addr\<rparr>"
    and B': "B' = B(pool_budget p := budget_sub (B (pool_budget p)) ?h,
      addr := (B addr)\<lparr>bg_held := wrap_add (bg_held (B addr)) ?h\<rparr>)"
    using assms(2,5) by (auto simp: contig_set_budget_def Let_def pool_held_def)
  show "pool_budget p' = addr" "buffers p' = buffers p" by (simp_all add: p')
  show "budget_ok (B' (pool_budget p)) others"
    using assms(1,2) by (simp add: B' budget_sub_ok)
  have "wrap_add n ?h = n + ?h"
    using assms(3,4) by (simp add: wrap_add_def budget_ok_def usize_max_def)
  then show "budget_ok (B' addr) (pool_held p' + n)"
    using assms(3,4) by (simp add: B' p' budget_ok_def pool_held_def)
qed

end
