(* ===== verification/Block_Allocator.thy ===== *)
theory Block_Allocator
  imports Contig_Pool
begin

text \<open>
  The KV block pool of one layer (\<open>BlockAllocator\<close> of \<open>src/common/paged.rs\<close>): the
  reference counts and free list of its blocks, the segments materialised on demand, and the
  abstract reference-counted pool it implements.  Tensors are the third-party candle
  library's; the pool stores them as values of a type \<open>'t\<close> and gets them from the argument
  \<open>zeros\<close>, which may fail.  The floats of the quantized layout are values of a type \<open>'f\<close>
  with \<open>fzero\<close> for \<open>0.0\<close>.
\<close>

section \<open>State\<close>

text \<open>The part of \<open>KvQuantizer\<close> (\<open>src/common/kv_quant.rs\<close>) that sizes a packed row.\<close>

record kv_quantizer =
  q_bit_width :: nat
  q_key_mse_bit_width :: nat
  q_qjl_quantization :: bool
  q_head_dim :: nat

definition packed_bytes_for_bits :: "kv_quantizer \<Rightarrow> nat \<Rightarrow> nat" where
  "packed_bytes_for_bits q bits = div_ceil (q_head_dim q * bits) 8"

definition key_packed_bytes :: "kv_quantizer \<Rightarrow> nat" where
  "key_packed_bytes q =
     (if q_qjl_quantization q
      then packed_bytes_for_bits q (q_key_mse_bit_width q) + packed_bytes_for_bits q 1
      else packed_bytes_for_bits q (q_bit_width q))"

definition value_packed_bytes :: "kv_quantizer \<Rightarrow> nat" where
  "value_packed_bytes q = packed_bytes_for_bits q (q_bit_width q)"

record 'f quant_store =
  packed_k :: "u8 list"
  packed_v :: "u8 list"
  norms_k :: "'f list"
  residual_norms_k :: "'f list option"
  norms_v :: "'f list"
  quantizer :: kv_quantizer

datatype ('t, 'f) kv_pool =
    Full (segments_k: "'t list") (segments_v: "'t list")
  | Quantized (store: "'f quant_store")

record ('t, 'f) block_allocator =
  pool :: "('t, 'f) kv_pool"
  free_list :: "nat list"
  ref_counts :: "nat list"
  num_blocks :: nat
  max_blocks :: nat
  segment_blocks :: nat
  block_size :: nat
  n_kv_heads :: nat
  head_dim :: nat
  dtype_bytes :: nat
  contig_pool :: "'t contig_pool"
  sliding_window :: "nat option"

record pool_spec =
  sp_max_blocks :: nat
  sp_segment_blocks :: nat
  sp_block_size :: nat
  sp_n_kv_heads :: nat
  sp_head_dim :: nat
  sp_dtype_bytes :: nat
  sp_quantizer :: "kv_quantizer option"

section \<open>Growing\<close>

text \<open>\<open>Vec::resize(n, x)\<close> for a growing \<open>n\<close>.\<close>

definition resize :: "nat \<Rightarrow> 'a \<Rightarrow> 'a list \<Rightarrow> 'a list" where
  "resize n x xs = take n xs @ replicate (n - length xs) x"

definition grow_pool ::
    "(nat list \<Rightarrow> 't option) \<Rightarrow> 'f \<Rightarrow> ('t, 'f) block_allocator \<Rightarrow> nat \<Rightarrow> err + ('t, 'f) kv_pool" where
  "grow_pool zeros fzero a slots =
     (case pool a of
        Full ks vs \<Rightarrow>
          let shape = [slots, n_kv_heads a, head_dim a]
          in (case zeros shape of
                None \<Rightarrow> Inl Tensor_failed
              | Some k \<Rightarrow>
                  (case zeros shape of
                     None \<Rightarrow> Inl Tensor_failed
                   | Some v \<Rightarrow> Inr (Full (ks @ [k]) (vs @ [v]))))
      | Quantized s \<Rightarrow>
          let heads = slots * n_kv_heads a
          in Inr (Quantized
               (s\<lparr>packed_k := resize (length (packed_k s) + heads * key_packed_bytes (quantizer s)) 0 (packed_k s),
                 packed_v := resize (length (packed_v s) + heads * value_packed_bytes (quantizer s)) 0 (packed_v s),
                 norms_k := resize (length (norms_k s) + heads) fzero (norms_k s),
                 residual_norms_k :=
                   map_option (\<lambda>r. resize (length r + heads) fzero r) (residual_norms_k s),
                 norms_v := resize (length (norms_v s) + heads) fzero (norms_v s)\<rparr>)))"

definition grow ::
    "(nat list \<Rightarrow> 't option) \<Rightarrow> 'f \<Rightarrow> ('t, 'f) block_allocator \<Rightarrow> err + ('t, 'f) block_allocator" where
  "grow zeros fzero a =
     (let n = min (segment_blocks a) (max_blocks a - num_blocks a)
      in if n = 0 then Inl (Exhausted (max_blocks a))
         else
           (case grow_pool zeros fzero a (n * block_size a) of
              Inl e \<Rightarrow> Inl e
            | Inr p \<Rightarrow>
                let first = num_blocks a
                in Inr (a\<lparr>pool := p,
                          num_blocks := first + n,
                          ref_counts := resize (first + n) 0 (ref_counts a),
                          free_list := free_list a @ rev [first ..< first + n]\<rparr>)))"

definition growing ::
    "(nat list \<Rightarrow> 't option) \<Rightarrow> 'f \<Rightarrow> budgets \<Rightarrow> nat \<Rightarrow> pool_spec \<Rightarrow>
     budgets \<times> (err + ('t, 'f) block_allocator)" where
  "growing zeros fzero B addr spec =
     (let seg = max 1 (min (sp_segment_blocks spec) (max (sp_max_blocks spec) 1));
          p = (case sp_quantizer spec of
                 Some q \<Rightarrow>
                   Quantized \<lparr>packed_k = [], packed_v = [], norms_k = [],
                     residual_norms_k = (if q_qjl_quantization q then Some [] else None),
                     norms_v = [], quantizer = q\<rparr>
               | None \<Rightarrow> Full [] []);
          (B', cp) = contig_pool_new B addr max_pool_buffers
                       (2 * sp_n_kv_heads spec * sp_head_dim spec * sp_dtype_bytes spec);
          this = \<lparr>pool = p, free_list = [], ref_counts = [], num_blocks = 0,
                  max_blocks = sp_max_blocks spec, segment_blocks = seg,
                  block_size = sp_block_size spec, n_kv_heads = sp_n_kv_heads spec,
                  head_dim = sp_head_dim spec, dtype_bytes = sp_dtype_bytes spec,
                  contig_pool = cp, sliding_window = None\<rparr>
      in (B', if 0 < sp_max_blocks spec then grow zeros fzero this else Inr this))"

section \<open>Taking, sharing and freeing blocks\<close>

text \<open>
  \<open>allocate\<close> returns the allocator with its answer: a segment materialised on the way is
  kept even though the block comes from it.
\<close>

definition allocate ::
    "(nat list \<Rightarrow> 't option) \<Rightarrow> 'f \<Rightarrow> ('t, 'f) block_allocator \<Rightarrow>
     ('t, 'f) block_allocator \<times> (err + nat)" where
  "allocate zeros fzero a =
     (case (if free_list a = [] then grow zeros fzero a else Inr a) of
        Inl e \<Rightarrow> (a, Inl e)
      | Inr a1 \<Rightarrow>
          if free_list a1 = [] then (a1, Inl (Exhausted (max_blocks a1)))
          else
            let bid = last (free_list a1);
                a2 = a1\<lparr>free_list := butlast (free_list a1)\<rparr>
            in if bid < length (ref_counts a2)
               then (a2\<lparr>ref_counts := (ref_counts a2)[bid := 1]\<rparr>, Inr bid)
               else (a2, Inl Panic))"

text \<open>
  \<open>share\<close> and \<open>free\<close> with their \<open>debug_assert!\<close>s: \<open>None\<close> is the panic of a build
  that checks them.
\<close>

definition share :: "('t, 'f) block_allocator \<Rightarrow> nat \<Rightarrow> ('t, 'f) block_allocator option" where
  "share a bid =
     (if bid < num_blocks a \<and> bid < length (ref_counts a) \<and> 0 < ref_counts a ! bid
      then Some (a\<lparr>ref_counts := (ref_counts a)[bid := ref_counts a ! bid + 1]\<rparr>)
      else None)"

definition free :: "('t, 'f) block_allocator \<Rightarrow> nat \<Rightarrow> ('t, 'f) block_allocator option" where
  "free a bid =
     (if bid < num_blocks a \<and> bid < length (ref_counts a) \<and> 0 < ref_counts a ! bid
      then
        let a1 = a\<lparr>ref_counts := (ref_counts a)[bid := ref_counts a ! bid - 1]\<rparr>
        in Some (if ref_counts a1 ! bid = 0 then a1\<lparr>free_list := free_list a1 @ [bid]\<rparr> else a1)
      else None)"

definition num_free :: "('t, 'f) block_allocator \<Rightarrow> nat" where
  "num_free a = length (free_list a) + (max_blocks a - num_blocks a)"

definition num_total :: "('t, 'f) block_allocator \<Rightarrow> nat" where
  "num_total a = max_blocks a"

definition get_quantizer :: "('t, 'f) block_allocator \<Rightarrow> kv_quantizer option" where
  "get_quantizer a = (case pool a of Quantized s \<Rightarrow> Some (quantizer s) | Full _ _ \<Rightarrow> None)"

definition with_sliding_window ::
    "('t, 'f) block_allocator \<Rightarrow> nat option \<Rightarrow> ('t, 'f) block_allocator" where
  "with_sliding_window a w = a\<lparr>sliding_window := w\<rparr>"

section \<open>Sizes\<close>

definition bytes_per_block :: "('t, 'f) block_allocator \<Rightarrow> nat" where
  "bytes_per_block a =
     (let heads = block_size a * n_kv_heads a
      in case pool a of
           Full _ _ \<Rightarrow> 2 * heads * head_dim a * dtype_bytes a
         | Quantized s \<Rightarrow>
             heads * (key_packed_bytes (quantizer s) + value_packed_bytes (quantizer s) +
               (if residual_norms_k s = None then 2 else 3) * 4))"

definition pool_bytes :: "('t, 'f) block_allocator \<Rightarrow> nat" where
  "pool_bytes a = num_blocks a * bytes_per_block a"

definition reserved_bytes :: "('t, 'f) block_allocator \<Rightarrow> nat" where
  "reserved_bytes a = max_blocks a * bytes_per_block a"

section \<open>The contiguous buffers of the layer\<close>

definition take_contig_buffer ::
    "budgets \<Rightarrow> ('t, 'f) block_allocator \<Rightarrow> nat \<Rightarrow>
     budgets \<times> ('t, 'f) block_allocator \<times> ('t \<times> 't \<times> nat) option" where
  "take_contig_buffer B a needed =
     (let (B', cp, b) = contig_take B (contig_pool a) needed
      in (B', a\<lparr>contig_pool := cp\<rparr>, map_option (\<lambda>b. (buf_k b, buf_v b, buf_cap b)) b))"

definition release_contig_buffer ::
    "budgets \<Rightarrow> ('t, 'f) block_allocator \<Rightarrow> 't \<Rightarrow> 't \<Rightarrow> nat \<Rightarrow>
     budgets \<times> ('t, 'f) block_allocator" where
  "release_contig_buffer B a k v c =
     (let (B', cp) = contig_put B (contig_pool a) \<lparr>buf_k = k, buf_v = v, buf_cap = c\<rparr>
      in (B', a\<lparr>contig_pool := cp\<rparr>))"

definition set_contig_budget ::
    "budgets \<Rightarrow> ('t, 'f) block_allocator \<Rightarrow> nat \<Rightarrow> budgets \<times> ('t, 'f) block_allocator" where
  "set_contig_budget B a addr =
     (let (B', cp) = contig_set_budget B (contig_pool a) addr in (B', a\<lparr>contig_pool := cp\<rparr>))"

section \<open>The contract: a reference-counted pool\<close>

text \<open>
  What the caches, the prefix cache and the scheduler rely on.  \<open>refs a\<close> is the multiset of
  the references outstanding: taking a block adds a reference to a block that had none,
  sharing adds one to a block that has some, freeing removes one.  Every block below the
  ceiling that nobody references is available.
\<close>

locale ref_pool =
  fixes inv :: "'a \<Rightarrow> bool"
    and refs :: "'a \<Rightarrow> nat multiset"
    and avail :: "'a \<Rightarrow> nat"
    and ceiling :: "'a \<Rightarrow> nat"
    and alloc :: "'a \<Rightarrow> 'a \<times> (err + nat)"
    and shr :: "'a \<Rightarrow> nat \<Rightarrow> 'a option"
    and fre :: "'a \<Rightarrow> nat \<Rightarrow> 'a option"
  assumes alloc_ok: "inv a \<Longrightarrow> alloc a = (a', Inr b) \<Longrightarrow>
      inv a' \<and> b \<notin># refs a \<and> refs a' = add_mset b (refs a) \<and> ceiling a' = ceiling a"
    and alloc_err: "inv a \<Longrightarrow> alloc a = (a', Inl e) \<Longrightarrow>
      inv a' \<and> refs a' = refs a \<and> ceiling a' = ceiling a"
    and share_ok: "inv a \<Longrightarrow> b \<in># refs a \<Longrightarrow>
      \<exists>a'. shr a b = Some a' \<and> inv a' \<and> refs a' = add_mset b (refs a) \<and> ceiling a' = ceiling a"
    and free_ok: "inv a \<Longrightarrow> b \<in># refs a \<Longrightarrow>
      \<exists>a'. fre a b = Some a' \<and> inv a' \<and> refs a' = refs a - {#b#} \<and> ceiling a' = ceiling a"
    and avail_card: "inv a \<Longrightarrow> avail a + card (set_mset (refs a)) = ceiling a"
begin

lemma avail_alloc: "inv a \<Longrightarrow> alloc a = (a', Inr b) \<Longrightarrow> avail a = Suc (avail a')"
  using alloc_ok [of a a' b] avail_card [of a] avail_card [of a'] by auto

lemma avail_share: "inv a \<Longrightarrow> b \<in># refs a \<Longrightarrow> shr a b = Some a' \<Longrightarrow> avail a' = avail a"
  using share_ok [of a b] avail_card [of a] avail_card [of a'] by (auto simp: insert_absorb)

lemma avail_free_last:
  assumes "inv a" and "count (refs a) b = 1" and "fre a b = Some a'"
  shows "avail a' = Suc (avail a)"
proof -
  have b: "b \<in># refs a" using assms(2) by (simp flip: count_greater_zero_iff)
  then have r: "inv a'" "refs a' = refs a - {#b#}" "ceiling a' = ceiling a"
    using free_ok [OF assms(1) b] assms(3) by auto
  have "set_mset (refs a) = insert b (set_mset (refs a'))"
    using arg_cong [OF insert_DiffM [OF b], of set_mset] by (simp add: r)
  moreover have "b \<notin># refs a'" using assms(2) by (simp add: r not_in_iff)
  ultimately have "card (set_mset (refs a)) = Suc (card (set_mset (refs a')))" by simp
  then show ?thesis using avail_card [OF assms(1)] avail_card [OF r(1)] r(3) by simp
qed

lemma avail_free_shared:
  assumes "inv a" and "1 < count (refs a) b" and "fre a b = Some a'"
  shows "avail a' = avail a"
proof -
  have b: "b \<in># refs a" using assms(2) by (simp flip: count_greater_zero_iff)
  then have r: "inv a'" "refs a' = refs a - {#b#}" "ceiling a' = ceiling a"
    using free_ok [OF assms(1) b] assms(3) by auto
  have "b \<in># refs a'" using assms(2) by (simp add: r in_diff_count)
  then have "set_mset (refs a') = set_mset (refs a)"
    using arg_cong [OF insert_DiffM [OF b], of set_mset] by (simp add: r insert_absorb)
  then show ?thesis using avail_card [OF assms(1)] avail_card [OF r(1)] r(3) by simp
qed

lemma avail_free_mono:
  assumes "inv a" and "b \<in># refs a" and "fre a b = Some a'"
  shows "avail a \<le> avail a'"
  using avail_free_last [OF assms(1) _ assms(3)] avail_free_shared [OF assms(1) _ assms(3)] assms(2)
  by (cases "count (refs a) b = 1") (auto simp flip: count_greater_zero_iff)

text \<open>A pool with no reference outstanding has its whole ceiling available.\<close>

lemma avail_all: "inv a \<Longrightarrow> refs a = {#} \<Longrightarrow> avail a = ceiling a"
  using avail_card [of a] by simp

end

text \<open>Freeing and sharing every id of a list, in order.\<close>

fun each_id :: "('a \<Rightarrow> nat \<Rightarrow> 'a option) \<Rightarrow> 'a \<Rightarrow> nat list \<Rightarrow> 'a option" where
  "each_id f a [] = Some a"
| "each_id f a (b # bs) = (case f a b of None \<Rightarrow> None | Some a' \<Rightarrow> each_id f a' bs)"

context ref_pool
begin

lemma each_free_ok:
  "inv a \<Longrightarrow> mset bs \<subseteq># refs a \<Longrightarrow>
   \<exists>a'. each_id fre a bs = Some a' \<and> inv a' \<and> refs a' = refs a - mset bs
     \<and> ceiling a' = ceiling a \<and> avail a \<le> avail a'"
proof (induction bs arbitrary: a)
  case Nil
  then show ?case by simp
next
  case (Cons b bs)
  then have b: "b \<in># refs a" and sub: "mset bs \<subseteq># refs a - {#b#}"
    by (auto simp: insert_subset_eq_iff)
  obtain a1 where a1: "fre a b = Some a1" "inv a1" "refs a1 = refs a - {#b#}" "ceiling a1 = ceiling a"
    using free_ok [OF Cons.prems(1) b] by blast
  have "avail a \<le> avail a1" using avail_free_mono [OF Cons.prems(1) b a1(1)] .
  moreover obtain a2 where "each_id fre a1 bs = Some a2" "inv a2" "refs a2 = refs a1 - mset bs"
      "ceiling a2 = ceiling a1" "avail a1 \<le> avail a2"
    using Cons.IH [OF a1(2)] sub a1(3) by auto
  ultimately show ?case using a1 by auto
qed

lemma each_share_ok:
  "inv a \<Longrightarrow> set bs \<subseteq> set_mset (refs a) \<Longrightarrow>
   \<exists>a'. each_id shr a bs = Some a' \<and> inv a' \<and> refs a' = refs a + mset bs
     \<and> ceiling a' = ceiling a \<and> avail a' = avail a"
proof (induction bs arbitrary: a)
  case Nil
  then show ?case by simp
next
  case (Cons b bs)
  then have b: "b \<in># refs a" by simp
  obtain a1 where a1: "shr a b = Some a1" "inv a1" "refs a1 = add_mset b (refs a)" "ceiling a1 = ceiling a"
    using share_ok [OF Cons.prems(1) b] by blast
  have "avail a1 = avail a" using avail_share [OF Cons.prems(1) b a1(1)] .
  moreover obtain a2 where "each_id shr a1 bs = Some a2" "inv a2" "refs a2 = refs a1 + mset bs"
      "ceiling a2 = ceiling a1" "avail a2 = avail a1"
    using Cons.IH [OF a1(2)] Cons.prems(2) a1(3) by auto
  ultimately show ?case using a1 by auto
qed

end

section \<open>The allocator meets the contract\<close>

definition alloc_inv :: "('t, 'f) block_allocator \<Rightarrow> bool" where
  "alloc_inv a \<longleftrightarrow>
     length (ref_counts a) = num_blocks a \<and> num_blocks a \<le> max_blocks a \<and>
     0 < segment_blocks a \<and> distinct (free_list a) \<and>
     (\<forall>b. b \<in> set (free_list a) \<longleftrightarrow> b < num_blocks a \<and> ref_counts a ! b = 0)"

definition refs_of :: "('t, 'f) block_allocator \<Rightarrow> nat multiset" where
  "refs_of a = sum_list (map (\<lambda>b. replicate_mset (ref_counts a ! b) b) [0 ..< num_blocks a])"

lemma count_sum_replicate:
  "distinct bs \<Longrightarrow>
   count (sum_list (map (\<lambda>b. replicate_mset (f b) b) bs)) x = (if x \<in> set bs then f x else 0)"
  by (induction bs) auto

lemma count_refs_of: "count (refs_of a) b = (if b < num_blocks a then ref_counts a ! b else 0)"
  by (simp add: refs_of_def count_sum_replicate)

lemma in_refs_of: "b \<in># refs_of a \<longleftrightarrow> b < num_blocks a \<and> 0 < ref_counts a ! b"
  by (simp add: count_refs_of flip: count_greater_zero_iff)

lemma resize_grow [simp]: "length xs \<le> n \<Longrightarrow> resize n x xs = xs @ replicate (n - length xs) x"
  by (simp add: resize_def)

lemma nth_grow: "(xs @ replicate n (0::nat)) ! b = 0 \<longleftrightarrow> (b < length xs \<longrightarrow> xs ! b = 0)"
  if "b < length xs + n"
  using that by (auto simp: nth_append)

lemma grow_spec:
  assumes "alloc_inv a" and "free_list a = []" and "grow zeros fz a = Inr a'"
  shows "alloc_inv a'" and "refs_of a' = refs_of a" and "max_blocks a' = max_blocks a"
    and "free_list a' \<noteq> []"
proof -
  define n where "n = min (segment_blocks a) (max_blocks a - num_blocks a)"
  obtain p where n0: "n \<noteq> 0" and a': "a' = a\<lparr>pool := p, num_blocks := num_blocks a + n,
      ref_counts := resize (num_blocks a + n) 0 (ref_counts a),
      free_list := free_list a @ rev [num_blocks a ..< num_blocks a + n]\<rparr>"
    using assms(3) by (auto simp: grow_def n_def Let_def split: if_splits sum.splits)
  have len: "length (ref_counts a) = num_blocks a" and le: "num_blocks a \<le> max_blocks a"
    and none: "\<And>b. b < num_blocks a \<Longrightarrow> ref_counts a ! b \<noteq> 0"
    using assms(1,2) by (auto simp: alloc_inv_def)
  have rc: "ref_counts a' = ref_counts a @ replicate n 0" by (simp add: a' len)
  have nb: "num_blocks a' = num_blocks a + n" by (simp add: a')
  show "free_list a' \<noteq> []" using n0 assms(2) by (simp add: a')
  show "max_blocks a' = max_blocks a" by (simp add: a')
  have "num_blocks a + n \<le> max_blocks a" using le by (simp add: n_def)
  moreover have "b \<in> set (free_list a') \<longleftrightarrow> b < num_blocks a' \<and> ref_counts a' ! b = 0" for b
  proof -
    have "b \<in> set (free_list a') \<longleftrightarrow> num_blocks a \<le> b \<and> b < num_blocks a + n"
      using assms(2) by (auto simp: a')
    moreover have "b < num_blocks a + n \<Longrightarrow> ref_counts a' ! b = 0 \<longleftrightarrow> num_blocks a \<le> b"
      using none [of b] by (cases "b < num_blocks a") (simp_all add: rc nth_append len)
    ultimately show ?thesis by (auto simp: nb)
  qed
  ultimately show "alloc_inv a'"
    using assms(1,2) len n0 by (auto simp: alloc_inv_def rc nb) (auto simp: a')
  show "refs_of a' = refs_of a"
    by (rule multiset_eqI) (auto simp: count_refs_of rc nb nth_append len)
qed

lemma allocate_cases:
  assumes "alloc_inv a" and "allocate zeros fz a = (a', r)"
  obtains (err) e where "r = Inl e" "a' = a" "free_list a = []" "grow zeros fz a = Inl e"
  | (ok) a1 bid where "r = Inr bid" "alloc_inv a1" "refs_of a1 = refs_of a"
      "max_blocks a1 = max_blocks a" "free_list a1 = butlast (free_list a1) @ [bid]"
      "a' = a1\<lparr>free_list := butlast (free_list a1), ref_counts := (ref_counts a1)[bid := 1]\<rparr>"
proof (cases "if free_list a = [] then grow zeros fz a else Inr a")
  case (Inl e)
  then show ?thesis using assms(2) by (intro err [of e]) (auto simp: allocate_def split: if_splits)
next
  case (Inr a1)
  have a1: "alloc_inv a1" "refs_of a1 = refs_of a" "max_blocks a1 = max_blocks a" "free_list a1 \<noteq> []"
    using Inr grow_spec [OF assms(1), of zeros fz a1] assms(1) by (auto split: if_splits)
  then have "last (free_list a1) \<in> set (free_list a1)" by simp
  then have "last (free_list a1) < length (ref_counts a1)" using a1(1) unfolding alloc_inv_def by metis
  then show ?thesis
    using assms(2) Inr a1 by (intro ok [of "last (free_list a1)" a1]) (auto simp: allocate_def Let_def)
qed

lemma allocate_ok:
  assumes "alloc_inv a" and "allocate zeros fz a = (a', Inr b)"
  shows "alloc_inv a' \<and> b \<notin># refs_of a \<and> refs_of a' = add_mset b (refs_of a)
    \<and> max_blocks a' = max_blocks a"
  using assms
proof (cases rule: allocate_cases)
  case (ok a1 bid)
  let ?fl = "butlast (free_list a1)"
  have b: "bid = b" using ok(1) by simp
  have fl: "set (free_list a1) = insert b (set ?fl)"
    using arg_cong [OF ok(5), of set] by (simp add: b)
  have "distinct (?fl @ [bid])" using ok(2) by (simp flip: ok(5)) (simp add: alloc_inv_def)
  then have nb: "b \<notin> set ?fl" and d: "distinct ?fl" by (simp_all add: b)
  have iff: "c \<in> set (free_list a1) \<longleftrightarrow> c < num_blocks a1 \<and> ref_counts a1 ! c = 0" for c
    using ok(2) by (simp add: alloc_inv_def)
  have len: "length (ref_counts a1) = num_blocks a1" using ok(2) by (simp add: alloc_inv_def)
  have bz: "b < num_blocks a1" "ref_counts a1 ! b = 0" using iff [of b] fl by auto
  have "c \<in> set ?fl \<longleftrightarrow> c < num_blocks a1 \<and> (ref_counts a1)[b := 1] ! c = 0" for c
    using iff [of c] fl nb bz len by (cases "c = b") auto
  then have "alloc_inv a'" using ok(2) d by (simp add: ok(6) b alloc_inv_def)
  moreover have "b \<notin># refs_of a" using bz by (simp add: in_refs_of flip: ok(3))
  moreover have "refs_of a' = add_mset b (refs_of a)"
    using bz len by (intro multiset_eqI) (auto simp: count_refs_of ok(6) b simp flip: ok(3))
  ultimately show ?thesis by (simp add: ok(4,6))
qed simp

lemma allocate_err:
  assumes "alloc_inv a" and "allocate zeros fz a = (a', Inl e)"
  shows "a' = a \<and> free_list a = [] \<and> grow zeros fz a = Inl e"
  using assms by (cases rule: allocate_cases) auto

lemma share_ok:
  assumes "alloc_inv a" and "b \<in># refs_of a"
  shows "\<exists>a'. share a b = Some a' \<and> alloc_inv a' \<and> refs_of a' = add_mset b (refs_of a)
    \<and> max_blocks a' = max_blocks a"
proof -
  have b: "b < num_blocks a" "0 < ref_counts a ! b" and len: "length (ref_counts a) = num_blocks a"
    using assms by (auto simp: in_refs_of alloc_inv_def)
  let ?a' = "a\<lparr>ref_counts := (ref_counts a)[b := ref_counts a ! b + 1]\<rparr>"
  have "alloc_inv ?a'" using assms(1) b by (auto simp: alloc_inv_def nth_list_update)
  moreover have "refs_of ?a' = add_mset b (refs_of a)"
    using b len by (intro multiset_eqI) (auto simp: count_refs_of nth_list_update)
  ultimately show ?thesis using b len by (auto simp: share_def)
qed

lemma free_ok:
  assumes "alloc_inv a" and "b \<in># refs_of a"
  shows "\<exists>a'. free a b = Some a' \<and> alloc_inv a' \<and> refs_of a' = refs_of a - {#b#}
    \<and> max_blocks a' = max_blocks a"
proof -
  have b: "b < num_blocks a" "0 < ref_counts a ! b" and len: "length (ref_counts a) = num_blocks a"
    using assms by (auto simp: in_refs_of alloc_inv_def)
  define a1 where "a1 = a\<lparr>ref_counts := (ref_counts a)[b := ref_counts a ! b - 1]\<rparr>"
  define a' where "a' = (if ref_counts a1 ! b = 0 then a1\<lparr>free_list := free_list a1 @ [b]\<rparr> else a1)"
  have nb: "b \<notin> set (free_list a)" using assms(1) b by (auto simp: alloc_inv_def)
  have "alloc_inv a'"
    using assms(1) b nb by (auto simp: alloc_inv_def a'_def a1_def nth_list_update)
  moreover have "refs_of a' = refs_of a - {#b#}"
    using b len by (intro multiset_eqI) (auto simp: count_refs_of a'_def a1_def nth_list_update)
  moreover have "free a b = Some a'" using b len by (simp add: free_def a'_def a1_def Let_def)
  moreover have "max_blocks a' = max_blocks a" by (simp add: a'_def a1_def)
  ultimately show ?thesis by blast
qed

lemma num_free_card:
  assumes "alloc_inv a"
  shows "num_free a + card (set_mset (refs_of a)) = max_blocks a"
proof -
  have f: "b \<in> set (free_list a) \<longleftrightarrow> b < num_blocks a \<and> ref_counts a ! b = 0" for b
    using assms unfolding alloc_inv_def by blast
  have u: "set (free_list a) \<union> set_mset (refs_of a) = {..< num_blocks a}"
    by (rule set_eqI) (auto simp only: Un_iff f in_refs_of lessThan_iff)
  have i: "set (free_list a) \<inter> set_mset (refs_of a) = {}"
    by (rule equals0I) (auto simp only: Int_iff f in_refs_of)
  have "card (set (free_list a)) + card (set_mset (refs_of a)) = num_blocks a"
    using card_Un_disjoint [OF _ _ i] by (simp add: u)
  moreover have "card (set (free_list a)) = length (free_list a)"
    using assms by (simp add: alloc_inv_def distinct_card)
  ultimately show ?thesis using assms by (simp add: num_free_def alloc_inv_def)
qed

interpretation blocks: ref_pool alloc_inv refs_of num_free max_blocks "allocate zeros fz" share free
  for zeros :: "nat list \<Rightarrow> 't option" and fz :: 'f
proof unfold_locales
  fix a a' :: "('t, 'f) block_allocator" and b e
  show "alloc_inv a \<Longrightarrow> allocate zeros fz a = (a', Inr b) \<Longrightarrow>
      alloc_inv a' \<and> b \<notin># refs_of a \<and> refs_of a' = add_mset b (refs_of a) \<and> max_blocks a' = max_blocks a"
    by (rule allocate_ok)
  show "alloc_inv a \<Longrightarrow> allocate zeros fz a = (a', Inl e) \<Longrightarrow>
      alloc_inv a' \<and> refs_of a' = refs_of a \<and> max_blocks a' = max_blocks a"
    by (frule (1) allocate_err) simp
  show "alloc_inv a \<Longrightarrow> b \<in># refs_of a \<Longrightarrow>
      \<exists>a'. share a b = Some a' \<and> alloc_inv a' \<and> refs_of a' = add_mset b (refs_of a) \<and> max_blocks a' = max_blocks a"
    by (rule share_ok)
  show "alloc_inv a \<Longrightarrow> b \<in># refs_of a \<Longrightarrow>
      \<exists>a'. free a b = Some a' \<and> alloc_inv a' \<and> refs_of a' = refs_of a - {#b#} \<and> max_blocks a' = max_blocks a"
    by (rule free_ok)
  show "alloc_inv a \<Longrightarrow> num_free a + card (set_mset (refs_of a)) = max_blocks a"
    by (rule num_free_card)
qed

end
