(* ===== verification/Paged_Cache.thy ===== *)
theory Paged_Cache
  imports Block_Allocator
begin

text \<open>
  The per-sequence, per-layer cache of \<open>src/common/paged.rs\<close>: its block table, the
  contiguous buffer of the attention kernels and its lifecycle.  The cache holds its
  allocator behind an \<open>Arc<Mutex<..>>\<close>, so every operation that locks it takes the
  allocator (and the store of byte budgets) and returns it updated.
\<close>

section \<open>State\<close>

record block_table =
  block_ids :: "nat list"
  num_tokens :: nat
  cached_slots :: "nat list"

definition block_table_new :: block_table where
  "block_table_new = \<lparr>block_ids = [], num_tokens = 0, cached_slots = []\<rparr>"

record pending_run =
  dst_slot :: nat
  src_offset :: nat
  n_tokens :: nat

record 't pending_batch =
  k_src :: 't
  v_src :: 't
  runs :: "pending_run list"

record 't recurrent_state =
  rs_conv :: 't
  rs_s :: 't

record 't paged_cache =
  c_quantizer :: "kv_quantizer option"
  table :: block_table
  c_block_size :: nat
  c_n_kv :: nat
  c_head_dim :: nat
  contig_k :: "'t option"
  contig_v :: "'t option"
  contig_len :: nat
  contig_start :: nat
  window :: "nat option"
  pending_writes :: "'t pending_batch list"
  recurrent :: "'t recurrent_state option"
  pool_writes :: bool

definition paged_cache_new :: "('t, 'f) block_allocator \<Rightarrow> 't paged_cache" where
  "paged_cache_new a =
     \<lparr>c_quantizer = get_quantizer a, table = block_table_new, c_block_size = block_size a,
      c_n_kv = n_kv_heads a, c_head_dim = head_dim a, contig_k = None, contig_v = None,
      contig_len = 0, contig_start = 0, window = sliding_window a, pending_writes = [],
      recurrent = None, pool_writes = True\<rparr>"

definition set_pool_writes :: "'t paged_cache \<Rightarrow> bool \<Rightarrow> 't paged_cache" where
  "set_pool_writes c on = c\<lparr>pool_writes := on\<rparr>"

definition contig_buf_capacity :: "nat \<Rightarrow> nat" where
  "contig_buf_capacity total_needed =
     (let cap = if total_needed < 1024 then total_needed * 2
                else total_needed + min (total_needed div 4) 4096
      in max cap 64)"

section \<open>Giving everything back\<close>

text \<open>
  \<open>clear\<close>: the retired buffer goes back to the layer's pool when its length along the token
  axis can be read (\<open>dim\<close>) and is not zero, every block of the table loses this cache's
  reference, and the table is emptied.
\<close>

definition retired_contig :: "('t \<Rightarrow> nat \<Rightarrow> nat option) \<Rightarrow> 't paged_cache \<Rightarrow> ('t \<times> 't \<times> nat) option" where
  "retired_contig dim c =
     (case (contig_k c, contig_v c) of
        (Some k, Some v) \<Rightarrow>
          (case dim k 2 of
             Some cap \<Rightarrow> if 0 < cap then Some (k, v, cap) else None
           | None \<Rightarrow> None)
      | _ \<Rightarrow> None)"

definition cache_clear ::
    "('t \<Rightarrow> nat \<Rightarrow> nat option) \<Rightarrow> budgets \<Rightarrow> ('t, 'f) block_allocator \<Rightarrow> 't paged_cache \<Rightarrow>
     (budgets \<times> ('t, 'f) block_allocator \<times> 't paged_cache) option" where
  "cache_clear dim B a c =
     (let retired = retired_contig dim c;
          c' = c\<lparr>recurrent := None, pending_writes := [], contig_k := None, contig_v := None,
                 table := \<lparr>block_ids = [], num_tokens = 0, cached_slots = []\<rparr>,
                 contig_len := 0, contig_start := 0\<rparr>
      in case each_id free a (block_ids (table c)) of
           None \<Rightarrow> None
         | Some a1 \<Rightarrow>
             (case retired of
                None \<Rightarrow> Some (B, a1, c')
              | Some (k, v, cap) \<Rightarrow>
                  let (B', a2) = release_contig_buffer B a1 k v cap in Some (B', a2, c')))"

section \<open>Reusing a prefix, rolling back\<close>

definition u32_max :: nat where
  "u32_max = 2 ^ 32 - 1"

text \<open>The slot numbers of one run; \<open>None\<close> where the source panics on a slot past \<open>u32\<close>.\<close>

definition slots_of :: "nat \<Rightarrow> nat \<Rightarrow> nat \<Rightarrow> nat list option" where
  "slots_of base lo n =
     (if base \<le> u32_max \<and> (n = 0 \<or> base + lo + n - 1 \<le> u32_max)
      then Some (map (\<lambda>off. base + off) [lo ..< lo + n]) else None)"

definition prepopulate_block ::
    "('t, 'f) block_allocator \<Rightarrow> 't paged_cache \<Rightarrow> nat \<Rightarrow>
     (('t, 'f) block_allocator \<times> 't paged_cache) option" where
  "prepopulate_block a c bid =
     (case share a bid of
        None \<Rightarrow> None
      | Some a' \<Rightarrow>
          (case slots_of (bid * c_block_size c) 0 (c_block_size c) of
             None \<Rightarrow> None
           | Some slots \<Rightarrow>
               Some (a', c\<lparr>table := (table c)\<lparr>block_ids := block_ids (table c) @ [bid],
                                            cached_slots := cached_slots (table c) @ slots\<rparr>\<rparr>)))"

definition set_num_tokens :: "'t paged_cache \<Rightarrow> nat \<Rightarrow> 't paged_cache" where
  "set_num_tokens c n =
     (let removed = num_tokens (table c) - n
      in c\<lparr>table := (table c)\<lparr>cached_slots := take n (cached_slots (table c)), num_tokens := n\<rparr>,
           contig_len := contig_len c - removed\<rparr>)"

definition discard_pending :: "'t paged_cache \<Rightarrow> 't paged_cache" where
  "discard_pending c = c\<lparr>pending_writes := []\<rparr>"

definition block_id_at :: "'t paged_cache \<Rightarrow> nat \<Rightarrow> nat option" where
  "block_id_at c i = (if i < length (block_ids (table c)) then Some (block_ids (table c) ! i) else None)"

section \<open>Ownership\<close>

text \<open>The references a cache holds in its layer's pool.\<close>

definition cache_refs :: "'t paged_cache \<Rightarrow> nat multiset" where
  "cache_refs c = mset (block_ids (table c))"

lemma cache_refs_new [simp]: "cache_refs (paged_cache_new a) = {#}"
  by (simp add: cache_refs_def paged_cache_new_def block_table_new_def)

text \<open>What no block operation touches, and what the contiguous pool does not.\<close>

definition same_geometry :: "('t, 'f) block_allocator \<Rightarrow> ('t, 'f) block_allocator \<Rightarrow> bool" where
  "same_geometry a a' \<longleftrightarrow> max_blocks a' = max_blocks a \<and> block_size a' = block_size a
     \<and> n_kv_heads a' = n_kv_heads a \<and> head_dim a' = head_dim a
     \<and> sliding_window a' = sliding_window a"

lemma same_geometry_refl [simp]: "same_geometry a a"
  by (simp add: same_geometry_def)

lemma same_geometry_trans: "same_geometry a b \<Longrightarrow> same_geometry b c \<Longrightarrow> same_geometry a c"
  by (simp add: same_geometry_def)

lemma same_geometry_free: "free a b = Some a' \<Longrightarrow> same_geometry a a'"
  by (auto simp: free_def same_geometry_def Let_def split: if_splits)

lemma same_geometry_share: "share a b = Some a' \<Longrightarrow> same_geometry a a'"
  by (auto simp: share_def same_geometry_def split: if_splits)

lemma same_geometry_each_id:
  assumes "\<And>a b a'. f a b = Some a' \<Longrightarrow> same_geometry a a'"
  shows "each_id f a bs = Some a' \<Longrightarrow> same_geometry a a'"
  by (induction bs arbitrary: a) (auto split: option.splits intro: same_geometry_trans assms)

lemma alloc_inv_contig [simp]:
  "alloc_inv (a\<lparr>contig_pool := p\<rparr>) = alloc_inv a"
  "refs_of (a\<lparr>contig_pool := p\<rparr>) = refs_of a"
  "num_free (a\<lparr>contig_pool := p\<rparr>) = num_free a"
  "same_geometry b (a\<lparr>contig_pool := p\<rparr>) = same_geometry b a"
  by (simp_all add: alloc_inv_def refs_of_def num_free_def same_geometry_def)

lemma release_contig_frame:
  "release_contig_buffer B a k v cap = (B', a') \<Longrightarrow> \<exists>p. a' = a\<lparr>contig_pool := p\<rparr>"
  by (auto simp: release_contig_buffer_def split: prod.splits)

lemma cache_clear_spec:
  assumes "alloc_inv a" and "cache_refs c \<subseteq># refs_of a"
  shows "\<exists>B' a' c'. cache_clear dim B a c = Some (B', a', c') \<and> alloc_inv a'
    \<and> refs_of a' = refs_of a - cache_refs c \<and> cache_refs c' = {#}
    \<and> same_geometry a a' \<and> num_free a \<le> num_free a'"
proof -
  obtain a1 where a1: "each_id free a (block_ids (table c)) = Some a1" "alloc_inv a1"
      "refs_of a1 = refs_of a - cache_refs c" "num_free a \<le> num_free a1"
    using blocks.each_free_ok [OF assms(1), of "block_ids (table c)"] assms(2)
    by (auto simp: cache_refs_def)
  have g: "same_geometry a a1" using same_geometry_each_id [OF same_geometry_free a1(1)] by simp
  show ?thesis
  proof (cases "retired_contig dim c")
    case None
    then show ?thesis using a1 g by (simp add: cache_clear_def Let_def cache_refs_def)
  next
    case (Some r)
    obtain k v cap where r: "r = (k, v, cap)" by (cases r)
    obtain B' a2 where rel: "release_contig_buffer B a1 k v cap = (B', a2)" by fastforce
    obtain p where "a2 = a1\<lparr>contig_pool := p\<rparr>" using release_contig_frame [OF rel] by blast
    then show ?thesis using a1 g Some by (simp add: cache_clear_def Let_def cache_refs_def r rel)
  qed
qed

lemma prepopulate_block_spec:
  assumes "alloc_inv a" and "b \<in># refs_of a" and "prepopulate_block a c b = Some (a', c')"
  shows "alloc_inv a' \<and> refs_of a' = add_mset b (refs_of a)
    \<and> cache_refs c' = add_mset b (cache_refs c) \<and> num_free a' = num_free a"
  using assms share_ok [OF assms(1,2)] blocks.avail_share [OF assms(1,2)]
  by (auto simp: prepopulate_block_def cache_refs_def split: option.splits)

text \<open>Room to grow: a fresh buffer holds what is asked for and never less than 64 tokens.\<close>

lemma contig_buf_capacity_bounds:
  "n \<le> contig_buf_capacity n \<and> 64 \<le> contig_buf_capacity n \<and> contig_buf_capacity n \<le> max 64 (2 * n)"
  by (auto simp: contig_buf_capacity_def Let_def)

end
