(* ===== verification/Prefix_Cache.thy ===== *)
theory Prefix_Cache
  imports Lru Paged_Cache
begin

text \<open>
  \<open>src/common/prefix_cache.rs\<close>: the LRU of prompt-prefix blocks.  The LRU's operations
  (\<open>ops\<close>) and the chain hash (\<open>hash\<close>, the third-party \<open>FxHasher\<close> fed a block and the
  previous hash) are arguments; nothing is assumed of \<open>hash\<close>, so two prefixes may collide.
  \<open>None\<close> is a panic.  A block size is positive.
\<close>

section \<open>State\<close>

record prefix_entry =
  pe_block_ids :: "nat list"
  pe_block_tokens :: "u32 list"

record 'c prefix_cache =
  entries :: 'c
  pc_disabled :: bool

type_synonym 'c pc_ops = "('c, u64, prefix_entry) lru_ops"
type_synonym chain_hash = "u32 list \<Rightarrow> u64 \<Rightarrow> u64"

definition prefix_cache_new :: "'c pc_ops \<Rightarrow> nat \<Rightarrow> 'c prefix_cache" where
  "prefix_cache_new ops capacity = \<lparr>entries = lru_new ops (max capacity 1), pc_disabled = False\<rparr>"

definition prefix_cache_disabled :: "'c pc_ops \<Rightarrow> 'c prefix_cache" where
  "prefix_cache_disabled ops = \<lparr>entries = lru_new ops 1, pc_disabled = True\<rparr>"

text \<open>The full blocks of a token sequence, the slices the source takes one after the other.\<close>

definition full_blocks :: "nat \<Rightarrow> u32 list \<Rightarrow> u32 list list" where
  "full_blocks bs tokens = map (\<lambda>i. take bs (drop (i * bs) tokens)) [0 ..< length tokens div bs]"

section \<open>Walking the chain\<close>

fun count_walk :: "'c pc_ops \<Rightarrow> chain_hash \<Rightarrow> 'c \<Rightarrow> u64 \<Rightarrow> u32 list list \<Rightarrow> nat" where
  "count_walk ops hash c prev [] = 0"
| "count_walk ops hash c prev (b # bs) =
     (let h = hash b prev
      in case lru_peek ops c h of
           Some e \<Rightarrow> if pe_block_tokens e = b then Suc (count_walk ops hash c h bs) else 0
         | None \<Rightarrow> 0)"

definition count_cached_blocks ::
    "'c pc_ops \<Rightarrow> chain_hash \<Rightarrow> 'c prefix_cache \<Rightarrow> u32 list \<Rightarrow> nat \<Rightarrow> nat" where
  "count_cached_blocks ops hash pc tokens bs =
     (if pc_disabled pc then 0
      else count_walk ops hash (entries pc) 0 (full_blocks bs tokens))"

fun lookup_walk ::
    "'c pc_ops \<Rightarrow> chain_hash \<Rightarrow> 'c \<Rightarrow> u64 \<Rightarrow> u32 list list \<Rightarrow> 'c \<times> nat list list" where
  "lookup_walk ops hash c prev [] = (c, [])"
| "lookup_walk ops hash c prev (b # bs) =
     (let h = hash b prev; (c1, r) = lru_get ops c h
      in case r of
           Some e \<Rightarrow>
             if pe_block_tokens e = b
             then (let (c2, ids) = lookup_walk ops hash c1 h bs in (c2, pe_block_ids e # ids))
             else (c1, [])
         | None \<Rightarrow> (c1, []))"

definition pc_lookup ::
    "'c pc_ops \<Rightarrow> chain_hash \<Rightarrow> 'c prefix_cache \<Rightarrow> u32 list \<Rightarrow> nat \<Rightarrow>
     'c prefix_cache \<times> nat \<times> nat list list" where
  "pc_lookup ops hash pc tokens bs =
     (if pc_disabled pc then (pc, 0, [])
      else let (c, ids) = lookup_walk ops hash (entries pc) 0 (full_blocks bs tokens)
           in (pc\<lparr>entries := c\<rparr>, length ids, ids))"

fun touch_walk :: "'c pc_ops \<Rightarrow> chain_hash \<Rightarrow> 'c \<Rightarrow> u64 \<Rightarrow> u32 list list \<Rightarrow> 'c" where
  "touch_walk ops hash c prev [] = c"
| "touch_walk ops hash c prev (b # bs) =
     (let h = hash b prev; (c1, r) = lru_get ops c h
      in case r of
           Some e \<Rightarrow> if pe_block_tokens e = b then touch_walk ops hash c1 h bs else c1
         | None \<Rightarrow> c1)"

definition pc_touch ::
    "'c pc_ops \<Rightarrow> chain_hash \<Rightarrow> 'c prefix_cache \<Rightarrow> u32 list \<Rightarrow> nat \<Rightarrow> 'c prefix_cache" where
  "pc_touch ops hash pc tokens bs =
     (if pc_disabled pc then pc
      else pc\<lparr>entries := touch_walk ops hash (entries pc) 0 (full_blocks bs tokens)\<rparr>)"

section \<open>Sharing and freeing across the layers\<close>

text \<open>One id per layer: \<open>free_layers\<close> skips the ids past the last layer, as the source does.\<close>

fun free_layers ::
    "('t, 'f) block_allocator list \<Rightarrow> nat list \<Rightarrow> ('t, 'f) block_allocator list option" where
  "free_layers as [] = Some as"
| "free_layers [] (b # bs) = Some []"
| "free_layers (a # as) (b # bs) =
     (case free a b of
        None \<Rightarrow> None
      | Some a' \<Rightarrow> map_option (Cons a') (free_layers as bs))"

fun share_layers ::
    "('t, 'f) block_allocator list \<Rightarrow> nat list \<Rightarrow> ('t, 'f) block_allocator list option" where
  "share_layers as [] = Some as"
| "share_layers [] (b # bs) = None"
| "share_layers (a # as) (b # bs) =
     (case share a b of
        None \<Rightarrow> None
      | Some a' \<Rightarrow> map_option (Cons a') (share_layers as bs))"

section \<open>Evicting and registering\<close>

definition pc_evict_lru ::
    "'c pc_ops \<Rightarrow> 'c prefix_cache \<Rightarrow> ('t, 'f) block_allocator list \<Rightarrow>
     ('c prefix_cache \<times> ('t, 'f) block_allocator list \<times> bool) option" where
  "pc_evict_lru ops pc as =
     (if pc_disabled pc then Some (pc, as, False)
      else
        let (c, r) = lru_pop ops (entries pc)
        in case r of
             None \<Rightarrow> Some (pc\<lparr>entries := c\<rparr>, as, False)
           | Some (_, evicted) \<Rightarrow>
               map_option (\<lambda>as'. (pc\<lparr>entries := c\<rparr>, as', True))
                 (free_layers as (pe_block_ids evicted)))"

text \<open>One iteration of \<open>register\<close>: the block's entry, unless its hash is there already.\<close>

definition register_one ::
    "'c pc_ops \<Rightarrow> 'c \<Rightarrow> ('t, 'f) block_allocator list \<Rightarrow> u64 \<Rightarrow> u32 list \<Rightarrow> nat list \<Rightarrow>
     ('c \<times> ('t, 'f) block_allocator list) option" where
  "register_one ops c as h b ids =
     (if lru_contains ops c h then Some (c, as)
      else
        case share_layers as ids of
          None \<Rightarrow> None
        | Some as1 \<Rightarrow>
            let (c', ev) = lru_push ops c h \<lparr>pe_block_ids = ids, pe_block_tokens = b\<rparr>
            in case ev of
                 None \<Rightarrow> Some (c', as1)
               | Some (_, evicted) \<Rightarrow>
                   map_option (\<lambda>as2. (c', as2)) (free_layers as1 (pe_block_ids evicted)))"

fun register_walk ::
    "'c pc_ops \<Rightarrow> chain_hash \<Rightarrow> 'c \<Rightarrow> ('t, 'f) block_allocator list \<Rightarrow> u64 \<Rightarrow>
     (u32 list \<times> nat list) list \<Rightarrow> ('c \<times> ('t, 'f) block_allocator list) option" where
  "register_walk ops hash c as prev [] = Some (c, as)"
| "register_walk ops hash c as prev ((b, ids) # rest) =
     (let h = hash b prev
      in case register_one ops c as h b ids of
           None \<Rightarrow> None
         | Some (c', as') \<Rightarrow> register_walk ops hash c' as' h rest)"

definition pc_register ::
    "'c pc_ops \<Rightarrow> chain_hash \<Rightarrow> 'c prefix_cache \<Rightarrow> u32 list \<Rightarrow> nat \<Rightarrow> nat list list \<Rightarrow>
     ('t, 'f) block_allocator list \<Rightarrow> nat \<Rightarrow>
     ('c prefix_cache \<times> ('t, 'f) block_allocator list) option" where
  "pc_register ops hash pc tokens start_block new_block_ids as bs =
     (if pc_disabled pc then Some (pc, as)
      else if length (full_blocks bs tokens) < start_block + length new_block_ids then None
      else if \<exists>ids \<in> set new_block_ids. length ids \<noteq> length as then Some (pc, as)
      else
        let blocks = full_blocks bs tokens;
            prev = fold hash (take start_block blocks) 0
        in map_option (\<lambda>(c, as'). (pc\<lparr>entries := c\<rparr>, as'))
             (register_walk ops hash (entries pc) as prev (zip (drop start_block blocks) new_block_ids)))"

section \<open>Counting, looking up and touching agree\<close>

lemma length_full_blocks [simp]: "length (full_blocks bs tokens) = length tokens div bs"
  by (simp add: full_blocks_def)

text \<open>The prefix cache as a client of the LRU interface.\<close>

locale prefix_lru = lru_cache ops items cap
  for ops :: "'c pc_ops" and items :: "'c \<Rightarrow> (u64 \<times> prefix_entry) list" and cap :: "'c \<Rightarrow> nat" +
  fixes hash :: chain_hash
begin

lemma lookup_walk_count:
  "length (snd (lookup_walk ops hash c prev bs)) = count_walk ops hash c prev bs
   \<and> mset (items (fst (lookup_walk ops hash c prev bs))) = mset (items c)"
proof (induction bs arbitrary: c prev)
  case Nil
  then show ?case by simp
next
  case (Cons b bs)
  let ?h = "hash b prev"
  have peq: "lru_peek ops (fst (lru_get ops c ?h)) = lru_peek ops c"
    by (simp add: fun_eq_iff peek map_of_get)
  have same: "count_walk ops hash (fst (lru_get ops c ?h)) p xs = count_walk ops hash c p xs" for p xs
    by (induction xs arbitrary: p) (auto simp: peq Let_def split: option.splits)
  obtain c1 r where g: "lru_get ops c ?h = (c1, r)" by fastforce
  have r: "r = map_of (items c) ?h" using get_result [of c ?h] by (simp add: g)
  have c1: "c1 = fst (lru_get ops c ?h)" by (simp add: g)
  have m1: "mset (items c1) = mset (items c)" by (simp add: c1 mset_get)
  obtain c2 ids where w: "lookup_walk ops hash c1 ?h bs = (c2, ids)" by fastforce
  have "length ids = count_walk ops hash c ?h bs" "mset (items c2) = mset (items c)"
    using Cons.IH [of c1 ?h] w m1 by (simp_all add: c1 same)
  then show ?case
    using m1 by (auto simp: g r w Let_def peek split: option.splits)
qed

lemma touch_walk_lookup: "touch_walk ops hash c prev bs = fst (lookup_walk ops hash c prev bs)"
  by (induction bs arbitrary: c prev) (auto simp: Let_def split: option.splits prod.splits)

end


section \<open>Layers of allocators\<close>

text \<open>Every layer keeps its invariant and its geometry and its references go from one function to another.\<close>

definition layers_ok :: "('t, 'f) block_allocator list \<Rightarrow> (nat \<Rightarrow> nat multiset) \<Rightarrow> bool" where
  "layers_ok as R \<longleftrightarrow> (\<forall>l < length as. alloc_inv (as ! l) \<and> refs_of (as ! l) = R l)"

definition layers_geometry :: "('t, 'f) block_allocator list \<Rightarrow> ('t, 'f) block_allocator list \<Rightarrow> bool" where
  "layers_geometry as as' \<longleftrightarrow> list_all2 same_geometry as as'"

lemma layers_geometry_refl [simp]: "layers_geometry as as"
  by (simp add: layers_geometry_def list_all2_refl)

lemma layers_geometry_trans: "layers_geometry as bs \<Longrightarrow> layers_geometry bs cs \<Longrightarrow> layers_geometry as cs"
  unfolding layers_geometry_def by (rule list_all2_trans [OF same_geometry_trans])

lemma layers_geometry_length: "layers_geometry as as' \<Longrightarrow> length as' = length as"
  unfolding layers_geometry_def by (simp add: list_all2_lengthD)

lemma layers_ok_Cons:
  "layers_ok (a # as) R \<longleftrightarrow> alloc_inv a \<and> refs_of a = R 0 \<and> layers_ok as (\<lambda>l. R (Suc l))"
  by (auto simp: layers_ok_def nth_Cons less_Suc_eq_0_disj)

lemma layers_ok_cong:
  "(\<And>l. l < length as \<Longrightarrow> R l = R' l) \<Longrightarrow> layers_ok as R = layers_ok as R'"
  by (auto simp: layers_ok_def)

lemma layers_nth_Cons:
  "(\<forall>l < length (x # xs). P l) \<longleftrightarrow> P 0 \<and> (\<forall>l < length xs. P (Suc l))"
  by (auto simp: less_Suc_eq_0_disj)

lemma free_layers_spec:
  "layers_ok as R \<Longrightarrow> length ids = length as \<Longrightarrow> (\<forall>l < length as. ids ! l \<in># R l) \<Longrightarrow>
   \<exists>as'. free_layers as ids = Some as' \<and> layers_ok as' (\<lambda>l. R l - {#ids ! l#})
     \<and> layers_geometry as as' \<and> list_all2 (\<lambda>a a'. num_free a \<le> num_free a') as as'"
proof (induction as ids arbitrary: R rule: free_layers.induct)
  case (3 a as b bs)
  then have a: "alloc_inv a" "b \<in># refs_of a" "refs_of a = R 0" and as: "layers_ok as (\<lambda>l. R (Suc l))"
    and bs: "length bs = length as" "\<forall>l < length as. bs ! l \<in># R (Suc l)"
    by (auto simp: layers_ok_Cons layers_nth_Cons)
  obtain a' where a': "free a b = Some a'" "alloc_inv a'" "refs_of a' = R 0 - {#b#}"
    using free_ok [OF a(1,2)] a(3) by auto
  obtain as' where as': "free_layers as bs = Some as'" "layers_ok as' (\<lambda>l. R (Suc l) - {#bs ! l#})"
      "layers_geometry as as'" "list_all2 (\<lambda>a a'. num_free a \<le> num_free a') as as'"
    using "3.IH" [OF a'(1) as bs] by blast
  have "num_free a \<le> num_free a'" using blocks.avail_free_mono [OF a(1,2) a'(1)] .
  then show ?case
    using a' as' same_geometry_free [OF a'(1)] by (simp add: layers_ok_Cons layers_geometry_def)
qed (simp_all add: layers_ok_def)

lemma share_layers_spec:
  "layers_ok as R \<Longrightarrow> length ids = length as \<Longrightarrow> (\<forall>l < length as. ids ! l \<in># R l) \<Longrightarrow>
   \<exists>as'. share_layers as ids = Some as' \<and> layers_ok as' (\<lambda>l. add_mset (ids ! l) (R l))
     \<and> layers_geometry as as' \<and> list_all2 (\<lambda>a a'. num_free a = num_free a') as as'"
proof (induction as ids arbitrary: R rule: share_layers.induct)
  case (3 a as b bs)
  then have a: "alloc_inv a" "b \<in># refs_of a" "refs_of a = R 0" and as: "layers_ok as (\<lambda>l. R (Suc l))"
    and bs: "length bs = length as" "\<forall>l < length as. bs ! l \<in># R (Suc l)"
    by (auto simp: layers_ok_Cons layers_nth_Cons)
  obtain a' where a': "share a b = Some a'" "alloc_inv a'" "refs_of a' = add_mset b (R 0)"
    using share_ok [OF a(1,2)] a(3) by auto
  obtain as' where as': "share_layers as bs = Some as'" "layers_ok as' (\<lambda>l. add_mset (bs ! l) (R (Suc l)))"
      "layers_geometry as as'" "list_all2 (\<lambda>a a'. num_free a = num_free a') as as'"
    using "3.IH" [OF a'(1) as bs] by blast
  have "num_free a' = num_free a" using blocks.avail_share [OF a(1,2) a'(1)] .
  then show ?case
    using a' as' same_geometry_share [OF a'(1)] by (simp add: layers_ok_Cons layers_geometry_def)
qed (simp_all add: layers_ok_def)

section \<open>What the cache holds\<close>

text \<open>The references the cache holds in layer \<open>l\<close>, one per entry.\<close>

definition entry_refs :: "nat \<Rightarrow> (u64 \<times> prefix_entry) list \<Rightarrow> nat multiset" where
  "entry_refs l xs = image_mset (\<lambda>(h, e). pe_block_ids e ! l) (mset xs)"

definition entries_wf :: "nat \<Rightarrow> (u64 \<times> prefix_entry) list \<Rightarrow> bool" where
  "entries_wf n xs \<longleftrightarrow> (\<forall>(h, e) \<in> set xs. length (pe_block_ids e) = n)"

lemma entry_refs_Nil [simp]: "entry_refs l [] = {#}"
  by (simp add: entry_refs_def)

lemma entry_refs_cong: "mset xs = mset ys \<Longrightarrow> entry_refs l xs = entry_refs l ys"
  by (simp add: entry_refs_def)

lemma entries_wf_cong: "mset xs = mset ys \<Longrightarrow> entries_wf n xs = entries_wf n ys"
  by (metis entries_wf_def set_mset_mset)

lemma entry_refs_add:
  "mset xs = add_mset (h, e) (mset ys) \<Longrightarrow> entry_refs l xs = add_mset (pe_block_ids e ! l) (entry_refs l ys)"
  by (simp add: entry_refs_def)

lemma entries_wf_add:
  "mset xs = add_mset (h, e) (mset ys) \<Longrightarrow> entries_wf n xs \<longleftrightarrow> length (pe_block_ids e) = n \<and> entries_wf n ys"
proof -
  assume "mset xs = add_mset (h, e) (mset ys)"
  then have "set xs = insert (h, e) (set ys)" by (metis set_mset_add_mset_insert set_mset_mset)
  then show ?thesis by (auto simp: entries_wf_def)
qed

context prefix_lru
begin

lemma evict_spec:
  assumes ok: "layers_ok as (\<lambda>l. R l + entry_refs l (items (entries pc)))"
    and wf: "entries_wf (length as) (items (entries pc))"
  shows "\<exists>pc' as' found. pc_evict_lru ops pc as = Some (pc', as', found)
    \<and> layers_ok as' (\<lambda>l. R l + entry_refs l (items (entries pc')))
    \<and> entries_wf (length as') (items (entries pc')) \<and> layers_geometry as as'
    \<and> list_all2 (\<lambda>a a'. num_free a \<le> num_free a') as as'
    \<and> pc_disabled pc' = pc_disabled pc
    \<and> (if found then length (items (entries pc)) = Suc (length (items (entries pc')))
        else as' = as \<and> items (entries pc') = items (entries pc)
          \<and> (pc_disabled pc \<or> items (entries pc) = []))"
proof (cases "pc_disabled pc")
  case True
  then show ?thesis
    using assms by (intro exI [of _ pc] exI [of _ as] exI [of _ False])
      (simp add: pc_evict_lru_def list_all2_refl)
next
  case False
  obtain c r where pop: "lru_pop ops (entries pc) = (c, r)" by fastforce
  from pop_split [OF pop] show ?thesis
  proof (elim disjE exE conjE)
    assume "r = None" "items (entries pc) = []" "items c = []"
    then show ?thesis
      using assms False by (intro exI [of _ "pc\<lparr>entries := c\<rparr>"] exI [of _ as] exI [of _ False])
        (simp add: pc_evict_lru_def pop list_all2_refl)
  next
    fix x assume r: "r = Some x" and m: "mset (items (entries pc)) = add_mset x (mset (items c))"
      and len: "length (items (entries pc)) = Suc (length (items c))"
    obtain h e where x: "x = (h, e)" by (cases x)
    let ?R = "\<lambda>l. R l + entry_refs l (items (entries pc))"
    have refs: "entry_refs l (items (entries pc)) = add_mset (pe_block_ids e ! l) (entry_refs l (items c))" for l
      using m unfolding x by (rule entry_refs_add)
    have wf': "length (pe_block_ids e) = length as" "entries_wf (length as) (items c)"
      using wf entries_wf_add [of "items (entries pc)" h e "items c"] m x by auto
    obtain as' where as': "free_layers as (pe_block_ids e) = Some as'"
        "layers_ok as' (\<lambda>l. ?R l - {#pe_block_ids e ! l#})" "layers_geometry as as'"
        "list_all2 (\<lambda>a a'. num_free a \<le> num_free a') as as'"
      using free_layers_spec [OF ok wf'(1)] by (auto simp: refs)
    have "layers_ok as' (\<lambda>l. R l + entry_refs l (items c))" using as'(2) by (simp add: refs)
    then show ?thesis
      using as' wf' False len layers_geometry_length [OF as'(3)]
      by (auto simp: pc_evict_lru_def pop r x)
  qed
qed

lemma register_one_spec:
  assumes ok: "layers_ok as (\<lambda>l. R l + entry_refs l (items c))"
    and wf: "entries_wf (length as) (items c)" and cap: "0 < cap c"
    and ids: "length ids = length as" "\<forall>l < length as. ids ! l \<in># R l"
  shows "\<exists>c' as'. register_one ops c as h b ids = Some (c', as')
    \<and> layers_ok as' (\<lambda>l. R l + entry_refs l (items c'))
    \<and> entries_wf (length as') (items c') \<and> layers_geometry as as' \<and> cap c' = cap c
    \<and> set (items c') \<subseteq> insert (h, \<lparr>pe_block_ids = ids, pe_block_tokens = b\<rparr>) (set (items c))"
proof (cases "lru_contains ops c h")
  case True
  then show ?thesis using assms by (auto simp: register_one_def)
next
  case False
  let ?e = "\<lparr>pe_block_ids = ids, pe_block_tokens = b\<rparr>"
  let ?R = "\<lambda>l. R l + entry_refs l (items c)"
  have new: "h \<notin> fst ` set (items c)" using False by (simp add: contains)
  obtain as1 where as1: "share_layers as ids = Some as1" "layers_geometry as as1"
      "layers_ok as1 (\<lambda>l. add_mset (ids ! l) (?R l))"
    using share_layers_spec [OF ok ids(1)] ids(2) by auto
  have len1: "length as1 = length as" using layers_geometry_length [OF as1(2)] .
  obtain c' ev where push: "lru_push ops c h ?e = (c', ev)" by fastforce
  have cap': "cap c' = cap c" using push_cap [of c h ?e] by (simp add: push)
  from push_split [OF new cap push] show ?thesis
  proof (elim disjE exE conjE)
    assume ev: "ev = None" and m: "mset (items c') = add_mset (h, ?e) (mset (items c))"
    have "set (items c') = insert (h, ?e) (set (items c))"
      using m by (metis set_mset_add_mset_insert set_mset_mset)
    then show ?thesis
      using as1 False ev cap' wf ids(1) len1 entries_wf_add [OF m] entry_refs_add [OF m]
      by (simp add: register_one_def push)
  next
    fix x assume ev: "ev = Some x"
      and m: "add_mset x (mset (items c')) = add_mset (h, ?e) (mset (items c))"
    obtain h' e' where x: "x = (h', e')" by (cases x)
    have m1: "mset ((h', e') # items c') = add_mset (h, ?e) (mset (items c))" using m by (simp add: x)
    have refs: "add_mset (pe_block_ids e' ! l) (entry_refs l (items c')) =
        add_mset (ids ! l) (entry_refs l (items c))" for l
      using entry_refs_add [OF m1, of l] by (simp add: entry_refs_def)
    have "entries_wf (length as) ((h', e') # items c')"
      using entries_wf_add [OF m1] wf ids(1) by simp
    then have wf': "length (pe_block_ids e') = length as" "entries_wf (length as) (items c')"
      by (auto simp: entries_wf_def)
    let ?R1 = "\<lambda>l. R l + add_mset (pe_block_ids e' ! l) (entry_refs l (items c'))"
    have ok1: "layers_ok as1 ?R1"
      using as1(3) by (simp add: refs)
    obtain as2 where as2: "free_layers as1 (pe_block_ids e') = Some as2" "layers_geometry as1 as2"
        "layers_ok as2 (\<lambda>l. ?R1 l - {#pe_block_ids e' ! l#})"
      using free_layers_spec [OF ok1, of "pe_block_ids e'"] wf'(1) len1 by auto
    have "layers_ok as2 (\<lambda>l. R l + entry_refs l (items c'))" using as2(3) by simp
    moreover have "set (items c') \<subseteq> insert (h, ?e) (set (items c))"
    proof -
      have "insert x (set (items c')) = insert (h, ?e) (set (items c))"
        using arg_cong [OF m, of set_mset] by simp
      then show ?thesis by blast
    qed
    ultimately show ?thesis
      using as1 as2 False ev cap' wf' layers_geometry_trans [OF as1(2) as2(2)]
        layers_geometry_length [OF as2(2)] len1
      by (simp add: register_one_def push x)
  qed
qed

lemma register_walk_spec:
  assumes "layers_ok as (\<lambda>l. R l + entry_refs l (items c))"
    and "entries_wf (length as) (items c)" and "0 < cap c"
    and "\<forall>(b, ids) \<in> set bids. length ids = length as \<and> (\<forall>l < length as. ids ! l \<in># R l)"
  shows "\<exists>c' as'. register_walk ops hash c as prev bids = Some (c', as')
    \<and> layers_ok as' (\<lambda>l. R l + entry_refs l (items c'))
    \<and> entries_wf (length as') (items c') \<and> layers_geometry as as' \<and> cap c' = cap c"
  using assms
proof (induction bids arbitrary: c as prev)
  case Nil
  then show ?case by simp
next
  case (Cons p bids)
  obtain b ids where p: "p = (b, ids)" by (cases p)
  let ?h = "hash b prev"
  obtain c1 as1 where one: "register_one ops c as ?h b ids = Some (c1, as1)"
      "layers_ok as1 (\<lambda>l. R l + entry_refs l (items c1))" "entries_wf (length as1) (items c1)"
      "layers_geometry as as1" "cap c1 = cap c"
    using register_one_spec [OF Cons.prems(1-3), of ids ?h b] Cons.prems(4) by (auto simp: p)
  have len: "length as1 = length as" using layers_geometry_length [OF one(4)] .
  have rest: "\<forall>(b, ids) \<in> set bids. length ids = length as1 \<and> (\<forall>l < length as1. ids ! l \<in># R l)"
    using Cons.prems(4) unfolding len by simp
  have cap1: "0 < cap c1" using Cons.prems(3) one(5) by simp
  obtain c' as' where "register_walk ops hash c1 as1 ?h bids = Some (c', as')"
      "layers_ok as' (\<lambda>l. R l + entry_refs l (items c'))" "entries_wf (length as') (items c')"
      "layers_geometry as1 as'" "cap c' = cap c1"
    using Cons.IH [OF one(2,3) cap1 rest] by blast
  then show ?case
    using one(1,5) layers_geometry_trans [OF one(4)] by (simp add: p Let_def)
qed

end

section \<open>What a hit hands out\<close>

text \<open>
  \<open>holds ids P\<close> says that the blocks \<open>ids\<close> (one per layer) hold the keys and values of
  the last block of the prefix \<open>P\<close> (a list of token blocks).  The cache is sound when every
  entry holds what its hash and its tokens name; \<open>S\<close> is the set of prefixes in play, on
  which two prefixes with the same last block never share a hash.
\<close>

definition chain :: "chain_hash \<Rightarrow> u32 list list \<Rightarrow> u64" where
  "chain hash P = fold hash P 0"

definition no_collision :: "chain_hash \<Rightarrow> u32 list list set \<Rightarrow> bool" where
  "no_collision hash S \<longleftrightarrow>
     (\<forall>P Q b. P @ [b] \<in> S \<longrightarrow> Q @ [b] \<in> S \<longrightarrow> chain hash (P @ [b]) = chain hash (Q @ [b]) \<longrightarrow> P = Q)"

definition entry_sound ::
    "chain_hash \<Rightarrow> u32 list list set \<Rightarrow> (nat list \<Rightarrow> u32 list list \<Rightarrow> bool) \<Rightarrow> u64 \<times> prefix_entry \<Rightarrow> bool" where
  "entry_sound hash S holds = (\<lambda>(h, e).
     \<exists>P. P @ [pe_block_tokens e] \<in> S \<and> chain hash (P @ [pe_block_tokens e]) = h
       \<and> holds (pe_block_ids e) (P @ [pe_block_tokens e]))"

definition entries_sound ::
    "chain_hash \<Rightarrow> u32 list list set \<Rightarrow> (nat list \<Rightarrow> u32 list list \<Rightarrow> bool) \<Rightarrow>
     (u64 \<times> prefix_entry) list \<Rightarrow> bool" where
  "entries_sound hash S holds xs \<longleftrightarrow> (\<forall>x \<in> set xs. entry_sound hash S holds x)"

lemma chain_snoc [simp]: "chain hash (P @ [b]) = hash b (chain hash P)"
  by (simp add: chain_def)

context prefix_lru
begin

lemma entries_sound_get: "entries_sound hash S holds (items (fst (lru_get ops c k))) = entries_sound hash S holds (items c)"
  unfolding entries_sound_def by (metis mset_get set_mset_mset)

lemma lookup_walk_sound:
  assumes "entries_sound hash S holds (items c)" and "no_collision hash S"
    and "\<forall>i < length bs. P @ take (Suc i) bs \<in> S"
    and "lookup_walk ops hash c (chain hash P) bs = (c', ids)"
  shows "\<forall>i < length ids. holds (ids ! i) (P @ take (Suc i) bs)"
  using assms
proof (induction bs arbitrary: P c c' ids)
  case Nil
  then show ?case by simp
next
  case (Cons b bs)
  let ?h = "hash b (chain hash P)"
  obtain c1 r where g: "lru_get ops c ?h = (c1, r)" by fastforce
  have r: "r = map_of (items c) ?h" using get_result [of c ?h] by (simp add: g)
  have s1: "entries_sound hash S holds (items c1)" using entries_sound_get [of S holds c ?h] Cons.prems(1) by (simp add: g)
  show ?case
  proof (cases "\<exists>e. r = Some e \<and> pe_block_tokens e = b")
    case False
    then have "ids = []" using Cons.prems(4) by (auto simp: g Let_def split: option.splits if_splits)
    then show ?thesis by simp
  next
    case True
    then obtain e where e: "r = Some e" "pe_block_tokens e = b" by blast
    obtain c2 ids2 where w: "lookup_walk ops hash c1 ?h bs = (c2, ids2)" by fastforce
    have ids: "ids = pe_block_ids e # ids2" using Cons.prems(4) by (simp add: g e w)
    have "(?h, e) \<in> set (items c)" using e(1) r by (metis map_of_SomeD)
    then obtain Q where Q: "Q @ [b] \<in> S" "chain hash (Q @ [b]) = ?h" "holds (pe_block_ids e) (Q @ [b])"
      using Cons.prems(1) e(2) by (fastforce simp: entries_sound_def entry_sound_def)
    have "P @ [b] \<in> S" using Cons.prems(3) by force
    then have "Q = P"
      using Cons.prems(2) Q(1,2) unfolding no_collision_def by (metis chain_snoc)
    then have hd: "holds (pe_block_ids e) (P @ [b])" using Q(3) by simp
    have "\<forall>i < length bs. (P @ [b]) @ take (Suc i) bs \<in> S" using Cons.prems(3) by force
    then have "\<forall>i < length ids2. holds (ids2 ! i) ((P @ [b]) @ take (Suc i) bs)"
      using Cons.IH [OF s1 Cons.prems(2), of "P @ [b]" c2 ids2] w by simp
    then show ?thesis using hd by (auto simp: ids less_Suc_eq_0_disj)
  qed
qed

lemma register_one_sound:
  assumes "entries_sound hash S holds (items c)" and "0 < cap c" and "P @ [b] \<in> S" and "holds ids (P @ [b])"
    and "register_one ops c as (chain hash (P @ [b])) b ids = Some (c', as')"
  shows "entries_sound hash S holds (items c') \<and> cap c' = cap c"
proof (cases "lru_contains ops c (chain hash (P @ [b]))")
  case True
  then show ?thesis using assms by (simp add: register_one_def)
next
  case False
  let ?h = "chain hash (P @ [b])" and ?e = "\<lparr>pe_block_ids = ids, pe_block_tokens = b\<rparr>"
  obtain c1 ev where push: "lru_push ops c ?h ?e = (c1, ev)" by fastforce
  have c': "c' = c1" using assms(5) False
    by (auto simp: register_one_def push simp del: chain_snoc split: option.splits)
  have "?h \<notin> fst ` set (items c)" using False by (simp add: contains)
  from push_split [OF this assms(2) push]
  have "set (items c1) \<subseteq> insert (?h, ?e) (set (items c))"
    by (metis (no_types, lifting) insert_subset order_refl set_mset_add_mset_insert set_mset_mset subset_insertI)
  moreover have "entry_sound hash S holds (?h, ?e)"
    using assms(3,4) by (auto simp: entry_sound_def)
  ultimately show ?thesis
    using assms(1) push_cap [of c ?h ?e] push by (auto simp: entries_sound_def c')
qed

lemma register_walk_sound:
  assumes "entries_sound hash S holds (items c)" and "0 < cap c"
    and "\<forall>i < length bids. P @ map fst (take (Suc i) bids) \<in> S"
    and "\<forall>i < length bids. holds (snd (bids ! i)) (P @ map fst (take (Suc i) bids))"
    and "register_walk ops hash c as (chain hash P) bids = Some (c', as')"
  shows "entries_sound hash S holds (items c')"
  using assms
proof (induction bids arbitrary: P c as)
  case Nil
  then show ?case by simp
next
  case (Cons p bids)
  obtain b ids where p: "p = (b, ids)" by (cases p)
  have first: "P @ [b] \<in> S" "holds ids (P @ [b])"
    using Cons.prems(3,4) by (force simp: p)+
  obtain c1 as1 where one: "register_one ops c as (chain hash (P @ [b])) b ids = Some (c1, as1)"
    and rest: "register_walk ops hash c1 as1 (chain hash (P @ [b])) bids = Some (c', as')"
    using Cons.prems(5) by (auto simp: p Let_def split: option.splits)
  have s1: "entries_sound hash S holds (items c1)" "0 < cap c1"
    using register_one_sound [OF Cons.prems(1,2) first one] Cons.prems(2) by auto
  have "\<forall>i < length bids. (P @ [b]) @ map fst (take (Suc i) bids) \<in> S"
    "\<forall>i < length bids. holds (snd (bids ! i)) ((P @ [b]) @ map fst (take (Suc i) bids))"
    using Cons.prems(3,4) by (force simp: p)+
  then show ?case using Cons.IH [OF s1 _ _ rest] by blast
qed

end

interpretation pl: prefix_lru "ll_ops :: ((u64, prefix_entry) lru_list, u64, prefix_entry) lru_ops"
    ll_items ll_cap hash for hash :: chain_hash
  ..

end
