(* ===== verification/Scheduler.thy ===== *)
theory Scheduler
  imports Prefix_Cache
begin

text \<open>
  \<open>src/scheduler/sequence.rs\<close> and \<open>src/scheduler/mod.rs\<close>: the sequences and the
  first-come-first-served scheduler over the paged memory.  The allocators the scheduler
  shares with the caches and the engine are a field of its state; the cache of layer \<open>i\<close> of
  a sequence draws from \<open>allocators ! i\<close>, as it does by construction.  Sampling parameters
  and the grammar constraint are carried along untouched (types \<open>'sp\<close> and \<open>'jc\<close>).
  \<open>None\<close> is a panic, or an eviction loop that does not end.
\<close>

section \<open>Sequences\<close>

datatype sequence_phase = Prefill | Decode

datatype sequence_status = Waiting | Running | Finished

record ('t, 'sp, 'jc) sequence_state =
  sq_id :: nat
  num_generated :: nat
  all_tokens :: "u32 list"
  token_counts :: "u32 \<rightharpoonup> nat"
  sampling_params :: 'sp
  status :: sequence_status
  phase :: sequence_phase
  caches :: "'t paged_cache list"
  draft_caches :: "'t paged_cache list"
  num_processed_tokens :: nat
  max_tokens :: nat
  finish_reason :: "string option"
  jconstraint :: "'jc option"

text \<open>\<open>*counts.entry(token).or_insert(0) += 1\<close>.\<close>

definition bump_count :: "(u32 \<rightharpoonup> nat) \<Rightarrow> u32 \<Rightarrow> (u32 \<rightharpoonup> nat)" where
  "bump_count m t = m(t \<mapsto> (case m t of None \<Rightarrow> 0 | Some n \<Rightarrow> n) + 1)"

definition append_token ::
    "('t, 'sp, 'jc) sequence_state \<Rightarrow> u32 \<Rightarrow> ('t, 'sp, 'jc) sequence_state" where
  "append_token s tok =
     s\<lparr>all_tokens := all_tokens s @ [tok], token_counts := bump_count (token_counts s) tok\<rparr>"

definition apply_token ::
    "('t, 'sp, 'jc) sequence_state \<Rightarrow> u32 \<Rightarrow> bool \<Rightarrow> ('t, 'sp, 'jc) sequence_state \<times> bool" where
  "apply_token s next_token is_stop =
     (if is_stop
      then (s\<lparr>status := Finished, finish_reason := Some ''stop''\<rparr>, False)
      else
        let s1 = s\<lparr>num_generated := num_generated s + 1\<rparr>
        in (if max_tokens s1 \<le> num_generated s1
            then s1\<lparr>status := Finished, finish_reason := Some ''length''\<rparr> else s1, True))"

text \<open>Clearing the caches of one model, layer by layer.\<close>

fun clear_layers ::
    "('t \<Rightarrow> nat \<Rightarrow> nat option) \<Rightarrow> budgets \<Rightarrow> ('t, 'f) block_allocator list \<Rightarrow> 't paged_cache list \<Rightarrow>
     (budgets \<times> ('t, 'f) block_allocator list \<times> 't paged_cache list) option" where
  "clear_layers dim B as [] = Some (B, as, [])"
| "clear_layers dim B [] (c # cs) = None"
| "clear_layers dim B (a # as) (c # cs) =
     (case cache_clear dim B a c of
        None \<Rightarrow> None
      | Some (B', a', c') \<Rightarrow>
          (case clear_layers dim B' as cs of
             None \<Rightarrow> None
           | Some (B'', as', cs') \<Rightarrow> Some (B'', a' # as', c' # cs')))"

section \<open>The scheduler's state\<close>

record ('t, 'f, 'sp, 'jc) scheduler =
  max_num_sequences :: nat
  max_tokens_per_step :: nat
  waiting :: "('t, 'sp, 'jc) sequence_state list"
  running :: "('t, 'sp, 'jc) sequence_state list"
  running_index :: "nat \<rightharpoonup> nat"
  allocators :: "('t, 'f) block_allocator list"
  draft_allocators :: "('t, 'f) block_allocator list"
  draft_num_layers :: nat
  next_id :: nat
  num_layers :: nat
  s_block_size :: nat
  s_budgets :: budgets

definition default_block_size :: nat where
  "default_block_size = 16"

definition scheduler_new ::
    "nat \<Rightarrow> nat \<Rightarrow> budgets \<Rightarrow> ('t, 'f) block_allocator list \<Rightarrow> nat \<Rightarrow> ('t, 'f, 'sp, 'jc) scheduler" where
  "scheduler_new max_seqs max_step B as layers =
     \<lparr>max_num_sequences = max_seqs, max_tokens_per_step = max_step, waiting = [], running = [],
      running_index = Map.empty, allocators = as, draft_allocators = [], draft_num_layers = 0,
      next_id = 0, num_layers = layers,
      s_block_size = (case as of [] \<Rightarrow> default_block_size | a # _ \<Rightarrow> block_size a),
      s_budgets = B\<rparr>"

definition set_draft_allocators ::
    "('t, 'f, 'sp, 'jc) scheduler \<Rightarrow> ('t, 'f) block_allocator list \<Rightarrow> ('t, 'f, 'sp, 'jc) scheduler" where
  "set_draft_allocators s as = s\<lparr>draft_num_layers := length as, draft_allocators := as\<rparr>"

section \<open>The running set and its index\<close>

definition push_to_running ::
    "('t, 'sp, 'jc) sequence_state list \<Rightarrow> (nat \<rightharpoonup> nat) \<Rightarrow> ('t, 'sp, 'jc) sequence_state \<Rightarrow>
     ('t, 'sp, 'jc) sequence_state list \<times> (nat \<rightharpoonup> nat)" where
  "push_to_running rs idx s = (rs @ [s], idx(sq_id s \<mapsto> length rs))"

definition remove_from_running ::
    "('t, 'sp, 'jc) sequence_state list \<Rightarrow> (nat \<rightharpoonup> nat) \<Rightarrow> nat \<Rightarrow>
     (('t, 'sp, 'jc) sequence_state list \<times> (nat \<rightharpoonup> nat) \<times> ('t, 'sp, 'jc) sequence_state) option" where
  "remove_from_running rs idx i =
     (if i < length rs then
        let idx1 = idx(sq_id (rs ! i) := None);
            rs' = swap_remove rs i
        in Some (rs', if i < length rs' then idx1(sq_id (rs' ! i) \<mapsto> i) else idx1, rs ! i)
      else None)"

definition get_running ::
    "('t, 'f, 'sp, 'jc) scheduler \<Rightarrow> nat \<Rightarrow> ('t, 'sp, 'jc) sequence_state option" where
  "get_running s sid =
     (case running_index s sid of
        None \<Rightarrow> None
      | Some i \<Rightarrow> if i < length (running s) then Some (running s ! i) else None)"

text \<open>Freeing everything a sequence holds, target and draft.\<close>

definition clear_caches ::
    "('t \<Rightarrow> nat \<Rightarrow> nat option) \<Rightarrow> ('t, 'f, 'sp, 'jc) scheduler \<Rightarrow> ('t, 'sp, 'jc) sequence_state \<Rightarrow>
     (('t, 'f, 'sp, 'jc) scheduler \<times> ('t, 'sp, 'jc) sequence_state) option" where
  "clear_caches dim s q =
     (case clear_layers dim (s_budgets s) (allocators s) (caches q) of
        None \<Rightarrow> None
      | Some (B1, as1, cs1) \<Rightarrow>
          (case clear_layers dim B1 (draft_allocators s) (draft_caches q) of
             None \<Rightarrow> None
           | Some (B2, das1, dcs1) \<Rightarrow>
               Some (s\<lparr>s_budgets := B2, allocators := as1, draft_allocators := das1\<rparr>,
                     q\<lparr>caches := cs1, draft_caches := dcs1\<rparr>)))"

section \<open>Queueing a request\<close>

definition add_request_full ::
    "('t, 'f, 'sp, 'jc) scheduler \<Rightarrow> u32 list \<Rightarrow> 'sp \<Rightarrow> nat \<Rightarrow> 'jc option \<Rightarrow>
     (('t, 'f, 'sp, 'jc) scheduler \<times> nat) option" where
  "add_request_full s prompt sp maxt jc =
     (if length (allocators s) < num_layers s \<or> length (draft_allocators s) < draft_num_layers s
      then None
      else
        let sid = next_id s;
            counts = fold (\<lambda>t m. bump_count m t) prompt Map.empty;
            cs = map (\<lambda>i. paged_cache_new (allocators s ! i)) [0 ..< num_layers s];
            dcs = map (\<lambda>i. paged_cache_new (draft_allocators s ! i)) [0 ..< draft_num_layers s];
            q = \<lparr>sq_id = sid, num_generated = 0, all_tokens = prompt, token_counts = counts,
                 sampling_params = sp, status = Waiting, phase = Prefill, caches = cs,
                 draft_caches = dcs, num_processed_tokens = 0, max_tokens = maxt,
                 finish_reason = None, jconstraint = jc\<rparr>
        in Some (s\<lparr>next_id := sid + 1, waiting := waiting s @ [q]\<rparr>, sid))"

definition add_request ::
    "('t, 'f, 'sp, 'jc) scheduler \<Rightarrow> u32 list \<Rightarrow> 'sp \<Rightarrow> nat \<Rightarrow>
     (('t, 'f, 'sp, 'jc) scheduler \<times> nat) option" where
  "add_request s prompt sp maxt = add_request_full s prompt sp maxt None"

section \<open>What a step needs\<close>

definition num_free_blocks :: "('t, 'f) block_allocator list \<Rightarrow> nat" where
  "num_free_blocks as = (case as of [] \<Rightarrow> 0 | a # _ \<Rightarrow> num_free a)"

definition blocks_needed_for_prefill ::
    "'c pc_ops \<Rightarrow> chain_hash \<Rightarrow> nat \<Rightarrow> u32 list \<Rightarrow> 'c prefix_cache option \<Rightarrow> nat" where
  "blocks_needed_for_prefill ops hash bs tokens pco =
     (let total = length tokens;
          total_blocks = div_ceil total bs;
          cached = (case pco of
              None \<Rightarrow> 0
            | Some pc \<Rightarrow> min (count_cached_blocks ops hash pc tokens bs) ((total - 1) div bs))
      in total_blocks - cached)"

definition decode_needs_new_block :: "nat \<Rightarrow> ('t, 'sp, 'jc) sequence_state \<Rightarrow> bool" where
  "decode_needs_new_block bs q \<longleftrightarrow> num_processed_tokens q mod bs = 0 \<and> 0 < num_processed_tokens q"

section \<open>One scheduling step\<close>

type_synonym scheduled = "(nat \<times> sequence_phase) list"

text \<open>The first pass: decodes that need no block run while the budget lasts.\<close>

fun decode_pass ::
    "nat \<Rightarrow> ('t, 'sp, 'jc) sequence_state list \<Rightarrow> nat \<Rightarrow> scheduled \<times> nat \<times> nat list" where
  "decode_pass bs [] budget = ([], budget, [])"
| "decode_pass bs (q # qs) budget =
     (if decode_needs_new_block bs q
      then (let (sch, b, need) = decode_pass bs qs budget in (sch, b, sq_id q # need))
      else if 0 < budget
      then (let (sch, b, need) = decode_pass bs qs (budget - 1) in ((sq_id q, Decode) # sch, b, need))
      else decode_pass bs qs budget)"

text \<open>\<open>while num_free_blocks() <= reserved && pc.evict_lru(..) {}\<close>.\<close>

partial_function (option) evict_until ::
    "'c pc_ops \<Rightarrow> nat \<Rightarrow> 'c prefix_cache \<Rightarrow> ('t, 'f) block_allocator list \<Rightarrow>
     ('c prefix_cache \<times> ('t, 'f) block_allocator list) option" where
  "evict_until ops reserved pc as =
     (if num_free_blocks as \<le> reserved then
        (case pc_evict_lru ops pc as of
           None \<Rightarrow> None
         | Some (pc', as', found) \<Rightarrow>
             if found then evict_until ops reserved pc' as' else Some (pc', as'))
      else Some (pc, as))"

text \<open>Preempting the sequence at a slot: its blocks go back and it queues first again.\<close>

definition preempt ::
    "('t \<Rightarrow> nat \<Rightarrow> nat option) \<Rightarrow> ('t, 'f, 'sp, 'jc) scheduler \<Rightarrow> nat \<Rightarrow> ('t, 'f, 'sp, 'jc) scheduler option" where
  "preempt dim s i =
     (case remove_from_running (running s) (running_index s) i of
        None \<Rightarrow> None
      | Some (rs, idx, q) \<Rightarrow>
          (case clear_caches dim (s\<lparr>running := rs, running_index := idx\<rparr>) q of
             None \<Rightarrow> None
           | Some (s1, q1) \<Rightarrow>
               Some (s1\<lparr>waiting :=
                 q1\<lparr>num_processed_tokens := 0, phase := Prefill, status := Waiting\<rparr> # waiting s1\<rparr>)))"

text \<open>The second pass: each decode at a block boundary gets a block of its own or is preempted.\<close>

fun boundary_pass ::
    "('t \<Rightarrow> nat \<Rightarrow> nat option) \<Rightarrow> 'c pc_ops \<Rightarrow> ('t, 'f, 'sp, 'jc) scheduler \<Rightarrow>
     'c prefix_cache option \<Rightarrow> nat \<Rightarrow> nat \<Rightarrow> nat list \<Rightarrow>
     (('t, 'f, 'sp, 'jc) scheduler \<times> 'c prefix_cache option \<times> nat \<times> nat \<times> scheduled) option" where
  "boundary_pass dim ops s pco budget reserved [] = Some (s, pco, budget, reserved, [])"
| "boundary_pass dim ops s pco budget reserved (sid # ids) =
     (case (case pco of
              None \<Rightarrow> Some (None, allocators s)
            | Some pc \<Rightarrow>
                map_option (\<lambda>(pc', as'). (Some pc', as')) (evict_until ops reserved pc (allocators s))) of
        None \<Rightarrow> None
      | Some (pco1, as1) \<Rightarrow>
          let s1 = s\<lparr>allocators := as1\<rparr>
          in if reserved < num_free_blocks as1 then
               if 0 < budget then
                 map_option (\<lambda>(s', pco', b', r', sch). (s', pco', b', r', (sid, Decode) # sch))
                   (boundary_pass dim ops s1 pco1 (budget - 1) (reserved + 1) ids)
               else boundary_pass dim ops s1 pco1 budget reserved ids
             else
               (case running_index s1 sid of
                  None \<Rightarrow> None
                | Some i \<Rightarrow>
                    (case preempt dim s1 i of
                       None \<Rightarrow> None
                     | Some s2 \<Rightarrow> boundary_pass dim ops s2 pco1 budget reserved ids)))"

text \<open>The eviction loop of admission, which recounts what is free and what the prompt needs.\<close>

partial_function (option) evict_for_prompt ::
    "'c pc_ops \<Rightarrow> chain_hash \<Rightarrow> nat \<Rightarrow> u32 list \<Rightarrow> nat \<Rightarrow> 'c prefix_cache \<Rightarrow>
     ('t, 'f) block_allocator list \<Rightarrow> nat \<Rightarrow> nat \<Rightarrow>
     ('c prefix_cache \<times> ('t, 'f) block_allocator list \<times> nat \<times> nat) option" where
  "evict_for_prompt ops hash bs tokens reserved pc as avail needed =
     (if avail < needed then
        (case pc_evict_lru ops pc as of
           None \<Rightarrow> None
         | Some (pc', as', found) \<Rightarrow>
             if found
             then evict_for_prompt ops hash bs tokens reserved pc' as'
                    (num_free_blocks as' - reserved)
                    (blocks_needed_for_prefill ops hash bs tokens (Some pc'))
             else Some (pc', as', avail, needed))
      else Some (pc, as, avail, needed))"

text \<open>
  Admission, one waiting prompt after the other.  The first argument is the queue still to
  look at; the state's \<open>waiting\<close> is written back at the end.
\<close>

fun admit ::
    "'c pc_ops \<Rightarrow> chain_hash \<Rightarrow> ('t, 'f, 'sp, 'jc) scheduler \<Rightarrow> 'c prefix_cache option \<Rightarrow>
     nat \<Rightarrow> nat \<Rightarrow> nat \<Rightarrow> bool \<Rightarrow> ('t, 'sp, 'jc) sequence_state list \<Rightarrow>
     (('t, 'f, 'sp, 'jc) scheduler \<times> 'c prefix_cache option \<times> scheduled) option" where
  "admit ops hash s pco budget reserved avail prefilled [] = Some (s\<lparr>waiting := []\<rparr>, pco, [])"
| "admit ops hash s pco budget reserved avail prefilled (q # qs) =
     (if length (running s) < max_num_sequences s \<and> 0 < budget then
        let needed = blocks_needed_for_prefill ops hash (s_block_size s) (all_tokens q) pco
        in case (case pco of
                   Some pc \<Rightarrow>
                     if avail < needed
                     then map_option (\<lambda>(pc', as', fr, nd). (Some pc', as', fr, nd))
                            (evict_for_prompt ops hash (s_block_size s) (all_tokens q) reserved
                               (pc_touch ops hash pc (all_tokens q) (s_block_size s))
                               (allocators s) avail needed)
                     else Some (pco, allocators s, avail, needed)
                 | None \<Rightarrow> Some (pco, allocators s, avail, needed)) of
             None \<Rightarrow> None
           | Some (pco1, as1, free1, needed1) \<Rightarrow>
               let s1 = s\<lparr>allocators := as1\<rparr>;
                   tokens_needed = length (all_tokens q)
               in if free1 < needed1 then Some (s1\<lparr>waiting := q # qs\<rparr>, pco1, [])
                  else if budget < tokens_needed \<and> prefilled
                  then Some (s1\<lparr>waiting := q # qs\<rparr>, pco1, [])
                  else
                    let q' = q\<lparr>status := Running, phase := Prefill\<rparr>;
                        (rs, idx) = push_to_running (running s1) (running_index s1) q'
                    in map_option (\<lambda>(s', pco', sch). (s', pco', (sq_id q', Prefill) # sch))
                         (admit ops hash (s1\<lparr>running := rs, running_index := idx\<rparr>) pco1
                            (budget - tokens_needed) reserved (free1 - needed1) True qs)
      else Some (s\<lparr>waiting := q # qs\<rparr>, pco, []))"

definition schedule ::
    "('t \<Rightarrow> nat \<Rightarrow> nat option) \<Rightarrow> 'c pc_ops \<Rightarrow> chain_hash \<Rightarrow> ('t, 'f, 'sp, 'jc) scheduler \<Rightarrow>
     'c prefix_cache option \<Rightarrow>
     (('t, 'f, 'sp, 'jc) scheduler \<times> 'c prefix_cache option \<times> scheduled) option" where
  "schedule dim ops hash s pco =
     (let (sch1, budget1, need) = decode_pass (s_block_size s) (running s) (max_tokens_per_step s)
      in case boundary_pass dim ops s pco budget1 0 need of
           None \<Rightarrow> None
         | Some (s1, pco1, budget2, reserved, sch2) \<Rightarrow>
             map_option (\<lambda>(s2, pco2, sch3). (s2, pco2, sch1 @ sch2 @ sch3))
               (admit ops hash s1 pco1 budget2 reserved
                  (num_free_blocks (allocators s1) - reserved) False (waiting s1)))"

section \<open>Retiring and aborting\<close>

definition remove_and_clear ::
    "('t \<Rightarrow> nat \<Rightarrow> nat option) \<Rightarrow> ('t, 'f, 'sp, 'jc) scheduler \<Rightarrow> nat \<Rightarrow>
     (('t, 'f, 'sp, 'jc) scheduler \<times> ('t, 'sp, 'jc) sequence_state) option" where
  "remove_and_clear dim s i =
     (case remove_from_running (running s) (running_index s) i of
        None \<Rightarrow> None
      | Some (rs, idx, q) \<Rightarrow> clear_caches dim (s\<lparr>running := rs, running_index := idx\<rparr>) q)"

fun retire_ids ::
    "('t \<Rightarrow> nat \<Rightarrow> nat option) \<Rightarrow> ('t, 'f, 'sp, 'jc) scheduler \<Rightarrow> nat list \<Rightarrow>
     (('t, 'f, 'sp, 'jc) scheduler \<times> (nat \<times> string option) list) option" where
  "retire_ids dim s [] = Some (s, [])"
| "retire_ids dim s (sid # ids) =
     (case running_index s sid of
        None \<Rightarrow> None
      | Some i \<Rightarrow>
          (case remove_and_clear dim s i of
             None \<Rightarrow> None
           | Some (s1, q) \<Rightarrow>
               map_option (\<lambda>(s2, done). (s2, (sq_id q, finish_reason q) # done)) (retire_ids dim s1 ids)))"

definition retire_finished ::
    "('t \<Rightarrow> nat \<Rightarrow> nat option) \<Rightarrow> ('t, 'f, 'sp, 'jc) scheduler \<Rightarrow>
     (('t, 'f, 'sp, 'jc) scheduler \<times> (nat \<times> string option) list) option" where
  "retire_finished dim s =
     retire_ids dim s (map sq_id (filter (\<lambda>q. status q = Finished) (running s)))"

fun clear_each ::
    "('t \<Rightarrow> nat \<Rightarrow> nat option) \<Rightarrow> ('t, 'f, 'sp, 'jc) scheduler \<Rightarrow> ('t, 'sp, 'jc) sequence_state list \<Rightarrow>
     ('t, 'f, 'sp, 'jc) scheduler option" where
  "clear_each dim s [] = Some s"
| "clear_each dim s (q # qs) =
     (case clear_caches dim s q of None \<Rightarrow> None | Some (s1, _) \<Rightarrow> clear_each dim s1 qs)"

definition abort_all_running ::
    "('t \<Rightarrow> nat \<Rightarrow> nat option) \<Rightarrow> ('t, 'f, 'sp, 'jc) scheduler \<Rightarrow>
     (('t, 'f, 'sp, 'jc) scheduler \<times> nat list) option" where
  "abort_all_running dim s =
     map_option (\<lambda>s1. (s1\<lparr>running := [], running_index := Map.empty\<rparr>, map sq_id (running s)))
       (clear_each dim s (running s))"

definition abort_all ::
    "('t \<Rightarrow> nat \<Rightarrow> nat option) \<Rightarrow> ('t, 'f, 'sp, 'jc) scheduler \<Rightarrow>
     (('t, 'f, 'sp, 'jc) scheduler \<times> nat list) option" where
  "abort_all dim s =
     (case abort_all_running dim s of
        None \<Rightarrow> None
      | Some (s1, ids) \<Rightarrow>
          map_option (\<lambda>s2. (s2\<lparr>waiting := []\<rparr>, ids @ map sq_id (waiting s1)))
            (clear_each dim s1 (waiting s1)))"

definition abort_sequence ::
    "('t \<Rightarrow> nat \<Rightarrow> nat option) \<Rightarrow> ('t, 'f, 'sp, 'jc) scheduler \<Rightarrow> nat \<Rightarrow>
     (('t, 'f, 'sp, 'jc) scheduler \<times> bool) option" where
  "abort_sequence dim s sid =
     (case running_index s sid of
        Some i \<Rightarrow> map_option (\<lambda>(s1, q). (s1, True)) (remove_and_clear dim s i)
      | None \<Rightarrow>
          (case position (\<lambda>q. sq_id q = sid) (waiting s) of
             None \<Rightarrow> Some (s, False)
           | Some w \<Rightarrow>
               map_option (\<lambda>(s1, q). (s1, True))
                 (clear_caches dim (s\<lparr>waiting := remove_at (waiting s) w\<rparr>) (waiting s ! w))))"

definition has_pending_work :: "('t, 'f, 'sp, 'jc) scheduler \<Rightarrow> bool" where
  "has_pending_work s \<longleftrightarrow> waiting s \<noteq> [] \<or> running s \<noteq> []"

definition queue_depth :: "('t, 'f, 'sp, 'jc) scheduler \<Rightarrow> nat" where
  "queue_depth s = length (waiting s) + length (running s)"

end
