(* ===== verification/Scheduler_Inv.thy ===== *)
theory Scheduler_Inv
  imports Scheduler "HOL-Library.Sublist"
begin

text \<open>
  The scheduler's invariant: the running index is exact, every reference in the pools is held
  by exactly one table entry of a sequence or one entry of the prefix cache, and a waiting
  sequence holds none.  Every operation of \<open>Scheduler\<close> keeps it and cannot panic under it.
\<close>

section \<open>The running index\<close>

definition index_ok :: "('t, 'sp, 'jc) sequence_state list \<Rightarrow> (nat \<rightharpoonup> nat) \<Rightarrow> bool" where
  "index_ok rs idx \<longleftrightarrow>
     distinct (map sq_id rs) \<and>
     (\<forall>sid i. idx sid = Some i \<longleftrightarrow> i < length rs \<and> sq_id (rs ! i) = sid)"

lemma index_ok_Nil [simp]: "index_ok [] Map.empty"
  by (simp add: index_ok_def)

lemma index_ok_nth: "index_ok rs idx \<Longrightarrow> i < length rs \<Longrightarrow> idx (sq_id (rs ! i)) = Some i"
  by (simp add: index_ok_def)

lemma index_ok_mem: "index_ok rs idx \<Longrightarrow> (idx sid = None) = (sid \<notin> sq_id ` set rs)"
  unfolding index_ok_def in_set_conv_nth image_iff bex_simps
  by (cases "idx sid") (metis in_set_conv_nth nth_mem option.distinct(1))+

lemma push_to_running_ok:
  assumes "index_ok rs idx" and "sq_id q \<notin> sq_id ` set rs"
    and "push_to_running rs idx q = (rs', idx')"
  shows "index_ok rs' idx' \<and> rs' = rs @ [q]"
proof -
  have e: "rs' = rs @ [q]" "idx' = idx(sq_id q \<mapsto> length rs)"
    using assms(3) by (simp_all add: push_to_running_def)
  have idx: "idx sid = Some i \<longleftrightarrow> i < length rs \<and> sq_id (rs ! i) = sid" for sid i
    using assms(1) by (simp add: index_ok_def)
  have fresh: "i < length rs \<Longrightarrow> sq_id (rs ! i) \<noteq> sq_id q" for i
    using assms(2) nth_mem by (metis image_eqI)
  have "idx' sid = Some i \<longleftrightarrow> i < length rs' \<and> sq_id (rs' ! i) = sid" for sid i
    using fresh [of i] by (auto simp: e idx nth_append less_Suc_eq split: if_splits)
  then show ?thesis
    using assms(1,2) by (simp add: index_ok_def e)
qed

lemma distinct_map_mset: "mset xs = mset ys \<Longrightarrow> distinct (map f xs) = distinct (map f ys)"
  by (rule mset_eq_imp_distinct_iff) simp

lemma distinct_map_nth_inj:
  "distinct (map f xs) \<Longrightarrow> i < length xs \<Longrightarrow> j < length xs \<Longrightarrow> f (xs ! i) = f (xs ! j) \<longleftrightarrow> i = j"
  by (metis distinct_conv_nth length_map nth_map)

lemma remove_from_running_ok:
  assumes ok: "index_ok rs idx" and i: "i < length rs"
  shows "\<exists>rs' idx'. remove_from_running rs idx i = Some (rs', idx', rs ! i)
    \<and> mset rs = add_mset (rs ! i) (mset rs') \<and> index_ok rs' idx'"
proof -
  let ?rs' = "swap_remove rs i"
  define idx' where "idx' = (if i < length ?rs'
    then idx(sq_id (rs ! i) := None, sq_id (?rs' ! i) \<mapsto> i) else idx(sq_id (rs ! i) := None))"
  have m: "mset rs = add_mset (rs ! i) (mset ?rs')" by (rule mset_swap_remove [OF i])
  have d: "distinct (map sq_id rs)" using ok by (simp add: index_ok_def)
  have d': "distinct (map sq_id ?rs')"
    using d distinct_map_mset [of rs "rs ! i # ?rs'" sq_id] m by simp
  have len: "length ?rs' = length rs - 1" using i by simp
  have nth: "?rs' ! j = (if j = i then last rs else rs ! j)" if "j < length rs - 1" for j
    using nth_swap_remove [OF i that] .
  have lst: "last rs = rs ! (length rs - 1)" using i by (intro last_conv_nth) auto
  note inj = distinct_map_nth_inj [OF d]
  have idx: "idx sid = Some j \<longleftrightarrow> j < length rs \<and> sq_id (rs ! j) = sid" for sid j
    using ok by (simp add: index_ok_def)
  have "idx' sid = Some j \<longleftrightarrow> j < length ?rs' \<and> sq_id (?rs' ! j) = sid" for sid j
  proof (cases "i < length rs - 1")
    case True
    then have e: "idx' = idx(sq_id (rs ! i) := None, sq_id (rs ! (length rs - 1)) \<mapsto> i)"
      by (simp add: idx'_def len nth lst)
    show ?thesis
      using True i inj [of _ i] inj [of _ "length rs - 1"]
      by (auto simp: e len nth lst idx split: if_splits)
  next
    case False
    then have e: "idx' = idx(sq_id (rs ! i) := None)" and il: "i = length rs - 1"
      using i by (simp_all add: idx'_def len)
    consider "j < length rs - 1" | "j = i" | "length rs \<le> j" using il by linarith
    then show ?thesis
    proof cases
      case 1
      then have "?rs' ! j = rs ! j" "sq_id (rs ! j) \<noteq> sq_id (rs ! i)"
        using nth [of j] inj [of j i] il i by auto
      then show ?thesis using 1 idx [of sid j] by (auto simp: e len)
    qed (use i il idx [of sid j] in \<open>auto simp: e len\<close>)
  qed
  then have "index_ok ?rs' idx'" using d' by (simp add: index_ok_def)
  moreover have "remove_from_running rs idx i = Some (?rs', idx', rs ! i)"
    using i by (simp add: remove_from_running_def Let_def idx'_def)
  ultimately show ?thesis using m by blast
qed

section \<open>References\<close>

definition layer_refs ::
    "(('t, 'sp, 'jc) sequence_state \<Rightarrow> 't paged_cache list) \<Rightarrow> nat \<Rightarrow>
     ('t, 'sp, 'jc) sequence_state multiset \<Rightarrow> nat multiset" where
  "layer_refs f l M = sum_mset (image_mset (\<lambda>q. cache_refs (f q ! l)) M)"

lemma layer_refs_simps [simp]:
  "layer_refs f l {#} = {#}"
  "layer_refs f l (add_mset q M) = cache_refs (f q ! l) + layer_refs f l M"
  "layer_refs f l (M + N) = layer_refs f l M + layer_refs f l N"
  by (simp_all add: layer_refs_def)

definition empty_caches :: "'t paged_cache list \<Rightarrow> bool" where
  "empty_caches cs \<longleftrightarrow> (\<forall>c \<in> set cs. cache_refs c = {#})"

lemma empty_caches_nth: "empty_caches cs \<Longrightarrow> l < length cs \<Longrightarrow> cache_refs (cs ! l) = {#}"
  by (simp add: empty_caches_def)

lemma layers_ok_mono:
  "layers_ok as R \<Longrightarrow> (\<And>l. l < length as \<Longrightarrow> R l = R' l) \<Longrightarrow> layers_ok as R'"
  by (simp add: layers_ok_def)

definition more_free :: "('t, 'f) block_allocator list \<Rightarrow> ('t, 'f) block_allocator list \<Rightarrow> bool" where
  "more_free as as' \<longleftrightarrow> list_all2 (\<lambda>a a'. num_free a \<le> num_free a') as as'"

lemma more_free_refl [simp]: "more_free as as"
  by (simp add: more_free_def list_all2_refl)

lemma more_free_trans: "more_free as bs \<Longrightarrow> more_free bs cs \<Longrightarrow> more_free as cs"
  unfolding more_free_def by (erule (1) list_all2_trans [rotated]) simp

lemma more_free_blocks: "more_free as as' \<Longrightarrow> num_free_blocks as \<le> num_free_blocks as'"
  by (cases as; cases as') (auto simp: more_free_def num_free_blocks_def)

lemma clear_layers_spec:
  assumes "layers_ok as R" and "length cs = length as"
    and "\<forall>l < length as. cache_refs (cs ! l) \<subseteq># R l"
  shows "\<exists>B' as' cs'. clear_layers dim B as cs = Some (B', as', cs')
    \<and> layers_ok as' (\<lambda>l. R l - cache_refs (cs ! l)) \<and> layers_geometry as as'
    \<and> length cs' = length cs \<and> empty_caches cs' \<and> more_free as as'"
  using assms
proof (induction dim B as cs arbitrary: R rule: clear_layers.induct)
  case (3 dim B a as c cs)
  then have a: "alloc_inv a" "cache_refs c \<subseteq># refs_of a" "refs_of a = R 0"
    and as: "layers_ok as (\<lambda>l. R (Suc l))" and cs: "length cs = length as"
      "\<forall>l < length as. cache_refs (cs ! l) \<subseteq># R (Suc l)"
    by (auto simp: layers_ok_Cons layers_nth_Cons)
  obtain B1 a1 c1 where c1: "cache_clear dim B a c = Some (B1, a1, c1)" "alloc_inv a1"
      "refs_of a1 = R 0 - cache_refs c" "cache_refs c1 = {#}" "same_geometry a a1" "num_free a \<le> num_free a1"
    using cache_clear_spec [OF a(1,2), of dim B] a(3) by auto
  obtain B2 as2 cs2 where "clear_layers dim B1 as cs = Some (B2, as2, cs2)"
      "layers_ok as2 (\<lambda>l. R (Suc l) - cache_refs (cs ! l))" "layers_geometry as as2"
      "length cs2 = length cs" "empty_caches cs2" "more_free as as2"
    using "3.IH" [OF c1(1) refl refl as cs] by blast
  then show ?case
    using c1 by (simp add: layers_ok_Cons layers_geometry_def empty_caches_def more_free_def)
qed (simp_all add: layers_ok_def empty_caches_def)

section \<open>The invariant\<close>

text \<open>The memory of a scheduler whose target and draft pools hold the references \<open>R\<close> and \<open>D\<close>.\<close>

definition mem_ok ::
    "('t, 'f, 'sp, 'jc) scheduler \<Rightarrow> (nat \<Rightarrow> nat multiset) \<Rightarrow> (nat \<Rightarrow> nat multiset) \<Rightarrow> bool" where
  "mem_ok s R D \<longleftrightarrow> layers_ok (allocators s) R \<and> layers_ok (draft_allocators s) D"

definition shaped :: "('t, 'f, 'sp, 'jc) scheduler \<Rightarrow> ('t, 'sp, 'jc) sequence_state \<Rightarrow> bool" where
  "shaped s q \<longleftrightarrow> length (caches q) = length (allocators s)
     \<and> length (draft_caches q) = length (draft_allocators s)"

definition seqs :: "('t, 'f, 'sp, 'jc) scheduler \<Rightarrow> ('t, 'sp, 'jc) sequence_state multiset" where
  "seqs s = mset (running s) + mset (waiting s)"

definition waiting_ok :: "('t, 'sp, 'jc) sequence_state \<Rightarrow> bool" where
  "waiting_ok q \<longleftrightarrow> status q = Waiting \<and> phase q = Prefill \<and> num_processed_tokens q = 0
     \<and> empty_caches (caches q) \<and> empty_caches (draft_caches q)"

definition sched_inv :: "(u64 \<times> prefix_entry) list \<Rightarrow> ('t, 'f, 'sp, 'jc) scheduler \<Rightarrow> bool" where
  "sched_inv pcs s \<longleftrightarrow>
     index_ok (running s) (running_index s) \<and>
     distinct (map sq_id (running s @ waiting s)) \<and>
     (\<forall>q \<in># seqs s. shaped s q \<and> sq_id q < next_id s) \<and>
     (\<forall>q \<in> set (running s). status q \<noteq> Waiting) \<and>
     (\<forall>q \<in> set (waiting s). waiting_ok q) \<and>
     num_layers s = length (allocators s) \<and> draft_num_layers s = length (draft_allocators s) \<and>
     entries_wf (length (allocators s)) pcs \<and>
     mem_ok s (\<lambda>l. layer_refs caches l (seqs s) + entry_refs l pcs)
              (\<lambda>l. layer_refs draft_caches l (seqs s))"

text \<open>A step of the memory that frees blocks and leaves the queues alone.\<close>

definition mem_frame :: "('t, 'f, 'sp, 'jc) scheduler \<Rightarrow> ('t, 'f, 'sp, 'jc) scheduler \<Rightarrow> bool" where
  "mem_frame s s' \<longleftrightarrow>
     s' = s\<lparr>s_budgets := s_budgets s', allocators := allocators s', draft_allocators := draft_allocators s'\<rparr>
     \<and> layers_geometry (allocators s) (allocators s')
     \<and> layers_geometry (draft_allocators s) (draft_allocators s')
     \<and> more_free (allocators s) (allocators s')"

lemma mem_frame_refl [simp]: "mem_frame s s"
  by (simp add: mem_frame_def)

lemma mem_frame_fields:
  assumes "mem_frame s s'"
  shows "running s' = running s" "waiting s' = waiting s" "running_index s' = running_index s"
    "next_id s' = next_id s" "num_layers s' = num_layers s" "draft_num_layers s' = draft_num_layers s"
    "max_num_sequences s' = max_num_sequences s" "s_block_size s' = s_block_size s"
    "max_tokens_per_step s' = max_tokens_per_step s"
    "length (allocators s') = length (allocators s)"
    "length (draft_allocators s') = length (draft_allocators s)"
    "num_free_blocks (allocators s) \<le> num_free_blocks (allocators s')"
    "shaped s' q = shaped s q"
proof -
  have e: "s' = s\<lparr>s_budgets := s_budgets s', allocators := allocators s',
      draft_allocators := draft_allocators s'\<rparr>"
    and g: "layers_geometry (allocators s) (allocators s')"
      "layers_geometry (draft_allocators s) (draft_allocators s')"
    and m: "more_free (allocators s) (allocators s')"
    using assms by (simp_all add: mem_frame_def)
  show "running s' = running s" "waiting s' = waiting s" "running_index s' = running_index s"
    "next_id s' = next_id s" "num_layers s' = num_layers s" "draft_num_layers s' = draft_num_layers s"
    "max_num_sequences s' = max_num_sequences s" "s_block_size s' = s_block_size s"
    "max_tokens_per_step s' = max_tokens_per_step s"
    by (subst e, simp)+
  show l: "length (allocators s') = length (allocators s)"
    "length (draft_allocators s') = length (draft_allocators s)"
    using g by (simp_all add: layers_geometry_length)
  show "num_free_blocks (allocators s) \<le> num_free_blocks (allocators s')"
    using m by (rule more_free_blocks)
  show "shaped s' q = shaped s q" by (simp add: shaped_def l)
qed

lemma mem_frame_trans: "mem_frame s1 s2 \<Longrightarrow> mem_frame s2 s3 \<Longrightarrow> mem_frame s1 s3"
  unfolding mem_frame_def
  by (cases s1; cases s2; cases s3) (auto intro: layers_geometry_trans more_free_trans)

section \<open>Clearing a sequence\<close>

lemma shaped_nth:
  "shaped s q \<Longrightarrow> l < length (allocators s) \<Longrightarrow> l < length (caches q)"
  "shaped s q \<Longrightarrow> l < length (draft_allocators s) \<Longrightarrow> l < length (draft_caches q)"
  by (simp_all add: shaped_def)

lemma clear_caches_spec:
  assumes mem: "mem_ok s (\<lambda>l. cache_refs (caches q ! l) + R l) (\<lambda>l. cache_refs (draft_caches q ! l) + D l)"
    and sh: "shaped s q"
  shows "\<exists>s' q'. clear_caches dim s q = Some (s', q') \<and> mem_ok s' R D \<and> mem_frame s s'
    \<and> q' = q\<lparr>caches := caches q', draft_caches := draft_caches q'\<rparr> \<and> shaped s' q'
    \<and> empty_caches (caches q') \<and> empty_caches (draft_caches q')"
proof -
  have len: "length (caches q) = length (allocators s)" "length (draft_caches q) = length (draft_allocators s)"
    using sh by (simp_all add: shaped_def)
  obtain B1 as1 cs1 where t: "clear_layers dim (s_budgets s) (allocators s) (caches q) = Some (B1, as1, cs1)"
      "layers_ok as1 (\<lambda>l. cache_refs (caches q ! l) + R l - cache_refs (caches q ! l))"
      "layers_geometry (allocators s) as1" "length cs1 = length (caches q)" "empty_caches cs1"
      "more_free (allocators s) as1"
    using clear_layers_spec [of "allocators s" "\<lambda>l. cache_refs (caches q ! l) + R l" "caches q" dim "s_budgets s"]
      mem len by (auto simp: mem_ok_def)
  obtain B2 ds1 dcs1 where d: "clear_layers dim B1 (draft_allocators s) (draft_caches q) = Some (B2, ds1, dcs1)"
      "layers_ok ds1 (\<lambda>l. cache_refs (draft_caches q ! l) + D l - cache_refs (draft_caches q ! l))"
      "layers_geometry (draft_allocators s) ds1" "length dcs1 = length (draft_caches q)" "empty_caches dcs1"
    using clear_layers_spec [of "draft_allocators s" "\<lambda>l. cache_refs (draft_caches q ! l) + D l" "draft_caches q" dim B1]
      mem len by (auto simp: mem_ok_def)
  show ?thesis
    using t d len layers_geometry_length [OF t(3)] layers_geometry_length [OF d(3)]
    by (simp add: clear_caches_def mem_ok_def mem_frame_def shaped_def)
qed

text \<open>What no operation of the scheduler changes.\<close>

definition same_config :: "('t, 'f, 'sp, 'jc) scheduler \<Rightarrow> ('t, 'f, 'sp, 'jc) scheduler \<Rightarrow> bool" where
  "same_config s s' \<longleftrightarrow> max_num_sequences s' = max_num_sequences s
     \<and> max_tokens_per_step s' = max_tokens_per_step s \<and> next_id s' = next_id s
     \<and> s_block_size s' = s_block_size s
     \<and> num_layers s' = num_layers s \<and> draft_num_layers s' = draft_num_layers s
     \<and> layers_geometry (allocators s) (allocators s')
     \<and> layers_geometry (draft_allocators s) (draft_allocators s')"

lemma same_config_refl [simp]: "same_config s s"
  by (simp add: same_config_def)

lemma same_config_trans: "same_config s1 s2 \<Longrightarrow> same_config s2 s3 \<Longrightarrow> same_config s1 s3"
  unfolding same_config_def by (auto intro: layers_geometry_trans)

lemma same_config_frame: "mem_frame s s' \<Longrightarrow> same_config s s'"
  using mem_frame_fields [of s s'] by (simp add: same_config_def mem_frame_def)

lemma same_config_lengths:
  "same_config s s' \<Longrightarrow> length (allocators s') = length (allocators s)
    \<and> length (draft_allocators s') = length (draft_allocators s)"
  by (auto simp: same_config_def dest: layers_geometry_length)

lemma same_config_shaped: "same_config s s' \<Longrightarrow> shaped s' q = shaped s q"
  by (auto simp: shaped_def dest: same_config_lengths)

text \<open>A sequence taken out of the queues and cleared: the rest keeps the invariant.\<close>

lemma clear_dropped:
  assumes inv: "sched_inv pcs s" and s0: "s0 = s\<lparr>running := rs, running_index := idx, waiting := ws\<rparr>"
    and seqs: "mset (running s) + mset (waiting s) = add_mset q (mset rs + mset ws)"
    and ix: "index_ok rs idx" and sub: "set rs \<subseteq> set (running s)" "set ws \<subseteq> set (waiting s)"
  shows "\<exists>s' q'. clear_caches dim s0 q = Some (s', q') \<and> sched_inv pcs s' \<and> same_config s s' \<and> mem_frame s0 s'
    \<and> q' = q\<lparr>caches := caches q', draft_caches := draft_caches q'\<rparr> \<and> shaped s' q'
    \<and> empty_caches (caches q') \<and> empty_caches (draft_caches q')
    \<and> num_free_blocks (allocators s) \<le> num_free_blocks (allocators s')"
proof -
  have seqs: "seqs s = add_mset q (seqs s0)" using seqs by (simp add: seqs_def s0)
  have mem: "mem_ok s0
      (\<lambda>l. cache_refs (caches q ! l) + (layer_refs caches l (seqs s0) + entry_refs l pcs))
      (\<lambda>l. cache_refs (draft_caches q ! l) + layer_refs draft_caches l (seqs s0))"
    using inv unfolding sched_inv_def seqs by (simp add: mem_ok_def add.assoc s0)
  have sh: "shaped s0 q" using inv unfolding sched_inv_def seqs by (simp add: shaped_def s0)
  obtain s' q' where c: "clear_caches dim s0 q = Some (s', q')" "mem_frame s0 s'" "shaped s' q'"
      "mem_ok s' (\<lambda>l. layer_refs caches l (seqs s0) + entry_refs l pcs) (\<lambda>l. layer_refs draft_caches l (seqs s0))"
      "q' = q\<lparr>caches := caches q', draft_caches := draft_caches q'\<rparr>"
      "empty_caches (caches q')" "empty_caches (draft_caches q')"
    using clear_caches_spec [OF mem sh, of dim] by blast
  note fr = mem_frame_fields [OF c(2)]
  have seqs': "seqs s' = seqs s0" using fr by (simp add: seqs_def)
  have "mset (map sq_id (running s @ waiting s)) = add_mset (sq_id q) (mset (map sq_id (rs @ ws)))"
    using arg_cong [OF assms(3), of "image_mset sq_id"] by simp
  then have dist: "distinct (map sq_id (rs @ ws))"
    using inv mset_eq_imp_distinct_iff [of "map sq_id (running s @ waiting s)" "sq_id q # map sq_id (rs @ ws)"]
    by (simp add: sched_inv_def)
  have all: "\<forall>q \<in># seqs s'. shaped s' q \<and> sq_id q < next_id s'"
    using inv unfolding sched_inv_def seqs seqs' fr by (simp add: shaped_def s0)
  have st: "\<forall>q \<in> set rs. status q \<noteq> Waiting" "\<forall>q \<in> set ws. waiting_ok q"
    using inv sub by (auto simp: sched_inv_def)
  have "sched_inv pcs s'"
    using inv c(4) ix dist st all unfolding sched_inv_def seqs' by (simp add: fr s0)
  moreover have "same_config s s'" using same_config_frame [OF c(2)] by (simp add: same_config_def s0)
  ultimately show ?thesis
    using c fr(12) by (simp add: s0)
qed

lemma remove_and_clear_spec:
  assumes inv: "sched_inv pcs s" and i: "i < length (running s)"
  shows "\<exists>s' q'. remove_and_clear dim s i = Some (s', q') \<and> sched_inv pcs s' \<and> same_config s s'
    \<and> mset (running s) = add_mset (running s ! i) (mset (running s')) \<and> waiting s' = waiting s
    \<and> q' = (running s ! i)\<lparr>caches := caches q', draft_caches := draft_caches q'\<rparr> \<and> shaped s' q'
    \<and> empty_caches (caches q') \<and> empty_caches (draft_caches q')
    \<and> num_free_blocks (allocators s) \<le> num_free_blocks (allocators s')"
proof -
  let ?q = "running s ! i"
  have ix: "index_ok (running s) (running_index s)" using inv by (simp add: sched_inv_def)
  obtain rs idx where rm: "remove_from_running (running s) (running_index s) i = Some (rs, idx, ?q)"
      "mset (running s) = add_mset ?q (mset rs)" "index_ok rs idx"
    using remove_from_running_ok [OF ix i] by blast
  let ?s = "s\<lparr>running := rs, running_index := idx\<rparr>"
  have s0: "?s = s\<lparr>running := rs, running_index := idx, waiting := waiting s\<rparr>" by simp
  have sub: "set rs \<subseteq> set (running s)"
    using rm(2) by (metis set_mset_add_mset_insert set_mset_mset subset_insertI)
  obtain s' q' where c: "clear_caches dim ?s ?q = Some (s', q')" "sched_inv pcs s'" "same_config s s'" "mem_frame ?s s'"
      "q' = ?q\<lparr>caches := caches q', draft_caches := draft_caches q'\<rparr>" "shaped s' q'"
      "empty_caches (caches q')" "empty_caches (draft_caches q')"
      "num_free_blocks (allocators s) \<le> num_free_blocks (allocators s')"
    using clear_dropped [OF inv s0 _ rm(3) sub order_refl, of ?q dim] rm(2) by auto
  then show ?thesis
    using rm(1,2) mem_frame_fields(1,2) [OF c(4)] by (simp add: remove_and_clear_def)
qed

lemma preempt_remove:
  "preempt dim s i = map_option (\<lambda>(s1, q1). s1\<lparr>waiting :=
     q1\<lparr>num_processed_tokens := 0, phase := Prefill, status := Waiting\<rparr> # waiting s1\<rparr>) (remove_and_clear dim s i)"
  by (simp add: preempt_def remove_and_clear_def split: option.splits prod.splits)

text \<open>What preempting makes of a sequence: reset to a waiting prefill with empty caches, the rest kept.\<close>

definition requeued :: "('t, 'sp, 'jc) sequence_state \<Rightarrow> ('t, 'sp, 'jc) sequence_state \<Rightarrow> bool" where
  "requeued q p \<longleftrightarrow> waiting_ok p
     \<and> p = q\<lparr>num_processed_tokens := 0, phase := Prefill, status := Waiting,
             caches := caches p, draft_caches := draft_caches p\<rparr>"

lemma requeued_id: "requeued q p \<Longrightarrow> sq_id p = sq_id q"
  unfolding requeued_def by (elim conjE) (erule ssubst, simp)

lemma preempt_spec:
  assumes inv: "sched_inv pcs s" and i: "i < length (running s)"
  shows "\<exists>s' q'. preempt dim s i = Some s' \<and> sched_inv pcs s' \<and> same_config s s'
    \<and> mset (running s) = add_mset (running s ! i) (mset (running s'))
    \<and> waiting s' = q' # waiting s \<and> requeued (running s ! i) q'
    \<and> num_free_blocks (allocators s) \<le> num_free_blocks (allocators s')"
proof -
  let ?q = "running s ! i"
  obtain s1 q1 where r: "remove_and_clear dim s i = Some (s1, q1)" "sched_inv pcs s1" "same_config s s1"
      "mset (running s) = add_mset ?q (mset (running s1))" "waiting s1 = waiting s"
      "q1 = ?q\<lparr>caches := caches q1, draft_caches := draft_caches q1\<rparr>" "shaped s1 q1"
      "empty_caches (caches q1)" "empty_caches (draft_caches q1)"
      "num_free_blocks (allocators s) \<le> num_free_blocks (allocators s1)"
    using remove_and_clear_spec [OF inv i, of dim] by blast
  let ?q' = "q1\<lparr>num_processed_tokens := 0, phase := Prefill, status := Waiting\<rparr>"
  let ?s' = "s1\<lparr>waiting := ?q' # waiting s1\<rparr>"
  have ident: "sq_id q1 = sq_id ?q" "all_tokens q1 = all_tokens ?q" by (subst r(6), simp)+
  have w: "waiting_ok ?q'" using r(8,9) by (simp add: waiting_ok_def)
  have refs: "l < length (allocators s1) \<Longrightarrow> layer_refs caches l (seqs ?s') = layer_refs caches l (seqs s1)"
    "l < length (draft_allocators s1) \<Longrightarrow> layer_refs draft_caches l (seqs ?s') = layer_refs draft_caches l (seqs s1)" for l
    using r(7-9) by (auto simp: seqs_def shaped_def empty_caches_nth)
  have dist: "distinct (map sq_id (running ?s' @ waiting ?s'))"
    using inv distinct_map_mset [of "running s @ waiting s" "?q # running s1 @ waiting s" sq_id] ident(1)
    by (auto simp: sched_inv_def r(4,5))
  have mem: "mem_ok ?s' (\<lambda>l. layer_refs caches l (seqs ?s') + entry_refs l pcs) (\<lambda>l. layer_refs draft_caches l (seqs ?s'))"
    using r(2) unfolding sched_inv_def mem_ok_def layers_ok_def by (simp add: refs)
  have mem_q: "?q \<in># seqs s" using i by (simp add: seqs_def)
  have lt: "sq_id q1 < next_id s1"
    using inv mem_q r(3) by (simp add: ident sched_inv_def same_config_def)
  have "sched_inv pcs ?s'"
    using r(2,7) dist mem w lt unfolding sched_inv_def by (auto simp: seqs_def shaped_def)
  moreover have "same_config s ?s'" using r(3) by (simp add: same_config_def)
  moreover have "?q' = ?q\<lparr>num_processed_tokens := 0, phase := Prefill, status := Waiting,
      caches := caches ?q', draft_caches := draft_caches ?q'\<rparr>"
    by (subst r(6)) simp
  then have "requeued ?q ?q'" unfolding requeued_def using w by (rule conjI [rotated])
  ultimately show ?thesis
    using r(1,4,5,10) by (simp add: preempt_remove)
qed

section \<open>The sequences a step preempts\<close>

text \<open>The sequences \<open>gone\<close>, preempted in the order of \<open>ids\<close>, left the running set and stand, reset, in front of
  the queue, the last one first.\<close>

definition preempted :: "nat list \<Rightarrow> ('t, 'f, 'sp, 'jc) scheduler \<Rightarrow> ('t, 'f, 'sp, 'jc) scheduler \<Rightarrow>
    ('t, 'sp, 'jc) sequence_state list \<Rightarrow> ('t, 'sp, 'jc) sequence_state list \<Rightarrow> bool" where
  "preempted ids s s' gone pre \<longleftrightarrow> waiting s' = pre @ waiting s \<and> list_all2 requeued (rev gone) pre
     \<and> subseq (map sq_id gone) ids \<and> mset (running s) = mset (running s') + mset gone"

definition preempts :: "nat list \<Rightarrow> ('t, 'f, 'sp, 'jc) scheduler \<Rightarrow> ('t, 'f, 'sp, 'jc) scheduler \<Rightarrow> bool" where
  "preempts ids s s' \<longleftrightarrow> (\<exists>gone pre. preempted ids s s' gone pre)"

lemma preempts_none: "preempts ids s s"
  unfolding preempts_def by (intro exI [of _ "[]"]) (simp add: preempted_def)

lemma preempts_skip:
  assumes "preempts ids s1 s'" and "waiting s1 = waiting s" and "running s1 = running s"
  shows "preempts (sid # ids) s s'"
  using assms by (auto simp: preempts_def preempted_def)

lemma preempts_cons:
  assumes "preempts ids s2 s'" and "waiting s2 = q' # waiting s" and "requeued q q'"
    and "mset (running s) = add_mset q (mset (running s2))" and "sq_id q = sid"
  shows "preempts (sid # ids) s s'"
proof -
  obtain gone pre where "preempted ids s2 s' gone pre" using assms(1) by (auto simp: preempts_def)
  then have "preempted (sid # ids) s s' (q # gone) (pre @ [q'])"
    using assms(2-5) by (simp add: preempted_def list_all2_appendI)
  then show ?thesis by (auto simp: preempts_def)
qed

end
