(* ===== verification/Scheduler_Step.thy ===== *)
theory Scheduler_Step
  imports Scheduler_Inv
begin

text \<open>
  The operations of the scheduler keep its invariant and never panic under it; the eviction
  loops of a step end; admission takes a prefix of the queue.  Proved once over any LRU that
  keeps the laws of \<open>Lru\<close>.
\<close>

section \<open>The eviction loops end\<close>

definition pco_items :: "('c \<Rightarrow> (u64 \<times> prefix_entry) list) \<Rightarrow> 'c prefix_cache option \<Rightarrow> (u64 \<times> prefix_entry) list" where
  "pco_items items pco = (case pco of None \<Rightarrow> [] | Some pc \<Rightarrow> items (entries pc))"

lemma pco_items_simps [simp]:
  "pco_items items None = []" "pco_items items (Some pc) = items (entries pc)"
  by (simp_all add: pco_items_def)

context prefix_lru
begin

lemma evict_until_spec:
  "layers_ok as (\<lambda>l. R l + entry_refs l (items (entries pc))) \<Longrightarrow> entries_wf (length as) (items (entries pc)) \<Longrightarrow>
   \<exists>pc' as'. evict_until ops r pc as = Some (pc', as')
    \<and> layers_ok as' (\<lambda>l. R l + entry_refs l (items (entries pc')))
    \<and> entries_wf (length as') (items (entries pc')) \<and> layers_geometry as as' \<and> more_free as as'
    \<and> (r < num_free_blocks as' \<or> pc_disabled pc' \<or> items (entries pc') = [])"
proof (induction "length (items (entries pc))" arbitrary: pc as rule: less_induct)
  case less
  obtain pc1 as1 found where e: "pc_evict_lru ops pc as = Some (pc1, as1, found)"
      "layers_ok as1 (\<lambda>l. R l + entry_refs l (items (entries pc1)))"
      "entries_wf (length as1) (items (entries pc1))" "layers_geometry as as1"
      "more_free as as1" "pc_disabled pc1 = pc_disabled pc"
      "if found then length (items (entries pc)) = Suc (length (items (entries pc1)))
        else as1 = as \<and> items (entries pc1) = items (entries pc) \<and> (pc_disabled pc \<or> items (entries pc) = [])"
    using evict_spec [OF less.prems] unfolding more_free_def by blast
  show ?case
  proof (cases "num_free_blocks as \<le> r \<and> found")
    case True
    then have "length (items (entries pc1)) < length (items (entries pc))" using e(7) by simp
    from less.hyps [OF this e(2,3)] show ?thesis
      using True e(1) layers_geometry_trans [OF e(4)] more_free_trans [OF e(5)]
      by (fastforce simp: evict_until.simps [of ops r pc])
  next
    case False
    then show ?thesis
      using e less.prems by (cases "num_free_blocks as \<le> r") (simp_all add: evict_until.simps [of ops r pc] not_le)
  qed
qed

lemma evict_for_prompt_spec:
  "layers_ok as (\<lambda>l. R l + entry_refs l (items (entries pc))) \<Longrightarrow> entries_wf (length as) (items (entries pc)) \<Longrightarrow>
   \<exists>pc' as' fr nd. evict_for_prompt ops hash bs tokens r pc as avail needed = Some (pc', as', fr, nd)
    \<and> layers_ok as' (\<lambda>l. R l + entry_refs l (items (entries pc')))
    \<and> entries_wf (length as') (items (entries pc')) \<and> layers_geometry as as' \<and> more_free as as'"
proof (induction "length (items (entries pc))" arbitrary: pc as avail needed rule: less_induct)
  case less
  obtain pc1 as1 found where e: "pc_evict_lru ops pc as = Some (pc1, as1, found)"
      "layers_ok as1 (\<lambda>l. R l + entry_refs l (items (entries pc1)))"
      "entries_wf (length as1) (items (entries pc1))" "layers_geometry as as1" "more_free as as1"
      "if found then length (items (entries pc)) = Suc (length (items (entries pc1)))
        else as1 = as \<and> items (entries pc1) = items (entries pc) \<and> (pc_disabled pc \<or> items (entries pc) = [])"
    using evict_spec [OF less.prems] unfolding more_free_def by blast
  show ?case
  proof (cases "avail < needed \<and> found")
    case True
    then have "length (items (entries pc1)) < length (items (entries pc))" using e(6) by simp
    from less.hyps [OF this e(2,3), of "num_free_blocks as1 - r"
        "blocks_needed_for_prefill ops hash bs tokens (Some pc1)"]
    obtain pc' as' fr nd where r: "evict_for_prompt ops hash bs tokens r pc1 as1 (num_free_blocks as1 - r)
          (blocks_needed_for_prefill ops hash bs tokens (Some pc1)) = Some (pc', as', fr, nd)"
        "layers_ok as' (\<lambda>l. R l + entry_refs l (items (entries pc')))"
        "entries_wf (length as') (items (entries pc'))" "layers_geometry as1 as'" "more_free as1 as'"
      by blast
    have "evict_for_prompt ops hash bs tokens r pc as avail needed = Some (pc', as', fr, nd)"
      using True e(1) r(1) by (simp add: evict_for_prompt.simps [of ops hash bs tokens r pc as])
    then show ?thesis
      using r(2,3) layers_geometry_trans [OF e(4) r(4)] more_free_trans [OF e(5) r(5)] by blast
  next
    case False
    then show ?thesis
      using e less.prems by (cases "avail < needed") (simp_all add: evict_for_prompt.simps [of ops hash bs tokens r pc])
  qed
qed

lemma pc_touch_items:
  "mset (items (entries (pc_touch ops hash pc tokens bs))) = mset (items (entries pc))"
  using lookup_walk_count [of "entries pc" 0 "full_blocks bs tokens"]
  by (simp add: pc_touch_def touch_walk_lookup)

end

section \<open>Decodes at a block boundary\<close>

lemma sched_inv_allocs:
  assumes "sched_inv pcs s" and "layers_ok as (\<lambda>l. layer_refs caches l (seqs s) + entry_refs l pcs')"
    and "entries_wf (length as) pcs'" and "layers_geometry (allocators s) as"
  shows "sched_inv pcs' (s\<lparr>allocators := as\<rparr>) \<and> same_config s (s\<lparr>allocators := as\<rparr>)"
  using assms layers_geometry_length [OF assms(4)]
  by (simp add: sched_inv_def same_config_def seqs_def shaped_def mem_ok_def)

lemma sched_inv_index:
  assumes "sched_inv pcs s" and "sid \<in> sq_id ` set (running s)"
  shows "\<exists>i. running_index s sid = Some i \<and> i < length (running s) \<and> sq_id (running s ! i) = sid"
proof -
  obtain i where "i < length (running s)" "sq_id (running s ! i) = sid"
    using assms(2) by (auto simp: in_set_conv_nth)
  moreover have "index_ok (running s) (running_index s)" using assms(1) by (simp add: sched_inv_def)
  ultimately show ?thesis using index_ok_nth by blast
qed

definition evict_opt ::
    "'c pc_ops \<Rightarrow> nat \<Rightarrow> 'c prefix_cache option \<Rightarrow> ('t, 'f) block_allocator list \<Rightarrow>
     ('c prefix_cache option \<times> ('t, 'f) block_allocator list) option" where
  "evict_opt ops r pco as =
     (case pco of
        None \<Rightarrow> Some (None, as)
      | Some pc \<Rightarrow> map_option (\<lambda>(pc', as'). (Some pc', as')) (evict_until ops r pc as))"

context prefix_lru
begin

lemma evict_opt_spec:
  assumes inv: "sched_inv (pco_items items pco) s"
  shows "\<exists>pco' as'. evict_opt ops r pco (allocators s) = Some (pco', as')
    \<and> sched_inv (pco_items items pco') (s\<lparr>allocators := as'\<rparr>) \<and> same_config s (s\<lparr>allocators := as'\<rparr>)
    \<and> num_free_blocks (allocators s) \<le> num_free_blocks as' \<and> (pco' = None \<longleftrightarrow> pco = None)"
proof (cases pco)
  case None
  then show ?thesis using inv by (simp add: evict_opt_def)
next
  case (Some pc)
  have m: "layers_ok (allocators s) (\<lambda>l. layer_refs caches l (seqs s) + entry_refs l (items (entries pc)))"
    "entries_wf (length (allocators s)) (items (entries pc))"
    using inv by (simp_all add: Some sched_inv_def mem_ok_def)
  obtain pc' as' where e: "evict_until ops r pc (allocators s) = Some (pc', as')"
      "layers_ok as' (\<lambda>l. layer_refs caches l (seqs s) + entry_refs l (items (entries pc')))"
      "entries_wf (length as') (items (entries pc'))" "layers_geometry (allocators s) as'"
      "more_free (allocators s) as'"
    using evict_until_spec [OF m] by blast
  show ?thesis
    using sched_inv_allocs [OF inv e(2-4)] e(1) more_free_blocks [OF e(5)] by (simp add: Some evict_opt_def)
qed

lemma boundary_pass_spec:
  assumes "sched_inv (pco_items items pco) s" and "distinct ids" and "set ids \<subseteq> sq_id ` set (running s)"
    and "reserved \<le> num_free_blocks (allocators s)"
  shows "\<exists>s' pco' b' r' sch. boundary_pass dim ops s pco b reserved ids = Some (s', pco', b', r', sch)
    \<and> sched_inv (pco_items items pco') s' \<and> same_config s s'
    \<and> num_free_blocks (allocators s) \<le> num_free_blocks (allocators s') \<and> (pco' = None \<longleftrightarrow> pco = None)
    \<and> r' \<le> num_free_blocks (allocators s') \<and> r' = reserved + length sch \<and> b = b' + length sch
    \<and> set sch \<subseteq> (\<lambda>sid. (sid, Decode)) ` (set ids \<inter> sq_id ` set (running s')) \<and> distinct (map fst sch)
    \<and> sq_id ` set (running s) - set ids \<subseteq> sq_id ` set (running s')
    \<and> mset (map sq_id (running s' @ waiting s')) = mset (map sq_id (running s @ waiting s))
    \<and> preempts ids s s'"
  using assms
proof (induction ids arbitrary: s pco b reserved)
  case Nil
  then show ?case using preempts_none [of "[]" s] by auto
next
  case (Cons sid ids)
  obtain pco1 as1 where e: "evict_opt ops reserved pco (allocators s) = Some (pco1, as1)"
      "sched_inv (pco_items items pco1) (s\<lparr>allocators := as1\<rparr>)" "same_config s (s\<lparr>allocators := as1\<rparr>)"
      "num_free_blocks (allocators s) \<le> num_free_blocks as1" "pco1 = None \<longleftrightarrow> pco = None"
    using evict_opt_spec [OF Cons.prems(1)] by blast
  let ?s1 = "s\<lparr>allocators := as1\<rparr>"
  have ids: "distinct ids" "set ids \<subseteq> sq_id ` set (running s)" "sid \<notin> set ids" "sid \<in> sq_id ` set (running s)"
    using Cons.prems(2,3) by auto
  note step = boundary_pass.simps(2) [of dim ops s pco b reserved sid ids, folded evict_opt_def]
  consider "reserved < num_free_blocks as1" "0 < b" | "reserved < num_free_blocks as1" "b = 0"
    | "\<not> reserved < num_free_blocks as1" by blast
  then show ?case
  proof cases
    case 1
    have "set ids \<subseteq> sq_id ` set (running ?s1)" "reserved + 1 \<le> num_free_blocks (allocators ?s1)"
      using 1 ids by simp_all
    from Cons.IH [OF e(2) ids(1) this, of "b - 1"] obtain s' pco' b' r' sch where r:
        "boundary_pass dim ops ?s1 pco1 (b - 1) (reserved + 1) ids = Some (s', pco', b', r', sch)"
        "sched_inv (pco_items items pco') s'" "same_config ?s1 s'" "num_free_blocks as1 \<le> num_free_blocks (allocators s')"
        "pco' = None \<longleftrightarrow> pco1 = None"
        "r' \<le> num_free_blocks (allocators s')" "r' = reserved + 1 + length sch" "b - 1 = b' + length sch"
        "set sch \<subseteq> (\<lambda>sid. (sid, Decode)) ` (set ids \<inter> sq_id ` set (running s'))" "distinct (map fst sch)"
        "sq_id ` set (running s) - set ids \<subseteq> sq_id ` set (running s')"
        "mset (map sq_id (running s' @ waiting s')) = mset (map sq_id (running s @ waiting s))"
        "preempts ids ?s1 s'"
      by auto
    have pr: "preempts (sid # ids) s s'" by (rule preempts_skip [OF r(13)]) simp_all
    have "sid \<in> sq_id ` set (running s')" using r(11) ids(3,4) by blast
    moreover have "sid \<notin> fst ` set sch" using r(9) ids(3) by auto
    moreover have "boundary_pass dim ops s pco b reserved (sid # ids) = Some (s', pco', b', r', (sid, Decode) # sch)"
      unfolding step e(1) using 1 r(1) by simp
    moreover have "num_free_blocks (allocators s) \<le> num_free_blocks (allocators s')" using e(4) r(4) by linarith
    moreover have "b = b' + Suc (length sch)" using 1 r(8) by simp
    ultimately show ?thesis
      using e(5) same_config_trans [OF e(3) r(3)] r(2,5-7,9-12) pr
      by (intro exI [of _ s'] exI [of _ pco'] exI [of _ b'] exI [of _ r'] exI [of _ "(sid, Decode) # sch"]) auto
  next
    case 2
    have "set ids \<subseteq> sq_id ` set (running ?s1)" "reserved \<le> num_free_blocks (allocators ?s1)"
      using 2 ids by simp_all
    from Cons.IH [OF e(2) ids(1) this, of b] obtain s' pco' b' r' sch where r:
        "boundary_pass dim ops ?s1 pco1 b reserved ids = Some (s', pco', b', r', sch)"
        "sched_inv (pco_items items pco') s'" "same_config ?s1 s'" "num_free_blocks as1 \<le> num_free_blocks (allocators s')"
        "pco' = None \<longleftrightarrow> pco1 = None"
        "r' \<le> num_free_blocks (allocators s')" "r' = reserved + length sch" "b = b' + length sch"
        "set sch \<subseteq> (\<lambda>sid. (sid, Decode)) ` (set ids \<inter> sq_id ` set (running s'))" "distinct (map fst sch)"
        "sq_id ` set (running s) - set ids \<subseteq> sq_id ` set (running s')"
        "mset (map sq_id (running s' @ waiting s')) = mset (map sq_id (running s @ waiting s))"
        "preempts ids ?s1 s'"
      by auto
    have pr: "preempts (sid # ids) s s'" by (rule preempts_skip [OF r(13)]) simp_all
    have "boundary_pass dim ops s pco b reserved (sid # ids) = Some (s', pco', b', r', sch)"
      unfolding step e(1) using 2 r(1) by simp
    moreover have "num_free_blocks (allocators s) \<le> num_free_blocks (allocators s')" using e(4) r(4) by linarith
    ultimately show ?thesis
      using e(5) same_config_trans [OF e(3) r(3)] r(2,5-12) pr
      by (intro exI [of _ s'] exI [of _ pco'] exI [of _ b'] exI [of _ r'] exI [of _ sch]) auto
  next
    case 3
    obtain i where i: "running_index ?s1 sid = Some i" "i < length (running ?s1)" "sq_id (running ?s1 ! i) = sid"
      using sched_inv_index [OF e(2), of sid] ids(4) by auto
    obtain s2 q2 where p: "preempt dim ?s1 i = Some s2" "sched_inv (pco_items items pco1) s2" "same_config ?s1 s2"
        "mset (running s) = add_mset (running s ! i) (mset (running s2))" "waiting s2 = q2 # waiting s"
        "requeued (running s ! i) q2" "num_free_blocks as1 \<le> num_free_blocks (allocators s2)"
      using preempt_spec [OF e(2) i(2), of dim] by auto
    have i3: "sq_id (running s ! i) = sid" using i(3) by simp
    have q2: "sq_id q2 = sid" using requeued_id [OF p(6)] i(3) by simp
    have set: "set (running s) = insert (running s ! i) (set (running s2))"
      using p(4) by (metis set_mset_add_mset_insert set_mset_mset)
    have "set ids \<subseteq> sq_id ` set (running s2)" "reserved \<le> num_free_blocks (allocators s2)"
      using ids i(3) Cons.prems(4) e(4) p(7) by (auto simp: set)
    from Cons.IH [OF p(2) ids(1) this, of b] obtain s' pco' b' r' sch where r:
        "boundary_pass dim ops s2 pco1 b reserved ids = Some (s', pco', b', r', sch)"
        "sched_inv (pco_items items pco') s'" "same_config s2 s'"
        "num_free_blocks (allocators s2) \<le> num_free_blocks (allocators s')"
        "pco' = None \<longleftrightarrow> pco1 = None"
        "r' \<le> num_free_blocks (allocators s')" "r' = reserved + length sch" "b = b' + length sch"
        "set sch \<subseteq> (\<lambda>sid. (sid, Decode)) ` (set ids \<inter> sq_id ` set (running s'))" "distinct (map fst sch)"
        "sq_id ` set (running s2) - set ids \<subseteq> sq_id ` set (running s')"
        "mset (map sq_id (running s' @ waiting s')) = mset (map sq_id (running s2 @ waiting s2))"
        "preempts ids s2 s'"
      by auto
    have ms: "mset (map sq_id (running s2 @ waiting s2)) = mset (map sq_id (running s @ waiting s))"
      using p(4,5) q2 i(3) by simp
    have sub: "sq_id ` set (running s) - set (sid # ids) \<subseteq> sq_id ` set (running s')"
      using r(11) set i(3) by auto
    have w: "preempts (sid # ids) s s'" by (rule preempts_cons [OF r(13) p(5,6,4) i3])
    have "boundary_pass dim ops s pco b reserved (sid # ids) = Some (s', pco', b', r', sch)"
      unfolding step e(1) using 3 i(1) p(1) r(1) by simp
    moreover have "num_free_blocks (allocators s) \<le> num_free_blocks (allocators s')" using e(4) p(7) r(4) by linarith
    ultimately show ?thesis
      using e(5) same_config_trans [OF same_config_trans [OF e(3) p(3)] r(3)] r(2,5-10) r(12)[unfolded ms] sub w
      by (intro exI [of _ s'] exI [of _ pco'] exI [of _ b'] exI [of _ r'] exI [of _ sch]) auto
  qed
qed

end

section \<open>The first pass\<close>

lemma decode_pass_eq:
  "decode_pass bs qs b =
     (let calm = take b (filter (\<lambda>q. \<not> decode_needs_new_block bs q) qs)
      in (map (\<lambda>q. (sq_id q, Decode)) calm, b - length calm,
          map sq_id (filter (decode_needs_new_block bs) qs)))"
  by (induction qs arbitrary: b) (auto simp: Let_def take_Cons' split: prod.splits)

section \<open>Admission\<close>

definition admitted :: "('t, 'sp, 'jc) sequence_state \<Rightarrow> ('t, 'sp, 'jc) sequence_state" where
  "admitted q = q\<lparr>status := Running, phase := Prefill\<rparr>"

lemma admitted_simps [simp]:
  "sq_id (admitted q) = sq_id q" "caches (admitted q) = caches q"
  "draft_caches (admitted q) = draft_caches q" "all_tokens (admitted q) = all_tokens q"
  "status (admitted q) = Running" "shaped s (admitted q) = shaped s q"
  by (simp_all add: admitted_def shaped_def)

lemma push_running_inv:
  assumes inv: "sched_inv pcs (s\<lparr>waiting := q # qs\<rparr>)"
    and push: "push_to_running (running s) (running_index s) (admitted q) = (rs, idx)"
  shows "sched_inv pcs (s\<lparr>running := rs, running_index := idx, waiting := qs\<rparr>) \<and> rs = running s @ [admitted q]"
proof -
  have ix: "index_ok (running s) (running_index s)" and fresh: "sq_id (admitted q) \<notin> sq_id ` set (running s)"
    using inv by (auto simp: sched_inv_def)
  have p: "index_ok rs idx" "rs = running s @ [admitted q]" using push_to_running_ok [OF ix fresh push] by auto
  let ?s = "s\<lparr>waiting := q # qs\<rparr>" and ?s' = "s\<lparr>running := rs, running_index := idx, waiting := qs\<rparr>"
  have refs: "layer_refs caches l (seqs ?s') = layer_refs caches l (seqs ?s)"
    "layer_refs draft_caches l (seqs ?s') = layer_refs draft_caches l (seqs ?s)" for l
    by (simp_all add: seqs_def p(2))
  have "sched_inv pcs ?s'"
    using inv p(1) unfolding sched_inv_def mem_ok_def refs by (auto simp: seqs_def p(2) shaped_def)
  then show ?thesis using p(2) by simp
qed

definition evict_prompt_opt ::
    "'c pc_ops \<Rightarrow> chain_hash \<Rightarrow> nat \<Rightarrow> u32 list \<Rightarrow> nat \<Rightarrow> 'c prefix_cache option \<Rightarrow>
     ('t, 'f) block_allocator list \<Rightarrow> nat \<Rightarrow> nat \<Rightarrow>
     ('c prefix_cache option \<times> ('t, 'f) block_allocator list \<times> nat \<times> nat) option" where
  "evict_prompt_opt ops hash bs tokens r pco as avail needed =
     (case pco of
        Some pc \<Rightarrow>
          if avail < needed
          then map_option (\<lambda>(pc', as', fr, nd). (Some pc', as', fr, nd))
                 (evict_for_prompt ops hash bs tokens r (pc_touch ops hash pc tokens bs) as avail needed)
          else Some (pco, as, avail, needed)
      | None \<Rightarrow> Some (pco, as, avail, needed))"

lemma admit_Cons:
  "admit ops hash s pco b r avail pre (q # qs) =
     (if length (running s) < max_num_sequences s \<and> 0 < b then
        case evict_prompt_opt ops hash (s_block_size s) (all_tokens q) r pco (allocators s) avail
               (blocks_needed_for_prefill ops hash (s_block_size s) (all_tokens q) pco) of
          None \<Rightarrow> None
        | Some (pco1, as1, free1, needed1) \<Rightarrow>
            if free1 < needed1 \<or> (b < length (all_tokens q) \<and> pre)
            then Some (s\<lparr>allocators := as1, waiting := q # qs\<rparr>, pco1, [])
            else let (rs, idx) = push_to_running (running s) (running_index s) (admitted q)
                 in map_option (\<lambda>(s', pco', sch). (s', pco', (sq_id q, Prefill) # sch))
                      (admit ops hash (s\<lparr>allocators := as1, running := rs, running_index := idx\<rparr>) pco1
                         (b - length (all_tokens q)) r (free1 - needed1) True qs)
      else Some (s\<lparr>waiting := q # qs\<rparr>, pco, []))"
  by (auto simp: Let_def evict_prompt_opt_def admitted_def split: option.splits prod.splits)

declare admit.simps(2) [simp del]

context prefix_lru
begin

lemma evict_prompt_opt_spec:
  assumes inv: "sched_inv (pco_items items pco) s"
  shows "\<exists>pco' as' fr nd. evict_prompt_opt ops hash bs tokens r pco (allocators s) avail needed = Some (pco', as', fr, nd)
    \<and> sched_inv (pco_items items pco') (s\<lparr>allocators := as'\<rparr>) \<and> same_config s (s\<lparr>allocators := as'\<rparr>)
    \<and> num_free_blocks (allocators s) \<le> num_free_blocks as' \<and> (pco' = None \<longleftrightarrow> pco = None)
    \<and> (pco = None \<longrightarrow> as' = allocators s \<and> fr = avail \<and> nd = needed)"
proof (cases "\<exists>pc. pco = Some pc \<and> avail < needed")
  case False
  then have "evict_prompt_opt ops hash bs tokens r pco (allocators s) avail needed = Some (pco, allocators s, avail, needed)"
    by (auto simp: evict_prompt_opt_def split: option.split)
  then show ?thesis using inv by simp
next
  case True
  then obtain pc where pc: "pco = Some pc" "avail < needed" by blast
  let ?pt = "pc_touch ops hash pc tokens bs"
  have t: "entry_refs l (items (entries ?pt)) = entry_refs l (items (entries pc))"
    "entries_wf n (items (entries ?pt)) = entries_wf n (items (entries pc))" for l n
    using entry_refs_cong [OF pc_touch_items] entries_wf_cong [OF pc_touch_items] by auto
  have m: "layers_ok (allocators s) (\<lambda>l. layer_refs caches l (seqs s) + entry_refs l (items (entries ?pt)))"
    "entries_wf (length (allocators s)) (items (entries ?pt))"
    using inv by (simp_all add: pc t sched_inv_def mem_ok_def)
  obtain pc' as' fr nd where e: "evict_for_prompt ops hash bs tokens r ?pt (allocators s) avail needed = Some (pc', as', fr, nd)"
      "layers_ok as' (\<lambda>l. layer_refs caches l (seqs s) + entry_refs l (items (entries pc')))"
      "entries_wf (length as') (items (entries pc'))" "layers_geometry (allocators s) as'"
      "more_free (allocators s) as'"
    using evict_for_prompt_spec [OF m] by blast
  show ?thesis
    using sched_inv_allocs [OF inv e(2-4)] e(1) more_free_blocks [OF e(5)] pc by (simp add: evict_prompt_opt_def)
qed

lemma admit_spec:
  assumes "sched_inv (pco_items items pco) (s\<lparr>waiting := ws\<rparr>)"
  shows "\<exists>s' pco' k. admit ops hash s pco b r avail pre ws =
        Some (s', pco', map (\<lambda>q. (sq_id q, Prefill)) (take k ws))
    \<and> sched_inv (pco_items items pco') s' \<and> same_config s s' \<and> k \<le> length ws
    \<and> num_free_blocks (allocators s) \<le> num_free_blocks (allocators s') \<and> (pco' = None \<longleftrightarrow> pco = None)
    \<and> waiting s' = drop k ws \<and> running s' = running s @ map admitted (take k ws)
    \<and> (0 < k \<longrightarrow> length (running s) + k \<le> max_num_sequences s)
    \<and> (sum_list (map (length \<circ> all_tokens) (take k ws)) \<le> b \<or> k = 1 \<and> \<not> pre)
    \<and> (pco = None \<longrightarrow> allocators s' = allocators s
        \<and> sum_list (map (\<lambda>q. blocks_needed_for_prefill ops hash (s_block_size s) (all_tokens q) None) (take k ws)) \<le> avail)"
  using assms
proof (induction ws arbitrary: s pco b avail pre)
  case Nil
  then show ?case by (simp add: same_config_def)
next
  case (Cons q qs)
  let ?need = "blocks_needed_for_prefill ops hash (s_block_size s) (all_tokens q) pco"
  let ?sw = "s\<lparr>waiting := q # qs\<rparr>"
  note step = admit_Cons [of ops hash s pco b r avail pre q qs]
  show ?case
  proof (cases "length (running s) < max_num_sequences s \<and> 0 < b")
    case False
    then show ?thesis
      using Cons.prems by (intro exI [of _ ?sw] exI [of _ pco] exI [of _ 0]) (auto simp: step same_config_def)
  next
    case go: True
    obtain pco1 as1 fr nd where e: "evict_prompt_opt ops hash (s_block_size s) (all_tokens q) r pco (allocators s) avail ?need
          = Some (pco1, as1, fr, nd)"
        "sched_inv (pco_items items pco1) (?sw\<lparr>allocators := as1\<rparr>)" "same_config ?sw (?sw\<lparr>allocators := as1\<rparr>)"
        "num_free_blocks (allocators s) \<le> num_free_blocks as1" "pco1 = None \<longleftrightarrow> pco = None"
        "pco = None \<Longrightarrow> as1 = allocators s \<and> fr = avail \<and> nd = ?need"
      using evict_prompt_opt_spec [OF Cons.prems, of "s_block_size s" "all_tokens q" r avail ?need] by auto
    have comm: "?sw\<lparr>allocators := as1\<rparr> = s\<lparr>allocators := as1, waiting := q # qs\<rparr>" by simp
    show ?thesis
    proof (cases "fr < nd \<or> (b < length (all_tokens q) \<and> pre)")
      case True
      then have "admit ops hash s pco b r avail pre (q # qs) = Some (?sw\<lparr>allocators := as1\<rparr>, pco1, [])"
        unfolding step using go e(1) by (simp add: comm)
      then show ?thesis
        using e(2-6) by (intro exI [of _ "?sw\<lparr>allocators := as1\<rparr>"] exI [of _ pco1] exI [of _ 0])
          (auto simp: same_config_def)
    next
      case stay: False
      let ?s1 = "s\<lparr>allocators := as1\<rparr>"
      obtain rs idx where push: "push_to_running (running s) (running_index s) (admitted q) = (rs, idx)" by fastforce
      have inv1: "sched_inv (pco_items items pco1) (?s1\<lparr>waiting := q # qs\<rparr>)" 
        using e(2) by (simp add: comm)
      let ?s2 = "s\<lparr>allocators := as1, running := rs, running_index := idx\<rparr>"
      have p: "sched_inv (pco_items items pco1) (?s2\<lparr>waiting := qs\<rparr>)" "rs = running s @ [admitted q]"
        using push_running_inv [OF inv1, of rs idx] push by auto
      let ?b = "b - length (all_tokens q)"
      obtain s' pco' k where r: "admit ops hash ?s2 pco1 ?b r (fr - nd) True qs =
            Some (s', pco', map (\<lambda>q. (sq_id q, Prefill)) (take k qs))"
          "sched_inv (pco_items items pco') s'" "same_config ?s2 s'" "k \<le> length qs"
          "num_free_blocks (allocators ?s2) \<le> num_free_blocks (allocators s')" "pco' = None \<longleftrightarrow> pco1 = None"
          "waiting s' = drop k qs" "running s' = running ?s2 @ map admitted (take k qs)"
          "0 < k \<longrightarrow> length (running ?s2) + k \<le> max_num_sequences ?s2"
          "sum_list (map (length \<circ> all_tokens) (take k qs)) \<le> ?b \<or> k = 1 \<and> \<not> True"
          "pco1 = None \<longrightarrow> allocators s' = allocators ?s2 \<and> sum_list (map (\<lambda>q.
             blocks_needed_for_prefill ops hash (s_block_size ?s2) (all_tokens q) None) (take k qs)) \<le> fr - nd"
        using Cons.IH [OF p(1), of ?b "fr - nd" True] by blast
      have run: "admit ops hash s pco b r avail pre (q # qs) =
          Some (s', pco', map (\<lambda>q. (sq_id q, Prefill)) (take (Suc k) (q # qs)))"
        unfolding step using go e(1) stay push r(1) by simp
      have cfg: "same_config s s'" using e(3) r(3) layers_geometry_trans by (auto simp: same_config_def)
      have seats: "length (running s) + Suc k \<le> max_num_sequences s"
        using r(9) go by (cases k) (simp_all add: p(2))
      have zero: "0 < length (all_tokens q) \<Longrightarrow> ?b = 0 \<Longrightarrow> k = 0"
        using r(1,4) by (cases k; cases qs) (auto simp: admit_Cons split: if_splits)
      have toks: "sum_list (map (length \<circ> all_tokens) (take (Suc k) (q # qs))) \<le> b \<or> Suc k = 1 \<and> \<not> pre"
        using r(10) stay zero go by (cases "length (all_tokens q) \<le> b"; cases "all_tokens q = []") auto
      have blocks: "pco = None \<Longrightarrow> allocators s' = allocators s \<and> sum_list (map (\<lambda>q.
             blocks_needed_for_prefill ops hash (s_block_size s) (all_tokens q) None) (take (Suc k) (q # qs))) \<le> avail"
        using r(11) e(5,6) stay by auto
      have "num_free_blocks (allocators s) \<le> num_free_blocks (allocators s')" using e(4) r(5) by simp
      moreover have "running s' = running s @ map admitted (take (Suc k) (q # qs))"
        "waiting s' = drop (Suc k) (q # qs)" "Suc k \<le> length (q # qs)" "pco' = None \<longleftrightarrow> pco = None"
        using r(4,6-8) p(2) e(5) by simp_all
      ultimately show ?thesis
        using run r(2) cfg seats toks blocks by blast
    qed
  qed
qed

end

section \<open>A whole step\<close>

lemma take_filter_sub: "set (take n (filter P xs)) \<subseteq> {x \<in> set xs. P x}"
  by (auto dest: in_set_takeD)

lemma subset_disjoint: "A \<subseteq> R \<Longrightarrow> A \<inter> N = {} \<Longrightarrow> R - N \<subseteq> S \<Longrightarrow> A \<subseteq> S"
  by blast

lemma disjoint_mono: "A \<subseteq> A' \<Longrightarrow> B \<subseteq> B' \<Longrightarrow> A' \<inter> B' = {} \<Longrightarrow> A \<inter> B = {}"
  by blast

lemma sched_inv_distinct:
  "sched_inv pcs s \<Longrightarrow> distinct (map sq_id (running s)) \<and> sq_id ` set (running s) \<inter> sq_id ` set (waiting s) = {}"
  by (auto simp: sched_inv_def)

lemma calm_not_boundary:
  assumes "distinct (map sq_id rs)"
  shows "sq_id ` set (filter (\<lambda>q. \<not> P q) rs) \<inter> sq_id ` set (filter P rs) = {}"
  using assms by (auto simp: distinct_map dest: inj_onD)

text \<open>The blocks the boundary decodes of a schedule will take, one each.\<close>

definition boundary_decodes ::
    "nat \<Rightarrow> ('t, 'sp, 'jc) sequence_state list \<Rightarrow> scheduled \<Rightarrow> nat" where
  "boundary_decodes bs rs sch = length (filter (\<lambda>(sid, p). p = Decode \<and>
     sid \<in> sq_id ` set (filter (decode_needs_new_block bs) rs)) sch)"

context prefix_lru
begin

lemma schedule_spec:
  assumes inv: "sched_inv (pco_items items pco) s"
  shows "\<exists>s' pco' sch dec k pre gone. schedule dim ops hash s pco = Some (s', pco', sch)
    \<and> sched_inv (pco_items items pco') s' \<and> same_config s s' \<and> (pco' = None \<longleftrightarrow> pco = None)
    \<and> sch = map (\<lambda>sid. (sid, Decode)) dec @ map (\<lambda>q. (sq_id q, Prefill)) (take k (pre @ waiting s))
    \<and> k \<le> length (pre @ waiting s)
    \<and> waiting s' = drop k (pre @ waiting s) \<and> distinct (map fst sch)
    \<and> set dec \<subseteq> sq_id ` set (running s) \<and> fst ` set sch \<subseteq> sq_id ` set (running s')
    \<and> mset (map sq_id (running s' @ waiting s')) = mset (map sq_id (running s @ waiting s))
    \<and> subseq (map sq_id gone) (map sq_id (filter (decode_needs_new_block (s_block_size s)) (running s)))
    \<and> list_all2 requeued (rev gone) pre
    \<and> mset (running s') + mset gone = mset (running s) + mset (map admitted (take k (pre @ waiting s)))
    \<and> set dec \<inter> sq_id ` set gone = {}
    \<and> (0 < k \<longrightarrow> length (running s') \<le> max_num_sequences s)
    \<and> length (running s') \<le> max (max_num_sequences s) (length (running s))
    \<and> length dec \<le> max_tokens_per_step s
    \<and> (length dec + sum_list (map (length \<circ> all_tokens) (take k (pre @ waiting s))) \<le> max_tokens_per_step s \<or> k = 1)
    \<and> (pco = None \<longrightarrow> boundary_decodes (s_block_size s) (running s) sch
        + sum_list (map (\<lambda>q. blocks_needed_for_prefill ops hash (s_block_size s) (all_tokens q) None)
            (take k (pre @ waiting s))) \<le> num_free_blocks (allocators s'))"
proof -
  let ?bs = "s_block_size s" and ?m = "max_tokens_per_step s"
  let ?calm = "take ?m (filter (\<lambda>q. \<not> decode_needs_new_block ?bs q) (running s))"
  let ?need = "map sq_id (filter (decode_needs_new_block ?bs) (running s))"
  let ?d1 = "map sq_id ?calm"
  have dp: "decode_pass ?bs (running s) ?m = (map (\<lambda>q. (sq_id q, Decode)) ?calm, ?m - length ?calm, ?need)"
    by (simp add: decode_pass_eq Let_def)
  have dist: "distinct (map sq_id (running s))" using sched_inv_distinct [OF inv] by simp
  have need: "distinct ?need" "set ?need \<subseteq> sq_id ` set (running s)"
    using dist by (auto simp: distinct_map_filter)
  obtain s1 pco1 b1 r1 sch2 where b: "boundary_pass dim ops s pco (?m - length ?calm) 0 ?need = Some (s1, pco1, b1, r1, sch2)"
      "sched_inv (pco_items items pco1) s1" "same_config s s1" "pco1 = None \<longleftrightarrow> pco = None"
      "r1 \<le> num_free_blocks (allocators s1)" "r1 = 0 + length sch2" "?m - length ?calm = b1 + length sch2"
      "set sch2 \<subseteq> (\<lambda>sid. (sid, Decode)) ` (set ?need \<inter> sq_id ` set (running s1))" "distinct (map fst sch2)"
      "sq_id ` set (running s) - set ?need \<subseteq> sq_id ` set (running s1)"
      "mset (map sq_id (running s1 @ waiting s1)) = mset (map sq_id (running s @ waiting s))"
      "preempts ?need s s1"
    using boundary_pass_spec [OF inv need le0, of dim "?m - length ?calm"] by (elim exE conjE) (rule that)
  obtain gone pre where "preempted ?need s s1 gone pre" using b(12) by (auto simp: preempts_def)
  then have pre: "waiting s1 = pre @ waiting s" and gone: "list_all2 requeued (rev gone) pre"
      "subseq (map sq_id gone) ?need" "mset (running s) = mset (running s1) + mset gone"
    by (simp_all add: preempted_def)
  have w: "sched_inv (pco_items items pco1) (s1\<lparr>waiting := waiting s1\<rparr>)" using b(2) by simp
  let ?a1 = "num_free_blocks (allocators s1) - r1"
  obtain s' pco' k where a: "admit ops hash s1 pco1 b1 r1 ?a1 False (waiting s1) =
        Some (s', pco', map (\<lambda>q. (sq_id q, Prefill)) (take k (waiting s1)))"
      "sched_inv (pco_items items pco') s'" "same_config s1 s'" "k \<le> length (waiting s1)" "pco' = None \<longleftrightarrow> pco1 = None"
      "waiting s' = drop k (waiting s1)" "running s' = running s1 @ map admitted (take k (waiting s1))"
      "0 < k \<longrightarrow> length (running s1) + k \<le> max_num_sequences s1"
      "sum_list (map (length \<circ> all_tokens) (take k (waiting s1))) \<le> b1 \<or> k = 1 \<and> \<not> False"
      "pco1 = None \<longrightarrow> allocators s' = allocators s1
        \<and> sum_list (map (\<lambda>q. blocks_needed_for_prefill ops hash (s_block_size s1) (all_tokens q) None) (take k (waiting s1))) \<le> ?a1"
    using admit_spec [OF w, of b1 r1 ?a1 False] by (elim exE conjE) (rule that)
  let ?d2 = "map fst sch2" and ?sch3 = "map (\<lambda>q. (sq_id q, Prefill)) (take k (waiting s1))"
  have "\<forall>x \<in> set sch2. x = (fst x, Decode)" using b(8) by auto
  then have d2: "sch2 = map (\<lambda>sid. (sid, Decode)) ?d2"
    by (simp add: comp_def map_idI)
  let ?dec = "?d1 @ ?d2" and ?sch = "map (\<lambda>q. (sq_id q, Decode)) ?calm @ sch2 @ ?sch3"
  have cfg: "s_block_size s1 = ?bs" "max_num_sequences s1 = max_num_sequences s" using b(3) by (simp_all add: same_config_def)
  have run: "schedule dim ops hash s pco = Some (s', pco', ?sch)"
    unfolding schedule_def dp Let_def prod.case b(1) option.case a(1) by simp
  have sch: "?sch = map (\<lambda>sid. (sid, Decode)) ?dec @ ?sch3" by (subst d2) simp
  have calm: "set ?d1 \<subseteq> sq_id ` set (filter (\<lambda>q. \<not> decode_needs_new_block ?bs q) (running s))"
    by (auto dest: in_set_takeD)
  have calm_need: "set ?d1 \<inter> set ?need = {}" 
    using disjoint_mono [OF calm order_refl calm_not_boundary [OF dist]] by simp
  have d2n: "set ?d2 \<subseteq> set ?need" "set ?d2 \<subseteq> sq_id ` set (running s1)"
    using image_mono [OF b(8), of fst] by (simp_all add: image_image)
  have d1s: "set ?d1 \<subseteq> sq_id ` set (running s)" by (auto dest: in_set_takeD)
  have d1r: "set ?d1 \<subseteq> sq_id ` set (running s1)"
    using d1s calm_need b(10) by (rule subset_disjoint)
  have dd1: "distinct ?d1" using dist by (metis distinct_map_filter distinct_take take_map)
  have ids3: "set (map fst ?sch3) \<subseteq> sq_id ` set (waiting s1)" "distinct (map fst ?sch3)"
  proof -
    show "set (map fst ?sch3) \<subseteq> sq_id ` set (waiting s1)" by (auto dest: in_set_takeD)
    have "distinct (map sq_id (waiting s1))" using b(2) by (simp add: sched_inv_def)
    then show "distinct (map fst ?sch3)" by (simp add: comp_def flip: take_map)
  qed
  have rw: "sq_id ` set (running s1) \<inter> sq_id ` set (waiting s1) = {}" using sched_inv_distinct [OF b(2)] by simp
  have f1: "map fst ?sch = ?d1 @ ?d2 @ map fst ?sch3" by simp
  have left: "mset (running s') + mset gone = mset (running s) + mset (map admitted (take k (waiting s1)))"
    using gone(3) by (simp add: a(7))
  have kept: "set ?dec \<inter> sq_id ` set gone = {}"
  proof -
    have "sq_id ` set (running s1) \<inter> sq_id ` set gone = {}"
      using distinct_map_mset [of "running s" "running s1 @ gone" sq_id] gone(3) dist by simp
    then show ?thesis using d1r d2n(2) unfolding set_append by blast
  qed
  have "distinct (map fst ?sch)"
    unfolding f1 distinct_append set_append Int_Un_distrib
    using dd1 b(9) ids3(2) disjoint_mono [OF order_refl d2n(1) calm_need]
      disjoint_mono [OF d1r ids3(1) rw] disjoint_mono [OF d2n(2) ids3(1) rw] by simp
  moreover have "fst ` set ?sch \<subseteq> sq_id ` set (running s')"
  proof -
    have "fst ` set ?sch = set ?d1 \<union> set ?d2 \<union> sq_id ` set (take k (waiting s1))" by (simp add: image_Un image_image Un_assoc)
    then show ?thesis using d1r d2n(2) by (auto simp: a(7) image_Un image_image)
  qed
  moreover have "mset (map sq_id (running s' @ waiting s')) = mset (map sq_id (running s @ waiting s))"
  proof -
    have "map sq_id (running s' @ waiting s') = map sq_id (running s1 @ waiting s1)"
      unfolding a(6,7) by (simp add: comp_def flip: take_map drop_map)
    then show ?thesis using b(11) by simp
  qed
  moreover have "set ?dec \<subseteq> sq_id ` set (running s)" using d2n need(2) calm by auto
  moreover have "length ?calm \<le> ?m" by simp
  moreover have "length (running s1) \<le> length (running s)"
    using arg_cong [OF b(11), of size] pre by simp
  moreover have "pco = None \<longrightarrow> boundary_decodes ?bs (running s) ?sch
      + sum_list (map (\<lambda>q. blocks_needed_for_prefill ops hash ?bs (all_tokens q) None) (take k (waiting s1)))
      \<le> num_free_blocks (allocators s')"
  proof
    assume "pco = None"
    have e: "filter (\<lambda>(sid, p). p = Decode \<and> sid \<in> set ?need) (map (\<lambda>q. (sq_id q, Decode)) ?calm) = []"
      "filter (\<lambda>(sid, p). p = Decode \<and> sid \<in> set ?need) ?sch3 = []"
      using calm_need by (auto simp: filter_empty_conv)
    have "boundary_decodes ?bs (running s) ?sch \<le> length sch2"
      unfolding boundary_decodes_def set_map [symmetric] filter_append e append_Nil append_Nil2
      by (rule length_filter_le)
    then show "boundary_decodes ?bs (running s) ?sch
      + sum_list (map (\<lambda>q. blocks_needed_for_prefill ops hash ?bs (all_tokens q) None) (take k (waiting s1)))
      \<le> num_free_blocks (allocators s')"
      using a(10) b(4-6) \<open>pco = None\<close> cfg by auto
  qed
  moreover have "length (running s') \<le> max (max_num_sequences s) (length (running s)) \<and> (0 < k \<longrightarrow> length (running s') \<le> max_num_sequences s)"
    using a(4,7,8) cfg \<open>length (running s1) \<le> length (running s)\<close> by (cases k) auto
  moreover have "length ?dec \<le> ?m \<and> (length ?dec + sum_list (map (length \<circ> all_tokens) (take k (waiting s1))) \<le> ?m \<or> k = 1)"
    using b(7) a(9) \<open>length ?calm \<le> ?m\<close> by auto
  moreover have "same_config s s'" "pco' = None \<longleftrightarrow> pco = None" "k \<le> length (pre @ waiting s)"
    using same_config_trans [OF b(3) a(3)] a(4,5) b(4) pre by simp_all
  ultimately show ?thesis
    using a(2) gone(1,2) run left kept sch a(6) unfolding pre
    by (elim conjE, intro exI [of _ s'] exI [of _ pco'] exI [of _ "map (\<lambda>q. (sq_id q, Decode)) ?calm
          @ sch2 @ map (\<lambda>q. (sq_id q, Prefill)) (take k (pre @ waiting s))"] exI [of _ ?dec] exI [of _ k] exI [of _ pre]
        exI [of _ gone] conjI; (assumption)?)
qed

end

end
