(* ===== verification/Scheduler_Ops.thy ===== *)
theory Scheduler_Ops
  imports Scheduler_Step
begin

text \<open>
  Queueing, retiring and aborting: they keep the invariant, and what they take out of the
  queues gives back every block it held.
\<close>

section \<open>Queueing\<close>

lemma add_request_full_spec:
  assumes inv: "sched_inv pcs s"
  shows "\<exists>s' q. add_request_full s prompt sp maxt jc = Some (s', next_id s) \<and> sched_inv pcs s'
    \<and> waiting s' = waiting s @ [q] \<and> sq_id q = next_id s \<and> all_tokens q = prompt \<and> waiting_ok q
    \<and> s' = s\<lparr>next_id := next_id s + 1, waiting := waiting s'\<rparr>"
proof -
  obtain s' where add: "add_request_full s prompt sp maxt jc = Some (s', next_id s)"
    using inv by (simp add: add_request_full_def sched_inv_def Let_def)
  define q where "q = last (waiting s')"
  have w: "waiting s' = waiting s @ [q]" "s' = s\<lparr>next_id := next_id s + 1, waiting := waiting s'\<rparr>"
    and q: "sq_id q = next_id s" "all_tokens q = prompt" "waiting_ok q" "shaped s q"
    using inv add by (auto simp: add_request_full_def sched_inv_def Let_def q_def waiting_ok_def
        empty_caches_def shaped_def split: if_splits)
  have f: "running s' = running s" "running_index s' = running_index s" "next_id s' = next_id s + 1"
    "allocators s' = allocators s" "draft_allocators s' = draft_allocators s"
    "num_layers s' = num_layers s" "draft_num_layers s' = draft_num_layers s"
    by (subst w(2), simp)+
  have seqs: "seqs s' = add_mset q (seqs s)" by (simp add: seqs_def f w(1))
  have refs: "l < length (allocators s) \<Longrightarrow> layer_refs caches l (seqs s') = layer_refs caches l (seqs s)"
    "l < length (draft_allocators s) \<Longrightarrow> layer_refs draft_caches l (seqs s') = layer_refs draft_caches l (seqs s)" for l
    using q(3,4) by (auto simp: seqs waiting_ok_def shaped_def empty_caches_nth)
  have mem: "mem_ok s' (\<lambda>l. layer_refs caches l (seqs s') + entry_refs l pcs) (\<lambda>l. layer_refs draft_caches l (seqs s'))"
    using inv unfolding sched_inv_def mem_ok_def layers_ok_def f by (simp add: refs)
  have dist: "distinct (map sq_id (running s' @ waiting s'))"
    using inv by (auto simp: sched_inv_def f w(1) q(1) seqs_def)
  have "sched_inv pcs s'"
    using inv mem dist q(3,4) unfolding sched_inv_def by (auto simp: f w(1) q(1) seqs shaped_def)
  then show ?thesis using add w q by blast
qed

section \<open>Retiring\<close>

lemma retire_ids_spec:
  "sched_inv pcs s \<Longrightarrow> distinct ids \<Longrightarrow> set ids \<subseteq> sq_id ` set (running s) \<Longrightarrow>
   \<exists>s' done. retire_ids dim s ids = Some (s', done) \<and> sched_inv pcs s' \<and> same_config s s'
    \<and> map fst done = ids \<and> waiting s' = waiting s \<and> mset (running s') = filter_mset (\<lambda>q. sq_id q \<notin> set ids) (mset (running s))
    \<and> num_free_blocks (allocators s) \<le> num_free_blocks (allocators s')"
proof (induction ids arbitrary: s)
  case Nil
  then show ?case by simp
next
  case (Cons sid ids)
  obtain i where i: "running_index s sid = Some i" "i < length (running s)" "sq_id (running s ! i) = sid"
    using sched_inv_index [OF Cons.prems(1), of sid] Cons.prems(3) by auto
  obtain s1 q1 where r: "remove_and_clear dim s i = Some (s1, q1)" "sched_inv pcs s1" "same_config s s1"
      "mset (running s) = add_mset (running s ! i) (mset (running s1))" "waiting s1 = waiting s"
      "q1 = (running s ! i)\<lparr>caches := caches q1, draft_caches := draft_caches q1\<rparr>"
      "num_free_blocks (allocators s) \<le> num_free_blocks (allocators s1)"
    using remove_and_clear_spec [OF Cons.prems(1) i(2), of dim] by blast
  have q1: "sq_id q1 = sid" by (subst r(6)) (simp add: i(3))
  have "distinct (map sq_id (running s ! i # running s1))"
    using sched_inv_distinct [OF Cons.prems(1)] distinct_map_mset [of "running s" "running s ! i # running s1" sq_id] r(4)
    by simp
  then have fresh: "sid \<notin> sq_id ` set (running s1)" by (simp add: i(3))
  have "set (running s) = insert (running s ! i) (set (running s1))"
    using r(4) by (metis set_mset_add_mset_insert set_mset_mset)
  then have ids1: "sq_id ` set (running s1) = sq_id ` set (running s) - {sid}" using fresh i(3) by auto
  have "set ids \<subseteq> sq_id ` set (running s1)" "distinct ids"
    using Cons.prems(2,3) by (auto simp: ids1)
  from Cons.IH [OF r(2) this(2,1)] obtain s' don where d: "retire_ids dim s1 ids = Some (s', don)" "sched_inv pcs s'"
      "same_config s1 s'" "map fst don = ids" "waiting s' = waiting s1" 
      "mset (running s') = filter_mset (\<lambda>q. sq_id q \<notin> set ids) (mset (running s1))"
      "num_free_blocks (allocators s1) \<le> num_free_blocks (allocators s')"
    by blast
  have "\<forall>q \<in># mset (running s1). (sq_id q \<notin> set (sid # ids)) = (sq_id q \<notin> set ids)" using fresh by auto
  then have "mset (running s') = filter_mset (\<lambda>q. sq_id q \<notin> set (sid # ids)) (mset (running s))"
    unfolding d(6) r(4) using i(3) by (auto intro!: filter_mset_cong)
  moreover have "num_free_blocks (allocators s) \<le> num_free_blocks (allocators s')" using r(7) d(7) by simp
  ultimately show ?case
    using i(1) r(1,5) d(1,2,4,5) q1 same_config_trans [OF r(3) d(3)] by simp
qed

lemma retire_finished_spec:
  assumes inv: "sched_inv pcs s"
  shows "\<exists>s' don. retire_finished dim s = Some (s', don) \<and> sched_inv pcs s' \<and> same_config s s'
    \<and> map fst don = map sq_id (filter (\<lambda>q. status q = Finished) (running s)) \<and> waiting s' = waiting s
    \<and> mset (running s') = mset (filter (\<lambda>q. status q \<noteq> Finished) (running s))
    \<and> num_free_blocks (allocators s) \<le> num_free_blocks (allocators s')"
proof -
  let ?ids = "map sq_id (filter (\<lambda>q. status q = Finished) (running s))"
  have d: "distinct (map sq_id (running s))" using sched_inv_distinct [OF inv] by simp
  have "distinct ?ids" "set ?ids \<subseteq> sq_id ` set (running s)" using d by (auto simp: distinct_map_filter)
  from retire_ids_spec [OF inv this] obtain s' don where r: "retire_ids dim s ?ids = Some (s', don)"
      "sched_inv pcs s'" "same_config s s'" "map fst don = ?ids" "waiting s' = waiting s"
      "mset (running s') = filter_mset (\<lambda>q. sq_id q \<notin> set ?ids) (mset (running s))"
      "num_free_blocks (allocators s) \<le> num_free_blocks (allocators s')"
    by blast
  have "q \<in> set (running s) \<Longrightarrow> (sq_id q \<notin> set ?ids) = (status q \<noteq> Finished)" for q
    using d by (auto simp: distinct_map dest: inj_onD)
  then have "filter_mset (\<lambda>q. sq_id q \<notin> set ?ids) (mset (running s)) = mset (filter (\<lambda>q. status q \<noteq> Finished) (running s))"
    unfolding mset_filter by (intro filter_mset_cong) simp_all
  then show ?thesis using r by (simp add: retire_finished_def)
qed

section \<open>Aborting\<close>

lemma abort_sequence_spec:
  assumes inv: "sched_inv pcs s"
  shows "\<exists>s' found. abort_sequence dim s sid = Some (s', found) \<and> sched_inv pcs s' \<and> same_config s s'
    \<and> (found \<longleftrightarrow> sid \<in> sq_id ` set (running s @ waiting s))
    \<and> mset (map sq_id (running s' @ waiting s')) = mset (filter (\<lambda>i. i \<noteq> sid) (map sq_id (running s @ waiting s)))
    \<and> num_free_blocks (allocators s) \<le> num_free_blocks (allocators s')"
proof -
  have d: "distinct (map sq_id (running s @ waiting s))" and ix: "index_ok (running s) (running_index s)"
    using inv by (simp_all add: sched_inv_def)
  have drop: "mset ys = mset (filter (\<lambda>i. i \<noteq> sid) xs)" if "mset xs = add_mset sid (mset ys)" "distinct xs" for xs ys :: "nat list"
  proof -
    have "distinct (sid # ys)" using that mset_eq_imp_distinct_iff [of xs "sid # ys"] by simp
    then have "filter (\<lambda>i. i \<noteq> sid) ys = ys" by (auto intro: filter_True)
    then show ?thesis using arg_cong [OF that(1), of "filter_mset (\<lambda>i. i \<noteq> sid)"] by (simp flip: mset_filter)
  qed
  show ?thesis
  proof (cases "running_index s sid")
    case (Some i)
    then have i: "i < length (running s)" "sq_id (running s ! i) = sid" using ix by (simp_all add: index_ok_def)
    obtain s' q' where r: "remove_and_clear dim s i = Some (s', q')" "sched_inv pcs s'" "same_config s s'"
        "mset (running s) = add_mset (running s ! i) (mset (running s'))" "waiting s' = waiting s"
        "num_free_blocks (allocators s) \<le> num_free_blocks (allocators s')"
      using remove_and_clear_spec [OF inv i(1), of dim] by blast
    have "mset (map sq_id (running s @ waiting s)) = add_mset sid (mset (map sq_id (running s' @ waiting s')))"
      using r(4,5) i(2) by simp
    note e = drop [OF this d]
    have mem: "sid \<in> sq_id ` set (running s @ waiting s)" using i nth_mem by fastforce
    have run: "abort_sequence dim s sid = Some (s', True)" using Some r(1) by (simp add: abort_sequence_def)
    show ?thesis
    proof (intro exI conjI)
      show "abort_sequence dim s sid = Some (s', True)" by (rule run)
      show "True \<longleftrightarrow> sid \<in> sq_id ` set (running s @ waiting s)" using mem by simp
      show "mset (map sq_id (running s' @ waiting s')) = mset (filter (\<lambda>i. i \<noteq> sid) (map sq_id (running s @ waiting s)))"
        by (rule e)
    qed (fact r)+
  next
    case None
    then have nr: "sid \<notin> sq_id ` set (running s)" using index_ok_mem [OF ix] by simp
    show ?thesis
    proof (cases "position (\<lambda>q. sq_id q = sid) (waiting s)")
      case None
      then have "sid \<notin> sq_id ` set (waiting s)" unfolding position_None by auto
      then have "filter (\<lambda>i. i \<noteq> sid) (map sq_id (running s @ waiting s)) = map sq_id (running s @ waiting s)"
        using nr unfolding filter_id_conv by auto
      then show ?thesis
        using inv nr \<open>running_index s sid = None\<close> \<open>sid \<notin> sq_id ` set (waiting s)\<close> None
        by (intro exI [of _ s] exI [of _ False]) (simp add: abort_sequence_def image_Un)
    next
      case (Some w)
      then have w: "w < length (waiting s)" "sq_id (waiting s ! w) = sid" using position_Some [OF Some] by auto
      let ?ws = "remove_at (waiting s) w" and ?q = "waiting s ! w"
      let ?s0 = "s\<lparr>waiting := ?ws\<rparr>"
      have s0: "?s0 = s\<lparr>running := running s, running_index := running_index s, waiting := ?ws\<rparr>" by simp
      have m: "mset (waiting s) = add_mset ?q (mset ?ws)" using mset_remove_at [OF w(1)] .
      have sub: "set ?ws \<subseteq> set (waiting s)" using m by (metis set_mset_add_mset_insert set_mset_mset subset_insertI)
      obtain s' q' where c: "clear_caches dim ?s0 ?q = Some (s', q')" "sched_inv pcs s'" "same_config s s'"
          "mem_frame ?s0 s'" "num_free_blocks (allocators s) \<le> num_free_blocks (allocators s')"
        using clear_dropped [OF inv s0 _ ix order_refl sub, of ?q dim] m by auto
      have "mset (map sq_id (running s @ waiting s)) = add_mset sid (mset (map sq_id (running s' @ waiting s')))"
        using m w(2) mem_frame_fields(1,2) [OF c(4)] by simp
      note e = drop [OF this d]
      have mem: "sid \<in> sq_id ` set (running s @ waiting s)" using w nth_mem by fastforce
      have run: "abort_sequence dim s sid = Some (s', True)"
        using c(1) Some \<open>running_index s sid = None\<close> by (simp add: abort_sequence_def)
      show ?thesis
      proof (intro exI conjI)
        show "abort_sequence dim s sid = Some (s', True)" by (rule run)
        show "True \<longleftrightarrow> sid \<in> sq_id ` set (running s @ waiting s)" using mem by simp
        show "mset (map sq_id (running s' @ waiting s')) = mset (filter (\<lambda>i. i \<noteq> sid) (map sq_id (running s @ waiting s)))"
          by (rule e)
      qed (fact c)+
    qed
  qed
qed

lemma clear_each_spec:
  "mem_ok s (\<lambda>l. layer_refs caches l (mset qs) + R l) (\<lambda>l. layer_refs draft_caches l (mset qs) + D l) \<Longrightarrow>
   \<forall>q \<in> set qs. shaped s q \<Longrightarrow>
   \<exists>s'. clear_each dim s qs = Some s' \<and> mem_ok s' R D \<and> mem_frame s s'"
proof (induction qs arbitrary: s)
  case Nil
  then show ?case by simp
next
  case (Cons q qs)
  have m: "mem_ok s (\<lambda>l. cache_refs (caches q ! l) + (layer_refs caches l (mset qs) + R l))
      (\<lambda>l. cache_refs (draft_caches q ! l) + (layer_refs draft_caches l (mset qs) + D l))"
    using Cons.prems(1) by (simp add: add.assoc)
  obtain s1 q1 where c: "clear_caches dim s q = Some (s1, q1)" "mem_frame s s1"
      "mem_ok s1 (\<lambda>l. layer_refs caches l (mset qs) + R l) (\<lambda>l. layer_refs draft_caches l (mset qs) + D l)"
    using clear_caches_spec [OF m, of dim] Cons.prems(2) by auto
  have "\<forall>q \<in> set qs. shaped s1 q" using Cons.prems(2) mem_frame_fields(13) [OF c(2)] by simp
  from Cons.IH [OF c(3) this] show ?case using c(1) mem_frame_trans [OF c(2)] by auto
qed

lemma abort_all_running_spec:
  assumes inv: "sched_inv pcs s"
  shows "\<exists>s'. abort_all_running dim s = Some (s', map sq_id (running s)) \<and> sched_inv pcs s' \<and> same_config s s'
    \<and> running s' = [] \<and> waiting s' = waiting s \<and> num_free_blocks (allocators s) \<le> num_free_blocks (allocators s')"
proof -
  have m: "mem_ok s (\<lambda>l. layer_refs caches l (mset (running s)) + (layer_refs caches l (mset (waiting s)) + entry_refs l pcs))
      (\<lambda>l. layer_refs draft_caches l (mset (running s)) + layer_refs draft_caches l (mset (waiting s)))"
    using inv by (simp add: sched_inv_def seqs_def add.assoc)
  have "\<forall>q \<in> set (running s). shaped s q" using inv by (simp add: sched_inv_def seqs_def)
  from clear_each_spec [OF m this, of dim] obtain s1 where c: "clear_each dim s (running s) = Some s1" "mem_frame s s1"
      "mem_ok s1 (\<lambda>l. layer_refs caches l (mset (waiting s)) + entry_refs l pcs) (\<lambda>l. layer_refs draft_caches l (mset (waiting s)))"
    by blast
  note fr = mem_frame_fields [OF c(2)]
  let ?s' = "s1\<lparr>running := [], running_index := Map.empty\<rparr>"
  have "sched_inv pcs ?s'"
    using inv c(3) by (auto simp: sched_inv_def seqs_def fr mem_ok_def shaped_def)
  moreover have "same_config s ?s'" using same_config_frame [OF c(2)] by (simp add: same_config_def)
  ultimately show ?thesis using c(1) fr by (simp add: abort_all_running_def)
qed

lemma abort_all_spec:
  assumes inv: "sched_inv pcs s"
  shows "\<exists>s'. abort_all dim s = Some (s', map sq_id (running s @ waiting s)) \<and> sched_inv pcs s' \<and> same_config s s'
    \<and> running s' = [] \<and> waiting s' = [] \<and> num_free_blocks (allocators s) \<le> num_free_blocks (allocators s')"
proof -
  obtain s1 where a: "abort_all_running dim s = Some (s1, map sq_id (running s))" "sched_inv pcs s1" "same_config s s1"
      "running s1 = []" "waiting s1 = waiting s" "num_free_blocks (allocators s) \<le> num_free_blocks (allocators s1)"
    using abort_all_running_spec [OF inv, of dim] by blast
  have m: "mem_ok s1 (\<lambda>l. layer_refs caches l (mset (waiting s1)) + entry_refs l pcs)
      (\<lambda>l. layer_refs draft_caches l (mset (waiting s1)) + {#})"
    using a(2,4) by (simp add: sched_inv_def seqs_def)
  have "\<forall>q \<in> set (waiting s1). shaped s1 q" using a(2) by (simp add: sched_inv_def seqs_def)
  from clear_each_spec [OF m this, of dim] obtain s2 where c: "clear_each dim s1 (waiting s1) = Some s2"
      "mem_frame s1 s2" "mem_ok s2 (\<lambda>l. entry_refs l pcs) (\<lambda>l. {#})"
    by blast
  note fr = mem_frame_fields [OF c(2)]
  let ?s' = "s2\<lparr>waiting := []\<rparr>"
  have "sched_inv pcs ?s'"
    using a(2,4) c(3) by (auto simp: sched_inv_def seqs_def fr mem_ok_def)
  moreover have "same_config s ?s'"
    using same_config_trans [OF a(3) same_config_frame [OF c(2)]] by (simp add: same_config_def)
  ultimately show ?thesis using a c(1) fr by (simp add: abort_all_def)
qed

lemma idle_pools_full:
  assumes inv: "sched_inv [] s" and "running s = []" "waiting s = []"
  shows "(\<forall>a \<in> set (allocators s). num_free a = max_blocks a) \<and> (\<forall>a \<in> set (draft_allocators s). num_free a = max_blocks a)"
  using assms
  by (simp add: blocks.avail_all sched_inv_def mem_ok_def layers_ok_def seqs_def all_set_conv_all_nth)

end
