(* ===== verification/Scheduler_Props.thy ===== *)
theory Scheduler_Props
  imports Scheduler_Ops
begin

text \<open>
  The properties of the scheduler, over any LRU that keeps its documented laws
  (\<open>lru_cache\<close>), with closed instances: one layer, blocks of two tokens, the list LRU.
\<close>

section \<open>A small instance\<close>

text \<open>A pool of \<open>n\<close> blocks of two tokens, none taken.\<close>

definition small_pool :: "nat \<Rightarrow> (unit, unit) block_allocator" where
  "small_pool n =
     \<lparr>pool = Full [()] [()], free_list = rev [0 ..< n], ref_counts = replicate n 0, num_blocks = n,
      max_blocks = n, segment_blocks = 1, block_size = 2, n_kv_heads = 1, head_dim = 1,
      dtype_bytes = 4,
      contig_pool = \<lparr>buffers = [], max_buffers = 4, bytes_per_token = 8, pool_budget = 0\<rparr>,
      sliding_window = None\<rparr>"

definition small_sched :: "nat \<Rightarrow> (unit, unit, unit, unit) scheduler" where
  "small_sched n = scheduler_new 4 100 (\<lambda>_. contig_budget_new 1000) [small_pool n] 1"

text \<open>The queue of prompts of the given tokens, in order.\<close>

definition queue_all :: "(unit, unit, unit, unit) scheduler \<Rightarrow> u32 list list \<Rightarrow> (unit, unit, unit, unit) scheduler" where
  "queue_all s prompts = fold (\<lambda>p s. case add_request s p () 8 of Some (s', _) \<Rightarrow> s' | None \<Rightarrow> s) prompts s"

lemma small_pool_ok: "alloc_inv (small_pool n)" "refs_of (small_pool n) = {#}"
  by (auto simp: alloc_inv_def small_pool_def) (simp add: multiset_eq_iff count_refs_of small_pool_def)

lemma scheduler_new_inv:
  assumes "layers_ok as (\<lambda>l. {#})" and "layers = length as"
  shows "sched_inv [] (scheduler_new m t B as layers)"
  using assms by (simp add: scheduler_new_def sched_inv_def seqs_def mem_ok_def entries_wf_def layers_ok_def)

lemma small_sched_inv: "sched_inv [] (small_sched n)"
  unfolding small_sched_def
  by (rule scheduler_new_inv) (simp_all add: layers_ok_def small_pool_ok)

lemma queue_all_inv: "sched_inv pcs s \<Longrightarrow> sched_inv pcs (queue_all s ps)"
proof (induction ps arbitrary: s)
  case Nil
  then show ?case by (simp add: queue_all_def)
next
  case (Cons p ps)
  obtain s' q where "add_request_full s p () 8 None = Some (s', next_id s)" "sched_inv pcs s'"
    using add_request_full_spec [OF Cons.prems, of p "()" 8 None] by blast
  then show ?case using Cons.IH [of s'] by (simp add: queue_all_def add_request_def)
qed

lemma ll_lru: "lru_cache ll_ops ll_items ll_cap"
  by (rule ll.lru_cache_axioms)

text \<open>The same pool with block 0 held by the one entry of a prefix cache.\<close>

definition cached_pool :: "nat \<Rightarrow> (unit, unit) block_allocator" where
  "cached_pool n = (small_pool n)\<lparr>free_list := rev [1 ..< n], ref_counts := 1 # replicate (n - 1) 0\<rparr>"

definition one_entry :: "((u64, prefix_entry) lru_list) prefix_cache" where
  "one_entry = (prefix_cache_new ll_ops 4)\<lparr>entries := ll_push (ll_new 4) 100 \<lparr>pe_block_ids = [0], pe_block_tokens = [9, 9]\<rparr>\<rparr>"

definition cached_sched :: "nat \<Rightarrow> (unit, unit, unit, unit) scheduler" where
  "cached_sched n = scheduler_new 4 100 (\<lambda>_. contig_budget_new 1000) [cached_pool n] 1"

lemma one_entry_items: "pco_items ll_items (Some one_entry) = [(100, \<lparr>pe_block_ids = [0], pe_block_tokens = [9, 9]\<rparr>)]"
  by (simp add: one_entry_def list_push_def)

lemma cached_pool_ok: "0 < n \<Longrightarrow> alloc_inv (cached_pool n) \<and> refs_of (cached_pool n) = {#0#}"
  by (cases n) (auto simp: alloc_inv_def small_pool_def cached_pool_def nth_Cons' multiset_eq_iff count_refs_of)

lemma cached_sched_inv: "0 < n \<Longrightarrow> sched_inv (pco_items ll_items (Some one_entry)) (cached_sched n)"
  unfolding one_entry_items
  by (simp add: cached_sched_def scheduler_new_def sched_inv_def seqs_def mem_ok_def entries_wf_def layers_ok_def entry_refs_def cached_pool_ok)

text \<open>A pool of one block, held by a sequence whose two processed tokens fill it and which wants to go on.\<close>

definition crowded_pool :: "(unit, unit) block_allocator" where
  "crowded_pool = (small_pool 1)\<lparr>free_list := [], ref_counts := [1]\<rparr>"

definition at_boundary :: "(unit, unit, unit) sequence_state" where
  "at_boundary =
     \<lparr>sq_id = 0, num_generated = 1, all_tokens = [1, 2, 3], token_counts = [1 \<mapsto> 1, 2 \<mapsto> 1, 3 \<mapsto> 1],
      sampling_params = (), status = Running, phase = Decode,
      caches = [(paged_cache_new crowded_pool)\<lparr>table := \<lparr>block_ids = [0], num_tokens = 2, cached_slots = [0, 1]\<rparr>\<rparr>],
      draft_caches = [], num_processed_tokens = 2, max_tokens = 8, finish_reason = None, jconstraint = None\<rparr>"

definition crowded_sched :: "(unit, unit, unit, unit) scheduler" where
  "crowded_sched = (scheduler_new 4 100 (\<lambda>_. contig_budget_new 1000) [crowded_pool] 1)
     \<lparr>running := [at_boundary], running_index := [0 \<mapsto> 0], next_id := 1\<rparr>"

lemma crowded_pool_ok: "alloc_inv crowded_pool" "refs_of crowded_pool = {#0#}"
  by (auto simp: alloc_inv_def small_pool_def crowded_pool_def nth_Cons' multiset_eq_iff count_refs_of)

lemma crowded_sched_inv: "sched_inv [] crowded_sched"
  by (auto simp: crowded_sched_def scheduler_new_def at_boundary_def sched_inv_def seqs_def mem_ok_def entries_wf_def
      layers_ok_def crowded_pool_ok index_ok_def shaped_def cache_refs_def)

lemmas run_simps = schedule_def Let_def queue_all_def add_request_def add_request_full_def scheduler_new_def
  admit_Cons evict_prompt_opt_def evict_for_prompt.simps num_free_blocks_def num_free_def
  blocks_needed_for_prefill_def count_cached_blocks_def full_blocks_def pc_touch_def pc_evict_lru_def
  list_get_def list_push_def push_to_running_def admitted_def free_def upt_rec

lemmas small_simps = small_sched_def cached_sched_def cached_pool_def small_pool_def one_entry_def
  prefix_cache_new_def ll_ops_def div_ceil_def

lemmas crowded_simps = crowded_sched_def crowded_pool_def at_boundary_def decode_needs_new_block_def preempt_def
  remove_from_running_def swap_remove_def clear_caches_def cache_clear_def paged_cache_new_def retired_contig_def

type_synonym list_pc = "((u64, prefix_entry) lru_list) prefix_cache"

section \<open>One step\<close>

text \<open>C1. A scheduling step never panics and its eviction loops end: it returns a schedule, keeps the
  invariant (exact running index, every block reference owned by one table entry or one cache
  entry, waiting sequences empty), schedules no sequence twice and only running ones, and
  neither loses nor invents a request.\<close>

theorem schedule_safe:
  assumes "lru_cache ops items cap" and "sched_inv (pco_items items pco) s"
  shows "\<exists>s' pco' sch. schedule dim ops hash s pco = Some (s', pco', sch)
    \<and> sched_inv (pco_items items pco') s'
    \<and> distinct (map fst sch) \<and> fst ` set sch \<subseteq> sq_id ` set (running s')
    \<and> mset (map sq_id (running s' @ waiting s')) = mset (map sq_id (running s @ waiting s))"
  using prefix_lru.schedule_spec [OF prefix_lru.intro [OF assms(1)] assms(2), of dim hash] by blast

theorem schedule_safe_witness:
  "\<exists>s' pco' sch. schedule (\<lambda>_ _. None) ll_ops (\<lambda>b h. h + 1) (queue_all (cached_sched 3) [[1,2,3], [4]]) (Some one_entry)
      = Some (s', pco', sch)
    \<and> sched_inv (pco_items ll_items pco') s'
    \<and> mset (map sq_id (running s' @ waiting s')) = {#0, 1#}"
proof -
  let ?s = "queue_all (cached_sched 3) [[1,2,3], [4]]"
  have inv: "sched_inv (pco_items ll_items (Some one_entry)) ?s" by (rule queue_all_inv, rule cached_sched_inv) simp
  have "mset (map sq_id (running ?s @ waiting ?s)) = {#0, 1#}" by (simp add: run_simps small_simps)
  then show ?thesis using schedule_safe [OF ll_lru inv, of "\<lambda>_ _. None" "\<lambda>b h. h + 1"] by auto
qed

text \<open>C2. Admission is first come, first served, and a preempted sequence loses nothing but its caches: what a
  step prefills is a prefix of the queue in which the sequences it preempted (\<open>gone\<close>, running decodes at a
  block boundary, in running order) stand first, the last preempted before the others, each reset to a
  prefill of all its tokens, and the rest waits in its old order.  The running set afterwards is the old one
  less the preempted and with the admitted, and the other scheduled entries are decodes of sequences that
  were running and were not preempted.\<close>

theorem schedule_fcfs:
  assumes "lru_cache ops items cap" and "sched_inv (pco_items items pco) s"
    and "schedule dim ops hash s pco = Some (s', pco', sch)"
  shows "\<exists>gone pre k dec. sch = map (\<lambda>sid. (sid, Decode)) dec @ map (\<lambda>q. (sq_id q, Prefill)) (take k (pre @ waiting s))
    \<and> waiting s' = drop k (pre @ waiting s)
    \<and> subseq (map sq_id gone) (map sq_id (filter (decode_needs_new_block (s_block_size s)) (running s)))
    \<and> list_all2 requeued (rev gone) pre
    \<and> mset (running s') + mset gone = mset (running s) + mset (map admitted (take k (pre @ waiting s)))
    \<and> set dec \<subseteq> sq_id ` set (running s) \<and> set dec \<inter> sq_id ` set gone = {}"
proof -
  obtain gone pre k dec where "sch = map (\<lambda>sid. (sid, Decode)) dec @ map (\<lambda>q. (sq_id q, Prefill)) (take k (pre @ waiting s))"
      "waiting s' = drop k (pre @ waiting s)"
      "subseq (map sq_id gone) (map sq_id (filter (decode_needs_new_block (s_block_size s)) (running s)))"
      "list_all2 requeued (rev gone) pre"
      "mset (running s') + mset gone = mset (running s) + mset (map admitted (take k (pre @ waiting s)))"
      "set dec \<subseteq> sq_id ` set (running s)" "set dec \<inter> sq_id ` set gone = {}"
    using prefix_lru.schedule_spec [OF prefix_lru.intro [OF assms(1)] assms(2), of dim hash]
    unfolding assms(3) option.inject prod.inject by (elim exE conjE) (rule that; simp)
  then show ?thesis by blast
qed

theorem schedule_fcfs_witness:
  "\<exists>s' p. schedule (\<lambda>_ _. None) ll_ops (\<lambda>b h. h) crowded_sched (None :: list_pc option) = Some (s', None, [])
    \<and> waiting s' = [p] \<and> requeued at_boundary p \<and> running s' = []"
proof -
  obtain s' where run: "schedule (\<lambda>_ _. None) ll_ops (\<lambda>b h. h) crowded_sched (None :: list_pc option) = Some (s', None, [])"
      and none: "running s' = []"
    by (simp add: run_simps small_simps crowded_simps)
  have start: "running crowded_sched = [at_boundary]" "waiting crowded_sched = []"
    by (simp_all add: crowded_sched_def scheduler_new_def)
  have inv: "sched_inv (pco_items ll_items (None :: list_pc option)) crowded_sched" using crowded_sched_inv by simp
  obtain gone pre k dec where r: "[] = map (\<lambda>sid. (sid, Decode)) dec @ map (\<lambda>q. (sq_id q, Prefill)) (take k (pre @ []))"
      "waiting s' = drop k (pre @ [])" "list_all2 requeued (rev gone) pre"
      "mset [] + mset gone = mset [at_boundary] + mset (map admitted (take k (pre @ [])))"
    using schedule_fcfs [OF ll_lru inv run] unfolding start none by (elim exE conjE) (rule that)
  have "k = 0 \<or> pre = []" using r(1) by simp
  then have cut: "take k (pre @ []) = []" "drop k (pre @ []) = pre" by auto
  have "gone = [at_boundary]" using r(4) unfolding cut(1) by simp
  moreover have "waiting s' = pre" using r(2) unfolding cut(2) .
  ultimately show ?thesis using run none r(3) by (auto simp: list_all2_Cons1)
qed

text \<open>The limits of a step: the running set never grows past its maximum by admission, decodes stay
  within the token budget, and decodes and prefills together do too, unless one single prompt is
  prefilled (the prompt longer than a whole step).\<close>

theorem schedule_limits:
  assumes "lru_cache ops items cap" and "sched_inv (pco_items items pco) s"
    and "schedule dim ops hash s pco = Some (s', pco', sch)"
  shows "length (running s') \<le> max (max_num_sequences s) (length (running s))
    \<and> (\<exists>dec pre k. sch = map (\<lambda>sid. (sid, Decode)) dec @ map (\<lambda>q. (sq_id q, Prefill)) (take k (pre @ waiting s))
        \<and> length dec \<le> max_tokens_per_step s
        \<and> (length dec + sum_list (map (length \<circ> all_tokens) (take k (pre @ waiting s))) \<le> max_tokens_per_step s
            \<or> k = 1))"
proof -
  obtain k dec pre where r: "length (running s') \<le> max (max_num_sequences s) (length (running s))"
      "sch = map (\<lambda>sid. (sid, Decode)) dec @ map (\<lambda>q. (sq_id q, Prefill)) (take k (pre @ waiting s))"
      "length dec \<le> max_tokens_per_step s"
      "length dec + sum_list (map (length \<circ> all_tokens) (take k (pre @ waiting s))) \<le> max_tokens_per_step s \<or> k = 1"
    using prefix_lru.schedule_spec [OF prefix_lru.intro [OF assms(1)] assms(2), of dim hash]
    unfolding assms(3) option.inject prod.inject by (elim exE conjE) (rule that; simp)
  then show ?thesis by blast
qed

theorem schedule_limits_witness:
  "\<exists>s'. schedule (\<lambda>_ _. None) ll_ops (\<lambda>b h. h) (queue_all (small_sched 3) [[1,2,3], [4,5,6]]) (None :: list_pc option)
      = Some (s', None, [(0, Prefill)]) \<and> length (running s') \<le> 4"
proof -
  let ?s = "queue_all (small_sched 3) [[1,2,3], [4,5,6]]"
  have inv: "sched_inv (pco_items ll_items (None :: list_pc option)) ?s" by (rule queue_all_inv) (simp add: small_sched_inv)
  obtain s' where run: "schedule (\<lambda>_ _. None) ll_ops (\<lambda>b h. h) ?s (None :: list_pc option) = Some (s', None, [(0, Prefill)])"
    by (simp add: run_simps small_simps)
  have "running ?s = []" "max_num_sequences ?s = 4" by (simp_all add: run_simps small_simps)
  then show ?thesis using schedule_limits [OF ll_lru inv run] run by auto
qed

text \<open>Without a prefix cache a step keeps its promises: the blocks its boundary decodes take and the
  blocks of the prompts it admits are all free at its end.\<close>

theorem schedule_promises:
  assumes "lru_cache ops items cap" and "sched_inv [] s" and "schedule dim ops hash s None = Some (s', pco', sch)"
  shows "\<exists>pre k. filter (\<lambda>(sid, p). p = Prefill) sch = map (\<lambda>q. (sq_id q, Prefill)) (take k (pre @ waiting s))
    \<and> boundary_decodes (s_block_size s) (running s) sch
      + sum_list (map (\<lambda>q. div_ceil (length (all_tokens q)) (s_block_size s)) (take k (pre @ waiting s)))
      \<le> num_free_blocks (allocators s')"
proof -
  have inv: "sched_inv (pco_items items None) s" using assms(2) by simp
  obtain k dec pre where r:
      "sch = map (\<lambda>sid. (sid, Decode)) dec @ map (\<lambda>q. (sq_id q, Prefill)) (take k (pre @ waiting s))"
      "boundary_decodes (s_block_size s) (running s) sch
        + sum_list (map (\<lambda>q. blocks_needed_for_prefill ops hash (s_block_size s) (all_tokens q) None)
            (take k (pre @ waiting s))) \<le> num_free_blocks (allocators s')"
    using prefix_lru.schedule_spec [OF prefix_lru.intro [OF assms(1)] inv, of dim hash]
    unfolding assms(3) option.inject prod.inject by (elim exE conjE) (rule that; simp)
  have pre: "filter (\<lambda>(sid, p). p = Prefill) sch = map (\<lambda>q. (sq_id q, Prefill)) (take k (pre @ waiting s))"
    by (simp add: r(1) filter_map comp_def)
  have need: "blocks_needed_for_prefill ops hash bs t None = div_ceil (length t) bs" for bs t
    by (simp add: blocks_needed_for_prefill_def Let_def)
  have "boundary_decodes (s_block_size s) (running s) sch
      + sum_list (map (\<lambda>q. div_ceil (length (all_tokens q)) (s_block_size s)) (take k (pre @ waiting s)))
      \<le> num_free_blocks (allocators s')"
    using r(2) by (simp only: need)
  with pre show ?thesis by blast
qed

theorem schedule_promises_witness:
  "\<exists>s'. schedule (\<lambda>_ _. None) ll_ops (\<lambda>b h. h) (queue_all (small_sched 3) [[1,2,3], [4,5,6]]) (None :: list_pc option)
      = Some (s', None, [(0, Prefill)])
    \<and> (\<exists>pre k. [(0, Prefill)] = map (\<lambda>q. (sq_id q, Prefill)) (take k (pre @ waiting (queue_all (small_sched 3) [[1,2,3], [4,5,6]])))
        \<and> sum_list (map (\<lambda>q. div_ceil (length (all_tokens q)) 2)
             (take k (pre @ waiting (queue_all (small_sched 3) [[1,2,3], [4,5,6]])))) \<le> num_free_blocks (allocators s'))"
proof -
  let ?s = "queue_all (small_sched 3) [[1,2,3], [4,5,6]]"
  have inv: "sched_inv [] ?s" by (rule queue_all_inv) (simp add: small_sched_inv)
  obtain s' where run: "schedule (\<lambda>_ _. None) ll_ops (\<lambda>b h. h) ?s (None :: list_pc option) = Some (s', None, [(0, Prefill)])"
    by (simp add: run_simps small_simps)
  have "s_block_size ?s = 2" by (simp add: run_simps small_simps)
  from schedule_promises [OF ll_lru inv run] obtain pre k where
      "filter (\<lambda>(sid, p). p = Prefill) [(0, Prefill)] = map (\<lambda>q. (sq_id q, Prefill)) (take k (pre @ waiting ?s))"
      "boundary_decodes (s_block_size ?s) (running ?s) [(0, Prefill)]
        + sum_list (map (\<lambda>q. div_ceil (length (all_tokens q)) (s_block_size ?s)) (take k (pre @ waiting ?s)))
        \<le> num_free_blocks (allocators s')"
    by blast
  then have "[(0, Prefill)] = map (\<lambda>q. (sq_id q, Prefill)) (take k (pre @ waiting ?s))"
      "sum_list (map (\<lambda>q. div_ceil (length (all_tokens q)) 2) (take k (pre @ waiting ?s))) \<le> num_free_blocks (allocators s')"
    using \<open>s_block_size ?s = 2\<close> by simp_all
  then show ?thesis using run by (intro exI [of _ s'] conjI exI [of _ pre] exI [of _ k])
qed

text \<open>With a prefix cache it may not: the eviction loop of admission recounts the free blocks from the
  pool and forgets the prompts already admitted in the step.  Three blocks, one of them held by
  a cache entry: a prompt of two blocks and then a prompt of three are admitted together, five
  blocks promised where three are free.\<close>

theorem schedule_can_overcommit:
  "sched_inv (pco_items ll_items (Some one_entry)) (queue_all (cached_sched 3) [[1,2,3,4], [5,6,7,8,9]])
   \<and> (case schedule (\<lambda>_ _. None) ll_ops (\<lambda>b h. h + 1) (queue_all (cached_sched 3) [[1,2,3,4], [5,6,7,8,9]]) (Some one_entry) of
        None \<Rightarrow> False
      | Some (s', pco', sch) \<Rightarrow>
          sch = [(0, Prefill), (1, Prefill)]
          \<and> num_free_blocks (allocators s') = 3
          \<and> map (\<lambda>q. blocks_needed_for_prefill ll_ops (\<lambda>b h. h + 1) 2 (all_tokens q) pco') (running s') = [2, 3])"
proof
  show "sched_inv (pco_items ll_items (Some one_entry)) (queue_all (cached_sched 3) [[1,2,3,4], [5,6,7,8,9]])"
    by (rule queue_all_inv, rule cached_sched_inv) simp
qed (simp add: run_simps small_simps)

section \<open>The other operations\<close>

text \<open>A request queues behind every other under a fresh id, with empty caches.\<close>

theorem add_request_queues:
  assumes "sched_inv pcs s"
  shows "\<exists>s' q. add_request_full s prompt sp maxt jc = Some (s', next_id s) \<and> sched_inv pcs s'
    \<and> waiting s' = waiting s @ [q] \<and> running s' = running s \<and> next_id s' = next_id s + 1
    \<and> sq_id q = next_id s \<and> all_tokens q = prompt \<and> waiting_ok q"
proof -
  obtain s' q where r: "add_request_full s prompt sp maxt jc = Some (s', next_id s)" "sched_inv pcs s'"
      "waiting s' = waiting s @ [q]" "sq_id q = next_id s" "all_tokens q = prompt" "waiting_ok q"
      "s' = s\<lparr>next_id := next_id s + 1, waiting := waiting s'\<rparr>"
    using add_request_full_spec [OF assms, of prompt sp maxt jc] by blast
  have "running s' = running s" "next_id s' = next_id s + 1" by (subst r(7), simp)+
  then show ?thesis using r(1-6) by blast
qed

theorem add_request_queues_witness:
  "\<exists>s' q. add_request_full (small_sched 3) [1, 2] () 8 None = Some (s', 0)
    \<and> waiting s' = [q] \<and> sq_id q = 0 \<and> all_tokens q = [1, 2]"
proof -
  have "next_id (small_sched 3) = 0" "waiting (small_sched 3) = []" by (simp_all add: small_simps scheduler_new_def)
  then show ?thesis using add_request_queues [OF small_sched_inv [of 3], of "[1, 2]" "()" 8 None] by auto
qed

text \<open>Retiring takes out exactly the finished sequences, reports each once in running order, keeps the
  invariant and takes no free block away.\<close>

theorem retire_finished_exact:
  assumes "sched_inv pcs s"
  shows "\<exists>s' don. retire_finished dim s = Some (s', don) \<and> sched_inv pcs s'
    \<and> map fst don = map sq_id (filter (\<lambda>q. status q = Finished) (running s)) \<and> waiting s' = waiting s
    \<and> mset (running s') = mset (filter (\<lambda>q. status q \<noteq> Finished) (running s))
    \<and> num_free_blocks (allocators s) \<le> num_free_blocks (allocators s')"
  using retire_finished_spec [OF assms, of dim] by blast

theorem retire_finished_exact_witness:
  "\<exists>s' don. retire_finished (\<lambda>_ _. None) (small_sched 3) = Some (s', don) \<and> sched_inv [] s' \<and> don = []"
proof -
  have "running (small_sched 3) = []" by (simp add: small_simps scheduler_new_def)
  then show ?thesis using retire_finished_exact [OF small_sched_inv [of 3], of "\<lambda>_ _. None"] by auto
qed

text \<open>Aborting a sequence, running or waiting, takes out exactly that one, says whether it was there,
  keeps the invariant and takes no free block away.\<close>

theorem abort_sequence_exact:
  assumes "sched_inv pcs s"
  shows "\<exists>s' found. abort_sequence dim s sid = Some (s', found) \<and> sched_inv pcs s'
    \<and> (found \<longleftrightarrow> sid \<in> sq_id ` set (running s @ waiting s))
    \<and> mset (map sq_id (running s' @ waiting s')) = mset (filter (\<lambda>i. i \<noteq> sid) (map sq_id (running s @ waiting s)))
    \<and> num_free_blocks (allocators s) \<le> num_free_blocks (allocators s')"
  using abort_sequence_spec [OF assms, of dim sid] by blast

theorem abort_sequence_exact_witness:
  "\<exists>s' found. abort_sequence (\<lambda>_ _. None) (queue_all (small_sched 3) [[1,2,3], [4]]) 0 = Some (s', found) \<and> found
    \<and> mset (map sq_id (running s' @ waiting s')) = {#1#}"
proof -
  let ?s = "queue_all (small_sched 3) [[1,2,3], [4]]"
  have inv: "sched_inv [] ?s" by (rule queue_all_inv) (simp add: small_sched_inv)
  have "map sq_id (running ?s @ waiting ?s) = [0, 1]" by (simp add: run_simps small_simps)
  moreover from this have "sq_id ` set (running ?s @ waiting ?s) = {0, 1}" by (metis list.set set_map)
  ultimately show ?thesis using abort_sequence_exact [OF inv, of "\<lambda>_ _. None" 0] by auto
qed

text \<open>No block leaks: after \<open>abort_all\<close> every id that was queued is reported, nothing runs or waits, and
  with an empty prefix cache every block of every pool, target and draft, is free again.\<close>

theorem abort_all_frees_everything:
  assumes "sched_inv [] s"
  shows "\<exists>s'. abort_all dim s = Some (s', map sq_id (running s @ waiting s))
    \<and> running s' = [] \<and> waiting s' = []
    \<and> (\<forall>a \<in> set (allocators s'). num_free a = max_blocks a)
    \<and> (\<forall>a \<in> set (draft_allocators s'). num_free a = max_blocks a)
    \<and> map max_blocks (allocators s') = map max_blocks (allocators s)"
proof -
  obtain s' where r: "abort_all dim s = Some (s', map sq_id (running s @ waiting s))" "sched_inv [] s'"
      "same_config s s'" "running s' = []" "waiting s' = []"
    using abort_all_spec [OF assms, of dim] by blast
  have "list_all2 same_geometry (allocators s) (allocators s')" using r(3) by (simp add: same_config_def layers_geometry_def)
  then have "map max_blocks (allocators s') = map max_blocks (allocators s)"
    by (induction rule: list_all2_induct) (simp_all add: same_geometry_def)
  then show ?thesis using r idle_pools_full [OF r(2,4,5)] by blast
qed

theorem abort_all_frees_everything_witness:
  "\<exists>s'. abort_all (\<lambda>_ _. None) (queue_all (small_sched 3) [[1,2,3], [4]]) = Some (s', [0, 1])
    \<and> map num_free (allocators s') = [3]"
proof -
  let ?s = "queue_all (small_sched 3) [[1,2,3], [4]]"
  have inv: "sched_inv [] ?s" by (rule queue_all_inv) (simp add: small_sched_inv)
  have ex: "map sq_id (running ?s @ waiting ?s) = [0, 1]" "map max_blocks (allocators ?s) = [3]"
    by (simp_all add: run_simps small_simps)
  from abort_all_frees_everything [OF inv, of "\<lambda>_ _. None"] obtain s' where
      "abort_all (\<lambda>_ _. None) ?s = Some (s', map sq_id (running ?s @ waiting ?s))"
      "\<forall>a \<in> set (allocators s'). num_free a = max_blocks a"
      "map max_blocks (allocators s') = map max_blocks (allocators ?s)"
    by blast
  moreover from this(2) have "map num_free (allocators s') = map max_blocks (allocators s')" by simp
  ultimately show ?thesis using ex by (intro exI [of _ s']) simp
qed

end
