(* ===== verification/Memory_Props.thy ===== *)
theory Memory_Props
  imports Prefix_Cache
begin

text \<open>
  The properties of the memory layer: the block pool as a reference-counted pool for any
  sequence of operations, the byte budget the layers share, and the prefix cache that lends
  blocks out.
\<close>

section \<open>The block pool over its whole life\<close>

text \<open>
  A pool together with the references its clients hold.  A client may take a block, share
  one it holds and free one it holds; a take may fail and leave the pool as it was.
\<close>

inductive pool_step ::
    "(nat list \<Rightarrow> 't option) \<Rightarrow> 'f \<Rightarrow>
     ('t, 'f) block_allocator \<times> nat multiset \<Rightarrow> ('t, 'f) block_allocator \<times> nat multiset \<Rightarrow> bool"
  for zeros fz where
  take_block: "allocate zeros fz a = (a', Inr b) \<Longrightarrow> pool_step zeros fz (a, R) (a', add_mset b R)"
| take_fails: "allocate zeros fz a = (a', Inl e) \<Longrightarrow> pool_step zeros fz (a, R) (a', R)"
| share_block: "b \<in># R \<Longrightarrow> share a b = Some a' \<Longrightarrow> pool_step zeros fz (a, R) (a', add_mset b R)"
| free_block: "b \<in># R \<Longrightarrow> free a b = Some a' \<Longrightarrow> pool_step zeros fz (a, R) (a', R - {#b#})"

definition pool_good :: "nat \<Rightarrow> ('t, 'f) block_allocator \<times> nat multiset \<Rightarrow> bool" where
  "pool_good n = (\<lambda>(a, R). alloc_inv a \<and> refs_of a = R \<and> max_blocks a = n)"

lemma share_held:
  "alloc_inv a \<Longrightarrow> b \<in># refs_of a \<Longrightarrow> share a b = Some a' \<Longrightarrow>
   alloc_inv a' \<and> refs_of a' = add_mset b (refs_of a) \<and> max_blocks a' = max_blocks a"
  using share_ok [of a b] by auto

lemma free_held:
  "alloc_inv a \<Longrightarrow> b \<in># refs_of a \<Longrightarrow> free a b = Some a' \<Longrightarrow>
   alloc_inv a' \<and> refs_of a' = refs_of a - {#b#} \<and> max_blocks a' = max_blocks a"
  using free_ok [of a b] by auto

lemma pool_step_good:
  assumes "pool_step zeros fz p q" and "pool_good n p"
  shows "pool_good n q"
  using assms
  by cases (auto simp: pool_good_def dest: allocate_ok allocate_err share_held free_held)

lemma pool_run_good:
  assumes "(pool_step zeros fz)\<^sup>*\<^sup>* p q" and "pool_good n p"
  shows "pool_good n q"
  using assms
proof (induction rule: rtranclp_induct)
  case (step y z)
  then show ?case using pool_step_good [OF step.hyps(2)] assms(2) by blast
qed

lemma growing_good:
  assumes "growing zeros fz B addr spec = (B', Inr a)"
  shows "pool_good (sp_max_blocks spec) (a, {#})"
proof -
  define seg where "seg = max 1 (min (sp_segment_blocks spec) (max (sp_max_blocks spec) 1))"
  obtain p cp where g: "(if 0 < sp_max_blocks spec then grow zeros fz
        \<lparr>pool = p, free_list = [], ref_counts = [], num_blocks = 0, max_blocks = sp_max_blocks spec,
          segment_blocks = seg, block_size = sp_block_size spec, n_kv_heads = sp_n_kv_heads spec,
          head_dim = sp_head_dim spec, dtype_bytes = sp_dtype_bytes spec, contig_pool = cp, sliding_window = None\<rparr>
      else Inr \<lparr>pool = p, free_list = [], ref_counts = [], num_blocks = 0, max_blocks = sp_max_blocks spec,
          segment_blocks = seg, block_size = sp_block_size spec, n_kv_heads = sp_n_kv_heads spec,
          head_dim = sp_head_dim spec, dtype_bytes = sp_dtype_bytes spec, contig_pool = cp, sliding_window = None\<rparr>) = Inr a"
    (is "(if _ then grow zeros fz ?a0 else Inr ?a0) = Inr a")
    using assms unfolding growing_def Let_def seg_def by (auto split: prod.splits)
  define a0 where "a0 = ?a0"
  have a0: "num_blocks a0 = 0" "ref_counts a0 = []" "free_list a0 = []"
      "max_blocks a0 = sp_max_blocks spec" "0 < segment_blocks a0"
    by (simp_all add: a0_def seg_def)
  have grown: "(if 0 < sp_max_blocks spec then grow zeros fz a0 else Inr a0) = Inr a"
    using g unfolding a0_def .
  have inv: "alloc_inv a0" using a0(1-5) by (simp add: alloc_inv_def)
  have refs: "refs_of a0 = {#}" using a0(1) by (simp add: refs_of_def)
  show ?thesis
    using a0(4) grown inv refs grow_spec [OF inv a0(3), of zeros fz a] by (auto simp: pool_good_def split: if_splits)
qed

text \<open>A take fails for want of blocks only when none is left.\<close>

lemma allocate_fails:
  assumes "alloc_inv a" and "allocate zeros fz a = (a', Inl e)"
  shows "a' = a \<and> (e = Exhausted (max_blocks a) \<and> num_free a = 0 \<or> e = Tensor_failed)"
proof -
  have r: "a' = a" "free_list a = []" "grow zeros fz a = Inl e" using allocate_err [OF assms] by simp_all
  have "0 < segment_blocks a" using assms(1) by (simp add: alloc_inv_def)
  then show ?thesis
    using r by (auto simp: grow_def grow_pool_def num_free_def Let_def min_def split: if_splits sum.splits kv_pool.splits option.splits)
qed

text \<open>C3. The pool of a layer, from its construction and through any sequence of takes, shares and frees by
  clients that free and share only what they hold: its reference counts are exactly the
  references outstanding, and the blocks it can still hand out are exactly those that nobody
  holds, out of the ceiling.\<close>

theorem pool_conserves_blocks:
  assumes "growing zeros fz B addr spec = (B', Inr a)" and "(pool_step zeros fz)\<^sup>*\<^sup>* (a, {#}) (a', R)"
  shows "refs_of a' = R \<and> num_free a' + card (set_mset R) = sp_max_blocks spec"
proof -
  have "pool_good (sp_max_blocks spec) (a', R)" using pool_run_good [OF assms(2) growing_good [OF assms(1)]] .
  then show ?thesis using num_free_card [of a'] by (auto simp: pool_good_def)
qed

text \<open>A layer of at most three blocks of two tokens, grown two blocks at a time.\<close>

definition small_spec :: pool_spec where
  "small_spec = \<lparr>sp_max_blocks = 3, sp_segment_blocks = 2, sp_block_size = 2, sp_n_kv_heads = 1,
     sp_head_dim = 1, sp_dtype_bytes = 4, sp_quantizer = None\<rparr>"

definition unit_zeros :: "nat list \<Rightarrow> unit option" where
  "unit_zeros shape = Some ()"

definition grown_pool :: "(unit, unit) block_allocator" where
  "grown_pool = \<lparr>pool = Full [()] [()], free_list = [1, 0], ref_counts = [0, 0], num_blocks = 2,
     max_blocks = 3, segment_blocks = 2, block_size = 2, n_kv_heads = 1, head_dim = 1, dtype_bytes = 4,
     contig_pool = \<lparr>buffers = [], max_buffers = 4, bytes_per_token = 8, pool_budget = 0\<rparr>, sliding_window = None\<rparr>"

lemma small_growing:
  "growing unit_zeros () B 0 small_spec = (B(0 := contig_budget_new usize_max), Inr grown_pool)"
  by (simp add: growing_def small_spec_def grown_pool_def contig_pool_new_def grow_def grow_pool_def unit_zeros_def
      resize_def max_pool_buffers_def Let_def upt_rec numeral_2_eq_2)

lemma small_take:
  "allocate unit_zeros () grown_pool = (grown_pool\<lparr>free_list := [1], ref_counts := [1, 0]\<rparr>, Inr 0)"
  by (simp add: allocate_def grown_pool_def Let_def)

lemma small_run: "(pool_step unit_zeros ())\<^sup>*\<^sup>* (grown_pool, {#})
    (grown_pool\<lparr>free_list := [1], ref_counts := [1, 0]\<rparr>, {#0#})"
  using take_block [OF small_take, of "{#}"] by blast

theorem pool_conserves_blocks_witness:
  "\<exists>a. (pool_step unit_zeros ())\<^sup>*\<^sup>* (grown_pool, {#}) (a, {#0#}) \<and> refs_of a = {#0#} \<and> num_free a = 2"
proof -
  have "num_free (grown_pool\<lparr>free_list := [1], ref_counts := [1, 0]\<rparr>) = 2"
    by (simp add: grown_pool_def num_free_def)
  then show ?thesis using pool_conserves_blocks [OF small_growing small_run] small_run by blast
qed

text \<open>C4. In any such state a client's operations do what they say and never panic: a take hands out a block
  nobody holds, or fails, leaving the pool as it was, because no block is left or the device gave no
  memory; sharing and freeing a held block succeed, and the block is available again exactly
  when its last holder frees it.\<close>

theorem pool_operations:
  assumes "growing zeros fz B addr spec = (B', Inr a0)" and "(pool_step zeros fz)\<^sup>*\<^sup>* (a0, {#}) (a, R)"
  shows "(case allocate zeros fz a of
        (a', Inr b) \<Rightarrow> b \<notin># R \<and> num_free a = Suc (num_free a')
      | (a', Inl e) \<Rightarrow> a' = a \<and> (e = Exhausted (sp_max_blocks spec) \<and> num_free a = 0 \<or> e = Tensor_failed))
    \<and> (\<forall>b \<in># R. \<exists>a'. share a b = Some a' \<and> num_free a' = num_free a)
    \<and> (\<forall>b \<in># R. \<exists>a'. free a b = Some a' \<and> num_free a' = num_free a + (if count R b = 1 then 1 else 0))"
proof -
  have g: "alloc_inv a" "refs_of a = R" "max_blocks a = sp_max_blocks spec"
    using pool_run_good [OF assms(2) growing_good [OF assms(1)]] by (simp_all add: pool_good_def)
  have sh: "\<exists>a'. share a b = Some a' \<and> num_free a' = num_free a" if b: "b \<in># R" for b
  proof -
    obtain a' where s: "share a b = Some a'" using share_ok [OF g(1), of b] b g(2) by auto
    then show ?thesis using blocks.avail_share [OF g(1) _ s] b g(2) by simp
  qed
  have fr: "\<exists>a'. free a b = Some a' \<and> num_free a' = num_free a + (if count R b = 1 then 1 else 0)" if b: "b \<in># R" for b
  proof -
    obtain a' where f: "free a b = Some a'" using free_ok [OF g(1), of b] b g(2) by auto
    show ?thesis
    proof (cases "count R b = 1")
      case True
      then show ?thesis using blocks.avail_free_last [OF g(1) _ f] f g(2) by simp
    next
      case False
      moreover have "0 < count R b" using b by simp
      ultimately have "1 < count R b" by linarith
      then show ?thesis using blocks.avail_free_shared [OF g(1) _ f] f g(2) False by simp
    qed
  qed
  show ?thesis
  proof (cases "allocate zeros fz a")
    case (Pair a' r)
    then show ?thesis
      using sh fr blocks.avail_alloc [OF g(1)] allocate_ok [OF g(1)] allocate_fails [OF g(1)] g(2,3)
      by (cases r) auto
  qed
qed

theorem pool_operations_witness:
  "\<exists>a'. allocate unit_zeros () (grown_pool\<lparr>free_list := [1], ref_counts := [1, 0]\<rparr>) = (a', Inr 1)
    \<and> num_free a' = 1
    \<and> (\<exists>a'. free (grown_pool\<lparr>free_list := [1], ref_counts := [1, 0]\<rparr>) 0 = Some a' \<and> num_free a' = 3)"
proof -
  let ?a = "grown_pool\<lparr>free_list := [1], ref_counts := [1, 0]\<rparr>"
  have n: "num_free ?a = 2" by (simp add: grown_pool_def num_free_def)
  obtain a' where "allocate unit_zeros () ?a = (a', Inr 1)"
    by (simp add: allocate_def grown_pool_def Let_def)
  then show ?thesis using pool_operations [OF small_growing small_run] n by auto
qed

section \<open>The byte budget the layers share\<close>

text \<open>The pools of a model's layers under one budget, at the address \<open>addr\<close> of the store.\<close>

inductive budget_step :: "nat \<Rightarrow> budgets \<times> 't contig_pool list \<Rightarrow> budgets \<times> 't contig_pool list \<Rightarrow> bool"
  for addr where
  take_buffer: "i < length ps \<Longrightarrow> contig_take B (ps ! i) needed = (B', p', r) \<Longrightarrow>
    budget_step addr (B, ps) (B', ps[i := p'])"
| put_buffer: "i < length ps \<Longrightarrow> contig_put B (ps ! i) buf = (B', p') \<Longrightarrow>
    budget_step addr (B, ps) (B', ps[i := p'])"

definition total_held :: "'t contig_pool list \<Rightarrow> nat" where
  "total_held ps = sum_list (map pool_held ps)"

definition budgets_good :: "nat \<Rightarrow> nat \<Rightarrow> budgets \<times> 't contig_pool list \<Rightarrow> bool" where
  "budgets_good addr limit = (\<lambda>(B, ps).
     budget_ok (B addr) (total_held ps) \<and> bg_limit (B addr) = limit \<and>
     (\<forall>p \<in> set ps. contig_ok p \<and> pool_budget p = addr))"

lemma total_held_update:
  assumes "i < length ps"
  obtains r where "total_held ps = pool_held (ps ! i) + r" and "\<And>p. total_held (ps[i := p]) = pool_held p + r"
proof
  let ?r = "total_held (take i ps) + total_held (drop (Suc i) ps)"
  show "total_held ps = pool_held (ps ! i) + ?r"
    using assms by (subst id_take_nth_drop [OF assms]) (simp add: total_held_def)
  show "total_held (ps[i := p]) = pool_held p + ?r" for p
    using assms by (simp add: upd_conv_take_nth_drop total_held_def)
qed

lemma put_room_limit: "put_room bg bytes bpt bufs = (fits, bg', bufs') \<Longrightarrow> bg_limit bg' = bg_limit bg"
  by (induction bg bytes bpt bufs rule: put_room.induct)
    (auto simp: put_room.simps budget_try_add_def split: if_splits option.splits)

lemma contig_put_limit: "contig_put B p buf = (B', p') \<Longrightarrow> bg_limit (B' (pool_budget p)) = bg_limit (B (pool_budget p))"
  by (auto simp: contig_put_def Let_def put_room_limit split: if_splits prod.splits)

lemma contig_take_limit: "contig_take B p n = (B', p', r) \<Longrightarrow> bg_limit (B' (pool_budget p)) = bg_limit (B (pool_budget p))"
  by (auto simp: contig_take_def Let_def split: option.splits)

lemma budget_step_good:
  assumes "budget_step addr s s'" and "budgets_good addr limit s"
  shows "budgets_good addr limit s'"
  using assms(1)
proof cases
  case (take_buffer i ps B needed B' p' r)
  obtain o1 where o: "total_held ps = pool_held (ps ! i) + o1" "\<And>p. total_held (ps[i := p]) = pool_held p + o1"
    using total_held_update [OF take_buffer(3)] by blast
  have g: "contig_ok (ps ! i)" "pool_budget (ps ! i) = addr" "budget_ok (B addr) (total_held ps)" "bg_limit (B addr) = limit"
    using assms(2) take_buffer by (auto simp: budgets_good_def)
  have lim: "bg_limit (B' addr) = limit" using contig_take_limit [OF take_buffer(4)] g by simp
  have "contig_ok p' \<and> pool_budget p' = addr \<and> budget_ok (B' addr) (pool_held p' + o1)"
  proof (cases r)
    case None
    then show ?thesis using contig_take_None take_buffer(4) g o(1) by fastforce
  next
    case (Some b)
    have ok: "budget_ok (B (pool_budget (ps ! i))) (pool_held (ps ! i) + o1)" using g o(1) by simp
    have take: "contig_take B (ps ! i) needed = (B', p', Some b)" using take_buffer(4) Some by simp
    note r = contig_take_Some(1-3) [of "ps ! i" B o1, OF g(1) ok take]
    then show ?thesis using g(2) by simp
  qed
  then show ?thesis
    using assms(2) take_buffer lim o(2) by (auto simp: budgets_good_def dest: set_update_subset_insert [THEN subsetD])
next
  case (put_buffer i ps B buf B' p')
  obtain o1 where o: "total_held ps = pool_held (ps ! i) + o1" "\<And>p. total_held (ps[i := p]) = pool_held p + o1"
    using total_held_update [OF put_buffer(3)] by blast
  have g: "contig_ok (ps ! i)" "pool_budget (ps ! i) = addr" "budget_ok (B addr) (total_held ps)" "bg_limit (B addr) = limit"
    using assms(2) put_buffer by (auto simp: budgets_good_def)
  have lim: "bg_limit (B' addr) = limit" using contig_put_limit [OF put_buffer(4)] g by simp
  have ok: "budget_ok (B (pool_budget (ps ! i))) (pool_held (ps ! i) + o1)" using g o(1) by simp
  have "contig_ok p' \<and> pool_budget p' = addr \<and> budget_ok (B' addr) (pool_held p' + o1)"
    using contig_put_spec [of "ps ! i" B o1, OF g(1) ok put_buffer(4)] g(2) by simp
  then show ?thesis
    using assms(2) put_buffer lim o(2) by (auto simp: budgets_good_def dest: set_update_subset_insert [THEN subsetD])
qed

lemma budget_run_good:
  assumes "(budget_step addr)\<^sup>*\<^sup>* s s'" and "budgets_good addr limit s"
  shows "budgets_good addr limit s'"
  using assms(1)
  by (induction rule: rtranclp_induct) (use assms(2) budget_step_good in blast)+

text \<open>The retired buffers of all layers together never hold more bytes than the budget, whatever is
  taken and put in which layer and order: the counter is exactly what the pools hold, and each
  pool keeps at most its number of buffers, smallest first.  The budget is a real one, below
  the largest \<open>usize\<close>.\<close>

theorem contig_budget_bounds:
  assumes "limit < usize_max" and "B addr = contig_budget_new limit"
    and "\<forall>p \<in> set ps. buffers p = [] \<and> pool_budget p = addr"
    and "(budget_step addr)\<^sup>*\<^sup>* (B, ps) (B', ps')"
  shows "bg_held (B' addr) = total_held ps' \<and> total_held ps' \<le> limit
    \<and> (\<forall>p \<in> set ps'. sorted (map buf_cap (buffers p)) \<and> length (buffers p) \<le> max_buffers p)"
proof -
  have "total_held ps = 0" using assms(3) by (auto simp: total_held_def pool_held_def sum_list_eq_0_iff)
  then have "budgets_good addr limit (B, ps)"
    using assms(1-3) by (auto simp: budgets_good_def budget_ok_def contig_budget_new_def contig_ok_def)
  from budget_run_good [OF assms(4) this] show ?thesis
    by (auto simp: budgets_good_def budget_ok_def contig_ok_def)
qed

theorem contig_budget_bounds_witness:
  "\<exists>B' ps'. (budget_step 0)\<^sup>*\<^sup>* (\<lambda>_. contig_budget_new 100,
      [\<lparr>buffers = [] :: unit contig_buffer list, max_buffers = 4, bytes_per_token = 8, pool_budget = 0\<rparr>]) (B', ps')
    \<and> bg_held (B' 0) = 80 \<and> total_held ps' = 80"
proof -
  let ?p = "\<lparr>buffers = [] :: unit contig_buffer list, max_buffers = 4, bytes_per_token = 8, pool_budget = 0\<rparr>"
  let ?b = "\<lparr>buf_k = (), buf_v = (), buf_cap = 10\<rparr>" and ?B = "\<lambda>_. contig_budget_new 100"
  obtain B' where put: "contig_put ?B ?p ?b = (B', ?p\<lparr>buffers := [?b]\<rparr>)"
    by (simp add: contig_put_def put_room.simps budget_try_add_def contig_budget_new_def sat_add_def usize_max_def
        insert_at_def partition_point_def Let_def)
  have run: "(budget_step 0)\<^sup>*\<^sup>* (?B, [?p]) (B', [?p\<lparr>buffers := [?b]\<rparr>])"
    using put_buffer [of 0 "[?p]" ?B ?b B' "?p\<lparr>buffers := [?b]\<rparr>" 0] put by auto
  have "bg_held (B' 0) = total_held [?p\<lparr>buffers := [?b]\<rparr>]"
    using contig_budget_bounds [OF _ _ _ run, of 100] by (simp add: usize_max_def)
  then show ?thesis using run by (intro exI conjI) (auto simp: total_held_def pool_held_def)
qed

end
