(* ===== verification/Prefix_Props.thy ===== *)
theory Prefix_Props
  imports Memory_Props
begin

text \<open>The properties of the prefix cache, over any LRU that keeps its documented laws.\<close>

section \<open>Looking up\<close>

lemma prefix_lru_lru: "lru_cache ops items cap \<Longrightarrow> prefix_lru ops items cap"
  by (rule prefix_lru.intro)

context prefix_lru
begin

lemma count_walk_cong:
  assumes "map_of (items c) = map_of (items c')"
  shows "count_walk ops hash c prev bs = count_walk ops hash c' prev bs"
  by (induction bs arbitrary: prev) (auto simp: peek assms Let_def split: option.splits)

lemma map_of_mset: "mset (items c) = mset (items c') \<Longrightarrow> map_of (items c) = map_of (items c')"
  using distinct_items by (metis map_of_inject_set set_mset_mset)

lemma count_walk_le: "count_walk ops hash c prev bs \<le> length bs"
  by (induction bs arbitrary: prev) (auto simp: Let_def split: option.splits)

lemma lookup_spec:
  assumes "pc_lookup ops hash pc tokens bs = (pc', n, ids)"
  shows "n = count_cached_blocks ops hash pc tokens bs \<and> n = length ids \<and> n \<le> length tokens div bs
    \<and> pc' = pc_touch ops hash pc tokens bs \<and> mset (items (entries pc')) = mset (items (entries pc))
    \<and> count_cached_blocks ops hash pc' ts bs' = count_cached_blocks ops hash pc ts bs'"
proof (cases "pc_disabled pc")
  case True
  then show ?thesis using assms by (simp add: pc_lookup_def pc_touch_def count_cached_blocks_def)
next
  case False
  obtain c w where w: "lookup_walk ops hash (entries pc) 0 (full_blocks bs tokens) = (c, w)" by fastforce
  have r: "pc' = pc\<lparr>entries := c\<rparr>" "n = length w" "ids = w" using assms False w by (auto simp: pc_lookup_def)
  have m: "length w = count_walk ops hash (entries pc) 0 (full_blocks bs tokens)" "mset (items c) = mset (items (entries pc))"
    using lookup_walk_count [of "entries pc" 0 "full_blocks bs tokens"] by (simp_all add: w)
  have "count_walk ops hash c 0 x = count_walk ops hash (entries pc) 0 x" for x
    using count_walk_cong [OF map_of_mset [OF m(2)]] .
  then show ?thesis
    using r m False count_walk_le [of "entries pc" 0 "full_blocks bs tokens"]
    by (simp add: pc_touch_def count_cached_blocks_def touch_walk_lookup w)
qed

end

text \<open>Looking a prompt up, counting its cached blocks and refreshing them walk the same entries: the
  lookup finds exactly as many blocks as the count the scheduler plans with, the refresh leaves
  the cache the lookup leaves, and neither changes what is cached.\<close>

theorem lookup_agrees_with_count:
  assumes "lru_cache ops items cap" and "pc_lookup ops hash pc tokens bs = (pc', n, ids)"
  shows "n = count_cached_blocks ops hash pc tokens bs \<and> n = length ids \<and> n \<le> length tokens div bs
    \<and> pc' = pc_touch ops hash pc tokens bs \<and> mset (items (entries pc')) = mset (items (entries pc))
    \<and> count_cached_blocks ops hash pc' ts bs' = count_cached_blocks ops hash pc ts bs'"
  by (rule prefix_lru.lookup_spec [OF prefix_lru_lru [OF assms(1)] assms(2)])

text \<open>A cache of four entries with one in it: the blocks 0 (layer 0) and 3 (layer 1) of the prompt [9, 9].\<close>

definition ll_pc :: "(u64 \<times> prefix_entry) list \<Rightarrow> ((u64, prefix_entry) lru_list) prefix_cache" where
  "ll_pc xs = (prefix_cache_new ll_ops 4)\<lparr>entries := fold (\<lambda>(h, e) c. ll_push c h e) xs (ll_new 4)\<rparr>"

theorem lookup_agrees_with_count_witness:
  "\<exists>pc'. pc_lookup ll_ops (\<lambda>b h. h + 1) (ll_pc [(1, \<lparr>pe_block_ids = [0, 3], pe_block_tokens = [9, 9]\<rparr>)]) [9, 9, 4] 2
      = (pc', 1, [[0, 3]])
    \<and> count_cached_blocks ll_ops (\<lambda>b h. h + 1) pc' [9, 9, 4] 2 = 1"
proof -
  let ?pc = "ll_pc [(1, \<lparr>pe_block_ids = [0, 3], pe_block_tokens = [9, 9]\<rparr>)]"
  obtain pc' where l: "pc_lookup ll_ops (\<lambda>b h. h + 1) ?pc [9, 9, 4] 2 = (pc', 1, [[0, 3]])"
    by (simp add: pc_lookup_def ll_pc_def prefix_cache_new_def full_blocks_def ll_ops_def list_push_def Let_def)
  then show ?thesis using lookup_agrees_with_count [OF ll.lru_cache_axioms l, of "[9, 9, 4]" 2] by auto
qed

section \<open>Registering and evicting\<close>

text \<open>A pool whose block 0 is held once.\<close>

definition held_pool :: "(unit, unit) block_allocator" where
  "held_pool = grown_pool\<lparr>free_list := [1], ref_counts := [1, 0]\<rparr>"

lemma held_pool_ok: "alloc_inv held_pool" "refs_of held_pool = {#0#}"
  by (auto simp: held_pool_def grown_pool_def alloc_inv_def nth_Cons' refs_of_def upt_rec)

text \<open>C14. The cache owns one reference to each block of each of its entries, whatever is registered and
  evicted: registering takes a reference for each new entry and gives one up for each entry the
  LRU pushes out, and never panics as long as the blocks handed in are referenced by someone.\<close>

theorem register_owns_references:
  assumes "lru_cache ops items cap" and "0 < cap (entries pc)"
    and "layers_ok as (\<lambda>l. R l + entry_refs l (items (entries pc)))" and "entries_wf (length as) (items (entries pc))"
    and "start + length new_ids \<le> length tokens div bs"
    and "\<forall>ids \<in> set new_ids. \<forall>l < length as. ids ! l \<in># R l"
  shows "\<exists>pc' as'. pc_register ops hash pc tokens start new_ids as bs = Some (pc', as')
    \<and> layers_ok as' (\<lambda>l. R l + entry_refs l (items (entries pc'))) \<and> entries_wf (length as') (items (entries pc'))
    \<and> layers_geometry as as' \<and> cap (entries pc') = cap (entries pc)"
proof (cases "pc_disabled pc \<or> (\<exists>ids \<in> set new_ids. length ids \<noteq> length as)")
  case True
  then show ?thesis using assms by (auto simp: pc_register_def)
next
  case False
  let ?bids = "zip (drop start (full_blocks bs tokens)) new_ids"
  have b: "\<forall>(b, ids) \<in> set ?bids. length ids = length as \<and> (\<forall>l < length as. ids ! l \<in># R l)"
    using False assms(6) by (auto dest: set_zip_rightD)
  obtain c' as' where "register_walk ops hash (entries pc) as (fold hash (take start (full_blocks bs tokens)) 0) ?bids = Some (c', as')"
      "layers_ok as' (\<lambda>l. R l + entry_refs l (items c'))" "entries_wf (length as') (items c')"
      "layers_geometry as as'" "cap c' = cap (entries pc)"
    using prefix_lru.register_walk_spec [OF prefix_lru_lru [OF assms(1)] assms(3,4,2) b] by blast
  then show ?thesis using False assms(5) by (simp add: pc_register_def Let_def)
qed

theorem register_owns_references_witness:
  "\<exists>pc' as'. pc_register ll_ops (\<lambda>b h. h + 1) (ll_pc []) [9, 9, 4] 0 [[0]] [held_pool] 2 = Some (pc', as')
    \<and> map refs_of as' = [{#0, 0#}]"
proof -
  let ?pc = "ll_pc []"
  have e: "ll_items (entries ?pc) = []" "ll_cap (entries ?pc) = 4" "pc_disabled ?pc = False"
    by (simp_all add: ll_pc_def prefix_cache_new_def)
  obtain pc' as' where r: "pc_register ll_ops (\<lambda>b h. h + 1) ?pc [9, 9, 4] 0 [[0]] [held_pool] 2 = Some (pc', as')"
      "layers_ok as' (\<lambda>l. {#0#} + entry_refs l (ll_items (entries pc')))" "layers_geometry [held_pool] as'"
    using register_owns_references [OF ll.lru_cache_axioms, of ?pc "[held_pool]" "\<lambda>l. {#0#}" 0 "[[0]]" "[9, 9, 4]" 2 "\<lambda>b h. h + 1"]
    by (auto simp: e layers_ok_def held_pool_ok entries_wf_def)
  from r(1) have "ll_items (entries pc') = [(1, \<lparr>pe_block_ids = [0], pe_block_tokens = [9, 9]\<rparr>)]"
    by (auto simp: pc_register_def e full_blocks_def register_one_def ll_ops_def list_push_def Let_def split: option.splits)
  moreover have "length as' = 1" using layers_geometry_length [OF r(3)] by simp
  ultimately show ?thesis
    using r(1,2) by (cases as') (auto simp: layers_ok_def entry_refs_def)
qed

text \<open>Evicting drops the least recently used entry and gives back exactly its references; it answers
  false, and changes nothing, only when the cache is disabled or empty.\<close>

theorem evict_gives_back:
  assumes "lru_cache ops items cap"
    and "layers_ok as (\<lambda>l. R l + entry_refs l (items (entries pc)))" and "entries_wf (length as) (items (entries pc))"
  shows "\<exists>pc' as' found. pc_evict_lru ops pc as = Some (pc', as', found)
    \<and> layers_ok as' (\<lambda>l. R l + entry_refs l (items (entries pc')))
    \<and> list_all2 (\<lambda>a a'. num_free a \<le> num_free a') as as'
    \<and> (if found then length (items (entries pc)) = Suc (length (items (entries pc')))
       else as' = as \<and> items (entries pc') = items (entries pc) \<and> (pc_disabled pc \<or> items (entries pc) = []))"
  using prefix_lru.evict_spec [OF prefix_lru_lru [OF assms(1)] assms(2,3)] by blast

theorem evict_gives_back_witness:
  "\<exists>pc' as'. pc_evict_lru ll_ops (ll_pc [(1, \<lparr>pe_block_ids = [0], pe_block_tokens = [9, 9]\<rparr>)]) [held_pool] = Some (pc', as', True)
    \<and> ll_items (entries pc') = [] \<and> map refs_of as' = [{#}]"
proof -
  let ?pc = "ll_pc [(1, \<lparr>pe_block_ids = [0], pe_block_tokens = [9, 9]\<rparr>)]"
  have e: "ll_items (entries ?pc) = [(1, \<lparr>pe_block_ids = [0], pe_block_tokens = [9, 9]\<rparr>)]" "pc_disabled ?pc = False"
    by (simp_all add: ll_pc_def prefix_cache_new_def list_push_def)
  obtain pc' as' found where r: "pc_evict_lru ll_ops ?pc [held_pool] = Some (pc', as', found)"
      "layers_ok as' (\<lambda>l. {#} + entry_refs l (ll_items (entries pc')))"
      "list_all2 (\<lambda>a a'. num_free a \<le> num_free a') [held_pool] as'"
      "if found then length (ll_items (entries ?pc)) = Suc (length (ll_items (entries pc')))
       else as' = [held_pool] \<and> ll_items (entries pc') = ll_items (entries ?pc) \<and> (pc_disabled ?pc \<or> ll_items (entries ?pc) = [])"
    using evict_gives_back [OF ll.lru_cache_axioms, of "[held_pool]" "\<lambda>l. {#}" ?pc]
    by (auto simp: e layers_ok_def held_pool_ok entries_wf_def entry_refs_def)
  have "found" "ll_items (entries pc') = []" using r(4) e by (auto split: if_splits)
  then show ?thesis using r(1-3) by (cases as') (auto simp: layers_ok_def entry_refs_def)
qed

section \<open>What a hit hands out\<close>

text \<open>C5. Reuse is sound as long as no two prefixes in play that end in the same block share a chain hash:
  if every entry holds the keys and values of a prefix its hash and tokens name, then the blocks
  a lookup hands out are those of the prompt's own prefixes, one after the other.\<close>

theorem lookup_sound:
  assumes "lru_cache ops items cap" and "entries_sound hash S holds (items (entries pc))" and "no_collision hash S"
    and "\<forall>i < length tokens div bs. take (Suc i) (full_blocks bs tokens) \<in> S"
    and "pc_lookup ops hash pc tokens bs = (pc', n, ids)"
  shows "\<forall>i < n. holds (ids ! i) (take (Suc i) (full_blocks bs tokens))"
proof (cases "pc_disabled pc")
  case True
  then show ?thesis using assms(5) by (simp add: pc_lookup_def)
next
  case False
  then obtain c where w: "lookup_walk ops hash (entries pc) (chain hash []) (full_blocks bs tokens) = (c, ids)" "n = length ids"
    using assms(5) by (auto simp: pc_lookup_def chain_def split: prod.splits)
  have "\<forall>i < length (full_blocks bs tokens). [] @ take (Suc i) (full_blocks bs tokens) \<in> S" using assms(4) by simp
  from prefix_lru.lookup_walk_sound [OF prefix_lru_lru [OF assms(1)] assms(2,3) this w(1)] show ?thesis
    by (simp add: w(2))
qed

theorem lookup_sound_witness:
  "\<exists>pc'. pc_lookup ll_ops (\<lambda>b h. h + 1) (ll_pc [(1, \<lparr>pe_block_ids = [0], pe_block_tokens = [9, 9]\<rparr>)]) [9, 9, 4] 2 = (pc', 1, [[0]])
    \<and> (\<forall>i < 1. (\<lambda>ids P. ids = [0 :: nat] \<and> P = [[9, 9]]) ([[0]] ! i) (take (Suc i) (full_blocks 2 [9, 9, 4])))"
proof -
  let ?e = "[(1, \<lparr>pe_block_ids = [0], pe_block_tokens = [9, 9]\<rparr>)]"
  let ?holds = "\<lambda>ids P. ids = [0] \<and> P = [[9, 9 :: u32]]"
  obtain pc' where l: "pc_lookup ll_ops (\<lambda>b h. h + 1) (ll_pc ?e) [9, 9, 4] 2 = (pc', 1, [[0]])"
    by (simp add: pc_lookup_def ll_pc_def prefix_cache_new_def full_blocks_def ll_ops_def list_push_def Let_def)
  have i: "ll_items (entries (ll_pc ?e)) = ?e" by (simp add: ll_pc_def list_push_def)
  have s: "entries_sound (\<lambda>b h. h + 1) {[[9, 9]]} ?holds (ll_items (entries (ll_pc ?e)))"
    unfolding i by (auto simp: entries_sound_def entry_sound_def chain_def)
  have n: "no_collision (\<lambda>b h. h + 1) {[[9, 9]]}" by (simp add: no_collision_def)
  have p: "\<forall>i < length [9, 9, 4 :: u32] div 2. take (Suc i) (full_blocks 2 [9, 9, 4 :: u32]) \<in> {[[9, 9]]}"
    by (simp add: full_blocks_def)
  from lookup_sound [OF ll.lru_cache_axioms s n p l] show ?thesis
    by (intro exI [of _ pc'] conjI l)
qed

text \<open>C6. Registering keeps that soundness: the new entries of a prompt hold its prefixes, whatever the LRU
  pushes out.\<close>

theorem register_sound:
  assumes "lru_cache ops items cap" and "0 < cap (entries pc)" and "entries_sound hash S holds (items (entries pc))"
    and "\<forall>i < length new_ids. take (Suc (start + i)) (full_blocks bs tokens) \<in> S
      \<and> holds (new_ids ! i) (take (Suc (start + i)) (full_blocks bs tokens))"
    and "pc_register ops hash pc tokens start new_ids as bs = Some (pc', as')"
  shows "entries_sound hash S holds (items (entries pc'))"
proof (cases "pc_disabled pc \<or> (\<exists>ids \<in> set new_ids. length ids \<noteq> length as)")
  case True
  then show ?thesis using assms(3,5) by (auto simp: pc_register_def split: if_splits)
next
  case False
  let ?B = "full_blocks bs tokens" and ?bids = "zip (drop start (full_blocks bs tokens)) new_ids"
  have len: "start + length new_ids \<le> length ?B" using assms(5) False by (auto simp: pc_register_def split: if_splits)
  obtain c' where w: "register_walk ops hash (entries pc) as (chain hash (take start ?B)) ?bids = Some (c', as')"
      "pc' = pc\<lparr>entries := c'\<rparr>"
    using assms(5) False len by (auto simp: pc_register_def Let_def chain_def)
  have pre: "take start ?B @ map fst (take (Suc i) ?bids) = take (Suc (start + i)) ?B" if "i < length ?bids" for i
  proof -
    have "map fst (take (Suc i) ?bids) = take (Suc i) (drop start ?B)"
      using that len by (simp add: take_zip map_fst_zip_take)
    then show ?thesis by (simp add: take_add flip: add_Suc_right)
  qed
  have "\<forall>i < length ?bids. take start ?B @ map fst (take (Suc i) ?bids) \<in> S"
    "\<forall>i < length ?bids. holds (snd (?bids ! i)) (take start ?B @ map fst (take (Suc i) ?bids))"
    using assms(4) by (auto simp: pre)
  from prefix_lru.register_walk_sound [OF prefix_lru_lru [OF assms(1)] assms(3,2) this w(1)] show ?thesis
    by (simp add: w(2))
qed

theorem register_sound_witness:
  "\<exists>pc' as'. pc_register ll_ops (\<lambda>b h. h + 1) (ll_pc []) [9, 9, 4] 0 [[0]] [held_pool] 2 = Some (pc', as')
    \<and> entries_sound (\<lambda>b h. h + 1) {[[9, 9]]} (\<lambda>ids P. ids = [0] \<and> P = [[9, 9]]) (ll_items (entries pc'))"
proof -
  let ?holds = "\<lambda>ids P. ids = [0] \<and> P = [[9, 9 :: u32]]"
  have e: "ll_items (entries (ll_pc [])) = []" "ll_cap (entries (ll_pc [])) = 4" by (simp_all add: ll_pc_def prefix_cache_new_def)
  obtain pc' as' where r: "pc_register ll_ops (\<lambda>b h. h + 1) (ll_pc []) [9, 9, 4] 0 [[0]] [held_pool] 2 = Some (pc', as')"
    by (simp add: pc_register_def ll_pc_def prefix_cache_new_def full_blocks_def register_one_def ll_ops_def list_push_def
        share_def held_pool_def grown_pool_def Let_def)
  have "0 < ll_cap (entries (ll_pc []))" by (simp add: e)
  moreover have "entries_sound (\<lambda>b h. h + 1) {[[9, 9]]} ?holds (ll_items (entries (ll_pc [])))" by (simp add: e entries_sound_def)
  moreover have "\<forall>i < length [[0]]. take (Suc (0 + i)) (full_blocks 2 [9, 9, 4 :: u32]) \<in> {[[9, 9]]}
      \<and> ?holds ([[0]] ! i) (take (Suc (0 + i)) (full_blocks 2 [9, 9, 4 :: u32]))"
    by (simp add: full_blocks_def)
  ultimately have "entries_sound (\<lambda>b h. h + 1) {[[9, 9]]} ?holds (ll_items (entries pc'))"
    by (rule register_sound [OF ll.lru_cache_axioms _ _ _ r])
  then show ?thesis by (intro exI [of _ pc'] exI [of _ as'] conjI r)
qed

text \<open>The tokens kept in an entry do not reject every collision: they are those of the last block
  only.  With a chain hash under which the prompts [1, 9] and [2, 9] (blocks of one token) collide at their
  second block, the cache that has seen the first prompt and [2] serves the second one the block
  that holds the 9 of the first.\<close>

theorem collision_serves_wrong_block:
  "let hash = (\<lambda>b h. if b = [9] then 5 else hd (map ucast b)) :: chain_hash;
       seen = ll_pc [(1, \<lparr>pe_block_ids = [10], pe_block_tokens = [1]\<rparr>), (5, \<lparr>pe_block_ids = [11], pe_block_tokens = [9]\<rparr>),
                     (2, \<lparr>pe_block_ids = [20], pe_block_tokens = [2]\<rparr>)];
       holds = (\<lambda>ids P. (ids, P) \<in> {([10], [[1]]), ([11], [[1], [9]]), ([20], [[2]])})
   in entries_sound hash UNIV holds (ll_items (entries seen))
      \<and> snd (pc_lookup ll_ops hash seen [2, 9] 1) = (2, [[20], [11]])
      \<and> \<not> holds [11] [[2], [9]]"
proof -
  have i: "ll_items (entries (ll_pc [(1, \<lparr>pe_block_ids = [10], pe_block_tokens = [1]\<rparr>), (5, \<lparr>pe_block_ids = [11], pe_block_tokens = [9]\<rparr>),
      (2, \<lparr>pe_block_ids = [20], pe_block_tokens = [2]\<rparr>)]))
    = [(2, \<lparr>pe_block_ids = [20], pe_block_tokens = [2]\<rparr>), (5, \<lparr>pe_block_ids = [11], pe_block_tokens = [9]\<rparr>),
       (1, \<lparr>pe_block_ids = [10], pe_block_tokens = [1]\<rparr>)]"
    by (simp add: ll_pc_def list_push_def)
  show ?thesis
    unfolding Let_def
    by (auto simp: i entries_sound_def entry_sound_def chain_def pc_lookup_def full_blocks_def ll_ops_def list_get_def without_def upt_rec
      ll_pc_def prefix_cache_new_def list_push_def)
qed

end
