(* ===== verification/Pool_Storage.thy ===== *)
theory Pool_Storage
  imports Paged_Cache
begin

text \<open>
  The storage side of \<open>src/common/paged.rs\<close>: writing tokens into the block pool, staged or
  not, and gathering them back.  Tensors are the candle library's and stay values of a type
  \<open>'t\<close>; the operations the source calls on them are the fields of a record, each \<open>None\<close>
  where candle returns an error.  A tensor written in place (\<open>slice_set\<close>) is replaced by
  the written one.  The arithmetic of the KV quantizer on 32-bit floats is a second record.
\<close>

section \<open>Tensors and the quantizer\<close>

record ('t, 'f) tensor_ops =
  t_zeros :: "nat list \<Rightarrow> 't option"
  t_dim :: "'t \<Rightarrow> nat \<Rightarrow> nat option"
  t_dims4 :: "'t \<Rightarrow> (nat \<times> nat \<times> nat \<times> nat) option"
  t_narrow :: "'t \<Rightarrow> nat \<Rightarrow> nat \<Rightarrow> nat \<Rightarrow> 't option"
  t_slice_set :: "'t \<Rightarrow> 't \<Rightarrow> nat \<Rightarrow> nat \<Rightarrow> 't option"
  t_index_select :: "'t \<Rightarrow> nat list \<Rightarrow> nat \<Rightarrow> 't option"
  t_cat :: "'t list \<Rightarrow> nat \<Rightarrow> 't option"
  t_squeeze :: "'t \<Rightarrow> nat \<Rightarrow> 't option"
  t_unsqueeze :: "'t \<Rightarrow> nat \<Rightarrow> 't option"
  t_transpose :: "'t \<Rightarrow> nat \<Rightarrow> nat \<Rightarrow> 't option"
  t_contiguous :: "'t \<Rightarrow> 't option"
  t_copy :: "'t \<Rightarrow> 't option"
  t_is_contiguous :: "'t \<Rightarrow> bool"
  t_to_floats :: "'t \<Rightarrow> 'f list option"
  t_from_floats :: "'f list \<Rightarrow> nat list \<Rightarrow> 't option"

record 'f quant_ops =
  quantize_key :: "kv_quantizer \<Rightarrow> 'f list \<Rightarrow> u8 list \<times> 'f \<times> 'f"
  quantize_value :: "kv_quantizer \<Rightarrow> 'f list \<Rightarrow> u8 list \<times> 'f"
  dequantize_key :: "kv_quantizer \<Rightarrow> u8 list \<Rightarrow> 'f \<Rightarrow> 'f \<Rightarrow> 'f list"
  dequantize_value :: "kv_quantizer \<Rightarrow> u8 list \<Rightarrow> 'f \<Rightarrow> 'f list"

text \<open>\<open>xs[i..i + n]\<close>, \<open>xs[i..i + n].copy_from_slice(ys)\<close> and \<open>xs[i] = y\<close>, with their panics.\<close>

definition get_slice :: "'a list \<Rightarrow> nat \<Rightarrow> nat \<Rightarrow> 'a list option" where
  "get_slice xs i n = (if i + n \<le> length xs then Some (take n (drop i xs)) else None)"

definition put_slice :: "'a list \<Rightarrow> nat \<Rightarrow> nat \<Rightarrow> 'a list \<Rightarrow> 'a list option" where
  "put_slice xs i n ys =
     (if i + n \<le> length xs \<and> length ys = n then Some (take i xs @ ys @ drop (i + n) xs) else None)"

definition put_at :: "'a list \<Rightarrow> nat \<Rightarrow> 'a \<Rightarrow> 'a list option" where
  "put_at xs i y = (if i < length xs then Some (xs[i := y]) else None)"

fun fold_opt :: "('a \<Rightarrow> 'b \<Rightarrow> 'a option) \<Rightarrow> 'a \<Rightarrow> 'b list \<Rightarrow> 'a option" where
  "fold_opt f s [] = Some s"
| "fold_opt f s (x # xs) = (case f s x of None \<Rightarrow> None | Some s' \<Rightarrow> fold_opt f s' xs)"

text \<open>The nested loops over tokens and heads, in order.\<close>

definition token_heads :: "nat \<Rightarrow> nat \<Rightarrow> (nat \<times> nat) list" where
  "token_heads n nkv = List.product [0 ..< n] [0 ..< nkv]"

section \<open>Writing\<close>

lemma segment_room: "0 < s \<Longrightarrow> d < d + s - x mod s" for d s x :: nat
  using mod_less_divisor [of s x] by linarith

text \<open>The copy loop of \<open>write\<close> on a full-precision pool, split at segment boundaries.\<close>

function write_segments ::
    "('t, 'f) tensor_ops \<Rightarrow> nat \<Rightarrow> nat \<Rightarrow> 't \<Rightarrow> 't \<Rightarrow> nat \<Rightarrow> nat \<Rightarrow> 't list \<Rightarrow> 't list \<Rightarrow>
     't list \<times> 't list \<times> (err + unit)" where
  "write_segments T segment_slots start data_k data_v ntok don ks vs =
     (if don < ntok then
        if segment_slots = 0 then (ks, vs, Inl Panic)
        else
          let slot = start + don;
              segment = slot div segment_slots;
              loc = slot mod segment_slots;
              n = min (ntok - don) (segment_slots - loc)
          in if length ks \<le> segment then (ks, vs, Inl Panic)
             else
               (case t_narrow T data_k 0 don n of
                  None \<Rightarrow> (ks, vs, Inl Tensor_failed)
                | Some sk \<Rightarrow>
                    (case t_slice_set T (ks ! segment) sk 0 loc of
                       None \<Rightarrow> (ks, vs, Inl Tensor_failed)
                     | Some k' \<Rightarrow>
                         let ks' = ks[segment := k']
                         in if length vs \<le> segment then (ks', vs, Inl Panic)
                            else
                              (case t_narrow T data_v 0 don n of
                                 None \<Rightarrow> (ks', vs, Inl Tensor_failed)
                               | Some sv \<Rightarrow>
                                   (case t_slice_set T (vs ! segment) sv 0 loc of
                                      None \<Rightarrow> (ks', vs, Inl Tensor_failed)
                                    | Some v' \<Rightarrow>
                                        write_segments T segment_slots start data_k data_v ntok
                                          (don + n) ks' (vs[segment := v'])))))
      else (ks, vs, Inr ()))"
  by pat_completeness auto
termination
  by (relation "measure (\<lambda>(_, _, _, _, _, ntok, don, _). ntok - don)")
    (auto simp: min_def segment_room intro!: diff_less_mono2)

declare write_segments.simps [simp del]

text \<open>One head of one token of \<open>write\<close> on a quantized pool.\<close>

definition write_head ::
    "'f quant_ops \<Rightarrow> nat \<Rightarrow> nat \<Rightarrow> nat \<Rightarrow> 'f list \<Rightarrow> 'f list \<Rightarrow> 'f quant_store \<Rightarrow> nat \<times> nat \<Rightarrow>
     'f quant_store option" where
  "write_head Q nkv hdim start k_vec v_vec s th =
     (let (t, h) = th;
          q = quantizer s;
          key_bph = key_packed_bytes q;
          value_bph = value_packed_bytes q;
          slot = start + t;
          src = (t * nkv + h) * hdim;
          key_byte_dst = slot * nkv * key_bph + h * key_bph;
          value_byte_dst = slot * nkv * value_bph + h * value_bph;
          norm_dst = slot * nkv + h
      in case get_slice k_vec src hdim of
           None \<Rightarrow> None
         | Some kh \<Rightarrow>
             let (pk, nk, rk) = quantize_key Q q kh
             in (case (put_slice (packed_k s) key_byte_dst key_bph pk,
                       put_at (norms_k s) norm_dst nk,
                       (case residual_norms_k s of
                          None \<Rightarrow> Some None
                        | Some r \<Rightarrow> map_option Some (put_at r norm_dst rk))) of
                   (Some pks, Some nks, Some rks) \<Rightarrow>
                     (case get_slice v_vec src hdim of
                        None \<Rightarrow> None
                      | Some vh \<Rightarrow>
                          let (pv, nv) = quantize_value Q q vh
                          in (case (put_slice (packed_v s) value_byte_dst value_bph pv,
                                    put_at (norms_v s) norm_dst nv) of
                                (Some pvs, Some nvs) \<Rightarrow>
                                  Some (s\<lparr>packed_k := pks, norms_k := nks, residual_norms_k := rks,
                                          packed_v := pvs, norms_v := nvs\<rparr>)
                              | _ \<Rightarrow> None))
                 | _ \<Rightarrow> None))"

definition pool_write ::
    "('t, 'f) tensor_ops \<Rightarrow> 'f quant_ops \<Rightarrow> ('t, 'f) block_allocator \<Rightarrow> nat \<Rightarrow> nat \<Rightarrow> 't \<Rightarrow> 't \<Rightarrow>
     ('t, 'f) block_allocator \<times> (err + unit)" where
  "pool_write T Q a block_id offset data_k data_v =
     (let start = block_id * block_size a + offset
      in case t_dim T data_k 0 of
           None \<Rightarrow> (a, Inl Tensor_failed)
         | Some ntok \<Rightarrow>
             (case pool a of
                Full ks vs \<Rightarrow>
                  let (ks', vs', r) = write_segments T (segment_blocks a * block_size a) start
                                        data_k data_v ntok 0 ks vs
                  in (a\<lparr>pool := Full ks' vs'\<rparr>, r)
              | Quantized s \<Rightarrow>
                  (case (t_to_floats T data_k, t_to_floats T data_v) of
                     (Some k_vec, Some v_vec) \<Rightarrow>
                       (case fold_opt (write_head Q (n_kv_heads a) (head_dim a) start k_vec v_vec) s
                               (token_heads ntok (n_kv_heads a)) of
                          None \<Rightarrow> (a, Inl Panic)
                        | Some s' \<Rightarrow> (a\<lparr>pool := Quantized s'\<rparr>, Inr ()))
                   | _ \<Rightarrow> (a, Inl Tensor_failed))))"

record 'f staged_kv =
  st_packed_k :: "u8 list"
  st_norms_k :: "'f list"
  st_residual_norms_k :: "'f list"
  st_packed_v :: "u8 list"
  st_norms_v :: "'f list"

text \<open>\<open>dst[d * w..][..w].copy_from_slice(&src[s * w..][..w])\<close>, the row copy of \<open>write_staged\<close>.\<close>

definition copy_row :: "nat \<Rightarrow> nat \<Rightarrow> nat \<Rightarrow> 'a list \<Rightarrow> 'a list \<Rightarrow> 'a list option" where
  "copy_row w d t src dst =
     (case get_slice src (t * w) w of None \<Rightarrow> None | Some xs \<Rightarrow> put_slice dst (d * w) w xs)"

definition stage_token ::
    "nat \<Rightarrow> nat \<Rightarrow> 'f staged_kv \<Rightarrow> 'f quant_store \<Rightarrow> nat \<Rightarrow> 'f quant_store option" where
  "stage_token nkv start staged s t =
     (let q = quantizer s; slot = start + t
      in case (copy_row (nkv * key_packed_bytes q) slot t (st_packed_k staged) (packed_k s),
               copy_row nkv slot t (st_norms_k staged) (norms_k s),
               (case residual_norms_k s of
                  None \<Rightarrow> Some None
                | Some r \<Rightarrow> map_option Some (copy_row nkv slot t (st_residual_norms_k staged) r)),
               copy_row (nkv * value_packed_bytes q) slot t (st_packed_v staged) (packed_v s),
               copy_row nkv slot t (st_norms_v staged) (norms_v s)) of
           (Some pks, Some nks, Some rks, Some pvs, Some nvs) \<Rightarrow>
             Some (s\<lparr>packed_k := pks, norms_k := nks, residual_norms_k := rks,
                     packed_v := pvs, norms_v := nvs\<rparr>)
         | _ \<Rightarrow> None)"

definition write_staged ::
    "('t, 'f) block_allocator \<Rightarrow> nat \<Rightarrow> nat \<Rightarrow> nat \<Rightarrow> 'f staged_kv \<Rightarrow> ('t, 'f) block_allocator option" where
  "write_staged a block_id offset n staged =
     (case pool a of
        Full _ _ \<Rightarrow> Some a
      | Quantized s \<Rightarrow>
          map_option (\<lambda>s'. a\<lparr>pool := Quantized s'\<rparr>)
            (fold_opt (stage_token (n_kv_heads a) (block_id * block_size a + offset) staged) s [0 ..< n]))"

section \<open>Reading\<close>

text \<open>
  A pool of several segments: every segment gives the rows asked of it in one piece, \<open>order\<close>
  remembers where they belong, and the inverse permutation puts them back.
\<close>

definition segment_picks :: "nat \<Rightarrow> nat list \<Rightarrow> nat \<Rightarrow> (nat \<times> nat) list" where
  "segment_picks per_segment slots segment =
     filter (\<lambda>(position, slot). slot div per_segment = segment) (enumerate 0 slots)"

fun gather_segments ::
    "('t, 'f) tensor_ops \<Rightarrow> nat \<Rightarrow> nat list \<Rightarrow> nat \<Rightarrow> ('t \<times> 't) list \<Rightarrow>
     (nat list \<times> 't list \<times> 't list) option" where
  "gather_segments T per_segment slots segment [] = Some ([], [], [])"
| "gather_segments T per_segment slots segment ((sk, sv) # rest) =
     (let picks = segment_picks per_segment slots segment;
          loc = map (\<lambda>(_, slot). slot mod per_segment) picks
      in if loc = []
         then gather_segments T per_segment slots (Suc segment) rest
         else
           (case (t_index_select T sk loc 0, t_index_select T sv loc 0) of
              (Some k, Some v) \<Rightarrow>
                map_option (\<lambda>(order, ks, vs). (map fst picks @ order, k # ks, v # vs))
                  (gather_segments T per_segment slots (Suc segment) rest)
            | _ \<Rightarrow> None))"

definition inverse_order :: "nat list \<Rightarrow> nat list option" where
  "inverse_order order =
     fold_opt (\<lambda>back (j, position). put_at back position j) (replicate (length order) 0)
       (enumerate 0 order)"

text \<open>\<open>[tokens, heads, dim]\<close> to \<open>[1, heads, tokens, dim]\<close>.\<close>

definition heads_first :: "('t, 'f) tensor_ops \<Rightarrow> 't \<Rightarrow> 't option" where
  "heads_first T x = (case t_transpose T x 0 1 of None \<Rightarrow> None | Some y \<Rightarrow> t_unsqueeze T y 0)"

definition gather_full ::
    "('t, 'f) tensor_ops \<Rightarrow> nat \<Rightarrow> 't list \<Rightarrow> 't list \<Rightarrow> nat list \<Rightarrow> err + ('t \<times> 't)" where
  "gather_full T per_segment ks vs slots =
     (let picked =
        (if length ks = 1
         then (case t_index_select T (ks ! 0) slots 0 of
                 None \<Rightarrow> Inl Tensor_failed
               | Some k \<Rightarrow>
                   if vs = [] then Inl Panic
                   else (case t_index_select T (vs ! 0) slots 0 of
                           None \<Rightarrow> Inl Tensor_failed
                         | Some v \<Rightarrow> Inr (k, v)))
         else if per_segment = 0 \<and> ks \<noteq> [] \<and> vs \<noteq> [] \<and> slots \<noteq> [] then Inl Panic
         else
           (case gather_segments T per_segment slots 0 (zip ks vs) of
              None \<Rightarrow> Inl Tensor_failed
            | Some (order, gk, gv) \<Rightarrow>
                (case inverse_order order of
                   None \<Rightarrow> Inl Panic
                 | Some back \<Rightarrow>
                     (case (t_cat T gk 0, t_cat T gv 0) of
                        (Some ck, Some cv) \<Rightarrow>
                          (case (t_index_select T ck back 0, t_index_select T cv back 0) of
                             (Some k, Some v) \<Rightarrow> Inr (k, v)
                           | _ \<Rightarrow> Inl Tensor_failed)
                      | _ \<Rightarrow> Inl Tensor_failed))))
      in case picked of
           Inl e \<Rightarrow> Inl e
         | Inr (k, v) \<Rightarrow>
             (case (heads_first T k, heads_first T v) of
                (Some k', Some v') \<Rightarrow> Inr (k', v')
              | _ \<Rightarrow> Inl Tensor_failed))"

text \<open>One head of one token of a quantized pool.\<close>

definition read_head ::
    "'f quant_ops \<Rightarrow> 'f \<Rightarrow> nat \<Rightarrow> nat \<Rightarrow> 'f quant_store \<Rightarrow> nat list \<Rightarrow>
     'f list \<times> 'f list \<Rightarrow> nat \<times> nat \<Rightarrow> ('f list \<times> 'f list) option" where
  "read_head Q fzero nkv hdim s slots kv th =
     (let (k_data, v_data) = kv;
          (t, h) = th;
          q = quantizer s;
          key_bph = key_packed_bytes q;
          value_bph = value_packed_bytes q;
          slot = slots ! t;
          norm_src = slot * nkv + h;
          dst = (t * nkv + h) * hdim
      in case (get_slice (packed_k s) (slot * nkv * key_bph + h * key_bph) key_bph,
               nth_opt (norms_k s) norm_src,
               (case residual_norms_k s of None \<Rightarrow> Some fzero | Some r \<Rightarrow> nth_opt r norm_src),
               get_slice (packed_v s) (slot * nkv * value_bph + h * value_bph) value_bph,
               nth_opt (norms_v s) norm_src) of
           (Some pk, Some nk, Some rk, Some pv, Some nv) \<Rightarrow>
             (case (put_slice k_data dst hdim (dequantize_key Q q pk nk rk),
                    put_slice v_data dst hdim (dequantize_value Q q pv nv)) of
                (Some k', Some v') \<Rightarrow> Some (k', v')
              | _ \<Rightarrow> None)
         | _ \<Rightarrow> None)"

definition gather ::
    "('t, 'f) tensor_ops \<Rightarrow> 'f quant_ops \<Rightarrow> 'f \<Rightarrow> ('t, 'f) block_allocator \<Rightarrow> nat list \<Rightarrow>
     err + ('t \<times> 't)" where
  "gather T Q fzero a slots =
     (case pool a of
        Full ks vs \<Rightarrow> gather_full T (segment_blocks a * block_size a) ks vs slots
      | Quantized s \<Rightarrow>
          let nkv = n_kv_heads a;
              hdim = head_dim a;
              size = length slots * nkv * hdim
          in (case fold_opt (read_head Q fzero nkv hdim s slots) (replicate size fzero, replicate size fzero)
                     (token_heads (length slots) nkv) of
                None \<Rightarrow> Inl Panic
              | Some (k_data, v_data) \<Rightarrow>
                  (case (t_from_floats T k_data [length slots, nkv, hdim],
                         t_from_floats T v_data [length slots, nkv, hdim]) of
                     (Some k, Some v) \<Rightarrow>
                       (case (heads_first T k, heads_first T v) of
                          (Some k', Some v') \<Rightarrow> Inr (k', v')
                        | _ \<Rightarrow> Inl Tensor_failed)
                   | _ \<Rightarrow> Inl Tensor_failed)))"

end
