(* ===== verification/Cache_Append.thy ===== *)
theory Cache_Append
  imports Pool_Storage
begin

text \<open>
  The cache of one layer at work (\<open>PagedKvCache\<close> of \<open>src/common/paged.rs\<close>): appending
  tokens, the view the attention kernels read, materialising the staged pool writes and
  rolling back.  Each operation takes the byte budgets, the layer's allocator and the cache
  and returns them as the call leaves them, on its error paths too.
\<close>

section \<open>The contiguous buffer\<close>

definition window_keep_margin :: nat where
  "window_keep_margin = 16"

definition acquire_contig ::
    "('t, 'f) tensor_ops \<Rightarrow> budgets \<Rightarrow> ('t, 'f) block_allocator \<Rightarrow> 't paged_cache \<Rightarrow> nat \<Rightarrow>
     budgets \<times> ('t, 'f) block_allocator \<times> (err + ('t \<times> 't \<times> nat))" where
  "acquire_contig T B a c needed =
     (case take_contig_buffer B a needed of
        (B', a', Some t) \<Rightarrow>
          (B', a', if snd (snd t) < needed then Inl Panic else Inr t)
      | (B', a', None) \<Rightarrow>
          let capacity = contig_buf_capacity needed;
              shape = [1, c_n_kv c, capacity, c_head_dim c]
          in (B', a', case t_zeros T shape of
                        None \<Rightarrow> Inl Tensor_failed
                      | Some k \<Rightarrow>
                          (case t_zeros T shape of
                             None \<Rightarrow> Inl Tensor_failed
                           | Some v \<Rightarrow> Inr (k, v, capacity))))"

definition release_contig ::
    "budgets \<Rightarrow> ('t, 'f) block_allocator \<Rightarrow> 't \<Rightarrow> 't \<Rightarrow> nat \<Rightarrow> budgets \<times> ('t, 'f) block_allocator" where
  "release_contig B a k v capacity = release_contig_buffer B a k v capacity"

definition current_kv :: "('t, 'f) tensor_ops \<Rightarrow> 't paged_cache \<Rightarrow> err + ('t \<times> 't)" where
  "current_kv T c =
     (case (contig_k c, contig_v c) of
        (Some k, Some v) \<Rightarrow>
          if 0 < contig_len c then
            (case (t_narrow T k 2 (contig_start c) (contig_len c),
                   t_narrow T v 2 (contig_start c) (contig_len c)) of
               (Some k', Some v') \<Rightarrow> Inr (k', v')
             | _ \<Rightarrow> Inl Tensor_failed)
          else Inl Cache_empty
      | _ \<Rightarrow> Inl Cache_empty)"

section \<open>Taking blocks and slots\<close>

text \<open>A run that continues the last one, in the pool and in the source, extends it.\<close>

definition stage_run :: "pending_run list \<Rightarrow> nat \<Rightarrow> nat \<Rightarrow> nat \<Rightarrow> pending_run list" where
  "stage_run rs dst written n =
     (if rs \<noteq> [] \<and> dst_slot (last rs) + n_tokens (last rs) = dst
         \<and> src_offset (last rs) + n_tokens (last rs) = written
      then butlast rs @ [(last rs)\<lparr>n_tokens := n_tokens (last rs) + n\<rparr>]
      else rs @ [\<lparr>dst_slot = dst, src_offset = written, n_tokens = n\<rparr>])"

text \<open>The loop of \<open>append\<close>: at a block boundary it takes a new block, otherwise it fills the last.\<close>

definition next_block ::
    "(nat list \<Rightarrow> 't option) \<Rightarrow> 'f \<Rightarrow> ('t, 'f) block_allocator \<Rightarrow> 't paged_cache \<Rightarrow>
     ('t, 'f) block_allocator \<times> 't paged_cache \<times> (err + nat)" where
  "next_block zeros fzero a c =
     (let (a1, c1, r) =
        (if num_tokens (table c) mod c_block_size c = 0
         then (case allocate zeros fzero a of
                 (a', Inl e) \<Rightarrow> (a', c, Inl e)
               | (a', Inr bid) \<Rightarrow>
                   (a', c\<lparr>table := (table c)\<lparr>block_ids := block_ids (table c) @ [bid]\<rparr>\<rparr>, Inr ()))
         else (a, c, Inr ()))
      in case r of
           Inl e \<Rightarrow> (a1, c1, Inl e)
         | Inr _ \<Rightarrow>
             (a1, c1, if block_ids (table c1) = [] then Inl Panic else Inr (last (block_ids (table c1)))))"

function fill_blocks ::
    "(nat list \<Rightarrow> 't option) \<Rightarrow> 'f \<Rightarrow> nat \<Rightarrow> nat \<Rightarrow> pending_run list \<Rightarrow>
     ('t, 'f) block_allocator \<Rightarrow> 't paged_cache \<Rightarrow>
     ('t, 'f) block_allocator \<times> 't paged_cache \<times> (err + pending_run list)" where
  "fill_blocks zeros fzero new_seq written rs a c =
     (if written < new_seq then
        if c_block_size c = 0 then (a, c, Inl Panic)
        else
          let bs = c_block_size c;
              current_offset = num_tokens (table c) mod bs;
              n = min (new_seq - written) (bs - current_offset)
          in (case next_block zeros fzero a c of
                (a1, c1, Inl e) \<Rightarrow> (a1, c1, Inl e)
              | (a1, c1, Inr block_id) \<Rightarrow>
                  let rs' = (if pool_writes c1
                             then stage_run rs (block_id * bs + current_offset) written n else rs)
                  in (case slots_of (block_id * bs) current_offset n of
                        None \<Rightarrow> (a1, c1, Inl Panic)
                      | Some slots \<Rightarrow>
                          fill_blocks zeros fzero new_seq (written + n) rs' a1
                            (c1\<lparr>table := (table c1)\<lparr>cached_slots := cached_slots (table c1) @ slots,
                                                   num_tokens := num_tokens (table c1) + n\<rparr>\<rparr>)))
      else (a, c, Inr rs))"
  by pat_completeness auto
termination
  by (relation "measure (\<lambda>(_, _, new_seq, written, _). new_seq - written)")
    (auto simp: min_def segment_room intro!: diff_less_mono2)

declare fill_blocks.simps [simp del]

section \<open>Appending\<close>

text \<open>The \<open>debug_assert!\<close> of \<open>append\<close>.\<close>

definition append_pre :: "'t paged_cache \<Rightarrow> bool" where
  "append_pre c \<longleftrightarrow>
     contig_len c \<le> num_tokens (table c)
     \<and> (contig_len c = 0
        \<or> (case window c of None \<Rightarrow> num_tokens (table c) | Some w \<Rightarrow> min (num_tokens (table c)) w)
            \<le> contig_len c)"

definition window_span :: "nat \<Rightarrow> nat \<Rightarrow> nat" where
  "window_span new_seq w = w + new_seq - 1 + window_keep_margin"

definition live_before :: "'t paged_cache \<Rightarrow> nat \<Rightarrow> nat \<Rightarrow> nat" where
  "live_before c prev_tokens new_seq =
     (if contig_k c \<noteq> None then contig_len c
      else (case window c of None \<Rightarrow> prev_tokens | Some w \<Rightarrow> min prev_tokens (window_span new_seq w)))"

definition keep_of :: "'t paged_cache \<Rightarrow> nat \<Rightarrow> nat \<Rightarrow> nat" where
  "keep_of c live_prev new_seq =
     (case window c of
        None \<Rightarrow> live_prev + new_seq
      | Some w \<Rightarrow> min (live_prev + new_seq) (window_span new_seq w))"

definition detach :: "('t, 'f) tensor_ops \<Rightarrow> 't \<Rightarrow> 't option" where
  "detach T t = (if t_is_contiguous T t then t_copy T t else t_contiguous T t)"

text \<open>\<open>slice_set\<close> on a pair of buffers along the token axis.\<close>

definition set_pair ::
    "('t, 'f) tensor_ops \<Rightarrow> 't \<times> 't \<Rightarrow> 't \<times> 't \<Rightarrow> nat \<Rightarrow> ('t \<times> 't) option" where
  "set_pair T dst src at_pos =
     (case (t_slice_set T (fst dst) (fst src) 2 at_pos, t_slice_set T (snd dst) (snd src) 2 at_pos) of
        (Some k, Some v) \<Rightarrow> Some (k, v)
      | _ \<Rightarrow> None)"

text \<open>The live tail of the old buffers, detached, goes to the front; the new tokens after it.\<close>

definition fold_front ::
    "('t, 'f) tensor_ops \<Rightarrow> 't \<times> 't \<Rightarrow> 't \<times> 't \<Rightarrow> nat \<Rightarrow> nat \<Rightarrow> 't \<times> 't \<Rightarrow> ('t \<times> 't) option" where
  "fold_front T src dst start from_old new_src =
     (case (if 0 < from_old then
              (case (t_narrow T (fst src) 2 start from_old, t_narrow T (snd src) 2 start from_old) of
                 (Some nk, Some nv) \<Rightarrow>
                   (case (detach T nk, detach T nv) of
                      (Some old_k, Some old_v) \<Rightarrow> set_pair T dst (old_k, old_v) 0
                    | _ \<Rightarrow> None)
               | _ \<Rightarrow> None)
            else Some dst) of
        None \<Rightarrow> None
      | Some dst1 \<Rightarrow> set_pair T dst1 new_src from_old)"

text \<open>The buffer does not fit what comes: it is folded onto its own front or into a larger one.\<close>

definition append_move ::
    "('t, 'f) tensor_ops \<Rightarrow> budgets \<Rightarrow> ('t, 'f) block_allocator \<Rightarrow> 't paged_cache \<Rightarrow>
     't \<times> 't \<Rightarrow> nat \<Rightarrow> nat \<Rightarrow> nat \<Rightarrow> 't \<times> 't \<Rightarrow>
     budgets \<times> ('t, 'f) block_allocator \<times> 't paged_cache \<times> (err + unit)" where
  "append_move T B a c buf capacity keep from_old new_src =
     (let start = contig_start c + (contig_len c - from_old);
          settle = (\<lambda>kv. c\<lparr>contig_start := 0, contig_len := keep,
                           contig_k := Some (fst kv), contig_v := Some (snd kv)\<rparr>)
      in if keep \<le> capacity then
           (case fold_front T buf buf start from_old new_src of
              None \<Rightarrow> (B, a, c, Inl Tensor_failed)
            | Some kv \<Rightarrow> (B, a, settle kv, Inr ()))
         else
           (case acquire_contig T B a c keep of
              (B1, a1, Inl e) \<Rightarrow> (B1, a1, c, Inl e)
            | (B1, a1, Inr (nk, nv, ncap)) \<Rightarrow>
                (case fold_front T buf (nk, nv) start from_old new_src of
                   None \<Rightarrow> (B1, a1, c, Inl Tensor_failed)
                 | Some kv \<Rightarrow>
                     let (B2, a2) = release_contig B1 a1 (fst buf) (snd buf) capacity
                     in (B2, a2, settle kv, Inr ()))))"

text \<open>A cache with no buffer: the tokens it still needs are gathered from the pool.\<close>

definition append_fresh ::
    "('t, 'f) tensor_ops \<Rightarrow> 'f quant_ops \<Rightarrow> 'f \<Rightarrow> budgets \<Rightarrow> ('t, 'f) block_allocator \<Rightarrow>
     't paged_cache \<Rightarrow> nat \<Rightarrow> nat \<Rightarrow> nat \<Rightarrow> 't \<times> 't \<Rightarrow>
     budgets \<times> ('t, 'f) block_allocator \<times> 't paged_cache \<times> (err + unit)" where
  "append_fresh T Q fzero B a c prev_tokens keep from_old new_src =
     (case acquire_contig T B a c keep of
        (B1, a1, Inl e) \<Rightarrow> (B1, a1, c, Inl e)
      | (B1, a1, Inr (k_buf, v_buf, _)) \<Rightarrow>
          let filled =
            (if 0 < from_old then
               let m = min from_old prev_tokens
               in if length (cached_slots (table c)) < prev_tokens then Inl Panic
                  else
                    (case gather T Q fzero a1 (take m (drop (prev_tokens - m) (cached_slots (table c)))) of
                       Inl e \<Rightarrow> Inl e
                     | Inr (pk, pv) \<Rightarrow>
                         (case (t_contiguous T pk, t_contiguous T pv) of
                            (Some pk', Some pv') \<Rightarrow>
                              (case set_pair T (k_buf, v_buf) (pk', pv') 0 of
                                 None \<Rightarrow> Inl Tensor_failed
                               | Some kv \<Rightarrow> Inr kv)
                          | _ \<Rightarrow> Inl Tensor_failed))
             else Inr (k_buf, v_buf))
          in (case filled of
                Inl e \<Rightarrow> (B1, a1, c, Inl e)
              | Inr kv1 \<Rightarrow>
                  (case set_pair T kv1 new_src from_old of
                     None \<Rightarrow> (B1, a1, c, Inl Tensor_failed)
                   | Some (k', v') \<Rightarrow>
                       (B1, a1, c\<lparr>contig_start := 0, contig_len := keep,
                                  contig_k := Some k', contig_v := Some v'\<rparr>, Inr ()))))"

text \<open>
  The \<open>match\<close> over the cache's buffers: append in place where the new tokens fit, move
  where they do not, start a buffer where there is none.
\<close>

definition append_contig ::
    "('t, 'f) tensor_ops \<Rightarrow> 'f quant_ops \<Rightarrow> 'f \<Rightarrow> budgets \<Rightarrow> ('t, 'f) block_allocator \<Rightarrow>
     't paged_cache \<Rightarrow> nat \<Rightarrow> nat \<Rightarrow> nat \<Rightarrow> nat \<Rightarrow> 't \<times> 't \<Rightarrow> 't \<times> 't \<Rightarrow>
     budgets \<times> ('t, 'f) block_allocator \<times> 't paged_cache \<times> (err + unit)" where
  "append_contig T Q fzero B a c prev_tokens new_seq keep from_old new_kv new_src =
     (let c0 = c\<lparr>contig_k := None, contig_v := None\<rparr>
      in case (contig_k c, contig_v c) of
           (Some k_buf, Some v_buf) \<Rightarrow>
             (case t_dim T k_buf 2 of
                None \<Rightarrow> (B, a, c0, Inl Tensor_failed)
              | Some capacity \<Rightarrow>
                  if contig_start c + contig_len c + new_seq \<le> capacity
                  then (case set_pair T (k_buf, v_buf) new_kv (contig_start c + contig_len c) of
                          None \<Rightarrow> (B, a, c0, Inl Tensor_failed)
                        | Some (k', v') \<Rightarrow>
                            (B, a, c\<lparr>contig_len := contig_len c + new_seq,
                                     contig_k := Some k', contig_v := Some v'\<rparr>, Inr ()))
                  else append_move T B a c0 (k_buf, v_buf) capacity keep from_old new_src)
         | (None, None) \<Rightarrow> append_fresh T Q fzero B a c0 prev_tokens keep from_old new_src
         | _ \<Rightarrow> (B, a, c0, Inl Panic))"

text \<open>The second half of \<open>append\<close>, once the table has the tokens: the buffer follows.\<close>

definition append_buffer ::
    "('t, 'f) tensor_ops \<Rightarrow> 'f quant_ops \<Rightarrow> 'f \<Rightarrow> budgets \<Rightarrow> ('t, 'f) block_allocator \<Rightarrow>
     't paged_cache \<Rightarrow> nat \<Rightarrow> nat \<Rightarrow> 't \<Rightarrow> 't \<Rightarrow>
     budgets \<times> ('t, 'f) block_allocator \<times> 't paged_cache \<times> (err + ('t \<times> 't))" where
  "append_buffer T Q fzero B a c prev_tokens new_seq new_k new_v =
     (if window c = Some 0 \<and> new_seq = 0 then (B, a, c, Inl Panic)
      else
        let live_prev = live_before c prev_tokens new_seq;
            keep = keep_of c live_prev new_seq;
            from_new = min new_seq keep;
            from_old = keep - from_new
        in case (t_narrow T new_k 2 (new_seq - from_new) from_new,
                 t_narrow T new_v 2 (new_seq - from_new) from_new) of
             (Some nk, Some nv) \<Rightarrow>
               (case append_contig T Q fzero B a c prev_tokens new_seq keep from_old (new_k, new_v) (nk, nv) of
                  (B1, a1, c1, Inl e) \<Rightarrow> (B1, a1, c1, Inl e)
                | (B1, a1, c1, Inr _) \<Rightarrow> (B1, a1, c1, current_kv T c1))
           | _ \<Rightarrow> (B, a, c, Inl Tensor_failed))"

text \<open>The part between: blocks and slots for the new tokens, their rows staged, then the buffer.\<close>

definition append_tokens ::
    "('t, 'f) tensor_ops \<Rightarrow> 'f quant_ops \<Rightarrow> 'f \<Rightarrow> budgets \<Rightarrow> ('t, 'f) block_allocator \<Rightarrow>
     't paged_cache \<Rightarrow> nat \<Rightarrow> 't \<times> 't \<Rightarrow> 't \<Rightarrow> 't \<Rightarrow>
     budgets \<times> ('t, 'f) block_allocator \<times> 't paged_cache \<times> (err + ('t \<times> 't))" where
  "append_tokens T Q fzero B a c new_seq flat new_k new_v =
     (if \<not> append_pre c then (B, a, c, Inl Panic)
      else
        let prev_tokens = num_tokens (table c)
        in case fill_blocks (t_zeros T) fzero new_seq 0 [] a c of
             (a1, c1, Inl e) \<Rightarrow> (B, a1, c1, Inl e)
           | (a1, c1, Inr rs) \<Rightarrow>
               if rs = []
               then append_buffer T Q fzero B a1 c1 prev_tokens new_seq new_k new_v
               else
                 (case (t_contiguous T (fst flat), t_contiguous T (snd flat)) of
                    (Some ks, Some vs) \<Rightarrow>
                      append_buffer T Q fzero B a1
                        (c1\<lparr>pending_writes := pending_writes c1 @ [\<lparr>k_src = ks, v_src = vs, runs = rs\<rparr>]\<rparr>)
                        prev_tokens new_seq new_k new_v
                  | _ \<Rightarrow> (B, a1, c1, Inl Tensor_failed)))"

text \<open>\<open>[1, heads, tokens, dim]\<close> to \<open>[tokens, heads, dim]\<close>.\<close>

definition tokens_first :: "('t, 'f) tensor_ops \<Rightarrow> 't \<Rightarrow> 't option" where
  "tokens_first T t = (case t_squeeze T t 0 of None \<Rightarrow> None | Some u \<Rightarrow> t_transpose T u 0 1)"

definition cache_append ::
    "('t, 'f) tensor_ops \<Rightarrow> 'f quant_ops \<Rightarrow> 'f \<Rightarrow> budgets \<Rightarrow> ('t, 'f) block_allocator \<Rightarrow>
     't paged_cache \<Rightarrow> 't \<Rightarrow> 't \<Rightarrow>
     budgets \<times> ('t, 'f) block_allocator \<times> 't paged_cache \<times> (err + ('t \<times> 't))" where
  "cache_append T Q fzero B a c new_k0 new_v0 =
     (case (t_dims4 T new_k0, t_contiguous T new_k0, t_contiguous T new_v0) of
        (Some (_, _, new_seq, _), Some new_k, Some new_v) \<Rightarrow>
          (case (tokens_first T new_k, tokens_first T new_v) of
             (Some k_flat, Some v_flat) \<Rightarrow>
               append_tokens T Q fzero B a c new_seq (k_flat, v_flat) new_k new_v
           | _ \<Rightarrow> (B, a, c, Inl Tensor_failed))
      | _ \<Rightarrow> (B, a, c, Inl Tensor_failed))"

section \<open>Materialising the staged writes\<close>

text \<open>Every staged run with its batch, in order.\<close>

definition staged_runs :: "'t pending_batch list \<Rightarrow> ('t \<times> 't \<times> pending_run) list" where
  "staged_runs batches = concat (map (\<lambda>b. map (\<lambda>r. (k_src b, v_src b, r)) (runs b)) batches)"

fun flush_runs ::
    "('t, 'f) tensor_ops \<Rightarrow> 'f quant_ops \<Rightarrow> nat \<Rightarrow> ('t, 'f) block_allocator \<Rightarrow>
     ('t \<times> 't \<times> pending_run) list \<Rightarrow> ('t, 'f) block_allocator \<times> (err + unit)" where
  "flush_runs T Q bs a [] = (a, Inr ())"
| "flush_runs T Q bs a ((k, v, r) # rest) =
     (case (t_narrow T k 0 (src_offset r) (n_tokens r), t_narrow T v 0 (src_offset r) (n_tokens r)) of
        (Some k', Some v') \<Rightarrow>
          (case pool_write T Q a (dst_slot r div bs) (dst_slot r mod bs) k' v' of
             (a', Inl e) \<Rightarrow> (a', Inl e)
           | (a', Inr _) \<Rightarrow> flush_runs T Q bs a' rest)
      | _ \<Rightarrow> (a, Inl Tensor_failed))"

record flush_item =
  it_block_id :: nat
  it_offset :: nat
  it_n_tokens :: nat

text \<open>The pieces of a quantized flush and where each goes.\<close>

fun flush_parts ::
    "('t, 'f) tensor_ops \<Rightarrow> nat \<Rightarrow> ('t \<times> 't \<times> pending_run) list \<Rightarrow>
     ('t list \<times> 't list \<times> flush_item list) option" where
  "flush_parts T bs [] = Some ([], [], [])"
| "flush_parts T bs ((k, v, r) # rest) =
     (case (t_narrow T k 0 (src_offset r) (n_tokens r), t_narrow T v 0 (src_offset r) (n_tokens r)) of
        (Some k', Some v') \<Rightarrow>
          map_option (\<lambda>(ks, vs, its). (k' # ks, v' # vs,
            \<lparr>it_block_id = dst_slot r div bs, it_offset = dst_slot r mod bs,
             it_n_tokens = n_tokens r\<rparr> # its))
            (flush_parts T bs rest)
      | _ \<Rightarrow> None)"

definition cat_parts :: "('t, 'f) tensor_ops \<Rightarrow> 't list \<Rightarrow> 't option" where
  "cat_parts T ps = (if length ps = 1 then Some (ps ! 0) else t_cat T ps 0)"

text \<open>Quantizing one head of one token into the staging arrays.\<close>

definition stage_head ::
    "'f quant_ops \<Rightarrow> kv_quantizer \<Rightarrow> nat \<Rightarrow> nat \<Rightarrow> 'f list \<Rightarrow> 'f list \<Rightarrow> 'f staged_kv \<Rightarrow> nat \<times> nat \<Rightarrow>
     'f staged_kv option" where
  "stage_head Q q nkv hdim k_vec v_vec st th =
     (let (t, h) = th;
          key_bph = key_packed_bytes q;
          value_bph = value_packed_bytes q;
          row = t * nkv + h
      in case (get_slice k_vec (row * hdim) hdim, get_slice v_vec (row * hdim) hdim) of
           (Some kh, Some vh) \<Rightarrow>
             (let (pk, nk, rk) = quantize_key Q q kh;
                  (pv, nv) = quantize_value Q q vh
              in case (put_slice (st_packed_k st) (row * key_bph) key_bph pk,
                       put_at (st_norms_k st) row nk,
                       (if q_qjl_quantization q then put_at (st_residual_norms_k st) row rk
                        else Some (st_residual_norms_k st)),
                       put_slice (st_packed_v st) (row * value_bph) value_bph pv,
                       put_at (st_norms_v st) row nv) of
                   (Some pks, Some nks, Some rks, Some pvs, Some nvs) \<Rightarrow>
                     Some \<lparr>st_packed_k = pks, st_norms_k = nks, st_residual_norms_k = rks,
                           st_packed_v = pvs, st_norms_v = nvs\<rparr>
                 | _ \<Rightarrow> None)
         | _ \<Rightarrow> None)"

definition staging_new :: "'f \<Rightarrow> kv_quantizer \<Rightarrow> nat \<Rightarrow> 'f staged_kv" where
  "staging_new fzero q rows =
     \<lparr>st_packed_k = replicate (rows * key_packed_bytes q) 0, st_norms_k = replicate rows fzero,
      st_residual_norms_k = (if q_qjl_quantization q then replicate rows fzero else []),
      st_packed_v = replicate (rows * value_packed_bytes q) 0, st_norms_v = replicate rows fzero\<rparr>"

text \<open>The piece of the staging arrays that belongs to tokens \<open>t_off\<close> to \<open>t_end\<close>.\<close>

definition staged_slice ::
    "kv_quantizer \<Rightarrow> nat \<Rightarrow> 'f staged_kv \<Rightarrow> nat \<Rightarrow> nat \<Rightarrow> 'f staged_kv option" where
  "staged_slice q nkv st t_off n =
     (case (get_slice (st_packed_k st) (t_off * nkv * key_packed_bytes q) (n * nkv * key_packed_bytes q),
            get_slice (st_norms_k st) (t_off * nkv) (n * nkv),
            (if q_qjl_quantization q then get_slice (st_residual_norms_k st) (t_off * nkv) (n * nkv)
             else Some []),
            get_slice (st_packed_v st) (t_off * nkv * value_packed_bytes q) (n * nkv * value_packed_bytes q),
            get_slice (st_norms_v st) (t_off * nkv) (n * nkv)) of
        (Some pk, Some nk, Some rk, Some pv, Some nv) \<Rightarrow>
          Some \<lparr>st_packed_k = pk, st_norms_k = nk, st_residual_norms_k = rk,
                st_packed_v = pv, st_norms_v = nv\<rparr>
      | _ \<Rightarrow> None)"

fun flush_items ::
    "kv_quantizer \<Rightarrow> nat \<Rightarrow> 'f staged_kv \<Rightarrow> nat \<Rightarrow> ('t, 'f) block_allocator \<Rightarrow> flush_item list \<Rightarrow>
     ('t, 'f) block_allocator option" where
  "flush_items q nkv st t_off a [] = Some a"
| "flush_items q nkv st t_off a (it # its) =
     (case staged_slice q nkv st t_off (it_n_tokens it) of
        None \<Rightarrow> None
      | Some piece \<Rightarrow>
          (case write_staged a (it_block_id it) (it_offset it) (it_n_tokens it) piece of
             None \<Rightarrow> None
           | Some a' \<Rightarrow> flush_items q nkv st (t_off + it_n_tokens it) a' its))"

definition flush_quantized ::
    "('t, 'f) tensor_ops \<Rightarrow> 'f quant_ops \<Rightarrow> 'f \<Rightarrow> kv_quantizer \<Rightarrow> nat \<Rightarrow> ('t, 'f) block_allocator \<Rightarrow>
     ('t \<times> 't \<times> pending_run) list \<Rightarrow> ('t, 'f) block_allocator \<times> (err + unit)" where
  "flush_quantized T Q fzero q bs a batch_runs =
     (case flush_parts T bs batch_runs of
        None \<Rightarrow> (a, Inl Tensor_failed)
      | Some (k_parts, v_parts, items) \<Rightarrow>
          (case (cat_parts T k_parts, cat_parts T v_parts) of
             (Some k_cat, Some v_cat) \<Rightarrow>
               (case (t_to_floats T k_cat, t_to_floats T v_cat) of
                  (Some k_vec, Some v_vec) \<Rightarrow>
                    (let nkv = n_kv_heads a;
                         total_tokens = sum_list (map it_n_tokens items)
                     in case fold_opt (stage_head Q q nkv (head_dim a) k_vec v_vec)
                               (staging_new fzero q (total_tokens * nkv)) (token_heads total_tokens nkv) of
                          None \<Rightarrow> (a, Inl Panic)
                        | Some st \<Rightarrow>
                            (case flush_items q nkv st 0 a items of
                               None \<Rightarrow> (a, Inl Panic)
                             | Some a' \<Rightarrow> (a', Inr ())))
                | _ \<Rightarrow> (a, Inl Tensor_failed))
           | _ \<Rightarrow> (a, Inl Tensor_failed)))"

definition flush_pending ::
    "('t, 'f) tensor_ops \<Rightarrow> 'f quant_ops \<Rightarrow> 'f \<Rightarrow> ('t, 'f) block_allocator \<Rightarrow> 't paged_cache \<Rightarrow>
     ('t, 'f) block_allocator \<times> 't paged_cache \<times> (err + unit)" where
  "flush_pending T Q fzero a c =
     (if pending_writes c = [] then (a, c, Inr ())
      else
        let batch_runs = staged_runs (pending_writes c);
            c' = c\<lparr>pending_writes := []\<rparr>;
            (a', r) = (case c_quantizer c of
                         None \<Rightarrow> flush_runs T Q (c_block_size c) a batch_runs
                       | Some q \<Rightarrow> flush_quantized T Q fzero q (c_block_size c) a batch_runs)
        in (a', c', r))"

section \<open>Rolling back\<close>

definition truncate_to ::
    "('t, 'f) tensor_ops \<Rightarrow> 'f quant_ops \<Rightarrow> 'f \<Rightarrow> ('t, 'f) block_allocator \<Rightarrow> 't paged_cache \<Rightarrow> nat \<Rightarrow>
     ('t, 'f) block_allocator \<times> 't paged_cache \<times> (err + unit)" where
  "truncate_to T Q fzero a c n =
     (if num_tokens (table c) \<le> n then (a, c, Inr ())
      else
        case flush_pending T Q fzero a c of
          (a1, c1, Inl e) \<Rightarrow> (a1, c1, Inl e)
        | (a1, c1, Inr _) \<Rightarrow>
            if c_block_size c1 = 0 then (a1, c1, Inl Panic)
            else
              let blocks_needed = div_ceil n (c_block_size c1);
                  ids = block_ids (table c1)
              in if blocks_needed < length ids
                 then (case each_id free a1 (drop blocks_needed ids) of
                         None \<Rightarrow> (a1, c1, Inl Panic)
                       | Some a2 \<Rightarrow>
                           (a2, set_num_tokens
                                  (c1\<lparr>table := (table c1)\<lparr>block_ids := take blocks_needed ids\<rparr>\<rparr>) n,
                            Inr ()))
                 else (a1, set_num_tokens c1 n, Inr ()))"

end
