(* ===== verification/Cache_Table.thy ===== *)
theory Cache_Table
  imports Cache_Append
begin

text \<open>
  The block table of a layer's cache under append and roll-back: which slots its tokens have,
  which blocks it references, and which pool rows an append stages.
\<close>

section \<open>The table's invariant\<close>

definition table_ok :: "nat \<Rightarrow> block_table \<Rightarrow> bool" where
  "table_ok bs t \<longleftrightarrow>
     0 < bs \<and> length (cached_slots t) = num_tokens t
     \<and> length (block_ids t) = div_ceil (num_tokens t) bs
     \<and> (\<forall>i < num_tokens t. cached_slots t ! i = block_ids t ! (i div bs) * bs + i mod bs)"

text \<open>Every slot number of the pool is a \<open>u32\<close>.\<close>

definition slots_fit :: "nat \<Rightarrow> ('t, 'f) block_allocator \<Rightarrow> bool" where
  "slots_fit bs a \<longleftrightarrow> max_blocks a * bs \<le> Suc u32_max"

text \<open>The pool slot and source row of each token of a run.\<close>

definition run_pairs :: "pending_run \<Rightarrow> (nat \<times> nat) list" where
  "run_pairs r = map (\<lambda>j. (dst_slot r + j, src_offset r + j)) [0 ..< n_tokens r]"

definition runs_pairs :: "pending_run list \<Rightarrow> (nat \<times> nat) list" where
  "runs_pairs rs = concat (map run_pairs rs)"

lemma runs_pairs_Nil [simp]: "runs_pairs [] = []"
  by (simp add: runs_pairs_def)

lemma upt_shift: "map f [m ..< m + n] = map (\<lambda>j. f (m + j)) [0 ..< n]"
  by (induction n) auto

lemma runs_pairs_stage_run:
  "runs_pairs (stage_run rs dst written n) =
     runs_pairs rs @ map (\<lambda>j. (dst + j, written + j)) [0 ..< n]"
proof (cases "rs \<noteq> [] \<and> dst_slot (last rs) + n_tokens (last rs) = dst
    \<and> src_offset (last rs) + n_tokens (last rs) = written")
  case True
  then obtain ys r where rs: "rs = ys @ [r]" by (metis append_butlast_last_id)
  have "[0 ..< n_tokens r + n] = [0 ..< n_tokens r] @ [n_tokens r ..< n_tokens r + n]"
    using upt_add_eq_append [of 0 "n_tokens r" n] by simp
  then show ?thesis using True
    by (auto simp: rs stage_run_def runs_pairs_def run_pairs_def upt_shift add.assoc)
next
  case False
  then show ?thesis by (auto simp: stage_run_def runs_pairs_def run_pairs_def)
qed

lemma block_position:
  fixes bs num j :: nat
  assumes "j < bs - num mod bs"
  shows "(num + j) div bs = num div bs" and "(num + j) mod bs = num mod bs + j"
proof -
  have b: "0 < bs" "num mod bs + j < bs" using assms by linarith+
  have e: "num + j = (num mod bs + j) + num div bs * bs" by simp
  show "(num + j) div bs = num div bs" unfolding e using b by (subst div_mult_self1) simp_all
  show "(num + j) mod bs = num mod bs + j" unfolding e using b by (subst mod_mult_self1) simp
qed

lemma div_ceil_pos: "0 < n \<Longrightarrow> n \<le> bs - num mod bs \<Longrightarrow> div_ceil (num + n) bs = Suc (num div bs)"
proof -
  assume n: "0 < n" "n \<le> bs - num mod bs"
  then obtain j where j: "n = Suc j" "j < bs - num mod bs" by (cases n) auto
  have p: "(num + j) div bs = num div bs" "(num + j) mod bs = num mod bs + j"
    using block_position [OF j(2)] by simp_all
  have b: "0 < bs" using j(2) by linarith
  show ?thesis
  proof (cases "Suc (num mod bs + j) = bs")
    case True
    then show ?thesis using p b by (auto simp: j(1) div_ceil_def mod_Suc div_Suc)
  next
    case False
    then show ?thesis using p b j(2) by (auto simp: j(1) div_ceil_def mod_Suc div_Suc)
  qed
qed

lemma div_ceil_mod: "0 < bs \<Longrightarrow> div_ceil num bs = (if num mod bs = 0 then num div bs else Suc (num div bs))"
  by (simp add: div_ceil_def)

text \<open>Filling up to the end of a block keeps the table.\<close>

lemma table_ok_extend:
  assumes "table_ok bs t" and "0 < n" and "n \<le> bs - num_tokens t mod bs"
    and "length ids = Suc (num_tokens t div bs)"
    and "\<And>i. i < length (block_ids t) \<Longrightarrow> ids ! i = block_ids t ! i"
  shows "table_ok bs (t\<lparr>block_ids := ids,
      cached_slots := cached_slots t @
        map (\<lambda>off. ids ! (num_tokens t div bs) * bs + off) [num_tokens t mod bs ..< num_tokens t mod bs + n],
      num_tokens := num_tokens t + n\<rparr>)"
proof -
  let ?q = "num_tokens t div bs" and ?o = "num_tokens t mod bs"
  have old: "i div bs < length (block_ids t)" if "i < num_tokens t" for i
  proof -
    have "num_tokens t \<le> length (block_ids t) * bs"
      using assms(1) div_ceil_bounds(1) [of bs "num_tokens t"] by (auto simp: table_ok_def)
    then show ?thesis using that assms(1) by (simp add: less_mult_imp_div_less table_ok_def)
  qed
  have "(cached_slots t @ map (\<lambda>off. ids ! ?q * bs + off) [?o ..< ?o + n]) ! i =
      ids ! (i div bs) * bs + i mod bs" if i: "i < num_tokens t + n" for i
  proof (cases "i < num_tokens t")
    case True
    then show ?thesis using assms(1,5) old [OF True] by (auto simp: table_ok_def nth_append)
  next
    case False
    then obtain j where j: "i = num_tokens t + j" "j < n" using i by (metis add_diff_inverse_nat nat_add_left_cancel_less)
    then show ?thesis using assms(1,3) block_position [of j bs "num_tokens t"]
      by (auto simp: table_ok_def nth_append)
  qed
  then show ?thesis using assms(1-4) by (simp add: table_ok_def div_ceil_pos)
qed

section \<open>Taking blocks\<close>

lemma grow_not_panic: "grow zeros fz a \<noteq> Inl Panic"
  by (auto simp: grow_def grow_pool_def Let_def split: kv_pool.splits option.splits sum.splits)

lemma grow_succeeds:
  assumes "\<And>shape. zeros shape \<noteq> None" and "0 < segment_blocks a" and "num_blocks a < max_blocks a"
  shows "\<exists>a'. grow zeros fz a = Inr a'"
proof -
  have "\<forall>shape. \<exists>y. zeros shape = Some y" using assms(1) by auto
  from choice [OF this] obtain z where "\<forall>shape. zeros shape = Some (z shape)" by blast
  then show ?thesis using assms(2,3) by (auto simp: grow_def grow_pool_def Let_def split: kv_pool.splits)
qed

lemma allocate_succeeds:
  assumes "alloc_inv a" and "\<And>shape. zeros shape \<noteq> None" and "0 < num_free a"
  shows "\<exists>a' b. allocate zeros fz a = (a', Inr b)"
proof (cases "allocate zeros fz a")
  case (Pair a' r)
  show ?thesis
  proof (cases r)
    case (Inl e)
    then have e: "free_list a = []" "grow zeros fz a = Inl e"
      using allocate_err [OF assms(1)] Pair by auto
    have "\<exists>a'. grow zeros fz a = Inr a'"
      using grow_succeeds [of zeros a fz] assms e(1) by (auto simp: num_free_def alloc_inv_def)
    then show ?thesis using e(2) by simp
  qed (simp add: Pair)
qed

lemma refs_below: "alloc_inv a \<Longrightarrow> b \<in># refs_of a \<Longrightarrow> b < max_blocks a"
  by (auto simp: alloc_inv_def in_refs_of)

lemma slots_of_fits:
  assumes "slots_fit bs a" and "b < max_blocks a" and "0 < n" and "off + n \<le> bs"
  shows "slots_of (b * bs) off n = Some (map (\<lambda>o'. b * bs + o') [off ..< off + n])"
proof -
  have "Suc b * bs \<le> max_blocks a * bs" using assms(2) by (intro mult_le_mono1) simp
  then have "b * bs + bs \<le> Suc u32_max" using assms(1) by (simp add: slots_fit_def)
  then show ?thesis using assms(3,4) by (auto simp: slots_of_def)
qed

text \<open>The block the next tokens go to.\<close>

lemma next_block_spec:
  assumes "alloc_inv a" and "table_ok bs (table c)" and "c_block_size c = bs"
    and "cache_refs c \<subseteq># refs_of a" and "next_block zeros fz a c = (a1, c1, r)"
  obtains (err) e where "r = Inl e" "e \<noteq> Panic" "c1 = c" "a1 = a" "num_tokens (table c) mod bs = 0"
      "(\<forall>shape. zeros shape \<noteq> None) \<longrightarrow> num_free a = 0"
  | (ok) b ids where "r = Inr b" "c1 = c\<lparr>table := (table c)\<lparr>block_ids := ids\<rparr>\<rparr>"
      "alloc_inv a1" "max_blocks a1 = max_blocks a"
      "refs_of a1 + cache_refs c = refs_of a + mset ids" "mset ids \<subseteq># refs_of a1"
      "length ids = Suc (num_tokens (table c) div bs)" "ids ! (num_tokens (table c) div bs) = b"
      "\<And>i. i < length (block_ids (table c)) \<Longrightarrow> ids ! i = block_ids (table c) ! i"
      "num_free a1 + length ids = num_free a + length (block_ids (table c))"
proof (cases "num_tokens (table c) mod bs = 0")
  case True
  then have len: "length (block_ids (table c)) = num_tokens (table c) div bs"
    using assms(2) by (simp add: table_ok_def div_ceil_mod)
  obtain a' r' where al: "allocate zeros fz a = (a', r')" by fastforce
  show ?thesis
  proof (cases r')
    case (Inl e)
    have "a' = a" "free_list a = []" "grow zeros fz a = Inl e"
      using allocate_err [OF assms(1)] al Inl by auto
    then show ?thesis
      using True assms(3,5) al Inl grow_not_panic [of zeros fz a]
        allocate_succeeds [OF assms(1), of zeros fz]
      by (intro err [of e]) (auto simp: next_block_def)
  next
    case (Inr b)
    have ok': "alloc_inv a'" "refs_of a' = add_mset b (refs_of a)" "max_blocks a' = max_blocks a"
      using allocate_ok [OF assms(1)] al Inr by auto
    have nf: "num_free a = Suc (num_free a')"
      using blocks.avail_alloc [OF assms(1)] al Inr by auto
    have "r = Inr b" "a1 = a'" "c1 = c\<lparr>table := (table c)\<lparr>block_ids := block_ids (table c) @ [b]\<rparr>\<rparr>"
      using True assms(3,5) al Inr by (auto simp: next_block_def)
    then show ?thesis using ok' nf len assms(4)
      by (intro ok [of b "block_ids (table c) @ [b]"]) (auto simp: cache_refs_def nth_append)
  qed
next
  case False
  then have len: "length (block_ids (table c)) = Suc (num_tokens (table c) div bs)"
    using assms(2) by (simp add: table_ok_def div_ceil_mod)
  then have ne: "block_ids (table c) \<noteq> []" by auto
  have "r = Inr (last (block_ids (table c)))" "a1 = a" "c1 = c"
    using False assms(3,5) ne by (auto simp: next_block_def)
  then show ?thesis using assms(1,4) len ne
    by (intro ok [of "last (block_ids (table c))" "block_ids (table c)"])
      (auto simp: cache_refs_def last_conv_nth)
qed

text \<open>
  What the loop leaves: the pool's references move with the table's, the table stays well
  formed and only grows, and either every token has its slot and, with pool writes on, its
  staged row, or the pool ran out on the way.
\<close>

definition fill_post ::
    "nat \<Rightarrow> nat \<Rightarrow> nat \<Rightarrow> pending_run list \<Rightarrow> ('t, 'f) block_allocator \<Rightarrow> 't paged_cache \<Rightarrow>
     ('t, 'f) block_allocator \<Rightarrow> 't paged_cache \<Rightarrow> err + pending_run list \<Rightarrow> bool" where
  "fill_post bs new_seq written rs a c a' c' r \<longleftrightarrow>
     alloc_inv a' \<and> max_blocks a' = max_blocks a
     \<and> refs_of a' + cache_refs c = refs_of a + cache_refs c' \<and> cache_refs c' \<subseteq># refs_of a'
     \<and> table_ok bs (table c') \<and> c' = c\<lparr>table := table c'\<rparr>
     \<and> num_tokens (table c) \<le> num_tokens (table c')
     \<and> take (num_tokens (table c)) (cached_slots (table c')) = cached_slots (table c)
     \<and> (case r of
          Inl e \<Rightarrow> e \<noteq> Panic \<and> num_tokens (table c') < num_tokens (table c) + (new_seq - written)
        | Inr rs' \<Rightarrow>
            num_tokens (table c') = num_tokens (table c) + (new_seq - written)
            \<and> runs_pairs rs' = runs_pairs rs @
                (if pool_writes c
                 then zip (drop (num_tokens (table c)) (cached_slots (table c'))) [written ..< new_seq]
                 else []))"

lemma zip_upt_append:
  assumes "length xs = n" and "length ys = m"
  shows "zip (xs @ ys) [w ..< w + (n + m)] =
    zip xs [w ..< w + n] @ zip ys [w + n ..< w + (n + m)]"
proof -
  have "[w ..< w + (n + m)] = [w ..< w + n] @ [w + n ..< w + (n + m)]"
    using upt_add_eq_append [of w "w + n" m] by (simp add: add.assoc)
  then show ?thesis using assms by (simp add: zip_append)
qed

lemma zip_slots: "zip (map (\<lambda>o'. base + o') [off ..< off + n]) [w ..< w + n] =
    map (\<lambda>j. (base + off + j, w + j)) [0 ..< n]"
  by (rule nth_equalityI) (auto simp: add.assoc)

text \<open>One round of the loop and then the rest of it.\<close>

lemma fill_post_step:
  fixes c :: "'t paged_cache" and bs :: nat
  defines "q \<equiv> num_tokens (table c) div bs" and "off \<equiv> num_tokens (table c) mod bs"
  assumes ok: "table_ok bs (table c)" and n: "0 < n" "n \<le> new_seq - written" "n \<le> bs - off"
    and a1: "max_blocks a1 = max_blocks a" "refs_of a1 + cache_refs c = refs_of a + mset ids"
    and ids: "ids ! q = b"
    and c2: "c2 = c\<lparr>table := (table c)\<lparr>block_ids := ids,
        cached_slots := cached_slots (table c) @ map (\<lambda>o'. b * bs + o') [off ..< off + n],
        num_tokens := num_tokens (table c) + n\<rparr>\<rparr>"
    and rs': "rs' = (if pool_writes c then stage_run rs (b * bs + off) written n else rs)"
    and post: "fill_post bs new_seq (written + n) rs' a1 c2 a' c' r"
  shows "fill_post bs new_seq written rs a c a' c' r"
proof -
  let ?s = "map (\<lambda>o'. b * bs + o') [off ..< off + n]" and ?N = "num_tokens (table c)"
  have len: "length (cached_slots (table c)) = ?N" using ok by (simp add: table_ok_def)
  have lenS: "length (cached_slots (table c')) = num_tokens (table c')"
    using post by (simp add: fill_post_def table_ok_def)
  have t2: "take (?N + n) (cached_slots (table c')) = cached_slots (table c) @ ?s"
    using post by (simp add: fill_post_def c2)
  have "take ?N (take (?N + n) (cached_slots (table c'))) = cached_slots (table c)"
    by (simp only: t2) (simp add: len)
  then have t1: "take ?N (cached_slots (table c')) = cached_slots (table c)" by (simp add: min_def)
  have d: "drop ?N (cached_slots (table c')) = ?s @ drop (?N + n) (cached_slots (table c'))"
    by (subst append_take_drop_id [of "?N + n", symmetric], subst t2) (simp add: len)
  have refs: "refs_of a' + cache_refs c = refs_of a + cache_refs c'"
  proof -
    have r2: "refs_of a' + mset ids = refs_of a1 + cache_refs c'"
      using post by (simp add: fill_post_def c2 cache_refs_def)
    have "(refs_of a' + cache_refs c) + mset ids = (refs_of a' + mset ids) + cache_refs c" by simp
    also have "\<dots> = (refs_of a1 + cache_refs c) + cache_refs c'" by (simp add: r2)
    also have "\<dots> = (refs_of a + cache_refs c') + mset ids" by (simp add: a1(2))
    finally show ?thesis by simp
  qed
  have pairs: "runs_pairs rs' = runs_pairs rs @ (if pool_writes c then zip ?s [written ..< written + n] else [])"
    by (simp add: rs' runs_pairs_stage_run zip_slots)
  show ?thesis
  proof (cases r)
    case (Inl e)
    then show ?thesis using post refs t1 a1 n by (auto simp: fill_post_def c2)
  next
    case (Inr rs2)
    have N: "num_tokens (table c') = ?N + (new_seq - written)"
      using post n Inr by (simp add: fill_post_def c2)
    have w: "written + (n + (new_seq - (written + n))) = new_seq" using n(1,2) by simp
    have "zip (drop ?N (cached_slots (table c'))) [written ..< new_seq] =
        zip ?s [written ..< written + n] @ zip (drop (?N + n) (cached_slots (table c'))) [written + n ..< new_seq]"
      using zip_upt_append [of ?s n "drop (?N + n) (cached_slots (table c'))" "new_seq - written - n" written]
        n(2) lenS N by (simp add: d w)
    then show ?thesis using post refs t1 a1 N Inr pairs by (auto simp: fill_post_def c2)
  qed
qed

lemma fill_blocks_spec:
  assumes "alloc_inv a" and "table_ok bs (table c)" and "c_block_size c = bs"
    and "cache_refs c \<subseteq># refs_of a" and "slots_fit bs a"
    and "fill_blocks zeros fz new_seq written rs a c = (a', c', r)"
  shows "fill_post bs new_seq written rs a c a' c' r
    \<and> ((\<forall>shape. zeros shape \<noteq> None)
       \<and> div_ceil (num_tokens (table c) + (new_seq - written)) bs \<le> length (block_ids (table c)) + num_free a
       \<longrightarrow> (\<exists>rs'. r = Inr rs'))"
  using assms
proof (induction "new_seq - written" arbitrary: written rs a c rule: less_induct)
  case less
  note ok = less.prems(2)
  show ?case
  proof (cases "written < new_seq")
    case False
    then have "a' = a" "c' = c" "r = Inr rs" using less.prems(6) by (auto simp: fill_blocks.simps)
    then show ?thesis using False less.prems ok by (simp add: fill_post_def table_ok_def)
  next
    case True
    define N off n where d: "N = num_tokens (table c)" "off = N mod bs"
      "n = min (new_seq - written) (bs - off)"
    have bs: "0 < bs" using ok by (simp add: table_ok_def)
    have n: "0 < n" "n \<le> new_seq - written" "n \<le> bs - off"
      using True bs mod_less_divisor [OF bs, of N] by (auto simp: d)
    obtain a1 c1 r1 where nb: "next_block zeros fz a c = (a1, c1, r1)" by (metis prod_cases3)
    from less.prems(1-4) nb show ?thesis
    proof (cases rule: next_block_spec)
      case (err e)
      have "a' = a" "c' = c" "r = Inl e"
        using less.prems(3,6) True bs nb err by (auto simp: fill_blocks.simps [of zeros] Let_def)
      moreover have "(\<forall>shape. zeros shape \<noteq> None) \<longrightarrow>
          \<not> div_ceil (N + (new_seq - written)) bs \<le> length (block_ids (table c)) + num_free a"
      proof (rule impI)
        assume "\<forall>shape. zeros shape \<noteq> None"
        then have nf: "num_free a = 0" using err by blast
        have len: "length (block_ids (table c)) * bs = N"
          using ok err(5) bs by (auto simp: table_ok_def div_ceil_def d)
        have up: "N + (new_seq - written) \<le> div_ceil (N + (new_seq - written)) bs * bs"
          using div_ceil_bounds(1) [OF bs] .
        show "\<not> div_ceil (N + (new_seq - written)) bs \<le> length (block_ids (table c)) + num_free a"
        proof (rule notI)
          assume "div_ceil (N + (new_seq - written)) bs \<le> length (block_ids (table c)) + num_free a"
          then have "div_ceil (N + (new_seq - written)) bs * bs \<le> length (block_ids (table c)) * bs"
            using nf by (intro mult_le_mono1) simp
          then have "N + (new_seq - written) \<le> N" using up len by linarith
          then show False using True by simp
        qed
      qed
      ultimately show ?thesis using True less.prems ok err by (auto simp: fill_post_def table_ok_def d)
    next
      case (ok b ids)
      have "b \<in># mset ids" using ok(7,8) nth_mem [of "num_tokens (table c) div bs" ids] by simp
      then have "b < max_blocks a1"
        using refs_below [OF ok(3)] mset_subset_eqD [OF ok(6)] by blast
      then have sl: "slots_of (b * bs) off n = Some (map (\<lambda>o'. b * bs + o') [off ..< off + n])"
        using slots_of_fits [of bs a b n off] less.prems(5) n ok(4) by simp
      define rs' where "rs' = (if pool_writes c then stage_run rs (b * bs + off) written n else rs)"
      define c2 where "c2 = c\<lparr>table := (table c)\<lparr>block_ids := ids,
          cached_slots := cached_slots (table c) @ map (\<lambda>o'. b * bs + o') [off ..< off + n],
          num_tokens := num_tokens (table c) + n\<rparr>\<rparr>"
      have rec: "fill_blocks zeros fz new_seq (written + n) rs' a1 c2 = (a', c', r)"
        using less.prems(3,6) True bs nb ok(1,2) sl
        by (cases "pool_writes c")
          (simp_all add: fill_blocks.simps [of zeros fz new_seq written] Let_def d rs'_def c2_def)
      have t2: "table_ok bs (table c2)"
        using table_ok_extend [OF less.prems(2) n(1) _ ok(7,9)] n(3) ok(8) by (simp add: c2_def d)
      have ih: "fill_post bs new_seq (written + n) rs' a1 c2 a' c' r
        \<and> ((\<forall>shape. zeros shape \<noteq> None)
           \<and> div_ceil (num_tokens (table c2) + (new_seq - (written + n))) bs
               \<le> length (block_ids (table c2)) + num_free a1
           \<longrightarrow> (\<exists>rs'. r = Inr rs'))"
        using less.hyps [of "written + n" a1 c2 rs'] n(1) True ok(3,4,6) t2 less.prems(3,5) rec
        by (simp add: c2_def cache_refs_def slots_fit_def)
      then have "fill_post bs new_seq written rs a c a' c' r"
        using fill_post_step [OF less.prems(2) n(1,2) n(3) [unfolded d(1,2)] ok(4,5,8)
            c2_def [unfolded d(1,2)] rs'_def [unfolded d(1,2)]]
        by blast
      moreover have "num_tokens (table c2) + (new_seq - (written + n)) = N + (new_seq - written)"
        "length (block_ids (table c2)) + num_free a1 = length (block_ids (table c)) + num_free a"
        using n(2) ok(10) by (simp_all add: c2_def d)
      ultimately show ?thesis using ih by (simp add: d)
    qed
  qed
qed

end
