(* ===== verification/Cache_Props.thy ===== *)
theory Cache_Props
  imports Cache_Table
begin

text \<open>
  What the cache of a layer promises: an append takes exactly the blocks its tokens need, on
  every outcome, and stages exactly their rows; the view it returns is the tail of the
  sequence the attention of that forward reads; a roll-back gives back exactly the blocks
  that fall empty.
\<close>

section \<open>What the buffer half of an append leaves alone\<close>

definition only_contig :: "('t, 'f) block_allocator \<Rightarrow> ('t, 'f) block_allocator \<Rightarrow> bool" where
  "only_contig a a' \<longleftrightarrow> (\<exists>p. a' = a\<lparr>contig_pool := p\<rparr>)"

lemma only_contig_refl [simp]: "only_contig a a"
  unfolding only_contig_def by (rule exI [of _ "contig_pool a"]) simp

lemma only_contig_trans: "only_contig a b \<Longrightarrow> only_contig b c \<Longrightarrow> only_contig a c"
  by (auto simp: only_contig_def)

lemma only_contig_same:
  "only_contig a a' \<Longrightarrow> alloc_inv a' = alloc_inv a \<and> refs_of a' = refs_of a
     \<and> num_free a' = num_free a \<and> max_blocks a' = max_blocks a"
  by (auto simp: only_contig_def)

lemma only_contig_take: "take_contig_buffer B a n = (B', a', r) \<Longrightarrow> only_contig a a'"
  by (auto simp: take_contig_buffer_def only_contig_def Let_def split: prod.splits)

lemma only_contig_release: "release_contig B a k v n = (B', a') \<Longrightarrow> only_contig a a'"
  by (auto simp: release_contig_def only_contig_def dest: release_contig_frame)

lemma only_contig_acquire: "acquire_contig T B a c n = (B', a', r) \<Longrightarrow> only_contig a a'"
  by (auto simp: acquire_contig_def Let_def split: prod.splits option.splits dest: only_contig_take)

text \<open>The parts of a cache the buffer half keeps.\<close>

definition same_table :: "'t paged_cache \<Rightarrow> 't paged_cache \<Rightarrow> bool" where
  "same_table c c' \<longleftrightarrow> table c' = table c \<and> pending_writes c' = pending_writes c
     \<and> c_block_size c' = c_block_size c \<and> window c' = window c \<and> pool_writes c' = pool_writes c"

lemma same_table_refl [simp]: "same_table c c"
  by (simp add: same_table_def)

lemma append_move_frame:
  "append_move T B a c buf capacity keep from_old new_src = (B', a', c', r) \<Longrightarrow>
     only_contig a a' \<and> same_table c c'"
  by (auto simp: append_move_def same_table_def Let_def split: if_splits option.splits prod.splits sum.splits
      dest!: only_contig_acquire only_contig_release intro: only_contig_trans)

lemma append_fresh_frame:
  "append_fresh T Q fz B a c prev keep from_old new_src = (B', a', c', r) \<Longrightarrow>
     only_contig a a' \<and> same_table c c'"
  by (auto simp: append_fresh_def same_table_def Let_def split: if_splits option.splits prod.splits sum.splits
      dest!: only_contig_acquire)

lemma append_contig_frame:
  assumes "append_contig T Q fz B a c prev n keep old new_kv new_src = (B', a', c', r)"
  shows "only_contig a a' \<and> same_table c c'"
proof -
  let ?c0 = "c\<lparr>contig_k := None, contig_v := None\<rparr>"
  have st: "same_table ?c0 c'' \<Longrightarrow> same_table c c''" for c'' by (simp add: same_table_def)
  have c0: "same_table c ?c0"
    "same_table c (c\<lparr>contig_len := n, contig_k := k, contig_v := v\<rparr>)" for n k v
    by (simp_all add: same_table_def)
  show ?thesis using assms
    by (auto simp: append_contig_def Let_def c0 split: if_splits option.splits
        dest!: append_move_frame append_fresh_frame intro: st)
qed

lemma append_buffer_frame:
  "append_buffer T Q fz B a c prev n new_k new_v = (B', a', c', r) \<Longrightarrow>
     only_contig a a' \<and> same_table c c'"
  by (auto simp: append_buffer_def Let_def split: if_splits option.splits prod.splits sum.splits
      dest!: append_contig_frame)

lemma table_update_frame:
  "c1 = c\<lparr>table := t\<rparr> \<Longrightarrow> pending_writes c1 = pending_writes c \<and> window c1 = window c
     \<and> contig_k c1 = contig_k c \<and> contig_v c1 = contig_v c \<and> contig_len c1 = contig_len c
     \<and> contig_start c1 = contig_start c \<and> c_block_size c1 = c_block_size c"
  by simp

text \<open>The rows an append stages, and the batches pending after it.\<close>

definition staged_by :: "'t paged_cache \<Rightarrow> 't paged_cache \<Rightarrow> nat \<Rightarrow> bool" where
  "staged_by c c' new_seq \<longleftrightarrow>
     (\<exists>extra. pending_writes c' = pending_writes c @ extra
        \<and> concat (map (\<lambda>b. runs_pairs (runs b)) extra) =
            (if pool_writes c
             then zip (drop (num_tokens (table c)) (cached_slots (table c'))) [0 ..< new_seq] else []))"

text \<open>The shape of an append that gets as far as taking blocks.\<close>

lemma append_tokens_cases:
  assumes "append_tokens T Q fz B a c n flat k1 v1 = (B', a', c', r)"
  obtains (early) e where "r = Inl e" "a' = a" "c' = c"
  | (stuck) e f where "r = Inl e"  "fill_blocks (t_zeros T) fz n 0 [] a c = (a', c', f)"
  | (filled) a1 c1 rs c2 extra where
      "fill_blocks (t_zeros T) fz n 0 [] a c = (a1, c1, Inr rs)"
      "c2 = c1\<lparr>pending_writes := pending_writes c1 @ extra\<rparr>"
      "concat (map (\<lambda>b. runs_pairs (runs b)) extra) = runs_pairs rs"
      "append_buffer T Q fz B a1 c2 (num_tokens (table c)) n k1 v1 = (B', a', c', r)"
proof (cases "append_pre c")
  case False
  then show ?thesis using assms by (intro early) (auto simp: append_tokens_def)
next
  case True
  obtain a1 c1 f where fb: "fill_blocks (t_zeros T) fz n 0 [] a c = (a1, c1, f)" by (metis prod_cases3)
  show ?thesis
  proof (cases f)
    case (Inl e)
    then show ?thesis using assms True fb by (intro stuck) (auto simp: append_tokens_def)
  next
    case (Inr rs)
    show ?thesis
    proof (cases "rs = []")
      case True
      then show ?thesis using assms \<open>append_pre c\<close> fb Inr
        by (intro filled [of a1 c1 rs c1 "[]"]) (auto simp: append_tokens_def)
    next
      case False
      show ?thesis
      proof (cases "t_contiguous T (fst flat) = None \<or> t_contiguous T (snd flat) = None")
        case True
        then show ?thesis using assms \<open>append_pre c\<close> fb Inr False
          by (intro stuck) (auto simp: append_tokens_def split: option.splits)
      next
        case False
        then obtain ks vs where "t_contiguous T (fst flat) = Some ks" "t_contiguous T (snd flat) = Some vs"
          by auto
        then show ?thesis using assms \<open>append_pre c\<close> fb Inr \<open>rs \<noteq> []\<close>
          by (intro filled [OF fb [unfolded Inr] refl, of "[\<lparr>k_src = ks, v_src = vs, runs = rs\<rparr>]"])
            (auto simp: append_tokens_def)
      qed
    qed
  qed
qed

section \<open>A small instance\<close>

text \<open>Tensors as lists of their rows, one number a row, and a pool of four blocks of two tokens.\<close>

definition list_tensors :: "(nat list, unit) tensor_ops" where
  "list_tensors =
     \<lparr>t_zeros = (\<lambda>shape. Some (replicate (if 2 < length shape then shape ! 2 else 0) 0)),
      t_dim = (\<lambda>t d. Some (length t)),
      t_dims4 = (\<lambda>t. Some (1, 1, length t, 1)),
      t_narrow = (\<lambda>t d s n. if s + n \<le> length t then Some (take n (drop s t)) else None),
      t_slice_set = (\<lambda>dst src d off. if off + length src \<le> length dst
         then Some (take off dst @ src @ drop (off + length src) dst) else None),
      t_index_select = (\<lambda>t is d. if \<forall>i \<in> set is. i < length t then Some (map ((!) t) is) else None),
      t_cat = (\<lambda>ts d. if ts = [] then None else Some (concat ts)),
      t_squeeze = (\<lambda>t d. Some t), t_unsqueeze = (\<lambda>t d. Some t), t_transpose = (\<lambda>t d e. Some t),
      t_contiguous = Some, t_copy = Some, t_is_contiguous = (\<lambda>t. True),
      t_to_floats = (\<lambda>t. None), t_from_floats = (\<lambda>fs shape. None)\<rparr>"

definition no_quant :: "unit quant_ops" where
  "no_quant = \<lparr>quantize_key = (\<lambda>q xs. ([], (), ())), quantize_value = (\<lambda>q xs. ([], ())),
     dequantize_key = (\<lambda>q ps n r. []), dequantize_value = (\<lambda>q ps n. [])\<rparr>"

definition small_pool :: "(nat list, unit) block_allocator" where
  "small_pool =
     \<lparr>pool = Full [] [], free_list = [], ref_counts = [], num_blocks = 0, max_blocks = 4,
      segment_blocks = 2, block_size = 2, n_kv_heads = 1, head_dim = 1, dtype_bytes = 4,
      contig_pool = \<lparr>buffers = [], max_buffers = 4, bytes_per_token = 8, pool_budget = 0\<rparr>,
      sliding_window = Some 3\<rparr>"

section \<open>Blocks, slots and staged rows\<close>

lemma append_blocks:
  assumes "alloc_inv a" and "table_ok (c_block_size c) (table c)" and "cache_refs c \<subseteq># refs_of a"
    and "slots_fit (c_block_size c) a"
    and "cache_append T Q fz B a c new_k new_v = (B', a', c', r)"
  shows "alloc_inv a' \<and> refs_of a' + cache_refs c = refs_of a + cache_refs c'
    \<and> cache_refs c' \<subseteq># refs_of a' \<and> max_blocks a' = max_blocks a
    \<and> table_ok (c_block_size c) (table c')
    \<and> take (num_tokens (table c)) (cached_slots (table c')) = cached_slots (table c)
    \<and> (\<forall>kv. r = Inr kv \<longrightarrow>
         (\<exists>x y n z. t_dims4 T new_k = Some (x, y, n, z)
            \<and> num_tokens (table c') = num_tokens (table c) + n \<and> staged_by c c' n))"
proof -
  have keep: "take (num_tokens (table c)) (cached_slots (table c)) = cached_slots (table c)"
    using assms(2) by (simp add: table_ok_def)
  show ?thesis
  proof (cases "\<exists>x y n z flat k1 v1. t_dims4 T new_k = Some (x, y, n, z)
      \<and> append_tokens T Q fz B a c n flat k1 v1 = (B', a', c', r)")
    case False
    then have "a' = a \<and> c' = c \<and> (\<exists>e. r = Inl e)" using assms(5)
      by (fastforce simp: cache_append_def split: option.splits)
    then show ?thesis using assms(1-3) keep by auto
  next
    case True
    then obtain x y n z flat k1 v1 where dims: "t_dims4 T new_k = Some (x, y, n, z)"
      and ap: "append_tokens T Q fz B a c n flat k1 v1 = (B', a', c', r)" by blast
    note fill = fill_blocks_spec [OF assms(1,2) refl assms(3,4), of "t_zeros T" fz n 0 "[]", THEN conjunct1]
    from ap show ?thesis
    proof (cases rule: append_tokens_cases)
      case (early e)
      then show ?thesis using assms(1-3) keep by simp
    next
      case (stuck e f)
      then show ?thesis using fill [of a' c' f] by (simp add: fill_post_def)
    next
      case (filled a1 c1 rs c2 extra)
      have post: "fill_post (c_block_size c) n 0 [] a c a1 c1 (Inr rs)" using fill filled(1) by blast
      have fr: "only_contig a1 a'" "same_table c2 c'" using append_buffer_frame [OF filled(4)] by auto
      have t: "table c' = table c1" "pending_writes c' = pending_writes c1 @ extra"
        using fr(2) filled(2) by (auto simp: same_table_def)
      have c1: "pending_writes c1 = pending_writes c"
        using post table_update_frame [of c1 "table c1" c] by (simp add: fill_post_def)
      show ?thesis
        using post only_contig_same [OF fr(1)] t filled(3) dims c1
        by (auto simp: fill_post_def staged_by_def cache_refs_def)
    qed
  qed
qed

text \<open>C16. Whatever becomes of an append, full success, a pool that runs out half way or a failing
  tensor operation, the pool's reference counts move by exactly the blocks the table gained,
  and the table stays well formed: one slot per token, as many blocks as the tokens need, and
  the slot of token \<open>i\<close> is row \<open>i mod block_size\<close> of block \<open>i div block_size\<close>; the slots of the
  tokens already there do not move.  An append that returns has given every new token its
  slot and, with pool writes on, staged row \<open>j\<close> of the new tensors for the slot of the \<open>j\<close>-th new token, and
  nothing else.\<close>

theorem append_takes_blocks:
  assumes "alloc_inv a" and "table_ok (c_block_size c) (table c)" and "cache_refs c \<subseteq># refs_of a"
    and "slots_fit (c_block_size c) a"
    and "cache_append T Q fz B a c new_k new_v = (B', a', c', r)"
  shows "alloc_inv a' \<and> refs_of a' + cache_refs c = refs_of a + cache_refs c'
    \<and> table_ok (c_block_size c) (table c')
    \<and> take (num_tokens (table c)) (cached_slots (table c')) = cached_slots (table c)
    \<and> (\<forall>kv. r = Inr kv \<longrightarrow>
         (\<exists>x y n z. t_dims4 T new_k = Some (x, y, n, z)
            \<and> num_tokens (table c') = num_tokens (table c) + n \<and> staged_by c c' n))"
  using append_blocks [OF assms] by blast

theorem append_takes_blocks_witness:
  "\<exists>B' a' c' r.
     cache_append list_tensors no_quant () (\<lambda>_. contig_budget_new 0) small_pool
       (paged_cache_new small_pool) [1, 2, 3] [4, 5, 6] = (B', a', c', r)
     \<and> alloc_inv a' \<and> refs_of a' = cache_refs c' \<and> table_ok 2 (table c')"
proof -
  let ?c = "paged_cache_new small_pool"
  obtain B' a' c' r where ap: "cache_append list_tensors no_quant () (\<lambda>_. contig_budget_new 0) small_pool
       ?c [1, 2, 3] [4, 5, 6] = (B', a', c', r)"
    by (metis prod_cases4)
  have "alloc_inv small_pool" "table_ok (c_block_size ?c) (table ?c)" "cache_refs ?c \<subseteq># refs_of small_pool"
      "slots_fit (c_block_size ?c) small_pool"
    by (simp_all add: alloc_inv_def small_pool_def paged_cache_new_def block_table_new_def table_ok_def
        cache_refs_def slots_fit_def u32_max_def div_ceil_def)
  moreover have "refs_of small_pool = {#}" "c_block_size ?c = 2"
    by (simp_all add: refs_of_def small_pool_def paged_cache_new_def)
  ultimately have "alloc_inv a'" "refs_of a' = cache_refs c'" "table_ok 2 (table c')"
    using append_takes_blocks [OF _ _ _ _ ap] by simp_all
  with ap show ?thesis by blast
qed

end
