(* ===== verification/Cache_View.thy ===== *)
theory Cache_View
  imports Cache_Props
begin

text \<open>
  What the attention kernels read: the contiguous buffer of a layer's cache holds a tail of
  the sequence, long enough for the forward that asks, through appends and roll-backs.  The
  tensor library is assumed to do along the token axis what its documentation says.
\<close>

section \<open>Tensors by their rows\<close>

text \<open>
  The documented behaviour of the operations on four-dimensional tensors (the set \<open>D\<close>) along
  axis 2, with \<open>rows t\<close> the rows of \<open>t\<close> along that axis.
\<close>

definition tensor_laws :: "('t, 'f) tensor_ops \<Rightarrow> 't set \<Rightarrow> ('t \<Rightarrow> 'r list) \<Rightarrow> bool" where
  "tensor_laws T D rows \<longleftrightarrow>
     (\<forall>t \<in> D. \<forall>s n. s + n \<le> length (rows t) \<longrightarrow>
        (\<exists>u \<in> D. t_narrow T t 2 s n = Some u \<and> rows u = take n (drop s (rows t))))
     \<and> (\<forall>dst \<in> D. \<forall>src \<in> D. \<forall>off. off + length (rows src) \<le> length (rows dst) \<longrightarrow>
        (\<exists>u \<in> D. t_slice_set T dst src 2 off = Some u
           \<and> rows u = take off (rows dst) @ rows src @ drop (off + length (rows src)) (rows dst)))
     \<and> (\<forall>shape. t_zeros T shape \<noteq> None)
     \<and> (\<forall>h n d. \<exists>u \<in> D. t_zeros T [1, h, n, d] = Some u \<and> length (rows u) = n)
     \<and> (\<forall>t \<in> D. t_dim T t 2 = Some (length (rows t)))
     \<and> (\<forall>t \<in> D. \<exists>x y z. t_dims4 T t = Some (x, y, length (rows t), z))
     \<and> (\<forall>t \<in> D. \<exists>u \<in> D. t_contiguous T t = Some u \<and> rows u = rows t)
     \<and> (\<forall>t \<in> D. \<exists>u \<in> D. t_copy T t = Some u \<and> rows u = rows t)
     \<and> (\<forall>t \<in> D. \<exists>u w. tokens_first T t = Some u \<and> t_contiguous T u = Some w)"

text \<open>The last \<open>n\<close> elements.\<close>

definition lastn :: "nat \<Rightarrow> 'a list \<Rightarrow> 'a list" where
  "lastn n xs = drop (length xs - n) xs"

lemma length_lastn [simp]: "length (lastn n xs) = min n (length xs)"
  by (simp add: lastn_def)

lemma lastn_append_new: "n \<le> length xs \<Longrightarrow> lastn n xs @ ys = lastn (n + length ys) (xs @ ys)"
  by (simp add: lastn_def)

lemma lastn_of_lastn: "m \<le> n \<Longrightarrow> lastn m (lastn n xs) = lastn m xs"
  by (cases "n \<le> length xs") (simp_all add: lastn_def drop_drop)

lemma lastn_tail: "k \<le> length ys \<Longrightarrow> lastn k (xs @ ys) = lastn k ys"
  by (simp add: lastn_def)

section \<open>Buffers that hold what they say\<close>

definition buf_ok :: "'t set \<Rightarrow> ('t \<Rightarrow> 'r list) \<Rightarrow> 't paged_cache \<Rightarrow> bool" where
  "buf_ok D rows c \<longleftrightarrow>
     (case (contig_k c, contig_v c) of
        (None, None) \<Rightarrow> contig_len c = 0
      | (Some k, Some v) \<Rightarrow> k \<in> D \<and> v \<in> D \<and> length (rows v) = length (rows k)
          \<and> contig_start c + contig_len c \<le> length (rows k)
      | _ \<Rightarrow> False)"

definition retired_ok :: "'t set \<Rightarrow> ('t \<Rightarrow> 'r list) \<Rightarrow> ('t, 'f) block_allocator \<Rightarrow> bool" where
  "retired_ok D rows a \<longleftrightarrow>
     (\<forall>b \<in> set (buffers (contig_pool a)). buf_k b \<in> D \<and> buf_v b \<in> D
        \<and> length (rows (buf_k b)) = buf_cap b \<and> length (rows (buf_v b)) = buf_cap b)"

text \<open>The rows of one side of the cache, keys or values.\<close>

definition view :: "('t \<Rightarrow> 'r list) \<Rightarrow> 't option \<Rightarrow> 't paged_cache \<Rightarrow> 'r list" where
  "view rows buf c =
     (case buf of None \<Rightarrow> [] | Some t \<Rightarrow> take (contig_len c) (drop (contig_start c) (rows t)))"

lemma put_room_subset: "put_room bg bytes bpt bufs = (fits, bg', bufs') \<Longrightarrow> set bufs' \<subseteq> set bufs"
proof (induction bg bytes bpt bufs rule: put_room.induct)
  case (1 bg bytes bpt bufs)
  note eq = "1.prems" [unfolded put_room.simps [of bg bytes bpt bufs]]
  show ?case
  proof (cases "budget_try_add bg bytes = None \<and> bufs \<noteq> []")
    case True
    then show ?thesis using "1.IH" eq by (auto dest: in_set_butlastD)
  next
    case False
    then show ?thesis using eq by (auto split: option.splits)
  qed
qed

lemma contig_put_subset:
  assumes "contig_put B p buf = (B', p')"
  shows "set (buffers p') \<subseteq> insert buf (set (buffers p))"
proof -
  obtain fits bg bufs where room:
    "put_room (B (pool_budget p)) (buf_cap buf * bytes_per_token p) (bytes_per_token p) (buffers p)
      = (fits, bg, bufs)" by (metis prod_cases3)
  define ins where "ins = insert_at bufs (partition_point (\<lambda>b. buf_cap b < buf_cap buf) bufs) buf"
  have "set ins \<subseteq> insert buf (set (buffers p))"
    using put_room_subset [OF room]
    by (auto simp: ins_def insert_at_def dest: in_set_takeD in_set_dropD)
  moreover have "buffers p' \<in> {buffers p, bufs, remove_at ins 0, ins}"
    using assms by (auto simp: contig_put_def room Let_def ins_def split: if_splits)
  ultimately show ?thesis using put_room_subset [OF room] set_remove_at [of ins 0] by auto
qed

lemma retired_ok_release:
  assumes "retired_ok D rows a" and "k \<in> D" and "v \<in> D" and "length (rows k) = n"
    and "length (rows v) = n" and "release_contig B a k v n = (B', a')"
  shows "retired_ok D rows a'"
proof -
  obtain p where p: "contig_put B (contig_pool a) \<lparr>buf_k = k, buf_v = v, buf_cap = n\<rparr> = (B', p)"
      "a' = a\<lparr>contig_pool := p\<rparr>"
    using assms(6) by (auto simp: release_contig_def release_contig_buffer_def split: prod.splits)
  then show ?thesis using contig_put_subset [OF p(1)] assms(1-5) by (fastforce simp: retired_ok_def)
qed

lemma acquire_contig_ok:
  assumes "tensor_laws T D rows" and "retired_ok D rows a"
  shows "\<exists>B' a' k v m. acquire_contig T B a c n = (B', a', Inr (k, v, m)) \<and> retired_ok D rows a'
    \<and> k \<in> D \<and> v \<in> D \<and> length (rows k) = m \<and> length (rows v) = m \<and> n \<le> m"
proof (cases "position (\<lambda>b. n \<le> buf_cap b) (buffers (contig_pool a))")
  case None
  obtain z where "z \<in> D" "t_zeros T [1, c_n_kv c, contig_buf_capacity n, c_head_dim c] = Some z"
      "length (rows z) = contig_buf_capacity n"
    using assms(1) unfolding tensor_laws_def by blast
  then show ?thesis using None assms(2) contig_buf_capacity_bounds [of n]
    by (auto simp: acquire_contig_def take_contig_buffer_def contig_take_def Let_def retired_ok_def)
next
  case (Some i)
  note pos = position_Some [OF Some]
  have "retired_ok D rows (a\<lparr>contig_pool := (contig_pool a)\<lparr>buffers := remove_at (buffers (contig_pool a)) i\<rparr>\<rparr>)"
    using assms(2) set_remove_at [of "buffers (contig_pool a)" i] by (auto simp: retired_ok_def)
  moreover have "buffers (contig_pool a) ! i \<in> set (buffers (contig_pool a))" using pos by simp
  ultimately show ?thesis using assms(2) pos Some
    by (auto simp: acquire_contig_def take_contig_buffer_def contig_take_def Let_def retired_ok_def)
qed

section \<open>Writing into the buffers\<close>

lemma narrow_ok:
  "tensor_laws T D rows \<Longrightarrow> t \<in> D \<Longrightarrow> s + n \<le> length (rows t) \<Longrightarrow>
   \<exists>u \<in> D. t_narrow T t 2 s n = Some u \<and> rows u = take n (drop s (rows t))"
  unfolding tensor_laws_def by blast

lemma slice_set_ok:
  "tensor_laws T D rows \<Longrightarrow> dst \<in> D \<Longrightarrow> src \<in> D \<Longrightarrow> off + length (rows src) \<le> length (rows dst) \<Longrightarrow>
   \<exists>u \<in> D. t_slice_set T dst src 2 off = Some u
     \<and> rows u = take off (rows dst) @ rows src @ drop (off + length (rows src)) (rows dst)"
  unfolding tensor_laws_def by blast

lemma contiguous_ok:
  "tensor_laws T D rows \<Longrightarrow> t \<in> D \<Longrightarrow> \<exists>u \<in> D. t_contiguous T t = Some u \<and> rows u = rows t"
  unfolding tensor_laws_def by blast

lemma dims4_ok:
  "tensor_laws T D rows \<Longrightarrow> t \<in> D \<Longrightarrow> \<exists>x y z. t_dims4 T t = Some (x, y, length (rows t), z)"
  unfolding tensor_laws_def by blast

lemma tokens_first_ok:
  "tensor_laws T D rows \<Longrightarrow> t \<in> D \<Longrightarrow> \<exists>u w. tokens_first T t = Some u \<and> t_contiguous T u = Some w"
  unfolding tensor_laws_def by blast

lemma detach_ok:
  assumes "tensor_laws T D rows" and "t \<in> D"
  shows "\<exists>u \<in> D. detach T t = Some u \<and> rows u = rows t"
proof (cases "t_is_contiguous T t")
  case True
  then show ?thesis using assms unfolding tensor_laws_def detach_def by simp
next
  case False
  then show ?thesis using assms unfolding tensor_laws_def detach_def by simp
qed

text \<open>A pair of buffers of the same length, all four-dimensional.\<close>

definition pair_ok :: "'t set \<Rightarrow> ('t \<Rightarrow> 'r list) \<Rightarrow> nat \<Rightarrow> 't \<times> 't \<Rightarrow> bool" where
  "pair_ok D rows n p \<longleftrightarrow> fst p \<in> D \<and> snd p \<in> D \<and> length (rows (fst p)) = n \<and> length (rows (snd p)) = n"

lemma set_pair_ok:
  assumes "tensor_laws T D rows" and "pair_ok D rows m dst" and "pair_ok D rows n src" and "off + n \<le> m"
  shows "\<exists>p. set_pair T dst src off = Some p \<and> pair_ok D rows m p
    \<and> rows (fst p) = take off (rows (fst dst)) @ rows (fst src) @ drop (off + n) (rows (fst dst))
    \<and> rows (snd p) = take off (rows (snd dst)) @ rows (snd src) @ drop (off + n) (rows (snd dst))"
proof -
  obtain k where "k \<in> D" "t_slice_set T (fst dst) (fst src) 2 off = Some k"
      "rows k = take off (rows (fst dst)) @ rows (fst src) @ drop (off + n) (rows (fst dst))"
    using slice_set_ok [OF assms(1), of "fst dst" "fst src" off] assms(2-4) by (auto simp: pair_ok_def)
  moreover obtain v where "v \<in> D" "t_slice_set T (snd dst) (snd src) 2 off = Some v"
      "rows v = take off (rows (snd dst)) @ rows (snd src) @ drop (off + n) (rows (snd dst))"
    using slice_set_ok [OF assms(1), of "snd dst" "snd src" off] assms(2-4) by (auto simp: pair_ok_def)
  ultimately show ?thesis using assms(2-4)
    by (intro exI [of _ "(k, v)"]) (auto simp: set_pair_def pair_ok_def)
qed

lemma fold_front_ok:
  assumes laws: "tensor_laws T D rows" and src: "pair_ok D rows l src" and dst: "pair_ok D rows m dst"
    and new: "pair_ok D rows n new_src" and le: "start + old \<le> l" "old + n \<le> m"
  shows "\<exists>p. fold_front T src dst start old new_src = Some p \<and> pair_ok D rows m p
    \<and> take (old + n) (rows (fst p)) = take old (drop start (rows (fst src))) @ rows (fst new_src)
    \<and> take (old + n) (rows (snd p)) = take old (drop start (rows (snd src))) @ rows (snd new_src)"
proof -
  obtain d1 where d1: "pair_ok D rows m d1"
      "(if 0 < old then
          (case (t_narrow T (fst src) 2 start old, t_narrow T (snd src) 2 start old) of
             (Some nk, Some nv) \<Rightarrow>
               (case (detach T nk, detach T nv) of
                  (Some old_k, Some old_v) \<Rightarrow> set_pair T dst (old_k, old_v) 0
                | _ \<Rightarrow> None)
           | _ \<Rightarrow> None)
        else Some dst) = Some d1"
      "take old (rows (fst d1)) = take old (drop start (rows (fst src)))"
      "take old (rows (snd d1)) = take old (drop start (rows (snd src)))"
  proof (cases "0 < old")
    case True
    obtain nk where nk: "nk \<in> D" "t_narrow T (fst src) 2 start old = Some nk"
        "rows nk = take old (drop start (rows (fst src)))"
      using narrow_ok [OF laws, of "fst src" start old] src le by (auto simp: pair_ok_def)
    obtain nv where nv: "nv \<in> D" "t_narrow T (snd src) 2 start old = Some nv"
        "rows nv = take old (drop start (rows (snd src)))"
      using narrow_ok [OF laws, of "snd src" start old] src le by (auto simp: pair_ok_def)
    obtain ok ov where o: "ok \<in> D" "detach T nk = Some ok" "rows ok = rows nk"
        "ov \<in> D" "detach T nv = Some ov" "rows ov = rows nv"
      using detach_ok [OF laws nk(1)] detach_ok [OF laws nv(1)] by blast
    have "pair_ok D rows old (ok, ov)" using o nk nv src le by (auto simp: pair_ok_def)
    from set_pair_ok [OF laws dst this, of 0] le obtain p where
      "set_pair T dst (ok, ov) 0 = Some p" "pair_ok D rows m p"
      "rows (fst p) = rows ok @ drop old (rows (fst dst))" "rows (snd p) = rows ov @ drop old (rows (snd dst))"
      by auto
    then show ?thesis using nk nv o src le True by (intro that [of p]) (auto simp: pair_ok_def)
  qed (use dst that in auto)
  obtain p where p: "set_pair T d1 new_src old = Some p" "pair_ok D rows m p"
      "rows (fst p) = take old (rows (fst d1)) @ rows (fst new_src) @ drop (old + n) (rows (fst d1))"
      "rows (snd p) = take old (rows (snd d1)) @ rows (snd new_src) @ drop (old + n) (rows (snd d1))"
    using set_pair_ok [OF laws d1(1) new le(2)] by blast
  have "fold_front T src dst start old new_src = Some p"
    unfolding fold_front_def d1(2) by (simp add: p(1))
  then show ?thesis using p d1(3,4) src new le by (auto simp: pair_ok_def)
qed

section \<open>The buffer after an append\<close>

text \<open>
  The buffer's contents after \<open>new_k\<close>, \<open>new_v\<close> of \<open>n\<close> rows came in: the last rows of what it
  held and of the new ones, at least as many as \<open>append\<close> means to keep.
\<close>

definition holds_tail ::
    "('t \<Rightarrow> 'r list) \<Rightarrow> 't paged_cache \<Rightarrow> nat \<Rightarrow> 't \<Rightarrow> 't \<Rightarrow> 't paged_cache \<Rightarrow> bool" where
  "holds_tail rows c n new_k new_v c' \<longleftrightarrow>
     view rows (contig_k c') c' = lastn (contig_len c') (view rows (contig_k c) c @ rows new_k)
     \<and> view rows (contig_v c') c' = lastn (contig_len c') (view rows (contig_v c) c @ rows new_v)
     \<and> contig_len c' \<le> contig_len c + n \<and> keep_of c (contig_len c) n \<le> contig_len c'"

lemma keep_of_bounds: "n \<le> keep_of c l n" "keep_of c l n \<le> l + n"
  by (auto simp: keep_of_def window_span_def window_keep_margin_def split: option.splits)

text \<open>A buffer settled at the front with the last \<open>old\<close> rows and the new ones.\<close>

lemma settled_holds_tail:
  assumes "pair_ok D rows m (k', v')" and "old + n = keep_of c (contig_len c) n" and "old + n \<le> m"
    and "contig_k c' = Some k'" "contig_v c' = Some v'" "contig_start c' = 0" "contig_len c' = old + n"
    and "take (old + n) (rows k') = lastn old (view rows (contig_k c) c) @ rows new_k"
    and "take (old + n) (rows v') = lastn old (view rows (contig_v c) c) @ rows new_v"
    and "length (view rows (contig_k c) c) = contig_len c" "length (view rows (contig_v c) c) = contig_len c"
    and "length (rows new_k) = n" "length (rows new_v) = n"
  shows "buf_ok D rows c' \<and> holds_tail rows c n new_k new_v c'"
proof -
  let ?vk = "view rows (contig_k c) c" and ?vv = "view rows (contig_v c) c"
  have le: "old \<le> contig_len c" using assms(2) keep_of_bounds(2) [of c "contig_len c" n] by simp
  have "view rows (contig_k c') c' = take (old + n) (rows k')"
    "view rows (contig_v c') c' = take (old + n) (rows v')"
    by (simp_all add: view_def assms)
  then have "view rows (contig_k c') c' = lastn (old + n) (?vk @ rows new_k)"
    "view rows (contig_v c') c' = lastn (old + n) (?vv @ rows new_v)"
    using lastn_append_new [of old ?vk "rows new_k"] lastn_append_new [of old ?vv "rows new_v"] le
    by (simp_all add: assms(8-13))
  then show ?thesis using assms(1-7) le by (auto simp: buf_ok_def pair_ok_def holds_tail_def)
qed

lemma view_lengths:
  "buf_ok D rows c \<Longrightarrow> length (view rows (contig_k c) c) = contig_len c"
  "buf_ok D rows c \<Longrightarrow> length (view rows (contig_v c) c) = contig_len c"
  by (auto simp: buf_ok_def view_def split: option.splits)

lemma lastn_take_drop:
  "s + l \<le> length xs \<Longrightarrow> old \<le> l \<Longrightarrow> lastn old (take l (drop s xs)) = take old (drop (s + (l - old)) xs)"
  by (simp add: lastn_def drop_take add.commute)

lemma append_move_view:
  assumes laws: "tensor_laws T D rows" and ok: "buf_ok D rows c" and ret: "retired_ok D rows a"
    and buf: "contig_k c = Some k" "contig_v c = Some v" "length (rows k) = m"
    and new: "pair_ok D rows n (nk, nv)" and old: "old + n = keep_of c (contig_len c) n"
  shows "\<exists>B' a' c'. append_move T B a (c\<lparr>contig_k := None, contig_v := None\<rparr>) (k, v) m (old + n) old (nk, nv) =
      (B', a', c', Inr ()) \<and> retired_ok D rows a' \<and> buf_ok D rows c' \<and> holds_tail rows c n nk nv c'"
proof -
  let ?start = "contig_start c + (contig_len c - old)"
  have ole: "old \<le> contig_len c" using old keep_of_bounds(2) [of c "contig_len c" n] by simp
  have kv: "pair_ok D rows m (k, v)" and fits: "contig_start c + contig_len c \<le> m"
    using ok buf by (auto simp: buf_ok_def pair_ok_def)
  have st: "?start + old \<le> m" using fits ole by simp
  have tails: "take old (drop ?start (rows k)) = lastn old (view rows (contig_k c) c)"
    "take old (drop ?start (rows v)) = lastn old (view rows (contig_v c) c)"
    using kv fits ole buf by (auto simp: view_def lastn_take_drop pair_ok_def)
  note settle = settled_holds_tail [where c = c and n = n and old = old and new_k = nk and new_v = nv,
      OF _ old _ _ _ _ _ _ _ view_lengths [OF ok]]
  show ?thesis
  proof (cases "old + n \<le> m")
    case True
    obtain p where p: "fold_front T (k, v) (k, v) ?start old (nk, nv) = Some p" "pair_ok D rows m p"
        "take (old + n) (rows (fst p)) = take old (drop ?start (rows k)) @ rows nk"
        "take (old + n) (rows (snd p)) = take old (drop ?start (rows v)) @ rows nv"
      using fold_front_ok [OF laws kv kv new st True] by auto
    show ?thesis using p True new settle [of D m "fst p" "snd p"] ret
      by (auto simp: append_move_def Let_def tails pair_ok_def)
  next
    case False
    obtain B1 a1 ak av am where aq: "acquire_contig T B a (c\<lparr>contig_k := None, contig_v := None\<rparr>) (old + n) =
          (B1, a1, Inr (ak, av, am))" "retired_ok D rows a1" "pair_ok D rows am (ak, av)" "old + n \<le> am"
      using acquire_contig_ok [OF laws ret, of B "c\<lparr>contig_k := None, contig_v := None\<rparr>" "old + n"]
      by (auto simp: pair_ok_def)
    obtain p where p: "fold_front T (k, v) (ak, av) ?start old (nk, nv) = Some p" "pair_ok D rows am p"
        "take (old + n) (rows (fst p)) = take old (drop ?start (rows k)) @ rows nk"
        "take (old + n) (rows (snd p)) = take old (drop ?start (rows v)) @ rows nv"
      using fold_front_ok [OF laws kv aq(3) new st aq(4)] by auto
    obtain B2 a2 where rl: "release_contig B1 a1 k v m = (B2, a2)" by fastforce
    have "retired_ok D rows a2" using retired_ok_release [OF aq(2) _ _ _ _ rl] kv by (simp add: pair_ok_def)
    then show ?thesis using p False new aq rl settle [of D am "fst p" "snd p"]
      by (auto simp: append_move_def Let_def tails pair_ok_def)
  qed
qed

lemma append_fresh_view:
  assumes laws: "tensor_laws T D rows" and ret: "retired_ok D rows a"
    and none: "contig_k c = None" "contig_v c = None" "contig_len c = 0"
    and new: "pair_ok D rows n (nk, nv)"
  shows "\<exists>B' a' c'. append_fresh T Q fz B a (c\<lparr>contig_k := None, contig_v := None\<rparr>) prev n 0 (nk, nv) =
      (B', a', c', Inr ()) \<and> retired_ok D rows a' \<and> buf_ok D rows c' \<and> holds_tail rows c n nk nv c'"
proof -
  obtain B1 a1 ak av am where aq: "acquire_contig T B a (c\<lparr>contig_k := None, contig_v := None\<rparr>) n =
        (B1, a1, Inr (ak, av, am))" "retired_ok D rows a1" "pair_ok D rows am (ak, av)" "n \<le> am"
    using acquire_contig_ok [OF laws ret, of B "c\<lparr>contig_k := None, contig_v := None\<rparr>" n]
    by (auto simp: pair_ok_def)
  obtain p where p: "set_pair T (ak, av) (nk, nv) 0 = Some p" "pair_ok D rows am p"
      "rows (fst p) = rows nk @ drop n (rows ak)" "rows (snd p) = rows nv @ drop n (rows av)"
    using set_pair_ok [OF laws aq(3) new, of 0] aq(4) by auto
  have "keep_of c 0 n = n" using keep_of_bounds(1) [of n c 0] keep_of_bounds(2) [of c 0 n] by simp
  then show ?thesis using p aq new none
    by (auto simp: append_fresh_def Let_def pair_ok_def buf_ok_def holds_tail_def view_def lastn_def
        split: prod.splits)
qed

lemma append_in_place_view:
  assumes ok: "buf_ok D rows c" and buf: "contig_k c = Some k" "contig_v c = Some v"
    and p: "pair_ok D rows (length (rows k)) (k', v')"
      "rows k' = take (contig_start c + contig_len c) (rows k) @ rows nk
         @ drop (contig_start c + contig_len c + n) (rows k)"
      "rows v' = take (contig_start c + contig_len c) (rows v) @ rows nv
         @ drop (contig_start c + contig_len c + n) (rows v)"
    and new: "length (rows nk) = n" "length (rows nv) = n"
    and fits: "contig_start c + contig_len c + n \<le> length (rows k)"
  defines "c' \<equiv> c\<lparr>contig_len := contig_len c + n, contig_k := Some k', contig_v := Some v'\<rparr>"
  shows "buf_ok D rows c' \<and> holds_tail rows c n nk nv c'"
proof -
  have len: "length (rows v) = length (rows k)" "contig_start c + contig_len c \<le> length (rows k)"
    using ok buf by (auto simp: buf_ok_def)
  have "view rows (contig_k c') c' = view rows (contig_k c) c @ rows nk"
    "view rows (contig_v c') c' = view rows (contig_v c) c @ rows nv"
    using len new buf by (simp_all add: view_def c'_def p(2,3) drop_take)
  moreover have "length (view rows (contig_k c) c @ rows nk) = contig_len c + n"
    "length (view rows (contig_v c) c @ rows nv) = contig_len c + n"
    using view_lengths [OF ok] new by simp_all
  ultimately show ?thesis
    using p(1) fits keep_of_bounds(2) [of c "contig_len c" n]
    by (auto simp: holds_tail_def lastn_def buf_ok_def c'_def pair_ok_def)
qed

lemma append_buffer_view:
  assumes laws: "tensor_laws T D rows" and ok: "buf_ok D rows c" and ret: "retired_ok D rows a"
    and new: "pair_ok D rows n (nk, nv)" and n: "0 < n" and prev: "contig_k c = None \<longrightarrow> prev = 0"
  shows "\<exists>B' a' c' k' v'. append_buffer T Q fz B a c prev n nk nv = (B', a', c', Inr (k', v'))
    \<and> retired_ok D rows a' \<and> buf_ok D rows c' \<and> holds_tail rows c n nk nv c'
    \<and> rows k' = view rows (contig_k c') c' \<and> rows v' = view rows (contig_v c') c'"
proof -
  let ?keep = "keep_of c (contig_len c) n" and ?c0 = "c\<lparr>contig_k := None, contig_v := None\<rparr>"
  have live: "live_before c prev n = contig_len c"
    using ok prev by (auto simp: live_before_def buf_ok_def split: option.splits)
  have kb: "n \<le> ?keep" "?keep \<le> contig_len c + n" by (rule keep_of_bounds)+
  obtain mk mv where m: "t_narrow T nk 2 0 n = Some mk" "t_narrow T nv 2 0 n = Some mv"
      "pair_ok D rows n (mk, mv)" "rows mk = rows nk" "rows mv = rows nv"
    using narrow_ok [OF laws, of nk 0 n] narrow_ok [OF laws, of nv 0 n] new by (auto simp: pair_ok_def)
  have ht: "holds_tail rows c n mk mv c'' = holds_tail rows c n nk nv c''" for c''
    by (simp add: holds_tail_def m)
  define step where "step = append_contig T Q fz B a c prev n ?keep (?keep - n) (nk, nv) (mk, mv)"
  have s: "\<exists>B' a' c'. step = (B', a', c', Inr ()) \<and> retired_ok D rows a' \<and> buf_ok D rows c'
      \<and> holds_tail rows c n nk nv c'"
  proof (cases "contig_k c")
    case None
    then have none: "contig_v c = None" "contig_len c = 0" using ok by (auto simp: buf_ok_def split: option.splits)
    have "?keep = n" using kb none by simp
    then show ?thesis using append_fresh_view [OF laws ret None none m(3), of Q fz B prev] None none
      by (simp add: step_def append_contig_def ht)
  next
    case (Some k)
    then obtain v where v: "contig_v c = Some v" using ok by (auto simp: buf_ok_def split: option.splits)
    have kv: "pair_ok D rows (length (rows k)) (k, v)" using ok Some v by (auto simp: buf_ok_def pair_ok_def)
    have dim: "t_dim T k 2 = Some (length (rows k))" using laws kv by (auto simp: tensor_laws_def pair_ok_def)
    show ?thesis
    proof (cases "contig_start c + contig_len c + n \<le> length (rows k)")
      case True
      obtain p where p: "set_pair T (k, v) (nk, nv) (contig_start c + contig_len c) = Some p"
          "pair_ok D rows (length (rows k)) p"
          "rows (fst p) = take (contig_start c + contig_len c) (rows k) @ rows nk
             @ drop (contig_start c + contig_len c + n) (rows k)"
          "rows (snd p) = take (contig_start c + contig_len c) (rows v) @ rows nv
             @ drop (contig_start c + contig_len c + n) (rows v)"
        using set_pair_ok [OF laws kv new True] by auto
      show ?thesis using append_in_place_view [OF ok Some v, of "fst p" "snd p" nk n nv] p True ret new Some v dim
        by (auto simp: step_def append_contig_def pair_ok_def split: prod.splits)
    next
      case False
      then show ?thesis
        using append_move_view [OF laws ok ret Some v refl m(3), of "?keep - n" B] kb Some v dim
        by (auto simp: step_def append_contig_def ht)
    qed
  qed
  then obtain B' a' c' where st: "step = (B', a', c', Inr ())" "retired_ok D rows a'" "buf_ok D rows c'"
      "holds_tail rows c n nk nv c'" by blast
  have pos: "0 < contig_len c'" using st(4) kb n by (simp add: holds_tail_def)
  obtain k v where kv: "contig_k c' = Some k" "contig_v c' = Some v" "pair_ok D rows (length (rows k)) (k, v)"
      "contig_start c' + contig_len c' \<le> length (rows k)"
    using st(3) pos by (auto simp: buf_ok_def pair_ok_def split: option.splits)
  obtain k' v' where cur: "current_kv T c' = Inr (k', v')" "rows k' = view rows (contig_k c') c'"
      "rows v' = view rows (contig_v c') c'"
    using narrow_ok [OF laws, of k "contig_start c'" "contig_len c'"]
      narrow_ok [OF laws, of v "contig_start c'" "contig_len c'"] kv pos
    by (auto simp: current_kv_def view_def pair_ok_def)
  have "append_buffer T Q fz B a c prev n nk nv = (B', a', c', current_kv T c')"
    using n kb m(1,2) st(1) by (simp add: append_buffer_def live step_def min_absorb1 Let_def)
  then show ?thesis using cur st by simp
qed

section \<open>The cache of a sequence\<close>

lemma allocate_contig: "allocate zeros fz a = (a', r) \<Longrightarrow> contig_pool a' = contig_pool a"
  by (auto simp: allocate_def grow_def Let_def split: sum.splits if_splits)

lemma next_block_contig: "next_block zeros fz a c = (a', c', r) \<Longrightarrow> contig_pool a' = contig_pool a"
  by (auto simp: next_block_def Let_def split: sum.splits if_splits prod.splits dest: allocate_contig)

lemma fill_blocks_contig:
  "fill_blocks zeros fz n w rs a c = (a', c', r) \<Longrightarrow> contig_pool a' = contig_pool a"
proof (induction "n - w" arbitrary: w rs a c rule: less_induct)
  case less
  show ?case
  proof (cases "w < n \<and> 0 < c_block_size c")
    case False
    then show ?thesis using less.prems by (auto simp: fill_blocks.simps [of zeros fz n w] split: if_splits)
  next
    case True
    define m where "m = min (n - w) (c_block_size c - num_tokens (table c) mod c_block_size c)"
    have m: "0 < m" using True by (auto simp: m_def)
    obtain a1 c1 r1 where nb: "next_block zeros fz a c = (a1, c1, r1)" by (metis prod_cases3)
    have "n - (w + m) < n - w" using m True by linarith
    note ih = less.hyps [OF this]
    show ?thesis using less.prems True nb next_block_contig [OF nb]
      by (auto simp: fill_blocks.simps [of zeros fz n w] Let_def simp flip: m_def
          split: sum.splits option.splits dest!: ih)
  qed
qed

text \<open>
  The cache holds the tail of a sequence whose keys and values are \<open>hk\<close> and \<open>hv\<close>: all of it
  without a sliding window, at least the window with one.
\<close>

definition cache_holds ::
    "'t set \<Rightarrow> ('t \<Rightarrow> 'r list) \<Rightarrow> ('t, 'f) block_allocator \<Rightarrow> 't paged_cache \<Rightarrow> 'r list \<Rightarrow> 'r list \<Rightarrow> bool" where
  "cache_holds D rows a c hk hv \<longleftrightarrow>
     alloc_inv a \<and> table_ok (c_block_size c) (table c) \<and> cache_refs c \<subseteq># refs_of a
     \<and> slots_fit (c_block_size c) a \<and> buf_ok D rows c \<and> retired_ok D rows a
     \<and> length hk = num_tokens (table c) \<and> length hv = num_tokens (table c)
     \<and> view rows (contig_k c) c = lastn (contig_len c) hk
     \<and> view rows (contig_v c) c = lastn (contig_len c) hv
     \<and> contig_len c \<le> num_tokens (table c)
     \<and> (case window c of None \<Rightarrow> num_tokens (table c) | Some w \<Rightarrow> min (num_tokens (table c)) w)
         \<le> contig_len c
     \<and> (contig_k c = None \<longrightarrow> num_tokens (table c) = 0)"

lemma cache_holds_pre: "cache_holds D rows a c hk hv \<Longrightarrow> append_pre c"
  by (auto simp: cache_holds_def append_pre_def)

lemma holds_tail_history:
  assumes "holds_tail rows c n new_k new_v c'" and "contig_len c \<le> length hk" "contig_len c \<le> length hv"
    and "view rows (contig_k c) c = lastn (contig_len c) hk" "view rows (contig_v c) c = lastn (contig_len c) hv"
    and "length (rows new_k) = n" "length (rows new_v) = n"
  shows "view rows (contig_k c') c' = lastn (contig_len c') (hk @ rows new_k)
    \<and> view rows (contig_v c') c' = lastn (contig_len c') (hv @ rows new_v)"
  using assms lastn_append_new [of "contig_len c" hk "rows new_k"]
    lastn_append_new [of "contig_len c" hv "rows new_v"]
  by (auto simp: holds_tail_def lastn_of_lastn)

lemma buf_ok_cong:
  "contig_k c = contig_k d \<Longrightarrow> contig_v c = contig_v d \<Longrightarrow> contig_len c = contig_len d \<Longrightarrow>
   contig_start c = contig_start d \<Longrightarrow> window c = window d \<Longrightarrow>
   buf_ok D rows c = buf_ok D rows d \<and> holds_tail rows c = holds_tail rows d"
  by (simp add: buf_ok_def holds_tail_def view_def keep_of_def fun_eq_iff cong: option.case_cong)

end
