(* ===== verification/Pool_Read.thy ===== *)
theory Pool_Read
  imports Pool_Storage
begin

text \<open>
  Reading the block pool back: \<open>gather\<close> of \<open>src/common/paged.rs\<close> gives the row of every slot asked
  for, in the order asked, however the slots are spread over the pool's segments, and a pool that
  grows keeps what its slots hold.  For pools of full precision.
\<close>

section \<open>Rows of pool tensors\<close>

text \<open>
  The documented behaviour of the operations on the three-dimensional tensors of a pool (the set \<open>P\<close>),
  whose rows run along axis 0; \<open>heads_first\<close> makes a four-dimensional one (the set \<open>D\<close>) of the same rows
  along axis 2.
\<close>

definition pool_laws :: "('t, 'f) tensor_ops \<Rightarrow> 't set \<Rightarrow> 't set \<Rightarrow> ('t \<Rightarrow> 'r list) \<Rightarrow> bool" where
  "pool_laws T P D rows \<longleftrightarrow>
     (\<forall>t \<in> P. \<forall>is. (\<forall>i \<in> set is. i < length (rows t)) \<longrightarrow>
        (\<exists>u \<in> P. t_index_select T t is 0 = Some u \<and> rows u = map ((!) (rows t)) is))
     \<and> (\<forall>ts. ts \<noteq> [] \<longrightarrow> set ts \<subseteq> P \<longrightarrow> (\<exists>u \<in> P. t_cat T ts 0 = Some u \<and> rows u = concat (map rows ts)))
     \<and> (\<forall>t \<in> P. \<exists>u \<in> D. heads_first T t = Some u \<and> rows u = rows t)"

lemma index_select_ok:
  "pool_laws T P D rows \<Longrightarrow> t \<in> P \<Longrightarrow> \<forall>i \<in> set is. i < length (rows t) \<Longrightarrow>
   \<exists>u \<in> P. t_index_select T t is 0 = Some u \<and> rows u = map ((!) (rows t)) is"
  unfolding pool_laws_def by blast

lemma cat_ok:
  "pool_laws T P D rows \<Longrightarrow> ts \<noteq> [] \<Longrightarrow> set ts \<subseteq> P \<Longrightarrow>
   \<exists>u \<in> P. t_cat T ts 0 = Some u \<and> rows u = concat (map rows ts)"
  unfolding pool_laws_def by blast

lemma heads_first_ok:
  "pool_laws T P D rows \<Longrightarrow> t \<in> P \<Longrightarrow> \<exists>u \<in> D. heads_first T t = Some u \<and> rows u = rows t"
  unfolding pool_laws_def by blast

text \<open>The segment tensor \<open>t\<close> has the row \<open>r\<close> at \<open>i\<close>.\<close>

definition row_at :: "'t set \<Rightarrow> ('t \<Rightarrow> 'r list) \<Rightarrow> 't \<Rightarrow> nat \<Rightarrow> 'r \<Rightarrow> bool" where
  "row_at P rows t i r \<longleftrightarrow> t \<in> P \<and> i < length (rows t) \<and> rows t ! i = r"

lemma row_at_select:
  assumes "pool_laws T P D rows" and "is \<noteq> []" and "\<forall>i \<in> set is. row_at P rows t i (f i)"
  shows "\<exists>u \<in> P. t_index_select T t is 0 = Some u \<and> rows u = map f is"
proof -
  have "t \<in> P" "\<forall>i \<in> set is. i < length (rows t)" using assms(2,3) by (auto simp: row_at_def neq_Nil_conv)
  from index_select_ok [OF assms(1) this] show ?thesis using assms(3) by (auto simp: row_at_def)
qed

text \<open>One side of the pool, segment by segment, holds the row \<open>r\<close> at a slot.\<close>

definition slot_at :: "'t set \<Rightarrow> ('t \<Rightarrow> 'r list) \<Rightarrow> nat \<Rightarrow> 't list \<Rightarrow> nat \<Rightarrow> 'r \<Rightarrow> bool" where
  "slot_at P rows per ts slot r \<longleftrightarrow>
     slot div per < length ts \<and> row_at P rows (ts ! (slot div per)) (slot mod per) r"

section \<open>Which rows come from which segment\<close>

lemma segment_picks_eq:
  "segment_picks per slots seg =
     map (\<lambda>p. (p, slots ! p)) (filter (\<lambda>p. slots ! p div per = seg) [0 ..< length slots])"
proof -
  have "enumerate 0 slots = map (\<lambda>p. (p, slots ! p)) [0 ..< length slots]"
    by (rule nth_equalityI) (simp_all add: nth_enumerate_eq)
  then show ?thesis by (simp add: segment_picks_def filter_map comp_def)
qed

lemma gather_segments_rows:
  assumes laws: "pool_laws T P D rows"
  shows "\<forall>slot \<in> set slots. s \<le> slot div per \<and> slot div per < s + length segs \<longrightarrow>
     row_at P rows (fst (segs ! (slot div per - s))) (slot mod per) (fk slot)
     \<and> row_at P rows (snd (segs ! (slot div per - s))) (slot mod per) (fv slot) \<Longrightarrow>
   \<exists>order ks vs. gather_segments T per slots s segs = Some (order, ks, vs) \<and> set ks \<subseteq> P \<and> set vs \<subseteq> P
     \<and> distinct order \<and> set order = {p. p < length slots \<and> s \<le> slots ! p div per \<and> slots ! p div per < s + length segs}
     \<and> concat (map rows ks) = map (\<lambda>p. fk (slots ! p)) order
     \<and> concat (map rows vs) = map (\<lambda>p. fv (slots ! p)) order"
proof (induction segs arbitrary: s)
  case Nil
  then show ?case by auto
next
  case (Cons sg segs)
  obtain sk sv where sg: "sg = (sk, sv)" by (cases sg)
  let ?ps = "filter (\<lambda>p. slots ! p div per = s) [0 ..< length slots]"
  let ?loc = "map (\<lambda>p. slots ! p mod per) ?ps"
  have tl: "\<forall>slot \<in> set slots. Suc s \<le> slot div per \<and> slot div per < Suc s + length segs \<longrightarrow>
     row_at P rows (fst (segs ! (slot div per - Suc s))) (slot mod per) (fk slot)
     \<and> row_at P rows (snd (segs ! (slot div per - Suc s))) (slot mod per) (fv slot)"
  proof (intro ballI impI)
    fix slot assume slot: "slot \<in> set slots" "Suc s \<le> slot div per \<and> slot div per < Suc s + length segs"
    then have "slot div per - s = Suc (slot div per - Suc s)" by linarith
    then show "row_at P rows (fst (segs ! (slot div per - Suc s))) (slot mod per) (fk slot)
       \<and> row_at P rows (snd (segs ! (slot div per - Suc s))) (slot mod per) (fv slot)"
      using bspec [OF Cons.prems slot(1)] slot(2) by simp
  qed
  obtain order ks vs where g: "gather_segments T per slots (Suc s) segs = Some (order, ks, vs)" "set ks \<subseteq> P" "set vs \<subseteq> P"
      "distinct order" "set order = {p. p < length slots \<and> Suc s \<le> slots ! p div per \<and> slots ! p div per < Suc s + length segs}"
      "concat (map rows ks) = map (\<lambda>p. fk (slots ! p)) order"
      "concat (map rows vs) = map (\<lambda>p. fv (slots ! p)) order"
    using Cons.IH [OF tl] by blast
  have parts: "{p. p < length slots \<and> s \<le> slots ! p div per \<and> slots ! p div per < s + length (sg # segs)} =
      set ?ps \<union> set order"
    unfolding g(5) by auto
  have disj: "set ?ps \<inter> set order = {}" unfolding g(5) by auto
  have loc: "map (\<lambda>(_, slot). slot mod per) (segment_picks per slots s) = ?loc"
    "map fst (segment_picks per slots s) = ?ps"
    by (simp_all add: segment_picks_eq comp_def)
  have at: "row_at P rows sk (slots ! p mod per) (fk (slots ! p)) \<and> row_at P rows sv (slots ! p mod per) (fv (slots ! p))"
    if "p \<in> set ?ps" for p
    using that bspec [OF Cons.prems, of "slots ! p"] by (simp add: sg)
  show ?case
  proof (cases "?ps = []")
    case True
    then have "gather_segments T per slots s (sg # segs) = Some (order, ks, vs)"
      using g(1) loc by (simp add: sg Let_def)
    then show ?thesis using g parts True by auto
  next
    case False
    have pick: "\<exists>u \<in> P. t_index_select T t ?loc 0 = Some u \<and> rows u = map (\<lambda>p. f (slots ! p)) ?ps"
      if "\<forall>p \<in> set ?ps. row_at P rows t (slots ! p mod per) (f (slots ! p))" for t f
    proof -
      have t: "t \<in> P" "\<forall>i \<in> set ?loc. i < length (rows t)"
        using that False by (auto simp: row_at_def filter_empty_conv)
      have "map ((!) (rows t)) ?loc = map (\<lambda>p. f (slots ! p)) ?ps"
        using that by (auto simp: row_at_def)
      then show ?thesis using index_select_ok [OF laws t] by metis
    qed
    obtain uk uv where u: "uk \<in> P" "t_index_select T sk ?loc 0 = Some uk" "rows uk = map (\<lambda>p. fk (slots ! p)) ?ps"
        "uv \<in> P" "t_index_select T sv ?loc 0 = Some uv" "rows uv = map (\<lambda>p. fv (slots ! p)) ?ps"
      using pick [of sk fk] pick [of sv fv] at by blast
    have ne: "segment_picks per slots s \<noteq> []" using False by (simp add: segment_picks_eq)
    have "gather_segments T per slots s (sg # segs) = Some (?ps @ order, uk # ks, uv # vs)"
      using g(1) u(2,5) False ne by (simp add: sg Let_def loc)
    moreover have "distinct (?ps @ order)" using g(4) disj by simp
    moreover have "set (uk # ks) \<subseteq> P" "set (uv # vs) \<subseteq> P" using u g by auto
    moreover have "concat (map rows (uk # ks)) = map (\<lambda>p. fk (slots ! p)) (?ps @ order)"
      "concat (map rows (uv # vs)) = map (\<lambda>p. fv (slots ! p)) (?ps @ order)"
      using u g by simp_all
    moreover have "set (?ps @ order) = {p. p < length slots \<and> s \<le> slots ! p div per \<and> slots ! p div per < s + length (sg # segs)}"
      unfolding parts by simp
    ultimately show ?thesis by blast
  qed
qed

section \<open>Putting the rows back in order\<close>

lemma inverse_order_fold:
  "distinct order \<Longrightarrow> \<forall>p \<in> set order. p < length bck \<Longrightarrow>
   \<exists>bck'. fold_opt (\<lambda>bck (j, position). put_at bck position j) bck (enumerate k order) = Some bck'
     \<and> length bck' = length bck \<and> (\<forall>j < length order. bck' ! (order ! j) = k + j)
     \<and> (\<forall>p. p \<notin> set order \<longrightarrow> bck' ! p = bck ! p)"
proof (induction order arbitrary: bck k)
  case Nil
  then show ?case by simp
next
  case (Cons p order)
  have "distinct order" "\<forall>q \<in> set order. q < length (bck[p := k])" using Cons.prems by auto
  from Cons.IH [OF this, of "Suc k"] obtain bck' where
      "fold_opt (\<lambda>bck (j, position). put_at bck position j) (bck[p := k]) (enumerate (Suc k) order) = Some bck'"
      "length bck' = length bck" "\<forall>j < length order. bck' ! (order ! j) = Suc k + j"
      "\<forall>q. q \<notin> set order \<longrightarrow> bck' ! q = bck[p := k] ! q"
    by auto
  then show ?case using Cons.prems by (auto simp: put_at_def nth_Cons' nth_list_update)
qed

lemma inverse_order_ok:
  assumes "distinct order" and "set order = {0 ..< n}"
  shows "\<exists>bck. inverse_order order = Some bck \<and> length bck = n
    \<and> (\<forall>p < n. bck ! p < length order \<and> order ! (bck ! p) = p)"
proof -
  have len: "length order = n" using distinct_card [OF assms(1)] assms(2) by simp
  obtain bck where b: "inverse_order order = Some bck" "length bck = n" "\<forall>j < n. bck ! (order ! j) = j"
    using inverse_order_fold [OF assms(1), of "replicate n 0" 0] assms(2) len by (auto simp: inverse_order_def)
  have "bck ! p < length order \<and> order ! (bck ! p) = p" if "p < n" for p
  proof -
    have "p \<in> set order" using that assms(2) by simp
    then obtain j where "j < n" "order ! j = p" using len by (auto simp: in_set_conv_nth)
    then show ?thesis using b(3) len by auto
  qed
  then show ?thesis using b by blast
qed

lemma reordered:
  assumes "length xs = length order" and "\<forall>p < n. bck ! p < length order \<and> order ! (bck ! p) = p"
    and "length bck = n" and "xs = map f order"
  shows "map ((!) xs) bck = map f [0 ..< n]"
  by (rule nth_equalityI) (use assms in simp_all)

section \<open>Gathering\<close>

theorem gather_reads_slots:
  assumes laws: "pool_laws T P D rows" and pl: "pool a = Full ks vs" and per: "0 < segment_blocks a * block_size a"
    and slots: "slots \<noteq> []" "\<forall>slot \<in> set slots. slot_at P rows (segment_blocks a * block_size a) ks slot (fk slot)
      \<and> slot_at P rows (segment_blocks a * block_size a) vs slot (fv slot)"
  shows "\<exists>k v. gather T Q fz a slots = Inr (k, v) \<and> k \<in> D \<and> v \<in> D
    \<and> rows k = map fk slots \<and> rows v = map fv slots"
proof -
  let ?per = "segment_blocks a * block_size a"
  obtain sl where sl: "sl \<in> set slots" using slots(1) by (cases slots) auto
  then have ne: "ks \<noteq> []" "vs \<noteq> []" using slots(2) by (auto simp: slot_at_def)
  have fin: ?thesis if "uk \<in> P" "uv \<in> P" "rows uk = map fk slots" "rows uv = map fv slots"
      "gather T Q fz a slots = (case (heads_first T uk, heads_first T uv) of
         (Some k', Some v') \<Rightarrow> Inr (k', v') | _ \<Rightarrow> Inl Tensor_failed)" for uk uv
    using heads_first_ok [OF laws that(1)] heads_first_ok [OF laws that(2)] that(3-5) by auto
  show ?thesis
  proof (cases "length ks = 1")
    case True
    have one: "row_at P rows (ks ! 0) slot (fk slot) \<and> row_at P rows (vs ! 0) slot (fv slot)" if "slot \<in> set slots" for slot
    proof -
      have "slot_at P rows ?per ks slot (fk slot)" "slot_at P rows ?per vs slot (fv slot)" using that slots(2) by auto
      moreover from this have "slot div ?per = 0" using True by (simp add: slot_at_def)
      moreover from this have "slot mod ?per = slot" using mult_div_mod_eq [of ?per slot] by simp
      ultimately show ?thesis by (simp add: slot_at_def)
    qed
    obtain uk where uk: "uk \<in> P" "t_index_select T (ks ! 0) slots 0 = Some uk" "rows uk = map fk slots"
      using row_at_select [OF laws slots(1), of "ks ! 0" fk] one by blast
    obtain uv where uv: "uv \<in> P" "t_index_select T (vs ! 0) slots 0 = Some uv" "rows uv = map fv slots"
      using row_at_select [OF laws slots(1), of "vs ! 0" fv] one by blast
    show ?thesis
      by (rule fin [OF uk(1) uv(1) uk(3) uv(3)]) (use True uk uv ne in \<open>simp add: gather_def pl gather_full_def Let_def\<close>)
  next
    case False
    have in_range: "slot div ?per < length (zip ks vs)" if "slot \<in> set slots" for slot
      using that slots(2) by (auto simp: slot_at_def)
    have "\<forall>slot \<in> set slots. 0 \<le> slot div ?per \<and> slot div ?per < 0 + length (zip ks vs) \<longrightarrow>
       row_at P rows (fst (zip ks vs ! (slot div ?per - 0))) (slot mod ?per) (fk slot)
       \<and> row_at P rows (snd (zip ks vs ! (slot div ?per - 0))) (slot mod ?per) (fv slot)"
      using slots(2) by (auto simp: slot_at_def)
    from gather_segments_rows [OF laws this] obtain order gk gv where
      g: "gather_segments T ?per slots 0 (zip ks vs) = Some (order, gk, gv)" "set gk \<subseteq> P" "set gv \<subseteq> P" "distinct order"
        "set order = {p. p < length slots \<and> 0 \<le> slots ! p div ?per \<and> slots ! p div ?per < 0 + length (zip ks vs)}"
        "concat (map rows gk) = map (\<lambda>p. fk (slots ! p)) order" "concat (map rows gv) = map (\<lambda>p. fv (slots ! p)) order"
      by blast
    have set: "set order = {0 ..< length slots}" unfolding g(5) using in_range by auto
    then have "order \<noteq> []" using slots(1) by (cases slots) auto
    then have gne: "gk \<noteq> []" "gv \<noteq> []" using g(6,7) by auto
    obtain bck where b: "inverse_order order = Some bck" "length bck = length slots"
        "\<forall>p < length slots. bck ! p < length order \<and> order ! (bck ! p) = p"
      using inverse_order_ok [OF g(4) set] by blast
    have pick: "\<exists>c \<in> P. \<exists>u \<in> P. t_cat T gs 0 = Some c \<and> t_index_select T c bck 0 = Some u \<and> rows u = map f slots"
      if gs: "gs \<noteq> []" "set gs \<subseteq> P" "concat (map rows gs) = map (\<lambda>p. f (slots ! p)) order" for gs f
    proof -
      obtain c where c: "c \<in> P" "t_cat T gs 0 = Some c" "rows c = map (\<lambda>p. f (slots ! p)) order"
        using cat_ok [OF laws gs(1,2)] gs(3) by auto
      have len: "length (rows c) = length order" by (simp add: c(3))
      have "\<forall>i \<in> set bck. i < length (rows c)" using b(2,3) by (auto simp: in_set_conv_nth len)
      from index_select_ok [OF laws c(1) this] obtain u where
        u: "u \<in> P" "t_index_select T c bck 0 = Some u" "rows u = map ((!) (rows c)) bck" by blast
      have "rows u = map (\<lambda>p. f (slots ! p)) [0 ..< length slots]"
        unfolding u(3) by (rule reordered [OF len b(3,2) c(3)])
      also have "\<dots> = map f slots" by (rule nth_equalityI) simp_all
      finally show ?thesis using c u by blast
    qed
    obtain ck uk where k: "t_cat T gk 0 = Some ck" "t_index_select T ck bck 0 = Some uk" "uk \<in> P" "rows uk = map fk slots"
      using pick [OF gne(1) g(2,6)] by blast
    obtain cv uv where v: "t_cat T gv 0 = Some cv" "t_index_select T cv bck 0 = Some uv" "uv \<in> P" "rows uv = map fv slots"
      using pick [OF gne(2) g(3,7)] by blast
    show ?thesis
      by (rule fin [OF k(3) v(3) k(4) v(4)]) (use False per g(1) b(1) k v in \<open>simp add: gather_def pl gather_full_def Let_def\<close>)
  qed
qed

end
