(* ===== verification/Cache_Gather.thy ===== *)
theory Cache_Gather
  imports Cache_View Pool_Read
begin

text \<open>
  A cache that starts from shared blocks: after a prefix-cache hit its table has tokens and there is
  no contiguous buffer yet.  The first append builds one and gathers what it needs of the old tokens from the
  pool, so what the forward reads is again the tail of the whole sequence.
\<close>

section \<open>A cache without a buffer\<close>

text \<open>The pool, of full precision, holds the rows \<open>hk\<close> and \<open>hv\<close> at the given slots.\<close>

definition pool_holds ::
    "'t set \<Rightarrow> ('t \<Rightarrow> 'r list) \<Rightarrow> ('t, 'f) block_allocator \<Rightarrow> nat list \<Rightarrow> 'r list \<Rightarrow> 'r list \<Rightarrow> bool" where
  "pool_holds P rows a slots hk hv \<longleftrightarrow>
     0 < segment_blocks a * block_size a \<and> length hk = length slots \<and> length hv = length slots
     \<and> (case pool a of
          Full ks vs \<Rightarrow> \<forall>i < length slots. slot_at P rows (segment_blocks a * block_size a) ks (slots ! i) (hk ! i)
            \<and> slot_at P rows (segment_blocks a * block_size a) vs (slots ! i) (hv ! i)
        | Quantized s \<Rightarrow> False)"

definition cache_restored ::
    "'t set \<Rightarrow> 't set \<Rightarrow> ('t \<Rightarrow> 'r list) \<Rightarrow> ('t, 'f) block_allocator \<Rightarrow> 't paged_cache \<Rightarrow> 'r list \<Rightarrow> 'r list \<Rightarrow> bool" where
  "cache_restored P D rows a c hk hv \<longleftrightarrow>
     alloc_inv a \<and> table_ok (c_block_size c) (table c) \<and> cache_refs c \<subseteq># refs_of a
     \<and> slots_fit (c_block_size c) a \<and> retired_ok D rows a
     \<and> contig_k c = None \<and> contig_v c = None \<and> contig_len c = 0
     \<and> pool_holds P rows a (cached_slots (table c)) hk hv"

text \<open>What an append may start from: a cache with its buffer, or one restored from shared blocks.\<close>

definition cache_ready ::
    "('t, 'f) tensor_ops \<Rightarrow> 't set \<Rightarrow> 't set \<Rightarrow> ('t \<Rightarrow> 'r list) \<Rightarrow> ('t, 'f) block_allocator \<Rightarrow> 't paged_cache \<Rightarrow>
     'r list \<Rightarrow> 'r list \<Rightarrow> bool" where
  "cache_ready T P D rows a c hk hv \<longleftrightarrow>
     cache_holds D rows a c hk hv \<or> (pool_laws T P D rows \<and> cache_restored P D rows a c hk hv)"

section \<open>A pool that grows keeps its rows\<close>

text \<open>Segments are only added.\<close>

definition more_segments :: "('t, 'f) block_allocator \<Rightarrow> ('t, 'f) block_allocator \<Rightarrow> bool" where
  "more_segments a a' \<longleftrightarrow> segment_blocks a' = segment_blocks a \<and> block_size a' = block_size a
     \<and> (\<forall>ks vs. pool a = Full ks vs \<longrightarrow> (\<exists>ks' vs'. pool a' = Full (ks @ ks') (vs @ vs')))"

lemma more_segments_same:
  "pool a' = pool a \<Longrightarrow> segment_blocks a' = segment_blocks a \<Longrightarrow> block_size a' = block_size a \<Longrightarrow> more_segments a a'"
  by (auto simp: more_segments_def)

lemma more_segments_trans: "more_segments a b \<Longrightarrow> more_segments b c \<Longrightarrow> more_segments a c"
  unfolding more_segments_def by fastforce

lemma grow_segments: "grow zeros fz a = Inr a' \<Longrightarrow> more_segments a a'"
  by (auto simp: grow_def grow_pool_def more_segments_def Let_def split: if_splits kv_pool.splits option.splits sum.splits)

lemma allocate_segments:
  assumes "allocate zeros fz a = (a', r)"
  shows "more_segments a a'"
proof (cases "free_list a = []")
  case False
  then show ?thesis using assms by (auto simp: allocate_def Let_def more_segments_same split: if_splits)
next
  case True
  show ?thesis
  proof (cases "grow zeros fz a")
    case (Inl e)
    then show ?thesis using assms True by (simp add: allocate_def more_segments_same)
  next
    case (Inr a1)
    have "more_segments a1 a'" using assms True Inr
      by (auto simp: allocate_def Let_def more_segments_same split: if_splits)
    then show ?thesis using more_segments_trans grow_segments [OF Inr] by blast
  qed
qed

lemma next_block_segments: "next_block zeros fz a c = (a', c', r) \<Longrightarrow> more_segments a a'"
  by (auto simp: next_block_def Let_def more_segments_same split: sum.splits if_splits prod.splits dest: allocate_segments)

lemma fill_blocks_segments:
  "fill_blocks zeros fz n w rs a c = (a', c', r) \<Longrightarrow> more_segments a a'"
proof (induction "n - w" arbitrary: w rs a c rule: less_induct)
  case less
  show ?case
  proof (cases "w < n \<and> 0 < c_block_size c")
    case False
    then show ?thesis using less.prems by (auto simp: fill_blocks.simps [of zeros fz n w] more_segments_same split: if_splits)
  next
    case True
    define m where "m = min (n - w) (c_block_size c - num_tokens (table c) mod c_block_size c)"
    have m: "0 < m" using True by (auto simp: m_def)
    obtain a1 c1 r1 where nb: "next_block zeros fz a c = (a1, c1, r1)" by (metis prod_cases3)
    note seg = next_block_segments [OF nb]
    have "n - (w + m) < n - w" using m True by linarith
    note ih = less.hyps [OF this, THEN more_segments_trans [OF seg]]
    show ?thesis using less.prems True nb seg
      by (auto simp: fill_blocks.simps [of zeros fz n w] Let_def simp flip: m_def
          split: sum.splits option.splits dest!: ih)
  qed
qed

lemma slot_at_append: "slot_at P rows per ts slot r \<Longrightarrow> slot_at P rows per (ts @ ts') slot r"
  by (auto simp: slot_at_def nth_append)

lemma pool_holds_grown:
  assumes "pool_holds P rows a slots hk hv" and "more_segments a a'"
  shows "pool_holds P rows a' slots hk hv"
proof (cases "pool a")
  case (Full ks vs)
  then obtain ks' vs' where "pool a' = Full (ks @ ks') (vs @ vs')" using assms(2) by (auto simp: more_segments_def)
  then show ?thesis using assms Full by (auto simp: pool_holds_def more_segments_def slot_at_append)
qed (use assms in \<open>simp add: pool_holds_def\<close>)

section \<open>Gathering the tail\<close>

lemma map_of_distinct_rows:
  assumes "length xs = length slots" and "\<forall>i < length slots. Q (slots ! i) (xs ! i)"
    and "\<And>s x y. Q s x \<Longrightarrow> Q s y \<Longrightarrow> x = y"
  shows "\<exists>f. map f slots = xs \<and> (\<forall>s \<in> set slots. Q s (f s))"
proof -
  define f where "f s = (THE x. Q s x)" for s
  have f: "f (slots ! i) = xs ! i" if "i < length slots" for i
    unfolding f_def by (rule the_equality) (use assms(2,3) that in blast)+
  have "map f slots = xs" by (rule nth_equalityI) (simp_all add: assms(1) f)
  moreover have "\<forall>s \<in> set slots. Q s (f s)" using assms(2) f by (auto simp: in_set_conv_nth)
  ultimately show ?thesis by blast
qed

lemma slot_at_unique: "slot_at P rows per ts s x \<Longrightarrow> slot_at P rows per ts s y \<Longrightarrow> x = y"
  by (simp add: slot_at_def row_at_def)

lemma slots_rows:
  assumes "length xs = length slots" and "\<forall>i < length slots. slot_at P rows per ts (slots ! i) (xs ! i)"
  shows "\<exists>f. map f slots = xs \<and> (\<forall>s \<in> set slots. slot_at P rows per ts s (f s))"
  using assms slot_at_unique [of P rows per ts] by (rule map_of_distinct_rows)

lemma gather_holds:
  assumes laws: "pool_laws T P D rows" and holds: "pool_holds P rows a slots hk hv" and ne: "slots \<noteq> []"
  shows "\<exists>k v. gather T Q fz a slots = Inr (k, v) \<and> k \<in> D \<and> v \<in> D \<and> rows k = hk \<and> rows v = hv"
proof (cases "pool a")
  case (Full ks vs)
  let ?per = "segment_blocks a * block_size a"
  have h: "0 < ?per" "length hk = length slots" "length hv = length slots"
      "\<forall>i < length slots. slot_at P rows ?per ks (slots ! i) (hk ! i)"
      "\<forall>i < length slots. slot_at P rows ?per vs (slots ! i) (hv ! i)"
    using holds by (simp_all add: pool_holds_def Full)
  obtain fk where fk: "map fk slots = hk" "\<forall>s \<in> set slots. slot_at P rows ?per ks s (fk s)"
    using slots_rows [OF h(2,4)] by blast
  obtain fv where fv: "map fv slots = hv" "\<forall>s \<in> set slots. slot_at P rows ?per vs s (fv s)"
    using slots_rows [OF h(3,5)] by blast
  show ?thesis using gather_reads_slots [OF laws Full h(1) ne, of fk fv Q fz] fk fv by blast
qed (use holds in \<open>simp add: pool_holds_def\<close>)

lemma pool_holds_drop:
  "pool_holds P rows a slots hk hv \<Longrightarrow> pool_holds P rows a (drop n slots) (drop n hk) (drop n hv)"
  by (auto simp: pool_holds_def split: kv_pool.splits)

lemma append_fresh_gathers:
  assumes laws: "tensor_laws T D rows" "pool_laws T P D rows" and ret: "retired_ok D rows a"
    and new: "pair_ok D rows n (nk, nv)" and old: "old + n = keep_of c live n" "old \<le> prev"
    and slots: "take prev (cached_slots (table c)) = slots" "length slots = prev" "pool_holds P rows a slots hk hv"
  shows "\<exists>B' a' c'. append_fresh T Q fz B a (c\<lparr>contig_k := None, contig_v := None\<rparr>) prev (old + n) old (nk, nv) =
      (B', a', c', Inr ()) \<and> retired_ok D rows a' \<and> buf_ok D rows c' \<and> contig_len c' = old + n \<and> contig_k c' \<noteq> None
      \<and> view rows (contig_k c') c' = lastn (old + n) (hk @ rows nk)
      \<and> view rows (contig_v c') c' = lastn (old + n) (hv @ rows nv)"
proof -
  let ?c = "c\<lparr>contig_k := None, contig_v := None\<rparr>"
  obtain B1 a1 ak av am where aq: "acquire_contig T B a ?c (old + n) =
        (B1, a1, Inr (ak, av, am))" "retired_ok D rows a1" "pair_ok D rows am (ak, av)" "old + n \<le> am"
    using acquire_contig_ok [OF laws(1) ret, of B ?c "old + n"] by (auto simp: pair_ok_def)
  have a1: "only_contig a a1" using aq(1) only_contig_take
    by (auto simp: acquire_contig_def Let_def split: prod.splits option.splits)
  then have holds: "pool_holds P rows a1 slots hk hv"
    by (intro pool_holds_grown [OF slots(3)]) (auto simp: only_contig_def more_segments_same)
  have len: "length hk = prev" "length hv = prev" using slots(2,3) by (simp_all add: pool_holds_def)
  have enough: "\<not> length (cached_slots (table c)) < prev" using slots(1,2) by auto
  have sl: "take old (drop (prev - old) (cached_slots (table c))) = drop (prev - old) slots"
    using old(2) unfolding slots(1) [symmetric] by (simp add: drop_take)
  obtain kv1 where kv1: "(if 0 < old then
        (if length (cached_slots (table c)) < prev then Inl Panic
         else (case gather T Q fz a1 (take old (drop (prev - old) (cached_slots (table c)))) of
                 Inl e \<Rightarrow> Inl e
               | Inr (pk, pv) \<Rightarrow>
                   (case (t_contiguous T pk, t_contiguous T pv) of
                      (Some pk', Some pv') \<Rightarrow>
                        (case set_pair T (ak, av) (pk', pv') 0 of
                           None \<Rightarrow> Inl Tensor_failed | Some kv \<Rightarrow> Inr kv)
                    | _ \<Rightarrow> Inl Tensor_failed)))
       else Inr (ak, av)) = Inr kv1"
      "pair_ok D rows am kv1" "take old (rows (fst kv1)) = lastn old hk" "take old (rows (snd kv1)) = lastn old hv"
  proof (cases "0 < old")
    case True
    then have ne: "drop (prev - old) slots \<noteq> []" using slots(2) old(2) by simp
    obtain pk pv where g: "gather T Q fz a1 (drop (prev - old) slots) = Inr (pk, pv)" "pk \<in> D" "pv \<in> D"
        "rows pk = lastn old hk" "rows pv = lastn old hv"
      using gather_holds [OF laws(2) pool_holds_drop [OF holds] ne, of Q fz] by (auto simp: lastn_def len)
    obtain pk' pv' where p: "pk' \<in> D" "t_contiguous T pk = Some pk'" "rows pk' = rows pk"
        "pv' \<in> D" "t_contiguous T pv = Some pv'" "rows pv' = rows pv"
      using contiguous_ok [OF laws(1) g(2)] contiguous_ok [OF laws(1) g(3)] by blast
    have pp: "pair_ok D rows old (pk', pv')" using p g len old(2) by (simp add: pair_ok_def)
    obtain kv where kv: "set_pair T (ak, av) (pk', pv') 0 = Some kv" "pair_ok D rows am kv"
        "rows (fst kv) = rows pk' @ drop old (rows ak)" "rows (snd kv) = rows pv' @ drop old (rows av)"
      using set_pair_ok [OF laws(1) aq(3) pp, of 0] aq(4) by auto
    have "take old (rows (fst kv)) = lastn old hk" "take old (rows (snd kv)) = lastn old hv"
      using kv(3,4) p(3,6) g(4,5) len old(2) by simp_all
    then show ?thesis using that [of kv] True kv(1,2) enough g(1) p(2,5) by (simp add: sl)
  qed (use that aq(3) in \<open>simp add: lastn_def len\<close>)
  obtain p where p: "set_pair T kv1 (nk, nv) old = Some p" "pair_ok D rows am p"
      "rows (fst p) = take old (rows (fst kv1)) @ rows nk @ drop (old + n) (rows (fst kv1))"
      "rows (snd p) = take old (rows (snd kv1)) @ rows nv @ drop (old + n) (rows (snd kv1))"
    using set_pair_ok [OF laws(1) kv1(2) new, of old] aq(4) by auto
  define c' where "c' = ?c\<lparr>contig_start := 0, contig_len := old + n, contig_k := Some (fst p), contig_v := Some (snd p)\<rparr>"
  have "append_fresh T Q fz B a ?c prev (old + n) old (nk, nv) = (B1, a1, c', Inr ())"
    using kv1(1) p(1) enough aq(1)
    by (cases "0 < old"; cases p; cases kv1) (simp_all add: append_fresh_def Let_def min_absorb1 [OF old(2)] c'_def)
  moreover have "view rows (contig_k c') c' = lastn (old + n) (hk @ rows nk)"
    "view rows (contig_v c') c' = lastn (old + n) (hv @ rows nv)"
    using p(3,4) kv1(3,4) new lastn_append_new [of old hk "rows nk"] lastn_append_new [of old hv "rows nv"] len old(2)
    by (simp_all add: view_def c'_def pair_ok_def)
  moreover have "buf_ok D rows c'" using p(2) aq(4) by (auto simp: buf_ok_def c'_def pair_ok_def)
  ultimately show ?thesis using aq(2) by (auto simp: c'_def)
qed

end
