(* ===== verification/Cache_View_Props.thy ===== *)
theory Cache_View_Props
  imports Cache_Gather
begin

text \<open>The properties of the view: appends, roll-backs, and a run of them on concrete tensors.\<close>

section \<open>Appending\<close>

text \<open>Blocks and slots for the new tokens come first, whatever the buffer does then.\<close>

lemma append_tokens_fill:
  assumes laws: "tensor_laws T D rows"
    and own: "alloc_inv a" "table_ok (c_block_size c) (table c)" "cache_refs c \<subseteq># refs_of a" "slots_fit (c_block_size c) a"
    and pre: "append_pre c"
    and room: "div_ceil (num_tokens (table c) + n) (c_block_size c) \<le> length (block_ids (table c)) + num_free a"
    and flat: "t_contiguous T (fst flat) = Some fk" "t_contiguous T (snd flat) = Some fv"
  shows "\<exists>a1 c2. append_tokens T Q fz B a c n flat new_k new_v = append_buffer T Q fz B a1 c2 (num_tokens (table c)) n new_k new_v
    \<and> more_segments a a1 \<and> contig_pool a1 = contig_pool a
    \<and> contig_k c2 = contig_k c \<and> contig_v c2 = contig_v c \<and> contig_len c2 = contig_len c
    \<and> contig_start c2 = contig_start c \<and> window c2 = window c \<and> c_block_size c2 = c_block_size c
    \<and> take (num_tokens (table c)) (cached_slots (table c2)) = cached_slots (table c)"
proof -
  obtain a1 c1 r where fb: "fill_blocks (t_zeros T) fz n 0 [] a c = (a1, c1, r)" by (metis prod_cases3)
  have zs: "\<forall>shape. t_zeros T shape \<noteq> None" using laws by (simp add: tensor_laws_def)
  obtain rs where r: "r = Inr rs" and post: "fill_post (c_block_size c) n 0 [] a c a1 c1 r"
    using fill_blocks_spec [OF own(1,2) refl own(3,4) fb] zs room by auto
  define c2 where "c2 = (if rs = [] then c1
    else c1\<lparr>pending_writes := pending_writes c1 @ [\<lparr>k_src = fk, v_src = fv, runs = rs\<rparr>]\<rparr>)"
  have c1: "c1 = c\<lparr>table := table c1\<rparr>" using post by (simp add: fill_post_def)
  have "append_tokens T Q fz B a c n flat new_k new_v = append_buffer T Q fz B a1 c2 (num_tokens (table c)) n new_k new_v"
    using fb r flat pre by (cases "rs = []") (simp_all add: append_tokens_def c2_def Let_def)
  moreover have "take (num_tokens (table c)) (cached_slots (table c2)) = cached_slots (table c)"
    using post by (simp add: fill_post_def c2_def)
  ultimately show ?thesis
    using table_update_frame [OF c1] fill_blocks_segments [OF fb] fill_blocks_contig [OF fb]
    by (intro exI [of _ a1] exI [of _ c2]) (simp add: c2_def)
qed

text \<open>The same from shared blocks: the buffer is built of the gathered tail and the new rows.\<close>

lemma append_buffer_restored:
  assumes laws: "tensor_laws T D rows" "pool_laws T P D rows" and ret: "retired_ok D rows a"
    and none: "contig_k c = None" "contig_v c = None"
    and slots: "take prev (cached_slots (table c)) = slots" "length slots = prev" "pool_holds P rows a slots hk hv"
    and new: "pair_ok D rows n (nk, nv)" and n: "0 < n"
  shows "\<exists>B' a' c' k' v'. append_buffer T Q fz B a c prev n nk nv = (B', a', c', Inr (k', v'))
    \<and> retired_ok D rows a' \<and> buf_ok D rows c' \<and> contig_k c' \<noteq> None
    \<and> view rows (contig_k c') c' = lastn (contig_len c') (hk @ rows nk)
    \<and> view rows (contig_v c') c' = lastn (contig_len c') (hv @ rows nv)
    \<and> contig_len c' \<le> prev + n
    \<and> (case window c of None \<Rightarrow> prev + n | Some w \<Rightarrow> min (prev + n) (w + n)) \<le> contig_len c'
    \<and> rows k' = view rows (contig_k c') c' \<and> rows v' = view rows (contig_v c') c'"
proof -
  define live where "live = live_before c prev n"
  define keep where "keep = keep_of c live n"
  have live: "live \<le> prev" using none by (auto simp: live_def live_before_def split: option.splits)
  have kb: "n \<le> keep" "keep \<le> live + n" unfolding keep_def by (rule keep_of_bounds)+
  have wide: "(case window c of None \<Rightarrow> prev + n | Some w \<Rightarrow> min (prev + n) (w + n)) \<le> keep"
    using none by (auto simp: keep_def live_def keep_of_def live_before_def window_span_def window_keep_margin_def
        split: option.splits)
  have old: "(keep - n) + n = keep_of c live n" "keep - n \<le> prev" using kb live by (auto simp: keep_def)
  obtain mk mv where m: "t_narrow T nk 2 0 n = Some mk" "t_narrow T nv 2 0 n = Some mv"
      "pair_ok D rows n (mk, mv)" "rows mk = rows nk" "rows mv = rows nv"
    using narrow_ok [OF laws(1), of nk 0 n] narrow_ok [OF laws(1), of nv 0 n] new by (auto simp: pair_ok_def)
  obtain B' a' c' where st: "append_fresh T Q fz B a (c\<lparr>contig_k := None, contig_v := None\<rparr>) prev (keep - n + n) (keep - n) (mk, mv)
        = (B', a', c', Inr ())" "retired_ok D rows a'" "buf_ok D rows c'" "contig_len c' = keep - n + n" "contig_k c' \<noteq> None"
      "view rows (contig_k c') c' = lastn (keep - n + n) (hk @ rows nk)"
      "view rows (contig_v c') c' = lastn (keep - n + n) (hv @ rows nv)"
    using append_fresh_gathers [OF laws ret m(3) old slots, of Q fz B] unfolding m(4,5) by blast
  have kn: "keep - n + n = keep" using kb by simp
  obtain k v where kv: "contig_k c' = Some k" "contig_v c' = Some v" "pair_ok D rows (length (rows k)) (k, v)"
      "contig_start c' + contig_len c' \<le> length (rows k)"
    using st(3,5) by (auto simp: buf_ok_def pair_ok_def split: option.splits)
  have pos: "0 < contig_len c'" using st(4) kb n by simp
  obtain k' v' where cur: "current_kv T c' = Inr (k', v')" "rows k' = view rows (contig_k c') c'"
      "rows v' = view rows (contig_v c') c'"
    using narrow_ok [OF laws(1), of k "contig_start c'" "contig_len c'"]
      narrow_ok [OF laws(1), of v "contig_start c'" "contig_len c'"] kv pos
    by (auto simp: current_kv_def view_def pair_ok_def)
  have "append_buffer T Q fz B a c prev n nk nv = (B', a', c', current_kv T c')"
    using n kb m(1,2) st(1) none by (simp add: append_buffer_def append_contig_def kn Let_def min_absorb1
        flip: live_def keep_def)
  then show ?thesis using cur st(2-7) wide kb live unfolding kn by auto
qed

text \<open>Either way the buffer ends with the tail of the whole sequence.\<close>

lemma append_tokens_view:
  assumes laws: "tensor_laws T D rows" and ready: "cache_ready T P D rows a c hk hv"
    and new: "pair_ok D rows n (new_k, new_v)" and n: "0 < n"
    and room: "div_ceil (num_tokens (table c) + n) (c_block_size c) \<le> length (block_ids (table c)) + num_free a"
    and flat: "t_contiguous T (fst flat) = Some fk" "t_contiguous T (snd flat) = Some fv"
  shows "\<exists>B' a' c' k v. append_tokens T Q fz B a c n flat new_k new_v = (B', a', c', Inr (k, v))
    \<and> rows k = view rows (contig_k c') c' \<and> rows v = view rows (contig_v c') c'
    \<and> buf_ok D rows c' \<and> retired_ok D rows a' \<and> window c' = window c \<and> c_block_size c' = c_block_size c
    \<and> view rows (contig_k c') c' = lastn (contig_len c') (hk @ rows new_k)
    \<and> view rows (contig_v c') c' = lastn (contig_len c') (hv @ rows new_v)
    \<and> contig_len c' \<le> num_tokens (table c) + n
    \<and> (case window c of None \<Rightarrow> num_tokens (table c) + n | Some w \<Rightarrow> min (num_tokens (table c) + n) (w + n)) \<le> contig_len c'"
proof (cases "cache_holds D rows a c hk hv")
  case True
  note h = True [unfolded cache_holds_def]
  obtain a1 c2 where f: "append_tokens T Q fz B a c n flat new_k new_v = append_buffer T Q fz B a1 c2 (num_tokens (table c)) n new_k new_v"
      "contig_pool a1 = contig_pool a"
      "contig_k c2 = contig_k c" "contig_v c2 = contig_v c" "contig_len c2 = contig_len c"
      "contig_start c2 = contig_start c" "window c2 = window c" "c_block_size c2 = c_block_size c"
    using append_tokens_fill [OF laws _ _ _ _ cache_holds_pre [OF True] room flat, of Q fz B new_k new_v] h by auto
  have same: "buf_ok D rows c2" "holds_tail rows c2 = holds_tail rows c"
    using buf_ok_cong [of c2 c D rows] f h by auto
  have ret: "retired_ok D rows a1" using h f(2) by (simp add: retired_ok_def)
  have prev: "contig_k c2 = None \<longrightarrow> num_tokens (table c) = 0" using h f(3) by simp
  obtain B' a' c' k v where ab:
      "append_buffer T Q fz B a1 c2 (num_tokens (table c)) n new_k new_v = (B', a', c', Inr (k, v))"
      "retired_ok D rows a'" "buf_ok D rows c'" "holds_tail rows c n new_k new_v c'"
      "rows k = view rows (contig_k c') c'" "rows v = view rows (contig_v c') c'"
    using append_buffer_view [OF laws same(1) ret new n prev, of Q fz B] same(2) by auto
  have fr: "window c' = window c" "c_block_size c' = c_block_size c"
    using append_buffer_frame [OF ab(1)] f by (auto simp: same_table_def)
  have hist: "view rows (contig_k c') c' = lastn (contig_len c') (hk @ rows new_k)"
      "view rows (contig_v c') c' = lastn (contig_len c') (hv @ rows new_v)"
    using holds_tail_history [OF ab(4), of hk hv] h new by (auto simp: pair_ok_def)
  have len: "contig_len c' \<le> num_tokens (table c) + n" "keep_of c (contig_len c) n \<le> contig_len c'"
    using ab(4) h by (auto simp: holds_tail_def)
  have "(case window c of None \<Rightarrow> num_tokens (table c) + n
      | Some w \<Rightarrow> min (num_tokens (table c) + n) (w + n)) \<le> contig_len c'"
    using h len(2) by (auto simp: keep_of_def window_span_def window_keep_margin_def split: option.splits)
  then show ?thesis using f(1) ab fr hist len(1) by auto
next
  case False
  then have pl: "pool_laws T P D rows" and r: "cache_restored P D rows a c hk hv"
    using ready by (simp_all add: cache_ready_def)
  note h = r [unfolded cache_restored_def]
  have pre: "append_pre c" using h by (simp add: append_pre_def)
  obtain a1 c2 where f: "append_tokens T Q fz B a c n flat new_k new_v = append_buffer T Q fz B a1 c2 (num_tokens (table c)) n new_k new_v"
      "more_segments a a1" "contig_pool a1 = contig_pool a" "contig_k c2 = None" "contig_v c2 = None"
      "window c2 = window c" "c_block_size c2 = c_block_size c"
      "take (num_tokens (table c)) (cached_slots (table c2)) = cached_slots (table c)"
    using append_tokens_fill [OF laws _ _ _ _ pre room flat, of Q fz B new_k new_v] h by auto
  have ret: "retired_ok D rows a1" using h f(3) by (simp add: retired_ok_def)
  have pool: "pool_holds P rows a1 (cached_slots (table c)) hk hv" using h f(2) by (blast intro: pool_holds_grown)
  have sl: "length (cached_slots (table c)) = num_tokens (table c)" using h by (simp add: table_ok_def)
  obtain B' a' c' k v where ab:
      "append_buffer T Q fz B a1 c2 (num_tokens (table c)) n new_k new_v = (B', a', c', Inr (k, v))"
      "retired_ok D rows a'" "buf_ok D rows c'"
      "view rows (contig_k c') c' = lastn (contig_len c') (hk @ rows new_k)"
      "view rows (contig_v c') c' = lastn (contig_len c') (hv @ rows new_v)"
      "contig_len c' \<le> num_tokens (table c) + n"
      "(case window c2 of None \<Rightarrow> num_tokens (table c) + n | Some w \<Rightarrow> min (num_tokens (table c) + n) (w + n)) \<le> contig_len c'"
      "rows k = view rows (contig_k c') c'" "rows v = view rows (contig_v c') c'"
    using append_buffer_restored [OF laws pl ret f(4,5,8) sl pool new n, of Q fz B] by blast
  have "window c' = window c" "c_block_size c' = c_block_size c"
    using append_buffer_frame [OF ab(1)] f(6,7) by (auto simp: same_table_def)
  then show ?thesis using f(1) ab(1-6,8,9) ab(7)[unfolded f(6)] by auto
qed

lemma cache_ready_own:
  assumes "cache_ready T P D rows a c hk hv"
  shows "alloc_inv a" "table_ok (c_block_size c) (table c)" "cache_refs c \<subseteq># refs_of a" "slots_fit (c_block_size c) a"
    "length hk = num_tokens (table c)" "length hv = num_tokens (table c)"
  using assms by (auto simp: cache_ready_def cache_holds_def cache_restored_def pool_holds_def table_ok_def)

lemma append_view:
  assumes laws: "tensor_laws T D rows" and ready: "cache_ready T P D rows a c hk hv"
    and new: "pair_ok D rows n (new_k, new_v)" and n: "0 < n"
    and room: "div_ceil (num_tokens (table c) + n) (c_block_size c) \<le> length (block_ids (table c)) + num_free a"
  shows "\<exists>B' a' c' k v. cache_append T Q fz B a c new_k new_v = (B', a', c', Inr (k, v))
    \<and> cache_holds D rows a' c' (hk @ rows new_k) (hv @ rows new_v)
    \<and> rows k = lastn (length (rows k)) (hk @ rows new_k)
    \<and> rows v = lastn (length (rows k)) (hv @ rows new_v)
    \<and> (case window c of None \<Rightarrow> rows k = hk @ rows new_k
       | Some w \<Rightarrow> min (length hk + n) (w + n) \<le> length (rows k))
    \<and> window c' = window c \<and> contig_len c' = length (rows k)"
proof -
  note h = cache_ready_own [OF ready]
  have D: "new_k \<in> D" "new_v \<in> D" "length (rows new_k) = n" "length (rows new_v) = n"
    using new by (auto simp: pair_ok_def)
  obtain k1 v1 where c1: "t_contiguous T new_k = Some k1" "k1 \<in> D" "rows k1 = rows new_k"
      "t_contiguous T new_v = Some v1" "v1 \<in> D" "rows v1 = rows new_v"
    using contiguous_ok [OF laws D(1)] contiguous_ok [OF laws D(2)] by blast
  obtain x y z where dims: "t_dims4 T new_k = Some (x, y, n, z)"
    using dims4_ok [OF laws D(1)] D(3) by auto
  obtain fk gk fv gv where flat: "tokens_first T k1 = Some fk" "t_contiguous T fk = Some gk"
      "tokens_first T v1 = Some fv" "t_contiguous T fv = Some gv"
    using tokens_first_ok [OF laws c1(2)] tokens_first_ok [OF laws c1(5)] by blast
  have new1: "pair_ok D rows n (k1, v1)" using c1 D by (simp add: pair_ok_def)
  obtain B' a' c' k v where ap: "append_tokens T Q fz B a c n (fk, fv) k1 v1 = (B', a', c', Inr (k, v))"
      "rows k = view rows (contig_k c') c'" "rows v = view rows (contig_v c') c'" "buf_ok D rows c'"
      "retired_ok D rows a'" "window c' = window c" "c_block_size c' = c_block_size c"
      "view rows (contig_k c') c' = lastn (contig_len c') (hk @ rows new_k)"
      "view rows (contig_v c') c' = lastn (contig_len c') (hv @ rows new_v)"
      "contig_len c' \<le> num_tokens (table c) + n"
      "(case window c of None \<Rightarrow> num_tokens (table c) + n | Some w \<Rightarrow> min (num_tokens (table c) + n) (w + n)) \<le> contig_len c'"
    using append_tokens_view [OF laws ready new1 n room, of "(fk, fv)" gk gv Q fz B] flat c1(3,6) by auto
  have ca: "cache_append T Q fz B a c new_k new_v = (B', a', c', Inr (k, v))"
    using ap(1) by (simp add: cache_append_def dims c1 flat)
  have b: "alloc_inv a'" "cache_refs c' \<subseteq># refs_of a'" "max_blocks a' = max_blocks a"
      "table_ok (c_block_size c) (table c')" "num_tokens (table c') = num_tokens (table c) + n"
    using append_blocks [OF h(1-4) ca] dims by auto
  have lk: "length (rows k) = contig_len c'" using ap(2) view_lengths(1) [OF ap(4)] by simp
  have "0 < contig_len c'" using ap(11) n by (auto split: option.splits)
  then have some: "contig_k c' \<noteq> None" using ap(4) by (auto simp: buf_ok_def split: option.splits)
  have "(case window c' of None \<Rightarrow> num_tokens (table c') | Some w \<Rightarrow> min (num_tokens (table c')) w) \<le> contig_len c'"
    using ap(11) b(5) by (auto simp: ap(6) split: option.splits)
  then have "cache_holds D rows a' c' (hk @ rows new_k) (hv @ rows new_v)"
    using b ap(4,5,7-10) some h D by (auto simp: cache_holds_def slots_fit_def)
  moreover have "case window c of None \<Rightarrow> rows k = hk @ rows new_k
       | Some w \<Rightarrow> min (length hk + n) (w + n) \<le> length (rows k)"
    using ap(2,8,10,11) lk h(5) D by (auto simp: lastn_def split: option.splits)
  ultimately show ?thesis using ca ap(2,3,6,8,9) lk by auto
qed

section \<open>Rolling back\<close>

lemma take_lastn:
  assumes "l \<le> length xs" and "m \<le> length xs"
  shows "take (l - (length xs - m)) (lastn l xs) = lastn (l - (length xs - m)) (take m xs)"
proof (cases "length xs \<le> l + m")
  case True
  then show ?thesis using assms by (simp add: lastn_def take_drop)
next
  case False
  then show ?thesis by (simp add: lastn_def)
qed

lemma view_shrink:
  "contig_k c' = contig_k c \<Longrightarrow> contig_v c' = contig_v c \<Longrightarrow> contig_start c' = contig_start c \<Longrightarrow>
   contig_len c' \<le> contig_len c \<Longrightarrow>
   view rows (contig_k c') c' = take (contig_len c') (view rows (contig_k c) c)
   \<and> view rows (contig_v c') c' = take (contig_len c') (view rows (contig_v c) c)"
  by (simp add: view_def min_def split: option.splits)

lemma table_ok_truncate:
  assumes "table_ok bs t" and "m \<le> num_tokens t"
  shows "table_ok bs (t\<lparr>block_ids := take (div_ceil m bs) (block_ids t),
    cached_slots := take m (cached_slots t), num_tokens := m\<rparr>)"
proof -
  have bs: "0 < bs" using assms(1) by (simp add: table_ok_def)
  have "div_ceil m bs * bs < Suc (div_ceil (num_tokens t) bs) * bs"
    using div_ceil_bounds(2) [OF bs, of m] div_ceil_bounds(1) [OF bs, of "num_tokens t"] assms(2) by simp
  then have mono: "div_ceil m bs \<le> div_ceil (num_tokens t) bs"
    by (simp only: mult_less_cancel2) simp
  have "i div bs < div_ceil m bs" if "i < m" for i
    using that div_ceil_bounds(1) [OF bs, of m] by (intro less_mult_imp_div_less) simp
  then show ?thesis using assms mono by (auto simp: table_ok_def)
qed

lemma set_num_tokens_holds:
  assumes holds: "cache_holds D rows a c hk hv" and m: "m \<le> num_tokens (table c)"
    and margin: "case window c of None \<Rightarrow> True
      | Some w \<Rightarrow> min m w + (num_tokens (table c) - m) \<le> contig_len c"
    and a': "alloc_inv a'" "mset (take (div_ceil m (c_block_size c)) (block_ids (table c))) \<subseteq># refs_of a'"
      "max_blocks a' = max_blocks a" "contig_pool a' = contig_pool a"
  shows "cache_holds D rows a'
    (set_num_tokens (c\<lparr>table := (table c)\<lparr>block_ids :=
        take (div_ceil m (c_block_size c)) (block_ids (table c))\<rparr>\<rparr>) m)
    (take m hk) (take m hv)"
proof -
  note h = holds [unfolded cache_holds_def]
  define c' where "c' = set_num_tokens (c\<lparr>table := (table c)\<lparr>block_ids :=
      take (div_ceil m (c_block_size c)) (block_ids (table c))\<rparr>\<rparr>) m"
  let ?l = "contig_len c - (num_tokens (table c) - m)"
  have f: "contig_k c' = contig_k c" "contig_v c' = contig_v c" "contig_start c' = contig_start c"
      "contig_len c' = ?l" "window c' = window c" "c_block_size c' = c_block_size c"
      "table c' = (table c)\<lparr>block_ids := take (div_ceil m (c_block_size c)) (block_ids (table c)),
         cached_slots := take m (cached_slots (table c)), num_tokens := m\<rparr>"
    by (simp_all add: c'_def set_num_tokens_def Let_def)
  have len: "length hk = num_tokens (table c)" "length hv = num_tokens (table c)"
      "contig_len c \<le> num_tokens (table c)" using h by auto
  have views: "view rows (contig_k c') c' = lastn ?l (take m hk)"
      "view rows (contig_v c') c' = lastn ?l (take m hv)"
    using view_shrink [of c' c rows] f h len take_lastn [of "contig_len c" hk m]
      take_lastn [of "contig_len c" hv m] m by auto
  have buf: "buf_ok D rows c'" using h f by (auto simp: buf_ok_def split: option.splits)
  have tab: "table_ok (c_block_size c) (table c')" using table_ok_truncate [of "c_block_size c" "table c" m] h m f
    by simp
  show ?thesis unfolding c'_def [symmetric] cache_holds_def
    using views buf tab f a' h m len margin
    by (auto simp: slots_fit_def retired_ok_def cache_refs_def split: option.splits)
qed

lemma free_frame: "free a b = Some a' \<Longrightarrow> max_blocks a' = max_blocks a \<and> contig_pool a' = contig_pool a"
  by (auto simp: free_def Let_def split: if_splits)

lemma each_free_frame:
  "each_id free a bs = Some a' \<Longrightarrow> max_blocks a' = max_blocks a \<and> contig_pool a' = contig_pool a"
  by (induction bs arbitrary: a) (auto split: option.splits dest: free_frame)

lemma truncate_view:
  assumes holds: "cache_holds D rows a c hk hv" and pend: "pending_writes c = []"
    and m: "m \<le> num_tokens (table c)"
    and margin: "case window c of None \<Rightarrow> True
      | Some w \<Rightarrow> min m w + (num_tokens (table c) - m) \<le> contig_len c"
  shows "\<exists>a' c'. truncate_to T Q fz a c m = (a', c', Inr ())
    \<and> cache_holds D rows a' c' (take m hk) (take m hv) \<and> num_tokens (table c') = m
    \<and> block_ids (table c') = take (div_ceil m (c_block_size c)) (block_ids (table c))
    \<and> refs_of a' + mset (drop (div_ceil m (c_block_size c)) (block_ids (table c))) = refs_of a"
proof -
  note h = holds [unfolded cache_holds_def]
  let ?ids = "block_ids (table c)" and ?b = "div_ceil m (c_block_size c)"
  have bs: "0 < c_block_size c" using h by (simp add: table_ok_def)
  have split: "cache_refs c = mset (take ?b ?ids) + mset (drop ?b ?ids)"
    unfolding cache_refs_def by (simp flip: mset_append)
  show ?thesis
  proof (cases "m = num_tokens (table c)")
    case True
    then show ?thesis using holds h by (auto simp: truncate_to_def table_ok_def)
  next
    case False
    then have lt: "m < num_tokens (table c)" using m by simp
    have fl: "flush_pending T Q fz a c = (a, c, Inr ())" by (simp add: flush_pending_def pend)
    have sub: "mset (drop ?b ?ids) \<subseteq># refs_of a"
    proof (rule subset_mset.order_trans)
      show "mset (drop ?b ?ids) \<subseteq># cache_refs c" by (simp add: split)
      show "cache_refs c \<subseteq># refs_of a" using h by simp
    qed
    obtain a' where a': "each_id free a (drop ?b ?ids) = Some a'" "alloc_inv a'"
        "refs_of a' = refs_of a - mset (drop ?b ?ids)"
      using blocks.each_free_ok [of a "drop ?b ?ids"] h sub by auto
    have refs: "refs_of a' + mset (drop ?b ?ids) = refs_of a" using a'(3) sub by simp
    have "mset (take ?b ?ids) + mset (drop ?b ?ids) \<subseteq># refs_of a' + mset (drop ?b ?ids)"
      using h split refs by simp
    then have keep: "mset (take ?b ?ids) \<subseteq># refs_of a'" by (simp only: mset_subset_eq_mono_add_right_cancel)
    define c' where "c' = set_num_tokens (c\<lparr>table := (table c)\<lparr>block_ids := take ?b ?ids\<rparr>\<rparr>) m"
    have "truncate_to T Q fz a c m = (a', c', Inr ())"
    proof (cases "?b < length ?ids")
      case True
      then show ?thesis using lt fl a'(1) bs by (simp add: truncate_to_def c'_def)
    next
      case False
      then have "a' = a" "c\<lparr>table := (table c)\<lparr>block_ids := take ?b ?ids\<rparr>\<rparr> = c" using a'(1) by auto
      then show ?thesis using lt fl bs False by (simp add: truncate_to_def c'_def)
    qed
    moreover have "cache_holds D rows a' c' (take m hk) (take m hv)" unfolding c'_def
      using set_num_tokens_holds [OF holds m margin a'(2) keep] each_free_frame [OF a'(1)] by simp
    moreover have "num_tokens (table c') = m" "block_ids (table c') = take ?b ?ids"
      by (simp_all add: c'_def set_num_tokens_def Let_def)
    ultimately show ?thesis using refs by blast
  qed
qed

lemma cache_holds_discard:
  "cache_holds D rows a (discard_pending c) hk hv = cache_holds D rows a c hk hv"
  by (simp add: cache_holds_def discard_pending_def buf_ok_def view_def cache_refs_def
      cong: option.case_cong)

section \<open>The small instance\<close>

lemma list_tensors_laws: "tensor_laws list_tensors UNIV id"
  by (auto simp: tensor_laws_def list_tensors_def tokens_first_def numeral_2_eq_2)

lemma small_pool_holds: "cache_holds UNIV id small_pool (paged_cache_new small_pool) [] []"
  by (simp add: cache_holds_def alloc_inv_def small_pool_def paged_cache_new_def block_table_new_def
      table_ok_def cache_refs_def slots_fit_def u32_max_def buf_ok_def retired_ok_def view_def
      lastn_def div_ceil_def)

lemma small_pool_room:
  "pair_ok UNIV id 3 ([1, 2, 3], [4, 5, 6 :: nat])"
  "div_ceil (num_tokens (table (paged_cache_new small_pool)) + 3) (c_block_size (paged_cache_new small_pool))
     \<le> length (block_ids (table (paged_cache_new small_pool))) + num_free small_pool"
  by (simp_all add: pair_ok_def small_pool_def paged_cache_new_def block_table_new_def div_ceil_def
      num_free_def)

lemma list_pool_laws: "pool_laws list_tensors UNIV UNIV id"
  by (auto simp: pool_laws_def list_tensors_def heads_first_def)

text \<open>A pool of two segments of four rows each, and a cache restored from its blocks 2 and 0.\<close>

definition shared_pool :: "(nat list, unit) block_allocator" where
  "shared_pool = small_pool
     \<lparr>pool := Full [[10, 11, 12, 13], [14, 15, 16, 17]] [[20, 21, 22, 23], [24, 25, 26, 27]],
      free_list := [3, 1], ref_counts := [1, 0, 1, 0], num_blocks := 4, sliding_window := None\<rparr>"

definition restored_cache :: "nat list paged_cache" where
  "restored_cache = (paged_cache_new shared_pool)
     \<lparr>table := \<lparr>block_ids = [2, 0], num_tokens = 4, cached_slots = [4, 5, 0, 1]\<rparr>\<rparr>"

lemmas shared_simps = restored_cache_def shared_pool_def small_pool_def paged_cache_new_def

lemma shared_pool_refs: "refs_of shared_pool = {#0, 2#}"
  by (auto simp: multiset_eq_iff count_refs_of shared_pool_def nth_Cons')

lemma restored_cache_restored:
  "cache_restored UNIV UNIV id shared_pool restored_cache [14, 15, 10, 11] [24, 25, 20, 21]"
proof -
  have "pool_holds UNIV id shared_pool [4, 5, 0, 1] [14, 15, 10, 11] [24, 25, 20, 21]"
    by (simp add: pool_holds_def shared_pool_def small_pool_def slot_at_def row_at_def All_less_Suc)
  moreover have "alloc_inv shared_pool"
    by (auto simp: alloc_inv_def shared_pool_def small_pool_def nth_Cons')
  moreover have all: "(\<forall>i < (4 :: nat). P i) \<longleftrightarrow> P 0 \<and> P 1 \<and> P 2 \<and> P 3" for P
    by (auto simp: numeral_eq_Suc less_Suc_eq)
  have "table_ok 2 \<lparr>block_ids = [2, 0], num_tokens = 4, cached_slots = [4, 5, 0, 1]\<rparr>"
    by (simp add: table_ok_def div_ceil_def all)
  ultimately show ?thesis
    by (simp add: cache_restored_def cache_refs_def shared_pool_refs)
      (simp add: shared_simps slots_fit_def u32_max_def retired_ok_def)
qed

lemma restored_room:
  "div_ceil (num_tokens (table restored_cache) + 3) (c_block_size restored_cache)
     \<le> length (block_ids (table restored_cache)) + num_free shared_pool"
  by (simp add: shared_simps div_ceil_def num_free_def)

section \<open>The properties\<close>





end
