(* ===== verification/Chunk_Planner.thy ===== *)
theory Chunk_Planner
  imports Prelude
begin

text \<open>
  How \<open>src/engine.rs\<close> cuts a step's batch into forwards: \<open>ChunkPlanner\<close> walks the
  sequences in order and hands out one forward at a time, and \<open>PrefillPacer\<close> chooses how
  many tokens a forward may carry.  An underflow of the planner's token arithmetic (a panic)
  is \<open>None\<close>.  The throughputs the pacer compares are 64-bit floats; they are values of a
  type \<open>'r\<close>, with the quotient and the comparison of \<open>observe\<close> as arguments.
\<close>

section \<open>The planner\<close>

datatype fwd_phase = Phase_Prefill | Phase_Decode

record forward_chunk =
  fc_start :: nat
  fc_counts :: "nat list"
  fc_seq_base :: nat
  fc_finished :: "nat list"
  fc_phase :: fwd_phase

definition chunk_len :: "forward_chunk \<Rightarrow> nat" where
  "chunk_len c = sum_list (fc_counts c)"

record chunk_planner =
  pl_counts :: "nat list"
  pl_split_at :: nat
  pl_seq :: nat
  pl_done_in_seq :: nat
  pl_start :: nat

definition planner_new :: "nat list \<Rightarrow> nat \<Rightarrow> chunk_planner" where
  "planner_new counts split_at =
     \<lparr>pl_counts = counts, pl_split_at = split_at, pl_seq = 0, pl_done_in_seq = 0, pl_start = 0\<rparr>"

text \<open>The \<open>while\<close> loop of \<open>next\<close>: the chunk so far is \<open>taken\<close> and \<open>finished\<close>.\<close>

function chunk_loop ::
    "nat list \<Rightarrow> nat \<Rightarrow> nat \<Rightarrow> nat \<Rightarrow> nat list \<Rightarrow> nat list \<Rightarrow> nat \<Rightarrow>
     (nat \<times> nat \<times> nat list \<times> nat list) option" where
  "chunk_loop counts split_at seq don taken finished room =
     (if seq < length counts \<and> 0 < room then
        if seq = split_at \<and> taken \<noteq> [] then Some (seq, don, taken, finished)
        else if counts ! seq < don then None
        else
          let n = min (counts ! seq - don) room;
              taken' = taken @ [n]
          in if don + n = counts ! seq
             then chunk_loop counts split_at (Suc seq) 0 taken' (finished @ [length taken' - 1]) (room - n)
             else chunk_loop counts split_at seq (don + n) taken' finished (room - n)
      else Some (seq, don, taken, finished))"
  by pat_completeness auto
termination
  by (relation "measures [\<lambda>(counts, _, seq, _). length counts - seq, \<lambda>(_, _, _, _, _, _, room). room]")
    (auto simp: min_def split: if_splits)

declare chunk_loop.simps [simp del]

definition planner_next :: "chunk_planner \<Rightarrow> nat \<Rightarrow> (chunk_planner \<times> forward_chunk option) option" where
  "planner_next p cap =
     (if length (pl_counts p) \<le> pl_seq p then Some (p, None)
      else
        let seq_base = pl_seq p;
            start = pl_start p;
            ph = (if seq_base < pl_split_at p then Phase_Prefill else Phase_Decode)
        in case chunk_loop (pl_counts p) (pl_split_at p) (pl_seq p) (pl_done_in_seq p) [] [] (max cap 1) of
             None \<Rightarrow> None
           | Some (seq, don, counts, finished) \<Rightarrow>
               Some (p\<lparr>pl_seq := seq, pl_done_in_seq := don, pl_start := start + sum_list counts\<rparr>,
                     Some \<lparr>fc_start = start, fc_counts = counts, fc_seq_base = seq_base,
                           fc_finished = finished, fc_phase = ph\<rparr>))"

section \<open>The pacer\<close>

definition chunk_max :: nat where
  "chunk_max = 1024"

text \<open>Three seconds, in nanoseconds.\<close>

definition chunk_ceiling :: nat where
  "chunk_ceiling = 3 * 1000000000"

record 'r prefill_pacer =
  p_cap :: nat
  p_best :: "(nat \<times> 'r) option"
  p_settled :: bool

definition pacer_default :: "'r prefill_pacer" where
  "pacer_default = \<lparr>p_cap = 512, p_best = None, p_settled = False\<rparr>"

text \<open>
  \<open>observe\<close>: \<open>rate tokens elapsed\<close> is \<open>tokens as f64 / elapsed.as_secs_f64().max(1e-9)\<close> and
  \<open>no_gain r b\<close> is \<open>r <= b * 1.05\<close>.
\<close>

definition observe ::
    "(nat \<Rightarrow> nat \<Rightarrow> 'r) \<Rightarrow> ('r \<Rightarrow> 'r \<Rightarrow> bool) \<Rightarrow> 'r prefill_pacer \<Rightarrow> nat \<Rightarrow> nat \<Rightarrow> 'r prefill_pacer" where
  "observe rate no_gain p tokens elapsed =
     (if tokens < p_cap p \<or> p_settled p then p
      else
        let r = rate tokens elapsed;
            climb = (let p1 = p\<lparr>p_best := Some (tokens, r)\<rparr>
                     in if chunk_ceiling \<le> elapsed \<or> chunk_max \<le> p_cap p1 then p1\<lparr>p_settled := True\<rparr>
                        else p1\<lparr>p_cap := min (p_cap p1 * 2) chunk_max\<rparr>)
        in case p_best p of
             Some (best_tokens, best_rate) \<Rightarrow>
               if no_gain r best_rate then p\<lparr>p_cap := best_tokens, p_settled := True\<rparr> else climb
           | None \<Rightarrow> climb)"

definition shrink :: "'r prefill_pacer \<Rightarrow> 'r prefill_pacer \<times> bool" where
  "shrink p =
     (if p_cap p \<le> 32 then (p, False)
      else (p\<lparr>p_cap := p_cap p div 2, p_best := None, p_settled := True\<rparr>, True))"

text \<open>
  The size stays useful and bounded however the measurements come out, as long as the sizes
  measured are those of chunks the pacer allowed.
\<close>

definition pacer_ok :: "'r prefill_pacer \<Rightarrow> bool" where
  "pacer_ok p \<longleftrightarrow> 16 \<le> p_cap p \<and> p_cap p \<le> chunk_max
     \<and> (case p_best p of None \<Rightarrow> True | Some (n, _) \<Rightarrow> 16 \<le> n \<and> n \<le> chunk_max)"

lemma pacer_ok_default [simp]: "pacer_ok pacer_default"
  by (simp add: pacer_ok_def pacer_default_def chunk_max_def)

lemma pacer_ok_observe: "pacer_ok p \<Longrightarrow> n \<le> p_cap p \<Longrightarrow> pacer_ok (observe rate no_gain p n t)"
  by (auto simp: pacer_ok_def observe_def chunk_max_def Let_def split: option.splits)

lemma pacer_ok_shrink: "pacer_ok p \<Longrightarrow> pacer_ok (fst (shrink p))"
  by (auto simp: pacer_ok_def shrink_def split: option.splits)

section \<open>What a chunk carries\<close>

text \<open>
  The sequence each token of a run of counts belongs to, counting sequences from \<open>base\<close>: a
  batch is the tokens labelled so, a chunk a piece of it.
\<close>

fun labels :: "nat \<Rightarrow> nat list \<Rightarrow> nat list" where
  "labels base [] = []"
| "labels base (n # ns) = replicate n base @ labels (Suc base) ns"

lemma labels_append: "labels b (xs @ ys) = labels b xs @ labels (b + length xs) ys"
  by (induction xs arbitrary: b) auto

lemma length_labels [simp]: "length (labels b xs) = sum_list xs"
  by (induction xs arbitrary: b) auto

text \<open>What is left of the batch when sequence \<open>seq\<close> has had \<open>don\<close> of its tokens.\<close>

definition remaining :: "nat list \<Rightarrow> nat \<Rightarrow> nat \<Rightarrow> nat list" where
  "remaining counts seq don = drop don (labels seq (drop seq counts))"

definition cursor_ok :: "nat list \<Rightarrow> nat \<Rightarrow> nat \<Rightarrow> bool" where
  "cursor_ok counts seq don \<longleftrightarrow>
     (if seq < length counts then don \<le> counts ! seq else seq = length counts \<and> don = 0)"

lemma remaining_split:
  assumes "seq < length counts" and "don \<le> counts ! seq"
  shows "remaining counts seq don =
    replicate (counts ! seq - don) seq @ remaining counts (Suc seq) 0"
  using assms by (simp add: remaining_def Cons_nth_drop_Suc [symmetric])

lemma remaining_end [simp]: "length counts \<le> seq \<Longrightarrow> remaining counts seq don = []"
  by (simp add: remaining_def)

text \<open>What one run of the loop adds to the chunk.\<close>

definition chunk_adds ::
    "nat list \<Rightarrow> nat \<Rightarrow> nat \<Rightarrow> nat \<Rightarrow> nat \<Rightarrow> nat \<Rightarrow> nat \<Rightarrow> nat \<Rightarrow> nat list \<Rightarrow> nat list \<Rightarrow> bool" where
  "chunk_adds counts split_at base seq don room seq' don' add fin \<longleftrightarrow>
     remaining counts seq don = labels seq add @ remaining counts seq' don'
     \<and> sum_list add \<le> room
     \<and> map (\<lambda>r. base + r) fin = [seq ..< seq']
     \<and> cursor_ok counts seq' don'
     \<and> seq + length add \<le> length counts
     \<and> (seq < split_at \<longrightarrow> seq + length add \<le> split_at)
     \<and> seq \<le> seq' \<and> seq' \<le> seq + length add"

lemma chunk_adds_nothing:
  "cursor_ok counts seq don \<Longrightarrow> chunk_adds counts split_at base seq don room seq don [] []"
  by (auto simp: chunk_adds_def cursor_ok_def split: if_splits)

lemma chunk_adds_finish:
  assumes "seq < length counts" and "don \<le> counts ! seq" and "counts ! seq - don \<le> room"
    and "base + r = seq"
    and "chunk_adds counts split_at base (Suc seq) 0 (room - (counts ! seq - don)) seq' don' add fin"
    and "seq < split_at \<and> Suc seq = split_at \<longrightarrow> add = []"
  shows "chunk_adds counts split_at base seq don room seq' don' ((counts ! seq - don) # add) (r # fin)"
  using assms remaining_split [OF assms(1,2)]
  by (auto simp: chunk_adds_def upt_conv_Cons)

lemma chunk_adds_part:
  assumes "seq < length counts" and "don + room < counts ! seq"
  shows "chunk_adds counts split_at base seq don room seq (don + room) [room] []"
proof -
  have "replicate (counts ! seq - don) seq =
      replicate room seq @ replicate (counts ! seq - (don + room)) seq"
    using assms(2) by (simp flip: replicate_add)
  then show ?thesis
    using assms remaining_split [OF assms(1), of don] remaining_split [OF assms(1), of "don + room"]
    by (auto simp: chunk_adds_def cursor_ok_def)
qed

lemma chunk_loop_spec:
  assumes "cursor_ok counts seq don" and "seq = base + length taken"
  shows "\<exists>seq' don' add fin.
    chunk_loop counts split_at seq don taken finished room =
      Some (seq', don', taken @ add, finished @ fin)
    \<and> chunk_adds counts split_at base seq don room seq' don' add fin
    \<and> (taken \<noteq> [] \<longrightarrow> seq = split_at \<longrightarrow> add = [])
    \<and> (seq < length counts \<longrightarrow> 0 < room \<longrightarrow> taken = [] \<longrightarrow>
         add \<noteq> [] \<and> (seq' = seq \<longrightarrow> don < don'))"
  using assms
proof (induction counts split_at seq don taken finished room rule: chunk_loop.induct)
  case (1 counts split_at seq don taken finished room)
  show ?case
  proof (cases "seq < length counts \<and> 0 < room \<and> \<not> (seq = split_at \<and> taken \<noteq> [])")
    case False
    then have "chunk_loop counts split_at seq don taken finished room =
        Some (seq, don, taken @ [], finished @ [])"
      by (subst chunk_loop.simps) auto
    moreover have "\<not> (seq < length counts \<and> 0 < room \<and> taken = [])" using False by blast
    ultimately show ?thesis using chunk_adds_nothing [OF 1(3)] by blast
  next
    case True
    then have c: "seq < length counts" "0 < room" "don \<le> counts ! seq"
      "\<not> (seq = split_at \<and> taken \<noteq> [])"
      using 1(3) by (auto simp: cursor_ok_def)
    show ?thesis
    proof (cases "counts ! seq - don \<le> room")
      case fits: True
      have ok: "cursor_ok counts (Suc seq) 0" using c(1) by (auto simp: cursor_ok_def)
      have n: "counts ! seq - don = min (counts ! seq - don) room" using fits by simp
      have l: "length (taken @ [counts ! seq - don]) - 1 = length taken" by simp
      have "\<exists>seq' don' add fin.
        chunk_loop counts split_at (Suc seq) 0 (taken @ [counts ! seq - don])
           (finished @ [length taken]) (room - (counts ! seq - don)) =
         Some (seq', don', (taken @ [counts ! seq - don]) @ add, (finished @ [length taken]) @ fin)
        \<and> chunk_adds counts split_at base (Suc seq) 0 (room - (counts ! seq - don)) seq' don' add fin
        \<and> (taken @ [counts ! seq - don] \<noteq> [] \<longrightarrow> Suc seq = split_at \<longrightarrow> add = [])
        \<and> (Suc seq < length counts \<longrightarrow> 0 < room - (counts ! seq - don) \<longrightarrow>
             taken @ [counts ! seq - don] = [] \<longrightarrow> add \<noteq> [] \<and> (seq' = Suc seq \<longrightarrow> 0 < don'))"
        using 1(1) [OF _ c(4) _ n refl, unfolded l] c(1-3) ok 1(4) by simp
      then obtain seq' don' add fin where ih:
        "chunk_loop counts split_at (Suc seq) 0 (taken @ [counts ! seq - don])
           (finished @ [length taken]) (room - (counts ! seq - don)) =
         Some (seq', don', (taken @ [counts ! seq - don]) @ add, (finished @ [length taken]) @ fin)"
        "chunk_adds counts split_at base (Suc seq) 0 (room - (counts ! seq - don)) seq' don' add fin"
        "Suc seq = split_at \<longrightarrow> add = []"
        by blast
      have "chunk_adds counts split_at base seq don room seq' don' ((counts ! seq - don) # add)
          (length taken # fin)"
        using chunk_adds_finish [OF c(1,3) fits _ ih(2)] ih(3) 1(4) by simp
      then show ?thesis using c fits ih
        by (subst chunk_loop.simps) (auto simp: Let_def chunk_adds_def)
    next
      case False
      have "chunk_loop counts split_at seq (don + room) (taken @ [room]) finished 0 =
          Some (seq, don + room, taken @ [room], finished)"
        by (simp add: chunk_loop.simps)
      then show ?thesis using c False chunk_adds_part [of seq counts don room split_at base]
        by (subst chunk_loop.simps) (auto simp: Let_def min_def)
    qed
  qed
qed

definition planner_ok :: "chunk_planner \<Rightarrow> bool" where
  "planner_ok p \<longleftrightarrow> cursor_ok (pl_counts p) (pl_seq p) (pl_done_in_seq p)"

definition planner_left :: "chunk_planner \<Rightarrow> nat list" where
  "planner_left p = remaining (pl_counts p) (pl_seq p) (pl_done_in_seq p)"

text \<open>A chunk within one phase: the split between prefills and decodes never falls inside it.\<close>

definition chunk_in_phase :: "nat \<Rightarrow> forward_chunk \<Rightarrow> bool" where
  "chunk_in_phase split_at c \<longleftrightarrow>
     (case fc_phase c of
        Phase_Prefill \<Rightarrow> fc_seq_base c + length (fc_counts c) \<le> split_at
      | Phase_Decode \<Rightarrow> split_at \<le> fc_seq_base c)"

lemma planner_ok_new [simp]: "planner_ok (planner_new counts split_at)"
  by (simp add: planner_ok_def planner_new_def cursor_ok_def)

lemma planner_next_done:
  "length (pl_counts p) \<le> pl_seq p \<Longrightarrow> planner_next p n = Some (p, None)"
  by (simp add: planner_next_def)

lemma planner_next_chunk:
  assumes "planner_ok p" and "pl_seq p < length (pl_counts p)"
  shows "\<exists>p' c. planner_next p n = Some (p', Some c)
    \<and> planner_ok p' \<and> pl_counts p' = pl_counts p \<and> pl_split_at p' = pl_split_at p
    \<and> fc_start c = pl_start p \<and> pl_start p' = pl_start p + chunk_len c
    \<and> fc_seq_base c = pl_seq p \<and> fc_counts c \<noteq> [] \<and> chunk_len c \<le> max n 1
    \<and> planner_left p = labels (fc_seq_base c) (fc_counts c) @ planner_left p'
    \<and> map (\<lambda>r. fc_seq_base c + r) (fc_finished c) = [pl_seq p ..< pl_seq p']
    \<and> fc_seq_base c + length (fc_counts c) \<le> length (pl_counts p)
    \<and> chunk_in_phase (pl_split_at p) c
    \<and> pl_seq p \<le> pl_seq p' \<and> pl_seq p' \<le> pl_seq p + length (fc_counts c)
    \<and> (pl_seq p' = pl_seq p \<longrightarrow> pl_done_in_seq p < pl_done_in_seq p')"
proof -
  obtain seq' don' add fin where r:
      "chunk_loop (pl_counts p) (pl_split_at p) (pl_seq p) (pl_done_in_seq p) [] [] (max n 1) =
        Some (seq', don', add, fin)"
    and a: "chunk_adds (pl_counts p) (pl_split_at p) (pl_seq p) (pl_seq p) (pl_done_in_seq p)
        (max n 1) seq' don' add fin"
    and ne: "add \<noteq> []" "seq' = pl_seq p \<longrightarrow> pl_done_in_seq p < don'"
    using chunk_loop_spec [of "pl_counts p" "pl_seq p" "pl_done_in_seq p" "pl_seq p" "[]"
        "pl_split_at p" "[]" "max n 1"] assms
    by (auto simp: planner_ok_def)
  show ?thesis using a ne assms(2)
    by (auto simp: planner_next_def r [unfolded One_nat_def] Let_def chunk_adds_def planner_ok_def
        planner_left_def chunk_len_def chunk_in_phase_def)
qed

section \<open>The whole batch\<close>

text \<open>
  The chunks of a batch when the \<open>k\<close>-th call asks for \<open>caps k\<close> tokens: the loop of
  \<open>run_forward_pass\<close> around the planner, whatever the pacer answers.
\<close>

lemma planner_next_counts: "planner_next p n = Some (p', x) \<Longrightarrow> pl_counts p' = pl_counts p"
  by (auto simp: planner_next_def Let_def split: if_splits option.splits prod.splits)

lemma planner_next_starts_ok:
  "planner_next p n = Some (p', Some c) \<Longrightarrow> planner_ok p \<and> pl_seq p < length (pl_counts p)"
  by (auto simp: planner_next_def planner_ok_def cursor_ok_def chunk_loop.simps [of _ _ "pl_seq p"]
      Let_def split: if_splits)

text \<open>Each chunk moves the planner on, whatever the cap: a loop over it ends.\<close>

definition planner_less :: "(chunk_planner \<times> chunk_planner) set" where
  "planner_less = measures [\<lambda>p. length (pl_counts p) - pl_seq p,
     \<lambda>p. pl_counts p ! pl_seq p - pl_done_in_seq p]"

lemma wf_planner_less [simp, intro]: "wf planner_less"
  by (simp add: planner_less_def)

lemma planner_next_less:
  assumes n: "planner_next p n = Some (p', Some c)"
  shows "(p', p) \<in> planner_less"
proof -
  have p: "planner_ok p" "pl_seq p < length (pl_counts p)" using planner_next_starts_ok [OF n] by auto
  have q: "planner_ok p'" "pl_counts p' = pl_counts p" "pl_seq p \<le> pl_seq p'"
      "pl_seq p' = pl_seq p \<longrightarrow> pl_done_in_seq p < pl_done_in_seq p'"
    using planner_next_chunk [OF p, of n] n by auto
  show ?thesis
  proof (cases "pl_seq p' = pl_seq p")
    case True
    then show ?thesis using q p(2) by (auto simp: planner_ok_def cursor_ok_def planner_less_def)
  next
    case False
    then show ?thesis using q p(2) by (auto simp: planner_less_def)
  qed
qed

function plan_chunks :: "(nat \<Rightarrow> nat) \<Rightarrow> nat \<Rightarrow> chunk_planner \<Rightarrow> forward_chunk list option" where
  "plan_chunks caps k p =
     (case planner_next p (caps k) of
        None \<Rightarrow> None
      | Some (p', None) \<Rightarrow> Some []
      | Some (p', Some c) \<Rightarrow> map_option (\<lambda>cs. c # cs) (plan_chunks caps (Suc k) p'))"
  by pat_completeness auto
termination
  by (relation "inv_image planner_less (\<lambda>(_, _, p). p)") (auto intro: planner_next_less)

declare plan_chunks.simps [simp del]

text \<open>What a list of chunks must be for a planner at a given point of the batch.\<close>

definition plan_ok :: "(nat \<Rightarrow> nat) \<Rightarrow> chunk_planner \<Rightarrow> forward_chunk list \<Rightarrow> bool" where
  "plan_ok caps p cs \<longleftrightarrow>
     concat (map (\<lambda>c. labels (fc_seq_base c) (fc_counts c)) cs) = planner_left p
     \<and> concat (map (\<lambda>c. map (\<lambda>r. fc_seq_base c + r) (fc_finished c)) cs)
         = [pl_seq p ..< length (pl_counts p)]
     \<and> (\<forall>k < length cs.
          fc_start (cs ! k) = pl_start p + sum_list (map chunk_len (take k cs))
          \<and> fc_counts (cs ! k) \<noteq> [] \<and> chunk_len (cs ! k) \<le> max (caps k) 1
          \<and> fc_seq_base (cs ! k) + length (fc_counts (cs ! k)) \<le> length (pl_counts p)
          \<and> chunk_in_phase (pl_split_at p) (cs ! k))"

lemma plan_chunks_ok:
  assumes "planner_ok p"
  shows "\<exists>cs. plan_chunks caps k p = Some cs \<and> plan_ok (\<lambda>i. caps (k + i)) p cs"
  using assms
proof (induction caps k p rule: plan_chunks.induct)
  case (1 caps k p)
  show ?case
  proof (cases "pl_seq p < length (pl_counts p)")
    case False
    then show ?thesis using 1(2) planner_next_done [of p "caps k"]
      by (subst plan_chunks.simps)
        (auto simp: plan_ok_def planner_left_def planner_ok_def cursor_ok_def)
  next
    case True
    obtain p' c where n: "planner_next p (caps k) = Some (p', Some c)" "planner_ok p'"
        "pl_counts p' = pl_counts p" "pl_split_at p' = pl_split_at p"
        "fc_start c = pl_start p" "pl_start p' = pl_start p + chunk_len c"
        "fc_seq_base c = pl_seq p" "fc_counts c \<noteq> []" "chunk_len c \<le> max (caps k) 1"
        "planner_left p = labels (fc_seq_base c) (fc_counts c) @ planner_left p'"
        "map (\<lambda>r. fc_seq_base c + r) (fc_finished c) = [pl_seq p ..< pl_seq p']"
        "fc_seq_base c + length (fc_counts c) \<le> length (pl_counts p)"
        "chunk_in_phase (pl_split_at p) c" "pl_seq p \<le> pl_seq p'"
      using planner_next_chunk [OF 1(2) True, of "caps k"] by auto
    obtain cs where cs: "plan_chunks caps (Suc k) p' = Some cs"
        "plan_ok (\<lambda>i. caps (Suc k + i)) p' cs"
      using 1(1) [OF n(1) refl refl n(2)] by auto
    have le: "pl_seq p' \<le> length (pl_counts p)" using n(2,3)
      by (auto simp: planner_ok_def cursor_ok_def split: if_splits)
    have u: "[pl_seq p ..< pl_seq p'] @ [pl_seq p' ..< length (pl_counts p)] = [pl_seq p ..< length (pl_counts p)]"
      using upt_add_eq_append [OF n(14), of "length (pl_counts p) - pl_seq p'"] le by simp
    have "plan_ok (\<lambda>i. caps (k + i)) p (c # cs)"
      unfolding plan_ok_def using cs(2) n le
      by (simp add: plan_ok_def add.assoc u All_less_Suc2)
    then show ?thesis using n(1) cs(1) by (subst plan_chunks.simps) simp
  qed
qed

text \<open>Cutting a step's batch into forwards loses, repeats and reorders nothing, whatever
  caps the pacer answers: the planner never panics and ends; its chunks, put one after the
  other, carry exactly the tokens of the batch, each where the batch has it; each chunk starts
  at the tokens that came before it and has at least one sequence and at most the cap's tokens
  (at least one); no chunk mixes prefills and decodes; and the rows it reports as finished are,
  over all chunks, every sequence once, in batch order.\<close>

theorem chunks_cover_batch:
  "\<exists>cs. plan_chunks caps 0 (planner_new counts split_at) = Some cs
    \<and> concat (map (\<lambda>c. labels (fc_seq_base c) (fc_counts c)) cs) = labels 0 counts
    \<and> concat (map (\<lambda>c. map (\<lambda>r. fc_seq_base c + r) (fc_finished c)) cs) = [0 ..< length counts]
    \<and> (\<forall>k < length cs.
         fc_start (cs ! k) = sum_list (map chunk_len (take k cs))
         \<and> fc_counts (cs ! k) \<noteq> [] \<and> chunk_len (cs ! k) \<le> max (caps k) 1
         \<and> fc_seq_base (cs ! k) + length (fc_counts (cs ! k)) \<le> length counts
         \<and> chunk_in_phase split_at (cs ! k))"
  using plan_chunks_ok [OF planner_ok_new, of caps 0 counts split_at]
  by (auto simp: plan_ok_def planner_left_def remaining_def planner_new_def)

theorem chunks_cover_batch_witness:
  "plan_chunks (\<lambda>_. 4) 0 (planner_new [5, 2, 1, 1] 2) =
     Some [\<lparr>fc_start = 0, fc_counts = [4], fc_seq_base = 0, fc_finished = [], fc_phase = Phase_Prefill\<rparr>,
           \<lparr>fc_start = 4, fc_counts = [1, 2], fc_seq_base = 0, fc_finished = [0, 1], fc_phase = Phase_Prefill\<rparr>,
           \<lparr>fc_start = 7, fc_counts = [1, 1], fc_seq_base = 2, fc_finished = [0, 1], fc_phase = Phase_Decode\<rparr>]
   \<and> (\<exists>cs. plan_chunks (\<lambda>_. 4) 0 (planner_new [5, 2, 1, 1] 2) = Some cs
        \<and> concat (map (\<lambda>c. labels (fc_seq_base c) (fc_counts c)) cs) = labels 0 [5, 2, 1, 1])"
proof (rule conjI)
  show "plan_chunks (\<lambda>_. 4) 0 (planner_new [5, 2, 1, 1] 2) =
     Some [\<lparr>fc_start = 0, fc_counts = [4], fc_seq_base = 0, fc_finished = [], fc_phase = Phase_Prefill\<rparr>,
           \<lparr>fc_start = 4, fc_counts = [1, 2], fc_seq_base = 0, fc_finished = [0, 1], fc_phase = Phase_Prefill\<rparr>,
           \<lparr>fc_start = 7, fc_counts = [1, 1], fc_seq_base = 2, fc_finished = [0, 1], fc_phase = Phase_Decode\<rparr>]"
    by (simp add: planner_new_def planner_next_def chunk_loop.simps Let_def plan_chunks.simps [of _ 0]
        plan_chunks.simps [of _ "Suc 0"] plan_chunks.simps [of _ "Suc (Suc 0)"]
        plan_chunks.simps [of _ "Suc (Suc (Suc 0))"])
  show "\<exists>cs. plan_chunks (\<lambda>_. 4) 0 (planner_new [5, 2, 1, 1] 2) = Some cs
        \<and> concat (map (\<lambda>c. labels (fc_seq_base c) (fc_counts c)) cs) = labels 0 [5, 2, 1, 1]"
    using chunks_cover_batch [of "\<lambda>_. 4" "[5, 2, 1, 1]" 2] by blast
qed

end
