(* ===== verification/Engine.thy ===== *)
theory Engine
  imports Scheduler Cache_Append Chunk_Planner
begin

text \<open>
  The engine of \<open>src/engine.rs\<close>: one step asks the scheduler for sequences, plans the prefills
  against the prefix cache, runs the batch as a few forwards, samples, and runs the speculative
  cycle.  What is outside the engine is a field of the environment: the model's forwards and
  the greedy argmax over them (the trait \<open>BatchModel\<close>), the sampler, the grammar constraint,
  the clock, and the tensor operations of the caches.  A result is paired with the state the
  call leaves; \<open>Panic\<close> stands for a panic.
\<close>

section \<open>The environment\<close>

text \<open>The memory a forward works on: the byte budgets and a model's allocators.\<close>

type_synonym ('t, 'f) kv_memory = "budgets \<times> ('t, 'f) block_allocator list"

record ('t, 'f, 'l, 'sp, 'jc, 'r, 'lp) engine_env =
  en_tensors :: "('t, 'f) tensor_ops"
  en_quant :: "'f quant_ops"
  en_fzero :: 'f
  en_forward :: "fwd_phase \<Rightarrow> u32 list \<Rightarrow> u32 list \<Rightarrow> nat list \<Rightarrow> 't paged_cache list list \<Rightarrow>
     ('t, 'f) kv_memory \<Rightarrow> (err + 'l list) \<times> 't paged_cache list list \<times> ('t, 'f) kv_memory"
  en_greedy :: "u32 list \<Rightarrow> u32 list \<Rightarrow> 't paged_cache list \<Rightarrow> ('t, 'f) kv_memory \<Rightarrow>
     (err + u32 list) \<times> 't paged_cache list \<times> ('t, 'f) kv_memory"
  en_draft :: "u32 list \<Rightarrow> u32 list \<Rightarrow> 't paged_cache list \<Rightarrow> ('t, 'f) kv_memory \<Rightarrow>
     (err + u32 list) \<times> 't paged_cache list \<times> ('t, 'f) kv_memory"
  en_clock :: "nat \<Rightarrow> nat option"
  en_rate :: "nat \<Rightarrow> nat \<Rightarrow> 'r"
  en_no_gain :: "'r \<Rightarrow> 'r \<Rightarrow> bool"
  en_vocab :: "'l \<Rightarrow> nat option"
  en_sample :: "'l \<Rightarrow> 'sp \<Rightarrow> u32 list \<Rightarrow> (u32 \<rightharpoonup> nat) \<Rightarrow> bool list option \<Rightarrow> err + (u32 \<times> 'lp)"
  en_allowed :: "'jc \<Rightarrow> nat \<Rightarrow> bool list option"
  en_advance :: "'jc \<Rightarrow> u32 \<Rightarrow> 'jc option"
  en_plain_greedy :: "'sp \<Rightarrow> bool"

section \<open>Stop rules\<close>

definition has_matching_stop_sequence :: "u32 list \<Rightarrow> u32 list list \<Rightarrow> bool" where
  "has_matching_stop_sequence tokens stop_sequences \<longleftrightarrow>
     (\<exists>sq \<in> set stop_sequences.
        let n = length sq in 0 < n \<and> n \<le> length tokens \<and> drop (length tokens - n) tokens = sq)"

record stop_rules =
  sr_token_ids :: "u32 set"
  sr_sequences :: "u32 list list"

definition stop_matches :: "stop_rules \<Rightarrow> u32 \<Rightarrow> u32 list \<Rightarrow> bool" where
  "stop_matches st token tokens \<longleftrightarrow>
     token \<in> sr_token_ids st \<or> has_matching_stop_sequence tokens (sr_sequences st)"

section \<open>Sequences in place\<close>

text \<open>\<open>get_running_mut\<close> and the writes through it.\<close>

definition set_running ::
    "('t, 'f, 'sp, 'jc) scheduler \<Rightarrow> nat \<Rightarrow> ('t, 'sp, 'jc) sequence_state \<Rightarrow> ('t, 'f, 'sp, 'jc) scheduler" where
  "set_running s sid q =
     (case running_index s sid of None \<Rightarrow> s | Some i \<Rightarrow> s\<lparr>running := (running s)[i := q]\<rparr>)"

definition memory_of :: "('t, 'f, 'sp, 'jc) scheduler \<Rightarrow> ('t, 'f) kv_memory" where
  "memory_of s = (s_budgets s, allocators s)"

definition set_memory ::
    "('t, 'f, 'sp, 'jc) scheduler \<Rightarrow> ('t, 'f) kv_memory \<Rightarrow> ('t, 'f, 'sp, 'jc) scheduler" where
  "set_memory s m = s\<lparr>s_budgets := fst m, allocators := snd m\<rparr>"

section \<open>Planning the prefills\<close>

record prefill_info =
  pi_seq_id :: nat
  pi_num_cached_tokens :: nat
  pi_num_cached_blocks :: nat
  pi_num_full_blocks_total :: nat
  pi_uncached_len :: nat
  pi_input_tokens :: "u32 list"

text \<open>The cached blocks of one layer, prepopulated in order.\<close>

fun prepopulate_layer ::
    "nat \<Rightarrow> ('t, 'f) block_allocator \<Rightarrow> 't paged_cache \<Rightarrow> nat list list \<Rightarrow>
     (('t, 'f) block_allocator \<times> 't paged_cache) option" where
  "prepopulate_layer layer a c [] = Some (a, c)"
| "prepopulate_layer layer a c (ids # rest) =
     (case nth_opt ids layer of
        None \<Rightarrow> prepopulate_layer layer a c rest
      | Some bid \<Rightarrow>
          (case prepopulate_block a c bid of
             None \<Rightarrow> None
           | Some (a', c') \<Rightarrow> prepopulate_layer layer a' c' rest))"

fun prepopulate_layers ::
    "nat \<Rightarrow> ('t, 'f) block_allocator list \<Rightarrow> 't paged_cache list \<Rightarrow> nat list list \<Rightarrow>
     (('t, 'f) block_allocator list \<times> 't paged_cache list) option" where
  "prepopulate_layers layer as [] ids = Some (as, [])"
| "prepopulate_layers layer [] (c # cs) ids = None"
| "prepopulate_layers layer (a # as) (c # cs) ids =
     (case prepopulate_layer layer a c ids of
        None \<Rightarrow> None
      | Some (a', c') \<Rightarrow>
          map_option (\<lambda>(as', cs'). (a' # as', c' # cs')) (prepopulate_layers (Suc layer) as cs ids))"

definition plan_one ::
    "'c pc_ops \<Rightarrow> chain_hash \<Rightarrow> nat \<Rightarrow> ('t, 'f, 'sp, 'jc) scheduler \<Rightarrow> 'c prefix_cache \<Rightarrow> nat \<Rightarrow>
     (('t, 'f, 'sp, 'jc) scheduler \<times> 'c prefix_cache \<times> prefill_info) option" where
  "plan_one ops hash bs s pc sid =
     (case get_running s sid of
        None \<Rightarrow> None
      | Some q \<Rightarrow>
          let tokens = all_tokens q;
              seq_len = length tokens;
              (pc', found, matched) = pc_lookup ops hash pc tokens bs;
              cached_blocks = min found ((seq_len - 1) div bs);
              cached_tokens = cached_blocks * bs;
              info = \<lparr>pi_seq_id = sid, pi_num_cached_tokens = cached_tokens,
                      pi_num_cached_blocks = cached_blocks,
                      pi_num_full_blocks_total = seq_len div bs,
                      pi_uncached_len = seq_len - cached_tokens,
                      pi_input_tokens = drop cached_tokens tokens\<rparr>
          in if 0 < cached_blocks then
               (case prepopulate_layers 0 (allocators s) (caches q) (take cached_blocks matched) of
                  None \<Rightarrow> None
                | Some (as', cs') \<Rightarrow>
                    Some (set_running (s\<lparr>allocators := as'\<rparr>) sid
                            (q\<lparr>caches := map (\<lambda>c. set_num_tokens c cached_tokens) cs'\<rparr>), pc', info))
             else Some (s, pc', info))"

fun plan_prefill_inputs ::
    "'c pc_ops \<Rightarrow> chain_hash \<Rightarrow> nat \<Rightarrow> ('t, 'f, 'sp, 'jc) scheduler \<Rightarrow> 'c prefix_cache \<Rightarrow> nat list \<Rightarrow>
     (('t, 'f, 'sp, 'jc) scheduler \<times> 'c prefix_cache \<times> prefill_info list) option" where
  "plan_prefill_inputs ops hash bs s pc [] = Some (s, pc, [])"
| "plan_prefill_inputs ops hash bs s pc (sid # ids) =
     (case plan_one ops hash bs s pc sid of
        None \<Rightarrow> None
      | Some (s1, pc1, info) \<Rightarrow>
          map_option (\<lambda>(s2, pc2, infos). (s2, pc2, info # infos))
            (plan_prefill_inputs ops hash bs s1 pc1 ids))"

record batch_input =
  bi_all_token_ids :: "u32 list"
  bi_all_positions :: "u32 list"
  bi_token_counts :: "nat list"

text \<open>The decode part of the batch: each sequence's last token at its next position.\<close>

definition decode_inputs ::
    "('t, 'f, 'sp, 'jc) scheduler \<Rightarrow> nat list \<Rightarrow> (u32 \<times> u32) list option" where
  "decode_inputs s ids =
     those (map (\<lambda>sid. case get_running s sid of
                         None \<Rightarrow> None
                       | Some q \<Rightarrow>
                           if all_tokens q = [] then None
                           else Some (last (all_tokens q), of_nat (num_processed_tokens q))) ids)"

definition build_batch_input ::
    "('t, 'f, 'sp, 'jc) scheduler \<Rightarrow> prefill_info list \<Rightarrow> nat list \<Rightarrow> batch_input option" where
  "build_batch_input s infos decode_ids =
     map_option (\<lambda>ds.
       \<lparr>bi_all_token_ids = concat (map pi_input_tokens infos) @ map fst ds,
        bi_all_positions =
          concat (map (\<lambda>i. map (\<lambda>j. of_nat (pi_num_cached_tokens i + j)) [0 ..< pi_uncached_len i]) infos)
          @ map snd ds,
        bi_token_counts = map pi_uncached_len infos @ map (\<lambda>_. 1) ds\<rparr>)
       (decode_inputs s decode_ids)"

section \<open>The caches out of the scheduler and back\<close>

text \<open>\<open>CacheRestoreGuard::new\<close>, for prefills (pool writes on) and for decodes (off).\<close>

fun take_caches ::
    "bool \<Rightarrow> ('t, 'f, 'sp, 'jc) scheduler \<Rightarrow> nat list \<Rightarrow>
     (('t, 'f, 'sp, 'jc) scheduler \<times> 't paged_cache list list) option" where
  "take_caches on s [] = Some (s, [])"
| "take_caches on s (sid # ids) =
     (case get_running s sid of
        None \<Rightarrow> None
      | Some q \<Rightarrow>
          map_option (\<lambda>(s', css). (s', map (\<lambda>c. set_pool_writes c on) (caches q) # css))
            (take_caches on (set_running s sid (q\<lparr>caches := []\<rparr>)) ids))"

definition guard_new ::
    "('t, 'f, 'sp, 'jc) scheduler \<Rightarrow> nat list \<Rightarrow> nat list \<Rightarrow>
     (('t, 'f, 'sp, 'jc) scheduler \<times> 't paged_cache list list) option" where
  "guard_new s prefill_ids decode_ids =
     (case take_caches True s prefill_ids of
        None \<Rightarrow> None
      | Some (s1, pre) \<Rightarrow>
          map_option (\<lambda>(s2, dec). (s2, pre @ dec)) (take_caches False s1 decode_ids))"

text \<open>\<open>restore_inner\<close>; a sequence that is gone is the \<open>debug_assert!\<close>.\<close>

fun restore_caches ::
    "('t, 'f, 'sp, 'jc) scheduler \<Rightarrow> nat list \<Rightarrow> 't paged_cache list list \<Rightarrow>
     ('t, 'f, 'sp, 'jc) scheduler option" where
  "restore_caches s [] css = Some s"
| "restore_caches s (sid # ids) [] = None"
| "restore_caches s (sid # ids) (cs # css) =
     (case get_running s sid of
        None \<Rightarrow> None
      | Some q \<Rightarrow> restore_caches (set_running s sid (q\<lparr>caches := cs\<rparr>)) ids css)"

section \<open>Running the batch\<close>

text \<open>\<open>flush_caches\<close> (\<open>src/common/block.rs\<close>): every layer of every sequence of the chunk.\<close>

fun flush_layers ::
    "('t, 'f) tensor_ops \<Rightarrow> 'f quant_ops \<Rightarrow> 'f \<Rightarrow> ('t, 'f) block_allocator list \<Rightarrow> 't paged_cache list \<Rightarrow>
     ('t, 'f) block_allocator list \<times> 't paged_cache list \<times> (err + unit)" where
  "flush_layers T Q fz as [] = (as, [], Inr ())"
| "flush_layers T Q fz [] (c # cs) = ([], c # cs, Inl Panic)"
| "flush_layers T Q fz (a # as) (c # cs) =
     (case flush_pending T Q fz a c of
        (a', c', Inl e) \<Rightarrow> (a' # as, c' # cs, Inl e)
      | (a', c', Inr _) \<Rightarrow>
          (case flush_layers T Q fz as cs of (as', cs', r) \<Rightarrow> (a' # as', c' # cs', r)))"

fun flush_caches ::
    "('t, 'f) tensor_ops \<Rightarrow> 'f quant_ops \<Rightarrow> 'f \<Rightarrow> ('t, 'f) block_allocator list \<Rightarrow>
     't paged_cache list list \<Rightarrow>
     ('t, 'f) block_allocator list \<times> 't paged_cache list list \<times> (err + unit)" where
  "flush_caches T Q fz as [] = (as, [], Inr ())"
| "flush_caches T Q fz as (cs # css) =
     (case flush_layers T Q fz as cs of
        (as', cs', Inl e) \<Rightarrow> (as', cs' # css, Inl e)
      | (as', cs', Inr _) \<Rightarrow>
          (case flush_caches T Q fz as' css of (as'', css', r) \<Rightarrow> (as'', cs' # css', r)))"

text \<open>What one forward of the batch leaves: its logits rows, the caches, the memory and the pacer.\<close>

record ('t, 'f, 'l, 'r) forward_state =
  fs_caches :: "'t paged_cache list list"
  fs_memory :: "('t, 'f) kv_memory"
  fs_pacer :: "'r prefill_pacer"
  fs_rows :: "'l list"

text \<open>
  One turn of the loop.  A forward that answers an error shrinks the pacer's cap; one that panics unwinds past
  that line.
\<close>

definition run_chunk ::
    "('t, 'f, 'l, 'sp, 'jc, 'r, 'lp) engine_env \<Rightarrow> batch_input \<Rightarrow> nat \<Rightarrow> forward_chunk \<Rightarrow>
     ('t, 'f, 'l, 'r) forward_state \<Rightarrow> ('t, 'f, 'l, 'r) forward_state \<times> (err + unit)" where
  "run_chunk E batch k ch fs =
     (let len = chunk_len ch;
          base = fc_seq_base ch;
          width = length (fc_counts ch);
          put_back = (\<lambda>cs. take base (fs_caches fs) @ cs @ drop (base + width) (fs_caches fs))
      in case (get_slice (bi_all_token_ids batch) (fc_start ch) len,
               get_slice (bi_all_positions batch) (fc_start ch) len,
               get_slice (fs_caches fs) base width) of
           (Some input, Some positions, Some cs) \<Rightarrow>
             (case en_forward E (fc_phase ch) input positions (fc_counts ch) cs (fs_memory fs) of
                (Inl e, cs', mem') \<Rightarrow>
                  (fs\<lparr>fs_caches := put_back cs', fs_memory := mem',
                      fs_pacer := (if e = Panic then fs_pacer fs else fst (shrink (fs_pacer fs)))\<rparr>,
                   Inl e)
              | (Inr out, cs', mem') \<Rightarrow>
                  (case those (map (nth_opt out) (fc_finished ch)) of
                     None \<Rightarrow> (fs\<lparr>fs_caches := put_back cs', fs_memory := mem'\<rparr>, Inl Tensor_failed)
                   | Some rows \<Rightarrow>
                       (case flush_caches (en_tensors E) (en_quant E) (en_fzero E) (snd mem') cs' of
                          (as, cs'', r) \<Rightarrow>
                            let fs1 = fs\<lparr>fs_caches := put_back cs'', fs_memory := (fst mem', as),
                                         fs_rows := fs_rows fs @ rows\<rparr>
                            in (case r of
                                  Inl e \<Rightarrow> (fs1, Inl e)
                                | Inr _ \<Rightarrow>
                                    if width < len
                                    then (case en_clock E k of
                                            None \<Rightarrow> (fs1, Inl Tensor_failed)
                                          | Some elapsed \<Rightarrow>
                                              (fs1\<lparr>fs_pacer := observe (en_rate E) (en_no_gain E) (fs_pacer fs) len elapsed\<rparr>,
                                               Inr ()))
                                    else (fs1, Inr ())))))
         | _ \<Rightarrow> (fs, Inl Panic))"

text \<open>The \<open>while let\<close> over the planner; the rows of all chunks together are the result.\<close>

function forward_chunks ::
    "('t, 'f, 'l, 'sp, 'jc, 'r, 'lp) engine_env \<Rightarrow> batch_input \<Rightarrow> nat \<Rightarrow> chunk_planner \<Rightarrow>
     ('t, 'f, 'l, 'r) forward_state \<Rightarrow> ('t, 'f, 'l, 'r) forward_state \<times> (err + 'l list)" where
  "forward_chunks E batch k p fs =
     (case planner_next p (p_cap (fs_pacer fs)) of
        None \<Rightarrow> (fs, Inl Panic)
      | Some (p', None) \<Rightarrow>
          (fs, if fs_rows fs = [] then Inl Tensor_failed else Inr (fs_rows fs))
      | Some (p', Some ch) \<Rightarrow>
          (case run_chunk E batch k ch fs of
             (fs', Inl e) \<Rightarrow> (fs', Inl e)
           | (fs', Inr _) \<Rightarrow> forward_chunks E batch (Suc k) p' fs'))"
  by pat_completeness auto
termination
  by (relation "inv_image planner_less (\<lambda>(_, _, _, p, _). p)") (auto intro: planner_next_less wf_planner_less)

declare forward_chunks.simps [simp del]

definition run_forward_pass ::
    "('t, 'f, 'l, 'sp, 'jc, 'r, 'lp) engine_env \<Rightarrow> ('t, 'f, 'sp, 'jc) scheduler \<Rightarrow> nat list \<Rightarrow> nat list \<Rightarrow>
     'r prefill_pacer \<Rightarrow> batch_input \<Rightarrow>
     (('t, 'f, 'sp, 'jc) scheduler \<times> 'r prefill_pacer \<times> (err + 'l list)) option" where
  "run_forward_pass E s prefill_ids decode_ids pacer batch =
     (case guard_new s prefill_ids decode_ids of
        None \<Rightarrow> None
      | Some (s1, css) \<Rightarrow>
          (case forward_chunks E batch 0 (planner_new (bi_token_counts batch) (length prefill_ids))
                  \<lparr>fs_caches = css, fs_memory = memory_of s1, fs_pacer = pacer, fs_rows = []\<rparr> of
             (fs, r) \<Rightarrow>
               map_option (\<lambda>s2. (s2, fs_pacer fs, r))
                 (restore_caches (set_memory s1 (fs_memory fs)) (prefill_ids @ decode_ids) (fs_caches fs))))"

end
