(* ===== verification/Prefix_Restore.thy ===== *)
theory Prefix_Restore
  imports Engine Cache_View_Props
begin

text \<open>
  From a prefix-cache hit to the first forward: what \<open>plan_prefill_inputs\<close> does to a layer's cache
  (\<open>prepopulate_block\<close> for every matched block, then \<open>set_num_tokens\<close>) leaves a restored cache, and the append
  after it returns the shared rows followed by the new ones.
\<close>

section \<open>Prepopulating a cache\<close>

text \<open>The slots of whole blocks, in the order of the blocks.\<close>

definition block_slots :: "nat \<Rightarrow> nat list \<Rightarrow> nat list" where
  "block_slots bs bids = concat (map (\<lambda>b. map (\<lambda>off. b * bs + off) [0 ..< bs]) bids)"

lemma block_slots_simps [simp]:
  "block_slots bs [] = []"
  "block_slots bs (b # bids) = map (\<lambda>off. b * bs + off) [0 ..< bs] @ block_slots bs bids"
  by (simp_all add: block_slots_def)

lemma length_block_slots [simp]: "length (block_slots bs bids) = length bids * bs"
  by (induction bids) simp_all

lemma nth_block_slots: "i < length bids * bs \<Longrightarrow> block_slots bs bids ! i = bids ! (i div bs) * bs + i mod bs"
proof (induction bids arbitrary: i)
  case Nil
  then show ?case by simp
next
  case (Cons b bids)
  show ?case
  proof (cases "i < bs")
    case True
    then show ?thesis by (simp add: nth_append)
  next
    case False
    then have i: "bs \<le> i" by simp
    have bs: "0 < bs" using Cons.prems by (cases bs) simp_all
    have "block_slots bs (b # bids) ! i = block_slots bs bids ! (i - bs)" using False by (simp add: nth_append)
    also have "\<dots> = bids ! ((i - bs) div bs) * bs + (i - bs) mod bs" using Cons.IH [of "i - bs"] Cons.prems i by simp
    also have "i div bs = Suc ((i - bs) div bs)" "i mod bs = (i - bs) mod bs"
      using i bs by (simp_all add: le_div_geq le_mod_geq)
    ultimately show ?thesis by simp
  qed
qed

text \<open>A block shared into the cache: one more reference, its slots after the others.\<close>

definition with_blocks :: "'t paged_cache \<Rightarrow> nat list \<Rightarrow> 't paged_cache" where
  "with_blocks c bids = c\<lparr>table := (table c)\<lparr>block_ids := block_ids (table c) @ bids,
     cached_slots := cached_slots (table c) @ block_slots (c_block_size c) bids\<rparr>\<rparr>"

lemma with_blocks_cons: "with_blocks (with_blocks c [b]) bids = with_blocks c (b # bids)"
  by (simp add: with_blocks_def)

lemma with_blocks_frame [simp]: "c_block_size (with_blocks c bids) = c_block_size c"
  by (simp add: with_blocks_def)

lemma prepopulate_block_ok:
  assumes inv: "alloc_inv a" and b: "b \<in># refs_of a" and fit: "slots_fit (c_block_size c) a" and bs: "0 < c_block_size c"
  shows "\<exists>a'. prepopulate_block a c b = Some (a', with_blocks c [b]) \<and> alloc_inv a' \<and> refs_of a' = add_mset b (refs_of a)
    \<and> max_blocks a' = max_blocks a \<and> contig_pool a' = contig_pool a \<and> more_segments a a' \<and> num_free a' = num_free a"
proof -
  obtain a' where s: "share a b = Some a'" using share_ok [OF inv b] by blast
  have fr: "max_blocks a' = max_blocks a" "contig_pool a' = contig_pool a" "more_segments a a'"
    using s by (auto simp: share_def more_segments_same split: if_splits)
  have "b < max_blocks a" using inv b s by (auto simp: share_def alloc_inv_def split: if_splits)
  then have "Suc b * c_block_size c \<le> max_blocks a * c_block_size c" by (intro mult_le_mono1) simp
  then have lt: "b * c_block_size c + c_block_size c \<le> Suc u32_max" using fit by (simp add: slots_fit_def)
  then have "slots_of (b * c_block_size c) 0 (c_block_size c) = Some (map (\<lambda>off. b * c_block_size c + off) [0 ..< c_block_size c])"
    using bs by (simp add: slots_of_def)
  then have pp: "prepopulate_block a c b = Some (a', with_blocks c [b])"
    using s by (simp add: prepopulate_block_def with_blocks_def)
  then show ?thesis using prepopulate_block_spec [OF inv b pp] fr by blast
qed

lemma prepopulate_layer_ok:
  "alloc_inv a \<Longrightarrow> \<forall>ids \<in> set matched. layer < length ids \<and> ids ! layer \<in># refs_of a \<Longrightarrow>
   slots_fit (c_block_size c) a \<Longrightarrow> 0 < c_block_size c \<Longrightarrow>
   \<exists>a'. prepopulate_layer layer a c matched = Some (a', with_blocks c (map (\<lambda>ids. ids ! layer) matched)) \<and> alloc_inv a'
     \<and> refs_of a' = refs_of a + mset (map (\<lambda>ids. ids ! layer) matched)
     \<and> max_blocks a' = max_blocks a \<and> contig_pool a' = contig_pool a \<and> more_segments a a' \<and> num_free a' = num_free a"
proof (induction matched arbitrary: a c)
  case Nil
  then show ?case by (simp add: with_blocks_def more_segments_same)
next
  case (Cons ids matched)
  let ?b = "ids ! layer"
  have b: "layer < length ids" "?b \<in># refs_of a" using Cons.prems(2) by auto
  obtain a1 where p: "prepopulate_block a c ?b = Some (a1, with_blocks c [?b])" "alloc_inv a1"
      "refs_of a1 = add_mset ?b (refs_of a)" "max_blocks a1 = max_blocks a" "contig_pool a1 = contig_pool a" "more_segments a a1"
      "num_free a1 = num_free a"
    using prepopulate_block_ok [OF Cons.prems(1) b(2) Cons.prems(3,4)] by blast
  have more: "\<forall>ids \<in> set matched. layer < length ids \<and> ids ! layer \<in># refs_of a1" using Cons.prems(2) by (simp add: p(3))
  have fit: "slots_fit (c_block_size (with_blocks c [?b])) a1" "0 < c_block_size (with_blocks c [?b])"
    using Cons.prems(3,4) p(4) by (simp_all add: slots_fit_def)
  from Cons.IH [OF p(2) more fit] obtain a' where
      "prepopulate_layer layer a1 (with_blocks c [?b]) matched = Some (a', with_blocks c (?b # map (\<lambda>ids. ids ! layer) matched))"
      "alloc_inv a'" "refs_of a' = refs_of a1 + mset (map (\<lambda>ids. ids ! layer) matched)"
      "max_blocks a' = max_blocks a1" "contig_pool a' = contig_pool a1" "more_segments a1 a'"
      "num_free a' = num_free a1"
    unfolding with_blocks_cons by blast
  then show ?case using p b(1) more_segments_trans [OF p(6)] by (simp add: nth_opt_def)
qed

text \<open>A fresh cache with whole shared blocks is a restored one.\<close>

lemma table_ok_blocks:
  assumes "0 < bs"
  shows "table_ok bs \<lparr>block_ids = bids, num_tokens = length bids * bs, cached_slots = block_slots bs bids\<rparr>"
  using assms by (simp add: table_ok_def div_ceil_def nth_block_slots)

lemma prefix_hit_restores:
  assumes inv: "alloc_inv a" and held: "\<forall>ids \<in> set matched. layer < length ids \<and> ids ! layer \<in># refs_of a"
    and fit: "slots_fit (c_block_size c) a" "0 < c_block_size c"
    and fresh: "table c = block_table_new" "contig_k c = None" "contig_v c = None" "contig_len c = 0"
    and ret: "retired_ok D rows a"
    and rows: "pool_holds P rows a (block_slots (c_block_size c) (map (\<lambda>ids. ids ! layer) matched)) hk hv"
  shows "\<exists>a' c'. prepopulate_layer layer a c matched = Some (a', c')
    \<and> cache_restored P D rows a' (set_num_tokens c' (length matched * c_block_size c)) hk hv
    \<and> refs_of a' = refs_of a + mset (map (\<lambda>ids. ids ! layer) matched) \<and> max_blocks a' = max_blocks a"
proof -
  let ?bids = "map (\<lambda>ids. ids ! layer) matched" and ?n = "length matched * c_block_size c"
  obtain a' where p: "prepopulate_layer layer a c matched = Some (a', with_blocks c ?bids)" "alloc_inv a'"
      "refs_of a' = refs_of a + mset ?bids" "max_blocks a' = max_blocks a" "contig_pool a' = contig_pool a" "more_segments a a'"
    using prepopulate_layer_ok [OF inv held fit] by blast
  define c' where "c' = set_num_tokens (with_blocks c ?bids) ?n"
  have t: "table c' = \<lparr>block_ids = ?bids, num_tokens = length ?bids * c_block_size c, cached_slots = block_slots (c_block_size c) ?bids\<rparr>"
    by (simp add: c'_def set_num_tokens_def with_blocks_def fresh(1) block_table_new_def Let_def)
  have f: "contig_k c' = None" "contig_v c' = None" "contig_len c' = 0" "c_block_size c' = c_block_size c"
    by (simp_all add: c'_def set_num_tokens_def with_blocks_def fresh Let_def)
  have "cache_restored P D rows a' c' hk hv"
    using p(2) table_ok_blocks [OF fit(2), of ?bids] fit(1) ret pool_holds_grown [OF rows p(6)]
    by (simp add: cache_restored_def f t cache_refs_def p(3,4,5) slots_fit_def retired_ok_def)
  then show ?thesis using p by (auto simp: c'_def)
qed

section \<open>The property\<close>



end
