(* ===== verification/Engine_Step.thy ===== *)
theory Engine_Step
  imports Engine
begin

text \<open>
  The second half of \<open>src/engine.rs\<close>: sampling from the rows of a batch, the speculative
  cycle, and the step that puts the pieces together.
\<close>

section \<open>Sampling\<close>

record 'lp new_token =
  nt_seq_id :: nat
  nt_token :: u32
  nt_logprobs :: "'lp option"

text \<open>One row of logits for one sequence; \<open>prefill\<close> also moves the sequence to its decode phase.\<close>

definition sample_sequence ::
    "('t, 'f, 'l, 'sp, 'jc, 'r, 'lp) engine_env \<Rightarrow> stop_rules \<Rightarrow> bool \<Rightarrow>
     ('t, 'sp, 'jc) sequence_state \<Rightarrow> 'l \<Rightarrow>
     err + (('t, 'sp, 'jc) sequence_state \<times> 'lp new_token list)" where
  "sample_sequence E stop prefill q row =
     (case en_vocab E row of
        None \<Rightarrow> Inl Tensor_failed
      | Some vocab \<Rightarrow>
          (case (case jconstraint q of None \<Rightarrow> Some None
                 | Some c \<Rightarrow> map_option Some (en_allowed E c vocab)) of
             None \<Rightarrow> Inl Panic
           | Some allow \<Rightarrow>
               (case en_sample E row (sampling_params q) (all_tokens q) (token_counts q) allow of
                  Inl e \<Rightarrow> Inl e
                | Inr (tok, lp) \<Rightarrow>
                    (case (case jconstraint q of None \<Rightarrow> Some None
                           | Some c \<Rightarrow> map_option Some (en_advance E c tok)) of
                       None \<Rightarrow> Inl Panic
                     | Some jc \<Rightarrow>
                         let q1 = append_token (q\<lparr>jconstraint := jc\<rparr>) tok;
                             q2 = q1\<lparr>num_processed_tokens := length (all_tokens q1) - 1\<rparr>;
                             q3 = (if prefill then q2\<lparr>phase := Decode\<rparr> else q2);
                             (q4, emit) = apply_token q3 tok (stop_matches stop tok (all_tokens q3))
                         in Inr (q4, if emit
                                     then [\<lparr>nt_seq_id = sq_id q, nt_token = tok, nt_logprobs = Some lp\<rparr>]
                                     else [])))))"

text \<open>The blocks a prefill filled past its cached prefix, one list of layers per block.\<close>

definition new_block_ids ::
    "('t, 'sp, 'jc) sequence_state \<Rightarrow> prefill_info \<Rightarrow> nat list list" where
  "new_block_ids q info =
     map (\<lambda>i. List.map_filter (\<lambda>c. block_id_at c i) (caches q))
       [pi_num_cached_blocks info ..< pi_num_full_blocks_total info]"

fun sample_prefill_outputs ::
    "('t, 'f, 'l, 'sp, 'jc, 'r, 'lp) engine_env \<Rightarrow> 'c pc_ops \<Rightarrow> chain_hash \<Rightarrow> nat \<Rightarrow> stop_rules \<Rightarrow>
     'l list \<Rightarrow> nat \<Rightarrow> ('t, 'f, 'sp, 'jc) scheduler \<Rightarrow> 'c prefix_cache \<Rightarrow> prefill_info list \<Rightarrow>
     ('t, 'f, 'sp, 'jc) scheduler \<times> 'c prefix_cache \<times> 'lp new_token list \<times> (err + unit)" where
  "sample_prefill_outputs E ops hash bs stop rows i s pc [] = (s, pc, [], Inr ())"
| "sample_prefill_outputs E ops hash bs stop rows i s pc (info # infos) =
     (case nth_opt rows i of
        None \<Rightarrow> (s, pc, [], Inl Tensor_failed)
      | Some row \<Rightarrow>
          (case get_running s (pi_seq_id info) of
             None \<Rightarrow> (s, pc, [], Inl Panic)
           | Some q \<Rightarrow>
               (case sample_sequence E stop True q row of
                  Inl e \<Rightarrow> (s, pc, [], Inl e)
                | Inr (q', toks) \<Rightarrow>
                    let s1 = set_running s (pi_seq_id info) q';
                        reg = (if pi_num_cached_blocks info < pi_num_full_blocks_total info
                               then pc_register ops hash pc (all_tokens q') (pi_num_cached_blocks info)
                                      (new_block_ids q' info) (allocators s1) bs
                               else Some (pc, allocators s1))
                    in (case reg of
                          None \<Rightarrow> (s1, pc, toks, Inl Panic)
                        | Some (pc1, as1) \<Rightarrow>
                            (case sample_prefill_outputs E ops hash bs stop rows (Suc i)
                                    (s1\<lparr>allocators := as1\<rparr>) pc1 infos of
                               (s2, pc2, toks2, r) \<Rightarrow> (s2, pc2, toks @ toks2, r))))))"

fun sample_decode_outputs ::
    "('t, 'f, 'l, 'sp, 'jc, 'r, 'lp) engine_env \<Rightarrow> stop_rules \<Rightarrow> 'l list \<Rightarrow> nat \<Rightarrow>
     ('t, 'f, 'sp, 'jc) scheduler \<Rightarrow> nat list \<Rightarrow>
     ('t, 'f, 'sp, 'jc) scheduler \<times> 'lp new_token list \<times> (err + unit)" where
  "sample_decode_outputs E stop rows i s [] = (s, [], Inr ())"
| "sample_decode_outputs E stop rows i s (sid # ids) =
     (case nth_opt rows i of
        None \<Rightarrow> (s, [], Inl Tensor_failed)
      | Some row \<Rightarrow>
          (case get_running s sid of
             None \<Rightarrow> (s, [], Inl Panic)
           | Some q \<Rightarrow>
               (case sample_sequence E stop False q row of
                  Inl e \<Rightarrow> (s, [], Inl e)
                | Inr (q', toks) \<Rightarrow>
                    (case sample_decode_outputs E stop rows (Suc i) (set_running s sid q') ids of
                       (s2, toks2, r) \<Rightarrow> (s2, toks @ toks2, r)))))"

section \<open>The speculative cycle\<close>

definition spec_draft_k :: nat where
  "spec_draft_k = 4"

text \<open>The draft proposes one token at a time.\<close>

fun draft_tokens ::
    "('t, 'f, 'l, 'sp, 'jc, 'r, 'lp) engine_env \<Rightarrow> nat \<Rightarrow> nat \<Rightarrow> u32 \<Rightarrow> 't paged_cache list \<Rightarrow>
     ('t, 'f) kv_memory \<Rightarrow> 't paged_cache list \<times> ('t, 'f) kv_memory \<times> (err + u32 list)" where
  "draft_tokens E 0 pos cur dcs mem = (dcs, mem, Inr [])"
| "draft_tokens E (Suc k) pos cur dcs mem =
     (case en_draft E [cur] [of_nat pos] dcs mem of
        (Inl e, dcs', mem') \<Rightarrow> (dcs', mem', Inl e)
      | (Inr out, dcs', mem') \<Rightarrow>
          (case out of
             [] \<Rightarrow> (dcs', mem', Inl Panic)
           | d # _ \<Rightarrow>
               (case draft_tokens E k (Suc pos) d dcs' mem' of
                  (dcs'', mem'', Inl e) \<Rightarrow> (dcs'', mem'', Inl e)
                | (dcs'', mem'', Inr ds) \<Rightarrow> (dcs'', mem'', Inr (d # ds)))))"

text \<open>How many proposals the target agrees with; \<open>None\<close> where its answer is too short to index.\<close>

fun agreed :: "u32 list \<Rightarrow> u32 list \<Rightarrow> nat option" where
  "agreed [] target = Some 0"
| "agreed (d # ds) [] = None"
| "agreed (d # ds) (t # ts) = (if t = d then map_option Suc (agreed ds ts) else Some 0)"

definition accepted_tokens :: "u32 list \<Rightarrow> u32 list \<Rightarrow> u32 list option" where
  "accepted_tokens drafts target =
     (case agreed drafts target of
        None \<Rightarrow> None
      | Some m \<Rightarrow> map_option (\<lambda>t. take m drafts @ [t]) (nth_opt target m))"

text \<open>The accepted tokens, appended one by one until one of them is a stop.\<close>

fun apply_accepted ::
    "stop_rules \<Rightarrow> ('t, 'sp, 'jc) sequence_state \<Rightarrow> u32 list \<Rightarrow>
     ('t, 'sp, 'jc) sequence_state \<times> 'lp new_token list" where
  "apply_accepted stop q [] = (q, [])"
| "apply_accepted stop q (tok # toks) =
     (let q1 = append_token q tok;
          q2 = q1\<lparr>num_processed_tokens := length (all_tokens q1) - 1\<rparr>;
          (q3, emit) = apply_token q2 tok (stop_matches stop tok (all_tokens q2))
      in if emit
         then (let (q4, out) = apply_accepted stop q3 toks
               in (q4, \<lparr>nt_seq_id = sq_id q, nt_token = tok, nt_logprobs = None\<rparr> # out))
         else (q3, []))"

fun truncate_layers ::
    "('t, 'f) tensor_ops \<Rightarrow> 'f quant_ops \<Rightarrow> 'f \<Rightarrow> nat \<Rightarrow> ('t, 'f) block_allocator list \<Rightarrow>
     't paged_cache list \<Rightarrow> ('t, 'f) block_allocator list \<times> 't paged_cache list \<times> (err + unit)" where
  "truncate_layers T Q fz keep as [] = (as, [], Inr ())"
| "truncate_layers T Q fz keep [] (c # cs) = ([], c # cs, Inl Panic)"
| "truncate_layers T Q fz keep (a # as) (c # cs) =
     (case truncate_to T Q fz a (discard_pending c) keep of
        (a', c', Inl e) \<Rightarrow> (a' # as, c' # cs, Inl e)
      | (a', c', Inr _) \<Rightarrow>
          (case truncate_layers T Q fz keep as cs of (as', cs', r) \<Rightarrow> (a' # as', c' # cs', r)))"

text \<open>Rolling both models' caches back to the confirmed tokens.\<close>

definition roll_back ::
    "('t, 'f, 'l, 'sp, 'jc, 'r, 'lp) engine_env \<Rightarrow> ('t, 'f, 'sp, 'jc) scheduler \<Rightarrow>
     ('t, 'sp, 'jc) sequence_state \<Rightarrow>
     ('t, 'f, 'sp, 'jc) scheduler \<times> ('t, 'sp, 'jc) sequence_state \<times> (err + unit)" where
  "roll_back E s q =
     (let keep = length (all_tokens q) - 1
      in case truncate_layers (en_tensors E) (en_quant E) (en_fzero E) keep (allocators s) (caches q) of
           (as1, cs1, r1) \<Rightarrow>
             let s1 = s\<lparr>allocators := as1\<rparr>; q1 = q\<lparr>caches := cs1\<rparr>
             in (case r1 of
                   Inl e \<Rightarrow> (s1, q1, Inl e)
                 | Inr _ \<Rightarrow>
                     (case truncate_layers (en_tensors E) (en_quant E) (en_fzero E) keep
                             (draft_allocators s1) (draft_caches q1) of
                        (as2, cs2, r2) \<Rightarrow>
                          (s1\<lparr>draft_allocators := as2\<rparr>, q1\<lparr>draft_caches := cs2\<rparr>, r2))))"

text \<open>The draft's part of the cycle: catching up with the confirmed tokens, then proposing.\<close>

definition draft_round ::
    "('t, 'f, 'l, 'sp, 'jc, 'r, 'lp) engine_env \<Rightarrow> u32 list \<Rightarrow> 't paged_cache list \<Rightarrow>
     ('t, 'f) kv_memory \<Rightarrow> 't paged_cache list \<times> ('t, 'f) kv_memory \<times> (err + u32 list)" where
  "draft_round E tokens dcs mem =
     (let l = length tokens;
          target_have = l - 1;
          draft_have = (case dcs of [] \<Rightarrow> 0 | c # _ \<Rightarrow> num_tokens (table c))
      in case (if draft_have < target_have
               then en_draft E (take (target_have - draft_have) (drop draft_have tokens))
                      (map of_nat [draft_have ..< target_have]) dcs mem
               else (Inr [], dcs, mem)) of
           (Inl e, dcs1, mem1) \<Rightarrow> (dcs1, mem1, Inl e)
         | (Inr _, dcs1, mem1) \<Rightarrow>
             draft_tokens E spec_draft_k (l - 1) (last tokens) dcs1 mem1)"

definition speculate_one ::
    "('t, 'f, 'l, 'sp, 'jc, 'r, 'lp) engine_env \<Rightarrow> stop_rules \<Rightarrow> ('t, 'f, 'sp, 'jc) scheduler \<Rightarrow> nat \<Rightarrow>
     ('t, 'f, 'sp, 'jc) scheduler \<times> 'lp new_token list \<times> (err + unit)" where
  "speculate_one E stop s sid =
     (case get_running s sid of
        None \<Rightarrow> (s, [], Inl Panic)
      | Some q0 \<Rightarrow>
          let q = q0\<lparr>caches := map (\<lambda>c. set_pool_writes c False) (caches q0),
                     draft_caches := map (\<lambda>c. set_pool_writes c False) (draft_caches q0)\<rparr>;
              tokens = all_tokens q;
              l = length tokens
          in if l = 0 then (set_running s sid q, [], Inl Panic)
             else
               (case draft_round E tokens (draft_caches q) (s_budgets s, draft_allocators s) of
                  (dcs, dmem, dr) \<Rightarrow>
                    let s1 = s\<lparr>s_budgets := fst dmem, draft_allocators := snd dmem\<rparr>;
                        q1 = q\<lparr>draft_caches := dcs\<rparr>
                    in (case dr of
                          Inl e \<Rightarrow> (set_running s1 sid q1, [], Inl e)
                        | Inr drafts \<Rightarrow>
                            (case en_greedy E (last tokens # drafts) (map of_nat [l - 1 ..< l + spec_draft_k])
                                    (caches q1) (memory_of s1) of
                               (tr, cs, mem) \<Rightarrow>
                                 let s2 = set_memory s1 mem; q2 = q1\<lparr>caches := cs\<rparr>
                                 in (case tr of
                                       Inl e \<Rightarrow> (set_running s2 sid q2, [], Inl e)
                                     | Inr target_am \<Rightarrow>
                                         (case accepted_tokens drafts target_am of
                                            None \<Rightarrow> (set_running s2 sid q2, [], Inl Panic)
                                          | Some acc \<Rightarrow>
                                              (case apply_accepted stop q2 acc of
                                                 (q3, out) \<Rightarrow>
                                                   (case roll_back E s2 q3 of
                                                      (s3, q4, r) \<Rightarrow> (set_running s3 sid q4, out, r)))))))))"

fun run_speculative_decode ::
    "('t, 'f, 'l, 'sp, 'jc, 'r, 'lp) engine_env \<Rightarrow> stop_rules \<Rightarrow> ('t, 'f, 'sp, 'jc) scheduler \<Rightarrow> nat list \<Rightarrow>
     ('t, 'f, 'sp, 'jc) scheduler \<times> 'lp new_token list \<times> (err + unit)" where
  "run_speculative_decode E stop s [] = (s, [], Inr ())"
| "run_speculative_decode E stop s (sid # ids) =
     (case speculate_one E stop s sid of
        (s1, out, Inl e) \<Rightarrow> (s1, out, Inl e)
      | (s1, out, Inr _) \<Rightarrow>
          (case run_speculative_decode E stop s1 ids of (s2, out2, r) \<Rightarrow> (s2, out @ out2, r)))"

section \<open>The engine\<close>

record ('t, 'f, 'sp, 'jc, 'c, 'r) engine =
  g_scheduler :: "('t, 'f, 'sp, 'jc) scheduler"
  g_prefix_cache :: "'c prefix_cache"
  g_stop :: stop_rules
  g_block_size :: nat
  g_pacer :: "'r prefill_pacer"
  g_has_draft :: bool

text \<open>The engine-level stop sequences, without the empty one and without repetitions.\<close>

definition stop_sequences_of :: "u32 list list \<Rightarrow> u32 list list" where
  "stop_sequences_of extra =
     fold (\<lambda>sq acc. if sq \<noteq> [] \<and> sq \<notin> set acc then acc @ [sq] else acc) extra []"

definition engine_new ::
    "'c pc_ops \<Rightarrow> u32 list \<Rightarrow> bool \<Rightarrow> nat \<Rightarrow> nat \<Rightarrow> nat \<Rightarrow> budgets \<Rightarrow> ('t, 'f) block_allocator list \<Rightarrow>
     u32 list \<Rightarrow> u32 list list \<Rightarrow> ('t, 'f, 'sp, 'jc, 'c, 'r) engine" where
  "engine_new ops model_stop_ids has_recurrent layers max_seqs max_step B as extra_ids extra_sequences =
     \<lparr>g_scheduler = scheduler_new max_seqs max_step B as layers,
      g_prefix_cache = (if has_recurrent then prefix_cache_disabled ops else prefix_cache_new ops 512),
      g_stop = \<lparr>sr_token_ids = set model_stop_ids \<union> set extra_ids,
                sr_sequences = stop_sequences_of extra_sequences\<rparr>,
      g_block_size = (case as of [] \<Rightarrow> default_block_size | a # _ \<Rightarrow> block_size a),
      g_pacer = pacer_default, g_has_draft = False\<rparr>"

definition with_draft_model ::
    "bool \<Rightarrow> ('t, 'f, 'sp, 'jc, 'c, 'r) engine \<Rightarrow> ('t, 'f) block_allocator list \<Rightarrow>
     ('t, 'f, 'sp, 'jc, 'c, 'r) engine" where
  "with_draft_model has_recurrent g draft_as =
     (if has_recurrent then g
      else g\<lparr>g_scheduler := set_draft_allocators (g_scheduler g) draft_as, g_has_draft := True\<rparr>)"

definition kv_capacity_tokens :: "('t, 'f, 'sp, 'jc, 'c, 'r) engine \<Rightarrow> nat" where
  "kv_capacity_tokens g =
     (case allocators (g_scheduler g) of [] \<Rightarrow> 0 | a # _ \<Rightarrow> num_total a * g_block_size g)"

text \<open>\<open>add_request\<close> and \<open>add_request_constrained\<close>.\<close>

definition engine_add_request ::
    "('t, 'f, 'sp, 'jc, 'c, 'r) engine \<Rightarrow> u32 list \<Rightarrow> 'sp \<Rightarrow> nat \<Rightarrow> 'jc option \<Rightarrow>
     (('t, 'f, 'sp, 'jc, 'c, 'r) engine \<times> nat) option" where
  "engine_add_request g prompt sp maxt jc =
     map_option (\<lambda>(s, sid). (g\<lparr>g_scheduler := s\<rparr>, sid))
       (add_request_full (g_scheduler g) prompt sp maxt jc)"

record 'lp step_output =
  so_new_tokens :: "'lp new_token list"
  so_completed :: "(nat \<times> string option) list"
  so_hits :: nat
  so_misses :: nat

text \<open>Which decodes take the speculative cycle.\<close>

definition speculates ::
    "('t, 'f, 'l, 'sp, 'jc, 'r, 'lp) engine_env \<Rightarrow> ('t, 'f, 'sp, 'jc) scheduler \<Rightarrow> nat \<Rightarrow> bool" where
  "speculates E s sid =
     (case get_running s sid of
        None \<Rightarrow> False
      | Some q \<Rightarrow> en_plain_greedy E (sampling_params q) \<and> jconstraint q = None)"

text \<open>The batched half of a step: one forward over the batch, then its samples.\<close>

definition step_batch ::
    "('t, 'f, 'l, 'sp, 'jc, 'r, 'lp) engine_env \<Rightarrow> 'c pc_ops \<Rightarrow> chain_hash \<Rightarrow>
     ('t, 'f, 'sp, 'jc, 'c, 'r) engine \<Rightarrow> nat list \<Rightarrow> nat list \<Rightarrow> prefill_info list \<Rightarrow> batch_input \<Rightarrow>
     ('t, 'f, 'sp, 'jc, 'c, 'r) engine \<times> 'lp new_token list \<times> (err + unit)" where
  "step_batch E ops hash g prefill_ids decode_ids infos batch =
     (case run_forward_pass E (g_scheduler g) prefill_ids decode_ids (g_pacer g) batch of
        None \<Rightarrow> (g, [], Inl Panic)
      | Some (s1, pacer, r) \<Rightarrow>
          let g1 = g\<lparr>g_scheduler := s1, g_pacer := pacer\<rparr>
          in (case r of
                Inl e \<Rightarrow> (g1, [], Inl e)
              | Inr rows \<Rightarrow>
                  (case sample_prefill_outputs E ops hash (g_block_size g) (g_stop g) rows 0 s1
                          (g_prefix_cache g) infos of
                     (s2, pc2, toks, r2) \<Rightarrow>
                       let g2 = g1\<lparr>g_scheduler := s2, g_prefix_cache := pc2\<rparr>
                       in (case r2 of
                             Inl e \<Rightarrow> (g2, toks, Inl e)
                           | Inr _ \<Rightarrow>
                               (case sample_decode_outputs E (g_stop g) rows (length infos) s2 decode_ids of
                                  (s3, toks3, r3) \<Rightarrow> (g2\<lparr>g_scheduler := s3\<rparr>, toks @ toks3, r3))))))"

definition retire_step ::
    "('t \<Rightarrow> nat \<Rightarrow> nat option) \<Rightarrow> ('t, 'f, 'sp, 'jc, 'c, 'r) engine \<Rightarrow> 'lp new_token list \<Rightarrow> nat \<Rightarrow> nat \<Rightarrow>
     ('t, 'f, 'sp, 'jc, 'c, 'r) engine \<times> (err + 'lp step_output)" where
  "retire_step dim g toks hits misses =
     (case retire_finished dim (g_scheduler g) of
        None \<Rightarrow> (g, Inl Panic)
      | Some (s, completed) \<Rightarrow>
          (g\<lparr>g_scheduler := s\<rparr>,
           Inr \<lparr>so_new_tokens = toks, so_completed = completed, so_hits = hits, so_misses = misses\<rparr>))"

text \<open>
  One step.  An error leaves the engine as the failing call left it; the tokens of the parts
  that had run are dropped with it.
\<close>

definition engine_step ::
    "('t, 'f, 'l, 'sp, 'jc, 'r, 'lp) engine_env \<Rightarrow> 'c pc_ops \<Rightarrow> chain_hash \<Rightarrow>
     ('t, 'f, 'sp, 'jc, 'c, 'r) engine \<Rightarrow> ('t, 'f, 'sp, 'jc, 'c, 'r) engine \<times> (err + 'lp step_output)" where
  "engine_step E ops hash g =
     (let dim = t_dim (en_tensors E)
      in case schedule dim ops hash (g_scheduler g) (Some (g_prefix_cache g)) of
           Some (s0, Some pc0, scheduled) \<Rightarrow>
             (let prefill_ids = map fst (filter (\<lambda>(_, ph). ph = Prefill) scheduled);
                  decode_ids = map fst (filter (\<lambda>(_, ph). ph = Decode) scheduled);
                  spec_ids = (if g_has_draft g then filter (speculates E s0) decode_ids else []);
                  normal_ids = (if g_has_draft g then filter (\<lambda>i. \<not> speculates E s0 i) decode_ids
                                else decode_ids);
                  g0 = g\<lparr>g_scheduler := s0, g_prefix_cache := pc0\<rparr>
              in case plan_prefill_inputs ops hash (g_block_size g) s0 pc0 prefill_ids of
                   None \<Rightarrow> (g0, Inl Panic)
                 | Some (s1, pc1, infos) \<Rightarrow>
                     let g1 = g0\<lparr>g_scheduler := s1, g_prefix_cache := pc1\<rparr>
                     in (case build_batch_input s1 infos normal_ids of
                           None \<Rightarrow> (g1, Inl Panic)
                         | Some batch \<Rightarrow>
                             if bi_all_token_ids batch = [] \<and> spec_ids = []
                             then retire_step dim g1 [] 0 0
                             else
                               (case (if bi_all_token_ids batch = [] then (g1, [], Inr ())
                                      else step_batch E ops hash g1 prefill_ids normal_ids infos batch) of
                                  (g2, toks, Inl e) \<Rightarrow> (g2, Inl e)
                                | (g2, toks, Inr _) \<Rightarrow>
                                    (case run_speculative_decode E (g_stop g) (g_scheduler g2) spec_ids of
                                       (s3, toks3, Inl e) \<Rightarrow> (g2\<lparr>g_scheduler := s3\<rparr>, Inl e)
                                     | (s3, toks3, Inr _) \<Rightarrow>
                                         retire_step dim (g2\<lparr>g_scheduler := s3\<rparr>) (toks @ toks3)
                                           (length (filter (\<lambda>i. 0 < pi_num_cached_blocks i) infos))
                                           (length (filter (\<lambda>i. pi_num_cached_blocks i = 0) infos))))))
         | _ \<Rightarrow> (g, Inl Panic))"

text \<open>Aborting, and what is left to do: the scheduler's operations.\<close>

definition abort_running ::
    "('t \<Rightarrow> nat \<Rightarrow> nat option) \<Rightarrow> ('t, 'f, 'sp, 'jc, 'c, 'r) engine \<Rightarrow>
     (('t, 'f, 'sp, 'jc, 'c, 'r) engine \<times> nat list) option" where
  "abort_running dim g =
     map_option (\<lambda>(s, ids). (g\<lparr>g_scheduler := s\<rparr>, ids)) (abort_all_running dim (g_scheduler g))"

definition engine_abort_sequence ::
    "('t \<Rightarrow> nat \<Rightarrow> nat option) \<Rightarrow> ('t, 'f, 'sp, 'jc, 'c, 'r) engine \<Rightarrow> nat \<Rightarrow>
     (('t, 'f, 'sp, 'jc, 'c, 'r) engine \<times> bool) option" where
  "engine_abort_sequence dim g sid =
     map_option (\<lambda>(s, found). (g\<lparr>g_scheduler := s\<rparr>, found)) (abort_sequence dim (g_scheduler g) sid)"

definition engine_abort_all ::
    "('t \<Rightarrow> nat \<Rightarrow> nat option) \<Rightarrow> ('t, 'f, 'sp, 'jc, 'c, 'r) engine \<Rightarrow>
     (('t, 'f, 'sp, 'jc, 'c, 'r) engine \<times> nat list) option" where
  "engine_abort_all dim g =
     map_option (\<lambda>(s, ids). (g\<lparr>g_scheduler := s\<rparr>, ids)) (abort_all dim (g_scheduler g))"

definition engine_has_pending_work :: "('t, 'f, 'sp, 'jc, 'c, 'r) engine \<Rightarrow> bool" where
  "engine_has_pending_work g \<longleftrightarrow> has_pending_work (g_scheduler g)"

definition engine_queue_depth :: "('t, 'f, 'sp, 'jc, 'c, 'r) engine \<Rightarrow> nat" where
  "engine_queue_depth g = queue_depth (g_scheduler g)"

end
