(* ===== verification/Speculation_Props.thy ===== *)
theory Speculation_Props
  imports Engine_Step Cache_View_Props
begin

text \<open>
  The speculative cycle against plain decoding: the tokens the cycle emits and the state it
  leaves are those of as many plain decode steps of the target model, whatever the draft
  proposes; and the one place where the two part, the length cap.
\<close>

section \<open>The accepted tokens\<close>

text \<open>The target's greedy continuation of a text.\<close>

fun greedy_run :: "(u32 list \<Rightarrow> u32) \<Rightarrow> nat \<Rightarrow> u32 list \<Rightarrow> u32 list" where
  "greedy_run f 0 toks = []"
| "greedy_run f (Suc n) toks = f toks # greedy_run f n (toks @ [f toks])"

lemma length_greedy_run [simp]: "length (greedy_run f n toks) = n"
  by (induction n arbitrary: toks) auto

text \<open>What the target answers to \<open>[last, d1, ..., dk]\<close>: its next token after every one of them.\<close>

definition target_answers :: "(u32 list \<Rightarrow> u32) \<Rightarrow> u32 list \<Rightarrow> u32 list \<Rightarrow> u32 list" where
  "target_answers f toks ds = map (\<lambda>i. f (toks @ take i ds)) [0 ..< Suc (length ds)]"

lemma target_answers_Nil [simp]: "target_answers f toks [] = [f toks]"
  by (simp add: target_answers_def)

lemma target_answers_Cons [simp]:
  "target_answers f toks (d # ds) = f toks # target_answers f (toks @ [d]) ds"
  by (simp add: target_answers_def upt_conv_Cons comp_def del: upt_Suc flip: map_Suc_upt)

lemma accepted_tokens_Nil [simp]: "accepted_tokens [] (t # ts) = Some [t]"
  by (simp add: accepted_tokens_def nth_opt_def)

lemma accepted_tokens_Cons:
  "accepted_tokens (d # ds) (t # ts) =
     (if t = d then map_option (\<lambda>acc. d # acc) (accepted_tokens ds ts) else Some [t])"
  by (auto simp: accepted_tokens_def nth_opt_def option.map_comp comp_def split: option.splits)

lemma accepted_is_greedy:
  "\<exists>n \<le> length ds. accepted_tokens ds (target_answers f toks ds) = Some (greedy_run f (Suc n) toks)"
proof (induction ds arbitrary: toks)
  case Nil
  then show ?case by simp
next
  case (Cons d ds)
  obtain n where n: "n \<le> length ds"
    "accepted_tokens ds (target_answers f (toks @ [d]) ds) = Some (greedy_run f (Suc n) (toks @ [d]))"
    using Cons by blast
  show ?case
  proof (cases "f toks = d")
    case True
    then show ?thesis using n
      by (intro exI [of _ "Suc n"]) (simp add: accepted_tokens_Cons)
  next
    case False
    then show ?thesis by (intro exI [of _ 0]) (simp add: accepted_tokens_Cons)
  qed
qed

section \<open>Plain decoding\<close>

text \<open>
  \<open>n\<close> plain decode steps of one sequence, each sampling from the row the target gives for the
  text so far; a finished sequence is not scheduled again.
\<close>

fun plain_steps ::
    "('t, 'f, 'l, 'sp, 'jc, 'r, 'lp) engine_env \<Rightarrow> stop_rules \<Rightarrow> (u32 list \<Rightarrow> 'l) \<Rightarrow> nat \<Rightarrow>
     ('t, 'sp, 'jc) sequence_state \<Rightarrow> (('t, 'sp, 'jc) sequence_state \<times> u32 list) option" where
  "plain_steps E stop row 0 q = Some (q, [])"
| "plain_steps E stop row (Suc n) q =
     (if status q = Finished then Some (q, [])
      else case sample_sequence E stop False q (row (all_tokens q)) of
             Inl e \<Rightarrow> None
           | Inr (q1, out) \<Rightarrow>
               map_option (\<lambda>(q2, toks). (q2, map nt_token out @ toks)) (plain_steps E stop row n q1))"

text \<open>The sampler of a plain greedy request takes the target's next token.\<close>

definition greedy_sampler ::
    "('t, 'f, 'l, 'sp, 'jc, 'r, 'lp) engine_env \<Rightarrow> 'sp \<Rightarrow> (u32 list \<Rightarrow> 'l) \<Rightarrow> (u32 list \<Rightarrow> u32) \<Rightarrow> bool" where
  "greedy_sampler E sp row f \<longleftrightarrow>
     (\<forall>toks counts. en_vocab E (row toks) \<noteq> None
        \<and> (\<exists>lp. en_sample E (row toks) sp toks counts None = Inr (f toks, lp)))"

text \<open>One token of either path.\<close>

definition take_token ::
    "stop_rules \<Rightarrow> ('t, 'sp, 'jc) sequence_state \<Rightarrow> u32 \<Rightarrow> ('t, 'sp, 'jc) sequence_state \<times> bool" where
  "take_token stop q tok =
     (let q1 = append_token q tok; q2 = q1\<lparr>num_processed_tokens := length (all_tokens q1) - 1\<rparr>
      in apply_token q2 tok (stop_matches stop tok (all_tokens q2)))"

lemma apply_accepted_Cons:
  "apply_accepted stop q (tok # toks) =
     (case take_token stop q tok of
        (q1, True) \<Rightarrow> (case apply_accepted stop q1 toks of
                        (q2, out) \<Rightarrow> (q2, \<lparr>nt_seq_id = sq_id q1, nt_token = tok, nt_logprobs = None\<rparr> # out))
      | (q1, False) \<Rightarrow> (q1, []))"
  by (simp add: take_token_def Let_def append_token_def apply_token_def split: prod.splits)

declare apply_accepted.simps(2) [simp del]

lemma sample_greedy:
  assumes "greedy_sampler E (sampling_params q) row f" and "jconstraint q = None"
  shows "\<exists>lp. sample_sequence E stop False q (row (all_tokens q)) =
    (case take_token stop q (f (all_tokens q)) of
       (q1, emit) \<Rightarrow> Inr (q1, if emit then [\<lparr>nt_seq_id = sq_id q, nt_token = f (all_tokens q),
                                         nt_logprobs = Some lp\<rparr>] else []))"
proof -
  obtain v lp where e: "en_vocab E (row (all_tokens q)) = Some v"
      "en_sample E (row (all_tokens q)) (sampling_params q) (all_tokens q) (token_counts q) None =
        Inr (f (all_tokens q), lp)"
    using assms(1) unfolding greedy_sampler_def by blast
  have id: "q\<lparr>jconstraint := None\<rparr> = q" using assms(2) by (cases q) simp
  show ?thesis using assms(2) e
    by (intro exI [of _ lp])
      (simp add: id sample_sequence_def take_token_def Let_def split: prod.splits)
qed

lemma take_token_fields:
  "take_token stop q tok = (q', emit) \<Longrightarrow>
     sq_id q' = sq_id q \<and> all_tokens q' = all_tokens q @ [tok] \<and> sampling_params q' = sampling_params q
     \<and> jconstraint q' = jconstraint q \<and> max_tokens q' = max_tokens q
     \<and> caches q' = caches q \<and> draft_caches q' = draft_caches q
     \<and> (emit \<longrightarrow> num_generated q' = Suc (num_generated q))
     \<and> (\<not> emit \<longrightarrow> status q' = Finished)
     \<and> (emit \<longrightarrow> status q \<noteq> Finished \<longrightarrow> Suc (num_generated q) < max_tokens q \<longrightarrow> status q' \<noteq> Finished)"
  by (auto simp: take_token_def Let_def append_token_def apply_token_def split: if_splits)

lemma take_token_stop:
  "take_token stop q tok = (q', emit) \<Longrightarrow> emit \<longleftrightarrow> \<not> stop_matches stop tok (all_tokens q @ [tok])"
  by (auto simp: take_token_def Let_def append_token_def apply_token_def split: if_splits)

text \<open>Applying a greedy run within the length cap is that many plain steps.\<close>

lemma apply_greedy_run:
  fixes E :: "('t, 'f, 'l, 'sp, 'jc, 'r, 'lp) engine_env"
  assumes "greedy_sampler E (sampling_params q) row f" and "jconstraint q = None"
    and "status q \<noteq> Finished" and "num_generated q + n \<le> max_tokens q"
  shows "\<exists>q' (out :: 'lp new_token list).
    apply_accepted stop q (greedy_run f n (all_tokens q)) = (q', out)
    \<and> plain_steps E stop row n q = Some (q', map nt_token out)"
  using assms
proof (induction n arbitrary: q)
  case 0
  then show ?case by simp
next
  case (Suc n)
  let ?t = "f (all_tokens q)"
  obtain q1 emit where t: "take_token stop q ?t = (q1, emit)" by fastforce
  note fields = take_token_fields [OF t]
  obtain lp where s: "sample_sequence E stop False q (row (all_tokens q)) =
      Inr (q1, if emit then [\<lparr>nt_seq_id = sq_id q, nt_token = ?t, nt_logprobs = Some lp\<rparr>] else [])"
    using sample_greedy [OF Suc.prems(1,2), of stop] t by auto
  show ?case
  proof (cases emit)
    case False
    have "plain_steps E stop row n q1 = Some (q1, [])"
      using fields False by (cases n) auto
    then show ?thesis using False t s Suc.prems(3)
      by (simp add: apply_accepted_Cons)
  next
    case True
    show ?thesis
    proof (cases "n = 0")
      case True
      then show ?thesis using \<open>emit\<close> t s Suc.prems(3) by (simp add: apply_accepted_Cons)
    next
      case False
      have pre: "greedy_sampler E (sampling_params q1) row f" "jconstraint q1 = None"
          "status q1 \<noteq> Finished" "num_generated q1 + n \<le> max_tokens q1"
        using Suc.prems fields True False by auto
      obtain q' and out :: "'lp new_token list" where ih: "apply_accepted stop q1 (greedy_run f n (all_tokens q1)) = (q', out)"
          "plain_steps E stop row n q1 = Some (q', map nt_token out)"
        using Suc.IH [OF pre] by blast
      have "all_tokens q1 = all_tokens q @ [?t]" using fields by simp
      then show ?thesis using True t s Suc.prems(3) ih
        by (simp add: apply_accepted_Cons)
    qed
  qed
qed

section \<open>Rolling back\<close>

text \<open>A layer whose cache holds the references of its blocks.\<close>

definition layer_owned :: "('t, 'f) block_allocator \<Rightarrow> 't paged_cache \<Rightarrow> bool" where
  "layer_owned a c \<longleftrightarrow> alloc_inv a \<and> 0 < c_block_size c \<and> cache_refs c \<subseteq># refs_of a"

text \<open>
  A cache rolled back to \<open>n\<close> tokens: a shorter one keeps its table, a longer one keeps its first \<open>n\<close> tokens
  with their slots and blocks; the staged writes are gone, the buffer loses what the table lost.
\<close>

definition rolled_to :: "nat \<Rightarrow> 't paged_cache \<Rightarrow> 't paged_cache \<Rightarrow> bool" where
  "rolled_to n c c' \<longleftrightarrow>
     table c' = (if num_tokens (table c) \<le> n then table c
       else (table c)\<lparr>block_ids := take (div_ceil n (c_block_size c)) (block_ids (table c)),
                      num_tokens := n, cached_slots := take n (cached_slots (table c))\<rparr>)
     \<and> pending_writes c' = [] \<and> contig_k c' = contig_k c \<and> contig_v c' = contig_v c \<and> contig_start c' = contig_start c
     \<and> contig_len c' = contig_len c - (num_tokens (table c) - n)"

lemma truncate_owned:
  assumes "layer_owned a c"
  shows "\<exists>a' c'. truncate_to T Q fz a (discard_pending c) n = (a', c', Inr ()) \<and> rolled_to n c c'"
proof (cases "num_tokens (table c) \<le> n")
  case True
  then show ?thesis by (simp add: truncate_to_def discard_pending_def rolled_to_def)
next
  case False
  let ?d = "discard_pending c" and ?b = "div_ceil n (c_block_size c)" and ?ids = "block_ids (table c)"
  have fl: "flush_pending T Q fz a ?d = (a, ?d, Inr ())"
    by (simp add: flush_pending_def discard_pending_def)
  have d: "table ?d = table c" "c_block_size ?d = c_block_size c" by (simp_all add: discard_pending_def)
  have "mset (drop ?b ?ids) \<subseteq># cache_refs c"
    unfolding cache_refs_def by (metis append_take_drop_id mset_append mset_subset_eq_add_right)
  then have "mset (drop ?b ?ids) \<subseteq># refs_of a"
    using assms subset_mset.order_trans unfolding layer_owned_def by blast
  then obtain a' where "each_id free a (drop ?b ?ids) = Some a'"
    using blocks.each_free_ok [of a "drop ?b ?ids"] assms unfolding layer_owned_def by auto
  then show ?thesis using False fl assms
    by (auto simp: truncate_to_def d set_num_tokens_def layer_owned_def rolled_to_def discard_pending_def Let_def)
qed

lemma truncate_layers_owned:
  assumes "list_all2 layer_owned as cs"
  shows "\<exists>as' cs'. truncate_layers T Q fz n as cs = (as', cs', Inr ())
    \<and> list_all2 (rolled_to n) cs cs'"
  using assms
proof (induction rule: list_all2_induct)
  case Nil
  then show ?case by simp
next
  case (Cons a as c cs)
  then show ?case using truncate_owned [OF Cons(1), of T Q fz n] by fastforce
qed

lemma roll_back_owned:
  assumes "list_all2 layer_owned (allocators s) (caches q)"
    and "list_all2 layer_owned (draft_allocators s) (draft_caches q)"
  shows "\<exists>s' q'. roll_back E s q = (s', q', Inr ()) \<and> running s' = running s
    \<and> running_index s' = running_index s
    \<and> (\<exists>cs dcs. q' = q\<lparr>caches := cs, draft_caches := dcs\<rparr>
         \<and> list_all2 (rolled_to (length (all_tokens q) - 1)) (caches q) cs
         \<and> list_all2 (rolled_to (length (all_tokens q) - 1)) (draft_caches q) dcs)"
proof -
  let ?n = "length (all_tokens q) - 1"
  obtain as1 cs1 where 1: "truncate_layers (en_tensors E) (en_quant E) (en_fzero E) ?n (allocators s) (caches q) =
      (as1, cs1, Inr ())" "list_all2 (rolled_to ?n) (caches q) cs1"
    using truncate_layers_owned [OF assms(1)] by blast
  obtain as2 cs2 where 2: "truncate_layers (en_tensors E) (en_quant E) (en_fzero E) ?n (draft_allocators s)
      (draft_caches q) = (as2, cs2, Inr ())"
      "list_all2 (rolled_to ?n) (draft_caches q) cs2"
    using truncate_layers_owned [OF assms(2)] by blast
  show ?thesis using 1 2 by (simp add: roll_back_def Let_def) (metis)
qed

section \<open>One cycle\<close>

lemma draft_tokens_length:
  "draft_tokens E k pos cur dcs mem = (dcs', mem', Inr ds) \<Longrightarrow> length ds = k"
  by (induction k arbitrary: pos cur dcs mem ds) (auto split: prod.splits sum.splits list.splits)

lemma draft_round_length:
  "draft_round E toks dcs mem = (dcs', mem', Inr ds) \<Longrightarrow> length ds = spec_draft_k"
  by (auto simp: draft_round_def Let_def split: prod.splits sum.splits dest: draft_tokens_length)

text \<open>A sequence with the caches of another point in time; sampling does not look at them.\<close>

definition with_caches ::
    "'t paged_cache list \<Rightarrow> 't paged_cache list \<Rightarrow> ('t, 'sp, 'jc) sequence_state \<Rightarrow> ('t, 'sp, 'jc) sequence_state" where
  "with_caches cs dcs q = q\<lparr>draft_caches := dcs, caches := cs\<rparr>"

lemma with_caches_fields [simp]:
  "all_tokens (with_caches cs dcs q) = all_tokens q"
  "token_counts (with_caches cs dcs q) = token_counts q"
  "sampling_params (with_caches cs dcs q) = sampling_params q"
  "jconstraint (with_caches cs dcs q) = jconstraint q" "status (with_caches cs dcs q) = status q"
  "num_generated (with_caches cs dcs q) = num_generated q"
  "max_tokens (with_caches cs dcs q) = max_tokens q" "sq_id (with_caches cs dcs q) = sq_id q"
  "with_caches cs dcs (with_caches cs' dcs' q) = with_caches cs dcs q"
  "with_caches (caches q) (draft_caches q) q = q"
  by (simp_all add: with_caches_def)

lemma take_token_with_caches:
  "take_token stop (with_caches cs dcs q) tok = apfst (with_caches cs dcs) (take_token stop q tok)"
  by (simp add: take_token_def with_caches_def append_token_def apply_token_def Let_def)

lemma plain_steps_with_caches:
  assumes "greedy_sampler E (sampling_params q) row f" and "jconstraint q = None"
  shows "plain_steps E stop row n (with_caches cs dcs q) =
    map_option (apfst (with_caches cs dcs)) (plain_steps E stop row n q)"
  using assms
proof (induction n arbitrary: q)
  case (Suc n)
  obtain q1 emit where t: "take_token stop q (f (all_tokens q)) = (q1, emit)" by fastforce
  obtain lp where s: "sample_sequence E stop False q (row (all_tokens q)) =
      Inr (q1, if emit then [\<lparr>nt_seq_id = sq_id q, nt_token = f (all_tokens q), nt_logprobs = Some lp\<rparr>] else [])"
    using sample_greedy [OF Suc.prems, of stop] t by auto
  have p: "greedy_sampler E (sampling_params (with_caches cs dcs q)) row f"
      "jconstraint (with_caches cs dcs q) = None"
    using Suc.prems by simp_all
  obtain lp' where s': "sample_sequence E stop False (with_caches cs dcs q) (row (all_tokens q)) =
      Inr (with_caches cs dcs q1,
           if emit then [\<lparr>nt_seq_id = sq_id q, nt_token = f (all_tokens q), nt_logprobs = Some lp'\<rparr>] else [])"
    using sample_greedy [OF p, of stop, unfolded with_caches_fields] t
    by (auto simp: take_token_with_caches)
  have "plain_steps E stop row n (with_caches cs dcs q1) =
      map_option (apfst (with_caches cs dcs)) (plain_steps E stop row n q1)"
    using Suc take_token_fields [OF t] by simp
  then show ?case using s s'
    by (auto simp: option.map_comp comp_def apfst_def map_prod_def split: prod.splits
        intro!: option.map_cong)
qed simp

lemma sample_sequence_caches:
  "sample_sequence E stop pre q row = Inr (q', out) \<Longrightarrow> caches q' = caches q \<and> draft_caches q' = draft_caches q"
  by (auto simp: sample_sequence_def append_token_def apply_token_def Let_def
      split: option.splits sum.splits prod.splits if_splits)

lemma plain_steps_keeps_caches:
  "plain_steps E stop row n q = Some (q', toks) \<Longrightarrow> caches q' = caches q \<and> draft_caches q' = draft_caches q"
  by (induction n arbitrary: q toks)
    (auto split: if_splits sum.splits prod.splits dest!: sample_sequence_caches)

lemma set_running_get:
  "running s' = running s \<Longrightarrow> running_index s' = running_index s \<Longrightarrow> get_running s sid = Some q0
   \<Longrightarrow> get_running (set_running s' sid q) sid = Some q"
  by (auto simp: get_running_def set_running_def split: option.splits if_splits)

lemma speculate_one_steps:
  assumes "get_running s sid = Some q0" and "all_tokens q0 \<noteq> []"
    and "draft_round E (all_tokens q0) (map (\<lambda>c. set_pool_writes c False) (draft_caches q0))
           (s_budgets s, draft_allocators s) = (dcs, dmem, Inr drafts)"
    and "en_greedy E (last (all_tokens q0) # drafts)
           (map of_nat [length (all_tokens q0) - 1 ..< length (all_tokens q0) + spec_draft_k])
           (map (\<lambda>c. set_pool_writes c False) (caches q0)) (fst dmem, allocators s) = (Inr target, cs, mem)"
    and "accepted_tokens drafts target = Some acc"
    and "apply_accepted stop (with_caches cs dcs q0) acc = (q3, out)"
    and "roll_back E (s\<lparr>draft_allocators := snd dmem, s_budgets := fst mem, allocators := snd mem\<rparr>) q3 = (s3, q4, r)"
  shows "speculate_one E stop s sid = (set_running s3 sid q4, out, r)"
  using assms by (simp add: speculate_one_def memory_of_def set_memory_def with_caches_def Let_def)

section \<open>The length cap\<close>

lemma accepted_when_agreeing:
  "accepted_tokens (greedy_run f n toks) (target_answers f toks (greedy_run f n toks)) =
     Some (greedy_run f (Suc n) toks)"
  by (induction n arbitrary: toks) (simp_all add: accepted_tokens_Cons)

lemma apply_accepted_no_stop:
  assumes "\<forall>i < length toks. \<not> stop_matches stop (toks ! i) (all_tokens q @ take (Suc i) toks)"
  shows "\<exists>q' (out :: 'lp new_token list). apply_accepted stop q toks = (q', out)
    \<and> map nt_token out = toks \<and> num_generated q' = num_generated q + length toks
    \<and> max_tokens q' = max_tokens q \<and> caches q' = caches q \<and> draft_caches q' = draft_caches q"
  using assms
proof (induction toks arbitrary: q)
  case Nil
  then show ?case by simp
next
  case (Cons tok toks)
  obtain q1 emit where t: "take_token stop q tok = (q1, emit)" by fastforce
  note f = take_token_fields [OF t] take_token_stop [OF t]
  have e: emit using f(2) Cons.prems [rule_format, of 0] by simp
  have "\<forall>i < length toks. \<not> stop_matches stop (toks ! i) (all_tokens q1 @ take (Suc i) toks)"
    using Cons.prems f(1) by (auto simp: All_less_Suc2)
  from Cons.IH [OF this] obtain q' and out :: "'lp new_token list" where
    "apply_accepted stop q1 toks = (q', out)" "map nt_token out = toks"
    "num_generated q' = num_generated q1 + length toks" "max_tokens q' = max_tokens q1"
    "caches q' = caches q1 \<and> draft_caches q' = draft_caches q1" by blast
  then show ?case using t e f(1) by (simp add: apply_accepted_Cons)
qed

text \<open>Plain decoding keeps to the cap.\<close>

lemma sample_sequence_counts:
  "sample_sequence E stop False q row = Inr (q1, out) \<Longrightarrow>
     max_tokens q1 = max_tokens q
     \<and> (out = [] \<and> status q1 = Finished
        \<or> length out = 1 \<and> num_generated q1 = Suc (num_generated q)
          \<and> (max_tokens q \<le> num_generated q1 \<longrightarrow> status q1 = Finished))"
  by (auto simp: sample_sequence_def append_token_def apply_token_def Let_def
      split: option.splits sum.splits prod.splits if_splits)

lemma plain_steps_cap:
  "plain_steps E stop row n q = Some (q', toks) \<Longrightarrow>
     status q \<noteq> Finished \<longrightarrow> num_generated q < max_tokens q \<Longrightarrow>
     toks = [] \<or> num_generated q + length toks \<le> max_tokens q"
proof (induction n arbitrary: q toks)
  case 0
  then show ?case by simp
next
  case (Suc n)
  show ?case
  proof (cases "status q = Finished")
    case True
    then show ?thesis using Suc.prems by simp
  next
    case False
    obtain q1 out ts where s: "sample_sequence E stop False q (row (all_tokens q)) = Inr (q1, out)"
        "plain_steps E stop row n q1 = Some (q', ts)" "toks = map nt_token out @ ts"
      using Suc.prems(1) False by (auto split: sum.splits prod.splits)
    note c = sample_sequence_counts [OF s(1)]
    have "status q1 \<noteq> Finished \<longrightarrow> num_generated q1 < max_tokens q1" using c by auto
    then have "ts = [] \<or> num_generated q1 + length ts \<le> max_tokens q1" using Suc.IH [OF s(2)] by blast
    moreover have "status q1 = Finished \<Longrightarrow> ts = []" using s(2) by (cases n) auto
    ultimately show ?thesis using c s(3) Suc.prems(2) False by auto
  qed
qed

section \<open>A small instance\<close>

text \<open>
  A model of one layer whose next token is the length of the text, so a token at position \<open>p\<close>
  is followed by \<open>p + 1\<close>; a draft that answers \<open>g p\<close>; a sampler that takes the row, which is
  the text.
\<close>

definition counting_env ::
    "(u32 \<Rightarrow> u32) \<Rightarrow> (nat list, unit, u32 list, unit, unit, unit, unit) engine_env" where
  "counting_env g =
     \<lparr>en_tensors = list_tensors, en_quant = no_quant, en_fzero = (),
      en_forward = (\<lambda>ph toks pos counts css mem. (Inr [], css, mem)),
      en_greedy = (\<lambda>toks pos cs mem. (Inr (map (\<lambda>p. p + 1) pos), cs, mem)),
      en_draft = (\<lambda>toks pos cs mem. (Inr (map g pos), cs, mem)),
      en_clock = (\<lambda>k. Some 1), en_rate = (\<lambda>n t. ()), en_no_gain = (\<lambda>r b. True),
      en_vocab = (\<lambda>row. Some 100),
      en_sample = (\<lambda>row sp toks counts allow. Inr (of_nat (length row), ())),
      en_allowed = (\<lambda>c n. None), en_advance = (\<lambda>c t. None), en_plain_greedy = (\<lambda>sp. True)\<rparr>"

definition counting_sequence :: "nat \<Rightarrow> (nat list, unit, unit) sequence_state" where
  "counting_sequence cap_tokens =
     \<lparr>sq_id = 7, num_generated = 0, all_tokens = [0, 1, 2], token_counts = Map.empty,
      sampling_params = (), status = Running, phase = Decode,
      caches = [paged_cache_new small_pool], draft_caches = [paged_cache_new small_pool],
      num_processed_tokens = 2, max_tokens = cap_tokens, finish_reason = None, jconstraint = None\<rparr>"

definition counting_scheduler :: "nat \<Rightarrow> (nat list, unit, unit, unit) scheduler" where
  "counting_scheduler cap_tokens =
     (scheduler_new 4 100 (\<lambda>_. contig_budget_new 0) [small_pool] 1)
       \<lparr>running := [counting_sequence cap_tokens], running_index := [7 \<mapsto> 0],
        draft_allocators := [small_pool], draft_num_layers := 1\<rparr>"

lemma counting_fields [simp]:
  "all_tokens (counting_sequence n) = [0, 1, 2]" "jconstraint (counting_sequence n) = None"
  "status (counting_sequence n) = Running" "num_generated (counting_sequence n) = 0"
  "max_tokens (counting_sequence n) = n" "sampling_params (counting_sequence n) = ()"
  "caches (counting_sequence n) = [paged_cache_new small_pool]"
  "draft_caches (counting_sequence n) = [paged_cache_new small_pool]"
  "allocators (counting_scheduler n) = [small_pool]"
  "draft_allocators (counting_scheduler n) = [small_pool]"
  "s_budgets (counting_scheduler n) = (\<lambda>_. contig_budget_new 0)"
  by (simp_all add: counting_sequence_def counting_scheduler_def scheduler_new_def)

lemma counting_running: "get_running (counting_scheduler n) 7 = Some (counting_sequence n)"
  by (simp add: get_running_def counting_scheduler_def)

lemma counting_sampler:
  "greedy_sampler (counting_env g) () (\<lambda>toks. toks) (\<lambda>toks. of_nat (length toks))"
  by (simp add: greedy_sampler_def counting_env_def)

lemma small_pool_owned:
  "layer_owned small_pool (set_pool_writes (paged_cache_new small_pool) False)"
  using small_pool_holds
  by (simp add: layer_owned_def cache_holds_def table_ok_def cache_refs_def set_pool_writes_def
      paged_cache_new_def small_pool_def)

lemma counting_target:
  "length ds = 4 \<Longrightarrow>
   en_greedy (counting_env g) (2 # ds) (map of_nat [Suc (Suc 0) ..< 7]) cs mem =
     (Inr (target_answers (\<lambda>toks. of_nat (length toks)) [0, 1, 2] ds), cs, mem)"
  by (simp add: counting_env_def target_answers_def upt_rec numeral_nat)

text \<open>The draft at work: its caches are behind by the prompt, which it reads first.\<close>

lemma counting_draft:
  "draft_round (counting_env g) [0, 1, 2] [set_pool_writes (paged_cache_new small_pool) False] mem =
     ([set_pool_writes (paged_cache_new small_pool) False], mem, Inr [g 2, g 3, g 4, g 5])"
  by (simp add: draft_round_def spec_draft_k_def numeral_nat counting_env_def Let_def)

text \<open>C20. Speculative decoding is plain greedy decoding: for a running, unconstrained, plain-greedy
  sequence with more than four tokens left to generate (\<open>num_generated + 4 < max_tokens\<close>: nearer to the cap the
  cycle emits too many, \<open>speculation_ignores_length_cap\<close>), whatever the draft model proposes, one cycle
  emits between one and five tokens, and the tokens it emits and the sequence it leaves (its text, counts, phase,
  status and finish reason; only the caches differ) are those of exactly as many plain decode steps of the target,
  sampled one by one and stopped where the first of them stops.  Both models' caches are what their forwards left,
  rolled back to all but the last token of the new text: a longer cache keeps exactly its first tokens, with their
  slots and blocks, a shorter one all of its own.  The other hypotheses are the target's documented contract (its
  argmaxes are its next tokens after each input token), and that the forwards leave each layer owning its blocks.\<close>

theorem speculation_is_greedy:
  fixes E :: "('t, 'f, 'l, 'sp, 'jc, 'r, 'lp) engine_env"
  assumes "get_running s sid = Some qs" and "all_tokens qs \<noteq> []" and "jconstraint qs = None"
    and "status qs \<noteq> Finished" and "num_generated qs + spec_draft_k < max_tokens qs"
    and "greedy_sampler E (sampling_params qs) row f"
    and "draft_round E (all_tokens qs) (map (\<lambda>c. set_pool_writes c False) (draft_caches qs))
           (s_budgets s, draft_allocators s) = (dcs, dmem, Inr drafts)"
    and "en_greedy E (last (all_tokens qs) # drafts)
           (map of_nat [length (all_tokens qs) - 1 ..< length (all_tokens qs) + spec_draft_k])
           (map (\<lambda>c. set_pool_writes c False) (caches qs)) (fst dmem, allocators s) =
         (Inr (target_answers f (all_tokens qs) drafts), cs, mem)"
    and "list_all2 layer_owned (snd mem) cs" and "list_all2 layer_owned (snd dmem) dcs"
  shows "\<exists>n out s' q'. 1 \<le> n \<and> n \<le> Suc spec_draft_k
    \<and> speculate_one E stop s sid = (s', out, Inr ())
    \<and> get_running s' sid = Some q'
    \<and> plain_steps E stop row n qs =
        Some (q'\<lparr>draft_caches := draft_caches qs, caches := caches qs\<rparr>, map nt_token out)
    \<and> list_all2 (rolled_to (length (all_tokens q') - 1)) cs (caches q')
    \<and> list_all2 (rolled_to (length (all_tokens q') - 1)) dcs (draft_caches q')"
proof -
  let ?q = "with_caches cs dcs qs"
  let ?s = "s\<lparr>draft_allocators := snd dmem, s_budgets := fst mem, allocators := snd mem\<rparr>"
  obtain n where n: "n \<le> spec_draft_k"
      "accepted_tokens drafts (target_answers f (all_tokens qs) drafts) =
         Some (greedy_run f (Suc n) (all_tokens ?q))"
    using accepted_is_greedy [of drafts f "all_tokens qs"] draft_round_length [OF assms(7)] by auto
  obtain q3 and out :: "'lp new_token list" where
    out: "apply_accepted stop ?q (greedy_run f (Suc n) (all_tokens ?q)) = (q3, out)"
      "plain_steps E stop row (Suc n) ?q = Some (q3, map nt_token out)"
    using apply_greedy_run [of E ?q row f "Suc n" stop] assms(3-6) n(1) by auto
  obtain q4 toks where q4: "plain_steps E stop row (Suc n) qs = Some (q4, toks)" "q3 = with_caches cs dcs q4"
      "toks = map nt_token out"
    using plain_steps_with_caches [OF assms(6,3), of stop "Suc n" cs dcs] out(2)
    by (cases "plain_steps E stop row (Suc n) qs") auto
  have c4: "caches q4 = caches qs \<and> draft_caches q4 = draft_caches qs"
    using plain_steps_keeps_caches [OF q4(1)] by simp
  have own: "list_all2 layer_owned (allocators ?s) (caches q3)"
      "list_all2 layer_owned (draft_allocators ?s) (draft_caches q3)"
    using assms(9,10) by (simp_all add: q4(2) with_caches_def)
  obtain s3 q5 where rb: "roll_back E ?s q3 = (s3, q5, Inr ())" "running s3 = running ?s"
      "running_index s3 = running_index ?s"
      "\<exists>cs dcs. q5 = q3\<lparr>caches := cs, draft_caches := dcs\<rparr>
         \<and> list_all2 (rolled_to (length (all_tokens q3) - 1)) (caches q3) cs
         \<and> list_all2 (rolled_to (length (all_tokens q3) - 1)) (draft_caches q3) dcs"
    using roll_back_owned [OF own, of E] by blast
  have sp: "speculate_one E stop s sid = (set_running s3 sid q5, out, Inr ())"
    by (rule speculate_one_steps [OF assms(1,2,7,8) n(2) out(1) rb(1)])
  have g: "get_running (set_running s3 sid q5) sid = Some q5"
    using set_running_get [of s3 s sid qs q5] rb(2,3) assms(1) by simp
  have q5: "q5\<lparr>draft_caches := draft_caches qs, caches := caches qs\<rparr> = q4"
    using rb(4) c4 by (cases q4) (auto simp: q4(2) with_caches_def)
  have cut: "list_all2 (rolled_to (length (all_tokens q5) - 1)) cs (caches q5)
      \<and> list_all2 (rolled_to (length (all_tokens q5) - 1)) dcs (draft_caches q5)"
    using rb(4) by (auto simp: q4(2) with_caches_def)
  show ?thesis
    by (rule exI [of _ "Suc n"]) (use n(1) sp g q4 q5 cut in auto)
qed

theorem speculation_is_greedy_witness:
  "\<exists>n out s' q'. 1 \<le> n \<and> n \<le> Suc spec_draft_k
    \<and> speculate_one (counting_env (\<lambda>p. if p = 4 then 9 else p + 1)) \<lparr>sr_token_ids = {}, sr_sequences = []\<rparr>
         (counting_scheduler 10) 7 = (s', out, Inr ())
    \<and> get_running s' 7 = Some q'
    \<and> plain_steps (counting_env (\<lambda>p. if p = 4 then 9 else p + 1)) \<lparr>sr_token_ids = {}, sr_sequences = []\<rparr>
         (\<lambda>toks. toks) n (counting_sequence 10) =
        Some (q'\<lparr>draft_caches := draft_caches (counting_sequence 10),
                 caches := caches (counting_sequence 10)\<rparr>, map nt_token out)
    \<and> list_all2 (rolled_to (length (all_tokens q') - 1)) [set_pool_writes (paged_cache_new small_pool) False] (caches q')
    \<and> list_all2 (rolled_to (length (all_tokens q') - 1)) [set_pool_writes (paged_cache_new small_pool) False] (draft_caches q')"
  by (rule speculation_is_greedy [where f = "\<lambda>toks. of_nat (length toks)" and drafts = "[3, 4, 9, 6]"
        and cs = "[set_pool_writes (paged_cache_new small_pool) False]"
        and dcs = "[set_pool_writes (paged_cache_new small_pool) False]"
        and dmem = "(\<lambda>_. contig_budget_new 0, [small_pool])" and mem = "(\<lambda>_. contig_budget_new 0, [small_pool])"])
    (simp_all add: counting_running counting_sampler counting_draft counting_target small_pool_owned
      spec_draft_k_def)

text \<open>The length cap does not stop the speculative cycle: when the draft agrees with the target and
  no accepted token is a stop, the cycle emits all five tokens and counts them as generated,
  whatever the request's \<open>max_tokens\<close> is.  A request with fewer than five tokens left to
  generate gets more than it asked for, where plain decoding gives exactly what is left.\<close>

theorem speculation_ignores_length_cap:
  fixes E :: "('t, 'f, 'l, 'sp, 'jc, 'r, 'lp) engine_env"
  assumes "get_running s sid = Some qs" and "all_tokens qs \<noteq> []"
    and "draft_round E (all_tokens qs) (map (\<lambda>c. set_pool_writes c False) (draft_caches qs))
           (s_budgets s, draft_allocators s) = (dcs, dmem, Inr (greedy_run f spec_draft_k (all_tokens qs)))"
    and "en_greedy E (last (all_tokens qs) # greedy_run f spec_draft_k (all_tokens qs))
           (map of_nat [length (all_tokens qs) - 1 ..< length (all_tokens qs) + spec_draft_k])
           (map (\<lambda>c. set_pool_writes c False) (caches qs)) (fst dmem, allocators s) =
         (Inr (target_answers f (all_tokens qs) (greedy_run f spec_draft_k (all_tokens qs))), cs, mem)"
    and "\<forall>i < Suc spec_draft_k. \<not> stop_matches stop (greedy_run f (Suc spec_draft_k) (all_tokens qs) ! i)
           (all_tokens qs @ take (Suc i) (greedy_run f (Suc spec_draft_k) (all_tokens qs)))"
    and "list_all2 layer_owned (snd mem) cs" and "list_all2 layer_owned (snd dmem) dcs"
    and "num_generated qs < max_tokens qs"
  shows "(\<exists>out s' q'. speculate_one E stop s sid = (s', out, Inr ())
    \<and> get_running s' sid = Some q' \<and> map nt_token out = greedy_run f (Suc spec_draft_k) (all_tokens qs)
    \<and> num_generated q' = num_generated qs + 5 \<and> max_tokens q' = max_tokens qs)
    \<and> (\<forall>n q' toks. plain_steps E stop row n qs = Some (q', toks) \<longrightarrow>
         length toks \<le> max_tokens qs - num_generated qs)"
proof -
  let ?q = "with_caches cs dcs qs" and ?run = "greedy_run f (Suc spec_draft_k) (all_tokens qs)"
  let ?s = "s\<lparr>draft_allocators := snd dmem, s_budgets := fst mem, allocators := snd mem\<rparr>"
  obtain q3 and out :: "'lp new_token list" where
    ap: "apply_accepted stop ?q ?run = (q3, out)" "map nt_token out = ?run"
      "num_generated q3 = num_generated ?q + length ?run" "max_tokens q3 = max_tokens ?q"
      "caches q3 = caches ?q" "draft_caches q3 = draft_caches ?q"
    using apply_accepted_no_stop [of ?run stop ?q] assms(5) unfolding length_greedy_run
    by (auto simp del: greedy_run.simps)
  have own: "list_all2 layer_owned (allocators ?s) (caches q3)"
      "list_all2 layer_owned (draft_allocators ?s) (draft_caches q3)"
    using assms(6,7) ap(5,6) by (simp_all add: with_caches_def)
  obtain s3 q5 where rb: "roll_back E ?s q3 = (s3, q5, Inr ())" "running s3 = running ?s"
      "running_index s3 = running_index ?s" "\<exists>cs dcs. q5 = q3\<lparr>caches := cs, draft_caches := dcs\<rparr>"
    using roll_back_owned [OF own, of E] by blast
  have sp: "speculate_one E stop s sid = (set_running s3 sid q5, out, Inr ())"
    by (rule speculate_one_steps [OF assms(1-4) accepted_when_agreeing ap(1) rb(1)])
  have g: "get_running (set_running s3 sid q5) sid = Some q5"
    using set_running_get [of s3 s sid qs q5] rb(2,3) assms(1) by simp
  have "\<forall>n q' toks. plain_steps E stop row n qs = Some (q', toks) \<longrightarrow>
      length toks \<le> max_tokens qs - num_generated qs"
    using plain_steps_cap assms(8) by fastforce
  then show ?thesis using sp g ap rb(4) by (auto simp: spec_draft_k_def)
qed

theorem speculation_ignores_length_cap_witness:
  "\<exists>out s' q'. speculate_one (counting_env (\<lambda>p. p + 1)) \<lparr>sr_token_ids = {}, sr_sequences = []\<rparr>
       (counting_scheduler 1) 7 = (s', out, Inr ())
    \<and> get_running s' 7 = Some q' \<and> map nt_token out = [3, 4, 5, 6, 7]
    \<and> num_generated q' = 5 \<and> max_tokens q' = 1"
proof -
  have run: "greedy_run (\<lambda>toks. of_nat (length toks)) (Suc spec_draft_k) [0, 1, 2 :: u32] = [3, 4, 5, 6, 7]"
      "greedy_run (\<lambda>toks. of_nat (length toks)) spec_draft_k [0, 1, 2 :: u32] = [3, 4, 5, 6]"
      "greedy_run (\<lambda>toks. of_nat (length toks)) 4 [0, 1, 2 :: u32] = [3, 4, 5, 6]"
    by (simp_all add: spec_draft_k_def numeral_nat)
  have "(\<exists>out s' q'. speculate_one (counting_env (\<lambda>p. p + 1)) \<lparr>sr_token_ids = {}, sr_sequences = []\<rparr>
       (counting_scheduler 1) 7 = (s', out, Inr ())
    \<and> get_running s' 7 = Some q'
    \<and> map nt_token out = greedy_run (\<lambda>toks. of_nat (length toks)) (Suc spec_draft_k) (all_tokens (counting_sequence 1))
    \<and> num_generated q' = num_generated (counting_sequence 1) + 5 \<and> max_tokens q' = max_tokens (counting_sequence 1))
    \<and> (\<forall>n q' toks. plain_steps (counting_env (\<lambda>p. p + 1)) \<lparr>sr_token_ids = {}, sr_sequences = []\<rparr>
         (\<lambda>toks. toks) n (counting_sequence 1) = Some (q', toks) \<longrightarrow>
         length toks \<le> max_tokens (counting_sequence 1) - num_generated (counting_sequence 1))"
    by (rule speculation_ignores_length_cap [where f = "\<lambda>toks. of_nat (length toks)"
          and cs = "[set_pool_writes (paged_cache_new small_pool) False]"
          and dcs = "[set_pool_writes (paged_cache_new small_pool) False]"
          and dmem = "(\<lambda>_. contig_budget_new 0, [small_pool])" and mem = "(\<lambda>_. contig_budget_new 0, [small_pool])"])
      (simp_all add: counting_running counting_draft counting_target small_pool_owned run
        spec_draft_k_def stop_matches_def has_matching_stop_sequence_def del: greedy_run.simps)
  then show ?thesis by (simp add: run del: greedy_run.simps)
qed

end
