(* ===== verification/Engine_Forward.thy ===== *)
theory Engine_Forward
  imports Engine Scheduler_Inv
begin

text \<open>
  The forward pass of a step (\<open>run_forward_pass\<close>): the guard that takes the caches out of the
  scheduler and puts them back, and the loop of forwards over the chunks of the batch.
\<close>

section \<open>Looking sequences up\<close>

definition index_inj :: "('t, 'f, 'sp, 'jc) scheduler \<Rightarrow> bool" where
  "index_inj s \<longleftrightarrow> (\<forall>x y i. running_index s x = Some i \<longrightarrow> running_index s y = Some i \<longrightarrow> x = y)"

lemma index_ok_inj: "index_ok (running s) (running_index s) \<Longrightarrow> index_inj s"
  by (auto simp: index_ok_def index_inj_def)

text \<open>Two schedulers that differ in the running sequences only, each kept at its place.\<close>

definition same_frame :: "('t, 'f, 'sp, 'jc) scheduler \<Rightarrow> ('t, 'f, 'sp, 'jc) scheduler \<Rightarrow> bool" where
  "same_frame s s' \<longleftrightarrow> (\<exists>rs. s' = s\<lparr>running := rs\<rparr> \<and> length rs = length (running s))"

lemma same_frame_refl [simp]: "same_frame s s"
  unfolding same_frame_def by (rule exI [of _ "running s"]) simp

lemma same_frame_trans: "same_frame s s1 \<Longrightarrow> same_frame s1 s2 \<Longrightarrow> same_frame s s2"
  by (auto simp: same_frame_def)

lemma same_frame_index: "same_frame s s' \<Longrightarrow> running_index s' = running_index s"
  by (auto simp: same_frame_def)

lemma same_frame_memory: "same_frame s s' \<Longrightarrow> memory_of s' = memory_of s"
  by (auto simp: same_frame_def memory_of_def)

lemma same_frame_inj: "same_frame s s' \<Longrightarrow> index_inj s' = index_inj s"
  by (simp add: index_inj_def same_frame_index)

lemma same_frame_set_running [simp]: "same_frame s (set_running s sid q)"
proof (cases "running_index s sid")
  case None
  then show ?thesis by (simp add: set_running_def)
next
  case (Some i)
  then show ?thesis by (auto simp: set_running_def same_frame_def)
qed

lemma same_frame_set_memory: "same_frame s s1 \<Longrightarrow> same_frame (set_memory s m) (set_memory s1 m)"
  unfolding same_frame_def set_memory_def by (elim exE conjE, rule_tac x = rs in exI) simp

lemma get_set_running:
  assumes "index_inj s" and "get_running s sid = Some q"
  shows "get_running (set_running s sid q') x = (if x = sid then Some q' else get_running s x)"
proof (cases "x = sid")
  case True
  then show ?thesis using assms(2)
    by (auto simp: get_running_def set_running_def split: option.splits if_splits)
next
  case False
  obtain i where i: "running_index s sid = Some i" using assms(2)
    by (auto simp: get_running_def split: option.splits)
  have "running_index s x \<noteq> Some i" using assms(1) i False unfolding index_inj_def by blast
  then show ?thesis using i False
    by (cases "running_index s x") (auto simp: get_running_def set_running_def)
qed

section \<open>The guard\<close>

definition take_out :: "'t paged_cache list \<Rightarrow> ('t, 'sp, 'jc) sequence_state \<Rightarrow> ('t, 'sp, 'jc) sequence_state" where
  "take_out cs q = q\<lparr>caches := cs\<rparr>"

lemma take_out_take_out [simp]: "take_out cs (take_out cs' q) = take_out cs q"
  by (simp add: take_out_def)

lemma take_caches_ok:
  assumes "index_inj s" and "distinct ids" and "\<forall>x \<in> set ids. get_running s x \<noteq> None"
  shows "\<exists>s'. take_caches on s ids =
      Some (s', map (\<lambda>x. map (\<lambda>c. set_pool_writes c on) (caches (the (get_running s x)))) ids)
    \<and> same_frame s s'
    \<and> (\<forall>x. get_running s' x =
         (if x \<in> set ids then map_option (take_out []) (get_running s x) else get_running s x))"
  using assms
proof (induction ids arbitrary: s)
  case Nil
  then show ?case by simp
next
  case (Cons sid ids)
  obtain q where q: "get_running s sid = Some q" using Cons.prems(3) by auto
  let ?s = "set_running s sid (q\<lparr>caches := []\<rparr>)"
  note g = get_set_running [OF Cons.prems(1) q]
  have inj: "index_inj ?s" using Cons.prems(1) same_frame_inj [OF same_frame_set_running] by blast
  have "\<forall>x \<in> set ids. get_running ?s x \<noteq> None" using Cons.prems(3) by (simp add: g)
  from Cons.IH [OF inj _ this] Cons.prems(2) obtain s' where s':
    "take_caches on ?s ids =
       Some (s', map (\<lambda>x. map (\<lambda>c. set_pool_writes c on) (caches (the (get_running ?s x)))) ids)"
    "same_frame ?s s'" "\<forall>x. get_running s' x =
       (if x \<in> set ids then map_option (take_out []) (get_running ?s x) else get_running ?s x)" by auto
  have m: "map (\<lambda>x. map (\<lambda>c. set_pool_writes c on) (caches (the (get_running ?s x)))) ids =
      map (\<lambda>x. map (\<lambda>c. set_pool_writes c on) (caches (the (get_running s x)))) ids"
    using Cons.prems(2) by (intro map_cong) (auto simp: g)
  show ?case using q s' m same_frame_trans [OF same_frame_set_running s'(2)] Cons.prems(2)
    by (auto simp: g take_out_def)
qed

lemma guard_new_ok:
  assumes "index_inj s" and "distinct (ps @ ds)" and "\<forall>x \<in> set (ps @ ds). get_running s x \<noteq> None"
  shows "\<exists>s'. guard_new s ps ds =
      Some (s', map (\<lambda>x. map (\<lambda>c. set_pool_writes c True) (caches (the (get_running s x)))) ps
              @ map (\<lambda>x. map (\<lambda>c. set_pool_writes c False) (caches (the (get_running s x)))) ds)
    \<and> same_frame s s'
    \<and> (\<forall>x. get_running s' x =
         (if x \<in> set (ps @ ds) then map_option (take_out []) (get_running s x) else get_running s x))"
proof -
  obtain s1 where s1: "take_caches True s ps =
      Some (s1, map (\<lambda>x. map (\<lambda>c. set_pool_writes c True) (caches (the (get_running s x)))) ps)"
      "same_frame s s1" "\<forall>x. get_running s1 x =
        (if x \<in> set ps then map_option (take_out []) (get_running s x) else get_running s x)"
    using take_caches_ok [OF assms(1), of ps True] assms(2,3) by auto
  have e: "get_running s1 x = get_running s x" if "x \<in> set ds" for x
    using that s1(3) assms(2) by auto
  obtain s2 where s2: "take_caches False s1 ds =
      Some (s2, map (\<lambda>x. map (\<lambda>c. set_pool_writes c False) (caches (the (get_running s1 x)))) ds)"
      "same_frame s1 s2" "\<forall>x. get_running s2 x =
        (if x \<in> set ds then map_option (take_out []) (get_running s1 x) else get_running s1 x)"
    using take_caches_ok [of s1 ds False] assms(1-3) e by (auto simp: same_frame_inj [OF s1(2)])
  have m: "map (\<lambda>x. map (\<lambda>c. set_pool_writes c False) (caches (the (get_running s1 x)))) ds =
      map (\<lambda>x. map (\<lambda>c. set_pool_writes c False) (caches (the (get_running s x)))) ds"
    using e by (intro map_cong) auto
  have "get_running s2 x =
      (if x \<in> set (ps @ ds) then map_option (take_out []) (get_running s x) else get_running s x)" for x
    using s1(3) s2(3) assms(2) by auto
  then show ?thesis using s1(1) s2(1) m same_frame_trans [OF s1(2) s2(2)]
    by (simp add: guard_new_def)
qed

lemma restore_caches_ok:
  assumes "index_inj s" and "distinct ids" and "\<forall>x \<in> set ids. get_running s x \<noteq> None"
    and "length css = length ids"
  shows "\<exists>s'. restore_caches s ids css = Some s' \<and> same_frame s s'
    \<and> (\<forall>x. x \<notin> set ids \<longrightarrow> get_running s' x = get_running s x)
    \<and> (\<forall>i < length ids. get_running s' (ids ! i) = map_option (take_out (css ! i)) (get_running s (ids ! i)))"
  using assms(4,1-3)
proof (induction css ids arbitrary: s rule: list_induct2)
  case Nil
  then show ?case by simp
next
  case (Cons cs css sid ids)
  obtain q where q: "get_running s sid = Some q" using Cons.prems(3) by auto
  let ?s = "set_running s sid (q\<lparr>caches := cs\<rparr>)"
  note g = get_set_running [OF Cons.prems(1) q]
  have inj: "index_inj ?s" using Cons.prems(1) same_frame_inj [OF same_frame_set_running] by blast
  have "\<forall>x \<in> set ids. get_running ?s x \<noteq> None" using Cons.prems(3) by (simp add: g)
  from Cons.IH [OF inj _ this] Cons.prems(2) obtain s' where s':
    "restore_caches ?s ids css = Some s'" "same_frame ?s s'"
    "\<forall>x. x \<notin> set ids \<longrightarrow> get_running s' x = get_running ?s x"
    "\<forall>i < length ids. get_running s' (ids ! i) = map_option (take_out (css ! i)) (get_running ?s (ids ! i))"
    by auto
  have "get_running s' (ids ! i) = map_option (take_out (css ! i)) (get_running s (ids ! i))"
    if "i < length ids" for i
  proof -
    have "ids ! i \<noteq> sid" using that Cons.prems(2) by auto
    then show ?thesis using s'(4) that by (simp add: g)
  qed
  moreover have "get_running s' sid = map_option (take_out cs) (get_running s sid)"
    using s'(3) Cons.prems(2) q by (simp add: g take_out_def)
  moreover have "get_running s' x = get_running s x" if "x \<notin> set (sid # ids)" for x
    using that s'(3) by (simp add: g)
  ultimately show ?case using q s'(1) same_frame_trans [OF same_frame_set_running s'(2)]
    by (auto simp: All_less_Suc2)
qed

section \<open>The loop of forwards\<close>

text \<open>
  A forward gets the caches as mutable slices, one per sequence: it can change the caches, and neither how
  many sequences there are nor how many layers each of them has.
\<close>

definition keeps_sequences :: "('t, 'f, 'l, 'sp, 'jc, 'r, 'lp) engine_env \<Rightarrow> bool" where
  "keeps_sequences E \<longleftrightarrow>
     (\<forall>ph toks pos counts css mem.
        map length (fst (snd (en_forward E ph toks pos counts css mem))) = map length css)"

lemma flush_layers_length: "flush_layers T Q fz as cs = (as', cs', r) \<Longrightarrow> length cs' = length cs"
  by (induction T Q fz as cs arbitrary: as' cs' r rule: flush_layers.induct) (auto split: prod.splits sum.splits)

lemma flush_caches_length: "flush_caches T Q fz as css = (as', css', r) \<Longrightarrow> map length css' = map length css"
  by (induction css arbitrary: as as' css' r) (auto split: prod.splits sum.splits dest!: flush_layers_length)

lemma put_back_length:
  assumes "get_slice xs b w = Some ys" and "map length zs = map length ys"
  shows "map length (take b xs @ zs @ drop (b + w) xs) = map length xs"
proof -
  have "ys = take w (drop b xs)" using assms(1) by (simp add: get_slice_def split: if_splits)
  then have "map length (take b xs @ zs @ drop (b + w) xs) = map length (take b xs @ take w (drop b xs) @ drop w (drop b xs))"
    using assms(2) by (simp add: add.commute)
  then show ?thesis by (simp only: append_take_drop_id)
qed

lemma run_chunk_keeps:
  assumes "keeps_sequences E" and "run_chunk E batch k ch fs = (fs', r)"
  shows "map length (fs_caches fs') = map length (fs_caches fs)
    \<and> (pacer_ok (fs_pacer fs) \<longrightarrow> chunk_len ch \<le> p_cap (fs_pacer fs) \<longrightarrow> pacer_ok (fs_pacer fs'))"
proof (cases "get_slice (fs_caches fs) (fc_seq_base ch) (length (fc_counts ch))")
  case None
  then show ?thesis using assms(2) by (auto simp: run_chunk_def Let_def split: option.splits)
next
  case (Some cs)
  obtain o1 cs1 mem1 where f: "en_forward E (fc_phase ch)
      (the (get_slice (bi_all_token_ids batch) (fc_start ch) (chunk_len ch)))
      (the (get_slice (bi_all_positions batch) (fc_start ch) (chunk_len ch)))
      (fc_counts ch) cs (fs_memory fs) = (o1, cs1, mem1)" by (metis prod_cases3)
  have l1: "map length cs1 = map length cs"
    using assms(1) f unfolding keeps_sequences_def by (metis fst_conv snd_conv)
  obtain as cs2 r2 where fl: "flush_caches (en_tensors E) (en_quant E) (en_fzero E) (snd mem1) cs1 = (as, cs2, r2)"
    by (metis prod_cases3)
  have l2: "map length cs2 = map length cs" using flush_caches_length [OF fl] l1 by simp
  note b = put_back_length [OF Some]
  show ?thesis using assms(2) f fl b [OF l1] b [OF l2] Some
    by (auto simp: run_chunk_def Let_def pacer_ok_shrink pacer_ok_observe
        split: option.splits sum.splits if_splits)
qed

text \<open>The planner's two answers: a chunk within the cap, or the end.\<close>

lemma planner_next_cases:
  assumes "planner_ok p" and "pacer_ok pr"
  obtains (finish) "length (pl_counts p) \<le> pl_seq p" "planner_next p (p_cap pr) = Some (p, None)"
  | (chunk) p' ch where "pl_seq p < length (pl_counts p)" "planner_next p (p_cap pr) = Some (p', Some ch)"
      "planner_ok p'" "chunk_len ch \<le> p_cap pr"
proof (cases "pl_seq p < length (pl_counts p)")
  case True
  have "max (p_cap pr) 1 = p_cap pr" using assms(2) by (simp add: pacer_ok_def)
  then show thesis using planner_next_chunk [OF assms(1) True, of "p_cap pr"] chunk [OF True] by auto
next
  case False
  then show thesis using planner_next_done [of p] finish by simp
qed

lemma forward_chunks_keeps:
  assumes "keeps_sequences E" and "planner_ok p" and "pacer_ok (fs_pacer fs)"
    and "forward_chunks E batch k p fs = (fs', r)"
  shows "map length (fs_caches fs') = map length (fs_caches fs) \<and> pacer_ok (fs_pacer fs')"
  using assms
proof (induction E batch k p fs rule: forward_chunks.induct)
  case (1 E batch k p fs)
  show ?case
    using 1(3,4)
  proof (cases rule: planner_next_cases)
    case finish
    then show ?thesis using 1(4,5) by (auto simp: forward_chunks.simps [of E batch k p fs])
  next
    case (chunk p' ch)
    obtain fs1 r1 where c: "run_chunk E batch k ch fs = (fs1, r1)" by fastforce
    note keep = run_chunk_keeps [OF 1(2) c]
    show ?thesis
    proof (cases r1)
      case (Inl e)
      then show ?thesis using 1(4,5) c chunk keep by (auto simp: forward_chunks.simps [of E batch k p fs])
    next
      case (Inr u)
      then have "forward_chunks E batch (Suc k) p' fs1 = (fs', r)"
        using 1(5) c chunk by (simp add: forward_chunks.simps [of E batch k p fs])
      moreover have "pacer_ok (fs_pacer fs1)" using keep 1(4) chunk by blast
      ultimately show ?thesis
        using 1(1) [OF chunk(2) refl refl c [symmetric] Inr 1(2) chunk(3)] keep by auto
    qed
  qed
qed

lemma forward_chunks_length:
  assumes "keeps_sequences E" and "forward_chunks E batch k p fs = (fs', r)"
  shows "length (fs_caches fs') = length (fs_caches fs)"
  using assms
proof (induction E batch k p fs rule: forward_chunks.induct)
  case (1 E batch k p fs)
  show ?case
  proof (cases "\<exists>p' ch fs1 u. planner_next p (p_cap (fs_pacer fs)) = Some (p', Some ch) \<and> run_chunk E batch k ch fs = (fs1, Inr u)")
    case True
    then obtain p' ch fs1 u where n: "planner_next p (p_cap (fs_pacer fs)) = Some (p', Some ch)"
        "run_chunk E batch k ch fs = (fs1, Inr u)" by blast
    have "forward_chunks E batch (Suc k) p' fs1 = (fs', r)" using 1(3) n by (simp add: forward_chunks.simps [of E batch k p fs])
    from 1(1) [OF n(1) refl refl n(2) [symmetric] refl 1(2) this] show ?thesis
      using run_chunk_keeps [OF 1(2) n(2), THEN conjunct1, THEN map_eq_imp_length_eq] by simp
  next
    case False
    show ?thesis
      using 1(3) False run_chunk_keeps [OF 1(2), THEN conjunct1, THEN map_eq_imp_length_eq]
      by (auto simp: forward_chunks.simps [of E batch k p fs] split: option.splits prod.splits sum.splits)
  qed
qed

section \<open>The caches come back\<close>

text \<open>The caches a pass works on: those of the batch, with the staging of pool writes on for prefills only.\<close>

definition taken_caches ::
    "('t, 'f, 'sp, 'jc) scheduler \<Rightarrow> nat list \<Rightarrow> nat list \<Rightarrow> 't paged_cache list list" where
  "taken_caches s ps ds =
     map (\<lambda>x. map (\<lambda>c. set_pool_writes c True) (caches (the (get_running s x)))) ps
     @ map (\<lambda>x. map (\<lambda>c. set_pool_writes c False) (caches (the (get_running s x)))) ds"

definition put_back_ok ::
    "('t, 'f, 'sp, 'jc) scheduler \<Rightarrow> nat list \<Rightarrow> ('t, 'f) kv_memory \<Rightarrow> 't paged_cache list list \<Rightarrow>
     ('t, 'f, 'sp, 'jc) scheduler \<Rightarrow> bool" where
  "put_back_ok s ids mem css s' \<longleftrightarrow>
     same_frame (set_memory s mem) s' \<and> length css = length ids
     \<and> (\<forall>i < length ids. \<exists>q. get_running s (ids ! i) = Some q
          \<and> get_running s' (ids ! i) = Some (q\<lparr>caches := css ! i\<rparr>))
     \<and> (\<forall>x. x \<notin> set ids \<longrightarrow> get_running s' x = get_running s x)"

lemma run_forward_pass_eval:
  assumes "index_ok (running s) (running_index s)" and "distinct (ps @ ds)"
    and "\<forall>x \<in> set (ps @ ds). get_running s x \<noteq> None"
    and f: "forward_chunks E batch 0 (planner_new (bi_token_counts batch) (length ps))
      \<lparr>fs_caches = taken_caches s ps ds, fs_memory = memory_of s, fs_pacer = pacer, fs_rows = []\<rparr> = (fs, r)"
    and k: "length (fs_caches fs) = length (ps @ ds)"
  shows "\<exists>s'. run_forward_pass E s ps ds pacer batch = Some (s', fs_pacer fs, r)
    \<and> put_back_ok s (ps @ ds) (fs_memory fs) (fs_caches fs) s'"
proof -
  let ?ids = "ps @ ds"
  note inj = index_ok_inj [OF assms(1)]
  obtain s1 where s1: "guard_new s ps ds = Some (s1, taken_caches s ps ds)" "same_frame s s1"
      "\<forall>x. get_running s1 x =
         (if x \<in> set ?ids then map_option (take_out []) (get_running s x) else get_running s x)"
    using guard_new_ok [OF inj assms(2,3)] unfolding taken_caches_def by blast
  let ?s2 = "set_memory s1 (fs_memory fs)"
  have g2: "get_running ?s2 x = get_running s1 x" for x
    by (simp add: get_running_def set_memory_def cong: option.case_cong if_cong)
  have inj2: "index_inj ?s2" using inj same_frame_inj [OF s1(2)]
    by (simp add: index_inj_def set_memory_def)
  have there: "\<forall>x \<in> set ?ids. get_running ?s2 x \<noteq> None" using assms(3) s1(3) by (auto simp: g2)
  obtain s3 where s3: "restore_caches ?s2 ?ids (fs_caches fs) = Some s3" "same_frame ?s2 s3"
      "\<forall>x. x \<notin> set ?ids \<longrightarrow> get_running s3 x = get_running ?s2 x"
      "\<forall>i < length ?ids. get_running s3 (?ids ! i) = map_option (take_out (fs_caches fs ! i)) (get_running ?s2 (?ids ! i))"
    using restore_caches_ok [OF inj2 assms(2) there k] by blast
  have "\<exists>q. get_running s (?ids ! i) = Some q \<and> get_running s3 (?ids ! i) = Some (q\<lparr>caches := fs_caches fs ! i\<rparr>)"
    if "i < length ?ids" for i
  proof -
    have m: "?ids ! i \<in> set ?ids" using that by (rule nth_mem)
    then obtain q where q: "get_running s (?ids ! i) = Some q" using assms(3) by blast
    have "get_running s1 (?ids ! i) = Some (take_out [] q)" using s1(3) m q by simp
    then show ?thesis using s3(4) that q by (simp add: g2 take_out_def)
  qed
  moreover have "same_frame (set_memory s (fs_memory fs)) s3"
    by (rule same_frame_trans [OF same_frame_set_memory [OF s1(2)] s3(2)])
  moreover have "get_running s3 x = get_running s x" if "x \<notin> set ?ids" for x
    using that s3(3) s1(3) by (metis g2)
  moreover have "run_forward_pass E s ps ds pacer batch = Some (s3, fs_pacer fs, r)"
    by (simp add: run_forward_pass_def s1(1) same_frame_memory [OF s1(2)] f s3(1))
  ultimately show ?thesis using k unfolding put_back_ok_def by blast
qed

end
