(* ===== verification/Engine_Rows.thy ===== *)
theory Engine_Rows
  imports Engine_Forward
begin

text \<open>
  What the forwards of a batch compute together: cut into chunks at whatever sizes the pacer
  chooses, the pass answers for every sequence the logits of its whole text, as one forward of
  that sequence alone would, and each token is computed in the phase its sequence is in.
\<close>

section \<open>The tokens of one sequence\<close>

text \<open>The \<open>i\<close>-th sequence's piece of a flat batch.\<close>

definition seq_tokens :: "nat list \<Rightarrow> nat \<Rightarrow> 'a list \<Rightarrow> 'a list" where
  "seq_tokens counts i xs = take (counts ! i) (drop (sum_list (take i counts)) xs)"

text \<open>The same by label, which does not mind where the batch is cut.\<close>

definition picked :: "nat \<Rightarrow> nat list \<Rightarrow> 'a list \<Rightarrow> 'a list" where
  "picked i ls xs = map snd (filter (\<lambda>p. fst p = i) (zip ls xs))"

lemma picked_Nil [simp]: "picked i [] xs = []"
  by (simp add: picked_def)

lemma picked_append:
  "length ls = length xs \<Longrightarrow> picked i (ls @ ls') (xs @ xs') = picked i ls xs @ picked i ls' xs'"
  by (simp add: picked_def)

lemma picked_none: "i \<notin> set ls \<Longrightarrow> picked i ls xs = []"
  by (auto simp: picked_def filter_empty_conv dest: set_zip_leftD)

lemma length_picked: "length ls = length xs \<Longrightarrow> length (picked i ls xs) = count_list ls i"
  by (induction ls xs rule: list_induct2) (auto simp: picked_def)

lemma picked_replicate: "length xs = n \<Longrightarrow> picked i (replicate n i) xs = xs"
  by (induction xs arbitrary: n) (auto simp: picked_def)

lemma set_labels: "set (labels b xs) \<subseteq> {b ..< b + length xs}"
proof (induction xs arbitrary: b)
  case (Cons n xs)
  then show ?case using Cons [of "Suc b"] by auto
qed simp

lemma picked_labels:
  "i < length counts \<Longrightarrow> length xs = sum_list counts \<Longrightarrow>
     picked (b + i) (labels b counts) xs = seq_tokens counts i xs"
proof (induction counts arbitrary: b xs i)
  case (Cons n counts)
  have xs: "picked j (labels b (n # counts)) xs =
      picked j (replicate n b) (take n xs) @ picked j (labels (Suc b) counts) (drop n xs)" for j
    using picked_append [of "replicate n b" "take n xs" j "labels (Suc b) counts" "drop n xs"] Cons.prems(2)
    by simp
  show ?case
  proof (cases i)
    case 0
    have "b \<notin> set (labels (Suc b) counts)" using set_labels [of "Suc b" counts] by auto
    then show ?thesis using Cons.prems(2)
      by (simp add: 0 xs picked_none picked_replicate seq_tokens_def del: labels.simps)
  next
    case (Suc j)
    have "picked (Suc b + j) (labels (Suc b) counts) (drop n xs) = seq_tokens counts j (drop n xs)"
      using Cons.prems Suc by (intro Cons.IH) auto
    then show ?thesis
      by (simp add: Suc xs picked_none seq_tokens_def add.commute del: labels.simps)
  qed
qed simp

lemma remaining_labels: "set (remaining counts seq don) \<subseteq> {seq ..< length counts}"
proof (cases "seq < length counts")
  case True
  have "set (remaining counts seq don) \<subseteq> set (labels seq (drop seq counts))"
    by (simp add: remaining_def set_drop_subset)
  then show ?thesis using set_labels [of seq "drop seq counts"] True by auto
qed simp

text \<open>A run of consecutive numbers cut out of a longer one.\<close>

lemma middle_of_upt:
  assumes "map f [a ..< b] = xs @ ys @ zs"
  shows "ys = map f [a + length xs ..< a + length xs + length ys]"
proof -
  have len: "length xs + length ys + length zs = b - a"
    using arg_cong [OF assms, of length] by simp
  have "ys = take (length ys) (drop (length xs) (map f [a ..< b]))" by (simp add: assms)
  also have "\<dots> = map f (take (length ys) [a + length xs ..< b])" by (simp add: drop_map take_map)
  also have "take (length ys) [a + length xs ..< b] = [a + length xs ..< a + length xs + length ys]"
  proof (cases ys)
    case (Cons y ys')
    then have "a + length xs + length ys \<le> b" using len by auto
    then show ?thesis by (rule take_upt)
  qed simp
  finally show ?thesis .
qed

section \<open>A causal model\<close>

text \<open>
  The kernels of a forward are chosen by its phase (\<open>src/common/phase.rs\<close>), so what a token computes depends on the
  phase it is computed in: a text is a list of tokens with their phases.
\<close>

type_synonym phased = "u32 \<times> fwd_phase"

definition in_phase :: "fwd_phase \<Rightarrow> u32 list \<Rightarrow> phased list" where
  "in_phase ph toks = map (\<lambda>t. (t, ph)) toks"

lemma in_phase_append [simp]: "in_phase ph (xs @ ys) = in_phase ph xs @ in_phase ph ys"
  and in_phase_Nil [simp]: "in_phase ph [] = []"
  and length_in_phase [simp]: "length (in_phase ph xs) = length xs"
  by (simp_all add: in_phase_def)

text \<open>The prefills of a batch come first.\<close>

definition batch_phase :: "nat \<Rightarrow> nat \<Rightarrow> fwd_phase" where
  "batch_phase split_at i = (if i < split_at then Phase_Prefill else Phase_Decode)"

text \<open>
  The contract of a model's forward.  \<open>holds mem css txts\<close> says that in the pools \<open>mem\<close> the caches of the batch hold
  the given texts.  A forward over a stretch \<open>css\<close> of them, given each of their sequences' next tokens at
  their positions, may fail; when it answers, its rows are the logits of each longer text, whatever the other sequences
  of the forward are, and once its staged writes are flushed (which may fail too) the caches of the stretch hold those
  texts and the other caches what they held.
\<close>

definition causal_model ::
    "('t, 'f, 'l, 'sp, 'jc, 'r, 'lp) engine_env \<Rightarrow>
     (('t, 'f) kv_memory \<Rightarrow> 't paged_cache list list \<Rightarrow> phased list list \<Rightarrow> bool) \<Rightarrow> (phased list \<Rightarrow> 'l) \<Rightarrow> bool" where
  "causal_model E holds logit \<longleftrightarrow>
     (\<forall>ph toks pos counts pre css post mem tpre txts tpost out css' mem'.
        length counts = length css \<longrightarrow> length txts = length css \<longrightarrow> length tpre = length pre \<longrightarrow>
        holds mem (pre @ css @ post) (tpre @ txts @ tpost) \<longrightarrow>
        length toks = sum_list counts \<longrightarrow> length pos = length toks \<longrightarrow>
        (\<forall>r < length counts. seq_tokens counts r pos =
           map of_nat [length (txts ! r) ..< length (txts ! r) + counts ! r]) \<longrightarrow>
        en_forward E ph toks pos counts css mem = (Inr out, css', mem') \<longrightarrow>
        out = map (\<lambda>r. logit (txts ! r @ in_phase ph (seq_tokens counts r toks))) [0 ..< length counts]
        \<and> (\<forall>as css''. flush_caches (en_tensors E) (en_quant E) (en_fzero E) (snd mem') css' = (as, css'', Inr ()) \<longrightarrow>
             holds (fst mem', as) (pre @ css'' @ post)
               (tpre @ map (\<lambda>r. txts ! r @ in_phase ph (seq_tokens counts r toks)) [0 ..< length counts] @ tpost)))"

text \<open>The errors a pass may answer: those of a forward over caches that hold texts, of the flush after one, of the clock.\<close>

definition pass_fails ::
    "('t, 'f, 'l, 'sp, 'jc, 'r, 'lp) engine_env \<Rightarrow>
     (('t, 'f) kv_memory \<Rightarrow> 't paged_cache list list \<Rightarrow> phased list list \<Rightarrow> bool) \<Rightarrow> err \<Rightarrow> bool" where
  "pass_fails E holds e \<longleftrightarrow>
     (\<exists>ph toks pos counts pre css post mem txts css' mem'. holds mem (pre @ css @ post) txts
        \<and> (en_forward E ph toks pos counts css mem = (Inl e, css', mem')
           \<or> (\<exists>out as css''. en_forward E ph toks pos counts css mem = (Inr out, css', mem')
                \<and> flush_caches (en_tensors E) (en_quant E) (en_fzero E) (snd mem') css' = (as, css'', Inl e))))
     \<or> (e = Tensor_failed \<and> (\<exists>k. en_clock E k = None))"

lemma forward_fails:
  "holds mem (pre @ css @ post) txts \<Longrightarrow> en_forward E ph toks pos counts css mem = (Inl e, css', mem') \<Longrightarrow>
   pass_fails E holds e"
  unfolding pass_fails_def by blast

lemma flush_fails:
  "holds mem (pre @ css @ post) txts \<Longrightarrow> en_forward E ph toks pos counts css mem = (Inr out, css', mem') \<Longrightarrow>
   flush_caches (en_tensors E) (en_quant E) (en_fzero E) (snd mem') css' = (as, css'', Inl e) \<Longrightarrow> pass_fails E holds e"
  unfolding pass_fails_def by blast

lemma clock_fails: "en_clock E k = None \<Longrightarrow> pass_fails E holds Tensor_failed"
  unfolding pass_fails_def by blast

section \<open>One chunk\<close>

text \<open>
  Where the pass stands when \<open>n\<close> tokens of the batch are done: each sequence's caches hold its
  text up to there, and the rows are those of the sequences before the planner's.
\<close>

definition text_at :: "phased list list \<Rightarrow> nat \<Rightarrow> batch_input \<Rightarrow> nat \<Rightarrow> nat \<Rightarrow> phased list" where
  "text_at txts split_at batch m i = txts ! i @ in_phase (batch_phase split_at i)
     (picked i (take m (labels 0 (bi_token_counts batch))) (take m (bi_all_token_ids batch)))"

definition whole_text :: "phased list list \<Rightarrow> nat \<Rightarrow> batch_input \<Rightarrow> nat \<Rightarrow> phased list" where
  "whole_text txts split_at batch i = txts ! i @ in_phase (batch_phase split_at i)
     (seq_tokens (bi_token_counts batch) i (bi_all_token_ids batch))"

definition pass_at ::
    "(('t, 'f) kv_memory \<Rightarrow> 't paged_cache list list \<Rightarrow> phased list list \<Rightarrow> bool) \<Rightarrow> (phased list \<Rightarrow> 'l) \<Rightarrow>
     phased list list \<Rightarrow> nat \<Rightarrow> batch_input \<Rightarrow> chunk_planner \<Rightarrow> ('t, 'f, 'l, 'r) forward_state \<Rightarrow> bool" where
  "pass_at holds logit txts split_at batch p fs \<longleftrightarrow>
     planner_ok p \<and> pl_counts p = bi_token_counts batch \<and> pl_split_at p = split_at
     \<and> pl_start p \<le> length (bi_all_token_ids batch)
     \<and> planner_left p = drop (pl_start p) (labels 0 (bi_token_counts batch))
     \<and> length (fs_caches fs) = length (bi_token_counts batch)
     \<and> holds (fs_memory fs) (fs_caches fs)
         (map (text_at txts split_at batch (pl_start p)) [0 ..< length (bi_token_counts batch)])
     \<and> fs_rows fs = map (\<lambda>i. logit (whole_text txts split_at batch i)) [0 ..< pl_seq p]"

definition batch_ok :: "'a list list \<Rightarrow> batch_input \<Rightarrow> bool" where
  "batch_ok txts batch \<longleftrightarrow>
     length (bi_all_token_ids batch) = sum_list (bi_token_counts batch)
     \<and> length (bi_all_positions batch) = sum_list (bi_token_counts batch)
     \<and> length txts = length (bi_token_counts batch) \<and> bi_token_counts batch \<noteq> []
     \<and> (\<forall>i < length txts. seq_tokens (bi_token_counts batch) i (bi_all_positions batch) =
          map of_nat [length (txts ! i) ..< length (txts ! i) + bi_token_counts batch ! i])"

text \<open>A chunk's piece of sequence \<open>base + r\<close>, by counts and by label, and what it adds.\<close>

lemma chunk_piece:
  assumes "drop m (labels 0 counts) = labels base cs @ rest" and "length xs = sum_list counts"
    and "m \<le> length xs" and "r < length cs"
  shows "seq_tokens cs r (take (sum_list cs) (drop m xs)) =
    picked (base + r) (labels base cs) (take (sum_list cs) (drop m xs))"
proof -
  have "m + sum_list cs \<le> length xs"
    using arg_cong [OF assms(1), of length] assms(2,3) by auto
  then show ?thesis using assms(4) by (intro picked_labels [symmetric]) auto
qed

lemma chunk_adds_piece:
  assumes "drop m (labels 0 counts) = labels base cs @ rest" and "length xs = sum_list counts"
  shows "picked i (take (m + sum_list cs) (labels 0 counts)) (take (m + sum_list cs) xs) =
      picked i (take m (labels 0 counts)) (take m xs) @ picked i (labels base cs) (take (sum_list cs) (drop m xs))"
proof -
  have l: "take (m + sum_list cs) (labels 0 counts) = take m (labels 0 counts) @ labels base cs"
    using assms(1) by (simp add: take_add)
  have "take (m + sum_list cs) xs = take m xs @ take (sum_list cs) (drop m xs)" by (simp add: take_add)
  then show ?thesis using assms(2) by (simp add: l picked_append)
qed

lemma length_seq_tokens:
  "r < length cs \<Longrightarrow> length xs = sum_list cs \<Longrightarrow> length (seq_tokens cs r xs) = cs ! r"
  using arg_cong [OF id_take_nth_drop [of r cs], of sum_list] by (simp add: seq_tokens_def)

text \<open>The positions a chunk carries for a sequence continue the text its caches hold.\<close>

lemma chunk_positions:
  assumes "drop m (labels 0 counts) = labels base cs @ rest" and "length xs = sum_list counts"
    and "r < length cs" and "m \<le> length xs" and "base + length cs \<le> length counts"
    and "length pos = sum_list counts"
    and "seq_tokens counts (base + r) pos = map of_nat [l ..< l + counts ! (base + r)]"
  shows "seq_tokens cs r (take (sum_list cs) (drop m pos)) =
    (let h = l + length (picked (base + r) (take m (labels 0 counts)) (take m xs))
     in map of_nat [h ..< h + cs ! r])"
proof -
  let ?i = "base + r" and ?L = "labels 0 counts"
  let ?B = "picked ?i (labels base cs) (take (sum_list cs) (drop m pos))"
  have len: "m + sum_list cs \<le> length pos"
    using arg_cong [OF assms(1), of length] assms(2,4,6) by auto
  have "m \<le> length pos" using len by simp
  then have cp: "seq_tokens cs r (take (sum_list cs) (drop m pos)) = ?B"
    using chunk_piece [OF assms(1) assms(6) _ assms(3)] by blast
  have "picked ?i ?L pos = picked ?i (take (m + sum_list cs) ?L) (take (m + sum_list cs) pos)
      @ picked ?i (drop (m + sum_list cs) ?L) (drop (m + sum_list cs) pos)"
    using picked_append [of "take (m + sum_list cs) ?L" "take (m + sum_list cs) pos" ?i
        "drop (m + sum_list cs) ?L" "drop (m + sum_list cs) pos"] assms(6) by simp
  moreover have "picked ?i ?L pos = seq_tokens counts ?i pos"
    using picked_labels [of ?i counts pos 0] assms(3,5,6) by simp
  ultimately have "map of_nat [l ..< l + counts ! ?i] = picked ?i (take m ?L) (take m pos) @ ?B
      @ picked ?i (drop (m + sum_list cs) ?L) (drop (m + sum_list cs) pos)"
    using assms(7) chunk_adds_piece [OF assms(1) assms(6), of ?i] by simp
  from middle_of_upt [OF this]
  have "?B = map of_nat [l + length (picked ?i (take m ?L) (take m pos)) ..<
      l + length (picked ?i (take m ?L) (take m pos)) + length ?B]" .
  moreover have "length ?B = cs ! r"
    using length_seq_tokens [OF assms(3), of "take (sum_list cs) (drop m pos)"] len cp by simp
  moreover have "length (picked ?i (take m ?L) (take m pos)) = length (picked ?i (take m ?L) (take m xs))"
    using assms(2,6) by (simp add: length_picked)
  ultimately show ?thesis using cp by (simp add: Let_def)
qed

text \<open>A sequence with no token left has had all of its own.\<close>

lemma picked_finished:
  assumes "drop m (labels 0 counts) = rest" and "i \<notin> set rest" and "i < length counts"
    and "length xs = sum_list counts"
  shows "picked i (take m (labels 0 counts)) (take m xs) = seq_tokens counts i xs"
proof -
  have "picked i (labels 0 counts) xs = picked i (take m (labels 0 counts)) (take m xs)
      @ picked i (drop m (labels 0 counts)) (drop m xs)"
    using picked_append [of "take m (labels 0 counts)" "take m xs" i "drop m (labels 0 counts)" "drop m xs"]
      assms(4) by simp
  then show ?thesis using picked_labels [of i counts xs 0] assms by (simp add: picked_none)
qed

text \<open>A list of all sequences, cut at a stretch.\<close>

lemma map_upt_split:
  assumes "b + w \<le> n"
  shows "map f [0 ..< n] = map f [0 ..< b] @ map (\<lambda>r. f (b + r)) [0 ..< w] @ map f [b + w ..< n]"
proof -
  have "[0 ..< n] = [0 ..< b] @ [b ..< b + w] @ [b + w ..< n]"
    using upt_add_eq_append [of 0 b "n - b"] upt_add_eq_append [of b "b + w" "n - (b + w)"] assms by simp
  moreover have "map f [b ..< b + w] = map (\<lambda>r. f (b + r)) [0 ..< w]"
    by (rule nth_equalityI) simp_all
  ultimately show ?thesis by simp
qed

lemma those_rows:
  "\<forall>r \<in> set rs. r < n \<Longrightarrow> those (map (nth_opt (map f [0 ..< n])) rs) = Some (map f rs)"
  by (induction rs) (auto simp: nth_opt_def)

lemma run_chunk_eval:
  assumes "get_slice (bi_all_token_ids batch) (fc_start ch) (chunk_len ch) = Some toks"
    and "get_slice (bi_all_positions batch) (fc_start ch) (chunk_len ch) = Some pos"
    and "get_slice (fs_caches fs) (fc_seq_base ch) (length (fc_counts ch)) = Some css"
    and "en_forward E (fc_phase ch) toks pos (fc_counts ch) css (fs_memory fs) = (Inr out, css', mem')"
    and "those (map (nth_opt out) (fc_finished ch)) = Some rows"
    and "flush_caches (en_tensors E) (en_quant E) (en_fzero E) (snd mem') css' = (as, css'', r)"
  shows "\<exists>fs' r'. run_chunk E batch k ch fs = (fs', r')
    \<and> (case r' of
         Inl e \<Rightarrow> r = Inl e \<or> (e = Tensor_failed \<and> en_clock E k = None)
       | Inr _ \<Rightarrow> r = Inr () \<and> fs_memory fs' = (fst mem', as) \<and> fs_rows fs' = fs_rows fs @ rows
           \<and> fs_caches fs' = take (fc_seq_base ch) (fs_caches fs) @ css''
               @ drop (fc_seq_base ch + length (fc_counts ch)) (fs_caches fs))"
  using assms by (cases r; cases "en_clock E k") (simp_all add: run_chunk_def Let_def)

lemma run_chunk_pass:
  assumes E: "causal_model E holds logit" and keep: "keeps_sequences E" and B: "batch_ok txts batch"
    and at: "pass_at holds logit txts sp batch p fs" and nx: "planner_next p n = Some (p', Some ch)"
  shows "\<exists>fs' r. run_chunk E batch k ch fs = (fs', r)
    \<and> (case r of Inl e \<Rightarrow> pass_fails E holds e | Inr _ \<Rightarrow> pass_at holds logit txts sp batch p' fs')"
proof -
  let ?C = "bi_token_counts batch" and ?toks = "bi_all_token_ids batch" and ?pos = "bi_all_positions batch"
  let ?L = "labels 0 ?C" and ?m = "pl_start p" and ?cs = "fc_counts ch" and ?base = "pl_seq p"
  let ?w = "length ?cs" and ?len = "sum_list ?cs" and ?ph = "fc_phase ch"
  let ?in = "take ?len (drop ?m ?toks)" and ?ps = "take ?len (drop ?m ?pos)"
  let ?txt = "text_at txts sp batch ?m" and ?txt' = "text_at txts sp batch (?m + ?len)"
  note b = B [unfolded batch_ok_def] and a = at [unfolded pass_at_def]
  have ok: "planner_ok p" "pl_seq p < length (pl_counts p)" using planner_next_starts_ok [OF nx] by auto
  have c: "planner_ok p'" "pl_counts p' = ?C" "fc_start ch = ?m" "pl_start p' = ?m + ?len"
      "fc_seq_base ch = ?base" "planner_left p = labels ?base ?cs @ planner_left p'"
      "map (\<lambda>r. ?base + r) (fc_finished ch) = [?base ..< pl_seq p']"
      "?base + ?w \<le> length ?C" "?base \<le> pl_seq p'" "pl_seq p' \<le> ?base + ?w" "pl_split_at p' = sp"
      "chunk_in_phase sp ch"
    using planner_next_chunk [OF ok, of n] nx a by (auto simp: chunk_len_def)
  have ph: "batch_phase sp (?base + r) = ?ph" if "r < ?w" for r
    using c(12) that by (cases ?ph) (auto simp: chunk_in_phase_def batch_phase_def c(5))
  have L: "drop ?m ?L = labels ?base ?cs @ planner_left p'" using a c(6) by simp
  have len: "?m + ?len \<le> length ?toks" using arg_cong [OF L, of length] a b by auto
  have left: "drop (?m + ?len) ?L = planner_left p'"
    using arg_cong [OF L, of "drop ?len"] by (simp add: add.commute)
  have lt: "length ?toks = sum_list ?C" "?m \<le> length ?toks" using a b by auto
  note piece = chunk_piece [OF L lt] and adds = chunk_adds_piece [OF L lt(1)]
  have n: "length (fs_caches fs) = length ?C" using a by simp
  define pre where "pre = take ?base (fs_caches fs)"
  define css where "css = take ?w (drop ?base (fs_caches fs))"
  define post where "post = drop (?base + ?w) (fs_caches fs)"
  have cut: "fs_caches fs = pre @ css @ post"
  proof -
    have "drop (?base + ?w) (fs_caches fs) = drop ?w (drop ?base (fs_caches fs))" by (simp add: add.commute)
    then show ?thesis unfolding pre_def css_def post_def by (simp only: append_take_drop_id)
  qed
  have sl: "get_slice (fs_caches fs) ?base ?w = Some css" "get_slice ?toks ?m ?len = Some ?in"
      "get_slice ?pos ?m ?len = Some ?ps"
    using c(8) n len b by (simp_all add: get_slice_def css_def)
  define ts where "ts = map (\<lambda>r. ?txt (?base + r)) [0 ..< ?w]"
  have posr: "\<forall>r < length ?cs. seq_tokens ?cs r ?ps = map of_nat [length (ts ! r) ..< length (ts ! r) + ?cs ! r]"
    using chunk_positions [OF L, of ?toks _ ?pos] b c(8) len by (simp add: ts_def text_at_def Let_def)
  have cl: "length ?cs = length css" "length ts = length css" "length (map ?txt [0 ..< ?base]) = length pre"
      "length ?in = ?len" "length ?ps = length ?in"
    using c(8) n len b by (auto simp: css_def pre_def ts_def)
  have hd: "holds (fs_memory fs) (pre @ css @ post) (map ?txt [0 ..< ?base] @ ts @ map ?txt [?base + ?w ..< length ?C])"
    using a unfolding cut ts_def by (simp only: map_upt_split [OF c(8)])
  obtain r1 css' mem' where fw: "en_forward E ?ph ?in ?ps ?cs css (fs_memory fs) = (r1, css', mem')"
    by (metis prod_cases3)
  show ?thesis
  proof (cases r1)
    case (Inl e)
    obtain fs' where "run_chunk E batch k ch fs = (fs', Inl e)"
      using sl fw Inl by (simp add: run_chunk_def c(3,5) chunk_len_def Let_def)
    moreover have "pass_fails E holds e" using forward_fails [where holds = holds and pre = pre and css = css and post = post, OF hd fw [unfolded Inl]] .
    ultimately show ?thesis by auto
  next
    case (Inr out)
    note f = E [unfolded causal_model_def, rule_format, OF cl(1-3) hd cl(4,5) posr [rule_format] fw [unfolded Inr]]
    have out: "out = map (\<lambda>r. logit (ts ! r @ in_phase ?ph (seq_tokens ?cs r ?in))) [0 ..< ?w]" using f by blast
    have new: "ts ! r @ in_phase ?ph (seq_tokens ?cs r ?in) = ?txt' (?base + r)" if "r < ?w" for r
      using piece [OF that] adds [of "?base + r"] that ph [OF that] by (simp add: ts_def text_at_def)
    have stay: "?txt i = ?txt' i" if "\<not> (?base \<le> i \<and> i < ?base + ?w)" for i
    proof -
      have "picked i (labels ?base ?cs) ?in = []"
        using that set_labels [of ?base ?cs] by (intro picked_none) auto
      then show ?thesis using adds [of i] by (simp add: text_at_def)
    qed
    have fin: "r \<in> set (fc_finished ch) \<Longrightarrow> ?base + r < pl_seq p'" for r
      using arg_cong [OF c(7), of set] by auto
    then have fw': "\<forall>r \<in> set (fc_finished ch). r < ?w" using c(10) by fastforce
    let ?row = "\<lambda>i. logit (whole_text txts sp batch i)"
    have "?txt' i = whole_text txts sp batch i" if "i < pl_seq p'" for i
    proof -
      have "i \<notin> set (planner_left p')" using remaining_labels that by (fastforce simp: planner_left_def)
      then show ?thesis using picked_finished [OF left, of i ?toks] that c(8,10) b by (simp add: text_at_def whole_text_def)
    qed
    then have row: "map (\<lambda>r. logit (ts ! r @ in_phase ?ph (seq_tokens ?cs r ?in))) (fc_finished ch) =
        map ?row (map (\<lambda>r. ?base + r) (fc_finished ch))"
      using fw' fin by (simp add: new)
    have rows: "those (map (nth_opt out) (fc_finished ch)) = Some (map ?row [?base ..< pl_seq p'])"
      unfolding out by (rule trans [OF those_rows [OF fw'] arg_cong [OF row [unfolded c(7)], of Some]])
    have up: "[0 ..< pl_seq p] @ [?base ..< pl_seq p'] = [0 ..< pl_seq p']"
      using upt_add_eq_append [of 0 "pl_seq p" "pl_seq p' - pl_seq p"] c(9) by simp
    obtain as css'' r2 where fl: "flush_caches (en_tensors E) (en_quant E) (en_fzero E) (snd mem') css' = (as, css'', r2)"
      by (metis prod_cases3)
    obtain fs' r where ev: "run_chunk E batch k ch fs = (fs', r)"
        "case r of Inl e \<Rightarrow> r2 = Inl e \<or> (e = Tensor_failed \<and> en_clock E k = None)
         | Inr _ \<Rightarrow> r2 = Inr () \<and> fs_memory fs' = (fst mem', as) \<and> fs_rows fs' = fs_rows fs @ map ?row [?base ..< pl_seq p']
             \<and> fs_caches fs' = pre @ css'' @ post"
      using run_chunk_eval [of batch ch ?in ?ps fs css E, unfolded c(3,5) chunk_len_def, OF sl(2,3,1) fw [unfolded Inr] rows fl]
      unfolding pre_def post_def by blast
    show ?thesis
    proof (cases r)
      case (Inl e)
      then have "pass_fails E holds e" using ev(2) Inl clock_fails [of E k holds] fl
        flush_fails [where holds = holds and pre = pre and css = css and post = post, OF hd fw [unfolded Inr], of as css'' e] by auto
      then show ?thesis using ev(1) Inl by auto
    next
      case fine: (Inr u)
      have g: "r2 = Inr ()" "fs_memory fs' = (fst mem', as)" "fs_rows fs' = fs_rows fs @ map ?row [?base ..< pl_seq p']"
          "fs_caches fs' = pre @ css'' @ post"
        using ev(2) fine by simp_all
      have "holds (fst mem', as) (pre @ css'' @ post) (map ?txt [0 ..< ?base]
          @ map (\<lambda>r. ts ! r @ in_phase ?ph (seq_tokens ?cs r ?in)) [0 ..< ?w] @ map ?txt [?base + ?w ..< length ?C])"
        using conjunct2 [OF f] fl g(1) by blast
      moreover have "map (\<lambda>r. ts ! r @ in_phase ?ph (seq_tokens ?cs r ?in)) [0 ..< ?w] = map (\<lambda>r. ?txt' (?base + r)) [0 ..< ?w]"
        using new by (intro map_cong) auto
      moreover have "map ?txt [0 ..< ?base] = map ?txt' [0 ..< ?base]"
        "map ?txt [?base + ?w ..< length ?C] = map ?txt' [?base + ?w ..< length ?C]"
        using stay by (auto intro!: map_cong)
      ultimately have hd': "holds (fs_memory fs') (fs_caches fs') (map ?txt' [0 ..< length ?C])"
        by (simp only: map_upt_split [OF c(8)] g(2,4))
      have "map length (fst (snd (en_forward E ?ph ?in ?ps ?cs css (fs_memory fs)))) = map length css"
        using keep unfolding keeps_sequences_def by blast
      then have "map length css'' = map length css" using flush_caches_length [OF fl] by (simp add: fw)
      then have "length css'' = length css" by (rule map_eq_imp_length_eq)
      then have "length (fs_caches fs') = length ?C" using n cut g(4) by simp
      then have "pass_at holds logit txts sp batch p' fs'"
        using hd' len c left a up g(3) by (simp add: pass_at_def flip: map_append)
      then show ?thesis using ev(1) fine by simp
    qed
  qed
qed

section \<open>The whole pass\<close>

definition batch_rows :: "(phased list \<Rightarrow> 'l) \<Rightarrow> phased list list \<Rightarrow> nat \<Rightarrow> batch_input \<Rightarrow> 'l list" where
  "batch_rows logit txts split_at batch =
     map (\<lambda>i. logit (whole_text txts split_at batch i)) [0 ..< length (bi_token_counts batch)]"

lemma pass_at_end:
  assumes "batch_ok txts batch" and "pass_at holds logit txts sp batch p fs" and "length (pl_counts p) \<le> pl_seq p"
  shows "fs_rows fs = batch_rows logit txts sp batch \<and> fs_rows fs \<noteq> []
    \<and> holds (fs_memory fs) (fs_caches fs) (map (whole_text txts sp batch) [0 ..< length (bi_token_counts batch)])"
proof -
  let ?C = "bi_token_counts batch" and ?toks = "bi_all_token_ids batch" and ?m = "pl_start p"
  note b = assms(1) [unfolded batch_ok_def] and a = assms(2) [unfolded pass_at_def]
  have e: "pl_seq p = length ?C" using a assms(3) by (auto simp: planner_ok_def cursor_ok_def split: if_splits)
  have "planner_left p = []" using assms(3) by (simp add: planner_left_def)
  then have left: "drop ?m (labels 0 ?C) = []" using a by metis
  have m: "map (text_at txts sp batch ?m) [0 ..< length ?C] = map (whole_text txts sp batch) [0 ..< length ?C]"
    using picked_finished [OF left, of _ ?toks] b by (intro map_cong) (auto simp: text_at_def whole_text_def)
  show ?thesis using a [unfolded m] b e by (simp add: batch_rows_def)
qed

lemma forward_chunks_pass:
  assumes "causal_model E holds logit" and "keeps_sequences E" and "batch_ok txts batch"
    and "pass_at holds logit txts sp batch p fs"
  shows "\<exists>fs' r. forward_chunks E batch k p fs = (fs', r)
    \<and> (case r of Inl e \<Rightarrow> pass_fails E holds e
       | Inr rows \<Rightarrow> rows = batch_rows logit txts sp batch
           \<and> holds (fs_memory fs') (fs_caches fs') (map (whole_text txts sp batch) [0 ..< length (bi_token_counts batch)]))"
  using assms
proof (induction E batch k p fs rule: forward_chunks.induct)
  case (1 E batch k p fs)
  have ok: "planner_ok p" using 1(5) by (simp add: pass_at_def)
  show ?case
  proof (cases "pl_seq p < length (pl_counts p)")
    case False
    then show ?thesis using pass_at_end [OF 1(4,5)] planner_next_done [of p "p_cap (fs_pacer fs)"]
      by (auto simp: forward_chunks.simps [of E batch k p fs])
  next
    case True
    obtain p' ch where nx: "planner_next p (p_cap (fs_pacer fs)) = Some (p', Some ch)"
      using planner_next_chunk [OF ok True] by blast
    obtain fs1 r1 where c: "run_chunk E batch k ch fs = (fs1, r1)"
        "case r1 of Inl e \<Rightarrow> pass_fails E holds e | Inr _ \<Rightarrow> pass_at holds logit txts sp batch p' fs1"
      using run_chunk_pass [OF 1(2-5) nx] by blast
    show ?thesis
    proof (cases r1)
      case (Inl e)
      then show ?thesis using nx c by (auto simp: forward_chunks.simps [of E batch k p fs])
    next
      case (Inr u)
      then have "pass_at holds logit txts sp batch p' fs1" using c(2) by simp
      from 1(1) [OF nx refl refl c(1) [symmetric] Inr 1(2-4) this] show ?thesis using nx c(1) Inr
        by (simp add: forward_chunks.simps [of E batch k p fs])
    qed
  qed
qed

section \<open>A small instance\<close>

text \<open>A model of one layer whose cache keeps the text itself, phases included, and whose logits are the text.\<close>

definition text_cache :: "phased list \<Rightarrow> phased list paged_cache" where
  "text_cache t =
     \<lparr>c_quantizer = None, table = block_table_new, c_block_size = 2, c_n_kv = 1, c_head_dim = 1,
      contig_k = Some t, contig_v = None, contig_len = length t, contig_start = 0, window = None,
      pending_writes = [], recurrent = None, pool_writes = True\<rparr>"

definition text_of :: "phased list paged_cache \<Rightarrow> phased list" where
  "text_of c = the (contig_k c)"

definition holds_text ::
    "(phased list, unit) kv_memory \<Rightarrow> phased list paged_cache list list \<Rightarrow> phased list list \<Rightarrow> bool" where
  "holds_text mem css txts \<longleftrightarrow> list_all2 (\<lambda>cs t. map contig_k cs = [Some t]) css txts"

definition text_pool :: "(phased list, unit) block_allocator" where
  "text_pool =
     \<lparr>pool = Full [] [], free_list = [], ref_counts = [], num_blocks = 0, max_blocks = 4,
      segment_blocks = 2, block_size = 2, n_kv_heads = 1, head_dim = 1, dtype_bytes = 4,
      contig_pool = \<lparr>buffers = [], max_buffers = 4, bytes_per_token = 8, pool_budget = 0\<rparr>,
      sliding_window = None\<rparr>"

definition text_forward ::
    "fwd_phase \<Rightarrow> u32 list \<Rightarrow> u32 list \<Rightarrow> nat list \<Rightarrow> phased list paged_cache list list \<Rightarrow> (phased list, unit) kv_memory \<Rightarrow>
     (err + phased list list) \<times> phased list paged_cache list list \<times> (phased list, unit) kv_memory" where
  "text_forward ph toks pos counts css mem =
     (let more = (\<lambda>r. in_phase ph (seq_tokens counts r toks))
      in (Inr (map (\<lambda>r. text_of (hd (css ! r)) @ more r) [0 ..< length counts]),
          map (\<lambda>r. map (\<lambda>c. text_cache (text_of c @ more r)) (css ! r)) [0 ..< length css],
          (fst mem, [text_pool])))"

definition text_env ::
    "(phased list, unit) tensor_ops \<Rightarrow> (phased list, unit, phased list, unit, unit, unit, unit) engine_env" where
  "text_env T =
     \<lparr>en_tensors = T, en_quant = \<lparr>quantize_key = (\<lambda>q xs. ([], (), ())), quantize_value = (\<lambda>q xs. ([], ())),
        dequantize_key = (\<lambda>q ps n r. []), dequantize_value = (\<lambda>q ps n. [])\<rparr>, en_fzero = (),
      en_forward = text_forward,
      en_greedy = (\<lambda>toks pos cs mem. (Inr [], cs, mem)), en_draft = (\<lambda>toks pos cs mem. (Inr [], cs, mem)),
      en_clock = (\<lambda>k. Some 1), en_rate = (\<lambda>n t. ()), en_no_gain = (\<lambda>r b. True),
      en_vocab = (\<lambda>row. Some 100), en_sample = (\<lambda>row sp toks counts allow. Inr (0, ())),
      en_allowed = (\<lambda>c n. None), en_advance = (\<lambda>c t. None), en_plain_greedy = (\<lambda>sp. False)\<rparr>"

lemma text_env_fields [simp]:
  "en_forward (text_env T) = text_forward" "en_clock (text_env T) k = Some 1"
  by (simp_all add: text_env_def)

lemma text_env_keeps: "keeps_sequences (text_env T)"
  unfolding keeps_sequences_def by (intro allI, rule nth_equalityI) (simp_all add: text_forward_def Let_def)

text \<open>Nothing is staged: a flush changes nothing, and cannot fail over one layer per sequence.\<close>

lemma flush_text_caches:
  "\<forall>cs \<in> set css. \<exists>t. cs = [text_cache t] \<Longrightarrow> flush_caches T Q fz [a] css = ([a], css, Inr ())"
  by (induction css) (auto simp: flush_pending_def text_cache_def)

lemma list_all2_member: "list_all2 P xs ys \<Longrightarrow> x \<in> set xs \<Longrightarrow> \<exists>y. P x y"
  by (induction rule: list_all2_induct) auto

lemma text_forward_layers:
  assumes "holds_text mem' (pre @ css @ post) txts" and "text_forward ph toks pos counts css mem = (r, css', m)"
  shows "\<forall>cs \<in> set css'. \<exists>t. cs = [text_cache t]" and "snd m = [text_pool]" and "\<exists>out. r = Inr out"
proof -
  note held = assms(1) [unfolded holds_text_def]
  have all: "\<exists>t. map contig_k cs = [Some t]" if "cs \<in> set (pre @ css @ post)" for cs
    by (rule list_all2_member [OF held that])
  have one: "\<exists>c. css ! r = [c]" if "r < length css" for r
  proof -
    have "css ! r \<in> set (pre @ css @ post)" using that by simp
    from all [OF this] obtain t where "map contig_k (css ! r) = [Some t]" by (rule exE)
    then show ?thesis by (cases "css ! r") auto
  qed
  have css': "css' = map (\<lambda>r. map (\<lambda>c. text_cache (text_of c @ in_phase ph (seq_tokens counts r toks))) (css ! r)) [0 ..< length css]"
      "m = (fst mem, [text_pool])" "\<exists>out. r = Inr out"
    using assms(2) by (auto simp: text_forward_def Let_def)
  show "\<forall>cs \<in> set css'. \<exists>t. cs = [text_cache t]"
  proof
    fix cs assume "cs \<in> set css'"
    then obtain r where "r < length css"
        "cs = map (\<lambda>c. text_cache (text_of c @ in_phase ph (seq_tokens counts r toks))) (css ! r)"
      by (auto simp: css'(1))
    then show "\<exists>t. cs = [text_cache t]" using one [of r] by auto
  qed
  show "snd m = [text_pool]" "\<exists>out. r = Inr out" using css' by auto
qed

lemma text_env_sound: "\<not> pass_fails (text_env T) holds_text e"
  using text_forward_layers by (fastforce simp: pass_fails_def flush_text_caches)

lemma text_env_causal: "causal_model (text_env T) holds_text (\<lambda>t. t)"
  unfolding causal_model_def
proof (intro allI impI)
  fix ph toks pos counts pre css post mem txts out css' mem' and tpre tpost :: "phased list list"
  assume len: "length counts = length css" "length txts = length css" "length tpre = length pre"
    and hd: "holds_text mem (pre @ css @ post) (tpre @ txts @ tpost)"
    and fw: "en_forward (text_env T) ph toks pos counts css mem = (Inr out, css', mem')"
  have fw': "text_forward ph toks pos counts css mem = (Inr out, css', mem')" using fw by simp
  have h: "list_all2 (\<lambda>cs t. map contig_k cs = [Some t]) pre tpre" "list_all2 (\<lambda>cs t. map contig_k cs = [Some t]) css txts"
      "list_all2 (\<lambda>cs t. map contig_k cs = [Some t]) post tpost"
    using hd len by (simp_all add: holds_text_def list_all2_append)
  have at: "\<exists>c. css ! r = [c] \<and> text_of c = txts ! r" if "r < length css" for r
    using h(2) that by (auto simp: list_all2_conv_all_nth text_of_def)
  have out: "out = map (\<lambda>r. txts ! r @ in_phase ph (seq_tokens counts r toks)) [0 ..< length counts]"
    using fw' at len(1) by (fastforce simp: text_forward_def Let_def)
  have css': "list_all2 (\<lambda>cs t. map contig_k cs = [Some t]) css' (map (\<lambda>r. txts ! r @ in_phase ph (seq_tokens counts r toks)) [0 ..< length counts])"
    using fw' at len(1) by (fastforce simp: text_forward_def Let_def list_all2_conv_all_nth text_cache_def)
  show "out = map (\<lambda>r. txts ! r @ in_phase ph (seq_tokens counts r toks)) [0 ..< length counts]
      \<and> (\<forall>as css''. flush_caches (en_tensors (text_env T)) (en_quant (text_env T)) (en_fzero (text_env T)) (snd mem') css'
            = (as, css'', Inr ()) \<longrightarrow>
           holds_text (fst mem', as) (pre @ css'' @ post)
             (tpre @ map (\<lambda>r. txts ! r @ in_phase ph (seq_tokens counts r toks)) [0 ..< length counts] @ tpost))"
  proof (intro conjI allI impI)
    fix as css''
    assume "flush_caches (en_tensors (text_env T)) (en_quant (text_env T)) (en_fzero (text_env T)) (snd mem') css' = (as, css'', Inr ())"
    then have "css'' = css'"
      using text_forward_layers(2) [OF hd fw'] by (simp add: flush_text_caches [OF text_forward_layers(1) [OF hd fw']])
    then show "holds_text (fst mem', as) (pre @ css'' @ post)
        (tpre @ map (\<lambda>r. txts ! r @ in_phase ph (seq_tokens counts r toks)) [0 ..< length counts] @ tpost)"
      using h(1,3) css' by (simp add: holds_text_def list_all2_appendI)
  qed (rule out)
qed

text \<open>Two sequences: a prompt of three tokens to prefill and a text of two tokens decoding its third.\<close>

definition text_sequence :: "nat \<Rightarrow> sequence_phase \<Rightarrow> u32 list \<Rightarrow> u32 list \<Rightarrow> (phased list, unit, unit) sequence_state" where
  "text_sequence sid ph done_toks toks =
     \<lparr>sq_id = sid, num_generated = 0, all_tokens = toks, token_counts = Map.empty, sampling_params = (),
      status = Running, phase = ph, caches = [text_cache (in_phase Phase_Prefill done_toks)], draft_caches = [],
      num_processed_tokens = length done_toks, max_tokens = 9, finish_reason = None, jconstraint = None\<rparr>"

definition text_scheduler :: "(phased list, unit, unit, unit) scheduler" where
  "text_scheduler =
     (scheduler_new 4 100 (\<lambda>_. contig_budget_new 0) [text_pool] 1)
       \<lparr>running := [text_sequence 1 Prefill [] [10, 11, 12], text_sequence 2 Decode [7, 8] [7, 8, 9]],
        running_index := [1 \<mapsto> 0, 2 \<mapsto> 1]\<rparr>"

definition text_batch :: batch_input where
  "text_batch = \<lparr>bi_all_token_ids = [10, 11, 12, 9], bi_all_positions = [0, 1, 2, 2], bi_token_counts = [3, 1]\<rparr>"

lemma text_scheduler_ok:
  "index_ok (running text_scheduler) (running_index text_scheduler)"
  "get_running text_scheduler 1 = Some (text_sequence 1 Prefill [] [10, 11, 12])"
  "get_running text_scheduler 2 = Some (text_sequence 2 Decode [7, 8] [7, 8, 9])"
  by (auto simp: index_ok_def text_scheduler_def text_sequence_def get_running_def less_Suc_eq nth_Cons')

lemma text_batch_ok: "batch_ok [[], in_phase Phase_Prefill [7, 8]] text_batch"
  by (simp add: batch_ok_def text_batch_def All_less_Suc2 seq_tokens_def numeral_nat upt_rec)

lemma text_scheduler_holds:
  "holds_text (memory_of text_scheduler) (taken_caches text_scheduler [1] [2]) [[], in_phase Phase_Prefill [7, 8]]"
  by (simp add: holds_text_def taken_caches_def text_scheduler_ok text_scheduler_ok(2) [unfolded One_nat_def]
      text_sequence_def text_cache_def set_pool_writes_def)

text \<open>C21. However the pacer cuts a step's batch into forwards, the pass computes what one forward per
  sequence would, each token in its sequence's phase: over a causal model (a forward may fail; when it answers, its
  rows are the logits of each sequence's text so far, which may depend on the phase every token was computed in
  but not on the other sequences of the forward, and its caches hold the longer texts), with caches that hold the texts
  already processed and a batch that carries the next tokens at their positions, the pass either answers an
  error of a forward, of the flush after one or of the clock, or the logits of every sequence's whole text, one per sequence
  in batch order, the new tokens of the first \<open>length ps\<close> sequences computed as prefills and those of the others as
  decodes; then the caches put back hold those texts.  The chunk sizes and the measured speeds do not matter.\<close>

theorem chunked_forward_is_whole:
  assumes "causal_model E holds logit" and "keeps_sequences E"
    and "index_ok (running s) (running_index s)" and "distinct (ps @ ds)" and "length qs = length (ps @ ds)"
    and "\<forall>i < length (ps @ ds). get_running s ((ps @ ds) ! i) = Some (qs ! i)"
    and "length txts = length (ps @ ds)" and "batch_ok txts batch"
    and "holds (memory_of s) (taken_caches s ps ds) txts"
  shows "\<exists>s' pacer' r. run_forward_pass E s ps ds pacer batch = Some (s', pacer', r)
    \<and> (case r of
         Inl e \<Rightarrow> pass_fails E holds e
       | Inr rows \<Rightarrow> rows = batch_rows logit txts (length ps) batch
           \<and> (\<exists>css. length css = length (ps @ ds)
               \<and> (\<forall>i < length (ps @ ds). get_running s' ((ps @ ds) ! i) = Some ((qs ! i)\<lparr>caches := css ! i\<rparr>))
               \<and> holds (memory_of s') css (map (whole_text txts (length ps) batch) [0 ..< length (ps @ ds)])))"
proof -
  let ?ids = "ps @ ds" and ?C = "bi_token_counts batch"
  have n: "length ?C = length ?ids" using assms(7,8) by (simp add: batch_ok_def)
  have there: "\<forall>x \<in> set ?ids. get_running s x \<noteq> None"
    using assms(6) by (metis in_set_conv_nth option.distinct(1))
  let ?fs = "\<lparr>fs_caches = taken_caches s ps ds, fs_memory = memory_of s, fs_pacer = pacer, fs_rows = []\<rparr>"
  let ?p = "planner_new ?C (length ps)"
  have tk: "length (taken_caches s ps ds) = length ?ids" by (simp add: taken_caches_def)
  have "map (text_at txts (length ps) batch 0) [0 ..< length ?C] = txts"
    using assms(7) n by (intro nth_equalityI) (simp_all add: text_at_def)
  then have "pass_at holds logit txts (length ps) batch ?p ?fs"
    using assms(9) tk n
    by (simp add: pass_at_def planner_new_def planner_ok_def cursor_ok_def planner_left_def remaining_def)
  from forward_chunks_pass [OF assms(1,2,8) this] obtain fs r where f: "forward_chunks E batch 0 ?p ?fs = (fs, r)"
      "case r of Inl e \<Rightarrow> pass_fails E holds e
       | Inr rows \<Rightarrow> rows = batch_rows logit txts (length ps) batch
           \<and> holds (fs_memory fs) (fs_caches fs) (map (whole_text txts (length ps) batch) [0 ..< length ?C])"
    by blast
  have l: "length (fs_caches fs) = length ?ids"
    using forward_chunks_length [OF assms(2) f(1)] tk by simp
  obtain s' where s': "run_forward_pass E s ps ds pacer batch = Some (s', fs_pacer fs, r)"
      "put_back_ok s ?ids (fs_memory fs) (fs_caches fs) s'"
    using run_forward_pass_eval [OF assms(3,4) there f(1) l] by blast
  have m: "memory_of s' = fs_memory fs"
    using s'(2) same_frame_memory [of "set_memory s (fs_memory fs)" s'] by (simp add: put_back_ok_def memory_of_def set_memory_def)
  have g: "\<forall>i < length ?ids. get_running s' (?ids ! i) = Some ((qs ! i)\<lparr>caches := fs_caches fs ! i\<rparr>)"
    using s'(2) assms(6) by (fastforce simp: put_back_ok_def)
  show ?thesis
  proof (cases r)
    case (Inl e)
    then show ?thesis using s'(1) f(2) by simp
  next
    case (Inr rows)
    then have "rows = batch_rows logit txts (length ps) batch"
      "holds (memory_of s') (fs_caches fs) (map (whole_text txts (length ps) batch) [0 ..< length ?ids])"
      using f(2) m n by simp_all
    then show ?thesis using s'(1) Inr l g by auto
  qed
qed

theorem chunked_forward_is_whole_witness:
  "\<forall>T. \<exists>s' pacer' css.
    run_forward_pass (text_env T) text_scheduler [1] [2] \<lparr>p_cap = 2, p_best = None, p_settled = True\<rparr> text_batch =
      Some (s', pacer', Inr [in_phase Phase_Prefill [10, 11, 12], in_phase Phase_Prefill [7, 8] @ in_phase Phase_Decode [9]])
    \<and> (\<forall>i < 2. get_running s' ([1, 2] ! i) =
         Some (([text_sequence 1 Prefill [] [10, 11, 12], text_sequence 2 Decode [7, 8] [7, 8, 9]] ! i)\<lparr>caches := css ! i\<rparr>))
    \<and> holds_text (memory_of s') css
        [in_phase Phase_Prefill [10, 11, 12], in_phase Phase_Prefill [7, 8] @ in_phase Phase_Decode [9]]"
proof
  fix T
  let ?pr = "\<lparr>p_cap = 2, p_best = None, p_settled = True\<rparr> :: unit prefill_pacer"
  let ?qs = "[text_sequence 1 Prefill [] [10, 11, 12], text_sequence 2 Decode [7, 8] [7, 8, 9]]"
  let ?txts = "[[], in_phase Phase_Prefill [7, 8]]"
  have whole: "map (whole_text ?txts (length [1 :: nat]) text_batch) [0 ..< length ([1] @ [2 :: nat])] =
      [in_phase Phase_Prefill [10, 11, 12], in_phase Phase_Prefill [7, 8] @ in_phase Phase_Decode [9]]"
    by (simp add: whole_text_def batch_phase_def text_batch_def seq_tokens_def numeral_nat)
  have ids: "\<forall>i < length ([1] @ [2 :: nat]). get_running text_scheduler (([1] @ [2]) ! i) = Some (?qs ! i)"
    by (auto simp: text_scheduler_ok text_scheduler_ok(2) [unfolded One_nat_def] less_Suc_eq)
  from chunked_forward_is_whole [OF text_env_causal text_env_keeps text_scheduler_ok(1) _ _ ids _ text_batch_ok
      text_scheduler_holds, of T ?pr]
  obtain s' pacer' r where run: "run_forward_pass (text_env T) text_scheduler [1] [2] ?pr text_batch = Some (s', pacer', r)"
      "case r of Inl e \<Rightarrow> pass_fails (text_env T) holds_text e
       | Inr rows \<Rightarrow> rows = batch_rows (\<lambda>t. t) ?txts (length [1 :: nat]) text_batch
           \<and> (\<exists>css. length css = length ([1] @ [2 :: nat])
               \<and> (\<forall>i < length ([1] @ [2 :: nat]). get_running s' (([1] @ [2]) ! i) = Some ((?qs ! i)\<lparr>caches := css ! i\<rparr>))
               \<and> holds_text (memory_of s') css (map (whole_text ?txts (length [1 :: nat]) text_batch) [0 ..< length ([1] @ [2 :: nat])]))"
    by auto
  obtain rows where "r = Inr rows" using run(2) text_env_sound by (cases r) auto
  then obtain css where c: "rows = batch_rows (\<lambda>t. t) ?txts (length [1 :: nat]) text_batch"
      "\<forall>i < length ([1] @ [2 :: nat]). get_running s' (([1] @ [2]) ! i) = Some ((?qs ! i)\<lparr>caches := css ! i\<rparr>)"
      "holds_text (memory_of s') css (map (whole_text ?txts (length [1 :: nat]) text_batch) [0 ..< length ([1] @ [2 :: nat])])"
    using run(2) by auto
  have "rows = [in_phase Phase_Prefill [10, 11, 12], in_phase Phase_Prefill [7, 8] @ in_phase Phase_Decode [9]]"
    using c(1) whole by (simp add: batch_rows_def text_batch_def)
  then show "\<exists>s' pacer' css. run_forward_pass (text_env T) text_scheduler [1] [2] ?pr text_batch =
      Some (s', pacer', Inr [in_phase Phase_Prefill [10, 11, 12], in_phase Phase_Prefill [7, 8] @ in_phase Phase_Decode [9]])
    \<and> (\<forall>i < 2. get_running s' ([1, 2] ! i) = Some ((?qs ! i)\<lparr>caches := css ! i\<rparr>))
    \<and> holds_text (memory_of s') css
        [in_phase Phase_Prefill [10, 11, 12], in_phase Phase_Prefill [7, 8] @ in_phase Phase_Decode [9]]"
    using run(1) \<open>r = Inr rows\<close> c(2,3) unfolding whole by (intro exI [of _ s'] exI [of _ pacer'] exI [of _ css]) (simp add: numeral_2_eq_2)
qed

text \<open>C22. The caches of a step's sequences survive the forward pass: whatever the model's forwards do
  or refuse, a failing forward, flush or clock or a panic included, every scheduled sequence gets back exactly the
  caches the loop of forwards left for it, as many layers as it had, with every other field as it was; the
  other sequences and the rest of the scheduler are left alone but for the shared memory, which is the one the loop left,
  and the pacer's size stays within its bounds.\<close>

theorem forward_restores_caches:
  assumes "keeps_sequences E" and "index_ok (running s) (running_index s)" and "distinct (ps @ ds)"
    and "\<forall>x \<in> set (ps @ ds). get_running s x \<noteq> None" and "pacer_ok pacer"
  shows "\<exists>s' fs r. forward_chunks E batch 0 (planner_new (bi_token_counts batch) (length ps))
        \<lparr>fs_caches = taken_caches s ps ds, fs_memory = memory_of s, fs_pacer = pacer, fs_rows = []\<rparr> = (fs, r)
    \<and> run_forward_pass E s ps ds pacer batch = Some (s', fs_pacer fs, r) \<and> pacer_ok (fs_pacer fs)
    \<and> put_back_ok s (ps @ ds) (fs_memory fs) (fs_caches fs) s'
    \<and> map length (fs_caches fs) = map (\<lambda>x. length (caches (the (get_running s x)))) (ps @ ds)"
proof -
  obtain fs r where f: "forward_chunks E batch 0 (planner_new (bi_token_counts batch) (length ps))
      \<lparr>fs_caches = taken_caches s ps ds, fs_memory = memory_of s, fs_pacer = pacer, fs_rows = []\<rparr> = (fs, r)"
    by fastforce
  have k: "map length (fs_caches fs) = map length (taken_caches s ps ds)" "pacer_ok (fs_pacer fs)"
    using forward_chunks_keeps [OF assms(1) planner_ok_new _ f] assms(5) by simp_all
  have l: "length (fs_caches fs) = length (ps @ ds)"
    using map_eq_imp_length_eq [OF k(1)] by (simp add: taken_caches_def)
  have "map length (taken_caches s ps ds) = map (\<lambda>x. length (caches (the (get_running s x)))) (ps @ ds)"
    by (simp add: taken_caches_def)
  then show ?thesis using run_forward_pass_eval [OF assms(2-4) f l] f k by auto
qed

theorem forward_restores_caches_witness:
  "\<forall>T. \<exists>s' (fs :: (phased list, unit, phased list, unit) forward_state). run_forward_pass ((text_env T)\<lparr>en_forward := (\<lambda>ph toks pos counts css mem. (Inl Tensor_failed, css, mem))\<rparr>)
      text_scheduler [1] [2] pacer_default text_batch = Some (s', fs_pacer fs, Inl Tensor_failed)
    \<and> pacer_ok (fs_pacer fs) \<and> put_back_ok text_scheduler ([1] @ [2]) (fs_memory fs) (fs_caches fs) s'
    \<and> map length (fs_caches fs) = [1, 1]"
proof
  fix T
  let ?E = "(text_env T)\<lparr>en_forward := (\<lambda>ph toks pos counts css mem. (Inl Tensor_failed, css, mem))\<rparr>"
  have keep: "keeps_sequences ?E" by (simp add: keeps_sequences_def text_env_def)
  have there: "\<forall>x \<in> set ([1] @ [2]). get_running text_scheduler x \<noteq> None"
    by (simp add: text_scheduler_ok text_scheduler_ok(2) [unfolded One_nat_def])
  obtain s' fs r where f: "forward_chunks ?E text_batch 0 (planner_new (bi_token_counts text_batch) (length [1 :: nat]))
        \<lparr>fs_caches = taken_caches text_scheduler [1] [2], fs_memory = memory_of text_scheduler, fs_pacer = pacer_default,
         fs_rows = []\<rparr> = (fs, r)"
      "run_forward_pass ?E text_scheduler [1] [2] pacer_default text_batch = Some (s', fs_pacer fs, r)"
      "pacer_ok (fs_pacer fs)" "put_back_ok text_scheduler ([1] @ [2]) (fs_memory fs) (fs_caches fs) s'"
      "map length (fs_caches fs) = map (\<lambda>x. length (caches (the (get_running text_scheduler x)))) ([1] @ [2])"
    using forward_restores_caches [OF keep text_scheduler_ok(1) _ there, of pacer_default text_batch] by auto
  have fail: "r = Inl Tensor_failed"
    using f(1) by (simp add: forward_chunks.simps [of ?E] planner_next_def planner_new_def text_batch_def pacer_default_def
        chunk_loop.simps run_chunk_def get_slice_def chunk_len_def taken_caches_def Let_def)
  have "map length (fs_caches fs) = [1, 1]"
    using f(5) by (simp add: text_scheduler_ok text_scheduler_ok(2) [unfolded One_nat_def] text_sequence_def)
  then show "\<exists>s' (fs :: (phased list, unit, phased list, unit) forward_state). run_forward_pass ?E text_scheduler [1] [2] pacer_default text_batch = Some (s', fs_pacer fs, Inl Tensor_failed)
    \<and> pacer_ok (fs_pacer fs) \<and> put_back_ok text_scheduler ([1] @ [2]) (fs_memory fs) (fs_caches fs) s'
    \<and> map length (fs_caches fs) = [1, 1]"
    by (intro exI conjI) (rule f(2) [unfolded fail] f(3,4) | assumption)+
qed

end
