(* ===== verification/Json_Machine.thy ===== *)
theory Json_Machine
  imports Prelude
begin

unbundle bit_operations_syntax

text \<open>
  The incremental JSON automaton of \<open>src/constrain.rs\<close> (\<open>JsonMachine\<close>).  Bytes are
  \<open>u8\<close>, the bitstack a 128-bit word.  The counters the source keeps in a \<open>u8\<close> (\<open>depth\<close>,
  \<open>ws_run\<close>, \<open>uni\<close>, \<open>pos\<close>) are naturals; \<open>Json_Soundness\<close> shows that they stay
  far below 256.  A step returns the machine it leaves even when it refuses the byte, because
  the source mutates before it decides.
\<close>

section \<open>Bytes\<close>

abbreviation b_quote :: u8 where "b_quote \<equiv> 0x22"
abbreviation b_plus :: u8 where "b_plus \<equiv> 0x2B"
abbreviation b_comma :: u8 where "b_comma \<equiv> 0x2C"
abbreviation b_minus :: u8 where "b_minus \<equiv> 0x2D"
abbreviation b_dot :: u8 where "b_dot \<equiv> 0x2E"
abbreviation b_slash :: u8 where "b_slash \<equiv> 0x2F"
abbreviation b_0 :: u8 where "b_0 \<equiv> 0x30"
abbreviation b_9 :: u8 where "b_9 \<equiv> 0x39"
abbreviation b_colon :: u8 where "b_colon \<equiv> 0x3A"
abbreviation b_E :: u8 where "b_E \<equiv> 0x45"
abbreviation b_lbrack :: u8 where "b_lbrack \<equiv> 0x5B"
abbreviation b_bslash :: u8 where "b_bslash \<equiv> 0x5C"
abbreviation b_rbrack :: u8 where "b_rbrack \<equiv> 0x5D"
abbreviation b_e :: u8 where "b_e \<equiv> 0x65"
abbreviation b_f :: u8 where "b_f \<equiv> 0x66"
abbreviation b_n :: u8 where "b_n \<equiv> 0x6E"
abbreviation b_t :: u8 where "b_t \<equiv> 0x74"
abbreviation b_u :: u8 where "b_u \<equiv> 0x75"
abbreviation b_lbrace :: u8 where "b_lbrace \<equiv> 0x7B"
abbreviation b_rbrace :: u8 where "b_rbrace \<equiv> 0x7D"

abbreviation bytes :: "string \<Rightarrow> u8 list" where
  "bytes s \<equiv> map of_char s"

definition is_ws :: "u8 \<Rightarrow> bool" where
  "is_ws b \<longleftrightarrow> b = 0x20 \<or> b = 0x09 \<or> b = 0x0A \<or> b = 0x0D"

definition is_digit :: "u8 \<Rightarrow> bool" where
  "is_digit b \<longleftrightarrow> b_0 \<le> b \<and> b \<le> b_9"

text \<open>\<open>b'1'..=b'9'\<close>, and \<open>u8::is_ascii_hexdigit\<close> of the standard library.\<close>

definition is_digit19 :: "u8 \<Rightarrow> bool" where
  "is_digit19 b \<longleftrightarrow> 0x31 \<le> b \<and> b \<le> b_9"

definition is_hex :: "u8 \<Rightarrow> bool" where
  "is_hex b \<longleftrightarrow> is_digit b \<or> (0x41 \<le> b \<and> b \<le> 0x46) \<or> (0x61 \<le> b \<and> b \<le> 0x66)"

text \<open>The letters a backslash may precede, besides \<open>u\<close>.\<close>

definition is_escape :: "u8 \<Rightarrow> bool" where
  "is_escape b \<longleftrightarrow> b \<in> set [b_quote, b_bslash, b_slash, 0x62, b_f, b_n, 0x72, b_t]"

section \<open>State\<close>

datatype json_mode = Object_mode | Value_mode

datatype num_state = Minus | Zero | Int_part | Dot | Frac | Exp | Exp_sign | Exp_digits

fun num_complete :: "num_state \<Rightarrow> bool" where
  "num_complete Zero = True"
| "num_complete Int_part = True"
| "num_complete Frac = True"
| "num_complete Exp_digits = True"
| "num_complete _ = False"

datatype jstate =
    Value
  | Obj_first
  | Arr_first
  | Obj_comma
  | Str (s_esc: bool) (s_uni: nat) (s_key: bool)
  | Colon
  | Num num_state
  | Lit (l_lit: nat) (l_pos: nat)
  | Obj_next
  | Arr_next
  | Done

type_synonym events = u16

definition EV_VALUE_START :: events where "EV_VALUE_START = push_bit 0 1"
definition EV_SCALAR_END :: events where "EV_SCALAR_END = push_bit 1 1"
definition EV_OBJ_OPEN :: events where "EV_OBJ_OPEN = push_bit 2 1"
definition EV_OBJ_CLOSE :: events where "EV_OBJ_CLOSE = push_bit 3 1"
definition EV_ARR_OPEN :: events where "EV_ARR_OPEN = push_bit 4 1"
definition EV_ARR_CLOSE :: events where "EV_ARR_CLOSE = push_bit 5 1"
definition EV_KEY_START :: events where "EV_KEY_START = push_bit 6 1"
definition EV_KEY_END :: events where "EV_KEY_END = push_bit 7 1"
definition EV_OBJ_COMMA :: events where "EV_OBJ_COMMA = push_bit 8 1"

record json_machine =
  stack :: "128 word"
  depth :: nat
  jstate :: jstate
  ws_run :: nat

definition max_depth :: nat where "max_depth = 64"

definition max_whitespace_run :: nat where "max_whitespace_run = 22"

definition literals :: "u8 list list" where
  "literals = [bytes ''true'', bytes ''false'', bytes ''null'']"

definition json_machine_new :: "json_mode \<Rightarrow> json_machine" where
  "json_machine_new mode =
     \<lparr>stack = 0, depth = 0, jstate = (case mode of Object_mode \<Rightarrow> Value | Value_mode \<Rightarrow> Value), ws_run = 0\<rparr>"

definition in_number :: "json_machine \<Rightarrow> bool" where
  "in_number m = (case jstate m of Num _ \<Rightarrow> True | _ \<Rightarrow> False)"

definition object_only :: "json_mode \<Rightarrow> bool" where
  "object_only mode \<longleftrightarrow> mode = Object_mode"

definition number_completes_top :: "json_machine \<Rightarrow> bool" where
  "number_completes_top m = (case jstate m of Num n \<Rightarrow> num_complete n | _ \<Rightarrow> False)"

definition accepting :: "json_machine \<Rightarrow> bool" where
  "accepting m \<longleftrightarrow> jstate m = Done \<or> (depth m = 0 \<and> number_completes_top m)"

section \<open>The bitstack\<close>

text \<open>\<open>push\<close>: \<open>None\<close> at the cap.\<close>

definition jpush :: "json_machine \<Rightarrow> bool \<Rightarrow> json_machine option" where
  "jpush m is_array =
     (if max_depth \<le> depth m then None
      else
        let bit1 = push_bit (depth m) 1
        in Some (m\<lparr>stack := (if is_array then stack m OR bit1 else stack m AND NOT bit1),
                   depth := depth m + 1\<rparr>))"

definition after_value :: "json_machine \<Rightarrow> jstate" where
  "after_value m =
     (if depth m = 0 then Done
      else if drop_bit (depth m - 1) (stack m) AND 1 = 1 then Arr_next
      else Obj_next)"

definition jpop :: "json_machine \<Rightarrow> (json_machine \<times> jstate) option" where
  "jpop m =
     (if depth m = 0 then None
      else let m' = m\<lparr>depth := depth m - 1\<rparr> in Some (m', after_value m'))"

section \<open>One byte\<close>

text \<open>Closing a container: the state that follows it.\<close>

definition close_with :: "json_machine \<Rightarrow> json_machine \<times> bool" where
  "close_with m = (case jpop m of Some (m', next) \<Rightarrow> (m'\<lparr>jstate := next\<rparr>, True) | None \<Rightarrow> (m, False))"

definition start_value :: "json_machine \<Rightarrow> u8 \<Rightarrow> bool \<Rightarrow> json_machine \<times> bool" where
  "start_value m b top_object_only =
     (if top_object_only \<and> depth m = 0 \<and> b \<noteq> b_lbrace \<and> \<not> is_ws b then (m, False)
      else if is_ws b then (m, True)
      else if b = b_lbrace then
        (case jpush m False of None \<Rightarrow> (m, False) | Some m' \<Rightarrow> (m'\<lparr>jstate := Obj_first\<rparr>, True))
      else if b = b_lbrack then
        (case jpush m True of None \<Rightarrow> (m, False) | Some m' \<Rightarrow> (m'\<lparr>jstate := Arr_first\<rparr>, True))
      else if b = b_quote then (m\<lparr>jstate := Str False 0 False\<rparr>, True)
      else if b = b_minus then (m\<lparr>jstate := Num Minus\<rparr>, True)
      else if b = b_0 then (m\<lparr>jstate := Num Zero\<rparr>, True)
      else if is_digit19 b then (m\<lparr>jstate := Num Int_part\<rparr>, True)
      else if b = b_t then (m\<lparr>jstate := Lit 0 1\<rparr>, True)
      else if b = b_f then (m\<lparr>jstate := Lit 1 1\<rparr>, True)
      else if b = b_n then (m\<lparr>jstate := Lit 2 1\<rparr>, True)
      else (m, False))"

fun num_next :: "num_state \<Rightarrow> u8 \<Rightarrow> num_state option" where
  "num_next Minus b = (if b = b_0 then Some Zero else if is_digit19 b then Some Int_part else None)"
| "num_next Zero b = (if b = b_dot then Some Dot else if b = b_e \<or> b = b_E then Some Exp else None)"
| "num_next Int_part b =
     (if is_digit b then Some Int_part else if b = b_dot then Some Dot
      else if b = b_e \<or> b = b_E then Some Exp else None)"
| "num_next Dot b = (if is_digit b then Some Frac else None)"
| "num_next Frac b = (if is_digit b then Some Frac else if b = b_e \<or> b = b_E then Some Exp else None)"
| "num_next Exp b =
     (if b = b_plus \<or> b = b_minus then Some Exp_sign else if is_digit b then Some Exp_digits else None)"
| "num_next Exp_sign b = (if is_digit b then Some Exp_digits else None)"
| "num_next Exp_digits b = (if is_digit b then Some Exp_digits else None)"

definition str_step :: "json_machine \<Rightarrow> bool \<Rightarrow> nat \<Rightarrow> bool \<Rightarrow> u8 \<Rightarrow> json_machine \<times> bool" where
  "str_step m esc uni key b =
     (if 0 < uni then
        (if is_hex b then (m\<lparr>jstate := Str False (uni - 1) key\<rparr>, True) else (m, False))
      else if esc then
        (if is_escape b then (m\<lparr>jstate := Str False 0 key\<rparr>, True)
         else if b = b_u then (m\<lparr>jstate := Str False 4 key\<rparr>, True)
         else (m, False))
      else if b = b_quote then (m\<lparr>jstate := (if key then Colon else after_value m)\<rparr>, True)
      else if b = b_bslash then (m\<lparr>jstate := Str True 0 key\<rparr>, True)
      else if b \<le> 0x1F then (m, False)
      else (m, True))"

definition lit_step :: "json_machine \<Rightarrow> nat \<Rightarrow> nat \<Rightarrow> u8 \<Rightarrow> json_machine \<times> bool" where
  "lit_step m lit pos b =
     (let word = literals ! lit
      in if pos < length word \<and> b = word ! pos then
           (m\<lparr>jstate := (if pos + 1 = length word then after_value m else Lit lit (pos + 1))\<rparr>, True)
         else (m, False))"

text \<open>
  \<open>step_inner\<close>.  A complete number that meets a byte it cannot take ends there, and the byte
  is stepped again from the state that follows; \<open>again\<close> is that second step.
\<close>

definition step_core ::
    "(json_machine \<Rightarrow> json_machine \<times> bool) \<Rightarrow> json_mode \<Rightarrow> u8 \<Rightarrow> json_machine \<Rightarrow> json_machine \<times> bool" where
  "step_core again mode b m =
     (case jstate m of
        Value \<Rightarrow> start_value m b (object_only mode)
      | Obj_first \<Rightarrow>
          if is_ws b then (m, True)
          else if b = b_quote then (m\<lparr>jstate := Str False 0 True\<rparr>, True)
          else if b = b_rbrace then close_with m
          else (m, False)
      | Arr_first \<Rightarrow>
          if b = b_rbrack then close_with m
          else start_value (m\<lparr>jstate := Value\<rparr>) b (object_only mode)
      | Obj_comma \<Rightarrow>
          if is_ws b then (m, True)
          else if b = b_quote then (m\<lparr>jstate := Str False 0 True\<rparr>, True)
          else (m, False)
      | Str esc uni key \<Rightarrow> str_step m esc uni key b
      | Colon \<Rightarrow>
          if is_ws b then (m, True)
          else if b = b_colon then (m\<lparr>jstate := Value\<rparr>, True)
          else (m, False)
      | Num n \<Rightarrow>
          (case num_next n b of
             Some n2 \<Rightarrow> (m\<lparr>jstate := Num n2\<rparr>, True)
           | None \<Rightarrow> if num_complete n then again (m\<lparr>jstate := after_value m\<rparr>) else (m, False))
      | Lit lit pos \<Rightarrow> lit_step m lit pos b
      | Obj_next \<Rightarrow>
          if is_ws b then (m, True)
          else if b = b_comma then (m\<lparr>jstate := Obj_comma\<rparr>, True)
          else if b = b_rbrace then close_with m
          else (m, False)
      | Arr_next \<Rightarrow>
          if is_ws b then (m, True)
          else if b = b_comma then (m\<lparr>jstate := Value\<rparr>, True)
          else if b = b_rbrack then close_with m
          else (m, False)
      | Done \<Rightarrow> (m, is_ws b))"

text \<open>The events of a step from \<open>before\<close> to \<open>after\<close> over the byte \<open>b\<close>.\<close>

definition ev_value_started :: "jstate \<Rightarrow> u8 \<Rightarrow> bool" where
  "ev_value_started before b \<longleftrightarrow> (before = Value \<or> before = Arr_first) \<and> \<not> is_ws b \<and> b \<noteq> b_rbrack"

fun is_num_state :: "jstate \<Rightarrow> bool" where
  "is_num_state (Num _) = True"
| "is_num_state _ = False"

fun is_lit_state :: "jstate \<Rightarrow> bool" where
  "is_lit_state (Lit _ _) = True"
| "is_lit_state _ = False"

definition byte_events :: "jstate \<Rightarrow> jstate \<Rightarrow> u8 \<Rightarrow> events" where
  "byte_events before after b =
     (if b = b_lbrace \<and> ev_value_started before b then EV_OBJ_OPEN
      else if b = b_lbrack \<and> ev_value_started before b then EV_ARR_OPEN
      else if b = b_quote then
        (case before of
           Obj_first \<Rightarrow> EV_KEY_START
         | Obj_comma \<Rightarrow> EV_KEY_START
         | Str esc uni key \<Rightarrow>
             if \<not> esc \<and> uni = 0 then (if key then EV_KEY_END else EV_SCALAR_END) else 0
         | _ \<Rightarrow> 0)
      else if b = b_comma then (if after = Obj_comma then EV_OBJ_COMMA else 0)
      else if b = b_rbrace then
        (if before = Obj_first \<or> before = Obj_next \<or> is_num_state before
         then (if is_num_state before then EV_SCALAR_END else 0) OR EV_OBJ_CLOSE else 0)
      else if b = b_rbrack then
        (if before = Arr_first \<or> before = Arr_next \<or> is_num_state before
         then (if is_num_state before then EV_SCALAR_END else 0) OR EV_ARR_CLOSE else 0)
      else 0)"

definition step_events :: "jstate \<Rightarrow> jstate \<Rightarrow> u8 \<Rightarrow> events" where
  "step_events before after b =
     (if ev_value_started before b then EV_VALUE_START else 0)
     OR byte_events before after b
     OR (if is_lit_state before \<and> \<not> is_lit_state after then EV_SCALAR_END else 0)
     OR (if is_num_state before \<and> \<not> is_num_state after \<and> b \<noteq> b_rbrace \<and> b \<noteq> b_rbrack
         then EV_SCALAR_END else 0)"

text \<open>
  \<open>step_ev\<close>, around a \<open>step_inner\<close>.  The nested step after a number is a whole \<open>step\<close>
  of its own, with its own whitespace count, and it is never in a number again: the recursion
  is two deep.
\<close>

definition ev_around ::
    "(json_machine \<Rightarrow> json_machine \<times> bool) \<Rightarrow> u8 \<Rightarrow> json_machine \<Rightarrow> json_machine \<times> events option" where
  "ev_around inner b m =
     (if is_ws b \<and> max_whitespace_run \<le> ws_run m then (m, None)
      else
        let (m1, ok) = inner m
        in if \<not> ok then (m1, None)
           else (m1\<lparr>ws_run := (if is_ws b then ws_run m1 + 1 else 0)\<rparr>,
                 Some (step_events (jstate m) (jstate m1) b)))"

definition step_again :: "json_mode \<Rightarrow> u8 \<Rightarrow> json_machine \<Rightarrow> json_machine \<times> bool" where
  "step_again mode b m =
     (let (m1, ev) = ev_around (step_core (\<lambda>m'. (m', False)) mode b) b m in (m1, ev \<noteq> None))"

definition step_inner :: "json_mode \<Rightarrow> u8 \<Rightarrow> json_machine \<Rightarrow> json_machine \<times> bool" where
  "step_inner mode b m = step_core (step_again mode b) mode b m"

definition step_ev :: "json_mode \<Rightarrow> u8 \<Rightarrow> json_machine \<Rightarrow> json_machine \<times> events option" where
  "step_ev mode b m = ev_around (step_inner mode b) b m"

definition step :: "json_mode \<Rightarrow> u8 \<Rightarrow> json_machine \<Rightarrow> json_machine \<times> bool" where
  "step mode b m = (let (m1, ev) = step_ev mode b m in (m1, ev \<noteq> None))"

text \<open>A run of bytes; \<open>None\<close> when one of them is refused.\<close>

fun feed :: "json_mode \<Rightarrow> json_machine \<Rightarrow> u8 list \<Rightarrow> json_machine option" where
  "feed mode m [] = Some m"
| "feed mode m (b # bs) = (let (m1, ok) = step mode b m in if ok then feed mode m1 bs else None)"

lemma feed_append: "feed mode m (xs @ ys) = (case feed mode m xs of None \<Rightarrow> None | Some m1 \<Rightarrow> feed mode m1 ys)"
  by (induction xs arbitrary: m) (auto simp: Let_def split: prod.splits)

section \<open>The recursion of the source\<close>

text \<open>The two nested levels written out above are the source's own recursion.\<close>

lemma after_value_not_num: "\<not> is_num_state (after_value m)"
  by (simp add: after_value_def)

lemma step_core_cong:
  assumes "is_num_state (jstate m) \<Longrightarrow> again (m\<lparr>jstate := after_value m\<rparr>) = again' (m\<lparr>jstate := after_value m\<rparr>)"
  shows "step_core again mode b m = step_core again' mode b m"
  using assms by (auto simp: step_core_def split: jstate.splits option.splits)

lemma step_again_step: "\<not> is_num_state (jstate m) \<Longrightarrow> step_again mode b m = step mode b m"
proof -
  assume "\<not> is_num_state (jstate m)"
  then have "step_inner mode b m = step_core (\<lambda>m'. (m', False)) mode b m"
    unfolding step_inner_def by (intro step_core_cong) simp
  then show ?thesis by (simp add: step_again_def step_def step_ev_def ev_around_def)
qed

theorem step_inner_rec: "step_inner mode b m = step_core (step mode b) mode b m"
  unfolding step_inner_def
  by (rule step_core_cong) (simp add: step_again_step after_value_not_num)

lemma step_nonws:
  "\<not> is_ws b \<Longrightarrow> step_inner mode b m = (m1, True) \<Longrightarrow> step mode b m = (m1\<lparr>ws_run := 0\<rparr>, True)"
  by (simp add: step_def step_ev_def ev_around_def)

lemma step_inner_ok:
  assumes "step mode b m = (m', True)"
  obtains m1 where "step_inner mode b m = (m1, True)" "m' = m1\<lparr>ws_run := (if is_ws b then ws_run m1 + 1 else 0)\<rparr>"
    "is_ws b \<longrightarrow> ws_run m < max_whitespace_run"
  using assms by (auto simp: step_def step_ev_def ev_around_def Let_def split: if_splits prod.splits)

end
