(* ===== verification/Json_Grammar.thy ===== *)
theory Json_Grammar
  imports Json_Machine
begin

text \<open>
  JSON documents over bytes, as RFC 8259 gives them: the specification the automaton of
  \<open>Json_Machine\<close> is held against.  It knows nothing of states, stacks or prefixes.
\<close>

definition all_ws :: "u8 list \<Rightarrow> bool" where
  "all_ws w \<longleftrightarrow> list_all is_ws w"

lemma all_ws_simps [simp]:
  "all_ws []" "all_ws [b] \<longleftrightarrow> is_ws b" "all_ws (v @ w) \<longleftrightarrow> all_ws v \<and> all_ws w"
  by (auto simp: all_ws_def)

section \<open>Strings and numbers\<close>

inductive jchars :: "u8 list \<Rightarrow> bool" where
  jchars_Nil: "jchars []"
| jchars_plain: "jchars c \<Longrightarrow> 0x20 \<le> b \<Longrightarrow> b \<noteq> b_quote \<Longrightarrow> b \<noteq> b_bslash \<Longrightarrow> jchars (c @ [b])"
| jchars_esc: "jchars c \<Longrightarrow> is_escape b \<Longrightarrow> jchars (c @ [b_bslash, b])"
| jchars_uni: "jchars c \<Longrightarrow> length hs = 4 \<Longrightarrow> list_all is_hex hs \<Longrightarrow> jchars (c @ [b_bslash, b_u] @ hs)"

definition jstring :: "u8 list \<Rightarrow> bool" where
  "jstring s \<longleftrightarrow> (\<exists>c. jchars c \<and> s = [b_quote] @ c @ [b_quote])"

definition digits1 :: "u8 list \<Rightarrow> bool" where
  "digits1 ds \<longleftrightarrow> ds \<noteq> [] \<and> list_all is_digit ds"

definition jint :: "u8 list \<Rightarrow> bool" where
  "jint i \<longleftrightarrow> i = [b_0] \<or> (\<exists>d ds. i = d # ds \<and> is_digit19 d \<and> list_all is_digit ds)"

definition jfrac :: "u8 list \<Rightarrow> bool" where
  "jfrac f \<longleftrightarrow> f = [] \<or> (\<exists>ds. f = b_dot # ds \<and> digits1 ds)"

definition jexp :: "u8 list \<Rightarrow> bool" where
  "jexp x \<longleftrightarrow> x = [] \<or> (\<exists>e sg ds. x = [e] @ sg @ ds \<and> e \<in> {b_e, b_E} \<and> sg \<in> {[], [b_plus], [b_minus]} \<and> digits1 ds)"

definition jnumber :: "u8 list \<Rightarrow> bool" where
  "jnumber n \<longleftrightarrow> (\<exists>sg i f x. n = sg @ i @ f @ x \<and> sg \<in> {[], [b_minus]} \<and> jint i \<and> jfrac f \<and> jexp x)"

section \<open>Values\<close>

inductive jvalue :: "u8 list \<Rightarrow> bool" and jelements :: "u8 list \<Rightarrow> bool" and jmembers :: "u8 list \<Rightarrow> bool" where
  v_string: "jstring s \<Longrightarrow> jvalue s"
| v_number: "jnumber n \<Longrightarrow> jvalue n"
| v_literal: "l \<in> set literals \<Longrightarrow> jvalue l"
| v_empty_array: "all_ws w \<Longrightarrow> jvalue ([b_lbrack] @ w @ [b_rbrack])"
| v_array: "jelements es \<Longrightarrow> jvalue ([b_lbrack] @ es @ [b_rbrack])"
| v_empty_object: "all_ws w \<Longrightarrow> jvalue ([b_lbrace] @ w @ [b_rbrace])"
| v_object: "jmembers ms \<Longrightarrow> jvalue ([b_lbrace] @ ms @ [b_rbrace])"
| e_one: "all_ws w1 \<Longrightarrow> jvalue v \<Longrightarrow> all_ws w2 \<Longrightarrow> jelements (w1 @ v @ w2)"
| e_more: "jelements es \<Longrightarrow> all_ws w1 \<Longrightarrow> jvalue v \<Longrightarrow> all_ws w2 \<Longrightarrow> jelements (es @ [b_comma] @ w1 @ v @ w2)"
| m_one: "all_ws w1 \<Longrightarrow> jstring s \<Longrightarrow> all_ws w2 \<Longrightarrow> all_ws w3 \<Longrightarrow> jvalue v \<Longrightarrow> all_ws w4 \<Longrightarrow>
    jmembers (w1 @ s @ w2 @ [b_colon] @ w3 @ v @ w4)"
| m_more: "jmembers ms \<Longrightarrow> all_ws w1 \<Longrightarrow> jstring s \<Longrightarrow> all_ws w2 \<Longrightarrow> all_ws w3 \<Longrightarrow> jvalue v \<Longrightarrow> all_ws w4 \<Longrightarrow>
    jmembers (ms @ [b_comma] @ w1 @ s @ w2 @ [b_colon] @ w3 @ v @ w4)"

text \<open>A document: one value, and nothing but whitespace around it; in object mode an object.\<close>

definition json_text :: "json_mode \<Rightarrow> u8 list \<Rightarrow> bool" where
  "json_text mode p \<longleftrightarrow> (\<exists>w1 v w2. p = w1 @ v @ w2 \<and> all_ws w1 \<and> jvalue v \<and> all_ws w2
     \<and> (mode = Object_mode \<longrightarrow> hd v = b_lbrace))"

end
