(* ===== verification/Json_Soundness.thy ===== *)
theory Json_Soundness
  imports Json_Grammar
begin

text \<open>
  What the automaton accepts is JSON: every state names the prefixes that lead to it, and a
  step keeps that invariant.  The open containers are a list of booleans, innermost first,
  read off the bitstack.
\<close>

section \<open>The bitstack as a list\<close>

primrec stk_bits :: "128 word \<Rightarrow> nat \<Rightarrow> bool list" where
  "stk_bits w 0 = []"
| "stk_bits w (Suc d) = bit w d # stk_bits w d"

definition stk_of :: "json_machine \<Rightarrow> bool list" where
  "stk_of m = stk_bits (stack m) (depth m)"

lemma stk_bits_cong: "(\<And>i. i < d \<Longrightarrow> bit w i = bit w' i) \<Longrightarrow> stk_bits w d = stk_bits w' d"
  by (induction d) auto

lemma stk_of_simps [simp]:
  "stk_of (m\<lparr>jstate := s\<rparr>) = stk_of m" "stk_of (m\<lparr>ws_run := n\<rparr>) = stk_of m"
  "length (stk_of m) = depth m" "stk_of m = [] \<longleftrightarrow> depth m = 0"
proof -
  show "stk_of (m\<lparr>jstate := s\<rparr>) = stk_of m" "stk_of (m\<lparr>ws_run := n\<rparr>) = stk_of m" by (simp_all add: stk_of_def)
  have "length (stk_bits w d) = d" for w d by (induction d) auto
  then show "length (stk_of m) = depth m" by (simp add: stk_of_def)
  then show "stk_of m = [] \<longleftrightarrow> depth m = 0" by (metis length_0_conv)
qed

lemma jpush_Some:
  assumes "jpush m a = Some m'"
  shows "stk_of m' = a # stk_of m" "depth m < max_depth" "depth m' = depth m + 1" "ws_run m' = ws_run m"
proof -
  have d: "depth m < 64" using assms by (simp add: jpush_def max_depth_def split: if_splits)
  have m': "m' = m\<lparr>stack := (if a then stack m OR push_bit (depth m) 1 else stack m AND NOT (push_bit (depth m) 1)),
      depth := depth m + 1\<rparr>"
    using assms by (auto simp: jpush_def Let_def split: if_splits)
  have bit1: "bit (2 ^ depth m :: 128 word) i \<longleftrightarrow> i = depth m" for i
    using d by (auto simp: bit_simps)
  have "bit (stack m') (depth m) = a"
    using d by (simp add: m' bit_or_iff bit_and_iff bit_not_iff bit1)
  moreover have "stk_bits (stack m') (depth m) = stk_bits (stack m) (depth m)"
    using d by (intro stk_bits_cong) (auto simp: m' bit_or_iff bit_and_iff bit_not_iff bit1)
  ultimately show "stk_of m' = a # stk_of m" by (simp add: stk_of_def m')
  show "depth m < max_depth" using d by (simp add: max_depth_def)
  show "depth m' = depth m + 1" "ws_run m' = ws_run m" by (simp_all add: m')
qed

definition after :: "bool list \<Rightarrow> jstate" where
  "after stk = (case stk of [] \<Rightarrow> Done | True # _ \<Rightarrow> Arr_next | False # _ \<Rightarrow> Obj_next)"

lemma after_value_stk: "after_value m = after (stk_of m)"
proof (cases "depth m")
  case 0
  then show ?thesis by (simp add: after_value_def after_def stk_of_def)
next
  case (Suc d)
  have "drop_bit d (stack m) AND 1 = 1 \<longleftrightarrow> bit (stack m) d"
    by (simp add: and_one_eq bit_iff_odd_drop_bit odd_iff_mod_2_eq_one)
  then show ?thesis using Suc by (simp add: after_value_def after_def stk_of_def)
qed

lemma jpop_Some:
  assumes "stk_of m = a # stk"
  obtains m' where "jpop m = Some (m', after stk)" and "stk_of m' = stk" and "ws_run m' = ws_run m"
proof -
  from assms have "depth m \<noteq> 0" by (metis list.distinct(1) stk_of_simps(4))
  then obtain d where d: "depth m = Suc d" by (cases "depth m") auto
  let ?m = "m\<lparr>depth := d\<rparr>"
  have "stk_of ?m = stk" using assms by (simp add: stk_of_def d)
  moreover have "jpop m = Some (?m, after_value ?m)" by (simp add: jpop_def d Let_def)
  ultimately show ?thesis using that [of ?m] by (simp add: after_value_stk)
qed

lemma close_with_ok:
  assumes "stk_of m = a # stk"
  obtains m' where "close_with m = (m', True)" "stk_of m' = stk" "jstate m' = after stk" "ws_run m' = ws_run m"
proof -
  obtain m' where "jpop m = Some (m', after stk)" "stk_of m' = stk" "ws_run m' = ws_run m"
    using jpop_Some [OF assms] by blast
  then show ?thesis using that [of "m'\<lparr>jstate := after stk\<rparr>"] by (simp add: close_with_def)
qed

section \<open>Prefixes\<close>

definition opt_comma :: "(u8 list \<Rightarrow> bool) \<Rightarrow> u8 list \<Rightarrow> bool" where
  "opt_comma P x \<longleftrightarrow> x = [] \<or> (\<exists>y. P y \<and> x = y @ [b_comma])"

text \<open>
  \<open>ctx stk p\<close>: after \<open>p\<close> a value is due inside the open containers \<open>stk\<close>; \<open>kctx stk p\<close>:
  inside them an object has just opened or passed a comma, and a key is due.
\<close>

inductive ctx :: "bool list \<Rightarrow> u8 list \<Rightarrow> bool" where
  ctx_top: "all_ws w \<Longrightarrow> ctx [] w"
| ctx_arr: "ctx stk q \<Longrightarrow> opt_comma jelements x \<Longrightarrow> all_ws w \<Longrightarrow> ctx (True # stk) (q @ [b_lbrack] @ x @ w)"
| ctx_obj: "ctx stk q \<Longrightarrow> opt_comma jmembers x \<Longrightarrow> all_ws w1 \<Longrightarrow> jstring s \<Longrightarrow> all_ws w2 \<Longrightarrow> all_ws w3 \<Longrightarrow>
    ctx (False # stk) (q @ [b_lbrace] @ x @ w1 @ s @ w2 @ [b_colon] @ w3)"

inductive_cases ctx_NilE: "ctx [] p"
inductive_cases ctx_arrE: "ctx (True # stk) p"
inductive_cases ctx_objE: "ctx (False # stk) p"

definition kctx :: "bool list \<Rightarrow> u8 list \<Rightarrow> bool" where
  "kctx stk p \<longleftrightarrow> (\<exists>q x w. ctx stk q \<and> opt_comma jmembers x \<and> all_ws w \<and> p = q @ [b_lbrace] @ x @ w)"

definition strpre :: "bool \<Rightarrow> nat \<Rightarrow> u8 list \<Rightarrow> bool" where
  "strpre esc uni c \<longleftrightarrow>
     (if 0 < uni then uni \<le> 4 \<and> (\<exists>c' hs. jchars c' \<and> list_all is_hex hs \<and> length hs + uni = 4 \<and> c = c' @ [b_bslash, b_u] @ hs)
      else if esc then \<exists>c'. jchars c' \<and> c = c' @ [b_bslash]
      else jchars c)"

fun numpre :: "num_state \<Rightarrow> u8 list \<Rightarrow> bool" where
  "numpre Minus d = (d = [b_minus])"
| "numpre Zero d = (\<exists>sg. sg \<in> {[], [b_minus]} \<and> d = sg @ [b_0])"
| "numpre Int_part d = (\<exists>sg i is. sg \<in> {[], [b_minus]} \<and> is_digit19 i \<and> list_all is_digit is \<and> d = sg @ i # is)"
| "numpre Dot d = (\<exists>sg i. sg \<in> {[], [b_minus]} \<and> jint i \<and> d = sg @ i @ [b_dot])"
| "numpre Frac d = (\<exists>sg i ds. sg \<in> {[], [b_minus]} \<and> jint i \<and> digits1 ds \<and> d = sg @ i @ b_dot # ds)"
| "numpre Exp d = (\<exists>sg i f e. sg \<in> {[], [b_minus]} \<and> jint i \<and> jfrac f \<and> e \<in> {b_e, b_E} \<and> d = sg @ i @ f @ [e])"
| "numpre Exp_sign d = (\<exists>sg i f e s. sg \<in> {[], [b_minus]} \<and> jint i \<and> jfrac f \<and> e \<in> {b_e, b_E} \<and> s \<in> {b_plus, b_minus}
     \<and> d = sg @ i @ f @ [e, s])"
| "numpre Exp_digits d = (\<exists>sg i f e es ds. sg \<in> {[], [b_minus]} \<and> jint i \<and> jfrac f \<and> e \<in> {b_e, b_E}
     \<and> es \<in> {[], [b_plus], [b_minus]} \<and> digits1 ds \<and> d = sg @ i @ f @ [e] @ es @ ds)"

text \<open>A value at the top is an object in object mode; so is the outermost open container.\<close>

definition top_obj :: "json_mode \<Rightarrow> bool list \<Rightarrow> bool" where
  "top_obj mode stk \<longleftrightarrow> (mode = Object_mode \<longrightarrow> stk \<noteq> [] \<longrightarrow> \<not> last stk)"

definition val_ok :: "json_mode \<Rightarrow> bool list \<Rightarrow> u8 list \<Rightarrow> bool" where
  "val_ok mode stk v \<longleftrightarrow> jvalue v \<and> (mode = Object_mode \<longrightarrow> stk = [] \<longrightarrow> hd v = b_lbrace)"

fun pre :: "json_mode \<Rightarrow> bool list \<Rightarrow> jstate \<Rightarrow> u8 list \<Rightarrow> bool" where
  "pre mode stk Value p = ctx stk p"
| "pre mode stk Obj_first p = (\<exists>stk' q w. stk = False # stk' \<and> ctx stk' q \<and> all_ws w \<and> p = q @ [b_lbrace] @ w)"
| "pre mode stk Arr_first p = (\<exists>stk' q. stk = True # stk' \<and> ctx stk' q \<and> p = q @ [b_lbrack])"
| "pre mode stk Obj_comma p = (\<exists>stk'. stk = False # stk' \<and> kctx stk' p)"
| "pre mode stk (Str esc uni key) p = (\<exists>q c. strpre esc uni c \<and> p = q @ [b_quote] @ c
     \<and> (if key then \<exists>stk'. stk = False # stk' \<and> kctx stk' q
        else ctx stk q \<and> (mode = Object_mode \<longrightarrow> stk \<noteq> [])))"
| "pre mode stk Colon p = (\<exists>stk' q s w. stk = False # stk' \<and> kctx stk' q \<and> jstring s \<and> all_ws w \<and> p = q @ s @ w)"
| "pre mode stk (Num n) p = (\<exists>q d. ctx stk q \<and> (mode = Object_mode \<longrightarrow> stk \<noteq> []) \<and> numpre n d \<and> p = q @ d)"
| "pre mode stk (Lit l pos) p = (\<exists>q. ctx stk q \<and> (mode = Object_mode \<longrightarrow> stk \<noteq> []) \<and> l < 3 \<and> 0 < pos
     \<and> pos < length (literals ! l) \<and> p = q @ take pos (literals ! l))"
| "pre mode stk st p = (st = after stk \<and> (\<exists>q v w. ctx stk q \<and> val_ok mode stk v \<and> all_ws w \<and> p = q @ v @ w))"

section \<open>Ending a value, closing a container\<close>

lemma pre_after_iff:
  "pre mode stk (after stk) p \<longleftrightarrow> (\<exists>q v w. ctx stk q \<and> val_ok mode stk v \<and> all_ws w \<and> p = q @ v @ w)"
proof (cases stk)
  case (Cons a s)
  then show ?thesis by (cases a) (simp_all add: after_def)
qed (simp add: after_def)

lemma pre_after:
  "ctx stk q \<Longrightarrow> val_ok mode stk v \<Longrightarrow> all_ws w \<Longrightarrow> pre mode stk (after stk) (q @ v @ w)"
  unfolding pre_after_iff by blast

lemma jnumberI: "sg \<in> {[], [b_minus]} \<Longrightarrow> jint i \<Longrightarrow> jfrac f \<Longrightarrow> jexp x \<Longrightarrow> jnumber (sg @ i @ f @ x)"
  unfolding jnumber_def by (intro exI [of _ sg] exI [of _ i] exI [of _ f] exI [of _ x] conjI refl)

lemma jexpI:
  "e \<in> {b_e, b_E} \<Longrightarrow> es \<in> {[], [b_plus], [b_minus]} \<Longrightarrow> digits1 ds \<Longrightarrow> jexp ([e] @ es @ ds)"
  unfolding jexp_def by (intro disjI2 exI [of _ e] exI [of _ es] exI [of _ ds] conjI refl)

lemma no_frac_exp: "jfrac []" "jexp []"
  by (simp_all add: jfrac_def jexp_def)

lemma numpre_complete:
  assumes "numpre n d" and "num_complete n"
  shows "jnumber d"
proof (cases n)
  case Zero
  obtain sg where sg: "sg \<in> {[], [b_minus]}" "d = sg @ [b_0]"
    using assms(1) unfolding Zero numpre.simps by (elim exE conjE) (rule that)
  have "jint [b_0]" by (simp add: jint_def)
  from jnumberI [OF sg(1) this no_frac_exp] show ?thesis by (simp add: sg(2))
next
  case Int_part
  obtain sg i "is" where sg: "sg \<in> {[], [b_minus]}" "is_digit19 i" "list_all is_digit is" "d = sg @ i # is"
    using assms(1) unfolding Int_part numpre.simps by (elim exE conjE) (rule that)
  have "jint (i # is)" using sg by (simp add: jint_def)
  from jnumberI [OF sg(1) this no_frac_exp] show ?thesis by (simp add: sg(4))
next
  case Frac
  obtain sg i ds where sg: "sg \<in> {[], [b_minus]}" "jint i" "digits1 ds" "d = sg @ i @ b_dot # ds"
    using assms(1) unfolding Frac numpre.simps by (elim exE conjE) (rule that)
  have "jfrac (b_dot # ds)" using sg(3) by (simp add: jfrac_def)
  from jnumberI [OF sg(1,2) this no_frac_exp(2)] show ?thesis by (simp add: sg(4))
next
  case Exp_digits
  obtain sg i f e es ds where sg: "sg \<in> {[], [b_minus]}" "jint i" "jfrac f" "e \<in> {b_e, b_E}"
      "es \<in> {[], [b_plus], [b_minus]}" "digits1 ds" "d = sg @ i @ f @ [e] @ es @ ds"
    using assms(1) unfolding Exp_digits numpre.simps by (elim exE conjE) (rule that)
  from jnumberI [OF sg(1-3) jexpI [OF sg(4-6)]] show ?thesis by (simp only: sg(7))
qed (use assms(2) in auto)

lemma pre_num_end:
  assumes "pre mode stk (Num n) p" and "num_complete n"
  shows "pre mode stk (after stk) p"
proof -
  obtain q d where d: "ctx stk q" "mode = Object_mode \<longrightarrow> stk \<noteq> []" "numpre n d" "p = q @ d" using assms(1) by auto
  have "val_ok mode stk d" using d(2) numpre_complete [OF d(3) assms(2)] by (simp add: val_ok_def v_number)
  from pre_after [OF d(1) this, of "[]"] show ?thesis by (simp add: d(4))
qed

lemma pre_close_object:
  assumes "pre mode (False # stk) st p" and "st = Obj_first \<or> st = Obj_next"
  shows "pre mode stk (after stk) (p @ [b_rbrace])"
  using assms(2)
proof
  assume "st = Obj_first"
  then obtain q w where q: "ctx stk q" "all_ws w" "p = q @ [b_lbrace] @ w" using assms(1) by auto
  have "val_ok mode stk ([b_lbrace] @ w @ [b_rbrace])" using v_empty_object [OF q(2)] by (simp add: val_ok_def)
  from pre_after [OF q(1) this, of "[]"] show ?thesis by (simp add: q(3))
next
  assume "st = Obj_next"
  then obtain r v w where r: "ctx (False # stk) r" "val_ok mode (False # stk) v" "all_ws w" "p = r @ v @ w"
    using assms(1) by auto
  from r(1) obtain q x w1 s w2 w3 where q: "r = q @ b_lbrace # x @ w1 @ s @ w2 @ b_colon # w3" "ctx stk q"
      "opt_comma jmembers x" "all_ws w1" "jstring s" "all_ws w2" "all_ws w3"
    by (rule ctx_objE)
  have v: "jvalue v" using r(2) by (simp add: val_ok_def)
  have "jmembers (x @ w1 @ s @ w2 @ [b_colon] @ w3 @ v @ w)"
    using q(3) m_one [OF q(4-7) v r(3)] m_more [OF _ q(4-7) v r(3)] by (auto simp: opt_comma_def)
  from v_object [OF this] have "val_ok mode stk ([b_lbrace] @ (x @ w1 @ s @ w2 @ [b_colon] @ w3 @ v @ w) @ [b_rbrace])"
    by (simp add: val_ok_def)
  from pre_after [OF q(2) this, of "[]"] show ?thesis by (simp add: r(4) q(1))
qed

lemma pre_close_array:
  assumes "pre mode (True # stk) st p" and "st = Arr_first \<or> st = Arr_next" and top: "top_obj mode (True # stk)"
  shows "pre mode stk (after stk) (p @ [b_rbrack])"
proof -
  have nt: "mode = Object_mode \<longrightarrow> stk \<noteq> []" using top by (auto simp: top_obj_def)
  from assms(2) show ?thesis
  proof
    assume "st = Arr_first"
    then obtain q where q: "ctx stk q" "p = q @ [b_lbrack]" using assms(1) by auto
    have "val_ok mode stk ([b_lbrack] @ [] @ [b_rbrack])" using v_empty_array [of "[]"] nt by (simp add: val_ok_def)
    from pre_after [OF q(1) this, of "[]"] show ?thesis by (simp add: q(2))
  next
    assume "st = Arr_next"
    then obtain r v w where r: "ctx (True # stk) r" "val_ok mode (True # stk) v" "all_ws w" "p = r @ v @ w"
      using assms(1) by auto
    from r(1) obtain q x w1 where q: "r = q @ b_lbrack # x @ w1" "ctx stk q" "opt_comma jelements x" "all_ws w1"
      by (rule ctx_arrE)
    have v: "jvalue v" using r(2) by (simp add: val_ok_def)
    have "jelements (x @ w1 @ v @ w)"
      using q(3) e_one [OF q(4) v r(3)] e_more [OF _ q(4) v r(3)] by (auto simp: opt_comma_def)
    from v_array [OF this] have "val_ok mode stk ([b_lbrack] @ (x @ w1 @ v @ w) @ [b_rbrack])"
      using nt by (simp add: val_ok_def)
    from pre_after [OF q(2) this, of "[]"] show ?thesis by (simp add: r(4) q(1))
  qed
qed

section \<open>One byte\<close>

lemma ctx_ws: "ctx stk p \<Longrightarrow> is_ws b \<Longrightarrow> ctx stk (p @ [b])"
proof (induction rule: ctx.cases)
  case (ctx_top w)
  then show ?case by (simp add: ctx.ctx_top)
next
  case (ctx_arr stk q x w)
  then show ?case using ctx.ctx_arr [of stk q x "w @ [b]"] by simp
next
  case (ctx_obj stk q x w1 s w2 w3)
  then show ?case using ctx.ctx_obj [of stk q x w1 s w2 "w3 @ [b]"] by simp
qed

lemma kctx_ws: "kctx stk p \<Longrightarrow> is_ws b \<Longrightarrow> kctx stk (p @ [b])"
proof -
  assume "kctx stk p" "is_ws b"
  then obtain q x w where "ctx stk q" "opt_comma jmembers x" "all_ws w" "p = q @ [b_lbrace] @ x @ w"
    unfolding kctx_def by blast
  then show ?thesis
    using \<open>is_ws b\<close> unfolding kctx_def by (intro exI [of _ q] exI [of _ x] exI [of _ "w @ [b]"]) simp
qed

lemma top_obj_push: "top_obj mode stk \<Longrightarrow> (a \<longrightarrow> mode = Object_mode \<longrightarrow> stk \<noteq> []) \<Longrightarrow> top_obj mode (a # stk)"
  by (auto simp: top_obj_def)

lemma top_obj_tl: "top_obj mode (a # stk) \<Longrightarrow> top_obj mode stk"
  by (auto simp: top_obj_def)

lemma start_value_pre:
  assumes c: "ctx (stk_of m) p" and st: "jstate m = Value" and top: "top_obj mode (stk_of m)"
    and run: "start_value m b (object_only mode) = (m', True)"
  shows "pre mode (stk_of m') (jstate m') (p @ [b]) \<and> top_obj mode (stk_of m')"
proof -
  have run2: "\<not> (object_only mode \<and> depth m = 0 \<and> b \<noteq> b_lbrace \<and> \<not> is_ws b)"
  proof
    assume a: "object_only mode \<and> depth m = 0 \<and> b \<noteq> b_lbrace \<and> \<not> is_ws b"
    show False using run unfolding start_value_def if_P [OF a] by simp
  qed
  then have nt: "mode = Object_mode \<longrightarrow> b \<noteq> b_lbrace \<longrightarrow> \<not> is_ws b \<longrightarrow> stk_of m \<noteq> []"
    by (auto simp: object_only_def)
  note sv = run [unfolded start_value_def if_not_P [OF run2]]
  consider (ws) "is_ws b" | (brace) "\<not> is_ws b" "b = b_lbrace" | (brack) "\<not> is_ws b" "b = b_lbrack"
    | (other) "\<not> is_ws b" "b \<noteq> b_lbrace" "b \<noteq> b_lbrack" by blast
  then show ?thesis
  proof cases
    case ws
    then show ?thesis using sv ctx_ws [OF c] st top by simp
  next
    case brace
    then obtain m1 where m1: "jpush m False = Some m1" "m' = m1\<lparr>jstate := Obj_first\<rparr>"
      using sv by (auto split: option.splits)
    have stk: "stk_of m' = False # stk_of m" using jpush_Some(1) [OF m1(1)] by (simp add: m1(2))
    have "\<exists>stk' q w. False # stk_of m = False # stk' \<and> ctx stk' q \<and> all_ws w \<and> p @ [b] = q @ [b_lbrace] @ w"
      by (rule exI [of _ "stk_of m"], rule exI [of _ p], rule exI [of _ "[]"]) (simp add: c brace)
    then show ?thesis
      using top top_obj_push [of mode "stk_of m" False] unfolding stk by (simp add: m1(2))
  next
    case brack
    then obtain m1 where m1: "jpush m True = Some m1" "m' = m1\<lparr>jstate := Arr_first\<rparr>"
      using sv by (auto split: option.splits)
    have "stk_of m' = True # stk_of m" using jpush_Some(1) [OF m1(1)] by (simp add: m1(2))
    moreover have "mode = Object_mode \<longrightarrow> stk_of m \<noteq> []" using nt brack by auto
    ultimately show ?thesis
      using brack c top top_obj_push [of mode "stk_of m" True] by (simp add: m1(2))
  next
    case other
    then have nt: "mode = Object_mode \<longrightarrow> stk_of m \<noteq> []" using nt by blast
    have stk: "stk_of m' = stk_of m" using sv other by (auto split: if_splits)
    have str: "pre mode (stk_of m) (Str False 0 False) (p @ [b_quote])"
      unfolding pre.simps if_False using c nt jchars_Nil
      by (intro exI [of _ p] exI [of _ "[]"]) (simp add: strpre_def)
    have num: "pre mode (stk_of m) (Num n) (p @ [b])" if "numpre n [b]" for n
      unfolding pre.simps using c nt that by (intro exI [of _ p] exI [of _ "[b]"]) simp
    have lit: "pre mode (stk_of m) (Lit l 1) (p @ [b])" if "l < 3" "literals ! l = b # r" "r \<noteq> []" for l r
      unfolding pre.simps using c nt that by (intro exI [of _ p]) simp
    consider "b = b_quote" "jstate m' = Str False 0 False" | "b = b_minus" "jstate m' = Num Minus"
      | "b = b_0" "jstate m' = Num Zero" | "is_digit19 b" "jstate m' = Num Int_part"
      | "b = b_t" "jstate m' = Lit 0 1" | "b = b_f" "jstate m' = Lit 1 1" | "b = b_n" "jstate m' = Lit 2 1"
      using sv other by (auto split: if_splits)
    then have "pre mode (stk_of m) (jstate m') (p @ [b])"
    proof cases
      case 3
      then have "numpre Zero [b]" by simp
      then show ?thesis using num 3 by (simp del: pre.simps)
    next
      case 4
      then have "numpre Int_part [b]" by (auto intro: exI [of _ "[]"])
      then show ?thesis using num 4 by (simp del: pre.simps)
    qed (use str num [of Minus] lit [of 0 "map of_char ''rue''"] lit [of 1 "map of_char ''alse''"]
          lit [of 2 "map of_char ''ull''"] in \<open>simp_all add: literals_def del: pre.simps\<close>)
    then show ?thesis using top stk by simp
  qed
qed

lemma digits1_snoc: "is_digit b \<Longrightarrow> digits1 ds \<Longrightarrow> digits1 (ds @ [b])" "is_digit b \<Longrightarrow> digits1 [b]"
  by (auto simp: digits1_def)

lemma numpre_next:
  assumes "numpre n d" and "num_next n b = Some n2"
  shows "numpre n2 (d @ [b])"
proof (cases n)
  case Minus
  then show ?thesis using assms by (auto split: if_splits)
next
  case Zero
  obtain sg where sg: "sg \<in> {[], [b_minus]}" "d = sg @ [b_0]" using assms(1) unfolding Zero numpre.simps by (elim exE conjE) (rule that)
  have i: "jint [b_0]" "jfrac []" by (simp_all add: jint_def jfrac_def)
  consider "n2 = Dot" "b = b_dot" | "n2 = Exp" "b \<in> {b_e, b_E}" using assms(2) Zero by (auto split: if_splits)
  then show ?thesis
  proof cases
    case 1
    then show ?thesis using sg i(1) by (simp only: numpre.simps append_assoc) blast
  next
    case 2
    have "d @ [b] = sg @ [b_0] @ [] @ [b]" by (simp add: sg(2))
    then show ?thesis using 2 sg(1) i unfolding 2(1) numpre.simps by blast
  qed
next
  case Int_part
  obtain sg i "is" where sg: "sg \<in> {[], [b_minus]}" "is_digit19 i" "list_all is_digit is" "d = sg @ i # is"
    using assms(1) unfolding Int_part numpre.simps by (elim exE conjE) (rule that)
  have i: "jint (i # is)" "jfrac []" using sg by (auto simp: jint_def jfrac_def)
  consider "n2 = Int_part" "is_digit b" | "n2 = Dot" "b = b_dot" | "n2 = Exp" "b \<in> {b_e, b_E}"
    using assms(2) Int_part by (auto split: if_splits)
  then show ?thesis
  proof cases
    case 1
    have "d @ [b] = sg @ i # (is @ [b])" "list_all is_digit (is @ [b])" using sg 1 by simp_all
    then show ?thesis using sg(1,2) unfolding 1(1) numpre.simps by blast
  next
    case 2
    have "d @ [b] = sg @ (i # is) @ [b_dot]" by (simp add: sg(4) 2)
    then show ?thesis using sg(1) i unfolding 2(1) numpre.simps by blast
  next
    case 3
    have "d @ [b] = sg @ (i # is) @ [] @ [b]" by (simp add: sg(4))
    then show ?thesis using sg(1) i 3 unfolding 3(1) numpre.simps by blast
  qed
next
  case Dot
  obtain sg i where sg: "sg \<in> {[], [b_minus]}" "jint i" "d = sg @ i @ [b_dot]" using assms(1) unfolding Dot numpre.simps by (elim exE conjE) (rule that)
  have "n2 = Frac" "digits1 [b]" "d @ [b] = sg @ i @ b_dot # [b]"
    using assms(2) Dot sg(3) digits1_snoc(2) by (auto split: if_splits)
  then show ?thesis using sg unfolding \<open>n2 = Frac\<close> numpre.simps by blast
next
  case Frac
  obtain sg i ds where sg: "sg \<in> {[], [b_minus]}" "jint i" "digits1 ds" "d = sg @ i @ b_dot # ds"
    using assms(1) unfolding Frac numpre.simps by (elim exE conjE) (rule that)
  consider "n2 = Frac" "is_digit b" | "n2 = Exp" "b \<in> {b_e, b_E}" using assms(2) Frac by (auto split: if_splits)
  then show ?thesis
  proof cases
    case 1
    have "d @ [b] = sg @ i @ b_dot # (ds @ [b])" "digits1 (ds @ [b])" using sg digits1_snoc(1) 1 by simp_all
    then show ?thesis using sg unfolding 1(1) numpre.simps by blast
  next
    case 2
    have "d @ [b] = sg @ i @ (b_dot # ds) @ [b]" "jfrac (b_dot # ds)" using sg by (auto simp: jfrac_def)
    then show ?thesis using sg 2 unfolding 2(1) numpre.simps by blast
  qed
next
  case Exp
  obtain sg i f e where sg: "sg \<in> {[], [b_minus]}" "jint i" "jfrac f" "e \<in> {b_e, b_E}" "d = sg @ i @ f @ [e]"
    using assms(1) unfolding Exp numpre.simps by (elim exE conjE) (rule that)
  consider "n2 = Exp_sign" "b \<in> {b_plus, b_minus}" | "n2 = Exp_digits" "is_digit b" using assms(2) Exp by (auto split: if_splits)
  then show ?thesis
  proof cases
    case 1
    have "d @ [b] = sg @ i @ f @ [e, b]" by (simp add: sg)
    then show ?thesis using sg 1 unfolding 1(1) numpre.simps by blast
  next
    case 2
    have "d @ [b] = sg @ i @ f @ [e] @ [] @ [b]" "digits1 [b]" using digits1_snoc(2) 2 by (simp_all add: sg)
    then show ?thesis using sg unfolding 2(1) numpre.simps by blast
  qed
next
  case Exp_sign
  obtain sg i f e s where sg: "sg \<in> {[], [b_minus]}" "jint i" "jfrac f" "e \<in> {b_e, b_E}" "s \<in> {b_plus, b_minus}"
      "d = sg @ i @ f @ [e, s]"
    using assms(1) unfolding Exp_sign numpre.simps by (elim exE conjE) (rule that)
  have n: "n2 = Exp_digits" "digits1 [b]" using assms(2) Exp_sign digits1_snoc(2) by (auto split: if_splits)
  have "d @ [b] = sg @ i @ f @ [e] @ [s] @ [b]" "[s] \<in> {[], [b_plus], [b_minus]}" using sg by auto
  then show ?thesis using sg(1-4) n(2) unfolding n(1) numpre.simps
    by (intro exI [of _ sg] exI [of _ i] exI [of _ f] exI [of _ e] exI [of _ "[s]"] exI [of _ "[b]"] conjI)
next
  case Exp_digits
  obtain sg i f e es ds where sg: "sg \<in> {[], [b_minus]}" "jint i" "jfrac f" "e \<in> {b_e, b_E}"
      "es \<in> {[], [b_plus], [b_minus]}" "digits1 ds" "d = sg @ i @ f @ [e] @ es @ ds"
    using assms(1) unfolding Exp_digits numpre.simps by (elim exE conjE) (rule that)
  have n: "n2 = Exp_digits" "digits1 (ds @ [b])" using assms(2) Exp_digits digits1_snoc(1) sg(6) by (auto split: if_splits)
  have "d @ [b] = sg @ i @ f @ [e] @ es @ (ds @ [b])" using sg by simp
  then show ?thesis using sg(1-5) n(2) unfolding n(1) numpre.simps
    by (intro exI [of _ sg] exI [of _ i] exI [of _ f] exI [of _ e] exI [of _ es] exI [of _ "ds @ [b]"] conjI)
qed

definition good :: "json_mode \<Rightarrow> json_machine \<Rightarrow> u8 list \<Rightarrow> bool" where
  "good mode m p \<longleftrightarrow> pre mode (stk_of m) (jstate m) p \<and> top_obj mode (stk_of m)"

lemma good_ws_run [simp]: "good mode (m\<lparr>ws_run := n\<rparr>) p = good mode m p"
  by (simp add: good_def)

lemma good_state: "good mode (m\<lparr>jstate := st\<rparr>) p \<longleftrightarrow> pre mode (stk_of m) st p \<and> top_obj mode (stk_of m)"
  by (simp add: good_def)

lemma strpre_next:
  assumes "strpre esc uni c" and "str_step m esc uni key b = (m', True)"
  shows "(m' = m\<lparr>jstate := (if key then Colon else after_value m)\<rparr> \<and> b = b_quote \<and> jchars c)
    \<or> (\<exists>esc' uni'. m' = m\<lparr>jstate := Str esc' uni' key\<rparr> \<and> strpre esc' uni' (c @ [b]))
    \<or> (m' = m \<and> \<not> esc \<and> uni = 0 \<and> strpre False 0 (c @ [b]))"
proof -
  consider (uni) "0 < uni" | (esc) "uni = 0" "esc" | (plain) "uni = 0" "\<not> esc" by blast
  then show ?thesis
  proof cases
    case uni
    then obtain c' hs where c: "jchars c'" "list_all is_hex hs" "length hs + uni = 4" "c = c' @ [b_bslash, b_u] @ hs"
      using assms(1) by (auto simp: strpre_def)
    have b: "is_hex b" "m' = m\<lparr>jstate := Str False (uni - 1) key\<rparr>"
      using assms(2) uni by (auto simp: str_step_def split: if_splits)
    have hs: "list_all is_hex (hs @ [b])" "length (hs @ [b]) + (uni - 1) = 4" "c @ [b] = c' @ [b_bslash, b_u] @ (hs @ [b])"
      using b(1) c uni by simp_all
    have "strpre False (uni - 1) (c @ [b])"
    proof (cases "uni = 1")
      case True
      then show ?thesis using jchars_uni [OF c(1) _ hs(1)] hs(2,3) by (simp add: strpre_def)
    next
      case False
      then have "0 < uni - 1" "uni - 1 \<le> 4" using uni hs(2) by simp_all
      moreover have "\<exists>c' hs. jchars c' \<and> list_all is_hex hs \<and> length hs + (uni - 1) = 4 \<and> c @ [b] = c' @ [b_bslash, b_u] @ hs"
        using c(1) hs by blast
      ultimately show ?thesis unfolding strpre_def by simp
    qed
    then show ?thesis using b(2) by blast
  next
    case esc
    then obtain c' where c: "jchars c'" "c = c' @ [b_bslash]" using assms(1) by (auto simp: strpre_def)
    consider "is_escape b" "m' = m\<lparr>jstate := Str False 0 key\<rparr>" | "b = b_u" "m' = m\<lparr>jstate := Str False 4 key\<rparr>"
      using assms(2) esc by (auto simp: str_step_def split: if_splits)
    then show ?thesis
    proof cases
      case 1
      have "strpre False 0 (c @ [b])" using jchars_esc [OF c(1) 1(1)] by (simp add: strpre_def c(2))
      then show ?thesis using 1(2) by blast
    next
      case 2
      have "strpre False 4 (c @ [b])"
      proof -
        have "c @ [b] = c' @ [b_bslash, b_u] @ []" "length ([] :: u8 list) + 4 = 4" "list_all is_hex []" by (simp_all add: c(2) 2(1))
        then have "\<exists>c' hs. jchars c' \<and> list_all is_hex hs \<and> length hs + 4 = 4 \<and> c @ [b] = c' @ [b_bslash, b_u] @ hs"
          using c(1) by blast
        then show ?thesis unfolding strpre_def by simp
      qed
      then show ?thesis using 2(2) by blast
    qed
  next
    case plain
    then have c: "jchars c" using assms(1) by (simp add: strpre_def)
    consider "b = b_quote" "m' = m\<lparr>jstate := (if key then Colon else after_value m)\<rparr>"
      | "b = b_bslash" "m' = m\<lparr>jstate := Str True 0 key\<rparr>"
      | "b \<noteq> b_quote" "b \<noteq> b_bslash" "\<not> b \<le> 0x1F" "m' = m"
      using assms(2) plain unfolding str_step_def by (auto split: if_splits)
    then show ?thesis
    proof cases
      case 1
      then show ?thesis using c by blast
    next
      case 2
      have "strpre True 0 (c @ [b])" using c 2(1) by (simp add: strpre_def)
      then show ?thesis using 2(2) by blast
    next
      case 3
      have "0x20 \<le> b" using 3(3) by unat_arith
      then have "strpre False 0 (c @ [b])" using jchars_plain [OF c _ 3(1,2)] by (simp add: strpre_def)
      then show ?thesis using 3(4) plain by blast
    qed
  qed
qed

lemma str_step_good:
  assumes "good mode m p" and st: "jstate m = Str esc uni key" and run: "str_step m esc uni key b = (m', True)"
  shows "good mode m' (p @ [b])"
proof -
  obtain q c where q: "strpre esc uni c" "p = q @ [b_quote] @ c"
      "if key then \<exists>stk'. stk_of m = False # stk' \<and> kctx stk' q
       else ctx (stk_of m) q \<and> (mode = Object_mode \<longrightarrow> stk_of m \<noteq> [])"
    using assms(1) unfolding good_def st pre.simps by blast
  have top: "top_obj mode (stk_of m)" using assms(1) by (simp add: good_def)
  have stay: "pre mode (stk_of m) (Str esc' uni' key) (p @ [b])" if "strpre esc' uni' (c @ [b])" for esc' uni'
    unfolding pre.simps using that q(2,3) by (intro exI [of _ q] exI [of _ "c @ [b]"]) simp
  from strpre_next [OF q(1) run] show ?thesis
  proof (elim disjE exE conjE)
    assume m': "m' = m\<lparr>jstate := (if key then Colon else after_value m)\<rparr>" and b: "b = b_quote" and c: "jchars c"
    have s: "jstring ([b_quote] @ c @ [b_quote])" using c unfolding jstring_def by blast
    show ?thesis
    proof (cases key)
      case True
      then obtain stk' where k: "stk_of m = False # stk'" "kctx stk' q" using q(3) by auto
      have "pre mode (stk_of m) Colon (p @ [b])"
        unfolding pre.simps using k s
        by (intro exI [of _ stk'] exI [of _ q] exI [of _ "[b_quote] @ c @ [b_quote]"] exI [of _ "[]"]) (simp add: q(2) b)
      then show ?thesis using True top by (simp add: m' good_state del: pre.simps)
    next
      case False
      then have k: "ctx (stk_of m) q" "val_ok mode (stk_of m) ([b_quote] @ c @ [b_quote])"
        using q(3) v_string [OF s] by (auto simp: val_ok_def)
      from pre_after [OF k, of "[]"] show ?thesis
        using False top by (simp add: m' good_state after_value_stk q(2) b del: pre.simps)
    qed
  next
    fix esc' uni' assume "m' = m\<lparr>jstate := Str esc' uni' key\<rparr>" "strpre esc' uni' (c @ [b])"
    then show ?thesis using stay top by (simp add: good_state del: pre.simps)
  next
    assume "m' = m" "\<not> esc" "uni = 0" "strpre False 0 (c @ [b])"
    then show ?thesis using stay [of False 0] top st by (simp add: good_def del: pre.simps)
  qed
qed

lemma lit_step_good:
  assumes "good mode m p" and st: "jstate m = Lit l pos" and run: "lit_step m l pos b = (m', True)"
  shows "good mode m' (p @ [b])"
proof -
  let ?w = "literals ! l"
  obtain q where q: "ctx (stk_of m) q" "mode = Object_mode \<longrightarrow> stk_of m \<noteq> []" "l < 3" "0 < pos" "pos < length ?w" "p = q @ take pos ?w"
    using assms(1) unfolding good_def st pre.simps by blast
  have top: "top_obj mode (stk_of m)" using assms(1) by (simp add: good_def)
  have b: "b = ?w ! pos" "m' = m\<lparr>jstate := (if pos + 1 = length ?w then after_value m else Lit l (pos + 1))\<rparr>"
    using run by (auto simp: lit_step_def Let_def split: if_splits)
  have pb: "p @ [b] = q @ take (pos + 1) ?w" using q(5,6) b(1) by (simp add: take_Suc_conv_app_nth)
  show ?thesis
  proof (cases "pos + 1 = length ?w")
    case True
    have "jvalue ?w" using q(3) by (intro v_literal nth_mem) (simp add: literals_def)
    then have "val_ok mode (stk_of m) ?w" using q(2) by (auto simp: val_ok_def)
    from pre_after [OF q(1) this, of "[]"] show ?thesis
      using True top pb by (simp add: b(2) good_state after_value_stk del: pre.simps)
  next
    case False
    have "pre mode (stk_of m) (Lit l (pos + 1)) (p @ [b])"
      unfolding pre.simps using q(1-3,5) pb False by (intro exI [of _ q]) auto
    then show ?thesis using False top by (simp add: b(2) good_state del: pre.simps)
  qed
qed

lemma step_core_good:
  assumes g: "good mode m p"
    and again: "\<And>m1. good mode m1 p \<Longrightarrow> ws_run m1 = ws_run m \<Longrightarrow> again m1 = (m', True) \<Longrightarrow> good mode m' (p @ [b])"
    and run: "step_core again mode b m = (m', True)"
  shows "good mode m' (p @ [b])"
proof -
  have p: "pre mode (stk_of m) (jstate m) p" and top: "top_obj mode (stk_of m)" using g by (simp_all add: good_def)
  have closing: "good mode m' (p @ [c])"
    if "stk_of m = a # stk" "close_with m = (m', True)" "pre mode stk (after stk) (p @ [c])" for a stk c
  proof -
    note h = that
    obtain m1 where "close_with m = (m1, True)" "stk_of m1 = stk" "jstate m1 = after stk"
      using close_with_ok [OF h(1)] by blast
    then show ?thesis using h top top_obj_tl [of mode a stk] by (simp add: good_def del: pre.simps)
  qed
  show ?thesis
  proof (cases "jstate m")
    case Value
    then show ?thesis using start_value_pre [of m p mode b m'] p top run by (simp add: step_core_def good_def)
  next
    case Obj_first
    then obtain stk' q w where q: "stk_of m = False # stk'" "ctx stk' q" "all_ws w" "p = q @ [b_lbrace] @ w" using p by auto
    consider "is_ws b" "m' = m" | "b = b_quote" "m' = m\<lparr>jstate := Str False 0 True\<rparr>"
      | "b = b_rbrace" "close_with m = (m', True)"
      using run unfolding step_core_def Obj_first by (auto split: if_splits)
    then show ?thesis
    proof cases
      case 1
      have "pre mode (stk_of m) Obj_first (p @ [b])"
        unfolding pre.simps using q 1(1) by (intro exI [of _ stk'] exI [of _ q] exI [of _ "w @ [b]"]) simp
      then show ?thesis using Obj_first 1(2) top by (simp add: good_def del: pre.simps)
    next
      case 2
      have "kctx stk' p" unfolding kctx_def using q
        by (intro exI [of _ q] exI [of _ "[]"] exI [of _ w]) (simp add: opt_comma_def)
      then have "pre mode (stk_of m) (Str False 0 True) (p @ [b])"
        unfolding pre.simps using q(1) 2(1) jchars_Nil by (intro exI [of _ p] exI [of _ "[]"]) (simp add: strpre_def)
      then show ?thesis using 2(2) top by (simp add: good_state del: pre.simps)
    next
      case 3
      have "pre mode (False # stk') Obj_first p" using p q(1) Obj_first by simp
      then show ?thesis using closing [OF q(1) 3(2)] pre_close_object 3(1) by blast
    qed
  next
    case Arr_first
    then obtain stk' q where q: "stk_of m = True # stk'" "ctx stk' q" "p = q @ [b_lbrack]" using p by auto
    show ?thesis
    proof (cases "b = b_rbrack")
      case True
      have "pre mode (True # stk') Arr_first p" using p q(1) Arr_first by simp
      then have "pre mode stk' (after stk') (p @ [b_rbrack])" using pre_close_array top q(1) by metis
      then show ?thesis using closing [OF q(1)] run True Arr_first by (simp add: step_core_def)
    next
      case False
      have "ctx (stk_of m) p"
        unfolding q(1) using ctx_arr [OF q(2), of "[]" "[]"] by (simp add: q(3) opt_comma_def)
      then show ?thesis
        using start_value_pre [of "m\<lparr>jstate := Value\<rparr>" p mode b m'] top run False Arr_first
        by (simp add: step_core_def good_def)
    qed
  next
    case Obj_comma
    then obtain stk' where q: "stk_of m = False # stk'" "kctx stk' p" using p by auto
    consider "is_ws b" "m' = m" | "b = b_quote" "m' = m\<lparr>jstate := Str False 0 True\<rparr>"
      using run unfolding step_core_def Obj_comma by (auto split: if_splits)
    then show ?thesis
    proof cases
      case 1
      then show ?thesis using kctx_ws [OF q(2)] q(1) Obj_comma top by (simp add: good_def)
    next
      case 2
      have "pre mode (stk_of m) (Str False 0 True) (p @ [b])"
        unfolding pre.simps using q 2(1) jchars_Nil by (intro exI [of _ p] exI [of _ "[]"]) (simp add: strpre_def)
      then show ?thesis using 2(2) top by (simp add: good_state del: pre.simps)
    qed
  next
    case (Str esc uni key)
    then show ?thesis using str_step_good [OF g Str] run by (simp add: step_core_def)
  next
    case Colon
    then obtain stk' q s w where q: "stk_of m = False # stk'" "kctx stk' q" "jstring s" "all_ws w" "p = q @ s @ w" using p by auto
    consider "is_ws b" "m' = m" | "b = b_colon" "m' = m\<lparr>jstate := Value\<rparr>"
      using run unfolding step_core_def Colon by (auto split: if_splits)
    then show ?thesis
    proof cases
      case 1
      have "pre mode (stk_of m) Colon (p @ [b])"
        unfolding pre.simps using q 1(1)
        by (intro exI [of _ stk'] exI [of _ q] exI [of _ s] exI [of _ "w @ [b]"]) simp
      then show ?thesis using Colon 1(2) top by (simp add: good_def del: pre.simps)
    next
      case 2
      obtain q0 x w1 where k: "ctx stk' q0" "opt_comma jmembers x" "all_ws w1" "q = q0 @ [b_lbrace] @ x @ w1"
        using q(2) unfolding kctx_def by blast
      have "ctx (stk_of m) (p @ [b])"
        unfolding q(1) using ctx_obj [OF k(1-3) q(3,4), of "[]"] by (simp add: q(5) k(4) 2(1))
      then show ?thesis using 2(2) top by (simp add: good_state)
    qed
  next
    case (Num n)
    show ?thesis
    proof (cases "num_next n b")
      case (Some n2)
      obtain q d where q: "ctx (stk_of m) q" "mode = Object_mode \<longrightarrow> stk_of m \<noteq> []" "numpre n d" "p = q @ d"
        using p unfolding Num pre.simps by blast
      have "pre mode (stk_of m) (Num n2) (p @ [b])"
        unfolding pre.simps using q(1,2,4) numpre_next [OF q(3) Some] by (intro exI [of _ q] exI [of _ "d @ [b]"]) simp
      then show ?thesis using run Num Some top by (simp add: step_core_def good_def del: pre.simps) (auto simp del: pre.simps)
    next
      case None
      then have n: "num_complete n" "again (m\<lparr>jstate := after_value m\<rparr>) = (m', True)"
        using run Num by (auto simp: step_core_def split: if_splits)
      have "good mode (m\<lparr>jstate := after_value m\<rparr>) p"
        using pre_num_end [of mode "stk_of m" n p] p top n(1) Num by (simp add: good_state after_value_stk del: pre.simps)
      then show ?thesis using again n(2) by simp
    qed
  next
    case (Lit l pos)
    then show ?thesis using lit_step_good [OF g Lit] run by (simp add: step_core_def)
  next
    case Obj_next
    then have "after (stk_of m) = Obj_next" and p': "pre mode (stk_of m) (after (stk_of m)) p" using p by simp_all
    then obtain stk' where q: "stk_of m = False # stk'" by (auto simp: after_def split: list.splits bool.splits)
    obtain r v w where r: "ctx (stk_of m) r" "val_ok mode (stk_of m) v" "all_ws w" "p = r @ v @ w"
      using p' unfolding pre_after_iff by blast
    consider "is_ws b" "m' = m" | "b = b_comma" "m' = m\<lparr>jstate := Obj_comma\<rparr>"
      | "b = b_rbrace" "close_with m = (m', True)"
      using run unfolding step_core_def Obj_next by (auto split: if_splits)
    then show ?thesis
    proof cases
      case 1
      then show ?thesis using pre_after [OF r(1,2), of "w @ [b]"] r(3,4) \<open>after (stk_of m) = Obj_next\<close> Obj_next top
        by (simp add: good_def del: pre.simps)
    next
      case 2
      obtain q0 x w1 s w2 w3 where k: "r = q0 @ b_lbrace # x @ w1 @ s @ w2 @ b_colon # w3" "ctx stk' q0"
          "opt_comma jmembers x" "all_ws w1" "jstring s" "all_ws w2" "all_ws w3"
        using r(1) unfolding q by (rule ctx_objE)
      have v: "jvalue v" using r(2) by (simp add: val_ok_def)
      let ?ms = "x @ w1 @ s @ w2 @ [b_colon] @ w3 @ v @ w"
      have "jmembers ?ms" using k(3) m_one [OF k(4-7) v r(3)] m_more [OF _ k(4-7) v r(3)] by (auto simp: opt_comma_def)
      then have "opt_comma jmembers (?ms @ [b_comma])" unfolding opt_comma_def by blast
      then have "kctx stk' (p @ [b])"
        unfolding kctx_def using k(2)
        by (intro exI [of _ q0] exI [of _ "?ms @ [b_comma]"] exI [of _ "[]"]) (simp add: r(4) k(1) 2(1))
      then show ?thesis using 2(2) q top by (simp add: good_state)
    next
      case 3
      have "pre mode (False # stk') Obj_next p" using p q Obj_next by simp
      then show ?thesis using closing [OF q 3(2)] pre_close_object 3(1) by blast
    qed
  next
    case Arr_next
    then have "after (stk_of m) = Arr_next" and p': "pre mode (stk_of m) (after (stk_of m)) p" using p by simp_all
    then obtain stk' where q: "stk_of m = True # stk'" by (auto simp: after_def split: list.splits bool.splits)
    obtain r v w where r: "ctx (stk_of m) r" "val_ok mode (stk_of m) v" "all_ws w" "p = r @ v @ w"
      using p' unfolding pre_after_iff by blast
    consider "is_ws b" "m' = m" | "b = b_comma" "m' = m\<lparr>jstate := Value\<rparr>"
      | "b = b_rbrack" "close_with m = (m', True)"
      using run unfolding step_core_def Arr_next by (auto split: if_splits)
    then show ?thesis
    proof cases
      case 1
      then show ?thesis using pre_after [OF r(1,2), of "w @ [b]"] r(3,4) \<open>after (stk_of m) = Arr_next\<close> Arr_next top
        by (simp add: good_def del: pre.simps)
    next
      case 2
      obtain q0 x w1 where k: "r = q0 @ b_lbrack # x @ w1" "ctx stk' q0" "opt_comma jelements x" "all_ws w1"
        using r(1) unfolding q by (rule ctx_arrE)
      have v: "jvalue v" using r(2) by (simp add: val_ok_def)
      let ?es = "x @ w1 @ v @ w"
      have "jelements ?es" using k(3) e_one [OF k(4) v r(3)] e_more [OF _ k(4) v r(3)] by (auto simp: opt_comma_def)
      then have "opt_comma jelements (?es @ [b_comma])" unfolding opt_comma_def by blast
      from ctx_arr [OF k(2) this, of "[]"] have "ctx (stk_of m) (p @ [b])"
        by (simp add: q r(4) k(1) 2(1))
      then show ?thesis using 2(2) top by (simp add: good_state)
    next
      case 3
      have "pre mode (True # stk') Arr_next p" using p q Arr_next by simp
      then have "pre mode stk' (after stk') (p @ [b_rbrack])" using pre_close_array top q by metis
      then show ?thesis using closing [OF q 3(2)] 3(1) by blast
    qed
  next
    case Done
    then have "after (stk_of m) = Done" and p': "pre mode (stk_of m) (after (stk_of m)) p" using p by simp_all
    obtain r v w where r: "ctx (stk_of m) r" "val_ok mode (stk_of m) v" "all_ws w" "p = r @ v @ w"
      using p' unfolding pre_after_iff by blast
    have "is_ws b" "m' = m" using run unfolding step_core_def Done by simp_all
    then show ?thesis using pre_after [OF r(1,2), of "w @ [b]"] r(3,4) \<open>after (stk_of m) = Done\<close> Done top
      by (simp add: good_def del: pre.simps)
  qed
qed

section \<open>A run of bytes\<close>

lemma step_good_once:
  assumes "good mode m p" and "\<not> is_num_state (jstate m)" and "step mode b m = (m', True)"
  shows "good mode m' (p @ [b])"
proof -
  obtain m1 where m1: "step_inner mode b m = (m1, True)" "m' = m1\<lparr>ws_run := (if is_ws b then ws_run m1 + 1 else 0)\<rparr>"
    using step_inner_ok [OF assms(3)] by blast
  have "step_core (\<lambda>m. (m, False)) mode b m = (m1, True)"
    using m1(1) step_core_cong [of m "step_again mode b" "\<lambda>m. (m, False)" mode b] assms(2) by (simp add: step_inner_def)
  from step_core_good [OF assms(1) _ this] show ?thesis by (simp add: m1(2))
qed

lemma step_good:
  assumes "good mode m p" and "step mode b m = (m', True)"
  shows "good mode m' (p @ [b])"
proof -
  obtain m1 where m1: "step_inner mode b m = (m1, True)" "m' = m1\<lparr>ws_run := (if is_ws b then ws_run m1 + 1 else 0)\<rparr>"
    using step_inner_ok [OF assms(2)] by blast
  show ?thesis
  proof (cases "is_num_state (jstate m)")
    case True
    then obtain n where n: "jstate m = Num n" by (cases "jstate m") auto
    show ?thesis
    proof (cases "num_next n b")
      case (Some n2)
      then have "step_core (\<lambda>m. (m, False)) mode b m = (m1, True)" using m1(1) n by (simp add: step_inner_def step_core_def)
      from step_core_good [OF assms(1) _ this] show ?thesis by (simp add: m1(2))
    next
      case None
      then have r: "num_complete n" "step mode b (m\<lparr>jstate := after_value m\<rparr>) = (m1, True)"
        using m1(1) n by (auto simp: step_inner_rec step_core_def split: if_splits)
      have "good mode (m\<lparr>jstate := after_value m\<rparr>) p"
        using pre_num_end [of mode "stk_of m" n p] assms(1) r(1) n
        by (simp add: good_def after_value_stk del: pre.simps)
      from step_good_once [OF this _ r(2)] show ?thesis by (simp add: after_value_not_num m1(2))
    qed
  next
    case False
    then show ?thesis using step_good_once assms by blast
  qed
qed

lemma feed_good: "good mode m p \<Longrightarrow> feed mode m bs = Some m' \<Longrightarrow> good mode m' (p @ bs)"
proof (induction bs arbitrary: m p)
  case (Cons b bs)
  then obtain m1 where m1: "step mode b m = (m1, True)" "feed mode m1 bs = Some m'"
    by (auto simp: Let_def split: prod.splits if_splits)
  then show ?case using Cons.IH [OF step_good [OF Cons.prems(1) m1(1)]] by simp
qed simp

lemma good_new: "good mode (json_machine_new mode) []"
  by (cases mode) (simp_all add: good_def json_machine_new_def stk_of_def top_obj_def ctx_top)

lemma good_accepting:
  assumes "good mode m p" and "accepting m"
  shows "json_text mode p"
proof -
  have p: "pre mode (stk_of m) (jstate m) p" using assms(1) by (simp add: good_def)
  have "pre mode [] Done p"
  proof (cases "jstate m = Done")
    case True
    then have "after (stk_of m) = Done" using p by simp
    then have e: "stk_of m = []" by (auto simp: after_def simp del: stk_of_simps(4) split: list.splits bool.splits)
    show ?thesis using p unfolding True e .
  next
    case False
    then obtain n where n: "jstate m = Num n" "num_complete n" "depth m = 0"
      using assms(2) by (auto simp: accepting_def number_completes_top_def split: jstate.splits)
    then have e: "stk_of m = []" by (simp only: stk_of_simps(4))
    have "pre mode [] (after []) p" using pre_num_end [OF p [unfolded n(1) e] n(2)] .
    then show ?thesis by (simp only: after_def list.case)
  qed
  then obtain q v w where "ctx [] q" "val_ok mode [] v" "all_ws w" "p = q @ v @ w" by auto
  moreover from this(1) have "all_ws q" by (rule ctx_NilE)
  ultimately show ?thesis unfolding json_text_def val_ok_def by blast
qed

section \<open>Every open document can be finished\<close>

definition finishable :: "json_mode \<Rightarrow> json_machine \<Rightarrow> bool" where
  "finishable mode m \<longleftrightarrow> (\<exists>bs m'. feed mode m bs = Some m' \<and> accepting m')"

lemma finish_now: "accepting m \<Longrightarrow> finishable mode m"
  unfolding finishable_def by (intro exI [of _ "[]"] exI [of _ m]) simp

lemma finish_step: "step mode b m = (m1, True) \<Longrightarrow> finishable mode m1 \<Longrightarrow> finishable mode m"
proof -
  assume "step mode b m = (m1, True)" "finishable mode m1"
  then obtain bs m' where "feed mode m (b # bs) = Some m'" "accepting m'" unfolding finishable_def by auto
  then show ?thesis unfolding finishable_def by blast
qed

lemma finish_inner:
  "\<not> is_ws b \<Longrightarrow> step_inner mode b m = (m1, True) \<Longrightarrow> finishable mode (m1\<lparr>ws_run := 0\<rparr>) \<Longrightarrow> finishable mode m"
  using finish_step step_nonws by blast

lemma not_ws [simp]:
  "\<not> is_ws b_rbrace" "\<not> is_ws b_rbrack" "\<not> is_ws b_quote" "\<not> is_ws b_lbrace" "\<not> is_ws b_colon" "\<not> is_ws b_0" "\<not> is_ws b_n"
  by (simp_all add: is_ws_def)

lemma finish_after: "jstate m = after (stk_of m) \<Longrightarrow> finishable mode m"
proof (induction "stk_of m" arbitrary: m)
  case Nil
  then show ?case by (intro finish_now) (simp add: accepting_def after_def flip: Nil.hyps)
next
  case (Cons a stk)
  obtain m1 where m1: "close_with m = (m1, True)" "stk_of m1 = stk" "jstate m1 = after stk"
    using close_with_ok [OF Cons.hyps(2) [symmetric]] by blast
  have fin: "finishable mode (m1\<lparr>ws_run := 0\<rparr>)" using Cons.hyps(1) [of "m1\<lparr>ws_run := 0\<rparr>"] m1(2,3) by simp
  have st: "jstate m = (if a then Arr_next else Obj_next)" using Cons.prems by (simp add: after_def flip: Cons.hyps(2))
  let ?b = "if a then b_rbrack else b_rbrace"
  have "step_inner mode ?b m = (m1, True)"
    using st m1(1) by (cases a) (simp_all add: step_inner_def step_core_def)
  then show ?case by (intro finish_inner [OF _ _ fin]) simp_all
qed

lemma after_state [simp]: "after_value (m\<lparr>jstate := x\<rparr>) = after_value m" "after_value (m\<lparr>ws_run := n\<rparr>) = after_value m"
  by (simp_all add: after_value_def)

lemma finish_str:
  assumes "jstate m = Str esc uni key" and "finishable mode (m\<lparr>jstate := (if key then Colon else after_value m), ws_run := 0\<rparr>)"
  shows "finishable mode m"
proof -
  have plain: "finishable mode m" if "jstate m = Str False 0 key"
      "finishable mode (m\<lparr>jstate := (if key then Colon else after_value m), ws_run := 0\<rparr>)" for m
    using that(2)
    by (intro finish_inner [of b_quote mode m "m\<lparr>jstate := (if key then Colon else after_value m)\<rparr>"])
      (simp_all add: step_inner_def step_core_def str_step_def that(1))
  have uni: "finishable mode m" if "jstate m = Str esc' n key"
      "finishable mode (m\<lparr>jstate := (if key then Colon else after_value m), ws_run := 0\<rparr>)" "0 < n" for m n esc'
    using that
  proof (induction n arbitrary: m esc')
    case (Suc n)
    let ?m = "m\<lparr>jstate := Str False n key, ws_run := 0\<rparr>"
    have i: "step_inner mode b_0 m = (m\<lparr>jstate := Str False n key\<rparr>, True)"
      by (simp add: step_inner_def step_core_def str_step_def Suc.prems(1) is_hex_def is_digit_def)
    have "finishable mode ?m"
    proof (cases "n = 0")
      case True
      then show ?thesis using plain [of ?m] Suc.prems(2) by (cases key) simp_all
    next
      case False
      then show ?thesis using Suc.IH [of ?m False] Suc.prems(2) by (cases key) simp_all
    qed
    then show ?case using finish_inner [OF _ i] by simp
  qed simp
  show ?thesis
  proof (cases "0 < uni")
    case True
    then show ?thesis using uni assms by blast
  next
    case False
    show ?thesis
    proof (cases esc)
      case True
      let ?m = "m\<lparr>jstate := Str False 0 key, ws_run := 0\<rparr>"
      have i: "step_inner mode b_n m = (m\<lparr>jstate := Str False 0 key\<rparr>, True)"
        using True False by (simp add: step_inner_def step_core_def str_step_def assms(1) is_escape_def)
      have "finishable mode ?m" using plain [of ?m] assms(2) by (cases key) simp_all
      then show ?thesis using finish_inner [OF _ i] by simp
    next
      case False
      then show ?thesis using plain assms \<open>\<not> 0 < uni\<close> by simp
    qed
  qed
qed

lemma finish_value:
  assumes st: "jstate m = Value"
  shows "finishable mode m"
proof (cases "object_only mode \<and> depth m = 0")
  case True
  then obtain m1 where m1: "jpush m False = Some m1" by (auto simp: jpush_def max_depth_def Let_def)
  let ?m = "m1\<lparr>jstate := Obj_first, ws_run := 0\<rparr>"
  have i: "step_inner mode b_lbrace m = (m1\<lparr>jstate := Obj_first\<rparr>, True)"
    using m1 by (simp add: step_inner_def step_core_def st start_value_def)
  have "stk_of ?m = False # stk_of m" using jpush_Some(1) [OF m1] by simp
  from close_with_ok [OF this] obtain m2 where m2: "close_with ?m = (m2, True)" "stk_of m2 = stk_of m" "jstate m2 = after (stk_of m)"
    by blast
  have "step_inner mode b_rbrace ?m = (m2, True)" using m2(1) by (simp add: step_inner_def step_core_def)
  then have "finishable mode ?m"
    using m2 by (intro finish_inner [of b_rbrace mode ?m m2] finish_after) simp_all
  then show ?thesis using finish_inner [OF _ i] by simp
next
  case False
  have i: "step_inner mode b_quote m = (m\<lparr>jstate := Str False 0 False\<rparr>, True)"
    using False by (auto simp: step_inner_def step_core_def st start_value_def)
  have "finishable mode (m\<lparr>jstate := Str False 0 False, ws_run := 0\<rparr>)"
    by (rule finish_str [where esc = False and uni = 0 and key = False]) (simp_all add: finish_after after_value_stk)
  then show ?thesis using finish_inner [OF _ i] by simp
qed

lemma finish_colon: "jstate m = Colon \<Longrightarrow> finishable mode m"
  by (rule finish_inner [of b_colon mode m "m\<lparr>jstate := Value\<rparr>"])
    (simp_all add: step_inner_def step_core_def finish_value)

lemma finish_key:
  assumes "jstate m = Obj_first \<or> jstate m = Obj_comma"
  shows "finishable mode m"
proof (rule finish_inner [of b_quote mode m "m\<lparr>jstate := Str False 0 True\<rparr>"])
  show "step_inner mode b_quote m = (m\<lparr>jstate := Str False 0 True\<rparr>, True)"
    using assms by (auto simp: step_inner_def step_core_def)
  show "finishable mode (m\<lparr>jstate := Str False 0 True, ws_run := 0\<rparr>)"
    by (rule finish_str [where esc = False and uni = 0 and key = True]) (simp_all add: finish_colon)
qed simp

lemma finish_num:
  assumes st: "jstate m = Num n"
  shows "finishable mode m"
proof -
  have stop: "finishable mode m" if "jstate m = Num n" "num_complete n" for m n
  proof (cases "stk_of m")
    case Nil
    then show ?thesis using that by (intro finish_now) (simp add: accepting_def number_completes_top_def)
  next
    case (Cons a stk)
    let ?b = "if a then b_rbrack else b_rbrace" and ?m = "m\<lparr>jstate := after_value m\<rparr>"
    have no: "num_next n ?b = None" using that(2) by (cases n) (auto simp: is_digit_def)
    have "stk_of ?m = a # stk" using Cons by simp
    from close_with_ok [OF this] obtain m1 where m1: "close_with ?m = (m1, True)" "stk_of m1 = stk" "jstate m1 = after stk"
      by blast
    have "step_inner mode ?b ?m = (m1, True)"
      using m1(1) Cons by (cases a) (simp_all add: step_inner_def step_core_def after_value_stk after_def)
    then have again: "step mode ?b ?m = (m1\<lparr>ws_run := 0\<rparr>, True)" by (intro step_nonws) simp_all
    have "step_inner mode ?b m = (m1\<lparr>ws_run := 0\<rparr>, True)"
      unfolding step_inner_rec using again no that by (simp add: step_core_def)
    then show ?thesis using m1(2,3) by (intro finish_inner [of ?b mode m "m1\<lparr>ws_run := 0\<rparr>"] finish_after) simp_all
  qed
  show ?thesis
  proof (cases "num_complete n")
    case True
    then show ?thesis using stop st by blast
  next
    case False
    then obtain n2 where n2: "num_next n b_0 = Some n2" "num_complete n2"
      by (cases n) (auto simp: is_digit_def)
    have "step_inner mode b_0 m = (m\<lparr>jstate := Num n2\<rparr>, True)" using n2 by (simp add: step_inner_def step_core_def st)
    moreover have "finishable mode (m\<lparr>jstate := Num n2, ws_run := 0\<rparr>)" using stop n2(2) by simp
    ultimately show ?thesis using finish_inner [of b_0] by simp
  qed
qed

lemma finish_lit:
  assumes "jstate m = Lit l pos" and "l < 3" and "pos < length (literals ! l)"
  shows "finishable mode m"
  using assms
proof (induction "length (literals ! l) - pos" arbitrary: m pos)
  case (Suc k)
  let ?w = "literals ! l"
  let ?st = "if pos + 1 = length ?w then after_value m else Lit l (pos + 1)"
  have ws: "\<not> is_ws (?w ! pos)"
  proof -
    have "?w ! pos \<in> set ?w" using Suc.prems(3) by simp
    moreover have "?w \<in> set literals" using Suc.prems(2) by (intro nth_mem) (simp add: literals_def)
    ultimately show ?thesis by (auto simp: literals_def is_ws_def)
  qed
  have i: "step_inner mode (?w ! pos) m = (m\<lparr>jstate := ?st\<rparr>, True)"
    using Suc.prems(3) by (simp add: step_inner_def step_core_def Suc.prems(1) lit_step_def Let_def)
  have "finishable mode (m\<lparr>jstate := ?st, ws_run := 0\<rparr>)"
  proof (cases "pos + 1 = length ?w")
    case True
    then show ?thesis by (intro finish_after) (simp add: after_value_stk)
  next
    case False
    then show ?thesis using Suc.hyps(1) [of "pos + 1"] Suc.hyps(2) Suc.prems(2,3) by simp
  qed
  then show ?case using finish_inner [OF ws i] by simp
qed simp

lemma good_finishable:
  assumes "good mode m p"
  shows "finishable mode m"
proof -
  have p: "pre mode (stk_of m) (jstate m) p" using assms by (simp add: good_def)
  show ?thesis
  proof (cases "jstate m")
    case Arr_first
    then obtain stk' where "stk_of m = True # stk'" using p by auto
    from close_with_ok [OF this] obtain m2 where m2: "close_with m = (m2, True)" "stk_of m2 = stk'" "jstate m2 = after stk'"
      by blast
    then show ?thesis
      by (intro finish_inner [of b_rbrack mode m m2] finish_after) (simp_all add: step_inner_def step_core_def Arr_first)
  next
    case (Str esc uni key)
    then show ?thesis
      by (intro finish_str [OF Str]) (simp add: finish_colon finish_after after_value_stk)
  next
    case (Lit l pos)
    then show ?thesis using p by (intro finish_lit) auto
  qed (use p in \<open>simp_all add: finish_value finish_key finish_colon finish_num finish_after\<close>)
qed

section \<open>The counters fit a byte\<close>

definition counters_ok :: "json_machine \<Rightarrow> bool" where
  "counters_ok m \<longleftrightarrow> depth m \<le> 64 \<and> ws_run m \<le> 23"

lemma step_core_depth:
  assumes "depth m \<le> 64" and "\<And>m1. depth m1 \<le> 64 \<Longrightarrow> depth (fst (again m1)) \<le> 64"
  shows "depth (fst (step_core again mode b m)) \<le> 64"
proof -
  have cl: "depth (fst (close_with m)) \<le> 64"
    using assms(1) by (auto simp: close_with_def jpop_def Let_def split: option.splits)
  have sv: "depth (fst (start_value m1 b t)) \<le> 64" if "depth m1 \<le> 64" for m1 t
    using that by (auto simp: start_value_def jpush_def max_depth_def Let_def split: option.splits)
  show ?thesis
    using assms cl sv [of m] sv [of "m\<lparr>jstate := Value\<rparr>"]
    by (auto simp: step_core_def str_step_def lit_step_def Let_def split: jstate.splits option.splits)
qed

lemma step_core_ws:
  assumes "ws_run m \<le> 22" and "\<And>m1. ws_run m1 = ws_run m \<Longrightarrow> ws_run (fst (again m1)) \<le> 22"
  shows "ws_run (fst (step_core again mode b m)) \<le> 22"
proof -
  have cl: "ws_run (fst (close_with m)) = ws_run m"
    by (auto simp: close_with_def jpop_def Let_def split: option.splits)
  have sv: "ws_run (fst (start_value m1 b t)) = ws_run m1" for m1 t
    by (auto simp: start_value_def jpush_def Let_def split: option.splits)
  show ?thesis
    using assms cl sv [of m] sv [of "m\<lparr>jstate := Value\<rparr>"]
    by (auto simp: step_core_def str_step_def lit_step_def Let_def split: jstate.splits option.splits)
qed

lemma step_again_fst:
  "fst (step_again mode b m) =
     (let m1 = fst (step_core (\<lambda>m'. (m', False)) mode b m) in
      if is_ws b \<and> max_whitespace_run \<le> ws_run m then m
      else if snd (step_core (\<lambda>m'. (m', False)) mode b m) then m1\<lparr>ws_run := (if is_ws b then ws_run m1 + 1 else 0)\<rparr>
      else m1)"
  by (simp add: step_again_def ev_around_def Let_def split: prod.splits)

lemma step_core_no_again_ws: "ws_run (fst (step_core (\<lambda>m'. (m', False)) mode b m)) = ws_run m"
proof -
  have cl: "ws_run (fst (close_with m)) = ws_run m"
    by (auto simp: close_with_def jpop_def Let_def split: option.splits)
  have sv: "ws_run (fst (start_value m1 b t)) = ws_run m1" for m1 b t
    by (auto simp: start_value_def jpush_def Let_def split: option.splits)
  show ?thesis
    by (auto simp: step_core_def str_step_def lit_step_def Let_def cl sv split: jstate.splits option.splits)
qed

lemma step_counters:
  assumes "counters_ok m" and "step mode b m = (m', True)"
  shows "counters_ok m'"
proof -
  obtain m1 where m1: "step_inner mode b m = (m1, True)"
    "m' = m1\<lparr>ws_run := (if is_ws b then ws_run m1 + 1 else 0)\<rparr>" "is_ws b \<longrightarrow> ws_run m < max_whitespace_run"
    using step_inner_ok [OF assms(2)] by blast
  have d: "depth (fst (step_inner mode b m)) \<le> 64"
    unfolding step_inner_def
  proof (rule step_core_depth)
    show "depth m \<le> 64" using assms(1) by (simp add: counters_ok_def)
    fix m1 :: json_machine
    assume "depth m1 \<le> 64"
    then show "depth (fst (step_again mode b m1)) \<le> 64"
      using step_core_depth [of m1 "\<lambda>m'. (m', False)" mode b] by (simp add: step_again_fst Let_def)
  qed
  have w: "ws_run (fst (step_inner mode b m)) \<le> 22" if "is_ws b"
    unfolding step_inner_def
  proof (rule step_core_ws)
    show "ws_run m \<le> 22" using m1(3) that by (simp add: max_whitespace_run_def)
    fix m2 :: json_machine
    assume "ws_run m2 = ws_run m"
    then show "ws_run (fst (step_again mode b m2)) \<le> 22"
      using m1(3) that by (simp add: step_again_fst step_core_no_again_ws Let_def max_whitespace_run_def)
  qed
  show ?thesis using d w by (auto simp: m1(1,2) counters_ok_def)
qed

lemma feed_counters: "counters_ok m \<Longrightarrow> feed mode m p = Some m' \<Longrightarrow> counters_ok m'"
proof (induction p arbitrary: m)
  case (Cons b p)
  then obtain m1 where "step mode b m = (m1, True)" "feed mode m1 p = Some m'"
    by (auto simp: Let_def split: prod.splits if_splits)
  then show ?case using Cons step_counters by blast
qed simp

end
