(* ===== verification/Json_Props.thy ===== *)
theory Json_Props
  imports Json_Soundness
begin

text \<open>The properties of the JSON automaton, against the grammar of \<open>Json_Grammar\<close>.\<close>

section \<open>What the automaton accepts\<close>

text \<open>C7. Whatever the automaton takes byte by byte and accepts is a JSON text of the grammar; in object
  mode its value is an object.\<close>

theorem json_sound:
  assumes "feed mode (json_machine_new mode) p = Some m" and "accepting m"
  shows "json_text mode p"
  using good_accepting [OF feed_good [OF good_new assms(1)] assms(2)] by simp

definition sample_doc :: "u8 list" where
  "sample_doc = bytes ''{\"a\": [1.5, true, \"x\"]}''"

lemma sample_accepted:
  "case feed Object_mode (json_machine_new Object_mode) sample_doc of Some m \<Rightarrow> accepting m \<and> depth m = 0 | None \<Rightarrow> False"
  by code_simp

theorem json_sound_witness: "json_text Object_mode sample_doc"
proof -
  obtain m where "feed Object_mode (json_machine_new Object_mode) sample_doc = Some m" "accepting m"
    using sample_accepted by (auto split: option.splits)
  then show ?thesis by (rule json_sound)
qed

text \<open>C8. The automaton never walks into a dead end: whatever it has taken can be completed to a document it
  accepts, which the grammar then accepts too.\<close>

theorem json_no_dead_end:
  assumes "feed mode (json_machine_new mode) p = Some m"
  shows "\<exists>bs m'. feed mode m bs = Some m' \<and> accepting m' \<and> json_text mode (p @ bs)"
proof -
  have g: "good mode m p" using feed_good [OF good_new assms] by simp
  obtain bs m' where m': "feed mode m bs = Some m'" "accepting m'"
    using good_finishable [OF g] unfolding finishable_def by blast
  then show ?thesis using good_accepting [OF feed_good [OF g m'(1)] m'(2)] by blast
qed

definition sample_prefix :: "u8 list" where
  "sample_prefix = bytes ''{\"a\": [-''"

lemma prefix_taken: "case feed Value_mode (json_machine_new Value_mode) sample_prefix of Some m \<Rightarrow> depth m = 2 | None \<Rightarrow> False"
  by code_simp

theorem json_no_dead_end_witness: "\<exists>bs. json_text Value_mode (sample_prefix @ bs)"
proof -
  obtain m where "feed Value_mode (json_machine_new Value_mode) sample_prefix = Some m"
    using prefix_taken by (auto split: option.splits)
  from json_no_dead_end [OF this] show ?thesis by blast
qed

section \<open>Bounds\<close>

text \<open>The counters the source keeps in a byte stay far from wrapping: nesting is at most 64, the run of
  whitespace at most 23 (the cap, and the second count of a whitespace byte that ends a number),
  and an escape waits for at most four hexadecimal digits.\<close>

theorem json_counters:
  assumes "feed mode (json_machine_new mode) p = Some m"
  shows "depth m \<le> 64 \<and> ws_run m \<le> 23 \<and> (\<forall>esc uni key. jstate m = Str esc uni key \<longrightarrow> uni \<le> 4)"
proof -
  have "counters_ok m"
    using feed_counters [OF _ assms] by (simp add: counters_ok_def json_machine_new_def split: json_mode.splits)
  moreover have "good mode m p" using feed_good [OF good_new assms] by simp
  then have "\<forall>esc uni key. jstate m = Str esc uni key \<longrightarrow> uni \<le> 4"
    by (auto simp: good_def strpre_def split: if_splits)
  ultimately show ?thesis by (simp add: counters_ok_def)
qed

definition deep_spaces :: "u8 list" where
  "deep_spaces = replicate 64 b_lbrack @ [b_0] @ replicate 21 0x20"

lemma deep_taken: "feed Value_mode (json_machine_new Value_mode) deep_spaces \<noteq> None"
  by code_simp

text \<open>Both counters reach their bounds.\<close>

theorem json_counters_witness:
  "\<exists>m. feed Value_mode (json_machine_new Value_mode) deep_spaces = Some m \<and> depth m \<le> 64 \<and> ws_run m \<le> 23"
  using deep_taken json_counters [of Value_mode deep_spaces] by blast

section \<open>What it refuses\<close>

text \<open>The automaton is not complete for the grammar: an empty array with a space in it, a string holding
  23 spaces, and 22 spaces after a number (where the whitespace bound itself is 22) are JSON
  texts it does not take, although an empty object with a space and 22 spaces after a literal are taken.\<close>

theorem json_incomplete:
  "feed Value_mode (json_machine_new Value_mode) (bytes ''[ ]'') = None \<and> json_text Value_mode (bytes ''[ ]'')
   \<and> feed Value_mode (json_machine_new Value_mode) (b_quote # replicate 23 0x20 @ [b_quote]) = None
   \<and> json_text Value_mode (b_quote # replicate 23 0x20 @ [b_quote])
   \<and> feed Value_mode (json_machine_new Value_mode) (b_0 # replicate 22 0x20) = None
   \<and> json_text Value_mode (b_0 # replicate 22 0x20)
   \<and> feed Value_mode (json_machine_new Value_mode) (bytes ''{ }'') \<noteq> None
   \<and> feed Value_mode (json_machine_new Value_mode) (bytes ''null'' @ replicate 22 0x20) \<noteq> None"
proof (intro conjI)
  show "json_text Value_mode (bytes ''[ ]'')"
    using v_empty_array [of "[0x20]"] unfolding json_text_def
    by (intro exI [of _ "[]"] exI [of _ "bytes ''[ ]''"]) (simp add: is_ws_def)
  have "jchars (replicate n 0x20)" for n
    by (induction n) (use jchars_Nil jchars_plain [of _ "0x20"] in \<open>simp_all add: replicate_append_same flip: replicate_append_same\<close>)
  then have "jstring (b_quote # replicate 23 0x20 @ [b_quote])" unfolding jstring_def by (intro exI [of _ "replicate 23 0x20"]) simp
  then show "json_text Value_mode (b_quote # replicate 23 0x20 @ [b_quote])"
    unfolding json_text_def
    by (intro exI [of _ "[]"] exI [of _ "b_quote # replicate 23 0x20 @ [b_quote]"]) (simp add: v_string)
  have "jnumber [b_0]" unfolding jnumber_def
    by (intro exI [of _ "[]"] exI [of _ "[b_0]"]) (simp add: jint_def jfrac_def jexp_def)
  then show "json_text Value_mode (b_0 # replicate 22 0x20)"
    unfolding json_text_def
    by (intro exI [of _ "[]"] exI [of _ "[b_0]"] exI [of _ "replicate 22 0x20"]) (simp add: v_number all_ws_def list_all_iff is_ws_def)
qed (code_simp+)

end
