(* ===== verification/Json_Schema.thy ===== *)
theory Json_Schema
  imports Json_Machine "HOL-Library.Monad_Syntax"
begin

text \<open>
  The compiled JSON schema of \<open>src/constrain.rs\<close> (\<open>SchemaArena\<close>).  A \<open>serde_json::Value\<close>
  is a datatype over the crate's own numbers \<open>'n\<close>, its strings their UTF-8 bytes, its objects
  lists in the crate's iteration order; \<open>serde_json::to_vec\<close> is the argument \<open>ser\<close>.  A node id
  is a \<open>u16\<close>: \<open>to_u16\<close> writes its truncation out.
\<close>

section \<open>JSON values\<close>

datatype 'n json =
    JNull
  | JBool bool
  | JNum 'n
  | JStr "u8 list"
  | JArr "'n json list"
  | JObj "(u8 list \<times> 'n json) list"

fun as_str :: "'n json \<Rightarrow> u8 list option" where
  "as_str (JStr s) = Some s"
| "as_str _ = None"

fun as_array :: "'n json \<Rightarrow> 'n json list option" where
  "as_array (JArr vs) = Some vs"
| "as_array _ = None"

fun as_object :: "'n json \<Rightarrow> (u8 list \<times> 'n json) list option" where
  "as_object (JObj kvs) = Some kvs"
| "as_object _ = None"

text \<open>\<open>Value::get\<close> with a key.\<close>

definition jget :: "'n json \<Rightarrow> u8 list \<Rightarrow> 'n json option" where
  "jget v k = do { kvs \<leftarrow> as_object v; map_of kvs k }"

section \<open>Nodes\<close>

definition to_u16 :: "nat \<Rightarrow> nat" where
  "to_u16 n = n mod 2 ^ 16"

definition ANY :: nat where "ANY = 0"

definition NO_PROP :: nat where "NO_PROP = 2 ^ 16 - 1"

definition guided_depth :: nat where "guided_depth = 8"

datatype schema_node =
    Any_node
  | Object_node (props: "(u8 list \<times> nat) list") (required: u64) (additional: bool)
  | Array_node (items: nat)
  | Str_node
  | Number_node (integer: bool)
  | Boolean_node
  | Null_node
  | Enum_node (enum_literals: "u8 list list")

type_synonym arena = "schema_node list"

definition unconstrained :: arena where
  "unconstrained = [Any_node]"

definition arena_root :: "arena \<Rightarrow> nat" where
  "arena_root A = to_u16 (length A - 1)"

text \<open>\<open>node\<close>; \<open>None\<close> is the index panic.\<close>

definition arena_node :: "arena \<Rightarrow> nat \<Rightarrow> schema_node option" where
  "arena_node A i = (if i < length A then Some (A ! i) else None)"

definition push_node :: "arena \<Rightarrow> schema_node \<Rightarrow> arena \<times> nat" where
  "push_node A n = (A @ [n], to_u16 (length A))"

section \<open>Compiling\<close>

text \<open>The definition a \<open>$ref\<close> names, under either of the two prefixes.\<close>

definition ref_prefixes :: "(u8 list \<times> u8 list) list" where
  "ref_prefixes = [(bytes ''#/$defs/'', bytes ''$defs''), (bytes ''#/definitions/'', bytes ''definitions'')]"

fun ref_target :: "'n json \<Rightarrow> u8 list \<Rightarrow> (u8 list \<times> u8 list) list \<Rightarrow> 'n json option" where
  "ref_target root r [] = None"
| "ref_target root r ((prefix, key) # ps) =
     (case do { name \<leftarrow> strip_prefix prefix r; defs \<leftarrow> jget root key; jget defs name } of
        Some t \<Rightarrow> Some t
      | None \<Rightarrow> ref_target root r ps)"

fun compile_enum :: "('n json \<Rightarrow> u8 list option) \<Rightarrow> 'n json list \<Rightarrow> u8 list list option" where
  "compile_enum ser [] = Some []"
| "compile_enum ser (v # vs) =
     (if as_object v \<noteq> None \<or> as_array v \<noteq> None then None
      else do { b \<leftarrow> ser v; bs \<leftarrow> compile_enum ser vs; Some (b # bs) })"

fun required_mask :: "(u8 list \<times> nat) list \<Rightarrow> 'n json list \<Rightarrow> u64 \<Rightarrow> u64 option" where
  "required_mask ps [] acc = Some acc"
| "required_mask ps (r # rs) acc =
     do { name \<leftarrow> as_str r;
          i \<leftarrow> position (\<lambda>p. fst p = name) ps;
          required_mask ps rs (acc OR push_bit i 1) }"

text \<open>The scalar types, by the name the schema gives them.\<close>

definition scalar_node :: "u8 list \<Rightarrow> schema_node option" where
  "scalar_node ty =
     (if ty = bytes ''string'' then Some Str_node
      else if ty = bytes ''number'' then Some (Number_node False)
      else if ty = bytes ''integer'' then Some (Number_node True)
      else if ty = bytes ''boolean'' then Some Boolean_node
      else if ty = bytes ''null'' then Some Null_node
      else None)"

definition push_or_any :: "arena \<Rightarrow> schema_node option \<Rightarrow> arena \<times> nat" where
  "push_or_any A n = (case n of None \<Rightarrow> (A, ANY) | Some n \<Rightarrow> push_node A n)"

definition push_enum :: "('n json \<Rightarrow> u8 list option) \<Rightarrow> 'n json list \<Rightarrow> arena \<Rightarrow> arena \<times> nat" where
  "push_enum ser vs A =
     (if vs = [] \<or> 64 < length vs then (A, ANY)
      else push_or_any A (map_option Enum_node (compile_enum ser vs)))"

definition has_combinator :: "(u8 list \<times> 'n json) list \<Rightarrow> bool" where
  "has_combinator obj \<longleftrightarrow>
     map_of obj (bytes ''anyOf'') \<noteq> None \<or> map_of obj (bytes ''oneOf'') \<noteq> None
     \<or> map_of obj (bytes ''allOf'') \<noteq> None"

text \<open>What is left of an object schema once its properties are compiled.\<close>

definition finish_object ::
    "(u8 list \<times> 'n json) list \<Rightarrow> arena \<Rightarrow> (u8 list \<times> nat) list \<Rightarrow> arena \<times> nat" where
  "finish_object obj A ps =
     (let req = (case map_of obj (bytes ''required'') \<bind> as_array of
                   None \<Rightarrow> Some 0
                 | Some rs \<Rightarrow> required_mask ps rs 0);
          add = (case map_of obj (bytes ''additionalProperties'') of
                   None \<Rightarrow> True
                 | Some v \<Rightarrow> v \<noteq> JBool False)
      in case req of
           None \<Rightarrow> (A, ANY)
         | Some m \<Rightarrow> push_node A (Object_node ps m add))"

text \<open>
  \<open>compile_node\<close>: the arena is threaded through, and a schema the compiler gives up on leaves
  the nodes it had pushed.
\<close>

function (sequential) compile_node ::
      "('n json \<Rightarrow> u8 list option) \<Rightarrow> 'n json \<Rightarrow> nat \<Rightarrow> 'n json \<Rightarrow> arena \<Rightarrow> arena \<times> nat"
  and compile_props ::
      "('n json \<Rightarrow> u8 list option) \<Rightarrow> 'n json \<Rightarrow> nat \<Rightarrow> (u8 list \<times> 'n json) list \<Rightarrow> arena \<Rightarrow>
       arena \<times> (u8 list \<times> nat) list" where
  "compile_node ser root d schema A =
     (if 32 < d then (A, ANY)
      else case as_object schema of
        None \<Rightarrow> (A, ANY)
      | Some obj \<Rightarrow>
          (case map_of obj (bytes ''$ref'') \<bind> as_str of
             Some r \<Rightarrow>
               (case ref_target root r ref_prefixes of
                  Some target \<Rightarrow> compile_node ser root (d + 1) target A
                | None \<Rightarrow> (A, ANY))
           | None \<Rightarrow>
               (case map_of obj (bytes ''enum'') \<bind> as_array of
                  Some vs \<Rightarrow> push_enum ser vs A
                | None \<Rightarrow>
                    if has_combinator obj then (A, ANY)
                    else
                      let ty = map_of obj (bytes ''type'') \<bind> as_str
                      in if ty = Some (bytes ''object'')
                            \<or> (ty = None \<and> map_of obj (bytes ''properties'') \<noteq> None) then
                           (case map_of obj (bytes ''properties'') \<bind> as_object of
                              None \<Rightarrow> finish_object obj A []
                            | Some kvs \<Rightarrow>
                                if 64 < length kvs then (A, ANY)
                                else
                                  let (A1, ps) = compile_props ser root (d + 1) kvs A
                                  in finish_object obj A1 ps)
                         else if ty = Some (bytes ''array'') then
                           let (A1, it) = (case map_of obj (bytes ''items'') of
                                 None \<Rightarrow> (A, ANY)
                               | Some v \<Rightarrow> compile_node ser root (d + 1) v A)
                           in push_node A1 (Array_node it)
                         else
                           push_or_any A (ty \<bind> scalar_node))))"
| "compile_props ser root d [] A = (A, [])"
| "compile_props ser root d ((name, sub) # kvs) A =
     (let (A1, i) = compile_node ser root d sub A;
          (A2, ps) = compile_props ser root d kvs A1
      in (A2, (name, i) # ps))"
  by pat_completeness auto

termination
  by (relation "inv_image (less_than <*lex*> less_than)
        (\<lambda>x. case x of Inl (_, _, d, _, _) \<Rightarrow> (34 - d, 0) | Inr (_, _, d, kvs, _) \<Rightarrow> (34 - d, 1 + length kvs))")
    auto

declare compile_node.simps [simp del]

text \<open>\<open>compile\<close>; \<open>None\<close> is a panic: the id of the last node at a wrapped length, or a root
  that is a shared node other than \<open>Any\<close>.\<close>

definition compile :: "('n json \<Rightarrow> u8 list option) \<Rightarrow> 'n json \<Rightarrow> arena option" where
  "compile ser schema =
     (let (A, root) = compile_node ser schema 0 schema [Any_node]
      in if to_u16 (length A) = 0 then None
         else if root \<noteq> to_u16 (length A) - 1 then
           (case arena_node A root of
              Some Any_node \<Rightarrow> Some (A @ [Any_node])
            | _ \<Rightarrow> None)
         else Some A)"

end
