(* ===== verification/Token_Table.thy ===== *)
theory Token_Table
  imports Json_Machine "HOL-Library.Monad_Syntax"
begin

text \<open>
  The bytes every vocabulary token produces (\<open>TokenByteTable\<close> of \<open>src/constrain.rs\<close>).  A
  Rust \<open>char\<close> is its code point, a \<open>String\<close> a list of them; the tokenizer's answers
  (\<open>vocab_size\<close>, \<open>id_to_token\<close>, the special and stop ids) are arguments.
\<close>

section \<open>Characters and bytes\<close>

text \<open>UTF-8, as \<open>String::into_bytes\<close> gives it.\<close>

definition utf8 :: "nat \<Rightarrow> u8 list" where
  "utf8 c = map of_nat
     (if c < 0x80 then [c]
      else if c < 0x800 then [0xC0 + c div 64, 0x80 + c mod 64]
      else if c < 0x10000 then [0xE0 + c div 4096, 0x80 + c div 64 mod 64, 0x80 + c mod 64]
      else [0xF0 + c div 262144, 0x80 + c div 4096 mod 64, 0x80 + c div 64 mod 64, 0x80 + c mod 64])"

definition into_bytes :: "nat list \<Rightarrow> u8 list" where
  "into_bytes s = concat (map utf8 s)"

text \<open>\<open>gpt2_char_to_byte\<close>: the pairs in the order the source pushes them.\<close>

definition printable :: "u8 list" where
  "printable = map of_nat ([0x21 ..< 0x7F] @ [0xA1 ..< 0xAD] @ [0xAE ..< 0x100])"

definition gpt2_char_to_byte :: "(nat \<times> u8) list" where
  "gpt2_char_to_byte =
     (let rest = filter (\<lambda>b. b \<notin> set printable) (map of_nat [0 ..< 256])
      in map (\<lambda>b. (unat b, b)) printable @ zip (map (\<lambda>n. 256 + n) [0 ..< length rest]) rest)"

text \<open>\<open>u8::from_str_radix(hex, 16)\<close> on at most two characters: a leading plus sign is skipped.\<close>

definition hex_digit :: "nat \<Rightarrow> nat option" where
  "hex_digit c =
     (if 0x30 \<le> c \<and> c \<le> 0x39 then Some (c - 0x30)
      else if 0x41 \<le> c \<and> c \<le> 0x46 then Some (c - 0x41 + 10)
      else if 0x61 \<le> c \<and> c \<le> 0x66 then Some (c - 0x61 + 10)
      else None)"

definition hex_byte :: "nat list \<Rightarrow> u8 option" where
  "hex_byte s =
     (case s of
        [a, b] \<Rightarrow>
          if a = 0x2B then map_option of_nat (hex_digit b)
          else do { x \<leftarrow> hex_digit a; y \<leftarrow> hex_digit b; Some (of_nat (16 * x + y)) }
      | _ \<Rightarrow> None)"

definition strip_suffix :: "'a list \<Rightarrow> 'a list \<Rightarrow> 'a list option" where
  "strip_suffix suf s = map_option rev (strip_prefix (rev suf) (rev s))"

section \<open>The table\<close>

record token_byte_table =
  tok_bytes :: "u8 list option list"
  stop_ids :: "u32 list"

abbreviation chars :: "string \<Rightarrow> nat list" where
  "chars s \<equiv> map of_char s"

text \<open>The word separators of the two vocabularies.\<close>

definition sp_space :: nat where "sp_space = 0x2581"

definition bpe_space :: nat where "bpe_space = 0x120"

definition bpe_bytes :: "nat list \<Rightarrow> u8 list option" where
  "bpe_bytes tok = those (map (map_of gpt2_char_to_byte) tok)"

definition sp_bytes :: "nat list \<Rightarrow> u8 list option" where
  "sp_bytes tok =
     (let plain = Some (into_bytes (map (\<lambda>c. if c = sp_space then 0x20 else c) tok))
      in case strip_prefix (chars ''<0x'') tok \<bind> strip_suffix (chars ''>'') of
           Some hex \<Rightarrow>
             if length (into_bytes hex) = 2 then map_option (\<lambda>b. [b]) (hex_byte hex) else plain
         | None \<Rightarrow> plain)"

definition sentencepiece :: "nat list option list \<Rightarrow> bool" where
  "sentencepiece tokens =
     (let ts = List.map_filter id tokens
      in length (filter (\<lambda>t. t \<noteq> [] \<and> hd t = bpe_space) ts) < length (filter (\<lambda>t. sp_space \<in> set t) ts))"

text \<open>
  \<open>build\<close>.  The source compares \<open>mapped\<close> with nine tenths of the vocabulary in \<open>f64\<close>, which
  for counts below \<open>2 ^ 53\<close> is the comparison of the integers.
\<close>

definition token_table_build ::
    "nat \<Rightarrow> (u32 \<Rightarrow> nat list option) \<Rightarrow> u32 set \<Rightarrow> u32 list \<Rightarrow> token_byte_table option" where
  "token_table_build vocab_size id_to_token special stops =
     (let tokens = map (\<lambda>i. id_to_token (of_nat i)) [0 ..< vocab_size];
          to_bytes = (if sentencepiece tokens then sp_bytes else bpe_bytes);
          entries = map (\<lambda>(i, tok). case tok of
                Some t \<Rightarrow> if of_nat i \<in> special then None else to_bytes t
              | None \<Rightarrow> None) (zip [0 ..< vocab_size] tokens);
          mapped = length (filter (\<lambda>e. e \<noteq> None) entries)
      in if 10 * mapped < 9 * vocab_size then None
         else Some \<lparr>tok_bytes = entries, stop_ids = stops\<rparr>)"

section \<open>The alphabet\<close>

definition all_bytes :: "u8 list" where
  "all_bytes = map of_nat [0 ..< 256]"

lemma unat_u8: "n < 256 \<Longrightarrow> unat (of_nat n :: u8) = n"
  by (simp add: unat_of_nat)

lemma inj_u8: "inj_on (of_nat :: nat \<Rightarrow> u8) {..<256}"
  by (rule inj_on_inverseI [where g = unat]) (simp add: unat_u8)

lemma u8_lt: "unat (b :: u8) < 256"
proof -
  have "unat b < 2 ^ LENGTH(8)" by (rule unsigned_less)
  then show ?thesis by simp
qed

lemma distinct_u8: "distinct ns \<Longrightarrow> set ns \<subseteq> {..<256} \<Longrightarrow> distinct (map (of_nat :: nat \<Rightarrow> u8) ns)"
  by (simp add: distinct_map inj_on_subset [OF inj_u8])

lemma all_bytes: "distinct all_bytes" "set all_bytes = UNIV"
proof -
  show d: "distinct all_bytes"
    unfolding all_bytes_def by (rule distinct_u8) auto
  have "b \<in> set all_bytes" for b
  proof -
    have "b = of_nat (unat b)" "unat b < 256" using u8_lt by simp_all
    then show ?thesis unfolding all_bytes_def set_map set_upt by (metis atLeastLessThan_iff image_eqI zero_le)
  qed
  then show "set all_bytes = UNIV" by blast
qed

lemma distinct_printable: "distinct printable"
  unfolding printable_def
  by (rule distinct_u8) (auto simp only: distinct_append distinct_upt set_upt set_append atLeastLessThan_iff lessThan_iff)

lemma gpt2_parts:
  obtains rest where "map snd gpt2_char_to_byte = printable @ rest"
    "map fst gpt2_char_to_byte = map unat printable @ map (\<lambda>n. 256 + n) [0 ..< length rest]"
    "rest = filter (\<lambda>b. b \<notin> set printable) all_bytes"
  by (rule that) (auto simp: gpt2_char_to_byte_def all_bytes_def Let_def comp_def)

lemma gpt2_bijective: "distinct (map fst gpt2_char_to_byte) \<and> distinct (map snd gpt2_char_to_byte)"
proof -
  obtain rest where r: "map snd gpt2_char_to_byte = printable @ rest"
    "map fst gpt2_char_to_byte = map unat printable @ map (\<lambda>n. 256 + n) [0 ..< length rest]"
    "rest = filter (\<lambda>b. b \<notin> set printable) all_bytes" by (rule gpt2_parts)
  have "distinct (map unat printable)"
    by (auto simp: distinct_map distinct_printable intro!: inj_onI unsigned_word_eqI)
  moreover have "distinct (map (\<lambda>n. 256 + n) [0 ..< length rest])" by (simp add: distinct_map inj_on_def)
  moreover have "\<not> 256 \<le> unat b" for b :: u8 using u8_lt [of b] by simp
  ultimately have "distinct (map fst gpt2_char_to_byte)" unfolding r(2) distinct_append by auto
  moreover have "distinct (map snd gpt2_char_to_byte)"
    unfolding r(1) using distinct_printable all_bytes(1) by (auto simp: r(3))
  ultimately show ?thesis ..
qed

lemma gpt2_all_bytes: "b \<in> snd ` set gpt2_char_to_byte"
proof -
  obtain rest where r: "map snd gpt2_char_to_byte = printable @ rest"
    "rest = filter (\<lambda>b. b \<notin> set printable) all_bytes" by (rule gpt2_parts)
  have "b \<in> set (printable @ rest)" using all_bytes(2) by (auto simp: r(2))
  then show ?thesis by (metis r(1) set_map)
qed

text \<open>The character that spells a byte.\<close>

definition byte_char :: "u8 \<Rightarrow> nat" where
  "byte_char b = the (map_of (map (\<lambda>(c, b). (b, c)) gpt2_char_to_byte) b)"

lemma byte_char_decodes: "map_of gpt2_char_to_byte (byte_char b) = Some b"
proof -
  let ?T = gpt2_char_to_byte
  obtain c where c: "(c, b) \<in> set ?T" using gpt2_all_bytes [of b] by auto
  have "distinct (map fst (map (\<lambda>(c, b). (b, c)) ?T))"
    using gpt2_bijective by (simp add: comp_def case_prod_unfold)
  then have "map_of (map (\<lambda>(c, b). (b, c)) ?T) b = Some c" using c by (intro map_of_is_SomeI) force+
  then show ?thesis using c gpt2_bijective by (simp add: byte_char_def)
qed

lemma bpe_bytes_spell: "bpe_bytes (map byte_char bs) = Some bs"
  by (induction bs) (simp_all add: bpe_bytes_def byte_char_decodes)

text \<open>The upper-case hexadecimal digits.\<close>

definition hex_char :: "nat \<Rightarrow> nat" where
  "hex_char d = (if d < 10 then 0x30 + d else 0x37 + d)"

lemma hex_digit_char: "d < 16 \<Longrightarrow> hex_digit (hex_char d) = Some d" "d < 16 \<Longrightarrow> hex_char d < 0x80"
  "hex_char d \<noteq> 0x2B"
  by (auto simp: hex_digit_def hex_char_def)

lemma sp_bytes_hex: "sp_bytes (chars ''<0x'' @ [hex_char (unat b div 16), hex_char (unat b mod 16)] @ chars ''>'') = Some [b]"
proof -
  have d: "unat b div 16 < 16" "unat b mod 16 < 16" using u8_lt [of b] by auto
  have "hex_byte [hex_char (unat b div 16), hex_char (unat b mod 16)] = Some (of_nat (16 * (unat b div 16) + unat b mod 16))"
    using hex_digit_char(1) [OF d(1)] hex_digit_char(1) [OF d(2)] by (simp add: hex_byte_def hex_digit_char(3) del: of_nat_add of_nat_mult)
  moreover have "(of_nat (16 * (unat b div 16) + unat b mod 16) :: u8) = b"
    by (simp only: mult_div_mod_eq of_nat_unat ucast_id)
  moreover have "length (into_bytes [hex_char (unat b div 16), hex_char (unat b mod 16)]) = 2"
    using hex_digit_char(2) [OF d(1)] hex_digit_char(2) [OF d(2)] by (simp add: into_bytes_def utf8_def)
  ultimately show ?thesis by (simp add: sp_bytes_def strip_suffix_def Let_def)
qed

end
