(* ===== verification/Json_Guide.thy ===== *)
theory Json_Guide
  imports Json_Schema Token_Table
begin

text \<open>
  The schema guidance and the constraint of a sequence, from \<open>src/constrain.rs\<close>
  (\<open>GuideState\<close>, \<open>TokenByteTable\<close>, \<open>JsonConstraint\<close>).  An index out of range is the panic
  \<open>None\<close>; a refusal is \<open>False\<close> beside the state the source leaves.
\<close>

section \<open>State\<close>

record level =
  lv_node :: nat
  emitted :: u64
  cur_prop :: nat

datatype val_ctx =
    Free_val
  | Enum_scan (scan_node: nat) (scan_alive: u64) (scan_pos: nat)
  | Key_scan (key_alive: u64) (key_pos: nat) (key_any: bool)
  | Int_number

record guide_state =
  levels :: "level list"
  g_depth :: nat
  overflow :: nat
  val_ctx :: val_ctx

definition fresh_level :: "nat \<Rightarrow> level" where
  "fresh_level n = \<lparr>lv_node = n, emitted = 0, cur_prop = NO_PROP\<rparr>"

definition guide_new :: guide_state where
  "guide_new =
     \<lparr>levels = replicate guided_depth (fresh_level ANY), g_depth = 0, overflow = 0, val_ctx = Free_val\<rparr>"

text \<open>\<open>levels[depth - 1]\<close>; the index wraps below zero, which is a panic as well.\<close>

definition top_level :: "guide_state \<Rightarrow> level option" where
  "top_level g = (if g_depth g = 0 then None else nth_opt (levels g) (g_depth g - 1))"

definition set_top :: "guide_state \<Rightarrow> level \<Rightarrow> guide_state" where
  "set_top g l = g\<lparr>levels := (levels g)[g_depth g - 1 := l]\<rparr>"

definition in_mask :: "u64 \<Rightarrow> nat \<Rightarrow> bool" where
  "in_mask m i \<longleftrightarrow> m AND push_bit i 1 \<noteq> 0"

text \<open>The bits of the indices below \<open>n\<close> that satisfy a test.\<close>

definition mask_of :: "nat \<Rightarrow> (nat \<Rightarrow> bool) \<Rightarrow> u64" where
  "mask_of n p = fold (\<lambda>i m. if p i then m OR push_bit i 1 else m) [0 ..< n] 0"

section \<open>What may come next\<close>

definition expected :: "arena \<Rightarrow> nat \<Rightarrow> guide_state \<Rightarrow> nat option" where
  "expected A root g =
     (if 0 < overflow g then Some ANY
      else if g_depth g = 0 then Some root
      else do {
        l \<leftarrow> top_level g;
        n \<leftarrow> arena_node A (lv_node l);
        (case n of
           Array_node it \<Rightarrow> Some it
         | Object_node ps req add \<Rightarrow>
             if cur_prop l = NO_PROP then Some ANY else map_option snd (nth_opt ps (cur_prop l))
         | _ \<Rightarrow> Some ANY) })"

definition has_available_key :: "arena \<Rightarrow> guide_state \<Rightarrow> bool option" where
  "has_available_key A g =
     (if 0 < overflow g \<or> g_depth g = 0 then Some True
      else do {
        l \<leftarrow> top_level g;
        n \<leftarrow> arena_node A (lv_node l);
        (case n of
           Object_node ps req add \<Rightarrow>
             Some (add \<or> list_ex (\<lambda>i. \<not> in_mask (emitted l) i) [0 ..< length ps])
         | _ \<Rightarrow> Some True) })"

definition start_key :: "arena \<Rightarrow> guide_state \<Rightarrow> guide_state option" where
  "start_key A g =
     (if 0 < overflow g \<or> g_depth g = 0 then Some (g\<lparr>val_ctx := Free_val\<rparr>)
      else do {
        l \<leftarrow> top_level g;
        n \<leftarrow> arena_node A (lv_node l);
        (case n of
           Object_node ps req add \<Rightarrow>
             Some (g\<lparr>val_ctx := Key_scan (mask_of (length ps) (\<lambda>i. \<not> in_mask (emitted l) i)) 0 add\<rparr>)
         | _ \<Rightarrow> Some (g\<lparr>val_ctx := Free_val\<rparr>)) })"

definition finish_key :: "arena \<Rightarrow> guide_state \<Rightarrow> (guide_state \<times> bool) option" where
  "finish_key A g =
     (case val_ctx g of
        Key_scan alive pos any \<Rightarrow>
          (let g1 = g\<lparr>val_ctx := Free_val\<rparr>
           in do {
             l \<leftarrow> top_level g1;
             n \<leftarrow> arena_node A (lv_node l);
             (case n of
                Object_node ps req add \<Rightarrow>
                  (case find (\<lambda>i. in_mask alive i \<and> length (fst (ps ! i)) = pos) [0 ..< length ps] of
                     Some i \<Rightarrow>
                       Some (set_top g1 (l\<lparr>emitted := emitted l OR push_bit i 1, cur_prop := to_u16 i\<rparr>), True)
                   | None \<Rightarrow> Some (set_top g1 (l\<lparr>cur_prop := NO_PROP\<rparr>), any))
              | _ \<Rightarrow> Some (g1, True)) })
      | _ \<Rightarrow> Some (g\<lparr>val_ctx := Free_val\<rparr>, True))"

text \<open>A value that ends leaves no property pending.\<close>

definition clear_prop :: "guide_state \<Rightarrow> guide_state option" where
  "clear_prop g = (do { l \<leftarrow> top_level g; Some (set_top g (l\<lparr>cur_prop := NO_PROP\<rparr>)) })"

definition finish_scalar :: "arena \<Rightarrow> guide_state \<Rightarrow> bool \<Rightarrow> u8 \<Rightarrow> (guide_state \<times> bool) option" where
  "finish_scalar A g byte_included b =
     (let g1 = g\<lparr>val_ctx := Free_val\<rparr>
      in do {
        ok \<leftarrow> (case val_ctx g of
           Enum_scan node alive pos \<Rightarrow>
             do { n \<leftarrow> arena_node A node;
                  (case n of
                     Enum_node ls \<Rightarrow>
                       Some (list_ex (\<lambda>i. in_mask alive i
                         \<and> (if byte_included
                            then nth_opt (ls ! i) pos = Some b \<and> length (ls ! i) = pos + 1
                            else length (ls ! i) = pos)) [0 ..< length ls])
                   | _ \<Rightarrow> Some True) }
         | _ \<Rightarrow> Some True);
        g2 \<leftarrow> (if 0 < g_depth g1 \<and> overflow g1 = 0 then clear_prop g1 else Some g1);
        Some (g2, ok) })"

definition close_container :: "arena \<Rightarrow> guide_state \<Rightarrow> (guide_state \<times> bool) option" where
  "close_container A g =
     (if 0 < overflow g then Some (g\<lparr>overflow := overflow g - 1\<rparr>, True)
      else if g_depth g = 0 then Some (g, True)
      else do {
        l \<leftarrow> top_level g;
        n \<leftarrow> arena_node A (lv_node l);
        (let ok = (case n of Object_node ps req add \<Rightarrow> emitted l AND req = req | _ \<Rightarrow> True);
             g1 = g\<lparr>g_depth := g_depth g - 1, val_ctx := Free_val\<rparr>
         in do {
           g2 \<leftarrow> (if 0 < g_depth g1 then clear_prop g1 else Some g1);
           Some (g2, ok) }) })"

section \<open>Entering a value\<close>

text \<open>The container a \<open>{\<close> or \<open>[\<close> opens; past the guided depth it is only counted.\<close>

definition open_level :: "arena \<Rightarrow> guide_state \<Rightarrow> nat \<Rightarrow> guide_state option" where
  "open_level A g node =
     (if 0 < overflow g \<or> guided_depth \<le> g_depth g
      then Some (g\<lparr>overflow := min 255 (overflow g + 1)\<rparr>)
      else do {
        n \<leftarrow> arena_node A node;
        (let lnode = (case n of Object_node _ _ _ \<Rightarrow> node | Array_node _ \<Rightarrow> node | _ \<Rightarrow> ANY)
         in if g_depth g < length (levels g)
            then Some (g\<lparr>levels := (levels g)[g_depth g := fresh_level lnode], g_depth := g_depth g + 1\<rparr>)
            else None) })"

text \<open>What a node lets a value start with, and the scan that follows; \<open>None\<close> when it does not.\<close>

definition first_byte :: "schema_node \<Rightarrow> nat \<Rightarrow> u8 \<Rightarrow> val_ctx option" where
  "first_byte n node b =
     (case n of
        Any_node \<Rightarrow> Some Free_val
      | Object_node _ _ _ \<Rightarrow> if b = b_lbrace then Some Free_val else None
      | Array_node _ \<Rightarrow> if b = b_lbrack then Some Free_val else None
      | Str_node \<Rightarrow> if b = b_quote then Some Free_val else None
      | Number_node int_only \<Rightarrow>
          if b = b_minus \<or> is_digit b then Some (if int_only then Int_number else Free_val) else None
      | Boolean_node \<Rightarrow> if b = b_t \<or> b = b_f then Some Free_val else None
      | Null_node \<Rightarrow> if b = b_n then Some Free_val else None
      | Enum_node ls \<Rightarrow>
          let alive = mask_of (length ls) (\<lambda>i. nth_opt (ls ! i) 0 = Some b)
          in if alive = 0 then None else Some (Enum_scan node alive 1))"

definition enter_value :: "arena \<Rightarrow> guide_state \<Rightarrow> nat \<Rightarrow> u8 \<Rightarrow> (guide_state \<times> bool) option" where
  "enter_value A g node b =
     do {
       n \<leftarrow> arena_node A node;
       (case first_byte n node b of
          None \<Rightarrow> Some (g\<lparr>val_ctx := Free_val\<rparr>, False)
        | Some vc \<Rightarrow>
            (let g1 = g\<lparr>val_ctx := vc\<rparr>
             in if b = b_lbrace \<or> b = b_lbrack
                then map_option (\<lambda>g2. (g2, True)) (open_level A g1 node)
                else Some (g1, True))) }"

section \<open>One byte\<close>

definition scan_next :: "u8 list list \<Rightarrow> u64 \<Rightarrow> nat \<Rightarrow> u8 \<Rightarrow> u64" where
  "scan_next ls alive pos b =
     mask_of (length ls) (\<lambda>i. in_mask alive i \<and> nth_opt (ls ! i) pos = Some b)"

definition content_byte :: "arena \<Rightarrow> guide_state \<Rightarrow> u8 \<Rightarrow> events \<Rightarrow> (guide_state \<times> bool) option" where
  "content_byte A g b ev =
     (case val_ctx g of
        Enum_scan node alive pos \<Rightarrow>
          if ev AND (EV_KEY_END OR EV_SCALAR_END OR EV_OBJ_CLOSE OR EV_ARR_CLOSE) = 0 then
            do {
              n \<leftarrow> arena_node A node;
              (let alive' = (case n of Enum_node ls \<Rightarrow> scan_next ls alive pos b | _ \<Rightarrow> alive)
               in if alive' = 0 then Some (g\<lparr>val_ctx := Enum_scan node alive' pos\<rparr>, False)
                  else Some (g\<lparr>val_ctx := Enum_scan node alive' (to_u16 (pos + 1))\<rparr>, True)) }
          else Some (g, True)
      | Key_scan alive pos any \<Rightarrow>
          if ev AND EV_KEY_END = 0 then
            do {
              l \<leftarrow> top_level g;
              n \<leftarrow> arena_node A (lv_node l);
              (let alive' = (case n of Object_node ps _ _ \<Rightarrow> scan_next (map fst ps) alive pos b | _ \<Rightarrow> alive)
               in if alive' = 0 \<and> \<not> any then Some (g\<lparr>val_ctx := Key_scan alive' pos any\<rparr>, False)
                  else Some (g\<lparr>val_ctx := Key_scan alive' (to_u16 (pos + 1)) any\<rparr>, True)) }
          else Some (g, True)
      | Int_number \<Rightarrow> Some (g, \<not> (b = b_dot \<or> b = b_e \<or> b = b_E))
      | Free_val \<Rightarrow> Some (g, True))"

text \<open>The source's early returns: a refusal ends the byte.\<close>

definition guide_seq ::
    "(guide_state \<times> bool) option \<Rightarrow> (guide_state \<Rightarrow> (guide_state \<times> bool) option) \<Rightarrow> (guide_state \<times> bool) option" where
  "guide_seq r f = do { (g, ok) \<leftarrow> r; if ok then f g else Some (g, False) }"

definition guide_when ::
    "bool \<Rightarrow> (guide_state \<Rightarrow> (guide_state \<times> bool) option) \<Rightarrow> guide_state \<Rightarrow> (guide_state \<times> bool) option" where
  "guide_when c f g = (if c then f g else Some (g, True))"

definition value_or_key ::
    "arena \<Rightarrow> nat \<Rightarrow> u8 \<Rightarrow> events \<Rightarrow> guide_state \<Rightarrow> (guide_state \<times> bool) option" where
  "value_or_key A root b ev g =
     (if ev AND EV_VALUE_START \<noteq> 0 then do { node \<leftarrow> expected A root g; enter_value A g node b }
      else if ev AND EV_KEY_START \<noteq> 0 then
        do { avail \<leftarrow> has_available_key A g;
             if avail then map_option (\<lambda>g1. (g1, True)) (start_key A g) else Some (g, False) }
      else content_byte A g b ev)"

definition on_byte ::
    "arena \<Rightarrow> nat \<Rightarrow> guide_state \<Rightarrow> u8 \<Rightarrow> events \<Rightarrow> bool \<Rightarrow> (guide_state \<times> bool) option" where
  "on_byte A root g b ev was_num =
     guide_seq (guide_when (ev AND EV_SCALAR_END \<noteq> 0 \<and> was_num) (\<lambda>g. finish_scalar A g False b) g) (\<lambda>g.
     guide_seq (guide_when (ev AND EV_OBJ_COMMA \<noteq> 0) (\<lambda>g. map_option (Pair g) (has_available_key A g)) g) (\<lambda>g.
     guide_seq (value_or_key A root b ev g) (\<lambda>g.
     guide_seq (guide_when (ev AND EV_SCALAR_END \<noteq> 0 \<and> \<not> was_num) (\<lambda>g. finish_scalar A g True b) g) (\<lambda>g.
     guide_seq (guide_when (ev AND EV_KEY_END \<noteq> 0) (finish_key A) g) (\<lambda>g.
     guide_when (ev AND (EV_OBJ_CLOSE OR EV_ARR_CLOSE) \<noteq> 0) (close_container A) g)))))"

section \<open>The constraint of a sequence\<close>

record json_constraint =
  table :: token_byte_table
  c_arena :: arena
  c_root :: nat
  machine :: json_machine
  guide :: guide_state
  c_mode :: json_mode

definition json_constraint_new :: "token_byte_table \<Rightarrow> json_mode \<Rightarrow> arena \<Rightarrow> json_constraint" where
  "json_constraint_new tab md A =
     \<lparr>table = tab, c_arena = A, c_root = arena_root A, machine = json_machine_new md,
      guide = guide_new, c_mode = md\<rparr>"

fun walk ::
    "arena \<Rightarrow> nat \<Rightarrow> json_mode \<Rightarrow> json_machine \<Rightarrow> guide_state \<Rightarrow> u8 list \<Rightarrow>
     (json_machine \<times> guide_state \<times> bool) option" where
  "walk A root md m g [] = Some (m, g, True)"
| "walk A root md m g (b # bs) =
     (case step_ev md b m of
        (m1, None) \<Rightarrow> Some (m1, g, False)
      | (m1, Some ev) \<Rightarrow>
          do { (g1, ok) \<leftarrow> on_byte A root g b ev (in_number m);
               if ok then walk A root md m1 g1 bs else Some (m1, g1, False) })"

definition constraint_walk :: "json_constraint \<Rightarrow> u8 list \<Rightarrow> (json_machine \<times> guide_state \<times> bool) option" where
  "constraint_walk c bs = walk (c_arena c) (c_root c) (c_mode c) (machine c) (guide c) bs"

text \<open>Whether one entry of the table may come next.\<close>

definition entry_allowed :: "json_constraint \<Rightarrow> u8 list option \<Rightarrow> bool option" where
  "entry_allowed c e =
     (case e of
        None \<Rightarrow> Some False
      | Some bs \<Rightarrow>
          if bs = [] then Some False
          else map_option (\<lambda>(_, _, ok). ok) (constraint_walk c bs))"

definition allowed :: "json_constraint \<Rightarrow> nat \<Rightarrow> bool list option" where
  "allowed c vocab_size =
     do { es \<leftarrow> those (map (entry_allowed c) (take vocab_size (tok_bytes (table c))));
          (let a0 = es @ replicate (vocab_size - length es) False
           in Some (if accepting (machine c)
                    then fold (\<lambda>i a. if unat i < vocab_size then a[unat i := True] else a) (stop_ids (table c)) a0
                    else a0)) }"

definition advance :: "json_constraint \<Rightarrow> u32 \<Rightarrow> json_constraint option" where
  "advance c token =
     (if token \<in> set (stop_ids (table c)) then Some c
      else case nth_opt (tok_bytes (table c)) (unat token) of
        Some (Some bs) \<Rightarrow>
          do { (m, g, ok) \<leftarrow> constraint_walk c bs;
               Some (if ok then c\<lparr>machine := m, guide := g\<rparr> else c) }
      | _ \<Rightarrow> Some c)"

end
