(* ===== verification/Json_Schema_Inv.thy ===== *)
theory Json_Schema_Inv
  imports Json_Schema
begin

text \<open>What the schema compiler guarantees of its arena, and how large the arena can get.\<close>

section \<open>Well-formed arenas\<close>

text \<open>Ids stay inside the arena, and the bit masks over properties and literals fit 64 bits.\<close>

fun node_ok :: "nat \<Rightarrow> schema_node \<Rightarrow> bool" where
  "node_ok k (Object_node ps req add) \<longleftrightarrow> length ps \<le> 64 \<and> (\<forall>p\<in>set ps. snd p < k)"
| "node_ok k (Array_node it) \<longleftrightarrow> it < k"
| "node_ok k (Enum_node ls) \<longleftrightarrow> ls \<noteq> [] \<and> length ls \<le> 64"
| "node_ok k _ \<longleftrightarrow> True"

definition arena_ok :: "arena \<Rightarrow> bool" where
  "arena_ok A \<longleftrightarrow> A \<noteq> [] \<and> A ! 0 = Any_node \<and> (\<forall>n\<in>set A. node_ok (length A) n)"

lemma node_ok_mono: "node_ok k n \<Longrightarrow> k \<le> k' \<Longrightarrow> node_ok k' n"
  by (cases n) (auto intro: less_le_trans)

lemma arena_ok_unconstrained: "arena_ok [Any_node]"
  by (simp add: arena_ok_def)

text \<open>One more node, with the id it gets.\<close>

lemma push_node_ok:
  assumes "arena_ok A" and "node_ok (length A) n" and "push_node A n = (A', i)" and "length A' \<le> 2 ^ 16"
  shows "arena_ok A' \<and> i = length A \<and> length A' = length A + 1"
  using assms node_ok_mono [of "length A" _ "Suc (length A)"]
  by (auto simp: arena_ok_def push_node_def to_u16_def nth_append)

text \<open>What compiling does to the arena: it only grows, it stays well-formed, and the id is good.\<close>

definition compiled :: "arena \<Rightarrow> arena \<Rightarrow> nat \<Rightarrow> bool" where
  "compiled A A' i \<longleftrightarrow> length A \<le> length A' \<and> (length A' \<le> 2 ^ 16 \<longrightarrow> arena_ok A \<longrightarrow>
     arena_ok A' \<and> i < length A' \<and> (i = ANY \<or> i = length A' - 1))"

lemma compiled_any: "length A \<le> length A' \<Longrightarrow> (length A' \<le> 2 ^ 16 \<Longrightarrow> arena_ok A \<Longrightarrow> arena_ok A') \<Longrightarrow> compiled A A' ANY"
  by (auto simp: compiled_def ANY_def arena_ok_def)

lemma compiled_push:
  assumes "push_node A n = (A', i)" and "arena_ok A \<Longrightarrow> node_ok (length A) n"
  shows "compiled A A' i"
  using assms push_node_ok [OF _ _ assms(1)] by (auto simp: compiled_def push_node_def)

lemma compiled_trans:
  "length A \<le> length A1 \<Longrightarrow> (length A1 \<le> 2 ^ 16 \<Longrightarrow> arena_ok A \<Longrightarrow> arena_ok A1) \<Longrightarrow> compiled A1 A2 i \<Longrightarrow> compiled A A2 i"
  by (auto simp: compiled_def)

lemma compile_enum_length: "compile_enum ser vs = Some ls \<Longrightarrow> length ls = length vs"
  by (induction vs arbitrary: ls) (auto split: if_splits bind_splits)

lemma finish_object_compiled:
  assumes "length A \<le> length A1"
    and "length A1 \<le> 2 ^ 16 \<Longrightarrow> arena_ok A \<Longrightarrow> arena_ok A1 \<and> (\<forall>p\<in>set ps. snd p < length A1)"
    and "length ps \<le> 64" and "finish_object obj A1 ps = (A2, i)"
  shows "compiled A A2 i"
proof (cases "case map_of obj (bytes ''required'') \<bind> as_array of None \<Rightarrow> Some 0 | Some rs \<Rightarrow> required_mask ps rs 0")
  case None
  then have "A2 = A1" "i = ANY" using assms(4) by (auto simp: finish_object_def)
  then show ?thesis using assms(1,2) compiled_any by simp
next
  case (Some m)
  then obtain add where p: "push_node A1 (Object_node ps m add) = (A2, i)"
    using assms(4) by (auto simp: finish_object_def Let_def)
  have l: "length A2 = length A1 + 1" "i = to_u16 (length A1)" using p by (auto simp: push_node_def)
  show ?thesis
    unfolding compiled_def
  proof (intro conjI impI)
    show "length A \<le> length A2" using assms(1) l by simp
    assume s: "length A2 \<le> 2 ^ 16" and a: "arena_ok A"
    have "arena_ok A2 \<and> i = length A1 \<and> length A2 = length A1 + 1"
      using push_node_ok [OF _ _ p s] assms(2,3) s l a by simp
    then show "arena_ok A2" "i < length A2" "i = ANY \<or> i = length A2 - 1" by auto
  qed
qed

lemma push_or_any_compiled:
  "push_or_any A n = (A', i) \<Longrightarrow> (\<And>n'. n = Some n' \<Longrightarrow> node_ok (length A) n') \<Longrightarrow> compiled A A' i"
  using compiled_any [of A A] compiled_push by (auto simp: push_or_any_def split: option.splits)

lemma push_enum_compiled: "push_enum ser vs A = (A', i) \<Longrightarrow> compiled A A' i"
proof (cases "vs = [] \<or> 64 < length vs")
  case False
  assume "push_enum ser vs A = (A', i)"
  then have "push_or_any A (map_option Enum_node (compile_enum ser vs)) = (A', i)" using False by (auto simp: push_enum_def)
  then show ?thesis using False compile_enum_length by (intro push_or_any_compiled) fastforce+
qed (use compiled_any [of A A] in \<open>auto simp: push_enum_def\<close>)

lemma push_scalar_compiled: "push_or_any A (ty \<bind> scalar_node) = (A', i) \<Longrightarrow> compiled A A' i"
  by (rule push_or_any_compiled) (auto simp: scalar_node_def bind_eq_Some_conv split: if_splits)

lemma compiled_array: "compiled A A1 it \<Longrightarrow> push_node A1 (Array_node it) = (A', i) \<Longrightarrow> compiled A A' i"
  using push_node_ok [of A1 "Array_node it" A' i] by (auto simp: compiled_def push_node_def)

lemma compile_compiled:
  "\<And>A' i. compile_node ser root d schema A = (A', i) \<Longrightarrow> compiled A A' i"
  "\<And>A' ps. compile_props ser root d kvs A = (A', ps) \<Longrightarrow>
     length A \<le> length A' \<and> length ps = length kvs
     \<and> (length A' \<le> 2 ^ 16 \<longrightarrow> arena_ok A \<longrightarrow> arena_ok A' \<and> (\<forall>p\<in>set ps. snd p < length A'))"
proof (induction ser root d schema A and ser root d kvs A rule: compile_node_compile_props.induct)
  case (1 ser root d schema A)
  note c = "1.prems" [unfolded compile_node.simps [of ser root d schema A]]
  have any: "compiled A A' i" if "A' = A" "i = ANY" using that compiled_any [of A A] by simp
  show ?case
  proof (cases "32 < d \<or> as_object schema = None")
    case True
    then have "A' = A \<and> i = ANY" using c by (auto split: if_splits)
    then show ?thesis using any by blast
  next
    case False
    then obtain obj where d: "\<not> 32 < d" and obj: "as_object schema = Some obj" by auto
    note c1 = c [simplified d obj if_False option.case]
    show ?thesis
    proof (cases "map_of obj (bytes ''$ref'') \<bind> as_str")
      case (Some r)
      note c2 = c1 [unfolded Some option.case]
      show ?thesis
      proof (cases "ref_target root r ref_prefixes")
        case None
        then show ?thesis using c2 any by simp
      next
        case t: (Some target)
        show ?thesis using "1.IH"(3) [OF d obj Some t] c2 by (simp add: t)
      qed
    next
      case ref: None
      note c2 = c1 [unfolded ref option.case]
      show ?thesis
      proof (cases "map_of obj (bytes ''enum'') \<bind> as_array")
        case (Some vs)
        then show ?thesis using c2 push_enum_compiled by simp
      next
        case enum: None
        note c3 = c2 [unfolded enum option.case]
        let ?ty = "map_of obj (bytes ''type'') \<bind> as_str"
        consider (comb) "has_combinator obj"
          | (obj) "\<not> has_combinator obj" "?ty = Some (bytes ''object'') \<or> (?ty = None \<and> map_of obj (bytes ''properties'') \<noteq> None)"
          | (arr) "\<not> has_combinator obj" "\<not> (?ty = Some (bytes ''object'') \<or> (?ty = None \<and> map_of obj (bytes ''properties'') \<noteq> None))"
              "?ty = Some (bytes ''array'')"
          | (scal) "\<not> has_combinator obj" "\<not> (?ty = Some (bytes ''object'') \<or> (?ty = None \<and> map_of obj (bytes ''properties'') \<noteq> None))"
              "?ty \<noteq> Some (bytes ''array'')"
          by blast
        then show ?thesis
        proof cases
          case comb
          then show ?thesis using c3 any by simp
        next
          case props: obj
          note c4 = c3 [unfolded if_not_P [OF props(1)] Let_def if_P [OF props(2)]]
          show ?thesis
          proof (cases "map_of obj (bytes ''properties'') \<bind> as_object")
            case None
            then show ?thesis using c4 finish_object_compiled [of A A "[]" obj A' i] by simp
          next
            case (Some kvs)
            obtain A1 ps where ps: "compile_props ser root (d + 1) kvs A = (A1, ps)" by fastforce
            show ?thesis
            proof (cases "64 < length kvs")
              case True
              then show ?thesis using c4 any Some by simp
            next
              case False
              then have f: "finish_object obj A1 ps = (A', i)" using c4 ps Some by simp
              show ?thesis
                using finish_object_compiled [OF _ _ _ f] False
                  "1.IH"(1) [OF d obj ref enum props(1) refl props(2) Some False ps] by simp
            qed
          qed
        next
          case arr
          note c4 = c3 [unfolded if_not_P [OF arr(1)] Let_def if_not_P [OF arr(2)] if_P [OF arr(3)]]
          obtain A1 it where it: "(case map_of obj (bytes ''items'') of None \<Rightarrow> (A, ANY)
             | Some v \<Rightarrow> compile_node ser root (d + 1) v A) = (A1, it)" by fastforce
          have "compiled A A1 it"
          proof (cases "map_of obj (bytes ''items'')")
            case None
            then show ?thesis using it compiled_any [of A A] by auto
          next
            case (Some v)
            show ?thesis using "1.IH"(2) [OF d obj ref enum arr(1) refl arr(2,3) Some] it Some by simp
          qed
          then show ?thesis using compiled_array c4 it by simp
        next
          case scal
          note c4 = c3 [unfolded if_not_P [OF scal(1)] Let_def if_not_P [OF scal(2)] if_not_P [OF scal(3)]]
          show ?thesis using push_scalar_compiled [OF c4] .
        qed
      qed
    qed
  qed
next
  case (3 ser root d name sub kvs A)
  obtain A1 i where n: "compile_node ser root d sub A = (A1, i)" by fastforce
  obtain A2 ps2 where p: "compile_props ser root d kvs A1 = (A2, ps2)" by fastforce
  have r: "A' = A2" "ps = (name, i) # ps2" using "3.prems" n p by auto
  have n1: "compiled A A1 i" using "3.IH"(1) [OF n] .
  have p1: "length A1 \<le> length A2 \<and> length ps2 = length kvs \<and> (length A2 \<le> 2 ^ 16 \<longrightarrow> arena_ok A1 \<longrightarrow> arena_ok A2 \<and> (\<forall>p\<in>set ps2. snd p < length A2))"
    using "3.IH"(2) [OF n [symmetric] refl p] .
  show ?case using n1 p1 by (auto simp: r compiled_def)
qed simp

section \<open>How large the arena gets\<close>

text \<open>A schema that refers to itself under every one of its property names.\<close>

definition self_ref :: "'n json" where
  "self_ref = JObj [(bytes ''$ref'', JStr (bytes ''#/$defs/n''))]"

definition self_props :: "u8 list list \<Rightarrow> (u8 list \<times> 'n json) list" where
  "self_props ks = map (\<lambda>k. (k, self_ref)) ks"

definition self_node :: "u8 list list \<Rightarrow> 'n json" where
  "self_node ks = JObj [(bytes ''properties'', JObj (self_props ks))]"

definition self_schema :: "u8 list list \<Rightarrow> 'n json" where
  "self_schema ks = JObj [(bytes ''$defs'', JObj [(bytes ''n'', self_node ks)]), (bytes ''properties'', JObj (self_props ks))]"

text \<open>The nodes compiled below a schema with \<open>k\<close> properties, \<open>n\<close> levels deep.\<close>

fun tree_nodes :: "nat \<Rightarrow> nat \<Rightarrow> nat" where
  "tree_nodes k 0 = 0"
| "tree_nodes k (Suc n) = 1 + k * tree_nodes k n"

lemma tree_nodes_sum: "tree_nodes k n = (\<Sum>i<n. k ^ i)"
proof (induction n)
  case (Suc n)
  have "(\<Sum>i<Suc n. k ^ i) = 1 + k * (\<Sum>i<n. k ^ i)"
    by (simp add: sum.lessThan_Suc_shift sum_distrib_left del: sum.lessThan_Suc)
  then show ?case by (simp add: Suc)
qed simp

lemma ref_self: "ref_target (self_schema ks) (bytes ''#/$defs/n'') ref_prefixes = Some (self_node ks)"
  by (simp add: ref_prefixes_def self_schema_def jget_def)

lemma compile_self_ref:
  "compile_node ser (self_schema ks) d self_ref A =
     (if 32 < d then (A, ANY) else compile_node ser (self_schema ks) (d + 1) (self_node ks) A)"
  by (subst compile_node.simps) (simp add: self_ref_def ref_self [simplified])

lemma compile_props_wide:
  assumes "\<And>A. length (fst (compile_node ser root d self_ref A)) = length A + w"
  shows "length (fst (compile_props ser root d (self_props ks) A)) = length A + length ks * w"
  using assms by (induction ks arbitrary: A) (simp_all add: self_props_def Let_def split: prod.splits, metis fst_conv add.assoc)

lemma finish_object_wide:
  assumes "map_of obj (bytes ''required'') = None"
  shows "length (fst (finish_object obj A ps)) = length A + 1"
  using assms by (simp add: finish_object_def push_node_def Let_def)

lemma compile_wide:
  assumes obj: "schema = self_schema ks \<or> schema = self_node ks" and k: "length ks \<le> 64" and d: "\<not> 32 < d"
    and w: "\<And>A. length (fst (compile_node ser root (d + 1) self_ref A)) = length A + w"
  shows "length (fst (compile_node ser root d schema A)) = length A + (1 + length ks * w)"
proof -
  obtain kvs where kvs: "schema = JObj kvs" "map_of kvs (bytes ''properties'') = Some (JObj (self_props ks))"
    "\<forall>k\<in>{bytes ''$ref'', bytes ''enum'', bytes ''anyOf'', bytes ''oneOf'', bytes ''allOf'', bytes ''type'', bytes ''required''}.
      map_of kvs k = None"
    using obj by (auto simp: self_schema_def self_node_def)
  have "compile_node ser root d schema A =
    (let (A1, ps) = compile_props ser root (d + 1) (self_props ks) A in finish_object kvs A1 ps)"
    using kvs d k by (subst compile_node.simps) (simp add: has_combinator_def self_props_def)
  moreover have "length (fst (compile_props ser root (d + 1) (self_props ks) A)) = length A + length ks * w"
    by (rule compile_props_wide) (rule w)
  ultimately show ?thesis using finish_object_wide [of kvs] kvs(3) by (auto simp: Let_def split: prod.splits)
qed

lemma compile_self_node:
  assumes "length ks \<le> 64"
  shows "length (fst (compile_node ser (self_schema ks) d (self_node ks) A)) = length A + tree_nodes (length ks) ((34 - d) div 2)"
proof (induction "(34 - d) div 2" arbitrary: d A)
  case 0
  then have "32 < d" by presburger
  then show ?case by (simp add: compile_node.simps flip: 0)
next
  case (Suc n)
  then have d: "\<not> 32 < d" by auto
  have n: "n = (34 - (d + 2)) div 2" using Suc(2) by simp
  have w: "length (fst (compile_node ser (self_schema ks) (d + 1) self_ref B)) = length B + tree_nodes (length ks) n" for B
    using Suc(1) [OF n, of B] n by (auto simp: compile_self_ref)
  show ?case using compile_wide [OF _ assms d w, of "self_node ks"] by (simp flip: Suc(2))
qed

end
