(* ===== verification/Json_Guide_Inv.thy ===== *)
theory Json_Guide_Inv
  imports Json_Guide Json_Schema_Inv Json_Soundness
begin

text \<open>
  The schema guidance keeps step with the automaton: its levels are the innermost of the open
  containers, and no index it forms is out of range.
\<close>

section \<open>The events of a step\<close>

lemmas ev_defs = EV_VALUE_START_def EV_SCALAR_END_def EV_OBJ_OPEN_def EV_OBJ_CLOSE_def EV_ARR_OPEN_def
  EV_ARR_CLOSE_def EV_KEY_START_def EV_KEY_END_def EV_OBJ_COMMA_def

definition closes :: "jstate \<Rightarrow> u8 \<Rightarrow> bool" where
  "closes s b \<longleftrightarrow> (b = b_rbrace \<and> (s = Obj_first \<or> s = Obj_next \<or> is_num_state s))
     \<or> (b = b_rbrack \<and> (s = Arr_first \<or> s = Arr_next \<or> is_num_state s))"

definition ends_key :: "jstate \<Rightarrow> u8 \<Rightarrow> bool" where
  "ends_key s b \<longleftrightarrow> b = b_quote \<and> s = Str False 0 True"

definition starts_key :: "jstate \<Rightarrow> u8 \<Rightarrow> bool" where
  "starts_key s b \<longleftrightarrow> b = b_quote \<and> (s = Obj_first \<or> s = Obj_comma)"

lemma ev_value_start: "step_events s t b AND EV_VALUE_START \<noteq> 0 \<longleftrightarrow> ev_value_started s b"
  by (auto simp: step_events_def byte_events_def ev_defs ev_value_started_def split: jstate.splits if_splits)

lemma ev_close: "step_events s t b AND (EV_OBJ_CLOSE OR EV_ARR_CLOSE) \<noteq> 0 \<longleftrightarrow> closes s b"
  by (auto simp: step_events_def byte_events_def ev_defs closes_def ev_value_started_def split: jstate.splits if_splits)

lemma ev_key_end: "step_events s t b AND EV_KEY_END \<noteq> 0 \<longleftrightarrow> ends_key s b"
  by (auto simp: step_events_def byte_events_def ev_defs ends_key_def ev_value_started_def split: jstate.splits if_splits)

lemma ev_key_start: "step_events s t b AND EV_KEY_START \<noteq> 0 \<longleftrightarrow> starts_key s b"
  by (auto simp: step_events_def byte_events_def ev_defs starts_key_def ev_value_started_def split: jstate.splits if_splits)

text \<open>How a step moves the depth, by the state it starts in.\<close>

definition moves :: "jstate \<Rightarrow> u8 \<Rightarrow> nat \<Rightarrow> nat \<Rightarrow> bool" where
  "moves s b d d' \<longleftrightarrow>
     (if ev_value_started s b \<and> (b = b_lbrace \<or> b = b_lbrack) then d' = d + 1 \<and> d < 64
      else if closes s b then d = d' + 1
      else d' = d)"

lemma start_value_moves:
  assumes "start_value m b t = (m1, True)"
  shows "if b = b_lbrace \<or> b = b_lbrack then depth m1 = depth m + 1 \<and> depth m < 64 else depth m1 = depth m"
  using assms by (auto simp: start_value_def is_ws_def jpush_def max_depth_def Let_def split: if_splits)

lemma close_with_moves: "close_with m = (m1, True) \<Longrightarrow> depth m = depth m1 + 1"
  by (auto simp: close_with_def jpop_def Let_def split: if_splits)

lemma step_core_moves:
  assumes "step_core again mode b m = (m1, True)" and "\<not> is_num_state (jstate m)"
  shows "moves (jstate m) b (depth m) (depth m1)"
proof (cases "jstate m")
  case Value
  then show ?thesis
    using assms start_value_moves [of m b "object_only mode" m1]
    by (auto simp: step_core_def moves_def ev_value_started_def closes_def is_ws_def split: if_splits)
next
  case Arr_first
  then show ?thesis
    using assms start_value_moves [of "m\<lparr>jstate := Value\<rparr>" b "object_only mode" m1] close_with_moves [of m m1]
    by (auto simp: step_core_def moves_def ev_value_started_def closes_def is_ws_def split: if_splits)
qed (use assms close_with_moves [of m m1] in
  \<open>auto simp: step_core_def moves_def ev_value_started_def closes_def str_step_def lit_step_def Let_def split: if_splits\<close>)

lemma step_moves_once:
  assumes "step mode b m = (m1, True)" and "\<not> is_num_state (jstate m)"
  shows "moves (jstate m) b (depth m) (depth m1)"
proof -
  obtain m2 where "step_inner mode b m = (m2, True)" "m1 = m2\<lparr>ws_run := (if is_ws b then ws_run m2 + 1 else 0)\<rparr>"
    using step_inner_ok [OF assms(1)] by blast
  then show ?thesis using step_core_moves [of _ mode b m m2] assms(2) by (simp add: step_inner_def)
qed

lemma step_ev_ok:
  assumes "step_ev mode b m = (m1, Some ev)"
  obtains m2 where "step_inner mode b m = (m2, True)" "m1 = m2\<lparr>ws_run := (if is_ws b then ws_run m2 + 1 else 0)\<rparr>"
    "ev = step_events (jstate m) (jstate m1) b" "step mode b m = (m1, True)"
  using assms by (auto simp: step_ev_def ev_around_def step_def Let_def split: if_splits prod.splits)

lemma step_ev_moves:
  assumes "step_ev mode b m = (m1, Some ev)"
  shows "moves (jstate m) b (depth m) (depth m1)"
proof (cases "is_num_state (jstate m)")
  case False
  then show ?thesis using step_ev_ok [OF assms] step_moves_once by metis
next
  case True
  then obtain n where n: "jstate m = Num n" by (cases "jstate m") auto
  obtain m2 where m2: "step_inner mode b m = (m2, True)" "m1 = m2\<lparr>ws_run := (if is_ws b then ws_run m2 + 1 else 0)\<rparr>"
    using step_ev_ok [OF assms] by blast
  show ?thesis
  proof (cases "num_next n b")
    case (Some n2)
    then have "\<not> closes (Num n) b"
      by (cases n) (auto simp: closes_def is_digit19_def is_digit_def split: if_splits)
    then show ?thesis using m2 n Some by (auto simp: step_inner_rec step_core_def moves_def ev_value_started_def)
  next
    case None
    then have r: "step mode b (m\<lparr>jstate := after_value m\<rparr>) = (m2, True)"
      using m2(1) n by (auto simp: step_inner_rec step_core_def split: if_splits)
    have "moves (after_value m) b (depth m) (depth m2)"
      using step_moves_once [OF r] by (simp add: after_value_not_num)
    moreover have "b = b_rbrace \<Longrightarrow> after_value m = Obj_next" "b = b_rbrack \<Longrightarrow> after_value m = Arr_next"
      using r by (auto simp: step_def step_ev_def ev_around_def step_inner_def step_core_def after_value_def is_ws_def
          Let_def split: if_splits prod.splits)
    ultimately show ?thesis
      by (auto simp: m2(2) n moves_def closes_def ev_value_started_def after_value_def split: if_splits)
  qed
qed

lemma step_ev_key:
  assumes "step_ev mode b m = (m1, Some ev)" and "jstate m = Str e u True"
  shows "if ends_key (jstate m) b then jstate m1 = Colon else \<exists>e' u'. jstate m1 = Str e' u' True"
proof -
  obtain m2 where m2: "step_inner mode b m = (m2, True)" "m1 = m2\<lparr>ws_run := (if is_ws b then ws_run m2 + 1 else 0)\<rparr>"
    using step_ev_ok [OF assms(1)] by blast
  then show ?thesis
    using assms(2) by (auto simp: step_inner_def step_core_def str_step_def ends_key_def is_hex_def is_digit_def is_escape_def split: if_splits)
qed

lemma step_ev_starts_key:
  assumes "step_ev mode b m = (m1, Some ev)" and "starts_key (jstate m) b"
  shows "jstate m1 = Str False 0 True"
proof -
  obtain m2 where m2: "step_inner mode b m = (m2, True)" "m1 = m2\<lparr>ws_run := (if is_ws b then ws_run m2 + 1 else 0)\<rparr>"
    using step_ev_ok [OF assms(1)] by blast
  then show ?thesis
    using assms(2) by (auto simp: step_inner_def step_core_def starts_key_def is_ws_def)
qed

section \<open>The invariant of the guide\<close>

definition level_ok :: "arena \<Rightarrow> level \<Rightarrow> bool" where
  "level_ok A l \<longleftrightarrow> lv_node l < length A
     \<and> (\<forall>ps req add. A ! lv_node l = Object_node ps req add \<longrightarrow> cur_prop l = NO_PROP \<or> cur_prop l < length ps)"

definition guide_ok :: "arena \<Rightarrow> guide_state \<Rightarrow> bool" where
  "guide_ok A g \<longleftrightarrow> length (levels g) = guided_depth \<and> g_depth g \<le> guided_depth
     \<and> (\<forall>i < g_depth g. level_ok A (levels g ! i))
     \<and> (0 < overflow g \<longrightarrow> g_depth g = guided_depth)
     \<and> (\<forall>n alive pos. val_ctx g = Enum_scan n alive pos \<longrightarrow> n < length A)
     \<and> (\<forall>alive pos any. val_ctx g = Key_scan alive pos any \<longrightarrow> 0 < g_depth g)"

text \<open>The containers the guide counts.\<close>

definition g_total :: "guide_state \<Rightarrow> nat" where
  "g_total g = g_depth g + overflow g"

definition in_key :: "guide_state \<Rightarrow> bool" where
  "in_key g \<longleftrightarrow> (\<exists>alive pos any. val_ctx g = Key_scan alive pos any)"

lemma guide_ok_val:
  "guide_ok A g \<Longrightarrow> (\<And>n alive pos. v = Enum_scan n alive pos \<Longrightarrow> n < length A) \<Longrightarrow>
     (\<And>alive pos any. v = Key_scan alive pos any \<Longrightarrow> 0 < g_depth g) \<Longrightarrow> guide_ok A (g\<lparr>val_ctx := v\<rparr>)"
  by (simp add: guide_ok_def)

lemma guide_ok_free: "guide_ok A g \<Longrightarrow> guide_ok A (g\<lparr>val_ctx := Free_val\<rparr>)"
  by (simp add: guide_ok_def)

lemma top_level_ok:
  assumes "guide_ok A g" and "0 < g_depth g"
  shows "top_level g = Some (levels g ! (g_depth g - 1))" "level_ok A (levels g ! (g_depth g - 1))"
    "arena_node A (lv_node (levels g ! (g_depth g - 1))) = Some (A ! lv_node (levels g ! (g_depth g - 1)))"
  using assms by (auto simp: guide_ok_def top_level_def nth_opt_def arena_node_def level_ok_def)

lemma set_top_ok: "guide_ok A g \<Longrightarrow> level_ok A l \<Longrightarrow> guide_ok A (set_top g l)"
  by (auto simp: guide_ok_def set_top_def nth_list_update)

lemma set_top_simps [simp]:
  "g_depth (set_top g l) = g_depth g" "overflow (set_top g l) = overflow g" "val_ctx (set_top g l) = val_ctx g"
  by (simp_all add: set_top_def)

lemma level_no_prop: "level_ok A l \<Longrightarrow> level_ok A (l\<lparr>cur_prop := NO_PROP\<rparr>)"
  by (simp add: level_ok_def)

lemma clear_prop_ok:
  assumes "guide_ok A g" and "0 < g_depth g"
  shows "\<exists>g'. clear_prop g = Some g' \<and> guide_ok A g' \<and> g_depth g' = g_depth g \<and> overflow g' = overflow g \<and> val_ctx g' = val_ctx g"
  using top_level_ok [OF assms] assms set_top_ok level_no_prop by (simp add: clear_prop_def)

text \<open>An operation returns, and what it leaves when it does not refuse.\<close>

definition gives :: "(guide_state \<times> bool) option \<Rightarrow> (guide_state \<Rightarrow> bool) \<Rightarrow> bool" where
  "gives r P \<longleftrightarrow> (\<exists>g ok. r = Some (g, ok) \<and> (ok \<longrightarrow> P g))"

lemma gives_simps [simp]:
  "gives (Some (g, ok)) P \<longleftrightarrow> (ok \<longrightarrow> P g)"
  "gives (map_option (\<lambda>g. (g, True)) r) P \<longleftrightarrow> (\<exists>g. r = Some g \<and> P g)"
  "gives (map_option (Pair g) v) P \<longleftrightarrow> (\<exists>ok. v = Some ok \<and> (ok \<longrightarrow> P g))"
  by (auto simp: gives_def)

lemma gives_mono: "gives r P \<Longrightarrow> (\<And>g. P g \<Longrightarrow> Q g) \<Longrightarrow> gives r Q"
  by (auto simp: gives_def)

lemma gives_seq: "gives r P \<Longrightarrow> (\<And>g. P g \<Longrightarrow> gives (f g) Q) \<Longrightarrow> gives (guide_seq r f) Q"
  by (auto simp: gives_def guide_seq_def)

lemma gives_when: "(c \<Longrightarrow> gives (f g) P) \<Longrightarrow> (\<not> c \<Longrightarrow> P g) \<Longrightarrow> gives (guide_when c f g) P"
  by (auto simp: gives_def guide_when_def)

lemma expected_ok:
  assumes "arena_ok A" and "guide_ok A g" and "root < length A"
  shows "\<exists>n. expected A root g = Some n \<and> n < length A"
proof (cases "0 < overflow g \<or> g_depth g = 0")
  case True
  then show ?thesis using assms by (auto simp: expected_def ANY_def arena_ok_def)
next
  case False
  let ?l = "levels g ! (g_depth g - 1)"
  note t = top_level_ok [OF assms(2)]
  have a: "node_ok (length A) (A ! lv_node ?l)" "0 < length A"
    using assms(1) t(2) False by (auto simp: arena_ok_def level_ok_def)
  show ?thesis
  proof (cases "A ! lv_node ?l")
    case (Object_node ps req add)
    then have "cur_prop ?l = NO_PROP \<or> cur_prop ?l < length ps" using t(2) False by (auto simp: level_ok_def)
    moreover have "snd (ps ! cur_prop ?l) < length A" if "cur_prop ?l < length ps" using a(1) Object_node that by simp
    ultimately show ?thesis using t(1,3) False a(2) Object_node by (cases "cur_prop ?l = NO_PROP") (auto simp: expected_def nth_opt_def ANY_def)
  qed (use t False a in \<open>auto simp: expected_def ANY_def\<close>)
qed

lemma has_available_key_ok: "guide_ok A g \<Longrightarrow> \<exists>v. has_available_key A g = Some v"
  using top_level_ok [of A g] by (auto simp: has_available_key_def split: schema_node.splits)

lemma start_key_ok:
  assumes "guide_ok A g"
  shows "\<exists>g'. start_key A g = Some g' \<and> guide_ok A g' \<and> g_total g' = g_total g"
  using top_level_ok [OF assms] assms guide_ok_free [OF assms]
  by (auto simp: start_key_def g_total_def guide_ok_def split: schema_node.splits)

lemma finish_key_ok:
  assumes "arena_ok A" and "guide_ok A g"
  shows "gives (finish_key A g) (\<lambda>g'. guide_ok A g' \<and> g_total g' = g_total g \<and> \<not> in_key g')"
proof (cases "val_ctx g")
  case (Key_scan alive pos any)
  let ?g = "g\<lparr>val_ctx := Free_val\<rparr>" let ?l = "levels g ! (g_depth g - 1)"
  have d: "0 < g_depth g" "guide_ok A ?g" using assms(2) Key_scan guide_ok_free by (auto simp: guide_ok_def)
  note t = top_level_ok [OF d(2)]
  show ?thesis
  proof (cases "A ! lv_node ?l")
    case (Object_node ps req add)
    have ps: "length ps \<le> 64"
      using assms(1) t(2) d Object_node by (force simp: arena_ok_def level_ok_def dest: nth_mem)
    have "level_ok A (?l\<lparr>emitted := m, cur_prop := to_u16 i\<rparr>)" if "i < length ps" for i m
      using t(2) d that ps Object_node by (simp add: level_ok_def to_u16_def)
    moreover have "level_ok A (?l\<lparr>cur_prop := NO_PROP\<rparr>)" using t(2) d level_no_prop by simp
    ultimately show ?thesis
      using t d Key_scan Object_node set_top_ok [OF d(2)]
      by (auto simp: finish_key_def gives_def g_total_def in_key_def Let_def find_Some_iff split: option.splits)
  qed (use t d Key_scan in \<open>auto simp: finish_key_def gives_def g_total_def in_key_def\<close>)
qed (use assms guide_ok_free in \<open>auto simp: finish_key_def gives_def g_total_def in_key_def\<close>)

lemma finish_scalar_ok:
  assumes "guide_ok A g"
  shows "gives (finish_scalar A g incl b) (\<lambda>g'. guide_ok A g' \<and> g_total g' = g_total g \<and> \<not> in_key g')"
proof -
  let ?g = "g\<lparr>val_ctx := Free_val\<rparr>"
  have g: "guide_ok A ?g" using assms by (rule guide_ok_free)
  have "\<exists>v. (case val_ctx g of
           Enum_scan node alive pos \<Rightarrow>
             do { n \<leftarrow> arena_node A node;
                  (case n of
                     Enum_node ls \<Rightarrow>
                       Some (list_ex (\<lambda>i. in_mask alive i
                         \<and> (if incl then nth_opt (ls ! i) pos = Some b \<and> length (ls ! i) = pos + 1
                            else length (ls ! i) = pos)) [0 ..< length ls])
                   | _ \<Rightarrow> Some True) }
         | _ \<Rightarrow> Some True) = Some v"
    using assms by (auto simp: guide_ok_def arena_node_def split: val_ctx.splits schema_node.splits)
  moreover have "\<exists>g'. (if 0 < g_depth ?g \<and> overflow ?g = 0 then clear_prop ?g else Some ?g) = Some g'
      \<and> guide_ok A g' \<and> g_depth g' = g_depth g \<and> overflow g' = overflow g \<and> val_ctx g' = Free_val"
    using clear_prop_ok [OF g] g by (cases "0 < g_depth ?g \<and> overflow ?g = 0") auto
  ultimately show ?thesis
    unfolding finish_scalar_def Let_def gives_def g_total_def in_key_def by fastforce
qed

lemma close_container_ok:
  assumes "guide_ok A g" and "\<not> in_key g"
  shows "gives (close_container A g) (\<lambda>g'. guide_ok A g' \<and> g_total g' = g_total g - 1 \<and> \<not> in_key g')"
proof -
  consider "0 < overflow g" | "overflow g = 0" "g_depth g = 0" | "overflow g = 0" "0 < g_depth g" by blast
  then show ?thesis
  proof cases
    case 1
    moreover have "guide_ok A (g\<lparr>overflow := overflow g - 1\<rparr>)" using assms(1) 1 by (simp add: guide_ok_def guided_depth_def)
    ultimately show ?thesis using assms(2) by (simp add: close_container_def g_total_def in_key_def)
  next
    case 2
    then show ?thesis using assms by (simp add: close_container_def g_total_def)
  next
    case 3
    note t = top_level_ok [OF assms(1) 3(2)]
    let ?g = "g\<lparr>g_depth := g_depth g - 1, val_ctx := Free_val\<rparr>"
    have g: "guide_ok A ?g" using assms(1) 3 by (auto simp: guide_ok_def)
    have "\<exists>g'. (if 0 < g_depth ?g then clear_prop ?g else Some ?g) = Some g'
      \<and> guide_ok A g' \<and> g_depth g' = g_depth g - 1 \<and> overflow g' = 0 \<and> val_ctx g' = Free_val"
      using clear_prop_ok [OF g] g 3 by (cases "0 < g_depth ?g") auto
    then show ?thesis
      using t 3 unfolding close_container_def gives_def g_total_def in_key_def Let_def by fastforce
  qed
qed

lemma open_level_ok:
  assumes "arena_ok A" and "guide_ok A g" and "node < length A" and "g_total g < 64"
  shows "\<exists>g'. open_level A g node = Some g' \<and> guide_ok A g' \<and> g_total g' = g_total g + 1 \<and> val_ctx g' = val_ctx g"
proof (cases "0 < overflow g \<or> guided_depth \<le> g_depth g")
  case True
  then show ?thesis using assms by (auto simp: open_level_def guide_ok_def g_total_def)
next
  case False
  have "level_ok A (fresh_level n)" if "n < length A" for n using that by (simp add: level_ok_def fresh_level_def)
  moreover have "ANY < length A" using assms(1) by (simp add: arena_ok_def ANY_def)
  ultimately have "guide_ok A (g\<lparr>levels := (levels g)[g_depth g := fresh_level n], g_depth := g_depth g + 1\<rparr>)"
    if "n = node \<or> n = ANY" for n
    using that assms(2,3) False by (auto simp: guide_ok_def nth_list_update less_Suc_eq)
  then show ?thesis
    using assms(2,3) False
    by (auto simp: open_level_def arena_node_def g_total_def guide_ok_def[of A g] Let_def split: schema_node.splits)
qed

lemma enter_value_ok:
  assumes "arena_ok A" and "guide_ok A g" and "node < length A" and "b = b_lbrace \<or> b = b_lbrack \<Longrightarrow> g_total g < 64"
  shows "gives (enter_value A g node b) (\<lambda>g'. guide_ok A g' \<and> \<not> in_key g'
    \<and> g_total g' = g_total g + (if b = b_lbrace \<or> b = b_lbrack then 1 else 0))"
proof (cases "first_byte (A ! node) node b")
  case None
  then show ?thesis using assms by (auto simp: enter_value_def arena_node_def)
next
  case (Some vc)
  have vc: "vc \<noteq> Key_scan a p y" "vc = Enum_scan n a p \<Longrightarrow> n = node" for a p y n
    using Some by (auto simp: first_byte_def Let_def split: schema_node.splits if_splits)
  then have g: "guide_ok A (g\<lparr>val_ctx := vc\<rparr>)" using assms(2,3) by (intro guide_ok_val) auto
  have e: "enter_value A g node b =
      (if b = b_lbrace \<or> b = b_lbrack then map_option (\<lambda>g2. (g2, True)) (open_level A (g\<lparr>val_ctx := vc\<rparr>) node)
       else Some (g\<lparr>val_ctx := vc\<rparr>, True))"
    using Some assms(3) by (simp add: enter_value_def arena_node_def)
  show ?thesis
  proof (cases "b = b_lbrace \<or> b = b_lbrack")
    case True
    then obtain g' where "open_level A (g\<lparr>val_ctx := vc\<rparr>) node = Some g'" "guide_ok A g'" "g_total g' = g_total g + 1" "val_ctx g' = vc"
      using open_level_ok [OF assms(1) g assms(3)] assms(4) by (auto simp: g_total_def)
    then show ?thesis using True vc(1) unfolding e by (auto simp: in_key_def)
  next
    case False
    then show ?thesis using g vc(1) unfolding e by (auto simp: in_key_def g_total_def)
  qed
qed

lemma content_byte_ok:
  assumes "guide_ok A g"
  shows "gives (content_byte A g b ev) (\<lambda>g'. guide_ok A g' \<and> g_total g' = g_total g \<and> (in_key g' \<longrightarrow> in_key g))"
proof (cases "val_ctx g")
  case (Enum_scan n alive pos)
  then have "n < length A" using assms by (simp add: guide_ok_def)
  then show ?thesis
    using assms Enum_scan guide_ok_val [OF assms]
    by (auto simp: content_byte_def arena_node_def in_key_def g_total_def Let_def)
next
  case (Key_scan alive pos any)
  then have d: "0 < g_depth g" using assms by (simp add: guide_ok_def)
  show ?thesis
    using Key_scan d top_level_ok [OF assms d] guide_ok_val [OF assms] assms
    by (auto simp: content_byte_def in_key_def g_total_def Let_def)
qed (use assms in \<open>auto simp: content_byte_def\<close>)

section \<open>The guide and the automaton\<close>

definition in_step :: "arena \<Rightarrow> json_machine \<Rightarrow> guide_state \<Rightarrow> bool" where
  "in_step A m g \<longleftrightarrow> guide_ok A g \<and> depth m = g_total g \<and> (in_key g \<longrightarrow> (\<exists>e u. jstate m = Str e u True))"

lemma on_byte_ok:
  assumes A: "arena_ok A" "root < length A" and g: "in_step A m g" and st: "step_ev md b m = (m1, Some ev)"
  shows "gives (on_byte A root g b ev w) (in_step A m1)"
proof -
  obtain ev: "ev = step_events (jstate m) (jstate m1) b" using step_ev_ok [OF st] by blast
  note bits = ev_value_start ev_close ev_key_end ev_key_start
  note mv = step_ev_moves [OF st]
  let ?s = "jstate m"
  let ?open = "ev_value_started ?s b \<and> (b = b_lbrace \<or> b = b_lbrack)"
  let ?P = "\<lambda>g. guide_ok A g \<and> g_total g = depth m \<and> (in_key g \<longrightarrow> (\<exists>e u. ?s = Str e u True))"
  let ?Q = "\<lambda>g. guide_ok A g \<and> g_total g = depth m + (if ?open then 1 else 0)
      \<and> (in_key g \<longrightarrow> ends_key ?s b \<or> (\<exists>e u. jstate m1 = Str e u True) \<and> \<not> closes ?s b)"
  let ?R = "\<lambda>g. guide_ok A g \<and> g_total g = depth m + (if ?open then 1 else 0)
      \<and> (in_key g \<longrightarrow> (\<exists>e u. jstate m1 = Str e u True) \<and> \<not> closes ?s b)"
  have p: "?P g" using g by (simp add: in_step_def)
  have scal: "gives (finish_scalar A g incl b) P"
    if "guide_ok A g" "\<And>g'. guide_ok A g' \<Longrightarrow> g_total g' = g_total g \<Longrightarrow> \<not> in_key g' \<Longrightarrow> P g'" for g incl P
    using finish_scalar_ok [OF that(1), of incl b] that(2) by (auto simp: gives_def)
  have vk: "gives (value_or_key A root b ev g) ?Q" if P: "?P g" for g
  proof (cases "ev_value_started ?s b")
    case True
    have "b = b_lbrace \<or> b = b_lbrack \<Longrightarrow> g_total g < 64" using mv P True by (auto simp: moves_def)
    then obtain n where "expected A root g = Some n" "gives (enter_value A g n b) (\<lambda>g'. guide_ok A g' \<and> \<not> in_key g'
        \<and> g_total g' = g_total g + (if b = b_lbrace \<or> b = b_lbrack then 1 else 0))"
      using expected_ok [OF A(1) conjunct1 [OF P] A(2)] enter_value_ok [OF A(1) conjunct1 [OF P]] by blast
    then show ?thesis using True P by (auto simp: value_or_key_def bits ev elim!: gives_mono)
  next
    case nv: False
    show ?thesis
    proof (cases "starts_key ?s b")
      case True
      then have not_closes: "\<not> closes ?s b" by (simp add: starts_key_def closes_def)
      show ?thesis
        using True nv P has_available_key_ok [of A g] start_key_ok [of A g] step_ev_starts_key [OF st True] not_closes
        by (auto simp: value_or_key_def bits ev)
    next
      case False
      have "in_key g \<Longrightarrow> ends_key ?s b \<or> (\<exists>e u. jstate m1 = Str e u True) \<and> \<not> closes ?s b"
        using P step_ev_key [OF st] by (fastforce simp: closes_def)
      then show ?thesis
        using nv False P gives_mono [OF content_byte_ok [OF conjunct1 [OF P], of b ev], of ?Q]
        by (simp add: value_or_key_def bits ev)
    qed
  qed
  show ?thesis
    unfolding on_byte_def
  proof (intro gives_seq)
    show "gives (guide_when (ev AND EV_SCALAR_END \<noteq> 0 \<and> w) (\<lambda>g. finish_scalar A g False b) g) ?P"
      using p by (intro gives_when scal) auto
    show "gives (guide_when (ev AND EV_OBJ_COMMA \<noteq> 0) (\<lambda>g. map_option (Pair g) (has_available_key A g)) g) ?P"
      if "?P g" for g
      using that has_available_key_ok [of A g] by (intro gives_when) (auto simp: gives_def)
    show "gives (value_or_key A root b ev g) ?Q" if "?P g" for g using vk [OF that] .
    show "gives (guide_when (ev AND EV_SCALAR_END \<noteq> 0 \<and> \<not> w) (\<lambda>g. finish_scalar A g True b) g) ?Q" if "?Q g" for g
      using that by (intro gives_when scal) auto
    show "gives (guide_when (ev AND EV_KEY_END \<noteq> 0) (finish_key A) g) ?R" if "?Q g" for g
      using that finish_key_ok [OF A(1), of g] unfolding bits ev by (intro gives_when) (auto simp: gives_def)
    show "gives (guide_when (ev AND (EV_OBJ_CLOSE OR EV_ARR_CLOSE) \<noteq> 0) (close_container A) g) (in_step A m1)"
      if R: "?R g" for g
      unfolding bits ev
    proof (intro gives_when)
      assume c: "closes ?s b"
      then have "\<not> ?open" "depth m = depth m1 + 1" "\<not> in_key g"
        using mv R by (auto simp: moves_def closes_def)
      then show "gives (close_container A g) (in_step A m1)"
        using close_container_ok [of A g] R by (auto simp: in_step_def elim!: gives_mono)
    next
      assume "\<not> closes ?s b"
      then show "in_step A m1 g" using R mv by (auto simp: in_step_def moves_def split: if_splits)
    qed
  qed
qed

end
