(* ===== verification/Constraint_Props.thy ===== *)
theory Constraint_Props
  imports Json_Guide_Inv "HOL-Library.Code_Target_Nat"
begin

text \<open>
  The properties of constrained decoding: the sampler masks with \<open>allowed\<close>, the engine advances
  with the token it sampled.
\<close>

section \<open>Compiling a schema\<close>

lemma compile_total:
  assumes "compile_node ser schema 0 schema [Any_node] = (A, i)" and "length A < 2 ^ 16"
  shows "\<exists>A'. compile ser schema = Some A' \<and> arena_ok A' \<and> arena_root A' < length A'"
proof -
  have c: "arena_ok A" "i < length A" "i = ANY \<or> i = length A - 1"
    using compile_compiled(1) [OF assms(1)] assms(2) arena_ok_unconstrained by (auto simp: compiled_def)
  have A: "0 < length A" "arena_node A 0 = Some Any_node" using c(1) by (auto simp: arena_ok_def arena_node_def)
  have ok: "arena_ok (A @ [Any_node])"
    using push_node_ok [of A Any_node "A @ [Any_node]" "to_u16 (length A)"] c(1) assms(2) by (simp add: push_node_def)
  show ?thesis
    using assms A c ok by (auto simp: compile_def to_u16_def ANY_def arena_root_def)
qed

text \<open>A schema whose compilation stays below the 65536 nodes an id can name compiles without a panic, to
  an arena whose every id is in range, with at most 64 properties or literals per node, as the
  64-bit masks over them need.\<close>

theorem compile_well_formed:
  assumes "length (fst (compile_node ser schema 0 schema [Any_node])) < 2 ^ 16"
  shows "\<exists>A. compile ser schema = Some A \<and> arena_root A < length A
    \<and> (\<forall>n\<in>set A. case n of
          Object_node ps req add \<Rightarrow> length ps \<le> 64 \<and> (\<forall>p\<in>set ps. snd p < length A)
        | Array_node it \<Rightarrow> it < length A
        | Enum_node ls \<Rightarrow> ls \<noteq> [] \<and> length ls \<le> 64
        | _ \<Rightarrow> True)"
proof -
  have "(case n of Object_node ps req add \<Rightarrow> length ps \<le> 64 \<and> (\<forall>p\<in>set ps. snd p < k)
      | Array_node it \<Rightarrow> it < k | Enum_node ls \<Rightarrow> ls \<noteq> [] \<and> length ls \<le> 64 | _ \<Rightarrow> True) = node_ok k n" for n k
    by (cases n) simp_all
  then show ?thesis
    using compile_total [of ser schema] assms by (cases "compile_node ser schema 0 schema [Any_node]") (auto simp: arena_ok_def)
qed

definition string_schema :: "unit json" where
  "string_schema = JObj [(bytes ''type'', JStr (bytes ''string''))]"

lemma string_compiles: "compile_node (\<lambda>_. None) string_schema 0 string_schema [Any_node] = ([Any_node, Str_node], 1)"
  by (subst compile_node.simps) (simp add: string_schema_def has_combinator_def push_or_any_def scalar_node_def push_node_def to_u16_def)

theorem compile_well_formed_witness:
  "\<exists>A. compile (\<lambda>_. None) string_schema = Some A \<and> arena_root A < length A"
proof -
  have "length (fst (compile_node (\<lambda>_. None) string_schema 0 string_schema [Any_node])) < 2 ^ 16"
    by (simp add: string_compiles)
  from compile_well_formed [OF this] show ?thesis by blast
qed

text \<open>The bound on the depth of the compilation does not bound its size: a schema of \<open>k\<close> properties that each
  refer back to it compiles to \<open>1 + (1 + k + ... + k ^ 16)\<close> nodes.  Two properties suffice to
  overflow the 16-bit ids.\<close>

theorem compile_blow_up:
  assumes "length ks \<le> 64"
  shows "length (fst (compile_node ser (self_schema ks) 0 (self_schema ks) [Any_node])) = 1 + (\<Sum>i<17. length ks ^ i)"
proof -
  let ?S = "self_schema ks" let ?t = "tree_nodes (length ks)"
  have w: "length (fst (compile_node ser ?S (0 + 1) self_ref B)) = length B + ?t 16" for B
    using compile_self_node [OF assms, of ser "0 + 1 + 1" B] by (simp add: compile_self_ref)
  have "length (fst (compile_node ser ?S 0 ?S [Any_node])) = 1 + (1 + length ks * ?t 16)"
    using compile_wide [OF _ assms _ w, of ?S "[Any_node]"] by simp
  also have "1 + length ks * ?t 16 = ?t (Suc 16)" by (simp only: tree_nodes.simps)
  also have "Suc 16 = (17 :: nat)" by simp
  finally show ?thesis unfolding tree_nodes_sum .
qed

lemma sum_pow2: "1 + (\<Sum>i<n. 2 ^ i) = (2 :: nat) ^ n"
  by (induction n) auto

theorem compile_blow_up_witness: "compile (\<lambda>_. None) (self_schema [bytes ''a'', bytes ''b''] :: unit json) = None"
proof -
  let ?S = "self_schema [bytes ''a'', bytes ''b''] :: unit json"
  obtain A i where A: "compile_node (\<lambda>_. None) ?S 0 ?S [Any_node] = (A, i)" by fastforce
  have "length A = 1 + (\<Sum>i<17. 2 ^ i)"
    using compile_blow_up [of "[bytes ''a'', bytes ''b'']" "(\<lambda>_. None) :: unit json \<Rightarrow> u8 list option"] A by (simp add: numeral_2_eq_2)
  also have "\<dots> = 2 ^ 17" by (rule sum_pow2)
  finally have "to_u16 (length A) = 0" by (simp add: to_u16_def)
  then show ?thesis unfolding compile_def A Let_def by simp
qed

section \<open>Masking and advancing\<close>

lemma walk_in_step:
  assumes "arena_ok A" and "root < length A" and "in_step A m g"
  shows "\<exists>m' g' ok. walk A root md m g bs = Some (m', g', ok) \<and> (ok \<longrightarrow> in_step A m' g' \<and> feed md m bs = Some m')"
  using assms(3)
proof (induction bs arbitrary: m g)
  case (Cons b bs)
  obtain m1 e where st: "step_ev md b m = (m1, e)" by fastforce
  show ?case
  proof (cases e)
    case None
    then show ?thesis using st by auto
  next
    case (Some ev)
    note st = st [unfolded Some]
    obtain g1 ok where g1: "on_byte A root g b ev (in_number m) = Some (g1, ok)" "ok \<longrightarrow> in_step A m1 g1"
      using on_byte_ok [OF assms(1,2) Cons.prems st, of "in_number m"] by (auto simp: gives_def)
    have f: "step md b m = (m1, True)" using st by (simp add: step_def)
    show ?thesis
    proof (cases ok)
      case True
      then show ?thesis using st g1 f Cons.IH [of m1 g1] by simp
    next
      case False
      then show ?thesis using st g1 by auto
    qed
  qed
qed auto

text \<open>The constraint after a text has been sampled under it.\<close>

definition con_ok :: "json_mode \<Rightarrow> u8 list \<Rightarrow> json_constraint \<Rightarrow> bool" where
  "con_ok md p c \<longleftrightarrow> arena_ok (c_arena c) \<and> c_root c < length (c_arena c) \<and> c_mode c = md
     \<and> in_step (c_arena c) (machine c) (guide c) \<and> feed md (json_machine_new md) p = Some (machine c)"

lemma con_ok_new:
  assumes "arena_ok A" and "arena_root A < length A"
  shows "con_ok md [] (json_constraint_new tab md A)"
  using assms
  by (simp add: con_ok_def json_constraint_new_def in_step_def guide_ok_def guide_new_def g_total_def in_key_def
      json_machine_new_def)

lemma constraint_walk_ok:
  assumes "con_ok md p c"
  shows "\<exists>m g ok. constraint_walk c bs = Some (m, g, ok) \<and> (ok \<longrightarrow> con_ok md (p @ bs) (c\<lparr>machine := m, guide := g\<rparr>))"
proof -
  obtain m g ok where w: "walk (c_arena c) (c_root c) (c_mode c) (machine c) (guide c) bs = Some (m, g, ok)"
    "ok \<longrightarrow> in_step (c_arena c) m g \<and> feed (c_mode c) (machine c) bs = Some m"
    using walk_in_step assms unfolding con_ok_def by blast
  then show ?thesis using assms by (auto simp: constraint_walk_def con_ok_def feed_append)
qed

definition token_text :: "token_byte_table \<Rightarrow> u32 \<Rightarrow> u8 list" where
  "token_text tab t =
     (if t \<in> set (stop_ids tab) then []
      else case nth_opt (tok_bytes tab) (unat t) of Some (Some bs) \<Rightarrow> bs | _ \<Rightarrow> [])"

text \<open>Sampling: each token is one the mask allows, and the constraint advances with it.\<close>

inductive samples :: "nat \<Rightarrow> json_constraint \<Rightarrow> json_constraint \<Rightarrow> u8 list \<Rightarrow> bool" for V c0 where
  samples_start: "samples V c0 c0 []"
| samples_token: "samples V c0 c p \<Longrightarrow> allowed c V = Some al \<Longrightarrow> unat t < V \<Longrightarrow> al ! unat t \<Longrightarrow>
    advance c t = Some c' \<Longrightarrow> samples V c0 c' (p @ token_text (table c) t)"

lemma entry_allowed_ok: "con_ok md p c \<Longrightarrow> \<exists>v. entry_allowed c e = Some v"
  using constraint_walk_ok [of md p c] by (fastforce simp: entry_allowed_def split: option.splits)

lemma those_map_Some: "(\<And>x. x \<in> set xs \<Longrightarrow> f x = Some (h x)) \<Longrightarrow> those (map f xs) = Some (map h xs)"
  by (induction xs) auto

text \<open>Setting the stop tokens in a mask.\<close>

lemma fold_stops:
  "length (fold (\<lambda>i a. if unat i < V then a[unat i := True] else a) ss a) = length a"
  "k < length a \<Longrightarrow> length a = V \<Longrightarrow>
     fold (\<lambda>i a. if unat i < V then a[unat i := True] else a) (ss :: u32 list) a ! k \<longleftrightarrow> a ! k \<or> k \<in> unat ` set ss"
proof -
  show "length (fold (\<lambda>i a. if unat i < V then a[unat i := True] else a) ss a) = length a" for a :: "bool list" and ss :: "u32 list"
    by (induction ss arbitrary: a) auto
  show "k < length a \<Longrightarrow> length a = V \<Longrightarrow>
     fold (\<lambda>i a. if unat i < V then a[unat i := True] else a) ss a ! k \<longleftrightarrow> a ! k \<or> k \<in> unat ` set ss" for k
    by (induction ss arbitrary: a) (auto simp: nth_list_update)
qed

lemma unat_mem: "unat t \<in> unat ` S \<longleftrightarrow> t \<in> S"
  by (metis image_iff unsigned_word_eqI)

lemma allowed_spec:
  assumes "con_ok md p c"
  shows "\<exists>al. allowed c V = Some al \<and> length al = V
    \<and> (\<forall>k < V. al ! k \<longleftrightarrow>
         (case nth_opt (tok_bytes (table c)) k of None \<Rightarrow> False | Some e \<Rightarrow> entry_allowed c e = Some True)
         \<or> (accepting (machine c) \<and> k \<in> unat ` set (stop_ids (table c))))"
proof -
  let ?ents = "take V (tok_bytes (table c))"
  let ?h = "\<lambda>e. entry_allowed c e = Some True"
  have "entry_allowed c e = Some (?h e)" for e
    using entry_allowed_ok [OF assms, of e] by auto
  then have t: "those (map (entry_allowed c) ?ents) = Some (map ?h ?ents)" by (rule those_map_Some)
  let ?a0 = "map ?h ?ents @ replicate (V - length (map ?h ?ents)) False"
  have a0: "length ?a0 = V" by simp
  have n: "?a0 ! k \<longleftrightarrow> (case nth_opt (tok_bytes (table c)) k of None \<Rightarrow> False | Some e \<Rightarrow> ?h e)" if "k < V" for k
    using that by (auto simp: nth_append nth_opt_def)
  show ?thesis
    using t a0 n fold_stops(1) [where V = V and a = ?a0 and ss = "stop_ids (table c)"]
      fold_stops(2) [where V = V and a = ?a0 and ss = "stop_ids (table c)"]
    by (cases "accepting (machine c)") (simp_all add: allowed_def Let_def)
qed

lemma advance_spec:
  assumes "con_ok md p c"
  shows "\<exists>c'. advance c t = Some c' \<and> table c' = table c \<and> c_arena c' = c_arena c \<and> c_root c' = c_root c
    \<and> con_ok md (if t \<in> set (stop_ids (table c)) \<or> nth_opt (tok_bytes (table c)) (unat t) = None
         \<or> entry_allowed c (the (nth_opt (tok_bytes (table c)) (unat t))) \<noteq> Some True
         then p else p @ token_text (table c) t) c'
    \<and> (t \<in> set (stop_ids (table c)) \<or> nth_opt (tok_bytes (table c)) (unat t) = None
         \<or> entry_allowed c (the (nth_opt (tok_bytes (table c)) (unat t))) \<noteq> Some True \<longrightarrow> c' = c)"
proof (cases "t \<in> set (stop_ids (table c)) \<or> nth_opt (tok_bytes (table c)) (unat t) = None
    \<or> nth_opt (tok_bytes (table c)) (unat t) = Some None")
  case True
  then show ?thesis using assms by (auto simp: advance_def entry_allowed_def)
next
  case False
  then obtain bs where bs: "nth_opt (tok_bytes (table c)) (unat t) = Some (Some bs)" "t \<notin> set (stop_ids (table c))"
    by auto
  obtain m g ok where w: "constraint_walk c bs = Some (m, g, ok)"
    "ok \<longrightarrow> con_ok md (p @ bs) (c\<lparr>machine := m, guide := g\<rparr>)"
    using constraint_walk_ok [OF assms] by blast
  show ?thesis
  proof (cases "bs = []")
    case True
    then show ?thesis using assms bs by (simp add: advance_def constraint_walk_def entry_allowed_def)
  next
    case False
    then show ?thesis using assms bs w by (cases ok) (simp_all add: advance_def entry_allowed_def token_text_def)
  qed
qed

lemma samples_ok:
  assumes "con_ok md [] c0" and "samples V c0 c p"
  shows "con_ok md p c \<and> table c = table c0 \<and> c_arena c = c_arena c0 \<and> c_root c = c_root c0"
  using assms(2)
proof induction
  case samples_start
  then show ?case using assms(1) by simp
next
  case (samples_token c p al t c')
  then have ok: "con_ok md p c" by simp
  have a: "(case nth_opt (tok_bytes (table c)) (unat t) of None \<Rightarrow> False | Some e \<Rightarrow> entry_allowed c e = Some True)
      \<or> unat t \<in> unat ` set (stop_ids (table c))"
    using allowed_spec [OF ok, of V] samples_token by auto
  have u: "unat t \<in> unat ` set (stop_ids (table c)) \<longleftrightarrow> t \<in> set (stop_ids (table c))"
    by (rule unat_mem)
  have n: "token_text (table c) t = []" if "t \<in> set (stop_ids (table c))" using that by (simp add: token_text_def)
  show ?case
    using advance_spec [OF ok, of t] samples_token a u n by (auto split: option.splits)
qed

definition demo_table :: token_byte_table where
  "demo_table = \<lparr>tok_bytes = [Some (bytes ''{}''), Some (bytes ''\"''), None], stop_ids = [2]\<rparr>"

definition demo :: "u32 list \<Rightarrow> json_constraint" where
  "demo ts = fold (\<lambda>t c. the (advance c t)) ts (json_constraint_new demo_table Object_mode [Any_node])"

lemma demo_masks: "allowed (demo []) 3 = Some [True, False, False]" "allowed (demo [0]) 3 = Some [False, False, True]"
  by code_simp+

lemma any_arena: "arena_ok [Any_node]" "arena_root [Any_node] < length [Any_node]"
  by (simp_all add: arena_ok_unconstrained arena_root_def to_u16_def)

lemma demo_samples: "samples 3 (demo []) (demo [0]) (bytes ''{}'')"
proof -
  have tab: "table (demo ts) = demo_table" if "samples 3 (demo []) (demo ts) p" for ts p
    using samples_ok [OF con_ok_new [OF any_arena] that [unfolded demo_def [of "[]"] fold_simps(1)]]
    by (simp add: json_constraint_new_def)
  have "con_ok Object_mode [] (demo [])"
    using con_ok_new [OF any_arena] by (simp add: demo_def)
  then obtain c' where "advance (demo []) 0 = Some c'" using advance_spec by blast
  moreover from this have "c' = demo [0]" by (simp add: demo_def)
  ultimately have "samples 3 (demo []) (demo [0]) ([] @ token_text (table (demo [])) 0)"
    by (intro samples_token [OF samples_start demo_masks(1)]) simp_all
  then show ?thesis using tab [OF samples_start] by (simp add: token_text_def demo_table_def nth_opt_def)
qed

text \<open>C9. Under the constraint of any schema whose arena fits the ids, sampling never panics: whatever has been
  sampled, the mask is computed and every token can be advanced with, and the levels the guide
  keeps, at most eight, and those it only counts are the automaton's open containers.\<close>

theorem constraint_never_panics:
  assumes "compile ser schema = Some A" and "length A \<le> 2 ^ 16"
    and "samples V (json_constraint_new tab md A) c p"
  shows "(\<exists>al. allowed c V = Some al \<and> length al = V) \<and> (\<forall>t. advance c t \<noteq> None)
    \<and> g_depth (guide c) \<le> guided_depth \<and> depth (machine c) = g_depth (guide c) + overflow (guide c)"
proof -
  obtain A0 i where A0: "compile_node ser schema 0 schema [Any_node] = (A0, i)" by fastforce
  have "length A0 < 2 ^ 16 \<or> (length A0 = 2 ^ 16)"
    using assms(1,2) A0 by (auto simp: compile_def Let_def split: if_splits option.splits schema_node.splits)
  moreover have "length A0 \<noteq> 2 ^ 16" using assms(1) A0 by (auto simp: compile_def to_u16_def)
  ultimately have "arena_ok A \<and> arena_root A < length A" using compile_total [OF A0] assms(1) by auto
  then have "con_ok md p c" using samples_ok [OF con_ok_new assms(3)] by simp
  moreover from this have "\<forall>t. advance c t \<noteq> None" using advance_spec by (metis option.distinct(1))
  ultimately show ?thesis
    using allowed_spec [of md p c V] by (auto simp: con_ok_def in_step_def guide_ok_def g_total_def)
qed

lemma string_arena: "compile (\<lambda>_. None) string_schema = Some [Any_node, Str_node]"
  using string_compiles by (simp add: compile_def to_u16_def)

theorem constraint_never_panics_witness:
  "allowed (json_constraint_new demo_table Value_mode [Any_node, Str_node]) 3 \<noteq> None"
  using constraint_never_panics [OF string_arena _ samples_start, where V = 3 and tab = demo_table and md = Value_mode] by auto

text \<open>C10. Sampling under the constraint writes JSON: what has been sampled is what the automaton has taken, and
  when it accepts, the only time a stop token is let through, the text is a JSON document of the
  requested shape.\<close>

theorem sampled_text_is_json:
  assumes "arena_ok A" and "arena_root A < length A" and "samples V (json_constraint_new tab md A) c p"
    and "allowed c V = Some al"
  shows "feed md (json_machine_new md) p = Some (machine c)
    \<and> (accepting (machine c) \<longrightarrow> json_text md p)
    \<and> (\<forall>t \<in> set (stop_ids tab). unat t < V \<longrightarrow> nth_opt (tok_bytes tab) (unat t) \<in> {None, Some None} \<longrightarrow>
         al ! unat t = accepting (machine c))"
proof -
  have ok: "con_ok md p c" "table c = tab"
    using samples_ok [OF con_ok_new [OF assms(1,2)] assms(3)] by (simp_all add: json_constraint_new_def)
  have f: "feed md (json_machine_new md) p = Some (machine c)" using ok by (simp add: con_ok_def)
  moreover have "accepting (machine c) \<longrightarrow> json_text md p"
    using good_accepting [OF feed_good [OF good_new f]] by simp
  moreover have "al ! unat t = accepting (machine c)"
    if "t \<in> set (stop_ids tab)" "unat t < V" "nth_opt (tok_bytes tab) (unat t) \<in> {None, Some None}" for t
    using allowed_spec [OF ok(1), of V] that assms(4) ok(2) by (auto simp: entry_allowed_def)
  ultimately show ?thesis by blast
qed

theorem sampled_text_is_json_witness: "json_text Object_mode (bytes ''{}'')"
proof -
  obtain al where al: "allowed (demo [0]) 3 = Some al" "al ! 2" using demo_masks(2) by auto
  note s = demo_samples [unfolded demo_def [of "[]"] fold_simps(1)]
  have "nth_opt (tok_bytes demo_table) 2 \<in> {None, Some None}" "2 \<in> set (stop_ids demo_table)"
    by (simp_all add: demo_table_def nth_opt_def)
  then have "accepting (machine (demo [0]))"
    using sampled_text_is_json [OF any_arena s al(1)] al(2) by force
  then show ?thesis using sampled_text_is_json [OF any_arena s al(1)] by blast
qed

text \<open>C11. The mask and the step agree: a content token the mask lets through moves the automaton over exactly its
  bytes, one it does not leaves the constraint as it was, and so does a stop token.\<close>

theorem mask_and_advance_agree:
  assumes "arena_ok A" and "arena_root A < length A" and "samples V (json_constraint_new tab md A) c p"
    and "allowed c V = Some al" and "unat t < V"
  shows "\<exists>c'. advance c t = Some c'
    \<and> (t \<in> set (stop_ids tab) \<or> \<not> al ! unat t \<longrightarrow> c' = c)
    \<and> (t \<notin> set (stop_ids tab) \<and> al ! unat t \<longrightarrow>
         feed md (machine c) (token_text tab t) = Some (machine c') \<and> token_text tab t \<noteq> [])"
proof -
  have ok: "con_ok md p c" "table c = tab"
    using samples_ok [OF con_ok_new [OF assms(1,2)] assms(3)] by (simp_all add: json_constraint_new_def)
  let ?e = "nth_opt (tok_bytes tab) (unat t)"
  have u: "unat t \<in> unat ` set (stop_ids tab) \<longleftrightarrow> t \<in> set (stop_ids tab)"
    by (rule unat_mem)
  have a: "al ! unat t \<longleftrightarrow> (case ?e of None \<Rightarrow> False | Some e \<Rightarrow> entry_allowed c e = Some True)
      \<or> (accepting (machine c) \<and> t \<in> set (stop_ids tab))"
    using allowed_spec [OF ok(1), of V] assms(4,5) ok(2) u by auto
  obtain c' where c': "advance c t = Some c'"
    "con_ok md (if t \<in> set (stop_ids tab) \<or> ?e = None \<or> entry_allowed c (the ?e) \<noteq> Some True
       then p else p @ token_text tab t) c'"
    "t \<in> set (stop_ids tab) \<or> ?e = None \<or> entry_allowed c (the ?e) \<noteq> Some True \<longrightarrow> c' = c"
    using advance_spec [OF ok(1), of t] ok(2) by auto
  have "feed md (machine c) (token_text tab t) = Some (machine c') \<and> token_text tab t \<noteq> []"
    if t: "t \<notin> set (stop_ids tab)" "al ! unat t"
  proof -
    obtain e where e: "?e = Some e" "entry_allowed c e = Some True" using a t by (auto split: option.splits)
    then have "con_ok md (p @ token_text tab t) c'" using c'(2) t by simp
    moreover have "token_text tab t \<noteq> []"
      using e t by (auto simp: token_text_def entry_allowed_def split: option.splits if_splits)
    ultimately show ?thesis using ok(1) by (simp add: con_ok_def feed_append)
  qed
  then show ?thesis using c' a by (auto split: option.splits)
qed

theorem mask_and_advance_agree_witness: "\<exists>c'. advance (demo [0]) 2 = Some c' \<and> c' = demo [0]"
proof -
  obtain al where al: "allowed (demo [0]) 3 = Some al" "al ! 2" using demo_masks(2) by auto
  note s = demo_samples [unfolded demo_def [of "[]"] fold_simps(1)]
  show ?thesis using mask_and_advance_agree [OF any_arena s al(1), of 2] by (simp add: demo_table_def)
qed

section \<open>Never stuck\<close>

text \<open>Under the arena that constrains nothing the guide refuses nothing.\<close>

definition plain :: "guide_state \<Rightarrow> bool" where
  "plain g \<longleftrightarrow> guide_ok [Any_node] g \<and> val_ctx g = Free_val"

definition yes :: "(guide_state \<times> bool) option \<Rightarrow> bool" where
  "yes r \<longleftrightarrow> (\<exists>g. r = Some (g, True) \<and> plain g)"

lemma yes_seq: "yes r \<Longrightarrow> (\<And>g. plain g \<Longrightarrow> yes (f g)) \<Longrightarrow> yes (guide_seq r f)"
  by (auto simp: yes_def guide_seq_def)

lemma yes_when: "plain g \<Longrightarrow> (\<And>g. plain g \<Longrightarrow> yes (f g)) \<Longrightarrow> yes (guide_when c f g)"
  by (auto simp: yes_def guide_when_def)

lemma plain_level:
  assumes "plain g" and "0 < g_depth g"
  shows "\<exists>l. top_level g = Some l \<and> arena_node [Any_node] (lv_node l) = Some Any_node"
  using top_level_ok [of "[Any_node]" g] assms by (auto simp: plain_def level_ok_def arena_node_def)

lemma gives_yes:
  assumes "gives r (\<lambda>g. guide_ok [Any_node] g \<and> Q g)" and "\<And>g ok. r = Some (g, ok) \<Longrightarrow> ok \<and> val_ctx g = Free_val"
  shows "yes r"
  using assms by (fastforce simp: gives_def yes_def plain_def)

lemma clear_prop_val: "clear_prop g = Some g' \<Longrightarrow> val_ctx g' = val_ctx g"
  by (auto simp: clear_prop_def bind_eq_Some_conv)

lemma plain_finish_scalar:
  assumes "plain g"
  shows "yes (finish_scalar [Any_node] g incl b)"
proof (rule gives_yes [OF finish_scalar_ok])
  show "guide_ok [Any_node] g" using assms by (simp add: plain_def)
  fix g' ok
  assume "finish_scalar [Any_node] g incl b = Some (g', ok)"
  then show "ok \<and> val_ctx g' = Free_val"
    using assms by (auto simp: plain_def finish_scalar_def Let_def bind_eq_Some_conv split: if_splits dest!: clear_prop_val)
qed

lemma plain_finish_key:
  assumes "plain g"
  shows "yes (finish_key [Any_node] g)"
  using assms guide_ok_free by (auto simp: finish_key_def yes_def plain_def)

lemma plain_close:
  assumes "plain g"
  shows "yes (close_container [Any_node] g)"
proof (rule gives_yes [OF close_container_ok])
  show "guide_ok [Any_node] g" "\<not> in_key g" using assms by (simp_all add: plain_def in_key_def)
  fix g' ok
  assume "close_container [Any_node] g = Some (g', ok)"
  then show "ok \<and> val_ctx g' = Free_val"
    using assms plain_level [OF assms]
    by (auto simp: plain_def close_container_def Let_def bind_eq_Some_conv split: if_splits dest!: clear_prop_val)
qed

lemma plain_comma: "plain g \<Longrightarrow> has_available_key [Any_node] g = Some True"
  using plain_level [of g] by (auto simp: has_available_key_def)

lemma plain_start_key:
  assumes "plain g"
  shows "\<exists>g'. start_key [Any_node] g = Some g' \<and> plain g'"
  using assms plain_level [OF assms] guide_ok_free by (cases "0 < overflow g \<or> g_depth g = 0") (auto simp: start_key_def plain_def)

lemma plain_enter:
  assumes "plain g" and "b = b_lbrace \<or> b = b_lbrack \<Longrightarrow> g_total g < 64"
  shows "\<exists>n. expected [Any_node] 0 g = Some n \<and> yes (enter_value [Any_node] g n b)"
proof -
  obtain n where n: "expected [Any_node] 0 g = Some n" "n < length [Any_node]"
    using expected_ok [OF any_arena(1), of g 0] assms(1) by (auto simp: plain_def)
  have "yes (enter_value [Any_node] g n b)"
  proof (rule gives_yes [OF enter_value_ok [OF any_arena(1) _ n(2) assms(2)]])
    show "guide_ok [Any_node] g" using assms(1) by (simp add: plain_def)
    fix g' ok
    assume "enter_value [Any_node] g n b = Some (g', ok)"
    then show "ok \<and> val_ctx g' = Free_val"
      using n(2) by (auto simp: enter_value_def arena_node_def first_byte_def open_level_def Let_def bind_eq_Some_conv split: if_splits)
  qed
  then show ?thesis using n by blast
qed

lemma plain_on_byte:
  assumes g: "plain g" "depth m = g_total g" and st: "step_ev md b m = (m1, Some ev)"
  shows "yes (on_byte [Any_node] 0 g b ev w)"
proof -
  have ev: "ev = step_events (jstate m) (jstate m1) b" using step_ev_ok [OF st] by blast
  let ?P = "\<lambda>g. plain g \<and> g_total g = depth m"
  have scal: "\<exists>g'. guide_when c (\<lambda>g. finish_scalar [Any_node] g incl b) g = Some (g', True) \<and> ?P g'" if "?P g" for g c incl
    using plain_finish_scalar [of g incl b] finish_scalar_ok [of "[Any_node]" g incl b] that
    by (cases c) (auto simp: guide_when_def yes_def gives_def plain_def)
  obtain g1 where g1: "guide_when (ev AND EV_SCALAR_END \<noteq> 0 \<and> w) (\<lambda>g. finish_scalar [Any_node] g False b) g = Some (g1, True)" "?P g1"
    using scal g by fastforce
  have c: "guide_when (ev AND EV_OBJ_COMMA \<noteq> 0) (\<lambda>g. map_option (Pair g) (has_available_key [Any_node] g)) g1 = Some (g1, True)"
    using plain_comma [of g1] g1(2) by (simp add: guide_when_def)
  have v: "yes (value_or_key [Any_node] 0 b ev g1)"
  proof (cases "ev_value_started (jstate m) b")
    case True
    have "b = b_lbrace \<or> b = b_lbrack \<Longrightarrow> g_total g1 < 64"
      using step_ev_moves [OF st] g1(2) True by (auto simp: moves_def)
    then show ?thesis using plain_enter [of g1 b] g1(2) True by (auto simp: value_or_key_def ev_value_start ev)
  next
    case False
    then show ?thesis
      using plain_comma [of g1] plain_start_key [of g1] g1(2)
      by (auto simp: value_or_key_def ev_value_start ev yes_def content_byte_def plain_def)
  qed
  have s: "yes (guide_when (ev AND EV_SCALAR_END \<noteq> 0 \<and> \<not> w) (\<lambda>g. finish_scalar [Any_node] g True b) g)" if "plain g" for g
    using that plain_finish_scalar by (rule yes_when)
  show ?thesis
    unfolding on_byte_def
    by (simp add: g1(1) c guide_seq_def [of "Some _"])
      (intro yes_seq v s yes_when plain_finish_key plain_close)
qed

lemma plain_in_step: "plain g \<Longrightarrow> depth m = g_total g \<Longrightarrow> in_step [Any_node] m g"
  by (simp add: plain_def in_step_def in_key_def)

lemma plain_walk:
  assumes "plain g" and "depth m = g_total g" and "feed md m bs = Some m'"
  shows "\<exists>g'. walk [Any_node] 0 md m g bs = Some (m', g', True) \<and> plain g'"
  using assms
proof (induction bs arbitrary: m g)
  case (Cons b bs)
  obtain m1 ev where st: "step_ev md b m = (m1, Some ev)" and f: "feed md m1 bs = Some m'"
    using Cons.prems(3) by (auto simp: step_def Let_def split: prod.splits if_splits)
  obtain g1 where g1: "on_byte [Any_node] 0 g b ev (in_number m) = Some (g1, True)" "plain g1"
    using plain_on_byte [OF Cons.prems(1,2) st, of "in_number m"] by (auto simp: yes_def)
  have "gives (on_byte [Any_node] 0 g b ev (in_number m)) (in_step [Any_node] m1)"
    by (rule on_byte_ok [OF any_arena(1) _ plain_in_step [OF Cons.prems(1,2)] st]) simp
  then have "depth m1 = g_total g1" using g1(1) by (simp add: in_step_def)
  from Cons.IH [OF g1(2) this f] show ?case using st g1(1) by simp
qed simp

lemma plain_samples:
  assumes "samples V (json_constraint_new tab md [Any_node]) c p"
  shows "plain (guide c) \<and> c_arena c = [Any_node] \<and> c_root c = 0"
  using assms
proof induction
  case samples_start
  then show ?case
    by (simp add: json_constraint_new_def plain_def guide_ok_def guide_new_def arena_root_def to_u16_def)
next
  case (samples_token c p al t c')
  have ok: "con_ok md p c" using samples_ok [OF con_ok_new [OF any_arena] samples_token.hyps(1)] by simp
  show ?case
  proof (cases "advance c t = Some c")
    case True
    then show ?thesis using samples_token by simp
  next
    case False
    then obtain bs m g where w: "constraint_walk c bs = Some (m, g, True)" "c' = c\<lparr>machine := m, guide := g\<rparr>"
      using samples_token.hyps(5) by (auto simp: advance_def bind_eq_Some_conv split: if_splits option.splits)
    then have "feed md (machine c) bs = Some m"
      using constraint_walk_ok [OF ok, of bs] ok by (auto simp: con_ok_def feed_append)
    moreover have "plain (guide c)" "depth (machine c) = g_total (guide c)"
      using samples_token.IH ok by (simp_all add: con_ok_def in_step_def)
    ultimately have "plain g"
      using plain_walk [of "guide c" "machine c" md bs m] w(1) samples_token.IH ok
      by (auto simp: constraint_walk_def con_ok_def)
    then show ?thesis using w(2) samples_token.IH by simp
  qed
qed

text \<open>Plain JSON mode is never stuck: as long as every byte is some token of the vocabulary, either the text
  sampled so far is complete, so that a stop token is allowed, or there is a content token the
  mask allows.\<close>

theorem plain_json_never_stuck:
  assumes "samples V (json_constraint_new tab md unconstrained) c p" and "allowed c V = Some al"
    and "\<forall>b. \<exists>t. unat t < V \<and> t \<notin> set (stop_ids tab) \<and> nth_opt (tok_bytes tab) (unat t) = Some (Some [b])"
  shows "accepting (machine c) \<or> (\<exists>t. unat t < V \<and> t \<notin> set (stop_ids tab) \<and> al ! unat t)"
proof -
  note s = assms(1) [unfolded unconstrained_def]
  have ok: "con_ok md p c" "table c = tab"
    using samples_ok [OF con_ok_new [OF any_arena] s] by (simp_all add: json_constraint_new_def)
  have pl: "plain (guide c)" "depth (machine c) = g_total (guide c)" "c_arena c = [Any_node]" "c_root c = 0"
    using plain_samples [OF s] ok by (simp_all add: con_ok_def in_step_def)
  have "good md (machine c) p" using feed_good [OF good_new, of md p "machine c"] ok by (simp add: con_ok_def)
  then obtain bs m' where bs: "feed md (machine c) bs = Some m'" "accepting m'"
    using good_finishable unfolding finishable_def by blast
  show ?thesis
  proof (cases bs)
    case Nil
    then show ?thesis using bs by simp
  next
    case (Cons b bs')
    then obtain m1 where "feed md (machine c) [b] = Some m1" using bs by (auto simp: Let_def split: prod.splits if_splits)
    then have e: "entry_allowed c (Some [b]) = Some True"
      using plain_walk [OF pl(1,2)] pl(3,4) ok by (fastforce simp: entry_allowed_def constraint_walk_def con_ok_def)
    obtain t where t: "unat t < V" "t \<notin> set (stop_ids tab)" "nth_opt (tok_bytes tab) (unat t) = Some (Some [b])"
      using assms(3) by blast
    then show ?thesis using allowed_spec [OF ok(1), of V] assms(2) e ok(2) by auto
  qed
qed

text \<open>A vocabulary of the 256 bytes and a stop token.\<close>

definition byte_table :: token_byte_table where
  "byte_table = \<lparr>tok_bytes = map (\<lambda>b. Some [b]) all_bytes @ [None], stop_ids = [256]\<rparr>"

lemma byte_table_covers:
  "\<exists>t. unat t < 257 \<and> t \<notin> set (stop_ids byte_table) \<and> nth_opt (tok_bytes byte_table) (unat t) = Some (Some [b])"
proof -
  have "unat (of_nat n :: u32) = n" if "n < 256" for n using that by (simp add: unat_of_nat)
  then obtain t :: u32 where u: "unat t = unat b" using u8_lt [of b] by blast
  have a: "all_bytes ! unat b = b" "length all_bytes = 256" using u8_lt [of b] by (simp_all add: all_bytes_def)
  have "t \<noteq> 256"
  proof
    assume "t = 256"
    then have "unat b = unat (256 :: u32)" using u by simp
    then show False using u8_lt [of b] by simp
  qed
  then show ?thesis using u8_lt [of b] a by (intro exI [of _ t]) (simp add: u byte_table_def nth_opt_def nth_append)
qed

theorem plain_json_never_stuck_witness:
  "\<exists>al t. allowed (json_constraint_new byte_table Value_mode unconstrained) 257 = Some al \<and> unat t < 257 \<and> al ! unat (t :: u32)"
proof -
  have "con_ok Value_mode [] (json_constraint_new byte_table Value_mode unconstrained)"
    using con_ok_new [OF any_arena] by (simp add: unconstrained_def)
  then obtain al where al: "allowed (json_constraint_new byte_table Value_mode unconstrained) 257 = Some al"
    using allowed_spec by blast
  have "\<not> accepting (machine (json_constraint_new byte_table Value_mode unconstrained))"
    by (simp add: json_constraint_new_def json_machine_new_def accepting_def number_completes_top_def)
  with plain_json_never_stuck [OF samples_start al] byte_table_covers al show ?thesis by blast
qed

section \<open>Where the guidance falls short\<close>

definition quoted_schema :: "unit json" where
  "quoted_schema = JObj [(bytes ''additionalProperties'', JBool False),
     (bytes ''properties'', JObj [(bytes ''a\"'', JObj [])]),
     (bytes ''required'', JArr [JStr (bytes ''a\"'')])]"

definition quoted_arena :: arena where
  "quoted_arena = [Any_node, Object_node [(bytes ''a\"'', 0)] 1 False]"

definition quoted_machine :: json_machine where
  "quoted_machine = \<lparr>stack = 0, depth = 1, jstate = Str False 0 True, ws_run = 0\<rparr>"

definition quoted_guide :: guide_state where
  "quoted_guide = \<lparr>levels = fresh_level 1 # replicate 7 (fresh_level 0), g_depth = 1, overflow = 0,
     val_ctx = Key_scan 1 1 False\<rparr>"

lemma quoted_prefix:
  "walk quoted_arena 1 Object_mode (json_machine_new Object_mode) guide_new (bytes ''{\"a'') =
     Some (quoted_machine, quoted_guide, True)"
  by code_simp

lemma quoted_refuses: "\<exists>m g. walk quoted_arena 1 Object_mode quoted_machine quoted_guide [b] = Some (m, g, False)"
proof (cases "b = b_quote")
  case True
  have "case walk quoted_arena 1 Object_mode quoted_machine quoted_guide [b_quote] of Some (m, g, ok) \<Rightarrow> \<not> ok | None \<Rightarrow> False"
    by code_simp
  then show ?thesis by (auto simp: True split: option.splits)
next
  case False
  obtain m1 e where st: "step_ev Object_mode b quoted_machine = (m1, e)" by fastforce
  show ?thesis
  proof (cases e)
    case None
    then show ?thesis using st by simp
  next
    case (Some ev)
    have "ev = step_events (jstate quoted_machine) (jstate m1) b" using step_ev_ok [OF st [unfolded Some]] by metis
    then have "ev = step_events (Str False 0 True) (jstate m1) b" by (simp add: quoted_machine_def)
    moreover have "jstate m1 \<noteq> Obj_comma"
      using step_ev_key [OF st [unfolded Some], of False 0] by (auto simp: quoted_machine_def split: if_splits)
    ultimately have ev: "ev = 0" using False by (simp add: step_events_def byte_events_def ev_value_started_def)
    have "scan_next [bytes ''a\"''] 1 1 b = 0" using False by (simp add: scan_next_def mask_of_def nth_opt_def)
    then have "on_byte quoted_arena 1 quoted_guide b 0 False = Some (quoted_guide\<lparr>val_ctx := Key_scan 0 1 False\<rparr>, False)"
      by (simp add: on_byte_def guide_seq_def guide_when_def value_or_key_def content_byte_def quoted_guide_def quoted_arena_def
          top_level_def nth_opt_def arena_node_def fresh_level_def)
    then show ?thesis using st Some ev by (simp add: in_number_def quoted_machine_def)
  qed
qed

text \<open>A property whose name needs an escape in JSON cannot be emitted: the guide matches the raw bytes of the
  name against the escaped text.  When it is required and no others are allowed, the object can
  be opened and the key begun, and then no byte at all is allowed.\<close>

theorem quoted_property_dead_end:
  "compile (\<lambda>_. None) quoted_schema = Some quoted_arena
   \<and> (\<exists>m g. walk quoted_arena 1 Object_mode (json_machine_new Object_mode) guide_new (bytes ''{\"a'') = Some (m, g, True)
        \<and> \<not> accepting m
        \<and> (\<forall>b. \<exists>m' g'. walk quoted_arena 1 Object_mode m g [b] = Some (m', g', False)))"
proof
  show "compile (\<lambda>_. None) quoted_schema = Some quoted_arena"
    by (simp add: compile_def quoted_schema_def quoted_arena_def compile_node.simps has_combinator_def finish_object_def
        push_or_any_def push_node_def to_u16_def ANY_def)
  have "\<not> accepting quoted_machine" by (simp add: accepting_def quoted_machine_def number_completes_top_def)
  then show "\<exists>m g. walk quoted_arena 1 Object_mode (json_machine_new Object_mode) guide_new (bytes ''{\"a'') = Some (m, g, True)
      \<and> \<not> accepting m \<and> (\<forall>b. \<exists>m' g'. walk quoted_arena 1 Object_mode m g [b] = Some (m', g', False))"
    using quoted_prefix quoted_refuses by blast
qed

text \<open>At the top level a number accepts before an enumeration of numbers is matched: under the schema that
  allows only 12, the text 1 is accepted, and a stop token let through.\<close>

theorem root_number_stops_early:
  "(case walk [Any_node, Enum_node [bytes ''12'']] 1 Value_mode (json_machine_new Value_mode) guide_new (bytes ''1'') of
      Some (m, g, ok) \<Rightarrow> ok \<and> accepting m | None \<Rightarrow> False)
   \<and> compile (\<lambda>_. Some (bytes ''12'')) (JObj [(bytes ''enum'', JArr [JNum (12 :: nat)])]) = Some [Any_node, Enum_node [bytes ''12'']]"
proof
  show "compile (\<lambda>_. Some (bytes ''12'')) (JObj [(bytes ''enum'', JArr [JNum (12 :: nat)])]) = Some [Any_node, Enum_node [bytes ''12'']]"
    by (simp add: compile_def compile_node.simps push_enum_def push_or_any_def push_node_def to_u16_def)
qed code_simp

section \<open>The vocabulary\<close>

text \<open>Every byte string has a spelling in the byte-level alphabet, and the table reads it back; a
  SentencePiece vocabulary's raw byte token \<open><0xNN>\<close> reads back as the byte it names.\<close>

theorem token_bytes_round_trip:
  "bpe_bytes (map byte_char bs) = Some bs
   \<and> sp_bytes (chars ''<0x'' @ [hex_char (unat b div 16), hex_char (unat b mod 16)] @ chars ''>'') = Some [b]"
  using bpe_bytes_spell sp_bytes_hex by blast

end
