(* ===== verification/Stop_Scan.thy ===== *)
theory Stop_Scan
  imports Prelude "HOL-Library.Sublist"
begin

text \<open>
  Stop strings on a content stream (\<open>StopScanner\<close> of \<open>src/server/routes/stop_scan.rs\<close>).  A
  string is the list of its characters, of any type; the source's byte offsets, which it keeps on
  character boundaries, are offsets into that list.
\<close>

section \<open>The scanner\<close>

record 'c stop_scanner =
  stops :: "'c list list"
  held :: "'c list"

datatype 'c scan = Text "'c list" | Stopped "'c list"

definition stop_scanner_new :: "'c list list \<Rightarrow> 'c stop_scanner" where
  "stop_scanner_new ss = \<lparr>stops = ss, held = []\<rparr>"

text \<open>\<open>str::find\<close>: the first offset where a string occurs.\<close>

fun find_str :: "'c list \<Rightarrow> 'c list \<Rightarrow> nat option" where
  "find_str [] pat = (if pat = [] then Some 0 else None)"
| "find_str (c # cs) pat = (if prefix pat (c # cs) then Some 0 else map_option Suc (find_str cs pat))"

definition min_opt :: "nat list \<Rightarrow> nat option" where
  "min_opt ns = (if ns = [] then None else Some (fold min (tl ns) (hd ns)))"

definition earliest_match :: "'c stop_scanner \<Rightarrow> nat option" where
  "earliest_match s = min_opt (List.map_filter (find_str (held s)) (stops s))"

definition cut :: "'c stop_scanner \<Rightarrow> nat \<Rightarrow> 'c stop_scanner \<times> 'c list" where
  "cut s at = (s\<lparr>held := []\<rparr>, take at (held s))"

definition longest_suffix_opening :: "'c list \<Rightarrow> 'c list \<Rightarrow> nat" where
  "longest_suffix_opening t stop =
     (case find (\<lambda>n. suffix (take n stop) t) (rev [1 ..< length stop]) of Some n \<Rightarrow> n | None \<Rightarrow> 0)"

definition scan_push :: "'c stop_scanner \<Rightarrow> 'c list \<Rightarrow> 'c stop_scanner \<times> 'c scan" where
  "scan_push s delta =
     (if stops s = [] then (s, Text delta)
      else
        let s1 = s\<lparr>held := held s @ delta\<rparr>
        in case earliest_match s1 of
             Some at \<Rightarrow> (let (s2, t) = cut s1 at in (s2, Stopped t))
           | None \<Rightarrow>
               let keep = fold max (map (longest_suffix_opening (held s1)) (stops s1)) 0;
                   n = length (held s1) - keep
               in (s1\<lparr>held := drop n (held s1)\<rparr>, Text (take n (held s1))))"

definition scan_finish :: "'c stop_scanner \<Rightarrow> 'c list \<Rightarrow> 'c stop_scanner \<times> 'c scan" where
  "scan_finish s delta =
     (if stops s = [] then (s, Text delta)
      else
        let s1 = s\<lparr>held := held s @ delta\<rparr>
        in case earliest_match s1 of
             Some at \<Rightarrow> (let (s2, t) = cut s1 at in (s2, Stopped t))
           | None \<Rightarrow> (s1\<lparr>held := []\<rparr>, Text (held s1)))"

section \<open>Occurrences\<close>

definition occurs_at :: "'c list \<Rightarrow> 'c list \<Rightarrow> nat \<Rightarrow> bool" where
  "occurs_at t pat i \<longleftrightarrow> i + length pat \<le> length t \<and> take (length pat) (drop i t) = pat"

lemma occurs_at_0: "occurs_at t pat 0 \<longleftrightarrow> prefix pat t"
  by (auto simp: occurs_at_def prefix_def min_def) (metis append_take_drop_id)

lemma occurs_at_Suc: "occurs_at (c # t) pat (Suc i) \<longleftrightarrow> occurs_at t pat i"
  by (simp add: occurs_at_def)

lemma find_str_Some: "find_str t pat = Some i \<longleftrightarrow> occurs_at t pat i \<and> (\<forall>j<i. \<not> occurs_at t pat j)"
proof (induction t arbitrary: i)
  case Nil
  then show ?case by (cases i) (auto simp: occurs_at_def)
next
  case (Cons c t)
  show ?case
  proof (cases i)
    case 0
    then show ?thesis by (simp add: occurs_at_0)
  next
    case (Suc k)
    have "(\<forall>j<Suc k. \<not> occurs_at (c # t) pat j) \<longleftrightarrow> \<not> prefix pat (c # t) \<and> (\<forall>j<k. \<not> occurs_at t pat j)"
      by (auto simp: less_Suc_eq_0_disj occurs_at_Suc occurs_at_0)
    then show ?thesis using Cons Suc by (auto simp: occurs_at_Suc)
  qed
qed

lemma find_str_None: "find_str t pat = None \<longleftrightarrow> (\<forall>i. \<not> occurs_at t pat i)"
proof (induction t)
  case Nil
  then show ?case by (auto simp: occurs_at_def)
next
  case (Cons c t)
  have "(\<forall>i. \<not> occurs_at (c # t) pat i) \<longleftrightarrow> \<not> prefix pat (c # t) \<and> (\<forall>i. \<not> occurs_at t pat i)"
    by (metis occurs_at_0 occurs_at_Suc not0_implies_Suc)
  then show ?case using Cons by auto
qed

lemma occurs_at_append: "occurs_at t pat i \<Longrightarrow> occurs_at (t @ u) pat i"
  by (auto simp: occurs_at_def)

lemma occurs_at_shift: "occurs_at (t @ u) pat (length t + i) \<longleftrightarrow> occurs_at u pat i"
  by (auto simp: occurs_at_def)

lemma occurs_at_prefix: "occurs_at (t @ u) pat i \<Longrightarrow> i + length pat \<le> length t \<Longrightarrow> occurs_at t pat i"
  by (auto simp: occurs_at_def)

lemma min_opt_Some: "min_opt ns = Some m \<Longrightarrow> m \<in> set ns \<and> (\<forall>n\<in>set ns. m \<le> n)"
proof (cases ns)
  case (Cons n ns')
  assume "min_opt ns = Some m"
  then have "m = Min (set ns)" using Cons by (simp add: min_opt_def Min.set_eq_fold del: set_simps list.set)
  then show ?thesis using Cons Min_in [of "set ns"] by simp
qed (simp add: min_opt_def)

lemma in_map_filter: "y \<in> set (List.map_filter f xs) \<longleftrightarrow> (\<exists>x\<in>set xs. f x = Some y)"
  by (induction xs) (auto simp: map_filter_def)

lemma earliest_match_Some:
  assumes "earliest_match s = Some m"
  shows "(\<exists>p\<in>set (stops s). occurs_at (held s) p m) \<and> (\<forall>p\<in>set (stops s). \<forall>i<m. \<not> occurs_at (held s) p i)"
proof -
  have m: "m \<in> set (List.map_filter (find_str (held s)) (stops s))"
    "\<forall>n\<in>set (List.map_filter (find_str (held s)) (stops s)). m \<le> n"
    using min_opt_Some assms unfolding earliest_match_def by blast+
  have "\<not> occurs_at (held s) p i" if p: "p \<in> set (stops s)" "i < m" for p i
  proof
    assume "occurs_at (held s) p i"
    then obtain n where n: "find_str (held s) p = Some n" "n \<le> i"
      by (metis find_str_None find_str_Some not_None_eq not_le)
    then have "n \<in> set (List.map_filter (find_str (held s)) (stops s))" using p(1) by (auto simp: in_map_filter)
    then show False using m(2) n(2) p(2) by fastforce
  qed
  moreover have "\<exists>p\<in>set (stops s). occurs_at (held s) p m"
    using m(1) by (auto simp: in_map_filter find_str_Some)
  ultimately show ?thesis by blast
qed

lemma earliest_match_None:
  assumes "earliest_match s = None" and "p \<in> set (stops s)"
  shows "\<not> occurs_at (held s) p i"
proof -
  have "List.map_filter (find_str (held s)) (stops s) = []"
    using assms(1) by (simp add: earliest_match_def min_opt_def split: if_splits)
  then have "find_str (held s) p = None" using assms(2) by (auto simp: map_filter_def filter_empty_conv)
  then show ?thesis by (simp add: find_str_None)
qed

text \<open>What the kept tail guards against: an occurrence that starts in a text without one and runs past it.\<close>

lemma longest_suffix_opening_ge:
  assumes "suffix (take n stop) t" and "0 < n" and "n < length stop"
  shows "n \<le> longest_suffix_opening t stop"
proof -
  have n: "n \<in> set (rev [1 ..< length stop])" using assms(2,3) by simp
  obtain k where k: "find (\<lambda>n. suffix (take n stop) t) (rev [1 ..< length stop]) = Some k"
    using assms(1) n by (metis find_None_iff not_None_eq)
  obtain j where j: "j < length (rev [1 ..< length stop])" "rev [1 ..< length stop] ! j = k"
    "\<forall>i<j. \<not> suffix (take (rev [1 ..< length stop] ! i) stop) t"
    using k [unfolded find_Some_iff] by auto
  obtain i where i: "i < length (rev [1 ..< length stop])" "rev [1 ..< length stop] ! i = n" using n by (metis in_set_conv_nth)
  have "j \<le> i" using j(3) i assms(1) by (metis not_le)
  then have "n \<le> k" using i j by (auto simp: rev_nth)
  then show ?thesis unfolding longest_suffix_opening_def k by simp
qed

lemma fold_max_ge: "x \<in> set xs \<Longrightarrow> x \<le> fold max xs (a :: nat)"
  using Max.set_eq_fold [of a xs] by (metis List.finite_set Max_ge list.set_intros(2))

lemma straddling:
  assumes "occurs_at (t @ u) pat i" and "i < length t" and "\<not> occurs_at t pat i"
  shows "length t - i \<le> longest_suffix_opening t pat"
proof (rule longest_suffix_opening_ge)
  have l: "length t < i + length pat" using assms occurs_at_prefix [of t u pat i] by force
  show "0 < length t - i" "length t - i < length pat" using assms(2) l by auto
  have "take (length pat) (drop i t @ u) = pat" using assms(1,2) by (simp add: occurs_at_def)
  then have "take (length t - i) pat = take (length t - i) (drop i t @ u)" using l by (metis min.absorb1 nat_less_le take_take diff_le_mono2 less_diff_conv2 le_diff_conv2 add.commute le_add_diff_inverse2 less_imp_le_nat assms(2) add_le_cancel_left)
  also have "\<dots> = drop i t" using assms(2) by simp
  finally show "suffix (take (length t - i) pat) t" by (simp add: suffix_drop)
qed

section \<open>A whole stream\<close>

text \<open>A stream as the server feeds it: deltas, and a last one when it ended on its own.\<close>

fun scan_run :: "'c stop_scanner \<Rightarrow> 'c list list \<Rightarrow> 'c list \<Rightarrow> 'c list \<times> bool" where
  "scan_run s [] last_delta =
     (case snd (scan_finish s last_delta) of Text t \<Rightarrow> (t, False) | Stopped t \<Rightarrow> (t, True))"
| "scan_run s (d # ds) last_delta =
     (case scan_push s d of
        (s', Text t) \<Rightarrow> (let (t', st) = scan_run s' ds last_delta in (t @ t', st))
      | (s', Stopped t) \<Rightarrow> (t, True))"

lemma scan_push_Text:
  assumes "stops s \<noteq> []" and "scan_push s d = (s', Text t)"
  shows "stops s' = stops s" "t @ held s' = held s @ d"
    "p \<in> set (stops s) \<Longrightarrow> occurs_at (held s @ d @ u) p i \<Longrightarrow> length t \<le> i"
proof -
  let ?h = "held s @ d" let ?s = "s\<lparr>held := ?h\<rparr>"
  let ?keep = "fold max (map (longest_suffix_opening ?h) (stops s)) 0"
  have none: "earliest_match ?s = None" and
    r: "s' = ?s\<lparr>held := drop (length ?h - ?keep) ?h\<rparr>" "t = take (length ?h - ?keep) ?h"
    using assms by (auto simp: scan_push_def cut_def Let_def split: option.splits)
  show "stops s' = stops s" "t @ held s' = held s @ d" by (simp_all add: r del: take_append drop_append)
  show "length t \<le> i" if p: "p \<in> set (stops s)" and o: "occurs_at (held s @ d @ u) p i"
  proof (rule ccontr)
    assume "\<not> length t \<le> i"
    then have i: "i < length ?h - ?keep" by (simp add: r)
    have "\<not> occurs_at ?h p i" using earliest_match_None [OF none, of p i] p by simp
    then have "length ?h - i \<le> longest_suffix_opening ?h p"
      using straddling [of ?h u p i] o i by simp
    also have "\<dots> \<le> ?keep" using p by (intro fold_max_ge) simp
    finally show False using i by simp
  qed
qed

lemma scan_Stopped:
  assumes "stops s \<noteq> []" and "snd (scan_push s d) = Stopped t \<or> snd (scan_finish s d) = Stopped t"
  shows "prefix t (held s @ d)" "\<exists>p\<in>set (stops s). occurs_at (held s @ d) p (length t)"
    "p \<in> set (stops s) \<Longrightarrow> i < length t \<Longrightarrow> \<not> occurs_at (held s @ d) p i"
proof -
  let ?s = "s\<lparr>held := held s @ d\<rparr>"
  obtain at where at: "earliest_match ?s = Some at" "t = take at (held s @ d)"
    using assms by (auto simp: scan_push_def scan_finish_def cut_def Let_def split: option.splits)
  have e: "\<exists>p\<in>set (stops s). occurs_at (held s @ d) p at" "\<forall>p\<in>set (stops s). \<forall>i<at. \<not> occurs_at (held s @ d) p i"
    using earliest_match_Some [OF at(1)] by auto
  then have "at \<le> length (held s @ d)" by (auto simp: occurs_at_def)
  then have l: "length t = at" by (simp add: at(2) del: take_append)
  show "prefix t (held s @ d)" by (simp add: at(2) take_is_prefix del: take_append)
  show "\<exists>p\<in>set (stops s). occurs_at (held s @ d) p (length t)"
    "p \<in> set (stops s) \<Longrightarrow> i < length t \<Longrightarrow> \<not> occurs_at (held s @ d) p i"
    using e l by auto
qed

lemma scan_finish_Text:
  assumes "stops s \<noteq> []" and "snd (scan_finish s d) = Text t"
  shows "t = held s @ d" "p \<in> set (stops s) \<Longrightarrow> \<not> occurs_at (held s @ d) p i"
proof -
  let ?s = "s\<lparr>held := held s @ d\<rparr>"
  have "earliest_match ?s = None" "t = held s @ d"
    using assms by (auto simp: scan_finish_def cut_def Let_def split: option.splits)
  then show "t = held s @ d" "p \<in> set (stops s) \<Longrightarrow> \<not> occurs_at (held s @ d) p i"
    using earliest_match_None [of ?s p i] by simp_all
qed

definition scan_result :: "'c list list \<Rightarrow> 'c list \<Rightarrow> 'c list \<Rightarrow> bool \<Rightarrow> bool" where
  "scan_result ss whole out st \<longleftrightarrow>
     (if st then \<exists>u. prefix u whole \<and> prefix out u \<and> (\<exists>p\<in>set ss. occurs_at u p (length out))
         \<and> (\<forall>p\<in>set ss. \<forall>i<length out. \<not> occurs_at u p i)
      else out = whole \<and> (\<forall>p\<in>set ss. \<forall>i. \<not> occurs_at whole p i))"

lemma scan_result_StoppedI:
  assumes "prefix u whole" and "prefix out u" and "\<exists>p\<in>set ss. occurs_at u p (length out)"
    and "\<And>p i. p \<in> set ss \<Longrightarrow> i < length out \<Longrightarrow> \<not> occurs_at u p i"
  shows "scan_result ss whole out True"
  using assms unfolding scan_result_def by auto

lemma scan_result_shift:
  assumes "scan_result ss whole out st"
    and "\<And>p u i. p \<in> set ss \<Longrightarrow> prefix u whole \<Longrightarrow> occurs_at (t @ u) p i \<Longrightarrow> length t \<le> i"
  shows "scan_result ss (t @ whole) (t @ out) st"
proof (cases st)
  case True
  then obtain u where u: "prefix u whole" "prefix out u" "\<exists>p\<in>set ss. occurs_at u p (length out)"
    "\<forall>p\<in>set ss. \<forall>i<length out. \<not> occurs_at u p i"
    using assms(1) by (auto simp: scan_result_def)
  have "\<not> occurs_at (t @ u) p i" if p: "p \<in> set ss" "i < length (t @ out)" for p i
  proof
    assume o: "occurs_at (t @ u) p i"
    then obtain j where "i = length t + j" using assms(2) [OF p(1) u(1) o] le_Suc_ex by blast
    then show False using o u(4) p by (auto simp: occurs_at_shift)
  qed
  moreover have "\<exists>p\<in>set ss. occurs_at (t @ u) p (length (t @ out))" using u(3) by (simp add: occurs_at_shift)
  ultimately have "scan_result ss (t @ whole) (t @ out) True"
    using u(1,2) by (intro scan_result_StoppedI [of "t @ u"]) auto
  then show ?thesis using True by simp
next
  case False
  then have r: "out = whole" "\<forall>p\<in>set ss. \<forall>i. \<not> occurs_at whole p i" using assms(1) by (auto simp: scan_result_def)
  have "\<not> occurs_at (t @ whole) p i" if p: "p \<in> set ss" for p i
  proof
    assume o: "occurs_at (t @ whole) p i"
    then obtain j where "i = length t + j" using assms(2) [OF p _ o] le_Suc_ex by auto
    then show False using o r(2) p by (auto simp: occurs_at_shift)
  qed
  then show ?thesis using r(1) False by (simp add: scan_result_def)
qed

lemma scan_run_result:
  assumes "stops s \<noteq> []" and "scan_run s ds l = (out, st)"
  shows "scan_result (stops s) (held s @ concat ds @ l) out st"
  using assms
proof (induction ds arbitrary: s out)
  case Nil
  show ?case
  proof (cases "snd (scan_finish s l)")
    case (Text t)
    then show ?thesis using Nil scan_finish_Text [OF Nil.prems(1) Text] by (auto simp: scan_result_def)
  next
    case (Stopped t)
    have "scan_result (stops s) (held s @ l) t True"
      using scan_Stopped [OF Nil.prems(1), of l t] Stopped by (intro scan_result_StoppedI [of "held s @ l"]) auto
    then show ?thesis using Nil.prems(2) Stopped by simp
  qed
next
  case (Cons d ds)
  obtain s' x where x: "scan_push s d = (s', x)" by fastforce
  show ?case
  proof (cases x)
    case (Stopped t)
    then have "out = t" "st" using Cons.prems(2) x by simp_all
    moreover have "scan_result (stops s) (held s @ d @ concat ds @ l) t True"
      using scan_Stopped [OF Cons.prems(1), of d t] x Stopped by (intro scan_result_StoppedI [of "held s @ d"]) auto
    ultimately show ?thesis by simp
  next
    case (Text t)
    note p = scan_push_Text [OF Cons.prems(1) x [unfolded Text]]
    obtain out' where o: "scan_run s' ds l = (out', st)" "out = t @ out'"
      using Cons.prems(2) x Text by (auto split: prod.splits)
    have r: "scan_result (stops s) (held s' @ concat ds @ l) out' st"
      using Cons.IH [OF _ o(1)] p(1) Cons.prems(1) by simp
    have e: "held s @ concat (d # ds) @ l = t @ (held s' @ concat ds @ l)" using p(2) by (metis append.assoc concat.simps(2))
    have "scan_result (stops s) (t @ (held s' @ concat ds @ l)) (t @ out') st"
    proof (rule scan_result_shift [OF r])
      fix q u i
      assume q: "q \<in> set (stops s)" and u: "prefix u (held s' @ concat ds @ l)" and oc: "occurs_at (t @ u) q i"
      obtain v where "held s' @ concat ds @ l = u @ v" using u by (auto simp: prefix_def)
      then have "t @ u @ v = held s @ d @ concat ds @ l" using e by simp
      then have "occurs_at (held s @ d @ concat ds @ l) q i" using occurs_at_append [OF oc, of v] by simp
      then show "length t \<le> i" using p(3) q by blast
    qed
    then show ?thesis using e o(2) by metis
  qed
qed

text \<open>C14. However the stream is cut into deltas: when the scanner lets it run to its end, it hands out the whole
  text, and no stop string occurs in it; when it stops, a stop string starts right where the
  text handed out ends, and in what had arrived by then none starts earlier.\<close>

theorem stop_scan_sound:
  assumes "ss \<noteq> []" and "scan_run (stop_scanner_new ss) ds l = (out, st)"
  shows "if st then \<exists>u. prefix u (concat ds @ l) \<and> prefix out u \<and> (\<exists>p\<in>set ss. occurs_at u p (length out))
      \<and> (\<forall>p\<in>set ss. \<forall>i<length out. \<not> occurs_at u p i)
    else out = concat ds @ l \<and> (\<forall>p\<in>set ss. \<forall>i. \<not> occurs_at (concat ds @ l) p i)"
  using scan_run_result [of "stop_scanner_new ss" ds l out st] assms
  by (simp add: stop_scanner_new_def scan_result_def)

theorem stop_scan_sound_witness:
  "scan_run (stop_scanner_new [''four'']) [''th'', ''ree fo''] ''ur'' = (''three '', True)
   \<and> (\<exists>u. prefix u ''three four'' \<and> prefix ''three '' u \<and> occurs_at u ''four'' (length ''three ''))"
proof -
  have "scan_run (stop_scanner_new [''four'']) [''th'', ''ree fo''] ''ur'' = (''three '', True)" by code_simp
  moreover have "[''four''] \<noteq> ([] :: string list)" "concat [''th'', ''ree fo''] @ ''ur'' = ''three four''"
    by simp_all
  ultimately show ?thesis using stop_scan_sound [of "[''four'']" "[''th'', ''ree fo'']" "''ur''" "''three ''" True] by auto
qed

text \<open>C15. For one stop string the stream is cut exactly where a search of the whole text would cut it, whatever
  the deltas.\<close>

theorem single_stop_exact:
  assumes "p \<noteq> []"
  shows "scan_run (stop_scanner_new [p]) ds l =
    (case find_str (concat ds @ l) p of None \<Rightarrow> (concat ds @ l, False) | Some i \<Rightarrow> (take i (concat ds @ l), True))"
proof -
  let ?w = "concat ds @ l"
  obtain out st where r: "scan_run (stop_scanner_new [p]) ds l = (out, st)" by fastforce
  have s: "scan_result [p] ?w out st"
    using scan_run_result [of "stop_scanner_new [p]" ds l out st] r by (simp add: stop_scanner_new_def)
  show ?thesis
  proof (cases st)
    case True
    then obtain u v where u: "?w = u @ v" "prefix out u" "occurs_at u p (length out)" "\<forall>i<length out. \<not> occurs_at u p i"
      using s by (auto simp: scan_result_def prefix_def)
    have "\<not> occurs_at ?w p i" if "i < length out" for i
      using u(3,4) that occurs_at_prefix [of u v p i] unfolding u(1) by (auto simp: occurs_at_def)
    then have "find_str ?w p = Some (length out)"
      using occurs_at_append [OF u(3), of v] by (simp add: find_str_Some flip: u(1))
    moreover have "take (length out) ?w = out" using u(1,2) by (auto simp: prefix_def)
    ultimately show ?thesis using r True by simp
  next
    case False
    then have "out = ?w" "find_str ?w p = None" using s by (simp_all add: scan_result_def find_str_None)
    then show ?thesis using r False by simp
  qed
qed

theorem single_stop_exact_witness: "scan_run (stop_scanner_new [''four'']) [''th'', ''ree fo''] ''ur'' = (''three '', True)"
proof -
  have "find_str (concat [''th'', ''ree fo''] @ ''ur'') ''four'' = Some 6" by code_simp
  with single_stop_exact [of "''four''" "[''th'', ''ree fo'']" "''ur''"] show ?thesis by simp
qed

text \<open>With two stop strings the cut depends on the deltas: the shorter one ends the stream before the longer
  one, which starts earlier, can be seen.\<close>

theorem stops_depend_on_deltas:
  "scan_run (stop_scanner_new [''abcd'', ''bc'']) [''abc''] ''d'' = (''a'', True)
   \<and> scan_run (stop_scanner_new [''abcd'', ''bc'']) [''abcd''] [] = ([], True)"
  by code_simp

end
