(* ===== verification/Utf8.thy ===== *)
theory Utf8
  imports Prelude
begin

text \<open>
  UTF-8 as the standard library reads it: the bytes of a character, character boundaries, and the
  lossy reading \<open>String::from_utf8_lossy\<close>, which puts U+FFFD for every maximal broken sequence.
\<close>

definition is_cont :: "u8 \<Rightarrow> bool" where
  "is_cont b \<longleftrightarrow> 0x80 \<le> b \<and> b \<le> 0xBF"

text \<open>U+FFFD.\<close>

definition replacement :: "u8 list" where
  "replacement = [0xEF, 0xBF, 0xBD]"

text \<open>The bytes a second byte may be, after the first one of a longer character.\<close>

definition second_ok :: "u8 \<Rightarrow> u8 \<Rightarrow> bool" where
  "second_ok a b \<longleftrightarrow>
     (if a = 0xE0 then 0xA0 \<le> b \<and> b \<le> 0xBF
      else if a = 0xED then 0x80 \<le> b \<and> b \<le> 0x9F
      else if a = 0xF0 then 0x90 \<le> b \<and> b \<le> 0xBF
      else if a = 0xF4 then 0x80 \<le> b \<and> b \<le> 0x8F
      else is_cont b)"

text \<open>The length of the character a byte starts; \<open>0\<close> for a byte that starts none.\<close>

definition utf8_width :: "u8 \<Rightarrow> nat" where
  "utf8_width a =
     (if a \<le> 0x7F then 1
      else if 0xC2 \<le> a \<and> a \<le> 0xDF then 2
      else if 0xE0 \<le> a \<and> a \<le> 0xEF then 3
      else if 0xF0 \<le> a \<and> a \<le> 0xF4 then 4
      else 0)"

text \<open>How many of the bytes that follow the first one belong to its character.\<close>

definition good_tail :: "u8 \<Rightarrow> u8 list \<Rightarrow> nat" where
  "good_tail a bs =
     (case bs of
        [] \<Rightarrow> 0
      | b # bs' \<Rightarrow>
          if utf8_width a \<le> 1 \<or> \<not> second_ok a b then 0
          else 1 + length (takeWhile is_cont (take (utf8_width a - 2) bs')))"

function utf8_lossy :: "u8 list \<Rightarrow> u8 list" where
  "utf8_lossy [] = []"
| "utf8_lossy (a # bs) =
     (let n = good_tail a bs
      in (if utf8_width a = n + 1 then a # take n bs else replacement) @ utf8_lossy (drop n bs))"
  by pat_completeness auto

termination
  by (relation "measure length") auto

text \<open>Text that is valid reads as itself.\<close>

definition is_utf8 :: "u8 list \<Rightarrow> bool" where
  "is_utf8 s \<longleftrightarrow> utf8_lossy s = s"

lemma ascii_utf8: "list_all (\<lambda>b. b \<le> 0x7F) s \<Longrightarrow> is_utf8 s"
  unfolding is_utf8_def
proof (induction s)
  case (Cons a s)
  then have "utf8_width a = 1" by (simp add: utf8_width_def)
  moreover from this have "good_tail a s = 0" by (simp add: good_tail_def split: list.splits)
  ultimately show ?case using Cons by simp
qed simp

end
