(* ===== verification/Incremental_Decode.thy ===== *)
theory Incremental_Decode
  imports Utf8 "HOL-Library.Sublist"
begin

text \<open>
  Text deltas from a growing token sequence (\<open>src/common/incremental_decode.rs\<close>).  Text is its
  UTF-8 bytes, so the source's byte offsets are list offsets.  The tokenizer is outside the
  repository: \<open>dec\<close> is its \<open>decode\<close> and \<open>enc\<close> its \<open>encode\<close>, \<open>None\<close> standing for an error.  A slice
  out of range is a panic, the outer \<open>None\<close> of \<open>inc_push\<close>.
\<close>

section \<open>The decoder\<close>

text \<open>\<open>str::is_char_boundary\<close>.\<close>

definition is_char_boundary :: "u8 list \<Rightarrow> nat \<Rightarrow> bool" where
  "is_char_boundary s i \<longleftrightarrow> i = 0 \<or> i = length s \<or> (i < length s \<and> \<not> is_cont (s ! i))"

fun clamp_down :: "u8 list \<Rightarrow> nat \<Rightarrow> nat" where
  "clamp_down s 0 = 0"
| "clamp_down s (Suc i) = (if is_char_boundary s (Suc i) then Suc i else clamp_down s i)"

definition clamp_to_char_boundary :: "u8 list \<Rightarrow> nat \<Rightarrow> nat" where
  "clamp_to_char_boundary s idx = clamp_down s (min idx (length s))"

text \<open>\<open>trim_end_matches\<close> of U+FFFD.\<close>

function trim_replacement :: "u8 list \<Rightarrow> u8 list" where
  "trim_replacement s =
     (if suffix replacement s then trim_replacement (take (length s - length replacement) s) else s)"
  by pat_completeness auto
termination
  by (relation "measure length") (auto simp: replacement_def suffix_def)

declare trim_replacement.simps [simp del]

definition emit_suffix :: "u8 list \<Rightarrow> nat \<Rightarrow> nat \<times> u8 list option" where
  "emit_suffix full decoded_len =
     (let start = clamp_to_char_boundary full decoded_len;
          emit = trim_replacement (drop start full)
      in if emit \<noteq> [] then (start + length emit, Some emit) else (start, None))"

definition decode_stable_lookback :: nat where
  "decode_stable_lookback = 4"

definition split_char_backoff :: nat where
  "split_char_backoff = 3"

type_synonym decode = "u32 list \<Rightarrow> u8 list option"

definition decode_or_empty :: "decode \<Rightarrow> u32 list \<Rightarrow> u8 list" where
  "decode_or_empty dec ids = (case dec ids of None \<Rightarrow> [] | Some s \<Rightarrow> s)"

definition decode_with_neutral_prefix :: "decode \<Rightarrow> u32 list \<Rightarrow> u32 \<Rightarrow> u8 list \<Rightarrow> u8 list" where
  "decode_with_neutral_prefix dec ids neutral_id neutral_text =
     (if ids = [] then []
      else case strip_prefix neutral_text (decode_or_empty dec (neutral_id # ids)) of
             Some s \<Rightarrow> s
           | None \<Rightarrow> decode_or_empty dec ids)"

record neutral_prefix =
  np_id :: u32
  np_text :: "u8 list"

definition neutral_prefix_new :: "(u8 list \<Rightarrow> u32 list option) \<Rightarrow> decode \<Rightarrow> neutral_prefix" where
  "neutral_prefix_new enc dec =
     (let nid = (case enc [0x61] of Some (t # _) \<Rightarrow> t | _ \<Rightarrow> 1)
      in \<lparr>np_id = nid, np_text = decode_or_empty dec [nid]\<rparr>)"

record incremental_decoder =
  decoded_len :: nat
  stable_end :: nat
  stable_text :: "u8 list"

definition incremental_decoder_new :: incremental_decoder where
  "incremental_decoder_new = \<lparr>decoded_len = 0, stable_end = 0, stable_text = []\<rparr>"

text \<open>The text of the tokens from the stable boundary to \<open>e\<close> (\<open>decode_delta\<close>).\<close>

definition decode_delta :: "decode \<Rightarrow> neutral_prefix \<Rightarrow> u32 list \<Rightarrow> nat \<Rightarrow> nat \<Rightarrow> u8 list" where
  "decode_delta dec np all_ids frozen e =
     (if frozen = 0 then decode_or_empty dec (take e all_ids)
      else decode_with_neutral_prefix dec (drop frozen (take e all_ids)) (np_id np) (np_text np))"

text \<open>The \<open>while\<close> loop that moves the boundary off a split character.\<close>

function back_off :: "(nat \<Rightarrow> u8 list) \<Rightarrow> nat \<Rightarrow> nat \<Rightarrow> nat \<Rightarrow> nat" where
  "back_off delta frozen target e =
     (if suffix replacement (delta e) \<and> frozen + 1 < e \<and> target < e + split_char_backoff
      then back_off delta frozen target (e - 1) else e)"
  by pat_completeness auto
termination
  by (relation "measure (\<lambda>(_, _, _, e). e)") auto

declare back_off.simps [simp del]

definition advance_stable_window ::
    "decode \<Rightarrow> neutral_prefix \<Rightarrow> u32 list \<Rightarrow> incremental_decoder \<Rightarrow> incremental_decoder" where
  "advance_stable_window dec np all_ids d =
     (let target = length all_ids - decode_stable_lookback;
          delta = decode_delta dec np all_ids (stable_end d)
      in if target \<le> stable_end d then d
         else
           let e = back_off delta (stable_end d) target target
           in if suffix replacement (delta e) \<and> target < e + split_char_backoff then d
              else
                let e' = (if suffix replacement (delta e) then target else e)
                in d\<lparr>stable_text := (if stable_end d = 0 then delta e' else stable_text d @ delta e'),
                     stable_end := e'\<rparr>)"

definition inc_push ::
    "decode \<Rightarrow> neutral_prefix \<Rightarrow> incremental_decoder \<Rightarrow> u32 list \<Rightarrow>
     (incremental_decoder \<times> u8 list option) option" where
  "inc_push dec np d all_ids =
     (let d1 = advance_stable_window dec np all_ids d
      in if length all_ids < stable_end d1 then None
         else
           let window_ids = drop (stable_end d1) all_ids;
               window_text = (if stable_end d1 = 0 then decode_or_empty dec window_ids
                              else decode_with_neutral_prefix dec window_ids (np_id np) (np_text np));
               (n, out) = emit_suffix (stable_text d1 @ window_text) (decoded_len d1)
           in Some (d1\<lparr>decoded_len := n\<rparr>, out))"

definition inc_finish ::
    "decode \<Rightarrow> incremental_decoder \<Rightarrow> u32 list \<Rightarrow> incremental_decoder \<times> u8 list option" where
  "inc_finish dec d all_ids =
     (if all_ids = [] then (d, None)
      else
        let full = decode_or_empty dec all_ids;
            start = clamp_to_char_boundary full (decoded_len d)
        in (d\<lparr>decoded_len := length full\<rparr>,
            if start < length full then Some (drop start full) else None))"

section \<open>Characters\<close>

text \<open>A text is a list of characters, each a well-formed UTF-8 sequence.\<close>

definition utf8_char :: "u8 list \<Rightarrow> bool" where
  "utf8_char c \<longleftrightarrow> (case c of [] \<Rightarrow> False | a # bs \<Rightarrow> utf8_width a = length c \<and> good_tail a bs = length bs)"

lemma width_not_cont: "0 < utf8_width a \<Longrightarrow> \<not> is_cont a"
  by (auto simp: utf8_width_def is_cont_def word_le_nat_alt split: if_splits)

lemma utf8_char_start: "utf8_char c \<Longrightarrow> \<exists>a bs. c = a # bs \<and> \<not> is_cont a"
  by (cases c) (use width_not_cont [of "hd c"] in \<open>auto simp: utf8_char_def\<close>)

lemma good_tail_le: "good_tail a bs \<le> length bs"
proof (cases bs)
  case (Cons b bs')
  have "length (takeWhile is_cont (take (utf8_width a - 2) bs')) \<le> length bs'"
    using length_takeWhile_le [of is_cont "take (utf8_width a - 2) bs'"] by simp
  then show ?thesis using Cons by (simp add: good_tail_def)
qed (simp add: good_tail_def)

lemma good_tail_full:
  "good_tail a bs = length bs \<Longrightarrow> utf8_width a = Suc (length bs) \<Longrightarrow> good_tail a (bs @ s) = length bs"
  by (cases bs) (auto simp: good_tail_def split: if_splits list.splits)

lemma takeWhile_all: "length (takeWhile P xs) = length xs \<Longrightarrow> list_all P xs"
  by (induction xs) (auto split: if_splits)

lemma good_tail_part:
  assumes "good_tail a bs = length bs" and "utf8_width a = Suc (length bs)" and "k < length bs"
  shows "good_tail a (take k bs) = k"
proof (cases k)
  case (Suc k')
  then obtain b bs' where bs: "bs = b # bs'" using assms(3) by (cases bs) auto
  have all: "list_all is_cont bs'" using assms(1,2) bs
    by (auto simp: good_tail_def split: if_splits intro!: takeWhile_all)
  then have e: "takeWhile is_cont (take k' bs') = take k' bs'"
    unfolding takeWhile_eq_all_conv by (auto simp: list_all_iff dest: in_set_takeD)
  have tw: "length (takeWhile is_cont (take k' bs')) = k'"
    unfolding e using assms(3) bs Suc by simp
  show ?thesis using assms bs Suc tw
    by (auto simp: good_tail_def min_def split: if_splits)
qed (simp add: good_tail_def)

lemma lossy_char: "utf8_char c \<Longrightarrow> utf8_lossy (c @ s) = c @ utf8_lossy s"
  by (auto simp: utf8_char_def good_tail_full Let_def split: list.splits)

lemma lossy_part:
  assumes "utf8_char c" and "0 < k" and "k < length c"
  shows "utf8_lossy (take k c) = replacement"
proof -
  obtain a bs where c: "c = a # bs" "utf8_width a = Suc (length bs)" "good_tail a bs = length bs"
    using assms(1) by (auto simp: utf8_char_def split: list.splits)
  obtain k' where k: "k = Suc k'" using assms(2) by (cases k) auto
  have "good_tail a (take k' bs) = k'" using good_tail_part c(2,3) assms(3) by (simp add: c(1) k)
  then show ?thesis using c assms(3) by (simp add: k Let_def)
qed

lemma lossy_chars: "list_all utf8_char cs \<Longrightarrow> utf8_lossy (concat cs @ s) = concat cs @ utf8_lossy s"
  by (induction cs) (simp_all add: lossy_char)

text \<open>A prefix of a text: its whole characters, and the bytes of the one it breaks off in.\<close>

lemma text_prefix:
  assumes "list_all utf8_char cs" and "k \<le> length (concat cs)"
  shows "\<exists>j p. j \<le> length cs \<and> take k (concat cs) = concat (take j cs) @ p
    \<and> (p = [] \<or> j < length cs \<and> (\<exists>m. 0 < m \<and> m < length (cs ! j) \<and> p = take m (cs ! j)))"
  using assms
proof (induction cs arbitrary: k)
  case Nil
  then show ?case by simp
next
  case (Cons c cs)
  show ?case
  proof (cases "k < length c")
    case True
    then show ?thesis
      by (intro exI [of _ 0] exI [of _ "take k c"]) (auto intro!: exI [of _ k])
  next
    case False
    have le: "k - length c \<le> length (concat cs)" using Cons.prems(2) by simp
    obtain j p where "j \<le> length cs" "take (k - length c) (concat cs) = concat (take j cs) @ p"
        "p = [] \<or> j < length cs \<and> (\<exists>m. 0 < m \<and> m < length (cs ! j) \<and> p = take m (cs ! j))"
      using Cons.IH [OF _ le] Cons.prems(1) by auto
    then show ?thesis using False
      by (intro exI [of _ "Suc j"] exI [of _ p]) auto
  qed
qed

text \<open>A text without the character U+FFFD never ends in its bytes.\<close>

lemma utf8_char_rest: "utf8_char (a # bs) \<Longrightarrow> list_all is_cont bs"
proof (cases bs)
  case (Cons b bs')
  assume c: "utf8_char (a # bs)"
  then have "second_ok a b" "list_all is_cont bs'"
    using Cons by (auto simp: utf8_char_def good_tail_def split: if_splits intro!: takeWhile_all)
  moreover from this(1) have "is_cont b"
    by (auto simp: second_ok_def is_cont_def word_le_nat_alt split: if_splits)
  ultimately show ?thesis using Cons by simp
qed simp

lemma char_not_replacement:
  assumes "utf8_char c" and "c \<noteq> replacement"
  shows "\<not> suffix c replacement \<and> \<not> suffix replacement c"
proof
  obtain a bs where c: "c = a # bs" "\<not> is_cont a" "list_all is_cont bs"
    using utf8_char_start [OF assms(1)] utf8_char_rest assms(1) by blast
  show "\<not> suffix c replacement"
  proof
    assume "suffix c replacement"
    then obtain zs where "replacement = zs @ c" by (auto simp: suffix_def)
    then show False using c assms(2)
      by (auto simp: replacement_def is_cont_def Cons_eq_append_conv)
  qed
  show "\<not> suffix replacement c"
  proof
    assume "suffix replacement c"
    then obtain zs where z: "c = zs @ replacement" by (auto simp: suffix_def)
    then obtain zs' where "bs = zs' @ replacement" using c(1) assms(2) by (cases zs) auto
    then show False using c(3) by (simp add: replacement_def is_cont_def)
  qed
qed

lemma chars_not_ending:
  assumes "list_all utf8_char cs" and "replacement \<notin> set cs"
  shows "\<not> suffix replacement (concat cs)"
proof (cases cs rule: rev_cases)
  case Nil
  then show ?thesis by (simp add: replacement_def)
next
  case (snoc cs' c)
  have "suffix c (concat cs)" by (simp add: snoc suffix_def)
  then have "suffix replacement (concat cs) \<Longrightarrow> suffix c replacement \<or> suffix replacement c"
    using suffix_same_cases by blast
  then show ?thesis using char_not_replacement [of c] assms snoc by auto
qed

section \<open>What is handed out\<close>

lemma clamp_boundary: "is_char_boundary s i \<Longrightarrow> i \<le> length s \<Longrightarrow> clamp_to_char_boundary s i = i"
  by (cases i) (simp_all add: clamp_to_char_boundary_def)

lemma chars_boundary:
  assumes "list_all utf8_char ys" and "r = [] \<or> r = replacement"
  shows "is_char_boundary (xs @ concat ys @ r) (length xs)"
proof (cases "concat ys @ r")
  case (Cons b s)
  have "\<not> is_cont b"
  proof (cases ys)
    case Nil
    then show ?thesis using Cons assms(2) by (auto simp: replacement_def is_cont_def)
  next
    case (Cons y ys')
    then show ?thesis using utf8_char_start [of y] assms(1) \<open>concat ys @ r = b # s\<close> by auto
  qed
  then show ?thesis by (simp add: Cons is_char_boundary_def)
qed (simp add: is_char_boundary_def)

lemma trim_chars:
  assumes "list_all utf8_char ys" and "replacement \<notin> set ys" and "r = [] \<or> r = replacement"
  shows "trim_replacement (concat ys @ r) = concat ys"
proof -
  have stay: "trim_replacement (concat ys) = concat ys"
    using chars_not_ending [OF assms(1,2)] by (simp add: trim_replacement.simps)
  have "suffix replacement (concat ys @ replacement)" by (simp add: suffix_def)
  then have "trim_replacement (concat ys @ replacement) = trim_replacement (concat ys)"
    by (subst trim_replacement.simps) simp
  then show ?thesis using assms(3) stay by auto
qed

lemma emit_chars:
  assumes "list_all utf8_char ys" and "replacement \<notin> set ys" and "r = [] \<or> r = replacement"
  shows "emit_suffix (xs @ concat ys @ r) (length xs) =
    (length (xs @ concat ys), if concat ys = [] then None else Some (concat ys))"
  using clamp_boundary [OF chars_boundary [OF assms(1,3)], of xs] trim_chars [OF assms]
  by (simp add: emit_suffix_def Let_def)

section \<open>The stable window\<close>

definition byte_tokenizer :: "decode \<Rightarrow> (u32 \<Rightarrow> u8 list) \<Rightarrow> bool" where
  "byte_tokenizer dec tb \<longleftrightarrow> (\<forall>ids. dec ids = Some (utf8_lossy (concat (map tb ids))))"

definition spells :: "(u32 \<Rightarrow> u8 list) \<Rightarrow> u32 list \<Rightarrow> u8 list" where
  "spells tb ids = concat (map tb ids)"

definition neutral_ok :: "(u32 \<Rightarrow> u8 list) \<Rightarrow> neutral_prefix \<Rightarrow> bool" where
  "neutral_ok tb np \<longleftrightarrow> (\<exists>cs. list_all utf8_char cs \<and> tb (np_id np) = concat cs \<and> np_text np = concat cs)"

lemma strip_prefix_append [simp]: "strip_prefix xs (xs @ ys) = Some ys"
  by (induction xs) auto

lemma decode_behind_neutral:
  assumes "byte_tokenizer dec tb" and "neutral_ok tb np"
  shows "decode_with_neutral_prefix dec ids (np_id np) (np_text np) = utf8_lossy (spells tb ids)"
  using assms
  by (auto simp: decode_with_neutral_prefix_def neutral_ok_def byte_tokenizer_def decode_or_empty_def
      spells_def lossy_chars)

lemma decode_delta_spells:
  "byte_tokenizer dec tb \<Longrightarrow> neutral_ok tb np \<Longrightarrow>
     decode_delta dec np ids frozen e = utf8_lossy (spells tb (drop frozen (take e ids)))"
  by (simp add: decode_delta_def decode_behind_neutral)
    (simp add: byte_tokenizer_def decode_or_empty_def spells_def)

lemma back_off_spec:
  assumes "frozen < e" and "target \<le> e + split_char_backoff" and "b = back_off delta frozen target e"
  shows "frozen < b \<and> b \<le> e \<and> target \<le> b + split_char_backoff
    \<and> (\<forall>i. b < i \<longrightarrow> i \<le> e \<longrightarrow> suffix replacement (delta i))
    \<and> (suffix replacement (delta b) \<longrightarrow> b = frozen + 1 \<or> b + split_char_backoff \<le> target)"
  using assms
proof (induction delta frozen target e rule: back_off.induct)
  case (1 delta frozen target e)
  show ?case
  proof (cases "suffix replacement (delta e) \<and> frozen + 1 < e \<and> target < e + split_char_backoff")
    case True
    then have b: "b = back_off delta frozen target (e - 1)" using 1(4) by (simp add: back_off.simps [of _ _ _ e])
    have p: "frozen < e - 1" "target \<le> e - 1 + split_char_backoff" using True by linarith+
    note ih = 1(1) [OF True p b]
    have "suffix replacement (delta i)" if "b < i" "i \<le> e" for i
      using that ih True by (cases "i = e") auto
    then show ?thesis using ih True by auto
  next
    case False
    have "b = e" using 1(4) back_off.simps [of delta frozen target e] by (simp only: False if_False)
    then show ?thesis using False 1(2,3) by (auto simp: not_less)
  qed
qed

text \<open>A broken-off text reads as its whole characters and at most one U+FFFD.\<close>

lemma broken_text:
  assumes "list_all utf8_char cs" and "prefix P (concat cs)"
  shows "\<exists>m r. m \<le> length cs \<and> utf8_lossy P = concat (take m cs) @ r \<and> prefix (concat (take m cs)) P
    \<and> (r = [] \<and> P = concat (take m cs) \<or> r = replacement)
    \<and> (m < length cs \<longrightarrow> length P < length (concat (take (Suc m) cs)))"
proof -
  have P: "P = take (length P) (concat cs)" "length P \<le> length (concat cs)"
    using assms(2) by (auto simp: prefix_def)
  obtain j p where j: "j \<le> length cs" "P = concat (take j cs) @ p"
      "p = [] \<or> j < length cs \<and> (\<exists>m. 0 < m \<and> m < length (cs ! j) \<and> p = take m (cs ! j))"
    using text_prefix [OF assms(1) P(2)] P(1) by auto
  have l: "utf8_lossy P = concat (take j cs) @ utf8_lossy p"
    using j(2) lossy_chars [of "take j cs" p] assms(1) by (auto simp: list_all_iff dest: in_set_takeD)
  show ?thesis
  proof (cases "p = []")
    case True
    have "0 < length (cs ! j)" if "j < length cs"
      using utf8_char_start [of "cs ! j"] assms(1) that by (auto simp: list_all_length)
    then show ?thesis using j(1,2) l True
      by (intro exI [of _ j] exI [of _ "[]"]) (simp add: take_Suc_conv_app_nth)
  next
    case False
    then obtain m where "j < length cs" "0 < m" "m < length (cs ! j)" "p = take m (cs ! j)" using j(3) by blast
    then have "utf8_lossy p = replacement" using lossy_part [of "cs ! j" m] assms(1) by (simp add: list_all_length)
    then show ?thesis using j l \<open>p = take m (cs ! j)\<close> \<open>m < length (cs ! j)\<close>
      by (intro exI [of _ j] exI [of _ replacement]) (simp add: take_Suc_conv_app_nth)
  qed
qed

text \<open>Ends that fall between characters.\<close>

definition clean_end :: "u8 list list \<Rightarrow> u8 list \<Rightarrow> bool" where
  "clean_end cs P \<longleftrightarrow> (\<exists>m \<le> length cs. P = concat (take m cs))"

definition text_ok :: "u8 list list \<Rightarrow> bool" where
  "text_ok cs \<longleftrightarrow> list_all utf8_char cs \<and> replacement \<notin> set cs"

lemma text_ok_part: "text_ok cs \<Longrightarrow> text_ok (take m cs) \<and> text_ok (drop m cs)"
  by (auto simp: text_ok_def list_all_iff dest: in_set_takeD in_set_dropD)

text \<open>Past a clean end, a fragment ends in U+FFFD exactly when it breaks a character off.\<close>

lemma fragment_clean:
  assumes "text_ok cs" and "clean_end cs P" and "prefix (P @ X) (concat cs)"
  shows "suffix replacement (utf8_lossy X) \<longleftrightarrow> \<not> clean_end cs (P @ X)"
    and "clean_end cs (P @ X) \<Longrightarrow> utf8_lossy X = X"
    and "utf8_lossy (P @ X) = P @ utf8_lossy X"
proof -
  obtain m where m: "m \<le> length cs" "P = concat (take m cs)" using assms(2) by (auto simp: clean_end_def)
  have cs: "list_all utf8_char cs" "list_all utf8_char (take m cs)" "list_all utf8_char (drop m cs)"
      "replacement \<notin> set (drop m cs)"
    using assms(1) text_ok_part [OF assms(1), of m] by (auto simp: text_ok_def)
  have all: "concat cs = P @ concat (drop m cs)" by (simp add: m(2) flip: concat_append)
  then have X: "prefix X (concat (drop m cs))" using assms(3) by simp
  show l: "utf8_lossy (P @ X) = P @ utf8_lossy X" using lossy_chars [OF cs(2)] by (simp add: m(2))
  obtain j r where j: "j \<le> length (drop m cs)" "utf8_lossy X = concat (take j (drop m cs)) @ r"
      "r = [] \<and> X = concat (take j (drop m cs)) \<or> r = replacement"
    using broken_text [OF cs(3) X] by blast
  have nosuf: "\<not> suffix replacement (concat (take k cs'))" if "text_ok cs'" for k cs'
    using chars_not_ending text_ok_part [OF that, of k] unfolding text_ok_def by blast
  have join: "P @ concat (take j (drop m cs)) = concat (take (m + j) cs)" by (simp add: m(2) take_add)
  have cl: "clean_end cs (P @ concat (take j (drop m cs)))"
    unfolding clean_end_def join using j(1) m(1) by (intro exI [of _ "m + j"]) simp
  have a: "\<not> suffix replacement (utf8_lossy X) \<Longrightarrow> clean_end cs (P @ X) \<and> utf8_lossy X = X"
    using j cl by (auto simp: suffix_def)
  have b: "\<not> suffix replacement (utf8_lossy X)" if c: "clean_end cs (P @ X)"
  proof
    assume s: "suffix replacement (utf8_lossy X)"
    obtain k where k: "P @ X = concat (take k cs)" using c by (auto simp: clean_end_def)
    have "list_all utf8_char (take k cs)" using text_ok_part [OF assms(1), of k] by (simp add: text_ok_def)
    then have "utf8_lossy (P @ X) = concat (take k cs)" using lossy_chars [of "take k cs" "[]"] k by simp
    then have "suffix replacement (concat (take k cs))" using suffix_appendI [OF s, of P] l by simp
    then show False using nosuf [OF assms(1)] by blast
  qed
  show "suffix replacement (utf8_lossy X) \<longleftrightarrow> \<not> clean_end cs (P @ X)" using a b by blast
  show "clean_end cs (P @ X) \<Longrightarrow> utf8_lossy X = X" using a b by blast
qed

text \<open>
  The decoder's state after a stretch of the tokens whose text is \<open>E\<close> so far: a frozen part
  that ends between characters, and the bytes handed out.
\<close>

definition decoder_at ::
    "(u32 \<Rightarrow> u8 list) \<Rightarrow> u8 list list \<Rightarrow> u32 list \<Rightarrow> nat \<Rightarrow> incremental_decoder \<Rightarrow> bool" where
  "decoder_at tb cs ids n d \<longleftrightarrow>
     stable_end d \<le> n \<and> n \<le> length ids
     \<and> stable_text d = spells tb (take (stable_end d) ids) \<and> clean_end cs (stable_text d)"

lemma decoder_at_decoded: "decoder_at tb cs ids n (d\<lparr>decoded_len := k\<rparr>) = decoder_at tb cs ids n d"
  by (simp add: decoder_at_def)

text \<open>Of any four consecutive token boundaries one falls between characters.\<close>

definition splits_short :: "(u32 \<Rightarrow> u8 list) \<Rightarrow> u8 list list \<Rightarrow> u32 list \<Rightarrow> bool" where
  "splits_short tb cs ids \<longleftrightarrow>
     (\<forall>i. i + split_char_backoff \<le> length ids \<longrightarrow>
        (\<exists>j \<le> split_char_backoff. clean_end cs (spells tb (take (i + j) ids))))"

lemma spells_take_drop:
  "b \<le> e \<Longrightarrow> spells tb (take e ids) = spells tb (take b ids) @ spells tb (drop b (take e ids))"
  by (metis append_take_drop_id concat_append map_append min.absorb1 spells_def take_take)

lemma spells_prefix: "prefix (spells tb (take e ids)) (spells tb ids)"
  by (metis append_take_drop_id concat_append map_append prefixI spells_def)

lemma advance_at:
  assumes dec: "byte_tokenizer dec tb" "neutral_ok tb np"
    and cs: "text_ok cs" "prefix (spells tb ids) (concat cs)" "splits_short tb cs ids"
    and at: "decoder_at tb cs ids n d" and le: "n \<le> n'" "n' \<le> length ids"
  shows "decoder_at tb cs ids n' (advance_stable_window dec np (take n' ids) d)
    \<and> decoded_len (advance_stable_window dec np (take n' ids) d) = decoded_len d"
proof -
  let ?f = "stable_end d" and ?ids = "take n' ids" and ?t = "n' - decode_stable_lookback"
  let ?delta = "decode_delta dec np ?ids ?f"
  note a = at [unfolded decoder_at_def]
  have clean0: "clean_end cs (stable_text d)" using a by blast
  have len: "min (length ids) n' = n'" using le(2) by simp
  have same: "decoder_at tb cs ids n' d" using a le by (auto simp: decoder_at_def)
  show ?thesis
  proof (cases "?t \<le> ?f")
    case True
    then show ?thesis using same by (simp add: advance_stable_window_def len Let_def)
  next
    case False
    define e where "e = back_off ?delta ?f ?t ?t"
    have b: "?f < e" "e \<le> ?t" "?t \<le> e + split_char_backoff"
        "\<forall>i. e < i \<longrightarrow> i \<le> ?t \<longrightarrow> suffix replacement (?delta i)"
        "suffix replacement (?delta e) \<longrightarrow> e = ?f + 1 \<or> e + split_char_backoff \<le> ?t"
      using back_off_spec [of ?f ?t ?t e ?delta] False e_def by auto
    have frag: "?delta i = utf8_lossy (spells tb (drop ?f (take i ids)))"
        "spells tb (take i ids) = stable_text d @ spells tb (drop ?f (take i ids))"
        "prefix (stable_text d @ spells tb (drop ?f (take i ids))) (concat cs)"
      if "?f \<le> i" "i \<le> n'" for i
    proof -
      show "?delta i = utf8_lossy (spells tb (drop ?f (take i ids)))"
        using that by (simp add: decode_delta_spells [OF dec] min_absorb1)
      show e: "spells tb (take i ids) = stable_text d @ spells tb (drop ?f (take i ids))"
        using spells_take_drop [OF that(1)] a by simp
      show "prefix (stable_text d @ spells tb (drop ?f (take i ids))) (concat cs)"
        using prefix_order.trans [OF spells_prefix cs(2)] by (simp flip: e)
    qed
    have clean: "suffix replacement (?delta i) \<longleftrightarrow> \<not> clean_end cs (spells tb (take i ids))"
      if "?f \<le> i" "i \<le> n'" for i
      using fragment_clean(1) [OF cs(1) clean0 frag(3) [OF that]] by (simp only: frag(1,2) [OF that])
    show ?thesis
    proof (cases "suffix replacement (?delta e)")
      case True
      have "?t < e + split_char_backoff"
      proof (rule ccontr)
        assume "\<not> ?t < e + split_char_backoff"
        then have t: "?t = e + split_char_backoff" using b(3) by simp
        then have "e + split_char_backoff \<le> length ids" using le(2) by simp
        then obtain j where j: "j \<le> split_char_backoff" "clean_end cs (spells tb (take (e + j) ids))"
          using cs(3) unfolding splits_short_def by blast
        have "suffix replacement (?delta (e + j))" using b(4) True j(1) t by (cases "j = 0") auto
        then show False using clean [of "e + j"] j b(1,2) t by simp
      qed
      then show ?thesis using True False same
        by (simp add: advance_stable_window_def len Let_def flip: e_def)
    next
      case nosuf: False
      have i: "?f \<le> e" "e \<le> n'" using b(1,2) by auto
      have c: "clean_end cs (spells tb (take e ids))" using clean [OF i] nosuf by simp
      have d: "?delta e = spells tb (drop ?f (take e ids))"
        using fragment_clean(2) [OF cs(1) clean0 frag(3) [OF i]] c by (simp only: frag(1,2) [OF i])
      have st: "(if ?f = 0 then ?delta e else stable_text d @ ?delta e) = spells tb (take e ids)"
        unfolding d by (cases "?f = 0") (simp, simp flip: frag(2) [OF i])
      have "advance_stable_window dec np ?ids d =
          d\<lparr>stable_text := spells tb (take e ids), stable_end := e\<rparr>"
        using nosuf False st by (simp add: advance_stable_window_def len Let_def flip: e_def)
      then show ?thesis using c i(2) le(2) by (simp add: decoder_at_def)
    qed
  qed
qed

section \<open>A stream\<close>

lemma length_concat_take: "k \<le> l \<Longrightarrow> length (concat (take k cs)) \<le> length (concat (take l cs))"
  by (metis concat_append le_add1 le_add_diff_inverse length_append take_add)

definition handed_out :: "u8 list list \<Rightarrow> u8 list \<Rightarrow> u8 list \<Rightarrow> bool" where
  "handed_out cs P E \<longleftrightarrow> (\<exists>m \<le> length cs. E = concat (take m cs)) \<and> prefix E P"

text \<open>The rest of a text past what is handed out: whole characters, then at most one U+FFFD.\<close>

lemma rest_of_text:
  assumes "text_ok cs" and "prefix P (concat cs)" and "handed_out cs P E"
  shows "\<exists>ys r. text_ok ys \<and> utf8_lossy P = E @ concat ys @ r \<and> (r = [] \<or> r = replacement)
    \<and> handed_out cs P (E @ concat ys)"
proof -
  obtain k where k: "k \<le> length cs" "E = concat (take k cs)" "prefix E P"
    using assms(3) by (auto simp: handed_out_def)
  obtain m r where m: "m \<le> length cs" "utf8_lossy P = concat (take m cs) @ r" "prefix (concat (take m cs)) P"
      "r = [] \<or> r = replacement" "m < length cs \<longrightarrow> length P < length (concat (take (Suc m) cs))"
    using broken_text [OF _ assms(2)] assms(1) unfolding text_ok_def by blast
  have km: "k \<le> m"
  proof (rule ccontr)
    assume "\<not> k \<le> m"
    then have "Suc m \<le> k" by simp
    then have "length (concat (take (Suc m) cs)) \<le> length P"
      using length_concat_take [of "Suc m" k cs] prefix_length_le [OF k(3)] k(2) by simp
    then show False using m(5) \<open>\<not> k \<le> m\<close> k(1) by simp
  qed
  have e: "concat (take m cs) = E @ concat (take (m - k) (drop k cs))"
    using take_add [of k "m - k" cs] km by (simp add: k(2))
  have "text_ok (take (m - k) (drop k cs))" using text_ok_part assms(1) by blast
  moreover have "handed_out cs P (E @ concat (take (m - k) (drop k cs)))"
    unfolding handed_out_def using m(1,3) by (auto simp flip: e)
  ultimately show ?thesis using m(2,4) e
    by (intro exI [of _ "take (m - k) (drop k cs)"] exI [of _ r]) simp
qed

lemma push_at:
  assumes dec: "byte_tokenizer dec tb" "neutral_ok tb np"
    and cs: "text_ok cs" "prefix (spells tb ids) (concat cs)" "splits_short tb cs ids"
    and at: "decoder_at tb cs ids n d" and le: "n \<le> n'" "n' \<le> length ids"
    and E: "handed_out cs (spells tb (take n ids)) E" "decoded_len d = length E"
  shows "\<exists>d' out. inc_push dec np d (take n' ids) = Some (d', out) \<and> decoder_at tb cs ids n' d'
    \<and> handed_out cs (spells tb (take n' ids)) (E @ (case out of None \<Rightarrow> [] | Some s \<Rightarrow> s))
    \<and> decoded_len d' = length (E @ (case out of None \<Rightarrow> [] | Some s \<Rightarrow> s))"
proof -
  let ?ids = "take n' ids" and ?P = "spells tb (take n' ids)"
  define d1 where "d1 = advance_stable_window dec np ?ids d"
  have d1: "decoder_at tb cs ids n' d1" "decoded_len d1 = length E"
    using advance_at [OF dec cs at le] E(2) by (auto simp: d1_def)
  let ?f = "stable_end d1"
  have f: "?f \<le> n'" "stable_text d1 = spells tb (take ?f ids)" "clean_end cs (stable_text d1)"
    using d1(1) unfolding decoder_at_def by blast+
  have P: "?P = stable_text d1 @ spells tb (drop ?f ?ids)" using spells_take_drop [OF f(1)] f(2) by simp
  have pre: "prefix ?P (concat cs)" by (rule prefix_order.trans [OF spells_prefix cs(2)])
  have window: "(if ?f = 0 then decode_or_empty dec (drop ?f ?ids)
      else decode_with_neutral_prefix dec (drop ?f ?ids) (np_id np) (np_text np)) =
      utf8_lossy (spells tb (drop ?f ?ids))"
    using dec(1) by (simp add: decode_behind_neutral [OF dec])
      (simp add: byte_tokenizer_def decode_or_empty_def spells_def)
  have full: "stable_text d1 @ utf8_lossy (spells tb (drop ?f ?ids)) = utf8_lossy ?P"
    using fragment_clean(3) [OF cs(1) f(3)] pre unfolding P by simp
  have "prefix (spells tb (take n ids)) ?P" using spells_take_drop [OF le(1), of tb ids] by simp
  then have "handed_out cs ?P E" using E(1) prefix_order.trans unfolding handed_out_def by blast
  then obtain ys r where r: "text_ok ys" "utf8_lossy ?P = E @ concat ys @ r" "r = [] \<or> r = replacement"
      "handed_out cs ?P (E @ concat ys)"
    using rest_of_text [OF cs(1) pre] by blast
  have em: "emit_suffix (utf8_lossy ?P) (length E) =
      (length (E @ concat ys), if concat ys = [] then None else Some (concat ys))"
    unfolding r(2) using emit_chars [OF _ _ r(3)] r(1) by (simp add: text_ok_def)
  let ?out = "if concat ys = [] then None else Some (concat ys)"
  let ?d2 = "d1\<lparr>decoded_len := length (E @ concat ys)\<rparr>"
  have push: "inc_push dec np d ?ids = Some (?d2, ?out)"
    unfolding inc_push_def Let_def d1_def [symmetric] window full d1(2) em using f(1) le(2) by simp
  have out: "(case ?out of None \<Rightarrow> [] | Some s \<Rightarrow> s) = concat ys" by simp
  have "decoder_at tb cs ids n' ?d2" using d1(1) by (simp only: decoder_at_decoded)
  moreover have "decoded_len ?d2 = length (E @ concat ys)" by simp
  ultimately show ?thesis using push r(4)
    by (intro exI [of _ ?d2] exI [of _ ?out]) (simp only: out simp_thms)
qed

text \<open>A stream: a push for each of the growing prefixes, then the final decode.\<close>

definition shown :: "u8 list option \<Rightarrow> u8 list" where
  "shown out = (case out of None \<Rightarrow> [] | Some s \<Rightarrow> s)"

fun push_all ::
    "decode \<Rightarrow> neutral_prefix \<Rightarrow> u32 list \<Rightarrow> incremental_decoder \<Rightarrow> nat list \<Rightarrow>
     (incremental_decoder \<times> u8 list) option" where
  "push_all dec np ids d [] = Some (d, [])"
| "push_all dec np ids d (n # ns) =
     (case inc_push dec np d (take n ids) of
        None \<Rightarrow> None
      | Some (d1, out) \<Rightarrow> map_option (\<lambda>(d2, t). (d2, shown out @ t)) (push_all dec np ids d1 ns))"

lemma push_all_at:
  assumes "byte_tokenizer dec tb" "neutral_ok tb np"
    and "text_ok cs" "prefix (spells tb ids) (concat cs)" "splits_short tb cs ids"
    and "decoder_at tb cs ids n d" and "sorted (n # ns)" and "\<forall>m \<in> set ns. m \<le> length ids"
    and "handed_out cs (spells tb (take n ids)) E" "decoded_len d = length E"
  shows "\<exists>d' t. push_all dec np ids d ns = Some (d', t)
    \<and> handed_out cs (spells tb (take (last (n # ns)) ids)) (E @ t) \<and> decoded_len d' = length (E @ t)"
  using assms(6-10)
proof (induction ns arbitrary: n d E)
  case Nil
  then show ?case by simp
next
  case (Cons n' ns)
  obtain d1 out where p: "inc_push dec np d (take n' ids) = Some (d1, out)" "decoder_at tb cs ids n' d1"
      "handed_out cs (spells tb (take n' ids)) (E @ shown out)" "decoded_len d1 = length (E @ shown out)"
    using push_at [OF assms(1-5) Cons.prems(1) _ _ Cons.prems(4,5), of n'] Cons.prems(2,3)
    unfolding shown_def by auto
  obtain d' t where "push_all dec np ids d1 ns = Some (d', t)"
      "handed_out cs (spells tb (take (last (n' # ns)) ids)) ((E @ shown out) @ t)"
      "decoded_len d' = length ((E @ shown out) @ t)"
    using Cons.IH [OF p(2) _ _ p(3,4)] Cons.prems(2,3) by auto
  then show ?case using p(1) by simp
qed

text \<open>C23. Streaming shows what decoding at the end would: for a byte-level tokenizer over a text without
  the character U+FFFD (\<open>text_ok\<close>; with one it fails, \<open>literal_replacement_splits\<close>) of which in any four consecutive
  token boundaries one falls between characters (\<open>splits_short\<close>, the bound of the decoder's back-off), whatever
  stretches the tokens arrive in, no push panics, what the pushes hand out is
  always whole characters of the text (so nothing shown is taken back and no half character is
  shown), and together with the final decode it is exactly the decode of the whole sequence,
  even when the sequence ends inside a character.\<close>

theorem incremental_is_whole:
  assumes "byte_tokenizer dec tb" and "neutral_ok tb np" and "text_ok cs"
    and "prefix (spells tb ids) (concat cs)" and "splits_short tb cs ids"
    and "sorted ns" and "\<forall>n \<in> set ns. n \<le> length ids"
  shows "\<exists>d t. push_all dec np ids incremental_decoder_new ns = Some (d, t)
    \<and> handed_out cs (spells tb ids) t
    \<and> t @ shown (snd (inc_finish dec d ids)) = decode_or_empty dec ids"
proof -
  have "decoder_at tb cs ids 0 incremental_decoder_new"
    by (auto simp: decoder_at_def incremental_decoder_new_def clean_end_def spells_def intro: exI [of _ 0])
  moreover have "handed_out cs (spells tb (take 0 ids)) []"
    by (auto simp: handed_out_def spells_def intro: exI [of _ 0])
  ultimately obtain d t where p: "push_all dec np ids incremental_decoder_new ns = Some (d, t)"
      "handed_out cs (spells tb (take (last (0 # ns)) ids)) t" "decoded_len d = length t"
    using push_all_at [OF assms(1-5), of 0 incremental_decoder_new ns "[]"] assms(6,7)
    by (auto simp: incremental_decoder_new_def)
  have h: "handed_out cs (spells tb ids) t"
    using p(2) prefix_order.trans [OF _ spells_prefix] unfolding handed_out_def by blast
  obtain ys r where r: "text_ok ys" "utf8_lossy (spells tb ids) = t @ concat ys @ r" "r = [] \<or> r = replacement"
    using rest_of_text [OF assms(3,4) h] by blast
  have full: "decode_or_empty dec ids = t @ concat ys @ r"
    using assms(1) r(2) by (simp add: byte_tokenizer_def decode_or_empty_def spells_def)
  have "clamp_to_char_boundary (t @ concat ys @ r) (length t) = length t"
    using chars_boundary [OF _ r(3), of ys t] r(1) by (intro clamp_boundary) (auto simp: text_ok_def)
  then have "shown (snd (inc_finish dec d ids)) = concat ys @ r" if "ids \<noteq> []"
    using that by (simp add: inc_finish_def full p(3) shown_def Let_def)
  moreover have "t @ concat ys @ r = [] \<and> shown (snd (inc_finish dec d ids)) = []" if "ids = []"
    using that r(2) by (simp add: spells_def inc_finish_def shown_def)
  ultimately show ?thesis using p(1) h full by (cases "ids = []") auto
qed

text \<open>An \<open>a\<close>, an \<open>e\<close> with an acute accent and a four-byte character, one byte a token.\<close>

theorem incremental_is_whole_witness:
  "\<exists>d t. push_all (\<lambda>ids. Some (utf8_lossy (map ucast ids))) \<lparr>np_id = 0x61, np_text = [0x61]\<rparr>
       [0x61, 0xC3, 0xA9, 0xF0, 0x9F, 0x98, 0x80, 0x61, 0x61, 0xF0] incremental_decoder_new [1, 2, 3, 4, 5, 6, 7, 8, 9]
       = Some (d, t)
    \<and> t @ shown (snd (inc_finish (\<lambda>ids. Some (utf8_lossy (map ucast ids))) d
            [0x61, 0xC3, 0xA9, 0xF0, 0x9F, 0x98, 0x80, 0x61, 0x61, 0xF0]))
      = [0x61, 0xC3, 0xA9, 0xF0, 0x9F, 0x98, 0x80, 0x61, 0x61] @ replacement"
proof -
  let ?ids = "[0x61, 0xC3, 0xA9, 0xF0, 0x9F, 0x98, 0x80, 0x61, 0x61, 0xF0] :: u32 list"
  let ?dec = "\<lambda>ids. Some (utf8_lossy (map ucast (ids :: u32 list)))"
  let ?cs = "[[0x61], [0xC3, 0xA9], [0xF0, 0x9F, 0x98, 0x80], [0x61], [0x61], [0xF0, 0x9F, 0x98, 0x80]]"
  have "\<exists>d t. push_all ?dec \<lparr>np_id = 0x61, np_text = [0x61]\<rparr> ?ids incremental_decoder_new [1, 2, 3, 4, 5, 6, 7, 8, 9]
       = Some (d, t)
    \<and> handed_out ?cs (spells (\<lambda>t. [ucast t]) ?ids) t
    \<and> t @ shown (snd (inc_finish ?dec d ?ids)) = decode_or_empty ?dec ?ids"
  proof (rule incremental_is_whole)
    show "byte_tokenizer ?dec (\<lambda>t. [ucast t])" by (simp add: byte_tokenizer_def concat_map_singleton)
    show "neutral_ok (\<lambda>t :: u32. [ucast t]) \<lparr>np_id = 0x61, np_text = [0x61]\<rparr>"
      unfolding neutral_ok_def by (rule exI [of _ "[[0x61]]"]) (simp add: utf8_char_def utf8_width_def good_tail_def)
    show "text_ok ?cs"
      by (simp add: text_ok_def utf8_char_def utf8_width_def good_tail_def second_ok_def is_cont_def replacement_def)
    show "prefix (spells (\<lambda>t. [ucast t]) ?ids) (concat ?cs)" by (simp add: spells_def)
    have c: "clean_end ?cs (spells (\<lambda>t. [ucast t]) (take k ?ids))" if "k \<in> {0, 1, 3, 7, 8, 9}" for k
    proof -
      have "clean_end ?cs (concat (take m ?cs))" if "m \<le> 6" for m
        unfolding clean_end_def using that by (intro exI [of _ m]) simp
      from this [of 0] this [of 1] this [of 2] this [of 3] this [of 4] this [of 5] show ?thesis
        using that by (auto simp: spells_def)
    qed
    show "splits_short (\<lambda>t. [ucast t]) ?cs ?ids"
      unfolding splits_short_def
    proof (intro allI impI)
      fix i
      assume "i + split_char_backoff \<le> length ?ids"
      then have "i \<in> {0, 1, 2, 3, 4, 5, 6, 7}" by (auto simp: split_char_backoff_def)
      then obtain j where "j \<le> 3" "i + j \<in> {0, 1, 3, 7, 8, 9}" by force
      then show "\<exists>j \<le> split_char_backoff. clean_end ?cs (spells (\<lambda>t. [ucast t]) (take (i + j) ?ids))"
        using c by (auto simp only: split_char_backoff_def)
    qed
  qed (simp_all)
  moreover have "decode_or_empty ?dec ?ids = [0x61, 0xC3, 0xA9, 0xF0, 0x9F, 0x98, 0x80, 0x61, 0x61] @ replacement"
    by (simp add: decode_or_empty_def good_tail_def utf8_width_def second_ok_def is_cont_def Let_def)
  ultimately show ?thesis by metis
qed

text \<open>
  A text that contains the character U+FFFD itself is taken for one that is still incomplete:
  the back-off runs out on it, the window freezes inside the character after it, and what is
  shown is not the text.
\<close>

theorem literal_replacement_splits:
  "case push_all (\<lambda>ids. Some (utf8_lossy (map ucast ids))) \<lparr>np_id = 0x61, np_text = [0x61]\<rparr>
       [0xEF, 0xBF, 0xBD, 0xF0, 0x9F, 0x98, 0x80, 0x61] incremental_decoder_new [8] of
     None \<Rightarrow> False
   | Some (d, t) \<Rightarrow>
       t @ shown (snd (inc_finish (\<lambda>ids. Some (utf8_lossy (map ucast ids))) d
            [0xEF, 0xBF, 0xBD, 0xF0, 0x9F, 0x98, 0x80, 0x61]))
       \<noteq> [0xEF, 0xBF, 0xBD, 0xF0, 0x9F, 0x98, 0x80, 0x61]"
  by code_simp

end
