(* ===== verification/Engine_Loop.thy ===== *)
theory Engine_Loop
  imports Engine_Step Stop_Scan Incremental_Decode
begin

text \<open>
  The blocking loop of a loaded model (\<open>src/server/routes/engine_loop.rs\<close>): requests in, events
  out.  Each request has a response channel; the log of what was sent on it is part of the
  state, and a channel the client dropped is in the set of closed ones.  Text is its UTF-8
  bytes.  Tracing spans, metrics and the clock are left out; the GPU lock around the step is
  what makes a step atomic here.  \<open>None\<close> is a panic of the thread.
\<close>

section \<open>Text\<close>

definition utf8_of :: "string \<Rightarrow> u8 list" where
  "utf8_of s = map of_char s"

definition contains_str :: "u8 list \<Rightarrow> u8 list \<Rightarrow> bool" where
  "contains_str s pat \<longleftrightarrow> find_str s pat \<noteq> None"

text \<open>\<open>s.split(pat).nth(1)\<close>.\<close>

definition second_piece :: "u8 list \<Rightarrow> u8 list \<Rightarrow> u8 list option" where
  "second_piece pat s =
     (case find_str s pat of
        None \<Rightarrow> None
      | Some i \<Rightarrow>
          let rest = drop (i + length pat) s
          in Some (case find_str rest pat of None \<Rightarrow> rest | Some j \<Rightarrow> take j rest))"

text \<open>The bytes of the white-space character a text starts with; \<open>0\<close> when it starts with none.\<close>

definition ws_width :: "u8 list \<Rightarrow> nat" where
  "ws_width s =
     (case s of
        [] \<Rightarrow> 0
      | a # s1 \<Rightarrow>
          if 9 \<le> a \<and> a \<le> 13 \<or> a = 32 then 1
          else (case s1 of
                  [] \<Rightarrow> 0
                | b # s2 \<Rightarrow>
                    if a = 0xC2 \<and> (b = 0x85 \<or> b = 0xA0) then 2
                    else (case s2 of
                            [] \<Rightarrow> 0
                          | c # _ \<Rightarrow>
                              if a = 0xE1 \<and> b = 0x9A \<and> c = 0x80
                                \<or> a = 0xE2 \<and> b = 0x80 \<and> (0x80 \<le> c \<and> c \<le> 0x8A \<or> c = 0xA8 \<or> c = 0xA9 \<or> c = 0xAF)
                                \<or> a = 0xE2 \<and> b = 0x81 \<and> c = 0x9F \<or> a = 0xE3 \<and> b = 0x80 \<and> c = 0x80
                              then 3 else 0)))"

function skip_ws :: "u8 list \<Rightarrow> u8 list" where
  "skip_ws s = (if ws_width s = 0 \<or> s = [] then s else skip_ws (drop (ws_width s) s))"
  by pat_completeness auto
termination by (relation "measure length") auto

declare skip_ws.simps [simp del]

fun until_ws :: "u8 list \<Rightarrow> u8 list" where
  "until_ws [] = []"
| "until_ws (a # s) = (if 0 < ws_width (a # s) then [] else a # until_ws s)"

text \<open>\<open>split_whitespace().next()\<close>.\<close>

definition first_word :: "u8 list \<Rightarrow> u8 list option" where
  "first_word s = (let w = until_ws (skip_ws s) in if w = [] then None else Some w)"

text \<open>\<open>trim_start_matches\<close> of a non-empty pattern.\<close>

function trim_start :: "u8 list \<Rightarrow> u8 list \<Rightarrow> u8 list" where
  "trim_start pat s =
     (if pat \<noteq> [] \<and> prefix pat s then trim_start pat (drop (length pat) s) else s)"
  by pat_completeness auto
termination by (relation "measure (\<lambda>(_, s). length s)") (auto simp: prefix_def)

declare trim_start.simps [simp del]

section \<open>The harmony protocol\<close>

datatype harmony_state = Markers | Role | Header | Body (final_channel: bool) (tool: bool)

record harmony_ids =
  hi_channel :: u32
  hi_message :: u32
  hi_end :: "u32 option"
  hi_start :: "u32 option"

datatype harmony_routing =
  Framing | Reasoning | Content | Tool_call "u8 list" | Tool_call_end

text \<open>The function a header is addressed to.\<close>

definition header_recipient :: "u8 list \<Rightarrow> u8 list option" where
  "header_recipient name =
     map_option (trim_start (utf8_of ''functions.''))
       (Option.bind (second_piece (utf8_of ''to='') name) first_word)"

definition harmony_route ::
    "harmony_ids \<Rightarrow> decode \<Rightarrow> harmony_state \<Rightarrow> u32 list \<Rightarrow> u32 \<Rightarrow> harmony_state \<times> u32 list \<times> harmony_routing" where
  "harmony_route ids dec st hdr tok =
     (let is_end = hi_end ids = Some tok \<or> hi_start ids = Some tok
      in case st of
           Markers \<Rightarrow>
             if tok = hi_channel ids then (Header, [], Framing)
             else if hi_start ids = Some tok then (Role, hdr, Framing)
             else if hi_end ids = Some tok then (Markers, hdr, Framing)
             else (Body True False, hdr, if tok = hi_message ids then Framing else Content)
         | Role \<Rightarrow>
             if tok = hi_channel ids then (Header, [], Framing)
             else if tok = hi_message ids then (Body True False, hdr, Framing)
             else if hi_end ids = Some tok then (Markers, hdr, Framing)
             else (Role, hdr, Framing)
         | Header \<Rightarrow>
             if tok = hi_message ids then
               (let name = decode_or_empty dec hdr; recipient = header_recipient name
                in (Body (contains_str name (utf8_of ''final'')) (recipient \<noteq> None), hdr,
                    case recipient of Some f \<Rightarrow> Tool_call f | None \<Rightarrow> Framing))
             else if is_end then (Markers, hdr, Framing)
             else (Header, hdr @ [tok], Framing)
         | Body fin in_tool \<Rightarrow>
             if is_end \<or> tok = hi_channel ids then
               (if tok = hi_channel ids then (Header, [], if in_tool then Tool_call_end else Framing)
                else (Markers, hdr, if in_tool then Tool_call_end else Framing))
             else (st, hdr, if in_tool \<or> fin then Content else Reasoning))"

section \<open>Log-probability lps\<close>

record decoded_token =
  dt_text :: "u8 list"
  dt_bytes :: "u8 list"

definition token_decode_cache_cap :: nat where
  "token_decode_cache_cap = 8192"

definition decode_token ::
    "('c, u32, decoded_token) lru_ops \<Rightarrow> decode \<Rightarrow> 'c \<Rightarrow> u32 \<Rightarrow> 'c \<times> decoded_token" where
  "decode_token ops dec c tid =
     (case lru_get ops c tid of
        (c1, Some hit) \<Rightarrow> (c1, hit)
      | (c1, None) \<Rightarrow>
          let text = decode_or_empty dec [tid]; d = \<lparr>dt_text = text, dt_bytes = text\<rparr>
          in (fst (lru_push ops c1 tid d), d))"

text \<open>A pending entry: the token, its log-probability, and the alternatives.\<close>

type_synonym 'f raw_logprob = "u32 \<times> 'f \<times> (u32 \<times> 'f) list"

record 'f logprob_entry =
  le_token_str :: "u8 list"
  le_logprob :: 'f
  le_bytes :: "u8 list"
  le_top :: "(u8 list \<times> 'f \<times> u8 list) list"

fun decode_tops ::
    "('c, u32, decoded_token) lru_ops \<Rightarrow> decode \<Rightarrow> 'c \<Rightarrow> (u32 \<times> 'f) list \<Rightarrow>
     'c \<times> (u8 list \<times> 'f \<times> u8 list) list" where
  "decode_tops ops dec c [] = (c, [])"
| "decode_tops ops dec c ((tid, lp) # tops) =
     (case decode_token ops dec c tid of
        (c1, d) \<Rightarrow> (case decode_tops ops dec c1 tops of
                      (c2, es) \<Rightarrow> (c2, (dt_text d, lp, dt_bytes d) # es)))"

definition build_logprob_entry ::
    "('c, u32, decoded_token) lru_ops \<Rightarrow> decode \<Rightarrow> 'c \<Rightarrow> 'f raw_logprob \<Rightarrow> 'c \<times> 'f logprob_entry" where
  "build_logprob_entry ops dec c raw =
     (case raw of
        (tid, lp, tops) \<Rightarrow>
          (case decode_token ops dec c tid of
             (c1, d) \<Rightarrow> (case decode_tops ops dec c1 tops of
                (c2, es) \<Rightarrow> (c2, \<lparr>le_token_str = dt_text d, le_logprob = lp, le_bytes = dt_bytes d, le_top = es\<rparr>))))"

fun drain_logprobs ::
    "('c, u32, decoded_token) lru_ops \<Rightarrow> decode \<Rightarrow> 'c \<Rightarrow> 'f raw_logprob list \<Rightarrow>
     'c \<times> 'f logprob_entry list" where
  "drain_logprobs ops dec c [] = (c, [])"
| "drain_logprobs ops dec c (raw # raws) =
     (case build_logprob_entry ops dec c raw of
        (c1, e) \<Rightarrow> (case drain_logprobs ops dec c1 raws of (c2, es) \<Rightarrow> (c2, e # es)))"

section \<open>Channels and trackers\<close>

datatype loop_error = Too_long nat nat nat | Step_failed err | Model_unloaded

datatype 'f engine_event =
    Ev_token "u8 list" "'f logprob_entry list"
  | Ev_reasoning "u8 list"
  | Ev_finish string nat
  | Ev_stream_end
  | Ev_error loop_error

text \<open>What was sent on each channel, which channels have lost their client, and the decode cache.\<close>

record ('f, 'c) wire =
  w_log :: "nat \<Rightarrow> 'f engine_event list"
  w_closed :: "nat set"
  w_cache :: 'c

text \<open>\<open>tx.send\<close>: an error when the client is gone.\<close>

definition send :: "('f, 'c) wire \<Rightarrow> nat \<Rightarrow> 'f engine_event \<Rightarrow> ('f, 'c) wire \<times> bool" where
  "send w ch ev =
     (if ch \<in> w_closed w then (w, False)
      else (w\<lparr>w_log := (w_log w)(ch := w_log w ch @ [ev])\<rparr>, True))"

abbreviation post :: "('f, 'c) wire \<Rightarrow> nat \<Rightarrow> 'f engine_event \<Rightarrow> ('f, 'c) wire" where
  "post w ch ev \<equiv> fst (send w ch ev)"

record 'f seq_tracker =
  tk_tx :: nat
  tk_token_count :: nat
  tk_in_thinking :: bool
  tk_thinking_header :: bool
  tk_output_ids :: "u32 list"
  tk_thinking_ids :: "u32 list"
  tk_output :: incremental_decoder
  tk_thinking :: incremental_decoder
  tk_stops :: "u8 stop_scanner"
  tk_pending :: "'f raw_logprob list"
  tk_harmony :: harmony_state
  tk_header_ids :: "u32 list"
  tk_tool_open :: bool
  tk_wants_reasoning :: bool

text \<open>
  The surroundings of the loop: the tokenizer's answers, the marker tokens looked up once, the
  constraint constructor when there is a byte table, and the LRU map of the decode cache.
\<close>

record ('f, 'c, 'lp, 'js, 'jc) loop_env =
  lo_decode :: decode
  lo_decode_special :: decode
  lo_think_start :: "u32 option"
  lo_think_end :: "u32 option"
  lo_harmony :: "harmony_ids option"
  lo_neutral :: neutral_prefix
  lo_constraint :: "('js \<Rightarrow> 'jc) option"
  lo_lru :: "('c, u32, decoded_token) lru_ops"
  lo_logprob :: "'lp \<Rightarrow> ('f \<times> (u32 \<times> 'f) list) option"

text \<open>What \<open>engine_loop\<close> looks up before it starts.\<close>

definition loop_env_new ::
    "decode \<Rightarrow> decode \<Rightarrow> (string \<Rightarrow> u32 option) \<Rightarrow> (u8 list \<Rightarrow> u32 list option) \<Rightarrow> ('js \<Rightarrow> 'jc) option \<Rightarrow>
     ('c, u32, decoded_token) lru_ops \<Rightarrow> ('lp \<Rightarrow> ('f \<times> (u32 \<times> 'f) list) option) \<Rightarrow>
     ('f, 'c, 'lp, 'js, 'jc) loop_env" where
  "loop_env_new dec decs special enc mk ops lpf =
     \<lparr>lo_decode = dec, lo_decode_special = decs,
      lo_think_start = (case special ''<think>'' of Some t \<Rightarrow> Some t | None \<Rightarrow> special ''<|channel>''),
      lo_think_end = (case special ''</think>'' of Some t \<Rightarrow> Some t | None \<Rightarrow> special ''<channel|>''),
      lo_harmony =
        (case (special ''<|channel|>'', special ''<|message|>'') of
           (Some c, Some m) \<Rightarrow>
             Some \<lparr>hi_channel = c, hi_message = m, hi_end = special ''<|end|>'', hi_start = special ''<|start|>''\<rparr>
         | _ \<Rightarrow> None),
      lo_neutral = neutral_prefix_new enc dec, lo_constraint = mk, lo_lru = ops, lo_logprob = lpf\<rparr>"

text \<open>The end of a function call: what the decoder still holds, then the brace and the tag.\<close>

definition close_harmony_tool_call ::
    "decode \<Rightarrow> 'f seq_tracker \<Rightarrow> ('f, 'c) wire \<Rightarrow> 'f seq_tracker \<times> ('f, 'c) wire" where
  "close_harmony_tool_call dec tk w =
     (if \<not> tk_tool_open tk then (tk, w)
      else
        case inc_finish dec (tk_output tk) (tk_output_ids tk) of
          (d, rest) \<Rightarrow>
            (tk\<lparr>tk_tool_open := False, tk_output := d\<rparr>,
             post w (tk_tx tk)
               (Ev_token (shown rest @ utf8_of (''}'' @ [CHR 10] @ ''</tool_call>'')) [])))"

definition finish_tracker :: "'f seq_tracker \<Rightarrow> string \<Rightarrow> ('f, 'c) wire \<Rightarrow> ('f, 'c) wire" where
  "finish_tracker tk reason w =
     post (post w (tk_tx tk) (Ev_finish reason (tk_token_count tk))) (tk_tx tk) Ev_stream_end"

text \<open>The text a finished sequence's reasoning channel still holds.\<close>

definition flush_thinking :: "decode \<Rightarrow> 'f seq_tracker \<Rightarrow> ('f, 'c) wire \<Rightarrow> ('f, 'c) wire" where
  "flush_thinking dec tk w =
     (case snd (inc_finish dec (tk_thinking tk) (tk_thinking_ids tk)) of
        None \<Rightarrow> w
      | Some rest \<Rightarrow> post w (tk_tx tk) (Ev_reasoning rest))"

section \<open>Routing a token\<close>

datatype token_route =
    Skip | To_reasoning | To_content | Open_tool "u8 list" | Close_tool

definition route_harmony ::
    "harmony_ids \<Rightarrow> decode \<Rightarrow> 'f seq_tracker \<Rightarrow> u32 \<Rightarrow> 'f seq_tracker \<times> token_route" where
  "route_harmony ids dec tk tok =
     (case harmony_route ids dec (tk_harmony tk) (tk_header_ids tk) tok of
        (st, hdr, r) \<Rightarrow>
          (tk\<lparr>tk_harmony := st, tk_header_ids := hdr\<rparr>,
           case r of
             Framing \<Rightarrow> Skip
           | Reasoning \<Rightarrow> if tk_wants_reasoning tk then To_reasoning else Skip
           | Content \<Rightarrow> To_content
           | Tool_call f \<Rightarrow> Open_tool f
           | Tool_call_end \<Rightarrow> Close_tool))"

definition route_thinking ::
    "('f, 'c, 'lp, 'js, 'jc) loop_env \<Rightarrow> 'f seq_tracker \<Rightarrow> u32 \<Rightarrow> 'f seq_tracker \<times> token_route" where
  "route_thinking L tk tok =
     (let raw = decode_or_empty (lo_decode_special L) [tok];
          is_start = lo_think_start L = Some tok \<or> contains_str raw (utf8_of ''<think>'')
                       \<or> contains_str raw (utf8_of ''<|channel>'');
          is_end = lo_think_end L = Some tok \<or> contains_str raw (utf8_of ''</think>'')
                       \<or> contains_str raw (utf8_of ''<channel|>'')
      in if is_start then
           (tk\<lparr>tk_thinking_header := \<not> tk_in_thinking tk \<and> contains_str raw (utf8_of ''<|channel>''),
               tk_in_thinking := True\<rparr>, Skip)
         else if tk_in_thinking tk \<and> is_end then
           (tk\<lparr>tk_in_thinking := False, tk_thinking_header := False\<rparr>, Skip)
         else if tk_in_thinking tk \<and> tk_thinking_header tk then
           (if contains_str raw (utf8_of [CHR 10]) then tk\<lparr>tk_thinking_header := False\<rparr> else tk, Skip)
         else if tk_in_thinking tk \<and> \<not> tk_wants_reasoning tk then (tk, Skip)
         else (tk, if tk_in_thinking tk then To_reasoning else To_content))"

definition route_token ::
    "('f, 'c, 'lp, 'js, 'jc) loop_env \<Rightarrow> 'f seq_tracker \<Rightarrow> u32 \<Rightarrow> 'f seq_tracker \<times> token_route" where
  "route_token L tk tok =
     (case lo_harmony L of
        Some ids \<Rightarrow> route_harmony ids (lo_decode L) tk tok
      | None \<Rightarrow> route_thinking L tk tok)"

text \<open>What became of the client and of the reply while a token was handled.\<close>

record ('f, 'c) handled =
  h_tracker :: "'f seq_tracker"
  h_wire :: "('f, 'c) wire"
  h_disconnected :: bool
  h_stopped :: bool

definition emit_reasoning ::
    "('f, 'c, 'lp, 'js, 'jc) loop_env \<Rightarrow> 'f seq_tracker \<Rightarrow> ('f, 'c) wire \<Rightarrow> u32 \<Rightarrow> ('f, 'c) handled option" where
  "emit_reasoning L tk w tok =
     (let ids = tk_thinking_ids tk @ [tok]
      in case inc_push (lo_decode L) (lo_neutral L) (tk_thinking tk) ids of
           None \<Rightarrow> None
         | Some (d, out) \<Rightarrow>
             let tk1 = tk\<lparr>tk_thinking_ids := ids, tk_thinking := d\<rparr>
             in (case out of
                   None \<Rightarrow> Some \<lparr>h_tracker = tk1, h_wire = w, h_disconnected = False, h_stopped = False\<rparr>
                 | Some text \<Rightarrow>
                     (case send w (tk_tx tk) (Ev_reasoning text) of
                        (w1, ok) \<Rightarrow> Some \<lparr>h_tracker = tk1, h_wire = w1, h_disconnected = \<not> ok, h_stopped = False\<rparr>)))"

definition scan_text :: "'c scan \<Rightarrow> 'c list \<times> bool" where
  "scan_text r = (case r of Text t \<Rightarrow> (t, False) | Stopped t \<Rightarrow> (t, True))"

definition emit_content ::
    "('f, 'c, 'lp, 'js, 'jc) loop_env \<Rightarrow> 'f seq_tracker \<Rightarrow> ('f, 'c) wire \<Rightarrow> 'lp new_token \<Rightarrow> ('f, 'c) handled option" where
  "emit_content L tk w tok =
     (let lp = (case nt_logprobs tok of None \<Rightarrow> None | Some x \<Rightarrow> lo_logprob L x);
          raws = tk_pending tk @ (case lp of None \<Rightarrow> [] | Some (p, tops) \<Rightarrow> [(nt_token tok, p, tops)]);
          ids = tk_output_ids tk @ [nt_token tok]
      in case inc_push (lo_decode L) (lo_neutral L) (tk_output tk) ids of
           None \<Rightarrow> None
         | Some (d, out) \<Rightarrow>
             let tk1 = tk\<lparr>tk_pending := raws, tk_output_ids := ids, tk_output := d\<rparr>
             in (case out of
                   None \<Rightarrow> Some \<lparr>h_tracker = tk1, h_wire = w, h_disconnected = False, h_stopped = False\<rparr>
                 | Some delta \<Rightarrow>
                     (case scan_push (tk_stops tk1) delta of
                        (sc, r) \<Rightarrow>
                          (case scan_text r of
                             (text, stopped) \<Rightarrow>
                               (case drain_logprobs (lo_lru L) (lo_decode L) (w_cache w) (tk_pending tk1) of
                                  (c, lps) \<Rightarrow>
                                    let tk2 = tk1\<lparr>tk_stops := sc, tk_pending := []\<rparr>; w1 = w\<lparr>w_cache := c\<rparr>
                                    in (case (if text \<noteq> [] \<or> lps \<noteq> []
                                              then send w1 (tk_tx tk) (Ev_token text lps) else (w1, True)) of
                                          (w2, ok) \<Rightarrow>
                                            Some \<lparr>h_tracker = tk2, h_wire = w2, h_disconnected = \<not> ok,
                                                  h_stopped = stopped\<rparr>))))))"

text \<open>The text a function call opens with.\<close>

definition tool_opener :: "u8 list \<Rightarrow> u8 list" where
  "tool_opener f =
     utf8_of (''<tool_call>'' @ [CHR 10] @ ''{'' @ [CHR 34] @ ''name'' @ [CHR 34] @ '': '' @ [CHR 34]) @ f
     @ utf8_of ([CHR 34] @ '', '' @ [CHR 34] @ ''arguments'' @ [CHR 34] @ '': '')"

definition handle_token ::
    "('f, 'c, 'lp, 'js, 'jc) loop_env \<Rightarrow> 'f seq_tracker \<Rightarrow> ('f, 'c) wire \<Rightarrow> 'lp new_token \<Rightarrow> ('f, 'c) handled option" where
  "handle_token L tk w tok =
     (case route_token L (tk\<lparr>tk_token_count := tk_token_count tk + 1\<rparr>) (nt_token tok) of
        (tk1, r) \<Rightarrow>
          (case r of
             Skip \<Rightarrow> Some \<lparr>h_tracker = tk1, h_wire = w, h_disconnected = False, h_stopped = False\<rparr>
           | Open_tool f \<Rightarrow>
               (case send w (tk_tx tk1) (Ev_token (tool_opener f) []) of
                  (w1, ok) \<Rightarrow> Some \<lparr>h_tracker = tk1\<lparr>tk_tool_open := True\<rparr>, h_wire = w1,
                                    h_disconnected = \<not> ok, h_stopped = False\<rparr>)
           | Close_tool \<Rightarrow>
               (case close_harmony_tool_call (lo_decode L) tk1 w of
                  (tk2, w1) \<Rightarrow> Some \<lparr>h_tracker = tk2, h_wire = w1, h_disconnected = False, h_stopped = False\<rparr>)
           | To_reasoning \<Rightarrow> emit_reasoning L tk1 w (nt_token tok)
           | To_content \<Rightarrow> emit_content L tk1 w tok))"

section \<open>The loop's state\<close>

record ('sp, 'js) incoming_request =
  rq_prompt :: "u32 list"
  rq_sampling :: 'sp
  rq_max_tokens :: nat
  rq_tx :: nat
  rq_enable_thinking :: bool
  rq_thinking_open :: bool
  rq_stop_strings :: "u8 list list"
  rq_json :: "'js option"

text \<open>The trackers by sequence; a sequence has one.\<close>

type_synonym 'f trackers = "(nat \<times> 'f seq_tracker) list"

definition set_tracker :: "'f trackers \<Rightarrow> nat \<Rightarrow> 'f seq_tracker \<Rightarrow> 'f trackers" where
  "set_tracker ts sid tk = map (\<lambda>(i, t). if i = sid then (i, tk) else (i, t)) ts"

definition drop_tracker :: "'f trackers \<Rightarrow> nat \<Rightarrow> 'f trackers" where
  "drop_tracker ts sid = filter (\<lambda>(i, t). i \<noteq> sid) ts"

record ('t, 'f, 'sp, 'jc, 'pc, 'r, 'lf, 'c, 'js) loop_state =
  l_engine :: "('t, 'f, 'sp, 'jc, 'pc, 'r) engine"
  l_trackers :: "'lf trackers"
  l_wire :: "('lf, 'c) wire"
  l_errors :: nat
  l_queue :: "('sp, 'js) incoming_request list"

definition max_consecutive_errors :: nat where
  "max_consecutive_errors = 3"

section \<open>Enqueueing and aborting\<close>

definition new_tracker :: "('sp, 'js) incoming_request \<Rightarrow> 'lf seq_tracker" where
  "new_tracker req =
     \<lparr>tk_tx = rq_tx req, tk_token_count = 0, tk_in_thinking = rq_thinking_open req,
      tk_thinking_header = False, tk_output_ids = [], tk_thinking_ids = [],
      tk_output = incremental_decoder_new, tk_thinking = incremental_decoder_new,
      tk_stops = stop_scanner_new (rq_stop_strings req), tk_pending = [], tk_harmony = Markers,
      tk_header_ids = [], tk_tool_open = False, tk_wants_reasoning = rq_enable_thinking req\<rparr>"

text \<open>The constraint of a request, when nothing but content will come.\<close>

definition request_constraint ::
    "('lf, 'c, 'lp, 'js, 'jc) loop_env \<Rightarrow> ('sp, 'js) incoming_request \<Rightarrow> 'jc option" where
  "request_constraint L req =
     (case (rq_json req, lo_constraint L) of
        (Some spec, Some mk) \<Rightarrow>
          if \<not> rq_enable_thinking req \<and> \<not> rq_thinking_open req \<and> lo_harmony L = None
          then Some (mk spec) else None
      | _ \<Rightarrow> None)"

definition enqueue_request ::
    "('lf, 'c, 'lp, 'js, 'jc) loop_env \<Rightarrow> ('t, 'f, 'sp, 'jc, 'pc, 'r, 'lf, 'c, 'js) loop_state \<Rightarrow>
     ('sp, 'js) incoming_request \<Rightarrow> ('t, 'f, 'sp, 'jc, 'pc, 'r, 'lf, 'c, 'js) loop_state option" where
  "enqueue_request L s req =
     (let capacity = kv_capacity_tokens (l_engine s)
      in if capacity < length (rq_prompt req) + rq_max_tokens req then
           (let w1 = post (l_wire s) (rq_tx req)
                       (Ev_error (Too_long (length (rq_prompt req)) (rq_max_tokens req) capacity))
            in Some (s\<lparr>l_wire := post w1 (rq_tx req) Ev_stream_end\<rparr>))
         else
           (case engine_add_request (l_engine s) (rq_prompt req) (rq_sampling req) (rq_max_tokens req)
                   (request_constraint L req) of
              None \<Rightarrow> None
            | Some (g, sid) \<Rightarrow>
                Some (s\<lparr>l_engine := g, l_trackers := (sid, new_tracker req) # l_trackers s\<rparr>)))"

fun enqueue_all ::
    "('lf, 'c, 'lp, 'js, 'jc) loop_env \<Rightarrow> ('t, 'f, 'sp, 'jc, 'pc, 'r, 'lf, 'c, 'js) loop_state \<Rightarrow>
     ('sp, 'js) incoming_request list \<Rightarrow> ('t, 'f, 'sp, 'jc, 'pc, 'r, 'lf, 'c, 'js) loop_state option" where
  "enqueue_all L s [] = Some s"
| "enqueue_all L s (req # reqs) =
     (case enqueue_request L s req of None \<Rightarrow> None | Some s1 \<Rightarrow> enqueue_all L s1 reqs)"

fun abort_each ::
    "('t \<Rightarrow> nat \<Rightarrow> nat option) \<Rightarrow> ('t, 'f, 'sp, 'jc, 'pc, 'r, 'lf, 'c, 'js) loop_state \<Rightarrow> nat list \<Rightarrow>
     ('t, 'f, 'sp, 'jc, 'pc, 'r, 'lf, 'c, 'js) loop_state option" where
  "abort_each dim s [] = Some s"
| "abort_each dim s (sid # ids) =
     (case engine_abort_sequence dim (l_engine s) sid of
        None \<Rightarrow> None
      | Some (g, _) \<Rightarrow> abort_each dim (s\<lparr>l_engine := g, l_trackers := drop_tracker (l_trackers s) sid\<rparr>) ids)"

text \<open>\<open>abort_sequences\<close>: sorted and without repetitions.\<close>

definition abort_sequences ::
    "('t \<Rightarrow> nat \<Rightarrow> nat option) \<Rightarrow> ('t, 'f, 'sp, 'jc, 'pc, 'r, 'lf, 'c, 'js) loop_state \<Rightarrow> nat list \<Rightarrow>
     ('t, 'f, 'sp, 'jc, 'pc, 'r, 'lf, 'c, 'js) loop_state option" where
  "abort_sequences dim s ids = abort_each dim s (remdups (sort ids))"

section \<open>After a step\<close>

text \<open>The tokens of a step, in order; a reply that was stopped takes no more of them.\<close>

record ('f, 'c) routed =
  r_trackers :: "'f trackers"
  r_wire :: "('f, 'c) wire"
  r_disconnected :: "nat list"
  r_stopped :: "nat list"

definition route_one ::
    "('lf, 'c, 'lp, 'js, 'jc) loop_env \<Rightarrow> ('lf, 'c) routed \<Rightarrow> 'lp new_token \<Rightarrow> ('lf, 'c) routed option" where
  "route_one L r tok =
     (if nt_seq_id tok \<in> set (r_stopped r) then Some r
      else
        case map_of (r_trackers r) (nt_seq_id tok) of
          None \<Rightarrow> Some r
        | Some tk \<Rightarrow>
            (case handle_token L tk (r_wire r) tok of
               None \<Rightarrow> None
             | Some h \<Rightarrow>
                 Some \<lparr>r_trackers = set_tracker (r_trackers r) (nt_seq_id tok) (h_tracker h), r_wire = h_wire h,
                       r_disconnected = r_disconnected r @ (if h_disconnected h then [nt_seq_id tok] else []),
                       r_stopped = r_stopped r @ (if h_stopped h then [nt_seq_id tok] else [])\<rparr>))"

fun route_all ::
    "('lf, 'c, 'lp, 'js, 'jc) loop_env \<Rightarrow> ('lf, 'c) routed \<Rightarrow> 'lp new_token list \<Rightarrow> ('lf, 'c) routed option" where
  "route_all L r [] = Some r"
| "route_all L r (tok # toks) = (case route_one L r tok of None \<Rightarrow> None | Some r1 \<Rightarrow> route_all L r1 toks)"

text \<open>The replies a stop string ended.\<close>

fun finish_stopped ::
    "('lf, 'c, 'lp, 'js, 'jc) loop_env \<Rightarrow> ('t \<Rightarrow> nat \<Rightarrow> nat option) \<Rightarrow>
     ('t, 'f, 'sp, 'jc, 'pc, 'r, 'lf, 'c, 'js) loop_state \<Rightarrow> nat list \<Rightarrow>
     ('t, 'f, 'sp, 'jc, 'pc, 'r, 'lf, 'c, 'js) loop_state option" where
  "finish_stopped L dim s [] = Some s"
| "finish_stopped L dim s (sid # ids) =
     (case map_of (l_trackers s) sid of
        None \<Rightarrow> finish_stopped L dim s ids
      | Some tk \<Rightarrow>
          (case engine_abort_sequence dim (l_engine s) sid of
             None \<Rightarrow> None
           | Some (g, _) \<Rightarrow>
               finish_stopped L dim
                 (s\<lparr>l_engine := g, l_trackers := drop_tracker (l_trackers s) sid,
                    l_wire := finish_tracker tk ''stop'' (flush_thinking (lo_decode L) tk (l_wire s))\<rparr>) ids))"

text \<open>The last events of a sequence the engine completed.\<close>

definition complete_tracker ::
    "('lf, 'c, 'lp, 'js, 'jc) loop_env \<Rightarrow> 'lf seq_tracker \<Rightarrow> string option \<Rightarrow> ('lf, 'c) wire \<Rightarrow> ('lf, 'c) wire" where
  "complete_tracker L tk reason w =
     (case inc_finish (lo_decode L) (tk_output tk) (tk_output_ids tk) of
        (d, last_text) \<Rightarrow>
          (case scan_finish (tk_stops tk) (shown last_text) of
             (sc, r) \<Rightarrow>
               (case scan_text r of
                  (text, stopped) \<Rightarrow>
                    (case drain_logprobs (lo_lru L) (lo_decode L) (w_cache w) (tk_pending tk) of
                       (c, lps) \<Rightarrow>
                         let tk1 = tk\<lparr>tk_output := d, tk_stops := sc, tk_pending := []\<rparr>;
                             w1 = w\<lparr>w_cache := c\<rparr>;
                             w2 = (if text \<noteq> [] \<or> lps \<noteq> [] then post w1 (tk_tx tk) (Ev_token text lps) else w1);
                             (tk2, w3) = close_harmony_tool_call (lo_decode L) tk1 w2
                         in finish_tracker tk2
                              (if stopped then ''stop'' else case reason of Some x \<Rightarrow> x | None \<Rightarrow> ''stop'')
                              (flush_thinking (lo_decode L) tk2 w3)))))"

fun complete_each ::
    "('lf, 'c, 'lp, 'js, 'jc) loop_env \<Rightarrow> 'lf trackers \<Rightarrow> ('lf, 'c) wire \<Rightarrow> (nat \<times> string option) list \<Rightarrow>
     'lf trackers \<times> ('lf, 'c) wire" where
  "complete_each L ts w [] = (ts, w)"
| "complete_each L ts w ((sid, reason) # done_ids) =
     (case map_of ts sid of
        None \<Rightarrow> complete_each L ts w done_ids
      | Some tk \<Rightarrow> complete_each L (drop_tracker ts sid) (complete_tracker L tk reason w) done_ids)"

text \<open>The sequences a failed step took with it.\<close>

fun fail_each ::
    "'lf trackers \<Rightarrow> ('lf, 'c) wire \<Rightarrow> loop_error \<Rightarrow> nat list \<Rightarrow> 'lf trackers \<times> ('lf, 'c) wire" where
  "fail_each ts w e [] = (ts, w)"
| "fail_each ts w e (sid # ids) =
     (case map_of ts sid of
        None \<Rightarrow> fail_each ts w e ids
      | Some tk \<Rightarrow>
          fail_each (drop_tracker ts sid) (post (post w (tk_tx tk) (Ev_error e)) (tk_tx tk) Ev_stream_end) e ids)"

definition after_step ::
    "('lf, 'c, 'lp, 'js, 'jc) loop_env \<Rightarrow> ('t \<Rightarrow> nat \<Rightarrow> nat option) \<Rightarrow>
     ('t, 'f, 'sp, 'jc, 'pc, 'r, 'lf, 'c, 'js) loop_state \<Rightarrow> 'lp step_output \<Rightarrow>
     ('t, 'f, 'sp, 'jc, 'pc, 'r, 'lf, 'c, 'js) loop_state option" where
  "after_step L dim s out =
     (case route_all L \<lparr>r_trackers = l_trackers s, r_wire = l_wire s, r_disconnected = [], r_stopped = []\<rparr>
             (so_new_tokens out) of
        None \<Rightarrow> None
      | Some r \<Rightarrow>
          (case abort_sequences dim (s\<lparr>l_trackers := r_trackers r, l_wire := r_wire r\<rparr>) (r_disconnected r) of
             None \<Rightarrow> None
           | Some s1 \<Rightarrow>
               (case finish_stopped L dim s1 (r_stopped r) of
                  None \<Rightarrow> None
                | Some s2 \<Rightarrow>
                    (case complete_each L (l_trackers s2) (l_wire s2) (so_completed out) of
                       (ts, w) \<Rightarrow> Some (s2\<lparr>l_trackers := ts, l_wire := w, l_errors := 0\<rparr>)))))"

definition after_failure ::
    "('t \<Rightarrow> nat \<Rightarrow> nat option) \<Rightarrow> ('t, 'f, 'sp, 'jc, 'pc, 'r, 'lf, 'c, 'js) loop_state \<Rightarrow> err \<Rightarrow>
     ('t, 'f, 'sp, 'jc, 'pc, 'r, 'lf, 'c, 'js) loop_state option" where
  "after_failure dim s e =
     (let n = l_errors s + 1
      in case (if max_consecutive_errors \<le> n then engine_abort_all dim (l_engine s)
               else abort_running dim (l_engine s)) of
           None \<Rightarrow> None
         | Some (g, ids) \<Rightarrow>
             (case fail_each (l_trackers s) (l_wire s) (Step_failed e) ids of
                (ts, w) \<Rightarrow> Some (s\<lparr>l_engine := g, l_trackers := ts, l_wire := w, l_errors := n\<rparr>)))"

section \<open>The loop\<close>

text \<open>
  What the outside does around an iteration: shutting down, requests, hanging up and clients leaving
  before it, and clients leaving while its step runs, who are met by the sends after the step.
\<close>

record ('sp, 'js) loop_input =
  in_shutdown :: bool
  in_requests :: "('sp, 'js) incoming_request list"
  in_hangup :: bool
  in_closed :: "nat set"
  in_leaving :: "nat set"

datatype 'a loop_outcome = Looping 'a | Waiting_for_request 'a | Stopping 'a

text \<open>After the loop: the trackers left are told.\<close>

fun unload_each :: "'lf trackers \<Rightarrow> ('lf, 'c) wire \<Rightarrow> ('lf, 'c) wire" where
  "unload_each [] w = w"
| "unload_each ((sid, tk) # ts) w =
     unload_each ts (post (post w (tk_tx tk) (Ev_error Model_unloaded)) (tk_tx tk) Ev_stream_end)"

definition stop_loop ::
    "('t, 'f, 'sp, 'jc, 'pc, 'r, 'lf, 'c, 'js) loop_state \<Rightarrow> ('t, 'f, 'sp, 'jc, 'pc, 'r, 'lf, 'c, 'js) loop_state" where
  "stop_loop s = s\<lparr>l_trackers := [], l_wire := unload_each (l_trackers s) (l_wire s)\<rparr>"

text \<open>Taking requests: all that are there while there is work, else the next one.\<close>

definition take_requests ::
    "('lf, 'c, 'lp, 'js, 'jc) loop_env \<Rightarrow> bool \<Rightarrow> ('t, 'f, 'sp, 'jc, 'pc, 'r, 'lf, 'c, 'js) loop_state \<Rightarrow>
     ('t, 'f, 'sp, 'jc, 'pc, 'r, 'lf, 'c, 'js) loop_state loop_outcome option" where
  "take_requests L hangup s =
     (if engine_has_pending_work (l_engine s)
      then map_option Looping (enqueue_all L (s\<lparr>l_queue := []\<rparr>) (l_queue s))
      else case l_queue s of
             req # rest \<Rightarrow> map_option Looping (enqueue_request L (s\<lparr>l_queue := rest\<rparr>) req)
           | [] \<Rightarrow> Some (if hangup then Stopping s else Waiting_for_request s))"

definition drop_closed ::
    "('t \<Rightarrow> nat \<Rightarrow> nat option) \<Rightarrow> ('t, 'f, 'sp, 'jc, 'pc, 'r, 'lf, 'c, 'js) loop_state \<Rightarrow>
     ('t, 'f, 'sp, 'jc, 'pc, 'r, 'lf, 'c, 'js) loop_state option" where
  "drop_closed dim s =
     abort_sequences dim s (map fst (filter (\<lambda>(sid, tk). tk_tx tk \<in> w_closed (l_wire s)) (l_trackers s)))"

definition step_loop ::
    "('lf, 'c, 'lp, 'js, 'jc) loop_env \<Rightarrow> ('t, 'f, 'l, 'sp, 'jc, 'r, 'lp) engine_env \<Rightarrow> 'pc pc_ops \<Rightarrow> chain_hash \<Rightarrow>
     nat set \<Rightarrow> ('t, 'f, 'sp, 'jc, 'pc, 'r, 'lf, 'c, 'js) loop_state \<Rightarrow>
     ('t, 'f, 'sp, 'jc, 'pc, 'r, 'lf, 'c, 'js) loop_state option" where
  "step_loop L E ops hash leaving s =
     (if \<not> engine_has_pending_work (l_engine s) then Some s
      else
        let w = (l_wire s)\<lparr>w_closed := w_closed (l_wire s) \<union> leaving\<rparr>
        in case engine_step E ops hash (l_engine s) of
             (g, Inr out) \<Rightarrow> after_step L (t_dim (en_tensors E)) (s\<lparr>l_engine := g, l_wire := w\<rparr>) out
           | (g, Inl Panic) \<Rightarrow> None
           | (g, Inl e) \<Rightarrow> after_failure (t_dim (en_tensors E)) (s\<lparr>l_engine := g, l_wire := w\<rparr>) e)"

definition loop_iteration ::
    "('lf, 'c, 'lp, 'js, 'jc) loop_env \<Rightarrow> ('t, 'f, 'l, 'sp, 'jc, 'r, 'lp) engine_env \<Rightarrow> 'pc pc_ops \<Rightarrow> chain_hash \<Rightarrow>
     ('t, 'f, 'sp, 'jc, 'pc, 'r, 'lf, 'c, 'js) loop_state \<Rightarrow> ('sp, 'js) loop_input \<Rightarrow>
     ('t, 'f, 'sp, 'jc, 'pc, 'r, 'lf, 'c, 'js) loop_state loop_outcome option" where
  "loop_iteration L E ops hash s inp =
     (let s0 = s\<lparr>l_queue := l_queue s @ in_requests inp,
                 l_wire := (l_wire s)\<lparr>w_closed := w_closed (l_wire s) \<union> in_closed inp\<rparr>\<rparr>
      in if in_shutdown inp then Some (Stopping (stop_loop s0))
         else
           case take_requests L (in_hangup inp) s0 of
             None \<Rightarrow> None
           | Some (Stopping s1) \<Rightarrow> Some (Stopping (stop_loop s1))
           | Some (Waiting_for_request s1) \<Rightarrow> Some (Waiting_for_request s1)
           | Some (Looping s1) \<Rightarrow>
               (case drop_closed (t_dim (en_tensors E)) s1 of
                  None \<Rightarrow> None
                | Some s2 \<Rightarrow> map_option Looping (step_loop L E ops hash (in_leaving inp) s2)))"

text \<open>
  The loop over what the outside does.  A thread that waits for a request has passed the
  shutdown test: the flag is not read again before the request is taken.
\<close>

fun loop_run ::
    "('lf, 'c, 'lp, 'js, 'jc) loop_env \<Rightarrow> ('t, 'f, 'l, 'sp, 'jc, 'r, 'lp) engine_env \<Rightarrow> 'pc pc_ops \<Rightarrow> chain_hash \<Rightarrow>
     bool \<Rightarrow> ('t, 'f, 'sp, 'jc, 'pc, 'r, 'lf, 'c, 'js) loop_state \<Rightarrow> ('sp, 'js) loop_input list \<Rightarrow>
     ('t, 'f, 'sp, 'jc, 'pc, 'r, 'lf, 'c, 'js) loop_state loop_outcome option" where
  "loop_run L E ops hash blocked s [] = Some (if blocked then Waiting_for_request s else Looping s)"
| "loop_run L E ops hash blocked s (inp # inps) =
     (case loop_iteration L E ops hash s (if blocked then inp\<lparr>in_shutdown := False\<rparr> else inp) of
        None \<Rightarrow> None
      | Some (Stopping s1) \<Rightarrow> Some (Stopping s1)
      | Some (Waiting_for_request s1) \<Rightarrow> loop_run L E ops hash True s1 inps
      | Some (Looping s1) \<Rightarrow> loop_run L E ops hash False s1 inps)"

definition loop_start ::
    "('t, 'f, 'sp, 'jc, 'pc, 'r) engine \<Rightarrow> 'c \<Rightarrow> ('t, 'f, 'sp, 'jc, 'pc, 'r, 'lf, 'c, 'js) loop_state" where
  "loop_start g c =
     \<lparr>l_engine = g, l_trackers = [], l_wire = \<lparr>w_log = (\<lambda>_. []), w_closed = {}, w_cache = c\<rparr>,
      l_errors = 0, l_queue = []\<rparr>"

end
