(* ===== verification/Engine_Ids.thy ===== *)
theory Engine_Ids
  imports Engine_Step Engine_Forward Scheduler_Step
begin

text \<open>
  Which sequences an engine has: every operation keeps the running index exact and the
  identifiers distinct, and a step loses a sequence only by completing it.  Nothing here depends
  on the memory.
\<close>

section \<open>The scheduler's sequences\<close>

definition live_ids :: "('t, 'f, 'sp, 'jc) scheduler \<Rightarrow> nat set" where
  "live_ids s = sq_id ` set (running s) \<union> sq_id ` set (waiting s)"

definition ids_inv :: "('t, 'f, 'sp, 'jc) scheduler \<Rightarrow> bool" where
  "ids_inv s \<longleftrightarrow> index_ok (running s) (running_index s) \<and> distinct (map sq_id (running s @ waiting s))
     \<and> (\<forall>i \<in> live_ids s. i < next_id s)"

definition keeps_ids :: "('t, 'f, 'sp, 'jc) scheduler \<Rightarrow> ('t, 'f, 'sp, 'jc) scheduler \<Rightarrow> bool" where
  "keeps_ids s s' \<longleftrightarrow> (ids_inv s \<longrightarrow> ids_inv s' \<and> live_ids s' = live_ids s \<and> next_id s' = next_id s)"

lemma keeps_ids_refl [simp]: "keeps_ids s s"
  by (simp add: keeps_ids_def)

lemma keeps_ids_trans: "keeps_ids s s1 \<Longrightarrow> keeps_ids s1 s2 \<Longrightarrow> keeps_ids s s2"
  by (auto simp: keeps_ids_def)

text \<open>The queues only, up to what the sequences hold.\<close>

lemma keeps_ids_queues:
  assumes "map sq_id (running s') = map sq_id (running s)" and "map sq_id (waiting s') = map sq_id (waiting s)"
    and "running_index s' = running_index s" and "next_id s' = next_id s"
  shows "keeps_ids s s'"
proof -
  have l: "length (running s') = length (running s)" using assms(1) by (metis length_map)
  have n: "i < length (running s) \<Longrightarrow> sq_id (running s' ! i) = sq_id (running s ! i)" for i
    using assms(1) l by (metis nth_map)
  have "sq_id ` set (running s') = sq_id ` set (running s)" "sq_id ` set (waiting s') = sq_id ` set (waiting s)"
    using assms(1,2) by (metis set_map)+
  moreover have "index_ok (running s') (running_index s') = index_ok (running s) (running_index s)"
    using l n assms(1,3) by (auto simp: index_ok_def)
  ultimately show ?thesis using assms by (simp add: keeps_ids_def ids_inv_def live_ids_def)
qed

lemma keeps_ids_memory [simp]:
  "keeps_ids s (s\<lparr>allocators := as\<rparr>)" "keeps_ids s (s\<lparr>draft_allocators := as\<rparr>)" "keeps_ids s (s\<lparr>s_budgets := B\<rparr>)"
  "keeps_ids s (set_memory s m)"
  by (rule keeps_ids_queues; simp add: set_memory_def)+

lemma set_running_keeps:
  assumes "get_running s sid = Some q" and "sq_id q' = sq_id q"
  shows "keeps_ids s (set_running s sid q')"
proof (cases "running_index s sid")
  case None
  then show ?thesis by (simp add: set_running_def)
next
  case (Some i)
  then have i: "i < length (running s)" "q = running s ! i"
    using assms(1) by (auto simp: get_running_def split: if_splits)
  show ?thesis
  proof (rule keeps_ids_queues)
    show "map sq_id (running (set_running s sid q')) = map sq_id (running s)"
      using Some i assms(2) by (auto simp: set_running_def map_update list_update_same_conv)
  qed (simp_all add: set_running_def Some)
qed

section \<open>Scheduling\<close>

lemma clear_caches_ids:
  "clear_caches dim s q = Some (s', q') \<Longrightarrow>
     running s' = running s \<and> waiting s' = waiting s \<and> running_index s' = running_index s
     \<and> next_id s' = next_id s \<and> sq_id q' = sq_id q \<and> finish_reason q' = finish_reason q"
  by (auto simp: clear_caches_def split: option.splits)

lemma remove_and_clear_ids:
  assumes "ids_inv s" and "running_index s sid = Some i" and "remove_and_clear dim s i = Some (s', q)"
  shows "ids_inv s' \<and> sq_id q = sid \<and> live_ids s' = live_ids s - {sid} \<and> sid \<in> live_ids s
    \<and> next_id s' = next_id s \<and> waiting s' = waiting s
    \<and> sq_id ` set (running s') = sq_id ` set (running s) - {sid}"
proof -
  have ix: "index_ok (running s) (running_index s)" using assms(1) by (simp add: ids_inv_def)
  then have i: "i < length (running s)" "sq_id (running s ! i) = sid"
    using assms(2) by (auto simp: index_ok_def)
  obtain rs idx where r: "remove_from_running (running s) (running_index s) i = Some (rs, idx, running s ! i)"
      "mset (running s) = add_mset (running s ! i) (mset rs)" "index_ok rs idx"
    using remove_from_running_ok [OF ix i(1)] by blast
  have c: "running s' = rs \<and> waiting s' = waiting s \<and> running_index s' = idx \<and> next_id s' = next_id s
      \<and> sq_id q = sid"
    using assms(3) r(1) i(2) clear_caches_ids by (fastforce simp: remove_and_clear_def)
  have m: "mset (map sq_id (running s)) = add_mset sid (mset (map sq_id rs))"
    using arg_cong [OF r(2), of "image_mset sq_id"] i(2) by simp
  have d: "distinct (map sq_id (running s))" "sq_id ` set (running s) \<inter> sq_id ` set (waiting s) = {}"
      "distinct (map sq_id (waiting s))"
    using assms(1) by (auto simp: ids_inv_def)
  have "distinct (sid # map sq_id rs)" using d(1) m mset_eq_imp_distinct_iff [of "map sq_id (running s)" "sid # map sq_id rs"] by simp
  moreover have set: "sq_id ` set (running s) = insert sid (sq_id ` set rs)"
    using arg_cong [OF m, of set_mset] by simp
  ultimately show ?thesis using c r(3) d assms(1)
    by (auto simp: ids_inv_def live_ids_def)
qed

lemma preempt_ids:
  assumes "ids_inv s" and "running_index s sid = Some i" and "preempt dim s i = Some s'"
  shows "ids_inv s' \<and> live_ids s' = live_ids s \<and> next_id s' = next_id s"
proof -
  obtain s1 q1 where r: "remove_and_clear dim s i = Some (s1, q1)"
      "s' = s1\<lparr>waiting := q1\<lparr>num_processed_tokens := 0, phase := Prefill, status := Waiting\<rparr> # waiting s1\<rparr>"
    using assms(3) by (auto simp: preempt_def remove_and_clear_def split: option.splits)
  note k = remove_and_clear_ids [OF assms(1,2) r(1)]
  have "sid \<notin> sq_id ` set (waiting s)" using k assms(1)
    by (auto simp: ids_inv_def live_ids_def)
  then show ?thesis using k assms(1) by (auto simp: r(2) ids_inv_def live_ids_def)
qed

lemma boundary_pass_ids:
  "boundary_pass dim ops s pco budget reserved ids = Some (s', pco', b', r', sch) \<Longrightarrow> keeps_ids s s'"
proof (induction ids arbitrary: s pco budget reserved sch)
  case Nil
  then show ?case by simp
next
  case (Cons sid ids)
  obtain pco1 as1 where ev: "(case pco of None \<Rightarrow> Some (None, allocators s)
      | Some pc \<Rightarrow> map_option (\<lambda>(pc', as'). (Some pc', as')) (evict_until ops reserved pc (allocators s))) = Some (pco1, as1)"
    using Cons.prems by (auto split: option.splits)
  let ?s = "s\<lparr>allocators := as1\<rparr>"
  have k: "keeps_ids s ?s" by simp
  show ?case
  proof (cases "reserved < num_free_blocks as1")
    case True
    then have "\<exists>b r sch'. boundary_pass dim ops ?s pco1 b r ids = Some (s', pco', b', r', sch')"
      using Cons.prems ev by (auto simp: Let_def split: if_splits)
    then show ?thesis using Cons.IH keeps_ids_trans [OF k] by blast
  next
    case False
    then obtain i s2 where p: "running_index ?s sid = Some i" "preempt dim ?s i = Some s2"
        "boundary_pass dim ops s2 pco1 budget reserved ids = Some (s', pco', b', r', sch)"
      using Cons.prems ev by (auto simp: Let_def split: option.splits)
    have "keeps_ids ?s s2" using preempt_ids [OF _ p(1,2)] by (simp add: keeps_ids_def)
    then show ?thesis using Cons.IH [OF p(3)] k keeps_ids_trans by blast
  qed
qed

lemma admit_ids:
  "admit ops hash s pco budget reserved avail prefilled qs = Some (s', pco', sch) \<Longrightarrow>
     keeps_ids (s\<lparr>waiting := qs\<rparr>) s'"
proof (induction qs arbitrary: s pco budget avail prefilled sch)
  case Nil
  then show ?case by simp
next
  case (Cons q qs)
  show ?case
  proof (cases "length (running s) < max_num_sequences s \<and> 0 < budget")
    case False
    then show ?thesis using Cons.prems by (auto simp: admit_Cons simp del: admit.simps(2))
  next
    case True
    obtain pco1 as1 free1 needed1 where e: "evict_prompt_opt ops hash (s_block_size s) (all_tokens q) reserved pco
        (allocators s) avail (blocks_needed_for_prefill ops hash (s_block_size s) (all_tokens q) pco) =
        Some (pco1, as1, free1, needed1)"
      using Cons.prems True by (auto simp: admit_Cons simp del: admit.simps(2) split: option.splits)
    obtain rs idx where p: "push_to_running (running s) (running_index s) (admitted q) = (rs, idx)" by fastforce
    have "s' = s\<lparr>allocators := as1, waiting := q # qs\<rparr> \<or>
        (\<exists>rs idx b a sch'. push_to_running (running s) (running_index s) (admitted q) = (rs, idx)
          \<and> admit ops hash (s\<lparr>allocators := as1, running := rs, running_index := idx\<rparr>) pco1 b reserved a True qs = Some (s', pco', sch'))"
      using Cons.prems True e p by (auto simp: admit_Cons simp del: admit.simps(2) split: if_splits)
    then show ?thesis
    proof
      assume "s' = s\<lparr>allocators := as1, waiting := q # qs\<rparr>"
      then show ?thesis by (auto intro!: keeps_ids_queues)
    next
      assume "\<exists>rs idx b a sch'. push_to_running (running s) (running_index s) (admitted q) = (rs, idx)
          \<and> admit ops hash (s\<lparr>allocators := as1, running := rs, running_index := idx\<rparr>) pco1 b reserved a True qs = Some (s', pco', sch')"
      then obtain rs idx b a sch' where p:
          "push_to_running (running s) (running_index s) (admitted q) = (rs, idx)"
          "admit ops hash (s\<lparr>allocators := as1, running := rs, running_index := idx\<rparr>) pco1 b reserved a True qs = Some (s', pco', sch')"
        by blast
      have "keeps_ids (s\<lparr>waiting := q # qs\<rparr>) (s\<lparr>allocators := as1, running := rs, running_index := idx, waiting := qs\<rparr>)"
        unfolding keeps_ids_def
      proof
        assume inv: "ids_inv (s\<lparr>waiting := q # qs\<rparr>)"
        then have "index_ok (running s) (running_index s)" "sq_id (admitted q) \<notin> sq_id ` set (running s)"
          by (auto simp: ids_inv_def)
        from push_to_running_ok [OF this p(1)]
        show "ids_inv (s\<lparr>allocators := as1, running := rs, running_index := idx, waiting := qs\<rparr>)
          \<and> live_ids (s\<lparr>allocators := as1, running := rs, running_index := idx, waiting := qs\<rparr>) = live_ids (s\<lparr>waiting := q # qs\<rparr>)
          \<and> next_id (s\<lparr>allocators := as1, running := rs, running_index := idx, waiting := qs\<rparr>) = next_id (s\<lparr>waiting := q # qs\<rparr>)"
          using inv by (auto simp: ids_inv_def live_ids_def)
      qed
      then show ?thesis using Cons.IH [OF p(2)] by (rule keeps_ids_trans)
    qed
  qed
qed

lemma schedule_ids:
  assumes "schedule dim ops hash s pco = Some (s', pco', sch)"
  shows "keeps_ids s s'"
proof -
  obtain sch1 budget1 need where d: "decode_pass (s_block_size s) (running s) (max_tokens_per_step s) = (sch1, budget1, need)"
    by (metis prod_cases3)
  obtain s1 pco1 budget2 reserved sch2 sch3 where b:
      "boundary_pass dim ops s pco budget1 0 need = Some (s1, pco1, budget2, reserved, sch2)"
      "admit ops hash s1 pco1 budget2 reserved (num_free_blocks (allocators s1) - reserved) False (waiting s1) = Some (s', pco', sch3)"
    using assms d by (auto simp: schedule_def split: option.splits)
  have "s1\<lparr>waiting := waiting s1\<rparr> = s1" by simp
  then show ?thesis using boundary_pass_ids [OF b(1)] admit_ids [OF b(2)] keeps_ids_trans by metis
qed

text \<open>Retiring takes out exactly what it reports.\<close>

lemma retire_ids_ids:
  assumes "ids_inv s" and "retire_ids dim s ids = Some (s', out)"
  shows "ids_inv s' \<and> fst ` set out \<subseteq> live_ids s \<and> live_ids s' = live_ids s - fst ` set out \<and> next_id s' = next_id s"
  using assms
proof (induction ids arbitrary: s out)
  case Nil
  then show ?case by simp
next
  case (Cons sid ids)
  obtain i s1 q out' where r: "running_index s sid = Some i" "remove_and_clear dim s i = Some (s1, q)"
      "retire_ids dim s1 ids = Some (s', out')" "out = (sq_id q, finish_reason q) # out'"
    using Cons.prems(2) by (auto split: option.splits)
  note k = remove_and_clear_ids [OF Cons.prems(1) r(1,2)]
  show ?case using Cons.IH [OF _ r(3)] k r(4) by auto
qed

lemma retire_finished_ids:
  "ids_inv s \<Longrightarrow> retire_finished dim s = Some (s', out) \<Longrightarrow>
     ids_inv s' \<and> fst ` set out \<subseteq> live_ids s \<and> live_ids s' = live_ids s - fst ` set out \<and> next_id s' = next_id s"
  unfolding retire_finished_def by (rule retire_ids_ids)

section \<open>The queue operations\<close>

lemma add_request_ids:
  assumes "ids_inv s" and "add_request_full s prompt sp maxt jc = Some (s', sid)"
  shows "ids_inv s' \<and> live_ids s' = insert sid (live_ids s) \<and> sid \<notin> live_ids s"
proof -
  have "sid = next_id s \<and> (\<exists>q. sq_id q = next_id s \<and> s' = s\<lparr>next_id := Suc (next_id s), waiting := waiting s @ [q]\<rparr>)"
    using assms(2) unfolding add_request_full_def Let_def by (simp split: if_splits) (metis sequence_state.select_convs(1))
  then obtain q where q: "sid = next_id s" "sq_id q = next_id s"
      "s' = s\<lparr>next_id := Suc (next_id s), waiting := waiting s @ [q]\<rparr>" by blast
  have new: "next_id s \<notin> live_ids s" and less: "\<And>i. i \<in> live_ids s \<Longrightarrow> i < Suc (next_id s)"
    using assms(1) by (auto simp: ids_inv_def less_Suc_eq)
  have "live_ids s' = insert sid (live_ids s)" by (auto simp: q live_ids_def)
  moreover have "distinct (map sq_id (running s' @ waiting s'))"
    using new assms(1) q(2) by (auto simp: q(3) ids_inv_def live_ids_def)
  ultimately show ?thesis using new less assms(1) q by (auto simp: ids_inv_def)
qed

text \<open>Aborting: one sequence, the running ones, all of them.\<close>

lemma clear_each_ids:
  "clear_each dim s qs = Some s' \<Longrightarrow>
     running s' = running s \<and> waiting s' = waiting s \<and> running_index s' = running_index s \<and> next_id s' = next_id s"
proof (induction qs arbitrary: s)
  case Nil
  then show ?case by simp
next
  case (Cons q qs)
  then obtain s1 q1 where "clear_caches dim s q = Some (s1, q1)" "clear_each dim s1 qs = Some s'"
    by (auto split: option.splits)
  then show ?case using Cons.IH clear_caches_ids by metis
qed

lemma abort_all_running_ids:
  assumes "ids_inv s" and "abort_all_running dim s = Some (s', ids)"
  shows "ids_inv s' \<and> set ids \<subseteq> live_ids s \<and> live_ids s' = live_ids s - set ids"
proof -
  obtain s1 where s1: "clear_each dim s (running s) = Some s1" "ids = map sq_id (running s)"
      "s' = s1\<lparr>running := [], running_index := Map.empty\<rparr>"
    using assms(2) by (auto simp: abort_all_running_def)
  then show ?thesis using clear_each_ids [OF s1(1)] assms(1)
    by (auto simp: ids_inv_def live_ids_def index_ok_def)
qed

lemma abort_all_ids:
  assumes "ids_inv s" and "abort_all dim s = Some (s', ids)"
  shows "ids_inv s' \<and> set ids = live_ids s \<and> live_ids s' = {}"
proof -
  obtain s1 ids1 s2 where r: "abort_all_running dim s = Some (s1, ids1)"
      "clear_each dim s1 (waiting s1) = Some s2" "s' = s2\<lparr>waiting := []\<rparr>" "ids = ids1 @ map sq_id (waiting s1)"
    using assms(2) by (auto simp: abort_all_def split: option.splits)
  obtain s0 where s0: "clear_each dim s (running s) = Some s0" "ids1 = map sq_id (running s)"
      "s1 = s0\<lparr>running := [], running_index := Map.empty\<rparr>"
    using r(1) by (auto simp: abort_all_running_def)
  show ?thesis using clear_each_ids [OF s0(1)] clear_each_ids [OF r(2)] abort_all_running_ids [OF assms(1) r(1)]
    by (auto simp: r(3,4) s0 ids_inv_def live_ids_def)
qed

lemma abort_sequence_ids:
  assumes "ids_inv s" and "abort_sequence dim s sid = Some (s', found)"
  shows "ids_inv s' \<and> live_ids s' = live_ids s - {sid}"
proof (cases "running_index s sid")
  case (Some i)
  then obtain q where "remove_and_clear dim s i = Some (s', q)"
    using assms(2) by (auto simp: abort_sequence_def)
  then show ?thesis using remove_and_clear_ids [OF assms(1) Some] by blast
next
  case None
  have ix: "index_ok (running s) (running_index s)" using assms(1) by (simp add: ids_inv_def)
  have notr: "sid \<notin> sq_id ` set (running s)"
  proof
    assume "sid \<in> sq_id ` set (running s)"
    then obtain q where "q \<in> set (running s)" "sq_id q = sid" by auto
    then obtain i where "i < length (running s)" "sq_id (running s ! i) = sid"
      by (metis in_set_conv_nth)
    then have "running_index s sid = Some i" using ix by (simp add: index_ok_def)
    then show False using None by simp
  qed
  show ?thesis
  proof (cases "position (\<lambda>q. sq_id q = sid) (waiting s)")
    case None
    then have "sid \<notin> sq_id ` set (waiting s)" by (auto simp: position_None)
    then show ?thesis using None \<open>running_index s sid = None\<close> notr assms
      by (auto simp: abort_sequence_def live_ids_def)
  next
    case (Some w)
    then have w: "w < length (waiting s)" "sq_id (waiting s ! w) = sid" by (auto dest: position_Some)
    obtain q where "clear_caches dim (s\<lparr>waiting := remove_at (waiting s) w\<rparr>) (waiting s ! w) = Some (s', q)"
      using assms(2) None Some by (auto simp: abort_sequence_def)
    from clear_caches_ids [OF this]
    have s': "running s' = running s" "waiting s' = remove_at (waiting s) w" "running_index s' = running_index s"
        "next_id s' = next_id s" by simp_all
    have m: "mset (map sq_id (waiting s)) = add_mset sid (mset (map sq_id (remove_at (waiting s) w)))"
      using arg_cong [OF mset_remove_at [OF w(1)], of "image_mset sq_id"] w(2) by simp
    have d: "distinct (map sq_id (running s))" "sq_id ` set (running s) \<inter> sq_id ` set (waiting s) = {}"
        "distinct (map sq_id (waiting s))"
      using assms(1) by (auto simp: ids_inv_def)
    have "distinct (sid # map sq_id (remove_at (waiting s) w))"
      using d(3) m mset_eq_imp_distinct_iff [of "map sq_id (waiting s)" "sid # map sq_id (remove_at (waiting s) w)"]
      by simp
    moreover have "sq_id ` set (waiting s) = insert sid (sq_id ` set (remove_at (waiting s) w))"
      using arg_cong [OF m, of set_mset] by simp
    ultimately show ?thesis using d notr assms(1) by (auto simp: s' ids_inv_def live_ids_def)
  qed
qed

section \<open>A forward, its samples and the speculative cycle\<close>

lemma get_running_id:
  "index_ok (running s) (running_index s) \<Longrightarrow> get_running s sid = Some q \<Longrightarrow> sq_id q = sid"
  by (auto simp: get_running_def index_ok_def split: option.splits if_splits)

lemma same_frame_keeps:
  assumes "same_frame s s'" and "\<And>i. i < length (running s) \<Longrightarrow> sq_id (running s' ! i) = sq_id (running s ! i)"
  shows "keeps_ids s s'"
proof -
  obtain rs where rs: "s' = s\<lparr>running := rs\<rparr>" "length rs = length (running s)"
    using assms(1) by (auto simp: same_frame_def)
  have "map sq_id rs = map sq_id (running s)" using assms(2) rs by (intro nth_equalityI) simp_all
  then show ?thesis by (intro keeps_ids_queues) (simp_all add: rs(1))
qed

lemma take_caches_keeps: "take_caches on s ids = Some (s', css) \<Longrightarrow> keeps_ids s s'"
proof (induction ids arbitrary: s css)
  case Nil
  then show ?case by simp
next
  case (Cons sid ids)
  then obtain q css' where q: "get_running s sid = Some q"
      "take_caches on (set_running s sid (q\<lparr>caches := []\<rparr>)) ids = Some (s', css')"
    by (auto split: option.splits)
  have "keeps_ids s (set_running s sid (q\<lparr>caches := []\<rparr>))" by (rule set_running_keeps [OF q(1)]) simp
  then show ?case using Cons.IH [OF q(2)] by (rule keeps_ids_trans)
qed

lemma restore_caches_keeps: "restore_caches s ids css = Some s' \<Longrightarrow> keeps_ids s s'"
proof (induction s ids css rule: restore_caches.induct)
  case (3 s sid ids cs css)
  then obtain q where q: "get_running s sid = Some q"
      "restore_caches (set_running s sid (q\<lparr>caches := cs\<rparr>)) ids css = Some s'"
    by (auto split: option.splits)
  have "keeps_ids s (set_running s sid (q\<lparr>caches := cs\<rparr>))" by (rule set_running_keeps [OF q(1)]) simp
  then show ?case using "3.IH" [OF q] by (rule keeps_ids_trans)
qed simp_all

lemma run_forward_pass_keeps:
  assumes "run_forward_pass E s ps ds pacer batch = Some (s', pacer', r)"
  shows "keeps_ids s s'"
proof -
  obtain s1 pre s2 dec where g: "take_caches True s ps = Some (s1, pre)" "take_caches False s1 ds = Some (s2, dec)"
      "guard_new s ps ds = Some (s2, pre @ dec)"
    using assms by (auto simp: run_forward_pass_def guard_new_def split: option.splits)
  obtain fs where f: "forward_chunks E batch 0 (planner_new (bi_token_counts batch) (length ps))
      \<lparr>fs_caches = pre @ dec, fs_memory = memory_of s2, fs_pacer = pacer, fs_rows = []\<rparr> = (fs, r)"
      and r: "restore_caches (set_memory s2 (fs_memory fs)) (ps @ ds) (fs_caches fs) = Some s'"
    using assms by (auto simp: run_forward_pass_def g(3) split: prod.splits)
  have "keeps_ids s s2"
    using take_caches_keeps [OF g(1)] take_caches_keeps [OF g(2)] by (rule keeps_ids_trans)
  then have "keeps_ids s (set_memory s2 (fs_memory fs))" by (rule keeps_ids_trans) simp
  then show ?thesis using restore_caches_keeps [OF r] by (rule keeps_ids_trans)
qed

lemma plan_one_keeps:
  assumes "plan_one ops hash bs s pc sid = Some (s', pc', info)"
  shows "keeps_ids s s'"
proof -
  obtain q where q: "get_running s sid = Some q" using assms by (auto simp: plan_one_def split: option.splits)
  have "s' = s \<or> (\<exists>as' cs'. s' = set_running (s\<lparr>allocators := as'\<rparr>) sid (q\<lparr>caches := cs'\<rparr>))"
    using assms q by (auto simp: plan_one_def Let_def split: prod.splits if_splits option.splits)
  then show ?thesis
  proof
    assume "\<exists>as' cs'. s' = set_running (s\<lparr>allocators := as'\<rparr>) sid (q\<lparr>caches := cs'\<rparr>)"
    then obtain as' cs' where s': "s' = set_running (s\<lparr>allocators := as'\<rparr>) sid (q\<lparr>caches := cs'\<rparr>)" by blast
    have "get_running (s\<lparr>allocators := as'\<rparr>) sid = Some q"
      using q by (simp add: get_running_def cong: option.case_cong if_cong)
    then have "keeps_ids (s\<lparr>allocators := as'\<rparr>) s'" unfolding s' by (rule set_running_keeps) simp
    then show ?thesis by (rule keeps_ids_trans [rotated]) simp
  qed simp
qed

lemma plan_prefill_inputs_keeps:
  "plan_prefill_inputs ops hash bs s pc ids = Some (s', pc', infos) \<Longrightarrow> keeps_ids s s'"
proof (induction ids arbitrary: s pc infos)
  case Nil
  then show ?case by simp
next
  case (Cons sid ids)
  then obtain s1 pc1 info infos' where r: "plan_one ops hash bs s pc sid = Some (s1, pc1, info)"
      "plan_prefill_inputs ops hash bs s1 pc1 ids = Some (s', pc', infos')"
    by (auto split: option.splits)
  show ?case using plan_one_keeps [OF r(1)] Cons.IH [OF r(2)] by (rule keeps_ids_trans)
qed

lemma token_ids [simp]:
  "sq_id (append_token q t) = sq_id q" "apply_token q t stop = (q', e) \<Longrightarrow> sq_id q' = sq_id q"
  by (auto simp: append_token_def apply_token_def Let_def split: if_splits)

lemma sample_sequence_id:
  "sample_sequence E stop prefill q row = Inr (q', toks) \<Longrightarrow> sq_id q' = sq_id q"
  by (auto simp: sample_sequence_def Let_def dest!: token_ids(2) split: option.splits sum.splits prod.splits if_splits)

lemma sample_prefill_keeps:
  "sample_prefill_outputs E ops hash bs stop rows i s pc infos = (s', pc', toks, r) \<Longrightarrow> keeps_ids s s'"
proof (induction infos arbitrary: i s pc toks)
  case Nil
  then show ?case by simp
next
  case (Cons info infos)
  show ?case
  proof (cases "nth_opt rows i = None \<or> get_running s (pi_seq_id info) = None")
    case True
    then show ?thesis using Cons.prems by (auto split: option.splits)
  next
    case False
    then obtain row q where rq: "nth_opt rows i = Some row" "get_running s (pi_seq_id info) = Some q" by auto
    show ?thesis
    proof (cases "sample_sequence E stop True q row")
      case (Inl e)
      then show ?thesis using Cons.prems rq by simp
    next
      case (Inr qt)
      obtain q' toks1 where qt: "qt = (q', toks1)" by (cases qt)
      let ?s = "set_running s (pi_seq_id info) q'"
      have k: "keeps_ids s ?s" using sample_sequence_id [OF Inr [unfolded qt]]
        by (rule set_running_keeps [OF rq(2)])
      show ?thesis
      proof (cases "if pi_num_cached_blocks info < pi_num_full_blocks_total info
          then pc_register ops hash pc (all_tokens q') (pi_num_cached_blocks info) (new_block_ids q' info) (allocators ?s) bs
          else Some (pc, allocators ?s)")
        case None
        then show ?thesis using Cons.prems rq Inr qt k by simp
      next
        case (Some pa)
        obtain pc1 as1 where pa: "pa = (pc1, as1)" by (cases pa)
        obtain toks2 where "sample_prefill_outputs E ops hash bs stop rows (Suc i) (?s\<lparr>allocators := as1\<rparr>) pc1 infos
            = (s', pc', toks2, r)"
          using Cons.prems rq Inr qt Some pa by (auto split: prod.splits)
        then have "keeps_ids (?s\<lparr>allocators := as1\<rparr>) s'" by (rule Cons.IH)
        then have "keeps_ids ?s s'" by (rule keeps_ids_trans [rotated]) simp
        then show ?thesis by (rule keeps_ids_trans [OF k])
      qed
    qed
  qed
qed

lemma sample_decode_keeps:
  "sample_decode_outputs E stop rows i s ids = (s', toks, r) \<Longrightarrow> keeps_ids s s'"
proof (induction ids arbitrary: i s toks)
  case Nil
  then show ?case by simp
next
  case (Cons sid ids)
  show ?case
  proof (cases "nth_opt rows i = None \<or> get_running s sid = None")
    case True
    then show ?thesis using Cons.prems by (auto split: option.splits)
  next
    case False
    then obtain row q where rq: "nth_opt rows i = Some row" "get_running s sid = Some q" by auto
    show ?thesis
    proof (cases "sample_sequence E stop False q row")
      case (Inl e)
      then show ?thesis using Cons.prems rq by simp
    next
      case (Inr qt)
      obtain q' toks1 where qt: "qt = (q', toks1)" by (cases qt)
      have k: "keeps_ids s (set_running s sid q')" using sample_sequence_id [OF Inr [unfolded qt]]
        by (rule set_running_keeps [OF rq(2)])
      obtain toks2 where "sample_decode_outputs E stop rows (Suc i) (set_running s sid q') ids = (s', toks2, r)"
        using Cons.prems rq Inr qt by (auto split: prod.splits)
      then have "keeps_ids (set_running s sid q') s'" by (rule Cons.IH)
      then show ?thesis by (rule keeps_ids_trans [OF k])
    qed
  qed
qed

lemma apply_accepted_id: "apply_accepted stop q toks = (q', out) \<Longrightarrow> sq_id q' = sq_id q"
proof (induction toks arbitrary: q out)
  case Nil
  then show ?case by simp
next
  case (Cons t toks)
  then show ?case by (auto simp: Let_def dest!: token_ids(2) split: prod.splits if_splits)
qed

text \<open>Only the memory differs.\<close>

definition same_queues :: "('t, 'f, 'sp, 'jc) scheduler \<Rightarrow> ('t, 'f, 'sp, 'jc) scheduler \<Rightarrow> bool" where
  "same_queues s s' \<longleftrightarrow> running s' = running s \<and> waiting s' = waiting s \<and> running_index s' = running_index s
     \<and> next_id s' = next_id s"

lemma same_queues_set_running:
  assumes "same_queues s s1" and "get_running s sid = Some q" and "sq_id q' = sq_id q"
  shows "keeps_ids s (set_running s1 sid q')"
proof -
  have "keeps_ids s s1" using assms(1) by (intro keeps_ids_queues) (simp_all add: same_queues_def)
  moreover have "get_running s1 sid = Some q" using assms(1,2)
    by (simp add: get_running_def same_queues_def cong: option.case_cong if_cong)
  ultimately show ?thesis using set_running_keeps [OF _ assms(3)] keeps_ids_trans by blast
qed

lemma roll_back_ids: "roll_back E s q = (s', q', r) \<Longrightarrow> sq_id q' = sq_id q \<and> same_queues s s'"
  by (auto simp: roll_back_def Let_def same_queues_def split: prod.splits sum.splits)

lemma speculate_one_shape:
  fixes toks :: "'lp new_token list"
  assumes "speculate_one E stop s sid = (s', toks, r)"
  shows "s' = s \<or> (\<exists>q s1 q'. get_running s sid = Some q \<and> same_queues s s1 \<and> sq_id q' = sq_id q
    \<and> s' = set_running s1 sid q')"
proof (cases "get_running s sid")
  case None
  then show ?thesis using assms by (simp add: speculate_one_def)
next
  case (Some qs)
  define q where "q = qs\<lparr>caches := map (\<lambda>c. set_pool_writes c False) (caches qs),
                     draft_caches := map (\<lambda>c. set_pool_writes c False) (draft_caches qs)\<rparr>"
  have q: "sq_id q = sq_id qs" by (simp add: q_def)
  note sp = assms [unfolded speculate_one_def Some option.case Let_def, folded q_def]
  have sh: ?thesis if "s' = set_running s1 sid q'" "same_queues s s1" "sq_id q' = sq_id qs" for s1 q'
    using Some that by blast
  show ?thesis
  proof (cases "length (all_tokens q) = 0")
    case True
    then show ?thesis using sp q sh [of s q] by (simp add: same_queues_def)
  next
    case ne: False
    obtain dcs B A dr where d: "draft_round E (all_tokens q) (draft_caches q) (s_budgets s, draft_allocators s) = (dcs, (B, A), dr)"
      by (metis surj_pair)
    define s1 where "s1 = s\<lparr>s_budgets := B, draft_allocators := A\<rparr>"
    define q1 where "q1 = q\<lparr>draft_caches := dcs\<rparr>"
    note sp = sp [unfolded d prod.case fst_conv snd_conv, folded s1_def q1_def]
    have s1: "same_queues s s1" "sq_id q1 = sq_id qs" by (simp_all add: s1_def q1_def same_queues_def q)
    show ?thesis
    proof (cases dr)
      case (Inl e)
      then show ?thesis using sp ne s1 sh [of s1 q1] by simp
    next
      case (Inr drafts)
      obtain tr cs mem where g: "en_greedy E (last (all_tokens q) # drafts)
          (map of_nat [length (all_tokens q) - 1 ..< length (all_tokens q) + spec_draft_k]) (caches q1) (memory_of s1) = (tr, cs, mem)"
        by (metis prod_cases3)
      define s2 where "s2 = set_memory s1 mem"
      define q2 where "q2 = q1\<lparr>caches := cs\<rparr>"
      note sp = sp [unfolded Inr sum.case g prod.case, folded s2_def q2_def]
      have s2: "same_queues s s2" "sq_id q2 = sq_id qs"
        using s1 by (simp_all add: s2_def q2_def same_queues_def set_memory_def)
      show ?thesis
      proof (cases "case tr of Inl e \<Rightarrow> None | Inr target_am \<Rightarrow> accepted_tokens drafts target_am")
        case None
        then show ?thesis using sp ne s2 sh [of s2 q2] by (auto split: sum.splits)
      next
        case (Some acc)
        obtain q3 out where q3: "apply_accepted stop q2 acc = (q3, out :: 'lp new_token list)" by (metis surj_pair)
        obtain s3 q4 r' where r: "roll_back E s2 q3 = (s3, q4, r')" by (metis surj_pair)
        have "s' = set_running s3 sid q4" using sp ne Some q3 r by (auto split: sum.splits)
        moreover have "same_queues s s3" using roll_back_ids [OF r] s2(1) by (simp add: same_queues_def)
        ultimately show ?thesis
          using sh roll_back_ids [OF r] apply_accepted_id [OF q3] s2(2) by simp
      qed
    qed
  qed
qed

lemma run_speculative_decode_keeps:
  "run_speculative_decode E stop s ids = (s', toks, r) \<Longrightarrow> keeps_ids s s'"
proof (induction ids arbitrary: s toks)
  case Nil
  then show ?case by simp
next
  case (Cons sid ids)
  obtain s1 out r1 where o: "speculate_one E stop s sid = (s1, out, r1)" by (metis prod_cases3)
  have k: "keeps_ids s s1" using speculate_one_shape [OF o] same_queues_set_running keeps_ids_refl by metis
  show ?case
  proof (cases r1)
    case (Inl e)
    then show ?thesis using Cons.prems o k by simp
  next
    case (Inr u)
    obtain s2 out2 r2 where "run_speculative_decode E stop s1 ids = (s2, out2, r2)" by (metis prod_cases3)
    then show ?thesis using Cons.prems o Inr Cons.IH k keeps_ids_trans by fastforce
  qed
qed

section \<open>A step\<close>

abbreviation g_ids_inv :: "('t, 'f, 'sp, 'jc, 'c, 'r) engine \<Rightarrow> bool" where
  "g_ids_inv g \<equiv> ids_inv (g_scheduler g)"

abbreviation g_live :: "('t, 'f, 'sp, 'jc, 'c, 'r) engine \<Rightarrow> nat set" where
  "g_live g \<equiv> live_ids (g_scheduler g)"

abbreviation g_keeps ::
    "('t, 'f, 'sp, 'jc, 'c, 'r) engine \<Rightarrow> ('t, 'f, 'sp, 'jc, 'c, 'r) engine \<Rightarrow> bool" where
  "g_keeps g g' \<equiv> keeps_ids (g_scheduler g) (g_scheduler g')"

definition step_ids ::
    "('t, 'f, 'sp, 'jc, 'c, 'r) engine \<Rightarrow> ('t, 'f, 'sp, 'jc, 'c, 'r) engine \<Rightarrow> (err + 'lp step_output) \<Rightarrow> bool" where
  "step_ids g g' r \<longleftrightarrow>
     (g_ids_inv g \<longrightarrow>
        g_ids_inv g' \<and>
        (case r of
           Inl e \<Rightarrow> g_live g' = g_live g
         | Inr out \<Rightarrow> fst ` set (so_completed out) \<subseteq> g_live g \<and> g_live g' = g_live g - fst ` set (so_completed out)))"

lemma step_ids_trans: "g_keeps g g1 \<Longrightarrow> step_ids g1 g' r \<Longrightarrow> step_ids g g' r"
  by (auto simp: step_ids_def keeps_ids_def split: sum.splits)

lemma step_ids_error: "g_keeps g g' \<Longrightarrow> step_ids g g' (Inl e)"
  by (auto simp: step_ids_def keeps_ids_def)

lemma retire_step_ids:
  assumes "retire_step dim g toks h m = (g', r)"
  shows "step_ids g g' r"
proof (cases "retire_finished dim (g_scheduler g)")
  case None
  then show ?thesis using assms by (auto simp: retire_step_def intro: step_ids_error)
next
  case (Some sc)
  obtain s completed where sc: "sc = (s, completed)" by (cases sc)
  then have "g' = g\<lparr>g_scheduler := s\<rparr>" "r = Inr \<lparr>so_new_tokens = toks, so_completed = completed, so_hits = h, so_misses = m\<rparr>"
    using assms Some by (auto simp: retire_step_def)
  then show ?thesis using retire_finished_ids [OF _ Some [unfolded sc]] by (simp add: step_ids_def)
qed

lemma step_batch_keeps:
  assumes "step_batch E ops hash g ps ds infos batch = (g', toks, r)"
  shows "g_keeps g g'"
proof (cases "run_forward_pass E (g_scheduler g) ps ds (g_pacer g) batch")
  case None
  then show ?thesis using assms by (simp add: step_batch_def)
next
  case (Some spr)
  obtain s1 pacer r1 where spr: "spr = (s1, pacer, r1)" by (metis prod_cases3)
  have k1: "keeps_ids (g_scheduler g) s1" by (rule run_forward_pass_keeps [OF Some [unfolded spr]])
  note st = assms [unfolded step_batch_def Some spr option.case prod.case Let_def]
  show ?thesis
  proof (cases r1)
    case (Inl e)
    then show ?thesis using st k1 by auto
  next
    case (Inr rows)
    obtain s2 pc2 toks2 r2 where p: "sample_prefill_outputs E ops hash (g_block_size g) (g_stop g) rows 0 s1
        (g_prefix_cache g) infos = (s2, pc2, toks2, r2)" by (metis prod_cases4)
    have k2: "keeps_ids (g_scheduler g) s2" using k1 sample_prefill_keeps [OF p] by (rule keeps_ids_trans)
    note st = st [unfolded Inr sum.case p prod.case]
    show ?thesis
    proof (cases r2)
      case (Inl e)
      then show ?thesis using st k2 by auto
    next
      case (Inr u)
      obtain s3 toks3 r3 where d: "sample_decode_outputs E (g_stop g) rows (length infos) s2 ds = (s3, toks3, r3)"
        by (metis prod_cases3)
      have k3: "keeps_ids (g_scheduler g) s3" using k2 sample_decode_keeps [OF d] by (rule keeps_ids_trans)
      show ?thesis using st [unfolded Inr sum.case] k3 d by auto
    qed
  qed
qed

lemma engine_step_ids:
  fixes r :: "err + 'lp step_output"
  assumes "engine_step E ops hash g = (g', r)"
  shows "step_ids g g' r"
proof -
  define dim where "dim = t_dim (en_tensors E)"
  note st = assms [unfolded engine_step_def Let_def, folded dim_def]
  show ?thesis
  proof (cases "schedule dim ops hash (g_scheduler g) (Some (g_prefix_cache g))")
    case None
    then show ?thesis using st by (auto intro: step_ids_error)
  next
    case (Some x)
    obtain s0 pco scheduled where x: "x = (s0, pco, scheduled)" by (metis prod_cases3)
    have k0: "keeps_ids (g_scheduler g) s0" by (rule schedule_ids [OF Some [unfolded x]])
    show ?thesis
    proof (cases pco)
      case None
      then show ?thesis using st Some x by (auto intro: step_ids_error)
    next
      case pc0: (Some pc0)
      define pre where "pre = map fst (filter (\<lambda>(_, ph). ph = Prefill) scheduled)"
      define dec where "dec = map fst (filter (\<lambda>(_, ph). ph = Decode) scheduled)"
      define spec where "spec = (if g_has_draft g then filter (speculates E s0) dec else [])"
      define normal where "normal = (if g_has_draft g then filter (\<lambda>i. \<not> speculates E s0 i) dec else dec)"
      define g0 where "g0 = g\<lparr>g_scheduler := s0, g_prefix_cache := pc0\<rparr>"
      have kg0: "g_keeps g g0" using k0 by (simp add: g0_def)
      note st = st [unfolded Some x pc0 option.case prod.case, folded pre_def dec_def, folded spec_def normal_def g0_def]
      show ?thesis
      proof (cases "plan_prefill_inputs ops hash (g_block_size g) s0 pc0 pre")
        case None
        then show ?thesis using st kg0 by (auto intro: step_ids_error)
      next
        case plan: (Some y)
        obtain s1 pc1 infos where y: "y = (s1, pc1, infos)" by (metis prod_cases3)
        define g1 where "g1 = g0\<lparr>g_scheduler := s1, g_prefix_cache := pc1\<rparr>"
        have k1: "g_keeps g g1" using keeps_ids_trans [OF k0 plan_prefill_inputs_keeps [OF plan [unfolded y]]]
          by (simp add: g1_def)
        note st = st [unfolded plan y option.case prod.case, folded g1_def]
        show ?thesis
        proof (cases "build_batch_input s1 infos normal")
          case None
          then show ?thesis using st k1 by (auto intro: step_ids_error)
        next
          case batch: (Some batch)
          note st = st [unfolded batch option.case]
          show ?thesis
          proof (cases "bi_all_token_ids batch = [] \<and> spec = []")
            case True
            then have "retire_step dim g1 [] 0 0 = (g', r)" using st by simp
            then show ?thesis using step_ids_trans [OF k1 retire_step_ids] by blast
          next
            case False
            obtain g2 and toks :: "'lp new_token list" and r2 where b:
                "(if bi_all_token_ids batch = [] then (g1, [], Inr ())
                  else step_batch E ops hash g1 pre normal infos batch) = (g2, toks, r2)"
              by (metis prod_cases3)
            have k2: "g_keeps g g2"
            proof (cases "bi_all_token_ids batch = []")
              case True
              then show ?thesis using b k1 by simp
            next
              case False
              then have "step_batch E ops hash g1 pre normal infos batch = (g2, toks, r2)" using b by simp
              then show ?thesis using k1 step_batch_keeps keeps_ids_trans by blast
            qed
            note st = st [unfolded if_not_P [OF False] b prod.case]
            show ?thesis
            proof (cases r2)
              case (Inl e)
              then show ?thesis using st k2 by (auto intro: step_ids_error)
            next
              case (Inr u)
              obtain s3 and toks3 :: "'lp new_token list" and r3 where sp:
                  "run_speculative_decode E (g_stop g) (g_scheduler g2) spec = (s3, toks3, r3)"
                by (metis prod_cases3)
              let ?g3 = "g2\<lparr>g_scheduler := s3\<rparr>"
              have k3: "g_keeps g ?g3" using keeps_ids_trans [OF k2 run_speculative_decode_keeps [OF sp]] by simp
              show ?thesis
              proof (cases r3)
                case (Inl e)
                then show ?thesis using st Inr sp k3 by (auto intro: step_ids_error)
              next
                case i3: (Inr v)
                then have "\<exists>h m. retire_step dim ?g3 (toks @ toks3) h m = (g', r)" using st Inr sp by auto
                then show ?thesis using step_ids_trans [OF k3 retire_step_ids] by blast
              qed
            qed
          qed
        qed
      qed
    qed
  qed
qed

end
