(* ===== verification/Loop_Streams.thy ===== *)
theory Loop_Streams
  imports Engine_Loop Engine_Ids Cache_Props
begin

text \<open>
  The engine loop as its clients see it: the trackers follow the sequences of the engine, and
  each request's channel carries text, then one ending, then nothing.
\<close>

section \<open>Logs\<close>

definition body_event :: "'f engine_event \<Rightarrow> bool" where
  "body_event ev \<longleftrightarrow> (case ev of Ev_token _ _ \<Rightarrow> True | Ev_reasoning _ \<Rightarrow> True | _ \<Rightarrow> False)"

definition terminal_event :: "'f engine_event \<Rightarrow> bool" where
  "terminal_event ev \<longleftrightarrow> (case ev of Ev_finish _ _ \<Rightarrow> True | Ev_error _ \<Rightarrow> True | _ \<Rightarrow> False)"

definition open_log :: "'f engine_event list \<Rightarrow> bool" where
  "open_log evs \<longleftrightarrow> list_all body_event evs"

fun ended_log :: "'f engine_event list \<Rightarrow> bool" where
  "ended_log [] = False"
| "ended_log (ev # evs) =
     (if body_event ev then ended_log evs else terminal_event ev \<and> evs = [Ev_stream_end])"

named_theorems event_simps

lemma event_cases [event_simps]:
  "body_event (Ev_token t l)" "body_event (Ev_reasoning t)" "\<not> body_event (Ev_finish r n)"
  "\<not> body_event (Ev_error e)" "\<not> body_event Ev_stream_end" "terminal_event (Ev_finish r n)" "terminal_event (Ev_error e)"
  by (simp_all add: body_event_def terminal_event_def)

lemma open_log_simps [event_simps]:
  "open_log []" "open_log (ev # evs) \<longleftrightarrow> body_event ev \<and> open_log evs" "open_log (xs @ ys) \<longleftrightarrow> open_log xs \<and> open_log ys"
  by (simp_all add: open_log_def)

lemma ended_log_append [event_simps]: "open_log xs \<Longrightarrow> ended_log (xs @ ys) = ended_log ys"
  by (induction xs) (simp_all add: event_simps)

text \<open>Text on one channel; the ending of one channel.\<close>

definition says :: "('f, 'c) wire \<Rightarrow> ('f, 'c) wire \<Rightarrow> nat \<Rightarrow> bool" where
  "says w w' ch \<longleftrightarrow> w_closed w' = w_closed w \<and> (\<forall>c. c \<noteq> ch \<longrightarrow> w_log w' c = w_log w c)
     \<and> (\<exists>evs. open_log evs \<and> w_log w' ch = w_log w ch @ evs)"

definition ends :: "('f, 'c) wire \<Rightarrow> ('f, 'c) wire \<Rightarrow> nat \<Rightarrow> bool" where
  "ends w w' ch \<longleftrightarrow> w_closed w' = w_closed w \<and> (\<forall>c. c \<noteq> ch \<longrightarrow> w_log w' c = w_log w c)
     \<and> (\<exists>evs. w_log w' ch = w_log w ch @ evs \<and> (if ch \<in> w_closed w then open_log evs else ended_log evs))"

lemma says_refl [simp]: "says w w ch" "says w (w\<lparr>w_cache := c\<rparr>) ch"
  by (auto simp: says_def event_simps intro!: exI [of _ "[]"])

lemma says_trans: "says w w1 ch \<Longrightarrow> says w1 w2 ch \<Longrightarrow> says w w2 ch"
proof -
  assume a: "says w w1 ch" "says w1 w2 ch"
  obtain e1 where e1: "open_log e1" "w_log w1 ch = w_log w ch @ e1" using a(1) by (auto simp: says_def)
  obtain e2 where e2: "open_log e2" "w_log w2 ch = w_log w1 ch @ e2" using a(2) by (auto simp: says_def)
  have "open_log (e1 @ e2)" "w_log w2 ch = w_log w ch @ (e1 @ e2)" using e1 e2 by (simp_all add: event_simps)
  then show ?thesis using a unfolding says_def by metis
qed

lemma post_log:
  "w_closed (post w ch ev) = w_closed w" "c \<noteq> ch \<Longrightarrow> w_log (post w ch ev) c = w_log w c"
  "w_log (post w ch ev) ch = w_log w ch @ (if ch \<in> w_closed w then [] else [ev])"
  by (auto simp: send_def)

lemma says_post: "body_event ev \<Longrightarrow> says w (post w ch ev) ch"
  unfolding says_def
  by (intro conjI allI impI exI [of _ "if ch \<in> w_closed w then [] else [ev]"]) (simp_all add: post_log event_simps)

lemma says_ends: "says w w1 ch \<Longrightarrow> ends w1 w2 ch \<Longrightarrow> ends w w2 ch"
proof -
  assume s: "says w w1 ch" and e: "ends w1 w2 ch"
  obtain evs where evs: "open_log evs" "w_log w1 ch = w_log w ch @ evs" using s by (auto simp: says_def)
  obtain evs2 where e2: "w_log w2 ch = w_log w1 ch @ evs2"
      "if ch \<in> w_closed w1 then open_log evs2 else ended_log evs2"
    using e by (auto simp: ends_def)
  have "w_log w2 ch = w_log w ch @ (evs @ evs2)" by (simp add: evs e2)
  moreover have "if ch \<in> w_closed w then open_log (evs @ evs2) else ended_log (evs @ evs2)"
    using e2(2) evs(1) s by (simp add: says_def event_simps)
  ultimately show ?thesis using s e unfolding says_def ends_def by metis
qed

lemma ends_post2:
  "terminal_event ev \<Longrightarrow> ends w (post (post w ch ev) ch Ev_stream_end) ch"
  unfolding ends_def
  by (intro conjI allI impI exI [of _ "if ch \<in> w_closed w then [] else [ev, Ev_stream_end]"])
     (auto simp: post_log event_simps body_event_def terminal_event_def split: engine_event.splits)

section \<open>What each part sends\<close>

lemma close_harmony_says:
  "close_harmony_tool_call dec tk w = (tk', w') \<Longrightarrow> says w w' (tk_tx tk) \<and> tk_tx tk' = tk_tx tk"
  by (auto simp: close_harmony_tool_call_def event_simps intro!: says_post split: if_splits prod.splits)

lemma flush_thinking_says: "says w (flush_thinking dec tk w) (tk_tx tk)"
  by (auto simp: flush_thinking_def event_simps intro!: says_post split: option.splits)

lemma finish_tracker_ends: "ends w (finish_tracker tk reason w) (tk_tx tk)"
  unfolding finish_tracker_def by (rule ends_post2) (simp add: event_simps)

lemma complete_tracker_ends: "ends w (complete_tracker L tk reason w) (tk_tx tk)"
proof -
  obtain d last where d: "inc_finish (lo_decode L) (tk_output tk) (tk_output_ids tk) = (d, last)" by (metis surj_pair)
  obtain sc r where sc: "scan_finish (tk_stops tk) (shown last) = (sc, r)" by (metis surj_pair)
  obtain shown_text stopped where t: "scan_text r = (shown_text, stopped)" by (metis surj_pair)
  obtain c lps where c: "drain_logprobs (lo_lru L) (lo_decode L) (w_cache w) (tk_pending tk) = (c, lps)" by (metis surj_pair)
  let ?tk1 = "tk\<lparr>tk_output := d, tk_stops := sc, tk_pending := []\<rparr>"
  let ?w1 = "w\<lparr>w_cache := c\<rparr>"
  let ?w2 = "if shown_text \<noteq> [] \<or> lps \<noteq> [] then post ?w1 (tk_tx tk) (Ev_token shown_text lps) else ?w1"
  obtain tk2 w3 where k: "close_harmony_tool_call (lo_decode L) ?tk1 ?w2 = (tk2, w3)" by (metis surj_pair)
  have "says w (post ?w1 (tk_tx tk) (Ev_token shown_text lps)) (tk_tx tk)"
    by (rule says_trans [OF says_refl(2) says_post]) (simp add: event_simps)
  then have "says w ?w2 (tk_tx tk)" by simp
  moreover have "says ?w2 w3 (tk_tx tk)" "tk_tx tk2 = tk_tx tk" using close_harmony_says [OF k] by simp_all
  ultimately have "says w (flush_thinking (lo_decode L) tk2 w3) (tk_tx tk)"
    using says_trans flush_thinking_says by metis
  then have "ends w (finish_tracker tk2 x (flush_thinking (lo_decode L) tk2 w3)) (tk_tx tk)" for x
    using says_ends finish_tracker_ends \<open>tk_tx tk2 = tk_tx tk\<close> by metis
  then show ?thesis by (simp add: complete_tracker_def d sc t c Let_def k [simplified])
qed

lemma route_token_tx: "route_token L tk tok = (tk', r) \<Longrightarrow> tk_tx tk' = tk_tx tk"
  by (auto simp: route_token_def route_harmony_def route_thinking_def Let_def
      split: option.splits prod.splits if_splits)

lemma handle_token_says:
  assumes "handle_token L tk w tok = Some h"
  shows "says w (h_wire h) (tk_tx tk) \<and> tk_tx (h_tracker h) = tk_tx tk"
proof -
  obtain tk1 r where r: "route_token L (tk\<lparr>tk_token_count := tk_token_count tk + 1\<rparr>) (nt_token tok) = (tk1, r)"
    by (metis surj_pair)
  have tx: "tk_tx tk1 = tk_tx tk" using route_token_tx [OF r] by simp
  have snd: "says w w1 (tk_tx tk)" if "send w0 (tk_tx tk) ev = (w1, ok)" "body_event ev" "says w w0 (tk_tx tk)" for w0 w1 ev ok
    using that says_trans says_post by (metis fst_conv)
  show ?thesis
  proof (cases r)
    case Skip
    then show ?thesis using assms r tx by (auto simp: handle_token_def)
  next
    case (Open_tool f)
    then show ?thesis using assms r tx snd [of w] by (auto simp: handle_token_def event_simps split: prod.splits)
  next
    case Close_tool
    then show ?thesis using assms r tx close_harmony_says by (fastforce simp: handle_token_def split: prod.splits)
  next
    case To_reasoning
    then have "emit_reasoning L tk1 w (nt_token tok) = Some h" using assms r by (simp add: handle_token_def)
    then show ?thesis using tx snd [of w]
      by (auto simp: emit_reasoning_def Let_def event_simps split: option.splits prod.splits)
  next
    case To_content
    then have "emit_content L tk1 w tok = Some h" using assms r by (simp add: handle_token_def)
    then show ?thesis using tx snd [of "w\<lparr>w_cache := c\<rparr>" for c]
      by (auto simp: emit_content_def Let_def event_simps split: option.splits prod.splits if_splits)
  qed
qed

section \<open>The channels of the trackers\<close>

abbreviation ids_of :: "'f trackers \<Rightarrow> nat list" where
  "ids_of ts \<equiv> map fst ts"

definition txs_of :: "'f trackers \<Rightarrow> nat list" where
  "txs_of ts = map (\<lambda>t. tk_tx (snd t)) ts"

text \<open>\<open>T\<close> is the set of the channels whose requests the loop has taken.\<close>

definition wire_ok :: "nat set \<Rightarrow> 'f trackers \<Rightarrow> ('f, 'c) wire \<Rightarrow> bool" where
  "wire_ok T ts w \<longleftrightarrow> distinct (ids_of ts) \<and> distinct (txs_of ts) \<and> set (txs_of ts) \<subseteq> T
     \<and> (\<forall>ch \<in> set (txs_of ts). open_log (w_log w ch))
     \<and> (\<forall>ch \<in> T - set (txs_of ts). if ch \<in> w_closed w then open_log (w_log w ch) \<or> ended_log (w_log w ch)
            else ended_log (w_log w ch))
     \<and> (\<forall>ch. ch \<notin> T \<longrightarrow> w_log w ch = [])"

lemma wire_okI:
  assumes "distinct (ids_of ts)" "distinct (txs_of ts)" "set (txs_of ts) \<subseteq> T"
    and "\<And>ch. ch \<in> set (txs_of ts) \<Longrightarrow> open_log (w_log w ch)"
    and "\<And>ch. ch \<in> T \<Longrightarrow> ch \<notin> set (txs_of ts) \<Longrightarrow> ch \<notin> w_closed w \<Longrightarrow> ended_log (w_log w ch)"
    and "\<And>ch. ch \<in> T \<Longrightarrow> ch \<notin> set (txs_of ts) \<Longrightarrow> ch \<in> w_closed w \<Longrightarrow> open_log (w_log w ch) \<or> ended_log (w_log w ch)"
    and "\<And>ch. ch \<notin> T \<Longrightarrow> w_log w ch = []"
  shows "wire_ok T ts w"
  using assms unfolding wire_ok_def by auto

lemma wire_okD:
  assumes "wire_ok T ts w"
  shows "distinct (ids_of ts)" "distinct (txs_of ts)" "set (txs_of ts) \<subseteq> T"
    and "ch \<in> set (txs_of ts) \<Longrightarrow> open_log (w_log w ch)"
    and "ch \<in> T \<Longrightarrow> ch \<notin> set (txs_of ts) \<Longrightarrow> ch \<notin> w_closed w \<Longrightarrow> ended_log (w_log w ch)"
    and "ch \<in> T \<Longrightarrow> ch \<notin> set (txs_of ts) \<Longrightarrow> ch \<in> w_closed w \<Longrightarrow> open_log (w_log w ch) \<or> ended_log (w_log w ch)"
    and "ch \<notin> T \<Longrightarrow> w_log w ch = []"
  using assms unfolding wire_ok_def by auto

lemma wire_ok_says:
  assumes "wire_ok T ts w" and "ch \<in> set (txs_of ts)" and "says w w' ch"
  shows "wire_ok T ts w'"
proof -
  note D = wire_okD [OF assms(1)]
  have cl: "w_closed w' = w_closed w" and o: "\<And>c. c \<noteq> ch \<Longrightarrow> w_log w' c = w_log w c"
    using assms(3) by (auto simp: says_def)
  obtain evs where "open_log evs" "w_log w' ch = w_log w ch @ evs" using assms(3) by (auto simp: says_def)
  then have "open_log (w_log w' ch)" using D(4) [OF assms(2)] by (simp add: event_simps)
  then have "open_log (w_log w' c)" if "c \<in> set (txs_of ts)" for c using that o D(4) by (cases "c = ch") simp_all
  moreover have "w_log w' c = w_log w c" if "c \<notin> set (txs_of ts)" for c using that o assms(2) by metis
  moreover have "c \<notin> set (txs_of ts)" if "c \<notin> T" for c using that D(3) by blast
  ultimately show ?thesis using D assms(2) by (intro wire_okI) (auto simp: cl)
qed

lemma wire_ok_closed:
  "wire_ok T ts w \<Longrightarrow> wire_ok T ts (w\<lparr>w_closed := w_closed w \<union> C\<rparr>)"
  by (intro wire_okI) (auto dest: wire_okD)

lemma map_of_tx: "map_of ts sid = Some tk \<Longrightarrow> tk_tx tk \<in> set (txs_of ts)"
  by (force simp: txs_of_def dest: map_of_SomeD)

lemma drop_tracker_ids [simp]:
  "ids_of (drop_tracker ts sid) = filter (\<lambda>i. i \<noteq> sid) (ids_of ts)"
  by (induction ts) (auto simp: drop_tracker_def)

lemma drop_tracker_none: "map_of ts sid = None \<Longrightarrow> drop_tracker ts sid = ts"
  by (induction ts) (auto simp: drop_tracker_def split: if_splits)

lemma drop_tracker_map_of: "map_of (drop_tracker ts sid) x = (if x = sid then None else map_of ts x)"
  by (induction ts) (auto simp: drop_tracker_def)

lemma drop_tracker_txs:
  assumes "distinct (ids_of ts)" and "distinct (txs_of ts)" and "map_of ts sid = Some tk"
  shows "set (txs_of (drop_tracker ts sid)) = set (txs_of ts) - {tk_tx tk} \<and> distinct (txs_of (drop_tracker ts sid))"
  using assms
proof (induction ts)
  case Nil
  then show ?case by simp
next
  case (Cons t ts)
  obtain i k where t: "t = (i, k)" by (cases t)
  show ?case
  proof (cases "i = sid")
    case True
    then have "map_of ts sid = None" using Cons.prems(1) t by (auto simp: map_of_eq_None_iff)
    then have "drop_tracker (t # ts) sid = ts" using drop_tracker_none True t by (auto simp: drop_tracker_def)
    then show ?thesis using Cons.prems True t by (auto simp: txs_of_def)
  next
    case False
    then have "map_of ts sid = Some tk" "drop_tracker (t # ts) sid = t # drop_tracker ts sid"
      using Cons.prems t by (auto simp: drop_tracker_def)
    moreover have "set (txs_of (drop_tracker ts sid)) = set (txs_of ts) - {tk_tx tk} \<and> distinct (txs_of (drop_tracker ts sid))"
      using Cons.IH Cons.prems calculation t by (simp add: txs_of_def)
    moreover have "txs_of (t # us) = tk_tx k # txs_of us" for us using t by (simp add: txs_of_def)
    moreover have "tk_tx k \<notin> set (txs_of ts)" using Cons.prems(2) t by (simp add: txs_of_def)
    ultimately show ?thesis using map_of_tx [of ts sid tk] by auto
  qed
qed

lemma wire_ok_ends:
  assumes "wire_ok T ts w" and "map_of ts sid = Some tk" and "ends w w' (tk_tx tk)"
  shows "wire_ok T (drop_tracker ts sid) w'"
proof -
  note D = wire_okD [OF assms(1)]
  note dt = drop_tracker_txs [OF D(1,2) assms(2)]
  have tx: "tk_tx tk \<in> set (txs_of ts)" by (rule map_of_tx [OF assms(2)])
  have cl: "w_closed w' = w_closed w" and o: "\<And>c. c \<noteq> tk_tx tk \<Longrightarrow> w_log w' c = w_log w c"
    using assms(3) by (auto simp: ends_def)
  obtain evs where "w_log w' (tk_tx tk) = w_log w (tk_tx tk) @ evs"
      "if tk_tx tk \<in> w_closed w then open_log evs else ended_log evs"
    using assms(3) by (auto simp: ends_def)
  then have e: "if tk_tx tk \<in> w_closed w then open_log (w_log w' (tk_tx tk)) else ended_log (w_log w' (tk_tx tk))"
    using D(4) [OF tx] by (simp add: event_simps)
  show ?thesis
  proof (rule wire_okI)
    show "distinct (ids_of (drop_tracker ts sid))" using D(1) by simp
    show "distinct (txs_of (drop_tracker ts sid))" "set (txs_of (drop_tracker ts sid)) \<subseteq> T" using dt D(3) by auto
  next
    fix ch
    assume "ch \<in> set (txs_of (drop_tracker ts sid))"
    then show "open_log (w_log w' ch)" using dt D(4) o by auto
  next
    fix ch
    assume a: "ch \<in> T" "ch \<notin> set (txs_of (drop_tracker ts sid))"
    show "ch \<notin> w_closed w' \<Longrightarrow> ended_log (w_log w' ch)"
      using a e dt D(5) o by (cases "ch = tk_tx tk") (auto simp: cl)
    show "ch \<in> w_closed w' \<Longrightarrow> open_log (w_log w' ch) \<or> ended_log (w_log w' ch)"
      using a e dt D(6) [of ch] o by (cases "ch = tk_tx tk") (auto simp: cl)
  next
    fix ch
    assume "ch \<notin> T"
    then show "w_log w' ch = []" using D(3,7) tx o by (metis subsetD)
  qed
qed

text \<open>A tracker whose client is gone is dropped without a word.\<close>

lemma wire_ok_gone:
  assumes "wire_ok T ts w" and "\<forall>tk. map_of ts sid = Some tk \<longrightarrow> tk_tx tk \<in> w_closed w"
  shows "wire_ok T (drop_tracker ts sid) w"
proof (cases "map_of ts sid")
  case None
  then show ?thesis using assms(1) by (simp add: drop_tracker_none)
next
  case (Some tk)
  then have "ends w w (tk_tx tk)" using assms(2) by (auto simp: ends_def event_simps)
  then show ?thesis by (rule wire_ok_ends [OF assms(1) Some])
qed

lemma wire_ok_new:
  assumes "wire_ok T ts w" and "sid \<notin> set (ids_of ts)" and "tk_tx tk \<notin> T"
  shows "wire_ok (insert (tk_tx tk) T) ((sid, tk) # ts) w"
proof -
  note D = wire_okD [OF assms(1)]
  have "tk_tx tk \<notin> set (txs_of ts)" using D(3) assms(3) by blast
  moreover have "txs_of ((sid, tk) # ts) = tk_tx tk # txs_of ts" by (simp add: txs_of_def)
  ultimately show ?thesis using D assms(2,3) by (intro wire_okI) (auto simp: event_simps)
qed

lemma wire_ok_refused:
  assumes "wire_ok T ts w" and "ch \<notin> T" and "ends w w' ch"
  shows "wire_ok (insert ch T) ts w'"
proof -
  note D = wire_okD [OF assms(1)]
  have n: "ch \<notin> set (txs_of ts)" using D(3) assms(2) by blast
  have cl: "w_closed w' = w_closed w" and o: "\<And>c. c \<noteq> ch \<Longrightarrow> w_log w' c = w_log w c"
    using assms(3) by (auto simp: ends_def)
  have e: "if ch \<in> w_closed w then open_log (w_log w' ch) else ended_log (w_log w' ch)"
    using assms(3) D(7) [OF assms(2)] by (auto simp: ends_def)
  have eq: "w_log w' c = w_log w c" if "c \<in> set (txs_of ts)" for c using that n o by metis
  show ?thesis
  proof (rule wire_okI)
    fix c
    assume a: "c \<in> insert ch T" "c \<notin> set (txs_of ts)"
    show "c \<notin> w_closed w' \<Longrightarrow> ended_log (w_log w' c)"
      using a e D(5) o by (cases "c = ch") (auto simp: cl)
    show "c \<in> w_closed w' \<Longrightarrow> open_log (w_log w' c) \<or> ended_log (w_log w' c)"
      using a e D(6) [of c] o by (cases "c = ch") (auto simp: cl)
  qed (use D eq o in auto)
qed

section \<open>The state of the loop\<close>

text \<open>\<open>C\<close> is the set of the sequences the engine has completed but the loop has not told yet.\<close>

definition loop_ok :: "nat set \<Rightarrow> nat set \<Rightarrow> ('t, 'f, 'sp, 'jc, 'pc, 'r, 'lf, 'c, 'js) loop_state \<Rightarrow> bool" where
  "loop_ok C T s \<longleftrightarrow> g_ids_inv (l_engine s) \<and> g_live (l_engine s) = set (ids_of (l_trackers s)) - C
     \<and> wire_ok T (l_trackers s) (l_wire s)"

lemma loop_okD:
  assumes "loop_ok C T s"
  shows "g_ids_inv (l_engine s)" "g_live (l_engine s) = set (ids_of (l_trackers s)) - C"
    "wire_ok T (l_trackers s) (l_wire s)"
  using assms by (simp_all add: loop_ok_def)

text \<open>What an operation leaves alone: the queue and who is listening.\<close>

definition same_outside ::
    "('t, 'f, 'sp, 'jc, 'pc, 'r, 'lf, 'c, 'js) loop_state \<Rightarrow> ('t, 'f, 'sp, 'jc, 'pc, 'r, 'lf, 'c, 'js) loop_state \<Rightarrow> bool" where
  "same_outside s s' \<longleftrightarrow> l_queue s' = l_queue s \<and> w_closed (l_wire s') = w_closed (l_wire s)"

lemma same_outside_trans: "same_outside s s1 \<Longrightarrow> same_outside s1 s2 \<Longrightarrow> same_outside s s2"
  by (simp add: same_outside_def)

lemma engine_abort_sequence_ids:
  "g_ids_inv g \<Longrightarrow> engine_abort_sequence dim g sid = Some (g', found) \<Longrightarrow>
     g_ids_inv g' \<and> g_live g' = g_live g - {sid}"
  by (auto simp: engine_abort_sequence_def dest: abort_sequence_ids)

lemma abort_each_ok:
  assumes "loop_ok C T s"
    and "\<forall>sid \<in> set ids. \<forall>tk. map_of (l_trackers s) sid = Some tk \<longrightarrow> tk_tx tk \<in> w_closed (l_wire s)"
    and "abort_each dim s ids = Some s'"
  shows "loop_ok C T s' \<and> same_outside s s'"
  using assms
proof (induction ids arbitrary: s)
  case Nil
  then show ?case by (simp add: same_outside_def)
next
  case (Cons sid ids)
  obtain g found where g: "engine_abort_sequence dim (l_engine s) sid = Some (g, found)"
      "abort_each dim (s\<lparr>l_engine := g, l_trackers := drop_tracker (l_trackers s) sid\<rparr>) ids = Some s'"
    using Cons.prems(3) by (auto split: option.splits)
  let ?s = "s\<lparr>l_engine := g, l_trackers := drop_tracker (l_trackers s) sid\<rparr>"
  note D = loop_okD [OF Cons.prems(1)]
  have "loop_ok C T ?s"
    using engine_abort_sequence_ids [OF D(1) g(1)] D(2) wire_ok_gone [OF D(3), of sid] Cons.prems(2)
    by (auto simp: loop_ok_def)
  moreover note drop_tracker_map_of [of "l_trackers s" sid]
  ultimately show ?case using Cons.IH [OF _ _ g(2)] Cons.prems(2) by (auto simp: same_outside_def)
qed

lemma set_remdups_sort [simp]: "set (remdups (sort ids)) = set ids"
  by simp

lemma abort_sequences_ok:
  assumes "loop_ok C T s"
    and "\<forall>sid \<in> set ids. \<forall>tk. map_of (l_trackers s) sid = Some tk \<longrightarrow> tk_tx tk \<in> w_closed (l_wire s)"
    and "abort_sequences dim s ids = Some s'"
  shows "loop_ok C T s' \<and> same_outside s s'"
  using abort_each_ok [OF assms(1) _ assms(3) [unfolded abort_sequences_def]] assms(2) by simp

lemma drop_closed_ok:
  assumes "loop_ok C T s" and "drop_closed dim s = Some s'"
  shows "loop_ok C T s' \<and> same_outside s s'"
proof (rule abort_sequences_ok [OF assms(1) _ assms(2) [unfolded drop_closed_def]], intro ballI allI impI)
  fix sid tk
  assume a: "sid \<in> set (map fst (filter (\<lambda>(sid, tk). tk_tx tk \<in> w_closed (l_wire s)) (l_trackers s)))"
    and m: "map_of (l_trackers s) sid = Some tk"
  have d: "distinct (ids_of (l_trackers s))" using loop_okD(3) [OF assms(1)] wire_okD(1) by blast
  obtain k where k: "(sid, k) \<in> set (l_trackers s)" "tk_tx k \<in> w_closed (l_wire s)" using a by auto
  then have "map_of (l_trackers s) sid = Some k" using d by simp
  then show "tk_tx tk \<in> w_closed (l_wire s)" using m k(2) by simp
qed

section \<open>Taking requests\<close>

lemma enqueue_request_ok:
  assumes "loop_ok {} T s" and "rq_tx req \<notin> T" and "enqueue_request L s req = Some s'"
  shows "loop_ok {} (insert (rq_tx req) T) s' \<and> same_outside s s'"
proof (cases "kv_capacity_tokens (l_engine s) < length (rq_prompt req) + rq_max_tokens req")
  case True
  note D = loop_okD [OF assms(1)]
  define w where "w = post (post (l_wire s) (rq_tx req)
      (Ev_error (Too_long (length (rq_prompt req)) (rq_max_tokens req) (kv_capacity_tokens (l_engine s)))))
      (rq_tx req) Ev_stream_end"
  have s': "s' = s\<lparr>l_wire := w\<rparr>" using assms(3) True
    by (simp add: enqueue_request_def Let_def w_def)
  have "ends (l_wire s) w (rq_tx req)" unfolding w_def by (rule ends_post2) (simp add: event_simps)
  then show ?thesis using wire_ok_refused [OF D(3) assms(2)] D
    by (simp add: s' loop_ok_def same_outside_def ends_def)
next
  case False
  note D = loop_okD [OF assms(1)]
  obtain g sid where g: "engine_add_request (l_engine s) (rq_prompt req) (rq_sampling req) (rq_max_tokens req)
      (request_constraint L req) = Some (g, sid)"
      "s' = s\<lparr>l_engine := g, l_trackers := (sid, new_tracker req) # l_trackers s\<rparr>"
    using assms(3) False by (auto simp: enqueue_request_def split: option.splits)
  obtain sc where sc: "add_request_full (g_scheduler (l_engine s)) (rq_prompt req) (rq_sampling req) (rq_max_tokens req)
      (request_constraint L req) = Some (sc, sid)" "g = (l_engine s)\<lparr>g_scheduler := sc\<rparr>"
    using g(1) by (auto simp: engine_add_request_def)
  note a = add_request_ids [OF D(1) sc(1)]
  have "sid \<notin> set (ids_of (l_trackers s))" using a D(2) by simp
  then have "wire_ok (insert (rq_tx req) T) ((sid, new_tracker req) # l_trackers s) (l_wire s)"
    using wire_ok_new [OF D(3), of sid "new_tracker req"] assms(2) by (simp add: new_tracker_def)
  then show ?thesis using a D(2) by (simp add: g(2) sc(2) loop_ok_def same_outside_def)
qed

lemma enqueue_all_ok:
  assumes "loop_ok {} T s" and "distinct (map rq_tx reqs)" and "set (map rq_tx reqs) \<inter> T = {}"
    and "enqueue_all L s reqs = Some s'"
  shows "loop_ok {} (set (map rq_tx reqs) \<union> T) s' \<and> same_outside s s'"
  using assms
proof (induction reqs arbitrary: s T)
  case Nil
  then show ?case by (simp add: same_outside_def)
next
  case (Cons req reqs)
  obtain s1 where s1: "enqueue_request L s req = Some s1" "enqueue_all L s1 reqs = Some s'"
    using Cons.prems(4) by (auto split: option.splits)
  note a = enqueue_request_ok [OF Cons.prems(1) _ s1(1)]
  show ?case using a Cons.IH [of "insert (rq_tx req) T" s1] Cons.prems s1(2) by (auto intro: same_outside_trans)
qed

section \<open>A step's tokens and endings\<close>

lemma set_tracker_ids [simp]: "ids_of (set_tracker ts sid tk) = ids_of ts"
  by (induction ts) (auto simp: set_tracker_def)

lemma set_tracker_map_of:
  "map_of (set_tracker ts sid tk) x = (if x = sid then map_option (\<lambda>_. tk) (map_of ts sid) else map_of ts x)"
  by (induction ts) (auto simp: set_tracker_def)

lemma set_tracker_txs:
  assumes "distinct (ids_of ts)" and "map_of ts sid = Some tk" and "tk_tx tk' = tk_tx tk"
  shows "txs_of (set_tracker ts sid tk') = txs_of ts"
proof -
  have "tk_tx t = tk_tx tk" if "(sid, t) \<in> set ts" for t using that assms(1,2) by simp
  then show ?thesis using assms(3) by (auto simp: txs_of_def set_tracker_def)
qed

lemma wire_ok_set_tracker:
  assumes "wire_ok T ts w" and "map_of ts sid = Some tk" and "tk_tx tk' = tk_tx tk"
  shows "wire_ok T (set_tracker ts sid tk') w"
  using assms(1) set_tracker_txs [OF wire_okD(1) [OF assms(1)] assms(2,3)] unfolding wire_ok_def by simp

lemma send_fails: "send w ch ev = (w', ok) \<Longrightarrow> \<not> ok \<Longrightarrow> ch \<in> w_closed w"
  by (simp add: send_def split: if_splits)

lemma handle_token_disconnected:
  assumes "handle_token L tk w tok = Some h" and "h_disconnected h"
  shows "tk_tx tk \<in> w_closed w"
proof -
  obtain tk1 r where r: "route_token L (tk\<lparr>tk_token_count := tk_token_count tk + 1\<rparr>) (nt_token tok) = (tk1, r)"
    by (metis surj_pair)
  have tx: "tk_tx tk1 = tk_tx tk" using route_token_tx [OF r] by simp
  show ?thesis using assms r tx
    by (auto simp: handle_token_def emit_reasoning_def emit_content_def Let_def
        split: token_route.splits option.splits prod.splits if_splits dest: send_fails)
qed

text \<open>The routing of a step keeps the trackers' sequences and channels.\<close>

definition routed_ok :: "nat set \<Rightarrow> nat list \<Rightarrow> nat set \<Rightarrow> ('f, 'c) routed \<Rightarrow> bool" where
  "routed_ok T ids cl r \<longleftrightarrow> wire_ok T (r_trackers r) (r_wire r) \<and> ids_of (r_trackers r) = ids
     \<and> w_closed (r_wire r) = cl
     \<and> (\<forall>sid \<in> set (r_disconnected r). \<forall>tk. map_of (r_trackers r) sid = Some tk \<longrightarrow> tk_tx tk \<in> cl)"

lemma route_one_ok:
  assumes "routed_ok T ids cl r" and "route_one L r tok = Some r'"
  shows "routed_ok T ids cl r'"
proof (cases "nt_seq_id tok \<in> set (r_stopped r) \<or> map_of (r_trackers r) (nt_seq_id tok) = None")
  case True
  then show ?thesis using assms by (auto simp: route_one_def split: if_splits)
next
  case False
  let ?i = "nt_seq_id tok"
  obtain tk where tk: "map_of (r_trackers r) ?i = Some tk" using False by auto
  obtain h where h: "handle_token L tk (r_wire r) tok = Some h"
      "r' = \<lparr>r_trackers = set_tracker (r_trackers r) ?i (h_tracker h), r_wire = h_wire h,
             r_disconnected = r_disconnected r @ (if h_disconnected h then [?i] else []),
             r_stopped = r_stopped r @ (if h_stopped h then [?i] else [])\<rparr>"
    using assms(2) False tk by (auto simp: route_one_def split: option.splits)
  have w: "wire_ok T (r_trackers r) (r_wire r)" and cl: "w_closed (r_wire r) = cl"
    using assms(1) by (simp_all add: routed_ok_def)
  note sy = handle_token_says [OF h(1)]
  have "wire_ok T (r_trackers r) (h_wire h)" using wire_ok_says [OF w map_of_tx [OF tk]] sy by blast
  from wire_ok_set_tracker [OF this tk conjunct2 [OF sy]]
  have "wire_ok T (r_trackers r') (r_wire r')" by (simp add: h(2))
  moreover have "w_closed (h_wire h) = cl" using sy cl by (simp add: says_def)
  moreover have "tk_tx t \<in> cl" if "sid \<in> set (r_disconnected r')" "map_of (r_trackers r') sid = Some t" for sid t
  proof (cases "sid = ?i")
    case True
    then have "t = h_tracker h" using that(2) h(2) tk by (simp add: set_tracker_map_of)
    moreover have "tk_tx tk \<in> cl"
      using that(1) True h(2) tk assms(1) handle_token_disconnected [OF h(1)] cl
      by (auto simp: routed_ok_def split: if_splits)
    ultimately show ?thesis using sy by simp
  next
    case False
    then show ?thesis using that h(2) assms(1) by (auto simp: routed_ok_def set_tracker_map_of split: if_splits)
  qed
  ultimately show ?thesis using assms(1) h(2) by (simp add: routed_ok_def)
qed

lemma route_all_ok: "routed_ok T ids cl r \<Longrightarrow> route_all L r toks = Some r' \<Longrightarrow> routed_ok T ids cl r'"
proof (induction toks arbitrary: r)
  case Nil
  then show ?case by simp
next
  case (Cons tok toks)
  then obtain r1 where r1: "route_one L r tok = Some r1" "route_all L r1 toks = Some r'"
    by (auto split: option.splits)
  show ?case by (rule Cons.IH [OF route_one_ok [OF Cons.prems(1) r1(1)] r1(2)])
qed

lemma finish_stopped_ok:
  assumes "loop_ok C T s" and "finish_stopped L dim s ids = Some s'"
  shows "loop_ok C T s' \<and> same_outside s s'"
  using assms
proof (induction ids arbitrary: s)
  case Nil
  then show ?case by (simp add: same_outside_def)
next
  case (Cons sid ids)
  show ?case
  proof (cases "map_of (l_trackers s) sid")
    case None
    then show ?thesis using Cons by simp
  next
    case (Some tk)
    define w where "w = finish_tracker tk ''stop'' (flush_thinking (lo_decode L) tk (l_wire s))"
    obtain g found where g: "engine_abort_sequence dim (l_engine s) sid = Some (g, found)"
        "finish_stopped L dim (s\<lparr>l_engine := g, l_trackers := drop_tracker (l_trackers s) sid, l_wire := w\<rparr>) ids = Some s'"
      using Cons.prems(2) Some by (auto simp: w_def split: option.splits)
    let ?s = "s\<lparr>l_engine := g, l_trackers := drop_tracker (l_trackers s) sid, l_wire := w\<rparr>"
    note D = loop_okD [OF Cons.prems(1)]
    have e: "ends (l_wire s) w (tk_tx tk)" unfolding w_def
      by (rule says_ends [OF flush_thinking_says finish_tracker_ends])
    have "loop_ok C T ?s"
      using engine_abort_sequence_ids [OF D(1) g(1)] D(2) wire_ok_ends [OF D(3) Some e] by (auto simp: loop_ok_def)
    then show ?thesis using Cons.IH [OF _ g(2)] e by (auto simp: same_outside_def ends_def)
  qed
qed

text \<open>Ending a list of sequences, each in the same way.\<close>

lemma complete_each_ok:
  "wire_ok T ts w \<Longrightarrow> complete_each L ts w xs = (ts', w') \<Longrightarrow>
     wire_ok T ts' w' \<and> set (ids_of ts') = set (ids_of ts) - fst ` set xs \<and> w_closed w' = w_closed w"
proof (induction xs arbitrary: ts w)
  case Nil
  then show ?case by simp
next
  case (Cons x xs)
  obtain sid reason where x: "x = (sid, reason)" by (cases x)
  show ?case
  proof (cases "map_of ts sid")
    case None
    then have "complete_each L ts w xs = (ts', w')" using Cons.prems(2) x by simp
    moreover have "sid \<notin> set (ids_of ts)" using None by (simp add: map_of_eq_None_iff)
    ultimately show ?thesis using Cons.IH [OF Cons.prems(1)] x by auto
  next
    case (Some tk)
    have e: "ends w (complete_tracker L tk reason w) (tk_tx tk)" by (rule complete_tracker_ends)
    have "complete_each L (drop_tracker ts sid) (complete_tracker L tk reason w) xs = (ts', w')"
      using Cons.prems(2) Some x by simp
    from Cons.IH [OF wire_ok_ends [OF Cons.prems(1) Some e] this] show ?thesis using x e by (auto simp: ends_def)
  qed
qed

lemma fail_each_ok:
  "wire_ok T ts w \<Longrightarrow> fail_each ts w er ids = (ts', w') \<Longrightarrow>
     wire_ok T ts' w' \<and> set (ids_of ts') = set (ids_of ts) - set ids \<and> w_closed w' = w_closed w"
proof (induction ids arbitrary: ts w)
  case Nil
  then show ?case by simp
next
  case (Cons sid ids)
  show ?case
  proof (cases "map_of ts sid")
    case None
    then have "fail_each ts w er ids = (ts', w')" using Cons.prems(2) by simp
    moreover have "sid \<notin> set (ids_of ts)" using None by (simp add: map_of_eq_None_iff)
    ultimately show ?thesis using Cons.IH [OF Cons.prems(1)] by auto
  next
    case (Some tk)
    have e: "ends w (post (post w (tk_tx tk) (Ev_error er)) (tk_tx tk) Ev_stream_end) (tk_tx tk)"
      by (rule ends_post2) (simp add: event_simps)
    have "fail_each (drop_tracker ts sid) (post (post w (tk_tx tk) (Ev_error er)) (tk_tx tk) Ev_stream_end) er ids = (ts', w')"
      using Cons.prems(2) Some by simp
    from Cons.IH [OF wire_ok_ends [OF Cons.prems(1) Some e] this] show ?thesis using e by (auto simp: ends_def)
  qed
qed

lemma unload_each_ok:
  "wire_ok T ts w \<Longrightarrow> wire_ok T [] (unload_each ts w) \<and> w_closed (unload_each ts w) = w_closed w"
proof (induction ts arbitrary: w)
  case Nil
  then show ?case by simp
next
  case (Cons t ts)
  obtain sid tk where t: "t = (sid, tk)" by (cases t)
  have m: "map_of (t # ts) sid = Some tk" using t by simp
  have e: "ends w (post (post w (tk_tx tk) (Ev_error Model_unloaded)) (tk_tx tk) Ev_stream_end) (tk_tx tk)"
    by (rule ends_post2) (simp add: event_simps)
  have "sid \<notin> fst ` set ts" using wire_okD(1) [OF Cons.prems] t by auto
  then have "drop_tracker (t # ts) sid = ts"
    using drop_tracker_none [of ts sid] t by (simp add: drop_tracker_def map_of_eq_None_iff)
  then show ?case using Cons.IH wire_ok_ends [OF Cons.prems m e] t e by (auto simp: ends_def)
qed

section \<open>An iteration\<close>

lemma after_step_ok:
  assumes "loop_ok (fst ` set (so_completed out)) T s" and "after_step L dim s out = Some s'"
  shows "loop_ok {} T s' \<and> same_outside s s'"
proof -
  let ?C = "fst ` set (so_completed out)"
  let ?r = "\<lparr>r_trackers = l_trackers s, r_wire = l_wire s, r_disconnected = [], r_stopped = []\<rparr>"
  obtain r where r: "route_all L ?r (so_new_tokens out) = Some r"
    using assms(2) by (auto simp: after_step_def split: option.splits)
  let ?s0 = "s\<lparr>l_trackers := r_trackers r, l_wire := r_wire r\<rparr>"
  obtain s1 s2 where s12: "abort_sequences dim ?s0 (r_disconnected r) = Some s1"
      "finish_stopped L dim s1 (r_stopped r) = Some s2"
    using assms(2) r by (auto simp: after_step_def split: option.splits)
  obtain ts w where c: "complete_each L (l_trackers s2) (l_wire s2) (so_completed out) = (ts, w)" by (metis surj_pair)
  have s': "s' = s2\<lparr>l_trackers := ts, l_wire := w, l_errors := 0\<rparr>"
    using assms(2) r s12 c by (simp add: after_step_def)
  note D = loop_okD [OF assms(1)]
  have "routed_ok T (ids_of (l_trackers s)) (w_closed (l_wire s)) ?r" using D(3) by (simp add: routed_ok_def)
  from route_all_ok [OF this r] have ro: "routed_ok T (ids_of (l_trackers s)) (w_closed (l_wire s)) r" .
  have "loop_ok ?C T ?s0" using D ro by (simp add: loop_ok_def routed_ok_def)
  from abort_sequences_ok [OF this _ s12(1)] have s1: "loop_ok ?C T s1 \<and> same_outside ?s0 s1"
    using ro by (simp add: routed_ok_def)
  from finish_stopped_ok [OF conjunct1 [OF s1] s12(2)] have s2: "loop_ok ?C T s2 \<and> same_outside s1 s2" .
  note c' = complete_each_ok [OF loop_okD(3) [OF conjunct1 [OF s2]] c]
  have "loop_ok {} T s'" using s2 c' by (auto simp: s' loop_ok_def)
  moreover have "same_outside s s'" using s1 s2 c' ro by (auto simp: s' same_outside_def routed_ok_def)
  ultimately show ?thesis ..
qed

lemma after_failure_ok:
  assumes "loop_ok {} T s" and "after_failure dim s e = Some s'"
  shows "loop_ok {} T s' \<and> same_outside s s'"
proof -
  note D = loop_okD [OF assms(1)]
  obtain g ids where g: "(if max_consecutive_errors \<le> l_errors s + 1 then engine_abort_all dim (l_engine s)
      else abort_running dim (l_engine s)) = Some (g, ids)"
    using assms(2) by (auto simp: after_failure_def Let_def split: option.splits)
  obtain ts w where f: "fail_each (l_trackers s) (l_wire s) (Step_failed e) ids = (ts, w)" by (metis surj_pair)
  have s': "s' = s\<lparr>l_engine := g, l_trackers := ts, l_wire := w, l_errors := l_errors s + 1\<rparr>"
    using assms(2) g f by (simp add: after_failure_def Let_def)
  have "g_ids_inv g \<and> g_live g = g_live (l_engine s) - set ids"
    using g abort_all_ids [OF D(1)] abort_all_running_ids [OF D(1)]
    by (auto simp: engine_abort_all_def abort_running_def split: if_splits)
  then show ?thesis using fail_each_ok [OF D(3) f] D(2) by (auto simp: s' loop_ok_def same_outside_def)
qed

lemma step_loop_ok:
  assumes "loop_ok {} T s" and "step_loop L E ops hash leaving s = Some s'"
  shows "loop_ok {} T s' \<and> l_queue s' = l_queue s"
proof (cases "engine_has_pending_work (l_engine s)")
  case False
  then show ?thesis using assms by (simp add: step_loop_def)
next
  case True
  let ?dim = "t_dim (en_tensors E)"
  obtain g r where g: "engine_step E ops hash (l_engine s) = (g, r)" by (metis surj_pair)
  note D = loop_okD [OF assms(1)]
  note si = engine_step_ids [OF g]
  let ?s = "s\<lparr>l_engine := g, l_wire := (l_wire s)\<lparr>w_closed := w_closed (l_wire s) \<union> leaving\<rparr>\<rparr>"
  have w: "wire_ok T (l_trackers s) (l_wire ?s)" using wire_ok_closed [OF D(3)] by simp
  show ?thesis
  proof (cases r)
    case (Inr out)
    have a: "loop_ok (fst ` set (so_completed out)) T ?s"
      using D si Inr w by (auto simp: loop_ok_def step_ids_def)
    have b: "after_step L ?dim ?s out = Some s'" using assms(2) True g Inr by (simp add: step_loop_def Let_def)
    show ?thesis using after_step_ok [OF a b] by (simp add: same_outside_def)
  next
    case (Inl e)
    then have b: "after_failure ?dim ?s e = Some s'" using assms(2) True g by (cases e) (simp_all add: step_loop_def Let_def)
    have a: "loop_ok {} T ?s" using D si Inl w by (simp add: loop_ok_def step_ids_def)
    show ?thesis using after_failure_ok [OF a b] by (simp add: same_outside_def)
  qed
qed

fun outcome_state :: "'a loop_outcome \<Rightarrow> 'a" where
  "outcome_state (Looping s) = s"
| "outcome_state (Waiting_for_request s) = s"
| "outcome_state (Stopping s) = s"

definition queued :: "('t, 'f, 'sp, 'jc, 'pc, 'r, 'lf, 'c, 'js) loop_state \<Rightarrow> nat list" where
  "queued s = map rq_tx (l_queue s)"

text \<open>
  Between iterations: \<open>T\<close> holds the channels of the requests taken so far, the queue those still
  to be taken.
\<close>

definition loop_inv :: "nat set \<Rightarrow> ('t, 'f, 'sp, 'jc, 'pc, 'r, 'lf, 'c, 'js) loop_state \<Rightarrow> bool" where
  "loop_inv T s \<longleftrightarrow> loop_ok {} T s \<and> distinct (queued s) \<and> set (queued s) \<inter> T = {}"

lemma take_requests_ok:
  assumes "loop_inv T s" and "take_requests L hangup s = Some out"
  shows "\<exists>T'. loop_inv T' (outcome_state out) \<and> T' \<union> set (queued (outcome_state out)) = T \<union> set (queued s)
    \<and> w_closed (l_wire (outcome_state out)) = w_closed (l_wire s)"
proof (cases "engine_has_pending_work (l_engine s)")
  case True
  then obtain s' where s': "enqueue_all L (s\<lparr>l_queue := []\<rparr>) (l_queue s) = Some s'" "out = Looping s'"
    using assms(2) by (auto simp: take_requests_def)
  have "loop_ok {} T (s\<lparr>l_queue := []\<rparr>)" using assms(1) by (simp add: loop_inv_def loop_ok_def)
  from enqueue_all_ok [OF this _ _ s'(1)]
  have "loop_ok {} (set (queued s) \<union> T) s' \<and> same_outside (s\<lparr>l_queue := []\<rparr>) s'"
    using assms(1) by (simp add: loop_inv_def queued_def)
  then show ?thesis unfolding s'(2) outcome_state.simps
    by (intro exI [of _ "set (queued s) \<union> T"]) (auto simp: loop_inv_def queued_def same_outside_def)
next
  case False
  show ?thesis
  proof (cases "l_queue s")
    case Nil
    then show ?thesis using assms False by (auto simp: take_requests_def)
  next
    case (Cons req rest)
    then obtain s' where s': "enqueue_request L (s\<lparr>l_queue := rest\<rparr>) req = Some s'" "out = Looping s'"
      using assms(2) False by (auto simp: take_requests_def)
    have "loop_ok {} T (s\<lparr>l_queue := rest\<rparr>)" using assms(1) by (simp add: loop_inv_def loop_ok_def)
    from enqueue_request_ok [OF this _ s'(1)]
    have "loop_ok {} (insert (rq_tx req) T) s' \<and> same_outside (s\<lparr>l_queue := rest\<rparr>) s'"
      using assms(1) Cons by (simp add: loop_inv_def queued_def)
    then show ?thesis using assms(1) Cons unfolding s'(2) outcome_state.simps
      by (intro exI [of _ "insert (rq_tx req) T"]) (auto simp: loop_inv_def queued_def same_outside_def)
  qed
qed

lemma stop_loop_ok:
  assumes "loop_inv T s"
  shows "wire_ok T [] (l_wire (stop_loop s)) \<and> queued (stop_loop s) = queued s
    \<and> w_closed (l_wire (stop_loop s)) = w_closed (l_wire s)"
  using assms unload_each_ok by (fastforce simp: loop_inv_def loop_ok_def stop_loop_def queued_def)

text \<open>The channels of an input's requests are new.\<close>

definition arrivals :: "('sp, 'js) loop_input \<Rightarrow> nat list" where
  "arrivals inp = map rq_tx (in_requests inp)"

definition outcome_ok ::
    "nat set \<Rightarrow> ('t, 'f, 'sp, 'jc, 'pc, 'r, 'lf, 'c, 'js) loop_state loop_outcome \<Rightarrow> bool" where
  "outcome_ok T out \<longleftrightarrow>
     (case out of
        Stopping s \<Rightarrow> wire_ok T (l_trackers s) (l_wire s) \<and> l_trackers s = [] \<and> set (queued s) \<inter> T = {}
      | _ \<Rightarrow> loop_inv T (outcome_state out))"

lemma stop_loop_trackers [simp]: "l_trackers (stop_loop s) = []"
  by (simp add: stop_loop_def)

lemma outcome_ok_stop: "loop_inv T s \<Longrightarrow> outcome_ok T (Stopping (stop_loop s))"
  using stop_loop_ok [of T s] by (simp add: outcome_ok_def loop_inv_def)

lemma loop_iteration_ok:
  assumes "loop_inv T s" and "distinct (arrivals inp)" and "set (arrivals inp) \<inter> (T \<union> set (queued s)) = {}"
    and "loop_iteration L E ops hash s inp = Some out"
  shows "\<exists>T'. outcome_ok T' out \<and> T' \<union> set (queued (outcome_state out)) = T \<union> set (queued s) \<union> set (arrivals inp)"
proof -
  define s0 where "s0 = s\<lparr>l_queue := l_queue s @ in_requests inp,
    l_wire := (l_wire s)\<lparr>w_closed := w_closed (l_wire s) \<union> in_closed inp\<rparr>\<rparr>"
  have q0: "queued s0 = queued s @ arrivals inp" by (simp add: s0_def queued_def arrivals_def)
  have i0: "loop_inv T s0"
    using assms(1-3) wire_ok_closed q0 by (auto simp: loop_inv_def loop_ok_def s0_def)
  note it = assms(4) [unfolded loop_iteration_def Let_def, folded s0_def]
  show ?thesis
  proof (cases "in_shutdown inp")
    case True
    then have "out = Stopping (stop_loop s0)" using it by simp
    then show ?thesis using outcome_ok_stop [OF i0] stop_loop_ok [OF i0] q0 by (intro exI [of _ T]) auto
  next
    case False
    then obtain o1 where o1: "take_requests L (in_hangup inp) s0 = Some o1" using it by (auto split: option.splits)
    obtain T' where T': "loop_inv T' (outcome_state o1)" "T' \<union> set (queued (outcome_state o1)) = T \<union> set (queued s0)"
      using take_requests_ok [OF i0 o1] by blast
    show ?thesis
    proof (cases o1)
      case (Stopping s1)
      then have "out = Stopping (stop_loop s1)" using it False o1 by simp
      moreover have "loop_inv T' s1" using T'(1) Stopping by simp
      ultimately show ?thesis using outcome_ok_stop [of T' s1] stop_loop_ok [of T' s1] T'(2) Stopping q0
        by (intro exI [of _ T']) auto
    next
      case (Waiting_for_request s1)
      then have "out = Waiting_for_request s1" using it False o1 by simp
      then show ?thesis using T' Waiting_for_request q0 by (intro exI [of _ T']) (auto simp: outcome_ok_def)
    next
      case (Looping s1)
      then obtain s2 s3 where s23: "drop_closed (t_dim (en_tensors E)) s1 = Some s2" "step_loop L E ops hash (in_leaving inp) s2 = Some s3"
          "out = Looping s3"
        using it False o1 by (auto split: option.splits)
      have l1: "loop_ok {} T' s1" using T'(1) Looping by (simp add: loop_inv_def)
      note l2 = drop_closed_ok [OF l1 s23(1)]
      note l3 = step_loop_ok [OF conjunct1 [OF l2] s23(2)]
      have "queued s3 = queued s1" using l2 l3 by (simp add: same_outside_def queued_def)
      then show ?thesis using T' Looping q0 l3 s23(3)
        by (intro exI [of _ T']) (auto simp: outcome_ok_def loop_inv_def)
    qed
  qed
qed

abbreviation stopped_run :: "'a loop_outcome \<Rightarrow> bool" where
  "stopped_run out \<equiv> (\<exists>s. out = Stopping s)"

lemma loop_run_ok:
  assumes "loop_inv T s" and "distinct (concat (map arrivals inps))"
    and "set (concat (map arrivals inps)) \<inter> (T \<union> set (queued s)) = {}"
    and "loop_run L E ops hash blocked s inps = Some out" and "\<not> stopped_run out"
  shows "\<exists>T'. loop_inv T' (outcome_state out)
    \<and> T' \<union> set (queued (outcome_state out)) = T \<union> set (queued s) \<union> set (concat (map arrivals inps))"
  using assms
proof (induction inps arbitrary: T s blocked)
  case Nil
  then show ?case by (cases blocked) auto
next
  case (Cons inp inps)
  define inp' where "inp' = (if blocked then inp\<lparr>in_shutdown := False\<rparr> else inp)"
  have arr: "arrivals inp' = arrivals inp" by (simp add: inp'_def arrivals_def)
  obtain o1 where o1: "loop_iteration L E ops hash s inp' = Some o1"
    using Cons.prems(4) unfolding inp'_def by (auto split: option.splits)
  have fr: "distinct (arrivals inp')" "set (arrivals inp') \<inter> (T \<union> set (queued s)) = {}"
    using Cons.prems(2,3) arr by auto
  obtain T1 where T1: "outcome_ok T1 o1"
      "T1 \<union> set (queued (outcome_state o1)) = T \<union> set (queued s) \<union> set (arrivals inp)"
    using loop_iteration_ok [OF Cons.prems(1) fr o1] arr by auto
  obtain s1 b where s1: "outcome_state o1 = s1" "loop_run L E ops hash b s1 inps = Some out" "loop_inv T1 s1"
    using Cons.prems(4,5) o1 T1(1) unfolding inp'_def by (cases o1) (auto simp: outcome_ok_def)
  have d: "distinct (concat (map arrivals inps))" using Cons.prems(2) by simp
  have "set (concat (map arrivals inps)) \<inter> (T1 \<union> set (queued s1)) = {}"
    using T1(2) Cons.prems(2,3) s1(1) by auto
  from Cons.IH [OF s1(3) d this s1(2) Cons.prems(5)] T1(2) s1(1) show ?case by auto
qed

section \<open>The protocol\<close>

definition fresh_engine :: "('t, 'f, 'sp, 'jc, 'pc, 'r) engine \<Rightarrow> bool" where
  "fresh_engine g \<longleftrightarrow> running (g_scheduler g) = [] \<and> waiting (g_scheduler g) = [] \<and> running_index (g_scheduler g) = Map.empty"

lemma engine_new_fresh: "fresh_engine (engine_new ops ids rec layers ms mt B as xs ys)"
  by (simp add: fresh_engine_def engine_new_def scheduler_new_def)

lemma with_draft_fresh: "fresh_engine g \<Longrightarrow> fresh_engine (with_draft_model rec g as)"
  by (simp add: fresh_engine_def with_draft_model_def set_draft_allocators_def)

lemma loop_start_ok: "fresh_engine g \<Longrightarrow> loop_inv {} (loop_start g c)"
  by (auto simp: loop_inv_def loop_ok_def loop_start_def fresh_engine_def ids_inv_def live_ids_def index_ok_def
      wire_ok_def txs_of_def queued_def)

lemma loop_run_start:
  assumes "fresh_engine g" and "distinct (concat (map arrivals inps))"
    and "loop_run L E ops hash False (loop_start g c) inps = Some out" and "\<not> stopped_run out"
  shows "\<exists>T'. loop_inv T' (outcome_state out)
    \<and> T' \<union> set (queued (outcome_state out)) = set (concat (map arrivals inps))"
  using loop_run_ok [OF loop_start_ok [OF assms(1)] assms(2) _ assms(3,4)]
  by (simp add: loop_start_def queued_def)

text \<open>A channel of a request: waiting, being written, or over.\<close>

definition channel_ok :: "('t, 'f, 'sp, 'jc, 'pc, 'r, 'lf, 'c, 'js) loop_state \<Rightarrow> nat \<Rightarrow> bool" where
  "channel_ok s ch \<longleftrightarrow>
     (let evs = w_log (l_wire s) ch
      in if ch \<in> set (queued s) then evs = []
         else if ch \<in> set (txs_of (l_trackers s)) then open_log evs
         else if ch \<in> w_closed (l_wire s) then open_log evs \<or> ended_log evs
         else ended_log evs)"

section \<open>A small instance\<close>

text \<open>A model of one layer that always answers token 65; its tokens are single characters.\<close>

definition demo_env :: "(nat list, unit, unit, unit, unit, unit, unit) engine_env" where
  "demo_env =
     \<lparr>en_tensors = list_tensors, en_quant = no_quant, en_fzero = (),
      en_forward = (\<lambda>ph toks pos counts css mem. (Inr (map (\<lambda>_. ()) counts), css, mem)),
      en_greedy = (\<lambda>toks pos cs mem. (Inr [], cs, mem)), en_draft = (\<lambda>toks pos cs mem. (Inr [], cs, mem)),
      en_clock = (\<lambda>k. Some 1), en_rate = (\<lambda>n t. ()), en_no_gain = (\<lambda>r b. True),
      en_vocab = (\<lambda>row. Some 100), en_sample = (\<lambda>row sp toks counts allow. Inr (65, ())),
      en_allowed = (\<lambda>c n. None), en_advance = (\<lambda>c t. None), en_plain_greedy = (\<lambda>sp. False)\<rparr>"

text \<open>A cache that keeps nothing.\<close>

definition no_cache :: "(unit, 'k, 'e) lru_ops" where
  "no_cache =
     \<lparr>lru_new = (\<lambda>n. ()), lru_peek = (\<lambda>c k. None), lru_get = (\<lambda>c k. (c, None)), lru_contains = (\<lambda>c k. False),
      lru_push = (\<lambda>c k e. (c, None)), lru_pop = (\<lambda>c. (c, None))\<rparr>"

definition demo_loop_env :: "(unit, unit, unit, unit, unit) loop_env" where
  "demo_loop_env =
     loop_env_new (\<lambda>ids. Some (map ucast ids)) (\<lambda>ids. Some (map ucast ids)) (\<lambda>_. None) (\<lambda>_. None) None
       no_cache (\<lambda>_. None)"

definition demo_engine :: "(nat list, unit, unit, unit, unit, unit) engine" where
  "demo_engine = engine_new no_cache [2] False 1 4 100 (\<lambda>_. contig_budget_new 0) [small_pool] [] []"

definition demo_request :: "nat \<Rightarrow> nat \<Rightarrow> (unit, unit) incoming_request" where
  "demo_request ch n =
     \<lparr>rq_prompt = [1], rq_sampling = (), rq_max_tokens = n, rq_tx = ch, rq_enable_thinking = False,
      rq_thinking_open = False, rq_stop_strings = [], rq_json = None\<rparr>"

definition demo_input :: "(unit, unit) incoming_request list \<Rightarrow> (unit, unit) loop_input" where
  "demo_input rqs = \<lparr>in_shutdown = False, in_requests = rqs, in_hangup = False, in_closed = {}, in_leaving = {}\<rparr>"

definition demo_run where
  "demo_run inps = loop_run demo_loop_env demo_env no_cache (\<lambda>_ _. 0) False (loop_start demo_engine ()) inps"


text \<open>The run of two requests, the second of which does not fit the pool.\<close>

definition demo_inputs :: "(unit, unit) loop_input list" where
  "demo_inputs = [demo_input [demo_request 5 2, demo_request 6 100], demo_input []]"

lemma demo_fresh: "fresh_engine demo_engine"
  by (simp add: demo_engine_def engine_new_fresh)

lemma demo_distinct: "distinct (concat (map arrivals (demo_inputs @ [demo_input []])))"
  "distinct (concat (map arrivals demo_inputs))" "concat (map arrivals demo_inputs) = [5, 6]"
  by (simp_all add: demo_inputs_def demo_input_def demo_request_def arrivals_def)

lemma demo_logs:
  "case demo_run demo_inputs of None \<Rightarrow> False | Some out \<Rightarrow> \<not> stopped_run out
     \<and> w_log (l_wire (outcome_state out)) 6 = [Ev_error (Too_long 1 100 8), Ev_stream_end]
     \<and> w_log (l_wire (outcome_state out)) 5 =
         [Ev_token [65] [], Ev_token [65] [], Ev_finish ''length'' 2, Ev_stream_end]"
proof -
  have "case demo_run demo_inputs of Some (Looping s) \<Rightarrow>
      w_log (l_wire s) 6 = [Ev_error (Too_long 1 100 8), Ev_stream_end]
      \<and> w_log (l_wire s) 5 = [Ev_token [65] [], Ev_token [65] [], Ev_finish ''length'' 2, Ev_stream_end] | _ \<Rightarrow> False"
    by code_simp
  then show ?thesis by (auto split: option.splits loop_outcome.splits)
qed

lemma demo_running:
  "case demo_run [demo_input [demo_request 5 2, demo_request 6 100]] of Some (Looping s) \<Rightarrow>
     ids_of (l_trackers s) = [0] \<and> queued s = [6]
     \<and> (case loop_iteration demo_loop_env demo_env no_cache (\<lambda>_ _. 0) s (demo_input []\<lparr>in_shutdown := True\<rparr>) of
          Some (Stopping s') \<Rightarrow> w_log (l_wire s') 5 = [Ev_token [65] [], Ev_error Model_unloaded, Ev_stream_end]
            \<and> queued s' = [6] \<and> w_closed (l_wire s') = {}
        | _ \<Rightarrow> False)
   | _ \<Rightarrow> False"
  by code_simp

section \<open>Properties\<close>

text \<open>C25. Between iterations the replies being written are exactly the sequences the engine still has,
  one for each: whatever completed, failed, was aborted or hung up, nothing is left behind on
  either side.
\<close>

theorem replies_follow_sequences:
  assumes "fresh_engine g" and "distinct (concat (map arrivals inps))"
    and "loop_run L E ops hash False (loop_start g c) inps = Some out" and "\<not> stopped_run out"
  shows "distinct (ids_of (l_trackers (outcome_state out)))
    \<and> set (ids_of (l_trackers (outcome_state out))) = g_live (l_engine (outcome_state out))"
proof -
  obtain T where "loop_inv T (outcome_state out)" using loop_run_start [OF assms] by blast
  then show ?thesis by (auto simp: loop_inv_def loop_ok_def dest: wire_okD(1))
qed

theorem replies_follow_sequences_witness:
  "case demo_run demo_inputs of None \<Rightarrow> False
   | Some out \<Rightarrow> distinct (ids_of (l_trackers (outcome_state out)))
       \<and> set (ids_of (l_trackers (outcome_state out))) = g_live (l_engine (outcome_state out))"
proof -
  obtain out where out: "demo_run demo_inputs = Some out" "\<not> stopped_run out"
    using demo_logs by (auto split: option.splits)
  from replies_follow_sequences [OF demo_fresh demo_distinct(2) out(1) [unfolded demo_run_def] out(2)]
  show ?thesis by (simp add: out(1))
qed

text \<open>C24. The protocol of a response channel, at any moment of any run: the request waits and nothing was
  sent; or its reply is being written and only text was sent; or it is over, and what was sent is
  text, then one ending (a finish or an error), then the end of the stream, and nothing more,
  unless the client left.  Channels of no request stay silent.
\<close>

theorem one_ending_per_request:
  assumes "fresh_engine g" and "distinct (concat (map arrivals inps))"
    and "loop_run L E ops hash False (loop_start g c) inps = Some out" and "\<not> stopped_run out"
  shows "(\<forall>ch \<in> set (concat (map arrivals inps)). channel_ok (outcome_state out) ch)
    \<and> (\<forall>ch. ch \<notin> set (concat (map arrivals inps)) \<longrightarrow> w_log (l_wire (outcome_state out)) ch = [])"
proof (intro conjI ballI allI impI)
  let ?s = "outcome_state out"
  obtain T where T: "loop_inv T ?s" "T \<union> set (queued ?s) = set (concat (map arrivals inps))"
    using loop_run_start [OF assms] by blast
  then have w: "wire_ok T (l_trackers ?s) (l_wire ?s)" and d: "set (queued ?s) \<inter> T = {}"
    by (simp_all add: loop_inv_def loop_ok_def)
  note D = wire_okD [OF w]
  show "channel_ok ?s ch" if "ch \<in> set (concat (map arrivals inps))" for ch
  proof -
    have "ch \<in> T \<union> set (queued ?s)" using that T(2) by simp
    moreover have "w_log (l_wire ?s) ch = []" if "ch \<in> set (queued ?s)" using that d D(7) by blast
    ultimately show ?thesis using D(4-6) [of ch] by (auto simp: channel_ok_def)
  qed
  show "w_log (l_wire ?s) ch = []" if "ch \<notin> set (concat (map arrivals inps))" for ch
    using that T(2) D(7) by blast
qed

theorem one_ending_per_request_witness:
  "case demo_run demo_inputs of None \<Rightarrow> False
   | Some out \<Rightarrow> channel_ok (outcome_state out) 5 \<and> channel_ok (outcome_state out) 6
       \<and> w_log (l_wire (outcome_state out)) 7 = []"
proof -
  obtain out where out: "demo_run demo_inputs = Some out" "\<not> stopped_run out"
    using demo_logs by (auto split: option.splits)
  from one_ending_per_request [OF demo_fresh demo_distinct(2) out(1) [unfolded demo_run_def] out(2)]
  show ?thesis by (simp add: out(1) demo_distinct(3))
qed

text \<open>C26. When the loop stops, for a shutdown or because nobody can send any more, every request it had
  taken has had its ending, unless the client left.
\<close>

theorem stopping_ends_every_reply:
  assumes "fresh_engine g" and "distinct (concat (map arrivals (inps @ [inp])))"
    and "loop_run L E ops hash False (loop_start g c) inps = Some out" and "\<not> stopped_run out"
    and "loop_iteration L E ops hash (outcome_state out) inp = Some (Stopping s)"
  shows "\<forall>ch \<in> set (concat (map arrivals (inps @ [inp]))). ch \<notin> set (queued s) \<longrightarrow> ch \<notin> w_closed (l_wire s) \<longrightarrow>
           ended_log (w_log (l_wire s) ch)"
proof -
  have d: "distinct (concat (map arrivals inps))" "distinct (arrivals inp)"
      "set (arrivals inp) \<inter> set (concat (map arrivals inps)) = {}"
    using assms(2) by auto
  obtain T where T: "loop_inv T (outcome_state out)" "T \<union> set (queued (outcome_state out)) = set (concat (map arrivals inps))"
    using loop_run_start [OF assms(1) d(1) assms(3,4)] by blast
  have "set (arrivals inp) \<inter> (T \<union> set (queued (outcome_state out))) = {}" using d(3) T(2) by simp
  from loop_iteration_ok [OF T(1) d(2) this assms(5)]
  obtain T' where T': "outcome_ok T' (Stopping s)"
      "T' \<union> set (queued s) = T \<union> set (queued (outcome_state out)) \<union> set (arrivals inp)"
    by auto
  have "wire_ok T' [] (l_wire s)" "set (queued s) \<inter> T' = {}" using T'(1) by (simp_all add: outcome_ok_def) metis
  then show ?thesis using wire_okD(5) [of T' "[]" "l_wire s"] T'(2) T(2) by (auto simp: txs_of_def)
qed

theorem stopping_ends_every_reply_witness:
  "case demo_run [demo_input [demo_request 5 2, demo_request 6 100]] of Some (Looping s) \<Rightarrow>
     (case loop_iteration demo_loop_env demo_env no_cache (\<lambda>_ _. 0) s (demo_input []\<lparr>in_shutdown := True\<rparr>) of
        Some (Stopping s') \<Rightarrow> ended_log (w_log (l_wire s') 5) | _ \<Rightarrow> False)
   | _ \<Rightarrow> False"
proof -
  let ?inps = "[demo_input [demo_request 5 2, demo_request 6 100]]" and ?inp = "demo_input []\<lparr>in_shutdown := True\<rparr>"
  obtain s where s: "demo_run ?inps = Some (Looping s)"
    using demo_running by (cases "demo_run ?inps") (auto split: loop_outcome.splits)
  obtain out where out: "loop_iteration demo_loop_env demo_env no_cache (\<lambda>_ _. 0) s ?inp = Some out"
    using demo_running s by (cases "loop_iteration demo_loop_env demo_env no_cache (\<lambda>_ _. 0) s ?inp") auto
  obtain s' where s': "out = Stopping s'" "queued s' = [6]" "w_closed (l_wire s') = {}"
    using demo_running s out by (cases out) auto
  note r = s out [unfolded s'(1)] s'(2,3)
  have d: "distinct (concat (map arrivals (?inps @ [?inp])))" "concat (map arrivals (?inps @ [?inp])) = [5, 6]"
    by (simp_all add: demo_input_def demo_request_def arrivals_def)
  have "ended_log (w_log (l_wire s') 5)"
    using stopping_ends_every_reply [OF demo_fresh d(1) r(1) [unfolded demo_run_def], of s'] r(2-4)
    unfolding d(2) by simp
  then show ?thesis by (simp add: r)
qed

end
