(* ===== verification/Gguf_Header.thy ===== *)
theory Gguf_Header
  imports Utf8
begin

text \<open>
  The GGUF header reader of \<open>src/common/gguf_header.rs\<close>.  A reader takes the cursor and gives an
  error or a value and the cursor after it.  A signed or floating-point value is kept as its bits,
  which is what the source reads it from; the maps of candle's \<open>Content\<close> are maps.
\<close>

section \<open>Data\<close>

datatype magic = Gguf_v1 | Gguf_v2 | Gguf_v3

datatype gguf_err =
    Truncated nat nat
  | Not_gguf
  | Bad_version u32
  | Too_deep
  | Bad_tag u32
  | In_metadata "u8 list" gguf_err
  | Too_many_dims "u8 list" u32
  | Zero_alignment

datatype gguf_value =
    V_u8 u8 | V_i8 u8 | V_u16 u16 | V_i16 u16 | V_u32 u32 | V_i32 u32 | V_f32 u32
  | V_bool bool | V_string "u8 list" | V_array "gguf_value list" | V_u64 u64 | V_i64 u64 | V_f64 u64

datatype ggml_dtype =
    F32 | F16 | Q4_0 | Q4_1 | Q5_0 | Q5_1 | Q8_0 | Q8_1 | Q2K | Q3K | Q4K | Q5K | Q6K | Q8K | BF16

definition candle_dtype :: "u32 \<Rightarrow> ggml_dtype option" where
  "candle_dtype t = map_of
     [(0, F32), (1, F16), (2, Q4_0), (3, Q4_1), (6, Q5_0), (7, Q5_1), (8, Q8_0), (9, Q8_1), (10, Q2K),
      (11, Q3K), (12, Q4K), (13, Q5K), (14, Q6K), (15, Q8K), (30, BF16)] t"

definition type_names :: "(u32 \<times> string) list" where
  "type_names =
     [(0, ''F32''), (1, ''F16''), (2, ''Q4_0''), (3, ''Q4_1''), (6, ''Q5_0''), (7, ''Q5_1''), (8, ''Q8_0''),
      (9, ''Q8_1''), (10, ''Q2_K''), (11, ''Q3_K''), (12, ''Q4_K''), (13, ''Q5_K''), (14, ''Q6_K''),
      (15, ''Q8_K''), (30, ''BF16''), (16, ''IQ2_XXS''), (17, ''IQ2_XS''), (18, ''IQ3_XXS''),
      (19, ''IQ1_S''), (20, ''IQ4_NL''), (21, ''IQ3_S''), (22, ''IQ2_S''), (23, ''IQ4_XS''),
      (29, ''IQ1_M''), (34, ''TQ1_0''), (35, ''TQ2_0''), (39, ''MXFP4'')]"

text \<open>The decimal digits \<open>format!\<close> writes.\<close>

fun show_nat :: "nat \<Rightarrow> string" where
  "show_nat n = (if n < 10 then [char_of (48 + n)] else show_nat (n div 10) @ [char_of (48 + n mod 10)])"

declare show_nat.simps [simp del]

definition type_name :: "u32 \<Rightarrow> string" where
  "type_name t = (case map_of type_names t of Some n \<Rightarrow> n | None \<Rightarrow> ''type '' @ show_nat (unat t))"

record tensor_entry =
  t_name :: "u8 list"
  type_id :: u32
  dims :: "nat list"
  t_offset :: u64

record tensor_info =
  ggml_dtype :: ggml_dtype
  shape :: "nat list"
  i_offset :: u64

record content =
  h_magic :: magic
  metadata :: "u8 list \<rightharpoonup> gguf_value"
  tensor_infos :: "u8 list \<rightharpoonup> tensor_info"
  tensor_data_offset :: nat

record gguf_header =
  content :: content
  tensors :: "tensor_entry list"

definition default_alignment :: nat where "default_alignment = 32"

definition max_dims :: u32 where "max_dims = 4"

definition max_nesting :: nat where "max_nesting = 64"

section \<open>The cursor\<close>

record cursor =
  c_bytes :: "u8 list"
  c_pos :: nat
  c_magic :: magic

type_synonym 'a reader = "cursor \<Rightarrow> gguf_err + 'a \<times> cursor"

text \<open>The source's question mark, and \<open>Ok\<close>.\<close>

definition rbind :: "'a reader \<Rightarrow> ('a \<Rightarrow> 'b reader) \<Rightarrow> 'b reader" where
  "rbind r f c = (case r c of Inl e \<Rightarrow> Inl e | Inr (x, c') \<Rightarrow> f x c')"

definition rpure :: "'a \<Rightarrow> 'a reader" where
  "rpure x c = Inr (x, c)"

definition rfail :: "gguf_err \<Rightarrow> 'a reader" where
  "rfail e c = Inl e"

definition rmap :: "('a \<Rightarrow> 'b) \<Rightarrow> 'a reader \<Rightarrow> 'b reader" where
  "rmap f r = rbind r (\<lambda>x. rpure (f x))"

definition rtake :: "nat \<Rightarrow> u8 list reader" where
  "rtake n c =
     (if c_pos c + n \<le> usize_max \<and> c_pos c + n \<le> length (c_bytes c)
      then Inr (take n (drop (c_pos c) (c_bytes c)), c\<lparr>c_pos := c_pos c + n\<rparr>)
      else Inl (Truncated (c_pos c) (length (c_bytes c))))"

text \<open>\<open>from_le_bytes\<close>.\<close>

fun le_nat :: "u8 list \<Rightarrow> nat" where
  "le_nat [] = 0"
| "le_nat (b # bs) = unat b + 256 * le_nat bs"

definition read_u8 :: "u8 reader" where "read_u8 = rmap (\<lambda>bs. bs ! 0) (rtake 1)"

definition read_u16 :: "u16 reader" where "read_u16 = rmap (\<lambda>bs. of_nat (le_nat bs)) (rtake 2)"

definition read_u32 :: "u32 reader" where "read_u32 = rmap (\<lambda>bs. of_nat (le_nat bs)) (rtake 4)"

definition read_u64 :: "u64 reader" where "read_u64 = rmap (\<lambda>bs. of_nat (le_nat bs)) (rtake 8)"

definition read_len :: "nat reader" where
  "read_len c =
     (case c_magic c of
        Gguf_v1 \<Rightarrow> rmap unat read_u32 c
      | Gguf_v2 \<Rightarrow> rmap unat read_u64 c
      | Gguf_v3 \<Rightarrow> rmap unat read_u64 c)"

definition read_string :: "u8 list reader" where
  "read_string = rbind read_len (\<lambda>n. rmap utf8_lossy (rtake n))"

text \<open>The values whose tag says everything.\<close>

definition read_scalar :: "u32 \<Rightarrow> gguf_value reader option" where
  "read_scalar tag = map_of
     [(0, rmap V_u8 read_u8), (1, rmap V_i8 read_u8), (2, rmap V_u16 read_u16), (3, rmap V_i16 read_u16),
      (4, rmap V_u32 read_u32), (5, rmap V_i32 read_u32), (6, rmap V_f32 read_u32),
      (7, rmap (\<lambda>b. V_bool (b \<noteq> 0)) read_u8), (8, rmap V_string read_string),
      (10, rmap V_u64 read_u64), (11, rmap V_i64 read_u64), (12, rmap V_f64 read_u64)] tag"

text \<open>\<open>value\<close>, and the loop over the elements of an array.\<close>

function (sequential) read_value :: "u32 \<Rightarrow> nat \<Rightarrow> gguf_value reader"
  and read_values :: "u32 \<Rightarrow> nat \<Rightarrow> nat \<Rightarrow> gguf_value list reader" where
  "read_value tag depth c =
     (case read_scalar tag of
        Some r \<Rightarrow> r c
      | None \<Rightarrow>
          if tag = 9 then
            (if max_nesting \<le> depth then Inl Too_deep
             else
               (case read_u32 c of
                  Inl e \<Rightarrow> Inl e
                | Inr (el, c1) \<Rightarrow>
                    (case read_len c1 of
                       Inl e \<Rightarrow> Inl e
                     | Inr (n, c2) \<Rightarrow>
                         (case read_values el (depth + 1) n c2 of
                            Inl e \<Rightarrow> Inl e
                          | Inr (vs, c3) \<Rightarrow> Inr (V_array vs, c3)))))
          else Inl (Bad_tag tag))"
| "read_values tag depth 0 c = Inr ([], c)"
| "read_values tag depth (Suc n) c =
     (case read_value tag depth c of
        Inl e \<Rightarrow> Inl e
      | Inr (v, c1) \<Rightarrow>
          (case read_values tag depth n c1 of
             Inl e \<Rightarrow> Inl e
           | Inr (vs, c2) \<Rightarrow> Inr (v # vs, c2)))"
  by pat_completeness auto

termination
  by (relation "inv_image (less_than <*lex*> less_than)
        (\<lambda>x. case x of Inl (_, d, _) \<Rightarrow> (65 - d, 0) | Inr (_, d, n, _) \<Rightarrow> (65 - d, n + 1))")
    (auto simp: max_nesting_def)

declare read_value.simps [simp del]

section \<open>The header\<close>

text \<open>One metadata entry, one tensor entry, and the loops over them.\<close>

definition read_entry :: "(u8 list \<times> gguf_value) reader" where
  "read_entry = rbind read_string (\<lambda>key. rbind read_u32 (\<lambda>tag c.
     case read_value tag 0 c of
       Inl e \<Rightarrow> Inl (In_metadata key e)
     | Inr (v, c') \<Rightarrow> Inr ((key, v), c')))"

fun read_many :: "nat \<Rightarrow> 'a reader \<Rightarrow> 'a list reader" where
  "read_many 0 r = rpure []"
| "read_many (Suc n) r = rbind r (\<lambda>x. rbind (read_many n r) (\<lambda>xs. rpure (x # xs)))"

definition read_tensor :: "tensor_entry reader" where
  "read_tensor = rbind read_string (\<lambda>name. rbind read_u32 (\<lambda>n_dims.
     if max_dims < n_dims then rfail (Too_many_dims name n_dims)
     else rbind (read_many (unat n_dims) read_len) (\<lambda>ds. rbind read_u32 (\<lambda>ty. rbind read_u64 (\<lambda>off.
       rpure \<lparr>t_name = name, type_id = ty, dims = rev ds, t_offset = off\<rparr>)))))"

definition insert_info :: "tensor_entry \<Rightarrow> (u8 list \<rightharpoonup> tensor_info) \<Rightarrow> (u8 list \<rightharpoonup> tensor_info)" where
  "insert_info t m =
     (case candle_dtype (type_id t) of
        Some dt \<Rightarrow> m(t_name t \<mapsto> \<lparr>ggml_dtype = dt, shape = dims t, i_offset = t_offset t\<rparr>)
      | None \<Rightarrow> m)"

definition alignment_of :: "gguf_value option \<Rightarrow> nat" where
  "alignment_of v =
     (case v of
        Some (V_u8 w) \<Rightarrow> unat w
      | Some (V_u16 w) \<Rightarrow> unat w
      | Some (V_u32 w) \<Rightarrow> unat w
      | Some (V_i8 w) \<Rightarrow> if 0 \<le> sint w then unat w else default_alignment
      | Some (V_i16 w) \<Rightarrow> if 0 \<le> sint w then unat w else default_alignment
      | Some (V_i32 w) \<Rightarrow> if 0 \<le> sint w then unat w else default_alignment
      | _ \<Rightarrow> default_alignment)"

abbreviation gguf_ascii :: "u8 list" where
  "gguf_ascii \<equiv> [0x47, 0x47, 0x55, 0x46]"

abbreviation alignment_key :: "u8 list" where
  "alignment_key \<equiv> map of_char ''general.alignment''"

definition read_magic :: "magic reader" where
  "read_magic = rbind (rtake 4) (\<lambda>bs.
     if bs \<noteq> gguf_ascii then rfail Not_gguf
     else rbind read_u32 (\<lambda>v.
       if v = 1 then rpure Gguf_v1 else if v = 2 then rpure Gguf_v2 else if v = 3 then rpure Gguf_v3
       else rfail (Bad_version v)))"

definition parse_body :: "(nat \<times> (u8 list \<times> gguf_value) list \<times> tensor_entry list) reader" where
  "parse_body = rbind read_len (\<lambda>n_tensors. rbind read_len (\<lambda>n_kv.
     rbind (read_many n_kv read_entry) (\<lambda>kvs. rbind (read_many n_tensors read_tensor) (\<lambda>ts c.
       Inr ((c_pos c, kvs, ts), c)))))"

definition gguf_parse :: "u8 list \<Rightarrow> gguf_err + gguf_header" where
  "gguf_parse bs =
     (case read_magic \<lparr>c_bytes = bs, c_pos = 0, c_magic = Gguf_v3\<rparr> of
        Inl e \<Rightarrow> Inl e
      | Inr (mg, c) \<Rightarrow>
          (case parse_body (c\<lparr>c_magic := mg\<rparr>) of
             Inl e \<Rightarrow> Inl e
           | Inr ((pos, kvs, ts), _) \<Rightarrow>
               let meta = fold (\<lambda>(k, v) m. m(k \<mapsto> v)) kvs Map.empty;
                   al = alignment_of (meta alignment_key)
               in if al = 0 then Inl Zero_alignment
                  else Inr \<lparr>content = \<lparr>h_magic = mg, metadata = meta,
                              tensor_infos = fold insert_info ts Map.empty,
                              tensor_data_offset = div_ceil pos al * al\<rparr>,
                            tensors = ts\<rparr>))"

section \<open>Writing a header\<close>

text \<open>The format's writer, the reference the reader is held against.\<close>

fun nat_le :: "nat \<Rightarrow> nat \<Rightarrow> u8 list" where
  "nat_le 0 n = []"
| "nat_le (Suc k) n = of_nat (n mod 256) # nat_le k (n div 256)"

definition put_len :: "magic \<Rightarrow> nat \<Rightarrow> u8 list" where
  "put_len mg n = nat_le (if mg = Gguf_v1 then 4 else 8) n"

definition put_string :: "magic \<Rightarrow> u8 list \<Rightarrow> u8 list" where
  "put_string mg s = put_len mg (length s) @ s"

fun tag_of :: "gguf_value \<Rightarrow> nat" where
  "tag_of (V_u8 _) = 0" | "tag_of (V_i8 _) = 1" | "tag_of (V_u16 _) = 2" | "tag_of (V_i16 _) = 3"
| "tag_of (V_u32 _) = 4" | "tag_of (V_i32 _) = 5" | "tag_of (V_f32 _) = 6" | "tag_of (V_bool _) = 7"
| "tag_of (V_string _) = 8" | "tag_of (V_array _) = 9" | "tag_of (V_u64 _) = 10" | "tag_of (V_i64 _) = 11"
| "tag_of (V_f64 _) = 12"

text \<open>The elements of an array share a tag; an empty one states any.\<close>

definition elem_tag :: "gguf_value list \<Rightarrow> nat" where
  "elem_tag vs = (case vs of [] \<Rightarrow> 0 | v # _ \<Rightarrow> tag_of v)"

fun put_value :: "magic \<Rightarrow> gguf_value \<Rightarrow> u8 list" where
  "put_value mg (V_u8 w) = [w]" | "put_value mg (V_i8 w) = [w]"
| "put_value mg (V_u16 w) = nat_le 2 (unat w)" | "put_value mg (V_i16 w) = nat_le 2 (unat w)"
| "put_value mg (V_u32 w) = nat_le 4 (unat w)" | "put_value mg (V_i32 w) = nat_le 4 (unat w)"
| "put_value mg (V_f32 w) = nat_le 4 (unat w)"
| "put_value mg (V_bool b) = [if b then 1 else 0]"
| "put_value mg (V_string s) = put_string mg s"
| "put_value mg (V_array vs) = nat_le 4 (elem_tag vs) @ put_len mg (length vs) @ concat (map (put_value mg) vs)"
| "put_value mg (V_u64 w) = nat_le 8 (unat w)" | "put_value mg (V_i64 w) = nat_le 8 (unat w)"
| "put_value mg (V_f64 w) = nat_le 8 (unat w)"

definition len_ok :: "magic \<Rightarrow> nat \<Rightarrow> bool" where
  "len_ok mg n \<longleftrightarrow> n < (if mg = Gguf_v1 then 2 ^ 32 else 2 ^ 64)"

text \<open>What a value must be to be written: UTF-8, arrays of one tag, and nesting below the cap.\<close>

fun value_ok :: "magic \<Rightarrow> nat \<Rightarrow> gguf_value \<Rightarrow> bool" where
  "value_ok mg d (V_string s) \<longleftrightarrow> is_utf8 s \<and> len_ok mg (length s)"
| "value_ok mg d (V_array vs) \<longleftrightarrow> d < max_nesting \<and> len_ok mg (length vs)
     \<and> (\<forall>v\<in>set vs. tag_of v = elem_tag vs \<and> value_ok mg (d + 1) v)"
| "value_ok mg d _ \<longleftrightarrow> True"

definition put_entry :: "magic \<Rightarrow> u8 list \<times> gguf_value \<Rightarrow> u8 list" where
  "put_entry mg kv = put_string mg (fst kv) @ nat_le 4 (tag_of (snd kv)) @ put_value mg (snd kv)"

definition put_tensor :: "magic \<Rightarrow> tensor_entry \<Rightarrow> u8 list" where
  "put_tensor mg t = put_string mg (t_name t) @ nat_le 4 (length (dims t)) @ concat (map (put_len mg) (rev (dims t)))
     @ nat_le 4 (unat (type_id t)) @ nat_le 8 (unat (t_offset t))"

fun magic_version :: "magic \<Rightarrow> nat" where
  "magic_version Gguf_v1 = 1" | "magic_version Gguf_v2 = 2" | "magic_version Gguf_v3 = 3"

definition put_header :: "magic \<Rightarrow> (u8 list \<times> gguf_value) list \<Rightarrow> tensor_entry list \<Rightarrow> u8 list" where
  "put_header mg kvs ts = gguf_ascii @ nat_le 4 (magic_version mg) @ put_len mg (length ts) @ put_len mg (length kvs)
     @ concat (map (put_entry mg) kvs) @ concat (map (put_tensor mg) ts)"

definition header_ok :: "magic \<Rightarrow> (u8 list \<times> gguf_value) list \<Rightarrow> tensor_entry list \<Rightarrow> bool" where
  "header_ok mg kvs ts \<longleftrightarrow> len_ok mg (length kvs) \<and> len_ok mg (length ts)
     \<and> (\<forall>(k, v) \<in> set kvs. is_utf8 k \<and> len_ok mg (length k) \<and> value_ok mg 0 v)
     \<and> (\<forall>t \<in> set ts. is_utf8 (t_name t) \<and> len_ok mg (length (t_name t)) \<and> length (dims t) \<le> 4
          \<and> (\<forall>d \<in> set (dims t). len_ok mg d))"

section \<open>Reading back\<close>

lemma le_nat_le: "le_nat (nat_le k n) = n mod 256 ^ k"
proof (induction k arbitrary: n)
  case (Suc k)
  have "unat (of_nat (n mod 256) :: u8) = n mod 256" by (simp add: unat_of_nat)
  then show ?case using Suc by (simp add: mod_mult2_eq)
qed simp

lemma length_nat_le [simp]: "length (nat_le k n) = k"
  by (induction k arbitrary: n) auto

text \<open>A reader reads a value back from the bytes that write it, wherever they stand.\<close>

definition reads :: "magic \<Rightarrow> 'a reader \<Rightarrow> u8 list \<Rightarrow> 'a \<Rightarrow> bool" where
  "reads mg r bs x \<longleftrightarrow>
     (\<forall>pre post. length (pre @ bs @ post) \<le> usize_max \<longrightarrow>
        r \<lparr>c_bytes = pre @ bs @ post, c_pos = length pre, c_magic = mg\<rparr> =
          Inr (x, \<lparr>c_bytes = pre @ bs @ post, c_pos = length pre + length bs, c_magic = mg\<rparr>))"

lemma reads_take: "length bs = n \<Longrightarrow> reads mg (rtake n) bs bs"
  by (auto simp: reads_def rtake_def)

lemma reads_pure [simp]: "reads mg (rpure x) [] x"
  by (simp add: reads_def rpure_def)

lemma reads_bind:
  assumes "reads mg r bs x" and "reads mg (f x) bs' y"
  shows "reads mg (rbind r f) (bs @ bs') y"
  unfolding reads_def
proof (intro allI impI)
  fix pre post :: "u8 list"
  assume l: "length (pre @ (bs @ bs') @ post) \<le> usize_max"
  have "r \<lparr>c_bytes = pre @ bs @ (bs' @ post), c_pos = length pre, c_magic = mg\<rparr> =
      Inr (x, \<lparr>c_bytes = pre @ bs @ (bs' @ post), c_pos = length pre + length bs, c_magic = mg\<rparr>)"
    using assms(1) l unfolding reads_def by auto
  moreover have "f x \<lparr>c_bytes = (pre @ bs) @ bs' @ post, c_pos = length (pre @ bs), c_magic = mg\<rparr> =
      Inr (y, \<lparr>c_bytes = (pre @ bs) @ bs' @ post, c_pos = length (pre @ bs) + length bs', c_magic = mg\<rparr>)"
    using assms(2) l unfolding reads_def by (metis append.assoc)
  ultimately show "rbind r f \<lparr>c_bytes = pre @ (bs @ bs') @ post, c_pos = length pre, c_magic = mg\<rparr> =
      Inr (y, \<lparr>c_bytes = pre @ (bs @ bs') @ post, c_pos = length pre + length (bs @ bs'), c_magic = mg\<rparr>)"
    by (simp add: rbind_def add.assoc)
qed

lemma reads_map: "reads mg r bs x \<Longrightarrow> reads mg (rmap f r) bs (f x)"
  using reads_bind [of mg r bs x "\<lambda>x. rpure (f x)" "[]" "f x"] by (simp add: rmap_def reads_pure)

lemma reads_u8: "reads mg read_u8 [w] w"
  using reads_map [OF reads_take [of "[w]" 1 mg], of "\<lambda>bs. bs ! 0"] by (simp add: read_u8_def)

lemma le_word:
  fixes w :: "'a :: len word"
  assumes "(256 :: nat) ^ k = 2 ^ LENGTH('a)"
  shows "of_nat (le_nat (nat_le k (unat w))) = w"
proof -
  have "unat w < 256 ^ k" unfolding assms by (rule unsigned_less)
  then have "le_nat (nat_le k (unat w)) = unat w" by (simp add: le_nat_le)
  then show ?thesis by simp
qed

lemma reads_le:
  fixes w :: "'a :: len word"
  assumes "(256 :: nat) ^ k = 2 ^ LENGTH('a)"
  shows "reads mg (rmap (\<lambda>bs. of_nat (le_nat bs)) (rtake k)) (nat_le k (unat w)) w"
  using reads_map [OF reads_take [of "nat_le k (unat w)" k mg], of "\<lambda>bs. of_nat (le_nat bs) :: 'a word"]
    le_word [OF assms, of w] by simp

lemma reads_u16: "reads mg read_u16 (nat_le 2 (unat w)) w"
  unfolding read_u16_def by (rule reads_le) simp

lemma reads_u32: "reads mg read_u32 (nat_le 4 (unat w)) w"
  unfolding read_u32_def by (rule reads_le) simp

lemma reads_u64: "reads mg read_u64 (nat_le 8 (unat w)) w"
  unfolding read_u64_def by (rule reads_le) simp

lemma reads_tag: "n < 2 ^ 32 \<Longrightarrow> reads mg read_u32 (nat_le 4 n) (of_nat n)"
  using reads_u32 [of mg "of_nat n"] by (simp add: unat_of_nat)

lemma reads_len:
  assumes "len_ok mg n"
  shows "reads mg read_len (put_len mg n) n"
proof (cases "mg = Gguf_v1")
  case True
  then have "reads mg (rmap unat read_u32) (nat_le 4 n) n"
    using reads_map [OF reads_u32 [of mg "of_nat n"], of unat] assms by (simp add: len_ok_def unat_of_nat)
  then show ?thesis using True by (simp add: reads_def read_len_def put_len_def)
next
  case False
  then have "reads mg (rmap unat read_u64) (nat_le 8 n) n"
    using reads_map [OF reads_u64 [of mg "of_nat n"], of unat] assms by (simp add: len_ok_def unat_of_nat)
  then show ?thesis using False by (cases mg) (simp_all add: reads_def read_len_def put_len_def)
qed

lemma reads_string:
  assumes "is_utf8 s" and "len_ok mg (length s)"
  shows "reads mg read_string (put_string mg s) s"
  unfolding read_string_def put_string_def
  using reads_bind [OF reads_len [OF assms(2)], of "\<lambda>n. rmap utf8_lossy (rtake n)" s s]
    reads_map [OF reads_take [of s "length s" mg], of utf8_lossy] assms(1)
  by (simp add: is_utf8_def)

lemma reads_scalar:
  assumes "reads mg r bs v" and "read_scalar tag = Some r"
  shows "reads mg (read_value tag d) bs v"
  using assms by (simp add: reads_def read_value.simps [abs_def])

lemma reads_array:
  assumes "d < max_nesting" and "len_ok mg (length vs)"
    and "reads mg (read_values (of_nat (elem_tag vs)) (d + 1) (length vs)) (concat (map (put_value mg) vs)) vs"
    and "elem_tag vs < 2 ^ 32"
  shows "reads mg (read_value 9 d) (put_value mg (V_array vs)) (V_array vs)"
proof -
  have "reads mg (rbind read_u32 (\<lambda>el. rbind read_len (\<lambda>n. rbind (read_values el (d + 1) n) (\<lambda>vs. rpure (V_array vs)))))
      (nat_le 4 (elem_tag vs) @ put_len mg (length vs) @ concat (map (put_value mg) vs) @ []) (V_array vs)"
    by (intro reads_bind [OF reads_tag [OF assms(4)]] reads_bind [OF reads_len [OF assms(2)]] reads_bind [OF assms(3)] reads_pure)
  moreover have "read_scalar 9 = None" by (simp add: read_scalar_def)
  then have "read_value 9 d = rbind read_u32 (\<lambda>el. rbind read_len (\<lambda>n. rbind (read_values el (d + 1) n) (\<lambda>vs. rpure (V_array vs))))"
    using assms(1) by (intro ext) (simp add: read_value.simps rbind_def rpure_def split: sum.splits prod.splits)
  ultimately show ?thesis by simp
qed

lemma reads_values:
  assumes "\<And>v. v \<in> set vs \<Longrightarrow> reads mg (read_value tag d) (put_value mg v) v"
  shows "reads mg (read_values tag d (length vs)) (concat (map (put_value mg) vs)) vs"
  using assms
proof (induction vs)
  case Nil
  then show ?case by (simp add: reads_def)
next
  case (Cons v vs)
  have "reads mg (rbind (read_value tag d) (\<lambda>v. rbind (read_values tag d (length vs)) (\<lambda>vs. rpure (v # vs))))
      (put_value mg v @ concat (map (put_value mg) vs) @ []) (v # vs)"
    using Cons by (intro reads_bind reads_pure) auto
  moreover have "read_values tag d (length (v # vs)) =
      rbind (read_value tag d) (\<lambda>v. rbind (read_values tag d (length vs)) (\<lambda>vs. rpure (v # vs)))"
    by (intro ext) (simp add: rbind_def rpure_def split: sum.splits prod.splits)
  ultimately show ?case by simp
qed

lemma tag_small: "tag_of v < 2 ^ 32" "elem_tag vs < 2 ^ 32"
proof -
  show "tag_of v < 2 ^ 32" for v by (cases v) simp_all
  then show "elem_tag vs < 2 ^ 32" by (simp add: elem_tag_def split: list.splits)
qed

lemma reads_value: "value_ok mg d v \<Longrightarrow> reads mg (read_value (of_nat (tag_of v)) d) (put_value mg v) v"
proof (induction v arbitrary: d)
  case (V_array vs)
  have "reads mg (read_value (of_nat (elem_tag vs)) (d + 1)) (put_value mg v) v" if v: "v \<in> set vs" for v
  proof -
    have "tag_of v = elem_tag vs" "value_ok mg (d + 1) v" using V_array.prems v by auto
    then show ?thesis using V_array.IH [OF v, of "d + 1"] by simp
  qed
  then show ?case
    using reads_array [OF _ _ reads_values [of vs mg "of_nat (elem_tag vs)" "d + 1"] tag_small(2)] V_array.prems by simp
next
  case (V_string s)
  then have "reads mg (rmap V_string read_string) (put_string mg s) (V_string s)"
    by (intro reads_map reads_string) simp_all
  then show ?case by (intro reads_scalar) (auto simp: read_scalar_def)
next
  case (V_bool b)
  have "reads mg (rmap (\<lambda>b. V_bool (b \<noteq> 0)) read_u8) [if b then 1 else 0] (V_bool b)"
    using reads_map [OF reads_u8 [of mg "if b then 1 else 0"], of "\<lambda>b. V_bool (b \<noteq> 0)"] by (cases b) simp_all
  then show ?case by (intro reads_scalar) (auto simp: read_scalar_def)
qed (auto intro!: reads_scalar reads_map reads_u8 reads_u16 reads_u32 reads_u64 simp: read_scalar_def)

lemma reads_many:
  assumes "\<And>x. x \<in> set xs \<Longrightarrow> reads mg r (put x) x"
  shows "reads mg (read_many (length xs) r) (concat (map put xs)) xs"
  using assms
proof (induction xs)
  case (Cons x xs)
  have "reads mg (rbind r (\<lambda>x. rbind (read_many (length xs) r) (\<lambda>xs. rpure (x # xs))))
      (put x @ concat (map put xs) @ []) (x # xs)"
    using Cons by (intro reads_bind reads_pure) auto
  then show ?case by simp
qed (simp add: reads_pure)

section \<open>The header round trip\<close>

lemma reads_entry:
  assumes "is_utf8 k" and "len_ok mg (length k)" and "value_ok mg 0 v"
  shows "reads mg read_entry (put_entry mg (k, v)) (k, v)"
proof -
  let ?f = "\<lambda>key tag c. case read_value tag 0 c of Inl e \<Rightarrow> Inl (In_metadata key e) | Inr (v, c') \<Rightarrow> Inr ((key, v), c')"
  have "reads mg (?f k (of_nat (tag_of v))) (put_value mg v) (k, v)"
    using reads_value [OF assms(3)] by (simp add: reads_def)
  then show ?thesis
    unfolding read_entry_def put_entry_def fst_conv snd_conv
    by (intro reads_bind [OF reads_string [OF assms(1,2)]] reads_bind [OF reads_tag [OF tag_small(1)]])
qed

lemma reads_tensor:
  assumes "is_utf8 (t_name t)" and "len_ok mg (length (t_name t))" and "length (dims t) \<le> 4"
    and "\<forall>d\<in>set (dims t). len_ok mg d"
  shows "reads mg read_tensor (put_tensor mg t) t"
proof -
  let ?n = "of_nat (length (dims t)) :: u32"
  have n: "unat ?n = length (rev (dims t))" "\<not> max_dims < ?n"
    using assms(3) by (simp_all add: unat_of_nat word_less_nat_alt max_dims_def)
  have d: "reads mg (read_many (length (rev (dims t))) read_len) (concat (map (put_len mg) (rev (dims t)))) (rev (dims t))"
    using assms(4) by (intro reads_many reads_len) simp
  have "reads mg (rbind (read_many (unat ?n) read_len) (\<lambda>ds. rbind read_u32 (\<lambda>ty. rbind read_u64 (\<lambda>off.
       rpure \<lparr>t_name = t_name t, type_id = ty, dims = rev ds, t_offset = off\<rparr>))))
      (concat (map (put_len mg) (rev (dims t))) @ nat_le 4 (unat (type_id t)) @ nat_le 8 (unat (t_offset t)) @ []) t"
    unfolding n(1) by (intro reads_bind [OF d] reads_bind [OF reads_u32] reads_bind [OF reads_u64]) (simp add: reads_def rpure_def)
  moreover have "length (dims t) < 2 ^ 32" using assms(3) by simp
  ultimately show ?thesis
    unfolding read_tensor_def put_tensor_def
    by (intro reads_bind [OF reads_string [OF assms(1,2)]] reads_bind [OF reads_tag]) (simp_all add: n(2))
qed

lemma reads_magic: "reads Gguf_v3 read_magic (gguf_ascii @ nat_le 4 (magic_version mg)) mg"
proof -
  have "magic_version mg < 2 ^ 32" by (cases mg) simp_all
  from reads_tag [OF this] have "reads Gguf_v3 (rbind read_u32 (\<lambda>v.
       if v = 1 then rpure Gguf_v1 else if v = 2 then rpure Gguf_v2 else if v = 3 then rpure Gguf_v3
       else rfail (Bad_version v))) (nat_le 4 (magic_version mg) @ []) mg"
    by (rule reads_bind) (cases mg; simp)
  then show ?thesis
    unfolding read_magic_def by (intro reads_bind [OF reads_take]) simp_all
qed

definition parse_entries :: "nat \<Rightarrow> nat \<Rightarrow> ((u8 list \<times> gguf_value) list \<times> tensor_entry list) reader" where
  "parse_entries n_tensors n_kv =
     rbind (read_many n_kv read_entry) (\<lambda>kvs. rbind (read_many n_tensors read_tensor) (\<lambda>ts. rpure (kvs, ts)))"

lemma parse_body_alt:
  "parse_body c = (case rbind read_len (\<lambda>n_tensors. rbind read_len (\<lambda>n_kv. parse_entries n_tensors n_kv)) c of
     Inl e \<Rightarrow> Inl e | Inr ((kvs, ts), c') \<Rightarrow> Inr ((c_pos c', kvs, ts), c'))"
  by (simp add: parse_body_def parse_entries_def rbind_def rpure_def split: sum.splits prod.splits)

lemma parse_body_reads:
  assumes "header_ok mg kvs ts" and "length (pre @ bs @ post) \<le> usize_max"
    and "bs = put_len mg (length ts) @ put_len mg (length kvs) @ concat (map (put_entry mg) kvs) @ concat (map (put_tensor mg) ts)"
  shows "parse_body \<lparr>c_bytes = pre @ bs @ post, c_pos = length pre, c_magic = mg\<rparr> =
    Inr ((length pre + length bs, kvs, ts), \<lparr>c_bytes = pre @ bs @ post, c_pos = length pre + length bs, c_magic = mg\<rparr>)"
proof -
  have l: "len_ok mg (length ts)" "len_ok mg (length kvs)" using assms(1) by (simp_all add: header_ok_def)
  have kv: "reads mg (read_many (length kvs) read_entry) (concat (map (put_entry mg) kvs)) kvs"
    using assms(1) reads_entry by (intro reads_many) (auto simp: header_ok_def)
  have t: "reads mg (read_many (length ts) read_tensor) (concat (map (put_tensor mg) ts)) ts"
    using assms(1) by (intro reads_many reads_tensor) (auto simp: header_ok_def)
  have "reads mg (parse_entries (length ts) (length kvs))
      (concat (map (put_entry mg) kvs) @ concat (map (put_tensor mg) ts) @ []) (kvs, ts)"
    unfolding parse_entries_def by (rule reads_bind [OF kv reads_bind [OF t reads_pure]])
  then have "reads mg (rbind read_len (\<lambda>n_tensors. rbind read_len (\<lambda>n_kv. parse_entries n_tensors n_kv))) bs (kvs, ts)"
    unfolding assms(3) by (intro reads_bind [OF reads_len] l) simp
  then show ?thesis using assms(2) unfolding parse_body_alt reads_def by simp
qed

text \<open>C12. A header of any version, written as the format prescribes and followed by any data, parses back to
  itself: the metadata, the tensor table in order with the dimensions outermost first, and the
  data offset, the end of the table rounded up to the stated alignment.\<close>

theorem gguf_round_trip:
  assumes "header_ok mg kvs ts" and "length (put_header mg kvs ts @ rest) \<le> usize_max"
    and "alignment_of (map_of (rev kvs) alignment_key) = al" and "0 < al"
  shows "\<exists>h. gguf_parse (put_header mg kvs ts @ rest) = Inr h \<and> tensors h = ts \<and> h_magic (content h) = mg
    \<and> metadata (content h) = map_of (rev kvs)
    \<and> al dvd tensor_data_offset (content h)
    \<and> length (put_header mg kvs ts) \<le> tensor_data_offset (content h)
    \<and> tensor_data_offset (content h) < length (put_header mg kvs ts) + al"
proof -
  let ?pre = "gguf_ascii @ nat_le 4 (magic_version mg)"
  let ?bs = "put_len mg (length ts) @ put_len mg (length kvs) @ concat (map (put_entry mg) kvs) @ concat (map (put_tensor mg) ts)"
  let ?all = "?pre @ ?bs @ rest"
  have all: "put_header mg kvs ts @ rest = ?all" "length (put_header mg kvs ts) = length ?pre + length ?bs"
    by (simp_all add: put_header_def)
  have l: "length ([] @ ?pre @ (?bs @ rest)) \<le> usize_max" using assms(2) unfolding all by simp
  have m: "read_magic \<lparr>c_bytes = ?all, c_pos = 0, c_magic = Gguf_v3\<rparr> =
      Inr (mg, \<lparr>c_bytes = ?all, c_pos = length ?pre, c_magic = Gguf_v3\<rparr>)"
    using reads_magic [of mg, unfolded reads_def, rule_format, OF l] by simp
  have b: "parse_body \<lparr>c_bytes = ?all, c_pos = length ?pre, c_magic = mg\<rparr> =
      Inr ((length ?pre + length ?bs, kvs, ts), \<lparr>c_bytes = ?all, c_pos = length ?pre + length ?bs, c_magic = mg\<rparr>)"
    using parse_body_reads [OF assms(1) _ refl, of ?pre rest] l by simp
  have "fold (\<lambda>(k, v) m. m(k \<mapsto> v)) kvs m0 = m0 ++ map_of (rev kvs)" for m0
    by (induction kvs arbitrary: m0) (auto simp: map_add_def fun_eq_iff split: option.splits)
  then have f: "fold (\<lambda>(k, v) m. m(k \<mapsto> v)) kvs Map.empty = map_of (rev kvs)" by simp
  show ?thesis
    unfolding all
    using m b f assms(3,4) div_ceil_bounds [OF assms(4), of "length ?pre + length ?bs"]
    by (simp add: gguf_parse_def Let_def)
qed

definition tiny_kvs :: "(u8 list \<times> gguf_value) list" where
  "tiny_kvs = [(alignment_key, V_u8 16)]"

definition tiny_tensors :: "tensor_entry list" where
  "tiny_tensors = [\<lparr>t_name = map of_char ''w'', type_id = 20, dims = [2, 32], t_offset = 0\<rparr>]"

lemma tiny_ok: "header_ok Gguf_v3 tiny_kvs tiny_tensors"
proof -
  have "is_utf8 alignment_key" "is_utf8 (map of_char ''w'')" by (rule ascii_utf8, simp)+
  then show ?thesis by (simp add: header_ok_def len_ok_def tiny_kvs_def tiny_tensors_def)
qed

theorem gguf_round_trip_witness:
  "\<exists>h. gguf_parse (put_header Gguf_v3 tiny_kvs tiny_tensors @ [1, 2, 3]) = Inr h \<and> tensors h = tiny_tensors
    \<and> 16 dvd tensor_data_offset (content h)"
proof -
  have "length (put_header Gguf_v3 tiny_kvs tiny_tensors @ [1, 2, 3]) \<le> usize_max"
    by (simp add: put_header_def put_entry_def put_tensor_def put_string_def put_len_def tiny_kvs_def tiny_tensors_def usize_max_def)
  moreover have "alignment_of (map_of (rev tiny_kvs) alignment_key) = 16" by (simp add: tiny_kvs_def alignment_of_def)
  ultimately show ?thesis using gguf_round_trip [OF tiny_ok, of "[1, 2, 3]" 16] by auto
qed

section \<open>Truncated headers\<close>

text \<open>A reader that succeeds reads the same from longer bytes, and never past the end.\<close>

definition stable :: "'a reader \<Rightarrow> bool" where
  "stable r \<longleftrightarrow> (\<forall>c x v c'. r c = Inr (v, c') \<longrightarrow> length (c_bytes c @ x) \<le> usize_max \<longrightarrow>
     r (c\<lparr>c_bytes := c_bytes c @ x\<rparr>) = Inr (v, c'\<lparr>c_bytes := c_bytes c @ x\<rparr>)
     \<and> c_bytes c' = c_bytes c \<and> (c_pos c \<le> length (c_bytes c) \<longrightarrow> c_pos c' \<le> length (c_bytes c)))"

lemma stableD:
  assumes "stable r" and "r c = Inr (v, c')" and "length (c_bytes c @ x) \<le> usize_max"
  shows "r (c\<lparr>c_bytes := c_bytes c @ x\<rparr>) = Inr (v, c'\<lparr>c_bytes := c_bytes c @ x\<rparr>)"
    and "c_bytes c' = c_bytes c" and "c_pos c \<le> length (c_bytes c) \<Longrightarrow> c_pos c' \<le> length (c_bytes c)"
  using assms unfolding stable_def by blast+

lemma stable_take: "stable (rtake n)"
  by (auto simp: stable_def rtake_def split: if_splits)

lemma stable_pure: "stable (rpure x)"
  by (simp add: stable_def rpure_def)

lemma stable_fail: "stable (rfail e)"
  by (simp add: stable_def rfail_def)

lemma stable_bind:
  assumes "stable r" and "\<And>x. stable (f x)"
  shows "stable (rbind r f)"
  unfolding stable_def
proof (intro allI impI)
  fix c x v c'
  assume r: "rbind r f c = Inr (v, c')" and l: "length (c_bytes c @ x) \<le> usize_max"
  then obtain y c1 where y: "r c = Inr (y, c1)" "f y c1 = Inr (v, c')" by (auto simp: rbind_def split: sum.splits)
  note s1 = stableD [OF assms(1) y(1) l]
  have l1: "length (c_bytes c1 @ x) \<le> usize_max" using l s1(2) by simp
  note s2 = stableD [OF assms(2) y(2) l1]
  show "rbind r f (c\<lparr>c_bytes := c_bytes c @ x\<rparr>) = Inr (v, c'\<lparr>c_bytes := c_bytes c @ x\<rparr>)
      \<and> c_bytes c' = c_bytes c \<and> (c_pos c \<le> length (c_bytes c) \<longrightarrow> c_pos c' \<le> length (c_bytes c))"
    using s1 s2 by (simp add: rbind_def)
qed

lemma stable_map: "stable r \<Longrightarrow> stable (rmap f r)"
  unfolding rmap_def by (intro stable_bind stable_pure)

lemma stable_words: "stable read_u8" "stable read_u16" "stable read_u32" "stable read_u64"
  unfolding read_u8_def read_u16_def read_u32_def read_u64_def by (intro stable_map stable_take)+

lemma stable_len: "stable read_len"
  using stable_map [OF stable_words(3), of unat] stable_map [OF stable_words(4), of unat]
  unfolding stable_def read_len_def by (auto split: magic.splits)

lemma stable_string: "stable read_string"
  unfolding read_string_def by (intro stable_bind stable_len stable_map stable_take)

lemma stable_scalar: "read_scalar tag = Some r \<Longrightarrow> stable r"
  using stable_words stable_string by (auto simp: read_scalar_def split: if_splits intro!: stable_map)

lemma read_value_array:
  "read_scalar tag = None \<Longrightarrow> read_value tag d =
     (if tag = 9 then
        if max_nesting \<le> d then rfail Too_deep
        else rbind read_u32 (\<lambda>el. rbind read_len (\<lambda>n. rbind (read_values el (d + 1) n) (\<lambda>vs. rpure (V_array vs))))
      else rfail (Bad_tag tag))"
  by (intro ext) (simp add: read_value.simps rbind_def rpure_def rfail_def split: sum.splits prod.splits)

lemma read_values_Suc:
  "read_values tag d (Suc n) = rbind (read_value tag d) (\<lambda>v. rbind (read_values tag d n) (\<lambda>vs. rpure (v # vs)))"
  by (intro ext) (simp add: rbind_def rpure_def split: sum.splits prod.splits)

lemma stable_values: "(\<And>tag. stable (read_value tag d)) \<Longrightarrow> stable (read_values tag d n)"
proof (induction n)
  case 0
  have "read_values tag d 0 = rpure []" by (intro ext) (simp add: rpure_def)
  then show ?case by (simp add: stable_pure)
next
  case (Suc n)
  then show ?case unfolding read_values_Suc by (intro stable_bind stable_pure) auto
qed

lemma stable_value: "stable (read_value tag d)"
proof (induction "64 - d" arbitrary: tag d rule: less_induct)
  case less
  show ?case
  proof (cases "read_scalar tag")
    case (Some r)
    then have "read_value tag d = r" by (intro ext) (simp add: read_value.simps)
    then show ?thesis using stable_scalar [OF Some] by simp
  next
    case None
    have "stable (read_values el (d + 1) n)" if "\<not> max_nesting \<le> d" for el n
      using less that by (intro stable_values) (simp add: max_nesting_def)
    then show ?thesis
      unfolding read_value_array [OF None] using stable_words stable_len
      by (auto intro!: stable_bind stable_pure stable_fail)
  qed
qed

lemma stable_many: "stable r \<Longrightarrow> stable (read_many n r)"
  by (induction n) (auto intro!: stable_bind stable_pure)

lemma stable_entry: "stable read_entry"
proof -
  have "stable (\<lambda>c. case read_value tag 0 c of Inl e \<Rightarrow> Inl (In_metadata key e) | Inr (v, c') \<Rightarrow> Inr ((key, v), c'))" for tag key
    using stable_value [of tag 0] unfolding stable_def by (auto split: sum.splits)
  then show ?thesis unfolding read_entry_def by (intro stable_bind stable_string stable_words)
qed

lemma stable_tensor: "stable read_tensor"
  unfolding read_tensor_def
  using stable_bind stable_string stable_words stable_many stable_len stable_pure stable_fail
  by (intro stable_bind stable_string stable_words) (auto intro!: stable_bind stable_many)

lemma stable_magic: "stable read_magic"
  unfolding read_magic_def
  using stable_words by (auto intro!: stable_bind stable_take stable_pure stable_fail)

lemma stable_body: "stable parse_body"
proof -
  have "stable (rbind read_len (\<lambda>n_tensors. rbind read_len (\<lambda>n_kv. parse_entries n_tensors n_kv)))"
    unfolding parse_entries_def by (intro stable_bind stable_len stable_many stable_entry stable_tensor stable_pure)
  then show ?thesis unfolding stable_def parse_body_alt by (auto split: sum.splits)
qed

text \<open>C13. A header cut short anywhere is refused: no proper prefix of a well-formed header parses.\<close>

theorem gguf_truncated_refused:
  assumes "header_ok mg kvs ts" and "put_header mg kvs ts = p @ x" and "x \<noteq> []"
    and "length (put_header mg kvs ts) \<le> usize_max"
  shows "\<exists>e. gguf_parse p = Inl e"
proof (rule ccontr)
  assume "\<not> ?thesis"
  then obtain h where h: "gguf_parse p = Inr h" by (cases "gguf_parse p") auto
  let ?c = "\<lparr>c_bytes = p, c_pos = 0, c_magic = Gguf_v3\<rparr>"
  let ?pre = "gguf_ascii @ nat_le 4 (magic_version mg)"
  let ?bs = "put_len mg (length ts) @ put_len mg (length kvs) @ concat (map (put_entry mg) kvs) @ concat (map (put_tensor mg) ts)"
  obtain mg1 c1 pos b c2 where r: "read_magic ?c = Inr (mg1, c1)" "parse_body (c1\<lparr>c_magic := mg1\<rparr>) = Inr ((pos, b), c2)"
    using h by (auto simp: gguf_parse_def Let_def split: sum.splits prod.splits if_splits)
  have full: "p @ x = ?pre @ ?bs @ []" "length (p @ x) \<le> usize_max" using assms(2,4) by (simp_all add: put_header_def)
  have s1: "read_magic (?c\<lparr>c_bytes := p @ x\<rparr>) = Inr (mg1, c1\<lparr>c_bytes := p @ x\<rparr>)" "c_bytes c1 = p" "c_pos c1 \<le> length p"
    using stableD [OF stable_magic r(1), of x] full(2) by simp_all
  have s2: "parse_body (c1\<lparr>c_magic := mg1, c_bytes := p @ x\<rparr>) = Inr ((pos, b), c2\<lparr>c_bytes := p @ x\<rparr>)" "c_pos c2 \<le> length p"
    using stableD [OF stable_body r(2), of x] full(2) s1(2,3) by simp_all
  have m: "read_magic (?c\<lparr>c_bytes := p @ x\<rparr>) = Inr (mg, \<lparr>c_bytes = p @ x, c_pos = length ?pre, c_magic = Gguf_v3\<rparr>)"
    using reads_magic [of mg, unfolded reads_def, rule_format, of "[]" "?bs @ []"] full by simp
  then have "c1\<lparr>c_magic := mg1, c_bytes := p @ x\<rparr> = \<lparr>c_bytes = p @ x, c_pos = length ?pre, c_magic = mg\<rparr>"
    using s1(1) by (cases c1) simp
  then have "c_pos c2 = length (p @ x)"
    using parse_body_reads [OF assms(1) _ refl, of ?pre "[]"] full s2(1) by (cases c2) simp
  then show False using s2(2) assms(3) by simp
qed

theorem gguf_truncated_refused_witness: "\<exists>e. gguf_parse (butlast (put_header Gguf_v3 tiny_kvs tiny_tensors)) = Inl e"
proof -
  let ?h = "put_header Gguf_v3 tiny_kvs tiny_tensors"
  have n: "?h \<noteq> []" by (simp add: put_header_def)
  have "length ?h \<le> usize_max"
    by (simp add: put_header_def put_entry_def put_tensor_def put_string_def put_len_def tiny_kvs_def tiny_tensors_def usize_max_def)
  from gguf_truncated_refused [OF tiny_ok append_butlast_last_id [OF n, symmetric] _ this] show ?thesis by simp
qed

end
