(* ===== verification/Kv_Budget.thy ===== *)
theory Kv_Budget
  imports Block_Allocator
begin

text \<open>
  The byte budget all loaded models share (\<open>GlobalKvBudget\<close> of \<open>src/common/paged.rs\<close>) and
  the sizing of a model's KV pool against it (\<open>compute_kv_blocks\<close> and the retrying load of
  \<open>src/models/loader.rs\<close>).  What the machine reports of its memory, the products of the
  float shares with it, and what a load of the weights ends in are parameters.
\<close>

section \<open>The shared budget\<close>

record kv_budget =
  kb_total :: nat
  kb_allocated :: nat

definition kv_budget_new :: "nat \<Rightarrow> kv_budget" where
  "kv_budget_new n = \<lparr>kb_total = n, kb_allocated = 0\<rparr>"

definition available_bytes :: "kv_budget \<Rightarrow> nat" where
  "available_bytes b = kb_total b - kb_allocated b"

definition acquire :: "kv_budget \<Rightarrow> nat \<Rightarrow> kv_budget \<times> nat" where
  "acquire b desired =
     (let granted = min desired (available_bytes b)
      in (b\<lparr>kb_allocated := kb_allocated b + granted\<rparr>, granted))"

definition release :: "kv_budget \<Rightarrow> nat \<Rightarrow> kv_budget" where
  "release b n = b\<lparr>kb_allocated := kb_allocated b - n\<rparr>"

text \<open>
  The loop behind \<open>acquire\<close>: each turn is what the thread reads, what the counter holds when
  its \<open>compare_exchange_weak\<close> is tried, and whether that fails spuriously.  The answer is the
  grant and the counter after it.
\<close>

fun acquire_loop :: "nat \<Rightarrow> nat \<Rightarrow> (nat \<times> nat \<times> bool) list \<Rightarrow> (nat \<times> nat) option" where
  "acquire_loop limit desired [] = None"
| "acquire_loop limit desired ((current, now, spurious) # turns) =
     (let granted = min desired (limit - current)
      in if now = current \<and> \<not> spurious then Some (granted, current + granted)
         else acquire_loop limit desired turns)"

lemma acquire_loop_is_acquire:
  "acquire_loop (kb_total b) desired turns = Some (granted, n) \<Longrightarrow>
     \<exists>now. acquire (b\<lparr>kb_allocated := now\<rparr>) desired = (b\<lparr>kb_allocated := n\<rparr>, granted)"
proof (induction turns)
  case Nil
  then show ?case by simp
next
  case (Cons t turns)
  obtain current now spurious where t: "t = (current, now, spurious)" by (metis prod_cases3)
  show ?case
  proof (cases "now = current \<and> \<not> spurious")
    case True
    then have "granted = min desired (kb_total b - current)" "n = current + granted"
      using Cons.prems t by (simp_all add: Let_def)
    then show ?thesis by (intro exI [of _ current]) (simp add: acquire_def available_bytes_def Let_def)
  next
    case False
    then show ?thesis using Cons t by (auto simp: Let_def)
  qed
qed

lemma acquireD:
  assumes "acquire b n = (b', g)"
  shows "kb_total b' = kb_total b" "kb_allocated b' = kb_allocated b + g" "g \<le> n" "g \<le> available_bytes b"
  using assms by (auto simp: acquire_def Let_def)

lemma release_simps [simp]:
  "kb_total (release b n) = kb_total b" "kb_allocated (release b n) = kb_allocated b - n"
  by (simp_all add: release_def)

lemma acquire_release: "acquire b n = (b', g) \<Longrightarrow> release b' g = b"
  by (auto simp: acquire_def release_def Let_def)

section \<open>What the machine can hold\<close>

text \<open>
  The device's recommended working set, the free memory read at startup, the physical memory,
  and the shares of it the source computes in floats.
\<close>

record machine =
  mc_working_set :: "nat option"
  mc_available :: "nat option"
  mc_physical :: "nat option"
  mc_pool_share :: "nat \<Rightarrow> nat"
  mc_total_share :: "nat \<Rightarrow> nat"
  mc_kv_share :: "bool \<Rightarrow> nat \<Rightarrow> nat"

definition min_useful_kv :: nat where
  "min_useful_kv = 2 ^ 30"

definition min_opt :: "nat \<Rightarrow> nat option \<Rightarrow> nat" where
  "min_opt n m = (case m of None \<Rightarrow> n | Some k \<Rightarrow> min n k)"

definition detect_system_kv_budget :: "machine \<Rightarrow> nat option \<Rightarrow> bool \<Rightarrow> nat" where
  "detect_system_kv_budget M budget is_cpu =
     (case (if is_cpu then None else mc_working_set M) of
        Some ws \<Rightarrow> (let room = min_opt ws (mc_available M) in case budget of Some b \<Rightarrow> min b room | None \<Rightarrow> room)
      | None \<Rightarrow>
          (let physical = (case mc_physical M of Some p \<Rightarrow> p | None \<Rightarrow> 8 * 1024 * 1024 * 1024);
               base = (case budget of Some b \<Rightarrow> min b physical | None \<Rightarrow> physical)
           in mc_kv_share M is_cpu base - 512 * 1024 * 1024))"

definition forward_headroom_bytes :: "machine \<Rightarrow> nat" where
  "forward_headroom_bytes M =
     (let floor_bytes = 2 ^ 30
      in case mc_working_set M of Some ws \<Rightarrow> max floor_bytes (ws div 100 * 12) | None \<Rightarrow> floor_bytes)"

definition safe_total_commitment_bytes :: "machine \<Rightarrow> nat" where
  "safe_total_commitment_bytes M =
     (case mc_working_set M of
        Some ws \<Rightarrow> ws
      | None \<Rightarrow> (case mc_physical M of Some p \<Rightarrow> mc_total_share M p | None \<Rightarrow> usize_max))"

definition safe_model_kv_ceiling :: "machine \<Rightarrow> nat \<Rightarrow> nat" where
  "safe_model_kv_ceiling M weights =
     (case mc_working_set M of
        Some ws \<Rightarrow> min_opt (ws - weights) (mc_available M)
      | None \<Rightarrow>
          (case mc_physical M of
             None \<Rightarrow> usize_max
           | Some p \<Rightarrow> min (mc_pool_share M p) (max (mc_total_share M p - weights) min_useful_kv)))"

section \<open>Sizing a pool\<close>

datatype kv_quant_mode = Auto | Off | Lossless | Balanced | Aggressive

fun bit_width :: "kv_quant_mode \<Rightarrow> nat" where
  "bit_width Auto = 0"
| "bit_width Off = 0"
| "bit_width Lossless = 4"
| "bit_width Balanced = 3"
| "bit_width Aggressive = 2"

definition quantized_value_bytes_per_head :: "nat \<Rightarrow> nat \<Rightarrow> nat" where
  "quantized_value_bytes_per_head hdim bits = div_ceil (hdim * bits) 8 + 4"

definition quantized_key_bytes_per_head_with_qjl :: "nat \<Rightarrow> nat \<Rightarrow> bool \<Rightarrow> nat" where
  "quantized_key_bytes_per_head_with_qjl hdim bits qjl =
     (if qjl then div_ceil (hdim * (bits - 1)) 8 + div_ceil hdim 8 + 8 else div_ceil (hdim * bits) 8 + 4)"

record kv_block_params =
  kp_layer_specs :: "(nat \<times> nat) list"
  kp_declared :: nat
  kp_pinned :: "nat option"
  kp_max_sequences :: nat
  kp_dtype_bytes :: nat
  kp_quant :: kv_quant_mode
  kp_qjl :: bool
  kp_weights :: nat
  kp_retry_cap :: "nat option"
  kp_memory_budget :: "nat option"

abbreviation kv_block :: nat where
  "kv_block \<equiv> 16"

text \<open>The bytes of one block of a layer with so many heads of such a width.\<close>

definition layer_block_bytes :: "kv_block_params \<Rightarrow> kv_quant_mode \<Rightarrow> nat \<times> nat \<Rightarrow> nat" where
  "layer_block_bytes p m hs =
     (let heads = fst hs; hdim = snd hs
      in if m = Auto \<or> m = Off then kv_block * heads * hdim * kp_dtype_bytes p * 2
         else kv_block * heads * (quantized_key_bytes_per_head_with_qjl hdim (bit_width m) (kp_qjl p)
                                  + quantized_value_bytes_per_head hdim (bit_width m)))"

definition kv_bytes_per_block :: "kv_block_params \<Rightarrow> kv_quant_mode \<Rightarrow> nat" where
  "kv_bytes_per_block p m = sum_list (map (layer_block_bytes p m) (kp_layer_specs p))"

definition resolve_kv_quant :: "kv_block_params \<Rightarrow> kv_quant_mode" where
  "resolve_kv_quant p = (if kp_quant p \<noteq> Auto then kp_quant p else Off)"

definition fit_context_len :: "nat \<Rightarrow> nat \<Rightarrow> nat \<Rightarrow> nat" where
  "fit_context_len slots sequences declared =
     min (slots div max sequences 1 div kv_block * kv_block) declared"

definition pool_ceiling :: "nat \<Rightarrow> nat \<Rightarrow> nat" where
  "pool_ceiling beside_weights headroom = (beside_weights - headroom) div 2"

record kv_plan =
  pl_num_blocks :: nat
  pl_acquired :: nat
  pl_mode :: kv_quant_mode
  pl_context :: nat

datatype load_error = Kv_budget_exhausted nat nat | Memory_envelope_refused | Load_failed | Pool_not_backed

definition min_blocks :: nat where
  "min_blocks = 256"

text \<open>The ceiling of a pool before the shared budget is asked.\<close>

definition kv_ceiling :: "machine \<Rightarrow> kv_block_params \<Rightarrow> nat" where
  "kv_ceiling M p =
     min (min (pool_ceiling (safe_model_kv_ceiling M (kp_weights p)) (forward_headroom_bytes M))
            (case kp_retry_cap p of Some c \<Rightarrow> c | None \<Rightarrow> usize_max))
       (case kp_memory_budget p of None \<Rightarrow> usize_max | Some b \<Rightarrow> b - kp_weights p)"

definition compute_kv_blocks ::
    "machine \<Rightarrow> kv_block_params \<Rightarrow> kv_budget \<Rightarrow> kv_budget \<times> (load_error + kv_plan)" where
  "compute_kv_blocks M p b =
     (let target = max (min (case kp_pinned p of Some n \<Rightarrow> n | None \<Rightarrow> kp_declared p) (kp_declared p)) 1;
          desired_blocks = div_ceil (kp_max_sequences p * target) kv_block;
          m = resolve_kv_quant p;
          per_block = kv_bytes_per_block p m
      in if per_block = 0
         then (b, Inr \<lparr>pl_num_blocks = desired_blocks, pl_acquired = 0, pl_mode = m, pl_context = target\<rparr>)
         else
           let capped = min (max desired_blocks min_blocks * per_block) (kv_ceiling M p);
               (b1, granted) = acquire b capped;
               blocks = granted div per_block
           in if blocks < min_blocks
              then (release b1 granted, Inl (Kv_budget_exhausted (min_blocks * per_block) (blocks * per_block)))
              else
                (b1, Inr \<lparr>pl_num_blocks = blocks, pl_acquired = granted, pl_mode = m,
                     pl_context =
                       (case kp_pinned p of
                          Some n \<Rightarrow> max (min n (kp_declared p)) 1
                        | None \<Rightarrow> max (fit_context_len (blocks * kv_block) (kp_max_sequences p) (kp_declared p))
                                    kv_block)\<rparr>))"

section \<open>Loading, with retries\<close>

text \<open>
  What the weights of a load become: the reserved and the resident bytes of the model's pools,
  and whether the device backed them.
\<close>

record built_model =
  bm_reserved :: nat
  bm_resident :: nat

text \<open>One attempt: the plan, then the load, which gives the bytes back when it fails.\<close>

definition load_attempt ::
    "machine \<Rightarrow> kv_block_params \<Rightarrow> (kv_plan \<Rightarrow> load_error + built_model) \<Rightarrow> nat option \<Rightarrow> kv_budget \<Rightarrow>
     kv_budget \<times> (load_error + kv_plan \<times> built_model)" where
  "load_attempt M p build cap_bytes b =
     (case compute_kv_blocks M (p\<lparr>kp_retry_cap := cap_bytes\<rparr>) b of
        (b1, Inl e) \<Rightarrow> (b1, Inl e)
      | (b1, Inr plan) \<Rightarrow>
          (case build plan of
             Inl e \<Rightarrow> (release b1 (pl_acquired plan), Inl e)
           | Inr bm \<Rightarrow> (b1, Inr (plan, bm))))"

definition kv_retry_halvings :: nat where
  "kv_retry_halvings = 4"

fun load_retrying ::
    "machine \<Rightarrow> kv_block_params \<Rightarrow> (nat \<Rightarrow> kv_plan \<Rightarrow> load_error + built_model) \<Rightarrow> (nat \<Rightarrow> bool) \<Rightarrow>
     nat \<Rightarrow> nat option \<Rightarrow> kv_budget \<Rightarrow> kv_budget \<times> (load_error + kv_plan \<times> built_model)" where
  "load_retrying M p build survives left cap_bytes b =
     (case load_attempt M p (build left) cap_bytes b of
        (b1, Inl e) \<Rightarrow> (b1, Inl e)
      | (b1, Inr (plan, bm)) \<Rightarrow>
          if survives left then (b1, Inr (plan, bm))
          else (case left of
                  0 \<Rightarrow> (b1, Inl Pool_not_backed)
                | Suc n \<Rightarrow>
                    if bm_resident bm = 0 then (b1, Inl Pool_not_backed)
                    else load_retrying M p build survives n (Some (bm_resident bm div 2)) b1))"

declare load_retrying.simps [simp del]

definition load_batch_model ::
    "machine \<Rightarrow> kv_block_params \<Rightarrow> (nat \<Rightarrow> kv_plan \<Rightarrow> load_error + built_model) \<Rightarrow> (nat \<Rightarrow> bool) \<Rightarrow>
     kv_budget \<Rightarrow> kv_budget \<times> (load_error + kv_plan \<times> built_model)" where
  "load_batch_model M p build survives b =
     load_retrying M p build survives kv_retry_halvings None b"

section \<open>What a plan takes\<close>

abbreviation per_block_bytes :: "kv_block_params \<Rightarrow> nat" where
  "per_block_bytes p \<equiv> kv_bytes_per_block p (resolve_kv_quant p)"

lemma compute_kv_blocks_cases:
  assumes "compute_kv_blocks M p b = (b', r)" and "0 < per_block_bytes p"
  obtains (exhausted) needed free_bytes where "b' = b" "r = Inl (Kv_budget_exhausted needed free_bytes)"
      "needed = min_blocks * per_block_bytes p" "free_bytes < needed"
  | (planned) granted ctx where "kb_allocated b' = kb_allocated b + granted" "kb_total b' = kb_total b"
      "granted \<le> available_bytes b" "granted \<le> kv_ceiling M p" "min_blocks \<le> granted div per_block_bytes p"
      "r = Inr \<lparr>pl_num_blocks = granted div per_block_bytes p, pl_acquired = granted,
                pl_mode = resolve_kv_quant p, pl_context = ctx\<rparr>"
      "ctx = (case kp_pinned p of Some n \<Rightarrow> max (min n (kp_declared p)) 1
              | None \<Rightarrow> max (fit_context_len (granted div per_block_bytes p * kv_block) (kp_max_sequences p)
                  (kp_declared p)) kv_block)"
proof -
  define capped where "capped = min (max (div_ceil (kp_max_sequences p *
      max (min (case kp_pinned p of Some n \<Rightarrow> n | None \<Rightarrow> kp_declared p) (kp_declared p)) 1) kv_block) min_blocks
      * per_block_bytes p) (kv_ceiling M p)"
  obtain b1 granted where a: "acquire b capped = (b1, granted)" by (metis surj_pair)
  note st = assms(1) [unfolded compute_kv_blocks_def Let_def, folded capped_def]
  have pos: "(per_block_bytes p = 0) = False" using assms(2) by simp
  note st = st [unfolded a pos if_False prod.case]
  show thesis
  proof (cases "granted div per_block_bytes p < min_blocks")
    case True
    then have less: "granted div per_block_bytes p * per_block_bytes p < min_blocks * per_block_bytes p"
      using assms(2) by (intro mult_less_mono1)
    moreover have "b' = b" "r = Inl (Kv_budget_exhausted (min_blocks * per_block_bytes p)
        (granted div per_block_bytes p * per_block_bytes p))"
      using st True acquire_release [OF a] by simp_all
    ultimately show thesis by (intro exhausted [OF _ _ refl less])
  next
    case False
    have "capped \<le> kv_ceiling M p" by (simp add: capped_def)
    then have g: "kb_allocated b1 = kb_allocated b + granted" "kb_total b1 = kb_total b" "granted \<le> available_bytes b"
        "granted \<le> kv_ceiling M p"
      using acquireD [OF a] by simp_all
    have "b' = b1" using st False by simp
    moreover have "r = Inr \<lparr>pl_num_blocks = granted div per_block_bytes p, pl_acquired = granted,
                pl_mode = resolve_kv_quant p, pl_context = (case kp_pinned p of Some n \<Rightarrow> max (min n (kp_declared p)) 1
              | None \<Rightarrow> max (fit_context_len (granted div per_block_bytes p * kv_block) (kp_max_sequences p)
                  (kp_declared p)) kv_block)\<rparr>"
      using st False by simp
    ultimately show thesis using planned g False by simp
  qed
qed

lemma compute_kv_blocks_zero:
  "per_block_bytes p = 0 \<Longrightarrow> compute_kv_blocks M p b = (b', r) \<Longrightarrow>
     b' = b \<and> (\<exists>pl. r = Inr pl \<and> pl_acquired pl = 0 \<and> pl_mode pl = resolve_kv_quant p)"
  by (auto simp: compute_kv_blocks_def Let_def)

lemma fit_context_le: "fit_context_len slots n declared * n \<le> slots"
proof -
  have "slots div max n 1 div kv_block * kv_block \<le> slots div max n 1" by simp
  then have "fit_context_len slots n declared \<le> slots div max n 1"
    unfolding fit_context_len_def by linarith
  then have "fit_context_len slots n declared * n \<le> slots div max n 1 * max n 1" by (intro mult_le_mono) auto
  then show ?thesis using div_times_less_eq_dividend le_trans by blast
qed

section \<open>What a load takes and gives back\<close>

lemma load_attempt_failed:
  assumes "load_attempt M p build c b = (b', Inl e)"
  shows "b' = b"
proof -
  let ?p = "p\<lparr>kp_retry_cap := c\<rparr>"
  obtain b1 r where r: "compute_kv_blocks M ?p b = (b1, r)" by (metis surj_pair)
  show ?thesis
  proof (cases "per_block_bytes ?p = 0")
    case True
    then show ?thesis using assms r compute_kv_blocks_zero [OF True r]
      by (auto simp: load_attempt_def release_def split: sum.splits)
  next
    case False
    then have "0 < per_block_bytes ?p" by simp
    from r this show ?thesis
    proof (cases rule: compute_kv_blocks_cases)
      case (exhausted needed free_bytes)
      then show ?thesis using assms r by (simp add: load_attempt_def)
    next
      case (planned granted ctx)
      then have "b' = release b1 granted" using assms r by (auto simp: load_attempt_def split: sum.splits)
      then show ?thesis using planned(1,2) by (simp add: release_def)
    qed
  qed
qed

lemma load_attempt_built:
  assumes "load_attempt M p build c b = (b', Inr (plan, bm))"
  shows "kb_allocated b' = kb_allocated b + pl_acquired plan \<and> kb_total b' = kb_total b"
proof -
  let ?p = "p\<lparr>kp_retry_cap := c\<rparr>"
  obtain r where r: "compute_kv_blocks M ?p b = (b', r)" "r = Inr plan"
    using assms by (auto simp: load_attempt_def split: prod.splits sum.splits)
  show ?thesis
  proof (cases "per_block_bytes ?p = 0")
    case True
    then show ?thesis using compute_kv_blocks_zero [OF True r(1)] r(2) by auto
  next
    case False
    then have "0 < per_block_bytes ?p" by simp
    from r(1) this show ?thesis by (cases rule: compute_kv_blocks_cases) (use r(2) in auto)
  qed
qed

lemma load_retrying_grows:
  "load_retrying M p build survives left c b = (b', r) \<Longrightarrow>
     kb_allocated b + (case r of Inl e \<Rightarrow> 0 | Inr (plan, bm) \<Rightarrow> pl_acquired plan) \<le> kb_allocated b'"
proof (induction left arbitrary: c b)
  case (0 c b)
  obtain b1 r1 where a: "load_attempt M p (build 0) c b = (b1, r1)" by (metis surj_pair)
  show ?case
    using 0 a load_attempt_failed [of M p "build 0" c b b1] load_attempt_built [of M p "build 0" c b b1]
    by (auto simp: load_retrying.simps [of _ _ _ _ 0] split: sum.splits if_splits)
next
  case (Suc left c b)
  obtain b1 r1 where a: "load_attempt M p (build (Suc left)) c b = (b1, r1)" by (metis surj_pair)
  show ?case
  proof (cases r1)
    case (Inl e)
    then show ?thesis using Suc.prems a load_attempt_failed
      by (fastforce simp: load_retrying.simps [of _ _ _ _ "Suc left"])
  next
    case (Inr pb)
    obtain plan bm where pb: "pb = (plan, bm)" by (cases pb)
    have k: "kb_allocated b1 = kb_allocated b + pl_acquired plan"
      using load_attempt_built a Inr pb by blast
    show ?thesis
    proof (cases "survives (Suc left) \<or> bm_resident bm = 0")
      case True
      then show ?thesis using Suc.prems a Inr pb k
        by (auto simp: load_retrying.simps [of _ _ _ _ "Suc left"] split: if_splits)
    next
      case False
      then have "load_retrying M p build survives left (Some (bm_resident bm div 2)) b1 = (b', r)"
        using Suc.prems a Inr pb by (simp add: load_retrying.simps [of _ _ _ _ "Suc left"])
      from Suc.IH [OF this] show ?thesis using k by simp
    qed
  qed
qed

text \<open>A load never takes the count past the total.\<close>

lemma compute_kv_blocks_total:
  assumes "compute_kv_blocks M p b = (b', r)" and "kb_allocated b \<le> kb_total b"
  shows "kb_total b' = kb_total b \<and> kb_allocated b' \<le> kb_total b"
proof (cases "per_block_bytes p = 0")
  case True
  then show ?thesis using assms compute_kv_blocks_zero by blast
next
  case False
  then have "0 < per_block_bytes p" by simp
  from assms(1) this show ?thesis
    by (cases rule: compute_kv_blocks_cases) (use assms(2) in \<open>auto simp: available_bytes_def\<close>)
qed

lemma load_attempt_total:
  assumes "load_attempt M p build c b = (b', r)" and "kb_allocated b \<le> kb_total b"
  shows "kb_total b' = kb_total b \<and> kb_allocated b' \<le> kb_total b"
proof -
  obtain b1 r1 where r: "compute_kv_blocks M (p\<lparr>kp_retry_cap := c\<rparr>) b = (b1, r1)" by (metis surj_pair)
  show ?thesis using assms(1) r compute_kv_blocks_total [OF r assms(2)]
    by (auto simp: load_attempt_def split: sum.splits)
qed

lemma load_retrying_total:
  "load_retrying M p build survives left c b = (b', r) \<Longrightarrow> kb_allocated b \<le> kb_total b \<Longrightarrow>
     kb_total b' = kb_total b \<and> kb_allocated b' \<le> kb_total b"
proof (induction left arbitrary: c b)
  case (0 c b)
  obtain b1 r1 where a: "load_attempt M p (build 0) c b = (b1, r1)" by (metis surj_pair)
  show ?case using 0 a load_attempt_total [OF a]
    by (auto simp: load_retrying.simps [of _ _ _ _ 0] split: sum.splits if_splits)
next
  case (Suc left c b)
  obtain b1 r1 where a: "load_attempt M p (build (Suc left)) c b = (b1, r1)" by (metis surj_pair)
  note t = load_attempt_total [OF a Suc.prems(2)]
  show ?case
  proof (cases r1)
    case (Inl e)
    then show ?thesis using Suc.prems a t by (simp add: load_retrying.simps [of _ _ _ _ "Suc left"])
  next
    case (Inr pb)
    obtain plan bm where pb: "pb = (plan, bm)" by (cases pb)
    show ?thesis
    proof (cases "survives (Suc left) \<or> bm_resident bm = 0")
      case True
      then show ?thesis using Suc.prems a Inr pb t
        by (auto simp: load_retrying.simps [of _ _ _ _ "Suc left"] split: if_splits)
    next
      case False
      then have "load_retrying M p build survives left (Some (bm_resident bm div 2)) b1 = (b', r)"
        using Suc.prems a Inr pb by (simp add: load_retrying.simps [of _ _ _ _ "Suc left"])
      from Suc.IH [OF this] show ?thesis using t by simp
    qed
  qed
qed

text \<open>The plan a load ends with, in blocks, is within what it took.\<close>

lemma load_attempt_plan:
  assumes "load_attempt M p build c b = (b', Inr (plan, bm))"
  shows "pl_num_blocks plan * kv_bytes_per_block p (pl_mode plan) \<le> pl_acquired plan"
proof -
  let ?p = "p\<lparr>kp_retry_cap := c\<rparr>"
  have eq: "resolve_kv_quant ?p = resolve_kv_quant p" by (simp add: resolve_kv_quant_def)
  have "layer_block_bytes ?p m = layer_block_bytes p m" for m
    by (rule ext) (simp add: layer_block_bytes_def Let_def)
  then have eq2: "kv_bytes_per_block ?p m = kv_bytes_per_block p m" for m by (simp add: kv_bytes_per_block_def)
  obtain r where r: "compute_kv_blocks M ?p b = (b', r)" "r = Inr plan"
    using assms(1) by (auto simp: load_attempt_def split: prod.splits sum.splits)
  show ?thesis
  proof (cases "per_block_bytes ?p = 0")
    case True
    then show ?thesis using compute_kv_blocks_zero [OF True r(1)] r(2) by (auto simp: eq eq2)
  next
    case False
    then have "0 < per_block_bytes ?p" by simp
    from r(1) this show ?thesis
      by (cases rule: compute_kv_blocks_cases) (use r(2) in \<open>auto simp: eq eq2\<close>)
  qed
qed

lemma load_retrying_plan:
  "load_retrying M p build survives left c b = (b', Inr (plan, bm)) \<Longrightarrow>
     pl_num_blocks plan * kv_bytes_per_block p (pl_mode plan) \<le> pl_acquired plan"
proof (induction left arbitrary: c b)
  case (0 c b)
  then show ?case using load_attempt_plan
    by (auto simp: load_retrying.simps [of _ _ _ _ 0] split: prod.splits sum.splits if_splits)
next
  case (Suc left c b)
  obtain b1 r1 where a: "load_attempt M p (build (Suc left)) c b = (b1, r1)" by (metis surj_pair)
  then obtain plan1 bm1 where pb: "r1 = Inr (plan1, bm1)"
    using Suc.prems by (cases r1) (auto simp: load_retrying.simps [of _ _ _ _ "Suc left"])
  show ?case
  proof (cases "survives (Suc left) \<or> bm_resident bm1 = 0")
    case True
    then have "plan = plan1" "r1 = Inr (plan, bm)"
      using Suc.prems a pb by (auto simp: load_retrying.simps [of _ _ _ _ "Suc left"] split: if_splits)
    then show ?thesis using load_attempt_plan a by blast
  next
    case False
    then have "load_retrying M p build survives left (Some (bm_resident bm1 div 2)) b1 = (b', Inr (plan, bm))"
      using Suc.prems a pb by (simp add: load_retrying.simps [of _ _ _ _ "Suc left"])
    then show ?thesis using Suc.IH by blast
  qed
qed

text \<open>What the allocators of a plan reserve is what the plan counted.\<close>

definition quantizer_of :: "kv_quant_mode \<Rightarrow> bool \<Rightarrow> nat \<Rightarrow> kv_quantizer option" where
  "quantizer_of m qjl hdim =
     (if m = Auto \<or> m = Off then None
      else Some \<lparr>q_bit_width = bit_width m, q_key_mse_bit_width = (if qjl then bit_width m - 1 else bit_width m),
                 q_qjl_quantization = qjl, q_head_dim = hdim\<rparr>)"

definition layer_spec :: "kv_block_params \<Rightarrow> kv_plan \<Rightarrow> nat \<times> nat \<Rightarrow> pool_spec" where
  "layer_spec p plan hs =
     \<lparr>sp_max_blocks = pl_num_blocks plan, sp_segment_blocks = max (div_ceil (pl_context plan) kv_block) 1,
      sp_block_size = kv_block, sp_n_kv_heads = fst hs, sp_head_dim = snd hs, sp_dtype_bytes = kp_dtype_bytes p,
      sp_quantizer = quantizer_of (pl_mode plan) (kp_qjl p) (snd hs)\<rparr>"

lemma grow_sizes:
  "grow zeros fz a = Inr a' \<Longrightarrow> bytes_per_block a' = bytes_per_block a \<and> max_blocks a' = max_blocks a"
  by (auto simp: grow_def grow_pool_def Let_def bytes_per_block_def split: if_splits sum.splits kv_pool.splits option.splits)

lemma growing_reserved:
  fixes a :: "('a, 'b) block_allocator"
  assumes "growing zeros fz B addr (layer_spec p plan hs) = (B', Inr a)"
  shows "reserved_bytes a = pl_num_blocks plan * layer_block_bytes p (pl_mode plan) hs"
proof -
  define q where "q = quantizer_of (pl_mode plan) (kp_qjl p) (snd hs)"
  define q_pool :: "('a, 'b) kv_pool" where "q_pool = (case q of
                 Some q \<Rightarrow>
                   Quantized \<lparr>packed_k = [], packed_v = [], norms_k = [],
                     residual_norms_k = (if q_qjl_quantization q then Some [] else None),
                     norms_v = [], quantizer = q\<rparr>
               | None \<Rightarrow> Full [] [])"
  obtain a1 :: "('a, 'b) block_allocator" where a1: "pool a1 = q_pool" "max_blocks a1 = pl_num_blocks plan" "block_size a1 = kv_block"
      "n_kv_heads a1 = fst hs" "head_dim a1 = snd hs" "dtype_bytes a1 = kp_dtype_bytes p"
      "a1 = a \<or> grow zeros fz a1 = Inr a"
  proof -
    obtain B1 and cp :: "'a contig_pool" where c: "contig_pool_new B addr max_pool_buffers (2 * fst hs * snd hs * kp_dtype_bytes p) = (B1, cp)"
      by (metis surj_pair)
    show ?thesis
      by (rule that [of "\<lparr>pool = q_pool, free_list = [], ref_counts = [], num_blocks = 0,
                  max_blocks = pl_num_blocks plan,
                  segment_blocks = max 1 (min (max (div_ceil (pl_context plan) kv_block) 1) (max (pl_num_blocks plan) 1)),
                  block_size = kv_block, n_kv_heads = fst hs,
                  head_dim = snd hs, dtype_bytes = kp_dtype_bytes p,
                  contig_pool = cp, sliding_window = None\<rparr>"])
        (use assms c in \<open>auto simp: growing_def layer_spec_def Let_def q_pool_def q_def split: if_splits\<close>)
  qed
  have "bytes_per_block a = bytes_per_block a1 \<and> max_blocks a = max_blocks a1"
    using a1(7) grow_sizes [of zeros fz a1 a] by auto
  then have "reserved_bytes a = pl_num_blocks plan * bytes_per_block a1" by (simp add: reserved_bytes_def a1(2))
  moreover have "bytes_per_block a1 = layer_block_bytes p (pl_mode plan) hs"
    by (cases hs; cases "pl_mode plan"; cases "kp_qjl p")
       (simp_all add: bytes_per_block_def a1 q_pool_def q_def quantizer_of_def layer_block_bytes_def Let_def
         key_packed_bytes_def value_packed_bytes_def packed_bytes_for_bits_def
         quantized_key_bytes_per_head_with_qjl_def quantized_value_bytes_per_head_def)
  ultimately show ?thesis by simp
qed

lemma planned_reserved:
  assumes "list_all2 (\<lambda>hs a. \<exists>zeros fz B addr B'. growing zeros fz B addr (layer_spec p plan hs) = (B', Inr a))
             (kp_layer_specs p) as"
  shows "sum_list (map reserved_bytes as) = pl_num_blocks plan * kv_bytes_per_block p (pl_mode plan)"
proof -
  have "sum_list (map reserved_bytes as)
      = sum_list (map (\<lambda>hs. pl_num_blocks plan * layer_block_bytes p (pl_mode plan) hs) (kp_layer_specs p))"
    using assms by (induction rule: list_all2_induct) (auto dest: growing_reserved)
  also have "\<dots> = pl_num_blocks plan * kv_bytes_per_block p (pl_mode plan)"
    by (simp add: sum_list_const_mult kv_bytes_per_block_def)
  finally show ?thesis .
qed

section \<open>A small instance\<close>

text \<open>A machine of 4 GB, a model of one layer with one head of width one, and a budget of 20000 bytes.\<close>

definition demo_machine :: machine where
  "demo_machine =
     \<lparr>mc_working_set = Some 4294967296, mc_available = None, mc_physical = None, mc_pool_share = (\<lambda>n. n div 4),
      mc_total_share = (\<lambda>n. n div 2), mc_kv_share = (\<lambda>c n. n div 2)\<rparr>"

definition demo_params :: kv_block_params where
  "demo_params =
     \<lparr>kp_layer_specs = [(1, 1)], kp_declared = 8192, kp_pinned = None, kp_max_sequences = 8, kp_dtype_bytes = 2,
      kp_quant = Auto, kp_qjl = False, kp_weights = 0, kp_retry_cap = None, kp_memory_budget = None\<rparr>"

definition demo_plan :: kv_plan where
  "demo_plan = \<lparr>pl_num_blocks = 312, pl_acquired = 20000, pl_mode = Off, pl_context = 624\<rparr>"

lemma demo_per_block: "per_block_bytes demo_params = 64"
  by (simp add: demo_params_def resolve_kv_quant_def kv_bytes_per_block_def layer_block_bytes_def)

lemma demo_ceiling: "kv_ceiling demo_machine demo_params = 1610612736"
  by (simp add: kv_ceiling_def pool_ceiling_def safe_model_kv_ceiling_def forward_headroom_bytes_def demo_machine_def
      demo_params_def min_opt_def usize_max_def)

lemma demo_compute_at:
  assumes "available_bytes b = 20000"
  shows "compute_kv_blocks demo_machine demo_params b = (b\<lparr>kb_allocated := kb_allocated b + 20000\<rparr>, Inr demo_plan)"
proof -
  have "resolve_kv_quant demo_params = Off" by (simp add: resolve_kv_quant_def demo_params_def)
  moreover have "kp_pinned demo_params = None" "kp_declared demo_params = 8192" "kp_max_sequences demo_params = 8"
    by (simp_all add: demo_params_def)
  ultimately show ?thesis using demo_per_block demo_ceiling assms
    by (simp add: compute_kv_blocks_def Let_def acquire_def min_blocks_def
        div_ceil_def fit_context_len_def demo_plan_def)
qed

lemma demo_compute:
  "compute_kv_blocks demo_machine demo_params (kv_budget_new 20000) =
     (\<lparr>kb_total = 20000, kb_allocated = 20000\<rparr>, Inr demo_plan)"
  using demo_compute_at [of "kv_budget_new 20000"] by (simp add: kv_budget_new_def available_bytes_def)

lemma demo_attempt:
  "load_attempt demo_machine demo_params (\<lambda>plan. Inr \<lparr>bm_reserved = 19968, bm_resident = 64\<rparr>) None (kv_budget_new 20000) =
     (\<lparr>kb_total = 20000, kb_allocated = 20000\<rparr>, Inr (demo_plan, \<lparr>bm_reserved = 19968, bm_resident = 64\<rparr>))"
proof -
  have "demo_params\<lparr>kp_retry_cap := None\<rparr> = demo_params" by (simp add: demo_params_def)
  then show ?thesis by (simp add: load_attempt_def demo_compute)
qed

section \<open>Properties\<close>

text \<open>C27. A pool is planned within every limit: at least the floor of 256 blocks, whole blocks out of what
  was acquired with less than a block left over, no more than the shared budget had and the
  machine, a retry and the operator's memory budget allow, charged to the budget to the byte; and
  a context not pinned by the caller is one the pool can hold for all the sequences asked for,
  unless it is the single block every model gets.  The layers' allocators then reserve
  exactly the planned blocks.  A refusal leaves the budget as it was.\<close>

theorem kv_plan_fits:
  assumes "compute_kv_blocks M p b = (b', r)" and "0 < per_block_bytes p"
  shows "case r of
     Inl e \<Rightarrow> b' = b \<and> (\<exists>free_bytes < min_blocks * per_block_bytes p.
                 e = Kv_budget_exhausted (min_blocks * per_block_bytes p) free_bytes)
   | Inr plan \<Rightarrow>
       256 \<le> pl_num_blocks plan
       \<and> pl_num_blocks plan * per_block_bytes p \<le> pl_acquired plan
       \<and> pl_acquired plan < Suc (pl_num_blocks plan) * per_block_bytes p
       \<and> pl_acquired plan \<le> available_bytes b
       \<and> pl_acquired plan \<le> safe_model_kv_ceiling M (kp_weights p) div 2
       \<and> (\<forall>n. kp_memory_budget p = Some n \<longrightarrow> pl_acquired plan \<le> n - kp_weights p)
       \<and> (\<forall>n. kp_retry_cap p = Some n \<longrightarrow> pl_acquired plan \<le> n)
       \<and> kb_allocated b' = kb_allocated b + pl_acquired plan
       \<and> (kp_pinned p = None \<longrightarrow> 16 < pl_context plan \<longrightarrow>
            pl_context plan * kp_max_sequences p \<le> pl_num_blocks plan * 16 \<and> pl_context plan \<le> kp_declared p)"
  using assms
proof (cases rule: compute_kv_blocks_cases)
  case (exhausted needed free_bytes)
  then show ?thesis by auto
next
  case (planned granted ctx)
  let ?n = "granted div per_block_bytes p"
  have "granted \<le> pool_ceiling (safe_model_kv_ceiling M (kp_weights p)) (forward_headroom_bytes M)"
    using planned(4) by (simp add: kv_ceiling_def)
  then have "granted \<le> safe_model_kv_ceiling M (kp_weights p) div 2"
    unfolding pool_ceiling_def using div_le_mono diff_le_self le_trans by blast
  moreover have "granted < Suc ?n * per_block_bytes p" using assms(2) by (metis dividend_less_div_times mult_Suc)
  moreover have "ctx * kp_max_sequences p \<le> ?n * 16 \<and> ctx \<le> kp_declared p" if "kp_pinned p = None" "16 < ctx"
  proof -
    have "ctx = fit_context_len (?n * kv_block) (kp_max_sequences p) (kp_declared p)"
      using planned(7) that by (simp add: max_def split: if_splits)
    then show ?thesis using fit_context_le by (simp add: fit_context_len_def)
  qed
  ultimately show ?thesis using planned
    by (auto simp: min_blocks_def kv_ceiling_def)
qed

theorem kv_plan_fits_witness:
  "256 \<le> pl_num_blocks demo_plan \<and> pl_num_blocks demo_plan * 64 \<le> pl_acquired demo_plan
    \<and> pl_acquired demo_plan \<le> available_bytes (kv_budget_new 20000)
    \<and> pl_context demo_plan * 8 \<le> pl_num_blocks demo_plan * 16"
  using kv_plan_fits [OF demo_compute] demo_per_block by (simp add: demo_plan_def kv_budget_new_def available_bytes_def)

text \<open>A load whose model the device does not back never gives the bytes of that pool back: whatever
  the retries end in, a failure included, the budget still counts them, although the model was
  dropped and nothing holds them.\<close>

theorem unbacked_pool_leaks:
  assumes "load_attempt M p (build kv_retry_halvings) None b = (b1, Inr (plan, bm))"
    and "\<not> survives kv_retry_halvings"
    and "load_batch_model M p build survives b = (b', r)"
  shows "kb_allocated b' \<ge> kb_allocated b + pl_acquired plan +
     (case r of Inl e \<Rightarrow> 0 | Inr (plan', bm') \<Rightarrow> pl_acquired plan')"
proof -
  have k: "kb_allocated b1 = kb_allocated b + pl_acquired plan" using load_attempt_built [OF assms(1)] by simp
  note st = assms(3) [unfolded load_batch_model_def load_retrying.simps [of _ _ _ _ kv_retry_halvings] assms(1)]
  show ?thesis
  proof (cases "bm_resident bm = 0")
    case True
    then show ?thesis using st assms(2) k by (auto simp: kv_retry_halvings_def numeral_eq_Suc)
  next
    case False
    then have "load_retrying M p build survives 3 (Some (bm_resident bm div 2)) b1 = (b', r)"
      using st assms(2) by (simp add: kv_retry_halvings_def numeral_eq_Suc)
    from load_retrying_grows [OF this] show ?thesis using k by simp
  qed
qed

theorem unbacked_pool_leaks_witness:
  "20000 \<le> kb_allocated (fst (load_batch_model demo_machine demo_params
     (\<lambda>left plan. Inr \<lparr>bm_reserved = 19968, bm_resident = 64\<rparr>) (\<lambda>left. False) (kv_budget_new 20000)))"
proof -
  obtain b' r where l: "load_batch_model demo_machine demo_params (\<lambda>left plan. Inr \<lparr>bm_reserved = 19968, bm_resident = 64\<rparr>)
      (\<lambda>left. False) (kv_budget_new 20000) = (b', r)" by (metis surj_pair)
  from unbacked_pool_leaks [where survives = "\<lambda>left. False", OF demo_attempt _ l]
  have "20000 \<le> kb_allocated b'" by (simp add: demo_plan_def)
  then show ?thesis unfolding l by simp
qed

text \<open>What the server gives back when it unloads a model is what its layers reserve, the planned blocks
  times their bytes; what a plan took can be more by part of a block, and that part stays in
  the count after the model is gone.\<close>

theorem unload_keeps_remainder:
  assumes "compute_kv_blocks M p b = (b', Inr plan)" and "0 < per_block_bytes p"
    and "list_all2 (\<lambda>hs a. \<exists>zeros fz B addr B'. growing zeros fz B addr (layer_spec p plan hs) = (B', Inr a))
           (kp_layer_specs p) as"
  shows "kb_allocated (release b' (sum_list (map reserved_bytes as))) =
    kb_allocated b + pl_acquired plan mod per_block_bytes p"
proof -
  from assms(1,2) show ?thesis
  proof (cases rule: compute_kv_blocks_cases)
    case (planned granted ctx)
    have "sum_list (map reserved_bytes as) = granted div per_block_bytes p * per_block_bytes p"
      using planned_reserved [OF assms(3)] planned(6) by simp
    then show ?thesis using planned(1,6) by (simp add: minus_div_mult_eq_mod [symmetric])
  qed simp
qed

theorem unload_keeps_remainder_witness:
  "\<exists>a :: (unit, unit) block_allocator.
     kb_allocated (release \<lparr>kb_total = 20000, kb_allocated = 20000\<rparr> (reserved_bytes a)) = 32"
proof -
  obtain B' and a :: "(unit, unit) block_allocator" where
      "growing (\<lambda>shape. Some ()) () (\<lambda>_. contig_budget_new 0) 0 (layer_spec demo_params demo_plan (1, 1)) = (B', Inr a)"
    by (cases "contig_pool_new (\<lambda>_. contig_budget_new 0) 0 max_pool_buffers 4 :: budgets \<times> unit contig_pool")
       (simp add: growing_def layer_spec_def demo_params_def demo_plan_def quantizer_of_def Let_def grow_def
        grow_pool_def div_ceil_def)
  then have "list_all2 (\<lambda>hs a. \<exists>zeros fz B addr B'. growing zeros fz B addr (layer_spec demo_params demo_plan hs)
      = (B', Inr (a :: (unit, unit) block_allocator))) (kp_layer_specs demo_params) [a]"
    by (auto simp: demo_params_def)
  from unload_keeps_remainder [OF demo_compute _ this] show ?thesis
    by (intro exI [of _ a]) (simp add: demo_per_block kv_budget_new_def demo_plan_def)
qed

end
