(* ===== verification/Model_Manager.thy ===== *)
theory Model_Manager
  imports Kv_Budget
begin

text \<open>
  The lifecycle of the models (\<open>src/models/manager.rs\<close>): the slots and what evicts them, and
  a load as its two halves, the loader thread and the task that installs its result.  A request
  that waits is the number of its one-shot channel; what was sent on those channels is a list.
  An engine is known by its shutdown flag, a number that every load draws afresh; the request
  channel of an engine is closed once its thread has dropped the receiver.  Time is a number.
  The files of the models directory are a parameter, and messages are left out.
\<close>

section \<open>State\<close>

record ready_slot =
  rs_max_seq_len :: nat
  rs_capacity :: nat
  rs_architecture :: string
  rs_vocab :: nat
  rs_layers :: nat
  rs_last_used :: nat
  rs_keep_alive :: nat
  rs_weights :: nat
  rs_kv :: nat
  rs_shutdown :: nat

datatype slot_state = Loading (waiters: "nat list") | Ready ready_slot

text \<open>What a request is given: the engine it may send to, and the limits.\<close>

record ready_handle =
  rh_engine :: nat
  rh_max_seq_len :: nat
  rh_capacity :: nat

datatype failure_kind = Not_found | Memory | Other

record registry_entry =
  re_architecture :: string
  re_vocab :: nat
  re_layers :: nat
  re_size :: nat
  re_kv :: nat
  re_last_used :: nat

record manager =
  mg_slots :: "(string \<times> slot_state) list"
  mg_keep_alive :: nat
  mg_memory_budget :: "nat option"
  mg_registry :: "string \<rightharpoonup> registry_entry"
  mg_kv_budget :: kv_budget
  mg_draft :: "string option"
  mg_flags :: "nat set"
  mg_answers :: "(nat \<times> (failure_kind + ready_handle)) list"

text \<open>The models on disk, the size a model not in the registry is taken to have, and the machine.\<close>

record manager_env =
  me_resolve :: "string \<Rightarrow> bool"
  me_disk_size :: "string \<Rightarrow> nat"
  me_machine :: machine

definition manager_new :: "machine \<Rightarrow> nat \<Rightarrow> nat option \<Rightarrow> (string \<rightharpoonup> registry_entry) \<Rightarrow> bool \<Rightarrow> string option \<Rightarrow> string set \<Rightarrow> manager" where
  "manager_new M keep budget registry is_cpu draft valid_ids =
     \<lparr>mg_slots = [], mg_keep_alive = keep, mg_memory_budget = budget, mg_registry = registry |` valid_ids,
      mg_kv_budget = kv_budget_new (detect_system_kv_budget M budget is_cpu), mg_draft = draft,
      mg_flags = {}, mg_answers = []\<rparr>"

section \<open>Slots\<close>

definition slot_bytes :: "slot_state \<Rightarrow> nat" where
  "slot_bytes s = (case s of Ready r \<Rightarrow> rs_weights r + rs_kv r | Loading _ \<Rightarrow> 0)"

definition slot_kv :: "slot_state \<Rightarrow> nat" where
  "slot_kv s = (case s of Ready r \<Rightarrow> rs_kv r | Loading _ \<Rightarrow> 0)"

definition total_loaded_bytes :: "manager \<Rightarrow> nat" where
  "total_loaded_bytes m = sum_list (map (\<lambda>(i, s). slot_bytes s) (mg_slots m))"

definition remove_slot :: "manager \<Rightarrow> string \<Rightarrow> manager" where
  "remove_slot m i = m\<lparr>mg_slots := filter (\<lambda>(j, s). j \<noteq> i) (mg_slots m)\<rparr>"

definition put_slot :: "manager \<Rightarrow> string \<Rightarrow> slot_state \<Rightarrow> manager" where
  "put_slot m i s =
     m\<lparr>mg_slots := (if i \<in> fst ` set (mg_slots m)
                    then map (\<lambda>(j, t). (j, if j = i then s else t)) (mg_slots m)
                    else mg_slots m @ [(i, s)])\<rparr>"

definition release_kv :: "manager \<Rightarrow> nat \<Rightarrow> manager" where
  "release_kv m n = m\<lparr>mg_kv_budget := release (mg_kv_budget m) n\<rparr>"

definition raise_flag :: "manager \<Rightarrow> nat \<Rightarrow> manager" where
  "raise_flag m f = m\<lparr>mg_flags := insert f (mg_flags m)\<rparr>"

text \<open>Taking a ready slot out: its KV bytes go back and its engine is told to stop.\<close>

definition unload :: "manager \<Rightarrow> string \<Rightarrow> manager" where
  "unload m i =
     (case map_of (mg_slots m) i of
        Some (Ready r) \<Rightarrow> raise_flag (remove_slot (release_kv m (rs_kv r)) i) (rs_shutdown r)
      | _ \<Rightarrow> remove_slot (release_kv m 0) i)"

text \<open>\<open>min_by_key\<close>: the first of the least.\<close>

fun min_by_key :: "('a \<Rightarrow> nat) \<Rightarrow> 'a list \<Rightarrow> 'a option" where
  "min_by_key f [] = None"
| "min_by_key f (x # xs) =
     (case min_by_key f xs of None \<Rightarrow> Some x | Some y \<Rightarrow> if f y < f x then Some y else Some x)"

definition ready_slots :: "manager \<Rightarrow> (string \<times> ready_slot) list" where
  "ready_slots m = List.map_filter (\<lambda>(i, s). case s of Ready r \<Rightarrow> Some (i, r) | Loading _ \<Rightarrow> None) (mg_slots m)"

definition evict_lru_one :: "manager \<Rightarrow> (manager \<times> string \<times> nat) option" where
  "evict_lru_one m =
     (case min_by_key (\<lambda>(i, r). rs_last_used r) (ready_slots m) of
        None \<Rightarrow> None
      | Some (i, _) \<Rightarrow>
          Some (unload m i, i, case map_of (mg_slots m) i of Some s \<Rightarrow> slot_bytes s | None \<Rightarrow> 0))"

lemma min_by_key_None: "min_by_key f xs = None \<longleftrightarrow> xs = []"
  by (cases xs) (auto split: option.splits if_splits)

lemma min_by_key_mem: "min_by_key f xs = Some x \<Longrightarrow> x \<in> set xs \<and> (\<forall>y \<in> set xs. f x \<le> f y)"
proof (induction xs arbitrary: x)
  case Nil
  then show ?case by simp
next
  case (Cons a xs)
  show ?case
  proof (cases "min_by_key f xs")
    case None
    then show ?thesis using Cons.prems by (simp add: min_by_key_None)
  next
    case (Some y)
    then have "y \<in> set xs" "\<forall>z \<in> set xs. f y \<le> f z" using Cons.IH by blast+
    then show ?thesis using Cons.prems Some by (auto split: if_splits)
  qed
qed

lemma ready_slots_mem: "(i, r) \<in> set (ready_slots m) \<longleftrightarrow> (i, Ready r) \<in> set (mg_slots m)"
  by (force simp: ready_slots_def List.map_filter_def split: slot_state.splits)

lemma unload_slots: "mg_slots (unload m i) = filter (\<lambda>(j, s). j \<noteq> i) (mg_slots m)"
  by (auto simp: unload_def remove_slot_def release_kv_def raise_flag_def split: option.splits slot_state.splits)

lemma evict_lru_one_shrinks:
  assumes "evict_lru_one m = Some (m', i, freed)"
  shows "length (mg_slots m') < length (mg_slots m)"
proof -
  obtain r where r: "(i, Ready r) \<in> set (mg_slots m)" "m' = unload m i"
    using assms min_by_key_mem [of _ "ready_slots m"] by (fastforce simp: evict_lru_one_def ready_slots_mem split: option.splits)
  then show ?thesis by (auto simp: unload_slots intro!: length_filter_less)
qed

text \<open>Room for a model: the least recently used ready models go until it fits.\<close>

definition commitment :: "manager_env \<Rightarrow> manager \<Rightarrow> nat" where
  "commitment E m = (case mg_memory_budget m of Some b \<Rightarrow> b | None \<Rightarrow> safe_total_commitment_bytes (me_machine E))"

function evict_lru_for_bytes :: "manager_env \<Rightarrow> manager \<Rightarrow> nat \<Rightarrow> manager \<times> nat" where
  "evict_lru_for_bytes E m needed =
     (if total_loaded_bytes m + needed \<le> commitment E m then (m, 0)
      else case evict_lru_one m of
             None \<Rightarrow> (m, 0)
           | Some (m', i, freed) \<Rightarrow> (case evict_lru_for_bytes E m' needed of (m'', n) \<Rightarrow> (m'', n + 1)))"
  by pat_completeness auto
termination
  by (relation "measure (\<lambda>(E, m, n). length (mg_slots m))") (auto dest: evict_lru_one_shrinks)

declare evict_lru_for_bytes.simps [simp del]

definition projected_size_bytes :: "manager_env \<Rightarrow> manager \<Rightarrow> string \<Rightarrow> nat" where
  "projected_size_bytes E m i =
     (case mg_registry m i of
        Some e \<Rightarrow> if 0 < re_size e then re_size e + re_kv e else me_disk_size E i
      | None \<Rightarrow> me_disk_size E i)"

definition answer :: "manager \<Rightarrow> nat list \<Rightarrow> failure_kind + ready_handle \<Rightarrow> manager" where
  "answer m ws a = m\<lparr>mg_answers := mg_answers m @ map (\<lambda>w. (w, a)) ws\<rparr>"

definition handle_of :: "ready_slot \<Rightarrow> ready_handle" where
  "handle_of r = \<lparr>rh_engine = rs_shutdown r, rh_max_seq_len = rs_max_seq_len r, rh_capacity = rs_capacity r\<rparr>"

datatype get_result = Got ready_handle | Wait

text \<open>
  \<open>get_or_load\<close> with the number of the one-shot channel a wait would use; the last component is
  the load to spawn, as the model, its keep-alive and its draft.
\<close>

definition get_or_load ::
    "manager_env \<Rightarrow> manager \<Rightarrow> nat \<Rightarrow> string \<Rightarrow> nat \<Rightarrow> nat option \<Rightarrow>
     manager \<times> get_result \<times> (string \<times> nat \<times> string option) option" where
  "get_or_load E m now i waiter keep_override =
     (if \<not> me_resolve E i then (answer m [waiter] (Inl Not_found), Wait, None)
      else
        case map_of (mg_slots m) i of
          Some (Ready r) \<Rightarrow>
            let r' = r\<lparr>rs_last_used := now,
                       rs_keep_alive := (case keep_override of Some k \<Rightarrow> k | None \<Rightarrow> rs_keep_alive r)\<rparr>
            in (put_slot m i (Ready r'), Got (handle_of r'), None)
        | Some (Loading ws) \<Rightarrow> (put_slot m i (Loading (ws @ [waiter])), Wait, None)
        | None \<Rightarrow>
            let m1 = fst (evict_lru_for_bytes E m (projected_size_bytes E m i))
            in (put_slot m1 i (Loading [waiter]), Wait,
                Some (i, (case keep_override of Some k \<Rightarrow> k | None \<Rightarrow> mg_keep_alive m1),
                      case mg_draft m1 of Some d \<Rightarrow> if me_resolve E d then Some d else None | None \<Rightarrow> None)))"

definition expired_ids :: "manager \<Rightarrow> nat \<Rightarrow> string list" where
  "expired_ids m now = map fst (filter (\<lambda>(i, r). rs_keep_alive r < now - rs_last_used r) (ready_slots m))"

definition evict_expired :: "manager \<Rightarrow> nat \<Rightarrow> manager" where
  "evict_expired m now = fold (\<lambda>i m. unload m i) (expired_ids m now) m"

definition update_registry :: "manager \<Rightarrow> string \<Rightarrow> string \<Rightarrow> nat \<Rightarrow> nat \<Rightarrow> nat \<Rightarrow> nat \<Rightarrow> nat \<Rightarrow> manager" where
  "update_registry m i arch vocab layers bytes kv now =
     m\<lparr>mg_registry := (mg_registry m)(i \<mapsto>
         \<lparr>re_architecture = arch, re_vocab = vocab, re_layers = layers, re_size = bytes, re_kv = kv, re_last_used = now\<rparr>)\<rparr>"

definition list_running :: "manager \<Rightarrow> nat \<Rightarrow> (string \<times> string \<times> nat \<times> nat \<times> nat \<times> nat \<times> nat) list" where
  "list_running m now =
     map (\<lambda>(i, r). (i, rs_architecture r, rs_vocab r, rs_layers r, now - rs_last_used r, rs_weights r, rs_kv r))
       (ready_slots m)"

section \<open>A load\<close>

text \<open>What a load hands back; the engine it belongs to is the job's.\<close>

record load_result =
  lr_max_seq_len :: nat
  lr_capacity :: nat
  lr_architecture :: string
  lr_vocab :: nat
  lr_layers :: nat
  lr_weights :: nat
  lr_kv :: nat

text \<open>
  The loader thread: not begun; loading, with the bytes set aside for a draft; loaded, the result
  unsent; the result sent, the bytes for the draft still set aside; building the engine; running it
  under the guard that watches its slot; unwound out of it, the receiver dropped; gone.
\<close>

datatype loader =
    Starting
  | Trying "nat option"
  | Loaded load_result "nat option"
  | Sent load_result "nat option"
  | Building load_result
  | Running_engine load_result
  | Unwinding load_result
  | Gone

datatype message = Nothing_yet | Message "failure_kind + load_result" | Sender_dropped

text \<open>The task that waits for the result: waiting; past the test of the channel; finished.\<close>

datatype companion = Awaiting | Checked load_result | Finished_task

record job =
  jb_model :: string
  jb_keep_alive :: nat
  jb_draft :: "string option"
  jb_loader :: loader
  jb_message :: message
  jb_companion :: companion

definition job_new :: "string \<times> nat \<times> string option \<Rightarrow> job" where
  "job_new x =
     (case x of (i, keep, draft) \<Rightarrow>
        \<lparr>jb_model = i, jb_keep_alive = keep, jb_draft = draft, jb_loader = Starting,
         jb_message = Nothing_yet, jb_companion = Awaiting\<rparr>)"

text \<open>The receiver of the engine's request channel is gone.\<close>

definition channel_closed :: "job \<Rightarrow> bool" where
  "channel_closed j \<longleftrightarrow> (case jb_loader j of Unwinding _ \<Rightarrow> True | Gone \<Rightarrow> True | _ \<Rightarrow> False)"

definition release_opt :: "manager \<Rightarrow> nat option \<Rightarrow> manager" where
  "release_opt m res = (case res of Some n \<Rightarrow> release_kv m n | None \<Rightarrow> m)"

definition failure_of :: "load_error \<Rightarrow> failure_kind" where
  "failure_of e =
     (case e of Kv_budget_exhausted _ _ \<Rightarrow> Memory | Memory_envelope_refused \<Rightarrow> Memory | _ \<Rightarrow> Other)"

text \<open>The tokenizer or the device fails.\<close>

definition loader_fail_start :: "job \<Rightarrow> job" where
  "loader_fail_start j = j\<lparr>jb_loader := Gone, jb_message := Message (Inl Other)\<rparr>"

text \<open>Half of what is free is set aside when a draft will be loaded.\<close>

definition loader_reserve :: "manager \<Rightarrow> job \<Rightarrow> manager \<times> job" where
  "loader_reserve m j =
     (case jb_draft j of
        None \<Rightarrow> (m, j\<lparr>jb_loader := Trying None\<rparr>)
      | Some d \<Rightarrow>
          (case acquire (mg_kv_budget m) (available_bytes (mg_kv_budget m) div 2) of
             (b, n) \<Rightarrow> (m\<lparr>mg_kv_budget := b\<rparr>, j\<lparr>jb_loader := Trying (Some n)\<rparr>)))"

text \<open>
  One turn of the loading loop.  \<open>load\<close> is \<open>load_batch_model\<close> of the target, which leaves the
  budget and gives the result or the error.
\<close>

definition loader_try ::
    "(kv_budget \<Rightarrow> kv_budget \<times> (load_error + load_result)) \<Rightarrow> manager \<Rightarrow> job \<Rightarrow> nat option \<Rightarrow> manager \<times> job" where
  "loader_try load m j res =
     (case load (mg_kv_budget m) of
        (b, Inr r) \<Rightarrow> (m\<lparr>mg_kv_budget := b\<rparr>, j\<lparr>jb_loader := Loaded r res\<rparr>)
      | (b, Inl e) \<Rightarrow>
          let m1 = m\<lparr>mg_kv_budget := b\<rparr>;
              room = (case e of Kv_budget_exhausted _ _ \<Rightarrow> evict_lru_one m1 | _ \<Rightarrow> None)
          in (case room of
                Some (m2, i, freed) \<Rightarrow> (m2, j)
              | None \<Rightarrow> (release_opt m1 res, j\<lparr>jb_loader := Gone, jb_message := Message (Inl (failure_of e))\<rparr>)))"

definition loader_send :: "job \<Rightarrow> load_result \<Rightarrow> nat option \<Rightarrow> job" where
  "loader_send j r res = j\<lparr>jb_loader := Sent r res, jb_message := Message (Inr r)\<rparr>"

text \<open>The bytes set aside go back and the draft is loaded; a draft that fails or does not fit is dropped.\<close>

definition loader_draft ::
    "(kv_budget \<Rightarrow> kv_budget \<times> (load_error + load_result)) \<Rightarrow> manager \<Rightarrow> job \<Rightarrow> load_result \<Rightarrow> nat option \<Rightarrow>
     manager \<times> job" where
  "loader_draft load m j r res =
     (let m1 = release_opt m res; j1 = j\<lparr>jb_loader := Building r\<rparr>
      in case jb_draft j of
           None \<Rightarrow> (m1, j1)
         | Some d \<Rightarrow> (m1\<lparr>mg_kv_budget := fst (load (mg_kv_budget m1))\<rparr>, j1))"

text \<open>A panic of the thread: an unsent result is dropped with its sender.\<close>

definition loader_panic :: "job \<Rightarrow> job" where
  "loader_panic j =
     (case jb_loader j of
        Running_engine r \<Rightarrow> j\<lparr>jb_loader := Unwinding r\<rparr>
      | _ \<Rightarrow> j\<lparr>jb_loader := Gone,
               jb_message := (case jb_message j of Nothing_yet \<Rightarrow> Sender_dropped | msg \<Rightarrow> msg)\<rparr>)"

text \<open>The guard's \<open>drop\<close>: the slot goes if it is this engine's.\<close>

definition guard_drop :: "manager \<Rightarrow> nat \<Rightarrow> string \<Rightarrow> manager" where
  "guard_drop m flag i =
     (case map_of (mg_slots m) i of
        Some (Ready r) \<Rightarrow> if rs_shutdown r = flag then release_kv (remove_slot m i) (rs_kv r) else m
      | _ \<Rightarrow> m)"

section \<open>Installing the result\<close>

definition waiters_of :: "manager \<Rightarrow> string \<Rightarrow> nat list" where
  "waiters_of m i = (case map_of (mg_slots m) i of Some (Loading ws) \<Rightarrow> ws | _ \<Rightarrow> [])"

text \<open>A failed load: the slot goes, its waiters are told.\<close>

definition install_failure :: "manager \<Rightarrow> string \<Rightarrow> failure_kind \<Rightarrow> manager" where
  "install_failure m i e = answer (remove_slot m i) (waiters_of m i) (Inl e)"

definition install_closed :: "manager \<Rightarrow> string \<Rightarrow> load_result \<Rightarrow> manager" where
  "install_closed m i r = answer (release_kv (remove_slot m i) (lr_kv r)) (waiters_of m i) (Inl Other)"

definition ready_of :: "load_result \<Rightarrow> nat \<Rightarrow> nat \<Rightarrow> nat \<Rightarrow> ready_slot" where
  "ready_of r keep flag now =
     \<lparr>rs_max_seq_len = lr_max_seq_len r, rs_capacity = lr_capacity r, rs_architecture = lr_architecture r,
      rs_vocab = lr_vocab r, rs_layers = lr_layers r, rs_last_used = now, rs_keep_alive = keep,
      rs_weights = lr_weights r, rs_kv = lr_kv r, rs_shutdown = flag\<rparr>"

definition install_ready :: "manager \<Rightarrow> nat \<Rightarrow> string \<Rightarrow> load_result \<Rightarrow> nat \<Rightarrow> nat \<Rightarrow> manager" where
  "install_ready m flag i r keep now =
     (let ws = waiters_of m i;
          slot = ready_of r keep flag now;
          m1 = put_slot (update_registry (remove_slot m i) i (lr_architecture r) (lr_vocab r) (lr_layers r)
                 (lr_weights r) (lr_kv r) now) i (Ready slot)
      in case mg_memory_budget m1 of
           Some budget \<Rightarrow>
             if budget < total_loaded_bytes m1
             then answer (unload m1 i) ws (Inl Memory)
             else answer m1 ws (Inr (handle_of slot))
         | None \<Rightarrow> answer m1 ws (Inr (handle_of slot)))"

section \<open>What the loader gives the manager\<close>

text \<open>
  What a loaded model hands back: the planned pool and the facts read from its files.  The KV bytes
  are what its allocators reserve (\<open>planned_reserved\<close>).
\<close>

record model_facts =
  mf_architecture :: string
  mf_vocab :: nat
  mf_layers :: nat
  mf_weights :: nat

definition load_result_of :: "kv_block_params \<Rightarrow> model_facts \<Rightarrow> kv_plan \<Rightarrow> load_result" where
  "load_result_of p facts plan =
     \<lparr>lr_max_seq_len = pl_context plan, lr_capacity = pl_num_blocks plan * kv_block,
      lr_architecture = mf_architecture facts, lr_vocab = mf_vocab facts, lr_layers = mf_layers facts,
      lr_weights = mf_weights facts, lr_kv = pl_num_blocks plan * kv_bytes_per_block p (pl_mode plan)\<rparr>"

definition target_load ::
    "machine \<Rightarrow> kv_block_params \<Rightarrow> (nat \<Rightarrow> kv_plan \<Rightarrow> load_error + built_model) \<Rightarrow> (nat \<Rightarrow> bool) \<Rightarrow> model_facts \<Rightarrow>
     kv_budget \<Rightarrow> kv_budget \<times> (load_error + load_result)" where
  "target_load M p build survives facts b =
     (case load_batch_model M p build survives b of
        (b', Inl e) \<Rightarrow> (b', Inl e)
      | (b', Inr (plan, bm)) \<Rightarrow> (b', Inr (load_result_of p facts plan)))"

text \<open>How many sequences the scheduler of a model runs at once.\<close>

definition scheduler_max_seqs :: "nat option \<Rightarrow> nat \<Rightarrow> nat \<Rightarrow> nat \<Rightarrow> nat" where
  "scheduler_max_seqs requested context block total_blocks =
     (let blocks_per_seq = max (div_ceil context block) 1;
          dynamic_max = max 1 (min (total_blocks div blocks_per_seq) 256)
      in case requested of Some n \<Rightarrow> min n dynamic_max | None \<Rightarrow> dynamic_max)"

text \<open>
  The contract between the loader and the manager: a load leaves the total, never takes the count
  past it, and leaves at least what the loaded model reserves counted.
\<close>

locale budget_loader =
  fixes load :: "kv_budget \<Rightarrow> kv_budget \<times> (load_error + load_result)"
  assumes load_bounded: "load b = (b', r) \<Longrightarrow> kb_allocated b \<le> kb_total b \<Longrightarrow>
      kb_total b' = kb_total b \<and> kb_allocated b' \<le> kb_total b"
    and load_counts: "load b = (b', r) \<Longrightarrow>
      kb_allocated b + (case r of Inl e \<Rightarrow> 0 | Inr lr \<Rightarrow> lr_kv lr) \<le> kb_allocated b'"
begin

text \<open>A draft's bytes are counted by nobody but the budget.\<close>

lemma load_never_shrinks: "kb_allocated b \<le> kb_allocated (fst (load b))"
  using load_counts [of b "fst (load b)" "snd (load b)"] by simp

lemma load_fst_bounded: "kb_allocated b \<le> kb_total b \<Longrightarrow>
    kb_total (fst (load b)) = kb_total b \<and> kb_allocated (fst (load b)) \<le> kb_total b"
  using load_bounded [of b "fst (load b)" "snd (load b)"] by simp

end

interpretation target: budget_loader "target_load M p build survives facts"
  for M p build survives facts
proof
  fix b b' r
  assume l: "target_load M p build survives facts b = (b', r)"
  obtain r1 where r1: "load_retrying M p build survives kv_retry_halvings None b = (b', r1)"
      "r = (case r1 of Inl e \<Rightarrow> Inl e | Inr (plan, bm) \<Rightarrow> Inr (load_result_of p facts plan))"
    using l by (auto simp: target_load_def load_batch_model_def split: prod.splits sum.splits)
  show "kb_total b' = kb_total b \<and> kb_allocated b' \<le> kb_total b" if "kb_allocated b \<le> kb_total b"
    using load_retrying_total [OF r1(1) that] .
  show "kb_allocated b + (case r of Inl e \<Rightarrow> 0 | Inr lr \<Rightarrow> lr_kv lr) \<le> kb_allocated b'"
  proof (cases r1)
    case (Inl e)
    then show ?thesis using load_retrying_grows [OF r1(1)] r1(2) by simp
  next
    case (Inr pb)
    obtain plan bm where pb: "pb = (plan, bm)" by (cases pb)
    have "lr_kv (load_result_of p facts plan) \<le> pl_acquired plan"
      using load_retrying_plan [OF r1(1) [unfolded Inr pb]] by (simp add: load_result_of_def)
    then show ?thesis using load_retrying_grows [OF r1(1)] r1(2) Inr pb by simp
  qed
qed

end
