(* ===== verification/Manager_Steps.thy ===== *)
theory Manager_Steps
  imports Model_Manager
begin

text \<open>
  The model manager as a system: requests, the eviction task, and the loads in flight, each a
  loader thread and the task that installs its result, interleaved in any order.  Every step is
  one critical section of the manager's lock or one action of a thread between two of them; an
  attempt to load is one step.  What the loads themselves end in, the files, the machine and the
  clock are arbitrary.
\<close>

section \<open>The steps\<close>

record world =
  w_mgr :: manager
  w_jobs :: "job list"
  w_next :: nat

definition finished :: "job \<Rightarrow> bool" where
  "finished j \<longleftrightarrow> jb_companion j = Finished_task"

abbreviation finish :: "job \<Rightarrow> job" where
  "finish j \<equiv> j\<lparr>jb_companion := Finished_task\<rparr>"

text \<open>A step of the load whose engine has the shutdown flag \<open>k\<close>.\<close>

inductive job_step :: "machine \<Rightarrow> nat \<Rightarrow> manager \<times> job \<Rightarrow> manager \<times> job \<Rightarrow> bool" for M k where
  start_fails: "jb_loader j = Starting \<Longrightarrow> job_step M k (m, j) (m, loader_fail_start j)"
| reserve: "jb_loader j = Starting \<Longrightarrow> job_step M k (m, j) (loader_reserve m j)"
| try_load: "jb_loader j = Trying res \<Longrightarrow>
    job_step M k (m, j) (loader_try (target_load M p build survives facts) m j res)"
| send: "jb_loader j = Loaded r res \<Longrightarrow> job_step M k (m, j) (m, loader_send j r res)"
| draft: "jb_loader j = Sent r res \<Longrightarrow>
    job_step M k (m, j) (loader_draft (target_load M p build survives facts) m j r res)"
| run_engine: "jb_loader j = Building r \<Longrightarrow> job_step M k (m, j) (m, j\<lparr>jb_loader := Running_engine r\<rparr>)"
| panic: "jb_loader j \<noteq> Gone \<Longrightarrow> \<forall>r. jb_loader j \<noteq> Running_engine r \<and> jb_loader j \<noteq> Unwinding r \<Longrightarrow>
    job_step M k (m, j) (m, loader_panic j)"
| leave: "jb_loader j = Running_engine r \<Longrightarrow> job_step M k (m, j) (m, j\<lparr>jb_loader := Unwinding r\<rparr>)"
| unwind: "jb_loader j = Unwinding r \<Longrightarrow> job_step M k (m, j) (guard_drop m k (jb_model j), j\<lparr>jb_loader := Gone\<rparr>)"
| closed: "jb_companion j = Awaiting \<Longrightarrow> jb_message j = Message (Inr r) \<Longrightarrow> channel_closed j \<Longrightarrow>
    job_step M k (m, j) (install_closed m (jb_model j) r, finish j)"
| checked: "jb_companion j = Awaiting \<Longrightarrow> jb_message j = Message (Inr r) \<Longrightarrow> \<not> channel_closed j \<Longrightarrow>
    job_step M k (m, j) (m, j\<lparr>jb_companion := Checked r\<rparr>)"
| install: "jb_companion j = Checked r \<Longrightarrow>
    job_step M k (m, j) (install_ready m k (jb_model j) r (jb_keep_alive j) now, finish j)"
| failed: "jb_companion j = Awaiting \<Longrightarrow> jb_message j = Message (Inl e) \<Longrightarrow>
    job_step M k (m, j) (install_failure m (jb_model j) e, finish j)"
| dropped: "jb_companion j = Awaiting \<Longrightarrow> jb_message j = Sender_dropped \<Longrightarrow>
    job_step M k (m, j) (install_failure m (jb_model j) Other, finish j)"

text \<open>A load of the world takes a step.\<close>

inductive load_step :: "machine \<Rightarrow> world \<Rightarrow> world \<Rightarrow> bool" for M where
  load_step: "k < length (w_jobs w) \<Longrightarrow> job_step M k (w_mgr w, w_jobs w ! k) (m, j) \<Longrightarrow>
    load_step M w (w\<lparr>w_mgr := m, w_jobs := (w_jobs w)[k := j]\<rparr>)"

text \<open>A request for a model, with the world's next channel; and any step of the server.\<close>

definition request :: "manager_env \<Rightarrow> world \<Rightarrow> nat \<Rightarrow> string \<Rightarrow> nat option \<Rightarrow> world \<times> get_result" where
  "request E w now i keep =
     (case get_or_load E (w_mgr w) now i (w_next w) keep of
        (m, res, spawned) \<Rightarrow>
          (w\<lparr>w_mgr := m,
             w_jobs := w_jobs w @ (case spawned of None \<Rightarrow> [] | Some x \<Rightarrow> [job_new x]),
             w_next := (case res of Got _ \<Rightarrow> w_next w | Wait \<Rightarrow> Suc (w_next w))\<rparr>, res))"

inductive world_step :: "machine \<Rightarrow> world \<Rightarrow> world \<Rightarrow> bool" for M where
  requested: "me_machine E = M \<Longrightarrow> world_step M w (fst (request E w now i keep))"
| expire: "world_step M w (w\<lparr>w_mgr := evict_expired (w_mgr w) now\<rparr>)"
| loads: "load_step M w w' \<Longrightarrow> world_step M w w'"

definition world_new :: "machine \<Rightarrow> nat \<Rightarrow> nat option \<Rightarrow> (string \<rightharpoonup> registry_entry) \<Rightarrow> bool \<Rightarrow> string option \<Rightarrow> string set \<Rightarrow> world" where
  "world_new M keep budget registry is_cpu draft valid_ids =
     \<lparr>w_mgr = manager_new M keep budget registry is_cpu draft valid_ids, w_jobs = [], w_next = 0\<rparr>"

inductive reachable_world :: "machine \<Rightarrow> world \<Rightarrow> bool" for M where
  start: "reachable_world M (world_new M keep budget registry is_cpu draft valid_ids)"
| step: "reachable_world M w \<Longrightarrow> world_step M w w' \<Longrightarrow> reachable_world M w'"

inductive_cases load_stepE: "load_step M w w'"

section \<open>Slots as a map\<close>

text \<open>What the requests of a slot, and of a list of slots, are waiting for.\<close>

definition slot_waiters :: "slot_state \<Rightarrow> nat list" where
  "slot_waiters s = (case s of Loading ws \<Rightarrow> ws | Ready _ \<Rightarrow> [])"

definition waiting_on :: "manager \<Rightarrow> nat list" where
  "waiting_on m = concat (map (\<lambda>(i, s). slot_waiters s) (mg_slots m))"

definition slots_kv :: "manager \<Rightarrow> nat" where
  "slots_kv m = sum_list (map (\<lambda>(i, s). slot_kv s) (mg_slots m))"

definition slots_ok :: "manager \<Rightarrow> bool" where
  "slots_ok m \<longleftrightarrow> distinct (map fst (mg_slots m))"

abbreviation slot :: "manager \<Rightarrow> string \<Rightarrow> slot_state option" where
  "slot m i \<equiv> map_of (mg_slots m) i"

lemma manager_simps [simp]:
  "mg_slots (remove_slot m i) = filter (\<lambda>(j, s). j \<noteq> i) (mg_slots m)"
  "mg_kv_budget (remove_slot m i) = mg_kv_budget m"
  "mg_answers (remove_slot m i) = mg_answers m"
  "mg_memory_budget (remove_slot m i) = mg_memory_budget m"
  "mg_kv_budget (put_slot m i s) = mg_kv_budget m"
  "mg_answers (put_slot m i s) = mg_answers m"
  "mg_memory_budget (put_slot m i s) = mg_memory_budget m"
  "mg_slots (release_kv m n) = mg_slots m"
  "mg_kv_budget (release_kv m n) = release (mg_kv_budget m) n"
  "mg_answers (release_kv m n) = mg_answers m"
  "mg_slots (raise_flag m f) = mg_slots m"
  "mg_kv_budget (raise_flag m f) = mg_kv_budget m"
  "mg_answers (raise_flag m f) = mg_answers m"
  "mg_slots (answer m ws a) = mg_slots m"
  "mg_kv_budget (answer m ws a) = mg_kv_budget m"
  "mg_answers (answer m ws a) = mg_answers m @ map (\<lambda>w. (w, a)) ws"
  "mg_slots (update_registry m i arch v l b kv now) = mg_slots m"
  "mg_kv_budget (update_registry m i arch v l b kv now) = mg_kv_budget m"
  "mg_answers (update_registry m i arch v l b kv now) = mg_answers m"
  "mg_memory_budget (update_registry m i arch v l b kv now) = mg_memory_budget m"
  by (simp_all add: remove_slot_def put_slot_def release_kv_def raise_flag_def answer_def update_registry_def)

lemma map_of_filter_ne: "map_of (filter (\<lambda>(j, s). j \<noteq> i) xs) k = (if k = i then None else map_of xs k)"
  by (induction xs) auto

lemma slot_remove [simp]: "slot (remove_slot m i) k = (if k = i then None else slot m k)"
  by (simp add: map_of_filter_ne)

lemma slot_put [simp]: "slot (put_slot m i s) k = (if k = i then Some s else slot m k)"
proof (cases "i \<in> fst ` set (mg_slots m)")
  case True
  have "map_of (map (\<lambda>(j, t). (j, if j = i then s else t)) xs) k
      = (if k = i then map_option (\<lambda>_. s) (map_of xs i) else map_of xs k)" for xs :: "(string \<times> slot_state) list"
  proof (induction xs)
    case (Cons x xs)
    then show ?case by (cases x; cases "k = i") auto
  qed simp
  moreover obtain t where "slot m i = Some t" using True by (metis map_of_eq_None_iff option.exhaust)
  ultimately show ?thesis using True unfolding put_slot_def by simp
next
  case False
  then have "slot m i = None" by (simp add: map_of_eq_None_iff)
  moreover have "map_of (xs @ [(i, s)]) k = (if map_of xs k = None \<and> k = i then Some s else map_of xs k)"
    for xs :: "(string \<times> slot_state) list"
    by (induction xs) auto
  ultimately show ?thesis using False unfolding put_slot_def by simp
qed

lemma slots_ok_remove [simp]: "slots_ok m \<Longrightarrow> slots_ok (remove_slot m i)"
  by (auto simp: slots_ok_def intro: distinct_map_filter)

lemma slots_ok_put [simp]: "slots_ok m \<Longrightarrow> slots_ok (put_slot m i s)"
  by (force simp: slots_ok_def put_slot_def comp_def case_prod_beta)

lemma remove_put [simp]: "mg_slots (remove_slot (put_slot m i s) i) = mg_slots (remove_slot m i)"
proof -
  have "filter (\<lambda>(j, s). j \<noteq> i) (map (\<lambda>(j, t). (j, if j = i then s else t)) xs) = filter (\<lambda>(j, s). j \<noteq> i) xs"
    for xs :: "(string \<times> slot_state) list"
    by (induction xs) auto
  then show ?thesis by (simp add: put_slot_def)
qed

lemma split_slot:
  assumes "slots_ok m" and "slot m i = Some s"
  shows "slots_kv m = slot_kv s + slots_kv (remove_slot m i)"
    and "mset (waiting_on m) = mset (slot_waiters s) + mset (waiting_on (remove_slot m i))"
proof -
  have "distinct (map fst xs) \<Longrightarrow> map_of xs i = Some s \<Longrightarrow>
      sum_list (map (\<lambda>(i, s). slot_kv s) xs) = slot_kv s + sum_list (map (\<lambda>(i, s). slot_kv s) (filter (\<lambda>(j, s). j \<noteq> i) xs)) \<and>
      mset (concat (map (\<lambda>(i, s). slot_waiters s) xs))
        = mset (slot_waiters s) + mset (concat (map (\<lambda>(i, s). slot_waiters s) (filter (\<lambda>(j, s). j \<noteq> i) xs)))" for xs
  proof (induction xs)
    case (Cons x xs)
    obtain j t where x: "x = (j, t)" by (cases x)
    show ?case
    proof (cases "j = i")
      case True
      then have "filter (\<lambda>(j, s). j \<noteq> i) xs = xs" using Cons.prems x by (force intro: filter_True)
      then show ?thesis using Cons.prems x True by simp
    next
      case False
      then show ?thesis using Cons x by simp
    qed
  qed simp
  from this [of "mg_slots m"] assms
  show "slots_kv m = slot_kv s + slots_kv (remove_slot m i)"
    and "mset (waiting_on m) = mset (slot_waiters s) + mset (waiting_on (remove_slot m i))"
    by (simp_all add: slots_ok_def slots_kv_def waiting_on_def)
qed

lemma remove_absent: "slot m i = None \<Longrightarrow> remove_slot m i = m"
proof -
  assume "slot m i = None"
  then have "filter (\<lambda>(j, s). j \<noteq> i) (mg_slots m) = mg_slots m"
    by (force simp: map_of_eq_None_iff intro: filter_True)
  then show ?thesis by (simp add: remove_slot_def)
qed

lemma sums_put:
  assumes "slots_ok m"
  shows "slots_kv (put_slot m i s) = slot_kv s + slots_kv (remove_slot m i)"
    and "mset (waiting_on (put_slot m i s)) = mset (slot_waiters s) + mset (waiting_on (remove_slot m i))"
  using split_slot [of "put_slot m i s" i s] assms
  by (simp_all add: slots_kv_def waiting_on_def del: manager_simps(1))

lemma same_slots:
  "mg_slots m' = mg_slots m \<Longrightarrow> slots_kv m' = slots_kv m"
  "mg_slots m' = mg_slots m \<Longrightarrow> waiting_on m' = waiting_on m"
  "mg_slots m' = mg_slots m \<Longrightarrow> slots_ok m' = slots_ok m"
  by (simp_all add: slots_kv_def waiting_on_def slots_ok_def)

section \<open>What a step does to the slots\<close>

text \<open>Ready slots went, and nothing else.\<close>

definition fewer :: "manager \<Rightarrow> manager \<Rightarrow> bool" where
  "fewer m m' \<longleftrightarrow>
     slots_ok m' \<and> (\<forall>i. slot m' i = slot m i \<or> slot m' i = None \<and> (\<exists>r. slot m i = Some (Ready r)))
     \<and> mset (waiting_on m') = mset (waiting_on m) \<and> mg_answers m' = mg_answers m"

text \<open>The load of model \<open>i\<close> with flag \<open>k\<close> is settled: its slot is gone or ready, its waiters are answered.\<close>

definition settled :: "nat \<Rightarrow> string \<Rightarrow> manager \<Rightarrow> manager \<Rightarrow> bool" where
  "settled k i m m' \<longleftrightarrow>
     slots_ok m' \<and> (\<forall>l. l \<noteq> i \<longrightarrow> slot m' l = slot m l)
     \<and> (slot m' i = None \<or> (\<exists>r. slot m' i = Some (Ready r) \<and> rs_shutdown r = k))
     \<and> mset (waiting_on m' @ map fst (mg_answers m')) = mset (waiting_on m @ map fst (mg_answers m))"

lemma fewer_refl [simp]: "slots_ok m \<Longrightarrow> fewer m m"
  by (simp add: fewer_def)

lemma fewerD: "fewer m m' \<Longrightarrow> slot m' i = slot m i \<or> slot m' i = None \<and> (\<exists>r. slot m i = Some (Ready r))"
  unfolding fewer_def by blast

lemma fewer_trans: "fewer m m1 \<Longrightarrow> fewer m1 m2 \<Longrightarrow> fewer m m2"
proof -
  assume a: "fewer m m1" "fewer m1 m2"
  have "slot m2 i = slot m i \<or> slot m2 i = None \<and> (\<exists>r. slot m i = Some (Ready r))" for i
    using fewerD [OF a(1), of i] fewerD [OF a(2), of i] by metis
  then show "fewer m m2" using a by (simp add: fewer_def)
qed

lemma fewer_same: "slots_ok m \<Longrightarrow> mg_slots m' = mg_slots m \<Longrightarrow> mg_answers m' = mg_answers m \<Longrightarrow> fewer m m'"
  using same_slots [of m' m] by (simp add: fewer_def)

lemma fewer_unloadable: "fewer m m' \<Longrightarrow> \<forall>ws. slot m i \<noteq> Some (Loading ws) \<Longrightarrow> slot m' i \<noteq> Some (Loading ws)"
proof -
  assume a: "fewer m m'" "\<forall>ws. slot m i \<noteq> Some (Loading ws)"
  show ?thesis using fewerD [OF a(1), of i] a(2) by (metis option.distinct(1))
qed

lemma fewer_remove_ready:
  assumes "slots_ok m" and "\<forall>ws. slot m i \<noteq> Some (Loading ws)"
  shows "fewer m (remove_slot m i)"
proof (cases "slot m i")
  case None
  then show ?thesis using assms(1) by (simp add: remove_absent)
next
  case (Some s)
  then obtain r where r: "s = Ready r" using assms(2) by (cases s) auto
  then show ?thesis using split_slot [OF assms(1) Some] Some assms(1)
    by (simp add: fewer_def slot_waiters_def slots_ok_remove del: manager_simps(1))
qed

lemma unload_eq:
  "unload m i = (case slot m i of
     Some (Ready r) \<Rightarrow> raise_flag (release_kv (remove_slot m i) (rs_kv r)) (rs_shutdown r)
   | _ \<Rightarrow> release_kv (remove_slot m i) 0)"
  by (auto simp: unload_def remove_slot_def release_kv_def raise_flag_def split: option.splits slot_state.splits)

lemma fewer_unload:
  assumes "slots_ok m" and "\<forall>ws. slot m i \<noteq> Some (Loading ws)"
  shows "fewer m (unload m i)"
proof -
  have "mg_slots (unload m i) = mg_slots (remove_slot m i)" "mg_answers (unload m i) = mg_answers (remove_slot m i)"
    by (simp_all add: unload_eq split: option.splits slot_state.splits)
  then show ?thesis
    using fewer_same [of "remove_slot m i" "unload m i"] fewer_remove_ready [OF assms] fewer_trans assms(1) slots_ok_remove
    by blast
qed

lemma fewer_evict_one:
  assumes "slots_ok m" and "evict_lru_one m = Some (m', i, freed)"
  shows "fewer m m'" and "\<exists>r. slot m i = Some (Ready r)" and "m' = unload m i"
proof -
  obtain r where r: "(i, r) \<in> set (ready_slots m)" "m' = unload m i"
    using assms(2) min_by_key_mem [of _ "ready_slots m"] by (fastforce simp: evict_lru_one_def split: option.splits)
  then have s: "slot m i = Some (Ready r)" using assms(1) by (simp add: ready_slots_mem slots_ok_def)
  then show "\<exists>r. slot m i = Some (Ready r)" "m' = unload m i" using r by simp_all
  show "fewer m m'" using fewer_unload [OF assms(1), of i] s r by simp
qed

section \<open>Where the bytes are\<close>

text \<open>
  The bytes a job holds: set aside for its draft, in the model it loaded, or in the result that
  waits to be installed.  \<open>pays m x m' x'\<close>: a step that leaves a job holding \<open>x'\<close> of the
  \<open>x\<close> it held keeps the count within the total, and whatever the slots and the job no
  longer hold is either given back or, at least, still counted.  An engine that was evicted holds
  nothing here although its pool stays in memory until its loop ends: the code gives its bytes back
  when it removes the slot, before it raises the flag that ends the loop.  These are the bytes of
  the budget's books, not those of the device.
\<close>

definition opt_bytes :: "nat option \<Rightarrow> nat" where
  "opt_bytes res = (case res of Some n \<Rightarrow> n | None \<Rightarrow> 0)"

definition loader_bytes :: "loader \<Rightarrow> nat" where
  "loader_bytes l =
     (case l of Trying res \<Rightarrow> opt_bytes res | Loaded r res \<Rightarrow> lr_kv r + opt_bytes res | Sent r res \<Rightarrow> opt_bytes res | _ \<Rightarrow> 0)"

definition message_bytes :: "message \<Rightarrow> nat" where
  "message_bytes msg = (case msg of Message (Inr r) \<Rightarrow> lr_kv r | _ \<Rightarrow> 0)"

definition held_bytes :: "job \<Rightarrow> nat" where
  "held_bytes j = loader_bytes (jb_loader j) + (if finished j then 0 else message_bytes (jb_message j))"

abbreviation counted :: "manager \<Rightarrow> nat" where
  "counted m \<equiv> kb_allocated (mg_kv_budget m)"

abbreviation kv_total :: "manager \<Rightarrow> nat" where
  "kv_total m \<equiv> kb_total (mg_kv_budget m)"

definition pays :: "manager \<Rightarrow> nat \<Rightarrow> manager \<Rightarrow> nat \<Rightarrow> bool" where
  "pays m x m' x' \<longleftrightarrow>
     (slots_kv m + x \<le> counted m \<longrightarrow> counted m \<le> kv_total m \<longrightarrow>
        kv_total m' = kv_total m \<and> counted m' \<le> kv_total m
        \<and> slots_kv m' + x' + counted m \<le> slots_kv m + x + counted m')"

lemma paysD:
  assumes "pays m x m' x'" and "slots_kv m + x \<le> counted m" and "counted m \<le> kv_total m"
  shows "kv_total m' = kv_total m" "counted m' \<le> kv_total m"
    "slots_kv m' + x' + counted m \<le> slots_kv m + x + counted m'"
  using assms unfolding pays_def by blast+

lemma pays_trans:
  assumes "pays m x m1 x1" and "pays m1 x1 m2 x2"
  shows "pays m x m2 x2"
  unfolding pays_def
proof (intro impI)
  assume "slots_kv m + x \<le> counted m" "counted m \<le> kv_total m"
  note 1 = this paysD [OF assms(1) this]
  then have "slots_kv m1 + x1 \<le> counted m1" "counted m1 \<le> kv_total m1" by linarith+
  from paysD [OF assms(2) this] 1
  show "kv_total m2 = kv_total m \<and> counted m2 \<le> kv_total m \<and> slots_kv m2 + x2 + counted m \<le> slots_kv m + x + counted m2"
    by linarith
qed

lemma pays_frame: "pays m x m' x' \<Longrightarrow> pays m (x + y) m' (x' + y)"
  unfolding pays_def by linarith

lemma pays_same: "mg_slots m' = mg_slots m \<Longrightarrow> mg_kv_budget m' = mg_kv_budget m \<Longrightarrow> x' \<le> x \<Longrightarrow> pays m x m' x'"
  using same_slots(1) [of m' m] by (simp add: pays_def)

lemma pays_drop: "x' \<le> x \<Longrightarrow> pays m x m x'"
  by (simp add: pays_def)

lemma pays_release: "pays m (x + n) (release_kv m n) x"
  using same_slots(1) [of "release_kv m n" m] unfolding pays_def by auto

lemma pays_release_opt: "pays m (opt_bytes res) (release_opt m res) 0"
  using pays_release [of m 0] by (auto simp: opt_bytes_def release_opt_def pays_drop split: option.splits)

lemma pays_remove:
  assumes "slots_ok m" and "slot m i = Some s"
  shows "pays m x (remove_slot m i) (x + slot_kv s)"
  using split_slot(1) [OF assms] by (simp add: pays_def del: manager_simps(1))

lemma pays_unload:
  assumes "slots_ok m" and "\<forall>ws. slot m i \<noteq> Some (Loading ws)"
  shows "pays m x (unload m i) x"
proof (cases "slot m i")
  case None
  then show ?thesis
    using pays_release [of m x 0] by (simp add: unload_eq remove_absent)
next
  case (Some s)
  then obtain r where r: "s = Ready r" using assms(2) by (cases s) auto
  have "pays m x (remove_slot m i) (x + rs_kv r)" using pays_remove [OF assms(1) Some, of x] r by (simp add: slot_kv_def)
  moreover have "pays (remove_slot m i) (x + rs_kv r) (release_kv (remove_slot m i) (rs_kv r)) x" by (rule pays_release)
  moreover have "pays (release_kv (remove_slot m i) (rs_kv r)) x (unload m i) x"
    using Some r by (intro pays_same) (simp_all add: unload_eq)
  ultimately show ?thesis using pays_trans by blast
qed

lemma pays_evict_one: "slots_ok m \<Longrightarrow> evict_lru_one m = Some (m', i, freed) \<Longrightarrow> pays m x m' x"
  using fewer_evict_one [of m m' i freed] pays_unload [of m i x] by fastforce

lemma evict_for_bytes_ok: "slots_ok m \<Longrightarrow> evict_lru_for_bytes E m needed = (m', n) \<Longrightarrow> fewer m m' \<and> pays m x m' x"
proof (induction E m needed arbitrary: m' n rule: evict_lru_for_bytes.induct)
  case (1 E m needed)
  show ?case
  proof (cases "total_loaded_bytes m + needed \<le> commitment E m \<or> evict_lru_one m = None")
    case True
    then have "m' = m" using 1(3) by (auto simp: evict_lru_for_bytes.simps [of E m] split: if_splits)
    then show ?thesis using 1(2) by (simp add: pays_drop)
  next
    case False
    then obtain m1 i freed where e: "evict_lru_one m = Some (m1, i, freed)" by (metis not_None_eq prod_cases3)
    then obtain n1 where r: "evict_lru_for_bytes E m1 needed = (m', n1)"
      using 1(3) False by (auto simp: evict_lru_for_bytes.simps [of E m] split: prod.splits)
    have f: "fewer m m1" using fewer_evict_one [OF 1(2) e] by simp
    then have "slots_ok m1" by (simp add: fewer_def)
    then have "fewer m1 m' \<and> pays m1 x m' x" using 1(1) [OF _ e refl refl _ r] False by simp
    then show ?thesis using f pays_evict_one [OF 1(2) e, of x] fewer_trans pays_trans by blast
  qed
qed

lemma unload_all_ok:
  "slots_ok m \<Longrightarrow> \<forall>i \<in> set is. \<forall>ws. slot m i \<noteq> Some (Loading ws) \<Longrightarrow>
     fewer m (fold (\<lambda>i m. unload m i) is m) \<and> pays m x (fold (\<lambda>i m. unload m i) is m) x"
proof (induction "is" arbitrary: m)
  case Nil
  then show ?case by (simp add: pays_drop)
next
  case (Cons i "is")
  have f: "fewer m (unload m i)" "pays m x (unload m i) x" using fewer_unload pays_unload Cons.prems by simp_all
  moreover have "slots_ok (unload m i)" using f by (simp add: fewer_def)
  moreover have "\<forall>l \<in> set is. \<forall>ws. slot (unload m i) l \<noteq> Some (Loading ws)"
    using fewer_unloadable [OF f(1)] Cons.prems(2) by simp
  ultimately show ?case using Cons.IH [of "unload m i"] fewer_trans [OF f(1)] pays_trans [OF f(2)] by simp
qed

lemma evict_expired_ok: "slots_ok m \<Longrightarrow> fewer m (evict_expired m now) \<and> pays m x (evict_expired m now) x"
  unfolding evict_expired_def
proof (rule unload_all_ok)
  assume "slots_ok m"
  then show "\<forall>i \<in> set (expired_ids m now). \<forall>ws. slot m i \<noteq> Some (Loading ws)"
    by (auto simp: expired_ids_def ready_slots_mem slots_ok_def dest: eq_key_imp_eq_value)
qed

section \<open>What a load's steps do\<close>

text \<open>The stage of the thread, the message and the task of a load fit together.\<close>

definition job_ok :: "job \<Rightarrow> bool" where
  "job_ok j \<longleftrightarrow>
     (case jb_loader j of
        Starting \<Rightarrow> jb_message j = Nothing_yet
      | Trying _ \<Rightarrow> jb_message j = Nothing_yet
      | Loaded _ _ \<Rightarrow> jb_message j = Nothing_yet
      | Sent r _ \<Rightarrow> jb_message j = Message (Inr r)
      | Building r \<Rightarrow> jb_message j = Message (Inr r)
      | Running_engine r \<Rightarrow> jb_message j = Message (Inr r)
      | Unwinding r \<Rightarrow> jb_message j = Message (Inr r)
      | Gone \<Rightarrow> jb_message j \<noteq> Nothing_yet)
     \<and> (\<forall>r. jb_companion j = Checked r \<longrightarrow> jb_message j = Message (Inr r))
     \<and> (jb_companion j = Finished_task \<longrightarrow> jb_message j \<noteq> Nothing_yet)"

lemmas bytes_simps = held_bytes_def loader_bytes_def message_bytes_def opt_bytes_def finished_def

lemma settled_remove:
  assumes "slots_ok m" and "slot m i = Some (Loading ws)"
    and "mg_slots m' = mg_slots (remove_slot m i)" and "map fst (mg_answers m') = map fst (mg_answers m) @ ws"
  shows "settled k i m m'"
proof -
  note [simp] = same_slots(2,3) [OF assms(3)] assms(3,4)
  have s: "slot m' l = (if l = i then None else slot m l)" for l
    using slot_remove [of m i l] assms(3) by simp
  show ?thesis using split_slot(2) [OF assms(1,2)] assms(1)
    by (simp add: settled_def s slot_waiters_def slots_ok_remove del: manager_simps(1))
qed

lemma settled_put:
  assumes "slots_ok m" and "slot m i = Some (Loading ws)" and "rs_shutdown r = k"
    and "mg_slots m' = mg_slots (put_slot (remove_slot m i) i (Ready r))"
    and "map fst (mg_answers m') = map fst (mg_answers m) @ ws"
  shows "settled k i m m'"
proof -
  have "remove_slot (remove_slot m i) i = remove_slot m i" by (simp add: remove_slot_def)
  then have w: "mset (waiting_on m') = mset (waiting_on (remove_slot m i))"
    using sums_put(2) [of "remove_slot m i" i "Ready r"] assms(1) same_slots(2) [OF assms(4)] by (simp add: slot_waiters_def)
  have s: "slot m' l = (if l = i then Some (Ready r) else slot m l)" for l
    using slot_put [of "remove_slot m i" i "Ready r" l] slot_remove [of m i l] assms(4) by simp
  have "slots_ok m'" using same_slots(3) [OF assms(4)] assms(1) by simp
  then show ?thesis using split_slot(2) [OF assms(1,2)] w assms(3,5)
    by (simp add: settled_def s slot_waiters_def)
qed

lemma pays_put:
  assumes "slots_ok m" and "slot m i = None"
  shows "pays m (x + slot_kv s) (put_slot m i s) x"
  using sums_put(1) [OF assms(1), of i s] remove_absent [OF assms(2)] by (simp add: pays_def)

lemma pays_remove_loading:
  "slots_ok m \<Longrightarrow> slot m i = Some (Loading ws) \<Longrightarrow> pays m x (remove_slot m i) x"
  using pays_remove [of m i "Loading ws" x] by (simp add: slot_kv_def)

lemma install_failure_ok:
  assumes "slots_ok m" and "slot m i = Some (Loading ws)"
  shows "settled k i m (install_failure m i e)" and "pays m x (install_failure m i e) x"
proof -
  show "settled k i m (install_failure m i e)"
    using assms by (intro settled_remove) (simp_all add: install_failure_def waiters_of_def comp_def)
  have "pays (remove_slot m i) x (install_failure m i e) x" by (intro pays_same) (simp_all add: install_failure_def)
  then show "pays m x (install_failure m i e) x" using pays_remove_loading [OF assms] pays_trans by blast
qed

lemma install_closed_ok:
  assumes "slots_ok m" and "slot m i = Some (Loading ws)"
  shows "settled k i m (install_closed m i r)" and "pays m (x + lr_kv r) (install_closed m i r) x"
proof -
  show "settled k i m (install_closed m i r)"
    using assms by (intro settled_remove) (simp_all add: install_closed_def waiters_of_def comp_def)
  have "pays (release_kv (remove_slot m i) (lr_kv r)) x (install_closed m i r) x"
    by (intro pays_same) (simp_all add: install_closed_def)
  then show "pays m (x + lr_kv r) (install_closed m i r) x"
    using pays_remove_loading [OF assms] pays_release pays_trans by blast
qed

lemma install_ready_ok:
  assumes "slots_ok m" and "slot m i = Some (Loading ws)"
  shows "settled k i m (install_ready m k i r keep now)" and "pays m (x + lr_kv r) (install_ready m k i r keep now) x"
proof -
  define m0 where "m0 = update_registry (remove_slot m i) i (lr_architecture r) (lr_vocab r) (lr_layers r) (lr_weights r) (lr_kv r) now"
  define s where "s = ready_of r keep k now"
  define m1 where "m1 = put_slot m0 i (Ready s)"
  have ws: "waiters_of m i = ws" using assms(2) by (simp add: waiters_of_def)
  have m0: "mg_slots m0 = mg_slots (remove_slot m i)" "mg_answers m0 = mg_answers m" by (simp_all add: m0_def)
  then have ok: "slots_ok m0" "slot m0 i = None"
    using assms(1) same_slots(3) [OF m0(1)] slot_remove [of m i i] by simp_all
  have m1: "mg_slots m1 = mg_slots (put_slot (remove_slot m i) i (Ready s))" "mg_answers m1 = mg_answers m"
    using m0 by (simp_all add: m1_def put_slot_def)
  have k: "rs_shutdown s = k" "rs_kv s = lr_kv r" by (simp_all add: s_def ready_of_def)
  have ok1: "slots_ok m1" "slot m1 i = Some (Ready s)" using ok(1) by (simp_all add: m1_def)
  have "install_ready m k i r keep now =
      (if (case mg_memory_budget m of Some b \<Rightarrow> b < total_loaded_bytes m1 | None \<Rightarrow> False)
       then answer (unload m1 i) ws (Inl Memory) else answer m1 ws (Inr (handle_of s)))"
    by (cases "mg_memory_budget m") (simp_all add: install_ready_def Let_def ws m0_def m1_def s_def)
  then consider a where "install_ready m k i r keep now = answer m1 ws a"
    | a where "install_ready m k i r keep now = answer (unload m1 i) ws a" by metis
  note shape = this
  have p1: "pays m (x + lr_kv r) m1 x"
  proof -
    have "pays m (x + lr_kv r) (remove_slot m i) (x + lr_kv r)" by (rule pays_remove_loading [OF assms])
    moreover have "pays (remove_slot m i) (x + lr_kv r) m0 (x + lr_kv r)"
      by (intro pays_same) (simp_all add: m0_def)
    moreover have "pays m0 (x + lr_kv r) m1 x" using pays_put [OF ok, of x "Ready s"] by (simp add: m1_def slot_kv_def k)
    ultimately show ?thesis using pays_trans by blast
  qed
  show "settled k i m (install_ready m k i r keep now)"
  proof (cases rule: shape)
    case (1 a)
    show ?thesis unfolding 1 using assms k m1 by (intro settled_put) (simp_all add: comp_def)
  next
    case (2 a)
    have "mg_slots (unload m1 i) = mg_slots (remove_slot m i)"
      using m0(1) by (simp add: unload_slots m1_def put_slot_def filter_map comp_def)
        (auto simp: unload_slots m1_def put_slot_def)
    moreover have "mg_answers (unload m1 i) = mg_answers m"
      using m1(2) ok1(2) by (simp add: unload_eq)
    ultimately show ?thesis unfolding 2 using assms by (intro settled_remove) (simp_all add: comp_def)
  qed
  show "pays m (x + lr_kv r) (install_ready m k i r keep now) x"
  proof (cases rule: shape)
    case (1 a)
    have "pays m1 x (answer m1 ws a) x" by (intro pays_same) simp_all
    then show ?thesis unfolding 1 using p1 pays_trans by blast
  next
    case (2 a)
    have "pays m1 x (unload m1 i) x" using ok1 by (intro pays_unload) simp_all
    moreover have "pays (unload m1 i) x (answer (unload m1 i) ws a) x" by (intro pays_same) simp_all
    ultimately show ?thesis unfolding 2 using p1 pays_trans by blast
  qed
qed

text \<open>A change of the budget alone.\<close>

abbreviation set_kv :: "manager \<Rightarrow> kv_budget \<Rightarrow> manager" where
  "set_kv m b \<equiv> m\<lparr>mg_kv_budget := b\<rparr>"

lemma pays_kv:
  assumes "counted m \<le> kv_total m \<Longrightarrow> kb_total b = kv_total m \<and> kb_allocated b \<le> kv_total m"
    and "x' + counted m \<le> x + kb_allocated b"
  shows "pays m x (set_kv m b) x'"
  using assms same_slots(1) [of "set_kv m b" m] by (simp add: pays_def)

lemma pays_load:
  assumes "target_load M p build survives facts (mg_kv_budget m) = (b, r)"
  shows "pays m x (set_kv m b) (x + (case r of Inl e \<Rightarrow> 0 | Inr lr \<Rightarrow> lr_kv lr))"
  using target.load_bounded [OF assms] target.load_counts [OF assms] by (intro pays_kv) simp_all

lemma fewer_set_kv [simp]: "slots_ok m \<Longrightarrow> fewer m (set_kv m b)"
  by (intro fewer_same) simp_all

lemma loader_reserve_ok:
  assumes "slots_ok m" and "jb_loader j = Starting" and "job_ok j" and "loader_reserve m j = (m', j')"
  shows "fewer m m' \<and> pays m (held_bytes j) m' (held_bytes j') \<and> job_ok j' \<and> finished j' = finished j \<and> jb_model j' = jb_model j"
proof (cases "jb_draft j")
  case None
  then have "m' = m" "j' = j\<lparr>jb_loader := Trying None\<rparr>" using assms(4) by (simp_all add: loader_reserve_def)
  then show ?thesis using assms by (auto simp: bytes_simps job_ok_def pays_drop)
next
  case (Some d)
  obtain b n where a: "acquire (mg_kv_budget m) (available_bytes (mg_kv_budget m) div 2) = (b, n)" by (metis surj_pair)
  then have r: "m' = set_kv m b" "j' = j\<lparr>jb_loader := Trying (Some n)\<rparr>" using assms(4) Some by (simp_all add: loader_reserve_def)
  have "pays m (held_bytes j) (set_kv m b) (held_bytes j')"
    using acquireD [OF a] assms(2,3) r(2) by (intro pays_kv) (auto simp: bytes_simps job_ok_def available_bytes_def)
  then show ?thesis using assms r by (auto simp: job_ok_def finished_def)
qed

lemma loader_try_ok:
  assumes "slots_ok m" and "jb_loader j = Trying res" and "job_ok j"
    and "loader_try (target_load M p build survives facts) m j res = (m', j')"
  shows "fewer m m' \<and> pays m (held_bytes j) m' (held_bytes j') \<and> job_ok j' \<and> finished j' = finished j \<and> jb_model j' = jb_model j"
proof -
  obtain b r where l: "target_load M p build survives facts (mg_kv_budget m) = (b, r)" by (metis surj_pair)
  have msg: "jb_message j = Nothing_yet" and fin: "\<not> finished j"
    using assms(2,3) by (auto simp: job_ok_def finished_def)
  have held: "held_bytes j = opt_bytes res" by (simp add: held_bytes_def loader_bytes_def assms(2) msg message_bytes_def)
  have f: "fewer m (set_kv m b)" "slots_ok (set_kv m b)" using assms(1) by (simp_all add: slots_ok_def)
  note p = pays_load [OF l, of "opt_bytes res"]
  show ?thesis
  proof (cases r)
    case (Inr lr)
    then have "m' = set_kv m b" "j' = j\<lparr>jb_loader := Loaded lr res\<rparr>" using assms(4) l by (simp_all add: loader_try_def)
    then show ?thesis using f p Inr msg fin assms(3) held
      by (simp add: held_bytes_def loader_bytes_def message_bytes_def job_ok_def assms(2) finished_def add.commute)
  next
    case (Inl e)
    define room where "room = (case e of Kv_budget_exhausted _ _ \<Rightarrow> evict_lru_one (set_kv m b) | _ \<Rightarrow> None)"
    show ?thesis
    proof (cases room)
      case (Some mif)
      obtain m2 i freed where mif: "mif = (m2, i, freed)" by (metis prod_cases3)
      then have ev: "evict_lru_one (set_kv m b) = Some (m2, i, freed)"
        using Some by (auto simp: room_def split: load_error.splits)
      have "m' = m2" "j' = j" using assms(4) l Inl Some mif by (simp_all add: loader_try_def Let_def room_def [symmetric])
      then show ?thesis
        using fewer_trans [OF f(1) fewer_evict_one(1) [OF f(2) ev]] pays_trans [OF p pays_evict_one [OF f(2) ev]] Inl assms(3) held
        by simp
    next
      case None
      then have r: "m' = release_opt (set_kv m b) res" "j' = j\<lparr>jb_loader := Gone, jb_message := Message (Inl (failure_of e))\<rparr>"
        using assms(4) l Inl by (simp_all add: loader_try_def Let_def room_def [symmetric])
      have "fewer (set_kv m b) m'" using r(1) f(2) by (intro fewer_same) (auto simp: release_opt_def split: option.splits)
      then show ?thesis
        using fewer_trans [OF f(1)] pays_trans [OF p] pays_release_opt [of "set_kv m b" res] Inl r fin msg assms(2,3) held
        by (auto simp: held_bytes_def loader_bytes_def message_bytes_def job_ok_def finished_def)
    qed
  qed
qed

lemma loader_draft_ok:
  assumes "slots_ok m" and "jb_loader j = Sent r res" and "job_ok j"
    and "loader_draft (target_load M p build survives facts) m j r res = (m', j')"
  shows "fewer m m' \<and> pays m (held_bytes j) m' (held_bytes j') \<and> job_ok j' \<and> finished j' = finished j \<and> jb_model j' = jb_model j"
proof -
  define m1 where "m1 = release_opt m res"
  define y where "y = (if finished j then 0 else message_bytes (jb_message j))"
  have j': "j' = j\<lparr>jb_loader := Building r\<rparr>" using assms(4) by (simp add: loader_draft_def Let_def split: option.splits)
  have held: "held_bytes j = opt_bytes res + y" "held_bytes j' = 0 + y"
    using assms(2) j' by (simp_all add: held_bytes_def loader_bytes_def y_def finished_def)
  have f1: "fewer m m1" using assms(1) by (intro fewer_same) (auto simp: m1_def release_opt_def split: option.splits)
  have ok1: "slots_ok m1" using f1 by (simp add: fewer_def)
  have p1: "pays m (held_bytes j) m1 (held_bytes j')"
    unfolding held by (rule pays_frame) (simp add: m1_def pays_release_opt)
  have "fewer m1 m' \<and> pays m1 (held_bytes j') m' (held_bytes j')"
  proof (cases "jb_draft j")
    case None
    then have "m' = m1" using assms(4) by (simp add: loader_draft_def Let_def m1_def)
    then show ?thesis using ok1 by (simp add: pays_drop)
  next
    case (Some d)
    obtain b lr where l: "target_load M p build survives facts (mg_kv_budget m1) = (b, lr)" by (metis surj_pair)
    then have m': "m' = set_kv m1 b" using assms(4) Some by (simp add: loader_draft_def Let_def m1_def)
    have "pays m1 (held_bytes j') m' (held_bytes j' + (case lr of Inl e \<Rightarrow> 0 | Inr r \<Rightarrow> lr_kv r))"
      unfolding m' by (rule pays_load [OF l])
    moreover have "pays m' (held_bytes j' + (case lr of Inl e \<Rightarrow> 0 | Inr r \<Rightarrow> lr_kv r)) m' (held_bytes j')"
      by (rule pays_drop) simp
    ultimately show ?thesis using pays_trans ok1 m' by simp
  qed
  moreover have "job_ok j'" using assms(2,3) j' by (auto simp: job_ok_def)
  ultimately show ?thesis using fewer_trans [OF f1] pays_trans [OF p1] j' by (simp add: finished_def)
qed

lemma guard_drop_ok: "slots_ok m \<Longrightarrow> fewer m (guard_drop m k i) \<and> pays m x (guard_drop m k i) x"
proof (cases "\<exists>r. slot m i = Some (Ready r) \<and> rs_shutdown r = k")
  case True
  assume ok: "slots_ok m"
  obtain r where r: "slot m i = Some (Ready r)" "rs_shutdown r = k" using True by blast
  then have g: "guard_drop m k i = release_kv (remove_slot m i) (rs_kv r)" by (simp add: guard_drop_def)
  have "fewer m (remove_slot m i)" using ok r by (intro fewer_remove_ready) simp_all
  moreover have "fewer (remove_slot m i) (guard_drop m k i)" unfolding g using ok by (intro fewer_same) simp_all
  moreover have "pays m x (guard_drop m k i) x"
    using pays_trans [OF pays_remove [OF ok r(1), of x] ] pays_release [of "remove_slot m i" x "rs_kv r"]
    by (simp add: g slot_kv_def)
  ultimately show ?thesis using fewer_trans by blast
next
  case False
  assume ok: "slots_ok m"
  have "guard_drop m k i = m" using False by (auto simp: guard_drop_def split: option.splits slot_state.splits)
  then show ?thesis using ok by (simp add: pays_drop)
qed

text \<open>Any step of a load: what it does to its job, to the bytes and to the slots.\<close>

definition job_effect :: "nat \<Rightarrow> manager \<Rightarrow> job \<Rightarrow> manager \<Rightarrow> job \<Rightarrow> bool" where
  "job_effect k m j m' j' \<longleftrightarrow>
     job_ok j' \<and> jb_model j' = jb_model j \<and> pays m (held_bytes j) m' (held_bytes j')
     \<and> (finished j' = finished j \<and> fewer m m' \<or>
        \<not> finished j \<and> finished j' \<and> settled k (jb_model j) m m')"

lemma job_ok_task:
  "job_ok j \<Longrightarrow> jb_message j \<noteq> Nothing_yet \<Longrightarrow> job_ok (finish j)"
  "job_ok j \<Longrightarrow> jb_message j = Message (Inr r) \<Longrightarrow> job_ok (j\<lparr>jb_companion := Checked r\<rparr>)"
  by (cases "jb_loader j"; simp add: job_ok_def)+

lemma job_step_effect:
  assumes "job_step M k (m, j) (m', j')" and ok: "slots_ok m" and job: "job_ok j"
    and loading: "\<not> finished j \<Longrightarrow> \<exists>ws. slot m (jb_model j) = Some (Loading ws)"
  shows "job_effect k m j m' j'"
  using assms(1)
proof (cases rule: job_step.cases)
  case start_fails
  then show ?thesis using ok job by (auto simp: job_effect_def job_ok_def bytes_simps loader_fail_start_def pays_drop)
next
  case reserve
  then show ?thesis using loader_reserve_ok [OF ok _ job] unfolding job_effect_def by metis
next
  case (try_load res p build survives facts)
  then show ?thesis using loader_try_ok [OF ok _ job] unfolding job_effect_def by metis
next
  case (send r res)
  then show ?thesis using ok job by (auto simp: job_effect_def job_ok_def bytes_simps loader_send_def pays_drop)
next
  case (draft r res p build survives facts)
  then show ?thesis using loader_draft_ok [OF ok _ job] unfolding job_effect_def by metis
next
  case (run_engine r)
  then show ?thesis using ok job by (auto simp: job_effect_def job_ok_def bytes_simps pays_drop)
next
  case panic
  then show ?thesis using ok job
    by (cases "jb_loader j") (auto simp: job_effect_def job_ok_def bytes_simps loader_panic_def intro!: pays_drop)
next
  case (leave r)
  then show ?thesis using ok job by (auto simp: job_effect_def job_ok_def bytes_simps pays_drop)
next
  case (unwind r)
  then show ?thesis using job guard_drop_ok [OF ok, of k "jb_model j" "held_bytes j"]
    by (auto simp: job_effect_def job_ok_def bytes_simps)
next
  case (closed r)
  then obtain ws where s: "slot m (jb_model j) = Some (Loading ws)" using loading by (auto simp: finished_def)
  have "held_bytes j = loader_bytes (jb_loader j) + lr_kv r" "held_bytes j' = loader_bytes (jb_loader j)"
    using closed by (simp_all add: held_bytes_def finished_def message_bytes_def)
  then show ?thesis using closed job install_closed_ok [OF ok s]
    by (auto simp: job_effect_def job_ok_task finished_def)
next
  case (checked r)
  then show ?thesis using ok job by (auto simp: job_effect_def job_ok_task held_bytes_def finished_def pays_drop)
next
  case (install r now)
  then obtain ws where s: "slot m (jb_model j) = Some (Loading ws)" using loading by (auto simp: finished_def)
  have msg: "jb_message j = Message (Inr r)" using install job by (auto simp: job_ok_def)
  then have "held_bytes j = loader_bytes (jb_loader j) + lr_kv r" "held_bytes j' = loader_bytes (jb_loader j)"
    using install by (simp_all add: held_bytes_def finished_def message_bytes_def)
  then show ?thesis using install job msg install_ready_ok [OF ok s]
    by (auto simp: job_effect_def job_ok_task finished_def)
next
  case (failed e)
  then obtain ws where s: "slot m (jb_model j) = Some (Loading ws)" using loading by (auto simp: finished_def)
  have "held_bytes j' = held_bytes j" using failed by (simp add: held_bytes_def finished_def message_bytes_def)
  then show ?thesis using failed job install_failure_ok [OF ok s]
    by (auto simp: job_effect_def job_ok_task finished_def)
next
  case dropped
  then obtain ws where s: "slot m (jb_model j) = Some (Loading ws)" using loading by (auto simp: finished_def)
  have "held_bytes j' = held_bytes j" using dropped by (simp add: held_bytes_def finished_def message_bytes_def)
  then show ?thesis using dropped job install_failure_ok [OF ok s]
    by (auto simp: job_effect_def job_ok_task finished_def)
qed

section \<open>What holds of every reachable world\<close>

text \<open>The KV bytes of the slots and of the loads.\<close>

definition jobs_bytes :: "job list \<Rightarrow> nat" where
  "jobs_bytes js = sum_list (map held_bytes js)"

definition bytes_in_use :: "world \<Rightarrow> nat" where
  "bytes_in_use w = slots_kv (w_mgr w) + jobs_bytes (w_jobs w)"

definition loading_job :: "world \<Rightarrow> nat \<Rightarrow> string \<Rightarrow> bool" where
  "loading_job w k i \<longleftrightarrow> k < length (w_jobs w) \<and> jb_model (w_jobs w ! k) = i \<and> \<not> finished (w_jobs w ! k)"

text \<open>
  One slot per model; a model is loading exactly when one load of it is under way; a ready slot
  is the one some finished load of its model installed.
\<close>

definition loads_ok :: "world \<Rightarrow> bool" where
  "loads_ok w \<longleftrightarrow>
     slots_ok (w_mgr w) \<and> (\<forall>j \<in> set (w_jobs w). job_ok j)
     \<and> (\<forall>i. (\<exists>ws. slot (w_mgr w) i = Some (Loading ws)) \<longleftrightarrow> (\<exists>k. loading_job w k i))
     \<and> (\<forall>i k l. loading_job w k i \<longrightarrow> loading_job w l i \<longrightarrow> k = l)
     \<and> (\<forall>i r. slot (w_mgr w) i = Some (Ready r) \<longrightarrow>
          rs_shutdown r < length (w_jobs w) \<and> jb_model (w_jobs w ! rs_shutdown r) = i
          \<and> finished (w_jobs w ! rs_shutdown r))"

definition waiters_ok :: "world \<Rightarrow> bool" where
  "waiters_ok w \<longleftrightarrow>
     mset (waiting_on (w_mgr w) @ map fst (mg_answers (w_mgr w))) = mset [0..<w_next w]"

definition bytes_ok :: "world \<Rightarrow> bool" where
  "bytes_ok w \<longleftrightarrow> bytes_in_use w \<le> counted (w_mgr w) \<and> counted (w_mgr w) \<le> kv_total (w_mgr w)"

end
