(* ===== verification/Manager_Props.thy ===== *)
theory Manager_Props
  imports Manager_Steps
begin

text \<open>
  What holds of every run of the model manager: one load per model, every waiting request
  answered once, the KV bytes within the budget, and loads that end.  Then what the manager does
  not do: it loses bytes for good, and it can go on handing out an engine that is dead.
\<close>

section \<open>Steps of a load\<close>

lemma loads_okD:
  assumes "loads_ok w"
  shows "slots_ok (w_mgr w)" and "\<And>k. k < length (w_jobs w) \<Longrightarrow> job_ok (w_jobs w ! k)"
    and "\<And>i. (\<exists>ws. slot (w_mgr w) i = Some (Loading ws)) \<longleftrightarrow> (\<exists>k. loading_job w k i)"
    and "\<And>i k l. loading_job w k i \<Longrightarrow> loading_job w l i \<Longrightarrow> k = l"
    and "\<And>i r. slot (w_mgr w) i = Some (Ready r) \<Longrightarrow>
      rs_shutdown r < length (w_jobs w) \<and> jb_model (w_jobs w ! rs_shutdown r) = i \<and> finished (w_jobs w ! rs_shutdown r)"
  using assms unfolding loads_ok_def by (blast intro: nth_mem)+

lemma fewer_loading: "fewer m m' \<Longrightarrow> slot m' i = Some (Loading ws) \<longleftrightarrow> slot m i = Some (Loading ws)"
  using fewerD [of m m' i] by auto

lemma fewer_ready: "fewer m m' \<Longrightarrow> slot m' i = Some (Ready r) \<Longrightarrow> slot m i = Some (Ready r)"
  using fewerD [of m m' i] by auto

lemma loading_job_cong:
  "w_jobs w' = w_jobs w \<Longrightarrow> loading_job w' k i = loading_job w k i"
  by (simp add: loading_job_def)

lemma loads_ok_fewer:
  assumes "loads_ok w" and "fewer (w_mgr w) m"
  shows "loads_ok (w\<lparr>w_mgr := m\<rparr>)"
proof -
  have j: "loading_job (w\<lparr>w_mgr := m\<rparr>) = loading_job w" by (intro ext loading_job_cong) simp
  have "slots_ok m" using assms(2) by (simp add: fewer_def)
  moreover have "rs_shutdown r < length (w_jobs w) \<and> jb_model (w_jobs w ! rs_shutdown r) = i
      \<and> finished (w_jobs w ! rs_shutdown r)" if "slot m i = Some (Ready r)" for i r
    using loads_okD(5) [OF assms(1) fewer_ready [OF assms(2) that]] .
  moreover have "\<forall>j \<in> set (w_jobs w). job_ok j" using assms(1) by (simp add: loads_ok_def)
  ultimately show ?thesis
    unfolding loads_ok_def j using loads_okD(3,4) [OF assms(1)] fewer_loading [OF assms(2)] by simp
qed

lemma load_step_loads:
  assumes ok: "loads_ok w" and k: "k < length (w_jobs w)"
    and e: "job_effect k (w_mgr w) (w_jobs w ! k) m j"
  shows "loads_ok (w\<lparr>w_mgr := m, w_jobs := (w_jobs w)[k := j]\<rparr>)" (is "loads_ok ?w")
proof -
  let ?j = "w_jobs w ! k"
  have j: "job_ok j" "jb_model j = jb_model ?j" using e by (simp_all add: job_effect_def)
  have jobs: "\<forall>j \<in> set (w_jobs ?w). job_ok j"
    using ok j(1) set_update_subset_insert [of "w_jobs w" k j] by (auto simp: loads_ok_def)
  consider (kept) "finished j = finished ?j" "fewer (w_mgr w) m"
    | (settled) "\<not> finished ?j" "finished j" "settled k (jb_model ?j) (w_mgr w) m"
    using e by (auto simp: job_effect_def)
  then show ?thesis
  proof cases
    case kept
    have l: "loading_job ?w = loading_job w"
      using j(2) kept(1) k by (intro ext) (auto simp: loading_job_def nth_list_update)
    have "slots_ok m" using kept(2) by (simp add: fewer_def)
    moreover have "rs_shutdown r < length (w_jobs ?w) \<and> jb_model (w_jobs ?w ! rs_shutdown r) = i
        \<and> finished (w_jobs ?w ! rs_shutdown r)" if "slot m i = Some (Ready r)" for i r
      using loads_okD(5) [OF ok fewer_ready [OF kept(2) that]] j(2) kept(1) k by (simp add: nth_list_update)
    ultimately show ?thesis
      unfolding loads_ok_def l using loads_okD(3,4) [OF ok] jobs fewer_loading [OF kept(2)] by simp
  next
    case settled
    let ?i = "jb_model ?j"
    have mine: "loading_job w k ?i" using k settled(1) by (simp add: loading_job_def)
    have l: "loading_job ?w l i \<longleftrightarrow> l \<noteq> k \<and> loading_job w l i" for l i
      using settled(2) k by (auto simp: loading_job_def nth_list_update)
    have st: "slots_ok m" "\<And>l. l \<noteq> ?i \<Longrightarrow> slot m l = slot (w_mgr w) l"
        "slot m ?i = None \<or> (\<exists>r. slot m ?i = Some (Ready r) \<and> rs_shutdown r = k)"
      using settled(3) by (simp_all add: settled_def)
    have ready: "rs_shutdown r < length (w_jobs ?w) \<and> jb_model (w_jobs ?w ! rs_shutdown r) = i
        \<and> finished (w_jobs ?w ! rs_shutdown r)" if "slot m i = Some (Ready r)" for i r
    proof (cases "i = ?i")
      case True
      then have "rs_shutdown r = k" using st(3) that by auto
      then show ?thesis using True k j(2) settled(2) by simp
    next
      case False
      then have "slot (w_mgr w) i = Some (Ready r)" using st(2) that by simp
      then show ?thesis using loads_okD(5) [OF ok, of i r] False settled(2) j(2) k by (auto simp: nth_list_update)
    qed
    have "(\<exists>ws. slot m i = Some (Loading ws)) \<longleftrightarrow> (\<exists>l. loading_job ?w l i)" for i
    proof (cases "i = ?i")
      case True
      then show ?thesis using st(3) loads_okD(4) [OF ok mine] l by auto
    next
      case False
      have "\<not> loading_job w k i" using False by (auto simp: loading_job_def)
      then show ?thesis using st(2) [OF False] loads_okD(3) [OF ok, of i] l by metis
    qed
    then show ?thesis unfolding loads_ok_def using st(1) jobs ready loads_okD(4) [OF ok] l by simp blast
  qed
qed

lemma job_effect_of_step:
  assumes "loads_ok w" and "k < length (w_jobs w)" and "job_step M k (w_mgr w, w_jobs w ! k) (m, j)"
  shows "job_effect k (w_mgr w) (w_jobs w ! k) m j"
proof (rule job_step_effect [OF assms(3)])
  show "slots_ok (w_mgr w)" "job_ok (w_jobs w ! k)" using loads_okD assms(1,2) by blast+
  assume "\<not> finished (w_jobs w ! k)"
  then have "loading_job w k (jb_model (w_jobs w ! k))" using assms(2) by (simp add: loading_job_def)
  then show "\<exists>ws. slot (w_mgr w) (jb_model (w_jobs w ! k)) = Some (Loading ws)"
    using loads_okD(3) [OF assms(1)] by blast
qed

lemma jobs_bytes_update: "k < length js \<Longrightarrow> \<exists>y. jobs_bytes js = held_bytes (js ! k) + y \<and> jobs_bytes (js[k := j]) = held_bytes j + y"
proof (induction js arbitrary: k)
  case (Cons a js)
  show ?case
  proof (cases k)
    case 0
    then show ?thesis by (auto simp: jobs_bytes_def)
  next
    case (Suc l)
    then obtain y where "jobs_bytes js = held_bytes (js ! l) + y" "jobs_bytes (js[l := j]) = held_bytes j + y"
      using Cons by auto
    then show ?thesis using Suc by (intro exI [of _ "held_bytes a + y"]) (simp add: jobs_bytes_def)
  qed
qed simp

text \<open>The world's side of \<open>pays\<close>.\<close>

definition world_pays :: "world \<Rightarrow> world \<Rightarrow> bool" where
  "world_pays w w' \<longleftrightarrow> pays (w_mgr w) (jobs_bytes (w_jobs w)) (w_mgr w') (jobs_bytes (w_jobs w'))"

lemma load_step_pays:
  assumes "k < length (w_jobs w)" and "job_effect k (w_mgr w) (w_jobs w ! k) m j"
  shows "world_pays w (w\<lparr>w_mgr := m, w_jobs := (w_jobs w)[k := j]\<rparr>)"
proof -
  obtain y where "jobs_bytes (w_jobs w) = held_bytes (w_jobs w ! k) + y"
      "jobs_bytes ((w_jobs w)[k := j]) = held_bytes j + y"
    using jobs_bytes_update [OF assms(1)] by blast
  then show ?thesis using assms(2) pays_frame by (simp add: world_pays_def job_effect_def)
qed

lemma load_step_waiters:
  assumes "waiters_ok w" and "job_effect k (w_mgr w) (w_jobs w ! k) m j"
  shows "waiters_ok (w\<lparr>w_mgr := m, w_jobs := js\<rparr>)"
  using assms by (auto simp: waiters_ok_def job_effect_def fewer_def settled_def)

section \<open>Requests\<close>

text \<open>What a request can do: be refused, be given the ready engine, join the load under way, or start one.\<close>

lemma request_cases:
  assumes "request E w now i keep = (w', res)"
  obtains (unknown) "\<not> me_resolve E i" "res = Wait"
      "w' = w\<lparr>w_mgr := answer (w_mgr w) [w_next w] (Inl Not_found), w_next := Suc (w_next w)\<rparr>"
  | (ready) r r' where "slot (w_mgr w) i = Some (Ready r)" "rs_shutdown r' = rs_shutdown r" "rs_kv r' = rs_kv r"
      "rs_last_used r' = now" "res = Got (handle_of r')" "w' = w\<lparr>w_mgr := put_slot (w_mgr w) i (Ready r')\<rparr>"
  | (joins) ws where "slot (w_mgr w) i = Some (Loading ws)" "res = Wait"
      "w' = w\<lparr>w_mgr := put_slot (w_mgr w) i (Loading (ws @ [w_next w])), w_next := Suc (w_next w)\<rparr>"
  | (starts) keep' draft m n where "slot (w_mgr w) i = None" "res = Wait"
      "evict_lru_for_bytes E (w_mgr w) (projected_size_bytes E (w_mgr w) i) = (m, n)"
      "w' = w\<lparr>w_mgr := put_slot m i (Loading [w_next w]), w_jobs := w_jobs w @ [job_new (i, keep', draft)],
               w_next := Suc (w_next w)\<rparr>"
proof (cases "me_resolve E i")
  case False
  then show thesis using assms unknown by (simp add: request_def get_or_load_def)
next
  case True
  show thesis
  proof (cases "slot (w_mgr w) i")
    case None
    obtain m n where e: "evict_lru_for_bytes E (w_mgr w) (projected_size_bytes E (w_mgr w) i) = (m, n)" by (metis surj_pair)
    show thesis using assms True None e by (intro starts [OF None _ e]) (auto simp: request_def get_or_load_def Let_def)
  next
    case (Some st)
    show thesis
    proof (cases st)
      case (Loading ws)
      then show thesis using assms True Some by (intro joins [of ws]) (simp_all add: request_def get_or_load_def)
    next
      case (Ready r)
      define r' where "r' = r\<lparr>rs_last_used := now, rs_keep_alive := (case keep of Some k \<Rightarrow> k | None \<Rightarrow> rs_keep_alive r)\<rparr>"
      then show thesis using assms True Some Ready
        by (intro ready [of r r']) (simp_all add: request_def get_or_load_def Let_def)
    qed
  qed
qed

lemma waiters_put:
  assumes "slots_ok m" and "mset (waiting_on m @ as) = A"
  shows "mset (waiting_on (put_slot m i s) @ as) + mset (case slot m i of Some t \<Rightarrow> slot_waiters t | None \<Rightarrow> [])
    = A + mset (slot_waiters s)"
proof (cases "slot m i")
  case None
  then show ?thesis using sums_put(2) [OF assms(1), of i s] assms(2) remove_absent [OF None] by auto
next
  case (Some t)
  then show ?thesis using sums_put(2) [OF assms(1), of i s] split_slot(2) [OF assms(1) Some] assms(2) by auto
qed

lemma pays_replace:
  assumes "slots_ok m" and "slot m i = Some t" and "slot_kv s = slot_kv t"
  shows "pays m x (put_slot m i s) x"
  using sums_put(1) [OF assms(1), of i s] split_slot(1) [OF assms(1,2)] assms(3) by (simp add: pays_def)

lemma request_ok:
  assumes ok: "loads_ok w" and wt: "waiters_ok w" and r: "request E w now i keep = (w', res)"
  shows "loads_ok w' \<and> waiters_ok w' \<and> world_pays w w'"
  using r
proof (cases rule: request_cases)
  case unknown
  have "loads_ok w' = loads_ok w"
    using unknown(3) by (simp add: loads_ok_def loading_job_def slots_ok_def)
  moreover have "world_pays w w'" using unknown(3) by (auto simp: world_pays_def intro!: pays_same)
  moreover have "waiters_ok w'"
    using wt same_slots(2) [of "w_mgr w'" "w_mgr w"] unknown(3) by (simp add: waiters_ok_def)
  ultimately show ?thesis using ok by simp
next
  case (ready r r')
  have l: "loading_job w' = loading_job w" using ready(6) by (intro ext loading_job_cong) simp
  have "slot (w_mgr w') l = Some (Loading ws) \<longleftrightarrow> slot (w_mgr w) l = Some (Loading ws)" for l ws
    using ready(1,6) by simp
  moreover have "rs_shutdown r2 < length (w_jobs w') \<and> jb_model (w_jobs w' ! rs_shutdown r2) = l
      \<and> finished (w_jobs w' ! rs_shutdown r2)" if "slot (w_mgr w') l = Some (Ready r2)" for l r2
    using that ready(1,2,6) loads_okD(5) [OF ok] by (auto split: if_splits)
  ultimately have "loads_ok w'"
    unfolding loads_ok_def l using ok ready(6) loads_okD(3,4) [OF ok] by (simp add: loads_ok_def del: slot_put)
  moreover have "world_pays w w'"
    using ready(6) pays_replace [OF loads_okD(1) [OF ok] ready(1), of "Ready r'"] ready(3)
    by (simp add: world_pays_def slot_kv_def)
  moreover have "waiters_ok w'"
    using waiters_put [OF loads_okD(1) [OF ok] wt [unfolded waiters_ok_def], of i "Ready r'"] ready(1,6)
    by (simp add: waiters_ok_def slot_waiters_def)
  ultimately show ?thesis by simp
next
  case (joins ws)
  have l: "loading_job w' = loading_job w" using joins(3) by (intro ext loading_job_cong) simp
  have "(\<exists>ws. slot (w_mgr w') l = Some (Loading ws)) \<longleftrightarrow> (\<exists>ws. slot (w_mgr w) l = Some (Loading ws))" for l
    using joins(1,3) by simp
  moreover have "slot (w_mgr w') l = Some (Ready r) \<longleftrightarrow> slot (w_mgr w) l = Some (Ready r)" for l r
    using joins(1,3) by simp
  ultimately have "loads_ok w'"
    unfolding loads_ok_def l using ok joins(3) loads_okD(3,4) [OF ok] by (simp add: loads_ok_def del: slot_put)
  moreover have "world_pays w w'"
    using joins(3) pays_replace [OF loads_okD(1) [OF ok] joins(1), of "Loading (ws @ [w_next w])"]
    by (simp add: world_pays_def slot_kv_def)
  moreover have "waiters_ok w'"
    using waiters_put [OF loads_okD(1) [OF ok] wt [unfolded waiters_ok_def], of i "Loading (ws @ [w_next w])"] joins(1,3)
    by (simp add: waiters_ok_def slot_waiters_def)
  ultimately show ?thesis by simp
next
  case (starts keep' draft m n)
  let ?j = "job_new (i, keep', draft)"
  have f: "fewer (w_mgr w) m" "pays (w_mgr w) x m x" for x
    using evict_for_bytes_ok [OF loads_okD(1) [OF ok] starts(3)] by simp_all
  have okm: "slots_ok m" using f(1) by (simp add: fewer_def)
  have none: "slot m i = None" using fewerD [OF f(1), of i] starts(1) by auto
  have new: "job_ok ?j" "jb_model ?j = i" "\<not> finished ?j" "held_bytes ?j = 0"
    by (simp_all add: job_new_def job_ok_def bytes_simps)
  have old: "\<not> loading_job w k i" for k using loads_okD(3) [OF ok, of i] starts(1) by auto
  have l: "loading_job w' k l \<longleftrightarrow> loading_job w k l \<or> k = length (w_jobs w) \<and> l = i" for k l
    using starts(4) new by (auto simp: loading_job_def nth_append)
  have sl: "slot (w_mgr w') l = (if l = i then Some (Loading [w_next w]) else slot m l)" for l
    using starts(4) by simp
  have "(\<exists>ws. slot (w_mgr w') l = Some (Loading ws)) \<longleftrightarrow> (\<exists>k. loading_job w' k l)" for l
  proof (cases "l = i")
    case False
    then show ?thesis unfolding sl l using fewer_loading [OF f(1), of l] loads_okD(3) [OF ok, of l] by simp
  qed (auto simp: sl l)
  moreover have "k1 = k2" if "loading_job w' k1 l" "loading_job w' k2 l" for k1 k2 l
    using that old loads_okD(4) [OF ok] by (auto simp: l)
  moreover have "rs_shutdown r < length (w_jobs w') \<and> jb_model (w_jobs w' ! rs_shutdown r) = l
      \<and> finished (w_jobs w' ! rs_shutdown r)" if "slot (w_mgr w') l = Some (Ready r)" for l r
    using that starts(4) fewer_ready [OF f(1)] loads_okD(5) [OF ok, of l r] by (auto simp: nth_append split: if_splits)
  moreover have "\<forall>j \<in> set (w_jobs w'). job_ok j" using ok new(1) starts(4) by (simp add: loads_ok_def)
  ultimately have "loads_ok w'" unfolding loads_ok_def using okm starts(4) by simp
  moreover have "world_pays w w'"
  proof -
    have "jobs_bytes (w_jobs w') = jobs_bytes (w_jobs w)" using starts(4) new(4) by (simp add: jobs_bytes_def)
    moreover have "pays m x (put_slot m i (Loading [w_next w])) x" for x
      using pays_put [OF okm none, of x "Loading [w_next w]"] by (simp add: slot_kv_def)
    ultimately show ?thesis using f(2) pays_trans starts(4) unfolding world_pays_def by fastforce
  qed
  moreover have "waiters_ok w'"
  proof -
    have "mset (waiting_on m @ map fst (mg_answers m)) = mset [0..<w_next w]"
      using wt f(1) by (simp add: waiters_ok_def fewer_def)
    from waiters_put [OF okm this, of i "Loading [w_next w]"] show ?thesis
      using none starts(4) by (simp add: waiters_ok_def slot_waiters_def)
  qed
  ultimately show ?thesis by simp
qed

section \<open>Every run\<close>

lemma world_step_ok:
  assumes "world_step M w w'" and ok: "loads_ok w" and wt: "waiters_ok w"
  shows "loads_ok w' \<and> waiters_ok w' \<and> world_pays w w'"
  using assms(1)
proof cases
  case (requested E now i keep)
  then show ?thesis using request_ok [OF ok wt] by (metis prod.collapse)
next
  case (expire now)
  have f: "fewer (w_mgr w) (evict_expired (w_mgr w) now)" "pays (w_mgr w) x (evict_expired (w_mgr w) now) x" for x
    using evict_expired_ok [OF loads_okD(1) [OF ok]] by simp_all
  then show ?thesis using expire loads_ok_fewer [OF ok f(1)] wt by (simp add: world_pays_def waiters_ok_def fewer_def)
next
  case loads
  then show ?thesis
  proof cases
    case (load_step k m j)
    note e = job_effect_of_step [OF ok load_step(2,3)]
    show ?thesis unfolding load_step(1)
      using load_step_loads [OF ok load_step(2) e] load_step_pays [OF load_step(2) e] load_step_waiters [OF wt e] by simp
  qed
qed

lemma world_paysD:
  assumes "world_pays w w'" and "bytes_ok w"
  shows "bytes_ok w'" and "kv_total (w_mgr w') = kv_total (w_mgr w)"
    and "bytes_in_use w' + counted (w_mgr w) \<le> bytes_in_use w + counted (w_mgr w')"
proof -
  have b: "slots_kv (w_mgr w) + jobs_bytes (w_jobs w) \<le> counted (w_mgr w)" "counted (w_mgr w) \<le> kv_total (w_mgr w)"
    using assms(2) by (simp_all add: bytes_ok_def bytes_in_use_def)
  note p = paysD [OF assms(1) [unfolded world_pays_def] b]
  show "kv_total (w_mgr w') = kv_total (w_mgr w)" by (rule p(1))
  show "bytes_in_use w' + counted (w_mgr w) \<le> bytes_in_use w + counted (w_mgr w')" "bytes_ok w'"
    using p b by (simp_all add: bytes_ok_def bytes_in_use_def)
qed

lemma world_new_ok: "loads_ok (world_new M keep budget registry is_cpu draft valid_ids)"
  "waiters_ok (world_new M keep budget registry is_cpu draft valid_ids)"
  "bytes_ok (world_new M keep budget registry is_cpu draft valid_ids)"
  by (simp_all add: world_new_def manager_new_def loads_ok_def waiters_ok_def bytes_ok_def slots_ok_def loading_job_def
      waiting_on_def bytes_in_use_def slots_kv_def jobs_bytes_def kv_budget_new_def)

lemma reachable_world_ok: "reachable_world M w \<Longrightarrow> loads_ok w \<and> waiters_ok w \<and> bytes_ok w"
proof (induction rule: reachable_world.induct)
  case start
  then show ?case using world_new_ok by simp
next
  case (step w w')
  then show ?case using world_step_ok world_paysD(1) by blast
qed

section \<open>Loads end\<close>

text \<open>How much a load has still to do.\<close>

fun loader_rank :: "loader \<Rightarrow> nat" where
  "loader_rank Starting = 7"
| "loader_rank (Trying _) = 6"
| "loader_rank (Loaded _ _) = 5"
| "loader_rank (Sent _ _) = 4"
| "loader_rank (Building _) = 3"
| "loader_rank (Running_engine _) = 2"
| "loader_rank (Unwinding _) = 1"
| "loader_rank Gone = 0"

fun task_rank :: "companion \<Rightarrow> nat" where
  "task_rank Awaiting = 2"
| "task_rank (Checked _) = 1"
| "task_rank Finished_task = 0"

definition rank :: "job \<Rightarrow> nat" where
  "rank j = loader_rank (jb_loader j) + task_rank (jb_companion j)"

lemma loader_try_rank:
  assumes "jb_loader j = Trying res" and "loader_try load m j res = (m', j')"
  shows "rank j' < rank j \<or> rank j' = rank j \<and> length (mg_slots m') < length (mg_slots m)"
proof -
  obtain b r where l: "load (mg_kv_budget m) = (b, r)" by (metis surj_pair)
  show ?thesis
  proof (cases r)
    case (Inr lr)
    then show ?thesis using assms l by (auto simp: loader_try_def rank_def)
  next
    case (Inl e)
    define room where "room = (case e of Kv_budget_exhausted _ _ \<Rightarrow> evict_lru_one (set_kv m b) | _ \<Rightarrow> None)"
    show ?thesis
    proof (cases room)
      case None
      then show ?thesis using assms l Inl by (auto simp: loader_try_def Let_def room_def [symmetric] rank_def)
    next
      case (Some x)
      obtain m2 i freed where x: "x = (m2, i, freed)" by (metis prod_cases3)
      then have "evict_lru_one (set_kv m b) = Some (m2, i, freed)"
        using Some by (auto simp: room_def split: load_error.splits)
      from evict_lru_one_shrinks [OF this] show ?thesis
        using assms l Inl Some x by (auto simp: loader_try_def Let_def room_def [symmetric])
    qed
  qed
qed

lemma job_step_rank:
  assumes "job_step M k (m, j) (m', j')"
  shows "rank j' < rank j \<or> rank j' = rank j \<and> length (mg_slots m') < length (mg_slots m)"
  using assms
proof (cases rule: job_step.cases)
  case reserve
  then show ?thesis by (auto simp: loader_reserve_def rank_def split: option.splits prod.splits)
next
  case (try_load res p build survives facts)
  then show ?thesis using loader_try_rank by metis
next
  case (draft r res p build survives facts)
  then show ?thesis by (auto simp: loader_draft_def Let_def rank_def split: option.splits)
next
  case panic
  then show ?thesis by (cases "jb_loader j") (auto simp: loader_panic_def rank_def)
qed (auto simp: rank_def loader_fail_start_def loader_send_def)

lemma sum_rank_update:
  "k < length js \<Longrightarrow> sum_list (map rank (js[k := j])) + rank (js ! k) = sum_list (map rank js) + rank j"
proof (induction js arbitrary: k)
  case (Cons a js)
  then show ?case by (cases k) auto
qed simp

definition work_left :: "world \<Rightarrow> nat \<times> nat" where
  "work_left w = (sum_list (map rank (w_jobs w)), length (mg_slots (w_mgr w)))"

lemma load_step_work: "load_step M w w' \<Longrightarrow> (work_left w', work_left w) \<in> less_than <*lex*> less_than"
proof (induction rule: load_step.induct)
  case (load_step k w m j)
  then show ?case using job_step_rank [OF load_step(2)] sum_rank_update [OF load_step(1), of j]
    by (auto simp: work_left_def)
qed

text \<open>A load that has not settled can take a step, without its engine ending.\<close>

lemma loading_can_step:
  assumes "job_ok j" and "\<not> finished j"
  shows "\<exists>m' j'. job_step M k (m, j) (m', j') \<and> (\<forall>r. jb_loader j' = Unwinding r \<longrightarrow> jb_loader j = Unwinding r)"
proof (cases "jb_message j")
  case Nothing_yet
  then consider "jb_loader j = Starting" | res where "jb_loader j = Trying res" | r res where "jb_loader j = Loaded r res"
    using assms(1) by (cases "jb_loader j") (auto simp: job_ok_def)
  then show ?thesis
  proof cases
    case 1
    then show ?thesis using start_fails [of j M k m] by (fastforce simp: loader_fail_start_def)
  next
    case 2
    then have "job_step M k (m, j) (m, loader_panic j)" by (intro panic) simp_all
    then show ?thesis using 2 by (fastforce simp: loader_panic_def)
  next
    case 3
    then show ?thesis using send [of j _ _ M k m] by (fastforce simp: loader_send_def)
  qed
next
  case (Message x)
  show ?thesis
  proof (cases x)
    case (Inl e)
    then consider "jb_companion j = Awaiting" | r where "jb_companion j = Checked r" using assms(2)
      by (cases "jb_companion j") (auto simp: finished_def)
    then show ?thesis
    proof cases
      case 1
      then show ?thesis using failed [of j e M k m] Message Inl by fastforce
    next
      case 2
      then show ?thesis using assms(1) Message Inl by (auto simp: job_ok_def)
    qed
  next
    case (Inr r)
    then consider "jb_companion j = Awaiting" "channel_closed j" | "jb_companion j = Awaiting" "\<not> channel_closed j"
      | r' where "jb_companion j = Checked r'" using assms(2)
      by (cases "jb_companion j") (auto simp: finished_def)
    then show ?thesis
    proof cases
      case 1
      then show ?thesis using closed [of j r M k m] Message Inr by fastforce
    next
      case 2
      then show ?thesis using checked [of j r M k m] Message Inr by fastforce
    next
      case 3
      then show ?thesis using install [of j r' M k m 0] by fastforce
    qed
  qed
next
  case Sender_dropped
  then consider "jb_companion j = Awaiting" | r where "jb_companion j = Checked r" using assms(2)
    by (cases "jb_companion j") (auto simp: finished_def)
  then show ?thesis
  proof cases
    case 1
    then show ?thesis using dropped [of j M k m] Sender_dropped by fastforce
  next
    case 2
    then show ?thesis using assms(1) Sender_dropped by (auto simp: job_ok_def)
  qed
qed

lemma no_waiting: "slots_ok m \<Longrightarrow> \<forall>i ws. slot m i \<noteq> Some (Loading ws) \<Longrightarrow> waiting_on m = []"
  by (auto simp: waiting_on_def slots_ok_def slot_waiters_def split: slot_state.splits)

section \<open>Two small runs\<close>

text \<open>
  The machine and the model of the budget's example, loaded with a draft under a budget of 40000
  bytes, up to the draft; and loaded alone under 20000 bytes, where the loader panics after the
  task has found its channel open and before the slot is installed.
\<close>

definition demo_facts :: model_facts where
  "demo_facts = \<lparr>mf_architecture = ''Llama'', mf_vocab = 10, mf_layers = 1, mf_weights = 0\<rparr>"

definition demo_env :: manager_env where
  "demo_env = \<lparr>me_resolve = (\<lambda>i. True), me_disk_size = (\<lambda>i. 0), me_machine = demo_machine\<rparr>"

abbreviation demo_load :: "kv_budget \<Rightarrow> kv_budget \<times> (load_error + load_result)" where
  "demo_load \<equiv> target_load demo_machine demo_params (\<lambda>left plan. Inr \<lparr>bm_reserved = 19968, bm_resident = 64\<rparr>)
     (\<lambda>left. True) demo_facts"

definition demo_result :: load_result where
  "demo_result = load_result_of demo_params demo_facts demo_plan"

lemma demo_result_kv [simp]: "lr_kv demo_result = 19968" "lr_weights demo_result = 0"
proof -
  have "kv_bytes_per_block demo_params Off = 64"
    using demo_per_block by (simp add: resolve_kv_quant_def demo_params_def)
  then show "lr_kv demo_result = 19968" "lr_weights demo_result = 0"
    by (simp_all add: demo_result_def load_result_of_def demo_plan_def demo_facts_def)
qed

lemma demo_load_at:
  "available_bytes b = 20000 \<Longrightarrow> demo_load b = (b\<lparr>kb_allocated := kb_allocated b + 20000\<rparr>, Inr demo_result)"
proof -
  assume b: "available_bytes b = 20000"
  have "demo_params\<lparr>kp_retry_cap := None\<rparr> = demo_params" by (simp add: demo_params_def)
  then have "load_attempt demo_machine demo_params (\<lambda>plan. Inr \<lparr>bm_reserved = 19968, bm_resident = 64\<rparr>) None b
      = (b\<lparr>kb_allocated := kb_allocated b + 20000\<rparr>, Inr (demo_plan, \<lparr>bm_reserved = 19968, bm_resident = 64\<rparr>))"
    using demo_compute_at [OF b] by (simp add: load_attempt_def)
  then show ?thesis
    by (simp add: target_load_def load_batch_model_def load_retrying.simps [of _ _ _ _ kv_retry_halvings] demo_result_def)
qed

definition demo_world :: "nat \<Rightarrow> string option \<Rightarrow> world" where
  "demo_world n draft = world_new demo_machine 10 (Some n) Map.empty False draft {}"

definition demo_manager :: "nat \<Rightarrow> string option \<Rightarrow> nat \<Rightarrow> (string \<times> slot_state) list \<Rightarrow> manager" where
  "demo_manager n draft used slots =
     \<lparr>mg_slots = slots, mg_keep_alive = 10, mg_memory_budget = Some n, mg_registry = Map.empty,
      mg_kv_budget = \<lparr>kb_total = n, kb_allocated = used\<rparr>, mg_draft = draft, mg_flags = {}, mg_answers = []\<rparr>"

definition demo_job :: "string option \<Rightarrow> loader \<Rightarrow> message \<Rightarrow> companion \<Rightarrow> job" where
  "demo_job draft l msg c =
     \<lparr>jb_model = ''m'', jb_keep_alive = 10, jb_draft = draft, jb_loader = l, jb_message = msg, jb_companion = c\<rparr>"

definition demo_state :: "nat \<Rightarrow> string option \<Rightarrow> nat \<Rightarrow> job \<Rightarrow> world" where
  "demo_state n draft used j = \<lparr>w_mgr = demo_manager n draft used [(''m'', Loading [0])], w_jobs = [j], w_next = 1\<rparr>"

lemma demo_requested:
  assumes "n \<le> 40000"
  shows "reachable_world demo_machine (demo_state n draft 0 (demo_job draft Starting Nothing_yet Awaiting))"
proof -
  have "detect_system_kv_budget demo_machine (Some n) False = n"
    using assms by (simp add: detect_system_kv_budget_def demo_machine_def min_opt_def Let_def)
  then have w: "demo_world n draft = \<lparr>w_mgr = demo_manager n draft 0 [], w_jobs = [], w_next = 0\<rparr>"
    by (simp add: demo_world_def world_new_def manager_new_def demo_manager_def kv_budget_new_def)
  have "fst (request demo_env (demo_world n draft) 0 ''m'' None) = demo_state n draft 0 (demo_job draft Starting Nothing_yet Awaiting)"
    unfolding w
    by (simp add: request_def get_or_load_def Let_def evict_lru_for_bytes.simps total_loaded_bytes_def projected_size_bytes_def
        demo_manager_def demo_env_def commitment_def put_slot_def demo_state_def demo_job_def job_new_def split: option.split)
  moreover have "world_step demo_machine (demo_world n draft) (fst (request demo_env (demo_world n draft) 0 ''m'' None))"
    by (rule requested) (simp add: demo_env_def)
  ultimately show ?thesis unfolding demo_world_def using reachable_world.start reachable_world.step by metis
qed

lemma demo_step:
  assumes "reachable_world demo_machine (demo_state n draft used j)"
    and "job_step demo_machine 0 (w_mgr (demo_state n draft used j), j) (w_mgr (demo_state n draft used' j'), j')"
  shows "reachable_world demo_machine (demo_state n draft used' j')"
proof -
  have "load_step demo_machine (demo_state n draft used j)
      ((demo_state n draft used j)\<lparr>w_mgr := w_mgr (demo_state n draft used' j'), w_jobs := (w_jobs (demo_state n draft used j))[0 := j']\<rparr>)"
    by (rule load_step.intros) (use assms(2) in \<open>simp_all add: demo_state_def\<close>)
  moreover have "(demo_state n draft used j)\<lparr>w_mgr := w_mgr (demo_state n draft used' j'), w_jobs := (w_jobs (demo_state n draft used j))[0 := j']\<rparr>
      = demo_state n draft used' j'"
    by (simp add: demo_state_def)
  ultimately show ?thesis using assms(1) reachable_world.step world_step.loads by metis
qed

lemma demo_loaded:
  assumes "reachable_world demo_machine (demo_state n draft used (demo_job draft (Trying res) Nothing_yet Awaiting))"
    and "n - used = 20000"
  shows "reachable_world demo_machine (demo_state n draft (used + 20000) (demo_job draft (Sent demo_result res) (Message (Inr demo_result)) Awaiting))"
proof -
  let ?m = "w_mgr (demo_state n draft used (demo_job draft (Trying res) Nothing_yet Awaiting))"
  let ?j = "demo_job draft (Trying res) Nothing_yet Awaiting"
  let ?l = "demo_job draft (Loaded demo_result res) Nothing_yet Awaiting"
  let ?m1 = "w_mgr (demo_state n draft (used + 20000) ?l)"
  have "loader_try demo_load ?m ?j res = (?m1, ?l)"
    using demo_load_at [of "mg_kv_budget ?m"] assms(2)
    by (simp add: loader_try_def demo_state_def demo_manager_def demo_job_def available_bytes_def)
  moreover have "job_step demo_machine 0 (?m, ?j) (loader_try demo_load ?m ?j res)"
    by (rule try_load) (simp add: demo_job_def)
  ultimately have "job_step demo_machine 0 (?m, ?j) (?m1, ?l)" by simp
  note 1 = demo_step [OF assms(1) this]
  have "job_step demo_machine 0 (?m1, ?l) (?m1, loader_send ?l demo_result res)"
    by (rule send) (simp add: demo_job_def)
  moreover have "loader_send ?l demo_result res = demo_job draft (Sent demo_result res) (Message (Inr demo_result)) Awaiting"
    by (simp add: loader_send_def demo_job_def)
  ultimately show ?thesis by (intro demo_step [OF 1]) (simp add: demo_state_def)
qed

text \<open>The first run, at the draft.\<close>

lemma demo_drafting:
  "reachable_world demo_machine (demo_state 40000 (Some ''d'') 40000
     (demo_job (Some ''d'') (Sent demo_result (Some 20000)) (Message (Inr demo_result)) Awaiting))"
proof -
  let ?j = "demo_job (Some ''d'') Starting Nothing_yet Awaiting"
  let ?m = "w_mgr (demo_state 40000 (Some ''d'') 0 ?j)"
  let ?t = "demo_job (Some ''d'') (Trying (Some 20000)) Nothing_yet Awaiting"
  have "loader_reserve ?m ?j = (w_mgr (demo_state 40000 (Some ''d'') 20000 ?t), ?t)"
    by (simp add: loader_reserve_def demo_state_def demo_manager_def demo_job_def acquire_def available_bytes_def Let_def)
  moreover have "job_step demo_machine 0 (?m, ?j) (loader_reserve ?m ?j)"
    by (rule reserve) (simp add: demo_job_def)
  ultimately have "reachable_world demo_machine (demo_state 40000 (Some ''d'') 20000 ?t)"
    by (intro demo_step [OF demo_requested]) simp_all
  from demo_loaded [OF this] show ?thesis by simp
qed

text \<open>The second run: the task finds the channel open, the thread panics, the slot is installed.\<close>

definition dead_slot :: ready_slot where
  "dead_slot = ready_of demo_result 10 0 0"

definition dead_world :: world where
  "dead_world =
     \<lparr>w_mgr = install_ready (demo_manager 20000 None 20000 [(''m'', Loading [0])]) 0 ''m'' demo_result 10 0,
      w_jobs = [demo_job None Gone (Message (Inr demo_result)) Finished_task], w_next = 1\<rparr>"

lemma dead_world_reachable: "reachable_world demo_machine dead_world"
proof -
  let ?j = "demo_job None Starting Nothing_yet Awaiting"
  let ?m = "w_mgr (demo_state 20000 None 0 ?j)"
  let ?t = "demo_job None (Trying None) Nothing_yet Awaiting"
  have "loader_reserve ?m ?j = (w_mgr (demo_state 20000 None 0 ?t), ?t)"
    by (simp add: loader_reserve_def demo_state_def demo_manager_def demo_job_def)
  moreover have "job_step demo_machine 0 (?m, ?j) (loader_reserve ?m ?j)"
    by (rule reserve) (simp add: demo_job_def)
  ultimately have "reachable_world demo_machine (demo_state 20000 None 0 ?t)"
    by (intro demo_step [OF demo_requested]) simp_all
  from demo_loaded [OF this]
  have 1: "reachable_world demo_machine
      (demo_state 20000 None 20000 (demo_job None (Sent demo_result None) (Message (Inr demo_result)) Awaiting))" by simp
  let ?c = "demo_job None (Sent demo_result None) (Message (Inr demo_result)) (Checked demo_result)"
  let ?g = "demo_job None Gone (Message (Inr demo_result)) (Checked demo_result)"
  have 2: "reachable_world demo_machine (demo_state 20000 None 20000 ?c)"
    by (rule demo_step [OF 1])
      (use checked [of "demo_job None (Sent demo_result None) (Message (Inr demo_result)) Awaiting" demo_result] in
        \<open>simp add: demo_state_def demo_job_def channel_closed_def\<close>)
  have 3: "reachable_world demo_machine (demo_state 20000 None 20000 ?g)"
    by (rule demo_step [OF 2])
      (use panic [of ?c] in \<open>simp add: demo_state_def demo_job_def loader_panic_def\<close>)
  have "load_step demo_machine (demo_state 20000 None 20000 ?g)
      ((demo_state 20000 None 20000 ?g)\<lparr>w_mgr := w_mgr dead_world, w_jobs := (w_jobs (demo_state 20000 None 20000 ?g))[0 := finish ?g]\<rparr>)"
    by (rule load_step.intros)
      (use install [of ?g demo_result] in \<open>simp_all add: demo_state_def dead_world_def demo_job_def\<close>)
  moreover have "(demo_state 20000 None 20000 ?g)\<lparr>w_mgr := w_mgr dead_world, w_jobs := (w_jobs (demo_state 20000 None 20000 ?g))[0 := finish ?g]\<rparr>
      = dead_world"
    by (simp add: demo_state_def dead_world_def demo_job_def)
  ultimately show ?thesis using 3 reachable_world.step world_step.loads by metis
qed

lemma dead_world_slot: "mg_slots (w_mgr dead_world) = [(''m'', Ready dead_slot)]"
  by (simp add: dead_world_def install_ready_def Let_def demo_manager_def put_slot_def remove_slot_def update_registry_def
      total_loaded_bytes_def slot_bytes_def dead_slot_def ready_of_def answer_def)

section \<open>Making room\<close>

abbreviation ready_set :: "manager \<Rightarrow> (string \<times> ready_slot) set" where
  "ready_set m \<equiv> set (ready_slots m)"

lemma ready_set_unload:
  assumes "slots_ok m" and "(i, r) \<in> ready_set m"
  shows "ready_set (unload m i) = ready_set m - {(i, r)}"
proof -
  have "s = r" if "(i, s) \<in> ready_set m" for s
    using that assms eq_key_imp_eq_value [of "mg_slots m" i "Ready s" "Ready r"]
    by (simp add: ready_slots_mem slots_ok_def)
  moreover have "(j, s) \<in> ready_set (unload m i) \<longleftrightarrow> (j, s) \<in> ready_set m \<and> j \<noteq> i" for j s
    by (auto simp: ready_slots_mem unload_slots)
  ultimately show ?thesis using assms(2) by (intro set_eqI) (metis Diff_iff insert_iff empty_iff prod.inject surj_pair)
qed

lemma total_loaded_unload:
  assumes "slots_ok m" and "(i, r) \<in> ready_set m"
  shows "total_loaded_bytes m = total_loaded_bytes (unload m i) + (rs_weights r + rs_kv r)"
proof -
  have "distinct (map fst xs) \<Longrightarrow> (i, Ready r) \<in> set xs \<Longrightarrow>
      sum_list (map (\<lambda>(i, s). slot_bytes s) xs)
        = sum_list (map (\<lambda>(i, s). slot_bytes s) (filter (\<lambda>(j, s). j \<noteq> i) xs)) + slot_bytes (Ready r)" for xs
  proof (induction xs)
    case (Cons x xs)
    obtain j t where x: "x = (j, t)" by (cases x)
    show ?case
    proof (cases "j = i")
      case True
      then have "filter (\<lambda>(j, s). j \<noteq> i) xs = xs" "t = Ready r" using Cons.prems x by (force intro: filter_True)+
      then show ?thesis using x True by simp
    next
      case False
      then show ?thesis using Cons x by simp
    qed
  qed simp
  from this [of "mg_slots m"] assms show ?thesis
    by (simp add: total_loaded_bytes_def unload_slots slots_ok_def ready_slots_mem slot_bytes_def)
qed

text \<open>The outcome of making room, with the slots that went.\<close>

definition room_made :: "manager_env \<Rightarrow> manager \<Rightarrow> nat \<Rightarrow> manager \<Rightarrow> nat \<Rightarrow> bool" where
  "room_made E m needed m' n \<longleftrightarrow>
     (let gone = ready_set m - ready_set m'
      in (total_loaded_bytes m' + needed \<le> commitment E m \<or> ready_set m' = {})
         \<and> ready_set m' \<subseteq> ready_set m \<and> card gone = n
         \<and> (\<forall>(i, r) \<in> gone. \<forall>(j, s) \<in> ready_set m'. rs_last_used r \<le> rs_last_used s)
         \<and> (0 < n \<longrightarrow> (\<exists>(i, r) \<in> gone. commitment E m < total_loaded_bytes m' + needed + (rs_weights r + rs_kv r)))
         \<and> mg_flags m' = mg_flags m \<union> rs_shutdown ` snd ` gone)"

lemma evict_for_bytes_room:
  "slots_ok m \<Longrightarrow> evict_lru_for_bytes E m needed = (m', n) \<Longrightarrow> room_made E m needed m' n"
proof (induction E m needed arbitrary: m' n rule: evict_lru_for_bytes.induct)
  case (1 E m needed)
  show ?case
  proof (cases "total_loaded_bytes m + needed \<le> commitment E m \<or> evict_lru_one m = None")
    case True
    then have "m' = m" "n = 0" using 1(3) by (auto simp: evict_lru_for_bytes.simps [of E m] split: if_splits)
    moreover have "ready_set m = {}" if "evict_lru_one m = None"
      using that by (auto simp: evict_lru_one_def min_by_key_None split: option.splits)
    ultimately show ?thesis using True by (auto simp: room_made_def Let_def)
  next
    case False
    then obtain m1 i freed where e: "evict_lru_one m = Some (m1, i, freed)" by (metis not_None_eq prod_cases3)
    then obtain n1 where rest: "evict_lru_for_bytes E m1 needed = (m', n1)" "n = Suc n1"
      using 1(3) False by (auto simp: evict_lru_for_bytes.simps [of E m] split: prod.splits)
    obtain r where r: "(i, r) \<in> ready_set m" "m1 = unload m i" "\<forall>(j, s) \<in> ready_set m. rs_last_used r \<le> rs_last_used s"
      using e min_by_key_mem [of "\<lambda>(i, r). rs_last_used r" "ready_slots m"]
      by (fastforce simp: evict_lru_one_def split: option.splits)
    have "fewer m m1" using fewer_evict_one [OF 1(2) e] by simp
    then have ok1: "slots_ok m1" by (simp add: fewer_def)
    have budget: "commitment E m1 = commitment E m"
      by (simp add: r(2) commitment_def unload_def remove_slot_def release_kv_def raise_flag_def split: option.split slot_state.split)
    have "room_made E m1 needed m' n1" using 1(1) [OF _ e refl refl ok1 rest(1)] False by simp
    then have ih: "total_loaded_bytes m' + needed \<le> commitment E m \<or> ready_set m' = {}"
        "ready_set m' \<subseteq> ready_set m1" "card (ready_set m1 - ready_set m') = n1"
        "\<forall>(i, r) \<in> ready_set m1 - ready_set m'. \<forall>(j, s) \<in> ready_set m'. rs_last_used r \<le> rs_last_used s"
        "0 < n1 \<longrightarrow> (\<exists>(i, r) \<in> ready_set m1 - ready_set m'. commitment E m < total_loaded_bytes m' + needed + (rs_weights r + rs_kv r))"
        "mg_flags m' = mg_flags m1 \<union> rs_shutdown ` snd ` (ready_set m1 - ready_set m')"
      by (simp_all add: room_made_def Let_def budget)
    have m1: "ready_set m1 = ready_set m - {(i, r)}" using ready_set_unload [OF 1(2) r(1)] r(2) by simp
    have gone: "ready_set m - ready_set m' = insert (i, r) (ready_set m1 - ready_set m')"
      using m1 ih(2) r(1) by auto
    have "slot m i = Some (Ready r)" using r(1) 1(2) by (simp add: ready_slots_mem slots_ok_def)
    then have flags: "mg_flags m1 = insert (rs_shutdown r) (mg_flags m)"
      by (simp add: r(2) unload_def remove_slot_def release_kv_def raise_flag_def)
    have "\<exists>(i, r) \<in> ready_set m - ready_set m'. commitment E m < total_loaded_bytes m' + needed + (rs_weights r + rs_kv r)"
    proof (cases n1)
      case 0
      then have "m' = m1" using rest(1)
        by (auto simp: evict_lru_for_bytes.simps [of E m1] split: if_splits option.splits prod.splits)
      then have "commitment E m < total_loaded_bytes m' + needed + (rs_weights r + rs_kv r)"
        using total_loaded_unload [OF 1(2) r(1)] r(2) False by simp
      then show ?thesis unfolding gone by blast
    next
      case (Suc l)
      then show ?thesis unfolding gone using ih(5) by blast
    qed
    moreover have "card (ready_set m - ready_set m') = n"
      unfolding gone using ih(3) m1 rest(2) by simp
    moreover have "\<forall>(i, r) \<in> ready_set m - ready_set m'. \<forall>(j, s) \<in> ready_set m'. rs_last_used r \<le> rs_last_used s"
      unfolding gone using ih(2,4) r(3) m1 by blast
    moreover have "mg_flags m' = mg_flags m \<union> rs_shutdown ` snd ` (ready_set m - ready_set m')"
      unfolding gone using ih(6) flags by auto
    ultimately show ?thesis using ih(1,2) m1 by (auto simp: room_made_def Let_def)
  qed
qed

section \<open>Properties\<close>

text \<open>C28. Whatever the order of requests, evictions, loads, panics and installs: a model has at most one
  slot; it is loading exactly while one load of it is under way, and never two; and every request
  that was made to wait is either waiting in one slot or has been answered, once.\<close>

theorem one_load_per_model:
  assumes "reachable_world M w"
  shows "distinct (map fst (mg_slots (w_mgr w)))
    \<and> (\<forall>i. (\<exists>ws. slot (w_mgr w) i = Some (Loading ws)) \<longleftrightarrow> (\<exists>!k. loading_job w k i))
    \<and> mset (waiting_on (w_mgr w) @ map fst (mg_answers (w_mgr w))) = mset [0..<w_next w]"
proof -
  have ok: "loads_ok w" "waiters_ok w" using reachable_world_ok [OF assms] by simp_all
  have "(\<exists>ws. slot (w_mgr w) i = Some (Loading ws)) \<longleftrightarrow> (\<exists>!k. loading_job w k i)" for i
    using loads_okD(3,4) [OF ok(1)] by blast
  then show ?thesis using ok loads_okD(1) [OF ok(1)] by (simp add: waiters_ok_def slots_ok_def)
qed

theorem one_load_per_model_witness:
  "(\<exists>!k. loading_job (demo_state 40000 (Some ''d'') 40000
      (demo_job (Some ''d'') (Sent demo_result (Some 20000)) (Message (Inr demo_result)) Awaiting)) k ''m'')"
proof -
  have "slot (w_mgr (demo_state 40000 (Some ''d'') 40000
      (demo_job (Some ''d'') (Sent demo_result (Some 20000)) (Message (Inr demo_result)) Awaiting))) ''m'' = Some (Loading [0])"
    by (simp add: demo_state_def demo_manager_def)
  then show ?thesis using one_load_per_model [OF demo_drafting] by blast
qed

text \<open>C29. The KV bytes of the loaded models and of the loads under way never exceed what the shared budget
  has counted, which never exceeds its total, so nothing is given back twice; and what the budget
  counts beyond them, the bytes nobody holds, never becomes less.  A model holds its bytes until its
  slot is removed: the pool of an evicted engine whose loop has still to end is not among them.\<close>

theorem kv_never_overcommitted:
  assumes "reachable_world M w"
  shows "bytes_in_use w \<le> counted (w_mgr w) \<and> counted (w_mgr w) \<le> kv_total (w_mgr w)
    \<and> (\<forall>w'. world_step M w w' \<longrightarrow> kv_total (w_mgr w') = kv_total (w_mgr w)
          \<and> counted (w_mgr w) - bytes_in_use w \<le> counted (w_mgr w') - bytes_in_use w')"
proof -
  have ok: "loads_ok w" "waiters_ok w" "bytes_ok w" using reachable_world_ok [OF assms] by simp_all
  have "kv_total (w_mgr w') = kv_total (w_mgr w) \<and> counted (w_mgr w) - bytes_in_use w \<le> counted (w_mgr w') - bytes_in_use w'"
    if "world_step M w w'" for w'
    using world_paysD(2,3) [OF _ ok(3)] world_step_ok [OF that ok(1,2)] by fastforce
  then show ?thesis using ok(3) by (simp add: bytes_ok_def)
qed

theorem kv_never_overcommitted_witness:
  "bytes_in_use dead_world \<le> counted (w_mgr dead_world) \<and> counted (w_mgr dead_world) \<le> kv_total (w_mgr dead_world)"
  using kv_never_overcommitted [OF dead_world_reachable] by blast

text \<open>The KV bytes a speculative draft takes when it loads are never given back: in every later state, with
  all models unloaded too, the budget counts them on top of everything anybody holds.\<close>

theorem draft_bytes_never_return:
  assumes "reachable_world M w" and k: "k < length (w_jobs w)"
    and sent: "jb_loader (w_jobs w ! k) = Sent r res" "jb_draft (w_jobs w ! k) = Some d"
    and load: "target_load M p build survives facts (mg_kv_budget (release_opt (w_mgr w) res)) = (b, Inr dr)"
    and w1: "loader_draft (target_load M p build survives facts) (w_mgr w) (w_jobs w ! k) r res = (m, j)"
      "w1 = w\<lparr>w_mgr := m, w_jobs := (w_jobs w)[k := j]\<rparr>"
    and "(world_step M)\<^sup>*\<^sup>* w1 w2"
  shows "bytes_in_use w2 + lr_kv dr \<le> counted (w_mgr w2)"
proof -
  have ok: "loads_ok w" "waiters_ok w" "bytes_ok w" using reachable_world_ok [OF assms(1)] by simp_all
  have "job_step M k (w_mgr w, w_jobs w ! k) (m, j)" unfolding w1(1) [symmetric] using sent(1) by (rule draft)
  then have step: "world_step M w w1" unfolding w1(2) using k load_step.intros world_step.loads by metis
  have m: "m = set_kv (release_opt (w_mgr w) res) b" "j = (w_jobs w ! k)\<lparr>jb_loader := Building r\<rparr>"
    using w1(1) sent(2) load by (auto simp: loader_draft_def Let_def)
  have held: "held_bytes (w_jobs w ! k) = held_bytes j + opt_bytes res"
    using sent(1) m(2) by (simp add: held_bytes_def loader_bytes_def finished_def)
  obtain y where y: "jobs_bytes (w_jobs w) = held_bytes (w_jobs w ! k) + y" "jobs_bytes (w_jobs w1) = held_bytes j + y"
    using jobs_bytes_update [OF k, of j] w1(2) by auto
  have "slots_kv (w_mgr w1) = slots_kv (w_mgr w)"
    using m(1) w1(2) by (intro same_slots(1)) (simp add: release_opt_def split: option.splits)
  then have in_use: "bytes_in_use w1 + opt_bytes res = bytes_in_use w"
    using y held by (simp add: bytes_in_use_def)
  have "counted (release_opt (w_mgr w) res) = counted (w_mgr w) - opt_bytes res"
    by (simp add: release_opt_def opt_bytes_def split: option.splits)
  then have "counted (w_mgr w) - opt_bytes res + lr_kv dr \<le> counted (w_mgr w1)"
    using target.load_counts [OF load] m(1) w1(2) by simp
  then have base: "bytes_in_use w1 + lr_kv dr \<le> counted (w_mgr w1)"
    using in_use ok(3) unfolding bytes_ok_def by linarith
  from assms(8) have "loads_ok w2 \<and> waiters_ok w2 \<and> bytes_ok w2 \<and> bytes_in_use w2 + lr_kv dr \<le> counted (w_mgr w2)"
  proof (induction rule: rtranclp_induct)
    case base
    then show ?case using world_step_ok [OF step ok(1,2)] world_paysD(1) [OF _ ok(3)] \<open>bytes_in_use w1 + lr_kv dr \<le> counted (w_mgr w1)\<close> by blast
  next
    case (step v v')
    then have "world_pays v v'" "loads_ok v'" "waiters_ok v'" using world_step_ok by blast+
    then show ?case using step.IH world_paysD(1,3) [of v v'] by fastforce
  qed
  then show ?thesis by simp
qed

theorem draft_bytes_never_return_witness:
  "\<exists>w1. reachable_world demo_machine w1 \<and> bytes_in_use w1 + 19968 \<le> counted (w_mgr w1)"
proof -
  let ?j = "demo_job (Some ''d'') (Sent demo_result (Some 20000)) (Message (Inr demo_result)) Awaiting"
  let ?w = "demo_state 40000 (Some ''d'') 40000 ?j"
  obtain m j where d: "loader_draft demo_load (w_mgr ?w) (w_jobs ?w ! 0) demo_result (Some 20000) = (m, j)" by (metis surj_pair)
  define w1 where "w1 = ?w\<lparr>w_mgr := m, w_jobs := (w_jobs ?w)[0 := j]\<rparr>"
  let ?b = "mg_kv_budget (release_opt (w_mgr ?w) (Some 20000))"
  have l: "demo_load ?b = (?b\<lparr>kb_allocated := kb_allocated ?b + 20000\<rparr>, Inr demo_result)"
    by (rule demo_load_at) (simp add: demo_state_def demo_manager_def release_opt_def available_bytes_def)
  have "bytes_in_use w1 + lr_kv demo_result \<le> counted (w_mgr w1)"
    by (rule draft_bytes_never_return [OF demo_drafting _ _ _ l d w1_def rtranclp.rtrancl_refl])
      (simp_all add: demo_state_def demo_job_def)
  moreover have "world_step demo_machine ?w w1"
    unfolding w1_def
  proof (rule world_step.loads, rule load_step.intros)
    show "0 < length (w_jobs ?w)" by (simp add: demo_state_def)
    show "job_step demo_machine 0 (w_mgr ?w, w_jobs ?w ! 0) (m, j)"
      unfolding d [symmetric] by (rule draft) (simp add: demo_state_def demo_job_def)
  qed
  ultimately show ?thesis using demo_drafting reachable_world.step by (intro exI [of _ w1]) auto
qed

text \<open>An engine whose thread is gone while its slot is ready is served for ever: every request for the
  model is handed that engine, moves the slot's expiry into the future, and no step of its load is
  left that would take the slot away.\<close>

theorem dead_engine_is_served:
  assumes "reachable_world M w" and "slot (w_mgr w) i = Some (Ready r)"
    and "jb_loader (w_jobs w ! rs_shutdown r) = Gone" and "me_resolve E i"
  shows "case request E w now i keep of (w', res) \<Rightarrow>
      (\<exists>h. res = Got h \<and> rh_engine h = rs_shutdown r)
      \<and> (\<exists>r'. slot (w_mgr w') i = Some (Ready r') \<and> rs_shutdown r' = rs_shutdown r \<and> rs_last_used r' = now)
      \<and> jb_loader (w_jobs w' ! rs_shutdown r) = Gone
      \<and> (\<nexists>mj. job_step M (rs_shutdown r) (w_mgr w', w_jobs w' ! rs_shutdown r) mj)"
proof -
  obtain w' res where q: "request E w now i keep = (w', res)" by (metis surj_pair)
  from q have served: "case request E w now i keep of (w', res) \<Rightarrow>
      (\<exists>h. res = Got h \<and> rh_engine h = rs_shutdown r)
      \<and> (\<exists>r'. slot (w_mgr w') i = Some (Ready r') \<and> rs_shutdown r' = rs_shutdown r \<and> rs_last_used r' = now)
      \<and> jb_loader (w_jobs w' ! rs_shutdown r) = Gone"
  proof (cases rule: request_cases)
    case (ready r0 r')
    then show ?thesis using q assms(2,3) by (auto simp: handle_of_def)
  qed (use assms(2,4) in simp_all)
  have "finished (w_jobs w ! rs_shutdown r)"
    using reachable_world_ok [OF assms(1)] assms(2) loads_okD(5) by blast
  then have stuck: "\<not> job_step M (rs_shutdown r) (mg, w_jobs w ! rs_shutdown r) mj" for mg mj
    using assms(3) by (auto simp: finished_def elim: job_step.cases)
  from q have "w_jobs w' = w_jobs w"
    by (cases rule: request_cases) (use assms(2) in simp_all)
  then show ?thesis using served stuck q by simp
qed

theorem dead_engine_is_served_witness:
  "reachable_world demo_machine dead_world \<and>
   (case request demo_env dead_world 100 ''m'' None of (w', res) \<Rightarrow>
     (\<exists>h. res = Got h \<and> rh_engine h = 0) \<and> jb_loader (w_jobs w' ! 0) = Gone)"
proof -
  have s: "slot (w_mgr dead_world) ''m'' = Some (Ready dead_slot)" by (simp add: dead_world_slot)
  have k: "rs_shutdown dead_slot = 0" by (simp add: dead_slot_def ready_of_def)
  have "jb_loader (w_jobs dead_world ! rs_shutdown dead_slot) = Gone" "me_resolve demo_env ''m''"
    by (simp_all add: k dead_world_def demo_job_def demo_env_def)
  from dead_engine_is_served [OF dead_world_reachable s this, of 100 None] show ?thesis
    using dead_world_reachable by (auto simp: k split: prod.splits)
qed

text \<open>C30. Loads end: with no new request, the steps of the loads cannot go on for ever, whatever their order
  and whatever the loads meet, evictions for room included.\<close>

theorem loads_terminate: "wf {(w', w). load_step M w w'}"
proof (rule wf_subset)
  show "wf (inv_image (less_than <*lex*> less_than) work_left)" by (intro wf_inv_image wf_lex_prod wf_less_than)
  show "{(w', w). load_step M w w'} \<subseteq> inv_image (less_than <*lex*> less_than) work_left"
    using load_step_work by (auto simp: inv_image_def)
qed

text \<open>And where they end, everybody has been answered: when nothing is left to happen but that engines
  stop, no slot is loading and every request that was made to wait has had its answer, once.\<close>

theorem loads_settle:
  assumes "reachable_world M w"
    and "\<And>k m j. k < length (w_jobs w) \<Longrightarrow> job_step M k (w_mgr w, w_jobs w ! k) (m, j) \<Longrightarrow>
      \<exists>r. jb_loader (w_jobs w ! k) = Running_engine r \<and> jb_loader j = Unwinding r"
  shows "(\<forall>i ws. slot (w_mgr w) i \<noteq> Some (Loading ws))
    \<and> mset (map fst (mg_answers (w_mgr w))) = mset [0..<w_next w]"
proof -
  have ok: "loads_ok w" "waiters_ok w" using reachable_world_ok [OF assms(1)] by simp_all
  have "\<not> loading_job w k i" for k i
  proof
    assume "loading_job w k i"
    then have k: "k < length (w_jobs w)" "\<not> finished (w_jobs w ! k)" by (simp_all add: loading_job_def)
    obtain m j where "job_step M k (w_mgr w, w_jobs w ! k) (m, j)"
        "\<forall>r. jb_loader j = Unwinding r \<longrightarrow> jb_loader (w_jobs w ! k) = Unwinding r"
      using loading_can_step [OF loads_okD(2) [OF ok(1) k(1)] k(2)] by blast
    then show False using assms(2) [OF k(1)] by fastforce
  qed
  then have none: "\<forall>i ws. slot (w_mgr w) i \<noteq> Some (Loading ws)" using loads_okD(3) [OF ok(1)] by blast
  then show ?thesis using ok(2) no_waiting [OF loads_okD(1) [OF ok(1)] none] by (simp add: waiters_ok_def)
qed

theorem loads_settle_witness:
  "mset (map fst (mg_answers (w_mgr dead_world))) = mset [0..<w_next dead_world]"
proof (rule loads_settle [THEN conjunct2, OF dead_world_reachable])
  fix k m j
  assume "k < length (w_jobs dead_world)" "job_step demo_machine k (w_mgr dead_world, w_jobs dead_world ! k) (m, j)"
  then have "job_step demo_machine k (w_mgr dead_world, demo_job None Gone (Message (Inr demo_result)) Finished_task) (m, j)"
    by (simp add: dead_world_def)
  then show "\<exists>r. jb_loader (w_jobs dead_world ! k) = Running_engine r \<and> jb_loader j = Unwinding r"
    by (rule job_step.cases) (auto simp: demo_job_def)
qed

text \<open>Without a memory budget the function still evicts.\<close>

lemma evicts_without_memory_budget:
  "snd (evict_lru_for_bytes demo_env ((demo_manager 20000 None 20000 [(''m'', Ready dead_slot)])\<lparr>mg_memory_budget := None\<rparr>)
     (Suc (safe_total_commitment_bytes demo_machine))) = 1"
proof -
  let ?m = "(demo_manager 20000 None 20000 [(''m'', Ready dead_slot)])\<lparr>mg_memory_budget := None\<rparr>"
  have c: "commitment demo_env m = safe_total_commitment_bytes demo_machine" if "mg_memory_budget m = None" for m
    using that by (simp add: commitment_def demo_env_def)
  have e: "evict_lru_one ?m = Some (unload ?m ''m'', ''m'', slot_bytes (Ready dead_slot))"
    by (simp add: evict_lru_one_def ready_slots_def map_filter_simps demo_manager_def)
  have none: "evict_lru_one (unload ?m ''m'') = None" "mg_memory_budget (unload ?m ''m'') = None"
    by (simp_all add: evict_lru_one_def unload_def ready_slots_def map_filter_simps demo_manager_def
        remove_slot_def release_kv_def raise_flag_def split: option.split slot_state.split)
  have "mg_memory_budget ?m = None" by simp
  from c [OF this] c [OF none(2)] show ?thesis
    by (simp add: evict_lru_for_bytes.simps [of demo_env ?m] evict_lru_for_bytes.simps [of demo_env "unload ?m ''m''"]
        e none(1))
qed

text \<open>C31. Room for a model is made by letting the least recently used ready models go, one by one, until it
  fits or none is left: each that went was used no later than any that stayed, the last one was
  needed, each is told to stop, and nothing else is touched.  It fits when the bytes of the loaded models and
  the new ones are within the \<open>commitment\<close>: the configured memory budget or, where none is configured, what the machine
  can safely commit.  The source's documentation calls the function a no-op without a budget; the code is not
  (\<open>evicts_without_memory_budget\<close>).\<close>

theorem room_by_least_recently_used:
  assumes "distinct (map fst (mg_slots m))" and "evict_lru_for_bytes E m needed = (m', n)"
  shows "room_made E m needed m' n \<and> fewer m m'"
  using evict_for_bytes_room evict_for_bytes_ok assms by (simp add: slots_ok_def)

theorem room_by_least_recently_used_witness:
  "\<exists>m' n. evict_lru_for_bytes demo_env (demo_manager 20000 None 20000 [(''m'', Ready dead_slot)]) 1000 = (m', n)
     \<and> room_made demo_env (demo_manager 20000 None 20000 [(''m'', Ready dead_slot)]) 1000 m' n"
proof -
  let ?m = "demo_manager 20000 None 20000 [(''m'', Ready dead_slot)]"
  obtain m' n where e: "evict_lru_for_bytes demo_env ?m 1000 = (m', n)" by (metis surj_pair)
  have "distinct (map fst (mg_slots ?m))" by (simp add: demo_manager_def)
  from room_by_least_recently_used [OF this e] show ?thesis using e by blast
qed

end
