(* ===== verification/Chat_Schema.thy ===== *)
theory Chat_Schema
  imports Json_Schema
begin

text \<open>
  The JSON Schema checks of the chat route (\<open>src/server/routes/chat.rs\<close>): which schemas a
  request may bring, and whether a reply matches one.  Messages are a fault and the path to it;
  \<open>Value::pointer\<close> is the argument \<open>ptr\<close>, and whether a number is an integer the argument
  \<open>is_int\<close>.
\<close>

section \<open>Values\<close>

text \<open>
  Equality of \<open>serde_json\<close> values: objects are equal up to the order of their keys, which the
  crate keeps as written.
\<close>

fun json_eq :: "'n json \<Rightarrow> 'n json \<Rightarrow> bool" where
  "json_eq JNull JNull = True"
| "json_eq (JBool a) (JBool b) = (a = b)"
| "json_eq (JNum a) (JNum b) = (a = b)"
| "json_eq (JStr a) (JStr b) = (a = b)"
| "json_eq (JArr as) (JArr bs) = list_all2 json_eq as bs"
| "json_eq (JObj as) (JObj bs) =
     (length as = length bs \<and>
      list_all (\<lambda>(k, a). case map_of bs k of None \<Rightarrow> False | Some b \<Rightarrow> json_eq a b) as)"
| "json_eq _ _ = False"

fun is_bool :: "'n json \<Rightarrow> bool" where
  "is_bool (JBool b) = True"
| "is_bool _ = False"

fun is_number :: "'n json \<Rightarrow> bool" where
  "is_number (JNum n) = True"
| "is_number _ = False"

text \<open>The keys of a schema.\<close>

definition key :: "string \<Rightarrow> (u8 list \<times> 'n json) list \<Rightarrow> 'n json option" where
  "key k obj = map_of obj (bytes k)"

section \<open>Schemas a request may bring\<close>

datatype schema_strictness = Best_effort | Strict

datatype path_step = At_any_of nat | At_property "u8 list" | At_items | At_additional | At_def "u8 list"

datatype shape_fault =
    Too_deep
  | Not_an_object
  | Type_entry_not_string
  | Type_unsupported "u8 list"
  | Type_malformed
  | Required_not_array
  | Required_entry_not_string
  | Enum_not_array
  | Enum_empty
  | Any_of_not_array
  | Any_of_empty
  | Properties_not_object
  | Additional_malformed
  | Defs_not_object
  | Not_closed
  | Required_absent
  | Required_omits "u8 list"

type_synonym shape_result = "(shape_fault \<times> path_step list) + unit"

definition then_check :: "'e + unit \<Rightarrow> 'e + unit \<Rightarrow> 'e + unit" where
  "then_check r s = (case r of Inl e \<Rightarrow> Inl e | Inr _ \<Rightarrow> s)"

fun each_check :: "('a \<Rightarrow> 'e + unit) \<Rightarrow> 'a list \<Rightarrow> 'e + unit" where
  "each_check f [] = Inr ()"
| "each_check f (x # xs) = then_check (f x) (each_check f xs)"

definition fault_if :: "bool \<Rightarrow> 'e \<Rightarrow> 'e + unit" where
  "fault_if b e = (if b then Inl e else Inr ())"

definition resolve_schema_ref :: "('n json \<Rightarrow> u8 list \<Rightarrow> 'n json option) \<Rightarrow> 'n json \<Rightarrow> 'n json \<Rightarrow> 'n json option" where
  "resolve_schema_ref ptr schema root =
     do { r \<leftarrow> jget schema (bytes ''$ref'');
          t \<leftarrow> as_str r;
          if t = bytes ''#'' then Some root
          else do { p \<leftarrow> strip_prefix (bytes ''#'') t; ptr root p } }"

definition is_object_schema :: "(u8 list \<times> 'n json) list \<Rightarrow> bool" where
  "is_object_schema obj =
     (case key ''type'' obj of
        Some (JStr t) \<Rightarrow> t = bytes ''object''
      | Some (JArr ts) \<Rightarrow> list_ex (\<lambda>t. as_str t = Some (bytes ''object'')) ts
      | _ \<Rightarrow> key ''properties'' obj \<noteq> None \<or> key ''required'' obj \<noteq> None \<or> key ''additionalProperties'' obj \<noteq> None)"

definition is_array_schema :: "(u8 list \<times> 'n json) list \<Rightarrow> bool" where
  "is_array_schema obj =
     (case key ''type'' obj of
        Some (JStr t) \<Rightarrow> t = bytes ''array''
      | Some (JArr ts) \<Rightarrow> list_ex (\<lambda>t. as_str t = Some (bytes ''array'')) ts
      | _ \<Rightarrow> key ''items'' obj \<noteq> None)"

definition type_names_known :: "u8 list list" where
  "type_names_known =
     map bytes [''object'', ''array'', ''string'', ''number'', ''integer'', ''boolean'', ''null'']"

definition validate_schema_type_keyword :: "'n json \<Rightarrow> path_step list \<Rightarrow> shape_result" where
  "validate_schema_type_keyword ty path =
     (case ty of
        JStr name \<Rightarrow> fault_if (name \<notin> set type_names_known) (Type_unsupported name, path)
      | JArr (t # ts) \<Rightarrow>
          each_check (\<lambda>item. case as_str item of
              None \<Rightarrow> Inl (Type_entry_not_string, path)
            | Some name \<Rightarrow> fault_if (name \<notin> set type_names_known) (Type_unsupported name, path)) (t # ts)
      | _ \<Rightarrow> Inl (Type_malformed, path))"

definition check_type :: "(u8 list \<times> 'n json) list \<Rightarrow> path_step list \<Rightarrow> shape_result" where
  "check_type obj path =
     (case key ''type'' obj of None \<Rightarrow> Inr () | Some ty \<Rightarrow> validate_schema_type_keyword ty path)"

definition check_required :: "(u8 list \<times> 'n json) list \<Rightarrow> path_step list \<Rightarrow> shape_result" where
  "check_required obj path =
     (case key ''required'' obj of
        None \<Rightarrow> Inr ()
      | Some r \<Rightarrow>
          (case as_array r of
             None \<Rightarrow> Inl (Required_not_array, path)
           | Some rs \<Rightarrow> each_check (\<lambda>item. fault_if (as_str item = None) (Required_entry_not_string, path)) rs))"

definition check_enum :: "(u8 list \<times> 'n json) list \<Rightarrow> path_step list \<Rightarrow> shape_result" where
  "check_enum obj path =
     (case key ''enum'' obj of
        None \<Rightarrow> Inr ()
      | Some r \<Rightarrow>
          (case as_array r of
             None \<Rightarrow> Inl (Enum_not_array, path)
           | Some vs \<Rightarrow> fault_if (vs = []) (Enum_empty, path)))"

text \<open>The rules of strict mode: an object is closed and requires every property it declares.\<close>

definition check_strict :: "(u8 list \<times> 'n json) list \<Rightarrow> schema_strictness \<Rightarrow> path_step list \<Rightarrow> shape_result" where
  "check_strict obj strictness path =
     (if strictness = Strict \<and> is_object_schema obj then
        if key ''additionalProperties'' obj \<noteq> Some (JBool False) then Inl (Not_closed, path)
        else
          let props = (case key ''properties'' obj \<bind> as_object of None \<Rightarrow> [] | Some ps \<Rightarrow> ps)
          in case key ''required'' obj \<bind> as_array of
               None \<Rightarrow> Inl (Required_absent, path)
             | Some req \<Rightarrow>
                 each_check (\<lambda>(k, _). fault_if (k \<notin> set (List.map_filter as_str req)) (Required_omits k, path)) props
      else Inr ())"

text \<open>The recursion; \<open>d\<close> counts nesting and references together, up to 64.\<close>

definition max_schema_depth :: nat where
  "max_schema_depth = 64"

function validate_schema_shape_inner ::
    "('n json \<Rightarrow> u8 list \<Rightarrow> 'n json option) \<Rightarrow> 'n json \<Rightarrow> 'n json \<Rightarrow> path_step list \<Rightarrow> schema_strictness \<Rightarrow> nat \<Rightarrow>
     shape_result" where
  "validate_schema_shape_inner ptr schema root path strictness d =
     (if max_schema_depth < d then Inl (Too_deep, [])
      else
        case resolve_schema_ref ptr schema root of
          Some resolved \<Rightarrow> validate_schema_shape_inner ptr resolved root path strictness (Suc d)
        | None \<Rightarrow>
            (case as_object schema of
               None \<Rightarrow> Inl (Not_an_object, path)
             | Some obj \<Rightarrow>
                 then_check (check_type obj path)
                (then_check (check_required obj path)
                (then_check (check_enum obj path)
                (then_check
                   (case key ''anyOf'' obj of
                      None \<Rightarrow> Inr ()
                    | Some a \<Rightarrow>
                        (case as_array a of
                           None \<Rightarrow> Inl (Any_of_not_array, path)
                         | Some branches \<Rightarrow>
                             then_check (fault_if (branches = []) (Any_of_empty, path))
                               (each_check (\<lambda>(i, b). validate_schema_shape_inner ptr b root (path @ [At_any_of i]) strictness (Suc d))
                                  (enumerate 0 branches))))
                (then_check
                   (case key ''properties'' obj of
                      None \<Rightarrow> Inr ()
                    | Some p \<Rightarrow>
                        (case as_object p of
                           None \<Rightarrow> Inl (Properties_not_object, path)
                         | Some ps \<Rightarrow>
                             each_check (\<lambda>(k, b). validate_schema_shape_inner ptr b root (path @ [At_property k]) strictness (Suc d)) ps))
                (then_check
                   (case key ''items'' obj of
                      None \<Rightarrow> Inr ()
                    | Some b \<Rightarrow> validate_schema_shape_inner ptr b root (path @ [At_items]) strictness (Suc d))
                (then_check
                   (case key ''additionalProperties'' obj of
                      None \<Rightarrow> Inr ()
                    | Some (JBool _) \<Rightarrow> Inr ()
                    | Some (JObj kvs) \<Rightarrow> validate_schema_shape_inner ptr (JObj kvs) root (path @ [At_additional]) strictness (Suc d)
                    | Some _ \<Rightarrow> Inl (Additional_malformed, path))
                (then_check
                   (case key ''$defs'' obj of
                      None \<Rightarrow> Inr ()
                    | Some p \<Rightarrow>
                        (case as_object p of
                           None \<Rightarrow> Inl (Defs_not_object, path)
                         | Some ps \<Rightarrow>
                             each_check (\<lambda>(k, b). validate_schema_shape_inner ptr b root (path @ [At_def k]) strictness (Suc d)) ps))
                (check_strict obj strictness path))))))))))"
  by pat_completeness auto
termination
  by (relation "measure (\<lambda>(ptr, s, root, path, st, d). Suc max_schema_depth - d)") auto

declare validate_schema_shape_inner.simps [simp del]

definition validate_schema_shape ::
    "('n json \<Rightarrow> u8 list \<Rightarrow> 'n json option) \<Rightarrow> 'n json \<Rightarrow> schema_strictness \<Rightarrow> path_step list \<Rightarrow> shape_result" where
  "validate_schema_shape ptr schema strictness path = validate_schema_shape_inner ptr schema schema path strictness 0"

section \<open>Replies against a schema\<close>

definition matches_json_type :: "('n \<Rightarrow> bool) \<Rightarrow> 'n json \<Rightarrow> u8 list \<Rightarrow> bool" where
  "matches_json_type is_int v ty =
     (if ty = bytes ''object'' then as_object v \<noteq> None
      else if ty = bytes ''array'' then as_array v \<noteq> None
      else if ty = bytes ''string'' then as_str v \<noteq> None
      else if ty = bytes ''number'' then is_number v
      else if ty = bytes ''integer'' then (case v of JNum n \<Rightarrow> is_int n | _ \<Rightarrow> False)
      else if ty = bytes ''boolean'' then is_bool v
      else if ty = bytes ''null'' then v = JNull
      else True)"

text \<open>The keywords on the value itself: \<open>const\<close>, \<open>enum\<close>, \<open>type\<close> and \<open>required\<close>.\<close>

definition plain_keywords :: "('n \<Rightarrow> bool) \<Rightarrow> (u8 list \<times> 'n json) list \<Rightarrow> 'n json \<Rightarrow> bool" where
  "plain_keywords is_int obj v \<longleftrightarrow>
     (case key ''const'' obj of None \<Rightarrow> True | Some c \<Rightarrow> json_eq c v)
     \<and> (case key ''enum'' obj \<bind> as_array of None \<Rightarrow> True | Some vs \<Rightarrow> list_ex (\<lambda>c. json_eq c v) vs)
     \<and> (case key ''type'' obj of
          None \<Rightarrow> True
        | Some (JStr name) \<Rightarrow> matches_json_type is_int v name
        | Some (JArr ts) \<Rightarrow> list_ex (matches_json_type is_int v) (List.map_filter as_str ts)
        | Some _ \<Rightarrow> False)"

definition required_present :: "(u8 list \<times> 'n json) list \<Rightarrow> (u8 list \<times> 'n json) list \<Rightarrow> bool" where
  "required_present obj val_obj \<longleftrightarrow>
     (case key ''required'' obj \<bind> as_array of
        None \<Rightarrow> True
      | Some rs \<Rightarrow> list_all (\<lambda>r. case as_str r of None \<Rightarrow> True | Some f \<Rightarrow> map_of val_obj f \<noteq> None) rs)"

text \<open>\<open>validate_against_schema_inner\<close>, with its cap on the depth, 64, as an argument.\<close>

function validate_upto ::
    "nat \<Rightarrow> ('n json \<Rightarrow> u8 list \<Rightarrow> 'n json option) \<Rightarrow> ('n \<Rightarrow> bool) \<Rightarrow> 'n json \<Rightarrow> 'n json \<Rightarrow> 'n json \<Rightarrow> nat \<Rightarrow> bool" where
  "validate_upto limit ptr is_int v schema root d =
     (if limit < d then False
      else
        case as_object (case resolve_schema_ref ptr schema root of Some t \<Rightarrow> t | None \<Rightarrow> schema) of
          None \<Rightarrow> False
        | Some obj \<Rightarrow>
            (case key ''anyOf'' obj \<bind> as_array of
               None \<Rightarrow> True
             | Some branches \<Rightarrow> list_ex (\<lambda>b. validate_upto limit ptr is_int v b root (Suc d)) branches)
            \<and> plain_keywords is_int obj v
            \<and> (case as_object v of
                 None \<Rightarrow> True
               | Some val_obj \<Rightarrow>
                   required_present obj val_obj
                   \<and> (case key ''additionalProperties'' obj of
                        Some (JBool False) \<Rightarrow>
                          (case key ''properties'' obj \<bind> as_object of
                             None \<Rightarrow> True
                           | Some ps \<Rightarrow> list_all (\<lambda>(k, _). map_of ps k \<noteq> None) val_obj)
                      | Some (JObj extra) \<Rightarrow>
                          list_all (\<lambda>(k, f).
                              (case key ''properties'' obj \<bind> as_object of None \<Rightarrow> False | Some ps \<Rightarrow> map_of ps k \<noteq> None)
                              \<or> validate_upto limit ptr is_int f (JObj extra) root (Suc d)) val_obj
                      | _ \<Rightarrow> True)
                   \<and> (case key ''properties'' obj \<bind> as_object of
                        None \<Rightarrow> True
                      | Some ps \<Rightarrow>
                          list_all (\<lambda>(k, b). case map_of val_obj k of
                              None \<Rightarrow> True
                            | Some f \<Rightarrow> validate_upto limit ptr is_int f b root (Suc d)) ps))
            \<and> (if is_array_schema obj then
                 (case (key ''items'' obj, as_array v) of
                    (Some b, Some vs) \<Rightarrow> list_all (\<lambda>f. validate_upto limit ptr is_int f b root (Suc d)) vs
                  | _ \<Rightarrow> True)
               else True))"
  by pat_completeness auto
termination
  by (relation "measure (\<lambda>(limit, ptr, is_int, v, s, root, d). Suc limit - d)") auto

declare validate_upto.simps [simp del]

definition validate_against_schema ::
    "('n json \<Rightarrow> u8 list \<Rightarrow> 'n json option) \<Rightarrow> ('n \<Rightarrow> bool) \<Rightarrow> 'n json \<Rightarrow> 'n json \<Rightarrow> bool" where
  "validate_against_schema ptr is_int v schema = validate_upto max_schema_depth ptr is_int v schema schema 0"

section \<open>What an accepted schema is\<close>

text \<open>The schemas a schema is made of, references followed.\<close>

inductive subschema :: "('n json \<Rightarrow> u8 list \<Rightarrow> 'n json option) \<Rightarrow> 'n json \<Rightarrow> 'n json \<Rightarrow> 'n json \<Rightarrow> bool"
  for ptr root where
  by_ref: "resolve_schema_ref ptr s root = Some t \<Longrightarrow> subschema ptr root s t"
| by_any_of: "resolve_schema_ref ptr (JObj obj) root = None \<Longrightarrow> key ''anyOf'' obj = Some (JArr bs) \<Longrightarrow> b \<in> set bs \<Longrightarrow>
    subschema ptr root (JObj obj) b"
| by_property: "resolve_schema_ref ptr (JObj obj) root = None \<Longrightarrow> key ''properties'' obj = Some (JObj ps) \<Longrightarrow>
    (k, b) \<in> set ps \<Longrightarrow> subschema ptr root (JObj obj) b"
| by_items: "resolve_schema_ref ptr (JObj obj) root = None \<Longrightarrow> key ''items'' obj = Some b \<Longrightarrow>
    subschema ptr root (JObj obj) b"
| by_additional: "resolve_schema_ref ptr (JObj obj) root = None \<Longrightarrow> key ''additionalProperties'' obj = Some (JObj kvs) \<Longrightarrow>
    subschema ptr root (JObj obj) (JObj kvs)"
| by_def: "resolve_schema_ref ptr (JObj obj) root = None \<Longrightarrow> key ''$defs'' obj = Some (JObj ps) \<Longrightarrow>
    (k, b) \<in> set ps \<Longrightarrow> subschema ptr root (JObj obj) b"

inductive_cases subschemaE: "subschema ptr root s t"

text \<open>Every keyword of one schema is of its type; in strict mode an object is closed and complete.\<close>

definition type_keyword_ok :: "'n json \<Rightarrow> bool" where
  "type_keyword_ok ty \<longleftrightarrow>
     (\<exists>n \<in> set type_names_known. ty = JStr n)
     \<or> (\<exists>ns. ns \<noteq> [] \<and> set ns \<subseteq> set type_names_known \<and> ty = JArr (map JStr ns))"

definition object_closed :: "(u8 list \<times> 'n json) list \<Rightarrow> bool" where
  "object_closed obj \<longleftrightarrow>
     key ''additionalProperties'' obj = Some (JBool False)
     \<and> (\<exists>ns. key ''required'' obj = Some (JArr (map JStr ns))
          \<and> (\<forall>ps. key ''properties'' obj = Some (JObj ps) \<longrightarrow> fst ` set ps \<subseteq> set ns))"

definition keywords_ok :: "(u8 list \<times> 'n json) list \<Rightarrow> bool" where
  "keywords_ok obj \<longleftrightarrow>
     (\<forall>ty. key ''type'' obj = Some ty \<longrightarrow> type_keyword_ok ty)
     \<and> (\<forall>r. key ''required'' obj = Some r \<longrightarrow> (\<exists>ns. r = JArr (map JStr ns)))
     \<and> (\<forall>r. key ''enum'' obj = Some r \<longrightarrow> (\<exists>vs. vs \<noteq> [] \<and> r = JArr vs))
     \<and> (\<forall>r. key ''anyOf'' obj = Some r \<longrightarrow> (\<exists>bs. bs \<noteq> [] \<and> r = JArr bs))
     \<and> (\<forall>r. key ''properties'' obj = Some r \<longrightarrow> (\<exists>ps. r = JObj ps))
     \<and> (\<forall>r. key ''additionalProperties'' obj = Some r \<longrightarrow> (\<exists>b. r = JBool b) \<or> (\<exists>kvs. r = JObj kvs))
     \<and> (\<forall>r. key ''$defs'' obj = Some r \<longrightarrow> (\<exists>ps. r = JObj ps))"

definition well_shaped ::
    "('n json \<Rightarrow> u8 list \<Rightarrow> 'n json option) \<Rightarrow> 'n json \<Rightarrow> schema_strictness \<Rightarrow> 'n json \<Rightarrow> bool" where
  "well_shaped ptr root strictness s \<longleftrightarrow>
     resolve_schema_ref ptr s root \<noteq> None
     \<or> (\<exists>obj. s = JObj obj \<and> keywords_ok obj \<and> (strictness = Strict \<longrightarrow> is_object_schema obj \<longrightarrow> object_closed obj))"

lemma then_check_ok [simp]: "then_check r s = Inr () \<longleftrightarrow> r = Inr () \<and> s = Inr ()"
  by (auto simp: then_check_def split: sum.splits)

lemma each_check_ok [simp]: "each_check f xs = Inr () \<longleftrightarrow> (\<forall>x \<in> set xs. f x = Inr ())"
  by (induction xs) auto

lemma fault_if_ok [simp]: "fault_if b e = Inr () \<longleftrightarrow> \<not> b"
  by (simp add: fault_if_def)

lemma as_str_Some [simp]: "as_str v = Some s \<longleftrightarrow> v = JStr s"
  by (cases v) auto

lemma as_array_Some [simp]: "as_array v = Some vs \<longleftrightarrow> v = JArr vs"
  by (cases v) auto

lemma as_object_Some [simp]: "as_object v = Some kvs \<longleftrightarrow> v = JObj kvs"
  by (cases v) auto

lemma all_strings: "(\<forall>x \<in> set vs. as_str x \<noteq> None) \<longleftrightarrow> (\<exists>ns. vs = map JStr ns)"
proof (induction vs)
  case (Cons v vs)
  have "(\<exists>ns. v # vs = map JStr ns) \<longleftrightarrow> (\<exists>s. v = JStr s) \<and> (\<exists>ns. vs = map JStr ns)"
    by (auto simp: Cons_eq_map_conv)
  then show ?case using Cons by auto
qed simp

end
