(* ===== verification/Schema_Props.thy ===== *)
theory Schema_Props
  imports Chat_Schema
begin

text \<open>
  Which schemas the chat route accepts, exactly, and what its validation of a reply makes of them.
\<close>

section \<open>One level of the check\<close>

lemma type_keyword_iff: "validate_schema_type_keyword ty path = Inr () \<longleftrightarrow> type_keyword_ok ty"
proof (cases ty)
  case (JStr n)
  then show ?thesis by (auto simp: validate_schema_type_keyword_def type_keyword_ok_def)
next
  case (JArr ts)
  have "(\<forall>item \<in> set ts. (case as_str item of None \<Rightarrow> Inl (Type_entry_not_string, path)
      | Some name \<Rightarrow> fault_if (name \<notin> set type_names_known) (Type_unsupported name, path)) = Inr ())
    \<longleftrightarrow> (\<forall>item \<in> set ts. \<exists>n \<in> set type_names_known. item = JStr n)"
    by (auto split: option.splits)
  also have "\<dots> \<longleftrightarrow> (\<exists>ns. set ns \<subseteq> set type_names_known \<and> ts = map JStr ns)"
  proof
    assume a: "\<forall>item \<in> set ts. \<exists>n \<in> set type_names_known. item = JStr n"
    then obtain ns where "ts = map JStr ns" using all_strings [of ts] by force
    moreover from this a have "set ns \<subseteq> set type_names_known" by auto
    ultimately show "\<exists>ns. set ns \<subseteq> set type_names_known \<and> ts = map JStr ns" by blast
  next
    assume "\<exists>ns. set ns \<subseteq> set type_names_known \<and> ts = map JStr ns"
    then obtain ns where "set ns \<subseteq> set type_names_known" "ts = map JStr ns" by blast
    then show "\<forall>item \<in> set ts. \<exists>n \<in> set type_names_known. item = JStr n"
      using subsetD [of "set ns" "set type_names_known"] by auto
  qed
  finally show ?thesis using JArr
    by (cases ts) (auto simp: validate_schema_type_keyword_def type_keyword_ok_def)
qed (auto simp: validate_schema_type_keyword_def type_keyword_ok_def)

lemma check_type_iff: "check_type obj path = Inr () \<longleftrightarrow> (\<forall>ty. key ''type'' obj = Some ty \<longrightarrow> type_keyword_ok ty)"
  by (auto simp: check_type_def type_keyword_iff split: option.splits)

lemma check_required_iff:
  "check_required obj path = Inr () \<longleftrightarrow> (\<forall>r. key ''required'' obj = Some r \<longrightarrow> (\<exists>ns. r = JArr (map JStr ns)))"
proof (cases "key ''required'' obj")
  case (Some r)
  show ?thesis
  proof (cases r)
    case (JArr vs)
    then show ?thesis using Some all_strings [of vs] by (simp add: check_required_def)
  qed (use Some in \<open>auto simp: check_required_def\<close>)
qed (simp add: check_required_def)

lemma check_enum_iff:
  "check_enum obj path = Inr () \<longleftrightarrow> (\<forall>r. key ''enum'' obj = Some r \<longrightarrow> (\<exists>vs. vs \<noteq> [] \<and> r = JArr vs))"
proof (cases "key ''enum'' obj")
  case (Some r)
  then show ?thesis by (cases r) (auto simp: check_enum_def)
qed (simp add: check_enum_def)

lemma check_strict_iff:
  assumes "keywords_ok obj"
  shows "check_strict obj st path = Inr () \<longleftrightarrow> (st = Strict \<longrightarrow> is_object_schema obj \<longrightarrow> object_closed obj)"
proof (cases "key ''required'' obj")
  case None
  then show ?thesis by (auto simp: check_strict_def object_closed_def Let_def)
next
  case (Some r)
  then obtain ns where ns: "r = JArr (map JStr ns)" using assms by (auto simp: keywords_ok_def)
  then have req: "key ''required'' obj \<bind> as_array = Some (map JStr ns)" using Some by simp
  have names: "List.map_filter as_str (map JStr ns) = ns" by (induction ns) simp_all
  have inj: "map JStr as = (map JStr bs :: 'a json list) \<longleftrightarrow> as = bs" for as bs
    by (rule inj_map_eq_map) (simp add: inj_def)
  define ps where "ps = (case key ''properties'' obj \<bind> as_object of None \<Rightarrow> [] | Some ps \<Rightarrow> ps)"
  have "(\<forall>qs. key ''properties'' obj = Some (JObj qs) \<longrightarrow> fst ` set qs \<subseteq> set ns) \<longleftrightarrow> fst ` set ps \<subseteq> set ns"
  proof (cases "key ''properties'' obj")
    case (Some p)
    then obtain qs where "p = JObj qs" using assms by (auto simp: keywords_ok_def)
    then show ?thesis using Some by (simp add: ps_def)
  qed (simp add: ps_def)
  then have "object_closed obj \<longleftrightarrow> key ''additionalProperties'' obj = Some (JBool False) \<and> fst ` set ps \<subseteq> set ns"
    using Some ns by (auto simp: object_closed_def inj)
  moreover have "check_strict obj st path = Inr () \<longleftrightarrow>
      (st = Strict \<longrightarrow> is_object_schema obj \<longrightarrow>
         key ''additionalProperties'' obj = Some (JBool False) \<and> (\<forall>x \<in> set ps. fst x \<in> set ns))"
    by (simp add: check_strict_def Let_def req names ps_def [symmetric] split_beta)
  ultimately show ?thesis by (simp add: image_subset_iff)
qed

section \<open>Every level\<close>

text \<open>What acceptance at depth \<open>d\<close> comes to.\<close>

definition good_from ::
    "('n json \<Rightarrow> u8 list \<Rightarrow> 'n json option) \<Rightarrow> 'n json \<Rightarrow> schema_strictness \<Rightarrow> 'n json \<Rightarrow> nat \<Rightarrow> bool" where
  "good_from ptr root st s d \<longleftrightarrow>
     (\<forall>n t. (subschema ptr root ^^ n) s t \<longrightarrow> d + n \<le> max_schema_depth \<and> well_shaped ptr root st t)"

lemma good_from_step:
  "good_from ptr root st s d \<longleftrightarrow>
     d \<le> max_schema_depth \<and> well_shaped ptr root st s \<and> (\<forall>t. subschema ptr root s t \<longrightarrow> good_from ptr root st t (Suc d))"
proof
  assume g: "good_from ptr root st s d"
  have "d + 0 \<le> max_schema_depth \<and> well_shaped ptr root st s"
    using g unfolding good_from_def by (metis relpowp_0_I)
  moreover have "good_from ptr root st t (Suc d)" if "subschema ptr root s t" for t
    unfolding good_from_def
  proof (intro allI impI)
    fix n u
    assume "(subschema ptr root ^^ n) t u"
    then have "(subschema ptr root ^^ Suc n) s u" using that by (meson relpowp_Suc_I2)
    then show "Suc d + n \<le> max_schema_depth \<and> well_shaped ptr root st u"
      using g unfolding good_from_def by (metis add_Suc add_Suc_right)
  qed
  ultimately show "d \<le> max_schema_depth \<and> well_shaped ptr root st s \<and> (\<forall>t. subschema ptr root s t \<longrightarrow> good_from ptr root st t (Suc d))"
    by simp
next
  assume a: "d \<le> max_schema_depth \<and> well_shaped ptr root st s \<and> (\<forall>t. subschema ptr root s t \<longrightarrow> good_from ptr root st t (Suc d))"
  show "good_from ptr root st s d"
    unfolding good_from_def
  proof (intro allI impI)
    fix n u
    assume r: "(subschema ptr root ^^ n) s u"
    show "d + n \<le> max_schema_depth \<and> well_shaped ptr root st u"
    proof (cases n)
      case 0
      then show ?thesis using r a by simp
    next
      case (Suc m)
      then obtain t where "subschema ptr root s t" "(subschema ptr root ^^ m) t u" using r by (meson relpowp_Suc_D2)
      then show ?thesis using a Suc unfolding good_from_def by fastforce
    qed
  qed
qed

lemma shape_ok_iff: "validate_schema_shape_inner ptr s root path st d = Inr () \<longleftrightarrow> good_from ptr root st s d"
proof (induction "Suc max_schema_depth - d" arbitrary: s path d)
  case 0
  then have "max_schema_depth < d" by simp
  then show ?case by (simp add: validate_schema_shape_inner.simps [of ptr s] good_from_step [of ptr root st s])
next
  case (Suc k)
  then have d: "\<not> max_schema_depth < d" "k = Suc max_schema_depth - Suc d" by simp_all
  note ih = Suc.hyps(1) [OF d(2)]
  show ?case
  proof (cases "resolve_schema_ref ptr s root")
    case (Some t)
    have "subschema ptr root s t' \<longleftrightarrow> t' = t" for t'
      using Some by (auto intro: by_ref elim: subschemaE)
    then show ?thesis using Some d(1) ih
      by (simp add: validate_schema_shape_inner.simps [of ptr s] good_from_step [of ptr root st s] well_shaped_def)
  next
    case None
    show ?thesis
    proof (cases "as_object s")
      case None
      then have "\<not> well_shaped ptr root st s" using \<open>resolve_schema_ref ptr s root = None\<close> by (auto simp: well_shaped_def)
      then show ?thesis using None \<open>resolve_schema_ref ptr s root = None\<close> d(1)
        by (simp add: validate_schema_shape_inner.simps [of ptr s] good_from_step [of ptr root st s])
    next
      case (Some obj)
      then have JObj: "s = JObj obj" by simp
      let ?good = "\<lambda>b. good_from ptr root st b (Suc d)"
      have sub: "(\<forall>t. subschema ptr root s t \<longrightarrow> ?good t) \<longleftrightarrow>
          (\<forall>bs. key ''anyOf'' obj = Some (JArr bs) \<longrightarrow> (\<forall>b \<in> set bs. ?good b))
          \<and> (\<forall>ps. key ''properties'' obj = Some (JObj ps) \<longrightarrow> (\<forall>(k, b) \<in> set ps. ?good b))
          \<and> (\<forall>b. key ''items'' obj = Some b \<longrightarrow> ?good b)
          \<and> (\<forall>kvs. key ''additionalProperties'' obj = Some (JObj kvs) \<longrightarrow> ?good (JObj kvs))
          \<and> (\<forall>ps. key ''$defs'' obj = Some (JObj ps) \<longrightarrow> (\<forall>(k, b) \<in> set ps. ?good b))"
        using None JObj by (auto elim!: subschemaE intro: subschema.intros)
      have any_of: "(case key ''anyOf'' obj of
                      None \<Rightarrow> Inr ()
                    | Some a \<Rightarrow>
                        (case as_array a of
                           None \<Rightarrow> Inl (Any_of_not_array, path)
                         | Some branches \<Rightarrow>
                             then_check (fault_if (branches = []) (Any_of_empty, path))
                               (each_check (\<lambda>(i, b). validate_schema_shape_inner ptr b root (path @ [At_any_of i]) st (Suc d))
                                  (enumerate 0 branches)))) = Inr ()
          \<longleftrightarrow> (\<forall>r. key ''anyOf'' obj = Some r \<longrightarrow> (\<exists>bs. bs \<noteq> [] \<and> r = JArr bs \<and> (\<forall>b \<in> set bs. ?good b)))"
      proof (cases "key ''anyOf'' obj")
        case (Some a)
        have "(\<forall>x \<in> set (enumerate 0 bs). ?good (snd x)) \<longleftrightarrow> (\<forall>b \<in> snd ` set (enumerate 0 bs). ?good b)" for bs by simp
        moreover have "snd ` set (enumerate 0 bs) = set bs" for bs :: "'a json list" by (metis list.set_map map_snd_enumerate)
        ultimately show ?thesis using Some ih by (cases a) (simp_all add: split_beta)
      qed simp
      have props: "(case key k obj of
                      None \<Rightarrow> Inr ()
                    | Some p \<Rightarrow>
                        (case as_object p of
                           None \<Rightarrow> Inl (e, path)
                         | Some ps \<Rightarrow>
                             each_check (\<lambda>(k, b). validate_schema_shape_inner ptr b root (path @ [f k]) st (Suc d)) ps)) = Inr ()
          \<longleftrightarrow> (\<forall>r. key k obj = Some r \<longrightarrow> (\<exists>ps. r = JObj ps \<and> (\<forall>(k, b) \<in> set ps. ?good b)))" for k e f
      proof (cases "key k obj")
        case (Some p)
        then show ?thesis using ih by (cases p) (simp_all add: split_beta)
      qed simp
      have items: "(case key ''items'' obj of
                      None \<Rightarrow> Inr ()
                    | Some b \<Rightarrow> validate_schema_shape_inner ptr b root (path @ [At_items]) st (Suc d)) = Inr ()
          \<longleftrightarrow> (\<forall>b. key ''items'' obj = Some b \<longrightarrow> ?good b)"
        using ih by (cases "key ''items'' obj") simp_all
      have extra: "(case key ''additionalProperties'' obj of
                      None \<Rightarrow> Inr ()
                    | Some (JBool _) \<Rightarrow> Inr ()
                    | Some (JObj kvs) \<Rightarrow> validate_schema_shape_inner ptr (JObj kvs) root (path @ [At_additional]) st (Suc d)
                    | Some _ \<Rightarrow> Inl (Additional_malformed, path)) = Inr ()
          \<longleftrightarrow> (\<forall>r. key ''additionalProperties'' obj = Some r \<longrightarrow> (\<exists>b. r = JBool b) \<or> (\<exists>kvs. r = JObj kvs \<and> ?good (JObj kvs)))"
      proof (cases "key ''additionalProperties'' obj")
        case (Some a)
        then show ?thesis using ih by (cases a) simp_all
      qed simp
      have "validate_schema_shape_inner ptr s root path st d = Inr () \<longleftrightarrow>
          keywords_ok obj \<and> (st = Strict \<longrightarrow> is_object_schema obj \<longrightarrow> object_closed obj)
          \<and> (\<forall>t. subschema ptr root s t \<longrightarrow> ?good t)"
      proof -
        have e: "validate_schema_shape_inner ptr s root path st d = Inr () \<longleftrightarrow>
            (\<forall>ty. key ''type'' obj = Some ty \<longrightarrow> type_keyword_ok ty)
            \<and> (\<forall>r. key ''required'' obj = Some r \<longrightarrow> (\<exists>ns. r = JArr (map JStr ns)))
            \<and> (\<forall>r. key ''enum'' obj = Some r \<longrightarrow> (\<exists>vs. vs \<noteq> [] \<and> r = JArr vs))
            \<and> (\<forall>r. key ''anyOf'' obj = Some r \<longrightarrow> (\<exists>bs. bs \<noteq> [] \<and> r = JArr bs \<and> (\<forall>b \<in> set bs. ?good b)))
            \<and> (\<forall>r. key ''properties'' obj = Some r \<longrightarrow> (\<exists>ps. r = JObj ps \<and> (\<forall>(k, b) \<in> set ps. ?good b)))
            \<and> (\<forall>b. key ''items'' obj = Some b \<longrightarrow> ?good b)
            \<and> (\<forall>r. key ''additionalProperties'' obj = Some r \<longrightarrow> (\<exists>b. r = JBool b) \<or> (\<exists>kvs. r = JObj kvs \<and> ?good (JObj kvs)))
            \<and> (\<forall>r. key ''$defs'' obj = Some r \<longrightarrow> (\<exists>ps. r = JObj ps \<and> (\<forall>(k, b) \<in> set ps. ?good b)))
            \<and> check_strict obj st path = Inr ()"
          using None d(1) unfolding JObj validate_schema_shape_inner.simps [of ptr "JObj obj"]
          by (simp only: then_check_ok check_type_iff check_required_iff check_enum_iff any_of props items extra
              option.case as_object.simps if_False)
        show ?thesis
        proof (cases "keywords_ok obj")
          case True
          then show ?thesis unfolding e sub check_strict_iff [OF True] by (force simp: keywords_ok_def)
        next
          case False
          then show ?thesis unfolding e by (auto simp: keywords_ok_def)
        qed
      qed
      then show ?thesis using d(1) JObj None by (simp add: good_from_step [of ptr root st "JObj obj"] well_shaped_def)
    qed
  qed
qed

section \<open>The depth cap of the validation\<close>

lemma validate_upto_cap:
  assumes "good_from ptr root st s d" and "\<And>t u. (subschema ptr root)\<^sup>*\<^sup>* s t \<Longrightarrow> resolve_schema_ref ptr t root = Some u \<Longrightarrow>
      resolve_schema_ref ptr u root = None"
    and "max_schema_depth \<le> limit"
  shows "validate_upto limit ptr is_int v s root d = validate_upto max_schema_depth ptr is_int v s root d"
  using assms(1,2)
proof (induction "Suc max_schema_depth - d" arbitrary: s v d)
  case 0
  then show ?case by (simp add: good_from_step [of ptr root st s])
next
  case (Suc k)
  have d: "d \<le> max_schema_depth" "d \<le> limit" "k = Suc max_schema_depth - Suc d"
    using Suc.hyps(2) assms(3) by simp_all
  define t where "t = (case resolve_schema_ref ptr s root of Some t \<Rightarrow> t | None \<Rightarrow> s)"
  have t: "t = s \<or> subschema ptr root s t" "resolve_schema_ref ptr t root = None"
    using Suc.prems(2) [of s] by (auto simp: t_def by_ref split: option.splits)
  have sub: "validate_upto limit ptr is_int w b root (Suc d) = validate_upto max_schema_depth ptr is_int w b root (Suc d)"
    if b: "subschema ptr root t b" for b w
  proof (rule Suc.hyps(1) [OF d(3)])
    have "(subschema ptr root)\<^sup>*\<^sup>* s b" using t(1) b by (auto intro: converse_rtranclp_into_rtranclp)
    then show "\<And>u v. (subschema ptr root)\<^sup>*\<^sup>* b u \<Longrightarrow> resolve_schema_ref ptr u root = Some v \<Longrightarrow> resolve_schema_ref ptr v root = None"
      using Suc.prems(2) by (meson rtranclp_trans)
    show "good_from ptr root st b (Suc d)"
    proof (cases "t = s")
      case True
      then show ?thesis using Suc.prems(1) b by (simp add: good_from_step [of ptr root st s])
    next
      case False
      then have "good_from ptr root st t (Suc d)" using t(1) Suc.prems(1) by (simp add: good_from_step [of ptr root st s])
      then have "good_from ptr root st b (Suc (Suc d))" using b by (simp add: good_from_step [of ptr root st t])
      then show ?thesis unfolding good_from_def by (metis Suc_leD add_Suc)
    qed
  qed
  show ?case
  proof (cases "as_object t")
    case None
    then show ?thesis using d by (simp add: validate_upto.simps [of _ ptr is_int v s] t_def [symmetric])
  next
    case (Some obj)
    then have obj: "t = JObj obj" by simp
    let ?V = "\<lambda>limit w b. validate_upto limit ptr is_int w b root (Suc d)"
    note sub = sub [unfolded obj]
    have any_of: "(case key ''anyOf'' obj \<bind> as_array of None \<Rightarrow> True | Some bs \<Rightarrow> list_ex (\<lambda>b. ?V limit v b) bs)
        = (case key ''anyOf'' obj \<bind> as_array of None \<Rightarrow> True | Some bs \<Rightarrow> list_ex (\<lambda>b. ?V max_schema_depth v b) bs)"
    proof (cases "key ''anyOf'' obj \<bind> as_array")
      case (Some bs)
      then have "key ''anyOf'' obj = Some (JArr bs)" by (auto simp: bind_eq_Some_conv)
      then show ?thesis using Some sub [OF by_any_of [OF t(2) [unfolded obj]]] by (simp cong: list_ex_cong)
    qed simp
    have props: "(case key ''properties'' obj \<bind> as_object of None \<Rightarrow> True | Some ps \<Rightarrow>
          list_all (\<lambda>(k, b). case map_of fs k of None \<Rightarrow> True | Some f \<Rightarrow> ?V limit f b) ps)
        = (case key ''properties'' obj \<bind> as_object of None \<Rightarrow> True | Some ps \<Rightarrow>
          list_all (\<lambda>(k, b). case map_of fs k of None \<Rightarrow> True | Some f \<Rightarrow> ?V max_schema_depth f b) ps)" for fs
    proof (cases "key ''properties'' obj \<bind> as_object")
      case (Some ps)
      then have "key ''properties'' obj = Some (JObj ps)" by (auto simp: bind_eq_Some_conv)
      then show ?thesis using Some sub [OF by_property [OF t(2) [unfolded obj]]]
        by (auto simp: list_all_iff split: option.split)
    qed simp
    have extra: "(case key ''additionalProperties'' obj of
            Some (JBool False) \<Rightarrow> P | Some (JObj extra) \<Rightarrow> list_all (\<lambda>(k, f). Q k \<or> ?V limit f (JObj extra)) fs | _ \<Rightarrow> True)
        = (case key ''additionalProperties'' obj of
            Some (JBool False) \<Rightarrow> P | Some (JObj extra) \<Rightarrow> list_all (\<lambda>(k, f). Q k \<or> ?V max_schema_depth f (JObj extra)) fs | _ \<Rightarrow> True)" for P Q fs
      using sub [OF by_additional [OF t(2) [unfolded obj]]]
      by (cases "key ''additionalProperties'' obj") (auto simp: list_all_iff split: json.split bool.split)
    have items: "(case (key ''items'' obj, as_array v) of
            (Some b, Some vs) \<Rightarrow> list_all (\<lambda>f. ?V limit f b) vs | _ \<Rightarrow> True)
        = (case (key ''items'' obj, as_array v) of
            (Some b, Some vs) \<Rightarrow> list_all (\<lambda>f. ?V max_schema_depth f b) vs | _ \<Rightarrow> True)"
      using sub [OF by_items [OF t(2) [unfolded obj]]]
      by (cases "key ''items'' obj"; cases "as_array v") (auto simp: list_all_iff)
    have "\<not> limit < d" "\<not> max_schema_depth < d" using d by simp_all
    then show ?thesis
      unfolding validate_upto.simps [of limit ptr is_int v s] validate_upto.simps [of max_schema_depth ptr is_int v s]
        t_def [symmetric] Some option.case any_of props extra items by simp
  qed
qed

section \<open>Small schemas\<close>

text \<open>A closed object; a tree, whose children are trees; and a reference to a reference to a string.\<close>

definition closed_schema :: "nat json" where
  "closed_schema =
     JObj [(bytes ''type'', JStr (bytes ''object'')),
           (bytes ''properties'', JObj [(bytes ''a'', JObj [(bytes ''type'', JStr (bytes ''string''))])]),
           (bytes ''required'', JArr [JStr (bytes ''a'')]),
           (bytes ''additionalProperties'', JBool False)]"

definition tree_schema :: "nat json" where
  "tree_schema =
     JObj [(bytes ''type'', JStr (bytes ''object'')),
           (bytes ''properties'', JObj [(bytes ''child'', JObj [(bytes ''$ref'', JStr (bytes ''#''))])])]"

definition chain_schema :: "nat json" where
  "chain_schema =
     JObj [(bytes ''$ref'', JStr (bytes ''#/$defs/a'')),
           (bytes ''$defs'',
            JObj [(bytes ''a'', JObj [(bytes ''$ref'', JStr (bytes ''#/$defs/b''))]),
                  (bytes ''b'', JObj [(bytes ''type'', JStr (bytes ''string''))])])]"

definition demo_pointer :: "nat json \<Rightarrow> u8 list \<Rightarrow> nat json option" where
  "demo_pointer root p =
     (case jget root (bytes ''$defs'') of
        None \<Rightarrow> None
      | Some defs \<Rightarrow> if p = bytes ''/$defs/a'' then jget defs (bytes ''a'')
                     else if p = bytes ''/$defs/b'' then jget defs (bytes ''b'') else None)"

lemma closed_accepted: "validate_schema_shape demo_pointer closed_schema Strict [] = Inr ()"
  by code_simp

lemma chain_accepted: "validate_schema_shape demo_pointer chain_schema Strict [] = Inr ()"
  by code_simp

section \<open>Properties\<close>

text \<open>C32. The check of a request's schema, decided exactly: a schema is accepted when every schema it is made
  of, its references followed, lies within 64 steps, has each keyword of its type, and in strict
  mode closes and completes every object; it is refused otherwise.\<close>

theorem schema_accepted_iff:
  "validate_schema_shape ptr s st path = Inr () \<longleftrightarrow>
     (\<forall>n t. (subschema ptr s ^^ n) s t \<longrightarrow> n \<le> 64 \<and> well_shaped ptr s st t)"
  by (simp add: validate_schema_shape_def shape_ok_iff good_from_def max_schema_depth_def)

theorem schema_accepted_iff_witness: "well_shaped demo_pointer closed_schema Strict closed_schema"
  using schema_accepted_iff [THEN iffD1, OF closed_accepted, THEN spec, of 0] by simp

text \<open>A recursive schema is always refused: where some schema it is made of is made of itself, the check
  runs into its depth cap, although nothing in the schema is nested deeply.\<close>

theorem recursive_schema_refused:
  assumes "(subschema ptr s)\<^sup>*\<^sup>* s t" and "(subschema ptr s)\<^sup>+\<^sup>+ t t"
  shows "validate_schema_shape ptr s st path \<noteq> Inr ()"
proof
  assume "validate_schema_shape ptr s st path = Inr ()"
  then have "good_from ptr s st s 0" by (simp add: validate_schema_shape_def shape_ok_iff)
  then have short: "n \<le> max_schema_depth" if "(subschema ptr s ^^ n) s u" for n u
    using that by (auto simp: good_from_def)
  obtain k where k: "(subschema ptr s ^^ k) s t" using assms(1) by (meson rtranclp_imp_relpowp)
  obtain m where m: "0 < m" "(subschema ptr s ^^ m) t t" using assms(2) by (metis tranclp_power)
  have "\<exists>l. n \<le> l \<and> (subschema ptr s ^^ l) s t" for n
  proof (induction n)
    case 0
    show ?case using k by blast
  next
    case (Suc n)
    then obtain l where l: "n \<le> l" "(subschema ptr s ^^ l) s t" by blast
    have "(subschema ptr s ^^ (l + m)) s t" using l(2) m(2) by (auto simp: relpowp_add)
    then show ?case using l(1) m(1) by (intro exI [of _ "l + m"]) simp
  qed
  then obtain l where "Suc max_schema_depth \<le> l" "(subschema ptr s ^^ l) s t" by blast
  then show False using short by fastforce
qed

theorem recursive_schema_refused_witness: "validate_schema_shape demo_pointer tree_schema Best_effort [] \<noteq> Inr ()"
proof (rule recursive_schema_refused)
  let ?child = "JObj [(bytes ''$ref'', JStr (bytes ''#''))] :: nat json"
  have "subschema demo_pointer tree_schema tree_schema ?child"
    unfolding tree_schema_def
    by (rule by_property [where k = "bytes ''child''" and ps = "[(bytes ''child'', ?child)]"])
      (simp_all add: resolve_schema_ref_def jget_def key_def)
  moreover have "subschema demo_pointer tree_schema ?child tree_schema"
    by (rule by_ref) (simp add: resolve_schema_ref_def jget_def)
  ultimately show "(subschema demo_pointer tree_schema)\<^sup>+\<^sup>+ tree_schema tree_schema" by (rule tranclp.trancl_into_trancl [OF tranclp.r_into_trancl])
qed simp

text \<open>The validation of a reply fails open on references: where a schema's reference names another
  reference, or names nothing, every value whatever is valid.\<close>

theorem reference_accepts_anything:
  assumes "(case resolve_schema_ref ptr s s of Some t \<Rightarrow> t | None \<Rightarrow> s) = JObj obj"
    and "\<forall>k \<in> {''anyOf'', ''const'', ''enum'', ''type'', ''required'', ''properties'', ''additionalProperties'', ''items''}. key k obj = None"
  shows "validate_against_schema ptr is_int v s"
  using assms
  by (simp add: validate_against_schema_def validate_upto.simps [of _ ptr is_int v s] plain_keywords_def required_present_def
      split: option.split)

theorem reference_accepts_anything_witness:
  "validate_schema_shape demo_pointer chain_schema Strict [] = Inr ()
   \<and> validate_against_schema demo_pointer (\<lambda>n. True) JNull chain_schema
   \<and> \<not> validate_against_schema demo_pointer (\<lambda>n. True) JNull (JObj [(bytes ''type'', JStr (bytes ''string''))])"
proof -
  have "(case resolve_schema_ref demo_pointer chain_schema chain_schema of Some t \<Rightarrow> t | None \<Rightarrow> chain_schema)
      = JObj [(bytes ''$ref'', JStr (bytes ''#/$defs/b''))]" by code_simp
  then have "validate_against_schema demo_pointer (\<lambda>n. True) JNull chain_schema"
    by (rule reference_accepts_anything) (simp add: key_def)
  moreover have "\<not> validate_against_schema demo_pointer (\<lambda>n. True) JNull (JObj [(bytes ''type'', JStr (bytes ''string''))])"
    by code_simp
  ultimately show ?thesis using chain_accepted by simp
qed

text \<open>C33. Where no reference leads to a reference, the validation of a reply against an accepted schema is the
  one without a cap: the limit of 64 levels is never what refuses a reply.\<close>

theorem depth_cap_never_decides:
  assumes "validate_schema_shape ptr s st path = Inr ()"
    and "\<And>t u. (subschema ptr s)\<^sup>*\<^sup>* s t \<Longrightarrow> resolve_schema_ref ptr t s = Some u \<Longrightarrow> resolve_schema_ref ptr u s = None"
    and "64 \<le> limit"
  shows "validate_against_schema ptr is_int v s = validate_upto limit ptr is_int v s s 0"
proof -
  have "good_from ptr s st s 0" using assms(1) by (simp add: validate_schema_shape_def shape_ok_iff)
  have "max_schema_depth \<le> limit" using assms(3) by (simp add: max_schema_depth_def)
  note cap = this
  show ?thesis unfolding validate_against_schema_def
    by (rule sym, rule validate_upto_cap) (use \<open>good_from ptr s st s 0\<close> assms(2) cap in simp_all)
qed

lemma closed_parts:
  "(subschema demo_pointer closed_schema)\<^sup>*\<^sup>* closed_schema t \<Longrightarrow>
     t = closed_schema \<or> t = JObj [(bytes ''type'', JStr (bytes ''string''))]"
proof (induction rule: rtranclp_induct)
  case (step t u)
  have "resolve_schema_ref demo_pointer t closed_schema = None"
    using step.IH by (auto simp: closed_schema_def resolve_schema_ref_def jget_def)
  then have "subschema demo_pointer closed_schema t u \<Longrightarrow>
      u = JObj [(bytes ''type'', JStr (bytes ''string''))]"
    using step.IH by (elim subschemaE) (auto simp: closed_schema_def key_def)
  then show ?case using step.hyps(2) by simp
qed simp

theorem depth_cap_never_decides_witness:
  "validate_against_schema demo_pointer (\<lambda>n. True) JNull closed_schema
     = validate_upto 1000 demo_pointer (\<lambda>n. True) JNull closed_schema closed_schema 0"
proof (rule depth_cap_never_decides [OF closed_accepted])
  fix t u
  assume "(subschema demo_pointer closed_schema)\<^sup>*\<^sup>* closed_schema t" "resolve_schema_ref demo_pointer t closed_schema = Some u"
  then show "resolve_schema_ref demo_pointer u closed_schema = None"
    using closed_parts [of t] by (auto simp: closed_schema_def resolve_schema_ref_def jget_def)
qed simp

end
