(* ===== verification/Tool_Calls.thy ===== *)
theory Tool_Calls
  imports Chat_Schema Stop_Scan
begin

text \<open>
  Tools in the chat route (\<open>src/server/routes/chat.rs\<close>): what a request may ask for
  (\<open>build_tool_config\<close>) and the tool calls read from what the model wrote
  (\<open>try_parse_tool_calls\<close>).  Text is its UTF-8 bytes.  \<open>serde_json\<close> is an argument: reading a
  whole text, reading the first value of a text with the bytes it took, and writing a value.
  The counter behind the generated ids is threaded through.
\<close>

section \<open>Text\<close>

text \<open>The characters \<open>str::trim\<close> removes, encoded.\<close>

definition white_space :: "u8 list list" where
  "white_space =
     [[9], [10], [11], [12], [13], [32], [0xC2, 0x85], [0xC2, 0xA0], [0xE1, 0x9A, 0x80],
      [0xE2, 0x80, 0x80], [0xE2, 0x80, 0x81], [0xE2, 0x80, 0x82], [0xE2, 0x80, 0x83], [0xE2, 0x80, 0x84],
      [0xE2, 0x80, 0x85], [0xE2, 0x80, 0x86], [0xE2, 0x80, 0x87], [0xE2, 0x80, 0x88], [0xE2, 0x80, 0x89],
      [0xE2, 0x80, 0x8A], [0xE2, 0x80, 0xA8], [0xE2, 0x80, 0xA9], [0xE2, 0x80, 0xAF], [0xE2, 0x81, 0x9F],
      [0xE3, 0x80, 0x80]]"

lemma strip_prefix_Some: "strip_prefix p t = Some r \<longleftrightarrow> t = p @ r"
  by (induction p t rule: strip_prefix.induct) auto

lemma strip_prefix_app [simp]: "strip_prefix p (p @ r) = Some r"
  by (simp add: strip_prefix_Some)

function strip_all :: "u8 list list \<Rightarrow> u8 list \<Rightarrow> u8 list" where
  "strip_all ws t =
     (case List.map_filter (\<lambda>w. if w = [] then None else strip_prefix w t) ws of
        [] \<Rightarrow> t
      | r # _ \<Rightarrow> strip_all ws r)"
  by pat_completeness auto
termination
proof (relation "measure (\<lambda>(ws, t). length t)")
  fix ws :: "u8 list list" and t r rs
  assume "List.map_filter (\<lambda>w. if w = [] then None else strip_prefix w t) ws = r # rs"
  then have "r \<in> set (List.map_filter (\<lambda>w. if w = [] then None else strip_prefix w t) ws)" by simp
  then obtain w where "w \<noteq> []" "strip_prefix w t = Some r"
    by (auto simp: List.map_filter_def split: if_splits)
  then show "((ws, r), (ws, t)) \<in> measure (\<lambda>(ws, t). length t)" by (auto simp: strip_prefix_Some)
qed simp

declare strip_all.simps [simp del]

definition trim_start :: "u8 list \<Rightarrow> u8 list" where
  "trim_start t = strip_all white_space t"

definition trim_end :: "u8 list \<Rightarrow> u8 list" where
  "trim_end t = rev (strip_all (map rev white_space) (rev t))"

definition trim :: "u8 list \<Rightarrow> u8 list" where
  "trim t = trim_end (trim_start t)"

definition strip_suffix :: "u8 list \<Rightarrow> u8 list \<Rightarrow> u8 list option" where
  "strip_suffix p t = map_option rev (strip_prefix (rev p) (rev t))"

definition or_else :: "'a option \<Rightarrow> 'a option \<Rightarrow> 'a option" where
  "or_else a b = (case a of None \<Rightarrow> b | Some x \<Rightarrow> Some x)"

definition unwrap_or :: "'a option \<Rightarrow> 'a \<Rightarrow> 'a" where
  "unwrap_or a x = (case a of None \<Rightarrow> x | Some y \<Rightarrow> y)"

lemma find_str_bound: "find_str t pat = Some i \<Longrightarrow> i + length pat \<le> length t"
  by (induction t pat arbitrary: i rule: find_str.induct) (auto split: if_splits dest: prefix_length_le)

text \<open>\<open>str::replace\<close>, for a pattern that is not empty.\<close>

function replace_all :: "u8 list \<Rightarrow> u8 list \<Rightarrow> u8 list \<Rightarrow> u8 list" where
  "replace_all t pat by_text =
     (case (if pat = [] then None else find_str t pat) of
        None \<Rightarrow> t
      | Some i \<Rightarrow> take i t @ by_text @ replace_all (drop (i + length pat) t) pat by_text)"
  by pat_completeness auto
termination
proof (relation "measure (\<lambda>(t, pat, by_text). length t)")
  fix t pat by_text :: "u8 list" and i
  assume "(if pat = [] then None else find_str t pat) = Some i"
  then have "pat \<noteq> []" "i + length pat \<le> length t" by (auto split: if_splits dest: find_str_bound)
  then show "((drop (i + length pat) t, pat, by_text), (t, pat, by_text)) \<in> measure (\<lambda>(t, pat, by_text). length t)"
    by (cases pat) auto
qed simp

declare replace_all.simps [simp del]

definition strip_json_fences :: "u8 list \<Rightarrow> u8 list" where
  "strip_json_fences t =
     (let s = trim t;
          inner = or_else (strip_prefix (bytes ''```json'') s)
                    (or_else (strip_prefix (bytes ''```JSON'') s) (strip_prefix (bytes ''```'') s))
      in unwrap_or
           (map_option (\<lambda>u. trim (rev (dropWhile (\<lambda>b. b = 10) (rev u))))
             (inner \<bind> (\<lambda>u. strip_suffix (bytes ''```'') (dropWhile (\<lambda>b. b = 10) u)))) s)"

section \<open>The tools of a request\<close>

record 'n tool_definition =
  td_type :: "u8 list"
  td_name :: "u8 list"
  td_parameters :: "'n json option"
  td_strict :: "bool option"

datatype tool_choice_mode = Choice_none | Choice_auto | Choice_required | Forced_function "u8 list"

record 'n tool_config =
  cfg_tools :: "'n tool_definition list"
  cfg_choice :: tool_choice_mode
  cfg_parallel :: bool

datatype tool_error =
    Tool_type nat
  | Tool_name nat
  | Tool_schema nat shape_fault "path_step list"
  | Choice_mode_unknown "u8 list"
  | Choice_type_missing
  | Choice_name_missing
  | Choice_unknown_function "u8 list"
  | Allowed_not_object
  | Allowed_mode_missing
  | Allowed_tools_not_array
  | Allowed_entry_unnamed
  | Allowed_unknown_function "u8 list"
  | Allowed_mode_unknown "u8 list"
  | Choice_type_unknown "u8 list"
  | Choice_malformed
  | No_usable_tool

definition is_valid_function_name :: "u8 list \<Rightarrow> bool" where
  "is_valid_function_name name \<longleftrightarrow>
     name \<noteq> [] \<and> length name \<le> 64 \<and>
     list_all (\<lambda>b. 48 \<le> b \<and> b \<le> 57 \<or> 65 \<le> b \<and> b \<le> 90 \<or> 97 \<le> b \<and> b \<le> 122 \<or> b = 95 \<or> b = 45) name"

definition empty_strict_schema :: "'n json" where
  "empty_strict_schema =
     JObj [(bytes ''type'', JStr (bytes ''object'')), (bytes ''properties'', JObj []), (bytes ''required'', JArr []),
           (bytes ''additionalProperties'', JBool False)]"

definition validate_tool_definition ::
    "('n json \<Rightarrow> u8 list \<Rightarrow> 'n json option) \<Rightarrow> 'n tool_definition \<Rightarrow> nat \<Rightarrow> tool_error + unit" where
  "validate_tool_definition ptr tool i =
     (let strict = (td_strict tool = Some True);
          checked = (\<lambda>r. case r of Inl (e, path) \<Rightarrow> Inl (Tool_schema i e path) | Inr u \<Rightarrow> Inr u)
      in if td_type tool \<noteq> bytes ''function'' then Inl (Tool_type i)
         else if \<not> is_valid_function_name (td_name tool) then Inl (Tool_name i)
         else case td_parameters tool of
                Some p \<Rightarrow> checked (validate_schema_shape ptr p (if strict then Strict else Best_effort) [])
              | None \<Rightarrow> if strict then checked (validate_schema_shape ptr empty_strict_schema Strict []) else Inr ())"

definition parse_tool_reference_name :: "'n json \<Rightarrow> u8 list option" where
  "parse_tool_reference_name r =
     or_else (jget r (bytes ''function'') \<bind> (\<lambda>f. jget f (bytes ''name'')) \<bind> as_str)
             (jget r (bytes ''name'') \<bind> as_str)"

definition find_tool :: "'n tool_definition list \<Rightarrow> u8 list \<Rightarrow> 'n tool_definition option" where
  "find_tool tools name = List.find (\<lambda>t. td_name t = name) tools"

text \<open>The tools \<open>allowed_tools\<close> names, each once.\<close>

fun allowed_subset ::
    "'n tool_definition list \<Rightarrow> 'n json list \<Rightarrow> u8 list set \<Rightarrow> tool_error + 'n tool_definition list" where
  "allowed_subset tools [] seen = Inr []"
| "allowed_subset tools (r # rs) seen =
     (case parse_tool_reference_name r of
        None \<Rightarrow> Inl Allowed_entry_unnamed
      | Some name \<Rightarrow>
          (case find_tool tools name of
             None \<Rightarrow> Inl (Allowed_unknown_function name)
           | Some tool \<Rightarrow>
               (case allowed_subset tools rs (insert name seen) of
                  Inl e \<Rightarrow> Inl e
                | Inr ts \<Rightarrow> Inr (if name \<in> seen then ts else tool # ts))))"

definition choice_string :: "'n tool_config \<Rightarrow> u8 list \<Rightarrow> tool_error + 'n tool_config" where
  "choice_string config m =
     (if m = bytes ''none'' then Inr (config\<lparr>cfg_choice := Choice_none, cfg_tools := []\<rparr>)
      else if m = bytes ''auto'' then Inr (config\<lparr>cfg_choice := Choice_auto\<rparr>)
      else if m = bytes ''required'' then Inr (config\<lparr>cfg_choice := Choice_required\<rparr>)
      else Inl (Choice_mode_unknown m))"

definition choice_function :: "'n tool_config \<Rightarrow> 'n tool_definition list \<Rightarrow> 'n json \<Rightarrow> tool_error + 'n tool_config" where
  "choice_function config tools raw =
     (case parse_tool_reference_name raw of
        None \<Rightarrow> Inl Choice_name_missing
      | Some name \<Rightarrow>
          (case find_tool tools name of
             None \<Rightarrow> Inl (Choice_unknown_function name)
           | Some tool \<Rightarrow>
               Inr (config\<lparr>cfg_tools := [tool], cfg_choice := Forced_function name, cfg_parallel := False\<rparr>)))"

definition choice_allowed ::
    "'n tool_config \<Rightarrow> 'n tool_definition list \<Rightarrow> (u8 list \<times> 'n json) list \<Rightarrow> tool_error + 'n tool_config" where
  "choice_allowed config tools obj =
     (case (case key ''allowed_tools'' obj of Some a \<Rightarrow> as_object a | None \<Rightarrow> Some obj) of
        None \<Rightarrow> Inl Allowed_not_object
      | Some allowed \<Rightarrow>
          (case key ''mode'' allowed \<bind> as_str of
             None \<Rightarrow> Inl Allowed_mode_missing
           | Some m \<Rightarrow>
               (case key ''tools'' allowed \<bind> as_array of
                  None \<Rightarrow> Inl Allowed_tools_not_array
                | Some refs \<Rightarrow>
                    (case allowed_subset tools refs {} of
                       Inl e \<Rightarrow> Inl e
                     | Inr ts \<Rightarrow>
                         if m = bytes ''auto'' then Inr (config\<lparr>cfg_tools := ts, cfg_choice := Choice_auto\<rparr>)
                         else if m = bytes ''required'' then Inr (config\<lparr>cfg_tools := ts, cfg_choice := Choice_required\<rparr>)
                         else Inl (Allowed_mode_unknown m)))))"

definition choose_tools :: "'n tool_config \<Rightarrow> 'n tool_definition list \<Rightarrow> 'n json \<Rightarrow> tool_error + 'n tool_config" where
  "choose_tools config tools raw =
     (case raw of
        JStr m \<Rightarrow> choice_string config m
      | JObj obj \<Rightarrow>
          (case key ''type'' obj \<bind> as_str of
             None \<Rightarrow> Inl Choice_type_missing
           | Some ty \<Rightarrow>
               if ty = bytes ''function'' then choice_function config tools raw
               else if ty = bytes ''allowed_tools'' then choice_allowed config tools obj
               else Inl (Choice_type_unknown ty))
      | _ \<Rightarrow> Inl Choice_malformed)"

definition build_tool_config ::
    "('n json \<Rightarrow> u8 list \<Rightarrow> 'n json option) \<Rightarrow> 'n tool_definition list option \<Rightarrow> 'n json option \<Rightarrow> bool option \<Rightarrow>
     tool_error + 'n tool_config" where
  "build_tool_config ptr tools choice par_calls =
     (let all_tools = unwrap_or tools [];
          config = \<lparr>cfg_tools = all_tools, cfg_choice = (if all_tools = [] then Choice_none else Choice_auto),
                    cfg_parallel = unwrap_or par_calls True\<rparr>
      in case each_check (\<lambda>(i, t). validate_tool_definition ptr t i) (enumerate 0 all_tools) of
           Inl e \<Rightarrow> Inl e
         | Inr _ \<Rightarrow>
             (case choice of
                None \<Rightarrow> Inr config
              | Some raw \<Rightarrow>
                  (case choose_tools config all_tools raw of
                     Inl e \<Rightarrow> Inl e
                   | Inr c \<Rightarrow> if cfg_choice c \<noteq> Choice_none \<and> cfg_tools c = [] then Inl No_usable_tool else Inr c)))"

section \<open>Tool calls\<close>

record tool_call =
  tc_id :: "u8 list"
  tc_type :: "u8 list"
  tc_name :: "u8 list"
  tc_arguments :: "u8 list"

record 'n serde =
  sd_from_str :: "u8 list \<Rightarrow> 'n json option"
  sd_first :: "u8 list \<Rightarrow> ('n json \<times> nat) option"
  sd_to_string :: "'n json \<Rightarrow> u8 list"

text \<open>\<open>make_tool_call_id\<close>: five hexadecimal digits of the counter.\<close>

definition lower_hex :: "nat \<Rightarrow> u8" where
  "lower_hex n = (if n < 10 then of_nat (48 + n) else of_nat (87 + n))"

definition make_tool_call_id :: "nat \<Rightarrow> u8 list" where
  "make_tool_call_id n = bytes ''call'' @ map (\<lambda>k. lower_hex (n mod 2 ^ 20 div 16 ^ k mod 16)) [4, 3, 2, 1, 0]"

text \<open>A call of a function, with the next id; the counter moves on.\<close>

definition new_call :: "nat \<Rightarrow> u8 list \<Rightarrow> u8 list \<Rightarrow> tool_call" where
  "new_call n name args =
     \<lparr>tc_id = make_tool_call_id n, tc_type = bytes ''function'', tc_name = name, tc_arguments = args\<rparr>"

definition parse_tool_call_entry :: "'n serde \<Rightarrow> nat \<Rightarrow> 'n json \<Rightarrow> (tool_call \<times> nat) option" where
  "parse_tool_call_entry sd n call =
     do { obj \<leftarrow> as_object call;
          name \<leftarrow> or_else (key ''function'' obj \<bind> (\<lambda>f. or_else (jget f (bytes ''name'') \<bind> as_str) (as_str f)))
                          (key ''name'' obj \<bind> as_str);
          args \<leftarrow> or_else (key ''function'' obj \<bind> (\<lambda>f. or_else (jget f (bytes ''arguments'')) (jget f (bytes ''parameters''))))
                  (or_else (key ''arguments'' obj) (key ''parameters'' obj));
          let given = key ''id'' obj \<bind> as_str;
              call = \<lparr>tc_id = unwrap_or given (make_tool_call_id n),
                      tc_type = unwrap_or (key ''type'' obj \<bind> as_str) (bytes ''function''),
                      tc_name = name,
                      tc_arguments = (case args of JStr s \<Rightarrow> s | v \<Rightarrow> sd_to_string sd v)\<rparr>
          in Some (call, if given = None then Suc n else n) }"

text \<open>The entries that parse, and all of them or nothing.\<close>

fun entries_that_parse :: "'n serde \<Rightarrow> nat \<Rightarrow> 'n json list \<Rightarrow> tool_call list \<times> nat" where
  "entries_that_parse sd n [] = ([], n)"
| "entries_that_parse sd n (v # vs) =
     (case parse_tool_call_entry sd n v of
        None \<Rightarrow> entries_that_parse sd n vs
      | Some (c, n1) \<Rightarrow> (case entries_that_parse sd n1 vs of (cs, n2) \<Rightarrow> (c # cs, n2)))"

fun every_entry :: "'n serde \<Rightarrow> nat \<Rightarrow> 'n json list \<Rightarrow> (tool_call list \<times> nat) option" where
  "every_entry sd n [] = Some ([], n)"
| "every_entry sd n (v # vs) =
     do { (c, n1) \<leftarrow> parse_tool_call_entry sd n v; (cs, n2) \<leftarrow> every_entry sd n1 vs; Some (c # cs, n2) }"

definition tool_exists :: "'n tool_definition list \<Rightarrow> u8 list \<Rightarrow> bool" where
  "tool_exists tools name = list_ex (\<lambda>t. td_name t = name) tools"

definition parse_json_block :: "'n serde \<Rightarrow> u8 list \<Rightarrow> 'n json option" where
  "parse_json_block sd block =
     (let text = strip_json_fences (trim block)
      in or_else (sd_from_str sd text)
           (do { inner \<leftarrow> map_option trim_start (strip_prefix (bytes ''{'') text);
                 if prefix (bytes ''{'') inner then map_option fst (sd_first sd inner) else None }))"

text \<open>\<open>Map::insert\<close>: the value of a key that is there changes in its place.\<close>

definition map_insert :: "(u8 list \<times> 'n json) list \<Rightarrow> u8 list \<Rightarrow> 'n json \<Rightarrow> (u8 list \<times> 'n json) list" where
  "map_insert kvs k v =
     (if k \<in> fst ` set kvs then map (\<lambda>(j, w). (j, if j = k then v else w)) kvs else kvs @ [(k, v)])"

subsection \<open>Braces\<close>

fun matching_from :: "nat \<Rightarrow> bool \<Rightarrow> bool \<Rightarrow> nat \<Rightarrow> u8 list \<Rightarrow> nat option" where
  "matching_from lvl quoted escaped i [] = None"
| "matching_from lvl quoted escaped i (b # t) =
     (if escaped then matching_from lvl quoted False (Suc i) t
      else if b = 0x5C \<and> quoted then matching_from lvl quoted True (Suc i) t
      else if b = 0x22 then matching_from lvl (\<not> quoted) escaped (Suc i) t
      else if (b = 0x7B \<or> b = 0x5B) \<and> \<not> quoted then matching_from (Suc lvl) quoted escaped (Suc i) t
      else if (b = 0x7D \<or> b = 0x5D) \<and> \<not> quoted then
        (if wrap_sub lvl 1 = 0 then Some i else matching_from (wrap_sub lvl 1) quoted escaped (Suc i) t)
      else matching_from lvl quoted escaped (Suc i) t)"

definition matching_brace :: "u8 list \<Rightarrow> nat option" where
  "matching_brace t = matching_from 0 False False 0 t"

subsection \<open>Gemma\<close>

fun closing_quote :: "bool \<Rightarrow> nat \<Rightarrow> u8 list \<Rightarrow> nat option" where
  "closing_quote escaped i [] = None"
| "closing_quote escaped i (b # t) =
     (if escaped then closing_quote False (Suc i) t
      else if b = 0x5C then closing_quote True (Suc i) t
      else if b = 0x22 then Some (Suc i)
      else closing_quote False (Suc i) t)"

text \<open>The first comma at or after \<open>from_i\<close> that a declared name and a colon follow.\<close>

function comma_before_name :: "u8 list list \<Rightarrow> u8 list \<Rightarrow> nat \<Rightarrow> nat" where
  "comma_before_name names t from_i =
     (case find_str (drop from_i t) (bytes '','') of
        None \<Rightarrow> length t
      | Some k \<Rightarrow>
          let comma = from_i + k;
              after = trim_start (drop (Suc comma) t)
          in if list_ex (\<lambda>n. case strip_prefix n after of
                    None \<Rightarrow> False | Some rest \<Rightarrow> prefix (bytes '':'') (trim_start rest)) names
             then comma
             else comma_before_name names t (Suc comma))"
  by pat_completeness auto
termination
proof (relation "measure (\<lambda>(names, t, i). length t - i)")
  fix names :: "u8 list list" and t from_i k comma
  assume "find_str (drop from_i t) (bytes '','') = Some k" "comma = from_i + k"
  then have "comma < length t" using find_str_bound [of "drop from_i t" "bytes '',''" k] by simp
  then show "((names, t, Suc comma), names, t, from_i) \<in> measure (\<lambda>(names, t, i). length t - i)"
    using \<open>comma = from_i + k\<close> by simp
qed simp

declare comma_before_name.simps [simp del]

definition gemma_value_end :: "u8 list \<Rightarrow> u8 list list \<Rightarrow> nat" where
  "gemma_value_end t names =
     (case t of
        [] \<Rightarrow> comma_before_name names t 0
      | b # rest \<Rightarrow>
          if b = 0x22 then unwrap_or (closing_quote False 1 rest) (length t)
          else if b = 0x7B \<or> b = 0x5B then unwrap_or (map_option Suc (matching_brace t)) (length t)
          else comma_before_name names t 0)"

definition trim_quotes :: "u8 list \<Rightarrow> u8 list" where
  "trim_quotes t = rev (dropWhile (\<lambda>b. b = 0x22) (rev (dropWhile (\<lambda>b. b = 0x22) t)))"

lemma strip_all_le: "length (strip_all ws t) \<le> length t"
proof (induction ws t rule: strip_all.induct)
  case (1 ws t)
  show ?case
  proof (cases "List.map_filter (\<lambda>w. if w = [] then None else strip_prefix w t) ws")
    case Nil
    then show ?thesis by (simp add: strip_all.simps [of ws t])
  next
    case (Cons r rs)
    then have "r \<in> set (List.map_filter (\<lambda>w. if w = [] then None else strip_prefix w t) ws)" by simp
    then have "length r \<le> length t" by (auto simp: List.map_filter_def strip_prefix_Some split: if_splits)
    then show ?thesis using 1 [OF Cons] Cons by (simp add: strip_all.simps [of ws t])
  qed
qed

lemma trim_start_le: "length (trim_start t) \<le> length t"
  by (simp add: trim_start_def strip_all_le)

function gemma_arguments :: "'n serde \<Rightarrow> u8 list \<Rightarrow> u8 list list \<Rightarrow> (u8 list \<times> 'n json) list \<Rightarrow> (u8 list \<times> 'n json) list" where
  "gemma_arguments sd rest names args =
     (case find_str rest (bytes '':'') of
        None \<Rightarrow> args
      | Some colon \<Rightarrow>
          let k = trim_quotes (trim (take colon rest));
              value_text = trim_start (drop (Suc colon) rest);
              n = gemma_value_end value_text names;
              v = trim (take n value_text)
          in gemma_arguments sd (dropWhile (\<lambda>b. b = 0x2C) (trim_start (drop n value_text))) names
               (map_insert args k (unwrap_or (sd_from_str sd v) (JStr v))))"
  by pat_completeness auto
termination
proof (relation "measure (\<lambda>(sd, rest, names, args). length rest)")
  fix sd :: "'n serde" and rest names args colon k value_text n v
  assume a: "find_str rest (bytes '':'') = Some colon" "value_text = trim_start (drop (Suc colon) rest)"
  have "length (dropWhile (\<lambda>b. b = 0x2C) (trim_start (drop n value_text))) \<le> length (trim_start (drop n value_text))"
    by (rule length_dropWhile_le)
  also have "\<dots> \<le> length value_text" using trim_start_le [of "drop n value_text"] by simp
  also have "\<dots> \<le> length rest - Suc colon" using trim_start_le [of "drop (Suc colon) rest"] a(2) by simp
  also have "\<dots> < length rest" using find_str_bound [OF a(1)] by simp
  finally show "((sd, dropWhile (\<lambda>b. b = 0x2C) (trim_start (drop n value_text)), names,
      map_insert args k (unwrap_or (sd_from_str sd v) (JStr v))), sd, rest, names, args)
      \<in> measure (\<lambda>(sd, rest, names, args). length rest)" by simp
qed simp

declare gemma_arguments.simps [simp del]

definition declared_names :: "'n tool_definition \<Rightarrow> u8 list list" where
  "declared_names tool =
     (case td_parameters tool \<bind> (\<lambda>p. jget p (bytes ''properties'')) \<bind> as_object of
        None \<Rightarrow> [] | Some kvs \<Rightarrow> map fst kvs)"

function gemma_calls :: "'n serde \<Rightarrow> 'n tool_definition list \<Rightarrow> nat \<Rightarrow> u8 list \<Rightarrow> tool_call list \<times> nat" where
  "gemma_calls sd tools n rest =
     (case find_str rest (bytes ''call:'') of
        None \<Rightarrow> ([], n)
      | Some start \<Rightarrow>
          let after = drop (start + 5) rest
          in case find_str after (bytes ''{'') of
               None \<Rightarrow> ([], n)
             | Some open_at \<Rightarrow>
                 (case map_option ((+) open_at) (matching_brace (drop open_at after)) of
                    None \<Rightarrow> ([], n)
                  | Some close_at \<Rightarrow>
                      (case find_tool tools (trim (take open_at after)) of
                         None \<Rightarrow> gemma_calls sd tools n (drop (Suc close_at) after)
                       | Some tool \<Rightarrow>
                           (case gemma_calls sd tools (Suc n) (drop (Suc close_at) after) of
                              (cs, n') \<Rightarrow>
                                (new_call n (trim (take open_at after))
                                   (sd_to_string sd (JObj (gemma_arguments sd
                                      (trim (take (close_at - Suc open_at) (drop (Suc open_at) after)))
                                      (declared_names tool) []))) # cs, n')))))"
  by pat_completeness auto
termination
proof (relation "measure (\<lambda>(sd, tools, n, rest). length rest)")
  fix sd :: "'n serde" and tools :: "'n tool_definition list" and n rest start after open_at close_at
  assume a: "find_str rest (bytes ''call:'') = Some start" "after = drop (start + 5) rest"
  have "length (drop (Suc close_at) after) < length rest"
    using find_str_bound [OF a(1)] a(2) by simp
  then show "((sd, tools, n, drop (Suc close_at) after), sd, tools, n, rest) \<in> measure (\<lambda>(sd, tools, n, rest). length rest)"
    and "\<And>tool. ((sd, tools, Suc n, drop (Suc close_at) after), sd, tools, n, rest) \<in> measure (\<lambda>(sd, tools, n, rest). length rest)"
    by simp_all
qed simp

declare gemma_calls.simps [simp del]

text \<open>No calls are \<open>None\<close>, and leave the counter.\<close>

definition some_calls :: "tool_call list \<times> nat \<Rightarrow> (tool_call list \<times> nat) option" where
  "some_calls r = (if fst r = [] then None else Some r)"

definition parse_gemma_calls :: "'n serde \<Rightarrow> 'n tool_definition list \<Rightarrow> nat \<Rightarrow> u8 list \<Rightarrow> (tool_call list \<times> nat) option" where
  "parse_gemma_calls sd tools n raw =
     some_calls (gemma_calls sd tools n
       (replace_all (replace_all (replace_all raw (bytes ''<|\"|>'') [0x22]) (bytes ''<|tool_call>'') []) (bytes ''<tool_call|>'') []))"

subsection \<open>A name and a brace\<close>

text \<open>
  The loop over \<open>rest\<close>, which a call shortens by its braces at least; \<open>fuel\<close> bounds its turns.
  The ids given to calls that a later failure drops stay given.
\<close>

fun name_brace_calls ::
    "nat \<Rightarrow> 'n serde \<Rightarrow> 'n tool_definition list \<Rightarrow> nat \<Rightarrow> u8 list \<Rightarrow> tool_call list option \<times> nat" where
  "name_brace_calls 0 sd tools n rest = (None, n)"
| "name_brace_calls (Suc fuel) sd tools n rest =
     (if rest = [] then (Some [], n)
      else
        case List.find (\<lambda>t. case strip_prefix (td_name t) rest of
                          None \<Rightarrow> False | Some after \<Rightarrow> prefix (bytes ''{'') (trim_start after)) tools of
          None \<Rightarrow> (None, n)
        | Some tool \<Rightarrow>
            let after = trim_start (drop (length (td_name tool)) rest)
            in case sd_first sd after of
                 None \<Rightarrow> (None, n)
               | Some (args, taken) \<Rightarrow>
                   if as_object args = None then (None, n)
                   else
                     case name_brace_calls fuel sd tools (Suc n) (trim_start (drop taken after)) of
                       (None, n') \<Rightarrow> (None, n')
                     | (Some cs, n') \<Rightarrow> (Some (new_call n (td_name tool) (sd_to_string sd args) # cs), n'))"

definition parse_name_brace_calls ::
    "'n serde \<Rightarrow> 'n tool_definition list \<Rightarrow> nat \<Rightarrow> u8 list \<Rightarrow> tool_call list option \<times> nat" where
  "parse_name_brace_calls sd tools n raw =
     (case name_brace_calls (Suc (length raw)) sd tools n (trim raw) of
        (Some [], n') \<Rightarrow> (None, n')
      | r \<Rightarrow> r)"

subsection \<open>Tagged blocks\<close>

text \<open>What follows the first \<open>mark\<close>; and what stands before it, with what follows it.\<close>

definition after_str :: "u8 list \<Rightarrow> u8 list \<Rightarrow> u8 list option" where
  "after_str t mark = map_option (\<lambda>i. drop (i + length mark) t) (find_str t mark)"

definition cut_at :: "u8 list \<Rightarrow> u8 list \<Rightarrow> (u8 list \<times> u8 list) option" where
  "cut_at t mark = map_option (\<lambda>i. (take i t, drop (i + length mark) t)) (find_str t mark)"

lemma after_str_le: "after_str t mark = Some u \<Longrightarrow> length u + length mark \<le> length t"
  by (auto simp: after_str_def dest: find_str_bound)

lemma cut_at_le: "cut_at t mark = Some (u, w) \<Longrightarrow> length u + length mark + length w = length t"
  by (auto simp: cut_at_def dest: find_str_bound)

function xml_parameters :: "'n serde \<Rightarrow> u8 list \<Rightarrow> (u8 list \<times> 'n json) list \<Rightarrow> (u8 list \<times> 'n json) list" where
  "xml_parameters sd prest args =
     (case after_str prest (bytes ''<parameter='') of
        None \<Rightarrow> args
      | Some pr \<Rightarrow>
          (case cut_at pr (bytes ''>'') of
             None \<Rightarrow> args
           | Some (k, vrest) \<Rightarrow>
               (case cut_at vrest (bytes ''</parameter>'') of
                  None \<Rightarrow> args
                | Some (val_raw, next_rest) \<Rightarrow>
                    let val1 = unwrap_or (strip_prefix [10] val_raw) val_raw;
                        val2 = unwrap_or (strip_suffix [10] val1) val1
                    in xml_parameters sd next_rest
                         (map_insert args (trim k) (unwrap_or (sd_from_str sd (trim val2)) (JStr val2))))))"
  by pat_completeness auto
termination
  by (relation "measure (\<lambda>(sd, prest, args). length prest)") (auto dest!: after_str_le cut_at_le)

declare xml_parameters.simps [simp del]

text \<open>The calls of one block.\<close>

definition block_calls :: "'n serde \<Rightarrow> nat \<Rightarrow> u8 list \<Rightarrow> tool_call list \<times> nat" where
  "block_calls sd n block =
     (case after_str block (bytes ''<function='') of
        None \<Rightarrow>
          (case parse_json_block sd block of
             None \<Rightarrow> ([], n)
           | Some v \<Rightarrow>
               (case jget v (bytes ''tool_calls'') \<bind> as_array of
                  Some nested \<Rightarrow> entries_that_parse sd n nested
                | None \<Rightarrow>
                    (case parse_tool_call_entry sd n v of
                       None \<Rightarrow> ([], n)
                     | Some (c, n') \<Rightarrow> ([c], n'))))
      | Some fname_rest \<Rightarrow>
          (case cut_at fname_rest (bytes ''>'') of
             None \<Rightarrow> ([], n)
           | Some (name, body) \<Rightarrow>
               let body = (case cut_at body (bytes ''</function>'') of None \<Rightarrow> body | Some (b, _) \<Rightarrow> b)
               in ([new_call n (trim name) (sd_to_string sd (JObj (xml_parameters sd body [])))], Suc n)))"

function tag_blocks :: "'n serde \<Rightarrow> nat \<Rightarrow> u8 list \<Rightarrow> tool_call list \<times> nat" where
  "tag_blocks sd n rest =
     (case after_str rest (bytes ''<tool_call>'') of
        None \<Rightarrow> ([], n)
      | Some after \<Rightarrow>
          (case (case cut_at after (bytes ''</tool_call>'') of None \<Rightarrow> (after, []) | Some bn \<Rightarrow> bn) of
             (block, next_rest) \<Rightarrow>
               (case block_calls sd n block of
                  (cs, n1) \<Rightarrow> (case tag_blocks sd n1 next_rest of (ds, n2) \<Rightarrow> (cs @ ds, n2)))))"
  by pat_completeness auto
termination
  by (relation "measure (\<lambda>(sd, n, rest). length rest)") (auto dest!: after_str_le cut_at_le split: option.splits)

declare tag_blocks.simps [simp del]

definition parse_tool_call_tag_blocks :: "'n serde \<Rightarrow> nat \<Rightarrow> u8 list \<Rightarrow> (tool_call list \<times> nat) option" where
  "parse_tool_call_tag_blocks sd n raw = some_calls (tag_blocks sd n raw)"

subsection \<open>Any of them\<close>

definition keep_forced :: "'n tool_config \<Rightarrow> tool_call list \<Rightarrow> tool_call list" where
  "keep_forced config cs =
     (case cfg_choice config of
        Forced_function name \<Rightarrow> take 1 (filter (\<lambda>c. tc_name c = name) cs)
      | _ \<Rightarrow> cs)"

definition keep_serial :: "'n tool_config \<Rightarrow> tool_call list \<Rightarrow> tool_call list" where
  "keep_serial config cs = (if \<not> cfg_parallel config \<and> 1 < length cs then take 1 cs else cs)"

text \<open>The calls the formats of the models give, cut down to what the request allows.\<close>

definition marked_calls :: "'n serde \<Rightarrow> 'n tool_config \<Rightarrow> nat \<Rightarrow> u8 list \<Rightarrow> tool_call list option \<times> nat" where
  "marked_calls sd config n raw =
     (case (case parse_tool_call_tag_blocks sd n raw of
              Some (cs, n') \<Rightarrow> (Some cs, n')
            | None \<Rightarrow>
                (case parse_name_brace_calls sd (cfg_tools config) n raw of
                   (Some cs, n') \<Rightarrow> (Some cs, n')
                 | (None, n') \<Rightarrow>
                     (case parse_gemma_calls sd (cfg_tools config) n' raw of
                        Some (cs, n2) \<Rightarrow> (Some cs, n2)
                      | None \<Rightarrow> (None, n')))) of
        (None, n') \<Rightarrow> (None, n')
      | (Some cs, n') \<Rightarrow>
          let known = filter (\<lambda>c. tool_exists (cfg_tools config) (tc_name c)) cs;
              kept = (if known = [] then [] else keep_forced config (keep_serial config known))
          in (if kept = [] then None else Some kept, n'))"

text \<open>The calls of a reply that is JSON as a whole.\<close>

definition json_calls :: "'n serde \<Rightarrow> 'n tool_config \<Rightarrow> nat \<Rightarrow> u8 list \<Rightarrow> (tool_call list \<times> nat) option" where
  "json_calls sd config n raw =
     (let stripped = strip_json_fences (trim raw)
      in case sd_from_str sd stripped of
           None \<Rightarrow> None
         | Some v \<Rightarrow>
             (case or_else (jget v (bytes ''tool_calls'') \<bind> as_array) (as_array v) of
                Some calls \<Rightarrow> every_entry sd n calls
              | None \<Rightarrow>
                  (case parse_tool_call_entry sd n v of
                     Some (c, n') \<Rightarrow> Some ([c], n')
                   | None \<Rightarrow>
                       (case cfg_choice config of
                          Forced_function name \<Rightarrow> Some ([new_call n name stripped], Suc n)
                        | Choice_required \<Rightarrow>
                            (case cfg_tools config of
                               [tool] \<Rightarrow> Some ([new_call n (td_name tool) stripped], Suc n)
                             | _ \<Rightarrow> None)
                        | _ \<Rightarrow> None))))"

definition try_parse_tool_calls :: "'n serde \<Rightarrow> 'n tool_config \<Rightarrow> nat \<Rightarrow> u8 list \<Rightarrow> tool_call list option" where
  "try_parse_tool_calls sd config n raw =
     (case marked_calls sd config n raw of
        (Some cs, n') \<Rightarrow> Some cs
      | (None, n') \<Rightarrow>
          (case json_calls sd config n' raw of
             None \<Rightarrow> None
           | Some (cs, _) \<Rightarrow>
               let known = filter (\<lambda>c. tc_type c = bytes ''function'' \<and> tool_exists (cfg_tools config) (tc_name c)) cs;
                   kept = keep_forced config (keep_serial config known)
               in if known = [] \<or> kept = [] then None else Some kept))"

end
