(* ===== verification/Tool_Props.thy ===== *)
theory Tool_Props
  imports Tool_Calls
begin

text \<open>
  What the tool calls of a reply are worth: they keep to what the request allowed, the calls a
  model writes in the tagged format are read back, and the parser's indices stay in range.
\<close>

section \<open>What the request allows\<close>

lemma find_tool_Some: "find_tool tools name = Some t \<Longrightarrow> t \<in> set tools \<and> td_name t = name"
  by (auto simp: find_tool_def find_Some_iff)

lemma allowed_subset_sub: "allowed_subset tools rs seen = Inr ts \<Longrightarrow> set ts \<subseteq> set tools"
proof (induction tools rs seen arbitrary: ts rule: allowed_subset.induct)
  case (2 tools r rs seen)
  obtain name where n: "parse_tool_reference_name r = Some name" using 2(2) by (auto split: option.splits)
  obtain tool where t: "find_tool tools name = Some tool" using 2(2) n by (auto split: option.splits)
  obtain us where u: "allowed_subset tools rs (insert name seen) = Inr us" using 2(2) n t by (auto split: sum.splits)
  have "set us \<subseteq> set tools" using 2(1) [OF n t u] .
  then show ?case using 2(2) n t u find_tool_Some [OF t] by (auto split: if_splits)
qed simp

text \<open>The choice of a config is one its tools can serve.\<close>

definition config_ok :: "'n tool_definition list \<Rightarrow> 'n tool_config \<Rightarrow> bool" where
  "config_ok tools c \<longleftrightarrow>
     set (cfg_tools c) \<subseteq> set tools
     \<and> (cfg_choice c = Choice_none \<longrightarrow> cfg_tools c = [])
     \<and> (\<forall>name. cfg_choice c = Forced_function name \<longrightarrow> \<not> cfg_parallel c \<and> map td_name (cfg_tools c) = [name])"

lemma choose_tools_ok:
  assumes "choose_tools config tools raw = Inr c" and "set (cfg_tools config) \<subseteq> set tools"
  shows "config_ok tools c"
proof (cases raw)
  case (JStr m)
  then show ?thesis using assms
    by (auto simp: choose_tools_def choice_string_def config_ok_def split: if_splits)
next
  case (JObj obj)
  obtain ty where ty: "key ''type'' obj \<bind> as_str = Some ty"
    using assms(1) JObj by (auto simp: choose_tools_def split: option.splits)
  consider "choice_function config tools raw = Inr c" | "choice_allowed config tools obj = Inr c"
    using assms(1) JObj ty by (auto simp: choose_tools_def split: if_splits)
  then show ?thesis
  proof cases
    case 1
    then show ?thesis
      by (auto simp: choice_function_def config_ok_def split: option.splits dest: find_tool_Some)
  next
    case 2
    obtain allowed where al: "(case key ''allowed_tools'' obj of Some a \<Rightarrow> as_object a | None \<Rightarrow> Some obj) = Some allowed"
      using 2 by (cases "(case key ''allowed_tools'' obj of Some a \<Rightarrow> as_object a | None \<Rightarrow> Some obj)")
        (simp_all add: choice_allowed_def)
    obtain m refs where mr: "key ''mode'' allowed \<bind> as_str = Some m" "key ''tools'' allowed \<bind> as_array = Some refs"
      using 2 al by (cases "key ''mode'' allowed \<bind> as_str"; cases "key ''tools'' allowed \<bind> as_array")
        (simp_all add: choice_allowed_def)
    obtain ts where ts: "allowed_subset tools refs {} = Inr ts"
      using 2 al mr by (cases "allowed_subset tools refs {}") (simp_all add: choice_allowed_def)
    show ?thesis using 2 al mr ts allowed_subset_sub [OF ts]
      by (auto simp: choice_allowed_def config_ok_def split: if_splits)
  qed
qed (use assms in \<open>simp_all add: choose_tools_def\<close>)

lemma build_tool_config_ok:
  assumes "build_tool_config ptr tools choice par_calls = Inr c"
  shows "config_ok (unwrap_or tools []) c" and "\<forall>t \<in> set (unwrap_or tools []). is_valid_function_name (td_name t)"
proof -
  let ?all = "unwrap_or tools []"
  let ?config = "\<lparr>cfg_tools = ?all, cfg_choice = (if ?all = [] then Choice_none else Choice_auto),
                   cfg_parallel = unwrap_or par_calls True\<rparr>"
  have checked: "each_check (\<lambda>(i, t). validate_tool_definition ptr t i) (enumerate 0 ?all) = Inr ()"
    using assms by (auto simp: build_tool_config_def Let_def split: sum.splits)
  show "config_ok ?all c"
  proof (cases choice)
    case None
    then have "c = ?config" using assms checked by (simp add: build_tool_config_def Let_def)
    then show ?thesis by (simp add: config_ok_def)
  next
    case (Some raw)
    then have "choose_tools ?config ?all raw = Inr c"
      using assms checked by (auto simp: build_tool_config_def Let_def split: sum.splits if_splits)
    then show ?thesis by (rule choose_tools_ok) simp
  qed
  show "\<forall>t \<in> set ?all. is_valid_function_name (td_name t)"
  proof
    fix t
    assume "t \<in> set ?all"
    then have "t \<in> snd ` set (enumerate 0 ?all)" by (metis list.set_map map_snd_enumerate)
    then obtain i where "(i, t) \<in> set (enumerate 0 ?all)" by auto
    then have "validate_tool_definition ptr t i = Inr ()" using checked by auto
    then show "is_valid_function_name (td_name t)"
      by (auto simp: validate_tool_definition_def Let_def split: if_splits)
  qed
qed

section \<open>What a reply calls\<close>

lemma keep_forced_sub: "set (keep_forced c cs) \<subseteq> set cs"
  by (auto simp: keep_forced_def split: tool_choice_mode.splits dest: in_set_takeD)

lemma keep_serial_sub: "set (keep_serial c cs) \<subseteq> set cs"
  by (auto simp: keep_serial_def dest: in_set_takeD)

lemma length_keep: "length (keep_forced c cs) \<le> length cs" "\<not> cfg_parallel c \<Longrightarrow> length (keep_serial c cs) \<le> 1"
proof -
  have "length (take 1 (filter P cs)) \<le> length cs" for P :: "tool_call \<Rightarrow> bool"
    using length_filter_le [of P cs] by (simp add: min.coboundedI1)
  then show "length (keep_forced c cs) \<le> length cs" by (simp add: keep_forced_def split: tool_choice_mode.split)
  show "\<not> cfg_parallel c \<Longrightarrow> length (keep_serial c cs) \<le> 1" by (simp add: keep_serial_def)
qed

lemma keep_forced_name: "cfg_choice c = Forced_function name \<Longrightarrow> x \<in> set (keep_forced c cs) \<Longrightarrow> tc_name x = name"
  by (auto simp: keep_forced_def dest: in_set_takeD)

text \<open>Calls cut down to what a config allows.\<close>

definition calls_ok :: "'n tool_config \<Rightarrow> tool_call list \<Rightarrow> bool" where
  "calls_ok c cs \<longleftrightarrow>
     cs \<noteq> [] \<and> (\<forall>x \<in> set cs. tool_exists (cfg_tools c) (tc_name x)) \<and> (\<not> cfg_parallel c \<longrightarrow> length cs \<le> 1)
     \<and> (\<forall>name. cfg_choice c = Forced_function name \<longrightarrow> (\<forall>x \<in> set cs. tc_name x = name))"

lemma kept_ok:
  assumes "keep_forced c (keep_serial c known) \<noteq> []" and "\<forall>x \<in> set known. tool_exists (cfg_tools c) (tc_name x)"
  shows "calls_ok c (keep_forced c (keep_serial c known))"
  unfolding calls_ok_def
  using assms keep_forced_sub [of c "keep_serial c known"] keep_serial_sub [of c known] keep_forced_name [of c]
    length_keep(1) [of c "keep_serial c known"] length_keep(2) [of c known]
  by fastforce

lemma marked_calls_kept:
  assumes "marked_calls sd c n raw = (Some ds, n')"
  obtains es where "ds = keep_forced c (keep_serial c (filter (\<lambda>c'. tool_exists (cfg_tools c) (tc_name c')) es))" "ds \<noteq> []"
proof -
  define q where "q = (case parse_tool_call_tag_blocks sd n raw of
              Some (cs, n') \<Rightarrow> (Some cs, n')
            | None \<Rightarrow>
                (case parse_name_brace_calls sd (cfg_tools c) n raw of
                   (Some cs, n') \<Rightarrow> (Some cs, n')
                 | (None, n') \<Rightarrow>
                     (case parse_gemma_calls sd (cfg_tools c) n' raw of
                        Some (cs, n2) \<Rightarrow> (Some cs, n2)
                      | None \<Rightarrow> (None, n'))))"
  obtain q1 q2 where q: "q = (q1, q2)" by (cases q)
  note st = assms [unfolded marked_calls_def, folded q_def, unfolded q]
  show thesis
  proof (cases q1)
    case None
    then show thesis using st by simp
  next
    case (Some es)
    then show thesis using st that [of es] by (simp add: Let_def split: if_splits)
  qed
qed

lemma unless_Some: "(if P then None else Some x) = Some y \<Longrightarrow> \<not> P \<and> y = x"
  by (simp split: if_splits)

lemma try_parse_ok:
  assumes t: "try_parse_tool_calls sd c n raw = Some cs"
  shows "calls_ok c cs"
proof -
  let ?callable = "\<lambda>c'. tc_type c' = bytes ''function'' \<and> tool_exists (cfg_tools c) (tc_name c')"
  obtain r n' where m: "marked_calls sd c n raw = (r, n')" by (metis surj_pair)
  show ?thesis
  proof (cases r)
    case (Some ds)
    have cs: "cs = ds" using t by (simp add: try_parse_tool_calls_def m Some)
    obtain es where ds: "ds = keep_forced c (keep_serial c (filter (\<lambda>c'. tool_exists (cfg_tools c) (tc_name c')) es))" "ds \<noteq> []"
      by (rule marked_calls_kept [OF m [unfolded Some]])
    show ?thesis unfolding cs ds(1) by (rule kept_ok [OF ds(2) [unfolded ds(1)]]) simp
  next
    case None
    show ?thesis
    proof (cases "json_calls sd c n' raw")
      case None': None
      show ?thesis using t by (simp add: try_parse_tool_calls_def m None None')
    next
      case (Some dn)
      obtain ds n2 where d: "json_calls sd c n' raw = Some (ds, n2)" using Some by (cases dn) simp
      let ?kept = "keep_forced c (keep_serial c (filter ?callable ds))"
      have "(if filter ?callable ds = [] \<or> ?kept = [] then None else Some ?kept) = Some cs"
        using t unfolding try_parse_tool_calls_def m None by (simp only: prod.case option.case Let_def d)
      then have kept: "cs = ?kept" "?kept \<noteq> []" by (blast dest: unless_Some)+
      show ?thesis unfolding kept(1) by (rule kept_ok [OF kept(2)]) simp
    qed
  qed
qed

section \<open>The fuel is enough\<close>

lemma name_brace_fuel:
  assumes "\<forall>t \<in> set tools. td_name t \<noteq> []"
  shows "length rest < f \<Longrightarrow> length rest < g \<Longrightarrow> name_brace_calls f sd tools n rest = name_brace_calls g sd tools n rest"
proof (induction f arbitrary: g n rest)
  case (Suc f)
  obtain g' where g: "g = Suc g'" using Suc.prems(2) by (cases g) auto
  let ?P = "\<lambda>t. case strip_prefix (td_name t) rest of
      None \<Rightarrow> False | Some after \<Rightarrow> prefix (bytes ''{'') (trim_start after)"
  show ?case
  proof (cases "rest = [] \<or> List.find ?P tools = None")
    case True
    then show ?thesis unfolding g name_brace_calls.simps by auto
  next
    case False
    then obtain tool where tool: "List.find ?P tools = Some tool" and "rest \<noteq> []" by auto
    then have "tool \<in> set tools" by (auto simp: find_Some_iff)
    then have name: "0 < length (td_name tool)" using assms by simp
    let ?after = "trim_start (drop (length (td_name tool)) rest)"
    have short: "length (trim_start (drop k ?after)) < length rest" for k
    proof -
      have "length (trim_start (drop k ?after)) \<le> length ?after" using trim_start_le [of "drop k ?after"] by simp
      also have "\<dots> \<le> length rest - length (td_name tool)" using trim_start_le [of "drop (length (td_name tool)) rest"] by simp
      finally show ?thesis using name length_greater_0_conv [of rest] \<open>rest \<noteq> []\<close> by linarith
    qed
    have same: "name_brace_calls f sd tools (Suc n) (trim_start (drop k ?after))
        = name_brace_calls g' sd tools (Suc n) (trim_start (drop k ?after))" for k
    proof (rule Suc.IH)
      show "length (trim_start (drop k ?after)) < f" using short [of k] Suc.prems(1) by linarith
      show "length (trim_start (drop k ?after)) < g'" using short [of k] Suc.prems(2) unfolding g by linarith
    qed
    show ?thesis unfolding g name_brace_calls.simps tool option.case Let_def same ..
  qed
qed simp

section \<open>Reading back the tagged format\<close>

lemma find_str_skip:
  assumes "hd pat \<notin> set u" and "pat \<noteq> []"
  shows "find_str (u @ t) pat = map_option ((+) (length u)) (find_str t pat)"
  using assms(1)
proof (induction u)
  case Nil
  show ?case by (cases "find_str t pat") simp_all
next
  case (Cons c u)
  have "\<not> prefix pat (c # u @ t)" using Cons.prems assms(2) by (cases pat) auto
  then show ?case using Cons by (simp add: option.map_comp comp_def)
qed

lemma find_str_here: "find_str (pat @ t) pat = Some 0"
proof (cases "pat @ t")
  case (Cons a u)
  then have "prefix pat (a # u)" by (metis prefixI)
  then show ?thesis unfolding Cons by simp
qed simp

lemma after_str_skip:
  "hd pat \<notin> set u \<Longrightarrow> pat \<noteq> [] \<Longrightarrow> after_str (u @ pat @ t) pat = Some t"
  by (simp add: after_str_def find_str_skip find_str_here)

lemma cut_at_skip:
  "hd pat \<notin> set u \<Longrightarrow> pat \<noteq> [] \<Longrightarrow> cut_at (u @ pat @ t) pat = Some (u, t)"
  by (simp add: cut_at_def find_str_skip find_str_here)

text \<open>
  A call as the templates of the Qwen family write it, its arguments texts of their own; and what
  reading one argument makes of its text.
\<close>

definition render_parameter :: "u8 list \<times> u8 list \<Rightarrow> u8 list" where
  "render_parameter kv =
     bytes ''<parameter='' @ fst kv @ bytes ''>'' @ [10] @ snd kv @ [10] @ bytes ''</parameter>'' @ [10]"

definition render_call :: "u8 list \<times> (u8 list \<times> u8 list) list \<Rightarrow> u8 list" where
  "render_call call =
     bytes ''<tool_call>'' @ [10] @ bytes ''<function='' @ fst call @ bytes ''>'' @ [10]
     @ concat (map render_parameter (snd call)) @ bytes ''</function>'' @ [10] @ bytes ''</tool_call>'' @ [10]"

definition read_argument :: "'n serde \<Rightarrow> u8 list \<Rightarrow> 'n json" where
  "read_argument sd v = unwrap_or (sd_from_str sd (trim v)) (JStr v)"

text \<open>No angle brackets in a name and nothing around it to trim; no closing tag of the format in an
  argument, which may hold anything else, other tags and angle brackets included.\<close>

definition closing_tags :: "u8 list list" where
  "closing_tags = [bytes ''</parameter>'', bytes ''</function>'', bytes ''</tool_call>'']"

definition plain_name :: "u8 list \<Rightarrow> bool" where
  "plain_name t \<longleftrightarrow> 0x3C \<notin> set t \<and> 0x3E \<notin> set t \<and> trim t = t"

definition plain_value :: "u8 list \<Rightarrow> bool" where
  "plain_value v \<longleftrightarrow> (\<forall>mark \<in> set closing_tags. find_str v mark = None)"

definition plain_call :: "u8 list \<times> (u8 list \<times> u8 list) list \<Rightarrow> bool" where
  "plain_call call \<longleftrightarrow>
     plain_name (fst call) \<and> distinct (map fst (snd call))
     \<and> (\<forall>(k, v) \<in> set (snd call). plain_name k \<and> plain_value v)"

lemma map_insert_new: "k \<notin> fst ` set kvs \<Longrightarrow> map_insert kvs k v = kvs @ [(k, v)]"
  by (simp add: map_insert_def)

lemma unwrap_or_Some: "unwrap_or (Some x) y = x"
  by (simp add: unwrap_or_def)

lemma strip_suffix_snoc: "strip_suffix [b] (v @ [b]) = Some v"
  by (simp add: strip_suffix_def)

text \<open>A text no occurrence of a mark starts in, whatever follows it.\<close>

definition skips :: "u8 list \<Rightarrow> u8 list \<Rightarrow> bool" where
  "skips mark u \<longleftrightarrow> (\<forall>t. find_str (u @ t) mark = map_option (\<lambda>i. length u + i) (find_str t mark))"

lemma skips_plain: "hd mark \<notin> set u \<Longrightarrow> mark \<noteq> [] \<Longrightarrow> skips mark u"
  by (simp add: skips_def find_str_skip)

lemma skips_append: "skips mark u \<Longrightarrow> skips mark v \<Longrightarrow> skips mark (u @ v)"
  by (simp add: skips_def option.map_comp comp_def add.assoc)

lemma skips_concat: "\<forall>u \<in> set us. skips mark u \<Longrightarrow> skips mark (concat us)"
  by (induction us) (simp_all add: skips_append, simp add: skips_def option.map_ident)

lemma cut_at_skips: "skips mark u \<Longrightarrow> cut_at (u @ mark @ t) mark = Some (u, t)"
  by (simp add: cut_at_def skips_def find_str_here)

text \<open>A text without the mark, followed by a line break: no occurrence starts in it.\<close>

lemma skips_line:
  assumes "10 \<notin> set mark" and "mark \<noteq> []" and "find_str v mark = None"
  shows "skips mark (v @ [10])"
  using assms(3)
proof (induction v)
  case Nil
  show ?case using assms(1,2) by (cases mark) (auto intro!: skips_plain)
next
  case (Cons c v)
  then have no: "\<not> prefix mark (c # v)" "find_str v mark = None" by (simp_all split: if_splits)
  have "\<not> prefix mark (c # (v @ [10]) @ t)" for t
  proof
    assume "prefix mark (c # (v @ [10]) @ t)"
    then have "prefix mark ((c # v) @ 10 # t)" by simp
    then obtain us where "mark = (c # v) @ us" "prefix us (10 # t)" using no(1) unfolding prefix_append by blast
    then show False using no(1) assms(1) by (cases us) auto
  qed
  then show ?case using Cons.IH no(2) by (simp add: skips_def option.map_comp comp_def)
qed

lemma skips_value: "plain_value v \<Longrightarrow> mark \<in> set closing_tags \<Longrightarrow> skips mark (v @ [10])"
  by (rule skips_line) (auto simp: plain_value_def closing_tags_def)

lemma xml_parameters_render:
  assumes "distinct (map fst kvs)" and "\<forall>(k, v) \<in> set kvs. plain_name k \<and> plain_value v"
    and "fst ` set args \<inter> fst ` set kvs = {}" and "0x3C \<notin> set u"
  shows "xml_parameters sd (u @ concat (map render_parameter kvs)) args
    = args @ map (\<lambda>(k, v). (k, read_argument sd v)) kvs"
  using assms
proof (induction kvs arbitrary: args u)
  case Nil
  have "find_str (u @ []) (bytes ''<parameter='') = map_option ((+) (length u)) (find_str [] (bytes ''<parameter=''))"
    using Nil.prems(4) by (intro find_str_skip) simp_all
  then have "after_str u (bytes ''<parameter='') = None" by (simp add: after_str_def)
  then show ?case by (simp add: xml_parameters.simps [of sd u])
next
  case (Cons kv kvs)
  obtain k v where kv: "kv = (k, v)" by (cases kv)
  have pk: "0x3C \<notin> set k" "0x3E \<notin> set k" "trim k = k" "plain_value v"
    using Cons.prems(2) kv by (simp_all add: plain_name_def)
  define rest where "rest = [10] @ concat (map render_parameter kvs)"
  let ?t = "u @ concat (map render_parameter (kv # kvs))"
  have t: "?t = u @ bytes ''<parameter='' @ (k @ bytes ''>'' @ (([10] @ v @ [10]) @ bytes ''</parameter>'' @ rest))"
    by (simp add: render_parameter_def kv rest_def)
  have 1: "after_str ?t (bytes ''<parameter='') = Some (k @ bytes ''>'' @ (([10] @ v @ [10]) @ bytes ''</parameter>'' @ rest))"
    unfolding t using Cons.prems(4) by (intro after_str_skip) simp_all
  have 2: "cut_at (k @ bytes ''>'' @ (([10] @ v @ [10]) @ bytes ''</parameter>'' @ rest)) (bytes ''>'')
      = Some (k, ([10] @ v @ [10]) @ bytes ''</parameter>'' @ rest)"
    using pk by (intro cut_at_skip) simp_all
  have 3: "cut_at (([10] @ v @ [10]) @ bytes ''</parameter>'' @ rest) (bytes ''</parameter>'') = Some ([10] @ v @ [10], rest)"
    using pk(4) by (intro cut_at_skips skips_append [OF skips_plain skips_value]) (simp_all add: closing_tags_def)
  have new: "map_insert args k (read_argument sd v) = args @ [(k, read_argument sd v)]"
    using Cons.prems(3) kv by (intro map_insert_new) auto
  have "xml_parameters sd ?t args =
      (let val1 = unwrap_or (strip_prefix [10] ([10] @ v @ [10])) ([10] @ v @ [10]);
           val2 = unwrap_or (strip_suffix [10] val1) val1
       in xml_parameters sd rest (map_insert args (trim k) (unwrap_or (sd_from_str sd (trim val2)) (JStr val2))))"
    unfolding xml_parameters.simps [of sd ?t] 1 option.case 2 3 prod.case ..
  also have "\<dots> = xml_parameters sd rest (map_insert args k (read_argument sd v))"
    unfolding Let_def strip_prefix_app unwrap_or_Some strip_suffix_snoc pk(3) read_argument_def ..
  also have "\<dots> = xml_parameters sd rest (args @ [(k, read_argument sd v)])" by (simp only: new)
  also have "\<dots> = (args @ [(k, read_argument sd v)]) @ map (\<lambda>(k, v). (k, read_argument sd v)) kvs"
    unfolding rest_def using Cons.prems kv by (intro Cons.IH) auto
  finally show ?case using kv by simp
qed

lemma skips_tags:
  "skips (bytes ''</tool_call>'') (bytes ''<function='')" "skips (bytes ''</tool_call>'') (bytes ''</function>'')"
  "skips (bytes ''</tool_call>'') (bytes ''<parameter='')" "skips (bytes ''</tool_call>'') (bytes ''</parameter>'')"
  "skips (bytes ''</function>'') (bytes ''<parameter='')" "skips (bytes ''</function>'') (bytes ''</parameter>'')"
  unfolding skips_def by (auto simp: option.map_comp comp_def intro!: option.map_cong)

lemma skips_parameter:
  assumes "plain_name (fst kv)" and "plain_value (snd kv)" and "mark \<in> {bytes ''</tool_call>'', bytes ''</function>''}"
  shows "skips mark (render_parameter kv)"
proof -
  have m: "hd mark = 0x3C" "mark \<noteq> []" using assms(3) by auto
  have "skips mark (bytes ''<parameter='')" "skips mark (bytes ''</parameter>'')" using assms(3) skips_tags by auto
  moreover have "skips mark (fst kv)" "skips mark [10]" "skips mark (bytes ''>'')"
    using assms(1) m by (auto intro!: skips_plain simp: plain_name_def)
  moreover define w where "w = snd kv @ [10]"
  moreover have "skips mark w" unfolding w_def using assms(2,3) by (intro skips_value) (auto simp: closing_tags_def)
  ultimately have "skips mark (bytes ''<parameter='' @ fst kv @ bytes ''>'' @ [10] @ w @ bytes ''</parameter>'' @ [10])"
    by (intro skips_append)
  then show ?thesis unfolding render_parameter_def w_def by (simp only: append_assoc)
qed

lemma skips_parameters:
  "plain_call call \<Longrightarrow> mark \<in> {bytes ''</tool_call>'', bytes ''</function>''} \<Longrightarrow>
   skips mark (concat (map render_parameter (snd call)))"
  by (intro skips_concat) (auto simp: plain_call_def intro!: skips_parameter)

text \<open>The call a rendered block reads back as.\<close>

definition call_read :: "'n serde \<Rightarrow> nat \<Rightarrow> u8 list \<times> (u8 list \<times> u8 list) list \<Rightarrow> tool_call" where
  "call_read sd n call =
     new_call n (fst call) (sd_to_string sd (JObj (map (\<lambda>(k, v). (k, read_argument sd v)) (snd call))))"

definition render_block :: "u8 list \<times> (u8 list \<times> u8 list) list \<Rightarrow> u8 list" where
  "render_block call =
     [10] @ bytes ''<function='' @ fst call @ bytes ''>'' @ ([10] @ concat (map render_parameter (snd call)))
     @ bytes ''</function>'' @ [10]"

lemma block_calls_render:
  assumes p: "plain_call call"
  shows "block_calls sd n (render_block call) = ([call_read sd n call], Suc n)"
proof -
  let ?body = "[10] @ concat (map render_parameter (snd call))"
  have name: "0x3C \<notin> set (fst call)" "0x3E \<notin> set (fst call)" "trim (fst call) = fst call"
    using p by (simp_all add: plain_call_def plain_name_def)
  have 1: "after_str (render_block call) (bytes ''<function='') = Some (fst call @ bytes ''>'' @ ?body @ bytes ''</function>'' @ [10])"
    unfolding render_block_def by (rule after_str_skip) simp_all
  have 2: "cut_at (fst call @ bytes ''>'' @ ?body @ bytes ''</function>'' @ [10]) (bytes ''>'')
      = Some (fst call, ?body @ bytes ''</function>'' @ [10])"
    using name by (intro cut_at_skip) simp_all
  have "skips (bytes ''</function>'') ?body"
    by (rule skips_append [OF skips_plain skips_parameters [OF p]]) simp_all
  then have 3: "cut_at (?body @ bytes ''</function>'' @ [10]) (bytes ''</function>'') = Some (?body, [10])"
    by (rule cut_at_skips)
  have 4: "xml_parameters sd ?body [] = map (\<lambda>(k, v). (k, read_argument sd v)) (snd call)"
    using p by (subst xml_parameters_render) (simp_all add: plain_call_def)
  show ?thesis
    unfolding block_calls_def 1 option.case 2 prod.case Let_def 3 4 name(3) call_read_def ..
qed

lemma skips_block: "plain_call call \<Longrightarrow> skips (bytes ''</tool_call>'') (render_block call)"
  unfolding render_block_def
  by (intro skips_append skips_tags skips_parameters skips_plain) (simp_all add: plain_call_def plain_name_def)

lemma render_call_block: "render_call call = bytes ''<tool_call>'' @ render_block call @ bytes ''</tool_call>'' @ [10]"
  by (simp only: render_call_def render_block_def append_assoc)

lemma tag_blocks_render:
  assumes "\<forall>call \<in> set calls. plain_call call" and "0x3C \<notin> set u"
  shows "tag_blocks sd n (u @ concat (map render_call calls))
    = (map (\<lambda>(i, call). call_read sd i call) (enumerate n calls), n + length calls)"
  using assms
proof (induction calls arbitrary: n u)
  case Nil
  have "find_str (u @ []) (bytes ''<tool_call>'') = map_option ((+) (length u)) (find_str [] (bytes ''<tool_call>''))"
    using Nil.prems(2) by (intro find_str_skip) simp_all
  then have "after_str u (bytes ''<tool_call>'') = None" by (simp add: after_str_def)
  then show ?case by (simp add: tag_blocks.simps [of sd n u])
next
  case (Cons call calls)
  let ?rest = "[10] @ concat (map render_call calls)"
  let ?t = "u @ concat (map render_call (call # calls))"
  have p: "plain_call call" using Cons.prems(1) by simp
  have t: "?t = u @ bytes ''<tool_call>'' @ (render_block call @ bytes ''</tool_call>'' @ ?rest)"
    by (simp only: list.map concat.simps render_call_block append_assoc)
  have 1: "after_str ?t (bytes ''<tool_call>'') = Some (render_block call @ bytes ''</tool_call>'' @ ?rest)"
    unfolding t using Cons.prems(2) by (intro after_str_skip) simp_all
  have 2: "cut_at (render_block call @ bytes ''</tool_call>'' @ ?rest) (bytes ''</tool_call>'') = Some (render_block call, ?rest)"
    by (rule cut_at_skips [OF skips_block [OF p]])
  have 3: "tag_blocks sd (Suc n) ?rest
      = (map (\<lambda>(i, call). call_read sd i call) (enumerate (Suc n) calls), Suc n + length calls)"
    using Cons.prems(1) by (intro Cons.IH) simp_all
  show ?case
    unfolding tag_blocks.simps [of sd n ?t] 1 option.case 2 prod.case block_calls_render [OF p] 3 by simp
qed

lemma enumerate_not_Nil [simp]: "enumerate n xs = [] \<longleftrightarrow> xs = []"
  by (cases xs) simp_all

lemma tag_blocks_calls:
  "\<forall>call \<in> set calls. plain_call call \<Longrightarrow>
   tag_blocks sd n (concat (map render_call calls)) = (map (\<lambda>(i, call). call_read sd i call) (enumerate n calls), n + length calls)"
  using tag_blocks_render [of calls "[]"] by simp

section \<open>Properties\<close>

lemma tool_exists_iff: "tool_exists tools name \<longleftrightarrow> (\<exists>t \<in> set tools. td_name t = name)"
  by (auto simp: tool_exists_def list_ex_iff)

text \<open>C34. The tool calls a reply is answered with keep to what the request allowed: there is at least
  one of them, each names a tool the request declares and that has a valid name, a request that
  wants no parallel calls gets a single one, a request that forces a function gets one call of
  that function, and a request whose choice is \<open>none\<close> never gets here.
\<close>

theorem tool_calls_respect_choice:
  assumes "build_tool_config ptr tools choice par_calls = Inr cfg"
    and "try_parse_tool_calls sd cfg n raw = Some cs"
  shows "cs \<noteq> [] \<and> cfg_choice cfg \<noteq> Choice_none
    \<and> (\<forall>x \<in> set cs. is_valid_function_name (tc_name x) \<and> (\<exists>t \<in> set (unwrap_or tools []). td_name t = tc_name x))
    \<and> (\<not> cfg_parallel cfg \<longrightarrow> length cs = 1)
    \<and> (\<forall>name. cfg_choice cfg = Forced_function name \<longrightarrow> map tc_name cs = [name])"
proof -
  note cfg = build_tool_config_ok [OF assms(1), unfolded config_ok_def]
  note calls = try_parse_ok [OF assms(2), unfolded calls_ok_def tool_exists_iff]
  have one: "length cs = 1" if "\<not> cfg_parallel cfg" using calls that by (cases cs) auto
  have "cfg_choice cfg \<noteq> Choice_none" using cfg(1) calls by (cases cs) auto
  moreover have "map tc_name cs = [name]" if "cfg_choice cfg = Forced_function name" for name
    using one cfg(1) calls that by (cases cs) auto
  moreover have "is_valid_function_name (tc_name x) \<and> (\<exists>t \<in> set (unwrap_or tools []). td_name t = tc_name x)"
    if x: "x \<in> set cs" for x
  proof -
    obtain t where t: "t \<in> set (cfg_tools cfg)" "td_name t = tc_name x"
      using bspec [OF conjunct1 [OF conjunct2 [OF calls]] x] by (elim bexE)
    have "t \<in> set (unwrap_or tools [])" using cfg(1) t(1) by blast
    then show ?thesis using cfg(2) t(2) by auto
  qed
  ultimately show ?thesis using one calls by blast
qed

definition plain_serde :: "nat serde" where
  "plain_serde = \<lparr>sd_from_str = (\<lambda>_. None), sd_first = (\<lambda>_. None), sd_to_string = (\<lambda>_. bytes ''{}'')\<rparr>"

definition weather_tools :: "nat tool_definition list" where
  "weather_tools =
     [\<lparr>td_type = bytes ''function'', td_name = bytes ''weather'', td_parameters = None, td_strict = None\<rparr>,
      \<lparr>td_type = bytes ''function'', td_name = bytes ''time'', td_parameters = None, td_strict = None\<rparr>]"

definition weather_choice :: "nat json" where
  "weather_choice = JObj [(bytes ''type'', JStr (bytes ''function'')), (bytes ''name'', JStr (bytes ''weather''))]"

definition weather_calls :: "(u8 list \<times> (u8 list \<times> u8 list) list) list" where
  "weather_calls = [(bytes ''weather'', [(bytes ''city'', bytes ''Rome'')]), (bytes ''time'', [])]"

lemma weather_plain: "\<forall>call \<in> set weather_calls. plain_call call \<and> tool_exists weather_tools (fst call)"
  by code_simp

lemma weather_read:
  "map (\<lambda>(i, call). call_read plain_serde i call) (enumerate 7 weather_calls)
   = [new_call 7 (bytes ''weather'') (bytes ''{}''), new_call 8 (bytes ''time'') (bytes ''{}'')]"
  by (simp add: weather_calls_def call_read_def plain_serde_def)

lemma tool_calls_respect_choice_witness:
  "\<exists>cfg cs. build_tool_config (\<lambda>_ _. None) (Some weather_tools) (Some weather_choice) None = Inr cfg
     \<and> try_parse_tool_calls plain_serde cfg 7 (concat (map render_call weather_calls)) = Some cs
     \<and> map tc_name cs = [bytes ''weather'']"
proof -
  let ?cfg = "\<lparr>cfg_tools = [weather_tools ! 0], cfg_choice = Forced_function (bytes ''weather''), cfg_parallel = False\<rparr>"
  let ?cs = "[new_call 7 (bytes ''weather'') (bytes ''{}'')]"
  have cfg: "build_tool_config (\<lambda>_ _. None) (Some weather_tools) (Some weather_choice) None = Inr ?cfg" by code_simp
  have tags: "parse_tool_call_tag_blocks plain_serde 7 (concat (map render_call weather_calls))
      = Some ([new_call 7 (bytes ''weather'') (bytes ''{}''), new_call 8 (bytes ''time'') (bytes ''{}'')], 9)"
    using weather_plain
    by (simp add: parse_tool_call_tag_blocks_def some_calls_def tag_blocks_calls weather_read weather_calls_def [THEN arg_cong, of length])
  have cs: "try_parse_tool_calls plain_serde ?cfg 7 (concat (map render_call weather_calls)) = Some ?cs"
    by (simp add: try_parse_tool_calls_def marked_calls_def tags Let_def tool_exists_def weather_tools_def new_call_def
        keep_forced_def keep_serial_def)
  show ?thesis using tool_calls_respect_choice [OF cfg cs] cfg cs by auto
qed

text \<open>C35. Where the request leaves calls parallel and forces none, the calls of declared tools a model
  writes in the tagged format are read back: each block gives one call, in order, under the next
  ids, with the function's name and its arguments in order, an argument that reads as JSON as that
  value and any other as its whole text, which may hold any brackets and tags but the three closing
  tags of the format.  Names hold no angle brackets and no outer spaces, and no name twice in a call.
\<close>

theorem tagged_calls_round_trip:
  assumes "calls \<noteq> []" and "\<forall>call \<in> set calls. plain_call call \<and> tool_exists (cfg_tools cfg) (fst call)"
    and "cfg_parallel cfg" and "\<forall>name. cfg_choice cfg \<noteq> Forced_function name"
  shows "try_parse_tool_calls sd cfg n (concat (map render_call calls))
    = Some (map (\<lambda>(i, call). call_read sd i call) (enumerate n calls))"
proof -
  let ?cs = "map (\<lambda>(i, call). call_read sd i call) (enumerate n calls)"
  have tags: "parse_tool_call_tag_blocks sd n (concat (map render_call calls)) = Some (?cs, n + length calls)"
    using assms(1,2) by (simp add: parse_tool_call_tag_blocks_def some_calls_def tag_blocks_calls)
  have "tool_exists (cfg_tools cfg) (tc_name c)" if c: "c \<in> set ?cs" for c
  proof -
    obtain i call where "(i, call) \<in> set (enumerate n calls)" and call: "c = call_read sd i call"
      using c by auto
    then have "call \<in> set calls" using in_set_enumerate_eq [of "(i, call)" n calls] by auto
    then show ?thesis using assms(2) by (simp add: call call_read_def new_call_def)
  qed
  then have "filter (\<lambda>c. tool_exists (cfg_tools cfg) (tc_name c)) ?cs = ?cs" by (intro filter_True) blast
  moreover have "keep_forced cfg (keep_serial cfg ?cs) = ?cs"
    using assms(3,4) by (simp add: keep_forced_def keep_serial_def split: tool_choice_mode.split)
  moreover have "?cs \<noteq> []" using assms(1) by (cases calls) simp_all
  ultimately have "marked_calls sd cfg n (concat (map render_call calls)) = (Some ?cs, n + length calls)"
    unfolding marked_calls_def tags option.case prod.case Let_def by simp
  then show ?thesis by (simp add: try_parse_tool_calls_def)
qed

text \<open>A serde that writes an object of one text as that text, and calls with angle brackets in an argument.\<close>

definition echo_serde :: "nat serde" where
  "echo_serde = \<lparr>sd_from_str = (\<lambda>_. None), sd_first = (\<lambda>_. None),
     sd_to_string = (\<lambda>v. case v of JObj [(k, JStr t)] \<Rightarrow> t | _ \<Rightarrow> bytes ''{}'')\<rparr>"

definition bracket_calls :: "(u8 list \<times> (u8 list \<times> u8 list) list) list" where
  "bracket_calls = [(bytes ''weather'', [(bytes ''city'', bytes ''a < <b></b> <tool_call>'')]), (bytes ''time'', [])]"

lemma bracket_plain: "\<forall>call \<in> set bracket_calls. plain_call call \<and> tool_exists weather_tools (fst call)"
  by code_simp

lemma tagged_calls_round_trip_witness:
  "try_parse_tool_calls echo_serde \<lparr>cfg_tools = weather_tools, cfg_choice = Choice_auto, cfg_parallel = True\<rparr> 7
     (concat (map render_call bracket_calls))
   = Some [new_call 7 (bytes ''weather'') (bytes ''a < <b></b> <tool_call>''), new_call 8 (bytes ''time'') (bytes ''{}'')]"
proof -
  let ?cfg = "\<lparr>cfg_tools = weather_tools, cfg_choice = Choice_auto, cfg_parallel = True\<rparr>"
  have "bracket_calls \<noteq> []" by (simp add: bracket_calls_def)
  moreover have "\<forall>call \<in> set bracket_calls. plain_call call \<and> tool_exists (cfg_tools ?cfg) (fst call)"
    using bracket_plain by simp
  moreover have "map (\<lambda>(i, call). call_read echo_serde i call) (enumerate 7 bracket_calls)
      = [new_call 7 (bytes ''weather'') (bytes ''a < <b></b> <tool_call>''), new_call 8 (bytes ''time'') (bytes ''{}'')]"
    by (simp add: bracket_calls_def call_read_def echo_serde_def read_argument_def unwrap_or_def)
  ultimately show ?thesis by (subst tagged_calls_round_trip) simp_all
qed

end
