(* ===== verification/Chat_Reply.thy ===== *)
theory Chat_Reply
  imports Tool_Calls Engine_Loop
begin

text \<open>
  How the chat route answers (\<open>src/server/routes/chat.rs\<close>): the events of a request's sequences
  become one response, or a stream of server-sent events.  A channel is the list of what
  receiving from it gives, \<open>None\<close> once the sender is gone; a client that leaves is a number of
  sends after which they fail; a timer is the number of receives after which it fires.
\<close>

section \<open>What is sent\<close>

record 'f top_logprob_item =
  ti_token :: "u8 list"
  ti_logprob :: 'f
  ti_bytes :: "u8 list option"

record 'f token_logprob =
  tp_token :: "u8 list"
  tp_logprob :: 'f
  tp_bytes :: "u8 list option"
  tp_top_logprobs :: "'f top_logprob_item list"

record 'f logprobs =
  lg_content :: "'f token_logprob list"
  lg_refusal :: "u8 list option"

record response_message =
  rm_role :: string
  rm_content :: "u8 list option"
  rm_reasoning_content :: "u8 list option"
  rm_tool_calls :: "tool_call list option"

record 'f choice =
  ch_index :: nat
  ch_message :: response_message
  ch_finish_reason :: string
  ch_logprobs :: "'f logprobs option"

record usage =
  us_prompt_tokens :: nat
  us_completion_tokens :: nat
  us_total_tokens :: nat
  us_reasoning_tokens :: "nat option"

record tool_call_delta =
  tcd_index :: nat
  tcd_id :: "u8 list option"
  tcd_type :: "string option"
  tcd_name :: "u8 list option"
  tcd_arguments :: "u8 list"

record message_delta =
  de_role :: "string option"
  de_content :: "u8 list option"
  de_reasoning_content :: "u8 list option"
  de_tool_calls :: "tool_call_delta list option"

record 'f chunk_choice =
  cc_index :: nat
  cc_delta :: message_delta
  cc_finish_reason :: "string option"
  cc_logprobs :: "'f logprobs option"

text \<open>What every chunk of a reply repeats: its id, the time, the model, the fingerprint.\<close>

record reply_head =
  rh_id :: "u8 list"
  rh_created :: nat
  rh_model :: "u8 list"
  rh_fingerprint :: "u8 list"

record 'f completion_chunk =
  ck_head :: reply_head
  ck_object :: string
  ck_choices :: "'f chunk_choice list"
  ck_usage :: "usage option"

record 'f completion_response =
  cr_head :: reply_head
  cr_object :: string
  cr_choices :: "'f choice list"
  cr_usage :: usage

text \<open>The errors of a reply, each with its status and its type.\<close>

datatype reply_error = Request_timeout nat | Engine_failed loop_error | Collector_panicked

definition error_response :: "reply_error \<Rightarrow> nat \<times> string" where
  "error_response e =
     (case e of
        Request_timeout t \<Rightarrow> (408, ''request_timeout'')
      | Engine_failed m \<Rightarrow> (500, ''server_error'')
      | Collector_panicked \<Rightarrow> (500, ''server_error''))"

datatype 'f sse_event = Sse_chunk "'f completion_chunk" | Sse_error reply_error | Sse_done

section \<open>Collecting a sequence\<close>

definition build_logprobs_content :: "'f logprob_entry list \<Rightarrow> nat \<Rightarrow> 'f logprobs" where
  "build_logprobs_content es n =
     \<lparr>lg_content = map (\<lambda>e. \<lparr>tp_token = le_token_str e, tp_logprob = le_logprob e, tp_bytes = Some (le_bytes e),
         tp_top_logprobs = map (\<lambda>(ts, lp, tb). \<lparr>ti_token = ts, ti_logprob = lp, ti_bytes = Some tb\<rparr>) (take n (le_top e))\<rparr>) es,
      lg_refusal = None\<rparr>"

record 'f completion_data =
  cd_content :: "u8 list"
  cd_reasoning_content :: "u8 list"
  cd_reasoning_tokens :: nat
  cd_finish_reason :: string
  cd_completion_tokens :: nat
  cd_logprob_entries :: "'f logprob_entry list"

definition completion_data_new :: "'f completion_data" where
  "completion_data_new =
     \<lparr>cd_content = [], cd_reasoning_content = [], cd_reasoning_tokens = 0, cd_finish_reason = ''stop'',
      cd_completion_tokens = 0, cd_logprob_entries = []\<rparr>"

text \<open>\<open>None\<close> is still waiting for the channel.\<close>

fun collect_one_completion_inner ::
    "'f completion_data \<Rightarrow> 'f engine_event option list \<Rightarrow> (reply_error + 'f completion_data) option" where
  "collect_one_completion_inner d [] = None"
| "collect_one_completion_inner d (None # rs) = Some (Inr d)"
| "collect_one_completion_inner d (Some ev # rs) =
     (case ev of
        Ev_token t es \<Rightarrow>
          collect_one_completion_inner
            (d\<lparr>cd_content := cd_content d @ t, cd_logprob_entries := cd_logprob_entries d @ es\<rparr>) rs
      | Ev_reasoning t \<Rightarrow>
          collect_one_completion_inner
            (d\<lparr>cd_reasoning_content := cd_reasoning_content d @ t, cd_reasoning_tokens := Suc (cd_reasoning_tokens d)\<rparr>) rs
      | Ev_finish r n \<Rightarrow> collect_one_completion_inner (d\<lparr>cd_finish_reason := r, cd_completion_tokens := n\<rparr>) rs
      | Ev_stream_end \<Rightarrow> Some (Inr d)
      | Ev_error e \<Rightarrow> Some (Inl (Engine_failed e)))"

definition collect_one_completion ::
    "nat option \<Rightarrow> nat option \<Rightarrow> 'f engine_event option list \<Rightarrow> (reply_error + 'f completion_data) option" where
  "collect_one_completion timeout fired rs =
     (case (timeout, fired) of
        (Some t, Some k) \<Rightarrow>
          (case collect_one_completion_inner completion_data_new (take k rs) of
             None \<Rightarrow> Some (Inl (Request_timeout t))
           | Some r \<Rightarrow> Some r)
      | _ \<Rightarrow> collect_one_completion_inner completion_data_new rs)"

text \<open>
  The collectors of a request join in any order, \<open>None\<close> for one that panicked; the first failure
  decides, and the rest are aborted.
\<close>

fun join_all :: "(nat \<times> (reply_error + 'd)) option list \<Rightarrow> reply_error + (nat \<times> 'd) list" where
  "join_all [] = Inr []"
| "join_all (None # js) = Inl Collector_panicked"
| "join_all (Some (i, Inl e) # js) = Inl e"
| "join_all (Some (i, Inr d) # js) =
     (case join_all js of Inl e \<Rightarrow> Inl e | Inr ds \<Rightarrow> Inr ((i, d) # ds))"

definition collect_all_completions :: "(nat \<times> (reply_error + 'd)) option list \<Rightarrow> reply_error + 'd list" where
  "collect_all_completions js =
     (case join_all js of Inl e \<Rightarrow> Inl e | Inr ds \<Rightarrow> Inr (map snd (sort_key fst ds)))"

section \<open>The response\<close>

record 'n json_schema_spec =
  js_name :: "u8 list"
  js_schema :: "'n json option"
  js_strict :: "bool option"
  js_description :: "u8 list option"

record 'n response_format =
  rf_format_type :: "u8 list"
  rf_json_schema :: "'n json_schema_spec option"

text \<open>What the request asked of its reply.\<close>

record 'n reply_env =
  re_head :: reply_head
  re_wants_logprobs :: bool
  re_req_top_n :: nat
  re_include_usage :: bool
  re_prompt_len :: nat
  re_tools :: "'n tool_config"
  re_response_format :: "'n response_format option"
  re_serde :: "'n serde"
  re_pointer :: "'n json \<Rightarrow> u8 list \<Rightarrow> 'n json option"
  re_is_int :: "'n \<Rightarrow> bool"

definition has_tools :: "'n reply_env \<Rightarrow> bool" where
  "has_tools env \<longleftrightarrow> cfg_tools (re_tools env) \<noteq> []"

definition wants_json :: "'n response_format option \<Rightarrow> bool" where
  "wants_json rf =
     (case rf of
        None \<Rightarrow> False
      | Some rf \<Rightarrow> rf_format_type rf = bytes ''json_object'' \<or> rf_format_type rf = bytes ''json_schema'')"

definition schema_fail :: "'n reply_env \<Rightarrow> 'n json_schema_spec option \<Rightarrow> u8 list \<Rightarrow> bool" where
  "schema_fail env spec raw =
     (case spec \<bind> js_schema of
        None \<Rightarrow> False
      | Some schema \<Rightarrow>
          (case sd_from_str (re_serde env) raw of
             None \<Rightarrow> True
           | Some v \<Rightarrow> \<not> validate_against_schema (re_pointer env) (re_is_int env) v schema))"

definition json_answer :: "'n reply_env \<Rightarrow> 'f completion_data \<Rightarrow> u8 list option \<times> string" where
  "json_answer env d =
     (let raw = strip_json_fences (trim (cd_content d)); spec = re_response_format env \<bind> rf_json_schema
      in if schema_fail env spec raw then
           (if spec \<bind> js_strict = Some True then (None, ''content_filter'') else (Some raw, cd_finish_reason d))
         else (Some raw, cd_finish_reason d))"

text \<open>The message of a choice and why it finished; \<open>k\<close> is the counter of the generated ids.\<close>

definition chat_answer :: "'n reply_env \<Rightarrow> nat \<Rightarrow> 'f completion_data \<Rightarrow> response_message \<times> string" where
  "chat_answer env k d =
     (let reasoning = (if cd_reasoning_content d = [] then None else Some (cd_reasoning_content d));
          msg = \<lparr>rm_role = ''assistant'', rm_content = None, rm_reasoning_content = reasoning, rm_tool_calls = None\<rparr>
      in if has_tools env then
           (case try_parse_tool_calls (re_serde env) (re_tools env) k (strip_json_fences (trim (cd_content d))) of
              Some calls \<Rightarrow> (msg\<lparr>rm_tool_calls := Some calls\<rparr>, ''tool_calls'')
            | None \<Rightarrow> (msg\<lparr>rm_content := Some (cd_content d)\<rparr>, cd_finish_reason d))
         else if wants_json (re_response_format env) then
           (case json_answer env d of (content, reason) \<Rightarrow> (msg\<lparr>rm_content := content\<rparr>, reason))
         else (msg\<lparr>rm_content := Some (cd_content d)\<rparr>, cd_finish_reason d))"

definition choice_of :: "'n reply_env \<Rightarrow> (nat \<Rightarrow> nat) \<Rightarrow> nat \<times> 'f completion_data \<Rightarrow> 'f choice" where
  "choice_of env ids p =
     (case p of (i, d) \<Rightarrow> case chat_answer env (ids i) d of (m, r) \<Rightarrow>
        \<lparr>ch_index = i, ch_message = m, ch_finish_reason = r,
         ch_logprobs = (if re_wants_logprobs env
                        then Some (build_logprobs_content (cd_logprob_entries d) (re_req_top_n env)) else None)\<rparr>)"

definition usage_of :: "'n reply_env \<Rightarrow> nat \<Rightarrow> nat option \<Rightarrow> usage" where
  "usage_of env n reasoning =
     \<lparr>us_prompt_tokens = re_prompt_len env, us_completion_tokens = n, us_total_tokens = re_prompt_len env + n,
      us_reasoning_tokens = reasoning\<rparr>"

definition response_of :: "'n reply_env \<Rightarrow> (nat \<Rightarrow> nat) \<Rightarrow> 'f completion_data list \<Rightarrow> 'f completion_response" where
  "response_of env ids ds =
     (let reasoning = sum_list (map cd_reasoning_tokens ds)
      in \<lparr>cr_head = re_head env, cr_object = ''chat.completion'',
          cr_choices = map (choice_of env ids) (enumerate 0 ds),
          cr_usage = usage_of env (sum_list (map cd_completion_tokens ds)) (if 0 < reasoning then Some reasoning else None)\<rparr>)"

section \<open>The stream\<close>

record 'f sse_stream =
  ss_out :: "'f sse_event list"
  ss_room :: "nat option"
  ss_over :: bool

definition sse_stream_new :: "nat option \<Rightarrow> 'f sse_stream" where
  "sse_stream_new room = \<lparr>ss_out = [], ss_room = room, ss_over = False\<rparr>"

text \<open>
  \<open>sse_tx.send\<close> fails once the client is gone: ignored, or the end of the task, as is the end of
  several in a row.
\<close>

definition sse_push :: "('f, 'z) sse_stream_scheme \<Rightarrow> 'f sse_event \<Rightarrow> ('f, 'z) sse_stream_scheme" where
  "sse_push st ev =
     (case ss_room st of
        Some 0 \<Rightarrow> st
      | r \<Rightarrow> st\<lparr>ss_out := ss_out st @ [ev], ss_room := map_option (\<lambda>k. k - 1) r\<rparr>)"

definition sse_send :: "('f, 'z) sse_stream_scheme \<Rightarrow> 'f sse_event \<Rightarrow> ('f, 'z) sse_stream_scheme" where
  "sse_send st ev = (if ss_room st = Some 0 then st\<lparr>ss_over := True\<rparr> else sse_push st ev)"

fun sse_sends :: "('f, 'z) sse_stream_scheme \<Rightarrow> 'f sse_event list \<Rightarrow> ('f, 'z) sse_stream_scheme" where
  "sse_sends st [] = st"
| "sse_sends st (ev # evs) = (let st1 = sse_send st ev in if ss_over st1 then st1 else sse_sends st1 evs)"

definition no_delta :: message_delta where
  "no_delta = \<lparr>de_role = None, de_content = None, de_reasoning_content = None, de_tool_calls = None\<rparr>"

definition delta_chunk ::
    "'n reply_env \<Rightarrow> nat \<Rightarrow> message_delta \<Rightarrow> string option \<Rightarrow> 'f logprobs option \<Rightarrow> 'f sse_event" where
  "delta_chunk env i delta reason lps =
     Sse_chunk \<lparr>ck_head = re_head env, ck_object = ''chat.completion.chunk'',
       ck_choices = [\<lparr>cc_index = i, cc_delta = delta, cc_finish_reason = reason, cc_logprobs = lps\<rparr>], ck_usage = None\<rparr>"

definition role_chunk :: "'n reply_env \<Rightarrow> nat \<Rightarrow> 'f sse_event" where
  "role_chunk env i = delta_chunk env i (no_delta\<lparr>de_role := Some ''assistant''\<rparr>) None None"

definition chunk_logprobs :: "'n reply_env \<Rightarrow> 'f logprob_entry list \<Rightarrow> 'f logprobs option" where
  "chunk_logprobs env es =
     (if re_wants_logprobs env \<and> es \<noteq> [] then Some (build_logprobs_content es (re_req_top_n env))
      else if re_wants_logprobs env then Some \<lparr>lg_content = [], lg_refusal = None\<rparr>
      else None)"

definition token_chunk :: "'n reply_env \<Rightarrow> nat \<Rightarrow> u8 list \<Rightarrow> 'f logprob_entry list \<Rightarrow> 'f sse_event" where
  "token_chunk env i t es = delta_chunk env i (no_delta\<lparr>de_content := Some t\<rparr>) None (chunk_logprobs env es)"

definition reasoning_chunk :: "'n reply_env \<Rightarrow> nat \<Rightarrow> u8 list \<Rightarrow> 'f sse_event" where
  "reasoning_chunk env i t = delta_chunk env i (no_delta\<lparr>de_reasoning_content := Some t\<rparr>) None None"

definition finish_chunk :: "'n reply_env \<Rightarrow> nat \<Rightarrow> string \<Rightarrow> 'f sse_event" where
  "finish_chunk env i r = delta_chunk env i no_delta (Some r) None"

definition usage_chunk :: "'n reply_env \<Rightarrow> nat \<Rightarrow> 'f sse_event" where
  "usage_chunk env n =
     Sse_chunk \<lparr>ck_head = re_head env, ck_object = ''chat.completion.chunk'', ck_choices = [],
       ck_usage = Some (usage_of env n None)\<rparr>"

text \<open>A timer that fires while the stream is not over sends an error and the end.\<close>

definition run_streaming_with_timeout ::
    "nat option \<Rightarrow> nat option \<Rightarrow> ('r list \<Rightarrow> ('f, 'z) sse_stream_scheme) \<Rightarrow> 'r list \<Rightarrow> ('f, 'z) sse_stream_scheme" where
  "run_streaming_with_timeout timeout fired inner rs =
     (case (timeout, fired) of
        (Some t, Some k) \<Rightarrow>
          (let st = inner (take k rs)
           in if ss_over st then st else sse_push (sse_push st (Sse_error (Request_timeout t))) Sse_done)
      | _ \<Rightarrow> inner rs)"

subsection \<open>One sequence\<close>

definition single_event :: "'n reply_env \<Rightarrow> 'f sse_stream \<Rightarrow> 'f engine_event \<Rightarrow> 'f sse_stream" where
  "single_event env st ev =
     (case ev of
        Ev_token t es \<Rightarrow> if t = [] \<and> es = [] then st else sse_sends st [token_chunk env 0 t es]
      | Ev_reasoning t \<Rightarrow> sse_sends st [reasoning_chunk env 0 t]
      | Ev_finish r n \<Rightarrow>
          sse_sends st (finish_chunk env 0 r # (if re_include_usage env then [usage_chunk env n] else []))
      | Ev_stream_end \<Rightarrow> (sse_sends st [Sse_done])\<lparr>ss_over := True\<rparr>
      | Ev_error e \<Rightarrow> (sse_push (sse_push st (Sse_error (Engine_failed e))) Sse_done)\<lparr>ss_over := True\<rparr>)"

fun single_loop :: "'n reply_env \<Rightarrow> 'f sse_stream \<Rightarrow> 'f engine_event option list \<Rightarrow> 'f sse_stream" where
  "single_loop env st [] = st"
| "single_loop env st (r # rs) =
     (if ss_over st then st
      else case r of None \<Rightarrow> st\<lparr>ss_over := True\<rparr> | Some ev \<Rightarrow> single_loop env (single_event env st ev) rs)"

definition single_stream :: "'n reply_env \<Rightarrow> nat option \<Rightarrow> 'f engine_event option list \<Rightarrow> 'f sse_stream" where
  "single_stream env room rs = single_loop env (sse_sends (sse_stream_new room) [role_chunk env 0]) rs"

subsection \<open>Several sequences\<close>

record 'f merged_sse = "'f sse_stream" +
  mg_stream_ends :: nat
  mg_completion_tokens :: nat

definition merged_event :: "'n reply_env \<Rightarrow> nat \<Rightarrow> 'f merged_sse \<Rightarrow> nat \<times> 'f engine_event \<Rightarrow> 'f merged_sse" where
  "merged_event env n st p =
     (case p of (i, ev) \<Rightarrow>
        case ev of
          Ev_token t es \<Rightarrow> if t = [] \<and> es = [] then st else sse_sends st [token_chunk env i t es]
        | Ev_reasoning t \<Rightarrow> sse_sends st [reasoning_chunk env i t]
        | Ev_finish r m \<Rightarrow>
            sse_sends (st\<lparr>mg_completion_tokens := mg_completion_tokens st + m\<rparr>) [finish_chunk env i r]
        | Ev_stream_end \<Rightarrow>
            let st1 = st\<lparr>mg_stream_ends := Suc (mg_stream_ends st)\<rparr>
            in if mg_stream_ends st1 = n
               then (sse_sends st1 ((if re_include_usage env then [usage_chunk env (mg_completion_tokens st1)] else [])
                                    @ [Sse_done]))\<lparr>ss_over := True\<rparr>
               else st1
        | Ev_error e \<Rightarrow> (sse_push (sse_push st (Sse_error (Engine_failed e))) Sse_done)\<lparr>ss_over := True\<rparr>)"

fun merged_loop :: "'n reply_env \<Rightarrow> nat \<Rightarrow> 'f merged_sse \<Rightarrow> (nat \<times> 'f engine_event) option list \<Rightarrow> 'f merged_sse" where
  "merged_loop env n st [] = st"
| "merged_loop env n st (r # rs) =
     (if ss_over st then st
      else case r of None \<Rightarrow> st\<lparr>ss_over := True\<rparr> | Some p \<Rightarrow> merged_loop env n (merged_event env n st p) rs)"

definition merged_start :: "'n reply_env \<Rightarrow> nat option \<Rightarrow> nat \<Rightarrow> 'f merged_sse" where
  "merged_start env room n =
     sse_sends \<lparr>ss_out = [], ss_room = room, ss_over = False, mg_stream_ends = 0, mg_completion_tokens = 0\<rparr>
       (map (role_chunk env) [0..<n])"

definition merged_stream :: "'n reply_env \<Rightarrow> nat option \<Rightarrow> nat \<Rightarrow> (nat \<times> 'f engine_event) option list \<Rightarrow> 'f merged_sse" where
  "merged_stream env room n rs = merged_loop env n (merged_start env room n) rs"

subsection \<open>Tools\<close>

definition call_header :: "nat \<times> tool_call \<Rightarrow> tool_call_delta" where
  "call_header p =
     (case p of (j, c) \<Rightarrow> \<lparr>tcd_index = j, tcd_id = Some (tc_id c), tcd_type = Some ''function'',
                            tcd_name = Some (tc_name c), tcd_arguments = []\<rparr>)"

definition call_arguments :: "nat \<times> tool_call \<Rightarrow> tool_call_delta" where
  "call_arguments p =
     (case p of (j, c) \<Rightarrow> \<lparr>tcd_index = j, tcd_id = None, tcd_type = None, tcd_name = None,
                            tcd_arguments = tc_arguments c\<rparr>)"

definition tools_delta :: "'n reply_env \<Rightarrow> nat \<Rightarrow> tool_call_delta list \<Rightarrow> 'f sse_event" where
  "tools_delta env i ds = delta_chunk env i (no_delta\<lparr>de_tool_calls := Some ds\<rparr>) None None"

definition tool_chunks :: "'n reply_env \<Rightarrow> nat \<Rightarrow> tool_call list \<Rightarrow> 'f sse_event list" where
  "tool_chunks env i calls =
     [tools_delta env i (map call_header (enumerate 0 calls))]
     @ map (\<lambda>p. tools_delta env i [call_arguments p]) (filter (\<lambda>(j, c). tc_arguments c \<noteq> []) (enumerate 0 calls))
     @ [finish_chunk env i ''tool_calls'']"

definition buffered_chunks :: "'n reply_env \<Rightarrow> (nat \<Rightarrow> nat) \<Rightarrow> nat \<times> 'f completion_data \<Rightarrow> 'f sse_event list" where
  "buffered_chunks env ids p =
     (case p of (i, d) \<Rightarrow>
        role_chunk env i #
        (case try_parse_tool_calls (re_serde env) (re_tools env) (ids i) (strip_json_fences (trim (cd_content d))) of
           Some calls \<Rightarrow> tool_chunks env i calls
         | None \<Rightarrow>
             (if cd_content d = [] then []
              else [delta_chunk env i (no_delta\<lparr>de_content := Some (cd_content d)\<rparr>) None None])
             @ [finish_chunk env i (cd_finish_reason d)]))"

definition tools_stream ::
    "'n reply_env \<Rightarrow> (nat \<Rightarrow> nat) \<Rightarrow> nat option \<Rightarrow> reply_error + 'f completion_data list \<Rightarrow> 'f sse_stream" where
  "tools_stream env ids room collected =
     (case collected of
        Inl e \<Rightarrow> (sse_push (sse_push (sse_stream_new room) (Sse_error e)) Sse_done)\<lparr>ss_over := True\<rparr>
      | Inr ds \<Rightarrow>
          let st = sse_sends (sse_stream_new room)
                (concat (map (buffered_chunks env ids) (enumerate 0 ds))
                 @ (if re_include_usage env then [usage_chunk env (sum_list (map cd_completion_tokens ds))] else []))
          in if ss_over st then st else (sse_push st Sse_done)\<lparr>ss_over := True\<rparr>)"

end
