(* ===== verification/Reply_Props.thy ===== *)
theory Reply_Props
  imports Chat_Reply Loop_Streams Tool_Props
begin

text \<open>
  What a client reads: a stream and a response say the same, streams of several sequences do not
  mix, every stream ends once, and the replies of the engine loop arrive whole.
\<close>

section \<open>Reading a stream\<close>

definition choices_at :: "nat \<Rightarrow> 'f sse_event list \<Rightarrow> 'f chunk_choice list" where
  "choices_at i out =
     concat (map (\<lambda>e. case e of Sse_chunk c \<Rightarrow> filter (\<lambda>x. cc_index x = i) (ck_choices c) | _ \<Rightarrow> []) out)"

definition streamed_content :: "nat \<Rightarrow> 'f sse_event list \<Rightarrow> u8 list" where
  "streamed_content i out = concat (List.map_filter (\<lambda>c. de_content (cc_delta c)) (choices_at i out))"

definition streamed_reasoning :: "nat \<Rightarrow> 'f sse_event list \<Rightarrow> u8 list" where
  "streamed_reasoning i out = concat (List.map_filter (\<lambda>c. de_reasoning_content (cc_delta c)) (choices_at i out))"

definition streamed_finish :: "nat \<Rightarrow> 'f sse_event list \<Rightarrow> string list" where
  "streamed_finish i out = List.map_filter cc_finish_reason (choices_at i out)"

definition streamed_logprobs :: "nat \<Rightarrow> 'f sse_event list \<Rightarrow> 'f token_logprob list" where
  "streamed_logprobs i out = concat (map lg_content (List.map_filter cc_logprobs (choices_at i out)))"

definition reads_as :: "'n reply_env \<Rightarrow> nat \<Rightarrow> 'f sse_event list \<Rightarrow> 'f completion_data \<Rightarrow> bool" where
  "reads_as env i out d \<longleftrightarrow>
     streamed_content i out = cd_content d \<and> streamed_reasoning i out = cd_reasoning_content d
     \<and> streamed_finish i out = [cd_finish_reason d]
     \<and> (re_wants_logprobs env \<longrightarrow>
          streamed_logprobs i out = lg_content (build_logprobs_content (cd_logprob_entries d) (re_req_top_n env)))"

named_theorems reading

lemma choices_at_append [reading]:
  "choices_at i [] = []" "choices_at i (xs @ ys) = choices_at i xs @ choices_at i ys"
  "choices_at i (e # f # ys) = choices_at i [e] @ choices_at i (f # ys)"
  by (simp_all add: choices_at_def)

lemma choices_at_chunk [reading]:
  "choices_at i [delta_chunk env j d r l] =
     (if i = j then [\<lparr>cc_index = j, cc_delta = d, cc_finish_reason = r, cc_logprobs = l\<rparr>] else [])"
  "choices_at i [usage_chunk env n] = []" "choices_at i [Sse_done] = []" "choices_at i [Sse_error e] = []"
  by (simp_all add: choices_at_def delta_chunk_def usage_chunk_def)

lemma map_filter_append [reading]: "List.map_filter f (xs @ ys) = List.map_filter f xs @ List.map_filter f ys"
  by (simp add: List.map_filter_def)

lemmas streamed_defs = streamed_content_def streamed_reasoning_def streamed_finish_def streamed_logprobs_def

lemma streamed_append [reading]:
  "streamed_content i (xs @ ys) = streamed_content i xs @ streamed_content i ys"
  "streamed_reasoning i (xs @ ys) = streamed_reasoning i xs @ streamed_reasoning i ys"
  "streamed_finish i (xs @ ys) = streamed_finish i xs @ streamed_finish i ys"
  "streamed_logprobs i (xs @ ys) = streamed_logprobs i xs @ streamed_logprobs i ys"
  by (simp_all add: streamed_defs choices_at_append map_filter_append)

text \<open>What a chunk that carries none of these is worth.\<close>

definition silent :: "nat \<Rightarrow> 'f sse_event list \<Rightarrow> bool" where
  "silent i out \<longleftrightarrow>
     streamed_content i out = [] \<and> streamed_reasoning i out = [] \<and> streamed_finish i out = []
     \<and> streamed_logprobs i out = []"

lemma silent_chunks:
  "silent i [role_chunk env j]" "silent i [usage_chunk env n]" "silent i [Sse_done]" "silent i []"
  by (simp_all add: silent_def streamed_defs role_chunk_def reading no_delta_def List.map_filter_def)

lemma silent_append: "silent i xs \<Longrightarrow> silent i ys \<Longrightarrow> silent i (xs @ ys)"
  by (simp add: silent_def streamed_append)

lemma silent_roles: "silent i (map (role_chunk env) js)"
proof (induction js)
  case (Cons j js)
  then show ?case using silent_append [OF silent_chunks(1) [of i env j]] by fastforce
qed (simp add: silent_chunks)

lemma reads_silent:
  assumes "silent i xs" and "silent i zs" and "reads_as env i ys d"
  shows "reads_as env i (xs @ ys @ zs) d"
  using assms by (simp add: reads_as_def silent_def streamed_append)

section \<open>Sending\<close>

lemma sse_push_stays: "ss_room st = None \<Longrightarrow> sse_push st ev = st\<lparr>ss_out := ss_out st @ [ev]\<rparr>"
  by (cases st) (simp add: sse_push_def)

lemma sse_sends_stays:
  "ss_room st = None \<Longrightarrow> \<not> ss_over st \<Longrightarrow> sse_sends st evs = st\<lparr>ss_out := ss_out st @ evs\<rparr>"
proof (induction evs arbitrary: st)
  case Nil
  show ?case by (cases st) simp
next
  case (Cons ev evs)
  then show ?case by (simp add: sse_send_def sse_push_stays Let_def)
qed

text \<open>The chunks of an event, and what collecting makes of it.\<close>

definition event_chunks :: "'n reply_env \<Rightarrow> nat \<Rightarrow> bool \<Rightarrow> 'f engine_event \<Rightarrow> 'f sse_event list" where
  "event_chunks env i with_usage ev =
     (case ev of
        Ev_token t es \<Rightarrow> if t = [] \<and> es = [] then [] else [token_chunk env i t es]
      | Ev_reasoning t \<Rightarrow> [reasoning_chunk env i t]
      | Ev_finish r n \<Rightarrow> finish_chunk env i r # (if with_usage then [usage_chunk env n] else [])
      | _ \<Rightarrow> [])"

fun absorb :: "'f completion_data \<Rightarrow> 'f engine_event \<Rightarrow> 'f completion_data" where
  "absorb d (Ev_token t es) = d\<lparr>cd_content := cd_content d @ t, cd_logprob_entries := cd_logprob_entries d @ es\<rparr>"
| "absorb d (Ev_reasoning t) =
     d\<lparr>cd_reasoning_content := cd_reasoning_content d @ t, cd_reasoning_tokens := Suc (cd_reasoning_tokens d)\<rparr>"
| "absorb d (Ev_finish r n) = d\<lparr>cd_finish_reason := r, cd_completion_tokens := n\<rparr>"
| "absorb d ev = d"

definition going_on :: "'f engine_event \<Rightarrow> bool" where
  "going_on ev \<longleftrightarrow> (case ev of Ev_stream_end \<Rightarrow> False | Ev_error _ \<Rightarrow> False | _ \<Rightarrow> True)"

lemma going_on_simps [simp]:
  "going_on (Ev_token t es)" "going_on (Ev_reasoning t)" "going_on (Ev_finish r n)" "\<not> going_on Ev_stream_end" "\<not> going_on (Ev_error e)"
  by (simp_all add: going_on_def)

lemma body_going_on: "body_event ev \<Longrightarrow> going_on ev"
  by (cases ev) (simp_all add: event_simps)

lemma collect_going_on:
  "list_all going_on evs \<Longrightarrow>
   collect_one_completion_inner d (map Some evs @ rs) = collect_one_completion_inner (fold (\<lambda>ev d. absorb d ev) evs d) rs"
proof (induction evs arbitrary: d)
  case (Cons ev evs)
  then show ?case by (cases ev) simp_all
qed simp

lemma single_event_going_on:
  assumes "going_on ev" and "ss_room st = None" and "\<not> ss_over st"
  shows "single_event env st ev = st\<lparr>ss_out := ss_out st @ event_chunks env 0 (re_include_usage env) ev\<rparr>"
  using assms
  by (cases st; cases ev) (simp_all add: single_event_def event_chunks_def sse_sends_stays del: sse_sends.simps)

lemma single_loop_going_on:
  "list_all going_on evs \<Longrightarrow> ss_room st = None \<Longrightarrow> \<not> ss_over st \<Longrightarrow>
   single_loop env st (map Some evs @ rs)
   = single_loop env (st\<lparr>ss_out := ss_out st @ concat (map (event_chunks env 0 (re_include_usage env)) evs)\<rparr>) rs"
proof (induction evs arbitrary: st)
  case Nil
  show ?case by (cases st) simp
next
  case (Cons ev evs)
  then show ?case by (simp add: single_event_going_on)
qed

text \<open>The text of a sequence while it goes on: its chunks read as what collecting has so far.\<close>

lemma event_reads:
  assumes "body_event ev"
  shows "streamed_content i (event_chunks env i u ev) = (case ev of Ev_token t es \<Rightarrow> t | _ \<Rightarrow> [])"
    and "streamed_reasoning i (event_chunks env i u ev) = (case ev of Ev_reasoning t \<Rightarrow> t | _ \<Rightarrow> [])"
    and "streamed_finish i (event_chunks env i u ev) = []"
    and "re_wants_logprobs env \<Longrightarrow> streamed_logprobs i (event_chunks env i u ev)
      = (case ev of Ev_token t es \<Rightarrow> lg_content (build_logprobs_content es (re_req_top_n env)) | _ \<Rightarrow> [])"
  using assms
  by (cases ev; simp add: event_chunks_def token_chunk_def reasoning_chunk_def streamed_defs reading
      List.map_filter_def no_delta_def chunk_logprobs_def build_logprobs_content_def event_simps)+

definition so_far :: "'n reply_env \<Rightarrow> nat \<Rightarrow> 'f sse_event list \<Rightarrow> 'f completion_data \<Rightarrow> bool" where
  "so_far env i out d \<longleftrightarrow>
     streamed_content i out = cd_content d \<and> streamed_reasoning i out = cd_reasoning_content d
     \<and> streamed_finish i out = []
     \<and> (re_wants_logprobs env \<longrightarrow>
          streamed_logprobs i out = lg_content (build_logprobs_content (cd_logprob_entries d) (re_req_top_n env)))"

lemma build_append:
  "lg_content (build_logprobs_content (xs @ ys) n)
   = lg_content (build_logprobs_content xs n) @ lg_content (build_logprobs_content ys n)"
  by (simp add: build_logprobs_content_def)

lemma so_far_step:
  assumes "so_far env i out d" and "body_event ev"
  shows "so_far env i (out @ event_chunks env i u ev) (absorb d ev)"
  using assms event_reads [OF assms(2), where i = i and env = env and u = u]
  by (cases ev) (auto simp: so_far_def streamed_append build_append event_simps)

lemma so_far_body:
  "so_far env i out d \<Longrightarrow> open_log body \<Longrightarrow>
   so_far env i (out @ concat (map (event_chunks env i u) body)) (fold (\<lambda>ev d. absorb d ev) body d)"
proof (induction body arbitrary: out d)
  case (Cons ev body)
  then have "so_far env i (out @ event_chunks env i u ev) (absorb d ev)" by (intro so_far_step) (simp_all add: event_simps)
  from Cons.IH [OF this] Cons.prems show ?case by (simp add: event_simps)
qed simp

lemma finish_reads:
  "streamed_content i (event_chunks env i u (Ev_finish r n)) = []"
  "streamed_reasoning i (event_chunks env i u (Ev_finish r n)) = []"
  "streamed_finish i (event_chunks env i u (Ev_finish r n)) = [r]"
  "streamed_logprobs i (event_chunks env i u (Ev_finish r n)) = []"
  by (simp_all add: event_chunks_def finish_chunk_def streamed_defs reading List.map_filter_def no_delta_def)

lemma so_far_finish:
  assumes "so_far env i out d"
  shows "reads_as env i (out @ event_chunks env i u (Ev_finish r n)) (absorb d (Ev_finish r n))"
  using assms by (simp add: so_far_def reads_as_def streamed_append finish_reads)

lemma so_far_start: "silent i out \<Longrightarrow> so_far env i out completion_data_new"
  by (simp add: so_far_def silent_def completion_data_new_def build_logprobs_content_def)

section \<open>One sequence\<close>

lemma ended_log_cases:
  assumes "ended_log evs"
  obtains (finish) body r n where "evs = body @ [Ev_finish r n, Ev_stream_end]" "open_log body"
    | (failed) body e where "evs = body @ [Ev_error e, Ev_stream_end]" "open_log body"
proof -
  have "\<exists>body t. evs = body @ [t, Ev_stream_end] \<and> open_log body \<and> terminal_event t"
    using assms
  proof (induction evs)
    case (Cons ev evs)
    show ?case
    proof (cases "body_event ev")
      case True
      then obtain body t where "evs = body @ [t, Ev_stream_end]" "open_log body" "terminal_event t"
        using Cons by auto
      then have "ev # evs = (ev # body) @ [t, Ev_stream_end]" "open_log (ev # body)" using True by (simp_all add: event_simps)
      then show ?thesis using \<open>terminal_event t\<close> by blast
    next
      case False
      then have "ev # evs = [] @ [ev, Ev_stream_end]" "terminal_event ev" using Cons.prems by simp_all
      then show ?thesis by (metis open_log_simps(1))
    qed
  qed simp
  then obtain body t where bt: "evs = body @ [t, Ev_stream_end]" "open_log body" "terminal_event t" by blast
  then show thesis using finish failed by (cases t) (simp_all add: terminal_event_def)
qed

lemma open_log_going_on: "open_log body \<Longrightarrow> list_all going_on body"
  by (auto simp: open_log_def list_all_iff intro: body_going_on)

lemma single_start: "sse_sends (sse_stream_new None) [role_chunk env 0] = \<lparr>ss_out = [role_chunk env 0], ss_room = None, ss_over = False\<rparr>"
  by (simp add: sse_stream_new_def sse_sends_stays del: sse_sends.simps)

lemma single_stream_finish:
  assumes "open_log body"
  shows "single_stream env None (map Some (body @ [Ev_finish r n, Ev_stream_end])) =
    \<lparr>ss_out = role_chunk env 0 # concat (map (event_chunks env 0 (re_include_usage env)) (body @ [Ev_finish r n])) @ [Sse_done],
     ss_room = None, ss_over = True\<rparr>"
proof -
  have g: "list_all going_on (body @ [Ev_finish r n])" using open_log_going_on [OF assms] by simp
  have m: "map Some (body @ [Ev_finish r n, Ev_stream_end]) = map Some (body @ [Ev_finish r n]) @ [Some Ev_stream_end]" by simp
  show ?thesis
    unfolding single_stream_def single_start m
    by (subst single_loop_going_on [OF g])
      (simp_all add: single_event_def sse_sends_stays del: sse_sends.simps map_append concat_append)
qed

lemma single_stream_error:
  assumes "open_log body"
  shows "single_stream env None (map Some (body @ Ev_error e # evs)) =
    \<lparr>ss_out = role_chunk env 0 # concat (map (event_chunks env 0 (re_include_usage env)) body) @ [Sse_error (Engine_failed e), Sse_done],
     ss_room = None, ss_over = True\<rparr>"
proof -
  have m: "map Some (body @ Ev_error e # evs) = map Some body @ Some (Ev_error e) # map Some evs" by simp
  have over: "single_loop env st rs = st" if "ss_over st" for st :: "'a sse_stream" and rs
    using that by (cases rs) simp_all
  show ?thesis
    unfolding single_stream_def single_start m
    by (subst single_loop_going_on [OF open_log_going_on [OF assms]])
      (simp_all add: single_event_def sse_push_stays over del: concat_append)
qed

lemma collect_finish:
  "open_log body \<Longrightarrow>
   collect_one_completion_inner d (map Some (body @ [Ev_finish r n, Ev_stream_end]))
   = Some (Inr (absorb (fold (\<lambda>ev d. absorb d ev) body d) (Ev_finish r n)))"
  using collect_going_on [of "body @ [Ev_finish r n]" d "[Some Ev_stream_end]"] by (simp add: open_log_going_on)

lemma collect_error:
  "open_log body \<Longrightarrow> collect_one_completion_inner d (map Some (body @ Ev_error e # evs)) = Some (Inl (Engine_failed e))"
  using collect_going_on [of body d "Some (Ev_error e) # map Some evs"] by (simp add: open_log_going_on)

section \<open>Several sequences\<close>

definition ends_of :: "nat \<times> 'f engine_event \<Rightarrow> nat" where
  "ends_of p = (case snd p of Ev_stream_end \<Rightarrow> 1 | _ \<Rightarrow> 0)"

definition tokens_of :: "nat \<times> 'f engine_event \<Rightarrow> nat" where
  "tokens_of p = (case snd p of Ev_finish r m \<Rightarrow> m | _ \<Rightarrow> 0)"

definition no_error :: "nat \<times> 'f engine_event \<Rightarrow> bool" where
  "no_error p \<longleftrightarrow> (case snd p of Ev_error e \<Rightarrow> False | _ \<Rightarrow> True)"

text \<open>The events of one of the channels merged into \<open>ms\<close>.\<close>

definition channel :: "(nat \<times> 'f engine_event) list \<Rightarrow> nat \<Rightarrow> 'f engine_event list" where
  "channel ms i = map snd (filter (\<lambda>p. fst p = i) ms)"

definition pair_chunks :: "'n reply_env \<Rightarrow> nat \<times> 'f engine_event \<Rightarrow> 'f sse_event list" where
  "pair_chunks env p = event_chunks env (fst p) False (snd p)"

lemma merged_event_on:
  assumes "no_error p" and "ss_room st = None" and "\<not> ss_over st" and "mg_stream_ends st + ends_of p < n"
  shows "merged_event env n st p = st\<lparr>ss_out := ss_out st @ pair_chunks env p,
      mg_stream_ends := mg_stream_ends st + ends_of p, mg_completion_tokens := mg_completion_tokens st + tokens_of p\<rparr>"
  using assms
  by (cases st; cases p; cases "snd p")
    (simp_all add: merged_event_def pair_chunks_def event_chunks_def ends_of_def tokens_of_def no_error_def sse_sends_stays
      Let_def del: sse_sends.simps)

lemma merged_loop_on:
  "list_all no_error ps \<Longrightarrow> ss_room st = None \<Longrightarrow> \<not> ss_over st \<Longrightarrow> mg_stream_ends st + sum_list (map ends_of ps) < n \<Longrightarrow>
   merged_loop env n st (map Some ps @ rs) = merged_loop env n (st\<lparr>ss_out := ss_out st @ concat (map (pair_chunks env) ps),
      mg_stream_ends := mg_stream_ends st + sum_list (map ends_of ps),
      mg_completion_tokens := mg_completion_tokens st + sum_list (map tokens_of ps)\<rparr>) rs"
proof (induction ps arbitrary: st)
  case Nil
  show ?case by (cases st) simp
next
  case (Cons p ps)
  then show ?case by (simp add: merged_event_on add.assoc)
qed

lemma merged_stream_end:
  assumes "list_all no_error ps" and "Suc (sum_list (map ends_of ps)) = n"
  shows "merged_stream env None n (map Some (ps @ [(i, Ev_stream_end)])) =
    \<lparr>ss_out = map (role_chunk env) [0..<n] @ concat (map (pair_chunks env) ps)
        @ (if re_include_usage env then [usage_chunk env (sum_list (map tokens_of ps))] else []) @ [Sse_done],
     ss_room = None, ss_over = True, mg_stream_ends = n, mg_completion_tokens = sum_list (map tokens_of ps)\<rparr>"
proof -
  let ?st = "\<lparr>ss_out = map (role_chunk env) [0..<n], ss_room = None, ss_over = False, mg_stream_ends = 0, mg_completion_tokens = 0\<rparr>"
  have start: "merged_start env None n = ?st" by (simp add: merged_start_def sse_sends_stays del: sse_sends.simps)
  have m: "map Some (ps @ [(i, Ev_stream_end)]) = map Some ps @ [Some (i, Ev_stream_end)]" by simp
  have "merged_loop env n ?st (map Some ps @ [Some (i, Ev_stream_end)]) =
      merged_loop env n (?st\<lparr>ss_out := map (role_chunk env) [0..<n] @ concat (map (pair_chunks env) ps),
        mg_stream_ends := sum_list (map ends_of ps), mg_completion_tokens := sum_list (map tokens_of ps)\<rparr>)
        [Some (i, Ev_stream_end)]"
    using assms by (subst merged_loop_on) simp_all
  also have "\<dots> = \<lparr>ss_out = map (role_chunk env) [0..<n] @ concat (map (pair_chunks env) ps)
        @ (if re_include_usage env then [usage_chunk env (sum_list (map tokens_of ps))] else []) @ [Sse_done],
     ss_room = None, ss_over = True, mg_stream_ends = n, mg_completion_tokens = sum_list (map tokens_of ps)\<rparr>"
    using assms(2) by (simp add: merged_event_def Let_def sse_sends_stays del: sse_sends.simps)
  finally show ?thesis unfolding merged_stream_def start m .
qed

text \<open>What is counted over all channels is counted channel by channel.\<close>

lemma sum_by_channel:
  fixes f :: "nat \<times> 'e \<Rightarrow> nat"
  shows "\<forall>p \<in> set ms. fst p < n \<Longrightarrow> sum_list (map f ms) = (\<Sum>i<n. sum_list (map f (filter (\<lambda>p. fst p = i) ms)))"
proof (induction ms)
  case (Cons p ms)
  have "(\<Sum>i<n. sum_list (map f (filter (\<lambda>q. fst q = i) (p # ms))))
      = (\<Sum>i<n. (if fst p = i then f p else 0) + sum_list (map f (filter (\<lambda>q. fst q = i) ms)))"
    by (intro sum.cong) simp_all
  also have "\<dots> = (\<Sum>i<n. if fst p = i then f p else 0) + (\<Sum>i<n. sum_list (map f (filter (\<lambda>q. fst q = i) ms)))"
    by (rule sum.distrib)
  also have "(\<Sum>i<n. if fst p = i then f p else 0) = f p" using Cons.prems by simp
  finally show ?case using Cons by simp
qed simp

lemma other_channel: "j \<noteq> i \<Longrightarrow> choices_at i (event_chunks env j False ev) = []"
  by (cases ev) (simp_all add: event_chunks_def token_chunk_def reasoning_chunk_def finish_chunk_def reading)

lemma choices_of_channel:
  "choices_at i (concat (map (pair_chunks env) ms)) = choices_at i (concat (map (event_chunks env i False) (channel ms i)))"
proof (induction ms)
  case (Cons p ms)
  then show ?case by (cases "fst p = i") (simp_all add: choices_at_append(2) pair_chunks_def channel_def other_channel)
qed (simp add: channel_def)

lemma reads_as_cong: "choices_at i out = choices_at i out' \<Longrightarrow> reads_as env i out d = reads_as env i out' d"
  by (simp add: reads_as_def streamed_defs)

text \<open>A channel that finished.\<close>

definition finished_log :: "'f engine_event list \<Rightarrow> bool" where
  "finished_log evs \<longleftrightarrow> (\<exists>body r m. open_log body \<and> evs = body @ [Ev_finish r m, Ev_stream_end])"

lemma channel_sum: "sum_list (map f (filter (\<lambda>p. fst p = i) ms)) = sum_list (map (\<lambda>ev. f (i, ev)) (channel ms i))"
  by (induction ms) (auto simp: channel_def)

lemma finished_log_counts:
  assumes "finished_log evs"
  shows "sum_list (map (\<lambda>ev. ends_of (i, ev)) evs) = 1" and "list_all (\<lambda>ev. no_error (i, ev)) evs"
    and "evs \<noteq> []" and "last evs = Ev_stream_end"
    and "\<exists>d. collect_one_completion_inner completion_data_new (map Some evs) = Some (Inr d)
      \<and> cd_completion_tokens d = sum_list (map (\<lambda>ev. tokens_of (i, ev)) evs)
      \<and> (\<forall>env. reads_as env i (concat (map (event_chunks env i False) evs)) d)"
proof -
  obtain body r m where evs: "evs = body @ [Ev_finish r m, Ev_stream_end]" and body: "open_log body"
    using assms by (auto simp: finished_log_def)
  have b: "sum_list (map (\<lambda>ev. ends_of (i, ev)) body) = 0" "sum_list (map (\<lambda>ev. tokens_of (i, ev)) body) = 0"
      "list_all (\<lambda>ev. no_error (i, ev)) body"
    using body unfolding open_log_def
    by (induction body) (auto simp: ends_of_def tokens_of_def no_error_def body_event_def split: engine_event.splits)
  show "sum_list (map (\<lambda>ev. ends_of (i, ev)) evs) = 1" "list_all (\<lambda>ev. no_error (i, ev)) evs"
      "evs \<noteq> []" "last evs = Ev_stream_end"
    using b by (simp_all add: evs ends_of_def no_error_def)
  let ?d = "absorb (fold (\<lambda>ev d. absorb d ev) body completion_data_new) (Ev_finish r m)"
  have "reads_as env i (concat (map (event_chunks env i False) evs)) ?d" for env :: "'b reply_env"
  proof -
    have "so_far env i ([] @ concat (map (event_chunks env i False) body)) (fold (\<lambda>ev d. absorb d ev) body completion_data_new)"
      by (intro so_far_body so_far_start silent_chunks body)
    from so_far_finish [OF this, of False r m] show ?thesis by (simp add: evs event_chunks_def)
  qed
  moreover have "cd_completion_tokens ?d = sum_list (map (\<lambda>ev. tokens_of (i, ev)) evs)"
    using b(2) by (simp add: evs tokens_of_def)
  ultimately show "\<exists>d. collect_one_completion_inner completion_data_new (map Some evs) = Some (Inr d)
      \<and> cd_completion_tokens d = sum_list (map (\<lambda>ev. tokens_of (i, ev)) evs)
      \<and> (\<forall>env :: 'b reply_env. reads_as env i (concat (map (event_chunks env i False) evs)) d)"
    using collect_finish [OF body, of completion_data_new r m] by (auto simp: evs)
qed

section \<open>How a stream ends\<close>

definition is_chunk :: "'f sse_event \<Rightarrow> bool" where
  "is_chunk e \<longleftrightarrow> (case e of Sse_chunk c \<Rightarrow> True | _ \<Rightarrow> False)"

text \<open>Chunks, then at most one error, then at most one end mark.\<close>

definition stream_shape :: "'f sse_event list \<Rightarrow> bool" where
  "stream_shape out \<longleftrightarrow>
     (\<exists>cs tl. out = cs @ tl \<and> list_all is_chunk cs
        \<and> (tl = [] \<or> tl = [Sse_done] \<or> (\<exists>e. tl = [Sse_error e] \<or> tl = [Sse_error e, Sse_done])))"

definition stream_ok :: "('f, 'z) sse_stream_scheme \<Rightarrow> bool" where
  "stream_ok st \<longleftrightarrow> stream_shape (ss_out st) \<and> (\<not> ss_over st \<longrightarrow> list_all is_chunk (ss_out st))"

text \<open>The client stayed, and has its end mark if the stream is over.\<close>

definition marked :: "('f, 'z) sse_stream_scheme \<Rightarrow> bool" where
  "marked st \<longleftrightarrow> ss_room st = None \<and> (ss_over st \<longrightarrow> (\<exists>cs. ss_out st = cs @ [Sse_done]))"

lemma is_chunk_simps [simp]:
  "is_chunk (Sse_chunk c)" "\<not> is_chunk Sse_done" "\<not> is_chunk (Sse_error e)" "is_chunk (delta_chunk env i d r l)"
  "is_chunk (role_chunk env i)" "is_chunk (token_chunk env i t es)" "is_chunk (reasoning_chunk env i t)"
  "is_chunk (finish_chunk env i s)" "is_chunk (usage_chunk env n)"
  by (simp_all add: is_chunk_def role_chunk_def token_chunk_def reasoning_chunk_def finish_chunk_def usage_chunk_def delta_chunk_def)

lemma stream_shapeI:
  "list_all is_chunk out \<Longrightarrow> stream_shape out" "list_all is_chunk out \<Longrightarrow> stream_shape (out @ [Sse_done])"
  "list_all is_chunk out \<Longrightarrow> stream_shape (out @ [Sse_error e])"
  "list_all is_chunk out \<Longrightarrow> stream_shape (out @ [Sse_error e, Sse_done])"
  unfolding stream_shape_def by blast+

lemma sse_push_out: "ss_out (sse_push st ev) = ss_out st \<or> ss_out (sse_push st ev) = ss_out st @ [ev]"
  by (simp add: sse_push_def split: option.split nat.split)

lemma sse_push_room: "ss_room st = Some 0 \<Longrightarrow> sse_push st ev = st" "ss_over (sse_push st ev) = ss_over st"
  by (simp_all add: sse_push_def split: option.split nat.split)

lemma sse_sends_chunks:
  "list_all is_chunk evs \<Longrightarrow> list_all is_chunk (ss_out st) \<Longrightarrow> list_all is_chunk (ss_out (sse_sends st evs))"
proof (induction evs arbitrary: st)
  case (Cons ev evs)
  have "list_all is_chunk (ss_out (sse_send st ev))"
    using Cons.prems sse_push_out [of st ev] by (auto simp: sse_send_def)
  then show ?case using Cons by (simp add: Let_def)
qed simp

lemma sse_sends_done:
  assumes "list_all is_chunk evs" and "list_all is_chunk (ss_out st)"
  shows "stream_shape (ss_out (sse_sends st (evs @ [Sse_done])))"
  using assms
proof (induction evs arbitrary: st)
  case Nil
  then show ?case using sse_push_out [of st Sse_done] stream_shapeI by (auto simp: sse_send_def Let_def)
next
  case (Cons ev evs)
  have "list_all is_chunk (ss_out (sse_send st ev))"
    using Cons.prems sse_push_out [of st ev] by (auto simp: sse_send_def)
  then show ?case using Cons stream_shapeI(1) by (auto simp: Let_def)
qed

lemma push_error_done:
  assumes "list_all is_chunk (ss_out st)"
  shows "stream_shape (ss_out (sse_push (sse_push st (Sse_error e)) Sse_done))"
proof (cases "ss_room st = Some 0")
  case True
  then show ?thesis using assms stream_shapeI(1) by (simp add: sse_push_room)
next
  case False
  then have "ss_out (sse_push st (Sse_error e)) = ss_out st @ [Sse_error e]"
    by (auto simp: sse_push_def split: option.split nat.split)
  then show ?thesis using sse_push_out [of "sse_push st (Sse_error e)" Sse_done] stream_shapeI [OF assms] by auto
qed

lemma push_mark:
  "ss_room st = None \<Longrightarrow> ss_out (sse_push (sse_push st (Sse_error e)) Sse_done) = (ss_out st @ [Sse_error e]) @ [Sse_done]"
  by (simp add: sse_push_stays)

lemma single_event_ok:
  assumes "stream_ok st" and "\<not> ss_over st"
  shows "stream_ok (single_event env st ev)"
proof -
  have c: "list_all is_chunk (ss_out st)" using assms by (simp add: stream_ok_def)
  show ?thesis
    using sse_sends_chunks [OF _ c] sse_sends_done [OF _ c, of "[]"] push_error_done [OF c] stream_shapeI(1) [OF c] c
    by (cases ev) (simp_all add: single_event_def stream_ok_def stream_shapeI(1) del: sse_sends.simps)
qed

lemma single_loop_ok: "stream_ok st \<Longrightarrow> stream_ok (single_loop env st rs)"
proof (induction rs arbitrary: st)
  case (Cons r rs)
  show ?case
  proof (cases "ss_over st")
    case False
    then have "stream_ok (single_event env st p)" for p using Cons.prems by (rule single_event_ok [rotated])
    moreover have "stream_ok (st\<lparr>ss_over := True\<rparr>)" using Cons.prems by (simp add: stream_ok_def)
    ultimately show ?thesis using False Cons.IH by (simp split: option.split)
  qed (use Cons.prems in simp)
qed simp

lemma merged_event_ok:
  assumes "stream_ok st" and "\<not> ss_over st"
  shows "stream_ok (merged_event env n st p)"
proof -
  have c: "list_all is_chunk (ss_out st)" using assms by (simp add: stream_ok_def)
  have d: "stream_shape (ss_out (sse_sends (st\<lparr>mg_stream_ends := k\<rparr>) (us @ [Sse_done])))" if "list_all is_chunk us" for us k
    by (rule sse_sends_done [OF that]) (simp add: c)
  have f: "list_all is_chunk (ss_out (sse_sends (st\<lparr>mg_completion_tokens := m\<rparr>) [finish_chunk env i r]))" for m i r
    by (rule sse_sends_chunks) (simp_all add: c)
  show ?thesis
    using sse_sends_chunks [OF _ c] d [of "[]"] d [of "[usage_chunk env (mg_completion_tokens st)]"] f
      push_error_done [OF c] stream_shapeI(1) [OF c] c
    by (cases p; cases "snd p") (simp_all add: merged_event_def Let_def stream_ok_def stream_shapeI(1) del: sse_sends.simps)
qed

lemma merged_loop_ok: "stream_ok st \<Longrightarrow> stream_ok (merged_loop env n st rs)"
proof (induction rs arbitrary: st)
  case (Cons r rs)
  show ?case
  proof (cases "ss_over st")
    case False
    then have "stream_ok (merged_event env n st p)" for p using Cons.prems by (rule merged_event_ok [rotated])
    moreover have "stream_ok (st\<lparr>ss_over := True\<rparr>)" using Cons.prems by (simp add: stream_ok_def)
    ultimately show ?thesis using False Cons.IH by (simp split: option.split)
  qed (use Cons.prems in simp)
qed simp

lemma start_ok: "stream_ok (sse_sends st (map (role_chunk env) js))" if "ss_out st = []" for st :: "('f, 'z) sse_stream_scheme"
proof -
  have "list_all is_chunk (ss_out (sse_sends st (map (role_chunk env) js)))"
    by (rule sse_sends_chunks) (simp_all add: that list_all_iff)
  then show ?thesis by (simp add: stream_ok_def stream_shapeI(1))
qed

lemma timeout_ok:
  assumes "\<And>rs. stream_ok (inner rs)"
  shows "stream_shape (ss_out (run_streaming_with_timeout timeout fired inner rs))"
proof -
  have "stream_shape (ss_out (inner rs))" for rs using assms by (simp add: stream_ok_def)
  moreover have "stream_shape (ss_out (sse_push (sse_push (inner rs) (Sse_error e)) Sse_done))" if "\<not> ss_over (inner rs)" for rs e
    using assms [of rs] that by (intro push_error_done) (simp add: stream_ok_def)
  ultimately show ?thesis by (simp add: run_streaming_with_timeout_def Let_def split: option.split)
qed

lemma single_stream_ok: "stream_ok (single_stream env room rs)"
  unfolding single_stream_def using start_ok [of "sse_stream_new room" env "[0]"]
  by (intro single_loop_ok) (simp add: sse_stream_new_def)

lemma merged_stream_ok: "stream_ok (merged_stream env room n rs)"
  unfolding merged_stream_def merged_start_def by (intro merged_loop_ok start_ok) simp

text \<open>Marks: an event that ends the stream of a client who stayed leaves the mark.\<close>

lemma single_event_marked: "marked st \<Longrightarrow> \<not> ss_over st \<Longrightarrow> marked (single_event env st ev)"
  by (cases ev) (simp_all add: single_event_def marked_def sse_sends_stays sse_push_stays del: sse_sends.simps)

lemma single_loop_marked: "marked st \<Longrightarrow> None \<notin> set rs \<Longrightarrow> marked (single_loop env st rs)"
proof (induction rs arbitrary: st)
  case (Cons r rs)
  show ?case
  proof (cases "ss_over st")
    case False
    then have "marked (single_event env st p)" for p using Cons.prems(1) by (rule single_event_marked [rotated])
    then show ?thesis using False Cons.IH Cons.prems(2) by (auto split: option.split)
  qed (use Cons.prems in simp)
qed simp

lemma merged_event_marked: "marked st \<Longrightarrow> \<not> ss_over st \<Longrightarrow> marked (merged_event env n st p)"
  by (cases p; cases "snd p")
    (simp_all add: merged_event_def Let_def marked_def sse_sends_stays sse_push_stays del: sse_sends.simps)

lemma merged_loop_marked: "marked st \<Longrightarrow> None \<notin> set rs \<Longrightarrow> marked (merged_loop env n st rs)"
proof (induction rs arbitrary: st)
  case (Cons r rs)
  show ?case
  proof (cases "ss_over st")
    case False
    then have "marked (merged_event env n st p)" for p using Cons.prems(1) by (rule merged_event_marked [rotated])
    then show ?thesis using False Cons.IH Cons.prems(2) by (auto split: option.split)
  qed (use Cons.prems in simp)
qed simp

lemma single_stream_marked: "None \<notin> set rs \<Longrightarrow> marked (single_stream env None rs)"
  unfolding single_stream_def single_start by (intro single_loop_marked) (simp_all add: marked_def)

lemma merged_stream_marked: "None \<notin> set rs \<Longrightarrow> marked (merged_stream env None n rs)"
  unfolding merged_stream_def merged_start_def
  by (intro merged_loop_marked) (simp_all add: marked_def sse_sends_stays del: sse_sends.simps)

lemma timeout_marked:
  assumes "\<And>rs. None \<notin> set rs \<Longrightarrow> marked (inner rs)" and "None \<notin> set rs"
  shows "\<exists>cs. ss_out (run_streaming_with_timeout (Some t) (Some k) inner rs) = cs @ [Sse_done]"
proof -
  have "None \<notin> set (take k rs)" using assms(2) by (meson in_set_takeD)
  then have "marked (inner (take k rs))" by (rule assms(1))
  then show ?thesis
    unfolding run_streaming_with_timeout_def
    by (cases "ss_over (inner (take k rs))") (simp_all add: Let_def marked_def push_mark)
qed

lemma merged_shape:
  assumes "0 < n" and "\<forall>p \<in> set ms. fst p < n" and "\<forall>i<n. finished_log (channel ms i)"
  obtains ps i where "ms = ps @ [(i, Ev_stream_end)]" "list_all no_error ps" "Suc (sum_list (map ends_of ps)) = n"
proof -
  have "(\<Sum>i<n. sum_list (map ends_of (filter (\<lambda>p. fst p = i) ms))) = (\<Sum>i<n. 1)"
    unfolding channel_sum using assms(3) by (intro sum.cong refl finished_log_counts(1)) simp
  then have total: "sum_list (map ends_of ms) = n" by (simp add: sum_by_channel [OF assms(2), of ends_of])
  have "ms \<noteq> []" using total assms(1) by auto
  then obtain ps i ev where ms: "ms = ps @ [(i, ev)]" by (metis append_butlast_last_id surj_pair)
  have "i < n" using assms(2) ms by simp
  then have "last (channel ms i) = Ev_stream_end" using assms(3) finished_log_counts(4) by blast
  then have ev: "ev = Ev_stream_end" by (simp add: ms channel_def)
  have "no_error p" if "p \<in> set ps" for p
  proof -
    have "fst p < n" using assms(2) ms that by simp
    then have "list_all (\<lambda>ev. no_error (fst p, ev)) (channel ms (fst p))" using assms(3) finished_log_counts(2) by blast
    moreover have "snd p \<in> set (channel ms (fst p))" using that ms by (auto simp: channel_def)
    ultimately show ?thesis by (auto simp: list_all_iff)
  qed
  then show thesis using that [of ps i] ms ev total by (simp add: list_all_iff ends_of_def)
qed

section \<open>Tools\<close>

definition streamed_deltas :: "nat \<Rightarrow> 'f sse_event list \<Rightarrow> tool_call_delta list" where
  "streamed_deltas i out = concat (List.map_filter (\<lambda>c. de_tool_calls (cc_delta c)) (choices_at i out))"

text \<open>The calls a client puts together: those a delta names, with the arguments of their index.\<close>

definition streamed_calls :: "nat \<Rightarrow> 'f sse_event list \<Rightarrow> (u8 list option \<times> u8 list option \<times> u8 list) list" where
  "streamed_calls i out =
     (let ds = streamed_deltas i out
      in map (\<lambda>h. (tcd_id h, tcd_name h, concat (map tcd_arguments (filter (\<lambda>x. tcd_index x = tcd_index h) ds))))
           (filter (\<lambda>x. tcd_id x \<noteq> None) ds))"

lemma choices_at_concat_map: "choices_at i es = concat (map (\<lambda>e. choices_at i [e]) es)"
  by (simp add: choices_at_def)

lemma buffered_other: "j \<noteq> i \<Longrightarrow> choices_at i (buffered_chunks env ids (j, d)) = []"
  unfolding choices_at_concat_map [of i "buffered_chunks env ids (j, d)"]
  by (auto simp: buffered_chunks_def tool_chunks_def role_chunk_def tools_delta_def finish_chunk_def reading split: option.split)

lemma choices_of_buffered:
  "choices_at i (concat (map (buffered_chunks env ids) (enumerate k ds)))
   = (if k \<le> i \<and> i < k + length ds then choices_at i (buffered_chunks env ids (i, ds ! (i - k))) else [])"
proof (induction ds arbitrary: k)
  case (Cons d ds)
  have "choices_at i (buffered_chunks env ids (k, d)) = []" if "i \<noteq> k" using buffered_other [of k i env ids d] that by simp
  then show ?case using Cons [of "Suc k"]
    by (cases "i = k") (auto simp: choices_at_append(2) nth_Cons' not_less_eq_eq)
qed (auto simp: choices_at_append)

lemma arguments_of_index:
  "concat (map tcd_arguments (filter (\<lambda>x. tcd_index x = j)
     (map call_arguments (filter (\<lambda>(j, c). tc_arguments c \<noteq> []) (enumerate k calls)))))
   = (if k \<le> j \<and> j < k + length calls then tc_arguments (calls ! (j - k)) else [])"
proof (induction calls arbitrary: k)
  case (Cons c calls)
  let ?of = "\<lambda>ps. concat (map tcd_arguments (filter (\<lambda>x. tcd_index x = j) (map call_arguments (filter (\<lambda>(j, c). tc_arguments c \<noteq> []) ps))))"
  have "?of (enumerate k (c # calls)) = ?of [(k, c)] @ ?of (enumerate (Suc k) calls)" by simp
  also have "?of [(k, c)] = (if j = k then tc_arguments c else [])" by (simp add: call_arguments_def)
  also note Cons.IH [of "Suc k"]
  also have "(if j = k then tc_arguments c else [])
      @ (if Suc k \<le> j \<and> j < Suc k + length calls then tc_arguments (calls ! (j - Suc k)) else [])
    = (if k \<le> j \<and> j < k + length (c # calls) then tc_arguments ((c # calls) ! (j - k)) else [])"
  proof (cases "k < j")
    case True
    then obtain m where "j = Suc (k + m)" using less_imp_Suc_add by blast
    then show ?thesis by simp
  qed auto
  finally show ?case .
qed auto

lemma headers_no_arguments:
  "concat (map tcd_arguments (filter (\<lambda>x. tcd_index x = j) (map call_header ps))) = []"
proof -
  have none: "tcd_arguments (call_header p) = []" for p by (cases p) (simp add: call_header_def)
  have "set (filter (\<lambda>x. tcd_index x = j) (map call_header ps)) \<subseteq> call_header ` set ps" by (simp add: filter_is_subset)
  then have all: "tcd_arguments x = []" if "x \<in> set (filter (\<lambda>x. tcd_index x = j) (map call_header ps))" for x
    using that none by blast
  show ?thesis unfolding concat_eq_Nil_conv set_map
    by (rule ballI, erule imageE) (simp only: all)
qed

lemma deltas_of_calls:
  assumes "streamed_deltas i out = map call_header (enumerate 0 calls)
      @ map call_arguments (filter (\<lambda>(j, c). tc_arguments c \<noteq> []) (enumerate 0 calls))"
  shows "streamed_calls i out = map (\<lambda>c. (Some (tc_id c), Some (tc_name c), tc_arguments c)) calls"
proof -
  let ?h = "map call_header (enumerate 0 calls)"
  let ?a = "map call_arguments (filter (\<lambda>(j, c). tc_arguments c \<noteq> []) (enumerate 0 calls))"
  have named: "filter (\<lambda>x. tcd_id x \<noteq> None) (?h @ ?a) = ?h"
    by (simp add: filter_empty_conv filter_id_conv call_header_def call_arguments_def split_beta)
  have args: "concat (map tcd_arguments (filter (\<lambda>x. tcd_index x = j) (?h @ ?a)))
      = (if j < length calls then tc_arguments (calls ! j) else [])" for j
    using arguments_of_index [of j 0 calls] headers_no_arguments [of j "enumerate 0 calls"] by simp
  have "streamed_calls i out = map (\<lambda>h. (tcd_id h, tcd_name h, if tcd_index h < length calls then tc_arguments (calls ! tcd_index h) else [])) ?h"
    unfolding streamed_calls_def assms Let_def named args ..
  also have "\<dots> = map (\<lambda>c. (Some (tc_id c), Some (tc_name c), tc_arguments c)) calls"
    by (rule nth_equalityI) (simp_all add: call_header_def nth_enumerate_eq)
  finally show ?thesis .
qed

lemma map_filter_Some: "List.map_filter (\<lambda>x. Some (f x)) xs = map f xs"
  by (simp add: List.map_filter_def)

lemma tool_chunks_read:
  "streamed_deltas i (role_chunk env i # tool_chunks env i calls) = map call_header (enumerate 0 calls)
     @ map call_arguments (filter (\<lambda>(j, c). tc_arguments c \<noteq> []) (enumerate 0 calls))"
  "streamed_content i (role_chunk env i # tool_chunks env i calls) = []"
  "streamed_finish i (role_chunk env i # tool_chunks env i calls) = [''tool_calls'']"
proof -
  let ?args = "filter (\<lambda>(j, c). tc_arguments c \<noteq> []) (enumerate 0 calls)"
  let ?c = "\<lambda>d r. \<lparr>cc_index = i, cc_delta = d, cc_finish_reason = r, cc_logprobs = None\<rparr>"
  have c: "choices_at i (role_chunk env i # tool_chunks env i calls) =
      [?c (no_delta\<lparr>de_role := Some ''assistant''\<rparr>) None]
      @ [?c (no_delta\<lparr>de_tool_calls := Some (map call_header (enumerate 0 calls))\<rparr>) None]
      @ map (\<lambda>p. ?c (no_delta\<lparr>de_tool_calls := Some [call_arguments p]\<rparr>) None) ?args
      @ [?c no_delta (Some ''tool_calls'')]"
    by (simp add: tool_chunks_def choices_at_def role_chunk_def tools_delta_def finish_chunk_def delta_chunk_def
        comp_def concat_map_singleton)
  show "streamed_deltas i (role_chunk env i # tool_chunks env i calls) = map call_header (enumerate 0 calls) @ map call_arguments ?args"
    "streamed_content i (role_chunk env i # tool_chunks env i calls) = []"
    "streamed_finish i (role_chunk env i # tool_chunks env i calls) = [''tool_calls'']"
    unfolding streamed_deltas_def streamed_content_def streamed_finish_def c
    by (simp_all add: List.map_filter_def no_delta_def comp_def concat_map_singleton)
qed

text \<open>The choice of a response, read off a stream of the same reply.  In JSON mode the response carries the
  text without its fences, or withholds it; the stream carries the text as it was generated.\<close>

definition reads_as_choice :: "'n reply_env \<Rightarrow> nat \<Rightarrow> 'f sse_event list \<Rightarrow> 'f choice \<Rightarrow> bool" where
  "reads_as_choice env i out c \<longleftrightarrow>
     ch_index c = i \<and> rm_tool_calls (ch_message c) = None
     \<and> rm_reasoning_content (ch_message c) = (if streamed_reasoning i out = [] then None else Some (streamed_reasoning i out))
     \<and> map_option lg_content (ch_logprobs c) = (if re_wants_logprobs env then Some (streamed_logprobs i out) else None)
     \<and> (if wants_json (re_response_format env) then
          (let raw = strip_json_fences (trim (streamed_content i out)); spec = re_response_format env \<bind> rf_json_schema
           in if schema_fail env spec raw \<and> (spec \<bind> js_strict) = Some True
              then rm_content (ch_message c) = None \<and> ch_finish_reason c = ''content_filter''
              else rm_content (ch_message c) = Some raw \<and> streamed_finish i out = [ch_finish_reason c])
        else rm_content (ch_message c) = Some (streamed_content i out) \<and> streamed_finish i out = [ch_finish_reason c])"

lemma reads_as_response:
  assumes "reads_as env 0 out d" and "\<not> has_tools env"
  shows "\<exists>c. cr_choices (response_of env ids [d]) = [c] \<and> reads_as_choice env 0 out c"
  using assms
  by (auto simp: reads_as_def reads_as_choice_def response_of_def choice_of_def chat_answer_def json_answer_def Let_def
      split: prod.split)

lemma single_stream_reads:
  fixes env :: "'n reply_env" and body :: "'f engine_event list" and r :: string and n :: nat
  assumes "open_log body"
  defines "d \<equiv> absorb (fold (\<lambda>ev d. absorb d ev) body completion_data_new) (Ev_finish r n)"
    and "out \<equiv> ss_out (single_stream env None (map Some (body @ [Ev_finish r n, Ev_stream_end])))"
  shows "reads_as env 0 out d"
    and "\<exists>cs. out = cs @ (if re_include_usage env then [usage_chunk env (cd_completion_tokens d)] else []) @ [Sse_done] \<and> list_all is_chunk cs"
proof -
  let ?u = "re_include_usage env" and ?d = "fold (\<lambda>ev d. absorb d ev) body completion_data_new"
  let ?cs = "role_chunk env 0 # concat (map (event_chunks env 0 ?u) body)"
  let ?fin = "event_chunks env 0 ?u (Ev_finish r n :: 'f engine_event)"
  have out: "out = ?cs @ ?fin @ [Sse_done]"
    using single_stream_finish [OF assms(1), of env r n] by (simp add: out_def)
  have "so_far env 0 ([role_chunk env 0] @ concat (map (event_chunks env 0 ?u) body)) ?d"
    by (intro so_far_body so_far_start silent_chunks assms(1))
  then have so: "so_far env 0 ?cs ?d" by simp
  have "reads_as env 0 ([] @ (?cs @ ?fin) @ [Sse_done]) d"
    unfolding d_def by (intro reads_silent silent_chunks so_far_finish so)
  then show "reads_as env 0 out d" unfolding out by (simp only: append_Nil append_assoc)
  have "list_all is_chunk (concat (map (event_chunks env 0 ?u) body))"
    by (induction body) (auto simp: event_chunks_def split: engine_event.split)
  then have "list_all is_chunk (?cs @ [finish_chunk env 0 r])" by simp
  moreover have "?fin = [finish_chunk env 0 r] @ (if ?u then [usage_chunk env (cd_completion_tokens d)] else [])"
    by (simp add: event_chunks_def d_def)
  then have "out = (?cs @ [finish_chunk env 0 r]) @ (if ?u then [usage_chunk env (cd_completion_tokens d)] else []) @ [Sse_done]"
    unfolding out by (simp only: append_assoc)
  ultimately show "\<exists>cs. out = cs @ (if ?u then [usage_chunk env (cd_completion_tokens d)] else []) @ [Sse_done] \<and> list_all is_chunk cs"
    by blast
qed



lemma buffered_are_chunks: "list_all is_chunk (concat (map (buffered_chunks env ids) ps))"
proof (induction ps)
  case (Cons p ps)
  have "list_all is_chunk (buffered_chunks env ids p)"
    by (cases p) (auto simp: buffered_chunks_def tool_chunks_def tools_delta_def list_all_iff split: option.split)
  then show ?case using Cons by simp
qed simp

lemma tools_stream_shape: "stream_shape (ss_out (tools_stream env ids room collected))"
proof (cases collected)
  case (Inl e)
  then show ?thesis using push_error_done [of "sse_stream_new room" e] by (simp add: tools_stream_def sse_stream_new_def)
next
  case (Inr ds)
  let ?evs = "concat (map (buffered_chunks env ids) (enumerate 0 ds))
      @ (if re_include_usage env then [usage_chunk env (sum_list (map cd_completion_tokens ds))] else [])"
  let ?st = "sse_sends (sse_stream_new room) ?evs"
  have c: "list_all is_chunk (ss_out ?st)"
    by (rule sse_sends_chunks) (simp_all add: buffered_are_chunks sse_stream_new_def)
  have a: "stream_shape (ss_out ?st)" by (rule stream_shapeI(1) [OF c])
  have over: "ss_out (st\<lparr>ss_over := True\<rparr>) = ss_out st" for st :: "'c sse_stream" by simp
  have b: "stream_shape (ss_out (sse_push ?st Sse_done))"
    using sse_push_out [of ?st Sse_done] by (rule disjE) (simp_all only: stream_shapeI(1,2) [OF c])
  have "tools_stream env ids room collected = (if ss_over ?st then ?st else (sse_push ?st Sse_done)\<lparr>ss_over := True\<rparr>)"
    by (simp only: Inr tools_stream_def sum.case Let_def)
  then show ?thesis
    by (cases "ss_over ?st") (simp_all only: if_True if_False a b over)
qed

lemma tools_stream_mark: "\<exists>cs. ss_out (tools_stream env ids None collected) = cs @ [Sse_done]"
  by (cases collected)
    (simp_all add: tools_stream_def Let_def sse_stream_new_def sse_sends_stays sse_push_stays del: sse_sends.simps)

text \<open>C39. Every stream, of one sequence, of several, or of a request with tools, is chunks, then at most
  one error, then at most one end mark and nothing after it, whatever the events, the moment the
  client leaves and the moment a timer fires.  A client that stays always gets the end mark: when the
  timer fires while the engine is still there, if not before; with tools, however the collecting of
  the completions came out.\<close>

theorem every_stream_ends_once:
  shows "stream_shape (ss_out (run_streaming_with_timeout timeout fired (single_stream env room) rs))
    \<and> stream_shape (ss_out (run_streaming_with_timeout timeout fired (merged_stream env room n) ms))
    \<and> stream_shape (ss_out (tools_stream env ids room (collect_all_completions js)))
    \<and> (None \<notin> set rs \<longrightarrow>
         (\<exists>cs. ss_out (run_streaming_with_timeout (Some t) (Some k) (single_stream env None) rs) = cs @ [Sse_done]))
    \<and> (None \<notin> set ms \<longrightarrow>
         (\<exists>cs. ss_out (run_streaming_with_timeout (Some t) (Some k) (merged_stream env None n) ms) = cs @ [Sse_done]))
    \<and> (\<exists>cs. ss_out (tools_stream env ids None (collect_all_completions js)) = cs @ [Sse_done])"
  by (intro conjI impI timeout_ok timeout_marked single_stream_ok merged_stream_ok single_stream_marked merged_stream_marked
      tools_stream_shape tools_stream_mark)

text \<open>What the events of a reply say, whoever reads them.\<close>

definition said :: "'f engine_event list \<Rightarrow> u8 list" where
  "said evs = concat (map (\<lambda>ev. case ev of Ev_token t es \<Rightarrow> t | _ \<Rightarrow> []) evs)"

definition thoughts :: "'f engine_event list \<Rightarrow> u8 list list" where
  "thoughts evs = concat (map (\<lambda>ev. case ev of Ev_reasoning t \<Rightarrow> [t] | _ \<Rightarrow> []) evs)"

definition said_logprobs :: "'f engine_event list \<Rightarrow> 'f logprob_entry list" where
  "said_logprobs evs = concat (map (\<lambda>ev. case ev of Ev_token t es \<Rightarrow> es | _ \<Rightarrow> []) evs)"

definition completion_of :: "'f engine_event list \<Rightarrow> string \<Rightarrow> nat \<Rightarrow> 'f completion_data" where
  "completion_of body r n =
     \<lparr>cd_content = said body, cd_reasoning_content = concat (thoughts body), cd_reasoning_tokens = length (thoughts body),
      cd_finish_reason = r, cd_completion_tokens = n, cd_logprob_entries = said_logprobs body\<rparr>"

lemma absorb_body:
  "open_log body \<Longrightarrow> fold (\<lambda>ev d. absorb d ev) body d =
     d\<lparr>cd_content := cd_content d @ said body, cd_reasoning_content := cd_reasoning_content d @ concat (thoughts body),
       cd_reasoning_tokens := cd_reasoning_tokens d + length (thoughts body),
       cd_logprob_entries := cd_logprob_entries d @ said_logprobs body\<rparr>"
proof (induction body arbitrary: d)
  case Nil
  show ?case by (cases d) (simp add: said_def thoughts_def said_logprobs_def)
next
  case (Cons ev body)
  then have "open_log body" "body_event ev" by (simp_all add: event_simps)
  then show ?case using Cons.IH [of "absorb d ev"]
    by (cases ev) (simp_all add: said_def thoughts_def said_logprobs_def event_simps)
qed

lemma collected_completion:
  "open_log body \<Longrightarrow>
   absorb (fold (\<lambda>ev d. absorb d ev) body completion_data_new) (Ev_finish r n) = completion_of body r n"
  by (simp add: absorb_body completion_of_def completion_data_new_def)

text \<open>C40. From the engine loop to the client: at any moment of any run, a request whose reply is over and
  whose client stayed is answered with all the loop sent it.  Either its events are a body and a
  finish: it is collected as the texts, thoughts and log-probabilities of the body, with the reason
  and the count of the finish, and its stream reads back as the same and ends with the end mark.  Or
  they are a body and an error: it is collected as that error, and its stream ends with it and the
  end mark.\<close>

theorem replies_arrive:
  assumes "fresh_engine g" and "distinct (concat (map arrivals inps))"
    and "loop_run L E ops hash False (loop_start g c) inps = Some out" and "\<not> stopped_run out"
    and "ch \<in> set (concat (map arrivals inps))" and "ch \<notin> set (queued (outcome_state out))"
    and "ch \<notin> set (txs_of (l_trackers (outcome_state out)))" and "ch \<notin> w_closed (l_wire (outcome_state out))"
  shows "let evs = w_log (l_wire (outcome_state out)) ch; sent = ss_out (single_stream env None (map Some evs));
      collected = collect_one_completion_inner completion_data_new (map Some evs)
    in (\<exists>body r n. evs = body @ [Ev_finish r n, Ev_stream_end] \<and> open_log body
          \<and> collected = Some (Inr (completion_of body r n)) \<and> reads_as env 0 sent (completion_of body r n)
          \<and> (\<exists>cs. sent = cs @ [Sse_done]))
       \<or> (\<exists>body e cs. evs = body @ [Ev_error e, Ev_stream_end] \<and> open_log body
          \<and> collected = Some (Inl (Engine_failed e)) \<and> sent = cs @ [Sse_error (Engine_failed e), Sse_done])"
proof -
  obtain T where T: "loop_inv T (outcome_state out)" "T \<union> set (queued (outcome_state out)) = set (concat (map arrivals inps))"
    using loop_run_start [OF assms(1-4)] by blast
  then have "wire_ok T (l_trackers (outcome_state out)) (l_wire (outcome_state out))"
    by (simp add: loop_inv_def loop_ok_def)
  then have "ended_log (w_log (l_wire (outcome_state out)) ch)" using wire_okD(5) assms(5-8) T(2) by blast
  then show ?thesis
  proof (cases rule: ended_log_cases)
    case (finish body r n)
    note c = collected_completion [OF finish(2), of r n]
    have "\<exists>cs. ss_out (single_stream env None (map Some (body @ [Ev_finish r n, Ev_stream_end]))) = cs @ [Sse_done]"
      using single_stream_finish [OF finish(2), of env r n] by simp
    then show ?thesis
      unfolding Let_def finish(1)
      using collect_finish [OF finish(2), of completion_data_new r n] single_stream_reads(1) [OF finish(2), of env r n] finish(2)
      unfolding c by blast
  next
    case (failed body e)
    then show ?thesis
      unfolding Let_def failed(1)
      using single_stream_error [of body env e "[Ev_stream_end]"] collect_error [of body completion_data_new e "[Ev_stream_end]"]
      by (intro disjI2 exI [of _ body] exI [of _ e]
          exI [of _ "role_chunk env 0 # concat (map (event_chunks env 0 (re_include_usage env)) body)"]) simp
  qed
qed

text \<open>
  A reply whose sender went away without an ending, as when the engine thread panics, is reported
  as complete, with the reason \<open>stop\<close> and no tokens; its stream just stops.
\<close>

lemma dead_sender_reported_complete:
  assumes "open_log body"
  shows "\<exists>d. collect_one_completion_inner completion_data_new (map Some body @ [None]) = Some (Inr d)
      \<and> cd_finish_reason d = ''stop'' \<and> cd_completion_tokens d = 0"
    and "Sse_done \<notin> set (ss_out (single_stream env None (map Some body @ [None])))"
proof -
  let ?d = "fold (\<lambda>ev d. absorb d ev) body completion_data_new"
  have keep: "cd_finish_reason (fold (\<lambda>ev d. absorb d ev) body d) = cd_finish_reason d
      \<and> cd_completion_tokens (fold (\<lambda>ev d. absorb d ev) body d) = cd_completion_tokens d" for d
    using assms
  proof (induction body arbitrary: d)
    case (Cons ev body)
    then show ?case by (cases ev) (auto simp: event_simps)
  qed simp
  show "\<exists>d. collect_one_completion_inner completion_data_new (map Some body @ [None]) = Some (Inr d)
      \<and> cd_finish_reason d = ''stop'' \<and> cd_completion_tokens d = 0"
    using collect_going_on [OF open_log_going_on [OF assms], of completion_data_new "[None]"] keep [of completion_data_new]
    by (simp add: completion_data_new_def)
  have "list_all is_chunk (concat (map (event_chunks env 0 (re_include_usage env)) body))"
    by (induction body) (auto simp: event_chunks_def split: engine_event.split)
  then have "Sse_done \<notin> set (concat (map (event_chunks env 0 (re_include_usage env)) body))"
    by (metis is_chunk_simps(2) list_all_iff)
  then show "Sse_done \<notin> set (ss_out (single_stream env None (map Some body @ [None])))"
    unfolding single_stream_def single_start
    by (subst single_loop_going_on [OF open_log_going_on [OF assms]])
      (simp_all add: role_chunk_def delta_chunk_def del: set_concat)
qed

text \<open>C38. With tools, the stream and the response say the same: each choice of the stream has the reason
  of the response's, and either the very calls of its message, put together from their deltas, and
  no text, or its text and no calls.\<close>

theorem tool_stream_reads_as_response:
  assumes "has_tools env" and "i < length ds" and "chat_answer env (ids i) (ds ! i) = (m, reason)"
  shows "let out = ss_out (tools_stream env ids None (Inr ds)) in
    streamed_finish i out = [reason]
    \<and> (case rm_tool_calls m of
         Some calls \<Rightarrow> streamed_calls i out = map (\<lambda>c. (Some (tc_id c), Some (tc_name c), tc_arguments c)) calls
           \<and> streamed_content i out = []
       | None \<Rightarrow> streamed_calls i out = [] \<and> rm_content m = Some (streamed_content i out))"
proof -
  let ?b = "buffered_chunks env ids (i, ds ! i)" and ?out = "ss_out (tools_stream env ids None (Inr ds))"
  have "choices_at i ?out = choices_at i ?b"
    using choices_of_buffered [of i env ids 0 ds] assms(2)
    by (simp add: tools_stream_def Let_def sse_stream_new_def sse_sends_stays sse_push_stays reading del: sse_sends.simps)
  then have same: "streamed_finish i ?out = streamed_finish i ?b" "streamed_content i ?out = streamed_content i ?b"
      "streamed_deltas i ?out = streamed_deltas i ?b" "streamed_calls i ?out = streamed_calls i ?b"
    by (simp_all add: streamed_defs streamed_deltas_def streamed_calls_def)
  show ?thesis
  proof (cases "try_parse_tool_calls (re_serde env) (re_tools env) (ids i) (strip_json_fences (trim (cd_content (ds ! i))))")
    case None
    have "streamed_finish i ?b = [cd_finish_reason (ds ! i)]" "streamed_content i ?b = cd_content (ds ! i)" "streamed_deltas i ?b = []"
      using None by (auto simp: buffered_chunks_def streamed_defs streamed_deltas_def reading role_chunk_def finish_chunk_def
          no_delta_def List.map_filter_def)
    then show ?thesis using assms(1,3) None unfolding Let_def same
      by (auto simp: chat_answer_def Let_def streamed_calls_def)
  next
    case (Some calls)
    then have b: "?b = role_chunk env i # tool_chunks env i calls" by (simp add: buffered_chunks_def)
    have "reason = ''tool_calls''" "rm_tool_calls m = Some calls" using assms(1,3) Some by (auto simp: chat_answer_def Let_def)
    then show ?thesis unfolding Let_def same b by (simp add: deltas_of_calls [OF tool_chunks_read(1)] tool_chunks_read(2,3))
  qed
qed

text \<open>With a strict schema a response carries only content that validates: it parses and matches the
  schema, or it is withheld with the reason \<open>content_filter\<close>.\<close>

theorem strict_replies_validate:
  assumes "\<not> has_tools env" and "re_response_format env = Some rf" and "rf_format_type rf = bytes ''json_schema''"
    and "rf_json_schema rf = Some spec" and "js_schema spec = Some schema" and "js_strict spec = Some True"
    and "chat_answer env k d = (m, reason)"
  shows "case rm_content m of
      Some content \<Rightarrow> \<exists>v. sd_from_str (re_serde env) content = Some v
        \<and> validate_against_schema (re_pointer env) (re_is_int env) v schema
    | None \<Rightarrow> reason = ''content_filter''"
  using assms
  by (auto simp: chat_answer_def Let_def wants_json_def json_answer_def schema_fail_def split: if_splits option.splits)

text \<open>Whatever the order in which the completions of a request finish, they are answered in the order
  they were asked for.\<close>

theorem completions_in_request_order:
  assumes "mset js = mset (map (\<lambda>(i, d). Some (i, Inr d)) (enumerate 0 ds))"
  shows "collect_all_completions js = Inr ds"
proof -
  have ok: "\<forall>j \<in> set js. \<exists>i d. j = Some (i, Inr d)"
    using mset_eq_setD [OF assms] by auto
  have "\<exists>ps. js = map (\<lambda>(i, d). Some (i, Inr d)) ps \<and> join_all js = Inr ps"
    using ok
  proof (induction js)
    case (Cons j js)
    then obtain ps i d where "js = map (\<lambda>(i, d). Some (i, Inr d)) ps" "join_all js = Inr ps" "j = Some (i, Inr d)" by auto
    then show ?case by (intro exI [of _ "(i, d) # ps"]) simp
  qed simp
  then obtain ps where ps: "js = map (\<lambda>(i, d). Some (i, Inr d)) ps" "join_all js = Inr ps" by blast
  have inj: "inj (\<lambda>(i :: nat, d). Some (i, Inr d :: reply_error + 'a))" by (auto simp: inj_def)
  have "image_mset (\<lambda>(i, d). Some (i, Inr d :: reply_error + 'a)) (mset ps)
      = image_mset (\<lambda>(i, d). Some (i, Inr d)) (mset (enumerate 0 ds))"
    using assms ps(1) by simp
  then have same: "mset ps = mset (enumerate 0 ds)"
    by (rule injD [OF multiset.inj_map [OF inj]])
  have "inj_on fst (set ps)"
    unfolding mset_eq_setD [OF same] by (auto simp: inj_on_def in_set_enumerate_eq)
  then have "sort_key fst ps = enumerate 0 ds" by (rule sort_key_inj_key_eq [OF same]) simp
  then show ?thesis by (simp add: collect_all_completions_def ps(2))
qed

section \<open>Instances\<close>

text \<open>A serde whose only value is null.\<close>

definition null_serde :: "nat serde" where
  "null_serde = \<lparr>sd_from_str = (\<lambda>_. Some JNull), sd_first = (\<lambda>_. None), sd_to_string = (\<lambda>_. bytes ''null'')\<rparr>"

definition null_spec :: "nat json_schema_spec" where
  "null_spec = \<lparr>js_name = [], js_schema = Some (JObj [(bytes ''type'', JStr (bytes ''null''))]), js_strict = Some True,
     js_description = None\<rparr>"

definition null_format :: "nat response_format" where
  "null_format = \<lparr>rf_format_type = bytes ''json_schema'', rf_json_schema = Some null_spec\<rparr>"

definition demo_reply :: "nat tool_definition list \<Rightarrow> nat reply_env" where
  "demo_reply tools =
     \<lparr>re_head = \<lparr>rh_id = [], rh_created = 0, rh_model = [], rh_fingerprint = []\<rparr>, re_wants_logprobs = False,
      re_req_top_n = 0, re_include_usage = True, re_prompt_len = 3,
      re_tools = \<lparr>cfg_tools = tools, cfg_choice = Choice_auto, cfg_parallel = True\<rparr>,
      re_response_format = Some null_format, re_serde = null_serde, re_pointer = (\<lambda>_ _. None), re_is_int = (\<lambda>_. True)\<rparr>"

definition demo_events :: "unit engine_event list" where
  "demo_events = [Ev_reasoning [65], Ev_token [66] [], Ev_finish ''stop'' 2, Ev_stream_end]"

definition demo_merged :: "(nat \<times> unit engine_event) list" where
  "demo_merged =
     [(1, Ev_token [66] []), (0, Ev_token [65] []), (1, Ev_finish ''stop'' 2), (0, Ev_token [67] []), (1, Ev_stream_end),
      (0, Ev_finish ''length'' 3), (0, Ev_stream_end)]"

definition demo_data :: "u8 list \<Rightarrow> unit completion_data" where
  "demo_data t = completion_data_new\<lparr>cd_content := t, cd_completion_tokens := 1\<rparr>"



lemma every_stream_ends_once_witness:
  "\<exists>cs. ss_out (run_streaming_with_timeout (Some 60) (Some 1) (single_stream (demo_reply []) None) (map Some demo_events))
     = cs @ [Sse_done]"
  using every_stream_ends_once [of None None "demo_reply []" None "map Some demo_events" 2 "map Some demo_merged" "\<lambda>i. i" "[]" 60 1]
  by (auto simp: demo_events_def)

lemma demo_channels:
  "case demo_run demo_inputs of Some (Looping s) \<Rightarrow> queued s = [] \<and> txs_of (l_trackers s) = [] \<and> w_closed (l_wire s) = {}
   | _ \<Rightarrow> False"
  by code_simp

lemma demo_log_split:
  "[Ev_token [65] [], Ev_token [65] [], Ev_finish ''length'' 2, Ev_stream_end] = body @ [Ev_finish r n, Ev_stream_end]
   \<longleftrightarrow> body = [Ev_token [65] [], Ev_token [65] []] \<and> r = ''length'' \<and> n = 2"
  "[Ev_token [65] [], Ev_token [65] [], Ev_finish ''length'' 2, Ev_stream_end] \<noteq> body @ [Ev_error e, Ev_stream_end]"
  using append_eq_append_conv [of "[Ev_token [65] [], Ev_token [65] []]" body "[Ev_finish ''length'' 2, Ev_stream_end]" "[Ev_finish r n, Ev_stream_end]"]
    append_eq_append_conv [of "[Ev_token [65] [], Ev_token [65] []]" body "[Ev_finish ''length'' 2, Ev_stream_end]" "[Ev_error e, Ev_stream_end]"]
  by auto

lemma replies_arrive_witness:
  "case demo_run demo_inputs of None \<Rightarrow> False
   | Some out \<Rightarrow>
       (let evs = w_log (l_wire (outcome_state out)) 5; sent = ss_out (single_stream (demo_reply []) None (map Some evs));
          d = completion_of [Ev_token [65] [], Ev_token [65] []] ''length'' 2
        in collect_one_completion_inner completion_data_new (map Some evs) = Some (Inr d) \<and> cd_content d = [65, 65]
          \<and> reads_as (demo_reply []) 0 sent d \<and> (\<exists>cs. sent = cs @ [Sse_done]))"
proof -
  obtain out where out: "demo_run demo_inputs = Some out" "\<not> stopped_run out"
      and log: "w_log (l_wire (outcome_state out)) 5 = [Ev_token [65] [], Ev_token [65] [], Ev_finish ''length'' 2, Ev_stream_end]"
    using demo_logs by (auto split: option.splits)
  have ch: "5 \<notin> set (queued (outcome_state out))" "5 \<notin> set (txs_of (l_trackers (outcome_state out)))"
      "5 \<notin> w_closed (l_wire (outcome_state out))"
    using demo_channels out(1) by (auto split: loop_outcome.splits)
  have "5 \<in> set (concat (map arrivals demo_inputs))" unfolding demo_distinct(3) by simp
  note r = replies_arrive [OF demo_fresh demo_distinct(2) out(1) [unfolded demo_run_def] out(2) this ch, of "demo_reply []",
      unfolded Let_def log demo_log_split]
  have said: "cd_content (completion_of [Ev_token [65] [], Ev_token [65] []] ''length'' 2) = [65, 65]"
    by (simp add: completion_of_def said_def)
  show ?thesis unfolding out(1) option.case Let_def log using r said by (elim disjE exE conjE) simp_all
qed

lemma tool_stream_reads_as_response_witness:
  "streamed_content 1 (ss_out (tools_stream (demo_reply weather_tools) (\<lambda>i. i) None (Inr [demo_data [65], demo_data [66]]))) = [66]"
proof -
  let ?env = "demo_reply weather_tools"
  have tools: "has_tools ?env" by (simp add: has_tools_def demo_reply_def weather_tools_def)
  have "try_parse_tool_calls null_serde \<lparr>cfg_tools = weather_tools, cfg_choice = Choice_auto, cfg_parallel = True\<rparr> 1
      (strip_json_fences (trim [66])) = None" by code_simp
  then have a: "chat_answer ?env 1 ([demo_data [65], demo_data [66]] ! 1)
      = (\<lparr>rm_role = ''assistant'', rm_content = Some [66], rm_reasoning_content = None, rm_tool_calls = None\<rparr>, ''stop'')"
    using tools by (simp add: chat_answer_def Let_def demo_data_def completion_data_new_def) (simp add: demo_reply_def)
  show ?thesis using tool_stream_reads_as_response [of ?env 1 "[demo_data [65], demo_data [66]]" "\<lambda>i. i"] tools a by (simp add: Let_def)
qed

lemma strict_replies_validate_witness:
  "\<exists>m reason. chat_answer (demo_reply []) 0 (demo_data (bytes ''null'')) = (m, reason)
     \<and> (case rm_content m of
          Some content \<Rightarrow> \<exists>v. sd_from_str null_serde content = Some v
            \<and> validate_against_schema (\<lambda>_ _. None) (\<lambda>_. True) v (JObj [(bytes ''type'', JStr (bytes ''null''))])
        | None \<Rightarrow> reason = ''content_filter'')"
proof -
  let ?env = "demo_reply []"
  obtain m reason where a: "chat_answer ?env 0 (demo_data (bytes ''null'')) = (m, reason)" by fastforce
  have env: "\<not> has_tools ?env" "re_response_format ?env = Some null_format" "rf_format_type null_format = bytes ''json_schema''"
      "rf_json_schema null_format = Some null_spec" "js_schema null_spec = Some (JObj [(bytes ''type'', JStr (bytes ''null''))])"
      "js_strict null_spec = Some True" "re_serde ?env = null_serde" "re_pointer ?env = (\<lambda>_ _. None)" "re_is_int ?env = (\<lambda>_. True)"
    by (simp_all add: has_tools_def demo_reply_def null_format_def null_spec_def)
  from strict_replies_validate [OF env(1-6) a] show ?thesis using a unfolding env(7-9) by blast
qed

lemma completions_in_request_order_witness:
  "collect_all_completions [Some (1, Inr (demo_data [66])), Some (0, Inr (demo_data [65]))] = Inr [demo_data [65], demo_data [66]]"
  by (rule completions_in_request_order) simp

end
