(* ===== verification/Spec2Isabelle.thy ===== *)
theory Spec2Isabelle
  imports Scheduler_Props Memory_Props Prefix_Props Cache_View_Props Prefix_Restore Speculation_Props Engine_Rows Json_Props
    Constraint_Props Stop_Scan Incremental_Decode Loop_Streams Gguf_Header Manager_Props Schema_Props Tool_Props Reply_Props
begin

text \<open>
  A verification development of oxydllm, a server for large language models written in Rust.

  The program.  A chat request (\<open>src/server/routes/chat.rs\<close>) is checked and asks the model
  manager (\<open>src/models/manager.rs\<close>) for its model, which is loaded on demand, its pool of
  key/value blocks sized against a byte budget all models share (\<open>src/models/loader.rs\<close>).  Each
  loaded model has a thread that runs the engine loop (\<open>src/server/routes/engine_loop.rs\<close>):
  requests in, events out.  At every turn the engine (\<open>src/engine.rs\<close>) asks the scheduler
  (\<open>src/scheduler\<close>) which sequences run, cuts them into forwards, samples, and may speculate
  with a draft model.  A running sequence keeps the keys and values of its tokens in a paged cache
  per layer, whose blocks come from the layer's pool (\<open>src/common/paged.rs\<close>); blocks of shared
  prompt prefixes live on in the prefix cache (\<open>src/common/prefix_cache.rs\<close>), which gives them
  back under pressure.  A request for JSON carries a grammar constraint (\<open>src/constrain.rs\<close>) that
  says which tokens may be sampled next.  The loop decodes tokens to text and cuts it at stop
  strings; the chat route makes a response or a stream of it, reading tool calls back and
  checking schemas.

  Theories, in the order they build on each other.
  \<^item> \<open>Prelude\<close>: the machine types, the standard library operations the source uses, errors.
  \<^item> \<open>Contig_Pool\<close>, \<open>Block_Allocator\<close>, \<open>Paged_Cache\<close>, \<open>Pool_Storage\<close>, \<open>Cache_Append\<close>,
    \<open>Cache_Table\<close>, \<open>Cache_Props\<close>, \<open>Cache_View\<close>, \<open>Pool_Read\<close>, \<open>Cache_Gather\<close>,
    \<open>Cache_View_Props\<close>, \<open>Prefix_Restore\<close>: the memory of a layer, in \<open>src/common/paged.rs\<close>.  The retired contiguous buffers and the byte budget they share
    (\<open>ContigBudget\<close>, \<open>ContigBufferPool\<close>), the reference-counted blocks (\<open>BlockAllocator\<close>)
    with the locale \<open>ref_pool\<close> as their contract, the storage of a pool, and the cache of a
    sequence (\<open>PagedKvCache\<close>): appending, rolling back, and the view attention reads, from its own buffer or, after a hit in
    the prefix cache, gathered from the slots of shared blocks (\<open>Pool_Read\<close>, \<open>Cache_Gather\<close>;
    \<open>Prefix_Restore\<close> is the restoring done by \<open>src/engine.rs\<close>).
  \<^item> \<open>Lru\<close>, \<open>Prefix_Cache\<close>: the laws of the \<open>lru\<close> crate's map (a locale, interpreted on a
    list), and \<open>PrefixCache\<close> over any map that keeps them (a locale that extends it).
  \<^item> \<open>Scheduler\<close>, \<open>Scheduler_Inv\<close>, \<open>Scheduler_Step\<close>, \<open>Scheduler_Ops\<close>: the scheduler's
    state and operations, its invariant, what one step does, what the other operations do.
  \<^item> \<open>Json_Machine\<close>, \<open>Json_Grammar\<close>, \<open>Json_Soundness\<close>: the JSON automaton, the grammar of
    RFC 8259 it is held against, and the invariant that relates them.  \<open>Json_Schema\<close>,
    \<open>Json_Schema_Inv\<close>, \<open>Json_Guide\<close>, \<open>Json_Guide_Inv\<close>, \<open>Token_Table\<close>: the schema compiler
    (\<open>SchemaArena\<close>), the guidance and the constraint of a sequence (\<open>GuideState\<close>,
    \<open>JsonConstraint\<close>), and the bytes of the vocabulary (\<open>TokenByteTable\<close>).
  \<^item> \<open>Chunk_Planner\<close>, \<open>Engine\<close>, \<open>Engine_Forward\<close>, \<open>Engine_Rows\<close>, \<open>Engine_Step\<close>,
    \<open>Engine_Ids\<close>, \<open>Speculation_Props\<close>: the engine of \<open>src/engine.rs\<close>.  How a batch is cut into
    forwards, the pass that runs them, sampling, the speculative cycle, and which sequences an
    engine has.
  \<^item> \<open>Utf8\<close>, \<open>Incremental_Decode\<close>, \<open>Stop_Scan\<close>, \<open>Engine_Loop\<close>, \<open>Loop_Streams\<close>: text.
    \<open>src/common/incremental_decode.rs\<close>, \<open>src/server/routes/stop_scan.rs\<close>, and the loop of a
    model's thread with the response channel of each request.
  \<^item> \<open>Kv_Budget\<close>, \<open>Model_Manager\<close>, \<open>Manager_Steps\<close>, \<open>Manager_Props\<close>: the shared budget and
    the sizing of a pool, the slots of the models, and the system of requests, loads and
    evictions in any interleaving (a step relation with its reachable states).  The locale
    \<open>budget_loader\<close> is what a load promises about the budget; it is interpreted on the load of a
    target model.
  \<^item> \<open>Chat_Schema\<close>, \<open>Schema_Props\<close>, \<open>Tool_Calls\<close>, \<open>Tool_Props\<close>, \<open>Chat_Reply\<close>,
    \<open>Reply_Props\<close>: the chat route.  The schemas a request may bring and whether a reply matches
    one (\<open>validate_schema_shape\<close>, \<open>validate_against_schema\<close>), the tools it may ask for and the
    calls read from a reply (\<open>build_tool_config\<close>, \<open>try_parse_tool_calls\<close>), and the answers: the
    collected response, the stream of one sequence, of several, and of buffered tool calls.
  \<^item> \<open>Gguf_Header\<close>: the header reader of \<open>src/common/gguf_header.rs\<close>.
  \<^item> \<open>Memory_Props\<close>, \<open>Prefix_Props\<close>, \<open>Scheduler_Props\<close>, \<open>Json_Props\<close>, \<open>Constraint_Props\<close>:
    the properties of the first components; the other components end with theirs.

  What the properties show.  Memory: blocks are conserved, each table references exactly the
  blocks its tokens need, a view is the tail of its sequence, also over blocks restored from the
  prefix cache, a step of the scheduler keeps all of it and returns, admits in order and puts what
  it preempts back in front.  Decoding: what the automaton takes is JSON and can always be completed, a
  constraint never panics, chunked forwards compute the rows of whole ones or fail, the
  speculative cycle what plain decoding does, streamed text is the text.  Serving: one ending per request in
  every run of the loop, one load per model and bytes within the budget in every reachable state
  of the manager, loads that end; schemas accepted exactly when well formed, tool calls within
  what the request allows and read back as written; streams that read as the response (in JSON
  mode before the response is stripped of fences or withheld), do not mix, and end once, and replies
  that arrive whole.  Some theorems show what the code does wrong; PROJECT.json lists them as
  findings, with the places.

  Conventions.  A machine integer is a word where its bits or its wrap-around matter and a natural
  number where the source only counts; arithmetic on words wraps as in a release build (the
  \<open>u16\<close> position of \<open>content_byte\<close> in a key or literal of 65536 bytes, where a debug build would
  panic); the subtractions the source writes with
  \<open>saturating_sub\<close> are those of the naturals.  A panic or a failed debug assertion is
  \<open>None\<close>, an error of a \<open>Result\<close> is \<open>Inl\<close>.  Text is its UTF-8 bytes, or characters where the
  source only compares it.  Shared objects (\<open>Arc<Mutex<_>>\<close>) are passed as state: the allocators
  as a list by layer, the byte budgets as a store by address.  A channel is the list of what goes
  through it, with the set of channels whose receiver is gone: clients leave before an iteration of
  the engine loop or while its step runs, and the sends after the step fail for those; in the chat route a client that
  leaves is the number of sends that still succeed, a timer the number of receives before it
  fires.

  Bounds and termination.  The eviction loops of a scheduling step are
  \<open>partial_function (option)\<close>s, and \<open>schedule_safe\<close> shows that they return; every other loop is
  a total function, with the depth caps of the source (64 for schemas, with the cap as an
  argument so that \<open>depth_cap_never_decides\<close> can vary it; 32 for the compiler).  The loop of
  \<open>parse_name_brace_calls\<close> takes fuel, one more than the length of the text, which is enough
  (\<open>name_brace_fuel\<close>): each turn takes away the name of a tool, and names are not empty.  A run
  of the engine loop or of the manager is a list of inputs or a chain of steps of any length.

  Parameters and hypotheses.  Third-party code and the hardware are arguments: tensors are values
  of a type variable with the operations the source calls, the quantizer's floats, the models'
  forwards, the sampler, the clock, the tokenizer, the memory figures of the machine, the files a
  load reads, \<open>serde_json\<close> and \<open>Value::pointer\<close>, the hash, the LRU map.  Where a property needs
  them to behave, it says so by name: \<open>tensor_laws\<close> (concatenation and slices along the token
  axis), \<open>pool_laws\<close> (selecting slots of a full-precision pool by index, and turning heads and
  tokens), \<open>causal_model\<close> (a forward may fail; a row depends on its own sequence up to its position
  only, and on the phases its tokens were computed in),
  \<open>byte_tokenizer\<close> (tokens decode to the bytes they stand for), the LRU laws; each has an instance
  among the witnesses.  One step of the engine, one attempt to load (with the eviction after it, though
  in the source the load runs outside the lock) and one critical section of the manager's lock are
  atomic steps.  The bytes of the shared budget are those of its books: an evicted engine gives
  them back when its slot is removed, and its pool stays in memory until its loop ends.  A cache
  restored from shared blocks is followed for full-precision pools only; for quantized ones the
  values read back are the quantizer's.

  Not modelled.
  \<^item> The tensor mathematics: \<open>src/common/metal_ops.rs\<close> and the Metal kernels, the layers
    (attention, feed-forward, mixture of experts, linear, rotary embedding, norms, masks, gated
    delta networks, AWQ), the floats of the quantizers (\<open>kv_quant\<close>, \<open>iq_quant\<close>, \<open>mxfp4\<close>) and of
    the sampler.  They are float code over the candle library and the GPU, whose rounding has no
    documented laws to prove against.
  \<^item> Reading and naming weights (\<open>weights\<close>, \<open>gguf_weights\<close>, \<open>gguf_model\<close>, \<open>gguf_probe\<close>,
    \<open>hf_parser\<close>, \<open>expert_stream\<close>), fetching them (\<open>hub\<close>), estimating their memory
    (\<open>estimate\<close>): files, network, and tables of layer names.
  \<^item> The tokenizer and the chat templates: wrappers of the \<open>tokenizers\<close> and \<open>minijinja\<close> crates.
  \<^item> The rest of the server (routing, metrics, embeddings, telemetry), the first half of the chat
    handler that prepares a prompt, the command line, the build script and the tests: glue and
    I/O around the parts above.
\<close>

end
